(* ===== verification/Prelude.thy ===== *)
theory Prelude
  imports Main "HOL-Library.Word" "HOL-Library.List_Lexorder"
begin

section \<open>Shared vocabulary of the development\<close>

text \<open>
  What every component uses of TypeScript and of its run time.

  \<^item> A \<open>number\<close> that holds a line, a column, an offset or an index is an \<open>int\<close>; the
    code only adds, subtracts and compares such numbers. Where the code truncates to 32 bits
    (\<open>x | 0\<close>, typed arrays) the truncation is written out.
  \<^item> A thrown exception is the left injection of the \<open>result\<close> type. \<open>OutOfFuel\<close> is not an exception: it
    stands for a loop over pointers that did not end within its fuel, and the theorems show that it
    does not come up.
  \<^item> A string is the list of its UTF-16 code units, which is what \<open>length\<close>, \<open>substring\<close>
    and \<open>charCodeAt\<close> count.
  \<^item> \<open>substring\<close>, \<open>slice\<close> and \<open>splice\<close> clamp their arguments as the language prescribes.
\<close>

datatype js_error = BugIndicatingError | IllegalArgumentError | TypeError | RangeError | NotSupportedError |
  PlainError | OutOfFuel

type_synonym 'a result = "js_error + 'a"

type_synonym code_unit = "16 word"

type_synonym js_string = "code_unit list"

named_theorems js_defs \<open>definitions of the language primitives\<close>
named_theorems range_defs \<open>definitions of the position and range operations\<close>
named_theorems offset_defs \<open>definitions of the offset-range operations\<close>
named_theorems edit_defs \<open>definitions of the edit operations\<close>

subsection \<open>Results\<close>

definition bind_result :: "'a result \<Rightarrow> ('a \<Rightarrow> 'b result) \<Rightarrow> 'b result" where
  "bind_result r f = (case r of Inl e \<Rightarrow> Inl e | Inr x \<Rightarrow> f x)"

fun map_result :: "('a \<Rightarrow> 'b result) \<Rightarrow> 'a list \<Rightarrow> 'b list result" where
  "map_result f [] = Inr []"
| "map_result f (x # xs) =
     bind_result (f x) (\<lambda>y. bind_result (map_result f xs) (\<lambda>ys. Inr (y # ys)))"

lemma bind_result_simps [simp]:
  "bind_result (Inl e) f = Inl e"
  "bind_result (Inr x) f = f x"
  by (simp_all add: bind_result_def)

lemma bind_result_cong:
  "r = r' \<Longrightarrow> (\<And>x. r' = Inr x \<Longrightarrow> f x = g x) \<Longrightarrow> bind_result r f = bind_result r' g"
  by (cases r') simp_all

lemma bind_result_Inr_iff:
  "bind_result r f = Inr y \<longleftrightarrow> (\<exists>x. r = Inr x \<and> f x = Inr y)"
  by (cases r) simp_all

lemma map_result_Inr: "map_result (\<lambda>x. Inr (f x)) xs = Inr (map f xs)"
  by (induction xs) simp_all

lemma map_result_cong_Inr:
  "(\<And>x. x \<in> set xs \<Longrightarrow> f x = Inr (g x)) \<Longrightarrow> map_result f xs = Inr (map g xs)"
  by (induction xs) simp_all

subsection \<open>Numbers\<close>

text \<open>\<open>v | 0\<close> on an integer: two's complement truncation to 32 bits.\<close>

definition toInt32 :: "int \<Rightarrow> int" where
  "toInt32 v = (v + 2147483648) mod 4294967296 - 2147483648"

definition is_int32 :: "int \<Rightarrow> bool" where
  "is_int32 v \<longleftrightarrow> - 2147483648 \<le> v \<and> v < 2147483648"

lemma toInt32_id [simp]: "is_int32 v \<Longrightarrow> toInt32 v = v"
  by (simp add: toInt32_def is_int32_def)

lemma is_int32_toInt32 [simp]: "is_int32 (toInt32 v)"
  using pos_mod_bound [of 4294967296 "v + 2147483648"]
    pos_mod_sign [of 4294967296 "v + 2147483648"]
  by (simp add: toInt32_def is_int32_def)

text \<open>A JavaScript comparator result: negative, zero or positive.\<close>

definition numberComparator :: "int \<Rightarrow> int \<Rightarrow> int" where
  "numberComparator a b = a - b"

subsection \<open>Arrays and strings\<close>

text \<open>\<open>Math.max(0, Math.min(i, n))\<close> as an index.\<close>

definition clamp_index :: "nat \<Rightarrow> int \<Rightarrow> nat" where
  "clamp_index n i = min n (nat i)"

text \<open>
  \<open>str.substring(a, b)\<close>: both arguments are clamped to the length and swapped when they are
  in the wrong order.
\<close>

definition js_substring :: "'a list \<Rightarrow> int \<Rightarrow> int \<Rightarrow> 'a list" where
  "js_substring s a b =
     (let i = clamp_index (length s) a; j = clamp_index (length s) b
      in take (max i j - min i j) (drop (min i j) s))"

text \<open>\<open>str.substring(a)\<close>.\<close>

definition js_substring_from :: "'a list \<Rightarrow> int \<Rightarrow> 'a list" where
  "js_substring_from s a = drop (clamp_index (length s) a) s"

text \<open>\<open>arr.slice(a, b)\<close>: a negative argument counts from the end; no swap.\<close>

definition js_relative_index :: "nat \<Rightarrow> int \<Rightarrow> nat" where
  "js_relative_index n i = (if i < 0 then nat (int n + i) else min n (nat i))"

definition js_slice :: "'a list \<Rightarrow> int \<Rightarrow> int \<Rightarrow> 'a list" where
  "js_slice xs a b =
     (let i = js_relative_index (length xs) a; j = js_relative_index (length xs) b
      in take (j - i) (drop i xs))"

definition js_slice_from :: "'a list \<Rightarrow> int \<Rightarrow> 'a list" where
  "js_slice_from xs a = drop (js_relative_index (length xs) a) xs"

text \<open>\<open>arr.splice(i, n, ...items)\<close> for an index \<open>i\<close> that is not negative: the array after it.\<close>

definition js_splice :: "'a list \<Rightarrow> nat \<Rightarrow> nat \<Rightarrow> 'a list \<Rightarrow> 'a list" where
  "js_splice xs i n items = take i xs @ items @ drop (i + n) xs"

text \<open>\<open>arr[i]\<close> out of range is \<open>undefined\<close>.\<close>

definition js_at :: "'a list \<Rightarrow> int \<Rightarrow> 'a option" where
  "js_at xs i = (if 0 \<le> i \<and> i < int (length xs) then Some (xs ! nat i) else None)"

lemmas [js_defs] = clamp_index_def js_substring_def js_substring_from_def js_relative_index_def
  js_slice_def js_slice_from_def js_splice_def js_at_def

lemma clamp_index_in_range [simp]: "a \<le> int n \<Longrightarrow> clamp_index n a = nat a"
  by (simp add: clamp_index_def min_absorb2 nat_le_iff)

lemma js_relative_index_in_range [simp]:
  "0 \<le> a \<Longrightarrow> a \<le> int n \<Longrightarrow> js_relative_index n a = nat a"
  by (simp add: js_relative_index_def min_absorb2 nat_le_iff)

lemma js_substring_in_range:
  "a \<le> b \<Longrightarrow> b \<le> int (length s) \<Longrightarrow>
     js_substring s a b = take (nat b - nat a) (drop (nat a) s)"
  by (simp add: js_substring_def Let_def max_absorb2 min_absorb1 nat_mono)

lemma js_substring_from_in_range:
  "a \<le> int (length s) \<Longrightarrow> js_substring_from s a = drop (nat a) s"
  by (simp add: js_substring_from_def)

lemma js_slice_in_range:
  "0 \<le> a \<Longrightarrow> a \<le> b \<Longrightarrow> b \<le> int (length s) \<Longrightarrow>
     js_slice s a b = take (nat b - nat a) (drop (nat a) s)"
  by (simp add: js_slice_def Let_def)

lemma js_slice_from_in_range:
  "0 \<le> a \<Longrightarrow> a \<le> int (length s) \<Longrightarrow> js_slice_from s a = drop (nat a) s"
  by (simp add: js_slice_from_def)

lemma js_at_nth [simp]: "i < length xs \<Longrightarrow> js_at xs (int i) = Some (xs ! i)"
  by (simp add: js_at_def)

lemma js_splice_length:
  "i + n \<le> length xs \<Longrightarrow> length (js_splice xs i n items) = length xs - n + length items"
  by (simp add: js_splice_def)

text \<open>\<open>lines.join(eol)\<close>.\<close>

fun js_join :: "'a list \<Rightarrow> 'a list list \<Rightarrow> 'a list" where
  "js_join eol [] = []"
| "js_join eol [l] = l"
| "js_join eol (l # l' # ls) = l @ eol @ js_join eol (l' # ls)"

end
