(* ===== verification/Position.thy ===== *)
theory Position
  imports Prelude
begin

section \<open>Positions: \<open>src/vs/editor/common/core/position.ts\<close>\<close>

text \<open>
  The record \<open>position\<close> is the class \<open>Position\<close> (and the interface \<open>IPosition\<close>): a
  one-based line number and column. Positions are ordered line first, then column; the order is
  made an instance of \<open>linorder\<close>, so that the comparisons of the class can be stated against the
  library's order and intervals of positions.
\<close>

record position =
  lineNumber :: int
  column :: int

definition mk_Position :: "int \<Rightarrow> int \<Rightarrow> position" where
  "mk_Position l c = \<lparr>lineNumber = l, column = c\<rparr>"

definition Position_with :: "position \<Rightarrow> int option \<Rightarrow> int option \<Rightarrow> position" where
  "Position_with p newLineNumber newColumn =
     (let l = (case newLineNumber of None \<Rightarrow> lineNumber p | Some l \<Rightarrow> l);
          c = (case newColumn of None \<Rightarrow> column p | Some c \<Rightarrow> c)
      in if l = lineNumber p \<and> c = column p then p else mk_Position l c)"

definition Position_delta :: "position \<Rightarrow> int \<Rightarrow> int \<Rightarrow> position" where
  "Position_delta p deltaLineNumber deltaColumn =
     Position_with p (Some (max 1 (lineNumber p + deltaLineNumber)))
       (Some (max 1 (column p + deltaColumn)))"

definition Position_equals :: "position option \<Rightarrow> position option \<Rightarrow> bool" where
  "Position_equals a b =
     (case (a, b) of
        (None, None) \<Rightarrow> True
      | (Some p, Some q) \<Rightarrow> lineNumber p = lineNumber q \<and> column p = column q
      | _ \<Rightarrow> False)"

definition Position_isBefore :: "position \<Rightarrow> position \<Rightarrow> bool" where
  "Position_isBefore a b =
     (if lineNumber a < lineNumber b then True
      else if lineNumber b < lineNumber a then False
      else column a < column b)"

definition Position_isBeforeOrEqual :: "position \<Rightarrow> position \<Rightarrow> bool" where
  "Position_isBeforeOrEqual a b =
     (if lineNumber a < lineNumber b then True
      else if lineNumber b < lineNumber a then False
      else column a \<le> column b)"

text \<open>\<open>compare\<close> truncates all four numbers with \<open>| 0\<close> before it subtracts them.\<close>

definition Position_compare :: "position \<Rightarrow> position \<Rightarrow> int" where
  "Position_compare a b =
     (let aLineNumber = toInt32 (lineNumber a); bLineNumber = toInt32 (lineNumber b)
      in if aLineNumber = bLineNumber
         then (let aColumn = toInt32 (column a); bColumn = toInt32 (column b) in aColumn - bColumn)
         else aLineNumber - bLineNumber)"

definition Position_clone :: "position \<Rightarrow> position" where
  "Position_clone p = mk_Position (lineNumber p) (column p)"

definition Position_lift :: "position \<Rightarrow> position" where
  "Position_lift p = mk_Position (lineNumber p) (column p)"

definition Position_toJSON :: "position \<Rightarrow> int \<times> int" where
  "Position_toJSON p = (lineNumber p, column p)"

lemmas [range_defs] = mk_Position_def Position_isBefore_def Position_isBeforeOrEqual_def

subsection \<open>The order of positions\<close>

instantiation position_ext :: (linorder) linorder
begin

definition less_eq_position_ext :: "'a position_ext \<Rightarrow> 'a position_ext \<Rightarrow> bool" where
  "less_eq_position_ext p q \<longleftrightarrow>
     lineNumber p < lineNumber q \<or>
     lineNumber p = lineNumber q \<and>
       (column p < column q \<or> column p = column q \<and> position.more p \<le> position.more q)"

definition less_position_ext :: "'a position_ext \<Rightarrow> 'a position_ext \<Rightarrow> bool" where
  "less_position_ext p q \<longleftrightarrow> p \<le> q \<and> \<not> q \<le> (p :: 'a position_ext)"

instance
proof
  fix p q r :: "'a position_ext"
  show "p < q \<longleftrightarrow> p \<le> q \<and> \<not> q \<le> p" by (rule less_position_ext_def)
  show "p \<le> p" by (simp add: less_eq_position_ext_def)
  show "p \<le> q \<Longrightarrow> q \<le> r \<Longrightarrow> p \<le> r" by (auto simp: less_eq_position_ext_def)
  show "p \<le> q \<Longrightarrow> q \<le> p \<Longrightarrow> p = q" by (cases p; cases q) (auto simp: less_eq_position_ext_def)
  show "p \<le> q \<or> q \<le> p" by (auto simp: less_eq_position_ext_def)
qed

end

lemma position_le_iff:
  "(p :: position) \<le> q \<longleftrightarrow>
     lineNumber p < lineNumber q \<or> lineNumber p = lineNumber q \<and> column p \<le> column q"
  by (auto simp: less_eq_position_ext_def)

lemma position_less_iff:
  "(p :: position) < q \<longleftrightarrow>
     lineNumber p < lineNumber q \<or> lineNumber p = lineNumber q \<and> column p < column q"
  by (auto simp: less_position_ext_def position_le_iff)

lemma position_eq_iff:
  "(p :: position) = q \<longleftrightarrow> lineNumber p = lineNumber q \<and> column p = column q"
  by (cases p; cases q) simp

lemmas position_order = position_le_iff position_less_iff position_eq_iff

lemma mk_Position_sel [simp]:
  "lineNumber (mk_Position l c) = l" "column (mk_Position l c) = c"
  by (simp_all add: mk_Position_def)

lemma mk_Position_collapse [simp]: "mk_Position (lineNumber p) (column p) = p"
  by (simp add: mk_Position_def)

lemma Position_isBefore_iff [simp]: "Position_isBefore a b \<longleftrightarrow> a < b"
  by (auto simp: Position_isBefore_def position_less_iff)

lemma Position_isBeforeOrEqual_iff [simp]: "Position_isBeforeOrEqual a b \<longleftrightarrow> a \<le> b"
  by (auto simp: Position_isBeforeOrEqual_def position_le_iff)

lemma Position_equals_iff: "Position_equals a b \<longleftrightarrow> a = b"
  by (auto simp: Position_equals_def position_eq_iff split: option.splits)

lemma Position_with_eq:
  "Position_with p l c =
     mk_Position (case l of None \<Rightarrow> lineNumber p | Some l \<Rightarrow> l)
       (case c of None \<Rightarrow> column p | Some c \<Rightarrow> c)"
  by (simp add: Position_with_def Let_def)

definition int32_position :: "position \<Rightarrow> bool" where
  "int32_position p \<longleftrightarrow> is_int32 (lineNumber p) \<and> is_int32 (column p)"

lemma Position_compare_int32:
  assumes "int32_position a" and "int32_position b"
  shows "(Position_compare a b < 0 \<longleftrightarrow> a < b) \<and> (Position_compare a b = 0 \<longleftrightarrow> a = b) \<and>
    (Position_compare a b > 0 \<longleftrightarrow> b < a)"
  using assms by (auto simp: Position_compare_def int32_position_def position_order Let_def)

end
