(* ===== verification/Range.thy ===== *)
theory Range
  imports Position
begin

section \<open>Ranges: \<open>src/vs/editor/common/core/range.ts\<close>\<close>

text \<open>
  The record \<open>range\<close> is the interface \<open>IRange\<close>: four numbers in any order. The constructor
  \<open>mk_Range\<close> of the class swaps the two ends when they are in the wrong order, so a value of
  the class \<open>Range\<close> satisfies \<open>valid_range\<close>. The static operations take any \<open>IRange\<close>; an
  operation whose argument may be \<open>null\<close> or \<open>undefined\<close> takes an \<open>option\<close>.

  A range denotes the closed interval of positions between its ends (\<open>range_positions\<close>); the
  lemmas relate every operation of the class to that interval.
\<close>

record range =
  startLineNumber :: int
  startColumn :: int
  endLineNumber :: int
  endColumn :: int

definition mk_Range :: "int \<Rightarrow> int \<Rightarrow> int \<Rightarrow> int \<Rightarrow> range" where
  "mk_Range sl sc el ec =
     (if sl > el \<or> sl = el \<and> sc > ec
      then \<lparr>startLineNumber = el, startColumn = ec, endLineNumber = sl, endColumn = sc\<rparr>
      else \<lparr>startLineNumber = sl, startColumn = sc, endLineNumber = el, endColumn = ec\<rparr>)"

definition Range_isEmpty :: "range \<Rightarrow> bool" where
  "Range_isEmpty r \<longleftrightarrow> startLineNumber r = endLineNumber r \<and> startColumn r = endColumn r"

definition Range_containsPosition :: "range \<Rightarrow> position \<Rightarrow> bool" where
  "Range_containsPosition r p =
     (if lineNumber p < startLineNumber r \<or> lineNumber p > endLineNumber r then False
      else if lineNumber p = startLineNumber r \<and> column p < startColumn r then False
      else if lineNumber p = endLineNumber r \<and> column p > endColumn r then False
      else True)"

definition Range_strictContainsPosition :: "range \<Rightarrow> position \<Rightarrow> bool" where
  "Range_strictContainsPosition r p =
     (if lineNumber p < startLineNumber r \<or> lineNumber p > endLineNumber r then False
      else if lineNumber p = startLineNumber r \<and> column p \<le> startColumn r then False
      else if lineNumber p = endLineNumber r \<and> column p \<ge> endColumn r then False
      else True)"

definition Range_containsRange :: "range \<Rightarrow> range \<Rightarrow> bool" where
  "Range_containsRange r other =
     (if startLineNumber other < startLineNumber r \<or> endLineNumber other < startLineNumber r
      then False
      else if startLineNumber other > endLineNumber r \<or> endLineNumber other > endLineNumber r
      then False
      else if startLineNumber other = startLineNumber r \<and> startColumn other < startColumn r
      then False
      else if endLineNumber other = endLineNumber r \<and> endColumn other > endColumn r
      then False
      else True)"

definition Range_strictContainsRange :: "range \<Rightarrow> range \<Rightarrow> bool" where
  "Range_strictContainsRange r other =
     (if startLineNumber other < startLineNumber r \<or> endLineNumber other < startLineNumber r
      then False
      else if startLineNumber other > endLineNumber r \<or> endLineNumber other > endLineNumber r
      then False
      else if startLineNumber other = startLineNumber r \<and> startColumn other \<le> startColumn r
      then False
      else if endLineNumber other = endLineNumber r \<and> endColumn other \<ge> endColumn r
      then False
      else True)"

definition Range_plusRange :: "range \<Rightarrow> range \<Rightarrow> range" where
  "Range_plusRange a b =
     (let (sl, sc) =
            (if startLineNumber b < startLineNumber a then (startLineNumber b, startColumn b)
             else if startLineNumber b = startLineNumber a
             then (startLineNumber b, min (startColumn b) (startColumn a))
             else (startLineNumber a, startColumn a));
          (el, ec) =
            (if endLineNumber b > endLineNumber a then (endLineNumber b, endColumn b)
             else if endLineNumber b = endLineNumber a
             then (endLineNumber b, max (endColumn b) (endColumn a))
             else (endLineNumber a, endColumn a))
      in mk_Range sl sc el ec)"

definition Range_intersectRanges :: "range \<Rightarrow> range \<Rightarrow> range option" where
  "Range_intersectRanges a b =
     (let (sl, sc) =
            (if startLineNumber a < startLineNumber b then (startLineNumber b, startColumn b)
             else if startLineNumber a = startLineNumber b
             then (startLineNumber a, max (startColumn a) (startColumn b))
             else (startLineNumber a, startColumn a));
          (el, ec) =
            (if endLineNumber a > endLineNumber b then (endLineNumber b, endColumn b)
             else if endLineNumber a = endLineNumber b
             then (endLineNumber a, min (endColumn a) (endColumn b))
             else (endLineNumber a, endColumn a))
      in if sl > el then None
         else if sl = el \<and> sc > ec then None
         else Some (mk_Range sl sc el ec))"

definition Range_equalsRange :: "range option \<Rightarrow> range option \<Rightarrow> bool" where
  "Range_equalsRange a b =
     (case (a, b) of
        (None, None) \<Rightarrow> True
      | (Some r, Some s) \<Rightarrow>
          startLineNumber r = startLineNumber s \<and> startColumn r = startColumn s \<and>
          endLineNumber r = endLineNumber s \<and> endColumn r = endColumn s
      | _ \<Rightarrow> False)"

definition Range_getEndPosition :: "range \<Rightarrow> position" where
  "Range_getEndPosition r = mk_Position (endLineNumber r) (endColumn r)"

definition Range_getStartPosition :: "range \<Rightarrow> position" where
  "Range_getStartPosition r = mk_Position (startLineNumber r) (startColumn r)"

definition Range_setEndPosition :: "range \<Rightarrow> int \<Rightarrow> int \<Rightarrow> range" where
  "Range_setEndPosition r el ec = mk_Range (startLineNumber r) (startColumn r) el ec"

definition Range_setStartPosition :: "range \<Rightarrow> int \<Rightarrow> int \<Rightarrow> range" where
  "Range_setStartPosition r sl sc = mk_Range sl sc (endLineNumber r) (endColumn r)"

definition Range_collapseToStart :: "range \<Rightarrow> range" where
  "Range_collapseToStart r =
     mk_Range (startLineNumber r) (startColumn r) (startLineNumber r) (startColumn r)"

definition Range_collapseToEnd :: "range \<Rightarrow> range" where
  "Range_collapseToEnd r =
     mk_Range (endLineNumber r) (endColumn r) (endLineNumber r) (endColumn r)"

definition Range_delta :: "range \<Rightarrow> int \<Rightarrow> range" where
  "Range_delta r lineCount =
     mk_Range (startLineNumber r + lineCount) (startColumn r)
       (endLineNumber r + lineCount) (endColumn r)"

definition Range_isSingleLine :: "range \<Rightarrow> bool" where
  "Range_isSingleLine r \<longleftrightarrow> startLineNumber r = endLineNumber r"

definition Range_fromPositions :: "position \<Rightarrow> position option \<Rightarrow> range" where
  "Range_fromPositions start e =
     (let e = (case e of None \<Rightarrow> start | Some e \<Rightarrow> e)
      in mk_Range (lineNumber start) (column start) (lineNumber e) (column e))"

definition Range_lift :: "range option \<Rightarrow> range option" where
  "Range_lift r =
     map_option (\<lambda>r. mk_Range (startLineNumber r) (startColumn r) (endLineNumber r) (endColumn r)) r"

definition Range_areIntersectingOrTouching :: "range \<Rightarrow> range \<Rightarrow> bool" where
  "Range_areIntersectingOrTouching a b =
     (if endLineNumber a < startLineNumber b \<or>
         endLineNumber a = startLineNumber b \<and> endColumn a < startColumn b then False
      else if endLineNumber b < startLineNumber a \<or>
         endLineNumber b = startLineNumber a \<and> endColumn b < startColumn a then False
      else True)"

definition Range_areIntersecting :: "range \<Rightarrow> range \<Rightarrow> bool" where
  "Range_areIntersecting a b =
     (if endLineNumber a < startLineNumber b \<or>
         endLineNumber a = startLineNumber b \<and> endColumn a \<le> startColumn b then False
      else if endLineNumber b < startLineNumber a \<or>
         endLineNumber b = startLineNumber a \<and> endColumn b \<le> startColumn a then False
      else True)"

definition Range_areOnlyIntersecting :: "range \<Rightarrow> range \<Rightarrow> bool" where
  "Range_areOnlyIntersecting a b =
     (if endLineNumber a < startLineNumber b - 1 \<or>
         endLineNumber a = startLineNumber b \<and> endColumn a < startColumn b - 1 then False
      else if endLineNumber b < startLineNumber a - 1 \<or>
         endLineNumber b = startLineNumber a \<and> endColumn b < startColumn a - 1 then False
      else True)"

definition Range_compareRangesUsingStarts :: "range option \<Rightarrow> range option \<Rightarrow> int" where
  "Range_compareRangesUsingStarts a b =
     (case (a, b) of
        (Some r, Some s) \<Rightarrow>
          (let aStartLineNumber = toInt32 (startLineNumber r);
               bStartLineNumber = toInt32 (startLineNumber s)
           in if aStartLineNumber = bStartLineNumber
              then (let aStartColumn = toInt32 (startColumn r);
                        bStartColumn = toInt32 (startColumn s)
                    in if aStartColumn = bStartColumn
                       then (let aEndLineNumber = toInt32 (endLineNumber r);
                                 bEndLineNumber = toInt32 (endLineNumber s)
                             in if aEndLineNumber = bEndLineNumber
                                then (let aEndColumn = toInt32 (endColumn r);
                                          bEndColumn = toInt32 (endColumn s)
                                      in aEndColumn - bEndColumn)
                                else aEndLineNumber - bEndLineNumber)
                       else aStartColumn - bStartColumn)
              else aStartLineNumber - bStartLineNumber)
      | _ \<Rightarrow> (if a = None then 0 else 1) - (if b = None then 0 else 1))"

definition Range_compareRangesUsingEnds :: "range \<Rightarrow> range \<Rightarrow> int" where
  "Range_compareRangesUsingEnds a b =
     (if endLineNumber a = endLineNumber b
      then (if endColumn a = endColumn b
            then (if startLineNumber a = startLineNumber b
                  then startColumn a - startColumn b
                  else startLineNumber a - startLineNumber b)
            else endColumn a - endColumn b)
      else endLineNumber a - endLineNumber b)"

definition Range_spansMultipleLines :: "range \<Rightarrow> bool" where
  "Range_spansMultipleLines r \<longleftrightarrow> endLineNumber r > startLineNumber r"

subsection \<open>Ranges as intervals of positions\<close>

definition valid_range :: "range \<Rightarrow> bool" where
  "valid_range r \<longleftrightarrow> Range_getStartPosition r \<le> Range_getEndPosition r"

definition range_positions :: "range \<Rightarrow> position set" where
  "range_positions r = {Range_getStartPosition r .. Range_getEndPosition r}"

lemmas range_ends = Range_getStartPosition_def Range_getEndPosition_def

lemma range_eq_iff:
  "(r :: range) = s \<longleftrightarrow>
     Range_getStartPosition r = Range_getStartPosition s \<and>
     Range_getEndPosition r = Range_getEndPosition s"
  by (cases r; cases s) (auto simp: range_ends mk_Position_def)

lemma Range_getStartPosition_mk:
  "Range_getStartPosition (mk_Range sl sc el ec) = min (mk_Position sl sc) (mk_Position el ec)"
  by (auto simp: range_ends mk_Range_def min_def position_order)

lemma Range_getEndPosition_mk:
  "Range_getEndPosition (mk_Range sl sc el ec) = max (mk_Position sl sc) (mk_Position el ec)"
  by (auto simp: range_ends mk_Range_def max_def position_order)

lemmas range_mk_ends [simp] = Range_getStartPosition_mk Range_getEndPosition_mk

lemma valid_mk_Range [simp, intro]: "valid_range (mk_Range sl sc el ec)"
  by (simp add: valid_range_def min_le_iff_disj le_max_iff_disj)

lemma Range_containsPosition_iff: "Range_containsPosition r p \<longleftrightarrow> p \<in> range_positions r"
  by (auto simp: Range_containsPosition_def range_positions_def range_ends position_order)

lemma Range_strictContainsPosition_iff:
  "Range_strictContainsPosition r p \<longleftrightarrow>
     Range_getStartPosition r < p \<and> p < Range_getEndPosition r"
  by (auto simp: Range_strictContainsPosition_def range_ends position_order)

lemma Range_containsRange_ends:
  assumes "valid_range s"
  shows "Range_containsRange r s \<longleftrightarrow>
    Range_getStartPosition r \<le> Range_getStartPosition s \<and>
    Range_getEndPosition s \<le> Range_getEndPosition r"
  using assms by (auto simp: Range_containsRange_def valid_range_def range_ends position_order)

lemma Range_strictContainsRange_ends:
  assumes "valid_range s"
  shows "Range_strictContainsRange r s \<longleftrightarrow>
    Range_getStartPosition r < Range_getStartPosition s \<and>
    Range_getEndPosition s < Range_getEndPosition r"
  using assms
  by (auto simp: Range_strictContainsRange_def valid_range_def range_ends position_order)

lemma range_positions_subset_iff:
  "valid_range s \<Longrightarrow> range_positions s \<subseteq> range_positions r \<longleftrightarrow>
     Range_getStartPosition r \<le> Range_getStartPosition s \<and>
     Range_getEndPosition s \<le> Range_getEndPosition r"
  by (simp add: range_positions_def valid_range_def)

text \<open>
  The join and the meet: the code compares lines first and columns on a tie, which is \<open>min\<close> and
  \<open>max\<close> in the order of positions.
\<close>

lemma pair_min_position:
  "(if y < x then (y, d) else if y = x then (y, min d c) else (x, c)) =
     (lineNumber (min (mk_Position x c) (mk_Position y d)),
      column (min (mk_Position x c) (mk_Position y d)))"
  by (auto simp: min_def position_le_iff)

lemma pair_max_position:
  "(if y > x then (y, d) else if y = x then (y, max d c) else (x, c)) =
     (lineNumber (max (mk_Position x c) (mk_Position y d)),
      column (max (mk_Position x c) (mk_Position y d)))"
  by (auto simp: max_def position_le_iff)

lemma Range_plusRange_fromPositions:
  "Range_plusRange a b =
     Range_fromPositions (min (Range_getStartPosition a) (Range_getStartPosition b))
       (Some (max (Range_getEndPosition a) (Range_getEndPosition b)))"
  unfolding Range_plusRange_def pair_min_position pair_max_position
  by (simp add: Range_fromPositions_def range_ends Let_def)

lemma Range_fromPositions_ends:
  "s \<le> e \<Longrightarrow> Range_getStartPosition (Range_fromPositions s (Some e)) = s"
  "s \<le> e \<Longrightarrow> Range_getEndPosition (Range_fromPositions s (Some e)) = e"
  by (simp_all add: Range_fromPositions_def)

lemma Range_plusRange_ends:
  assumes "valid_range a"
  shows "Range_getStartPosition (Range_plusRange a b) =
      min (Range_getStartPosition a) (Range_getStartPosition b)"
    and "Range_getEndPosition (Range_plusRange a b) =
      max (Range_getEndPosition a) (Range_getEndPosition b)"
proof -
  have "min (Range_getStartPosition a) (Range_getStartPosition b)
      \<le> max (Range_getEndPosition a) (Range_getEndPosition b)"
    using assms by (auto simp: valid_range_def min_le_iff_disj le_max_iff_disj)
  then show "Range_getStartPosition (Range_plusRange a b) =
      min (Range_getStartPosition a) (Range_getStartPosition b)"
    and "Range_getEndPosition (Range_plusRange a b) =
      max (Range_getEndPosition a) (Range_getEndPosition b)"
    by (simp_all add: Range_plusRange_fromPositions Range_fromPositions_ends)
qed

lemma valid_Range_plusRange [simp]: "valid_range (Range_plusRange a b)"
  by (auto simp: Range_plusRange_def Let_def split: prod.split)

lemma Range_intersectRanges_cases:
  "Range_intersectRanges a b =
     (let s = max (Range_getStartPosition a) (Range_getStartPosition b);
          e = min (Range_getEndPosition a) (Range_getEndPosition b)
      in if s \<le> e then Some (Range_fromPositions s (Some e)) else None)"
proof -
  have start: "(if startLineNumber a < startLineNumber b then (startLineNumber b, startColumn b)
      else if startLineNumber a = startLineNumber b
      then (startLineNumber a, max (startColumn a) (startColumn b))
      else (startLineNumber a, startColumn a)) = (lineNumber s, column s)"
    if "s = max (Range_getStartPosition a) (Range_getStartPosition b)" for s
    by (auto simp: that range_ends max_def position_le_iff)
  have "end": "(if endLineNumber a > endLineNumber b then (endLineNumber b, endColumn b)
      else if endLineNumber a = endLineNumber b
      then (endLineNumber a, min (endColumn a) (endColumn b))
      else (endLineNumber a, endColumn a)) = (lineNumber e, column e)"
    if "e = min (Range_getEndPosition a) (Range_getEndPosition b)" for e
    by (auto simp: that range_ends min_def position_le_iff)
  show ?thesis
    unfolding Range_intersectRanges_def start [OF refl] "end" [OF refl]
    by (auto simp: Range_fromPositions_def Let_def position_le_iff)
qed

lemma Range_fromPositions_roundtrip:
  assumes "valid_range r"
  shows "Range_fromPositions (Range_getStartPosition r) (Some (Range_getEndPosition r)) = r"
  using assms by (simp add: range_eq_iff Range_fromPositions_ends valid_range_def)

lemma Range_areIntersectingOrTouching_ends:
  "Range_areIntersectingOrTouching a b \<longleftrightarrow>
     Range_getStartPosition b \<le> Range_getEndPosition a \<and>
     Range_getStartPosition a \<le> Range_getEndPosition b"
  by (auto simp: Range_areIntersectingOrTouching_def range_ends position_order)

lemma Range_areIntersecting_ends:
  "Range_areIntersecting a b \<longleftrightarrow>
     Range_getStartPosition b < Range_getEndPosition a \<and>
     Range_getStartPosition a < Range_getEndPosition b"
  by (auto simp: Range_areIntersecting_def range_ends position_order)

definition int32_range :: "range \<Rightarrow> bool" where
  "int32_range r \<longleftrightarrow>
     int32_position (Range_getStartPosition r) \<and> int32_position (Range_getEndPosition r)"

text \<open>The sort key of a range: its start, then its end.\<close>

lemma Range_compareRangesUsingStarts_sign:
  assumes "int32_range r" and "int32_range s"
  shows "Range_compareRangesUsingStarts (Some r) (Some s) < 0 \<longleftrightarrow>
      Range_getStartPosition r < Range_getStartPosition s \<or>
      Range_getStartPosition r = Range_getStartPosition s \<and>
        Range_getEndPosition r < Range_getEndPosition s"
    and "Range_compareRangesUsingStarts (Some r) (Some s) = 0 \<longleftrightarrow> r = s"
  using assms
  by (auto simp: Range_compareRangesUsingStarts_def int32_range_def int32_position_def range_ends
      position_order Let_def intro: range.equality)

lemma Range_compareRangesUsingEnds_sign:
  "Range_compareRangesUsingEnds r s < 0 \<longleftrightarrow>
      Range_getEndPosition r < Range_getEndPosition s \<or>
      Range_getEndPosition r = Range_getEndPosition s \<and>
        Range_getStartPosition r < Range_getStartPosition s"
  "Range_compareRangesUsingEnds r s = 0 \<longleftrightarrow> r = s"
  by (auto simp: Range_compareRangesUsingEnds_def range_ends position_order
      intro: range.equality)

lemma Range_compareRangesUsingEnds_antisym:
  "Range_compareRangesUsingEnds s r = - Range_compareRangesUsingEnds r s"
  by (simp add: Range_compareRangesUsingEnds_def)

subsection \<open>Properties\<close>

text \<open>\<open>plusRange\<close> is the smallest range that contains both ranges, and \<open>intersectRanges\<close> the
  largest one both contain: a range contains the two exactly if it contains their \<open>plusRange\<close>, and a
  position is in both exactly if it is in their intersection.\<close>

lemma Range_plus_intersect:
  assumes "valid_range a" and "valid_range b"
  shows "(Range_containsRange c (Range_plusRange a b) \<longleftrightarrow> Range_containsRange c a \<and> Range_containsRange c b) \<and>
    (Range_containsPosition a p \<and> Range_containsPosition b p \<longleftrightarrow>
      (\<exists>i. Range_intersectRanges a b = Some i \<and> Range_containsPosition i p))"
proof
  show "Range_containsRange c (Range_plusRange a b) \<longleftrightarrow> Range_containsRange c a \<and> Range_containsRange c b"
    using assms by (auto simp: Range_containsRange_ends Range_plusRange_ends)
  have "p \<in> range_positions r \<longleftrightarrow> Range_getStartPosition r \<le> p \<and> p \<le> Range_getEndPosition r" for r
    by (simp add: range_positions_def)
  then show "Range_containsPosition a p \<and> Range_containsPosition b p \<longleftrightarrow>
      (\<exists>i. Range_intersectRanges a b = Some i \<and> Range_containsPosition i p)"
    by (auto simp: Range_containsPosition_iff Range_intersectRanges_cases Let_def Range_fromPositions_ends)
qed

text \<open>\<open>compareRangesUsingStarts\<close>, which truncates its operands to 32 bits, orders ranges whose
  coordinates are 32-bit numbers by their starts and then by their ends, and gives zero for equal
  ranges only.\<close>

lemma compareRangesUsingStarts_order:
  assumes "int32_range r" and "int32_range s"
  shows "(Range_compareRangesUsingStarts (Some r) (Some s) < 0 \<longleftrightarrow>
      Range_getStartPosition r < Range_getStartPosition s \<or>
      Range_getStartPosition r = Range_getStartPosition s \<and> Range_getEndPosition r < Range_getEndPosition s) \<and>
    (Range_compareRangesUsingStarts (Some r) (Some s) = 0 \<longleftrightarrow> r = s)"
  using Range_compareRangesUsingStarts_sign [OF assms] by blast

end
