(* ===== verification/Selection.thy ===== *)
theory Selection
  imports Range
begin

section \<open>Selections: \<open>src/vs/editor/common/core/selection.ts\<close>\<close>

text \<open>
  \<open>class Selection extends Range\<close>: the record \<open>selection\<close> extends the record of ranges by the
  anchor (\<open>selectionStart\<close>) and the active end (\<open>position\<close>). The constructor calls the
  constructor of \<open>Range\<close>, which sorts the two ends, and keeps the unsorted ends beside them;
  the direction is read off by comparing the anchor with the sorted start.
\<close>

datatype SelectionDirection = LTR | RTL

record selection = "range" +
  selectionStartLineNumber :: int
  selectionStartColumn :: int
  positionLineNumber :: int
  positionColumn :: int

definition mk_Selection :: "int \<Rightarrow> int \<Rightarrow> int \<Rightarrow> int \<Rightarrow> selection" where
  "mk_Selection sl sc pl pc =
     range.extend (mk_Range sl sc pl pc)
       (selection.fields sl sc pl pc)"

definition Selection_selectionsEqual :: "selection \<Rightarrow> selection \<Rightarrow> bool" where
  "Selection_selectionsEqual a b \<longleftrightarrow>
     selectionStartLineNumber a = selectionStartLineNumber b \<and>
     selectionStartColumn a = selectionStartColumn b \<and>
     positionLineNumber a = positionLineNumber b \<and>
     positionColumn a = positionColumn b"

definition Selection_getDirection :: "selection \<Rightarrow> SelectionDirection" where
  "Selection_getDirection s =
     (if selectionStartLineNumber s = startLineNumber s \<and> selectionStartColumn s = startColumn s
      then LTR else RTL)"

definition Selection_setEndPosition :: "selection \<Rightarrow> int \<Rightarrow> int \<Rightarrow> selection" where
  "Selection_setEndPosition s el ec =
     (if Selection_getDirection s = LTR
      then mk_Selection (startLineNumber s) (startColumn s) el ec
      else mk_Selection el ec (startLineNumber s) (startColumn s))"

definition Selection_getPosition :: "selection \<Rightarrow> position" where
  "Selection_getPosition s = mk_Position (positionLineNumber s) (positionColumn s)"

definition Selection_getSelectionStart :: "selection \<Rightarrow> position" where
  "Selection_getSelectionStart s =
     mk_Position (selectionStartLineNumber s) (selectionStartColumn s)"

definition Selection_setStartPosition :: "selection \<Rightarrow> int \<Rightarrow> int \<Rightarrow> selection" where
  "Selection_setStartPosition s sl sc =
     (if Selection_getDirection s = LTR
      then mk_Selection sl sc (endLineNumber s) (endColumn s)
      else mk_Selection (endLineNumber s) (endColumn s) sl sc)"

definition Selection_fromPositions :: "position \<Rightarrow> position option \<Rightarrow> selection" where
  "Selection_fromPositions start e =
     (let e = (case e of None \<Rightarrow> start | Some e \<Rightarrow> e)
      in mk_Selection (lineNumber start) (column start) (lineNumber e) (column e))"

definition Selection_fromRange :: "range \<Rightarrow> SelectionDirection \<Rightarrow> selection" where
  "Selection_fromRange r direction =
     (if direction = LTR
      then mk_Selection (startLineNumber r) (startColumn r) (endLineNumber r) (endColumn r)
      else mk_Selection (endLineNumber r) (endColumn r) (startLineNumber r) (startColumn r))"

definition Selection_liftSelection :: "selection \<Rightarrow> selection" where
  "Selection_liftSelection s =
     mk_Selection (selectionStartLineNumber s) (selectionStartColumn s)
       (positionLineNumber s) (positionColumn s)"

text \<open>The loop of \<open>selectionsArrEqual\<close> over two arrays of the same length.\<close>

fun selectionsArrEqual_loop :: "selection list \<Rightarrow> selection list \<Rightarrow> bool" where
  "selectionsArrEqual_loop (a # as) (b # bs) =
     (if \<not> Selection_selectionsEqual a b then False else selectionsArrEqual_loop as bs)"
| "selectionsArrEqual_loop _ _ = True"

definition Selection_selectionsArrEqual ::
    "selection list option \<Rightarrow> selection list option \<Rightarrow> bool" where
  "Selection_selectionsArrEqual a b =
     (case (a, b) of
        (Some _, None) \<Rightarrow> False
      | (None, Some _) \<Rightarrow> False
      | (None, None) \<Rightarrow> True
      | (Some as, Some bs) \<Rightarrow>
          (if length as \<noteq> length bs then False else selectionsArrEqual_loop as bs))"

definition Selection_createWithDirection ::
    "int \<Rightarrow> int \<Rightarrow> int \<Rightarrow> int \<Rightarrow> SelectionDirection \<Rightarrow> selection" where
  "Selection_createWithDirection sl sc el ec direction =
     (if direction = LTR then mk_Selection sl sc el ec else mk_Selection el ec sl sc)"

subsection \<open>Selections and their ranges\<close>

definition selection_range :: "selection \<Rightarrow> range" where
  "selection_range s = range.truncate s"

definition valid_selection :: "selection \<Rightarrow> bool" where
  "valid_selection s \<longleftrightarrow> s = Selection_liftSelection s"

lemma mk_Selection_sel [simp]:
  "selectionStartLineNumber (mk_Selection sl sc pl pc) = sl"
  "selectionStartColumn (mk_Selection sl sc pl pc) = sc"
  "positionLineNumber (mk_Selection sl sc pl pc) = pl"
  "positionColumn (mk_Selection sl sc pl pc) = pc"
  "startLineNumber (mk_Selection sl sc pl pc) = startLineNumber (mk_Range sl sc pl pc)"
  "startColumn (mk_Selection sl sc pl pc) = startColumn (mk_Range sl sc pl pc)"
  "endLineNumber (mk_Selection sl sc pl pc) = endLineNumber (mk_Range sl sc pl pc)"
  "endColumn (mk_Selection sl sc pl pc) = endColumn (mk_Range sl sc pl pc)"
  by (simp_all add: mk_Selection_def range.defs selection.defs)

lemma valid_mk_Selection [simp]: "valid_selection (mk_Selection sl sc pl pc)"
  by (simp add: valid_selection_def Selection_liftSelection_def)

lemma selection_range_mk [simp]: "selection_range (mk_Selection sl sc pl pc) = mk_Range sl sc pl pc"
  by (simp add: selection_range_def range.truncate_def)

lemma selection_range_ends:
  "valid_selection s \<Longrightarrow>
     Range_getStartPosition (selection_range s) =
       min (Selection_getSelectionStart s) (Selection_getPosition s)"
  "valid_selection s \<Longrightarrow>
     Range_getEndPosition (selection_range s) =
       max (Selection_getSelectionStart s) (Selection_getPosition s)"
  unfolding valid_selection_def
  by (metis Range_getStartPosition_mk Selection_getPosition_def Selection_getSelectionStart_def
      Selection_liftSelection_def selection_range_mk)
    (metis Range_getEndPosition_mk Selection_getPosition_def Selection_getSelectionStart_def
      Selection_liftSelection_def selection_range_mk)

lemma Selection_getDirection_mk:
  "Selection_getDirection (mk_Selection sl sc pl pc) =
     (if mk_Position sl sc \<le> mk_Position pl pc then LTR else RTL)"
  by (auto simp: Selection_getDirection_def mk_Range_def position_le_iff)

lemma Selection_lift_cong:
  "Selection_selectionsEqual a b \<Longrightarrow> Selection_liftSelection a = Selection_liftSelection b"
  by (simp add: Selection_selectionsEqual_def Selection_liftSelection_def)

lemma Selection_selectionsEqual_refl: "Selection_selectionsEqual a a"
  by (simp add: Selection_selectionsEqual_def)

lemma Selection_selectionsEqual_iff:
  "valid_selection a \<Longrightarrow> valid_selection b \<Longrightarrow> Selection_selectionsEqual a b \<longleftrightarrow> a = b"
  unfolding valid_selection_def
  by (metis Selection_lift_cong Selection_selectionsEqual_refl)

lemma selectionsArrEqual_loop_iff:
  "length as = length bs \<Longrightarrow> selectionsArrEqual_loop as bs \<longleftrightarrow>
     list_all2 Selection_selectionsEqual as bs"
  by (induction as bs rule: list_induct2) simp_all

end
