(* ===== verification/IntervalSets.thy ===== *)
theory IntervalSets
  imports Prelude
begin

section \<open>Sorted lists of intervals\<close>

text \<open>
  \<open>OffsetRangeSet\<close> and \<open>LineRangeSet\<close> both keep a sorted array of half-open intervals in
  which no two neighbours touch, and both add an interval by replacing the run of intervals it
  touches by their hull. What their proofs share is stated here once, over the interface that
  an interval type offers: its two bounds and a constructor that sets them. The locale is
  interpreted for offset ranges and for line ranges.
\<close>

definition separated :: "('r \<Rightarrow> int) \<Rightarrow> ('r \<Rightarrow> int) \<Rightarrow> 'r list \<Rightarrow> bool" where
  "separated lo hi rs \<longleftrightarrow>
     (\<forall>r\<in>set rs. lo r \<le> hi r) \<and> sorted_wrt (\<lambda>r s. hi r < lo s) rs"

definition covered :: "('r \<Rightarrow> int) \<Rightarrow> ('r \<Rightarrow> int) \<Rightarrow> 'r list \<Rightarrow> int set" where
  "covered lo hi rs = (\<Union>r\<in>set rs. {lo r ..< hi r})"

lemma covered_simps [simp]:
  "covered lo hi [] = {}"
  "covered lo hi (r # rs) = {lo r ..< hi r} \<union> covered lo hi rs"
  "covered lo hi (rs @ ss) = covered lo hi rs \<union> covered lo hi ss"
  by (auto simp: covered_def)

lemma separated_simps [simp]:
  "separated lo hi []"
  "separated lo hi (r # rs) \<longleftrightarrow>
     lo r \<le> hi r \<and> (\<forall>s\<in>set rs. hi r < lo s) \<and> separated lo hi rs"
  "separated lo hi (rs @ ss) \<longleftrightarrow>
     separated lo hi rs \<and> separated lo hi ss \<and> (\<forall>r\<in>set rs. \<forall>s\<in>set ss. hi r < lo s)"
  by (auto simp: separated_def sorted_wrt_append)

lemma separated_valid: "separated lo hi rs \<Longrightarrow> r \<in> set rs \<Longrightarrow> lo r \<le> hi r"
  by (simp add: separated_def)

lemma separated_takeWhile: "separated lo hi rs \<Longrightarrow> separated lo hi (takeWhile p rs)"
  by (metis separated_simps(3) takeWhile_dropWhile_id)

lemma separated_dropWhile: "separated lo hi rs \<Longrightarrow> separated lo hi (dropWhile p rs)"
  by (metis separated_simps(3) takeWhile_dropWhile_id)

text \<open>The lower and the upper bounds grow along a separated list.\<close>

lemma separated_lo_mono:
  assumes "separated lo hi (r # rs)" and "s \<in> set rs"
  shows "hi r < lo s" "lo r \<le> lo s" "hi r \<le> hi s"
  using assms separated_valid [of lo hi rs s] by fastforce+

lemma separated_nth_less:
  assumes "separated lo hi rs" and "i < j" and "j < length rs"
  shows "hi (rs ! i) < lo (rs ! j)"
  using assms by (auto simp: separated_def sorted_wrt_iff_nth_less)

lemma separated_hd_last:
  assumes "separated lo hi rs" and "r \<in> set rs"
  shows "lo (hd rs) \<le> lo r" and "hi r \<le> hi (last rs)"
proof -
  from assms show "lo (hd rs) \<le> lo r"
    by (cases rs) (auto dest: separated_valid intro: less_imp_le order_trans)
  from assms show "hi r \<le> hi (last rs)"
    by (cases rs rule: rev_cases) (auto dest: separated_valid intro: less_imp_le order_trans)
qed

text \<open>Everything behind the true prefix of a predicate that is downward closed fails it.\<close>

lemma dropWhile_lo_bound:
  assumes "separated lo hi rs" and "s \<in> set (dropWhile (\<lambda>r. lo r \<le> b) rs)"
  shows "b < lo s"
  using assms
proof (induction rs)
  case (Cons a rs)
  then show ?case using separated_lo_mono [of lo hi a rs s] by (auto split: if_splits)
qed simp

lemma dropWhile_hi_bound:
  assumes "separated lo hi rs" and "s \<in> set (dropWhile (\<lambda>r. hi r < b) rs)"
  shows "b \<le> hi s"
  using assms
proof (induction rs)
  case (Cons a rs)
  then show ?case using separated_lo_mono [of lo hi a rs s] by (auto split: if_splits)
qed simp

locale intervals =
  fixes lo :: "'r \<Rightarrow> int" and hi :: "'r \<Rightarrow> int" and mk :: "int \<Rightarrow> int \<Rightarrow> 'r"
  assumes lo_mk [simp]: "lo (mk a b) = a"
    and hi_mk [simp]: "hi (mk a b) = b"
begin

text \<open>An interval together with a separated run of intervals that all touch it is their hull.\<close>

lemma touching_hull:
  assumes "separated lo hi ms" and "ms \<noteq> []" and "a \<le> b"
    and "\<forall>s\<in>set ms. a \<le> hi s \<and> lo s \<le> b"
  shows "covered lo hi ms \<union> {a ..< b} = {min a (lo (hd ms)) ..< max b (hi (last ms))}"
proof
  show "covered lo hi ms \<union> {a ..< b} \<subseteq> {min a (lo (hd ms)) ..< max b (hi (last ms))}"
    using separated_hd_last [OF assms(1)] by (force simp: covered_def)
  have "hd ms \<in> set ms" "last ms \<in> set ms" using assms(2) by simp_all
  with assms(4) have "a \<le> hi (hd ms)" "lo (last ms) \<le> b" by simp_all
  then have "x \<in> {lo (hd ms) ..< hi (hd ms)} \<or> x \<in> {lo (last ms) ..< hi (last ms)} \<or> x \<in> {a ..< b}"
    if "x \<in> {min a (lo (hd ms)) ..< max b (hi (last ms))}" for x
    using that by (simp add: min_def max_def split: if_splits) linarith+
  with \<open>hd ms \<in> set ms\<close> \<open>last ms \<in> set ms\<close>
  show "{min a (lo (hd ms)) ..< max b (hi (last ms))} \<subseteq> covered lo hi ms \<union> {a ..< b}"
    unfolding covered_def by blast
qed

text \<open>Splitting at the intervals that touch the new one.\<close>

definition before :: "'r \<Rightarrow> 'r list \<Rightarrow> 'r list" where
  "before r rs = takeWhile (\<lambda>s. hi s < lo r) rs"

definition touching :: "'r \<Rightarrow> 'r list \<Rightarrow> 'r list" where
  "touching r rs = takeWhile (\<lambda>s. lo s \<le> hi r) (dropWhile (\<lambda>s. hi s < lo r) rs)"

definition after :: "'r \<Rightarrow> 'r list \<Rightarrow> 'r list" where
  "after r rs = dropWhile (\<lambda>s. lo s \<le> hi r) (dropWhile (\<lambda>s. hi s < lo r) rs)"

lemma split_run: "rs = before r rs @ touching r rs @ after r rs"
  by (simp add: before_def touching_def after_def)

lemma before_bound: "s \<in> set (before r rs) \<Longrightarrow> hi s < lo r"
  by (auto simp: before_def dest: set_takeWhileD)

lemma touching_bound:
  "separated lo hi rs \<Longrightarrow> s \<in> set (touching r rs) \<Longrightarrow> lo r \<le> hi s \<and> lo s \<le> hi r"
  unfolding touching_def using dropWhile_hi_bound [of lo hi rs s "lo r"]
  by (auto dest: set_takeWhileD)

lemma after_bound: "separated lo hi rs \<Longrightarrow> s \<in> set (after r rs) \<Longrightarrow> hi r < lo s"
  unfolding after_def by (rule dropWhile_lo_bound [OF separated_dropWhile])

lemma separated_parts:
  assumes "separated lo hi rs"
  shows "separated lo hi (before r rs)" "separated lo hi (touching r rs)"
    "separated lo hi (after r rs)"
    "\<And>s t. s \<in> set (before r rs) \<Longrightarrow> t \<in> set (touching r rs @ after r rs) \<Longrightarrow> hi s < lo t"
    "\<And>s t. s \<in> set (touching r rs) \<Longrightarrow> t \<in> set (after r rs) \<Longrightarrow> hi s < lo t"
  using assms split_run [of rs r] by (metis separated_simps(3) Un_iff set_append)+

text \<open>The hull of the new interval and its touching run.\<close>

definition hull :: "'r \<Rightarrow> 'r list \<Rightarrow> 'r" where
  "hull r ms = (if ms = [] then r
     else mk (min (lo r) (lo (hd ms))) (max (hi r) (hi (last ms))))"

lemma hull_valid: "separated lo hi ms \<Longrightarrow> lo r \<le> hi r \<Longrightarrow> lo (hull r ms) \<le> hi (hull r ms)"
  by (simp add: hull_def min_le_iff_disj le_max_iff_disj)

theorem insert_covered:
  assumes "separated lo hi rs" and "lo r \<le> hi r"
  shows "covered lo hi (before r rs @ hull r (touching r rs) # after r rs) =
    covered lo hi rs \<union> {lo r ..< hi r}"
proof -
  have "{lo (hull r (touching r rs)) ..< hi (hull r (touching r rs))} =
      covered lo hi (touching r rs) \<union> {lo r ..< hi r}"
  proof (cases "touching r rs = []")
    case False
    then show ?thesis
      using touching_hull [OF separated_parts(2) [OF assms(1)] False assms(2)]
        touching_bound [OF assms(1)] by (auto simp: hull_def)
  qed (simp add: hull_def)
  moreover have "covered lo hi rs =
      covered lo hi (before r rs) \<union> covered lo hi (touching r rs) \<union> covered lo hi (after r rs)"
    using split_run [of rs r] by (metis covered_simps(3) Un_assoc)
  ultimately show ?thesis by auto
qed

theorem insert_separated:
  assumes "separated lo hi rs" and "lo r \<le> hi r"
  shows "separated lo hi (before r rs @ hull r (touching r rs) # after r rs)"
proof -
  note parts = separated_parts [OF assms(1), where r = r]
  have "hi s < lo (hull r (touching r rs))" if "s \<in> set (before r rs)" for s
  proof (cases "touching r rs = []")
    case False
    with that have "hi s < lo (hd (touching r rs))" by (intro parts(4) [of s]) auto
    with that before_bound False show ?thesis by (simp add: hull_def)
  qed (use that before_bound in \<open>simp add: hull_def\<close>)
  moreover have "hi (hull r (touching r rs)) < lo t" if "t \<in> set (after r rs)" for t
  proof (cases "touching r rs = []")
    case False
    with that have "hi (last (touching r rs)) < lo t" by (intro parts(5) [of _ t]) auto
    with that after_bound [OF assms(1)] False show ?thesis by (simp add: hull_def)
  qed (use that after_bound [OF assms(1)] in \<open>simp add: hull_def\<close>)
  moreover have "hi s < lo t" if "s \<in> set (before r rs)" "t \<in> set (after r rs)" for s t
    using that by (intro parts(4) [of s]) auto
  ultimately show ?thesis
    using parts(1,3) hull_valid [OF parts(2) assms(2)] by simp
qed

text \<open>The indices at which the arrays are cut.\<close>

lemma run_indices:
  assumes i: "i = length (before r rs)" and j: "j = i + length (touching r rs)"
  shows "take i rs = before r rs" and "drop j rs = after r rs"
    and "i \<le> length rs" and "j \<le> length rs"
    and "touching r rs \<noteq> [] \<Longrightarrow> rs ! i = hd (touching r rs)"
    and "touching r rs \<noteq> [] \<Longrightarrow> rs ! (j - 1) = last (touching r rs)"
proof -
  define bs ms cs where "bs = before r rs" and "ms = touching r rs" and "cs = after r rs"
  have rs: "rs = bs @ ms @ cs" unfolding bs_def ms_def cs_def by (rule split_run)
  have i': "i = length bs" and j': "j = length bs + length ms"
    using i j by (simp_all add: bs_def ms_def)
  have "take i rs = bs" "drop j rs = cs" "i \<le> length rs" "j \<le> length rs"
    "ms \<noteq> [] \<Longrightarrow> rs ! i = hd ms"
    using i' j' by (simp_all add: rs nth_append hd_conv_nth)
  moreover have "ms \<noteq> [] \<Longrightarrow> rs ! (j - 1) = last ms"
    using j' by (cases ms rule: rev_cases) (simp_all add: rs nth_append)
  ultimately show "take i rs = before r rs" "drop j rs = after r rs" "i \<le> length rs" "j \<le> length rs"
    "touching r rs \<noteq> [] \<Longrightarrow> rs ! i = hd (touching r rs)"
    "touching r rs \<noteq> [] \<Longrightarrow> rs ! (j - 1) = last (touching r rs)"
    by (simp_all add: bs_def ms_def cs_def)
qed

lemma length_takeWhile_lo:
  assumes "separated lo hi rs" and "lo r \<le> hi r"
  shows "length (takeWhile (\<lambda>s. lo s \<le> hi r) rs) = length (before r rs) + length (touching r rs)"
proof -
  have "takeWhile (\<lambda>s. lo s \<le> hi r) (before r rs @ touching r rs @ after r rs) =
      before r rs @ touching r rs"
  proof (subst takeWhile_append2)
    fix s assume s: "s \<in> set (before r rs)"
    have "lo s \<le> hi s" by (rule separated_valid [OF separated_parts(1) [OF assms(1)] s])
    with before_bound [OF s] assms(2) show "lo s \<le> hi r" by linarith
  next
    have "takeWhile (\<lambda>s. lo s \<le> hi r) (after r rs) = []"
      using after_bound [OF assms(1), of "hd (after r rs)" r]
      by (simp add: takeWhile_eq_Nil_iff) (metis hd_in_set not_le)
    then show "before r rs @ takeWhile (\<lambda>s. lo s \<le> hi r) (touching r rs @ after r rs) =
        before r rs @ touching r rs"
      using touching_bound [OF assms(1)] by (subst takeWhile_append2) auto
  qed
  then have "takeWhile (\<lambda>s. lo s \<le> hi r) rs = before r rs @ touching r rs"
    by (simp only: split_run [symmetric])
  then show ?thesis by simp
qed

text \<open>Membership is decided by the last interval that starts at or before the number.\<close>

lemma covered_iff_last:
  assumes "separated lo hi rs"
  shows "x \<in> covered lo hi rs \<longleftrightarrow>
    takeWhile (\<lambda>r. lo r \<le> x) rs \<noteq> [] \<and> x < hi (last (takeWhile (\<lambda>r. lo r \<le> x) rs))"
  using assms
proof (induction rs)
  case (Cons r rs)
  show ?case
  proof (cases "takeWhile (\<lambda>r. lo r \<le> x) rs = []")
    case True
    then have "x \<notin> covered lo hi rs" using Cons by simp
    with True Cons.prems show ?thesis by auto
  next
    case False
    then have hd: "rs \<noteq> []" "lo (hd rs) \<le> x"
      by (cases rs; simp split: if_splits)+
    then have r: "lo r \<le> x" "\<not> x < hi r"
      using separated_lo_mono [OF Cons.prems, of "hd rs"] hd_in_set [of rs] by auto
    with Cons False show ?thesis by simp
  qed
qed simp

end

end
