(* ===== verification/OffsetRange.thy ===== *)
theory OffsetRange
  imports IntervalSets
begin

section \<open>Offset ranges: \<open>src/vs/editor/common/core/ranges/offsetRange.ts\<close>\<close>

text \<open>
  \<open>OffsetRange\<close> is a half-open interval of offsets. Its constructor throws when the start lies
  behind the end, so every operation that builds a range returns a \<open>result\<close>; the lemmas say
  when the construction cannot fail. A range denotes the set of integers
  \<open>offset_set r = {start ..< endExclusive}\<close>.
\<close>

record offset_range =
  start :: int
  endExclusive :: int

abbreviation OffsetRange :: "int \<Rightarrow> int \<Rightarrow> offset_range" where
  "OffsetRange s e \<equiv> \<lparr>start = s, endExclusive = e\<rparr>"

definition mk_OffsetRange :: "int \<Rightarrow> int \<Rightarrow> offset_range result" where
  "mk_OffsetRange s e = (if s > e then Inl BugIndicatingError else Inr (OffsetRange s e))"

definition OffsetRange_fromTo :: "int \<Rightarrow> int \<Rightarrow> offset_range result" where
  "OffsetRange_fromTo s e = mk_OffsetRange s e"

definition OffsetRange_equals :: "offset_range \<Rightarrow> offset_range \<Rightarrow> bool" where
  "OffsetRange_equals r1 r2 \<longleftrightarrow> start r1 = start r2 \<and> endExclusive r1 = endExclusive r2"

definition OffsetRange_tryCreate :: "int \<Rightarrow> int \<Rightarrow> offset_range option" where
  "OffsetRange_tryCreate s e = (if s > e then None else Some (OffsetRange s e))"

definition OffsetRange_ofLength :: "int \<Rightarrow> offset_range result" where
  "OffsetRange_ofLength n = mk_OffsetRange 0 n"

definition OffsetRange_ofStartAndLength :: "int \<Rightarrow> int \<Rightarrow> offset_range result" where
  "OffsetRange_ofStartAndLength s n = mk_OffsetRange s (s + n)"

definition OffsetRange_emptyAt :: "int \<Rightarrow> offset_range result" where
  "OffsetRange_emptyAt offset = mk_OffsetRange offset offset"

definition OffsetRange_isEmpty :: "offset_range \<Rightarrow> bool" where
  "OffsetRange_isEmpty r \<longleftrightarrow> start r = endExclusive r"

definition OffsetRange_delta :: "offset_range \<Rightarrow> int \<Rightarrow> offset_range result" where
  "OffsetRange_delta r offset = mk_OffsetRange (start r + offset) (endExclusive r + offset)"

definition OffsetRange_deltaStart :: "offset_range \<Rightarrow> int \<Rightarrow> offset_range result" where
  "OffsetRange_deltaStart r offset = mk_OffsetRange (start r + offset) (endExclusive r)"

definition OffsetRange_deltaEnd :: "offset_range \<Rightarrow> int \<Rightarrow> offset_range result" where
  "OffsetRange_deltaEnd r offset = mk_OffsetRange (start r) (endExclusive r + offset)"

definition OffsetRange_length :: "offset_range \<Rightarrow> int" where
  "OffsetRange_length r = endExclusive r - start r"

definition OffsetRange_containsRange :: "offset_range \<Rightarrow> offset_range \<Rightarrow> bool" where
  "OffsetRange_containsRange r other \<longleftrightarrow>
     start r \<le> start other \<and> endExclusive other \<le> endExclusive r"

definition OffsetRange_contains :: "offset_range \<Rightarrow> int \<Rightarrow> bool" where
  "OffsetRange_contains r offset \<longleftrightarrow> start r \<le> offset \<and> offset < endExclusive r"

definition OffsetRange_join :: "offset_range \<Rightarrow> offset_range \<Rightarrow> offset_range result" where
  "OffsetRange_join r other =
     mk_OffsetRange (min (start r) (start other)) (max (endExclusive r) (endExclusive other))"

definition OffsetRange_intersect :: "offset_range \<Rightarrow> offset_range \<Rightarrow> offset_range option" where
  "OffsetRange_intersect r other =
     (let s = max (start r) (start other); e = min (endExclusive r) (endExclusive other)
      in if s \<le> e then Some (OffsetRange s e) else None)"

definition OffsetRange_intersectionLength :: "offset_range \<Rightarrow> offset_range \<Rightarrow> int" where
  "OffsetRange_intersectionLength r other =
     (let s = max (start r) (start other); e = min (endExclusive r) (endExclusive other)
      in max 0 (e - s))"

definition OffsetRange_intersects :: "offset_range \<Rightarrow> offset_range \<Rightarrow> bool" where
  "OffsetRange_intersects r other =
     (let s = max (start r) (start other); e = min (endExclusive r) (endExclusive other)
      in s < e)"

definition OffsetRange_intersectsOrTouches :: "offset_range \<Rightarrow> offset_range \<Rightarrow> bool" where
  "OffsetRange_intersectsOrTouches r other =
     (let s = max (start r) (start other); e = min (endExclusive r) (endExclusive other)
      in s \<le> e)"

definition OffsetRange_isBefore :: "offset_range \<Rightarrow> offset_range \<Rightarrow> bool" where
  "OffsetRange_isBefore r other \<longleftrightarrow> endExclusive r \<le> start other"

definition OffsetRange_isAfter :: "offset_range \<Rightarrow> offset_range \<Rightarrow> bool" where
  "OffsetRange_isAfter r other \<longleftrightarrow> start r \<ge> endExclusive other"

definition OffsetRange_slice :: "offset_range \<Rightarrow> 'a list \<Rightarrow> 'a list" where
  "OffsetRange_slice r arr = js_slice arr (start r) (endExclusive r)"

definition OffsetRange_substring :: "offset_range \<Rightarrow> 'a list \<Rightarrow> 'a list" where
  "OffsetRange_substring r str = js_substring str (start r) (endExclusive r)"

definition OffsetRange_clip :: "offset_range \<Rightarrow> int \<Rightarrow> int result" where
  "OffsetRange_clip r v =
     (if OffsetRange_isEmpty r then Inl BugIndicatingError
      else Inr (max (start r) (min (endExclusive r - 1) v)))"

text \<open>The two operands of \<open>%\<close> are not negative where the code uses it, so \<open>mod\<close> is the remainder.\<close>

definition OffsetRange_clipCyclic :: "offset_range \<Rightarrow> int \<Rightarrow> int result" where
  "OffsetRange_clipCyclic r v =
     (if OffsetRange_isEmpty r then Inl BugIndicatingError
      else if v < start r
      then Inr (endExclusive r - ((start r - v) mod OffsetRange_length r))
      else if v \<ge> endExclusive r
      then Inr (start r + ((v - start r) mod OffsetRange_length r))
      else Inr v)"

text \<open>\<open>for (let i = s; i < e; i++) result.push(f(i))\<close>.\<close>

function OffsetRange_map_loop :: "(int \<Rightarrow> 'a) \<Rightarrow> int \<Rightarrow> int \<Rightarrow> 'a list" where
  "OffsetRange_map_loop f i e = (if i < e then f i # OffsetRange_map_loop f (i + 1) e else [])"
  by pat_completeness auto
termination
  by (relation "measure (\<lambda>(f, i, e). nat (e - i))") auto

declare OffsetRange_map_loop.simps [simp del]

definition OffsetRange_map :: "offset_range \<Rightarrow> (int \<Rightarrow> 'a) \<Rightarrow> 'a list" where
  "OffsetRange_map r f = OffsetRange_map_loop f (start r) (endExclusive r)"

definition OffsetRange_joinRightTouching ::
    "offset_range \<Rightarrow> offset_range \<Rightarrow> offset_range result" where
  "OffsetRange_joinRightTouching r other =
     (if endExclusive r \<noteq> start other then Inl BugIndicatingError
      else mk_OffsetRange (start r) (endExclusive other))"

definition OffsetRange_withMargin ::
    "offset_range \<Rightarrow> int \<Rightarrow> int option \<Rightarrow> offset_range result" where
  "OffsetRange_withMargin r marginStart marginEnd =
     (let marginEnd = (case marginEnd of None \<Rightarrow> marginStart | Some m \<Rightarrow> m)
      in mk_OffsetRange (start r - marginStart) (endExclusive r + marginEnd))"

text \<open>
  The two loops of \<open>addRange\<close> that find the ranges to merge with: \<open>i\<close> skips the ranges that
  end before the new one starts, \<open>j\<close> the ranges that start before it ends.
\<close>

function addRange_skip :: "(offset_range \<Rightarrow> bool) \<Rightarrow> offset_range list \<Rightarrow> nat \<Rightarrow> nat" where
  "addRange_skip p rs i =
     (if i < length rs \<and> p (rs ! i) then addRange_skip p rs (Suc i) else i)"
  by pat_completeness auto
termination
  by (relation "measure (\<lambda>(p, rs, i). length rs - i)") auto

declare addRange_skip.simps [simp del]

definition OffsetRange_addRange ::
    "offset_range \<Rightarrow> offset_range list \<Rightarrow> offset_range list result" where
  "OffsetRange_addRange r sortedRanges =
     (let i = addRange_skip (\<lambda>s. endExclusive s < start r) sortedRanges 0;
          j = addRange_skip (\<lambda>s. start s \<le> endExclusive r) sortedRanges i
      in if i = j then Inr (js_splice sortedRanges i 0 [r])
         else bind_result
                (mk_OffsetRange (min (start r) (start (sortedRanges ! i)))
                   (max (endExclusive r) (endExclusive (sortedRanges ! (j - 1)))))
                (\<lambda>joined. Inr (js_splice sortedRanges i (j - i) [joined])))"

text \<open>\<open>OffsetRangeSet\<close> keeps the sorted ranges; its \<open>addRange\<close> has the body of the static one.\<close>

type_synonym offset_range_set = "offset_range list"

definition OffsetRangeSet_addRange ::
    "offset_range_set \<Rightarrow> offset_range \<Rightarrow> offset_range_set result" where
  "OffsetRangeSet_addRange rs r =
     (let i = addRange_skip (\<lambda>s. endExclusive s < start r) rs 0;
          j = addRange_skip (\<lambda>s. start s \<le> endExclusive r) rs i
      in if i = j then Inr (js_splice rs i 0 [r])
         else bind_result
                (mk_OffsetRange (min (start r) (start (rs ! i)))
                   (max (endExclusive r) (endExclusive (rs ! (j - 1)))))
                (\<lambda>joined. Inr (js_splice rs i (j - i) [joined])))"

definition OffsetRangeSet_intersectsStrict :: "offset_range_set \<Rightarrow> offset_range \<Rightarrow> bool" where
  "OffsetRangeSet_intersectsStrict rs other =
     (let i = addRange_skip (\<lambda>s. endExclusive s \<le> start other) rs 0
      in i < length rs \<and> start (rs ! i) < endExclusive other)"

fun intersectWithRange_loop ::
    "offset_range list \<Rightarrow> offset_range \<Rightarrow> offset_range_set \<Rightarrow> offset_range_set result" where
  "intersectWithRange_loop [] other acc = Inr acc"
| "intersectWithRange_loop (r # rs) other acc =
     (case OffsetRange_intersect r other of
        None \<Rightarrow> intersectWithRange_loop rs other acc
      | Some x \<Rightarrow>
          bind_result (OffsetRangeSet_addRange acc x) (intersectWithRange_loop rs other))"

definition OffsetRangeSet_intersectWithRange ::
    "offset_range_set \<Rightarrow> offset_range \<Rightarrow> offset_range_set result" where
  "OffsetRangeSet_intersectWithRange rs other = intersectWithRange_loop rs other []"

definition OffsetRangeSet_length :: "offset_range_set \<Rightarrow> int" where
  "OffsetRangeSet_length rs = foldl (\<lambda>prev cur. prev + OffsetRange_length cur) 0 rs"

definition OffsetRangeSet_intersectWithRangeLength ::
    "offset_range_set \<Rightarrow> offset_range \<Rightarrow> int result" where
  "OffsetRangeSet_intersectWithRangeLength rs other =
     bind_result (OffsetRangeSet_intersectWithRange rs other) (\<lambda>x. Inr (OffsetRangeSet_length x))"

lemmas [offset_defs] = mk_OffsetRange_def OffsetRange_isEmpty_def OffsetRange_length_def
  OffsetRange_delta_def OffsetRange_deltaStart_def OffsetRange_deltaEnd_def
  OffsetRange_ofLength_def OffsetRange_ofStartAndLength_def OffsetRange_emptyAt_def
  OffsetRange_contains_def OffsetRange_containsRange_def OffsetRange_joinRightTouching_def

subsection \<open>Offset ranges as sets of integers\<close>

definition valid_offset_range :: "offset_range \<Rightarrow> bool" where
  "valid_offset_range r \<longleftrightarrow> start r \<le> endExclusive r"

definition offset_set :: "offset_range \<Rightarrow> int set" where
  "offset_set r = {start r ..< endExclusive r}"

lemma offset_range_eq_iff:
  "(r :: offset_range) = s \<longleftrightarrow> start r = start s \<and> endExclusive r = endExclusive s"
  by (cases r; cases s) simp

lemma valid_OffsetRange [simp]: "valid_offset_range (OffsetRange s e) \<longleftrightarrow> s \<le> e"
  by (simp add: valid_offset_range_def)

lemma mk_OffsetRange_Inr [simp]: "s \<le> e \<Longrightarrow> mk_OffsetRange s e = Inr (OffsetRange s e)"
  by (simp add: mk_OffsetRange_def)

lemma mk_OffsetRange_valid: "mk_OffsetRange s e = Inr r \<Longrightarrow> valid_offset_range r"
  by (auto simp: mk_OffsetRange_def split: if_splits)

lemma OffsetRange_contains_iff: "OffsetRange_contains r n \<longleftrightarrow> n \<in> offset_set r"
  by (simp add: OffsetRange_contains_def offset_set_def)

lemma OffsetRange_delta_valid [simp]:
  "valid_offset_range r \<Longrightarrow>
     OffsetRange_delta r d = Inr (OffsetRange (start r + d) (endExclusive r + d))"
  by (simp add: OffsetRange_delta_def valid_offset_range_def)

lemma OffsetRange_length_nonneg: "valid_offset_range r \<Longrightarrow> 0 \<le> OffsetRange_length r"
  by (simp add: valid_offset_range_def OffsetRange_length_def)

lemma OffsetRange_length_card: "valid_offset_range r \<Longrightarrow> OffsetRange_length r = int (card (offset_set r))"
  by (simp add: valid_offset_range_def OffsetRange_length_def offset_set_def)

lemma OffsetRange_intersect_set:
  "OffsetRange_intersect r s = Some x \<Longrightarrow> offset_set x = offset_set r \<inter> offset_set s"
  by (auto simp: OffsetRange_intersect_def offset_set_def Let_def split: if_splits)

lemma OffsetRange_intersect_None:
  "OffsetRange_intersect r s = None \<Longrightarrow> offset_set r \<inter> offset_set s = {}"
  by (auto simp: OffsetRange_intersect_def offset_set_def Let_def split: if_splits)

lemma OffsetRange_intersect_valid:
  "OffsetRange_intersect r s = Some x \<Longrightarrow> valid_offset_range x"
  by (auto simp: OffsetRange_intersect_def Let_def split: if_splits)

lemma OffsetRange_intersects_iff:
  "OffsetRange_intersects r s \<longleftrightarrow> offset_set r \<inter> offset_set s \<noteq> {}"
  by (auto simp: OffsetRange_intersects_def offset_set_def Let_def max_def min_def)

lemma OffsetRange_map_loop_eq:
  "OffsetRange_map_loop f i e = map f [i .. e - 1]"
proof (induction f i e rule: OffsetRange_map_loop.induct)
  case (1 f i e)
  then show ?case
    by (subst OffsetRange_map_loop.simps, subst upto.simps) auto
qed

subsection \<open>The sorted range set\<close>

abbreviation offset_set_sorted :: "offset_range list \<Rightarrow> bool" where
  "offset_set_sorted \<equiv> separated start endExclusive"

abbreviation ranges_set :: "offset_range list \<Rightarrow> int set" where
  "ranges_set \<equiv> covered start endExclusive"

interpretation offset: intervals start endExclusive "\<lambda>s e. OffsetRange s e"
  by unfold_locales simp_all

lemma addRange_skip_eq: "i \<le> length rs \<Longrightarrow> addRange_skip p rs i = i + length (takeWhile p (drop i rs))"
proof (induction p rs i rule: addRange_skip.induct)
  case (1 p rs i)
  show ?case
  proof (cases "i < length rs")
    case True
    then have "drop i rs = rs ! i # drop (Suc i) rs" by (simp add: Cons_nth_drop_Suc)
    with "1" True show ?thesis by (subst addRange_skip.simps) auto
  next
    case False
    with "1.prems" show ?thesis by (subst addRange_skip.simps) simp
  qed
qed

text \<open>The splice of \<open>addRange\<close> replaces the run of touching ranges by its hull.\<close>

lemma OffsetRangeSet_addRange_eq:
  assumes "offset_set_sorted rs" and "valid_offset_range r"
  shows "OffsetRangeSet_addRange rs r =
    Inr (offset.before r rs @ offset.hull r (offset.touching r rs) # offset.after r rs)"
proof -
  let ?i = "length (offset.before r rs)"
  let ?j = "?i + length (offset.touching r rs)"
  note idx = offset.run_indices [OF refl refl, of r rs]
  have i: "addRange_skip (\<lambda>s. endExclusive s < start r) rs 0 = ?i"
    by (simp add: addRange_skip_eq offset.before_def)
  have "drop ?i rs = dropWhile (\<lambda>s. endExclusive s < start r) rs"
    by (simp add: offset.before_def dropWhile_eq_drop)
  then have j: "addRange_skip (\<lambda>s. start s \<le> endExclusive r) rs ?i = ?j"
    using idx(3) by (simp add: addRange_skip_eq offset.touching_def)
  show ?thesis
  proof (cases "offset.touching r rs = []")
    case True
    with idx(1,2) show ?thesis
      by (simp add: OffsetRangeSet_addRange_def i j js_splice_def offset.hull_def)
  next
    case False
    have "mk_OffsetRange (min (start r) (start (rs ! ?i)))
        (max (endExclusive r) (endExclusive (rs ! (?j - 1)))) =
        Inr (offset.hull r (offset.touching r rs))"
      using False idx(5,6) assms(2)
      by (simp add: offset.hull_def valid_offset_range_def mk_OffsetRange_def)
    with False idx(1,2) show ?thesis
      by (simp add: OffsetRangeSet_addRange_def i j js_splice_def)
  qed
qed

lemma OffsetRange_addRange_eq: "OffsetRange_addRange r rs = OffsetRangeSet_addRange rs r"
  by (simp add: OffsetRange_addRange_def OffsetRangeSet_addRange_def)

lemma OffsetRangeSet_addRange_correct:
  assumes "offset_set_sorted rs" and "valid_offset_range r"
  shows "\<exists>rs'. OffsetRangeSet_addRange rs r = Inr rs' \<and> offset_set_sorted rs' \<and>
    ranges_set rs' = ranges_set rs \<union> offset_set r"
  using offset.insert_separated [OF assms(1)] offset.insert_covered [OF assms(1)] assms
  by (simp add: OffsetRangeSet_addRange_eq valid_offset_range_def offset_set_def)

lemma intersectWithRange_loop_correct:
  assumes "offset_set_sorted acc"
  shows "\<exists>rs'. intersectWithRange_loop rs other acc = Inr rs' \<and> offset_set_sorted rs' \<and>
    ranges_set rs' = ranges_set acc \<union> (ranges_set rs \<inter> offset_set other)"
  using assms
proof (induction rs arbitrary: acc)
  case (Cons r rs)
  show ?case
  proof (cases "OffsetRange_intersect r other")
    case None
    then have "offset_set r \<inter> offset_set other = {}" by (rule OffsetRange_intersect_None)
    with None Cons show ?thesis by (auto simp: offset_set_def Int_Un_distrib2)
  next
    case (Some x)
    then have x: "valid_offset_range x" "offset_set x = offset_set r \<inter> offset_set other"
      by (rule OffsetRange_intersect_valid, rule OffsetRange_intersect_set)
    from OffsetRangeSet_addRange_correct [OF Cons.prems x(1)] obtain acc' where
      acc': "OffsetRangeSet_addRange acc x = Inr acc'" "offset_set_sorted acc'"
        "ranges_set acc' = ranges_set acc \<union> offset_set x" by blast
    from Cons.IH [OF acc'(2)] acc'(1,3) Some x(2) show ?thesis
      by (auto simp: offset_set_def Int_Un_distrib2)
  qed
qed simp

lemma OffsetRangeSet_length_sum:
  "OffsetRangeSet_length rs = (\<Sum>r\<leftarrow>rs. OffsetRange_length r)"
proof -
  have "foldl (\<lambda>prev cur. prev + OffsetRange_length cur) a rs =
      a + (\<Sum>r\<leftarrow>rs. OffsetRange_length r)" for a
    by (induction rs arbitrary: a) simp_all
  then show ?thesis by (simp add: OffsetRangeSet_length_def)
qed

lemma OffsetRangeSet_length_card:
  assumes "offset_set_sorted rs"
  shows "OffsetRangeSet_length rs = int (card (ranges_set rs))"
  using assms
proof (induction rs)
  case Nil
  then show ?case by (simp add: OffsetRangeSet_length_def)
next
  case (Cons r rs)
  have "{start r ..< endExclusive r} \<inter> ranges_set rs = {}"
    using separated_lo_mono(1) [OF Cons.prems] by (fastforce simp: covered_def)
  then have "card (ranges_set (r # rs)) =
      card {start r ..< endExclusive r} + card (ranges_set rs)"
    by (simp add: card_Un_disjoint covered_def)
  with Cons show ?case
    by (simp add: OffsetRangeSet_length_sum OffsetRange_length_def)
qed

lemma OffsetRangeSet_intersectsStrict_correct:
  assumes "offset_set_sorted rs" and "\<forall>r\<in>set rs. start r < endExclusive r"
    and "\<not> OffsetRange_isEmpty other" and "valid_offset_range other"
  shows "OffsetRangeSet_intersectsStrict rs other \<longleftrightarrow> ranges_set rs \<inter> offset_set other \<noteq> {}"
proof -
  let ?n = "length (takeWhile (\<lambda>s. endExclusive s \<le> start other) rs)"
  have "(?n < length rs \<and> start (rs ! ?n) < endExclusive other) \<longleftrightarrow>
      (case drop ?n rs of [] \<Rightarrow> False | s # _ \<Rightarrow> start s < endExclusive other)"
    by (cases "?n < length rs") (simp_all flip: Cons_nth_drop_Suc)
  then have "OffsetRangeSet_intersectsStrict rs other \<longleftrightarrow>
      (case dropWhile (\<lambda>s. endExclusive s \<le> start other) rs of
         [] \<Rightarrow> False | s # _ \<Rightarrow> start s < endExclusive other)"
    by (simp add: OffsetRangeSet_intersectsStrict_def addRange_skip_eq Let_def dropWhile_eq_drop)
  also have "\<dots> \<longleftrightarrow> ranges_set rs \<inter> offset_set other \<noteq> {}"
    using assms
  proof (induction rs)
    case (Cons r rs)
    show ?case
    proof (cases "endExclusive r \<le> start other")
      case True
      then have "{start r ..< endExclusive r} \<inter> offset_set other = {}"
        by (auto simp: offset_set_def)
      with True Cons show ?thesis by (simp add: Int_Un_distrib2)
    next
      case False
      show ?thesis
      proof (cases "start r < endExclusive other")
        case True
        with False Cons.prems(2-4)
        have "max (start r) (start other) \<in> ranges_set (r # rs) \<inter> offset_set other"
          by (auto simp: offset_set_def OffsetRange_isEmpty_def valid_offset_range_def max_def)
        then have "ranges_set (r # rs) \<inter> offset_set other \<noteq> {}" by blast
        with False True show ?thesis by simp
      next
        case behind: False
        then have "ranges_set (r # rs) \<inter> offset_set other = {}"
          using separated_lo_mono(2) [OF Cons.prems(1)]
          by (fastforce simp: covered_def offset_set_def)
        with False behind show ?thesis by simp
      qed
    qed
  qed simp
  finally show ?thesis .
qed

subsection \<open>Properties\<close>

text \<open>C39: \<open>addRange\<close> adds the offsets of a range to a sorted set of ranges that do not touch, and the
  ranges of the result are again sorted and do not touch.\<close>

theorem OffsetRangeSet_addRange_union:
  assumes "offset_set_sorted rs" and "start r \<le> endExclusive r"
  shows "\<exists>rs'. OffsetRangeSet_addRange rs r = Inr rs' \<and> offset_set_sorted rs' \<and>
    (\<Union>x\<in>set rs'. {start x ..< endExclusive x}) = (\<Union>x\<in>set rs. {start x ..< endExclusive x}) \<union> {start r ..< endExclusive r}"
proof -
  have "covered start endExclusive rs = (\<Union>x\<in>set rs. {start x ..< endExclusive x})" for rs
    by (induction rs) simp_all
  with OffsetRangeSet_addRange_correct [OF assms(1), of r] assms(2) show ?thesis
    unfolding valid_offset_range_def offset_set_def by metis
qed

theorem OffsetRangeSet_addRange_union_witness:
  "\<exists>rs'. OffsetRangeSet_addRange [OffsetRange 1 3, OffsetRange 5 6, OffsetRange 9 12] (OffsetRange 3 5) = Inr rs' \<and>
    offset_set_sorted rs' \<and>
    (\<Union>x\<in>set rs'. {start x ..< endExclusive x}) =
      (\<Union>x\<in>set [OffsetRange 1 3, OffsetRange 5 6, OffsetRange 9 12]. {start x ..< endExclusive x}) \<union>
      {start (OffsetRange 3 5) ..< endExclusive (OffsetRange 3 5)}"
  by (rule OffsetRangeSet_addRange_union; simp)

text \<open>\<open>intersectWithRange\<close> keeps exactly the offsets of the set that lie in the range, and
  \<open>intersectWithRangeLength\<close> counts them.\<close>

lemma OffsetRangeSet_intersectWithRange_inter:
  assumes "offset_set_sorted rs"
  shows "\<exists>rs'. OffsetRangeSet_intersectWithRange rs r = Inr rs' \<and> offset_set_sorted rs' \<and>
    ranges_set rs' = ranges_set rs \<inter> {start r ..< endExclusive r} \<and>
    OffsetRangeSet_intersectWithRangeLength rs r = Inr (int (card (ranges_set rs \<inter> {start r ..< endExclusive r})))"
proof -
  obtain rs' where rs': "intersectWithRange_loop rs r [] = Inr rs'" "offset_set_sorted rs'"
    "ranges_set rs' = ranges_set rs \<inter> {start r ..< endExclusive r}"
    using intersectWithRange_loop_correct [of "[]" rs r] by (auto simp: offset_set_def)
  with OffsetRangeSet_length_card [OF rs'(2)] show ?thesis
    by (simp add: OffsetRangeSet_intersectWithRange_def OffsetRangeSet_intersectWithRangeLength_def)
qed

text \<open>\<open>clipCyclic\<close> does not always land in the range: a value that lies a multiple of the length in
  front of the range is sent to its exclusive end.\<close>

lemma clipCyclic_lands_on_end:
  "OffsetRange_clipCyclic (OffsetRange 5 10) 4 = Inr 9 \<and> OffsetRange_clipCyclic (OffsetRange 5 10) 0 = Inr 10 \<and>
   \<not> OffsetRange_contains (OffsetRange 5 10) 10"
  by code_simp

end
