(* ===== verification/ArraysFind.thy ===== *)
theory ArraysFind
  imports Prelude
begin

section \<open>Searching arrays: \<open>src/vs/base/common/arraysFind.ts\<close>\<close>

text \<open>
  The linear searches and the binary searches over monotone predicates that the range sets and
  the line structures call. An index that the code uses as a signed number (\<open>-1\<close> for "not
  found") is an \<open>int\<close>; the bounds of a binary search are \<open>nat\<close>. The two bisections are
  written once each as the loop of the source and proved to find the boundary of the predicate.
\<close>

text \<open>\<open>findLastIdx\<close>: the loop runs down from \<open>fromIndex\<close>; \<open>Suc i\<close> stands for the index \<open>i\<close>.\<close>

fun findLastIdx_loop :: "'a list \<Rightarrow> ('a \<Rightarrow> nat \<Rightarrow> bool) \<Rightarrow> nat \<Rightarrow> int" where
  "findLastIdx_loop xs p 0 = -1"
| "findLastIdx_loop xs p (Suc i) = (if p (xs ! i) i then int i else findLastIdx_loop xs p i)"

definition findLastIdx :: "'a list \<Rightarrow> ('a \<Rightarrow> nat \<Rightarrow> bool) \<Rightarrow> int" where
  "findLastIdx xs p = findLastIdx_loop xs p (length xs)"

definition findLast :: "'a list \<Rightarrow> ('a \<Rightarrow> nat \<Rightarrow> bool) \<Rightarrow> 'a option" where
  "findLast xs p = (let idx = findLastIdx xs p in if idx = -1 then None else js_at xs idx)"

text \<open>\<open>findFirstIdx\<close>: the loop runs up from \<open>fromIndex\<close>.\<close>

function findFirstIdx :: "'a list \<Rightarrow> ('a \<Rightarrow> nat \<Rightarrow> bool) \<Rightarrow> nat \<Rightarrow> int" where
  "findFirstIdx xs p i =
     (if i < length xs then (if p (xs ! i) i then int i else findFirstIdx xs p (Suc i)) else -1)"
  by pat_completeness auto
termination
  by (relation "measure (\<lambda>(xs, p, i). length xs - i)") auto

declare findFirstIdx.simps [simp del]

definition findFirst :: "'a list \<Rightarrow> ('a \<Rightarrow> nat \<Rightarrow> bool) \<Rightarrow> nat \<Rightarrow> 'a option" where
  "findFirst xs p fromIndex =
     (let idx = findFirstIdx xs p fromIndex in if idx = -1 then None else js_at xs idx)"

text \<open>The bisection of \<open>findLastIdxMonotonous\<close>; the result is \<open>i - 1\<close>.\<close>

function findLast_bisect :: "'a list \<Rightarrow> ('a \<Rightarrow> bool) \<Rightarrow> nat \<Rightarrow> nat \<Rightarrow> nat" where
  "findLast_bisect xs p i j =
     (if i < j
      then (let k = (i + j) div 2
            in if p (xs ! k) then findLast_bisect xs p (Suc k) j else findLast_bisect xs p i k)
      else i)"
  by pat_completeness auto
termination
  by (relation "measure (\<lambda>(xs, p, i, j). j - i)") auto

definition findLastIdxMonotonous :: "'a list \<Rightarrow> ('a \<Rightarrow> bool) \<Rightarrow> nat \<Rightarrow> nat \<Rightarrow> int" where
  "findLastIdxMonotonous xs p startIdx endIdxEx =
     int (findLast_bisect xs p startIdx endIdxEx) - 1"

definition findLastMonotonous :: "'a list \<Rightarrow> ('a \<Rightarrow> bool) \<Rightarrow> 'a option" where
  "findLastMonotonous xs p =
     (let idx = findLastIdxMonotonous xs p 0 (length xs)
      in if idx = -1 then None else js_at xs idx)"

function findFirstIdxMonotonousOrArrLen ::
    "'a list \<Rightarrow> ('a \<Rightarrow> bool) \<Rightarrow> nat \<Rightarrow> nat \<Rightarrow> nat" where
  "findFirstIdxMonotonousOrArrLen xs p i j =
     (if i < j
      then (let k = (i + j) div 2
            in if p (xs ! k) then findFirstIdxMonotonousOrArrLen xs p i k
               else findFirstIdxMonotonousOrArrLen xs p (Suc k) j)
      else i)"
  by pat_completeness auto
termination
  by (relation "measure (\<lambda>(xs, p, i, j). j - i)") auto

definition findFirstMonotonous :: "'a list \<Rightarrow> ('a \<Rightarrow> bool) \<Rightarrow> 'a option" where
  "findFirstMonotonous xs p =
     (let idx = findFirstIdxMonotonousOrArrLen xs p 0 (length xs)
      in if idx = length xs then None else js_at xs (int idx))"

definition findFirstIdxMonotonous :: "'a list \<Rightarrow> ('a \<Rightarrow> bool) \<Rightarrow> nat \<Rightarrow> nat \<Rightarrow> int" where
  "findFirstIdxMonotonous xs p startIdx endIdxEx =
     (let idx = findFirstIdxMonotonousOrArrLen xs p startIdx endIdxEx
      in if idx = length xs then -1 else int idx)"

declare findLast_bisect.simps [simp del] findFirstIdxMonotonousOrArrLen.simps [simp del]

text \<open>
  \<open>MonotonousArray\<close> remembers where the last search ended and starts the next one there
  (\<open>assertInvariants\<close> is \<open>false\<close>, so the previous predicate is not kept).
\<close>

record 'a monotonous_array =
  ma_array :: "'a list"
  findLastMonotonousLastIdx :: nat

definition mk_MonotonousArray :: "'a list \<Rightarrow> 'a monotonous_array" where
  "mk_MonotonousArray xs = \<lparr>ma_array = xs, findLastMonotonousLastIdx = 0\<rparr>"

definition MonotonousArray_findLastMonotonous ::
    "'a monotonous_array \<Rightarrow> ('a \<Rightarrow> bool) \<Rightarrow> 'a option \<times> 'a monotonous_array" where
  "MonotonousArray_findLastMonotonous m p =
     (let idx = findLastIdxMonotonous (ma_array m) p (findLastMonotonousLastIdx m)
                  (length (ma_array m))
      in (if idx = -1 then None else js_at (ma_array m) idx,
          m\<lparr>findLastMonotonousLastIdx := nat (idx + 1)\<rparr>))"

fun findFirstMax_loop :: "('a \<Rightarrow> 'a \<Rightarrow> int) \<Rightarrow> 'a \<Rightarrow> 'a list \<Rightarrow> 'a" where
  "findFirstMax_loop cmp m [] = m"
| "findFirstMax_loop cmp m (x # xs) =
     (if cmp x m > 0 then findFirstMax_loop cmp x xs else findFirstMax_loop cmp m xs)"

definition findFirstMax :: "'a list \<Rightarrow> ('a \<Rightarrow> 'a \<Rightarrow> int) \<Rightarrow> 'a option" where
  "findFirstMax xs cmp = (case xs of [] \<Rightarrow> None | y # ys \<Rightarrow> Some (findFirstMax_loop cmp y ys))"

fun findLastMax_loop :: "('a \<Rightarrow> 'a \<Rightarrow> int) \<Rightarrow> 'a \<Rightarrow> 'a list \<Rightarrow> 'a" where
  "findLastMax_loop cmp m [] = m"
| "findLastMax_loop cmp m (x # xs) =
     (if cmp x m \<ge> 0 then findLastMax_loop cmp x xs else findLastMax_loop cmp m xs)"

definition findLastMax :: "'a list \<Rightarrow> ('a \<Rightarrow> 'a \<Rightarrow> int) \<Rightarrow> 'a option" where
  "findLastMax xs cmp = (case xs of [] \<Rightarrow> None | y # ys \<Rightarrow> Some (findLastMax_loop cmp y ys))"

definition findFirstMin :: "'a list \<Rightarrow> ('a \<Rightarrow> 'a \<Rightarrow> int) \<Rightarrow> 'a option" where
  "findFirstMin xs cmp = findFirstMax xs (\<lambda>a b. - cmp a b)"

fun findMaxIdx_loop :: "('a \<Rightarrow> 'a \<Rightarrow> int) \<Rightarrow> 'a list \<Rightarrow> nat \<Rightarrow> nat list \<Rightarrow> nat" where
  "findMaxIdx_loop cmp xs m [] = m"
| "findMaxIdx_loop cmp xs m (i # is) =
     (if cmp (xs ! i) (xs ! m) > 0 then findMaxIdx_loop cmp xs i is
      else findMaxIdx_loop cmp xs m is)"

definition findMaxIdx :: "'a list \<Rightarrow> ('a \<Rightarrow> 'a \<Rightarrow> int) \<Rightarrow> int" where
  "findMaxIdx xs cmp =
     (if xs = [] then -1 else int (findMaxIdx_loop cmp xs 0 [1 ..< length xs]))"

fun mapFindFirst :: "'a list \<Rightarrow> ('a \<Rightarrow> 'b option) \<Rightarrow> 'b option" where
  "mapFindFirst [] f = None"
| "mapFindFirst (x # xs) f = (case f x of Some y \<Rightarrow> Some y | None \<Rightarrow> mapFindFirst xs f)"

subsection \<open>Monotone predicates\<close>

text \<open>The two shapes the comments of the source ask for.\<close>

definition monotone_prefix :: "('a \<Rightarrow> bool) \<Rightarrow> 'a list \<Rightarrow> bool" where
  "monotone_prefix p xs \<longleftrightarrow> (\<forall>i j. i \<le> j \<longrightarrow> j < length xs \<longrightarrow> p (xs ! j) \<longrightarrow> p (xs ! i))"

definition monotone_suffix :: "('a \<Rightarrow> bool) \<Rightarrow> 'a list \<Rightarrow> bool" where
  "monotone_suffix p xs \<longleftrightarrow> (\<forall>i j. i \<le> j \<longrightarrow> j < length xs \<longrightarrow> p (xs ! i) \<longrightarrow> p (xs ! j))"

lemma monotone_prefix_not: "monotone_prefix (\<lambda>x. \<not> p x) xs \<longleftrightarrow> monotone_suffix p xs"
  by (auto simp: monotone_prefix_def monotone_suffix_def)

lemma findFirst_bisect_eq:
  "findFirstIdxMonotonousOrArrLen xs p i j = findLast_bisect xs (\<lambda>x. \<not> p x) i j"
  by (induction xs p i j rule: findFirstIdxMonotonousOrArrLen.induct)
    (simp add: findFirstIdxMonotonousOrArrLen.simps [of _ _ i j for i j]
      findLast_bisect.simps [of _ _ i j for i j] Let_def)

lemma findLast_bisect_stop: "\<not> i < j \<Longrightarrow> findLast_bisect xs p i j = i"
  by (subst findLast_bisect.simps) simp

text \<open>The loop invariant of the bisection: everything left of \<open>i\<close> holds, nothing right of \<open>j\<close>.\<close>

lemma findLast_bisect_boundary:
  assumes "monotone_prefix p xs" and "i \<le> j" and "j \<le> length xs"
    and "\<forall>k<i. p (xs ! k)" and "\<forall>k. j \<le> k \<and> k < length xs \<longrightarrow> \<not> p (xs ! k)"
  shows "i \<le> findLast_bisect xs p i j \<and> findLast_bisect xs p i j \<le> j \<and>
    (\<forall>k<findLast_bisect xs p i j. p (xs ! k)) \<and>
    (\<forall>k. findLast_bisect xs p i j \<le> k \<and> k < length xs \<longrightarrow> \<not> p (xs ! k))"
  using assms
proof (induction xs p i j rule: findLast_bisect.induct)
  case (1 xs p i j)
  let ?k = "(i + j) div 2"
  show ?case
  proof (cases "i < j")
    case False
    with "1.prems" show ?thesis by (simp add: findLast_bisect_stop)
  next
    case True
    then have k: "i \<le> ?k" "?k < j" by auto
    show ?thesis
    proof (cases "p (xs ! ?k)")
      case p: True
      with "1.prems" k have below: "\<forall>m<Suc ?k. p (xs ! m)"
        unfolding monotone_prefix_def by (metis less_Suc_eq_le order_less_le_trans)
      have "Suc ?k \<le> j" using k by simp
      from "1.IH" (1) [OF True refl p "1.prems"(1) this "1.prems"(3) below "1.prems"(5)] True p k
      show ?thesis
        unfolding findLast_bisect.simps [of xs p i j] by (auto simp: Let_def)
    next
      case p: False
      with "1.prems" k have above: "\<forall>m. ?k \<le> m \<and> m < length xs \<longrightarrow> \<not> p (xs ! m)"
        unfolding monotone_prefix_def by blast
      have "?k \<le> length xs" using k "1.prems"(3) by simp
      from "1.IH" (2) [OF True refl p "1.prems"(1) k(1) this "1.prems"(4) above] True p k
      show ?thesis
        unfolding findLast_bisect.simps [of xs p i j] by (auto simp: Let_def)
    qed
  qed
qed

text \<open>Over the whole array the bisection counts the elements of the true prefix.\<close>

lemma findLast_bisect_from:
  assumes mono: "monotone_prefix p xs" and start: "i \<le> length xs" "\<forall>k<i. p (xs ! k)"
  shows "findLast_bisect xs p i (length xs) = length (takeWhile p xs)"
proof -
  define n where "n = findLast_bisect xs p i (length xs)"
  have "i \<le> n \<and> n \<le> length xs \<and> (\<forall>k<n. p (xs ! k)) \<and>
      (\<forall>k. n \<le> k \<and> k < length xs \<longrightarrow> \<not> p (xs ! k))"
    unfolding n_def
    by (rule findLast_bisect_boundary [OF mono start(1) order_refl start(2)]) auto
  then have n: "n \<le> length xs" "\<And>k. k < n \<Longrightarrow> p (xs ! k)" "n < length xs \<Longrightarrow> \<not> p (xs ! n)"
    by blast+
  then have "takeWhile p xs = take n xs"
    by (intro takeWhile_eq_take_P_nth)
  with n(1) have "length (takeWhile p xs) = n" by simp
  then show ?thesis by (simp add: n_def)
qed

lemmas findLast_bisect_eq_takeWhile = findLast_bisect_from [where i = 0, simplified]

lemma findFirstIdxMonotonousOrArrLen_eq_takeWhile:
  assumes "monotone_suffix p xs"
  shows "findFirstIdxMonotonousOrArrLen xs p 0 (length xs) = length (takeWhile (\<lambda>x. \<not> p x) xs)"
  using assms
  by (simp add: findFirst_bisect_eq findLast_bisect_eq_takeWhile monotone_prefix_not)

lemma findLastIdxMonotonous_eq:
  "monotone_prefix p xs \<Longrightarrow>
     findLastIdxMonotonous xs p 0 (length xs) = int (length (takeWhile p xs)) - 1"
  by (simp add: findLastIdxMonotonous_def findLast_bisect_eq_takeWhile)

lemma findLastMonotonous_eq:
  assumes "monotone_prefix p xs"
  shows "findLastMonotonous xs p =
    (if takeWhile p xs = [] then None else Some (last (takeWhile p xs)))"
proof (cases "takeWhile p xs = []")
  case True
  then show ?thesis
    using assms by (simp add: findLastMonotonous_def findLastIdxMonotonous_eq)
next
  case False
  let ?n = "length (takeWhile p xs)"
  have n: "0 < ?n" "?n \<le> length xs" using False by (simp_all add: length_takeWhile_le)
  then have "js_at xs (int ?n - 1) = Some (xs ! (?n - 1))"
    by (simp add: js_at_def nat_diff_distrib')
  moreover have "last (takeWhile p xs) = xs ! (?n - 1)"
    using False n by (simp add: last_conv_nth takeWhile_nth)
  ultimately show ?thesis
    using assms False n by (simp add: findLastMonotonous_def findLastIdxMonotonous_eq Let_def)
qed

lemma findFirstMonotonous_eq:
  assumes "monotone_suffix p xs"
  shows "findFirstMonotonous xs p = find p xs"
proof -
  let ?n = "length (takeWhile (\<lambda>x. \<not> p x) xs)"
  have "?n \<le> length xs" by (rule length_takeWhile_le)
  moreover have "find p xs = (if ?n = length xs then None else Some (xs ! ?n))"
    by (induction xs) auto
  ultimately show ?thesis
    using assms
    by (simp add: findFirstMonotonous_def findFirstIdxMonotonousOrArrLen_eq_takeWhile Let_def)
qed

text \<open>
  \<open>MonotonousArray\<close>: starting at the remembered index gives the same answer as a search of
  the whole array, because a weaker predicate holds on everything left of that index.
\<close>

definition monotonous_array_ok :: "('a \<Rightarrow> bool) \<Rightarrow> 'a monotonous_array \<Rightarrow> bool" where
  "monotonous_array_ok p m \<longleftrightarrow>
     findLastMonotonousLastIdx m \<le> length (ma_array m) \<and>
     (\<forall>k<findLastMonotonousLastIdx m. p (ma_array m ! k))"

lemma MonotonousArray_findLastMonotonous_correct:
  assumes "monotone_prefix p (ma_array m)" and "monotonous_array_ok p m"
  shows "fst (MonotonousArray_findLastMonotonous m p) = findLastMonotonous (ma_array m) p"
    and "monotonous_array_ok p (snd (MonotonousArray_findLastMonotonous m p))"
    and "ma_array (snd (MonotonousArray_findLastMonotonous m p)) = ma_array m"
proof -
  let ?xs = "ma_array m"
  have eq: "findLast_bisect ?xs p (findLastMonotonousLastIdx m) (length ?xs) =
      length (takeWhile p ?xs)"
    using assms by (intro findLast_bisect_from) (auto simp: monotonous_array_ok_def)
  then show "fst (MonotonousArray_findLastMonotonous m p) = findLastMonotonous ?xs p"
    using assms(1)
    by (simp add: MonotonousArray_findLastMonotonous_def findLastMonotonous_def
        findLastIdxMonotonous_def findLast_bisect_eq_takeWhile Let_def)
  show "ma_array (snd (MonotonousArray_findLastMonotonous m p)) = ma_array m"
    by (simp add: MonotonousArray_findLastMonotonous_def Let_def)
  have "p (?xs ! k)" if "k < length (takeWhile p ?xs)" for k
    using that by (metis nth_mem set_takeWhileD takeWhile_nth)
  then show "monotonous_array_ok p (snd (MonotonousArray_findLastMonotonous m p))"
    using eq
    by (simp add: MonotonousArray_findLastMonotonous_def monotonous_array_ok_def
        findLastIdxMonotonous_def length_takeWhile_le Let_def)
qed

lemma monotonous_array_ok_weaken:
  "monotonous_array_ok p m \<Longrightarrow> (\<And>x. p x \<Longrightarrow> q x) \<Longrightarrow> monotonous_array_ok q m"
  by (auto simp: monotonous_array_ok_def)

subsection \<open>Properties\<close>

text \<open>On an array whose elements satisfy the predicate up to some point and not behind it, the
  binary search of \<open>findLastIdxMonotonous\<close> ends and gives the index a linear search finds, the last
  one whose element satisfies the predicate, or -1.\<close>

lemma findLastIdxMonotonous_search:
  assumes "monotone_prefix p xs"
  shows "findLastIdxMonotonous xs p 0 (length xs) = int (length (takeWhile p xs)) - 1 \<and>
    (\<forall>k<length xs. p (xs ! k) \<longleftrightarrow> int k \<le> findLastIdxMonotonous xs p 0 (length xs))"
proof -
  have "p (xs ! k) \<longleftrightarrow> k < length (takeWhile p xs)" if "k < length xs" for k
  proof
    assume pk: "p (xs ! k)"
    show "k < length (takeWhile p xs)"
    proof (rule ccontr)
      assume "\<not> k < length (takeWhile p xs)"
      then have "length (takeWhile p xs) \<le> k" "length (takeWhile p xs) < length xs" using that by simp_all
      with assms that pk have "p (xs ! length (takeWhile p xs))" unfolding monotone_prefix_def by blast
      with nth_length_takeWhile [of p xs] \<open>length (takeWhile p xs) < length xs\<close> show False by simp
    qed
  next
    assume "k < length (takeWhile p xs)"
    then show "p (xs ! k)" using takeWhile_nth [of k p xs] set_takeWhileD nth_mem by metis
  qed
  then show ?thesis using findLastIdxMonotonous_eq [OF assms] by auto
qed

text \<open>A \<open>MonotonousArray\<close> that is asked with predicates that grow weaker gives the answers of
  \<open>findLastMonotonous\<close> although it resumes its search where the last one ended.\<close>

lemma MonotonousArray_resumes:
  assumes "monotone_prefix p xs" and "monotone_prefix q xs" and "\<And>x. p x \<Longrightarrow> q x"
  shows "fst (MonotonousArray_findLastMonotonous
      (snd (MonotonousArray_findLastMonotonous (mk_MonotonousArray xs) p)) q) = findLastMonotonous xs q"
proof -
  let ?m = "snd (MonotonousArray_findLastMonotonous (mk_MonotonousArray xs) p)"
  have "monotonous_array_ok p (mk_MonotonousArray xs)" "ma_array (mk_MonotonousArray xs) = xs"
    by (simp_all add: monotonous_array_ok_def mk_MonotonousArray_def)
  then have m: "monotonous_array_ok p ?m" "ma_array ?m = xs"
    using MonotonousArray_findLastMonotonous_correct(2,3) [of p "mk_MonotonousArray xs"] assms(1) by simp_all
  then have "monotonous_array_ok q ?m" using monotonous_array_ok_weaken assms(3) by blast
  with MonotonousArray_findLastMonotonous_correct(1) [of q ?m] m(2) assms(2) show ?thesis by simp
qed

end
