(* ===== verification/LineRange.thy ===== *)
theory LineRange
  imports Range OffsetRange ArraysFind
begin

section \<open>Line ranges: \<open>src/vs/editor/common/core/ranges/lineRange.ts\<close>\<close>

text \<open>
  \<open>LineRange\<close> is a half-open interval of one-based line numbers; like \<open>OffsetRange\<close> its
  constructor throws when the bounds are in the wrong order. \<open>LineRangeSet\<close> keeps a sorted
  array in which no two ranges touch; its operations search the array with the bisections of
  \<open>ArraysFind\<close>. The lemmas relate every set operation to the set of lines it covers.
\<close>

record line_range =
  lr_startLineNumber :: int
  endLineNumberExclusive :: int

abbreviation LineRange :: "int \<Rightarrow> int \<Rightarrow> line_range" where
  "LineRange s e \<equiv> \<lparr>lr_startLineNumber = s, endLineNumberExclusive = e\<rparr>"

definition mk_LineRange :: "int \<Rightarrow> int \<Rightarrow> line_range result" where
  "mk_LineRange s e = (if s > e then Inl BugIndicatingError else Inr (LineRange s e))"

definition LineRange_ofLength :: "int \<Rightarrow> int \<Rightarrow> line_range result" where
  "LineRange_ofLength s n = mk_LineRange s (s + n)"

definition LineRange_fromRange :: "range \<Rightarrow> line_range result" where
  "LineRange_fromRange r = mk_LineRange (startLineNumber r) (endLineNumber r)"

definition LineRange_fromRangeInclusive :: "range \<Rightarrow> line_range result" where
  "LineRange_fromRangeInclusive r = mk_LineRange (startLineNumber r) (endLineNumber r + 1)"

definition LineRange_compareByStart :: "line_range \<Rightarrow> line_range \<Rightarrow> int" where
  "LineRange_compareByStart a b = numberComparator (lr_startLineNumber a) (lr_startLineNumber b)"

definition LineRange_subtract :: "line_range \<Rightarrow> line_range option \<Rightarrow> line_range list result" where
  "LineRange_subtract a ob =
     (case ob of
        None \<Rightarrow> Inr [a]
      | Some b \<Rightarrow>
          (if lr_startLineNumber a < lr_startLineNumber b \<and>
              endLineNumberExclusive b < endLineNumberExclusive a
           then bind_result (mk_LineRange (lr_startLineNumber a) (lr_startLineNumber b))
                  (\<lambda>x. bind_result
                     (mk_LineRange (endLineNumberExclusive b) (endLineNumberExclusive a))
                     (\<lambda>y. Inr [x, y]))
           else if lr_startLineNumber b \<le> lr_startLineNumber a \<and>
              endLineNumberExclusive a \<le> endLineNumberExclusive b
           then Inr []
           else if endLineNumberExclusive b < endLineNumberExclusive a
           then bind_result
                  (mk_LineRange (max (endLineNumberExclusive b) (lr_startLineNumber a))
                     (endLineNumberExclusive a)) (\<lambda>x. Inr [x])
           else bind_result
                  (mk_LineRange (lr_startLineNumber a)
                     (min (lr_startLineNumber b) (endLineNumberExclusive a))) (\<lambda>x. Inr [x])))"

fun LineRange_join_loop :: "int \<Rightarrow> int \<Rightarrow> line_range list \<Rightarrow> int \<times> int" where
  "LineRange_join_loop s e [] = (s, e)"
| "LineRange_join_loop s e (r # rs) =
     LineRange_join_loop (min s (lr_startLineNumber r)) (max e (endLineNumberExclusive r)) rs"

definition LineRange_joinList :: "line_range list \<Rightarrow> line_range result" where
  "LineRange_joinList rs =
     (case rs of
        [] \<Rightarrow> Inl BugIndicatingError
      | r # rs' \<Rightarrow>
          (let (s, e) =
             LineRange_join_loop (lr_startLineNumber r) (endLineNumberExclusive r) rs'
           in mk_LineRange s e))"

definition LineRange_deserialize :: "int \<times> int \<Rightarrow> line_range result" where
  "LineRange_deserialize p = mk_LineRange (fst p) (snd p)"

definition LineRange_contains :: "line_range \<Rightarrow> int \<Rightarrow> bool" where
  "LineRange_contains r line \<longleftrightarrow>
     lr_startLineNumber r \<le> line \<and> line < endLineNumberExclusive r"

definition LineRange_containsRange :: "line_range \<Rightarrow> line_range \<Rightarrow> bool" where
  "LineRange_containsRange r other \<longleftrightarrow>
     lr_startLineNumber r \<le> lr_startLineNumber other \<and>
     endLineNumberExclusive other \<le> endLineNumberExclusive r"

definition LineRange_isEmpty :: "line_range \<Rightarrow> bool" where
  "LineRange_isEmpty r \<longleftrightarrow> lr_startLineNumber r = endLineNumberExclusive r"

definition LineRange_delta :: "line_range \<Rightarrow> int \<Rightarrow> line_range result" where
  "LineRange_delta r offset =
     mk_LineRange (lr_startLineNumber r + offset) (endLineNumberExclusive r + offset)"

definition LineRange_deltaLength :: "line_range \<Rightarrow> int \<Rightarrow> line_range result" where
  "LineRange_deltaLength r offset =
     mk_LineRange (lr_startLineNumber r) (endLineNumberExclusive r + offset)"

definition LineRange_length :: "line_range \<Rightarrow> int" where
  "LineRange_length r = endLineNumberExclusive r - lr_startLineNumber r"

definition LineRange_join :: "line_range \<Rightarrow> line_range \<Rightarrow> line_range result" where
  "LineRange_join r other =
     mk_LineRange (min (lr_startLineNumber r) (lr_startLineNumber other))
       (max (endLineNumberExclusive r) (endLineNumberExclusive other))"

definition LineRange_intersect :: "line_range \<Rightarrow> line_range \<Rightarrow> line_range option" where
  "LineRange_intersect r other =
     (let s = max (lr_startLineNumber r) (lr_startLineNumber other);
          e = min (endLineNumberExclusive r) (endLineNumberExclusive other)
      in if s \<le> e then Some (LineRange s e) else None)"

definition LineRange_intersectsStrict :: "line_range \<Rightarrow> line_range \<Rightarrow> bool" where
  "LineRange_intersectsStrict r other \<longleftrightarrow>
     lr_startLineNumber r < endLineNumberExclusive other \<and>
     lr_startLineNumber other < endLineNumberExclusive r"

definition LineRange_intersectsOrTouches :: "line_range \<Rightarrow> line_range \<Rightarrow> bool" where
  "LineRange_intersectsOrTouches r other \<longleftrightarrow>
     lr_startLineNumber r \<le> endLineNumberExclusive other \<and>
     lr_startLineNumber other \<le> endLineNumberExclusive r"

definition LineRange_equals :: "line_range \<Rightarrow> line_range \<Rightarrow> bool" where
  "LineRange_equals r b \<longleftrightarrow>
     lr_startLineNumber r = lr_startLineNumber b \<and>
     endLineNumberExclusive r = endLineNumberExclusive b"

definition LineRange_toInclusiveRange :: "line_range \<Rightarrow> range option" where
  "LineRange_toInclusiveRange r =
     (if LineRange_isEmpty r then None
      else Some (mk_Range (lr_startLineNumber r) 1 (endLineNumberExclusive r - 1) 9007199254740991))"

definition LineRange_toExclusiveRange :: "line_range \<Rightarrow> range" where
  "LineRange_toExclusiveRange r = mk_Range (lr_startLineNumber r) 1 (endLineNumberExclusive r) 1"

definition LineRange_mapToLineArray :: "line_range \<Rightarrow> (int \<Rightarrow> 'a) \<Rightarrow> 'a list" where
  "LineRange_mapToLineArray r f =
     OffsetRange_map_loop f (lr_startLineNumber r) (endLineNumberExclusive r)"

definition LineRange_serialize :: "line_range \<Rightarrow> int \<times> int" where
  "LineRange_serialize r = (lr_startLineNumber r, endLineNumberExclusive r)"

definition LineRange_toOffsetRange :: "line_range \<Rightarrow> offset_range result" where
  "LineRange_toOffsetRange r =
     mk_OffsetRange (lr_startLineNumber r - 1) (endLineNumberExclusive r - 1)"

definition LineRange_distanceToRange :: "line_range \<Rightarrow> line_range \<Rightarrow> int" where
  "LineRange_distanceToRange r other =
     (if endLineNumberExclusive r \<le> lr_startLineNumber other
      then lr_startLineNumber other - endLineNumberExclusive r
      else if endLineNumberExclusive other \<le> lr_startLineNumber r
      then lr_startLineNumber r - endLineNumberExclusive other
      else 0)"

definition LineRange_distanceToLine :: "line_range \<Rightarrow> int \<Rightarrow> int" where
  "LineRange_distanceToLine r line =
     (if LineRange_contains r line then 0
      else if line < lr_startLineNumber r then lr_startLineNumber r - line
      else line - endLineNumberExclusive r)"

definition LineRange_addMargin :: "line_range \<Rightarrow> int \<Rightarrow> int \<Rightarrow> line_range result" where
  "LineRange_addMargin r marginTop marginBottom =
     mk_LineRange (lr_startLineNumber r - marginTop) (endLineNumberExclusive r + marginBottom)"

subsection \<open>\<open>LineRangeSet\<close>\<close>

type_synonym line_range_set = "line_range list"

definition LineRangeSet_joinStart :: "line_range_set \<Rightarrow> line_range \<Rightarrow> nat" where
  "LineRangeSet_joinStart rs r =
     findFirstIdxMonotonousOrArrLen rs
       (\<lambda>s. endLineNumberExclusive s \<ge> lr_startLineNumber r) 0 (length rs)"

definition LineRangeSet_joinEnd :: "line_range_set \<Rightarrow> line_range \<Rightarrow> nat" where
  "LineRangeSet_joinEnd rs r =
     nat (findLastIdxMonotonous rs
       (\<lambda>s. lr_startLineNumber s \<le> endLineNumberExclusive r) 0 (length rs) + 1)"

definition LineRangeSet_addRange :: "line_range_set \<Rightarrow> line_range \<Rightarrow> line_range_set result" where
  "LineRangeSet_addRange rs r =
     (if LineRange_length r = 0 then Inr rs
      else (let joinRangeStartIdx = LineRangeSet_joinStart rs r;
                joinRangeEndIdxExclusive = LineRangeSet_joinEnd rs r
            in if joinRangeStartIdx = joinRangeEndIdxExclusive
               then Inr (js_splice rs joinRangeStartIdx 0 [r])
               else if int joinRangeStartIdx = int joinRangeEndIdxExclusive - 1
               then bind_result (LineRange_join (rs ! joinRangeStartIdx) r)
                      (\<lambda>joined. Inr (rs[joinRangeStartIdx := joined]))
               else bind_result
                      (LineRange_join (rs ! joinRangeStartIdx) (rs ! (joinRangeEndIdxExclusive - 1)))
                      (\<lambda>j1. bind_result (LineRange_join j1 r)
                         (\<lambda>joined. Inr (js_splice rs joinRangeStartIdx
                            (joinRangeEndIdxExclusive - joinRangeStartIdx) [joined])))))"

definition LineRangeSet_contains :: "line_range_set \<Rightarrow> int \<Rightarrow> bool" where
  "LineRangeSet_contains rs line =
     (case findLastMonotonous rs (\<lambda>r. lr_startLineNumber r \<le> line) of
        None \<Rightarrow> False
      | Some r \<Rightarrow> endLineNumberExclusive r > line)"

definition LineRangeSet_intersects :: "line_range_set \<Rightarrow> line_range \<Rightarrow> bool" where
  "LineRangeSet_intersects rs rg =
     (case findLastMonotonous rs (\<lambda>r. lr_startLineNumber r < endLineNumberExclusive rg) of
        None \<Rightarrow> False
      | Some r \<Rightarrow> endLineNumberExclusive r > lr_startLineNumber rg)"

text \<open>
  The merge loop of \<open>getUnion\<close>: \<open>getUnion_next\<close> picks the next range of the two arrays,
  \<open>getUnion_step\<close> merges it into \<open>current\<close> or pushes \<open>current\<close> to the result.
\<close>

definition getUnion_step ::
    "line_range option \<Rightarrow> line_range list \<Rightarrow> line_range \<Rightarrow>
     (line_range option \<times> line_range list) result" where
  "getUnion_step current result next =
     (case current of
        None \<Rightarrow> Inr (Some next, result)
      | Some c \<Rightarrow>
          (if endLineNumberExclusive c \<ge> lr_startLineNumber next
           then bind_result
                  (mk_LineRange (lr_startLineNumber c)
                     (max (endLineNumberExclusive c) (endLineNumberExclusive next)))
                  (\<lambda>c'. Inr (Some c', result))
           else Inr (Some next, result @ [c])))"

fun getUnion_loop ::
    "line_range list \<Rightarrow> line_range list \<Rightarrow> line_range option \<Rightarrow> line_range list \<Rightarrow>
     line_range list result" where
  "getUnion_loop [] [] current result =
     Inr (case current of None \<Rightarrow> result | Some c \<Rightarrow> result @ [c])"
| "getUnion_loop (r1 # rs1) (r2 # rs2) current result =
     (if lr_startLineNumber r1 < lr_startLineNumber r2
      then bind_result (getUnion_step current result r1)
             (\<lambda>(c, res). getUnion_loop rs1 (r2 # rs2) c res)
      else bind_result (getUnion_step current result r2)
             (\<lambda>(c, res). getUnion_loop (r1 # rs1) rs2 c res))"
| "getUnion_loop (r1 # rs1) [] current result =
     bind_result (getUnion_step current result r1) (\<lambda>(c, res). getUnion_loop rs1 [] c res)"
| "getUnion_loop [] (r2 # rs2) current result =
     bind_result (getUnion_step current result r2) (\<lambda>(c, res). getUnion_loop [] rs2 c res)"

definition LineRangeSet_getUnion ::
    "line_range_set \<Rightarrow> line_range_set \<Rightarrow> line_range_set result" where
  "LineRangeSet_getUnion this other =
     (if this = [] then Inr other
      else if other = [] then Inr this
      else getUnion_loop this other None [])"

fun joinMany_loop :: "line_range_set \<Rightarrow> line_range list list \<Rightarrow> line_range_set result" where
  "joinMany_loop result [] = Inr result"
| "joinMany_loop result (rs # rss) =
     bind_result (LineRangeSet_getUnion result rs) (\<lambda>result'. joinMany_loop result' rss)"

definition LineRange_joinMany :: "line_range list list \<Rightarrow> line_range list result" where
  "LineRange_joinMany lineRanges =
     (case lineRanges of [] \<Rightarrow> Inr [] | rs # rss \<Rightarrow> joinMany_loop rs rss)"

fun subtractFrom_loop ::
    "line_range list \<Rightarrow> int \<Rightarrow> line_range list \<Rightarrow> int \<times> line_range list" where
  "subtractFrom_loop [] s result = (s, result)"
| "subtractFrom_loop (r # rs) s result =
     subtractFrom_loop rs (endLineNumberExclusive r)
       (if lr_startLineNumber r > s then result @ [LineRange s (lr_startLineNumber r)] else result)"

definition LineRangeSet_subtractFrom :: "line_range_set \<Rightarrow> line_range \<Rightarrow> line_range_set" where
  "LineRangeSet_subtractFrom rs rg =
     (let joinRangeStartIdx = LineRangeSet_joinStart rs rg;
          joinRangeEndIdxExclusive = LineRangeSet_joinEnd rs rg
      in if joinRangeStartIdx = joinRangeEndIdxExclusive then [rg]
         else (let (s, result) =
                 subtractFrom_loop
                   (take (joinRangeEndIdxExclusive - joinRangeStartIdx) (drop joinRangeStartIdx rs))
                   (lr_startLineNumber rg) []
               in if s < endLineNumberExclusive rg
                  then result @ [LineRange s (endLineNumberExclusive rg)] else result))"

fun getIntersection_loop ::
    "line_range list \<Rightarrow> line_range list \<Rightarrow> line_range list \<Rightarrow> line_range list" where
  "getIntersection_loop (r1 # rs1) (r2 # rs2) result =
     (let result' =
            (case LineRange_intersect r1 r2 of
               Some i \<Rightarrow> (if \<not> LineRange_isEmpty i then result @ [i] else result)
             | None \<Rightarrow> result)
      in if endLineNumberExclusive r1 < endLineNumberExclusive r2
         then getIntersection_loop rs1 (r2 # rs2) result'
         else getIntersection_loop (r1 # rs1) rs2 result')"
| "getIntersection_loop _ _ result = result"

definition LineRangeSet_getIntersection ::
    "line_range_set \<Rightarrow> line_range_set \<Rightarrow> line_range_set" where
  "LineRangeSet_getIntersection this other = getIntersection_loop this other []"

definition LineRangeSet_getWithDelta :: "line_range_set \<Rightarrow> int \<Rightarrow> line_range_set result" where
  "LineRangeSet_getWithDelta rs v = map_result (\<lambda>r. LineRange_delta r v) rs"

subsection \<open>Line ranges as sets of lines\<close>

definition valid_line_range :: "line_range \<Rightarrow> bool" where
  "valid_line_range r \<longleftrightarrow> lr_startLineNumber r \<le> endLineNumberExclusive r"

definition line_set :: "line_range \<Rightarrow> int set" where
  "line_set r = {lr_startLineNumber r ..< endLineNumberExclusive r}"

abbreviation normalized_lines :: "line_range list \<Rightarrow> bool" where
  "normalized_lines \<equiv> separated lr_startLineNumber endLineNumberExclusive"

abbreviation lines_set :: "line_range list \<Rightarrow> int set" where
  "lines_set \<equiv> covered lr_startLineNumber endLineNumberExclusive"

interpretation lines: intervals lr_startLineNumber endLineNumberExclusive "\<lambda>s e. LineRange s e"
  by unfold_locales simp_all

lemma mk_LineRange_Inr [simp]: "s \<le> e \<Longrightarrow> mk_LineRange s e = Inr (LineRange s e)"
  by (simp add: mk_LineRange_def)

lemma line_range_eq_iff:
  "(r :: line_range) = s \<longleftrightarrow>
     lr_startLineNumber r = lr_startLineNumber s \<and>
     endLineNumberExclusive r = endLineNumberExclusive s"
  by (cases r; cases s) simp

lemma LineRange_join_valid [simp]:
  "valid_line_range r \<Longrightarrow> LineRange_join r s =
     Inr (LineRange (min (lr_startLineNumber r) (lr_startLineNumber s))
       (max (endLineNumberExclusive r) (endLineNumberExclusive s)))"
  by (simp add: LineRange_join_def valid_line_range_def min_le_iff_disj le_max_iff_disj)

text \<open>The predicates of the two bisections are monotone on a normalized array.\<close>

lemma monotone_joinStart:
  assumes "normalized_lines rs"
  shows "monotone_suffix (\<lambda>s. endLineNumberExclusive s \<ge> b) rs"
  unfolding monotone_suffix_def
proof (intro allI impI)
  fix i j assume "i \<le> j" "j < length rs" "b \<le> endLineNumberExclusive (rs ! i)"
  then show "b \<le> endLineNumberExclusive (rs ! j)"
    using separated_nth_less [OF assms, of i j] separated_valid [OF assms, of "rs ! j"]
    by (cases "i = j") auto
qed

lemma monotone_start:
  assumes "normalized_lines rs" and "\<And>x y :: int. x \<le> y \<Longrightarrow> q y \<Longrightarrow> q x"
  shows "monotone_prefix (\<lambda>s. q (lr_startLineNumber s)) rs"
  unfolding monotone_prefix_def
proof (intro allI impI)
  fix i j assume ij: "i \<le> j" "j < length rs" "q (lr_startLineNumber (rs ! j))"
  have "lr_startLineNumber (rs ! i) \<le> lr_startLineNumber (rs ! j)"
    using separated_nth_less [OF assms(1), of i j] separated_valid [OF assms(1), of "rs ! i"] ij
    by (cases "i = j") auto
  with ij(3) assms(2) show "q (lr_startLineNumber (rs ! i))" by blast
qed

lemma LineRangeSet_joinStart_eq:
  "normalized_lines rs \<Longrightarrow> LineRangeSet_joinStart rs r = length (lines.before r rs)"
  by (simp add: LineRangeSet_joinStart_def findFirstIdxMonotonousOrArrLen_eq_takeWhile
      monotone_joinStart lines.before_def not_le)

lemma LineRangeSet_joinEnd_eq:
  assumes "normalized_lines rs" and "valid_line_range r"
  shows "LineRangeSet_joinEnd rs r = length (lines.before r rs) + length (lines.touching r rs)"
  using assms
  by (simp add: LineRangeSet_joinEnd_def findLastIdxMonotonous_eq
      monotone_start [where q = "\<lambda>x. x \<le> endLineNumberExclusive r"] valid_line_range_def
      lines.length_takeWhile_lo)

lemma LineRangeSet_addRange_eq:
  assumes rs: "normalized_lines rs" and r: "valid_line_range r" "LineRange_length r \<noteq> 0"
  shows "LineRangeSet_addRange rs r =
    Inr (lines.before r rs @ lines.hull r (lines.touching r rs) # lines.after r rs)"
proof -
  let ?i = "length (lines.before r rs)" and ?n = "length (lines.touching r rs)"
  note idx = lines.run_indices [OF refl refl, of r rs]
  note ends = LineRangeSet_joinStart_eq [OF rs, of r] LineRangeSet_joinEnd_eq [OF rs r(1)]
  have mid: "valid_line_range s" if "s \<in> set (lines.touching r rs)" for s
    using separated_valid [OF lines.separated_parts(2) [OF rs] that]
    by (simp add: valid_line_range_def)
  consider "lines.touching r rs = []" | m where "lines.touching r rs = [m]" | "?n \<ge> 2"
    by (cases "lines.touching r rs" rule: remdups_adj.cases) auto
  then show ?thesis
  proof cases
    case 1
    with idx(1,2) r show ?thesis
      by (simp add: LineRangeSet_addRange_def ends js_splice_def lines.hull_def Let_def)
  next
    case (2 m)
    have "rs[?i := x] = lines.before r rs @ x # lines.after r rs" for x
      using 2 idx(1,2,4) by (simp add: upd_conv_take_nth_drop)
    with 2 idx(5) mid r show ?thesis
      by (simp add: LineRangeSet_addRange_def ends lines.hull_def Let_def min.commute max.commute)
  next
    case 3
    then have ne: "lines.touching r rs \<noteq> []" by auto
    have order: "lr_startLineNumber (hd (lines.touching r rs))
        \<le> lr_startLineNumber (last (lines.touching r rs))"
      "endLineNumberExclusive (hd (lines.touching r rs))
        \<le> endLineNumberExclusive (last (lines.touching r rs))"
      using separated_hd_last [OF lines.separated_parts(2) [OF rs]] ne
      by (meson hd_in_set last_in_set)+
    have v: "valid_line_range (hd (lines.touching r rs))" using ne mid by simp
    then have v2: "valid_line_range (LineRange (lr_startLineNumber (hd (lines.touching r rs)))
        (endLineNumberExclusive (last (lines.touching r rs))))"
      using order by (simp add: valid_line_range_def)
    have step: "bind_result
        (LineRange_join (hd (lines.touching r rs)) (last (lines.touching r rs)))
        (\<lambda>j1. LineRange_join j1 r) = Inr (lines.hull r (lines.touching r rs))"
      using v v2 order ne
      by (simp add: lines.hull_def min_absorb1 max_absorb2 min.commute max.commute)
    then obtain j1 where j1: "LineRange_join (hd (lines.touching r rs)) (last (lines.touching r rs)) = Inr j1"
      "LineRange_join j1 r = Inr (lines.hull r (lines.touching r rs))"
      by (auto simp: bind_result_Inr_iff)
    from 3 r ne idx(1,2) idx(5) [OF ne] idx(6) [OF ne] j1 show ?thesis
      by (simp add: LineRangeSet_addRange_def ends js_splice_def Let_def)
  qed
qed

lemma LineRangeSet_addRange_correct:
  assumes "normalized_lines rs" and "valid_line_range r"
  shows "\<exists>rs'. LineRangeSet_addRange rs r = Inr rs' \<and> normalized_lines rs' \<and>
    lines_set rs' = lines_set rs \<union> line_set r"
proof (cases "LineRange_length r = 0")
  case True
  with assms show ?thesis
    by (simp add: LineRangeSet_addRange_def LineRange_length_def line_set_def)
next
  case False
  with assms lines.insert_separated [OF assms(1)] lines.insert_covered [OF assms(1)]
  show ?thesis
    by (simp add: LineRangeSet_addRange_eq valid_line_range_def line_set_def)
qed

lemma LineRangeSet_contains_correct:
  assumes "normalized_lines rs"
  shows "LineRangeSet_contains rs n \<longleftrightarrow> n \<in> lines_set rs"
  using assms lines.covered_iff_last [OF assms, of n]
  by (simp add: LineRangeSet_contains_def findLastMonotonous_eq
      monotone_start [where q = "\<lambda>x. x \<le> n"])

lemma line_set_subset: "r \<in> set rs \<Longrightarrow> line_set r \<subseteq> lines_set rs"
  by (auto simp: covered_def line_set_def)

lemma LineRangeSet_intersects_correct:
  assumes rs: "normalized_lines rs" "\<forall>r\<in>set rs. lr_startLineNumber r < endLineNumberExclusive r"
    and rg: "lr_startLineNumber rg < endLineNumberExclusive rg"
  shows "LineRangeSet_intersects rs rg \<longleftrightarrow> lines_set rs \<inter> line_set rg \<noteq> {}"
proof -
  define p :: "line_range \<Rightarrow> bool" where
    "p = (\<lambda>r. lr_startLineNumber r < endLineNumberExclusive rg)"
  have "LineRangeSet_intersects rs rg \<longleftrightarrow>
      takeWhile p rs \<noteq> [] \<and> lr_startLineNumber rg < endLineNumberExclusive (last (takeWhile p rs))"
    using rs(1) unfolding p_def
    by (simp add: LineRangeSet_intersects_def findLastMonotonous_eq
        monotone_start [where q = "\<lambda>x. x < endLineNumberExclusive rg"])
  also have "\<dots> \<longleftrightarrow> lines_set rs \<inter> line_set rg \<noteq> {}"
  proof
    assume *: "takeWhile p rs \<noteq> [] \<and>
      lr_startLineNumber rg < endLineNumberExclusive (last (takeWhile p rs))"
    define l where "l = last (takeWhile p rs)"
    have l: "l \<in> set rs" "p l" "lr_startLineNumber rg < endLineNumberExclusive l"
      using * set_takeWhileD [of l p rs] by (simp_all add: l_def)
    with rs(2) rg
    have "max (lr_startLineNumber l) (lr_startLineNumber rg) \<in> line_set l \<inter> line_set rg"
      by (auto simp: line_set_def p_def)
    with line_set_subset [OF l(1)] show "lines_set rs \<inter> line_set rg \<noteq> {}" by blast
  next
    assume "lines_set rs \<inter> line_set rg \<noteq> {}"
    then obtain x where "x \<in> lines_set rs" and rg: "x \<in> line_set rg" by blast
    then obtain r where x: "r \<in> set rs" "x \<in> line_set r"
      by (auto simp: covered_def line_set_def)
    with rg have "p r" by (simp add: p_def line_set_def)
    have "r \<in> set (takeWhile p rs)"
    proof (rule ccontr)
      assume "r \<notin> set (takeWhile p rs)"
      with x(1) have "r \<in> set (dropWhile p rs)" by (metis Un_iff set_append takeWhile_dropWhile_id)
      then have "endLineNumberExclusive rg - 1 < lr_startLineNumber r"
        using dropWhile_lo_bound [OF rs(1), of r "endLineNumberExclusive rg - 1"]
        by (simp add: p_def)
      with \<open>p r\<close> show False by (simp add: p_def)
    qed
    moreover from this have "endLineNumberExclusive r \<le> endLineNumberExclusive (last (takeWhile p rs))"
      using separated_hd_last(2) [OF separated_takeWhile [OF rs(1)]] by blast
    ultimately show "takeWhile p rs \<noteq> [] \<and>
        lr_startLineNumber rg < endLineNumberExclusive (last (takeWhile p rs))"
      using x rg by (auto simp: line_set_def)
  qed
  finally show ?thesis .
qed

subsection \<open>Union\<close>

definition union_inv :: "line_range option \<Rightarrow> line_range list \<Rightarrow> line_range list \<Rightarrow> bool" where
  "union_inv current result todo \<longleftrightarrow>
     (case current of
        None \<Rightarrow> result = []
      | Some c \<Rightarrow> normalized_lines (result @ [c]) \<and>
          (\<forall>s\<in>set todo. lr_startLineNumber c \<le> lr_startLineNumber s))"

definition union_lines :: "line_range option \<Rightarrow> line_range list \<Rightarrow> int set" where
  "union_lines current result =
     lines_set result \<union> (case current of None \<Rightarrow> {} | Some c \<Rightarrow> line_set c)"

lemma getUnion_step_correct:
  assumes "union_inv current result (next # todo)" and "valid_line_range next"
    and "\<forall>s\<in>set todo. lr_startLineNumber next \<le> lr_startLineNumber s"
  shows "\<exists>c res. getUnion_step current result next = Inr (Some c, res) \<and>
    union_inv (Some c) res todo \<and>
    union_lines (Some c) res = union_lines current result \<union> line_set next"
proof (cases current)
  case None
  with assms show ?thesis
    by (simp add: getUnion_step_def union_inv_def union_lines_def valid_line_range_def)
next
  case (Some c)
  show ?thesis
  proof (cases "endLineNumberExclusive c \<ge> lr_startLineNumber next")
    case True
    with Some assms show ?thesis
      by (auto simp: getUnion_step_def union_inv_def union_lines_def valid_line_range_def
          line_set_def le_max_iff_disj max_def)
  next
    case False
    with Some assms show ?thesis
      by (fastforce simp: getUnion_step_def union_inv_def union_lines_def valid_line_range_def
          line_set_def)
  qed
qed

lemma union_inv_mono:
  "union_inv current result todo \<Longrightarrow> set todo' \<subseteq> set todo \<Longrightarrow> union_inv current result todo'"
  by (auto simp: union_inv_def split: option.splits)

lemma normalized_lines_Cons_le:
  "normalized_lines (r # rs) \<Longrightarrow> s \<in> set rs \<Longrightarrow> lr_startLineNumber r \<le> lr_startLineNumber s"
  by (rule separated_lo_mono(2))

lemma getUnion_loop_correct:
  assumes "normalized_lines rs1" and "normalized_lines rs2"
    and "union_inv current result (rs1 @ rs2)"
  shows "\<exists>out. getUnion_loop rs1 rs2 current result = Inr out \<and> normalized_lines out \<and>
    lines_set out = union_lines current result \<union> lines_set rs1 \<union> lines_set rs2"
  using assms
proof (induction rs1 rs2 current result rule: getUnion_loop.induct)
  case (1 current result)
  then show ?case by (cases current) (auto simp: union_inv_def union_lines_def line_set_def)
next
  case (2 r1 rs1 r2 rs2 current result)
  show ?case
  proof (cases "lr_startLineNumber r1 < lr_startLineNumber r2")
    case True
    then have "\<forall>s\<in>set (rs1 @ r2 # rs2). lr_startLineNumber r1 \<le> lr_startLineNumber s"
      using normalized_lines_Cons_le [OF "2.prems"(1)] normalized_lines_Cons_le [OF "2.prems"(2)]
      by fastforce
    then obtain c res where step: "getUnion_step current result r1 = Inr (Some c, res)"
      "union_inv (Some c) res (rs1 @ r2 # rs2)"
      "union_lines (Some c) res = union_lines current result \<union> line_set r1"
      using getUnion_step_correct [of current result r1 "rs1 @ r2 # rs2"] "2.prems"
      by (auto simp: valid_line_range_def)
    with "2.IH"(1) [OF True, of "Some c" res] "2.prems"(1,2) True show ?thesis
      by (auto simp: line_set_def Un_assoc Un_left_commute)
  next
    case False
    then have "\<forall>s\<in>set ((r1 # rs1) @ rs2). lr_startLineNumber r2 \<le> lr_startLineNumber s"
      using normalized_lines_Cons_le [OF "2.prems"(1)] normalized_lines_Cons_le [OF "2.prems"(2)]
      by fastforce
    moreover have "union_inv current result (r2 # (r1 # rs1) @ rs2)"
      using "2.prems"(3) by (rule union_inv_mono) auto
    ultimately obtain c res where step: "getUnion_step current result r2 = Inr (Some c, res)"
      "union_inv (Some c) res ((r1 # rs1) @ rs2)"
      "union_lines (Some c) res = union_lines current result \<union> line_set r2"
      using getUnion_step_correct [of current result r2 "(r1 # rs1) @ rs2"] "2.prems"
      by (auto simp: valid_line_range_def)
    with "2.IH"(2) [OF False, of "Some c" res] "2.prems"(1,2) False show ?thesis
      by (auto simp: line_set_def Un_assoc Un_left_commute)
  qed
next
  case (3 r1 rs1 current result)
  obtain c res where step: "getUnion_step current result r1 = Inr (Some c, res)"
    "union_inv (Some c) res rs1"
    "union_lines (Some c) res = union_lines current result \<union> line_set r1"
    using getUnion_step_correct [of current result r1 rs1] "3.prems"
      normalized_lines_Cons_le [OF "3.prems"(1)] by (auto simp: valid_line_range_def)
  with "3.IH" [of "Some c" res] "3.prems"(1) show ?case
    by (auto simp: line_set_def Un_assoc)
next
  case (4 r2 rs2 current result)
  obtain c res where step: "getUnion_step current result r2 = Inr (Some c, res)"
    "union_inv (Some c) res rs2"
    "union_lines (Some c) res = union_lines current result \<union> line_set r2"
    using getUnion_step_correct [of current result r2 rs2] "4.prems"
      normalized_lines_Cons_le [OF "4.prems"(2)] by (auto simp: valid_line_range_def)
  with "4.IH" [of "Some c" res] "4.prems"(2) show ?case
    by (auto simp: line_set_def Un_assoc)
qed

lemma LineRangeSet_getUnion_correct:
  assumes "normalized_lines rs1" and "normalized_lines rs2"
  shows "\<exists>out. LineRangeSet_getUnion rs1 rs2 = Inr out \<and> normalized_lines out \<and>
    lines_set out = lines_set rs1 \<union> lines_set rs2"
  using assms getUnion_loop_correct [OF assms, of None "[]"]
  by (auto simp: LineRangeSet_getUnion_def union_inv_def union_lines_def)

lemma joinMany_loop_correct:
  assumes "normalized_lines acc" and "\<forall>rs\<in>set rss. normalized_lines rs"
  shows "\<exists>out. joinMany_loop acc rss = Inr out \<and> normalized_lines out \<and>
    lines_set out = lines_set acc \<union> (\<Union>rs\<in>set rss. lines_set rs)"
  using assms
proof (induction rss arbitrary: acc)
  case (Cons rs rss)
  from Cons.prems LineRangeSet_getUnion_correct [of acc rs] obtain acc' where
    acc': "LineRangeSet_getUnion acc rs = Inr acc'" "normalized_lines acc'"
      "lines_set acc' = lines_set acc \<union> lines_set rs" by auto
  with Cons.IH [OF acc'(2)] Cons.prems show ?case by (auto simp: Un_assoc)
qed simp

subsection \<open>Difference\<close>

text \<open>
  The loop emits the gaps between \<open>s\<close> and the last range it has seen; the gaps are not
  adjacent when no range is empty.
\<close>

lemma subtractFrom_loop_covers:
  assumes "normalized_lines ms" and "ms \<noteq> [] \<longrightarrow> s \<le> endLineNumberExclusive (hd ms)"
    and "subtractFrom_loop ms s result = (s', result')"
  shows "s \<le> s' \<and> s' = (if ms = [] then s else endLineNumberExclusive (last ms)) \<and>
    lines_set result' = lines_set result \<union> ({s ..< s'} - lines_set ms)"
  using assms
proof (induction ms arbitrary: s result)
  case (Cons m ms)
  let ?e = "endLineNumberExclusive m" and ?a = "lr_startLineNumber m"
  let ?res = "if ?a > s then result @ [LineRange s ?a] else result"
  have ms: "normalized_lines ms" and m: "?a \<le> ?e" using Cons.prems(1) by simp_all
  have next_end: "ms \<noteq> [] \<longrightarrow> ?e \<le> endLineNumberExclusive (hd ms)"
    using separated_lo_mono(3) [OF Cons.prems(1), of "hd ms"] by simp
  have rec: "subtractFrom_loop ms ?e ?res = (s', result')" using Cons.prems(3) by simp
  note IH = Cons.IH [OF ms next_end rec]
  have se: "s \<le> ?e" using Cons.prems(2) by simp
  have "x \<notin> lines_set ms" if "x < ?e" for x
    using that separated_lo_mono(1) [OF Cons.prems(1)] by (fastforce simp: covered_def)
  then have "{s ..< ?a} \<union> ({?e ..< s'} - lines_set ms) =
      {s ..< s'} - ({?a ..< ?e} \<union> lines_set ms)"
    using IH se m by auto
  moreover have "lines_set ?res = lines_set result \<union> {s ..< ?a}" by auto
  ultimately show ?case using IH se by (simp add: Un_assoc)
qed simp

lemma subtractFrom_loop_separated:
  assumes "normalized_lines ms" and "\<forall>m\<in>set ms. lr_startLineNumber m < endLineNumberExclusive m"
    and "ms \<noteq> [] \<longrightarrow> s \<le> endLineNumberExclusive (hd ms)"
    and "normalized_lines result" and "\<forall>r\<in>set result. endLineNumberExclusive r < s"
    and "subtractFrom_loop ms s result = (s', result')"
  shows "normalized_lines result' \<and> (\<forall>r\<in>set result'. endLineNumberExclusive r < s')"
  using assms
proof (induction ms arbitrary: s result)
  case (Cons m ms)
  let ?res = "if lr_startLineNumber m > s
    then result @ [LineRange s (lr_startLineNumber m)] else result"
  have "normalized_lines ?res" "\<forall>r\<in>set ?res. endLineNumberExclusive r < endLineNumberExclusive m"
    using Cons.prems(2-5) by auto
  moreover have "ms \<noteq> [] \<longrightarrow> endLineNumberExclusive m \<le> endLineNumberExclusive (hd ms)"
    using separated_lo_mono(3) [OF Cons.prems(1), of "hd ms"] by simp
  ultimately show ?case
    using Cons.prems by (intro Cons.IH [of "endLineNumberExclusive m" ?res]) simp_all
qed simp

lemma LineRangeSet_subtractFrom_cases:
  assumes "normalized_lines rs" and "valid_line_range rg"
  shows "LineRangeSet_subtractFrom rs rg =
    (if lines.touching rg rs = [] then [rg]
     else (case subtractFrom_loop (lines.touching rg rs) (lr_startLineNumber rg) [] of
             (s, result) \<Rightarrow>
               if s < endLineNumberExclusive rg
               then result @ [LineRange s (endLineNumberExclusive rg)] else result))"
proof -
  let ?i = "length (lines.before rg rs)"
  have "take (length (lines.touching rg rs)) (drop ?i rs) = lines.touching rg rs"
    by (subst lines.split_run [of rs rg]) simp
  then show ?thesis
    using assms
    by (simp add: LineRangeSet_subtractFrom_def LineRangeSet_joinStart_eq LineRangeSet_joinEnd_eq)
qed

lemma lines_set_touching:
  assumes "normalized_lines rs" and "valid_line_range rg"
  shows "line_set rg - lines_set rs = line_set rg - lines_set (lines.touching rg rs)"
proof -
  have "lines_set (lines.before rg rs) \<inter> line_set rg = {}"
    using lines.before_bound [of _ rg rs] by (fastforce simp: covered_def line_set_def)
  moreover have "lines_set (lines.after rg rs) \<inter> line_set rg = {}"
    using lines.after_bound [OF assms(1)] by (fastforce simp: covered_def line_set_def)
  moreover have "lines_set rs = lines_set (lines.before rg rs) \<union>
      lines_set (lines.touching rg rs) \<union> lines_set (lines.after rg rs)"
    by (metis covered_simps(3) lines.split_run Un_assoc)
  ultimately show ?thesis by blast
qed

lemma LineRangeSet_subtractFrom_correct:
  assumes rs: "normalized_lines rs" and rg: "valid_line_range rg"
  shows "lines_set (LineRangeSet_subtractFrom rs rg) = line_set rg - lines_set rs"
proof (cases "lines.touching rg rs = []")
  case True
  then show ?thesis
    using lines_set_touching [OF assms] by (simp add: LineRangeSet_subtractFrom_cases assms line_set_def)
next
  case False
  define ms where "ms = lines.touching rg rs"
  have ms: "normalized_lines ms" "ms \<noteq> []"
    and touch: "\<And>m. m \<in> set ms \<Longrightarrow>
      lr_startLineNumber rg \<le> endLineNumberExclusive m \<and> lr_startLineNumber m \<le> endLineNumberExclusive rg"
    using lines.separated_parts(2) [OF rs] False lines.touching_bound [OF rs] by (simp_all add: ms_def)
  obtain s' result' where loop: "subtractFrom_loop ms (lr_startLineNumber rg) [] = (s', result')"
    by fastforce
  have "ms \<noteq> [] \<longrightarrow> lr_startLineNumber rg \<le> endLineNumberExclusive (hd ms)"
    using touch by simp
  note covers = subtractFrom_loop_covers [OF ms(1) this loop]
  have last: "x \<in> lines_set ms" if "endLineNumberExclusive rg \<le> x" "x < s'" for x
    using that covers ms(2) touch [of "last ms"] by (force simp: covered_def)
  have "x \<notin> lines_set ms" if "s' \<le> x" for x
    using that covers ms(2) separated_hd_last(2) [OF ms(1)] by (fastforce simp: covered_def)
  then have "lines_set (LineRangeSet_subtractFrom rs rg) = line_set rg - lines_set ms"
    using covers last False loop not_le
    by (auto simp: LineRangeSet_subtractFrom_cases [OF assms] line_set_def simp flip: ms_def)
  then show ?thesis using lines_set_touching [OF assms] by (simp add: ms_def)
qed

subsection \<open>Intersection\<close>

lemma LineRange_intersect_lines:
  "line_set r \<inter> line_set s = (case LineRange_intersect r s of None \<Rightarrow> {} | Some i \<Rightarrow> line_set i)"
  by (auto simp: LineRange_intersect_def line_set_def Let_def)

lemma LineRange_isEmpty_empty: "LineRange_isEmpty r \<Longrightarrow> line_set r = {}"
  by (simp add: LineRange_isEmpty_def line_set_def)

lemma getIntersection_loop_covers:
  assumes "normalized_lines rs1" and "normalized_lines rs2"
  shows "lines_set (getIntersection_loop rs1 rs2 result) =
    lines_set result \<union> lines_set rs1 \<inter> lines_set rs2"
  using assms
proof (induction rs1 rs2 result rule: getIntersection_loop.induct)
  case (1 r1 rs1 r2 rs2 result)
  define result' where "result' = (case LineRange_intersect r1 r2 of
      Some i \<Rightarrow> (if \<not> LineRange_isEmpty i then result @ [i] else result) | None \<Rightarrow> result)"
  have res: "lines_set result' = lines_set result \<union> (line_set r1 \<inter> line_set r2)"
    using LineRange_intersect_lines [of r1 r2]
    by (cases "LineRange_intersect r1 r2")
      (simp_all add: result'_def LineRange_isEmpty_empty flip: line_set_def)
  show ?case
  proof (cases "endLineNumberExclusive r1 < endLineNumberExclusive r2")
    case True
    have "line_set r1 \<inter> lines_set rs2 = {}"
      using True separated_lo_mono(1) [OF "1.prems"(2)] by (fastforce simp: covered_def line_set_def)
    with True "1.IH"(1) [OF refl True] "1.prems" res show ?thesis
      by (auto simp: result'_def [symmetric] line_set_def)
  next
    case False
    have "line_set r2 \<inter> lines_set rs1 = {}"
      using False separated_lo_mono(1) [OF "1.prems"(1)] by (fastforce simp: covered_def line_set_def)
    with False "1.IH"(2) [OF refl False] "1.prems" res show ?thesis
      by (auto simp: result'_def [symmetric] line_set_def)
  qed
qed auto

text \<open>Every range already emitted ends before one of the two remaining inputs begins.\<close>

definition intersection_inv ::
    "line_range list \<Rightarrow> line_range list \<Rightarrow> line_range list \<Rightarrow> bool" where
  "intersection_inv rs1 rs2 result \<longleftrightarrow>
     normalized_lines result \<and>
     (\<forall>x\<in>set result.
        (\<forall>r\<in>set rs1. endLineNumberExclusive x < lr_startLineNumber r) \<or>
        (\<forall>r\<in>set rs2. endLineNumberExclusive x < lr_startLineNumber r))"

lemma getIntersection_loop_separated:
  assumes "normalized_lines rs1" and "normalized_lines rs2" and "intersection_inv rs1 rs2 result"
  shows "normalized_lines (getIntersection_loop rs1 rs2 result)"
  using assms
proof (induction rs1 rs2 result rule: getIntersection_loop.induct)
  case (1 r1 rs1 r2 rs2 result)
  define result' where "result' = (case LineRange_intersect r1 r2 of
      Some i \<Rightarrow> (if \<not> LineRange_isEmpty i then result @ [i] else result) | None \<Rightarrow> result)"
  have old: "normalized_lines result"
    "\<And>x. x \<in> set result \<Longrightarrow> endLineNumberExclusive x < lr_startLineNumber r1 \<or>
       endLineNumberExclusive x < lr_startLineNumber r2"
    using "1.prems"(3) by (auto simp: intersection_inv_def)
  have new: "i = LineRange (max (lr_startLineNumber r1) (lr_startLineNumber r2))
      (min (endLineNumberExclusive r1) (endLineNumberExclusive r2)) \<and>
      lr_startLineNumber i \<le> endLineNumberExclusive i"
    if "LineRange_intersect r1 r2 = Some i" for i
    using that by (auto simp: LineRange_intersect_def Let_def split: if_splits)
  have sep: "normalized_lines result'"
    using old new by (fastforce simp: result'_def split: option.split)
  have mem: "x \<in> set result \<or> LineRange_intersect r1 r2 = Some x" if "x \<in> set result'" for x
    using that by (auto simp: result'_def split: option.splits if_splits)
  show ?case
  proof (cases "endLineNumberExclusive r1 < endLineNumberExclusive r2")
    case True
    have "intersection_inv rs1 (r2 # rs2) result'"
      unfolding intersection_inv_def
    proof (intro conjI ballI sep)
      fix x assume "x \<in> set result'"
      then consider "x \<in> set result" | "LineRange_intersect r1 r2 = Some x" using mem by blast
      then show "(\<forall>r\<in>set rs1. endLineNumberExclusive x < lr_startLineNumber r) \<or>
          (\<forall>r\<in>set (r2 # rs2). endLineNumberExclusive x < lr_startLineNumber r)"
        using "1.prems"(3) new separated_lo_mono(1) [OF "1.prems"(1)]
        by cases (fastforce simp: intersection_inv_def)+
    qed
    with True "1.IH"(1) [OF refl True] "1.prems"(1,2) show ?thesis
      by (simp add: result'_def [symmetric])
  next
    case False
    have "intersection_inv (r1 # rs1) rs2 result'"
      unfolding intersection_inv_def
    proof (intro conjI ballI sep)
      fix x assume "x \<in> set result'"
      then consider "x \<in> set result" | "LineRange_intersect r1 r2 = Some x" using mem by blast
      then show "(\<forall>r\<in>set (r1 # rs1). endLineNumberExclusive x < lr_startLineNumber r) \<or>
          (\<forall>r\<in>set rs2. endLineNumberExclusive x < lr_startLineNumber r)"
        using "1.prems"(3) new separated_lo_mono(1) [OF "1.prems"(2)]
        by cases (fastforce simp: intersection_inv_def)+
    qed
    with False "1.IH"(2) [OF refl False] "1.prems"(1,2) show ?thesis
      by (simp add: result'_def [symmetric])
  qed
qed (simp_all add: intersection_inv_def)

subsection \<open>Single ranges\<close>

lemma LineRange_subtract_correct:
  assumes "valid_line_range a" and "valid_line_range b"
  shows "\<exists>rs. LineRange_subtract a (Some b) = Inr rs \<and> lines_set rs = line_set a - line_set b"
  using assms
  by (auto simp: LineRange_subtract_def valid_line_range_def mk_LineRange_def line_set_def)

lemma LineRangeSet_getWithDelta_eq:
  "normalized_lines rs \<Longrightarrow> LineRangeSet_getWithDelta rs d =
     Inr (map (\<lambda>r. LineRange (lr_startLineNumber r + d) (endLineNumberExclusive r + d)) rs)"
  unfolding LineRangeSet_getWithDelta_def
  by (rule map_result_cong_Inr) (auto simp: LineRange_delta_def mk_LineRange_def dest: separated_valid)

subsection \<open>Properties\<close>

text \<open>C40: \<open>addRange\<close> and \<open>getUnion\<close> of line range sets compute unions, and keep the sets normalized:
  sorted, with a gap between any two ranges.\<close>

theorem LineRangeSet_unions:
  assumes "normalized_lines rs1" and "normalized_lines rs2" and "lr_startLineNumber r \<le> endLineNumberExclusive r"
  shows "(\<exists>out. LineRangeSet_addRange rs1 r = Inr out \<and> normalized_lines out \<and>
      lines_set out = lines_set rs1 \<union> {lr_startLineNumber r ..< endLineNumberExclusive r}) \<and>
    (\<exists>out. LineRangeSet_getUnion rs1 rs2 = Inr out \<and> normalized_lines out \<and>
      lines_set out = lines_set rs1 \<union> lines_set rs2)"
  using LineRangeSet_addRange_correct [OF assms(1), of r] LineRangeSet_getUnion_correct [OF assms(1,2)] assms(3)
  by (simp add: valid_line_range_def line_set_def)

theorem LineRangeSet_unions_witness:
  "(\<exists>out. LineRangeSet_addRange [LineRange 1 3, LineRange 7 9] (LineRange 3 7) = Inr out \<and> normalized_lines out \<and>
      lines_set out = lines_set [LineRange 1 3, LineRange 7 9] \<union>
        {lr_startLineNumber (LineRange 3 7) ..< endLineNumberExclusive (LineRange 3 7)}) \<and>
    (\<exists>out. LineRangeSet_getUnion [LineRange 1 3, LineRange 7 9] [LineRange 2 5] = Inr out \<and> normalized_lines out \<and>
      lines_set out = lines_set [LineRange 1 3, LineRange 7 9] \<union> lines_set [LineRange 2 5])"
  by (rule LineRangeSet_unions; simp)

text \<open>\<open>getIntersection\<close>, \<open>subtractFrom\<close> and \<open>contains\<close> of line range sets compute the
  intersection, the difference and membership of the sets of lines.\<close>

lemma LineRangeSet_intersection_difference:
  assumes "normalized_lines rs1" and "normalized_lines rs2" and "lr_startLineNumber r \<le> endLineNumberExclusive r"
  shows "lines_set (LineRangeSet_getIntersection rs1 rs2) = lines_set rs1 \<inter> lines_set rs2 \<and>
    lines_set (LineRangeSet_subtractFrom rs1 r) =
      {lr_startLineNumber r ..< endLineNumberExclusive r} - lines_set rs1 \<and>
    (LineRangeSet_contains rs1 n \<longleftrightarrow> n \<in> lines_set rs1)"
  using getIntersection_loop_covers [OF assms(1,2), of "[]"] LineRangeSet_subtractFrom_correct [OF assms(1), of r]
    LineRangeSet_contains_correct [OF assms(1), of n] assms(3)
  by (simp add: LineRangeSet_getIntersection_def valid_line_range_def line_set_def)

end
