(* ===== verification/Edit.thy ===== *)
theory Edit
  imports OffsetRange
begin

section \<open>Edits: \<open>src/vs/editor/common/core/edits/edit.ts\<close>\<close>

text \<open>
  \<open>BaseEdit\<close> is abstract over the type of its replacements. What it uses of a replacement, the
  abstract class \<open>BaseReplacement\<close>, is the record \<open>replacement_ops\<close>; every operation of
  \<open>BaseEdit\<close> takes it as its first argument. An edit is the list of its replacements, which the
  constructor \<open>mk_Edit\<close> checks to be sorted and disjoint; operations that construct an edit or
  an offset range return a \<open>result\<close>.

  The locale \<open>replacement\<close> states what a replacement class promises: its new length is the
  length of its content, \<open>slice\<close> cuts the content, \<open>tryJoinTouching\<close> concatenates it. Under
  these laws \<open>normalize\<close> does not change what an edit does and \<open>compose\<close> is the composition
  of the two edits; the concrete classes interpret the locale in \<open>StringEdit\<close>.
\<close>

record 't replacement_ops =
  replaceRange :: "'t \<Rightarrow> offset_range"
  getNewLength :: "'t \<Rightarrow> int"
  tryJoinTouching :: "'t \<Rightarrow> 't \<Rightarrow> 't option result"
  slice_repl :: "'t \<Rightarrow> offset_range \<Rightarrow> offset_range \<Rightarrow> 't"
  equals_repl :: "'t \<Rightarrow> 't \<Rightarrow> bool"

subsection \<open>\<open>BaseReplacement\<close>\<close>

definition BaseReplacement_delta :: "'t replacement_ops \<Rightarrow> 't \<Rightarrow> int \<Rightarrow> 't result" where
  "BaseReplacement_delta R r offset =
     bind_result (OffsetRange_delta (replaceRange R r) offset)
       (\<lambda>rg. bind_result (mk_OffsetRange 0 (getNewLength R r)) (\<lambda>sub. Inr (slice_repl R r rg sub)))"

definition BaseReplacement_getLengthDelta :: "'t replacement_ops \<Rightarrow> 't \<Rightarrow> int" where
  "BaseReplacement_getLengthDelta R r =
     getNewLength R r - OffsetRange_length (replaceRange R r)"

definition BaseReplacement_isEmpty :: "'t replacement_ops \<Rightarrow> 't \<Rightarrow> bool" where
  "BaseReplacement_isEmpty R r \<longleftrightarrow>
     getNewLength R r = 0 \<and> OffsetRange_length (replaceRange R r) = 0"

definition BaseReplacement_getRangeAfterReplace ::
    "'t replacement_ops \<Rightarrow> 't \<Rightarrow> offset_range result" where
  "BaseReplacement_getRangeAfterReplace R r =
     mk_OffsetRange (start (replaceRange R r)) (start (replaceRange R r) + getNewLength R r)"

subsection \<open>\<open>BaseEdit\<close>\<close>

text \<open>The check of the constructor: each replacement starts at or behind the end of the last one.\<close>

fun mk_Edit_check :: "'t replacement_ops \<Rightarrow> int \<Rightarrow> 't list \<Rightarrow> bool" where
  "mk_Edit_check R lastEndEx [] = True"
| "mk_Edit_check R lastEndEx (r # rs) =
     (if \<not> start (replaceRange R r) \<ge> lastEndEx then False
      else mk_Edit_check R (endExclusive (replaceRange R r)) rs)"

definition mk_Edit :: "'t replacement_ops \<Rightarrow> 't list \<Rightarrow> 't list result" where
  "mk_Edit R rs = (if mk_Edit_check R (-1) rs then Inr rs else Inl BugIndicatingError)"

fun BaseEdit_equals_loop :: "'t replacement_ops \<Rightarrow> 't list \<Rightarrow> 't list \<Rightarrow> bool" where
  "BaseEdit_equals_loop R (a # as) (b # bs) =
     (if \<not> equals_repl R a b then False else BaseEdit_equals_loop R as bs)"
| "BaseEdit_equals_loop R _ _ = True"

definition BaseEdit_equals :: "'t replacement_ops \<Rightarrow> 't list \<Rightarrow> 't list \<Rightarrow> bool" where
  "BaseEdit_equals R this other =
     (if length this \<noteq> length other then False else BaseEdit_equals_loop R this other)"

text \<open>The loop of \<open>normalize\<close>; \<open>acc\<close> is \<open>newReplacements\<close>, \<open>lst\<close> is \<open>lastReplacement\<close>.\<close>

fun normalize_loop ::
    "'t replacement_ops \<Rightarrow> 't list \<Rightarrow> 't option \<Rightarrow> 't list \<Rightarrow> 't list result" where
  "normalize_loop R [] lst acc =
     Inr (case lst of None \<Rightarrow> acc | Some l \<Rightarrow> acc @ [l])"
| "normalize_loop R (r # rs) lst acc =
     (if getNewLength R r = 0 \<and> OffsetRange_length (replaceRange R r) = 0
      then normalize_loop R rs lst acc
      else (case lst of
              None \<Rightarrow> normalize_loop R rs (Some r) acc
            | Some l \<Rightarrow>
                (if endExclusive (replaceRange R l) = start (replaceRange R r)
                 then bind_result (tryJoinTouching R l r)
                        (\<lambda>joined. case joined of
                           Some j \<Rightarrow> normalize_loop R rs (Some j) acc
                         | None \<Rightarrow> normalize_loop R rs (Some r) (acc @ [l]))
                 else normalize_loop R rs (Some r) (acc @ [l]))))"

definition BaseEdit_normalize :: "'t replacement_ops \<Rightarrow> 't list \<Rightarrow> 't list result" where
  "BaseEdit_normalize R this = bind_result (normalize_loop R this None []) (mk_Edit R)"

text \<open>
  \<open>compose\<close>. The state of the outer loop is the queue of the replacements of the first edit
  that are not used up, the result and the offset \<open>edit1ToEdit2\<close>. \<open>compose_copy\<close> is the
  first inner loop (copy over what does not touch), \<open>compose_touch\<close> the second (collect what
  touches); it returns the first and the last replacement it has taken.
\<close>

fun compose_copy ::
    "'t replacement_ops \<Rightarrow> 't \<Rightarrow> 't list \<Rightarrow> 't list \<Rightarrow> int \<Rightarrow> 't list \<times> 't list \<times> int" where
  "compose_copy R r2 [] result d = ([], result, d)"
| "compose_copy R r2 (r1 # queue) result d =
     (if start (replaceRange R r1) + d + getNewLength R r1 \<ge> start (replaceRange R r2)
      then (r1 # queue, result, d)
      else compose_copy R r2 queue (result @ [r1])
             (d + (getNewLength R r1 - OffsetRange_length (replaceRange R r1))))"

fun compose_touch ::
    "'t replacement_ops \<Rightarrow> 't \<Rightarrow> 't list \<Rightarrow> int \<Rightarrow> ('t \<times> 't) option \<Rightarrow>
     't list \<times> int \<times> ('t \<times> 't) option" where
  "compose_touch R r2 [] d fl = ([], d, fl)"
| "compose_touch R r2 (r1 # queue) d fl =
     (if start (replaceRange R r1) + d > endExclusive (replaceRange R r2)
      then (r1 # queue, d, fl)
      else compose_touch R r2 queue
             (d + (getNewLength R r1 - OffsetRange_length (replaceRange R r1)))
             (case fl of None \<Rightarrow> Some (r1, r1) | Some (f, _) \<Rightarrow> Some (f, r1)))"

text \<open>The part of the loop body that pushes the prefix of the first intersecting replacement.\<close>

definition compose_prefix ::
    "'t replacement_ops \<Rightarrow> 't \<Rightarrow> 't \<Rightarrow> int \<Rightarrow> int \<Rightarrow> 't list result" where
  "compose_prefix R r2 f firstD newStart =
     (let prefixLength = start (replaceRange R r2) - (start (replaceRange R f) + firstD)
      in if prefixLength > 0
         then bind_result (OffsetRange_emptyAt newStart)
                (\<lambda>rg. bind_result (mk_OffsetRange 0 prefixLength)
                   (\<lambda>sub. Inr [slice_repl R f rg sub]))
         else Inr [])"

text \<open>The part that puts the suffix of the last intersecting replacement back into the queue.\<close>

definition compose_suffix ::
    "'t replacement_ops \<Rightarrow> 't \<Rightarrow> 't \<Rightarrow> 't list \<Rightarrow> int \<Rightarrow> ('t list \<times> int) result" where
  "compose_suffix R r2 l queue d =
     (let suffixLength = endExclusive (replaceRange R l) + d - endExclusive (replaceRange R r2)
      in if suffixLength > 0
         then bind_result (OffsetRange_ofStartAndLength (endExclusive (replaceRange R l)) 0)
                (\<lambda>rg. bind_result
                   (mk_OffsetRange (getNewLength R l - suffixLength) (getNewLength R l))
                   (\<lambda>sub. let e = slice_repl R l rg sub
                          in Inr (e # queue,
                                  d - (getNewLength R e - OffsetRange_length (replaceRange R e)))))
         else Inr (queue, d))"

definition compose_body ::
    "'t replacement_ops \<Rightarrow> 't \<Rightarrow> 't list \<times> 't list \<times> int \<Rightarrow> ('t list \<times> 't list \<times> int) result" where
  "compose_body R r2 st =
     (let (queue0, result0, d0) = st;
          (queue1, result1, d1) = compose_copy R r2 queue0 result0 d0;
          (queue2, d2, fl) = compose_touch R r2 queue1 d1 None
      in case fl of
           None \<Rightarrow>
             bind_result (BaseReplacement_delta R r2 (- d2))
               (\<lambda>r. Inr (queue2, result1 @ [r], d2))
         | Some (f, l) \<Rightarrow>
             (let newStart = min (start (replaceRange R f)) (start (replaceRange R r2) - d1)
              in bind_result (compose_prefix R r2 f d1 newStart)
                   (\<lambda>prefix. bind_result (compose_suffix R r2 l queue2 d2)
                      (\<lambda>(queue3, d3).
                         bind_result
                           (mk_OffsetRange newStart (endExclusive (replaceRange R r2) - d3))
                           (\<lambda>rg. bind_result (mk_OffsetRange 0 (getNewLength R r2))
                              (\<lambda>sub. Inr (queue3, result1 @ prefix @ [slice_repl R r2 rg sub], d3)))))))"

fun compose_loop ::
    "'t replacement_ops \<Rightarrow> 't list \<Rightarrow> 't list \<times> 't list \<times> int \<Rightarrow> ('t list \<times> 't list \<times> int) result" where
  "compose_loop R [] st = Inr st"
| "compose_loop R (r2 # rs) st = bind_result (compose_body R r2 st) (compose_loop R rs)"

definition BaseEdit_compose :: "'t replacement_ops \<Rightarrow> 't list \<Rightarrow> 't list \<Rightarrow> 't list result" where
  "BaseEdit_compose R this other =
     bind_result (BaseEdit_normalize R this)
       (\<lambda>edits1. bind_result (BaseEdit_normalize R other)
          (\<lambda>edits2.
             if edits1 = [] then Inr edits2
             else if edits2 = [] then Inr edits1
             else bind_result (compose_loop R edits2 (edits1, [], 0))
                    (\<lambda>(queue, result, _). bind_result (mk_Edit R (result @ queue))
                       (BaseEdit_normalize R))))"

fun decomposeSplit_loop ::
    "'t replacement_ops \<Rightarrow> ('t \<Rightarrow> bool) \<Rightarrow> 't list \<Rightarrow> 't list \<Rightarrow> 't list \<Rightarrow> int \<Rightarrow>
     ('t list \<times> 't list) result" where
  "decomposeSplit_loop R inE1 [] e1 e2 e2delta = Inr (e1, e2)"
| "decomposeSplit_loop R inE1 (e # es) e1 e2 e2delta =
     (if inE1 e
      then decomposeSplit_loop R inE1 es (e1 @ [e]) e2
             (e2delta + (getNewLength R e - OffsetRange_length (replaceRange R e)))
      else bind_result (OffsetRange_delta (replaceRange R e) e2delta)
             (\<lambda>rg. bind_result (mk_OffsetRange 0 (getNewLength R e))
                (\<lambda>sub. decomposeSplit_loop R inE1 es e1 (e2 @ [slice_repl R e rg sub]) e2delta)))"

definition BaseEdit_decomposeSplit ::
    "'t replacement_ops \<Rightarrow> 't list \<Rightarrow> ('t \<Rightarrow> bool) \<Rightarrow> ('t list \<times> 't list) result" where
  "BaseEdit_decomposeSplit R this inE1 =
     bind_result (decomposeSplit_loop R inE1 this [] [] 0)
       (\<lambda>(e1, e2). bind_result (mk_Edit R e1)
          (\<lambda>e1'. bind_result (mk_Edit R e2) (\<lambda>e2'. Inr (e1', e2'))))"

fun getNewRanges_loop :: "'t replacement_ops \<Rightarrow> 't list \<Rightarrow> int \<Rightarrow> offset_range list result" where
  "getNewRanges_loop R [] offset = Inr []"
| "getNewRanges_loop R (e # es) offset =
     bind_result (OffsetRange_ofStartAndLength (start (replaceRange R e) + offset) (getNewLength R e))
       (\<lambda>rg. bind_result (getNewRanges_loop R es (offset + BaseReplacement_getLengthDelta R e))
          (\<lambda>rgs. Inr (rg # rgs)))"

definition BaseEdit_getNewRanges :: "'t replacement_ops \<Rightarrow> 't list \<Rightarrow> offset_range list result" where
  "BaseEdit_getNewRanges R this = getNewRanges_loop R this 0"

definition BaseEdit_getJoinedReplaceRange ::
    "'t replacement_ops \<Rightarrow> 't list \<Rightarrow> offset_range option result" where
  "BaseEdit_getJoinedReplaceRange R this =
     (if this = [] then Inr None
      else bind_result
             (OffsetRange_join (replaceRange R (hd this)) (replaceRange R (last this)))
             (\<lambda>rg. Inr (Some rg)))"

definition BaseEdit_isEmpty :: "'t list \<Rightarrow> bool" where
  "BaseEdit_isEmpty this \<longleftrightarrow> length this = 0"

definition BaseEdit_getLengthDelta :: "'t replacement_ops \<Rightarrow> 't list \<Rightarrow> int" where
  "BaseEdit_getLengthDelta R this =
     foldl (\<lambda>acc r. acc + BaseReplacement_getLengthDelta R r) 0 this"

definition BaseEdit_getNewDataLength :: "'t replacement_ops \<Rightarrow> 't list \<Rightarrow> int \<Rightarrow> int" where
  "BaseEdit_getNewDataLength R this dataLength = dataLength + BaseEdit_getLengthDelta R this"

fun applyToOffset_loop :: "'t replacement_ops \<Rightarrow> 't list \<Rightarrow> int \<Rightarrow> int \<Rightarrow> int" where
  "applyToOffset_loop R [] offset acc = offset + acc"
| "applyToOffset_loop R (r # rs) offset acc =
     (if start (replaceRange R r) \<le> offset
      then (if offset < endExclusive (replaceRange R r)
            then start (replaceRange R r) + acc
            else applyToOffset_loop R rs offset
                   (acc + (getNewLength R r - OffsetRange_length (replaceRange R r))))
      else offset + acc)"

definition BaseEdit_applyToOffset :: "'t replacement_ops \<Rightarrow> 't list \<Rightarrow> int \<Rightarrow> int" where
  "BaseEdit_applyToOffset R this originalOffset = applyToOffset_loop R this originalOffset 0"

definition BaseEdit_applyToOffsetRange ::
    "'t replacement_ops \<Rightarrow> 't list \<Rightarrow> offset_range \<Rightarrow> offset_range result" where
  "BaseEdit_applyToOffsetRange R this rg =
     mk_OffsetRange (BaseEdit_applyToOffset R this (start rg))
       (BaseEdit_applyToOffset R this (endExclusive rg))"

fun applyInverseToOffset_loop :: "'t replacement_ops \<Rightarrow> 't list \<Rightarrow> int \<Rightarrow> int \<Rightarrow> int" where
  "applyInverseToOffset_loop R [] offset acc = offset - acc"
| "applyInverseToOffset_loop R (r # rs) offset acc =
     (let editLength = getNewLength R r
      in if start (replaceRange R r) \<le> offset - acc
         then (if offset - acc < start (replaceRange R r) + editLength
               then start (replaceRange R r)
               else applyInverseToOffset_loop R rs offset
                      (acc + (editLength - OffsetRange_length (replaceRange R r))))
         else offset - acc)"

definition BaseEdit_applyInverseToOffset :: "'t replacement_ops \<Rightarrow> 't list \<Rightarrow> int \<Rightarrow> int" where
  "BaseEdit_applyInverseToOffset R this postEditsOffset =
     applyInverseToOffset_loop R this postEditsOffset 0"

fun applyToOffsetOrUndefined_loop ::
    "'t replacement_ops \<Rightarrow> 't list \<Rightarrow> int \<Rightarrow> int \<Rightarrow> int option" where
  "applyToOffsetOrUndefined_loop R [] offset acc = Some (offset + acc)"
| "applyToOffsetOrUndefined_loop R (r # rs) offset acc =
     (if start (replaceRange R r) \<le> offset
      then (if offset < endExclusive (replaceRange R r)
            then None
            else applyToOffsetOrUndefined_loop R rs offset
                   (acc + (getNewLength R r - OffsetRange_length (replaceRange R r))))
      else Some (offset + acc))"

definition BaseEdit_applyToOffsetOrUndefined ::
    "'t replacement_ops \<Rightarrow> 't list \<Rightarrow> int \<Rightarrow> int option" where
  "BaseEdit_applyToOffsetOrUndefined R this originalOffset =
     applyToOffsetOrUndefined_loop R this originalOffset 0"

definition BaseEdit_applyToOffsetRangeOrUndefined ::
    "'t replacement_ops \<Rightarrow> 't list \<Rightarrow> offset_range \<Rightarrow> offset_range option result" where
  "BaseEdit_applyToOffsetRangeOrUndefined R this rg =
     (case BaseEdit_applyToOffsetOrUndefined R this (start rg) of
        None \<Rightarrow> Inr None
      | Some s \<Rightarrow>
          (case BaseEdit_applyToOffsetOrUndefined R this (endExclusive rg) of
             None \<Rightarrow> Inr None
           | Some e \<Rightarrow> bind_result (mk_OffsetRange s e) (\<lambda>x. Inr (Some x))))"

subsection \<open>What an edit means\<close>

text \<open>The data between two offsets, and the effect of a sorted list of replacements from an offset on.\<close>

definition seg :: "'c list \<Rightarrow> int \<Rightarrow> int \<Rightarrow> 'c list" where
  "seg s a b = take (nat b - nat a) (drop (nat a) s)"

fun emit :: "('t \<Rightarrow> offset_range) \<Rightarrow> ('t \<Rightarrow> 'c list) \<Rightarrow> int \<Rightarrow> 't list \<Rightarrow> 'c list \<Rightarrow> 'c list" where
  "emit rg ct pos [] s = []"
| "emit rg ct pos (e # es) s =
     seg s pos (start (rg e)) @ ct e @ emit rg ct (endExclusive (rg e)) es s"

fun end_pos :: "('t \<Rightarrow> offset_range) \<Rightarrow> int \<Rightarrow> 't list \<Rightarrow> int" where
  "end_pos rg pos [] = pos"
| "end_pos rg pos (e # es) = end_pos rg (endExclusive (rg e)) es"

definition apply_edits ::
    "('t \<Rightarrow> offset_range) \<Rightarrow> ('t \<Rightarrow> 'c list) \<Rightarrow> int \<Rightarrow> 't list \<Rightarrow> 'c list \<Rightarrow> 'c list" where
  "apply_edits rg ct pos es s = emit rg ct pos es s @ drop (nat (end_pos rg pos es)) s"

text \<open>A chain of valid ranges from one offset to another: sorted, disjoint and in bounds.\<close>

fun chain :: "('t \<Rightarrow> offset_range) \<Rightarrow> int \<Rightarrow> 't list \<Rightarrow> int \<Rightarrow> bool" where
  "chain rg a [] b \<longleftrightarrow> a \<le> b"
| "chain rg a (e # es) b \<longleftrightarrow>
     a \<le> start (rg e) \<and> start (rg e) \<le> endExclusive (rg e) \<and> chain rg (endExclusive (rg e)) es b"

lemma seg_empty [simp]: "seg s a a = []"
  by (simp add: seg_def)

lemma take_drop_append:
  "n \<le> m \<Longrightarrow> m \<le> k \<Longrightarrow>
     take (m - n) (drop n s) @ take (k - m) (drop m s) = take (k - n) (drop n s)"
  using take_add [of "m - n" "k - m" "drop n s"] by simp

lemma seg_append:
  "0 \<le> a \<Longrightarrow> a \<le> b \<Longrightarrow> b \<le> c \<Longrightarrow> seg s a b @ seg s b c = seg s a c"
  by (simp add: seg_def take_drop_append nat_mono)

lemma seg_drop: "0 \<le> a \<Longrightarrow> a \<le> b \<Longrightarrow> seg s a b @ drop (nat b) s = drop (nat a) s"
  unfolding seg_def
  by (metis append_take_drop_id drop_drop le_add_diff_inverse2 nat_mono)

lemma length_seg: "0 \<le> a \<Longrightarrow> a \<le> b \<Longrightarrow> b \<le> int (length s) \<Longrightarrow> int (length (seg s a b)) = b - a"
  by (simp add: seg_def nat_le_iff of_nat_diff nat_mono)

lemma emit_append:
  "emit rg ct pos (es @ fs) s = emit rg ct pos es s @ emit rg ct (end_pos rg pos es) fs s"
  by (induction es arbitrary: pos) simp_all

lemma end_pos_append [simp]: "end_pos rg pos (es @ fs) = end_pos rg (end_pos rg pos es) fs"
  by (induction es arbitrary: pos) simp_all

lemma chain_append:
  "chain rg a (es @ fs) b \<longleftrightarrow> chain rg a es (end_pos rg a es) \<and> chain rg (end_pos rg a es) fs b"
  by (induction es arbitrary: a) auto

lemma chain_end_pos: "chain rg a es b \<Longrightarrow> a \<le> end_pos rg a es \<and> end_pos rg a es \<le> b"
  by (induction es arbitrary: a) fastforce+

lemma chain_weaken: "chain rg a es b \<Longrightarrow> a' \<le> a \<Longrightarrow> b \<le> b' \<Longrightarrow> chain rg a' es b'"
  by (induction es arbitrary: a a') auto

lemma chain_to_end_pos: "chain rg a es b \<Longrightarrow> chain rg a es (end_pos rg a es)"
  by (induction es arbitrary: a) auto

lemma chain_hd_last:
  "chain rg a es b \<Longrightarrow> es \<noteq> [] \<Longrightarrow> start (rg (hd es)) \<le> endExclusive (rg (last es))"
proof (induction es arbitrary: a)
  case (Cons e es)
  then show ?case by (cases es) force+
qed simp

lemma apply_edits_append:
  "apply_edits rg ct pos (es @ fs) s = emit rg ct pos es s @ apply_edits rg ct (end_pos rg pos es) fs s"
  by (simp add: apply_edits_def emit_append)

lemma apply_edits_Cons:
  "apply_edits rg ct pos (e # es) s =
     seg s pos (start (rg e)) @ ct e @ apply_edits rg ct (endExclusive (rg e)) es s"
  by (simp add: apply_edits_def)

lemma apply_edits_Nil [simp]: "apply_edits rg ct pos [] s = drop (nat pos) s"
  by (simp add: apply_edits_def)

lemma apply_edits_advance:
  assumes "0 \<le> pos" and "pos \<le> a" and "chain rg a es n"
  shows "apply_edits rg ct pos es s = seg s pos a @ apply_edits rg ct a es s"
proof (cases es)
  case Nil
  with assms show ?thesis by (simp add: seg_drop)
next
  case (Cons e es')
  with assms seg_append [of pos a "start (rg e)" s] show ?thesis
    by (simp add: apply_edits_Cons flip: append_assoc)
qed

subsection \<open>What a replacement class promises\<close>

locale replacement =
  fixes R :: "'t replacement_ops" and content :: "'t \<Rightarrow> 'c list" and wf :: "'t \<Rightarrow> bool"
  assumes new_length: "wf r \<Longrightarrow> getNewLength R r = int (length (content r))"
    and slice_range [simp]: "replaceRange R (slice_repl R r rg sub) = rg"
    and slice_content: "wf r \<Longrightarrow> 0 \<le> start sub \<Longrightarrow> start sub \<le> endExclusive sub \<Longrightarrow>
      endExclusive sub \<le> getNewLength R r \<Longrightarrow>
      content (slice_repl R r rg sub) = seg (content r) (start sub) (endExclusive sub) \<and>
      wf (slice_repl R r rg sub)"
    and join_total: "wf l \<Longrightarrow> wf r \<Longrightarrow> valid_offset_range (replaceRange R l) \<Longrightarrow>
      valid_offset_range (replaceRange R r) \<Longrightarrow>
      endExclusive (replaceRange R l) = start (replaceRange R r) \<Longrightarrow>
      \<exists>j. tryJoinTouching R l r = Inr j"
    and join_some: "wf l \<Longrightarrow> wf r \<Longrightarrow> tryJoinTouching R l r = Inr (Some j) \<Longrightarrow>
      replaceRange R j = OffsetRange (start (replaceRange R l)) (endExclusive (replaceRange R r)) \<and>
      content j = content l @ content r \<and> wf j"
begin

abbreviation rng :: "'t \<Rightarrow> offset_range" where "rng \<equiv> replaceRange R"

definition fits :: "'t list \<Rightarrow> int \<Rightarrow> bool" where
  "fits es n \<longleftrightarrow> chain rng 0 es n \<and> (\<forall>e\<in>set es. wf e)"

definition length_delta :: "'t list \<Rightarrow> int" where
  "length_delta es = (\<Sum>e\<leftarrow>es. getNewLength R e - OffsetRange_length (rng e))"

lemma length_delta_simps [simp]:
  "length_delta [] = 0"
  "length_delta (e # es) = getNewLength R e - OffsetRange_length (rng e) + length_delta es"
  "length_delta (es @ fs) = length_delta es + length_delta fs"
  by (simp_all add: length_delta_def)

lemma mk_Edit_check_chain:
  "chain rng a es b \<Longrightarrow> lastEndEx \<le> a \<Longrightarrow> mk_Edit_check R lastEndEx es"
  by (induction es arbitrary: a lastEndEx) auto

lemma mk_Edit_fits: "fits es n \<Longrightarrow> mk_Edit R es = Inr es"
  using mk_Edit_check_chain [of 0 es n "-1"] by (simp add: mk_Edit_def fits_def)

lemma length_emit:
  assumes "chain rng a es b" and "0 \<le> a" and "b \<le> int (length s)" and "\<forall>e\<in>set es. wf e"
  shows "int (length (emit rng content a es s)) = end_pos rng a es - a + length_delta es"
  using assms
proof (induction es arbitrary: a)
  case (Cons e es)
  have "start (rng e) \<le> int (length s)"
    using Cons.prems(1,3) chain_end_pos [of rng "endExclusive (rng e)" es b] by simp
  with Cons show ?case
    by (simp add: length_seg new_length OffsetRange_length_def)
qed simp

lemma length_apply_edits:
  assumes "fits es (int (length s))"
  shows "int (length (apply_edits rng content 0 es s)) = int (length s) + length_delta es"
  using assms length_emit [of 0 es "int (length s)" s] chain_end_pos [of rng 0 es "int (length s)"]
  by (simp add: fits_def apply_edits_def of_nat_diff nat_le_iff)

subsubsection \<open>\<open>normalize\<close>\<close>

lemma normalize_loop_correct:
  assumes "fits (acc @ (case lst of None \<Rightarrow> [] | Some l \<Rightarrow> [l]) @ rs) n"
  shows "\<exists>out. normalize_loop R rs lst acc = Inr out \<and> fits out n \<and>
    (\<forall>s. apply_edits rng content 0 out s =
       apply_edits rng content 0 (acc @ (case lst of None \<Rightarrow> [] | Some l \<Rightarrow> [l]) @ rs) s)"
  using assms
proof (induction rs arbitrary: lst acc)
  case Nil
  then show ?case by (cases lst) auto
next
  case (Cons r rs)
  define cur where "cur = acc @ (case lst of None \<Rightarrow> [] | Some l \<Rightarrow> [l])"
  have fits: "fits (cur @ r # rs) n" using Cons.prems by (simp add: cur_def)
  show ?case
  proof (cases "getNewLength R r = 0 \<and> OffsetRange_length (rng r) = 0")
    case True
    then have empty: "endExclusive (rng r) = start (rng r)" "content r = []"
      using fits new_length [of r] by (auto simp: fits_def OffsetRange_length_def)
    have rest: "chain rng (start (rng r)) rs n" "0 \<le> end_pos rng 0 cur"
      "end_pos rng 0 cur \<le> start (rng r)"
      using fits empty chain_end_pos [of rng 0 cur "end_pos rng 0 cur"]
      by (auto simp: fits_def chain_append)
    then have "fits (cur @ rs) n"
      using fits by (auto simp: fits_def chain_append intro: chain_weaken)
    moreover have "apply_edits rng content 0 (cur @ rs) s =
        apply_edits rng content 0 (cur @ r # rs) s" for s
      using rest empty
      by (simp add: apply_edits_append apply_edits_Cons apply_edits_advance [OF rest(2,3,1)])
    ultimately show ?thesis
      using True Cons.IH [of acc lst] by (simp add: cur_def)
  next
    case False
    show ?thesis
    proof (cases lst)
      case None
      with False Cons.IH [of acc "Some r"] Cons.prems show ?thesis by auto
    next
      case (Some l)
      have step: ?thesis
        if "normalize_loop R (r # rs) lst acc = normalize_loop R rs (Some r) (acc @ [l])"
        using that Cons.IH [of "acc @ [l]" "Some r"] Cons.prems Some by simp
      show ?thesis
      proof (cases "endExclusive (rng l) = start (rng r)")
        case touching: True
        have wf: "wf l" "wf r" "valid_offset_range (rng l)" "valid_offset_range (rng r)"
          using fits Some by (auto simp: fits_def cur_def chain_append valid_offset_range_def)
        obtain jo where jo: "tryJoinTouching R l r = Inr jo"
          using join_total [OF wf touching] by blast
        show ?thesis
        proof (cases jo)
          case None
          with jo False Some touching show ?thesis by (intro step) auto
        next
          case j: (Some j)
          note joined = join_some [OF wf(1,2) jo [unfolded j]]
          have "fits (acc @ [j] @ rs) n"
            using Cons.prems Some joined touching by (auto simp: fits_def chain_append)
          moreover have "apply_edits rng content 0 (acc @ [j] @ rs) s =
              apply_edits rng content 0 (acc @ [l] @ r # rs) s" for s
            using joined touching by (simp add: apply_edits_append apply_edits_Cons)
          ultimately show ?thesis
            using Cons.IH [of acc "Some j"] jo j False Some touching by (simp, blast)
        qed
      next
        case apart: False
        with False Some show ?thesis by (intro step) auto
      qed
    qed
  qed
qed

theorem normalize_correct:
  assumes "fits es n"
  shows "\<exists>out. BaseEdit_normalize R es = Inr out \<and> fits out n \<and>
    (\<forall>s. apply_edits rng content 0 out s = apply_edits rng content 0 es s)"
  using normalize_loop_correct [of "[]" None es n] assms mk_Edit_fits
  by (auto simp: BaseEdit_normalize_def)

subsubsection \<open>\<open>compose\<close>\<close>

text \<open>
  The second edit works on \<open>s1\<close>, the result of the first one on \<open>s0\<close>. \<open>sync s0 s1 d a q\<close>:
  what is left of \<open>s1\<close> behind offset \<open>a + d\<close> is the effect of the queue \<open>q\<close> on \<open>s0\<close>
  from offset \<open>a\<close> on. The three lemmas move the pair of offsets over whole replacements, over
  unchanged data and into a replacement.
\<close>

definition sync :: "'c list \<Rightarrow> 'c list \<Rightarrow> int \<Rightarrow> int \<Rightarrow> 't list \<Rightarrow> bool" where
  "sync s0 s1 d a q \<longleftrightarrow>
     chain rng a q (int (length s0)) \<and> (\<forall>e\<in>set q. wf e) \<and> 0 \<le> a \<and> 0 \<le> a + d \<and>
     apply_edits rng content a q s0 = drop (nat (a + d)) s1"

lemma drop_prefix_eq:
  assumes "drop (nat b) s = xs @ ys" and "0 \<le> b"
  shows "drop (nat (b + int (length xs))) s = ys" and "seg s b (b + int (length xs)) = xs"
proof -
  have n: "nat (b + int (length xs)) = length xs + nat b" using assms(2) by simp
  then show "drop (nat (b + int (length xs))) s = ys"
    using assms(1) by (simp flip: drop_drop)
  show "seg s b (b + int (length xs)) = xs"
    using assms(1) n by (simp add: seg_def)
qed

lemma sync_copy:
  assumes "sync s0 s1 d a (c @ q)"
  shows "sync s0 s1 (d + length_delta c) (end_pos rng a c) q"
    and "seg s1 (a + d) (end_pos rng a c + (d + length_delta c)) = emit rng content a c s0"
proof -
  let ?n = "int (length s0)"
  have ch: "chain rng a c (end_pos rng a c)" "chain rng (end_pos rng a c) q ?n"
    and wf: "\<forall>e\<in>set (c @ q). wf e" and a: "0 \<le> a" "0 \<le> a + d"
    and eq: "drop (nat (a + d)) s1 = emit rng content a c s0 @ apply_edits rng content (end_pos rng a c) q s0"
    using assms by (auto simp: sync_def chain_append apply_edits_append)
  have le: "a \<le> end_pos rng a c" "end_pos rng a c \<le> ?n"
    using chain_end_pos [OF ch(1)] chain_end_pos [OF ch(2)] by auto
  have "int (length (emit rng content a c s0)) = end_pos rng a c - a + length_delta c"
    using length_emit [OF ch(1) a(1) le(2)] wf by simp
  then have b: "a + d + int (length (emit rng content a c s0)) = end_pos rng a c + (d + length_delta c)"
    by simp
  then have "0 \<le> end_pos rng a c + (d + length_delta c)" using a(2) by linarith
  with ch(2) wf a le drop_prefix_eq(1) [OF eq a(2)] b
  show "sync s0 s1 (d + length_delta c) (end_pos rng a c) q" by (simp add: sync_def)
  show "seg s1 (a + d) (end_pos rng a c + (d + length_delta c)) = emit rng content a c s0"
    using drop_prefix_eq(2) [OF eq a(2)] b by simp
qed

lemma sync_base:
  assumes "sync s0 s1 d a q" and "a \<le> a'" and "chain rng a' q (int (length s0))"
  shows "sync s0 s1 d a' q" and "seg s1 (a + d) (a' + d) = seg s0 a a'"
proof -
  have eq: "drop (nat (a + d)) s1 = seg s0 a a' @ apply_edits rng content a' q s0"
    using assms(1) apply_edits_advance [OF _ assms(2,3), of content s0]
    unfolding sync_def by metis
  have "a' \<le> int (length s0)" using chain_end_pos [OF assms(3)] by linarith
  then have len: "a + d + int (length (seg s0 a a')) = a' + d"
    using assms(1,2) by (simp add: length_seg sync_def)
  have nonneg: "0 \<le> a + d" using assms(1) by (simp add: sync_def)
  from drop_prefix_eq [OF eq nonneg] len assms show "sync s0 s1 d a' q"
    and "seg s1 (a + d) (a' + d) = seg s0 a a'"
    by (auto simp: sync_def)
qed

lemma sync_into:
  assumes "sync s0 s1 d (start (rng l)) (l # q)" and "0 \<le> k" and "k \<le> getNewLength R l"
  shows "seg s1 (start (rng l) + d) (start (rng l) + d + k) = seg (content l) 0 k"
    and "drop (nat (start (rng l) + d + k)) s1 =
      seg (content l) k (getNewLength R l) @ apply_edits rng content (endExclusive (rng l)) q s0"
proof -
  have len: "getNewLength R l = int (length (content l))"
    using assms(1) new_length by (simp add: sync_def)
  have b: "0 \<le> start (rng l) + d" using assms(1) by (simp add: sync_def)
  have "content l = seg (content l) 0 k @ seg (content l) k (getNewLength R l)"
    using assms(2,3) len by (simp add: seg_append) (simp add: seg_def)
  then have eq: "drop (nat (start (rng l) + d)) s1 = seg (content l) 0 k @
      seg (content l) k (getNewLength R l) @ apply_edits rng content (endExclusive (rng l)) q s0"
    using assms(1) by (simp add: sync_def apply_edits_Cons flip: append_assoc)
  have "int (length (seg (content l) 0 k)) = k" using assms(2,3) len by (simp add: length_seg)
  with drop_prefix_eq [OF eq b]
  show "seg s1 (start (rng l) + d) (start (rng l) + d + k) = seg (content l) 0 k"
    and "drop (nat (start (rng l) + d + k)) s1 =
      seg (content l) k (getNewLength R l) @ apply_edits rng content (endExclusive (rng l)) q s0"
    by simp_all
qed

text \<open>How far the base may be advanced without running past the queue.\<close>

lemma sync_chain_upto:
  assumes "sync s0 s1 d a q" and "a + d \<le> x" and "x \<le> int (length s1)"
    and "q \<noteq> [] \<longrightarrow> x \<le> start (rng (hd q)) + d"
  shows "chain rng (x - d) q (int (length s0))"
proof (cases q)
  case Nil
  with assms(1) have eq: "drop (nat a) s0 = drop (nat (a + d)) s1" and "a \<le> int (length s0)" "0 \<le> a" "0 \<le> a + d"
    by (simp_all add: sync_def)
  have "length s0 - nat a = length s1 - nat (a + d)"
    using arg_cong [OF eq, of length] by simp
  with assms(2,3) \<open>0 \<le> a\<close> \<open>0 \<le> a + d\<close> \<open>a \<le> int (length s0)\<close> have "x - d \<le> int (length s0)" by linarith
  with Nil show ?thesis by simp
next
  case (Cons e es)
  with assms(1,4) show ?thesis by (auto simp: sync_def)
qed

lemma compose_copy_split:
  assumes "compose_copy R r2 queue result d = (queue1, result1, d1)"
    and "a + d \<le> start (rng r2)"
  shows "\<exists>c. queue = c @ queue1 \<and> result1 = result @ c \<and> d1 = d + length_delta c \<and>
    end_pos rng a c + d1 \<le> start (rng r2) \<and>
    (queue1 \<noteq> [] \<longrightarrow> start (rng r2) \<le> start (rng (hd queue1)) + d1 + getNewLength R (hd queue1))"
  using assms
proof (induction queue arbitrary: result d a)
  case (Cons r1 queue)
  show ?case
  proof (cases "start (rng r1) + d + getNewLength R r1 \<ge> start (rng r2)")
    case True
    with Cons.prems show ?thesis by (intro exI [of _ "[]"]) auto
  next
    case False
    let ?d = "d + (getNewLength R r1 - OffsetRange_length (rng r1))"
    from False Cons.prems(1)
    have "compose_copy R r2 queue (result @ [r1]) ?d = (queue1, result1, d1)" by simp
    moreover have "endExclusive (rng r1) + ?d \<le> start (rng r2)"
      using False by (simp add: OffsetRange_length_def)
    ultimately obtain c where "queue = c @ queue1" "result1 = (result @ [r1]) @ c"
      "d1 = ?d + length_delta c" "end_pos rng (endExclusive (rng r1)) c + d1 \<le> start (rng r2)"
      "queue1 \<noteq> [] \<longrightarrow> start (rng r2) \<le> start (rng (hd queue1)) + d1 + getNewLength R (hd queue1)"
      using Cons.IH by blast
    then show ?thesis by (intro exI [of _ "r1 # c"]) simp
  qed
qed simp

lemma compose_touch_split:
  assumes "compose_touch R r2 queue d fl = (queue2, d2, fl')"
  shows "\<exists>t. queue = t @ queue2 \<and> d2 = d + length_delta t \<and>
    fl' = (if t = [] then fl
           else Some (case fl of None \<Rightarrow> hd t | Some (f, _) \<Rightarrow> f, last t)) \<and>
    (t \<noteq> [] \<longrightarrow> start (rng (last t)) + (d + length_delta (butlast t)) \<le> endExclusive (rng r2)) \<and>
    (queue2 \<noteq> [] \<longrightarrow> endExclusive (rng r2) < start (rng (hd queue2)) + d2)"
  using assms
proof (induction queue arbitrary: d fl)
  case (Cons r1 queue)
  show ?case
  proof (cases "start (rng r1) + d > endExclusive (rng r2)")
    case True
    with Cons.prems show ?thesis by (intro exI [of _ "[]"]) auto
  next
    case False
    let ?d = "d + (getNewLength R r1 - OffsetRange_length (rng r1))"
    let ?fl = "case fl of None \<Rightarrow> Some (r1, r1) | Some (f, _) \<Rightarrow> Some (f, r1)"
    from False Cons.prems have "compose_touch R r2 queue ?d ?fl = (queue2, d2, fl')" by simp
    from Cons.IH [OF this] obtain t where t: "queue = t @ queue2" "d2 = ?d + length_delta t"
      "fl' = (if t = [] then ?fl
              else Some (case ?fl of None \<Rightarrow> hd t | Some (f, _) \<Rightarrow> f, last t))"
      "t \<noteq> [] \<longrightarrow> start (rng (last t)) + (?d + length_delta (butlast t)) \<le> endExclusive (rng r2)"
      "queue2 \<noteq> [] \<longrightarrow> endExclusive (rng r2) < start (rng (hd queue2)) + d2" by blast
    with False show ?thesis
      by (intro exI [of _ "r1 # t"]) (auto split: option.splits)
  qed
qed simp

text \<open>
  The invariant of the outer loop: the result so far does to \<open>s0\<close> what the replacements of
  the second edit done so far do to \<open>s1\<close>, and the rest is in step.
\<close>

definition compose_inv ::
    "'c list \<Rightarrow> 'c list \<Rightarrow> 't list \<Rightarrow> 't list \<times> 't list \<times> int \<Rightarrow> bool" where
  "compose_inv s0 s1 dn st \<longleftrightarrow>
     (case st of (queue, result, d) \<Rightarrow>
        chain rng 0 result (end_pos rng 0 result) \<and> (\<forall>e\<in>set result. wf e) \<and>
        end_pos rng 0 dn = end_pos rng 0 result + d \<and>
        emit rng content 0 result s0 = emit rng content 0 dn s1 \<and>
        sync s0 s1 d (end_pos rng 0 result) queue)"

lemma compose_inv_step:
  assumes inv: "compose_inv s0 s1 dn (queue, result, d)"
    and out: "chain rng (end_pos rng 0 result) out (end_pos rng (end_pos rng 0 result) out)"
      "\<forall>e\<in>set out. wf e"
      "emit rng content (end_pos rng 0 result) out s0 =
         seg s1 (end_pos rng 0 dn) (start (rng r2)) @ content r2"
    and sync: "sync s0 s1 d' (end_pos rng (end_pos rng 0 result) out) queue'"
      "endExclusive (rng r2) = end_pos rng (end_pos rng 0 result) out + d'"
  shows "compose_inv s0 s1 (dn @ [r2]) (queue', result @ out, d')"
  using assms by (auto simp: compose_inv_def chain_append emit_append)

lemma compose_prefix_correct:
  assumes sync: "sync s0 s1 d1 a (f # q)" and d: "a + d1 \<le> start (rng r2)"
    and touch: "start (rng r2) \<le> start (rng f) + d1 + getNewLength R f"
    and newStart: "newStart = min (start (rng f)) (start (rng r2) - d1)"
  shows "\<exists>pre. compose_prefix R r2 f d1 newStart = Inr pre \<and> chain rng a pre newStart \<and>
    (\<forall>e\<in>set pre. wf e) \<and>
    emit rng content a pre s0 @ seg s0 (end_pos rng a pre) newStart = seg s1 (a + d1) (start (rng r2))"
proof -
  have f: "wf f" "a \<le> start (rng f)" "chain rng (start (rng f)) (f # q) (int (length s0))"
    "0 \<le> a" "0 \<le> a + d1"
    using sync by (simp_all add: sync_def)
  show ?thesis
  proof (cases "start (rng r2) - (start (rng f) + d1) > 0")
    case False
    then have ns: "newStart = start (rng r2) - d1" "a \<le> newStart"
      "chain rng newStart (f # q) (int (length s0))"
      using newStart d f(3) by auto
    from sync_base(2) [OF sync ns(2,3)] ns(1) False show ?thesis
      using ns(2) by (simp add: compose_prefix_def)
  next
    case True
    let ?k = "start (rng r2) - (start (rng f) + d1)"
    let ?p = "slice_repl R f (OffsetRange newStart newStart) (OffsetRange 0 ?k)"
    have ns: "newStart = start (rng f)" using True newStart by simp
    have p: "content ?p = seg (content f) 0 ?k" "wf ?p"
      using slice_content [OF f(1), of "OffsetRange 0 ?k" "OffsetRange newStart newStart"]
        True touch by auto
    note base = sync_base [OF sync f(2,3)]
    have "seg s1 (a + d1) (start (rng r2)) =
        seg s1 (a + d1) (start (rng f) + d1) @ seg s1 (start (rng f) + d1) (start (rng r2))"
      using True f by (intro seg_append [symmetric]) simp_all
    also have "\<dots> = seg s0 a (start (rng f)) @ seg (content f) 0 ?k"
      using base(2) sync_into(1) [OF base(1), of ?k] True touch by simp
    finally have "emit rng content a [?p] s0 = seg s1 (a + d1) (start (rng r2))"
      using p by (simp add: ns)
    with True p f(2) show ?thesis
      by (simp add: compose_prefix_def OffsetRange_emptyAt_def ns)
  qed
qed

lemma compose_suffix_correct:
  assumes sync: "sync s0 s1 d1 a (t @ queue2)" and t: "t \<noteq> []" and d2: "d2 = d1 + length_delta t"
    and last: "start (rng (last t)) + (d1 + length_delta (butlast t)) \<le> endExclusive (rng r2)"
    and queue2: "queue2 \<noteq> [] \<longrightarrow> endExclusive (rng r2) < start (rng (hd queue2)) + d2"
    and r2: "endExclusive (rng r2) \<le> int (length s1)"
  shows "\<exists>queue3 d3. compose_suffix R r2 (last t) queue2 d2 = Inr (queue3, d3) \<and>
    endExclusive (rng (last t)) \<le> endExclusive (rng r2) - d3 \<and>
    sync s0 s1 d3 (endExclusive (rng r2) - d3) queue3"
proof -
  define l where "l = last t"
  have tl: "t = butlast t @ [l]" using t by (simp add: l_def)
  have all: "sync s0 s1 d2 (end_pos rng a t) queue2"
    using sync_copy(1) [OF sync] by (simp add: d2)
  have end_l: "end_pos rng a t = endExclusive (rng l)" by (subst tl) simp
  show ?thesis
  proof (cases "endExclusive (rng l) + d2 - endExclusive (rng r2) > 0")
    case False
    have ch: "chain rng (endExclusive (rng r2) - d2) queue2 (int (length s0))"
      using sync_chain_upto [OF all, of "endExclusive (rng r2)"] False end_l queue2 r2 by auto
    with sync_base(1) [OF all _ ch] False end_l show ?thesis
      by (simp add: compose_suffix_def flip: l_def)
  next
    case True
    let ?n = "getNewLength R l"
    let ?suf = "endExclusive (rng l) + d2 - endExclusive (rng r2)"
    let ?db = "d1 + length_delta (butlast t)"
    let ?e = "slice_repl R l (OffsetRange (endExclusive (rng l)) (endExclusive (rng l)))
      (OffsetRange (?n - ?suf) ?n)"
    have "sync s0 s1 d1 a (butlast t @ l # queue2)" using sync tl by (metis append.assoc append_Cons append_Nil)
    from sync_copy(1) [OF this] have at_b: "sync s0 s1 ?db (end_pos rng a (butlast t)) (l # queue2)" .
    then have l: "wf l" "end_pos rng a (butlast t) \<le> start (rng l)"
      "chain rng (start (rng l)) (l # queue2) (int (length s0))"
      "chain rng (endExclusive (rng l)) queue2 (int (length s0))"
      "0 \<le> end_pos rng a (butlast t)" "start (rng l) \<le> endExclusive (rng l)" "\<forall>e\<in>set queue2. wf e"
      by (simp_all add: sync_def)
    note at_l = sync_base(1) [OF at_b l(2,3)]
    have d2': "d2 = ?db + (?n - (endExclusive (rng l) - start (rng l)))"
      unfolding d2 by (subst tl) (simp add: OffsetRange_length_def)
    have k: "0 \<le> ?n - ?suf" "?n - ?suf \<le> ?n" "start (rng l) + ?db + (?n - ?suf) = endExclusive (rng r2)"
      using last True d2' by (simp_all add: l_def)
    have e: "content ?e = seg (content l) (?n - ?suf) ?n" "wf ?e"
      using slice_content [OF l(1), of "OffsetRange (?n - ?suf) ?n"] k by auto
    have len_e: "getNewLength R ?e = ?suf"
      using new_length [OF e(2)] new_length [OF l(1)] e(1) k length_seg [of "?n - ?suf" ?n "content l"]
      by simp
    have "drop (nat (endExclusive (rng r2))) s1 =
        content ?e @ apply_edits rng content (endExclusive (rng l)) queue2 s0"
      using sync_into(2) [OF at_l k(1,2)] e(1) k(3) by simp
    moreover have "0 \<le> endExclusive (rng r2)"
      using at_l k by (simp add: sync_def)
    ultimately have "sync s0 s1 (d2 - ?suf) (endExclusive (rng l)) (?e # queue2)"
      using l e by (simp add: sync_def apply_edits_Cons)
    moreover have "compose_suffix R r2 l queue2 d2 = Inr (?e # queue2, d2 - ?suf)"
      using True len_e
      by (simp add: compose_suffix_def OffsetRange_ofStartAndLength_def OffsetRange_length_def Let_def)
    ultimately show ?thesis by (simp flip: l_def)
  qed
qed

lemma compose_body_correct:
  assumes inv: "compose_inv s0 s1 dn (queue0, result0, d0)" and wf2: "wf r2"
    and r2: "end_pos rng 0 dn \<le> start (rng r2)" "start (rng r2) \<le> endExclusive (rng r2)"
      "endExclusive (rng r2) \<le> int (length s1)"
  shows "\<exists>st. compose_body R r2 (queue0, result0, d0) = Inr st \<and> compose_inv s0 s1 (dn @ [r2]) st"
proof -
  define a0 where "a0 = end_pos rng 0 result0"
  obtain queue1 result1 d1 where copy: "compose_copy R r2 queue0 result0 d0 = (queue1, result1, d1)"
    by (metis prod_cases3)
  obtain queue2 d2 fl where touch: "compose_touch R r2 queue1 d1 None = (queue2, d2, fl)"
    by (metis prod_cases3)
  have b0: "end_pos rng 0 dn = a0 + d0" and sync0: "sync s0 s1 d0 a0 queue0"
    using inv by (simp_all add: compose_inv_def a0_def)
  obtain c where c: "queue0 = c @ queue1" "result1 = result0 @ c" "d1 = d0 + length_delta c"
    "end_pos rng a0 c + d1 \<le> start (rng r2)"
    "queue1 \<noteq> [] \<longrightarrow> start (rng r2) \<le> start (rng (hd queue1)) + d1 + getNewLength R (hd queue1)"
    using compose_copy_split [OF copy, of a0] r2(1) b0 by auto
  define a1 where "a1 = end_pos rng a0 c"
  have sync1: "sync s0 s1 d1 a1 queue1"
    and seg1: "seg s1 (a0 + d0) (a1 + d1) = emit rng content a0 c s0"
    using sync_copy [OF sync0 [unfolded c(1)]] by (simp_all add: c(3) a1_def)
  have c_ok: "chain rng a0 c a1" "\<forall>e\<in>set c. wf e" "0 \<le> a0" "0 \<le> a0 + d0" "a0 \<le> a1"
    using sync0 chain_end_pos [of rng a0 c a1] by (auto simp: sync_def c(1) chain_append a1_def)
  have b1: "a1 + d1 \<le> start (rng r2)" using c(4) by (simp add: a1_def)
  have "0 \<le> a1 + d1" using sync1 by (simp add: sync_def)
  have b01: "a0 + d0 \<le> a1 + d1"
    using length_emit [OF c_ok(1,3) _ c_ok(2), of s0] sync1 chain_end_pos [of rng a1 queue1 "int (length s0)"] c(3)
    by (simp add: sync_def a1_def)
  have split: "seg s1 (end_pos rng 0 dn) (start (rng r2)) =
      emit rng content a0 c s0 @ seg s1 (a1 + d1) (start (rng r2))"
    using seg_append [OF c_ok(4) b01 b1, of s1] seg1 b0 by simp
  obtain t where t: "queue1 = t @ queue2" "d2 = d1 + length_delta t"
    "fl = (if t = [] then None else Some (hd t, last t))"
    "t \<noteq> [] \<longrightarrow> start (rng (last t)) + (d1 + length_delta (butlast t)) \<le> endExclusive (rng r2)"
    "queue2 \<noteq> [] \<longrightarrow> endExclusive (rng r2) < start (rng (hd queue2)) + d2"
    using compose_touch_split [OF touch] unfolding option.case by blast
  note len2 = new_length [OF wf2]
  have r2_slice: "content (slice_repl R r2 rg (OffsetRange 0 (getNewLength R r2))) = content r2 \<and>
      wf (slice_repl R r2 rg (OffsetRange 0 (getNewLength R r2)))" for rg
    using slice_content [OF wf2, of "OffsetRange 0 (getNewLength R r2)" rg] len2 by (simp add: seg_def)
  show ?thesis
  proof (cases "t = []")
    case True
    let ?r = "slice_repl R r2 (OffsetRange (start (rng r2) - d1) (endExclusive (rng r2) - d1))
      (OffsetRange 0 (getNewLength R r2))"
    have q: "queue2 = queue1" "d2 = d1" using t True by simp_all
    have after: "chain rng (endExclusive (rng r2) - d1) queue1 (int (length s0))"
      by (rule sync_chain_upto [OF sync1]) (use b1 r2(2,3) t(5) q in auto)
    have before: "chain rng (start (rng r2) - d1) queue1 (int (length s0))"
      using chain_weaken [OF after, of "start (rng r2) - d1" "int (length s0)"] r2(2) by simp
    have base: "sync s0 s1 d1 (endExclusive (rng r2) - d1) queue1"
      "seg s1 (a1 + d1) (start (rng r2)) = seg s0 a1 (start (rng r2) - d1)"
      using sync_base(1) [OF sync1 _ after] sync_base(2) [OF sync1 _ before] b1 r2(2) by simp_all
    have "compose_inv s0 s1 (dn @ [r2]) (queue1, result0 @ c @ [?r], d1)"
    proof (rule compose_inv_step [OF inv])
      show "chain rng (end_pos rng 0 result0) (c @ [?r]) (end_pos rng (end_pos rng 0 result0) (c @ [?r]))"
        using c_ok(1) b1 r2(2) by (simp add: chain_append a0_def [symmetric] a1_def [symmetric])
      show "\<forall>e\<in>set (c @ [?r]). wf e" using c_ok(2) r2_slice by simp
      show "emit rng content (end_pos rng 0 result0) (c @ [?r]) s0 =
          seg s1 (end_pos rng 0 dn) (start (rng r2)) @ content r2"
        using split base(2) r2_slice
        by (simp add: emit_append a0_def [symmetric] a1_def [symmetric])
    qed (use base(1) in simp_all)
    moreover have "compose_body R r2 (queue0, result0, d0) = Inr (queue1, result0 @ c @ [?r], d1)"
      using True t(3) q copy touch c(2) r2(2) len2
      by (simp add: compose_body_def BaseReplacement_delta_def OffsetRange_delta_def)
    ultimately show ?thesis by blast
  next
    case False
    define newStart where "newStart = min (start (rng (hd t))) (start (rng r2) - d1)"
    have q1: "queue1 = hd t # (tl t @ queue2)" using False t(1) by simp
    have "start (rng r2) \<le> start (rng (hd t)) + d1 + getNewLength R (hd t)"
      using c(5) q1 by simp
    from compose_prefix_correct [OF sync1 [unfolded q1] b1 this newStart_def] obtain pre where
      pre: "compose_prefix R r2 (hd t) d1 newStart = Inr pre" "chain rng a1 pre newStart"
        "\<forall>e\<in>set pre. wf e"
        "emit rng content a1 pre s0 @ seg s0 (end_pos rng a1 pre) newStart =
           seg s1 (a1 + d1) (start (rng r2))" by blast
    from compose_suffix_correct [OF sync1 [unfolded t(1)] False t(2) _ t(5) r2(3)] t(4) False
    obtain queue3 d3 where
      suf: "compose_suffix R r2 (last t) queue2 d2 = Inr (queue3, d3)"
        "endExclusive (rng (last t)) \<le> endExclusive (rng r2) - d3"
        "sync s0 s1 d3 (endExclusive (rng r2) - d3) queue3" by blast
    let ?m = "slice_repl R r2 (OffsetRange newStart (endExclusive (rng r2) - d3))
      (OffsetRange 0 (getNewLength R r2))"
    have "chain rng a1 t (end_pos rng a1 t)" using sync1 by (simp add: sync_def t(1) chain_append)
    then have "start (rng (hd t)) \<le> endExclusive (rng (last t))"
      using False by (rule chain_hd_last)
    then have ns: "newStart \<le> endExclusive (rng r2) - d3" using suf(2) by (simp add: newStart_def)
    have "compose_inv s0 s1 (dn @ [r2]) (queue3, result0 @ c @ pre @ [?m], d3)"
    proof (rule compose_inv_step [OF inv])
      show "chain rng (end_pos rng 0 result0) (c @ pre @ [?m])
          (end_pos rng (end_pos rng 0 result0) (c @ pre @ [?m]))"
        using c_ok(1) chain_to_end_pos [OF pre(2)] ns chain_end_pos [OF pre(2)]
        by (auto simp: chain_append a0_def [symmetric] a1_def [symmetric])
      show "\<forall>e\<in>set (c @ pre @ [?m]). wf e" using c_ok(2) pre(3) r2_slice by auto
      show "emit rng content (end_pos rng 0 result0) (c @ pre @ [?m]) s0 =
          seg s1 (end_pos rng 0 dn) (start (rng r2)) @ content r2"
        by (simp add: split pre(4) [symmetric] r2_slice emit_append
            a0_def [symmetric] a1_def [symmetric])
    qed (use suf(3) in simp_all)
    moreover have "compose_body R r2 (queue0, result0, d0) =
        Inr (queue3, result0 @ c @ pre @ [?m], d3)"
      using False t(3) copy touch c(2) pre(1) suf(1) ns len2
      by (simp add: compose_body_def newStart_def [symmetric])
    ultimately show ?thesis by blast
  qed
qed

lemma compose_loop_correct:
  assumes "compose_inv s0 s1 dn st" and "chain rng (end_pos rng 0 dn) rs (int (length s1))"
    and "\<forall>e\<in>set rs. wf e"
  shows "\<exists>st'. compose_loop R rs st = Inr st' \<and> compose_inv s0 s1 (dn @ rs) st'"
  using assms
proof (induction rs arbitrary: dn st)
  case (Cons r2 rs)
  obtain queue result d where st: "st = (queue, result, d)" by (metis prod_cases3)
  have "endExclusive (rng r2) \<le> int (length s1)"
    using Cons.prems(2) chain_end_pos [of rng "endExclusive (rng r2)" rs "int (length s1)"] by simp
  with Cons.prems st obtain st1 where
    st1: "compose_body R r2 st = Inr st1" "compose_inv s0 s1 (dn @ [r2]) st1"
    using compose_body_correct [of s0 s1 dn queue result d r2] by auto
  with Cons.IH [OF st1(2)] Cons.prems show ?case by auto
qed simp

theorem compose_correct:
  assumes "fits e1 (int (length s))"
    and "fits e2 (int (length (apply_edits rng content 0 e1 s)))"
  shows "\<exists>e. BaseEdit_compose R e1 e2 = Inr e \<and> fits e (int (length s)) \<and>
    apply_edits rng content 0 e s = apply_edits rng content 0 e2 (apply_edits rng content 0 e1 s)"
proof -
  let ?s1 = "apply_edits rng content 0 e1 s"
  obtain n1 where n1: "BaseEdit_normalize R e1 = Inr n1" "fits n1 (int (length s))"
    "\<And>x. apply_edits rng content 0 n1 x = apply_edits rng content 0 e1 x"
    using normalize_correct [OF assms(1)] by blast
  obtain n2 where n2: "BaseEdit_normalize R e2 = Inr n2" "fits n2 (int (length ?s1))"
    "\<And>x. apply_edits rng content 0 n2 x = apply_edits rng content 0 e2 x"
    using normalize_correct [OF assms(2)] by blast
  consider "n1 = []" | "n1 \<noteq> []" "n2 = []" | "n1 \<noteq> []" "n2 \<noteq> []" by blast
  then show ?thesis
  proof cases
    case 1
    with n1(3) [of s] have "?s1 = s" by simp
    with 1 n1 n2 show ?thesis by (simp add: BaseEdit_compose_def)
  next
    case 2
    with n2(3) [of ?s1] n1 n2(1) show ?thesis by (simp add: BaseEdit_compose_def)
  next
    case 3
    have "compose_inv s ?s1 [] (n1, [], 0)"
      using n1(2,3) by (simp add: compose_inv_def sync_def fits_def)
    from compose_loop_correct [OF this, of n2] n2(2) obtain queue result d where
      loop: "compose_loop R n2 (n1, [], 0) = Inr (queue, result, d)"
        and inv: "compose_inv s ?s1 n2 (queue, result, d)"
      by (auto simp: fits_def)
    have fit: "fits (result @ queue) (int (length s))"
      using inv by (auto simp: compose_inv_def sync_def fits_def chain_append)
    have "apply_edits rng content 0 (result @ queue) s = apply_edits rng content 0 n2 ?s1"
      using inv by (simp add: compose_inv_def sync_def apply_edits_append)
        (simp add: apply_edits_def)
    then have eff: "apply_edits rng content 0 (result @ queue) s = apply_edits rng content 0 e2 ?s1"
      using n2(3) by simp
    have "BaseEdit_compose R e1 e2 = BaseEdit_normalize R (result @ queue)"
      using 3 n1(1) n2(1) loop mk_Edit_fits [OF fit] by (simp add: BaseEdit_compose_def)
    with normalize_correct [OF fit] eff show ?thesis by auto
  qed
qed

end

end
