(* ===== verification/EditLaws.thy ===== *)
theory EditLaws
  imports Edit
begin

section \<open>Laws of edits\<close>

text \<open>
  What every replacement class inherits from the contract \<open>replacement\<close> beyond \<open>normalize\<close> and
  \<open>compose\<close>: \<open>decomposeSplit\<close>, the inverse edit, the offset maps and the new ranges.
\<close>

definition shift_repl :: "'t replacement_ops \<Rightarrow> int \<Rightarrow> 't \<Rightarrow> 't" where
  "shift_repl R d r =
     slice_repl R r (OffsetRange (start (replaceRange R r) + d) (endExclusive (replaceRange R r) + d))
       (OffsetRange 0 (getNewLength R r))"

definition flagged :: "('t \<times> bool) list \<Rightarrow> 't list" where
  "flagged m = map fst (filter snd m)"

fun unflagged :: "'t replacement_ops \<Rightarrow> int \<Rightarrow> ('t \<times> bool) list \<Rightarrow> 't list" where
  "unflagged R d [] = []"
| "unflagged R d (e # m) =
     (if snd e
      then unflagged R (d + (getNewLength R (fst e) - OffsetRange_length (replaceRange R (fst e)))) m
      else shift_repl R d (fst e) # unflagged R d m)"

text \<open>The second list reverts the first: its ranges are the new ranges, its contents the old data.\<close>

fun inverse_of ::
    "'t replacement_ops \<Rightarrow> ('t \<Rightarrow> 'c list) \<Rightarrow> 'c list \<Rightarrow> int \<Rightarrow> 't list \<Rightarrow> 't list \<Rightarrow> bool" where
  "inverse_of R ct s d [] [] = True"
| "inverse_of R ct s d (e # es) (e' # es') =
     (replaceRange R e' = OffsetRange (start (replaceRange R e) + d)
        (start (replaceRange R e) + d + getNewLength R e) \<and>
      ct e' = seg s (start (replaceRange R e)) (endExclusive (replaceRange R e)) \<and>
      inverse_of R ct s (d + (getNewLength R e - OffsetRange_length (replaceRange R e))) es es')"
| "inverse_of R ct s d _ _ = False"

lemma chain_flagged: "chain (\<lambda>e. rg (fst e)) a m b \<Longrightarrow> chain rg a (flagged m) b"
proof (induction m arbitrary: a)
  case (Cons e m)
  then have "chain rg (endExclusive (rg (fst e))) (flagged m) b" by simp
  with Cons.prems chain_weaken [OF this, of a b] show ?case by (simp add: flagged_def)
qed (simp add: flagged_def)

lemma apply_edits_map:
  "apply_edits rg ct a (map f es) s = apply_edits (\<lambda>e. rg (f e)) (\<lambda>e. ct (f e)) a es s"
  by (induction es arbitrary: a) (simp_all add: apply_edits_Cons apply_edits_def comp_def)

lemma chain_map: "chain rg a (map f es) b \<longleftrightarrow> chain (\<lambda>e. rg (f e)) a es b"
  by (induction es arbitrary: a) simp_all

lemma chain_valid: "chain rg a es b \<Longrightarrow> e \<in> set es \<Longrightarrow> valid_offset_range (rg e)"
  by (induction es arbitrary: a) (auto simp: valid_offset_range_def)

context replacement
begin

subsubsection \<open>Splitting an edit into two consecutive ones\<close>

text \<open>
  A sorted list of replacements, each with a flag. The flagged ones alone, applied first, and the
  others, shifted by what the flagged ones before them add, applied to the result, have the effect
  of the whole list. \<open>decomposeSplit\<close> and the rebase of string edits both rest on this fact.
\<close>

lemma shift_repl_correct:
  assumes "wf r" and "valid_offset_range (rng r)"
  shows "rng (shift_repl R d r) = OffsetRange (start (rng r) + d) (endExclusive (rng r) + d)"
    and "content (shift_repl R d r) = content r" and "wf (shift_repl R d r)"
  using assms slice_content [of r "OffsetRange 0 (getNewLength R r)"] new_length [of r]
  by (simp_all add: shift_repl_def seg_def)

lemma split_correct:
  assumes "sync s0 s1 d a (flagged m)" and "chain (\<lambda>e. rng (fst e)) a m (int (length s0))"
    and "\<forall>e\<in>set m. wf (fst e)"
    and "int (length s1) = int (length s0) + d + length_delta (flagged m)"
  shows "chain rng (a + d) (unflagged R d m) (int (length s1)) \<and>
    (\<forall>e\<in>set (unflagged R d m). wf e) \<and>
    apply_edits rng content (a + d) (unflagged R d m) s1 =
      apply_edits (\<lambda>e. rng (fst e)) (\<lambda>e. content (fst e)) a m s0"
  using assms
proof (induction m arbitrary: a d)
  case Nil
  then show ?case by (simp add: flagged_def sync_def apply_edits_def)
next
  case (Cons e m)
  obtain r b where e: "e = (r, b)" by force
  have r: "a \<le> start (rng r)" "start (rng r) \<le> endExclusive (rng r)" "wf r"
    and rest: "chain (\<lambda>e. rng (fst e)) (endExclusive (rng r)) m (int (length s0))"
    using Cons.prems(2,3) e by auto
  have ad: "0 \<le> a" "0 \<le> a + d" using Cons.prems(1) by (simp_all add: sync_def)
  show ?case
  proof (cases b)
    case True
    let ?d = "d + (getNewLength R r - OffsetRange_length (rng r))"
    let ?a = "endExclusive (rng r)"
    have "sync s0 s1 d a ([r] @ flagged m)" using Cons.prems(1) e True by (simp add: flagged_def)
    from sync_copy [OF this] have sync: "sync s0 s1 ?d ?a (flagged m)"
      and seg: "seg s1 (a + d) (?a + ?d) = seg s0 a (start (rng r)) @ content r" by simp_all
    have IH: "chain rng (?a + ?d) (unflagged R ?d m) (int (length s1)) \<and>
        (\<forall>e\<in>set (unflagged R ?d m). wf e) \<and>
        apply_edits rng content (?a + ?d) (unflagged R ?d m) s1 =
          apply_edits (\<lambda>e. rng (fst e)) (\<lambda>e. content (fst e)) ?a m s0"
      by (rule Cons.IH [OF sync rest]) (use Cons.prems(3,4) e True in \<open>auto simp: flagged_def\<close>)
    have le: "a + d \<le> ?a + ?d" using r new_length [of r] by (simp add: OffsetRange_length_def)
    with IH seg apply_edits_advance [OF ad(2) le, of rng "unflagged R ?d m" "int (length s1)" content s1] e True
    show ?thesis by (auto simp: apply_edits_Cons intro: chain_weaken)
  next
    case False
    have flagged_chain: "chain rng (endExclusive (rng r)) (flagged m) (int (length s0))"
      using rest by (rule chain_flagged)
    have q: "sync s0 s1 d a (flagged m)" using Cons.prems(1) e False by (simp add: flagged_def)
    have seg: "seg s1 (a + d) (start (rng r) + d) = seg s0 a (start (rng r))"
      using r chain_weaken [OF flagged_chain r(2) order_refl]
      by (intro sync_base(2) [OF q]) simp_all
    have sync: "sync s0 s1 d (endExclusive (rng r)) (flagged m)"
      using r flagged_chain by (intro sync_base(1) [OF q]) simp_all
    have IH: "chain rng (endExclusive (rng r) + d) (unflagged R d m) (int (length s1)) \<and>
        (\<forall>e\<in>set (unflagged R d m). wf e) \<and>
        apply_edits rng content (endExclusive (rng r) + d) (unflagged R d m) s1 =
          apply_edits (\<lambda>e. rng (fst e)) (\<lambda>e. content (fst e)) (endExclusive (rng r)) m s0"
      by (rule Cons.IH [OF sync rest]) (use Cons.prems(3,4) e False in \<open>auto simp: flagged_def\<close>)
    with e False r seg show ?thesis
      by (simp add: apply_edits_Cons shift_repl_correct valid_offset_range_def)
  qed
qed

lemma sync_start: "fits es (int (length s)) \<Longrightarrow> sync s (apply_edits rng content 0 es s) 0 0 es"
  by (simp add: sync_def fits_def)

lemma fits_flagged:
  assumes "chain (\<lambda>e. rng (fst e)) 0 m n" and "\<forall>e\<in>set m. wf (fst e)"
  shows "fits (flagged m) n"
  using assms chain_flagged [OF assms(1)] by (auto simp: fits_def flagged_def)

theorem split_apply:
  assumes "chain (\<lambda>e. rng (fst e)) 0 m (int (length s))" and "\<forall>e\<in>set m. wf (fst e)"
  shows "fits (unflagged R 0 m) (int (length (apply_edits rng content 0 (flagged m) s)))"
    and "apply_edits rng content 0 (unflagged R 0 m) (apply_edits rng content 0 (flagged m) s) =
      apply_edits (\<lambda>e. rng (fst e)) (\<lambda>e. content (fst e)) 0 m s"
  using split_correct [OF sync_start [OF fits_flagged [OF assms]] assms]
    length_apply_edits [OF fits_flagged [OF assms]]
  by (auto simp: fits_def)

lemma decomposeSplit_loop_eq:
  assumes "\<forall>e\<in>set es. wf e \<and> valid_offset_range (rng e)"
  shows "decomposeSplit_loop R p es e1 e2 d =
    Inr (e1 @ filter p es, e2 @ unflagged R d (map (\<lambda>e. (e, p e)) es))"
  using assms
proof (induction es arbitrary: e1 e2 d)
  case (Cons e es)
  have "0 \<le> getNewLength R e" using Cons.prems new_length [of e] by simp
  with Cons show ?case by (simp add: shift_repl_def)
qed simp

theorem decomposeSplit_correct:
  assumes "fits es (int (length s))"
  shows "\<exists>e1 e2. BaseEdit_decomposeSplit R es p = Inr (e1, e2) \<and> e1 = filter p es \<and>
    fits e1 (int (length s)) \<and> fits e2 (int (length (apply_edits rng content 0 e1 s))) \<and>
    apply_edits rng content 0 e2 (apply_edits rng content 0 e1 s) = apply_edits rng content 0 es s"
proof -
  let ?m = "map (\<lambda>e. (e, p e)) es"
  have m: "chain (\<lambda>e. rng (fst e)) 0 ?m (int (length s))" "\<forall>e\<in>set ?m. wf (fst e)"
    using assms by (simp_all add: fits_def chain_map comp_def)
  have eq: "flagged ?m = filter p es" by (induction es) (simp_all add: flagged_def)
  have loop: "decomposeSplit_loop R p es [] [] 0 = Inr (filter p es, unflagged R 0 ?m)"
    using assms chain_valid [of rng 0 es] by (subst decomposeSplit_loop_eq) (auto simp: fits_def)
  note fits = fits_flagged [OF m, unfolded eq] split_apply(1) [OF m, unfolded eq]
  have "BaseEdit_decomposeSplit R es p = Inr (filter p es, unflagged R 0 ?m)"
    using loop mk_Edit_fits [OF fits(1)] mk_Edit_fits [OF fits(2)]
    by (simp add: BaseEdit_decomposeSplit_def)
  with fits split_apply(2) [OF m] show ?thesis
    by (simp add: eq apply_edits_map comp_def)
qed

subsubsection \<open>Reverting an edit\<close>

lemma inverse_correct:
  assumes "sync s0 s1 d a es" and "inverse_of R content s0 d es es'"
    and "int (length s1) = int (length s0) + d + length_delta es"
  shows "chain rng (a + d) es' (int (length s1)) \<and>
    apply_edits rng content (a + d) es' s1 = drop (nat a) s0"
  using assms
proof (induction es arbitrary: a d es')
  case Nil
  then show ?case by (cases es') (simp_all add: sync_def apply_edits_def)
next
  case (Cons e es)
  then obtain e' es'' where es': "es' = e' # es''" by (cases es') auto
  let ?a = "endExclusive (rng e)"
  let ?d = "d + (getNewLength R e - OffsetRange_length (rng e))"
  have e: "a \<le> start (rng e)" "start (rng e) \<le> ?a" "wf e" "chain rng ?a es (int (length s0))" "0 \<le> a"
    using Cons.prems(1) by (simp_all add: sync_def)
  have e': "rng e' = OffsetRange (start (rng e) + d) (?a + ?d)"
    "content e' = seg s0 (start (rng e)) ?a" "inverse_of R content s0 ?d es es''"
    using Cons.prems(2) by (simp_all add: es' OffsetRange_length_def)
  have seg: "seg s1 (a + d) (start (rng e) + d) = seg s0 a (start (rng e))"
    using e Cons.prems(1) by (intro sync_base(2) [OF Cons.prems(1)]) (simp_all add: sync_def)
  have sync: "sync s0 s1 ?d ?a es"
    using sync_copy(1) [of s0 s1 d a "[e]" es] Cons.prems(1) by simp
  have IH: "chain rng (?a + ?d) es'' (int (length s1)) \<and>
      apply_edits rng content (?a + ?d) es'' s1 = drop (nat ?a) s0"
    by (rule Cons.IH [OF sync e'(3)]) (use Cons.prems(3) in simp)
  have "start (rng e) + d \<le> ?a + ?d" using new_length [OF e(3)] by (simp add: OffsetRange_length_def)
  moreover have "seg s0 a (start (rng e)) @ seg s0 (start (rng e)) ?a @ drop (nat ?a) s0 = drop (nat a) s0"
    using e by (simp add: seg_drop)
  ultimately show ?case
    using IH e' e(1) by (simp add: es' apply_edits_Cons seg)
qed

theorem inverse_apply:
  assumes "fits es (int (length s))" and "inverse_of R content s 0 es es'" and "\<forall>e\<in>set es'. wf e"
  shows "fits es' (int (length (apply_edits rng content 0 es s)))"
    and "apply_edits rng content 0 es' (apply_edits rng content 0 es s) = s"
  using inverse_correct [OF sync_start [OF assms(1)] assms(2)] length_apply_edits [OF assms(1)] assms(3)
  by (auto simp: fits_def)

subsubsection \<open>Offsets and ranges of the new data\<close>

lemma sync_char:
  assumes "sync s0 s1 d a q" and "a \<le> x" and "chain rng (x + 1) q (int (length s0))"
  shows "nat (x + d) < length s1 \<and> s1 ! nat (x + d) = s0 ! nat x"
proof -
  have x: "0 \<le> x" "x < int (length s0)"
    using assms(1,2) chain_end_pos [OF assms(3)] by (simp_all add: sync_def)
  have "sync s0 s1 d x q"
    using assms chain_weaken [OF assms(3), of x "int (length s0)"] by (intro sync_base(1) [OF assms(1)]) auto
  from sync_base(2) [OF this _ assms(3)] this
  have "seg s1 (x + d) (x + d + 1) = seg s0 x (x + 1)" and "0 \<le> x + d"
    by (simp_all add: sync_def algebra_simps)
  moreover have "seg s0 x (x + 1) = [s0 ! nat x]"
    using x by (simp add: seg_def nat_add_distrib take_Suc hd_drop_conv_nth)
  ultimately have "take 1 (drop (nat (x + d)) s1) = [s0 ! nat x]"
    by (simp add: seg_def nat_add_distrib)
  then show ?thesis
    by (cases "nat (x + d) < length s1") (simp_all add: take_Suc hd_drop_conv_nth)
qed

lemma applyToOffsetOrUndefined_loop_char:
  assumes "sync s0 s1 d a es" and "a \<le> x" and "x < int (length s0)"
    and "applyToOffsetOrUndefined_loop R es x d = Some y"
  shows "0 \<le> y \<and> nat y < length s1 \<and> s1 ! nat y = s0 ! nat x"
  using assms
proof (induction es arbitrary: a d)
  case Nil
  with sync_char [OF Nil(1,2)] show ?case by (auto simp: sync_def)
next
  case (Cons e es)
  show ?case
  proof (cases "start (rng e) \<le> x")
    case True
    with Cons.prems(4) have "endExclusive (rng e) \<le> x" by (auto split: if_splits)
    moreover have "sync s0 s1 (d + (getNewLength R e - OffsetRange_length (rng e))) (endExclusive (rng e)) es"
      using sync_copy(1) [of s0 s1 d a "[e]" es] Cons.prems(1) by simp
    ultimately show ?thesis using Cons.IH Cons.prems True by simp
  next
    case False
    moreover have "chain rng (x + 1) (e # es) (int (length s0))"
      using Cons.prems(1) False by (simp add: sync_def)
    ultimately show ?thesis
      using sync_char [OF Cons.prems(1,2)] Cons.prems by (auto simp: sync_def)
  qed
qed

theorem applyToOffsetOrUndefined_char:
  assumes "fits es (int (length s))" and "0 \<le> x" and "x < int (length s)"
    and "BaseEdit_applyToOffsetOrUndefined R es x = Some y"
  shows "0 \<le> y \<and> nat y < length (apply_edits rng content 0 es s) \<and>
    apply_edits rng content 0 es s ! nat y = s ! nat x"
  using applyToOffsetOrUndefined_loop_char [OF sync_start [OF assms(1)]] assms
  by (simp add: BaseEdit_applyToOffsetOrUndefined_def)

lemma applyInverseToOffset_loop_roundtrip:
  assumes "chain rng a es n" and "\<forall>e\<in>set es. wf e" and "a \<le> x"
    and "applyToOffsetOrUndefined_loop R es x d = Some y"
  shows "a + d \<le> y \<and> applyInverseToOffset_loop R es y d = x"
  using assms
proof (induction es arbitrary: a d)
  case (Cons e es)
  let ?d = "d + (getNewLength R e - OffsetRange_length (rng e))"
  have len: "0 \<le> getNewLength R e" using Cons.prems(2) new_length [of e] by simp
  show ?case
  proof (cases "start (rng e) \<le> x")
    case True
    with Cons.prems(4) have x: "endExclusive (rng e) \<le> x"
      and loop: "applyToOffsetOrUndefined_loop R es x ?d = Some y" by (auto split: if_splits)
    have IH: "endExclusive (rng e) + ?d \<le> y \<and> applyInverseToOffset_loop R es y ?d = x"
      using Cons.prems x by (intro Cons.IH [OF _ _ x loop]) auto
    then have "start (rng e) + getNewLength R e \<le> y - d" by (simp add: OffsetRange_length_def)
    with IH len Cons.prems(1) show ?thesis by simp
  qed (use Cons.prems in auto)
qed auto

theorem applyInverseToOffset_roundtrip:
  assumes "fits es n" and "0 \<le> x" and "BaseEdit_applyToOffsetOrUndefined R es x = Some y"
  shows "BaseEdit_applyInverseToOffset R es y = x"
  using applyInverseToOffset_loop_roundtrip [of 0 es n x 0 y] assms
  by (simp add: fits_def BaseEdit_applyToOffsetOrUndefined_def BaseEdit_applyInverseToOffset_def)

lemma applyToOffset_loop_lower:
  assumes "chain rng a es n" and "\<forall>e\<in>set es. wf e" and "a \<le> x"
  shows "a + d \<le> applyToOffset_loop R es x d"
  using assms
proof (induction es arbitrary: a d)
  case (Cons e es)
  have "0 \<le> getNewLength R e" using Cons.prems(2) new_length [of e] by simp
  moreover have "endExclusive (rng e) + (d + (getNewLength R e - OffsetRange_length (rng e)))
      \<le> applyToOffset_loop R es x (d + (getNewLength R e - OffsetRange_length (rng e)))"
    if "endExclusive (rng e) \<le> x" using Cons that by simp
  ultimately show ?case using Cons.prems by (auto simp: OffsetRange_length_def)
qed simp

theorem applyToOffset_mono:
  assumes "fits es n" and "x \<le> y"
  shows "BaseEdit_applyToOffset R es x \<le> BaseEdit_applyToOffset R es y"
proof -
  have "applyToOffset_loop R es x d \<le> applyToOffset_loop R es y d"
    if "chain rng a es n" and "\<forall>e\<in>set es. wf e" for a d
    using that
  proof (induction es arbitrary: a d)
    case (Cons e es)
    have "0 \<le> getNewLength R e" using Cons.prems(2) new_length [of e] by simp
    moreover have "endExclusive (rng e) + (d + (getNewLength R e - OffsetRange_length (rng e)))
        \<le> applyToOffset_loop R es y (d + (getNewLength R e - OffsetRange_length (rng e)))"
      if "endExclusive (rng e) \<le> y"
      using Cons.prems that by (intro applyToOffset_loop_lower) auto
    ultimately show ?case using Cons assms(2) by (auto simp: OffsetRange_length_def)
  qed (use assms(2) in simp)
  then show ?thesis using assms(1) unfolding fits_def BaseEdit_applyToOffset_def by blast
qed

text \<open>A range of the edited data is the one where the content of a replacement stands.\<close>

definition holds_content :: "'c list \<Rightarrow> offset_range \<Rightarrow> 't \<Rightarrow> bool" where
  "holds_content s1 r e \<longleftrightarrow> 0 \<le> start r \<and> endExclusive r = start r + int (length (content e)) \<and>
     seg s1 (start r) (endExclusive r) = content e"

lemma getNewRanges_loop_content:
  assumes "sync s0 s1 d a es"
  shows "\<exists>rgs. getNewRanges_loop R es d = Inr rgs \<and> list_all2 (holds_content s1) rgs es"
  using assms
proof (induction es arbitrary: a d)
  case (Cons e es)
  let ?d = "d + (getNewLength R e - OffsetRange_length (rng e))"
  have len: "0 \<le> getNewLength R e" "getNewLength R e = int (length (content e))"
    using Cons.prems new_length [of e] by (simp_all add: sync_def)
  have "sync s0 s1 ?d (endExclusive (rng e)) es"
    using sync_copy(1) [of s0 s1 d a "[e]" es] Cons.prems by simp
  then obtain rgs where rgs: "getNewRanges_loop R es ?d = Inr rgs"
    "list_all2 (holds_content s1) rgs es" using Cons.IH by blast
  have "sync s0 s1 d (start (rng e)) (e # es)"
    using Cons.prems by (intro sync_base(1) [OF Cons.prems]) (simp_all add: sync_def)
  from sync_into(1) [OF this len(1) order_refl] this
  have "seg s1 (start (rng e) + d) (start (rng e) + d + getNewLength R e) = content e"
    "0 \<le> start (rng e) + d"
    using len(2) by (simp_all add: seg_def sync_def)
  then have "holds_content s1 (OffsetRange (start (rng e) + d) (start (rng e) + d + getNewLength R e)) e"
    using len by (simp add: holds_content_def)
  with rgs len(1) show ?case
    by (simp add: OffsetRange_ofStartAndLength_def BaseReplacement_getLengthDelta_def)
qed simp

theorem getNewRanges_content:
  assumes "fits es (int (length s))"
  shows "\<exists>rgs. BaseEdit_getNewRanges R es = Inr rgs \<and>
    list_all2 (holds_content (apply_edits rng content 0 es s)) rgs es"
  using getNewRanges_loop_content [OF sync_start [OF assms]] by (simp add: BaseEdit_getNewRanges_def)

lemma getLengthDelta_eq: "BaseEdit_getLengthDelta R es = length_delta es"
proof -
  have "foldl (\<lambda>acc r. acc + BaseReplacement_getLengthDelta R r) z es = z + length_delta es" for z
    by (induction es arbitrary: z) (simp_all add: BaseReplacement_getLengthDelta_def)
  then show ?thesis by (simp add: BaseEdit_getLengthDelta_def)
qed

theorem getNewDataLength_correct:
  assumes "fits es (int (length s))"
  shows "BaseEdit_getNewDataLength R es (int (length s)) = int (length (apply_edits rng content 0 es s))"
  using length_apply_edits [OF assms] by (simp add: BaseEdit_getNewDataLength_def getLengthDelta_eq)

end

end
