(* ===== verification/StringEdit.thy ===== *)
theory StringEdit
  imports EditLaws
begin

section \<open>String edits: \<open>src/vs/editor/common/core/edits/stringEdit.ts\<close>\<close>

text \<open>
  Strings are lists of UTF-16 code units. \<open>string_replacement\<close> is \<open>StringReplacement\<close>;
  \<open>string_ops\<close> collects its overrides of \<open>BaseReplacement\<close>, on which the operations of
  \<open>BaseEdit\<close> run. A string edit is the list of its replacements. The interpretation \<open>string\<close>
  discharges the contract \<open>replacement\<close>, which gives \<open>normalize\<close>, \<open>compose\<close>, the inverse
  and the offset maps for string edits; the rest of the theory treats the operations that only
  string edits have, \<open>tryRebase\<close> in particular.
\<close>

subsection \<open>\<open>src/vs/base/common/strings.ts\<close>: common prefix and suffix\<close>

function commonPrefixLength_loop :: "'a list \<Rightarrow> 'a list \<Rightarrow> nat \<Rightarrow> nat \<Rightarrow> nat" where
  "commonPrefixLength_loop a b len i =
     (if i < len
      then (if a ! i \<noteq> b ! i then i else commonPrefixLength_loop a b len (Suc i))
      else len)"
  by pat_completeness auto
termination
  by (relation "measure (\<lambda>(a, b, len, i). len - i)") auto

declare commonPrefixLength_loop.simps [simp del]

definition commonPrefixLength :: "'a list \<Rightarrow> 'a list \<Rightarrow> nat" where
  "commonPrefixLength a b =
     (let len = min (length a) (length b) in commonPrefixLength_loop a b len 0)"

function commonSuffixLength_loop :: "'a list \<Rightarrow> 'a list \<Rightarrow> nat \<Rightarrow> nat \<Rightarrow> nat" where
  "commonSuffixLength_loop a b len i =
     (if i < len
      then (if a ! (length a - 1 - i) \<noteq> b ! (length b - 1 - i) then i
            else commonSuffixLength_loop a b len (Suc i))
      else len)"
  by pat_completeness auto
termination
  by (relation "measure (\<lambda>(a, b, len, i). len - i)") auto

declare commonSuffixLength_loop.simps [simp del]

definition commonSuffixLength :: "'a list \<Rightarrow> 'a list \<Rightarrow> nat" where
  "commonSuffixLength a b =
     (let len = min (length a) (length b) in commonSuffixLength_loop a b len 0)"

subsection \<open>Replacements\<close>

record string_replacement =
  sr_range :: offset_range
  newText :: js_string

abbreviation StringReplacement :: "offset_range \<Rightarrow> js_string \<Rightarrow> string_replacement" where
  "StringReplacement rg text \<equiv> \<lparr>sr_range = rg, newText = text\<rparr>"

type_synonym string_edit = "string_replacement list"

definition StringReplacement_insert :: "int \<Rightarrow> js_string \<Rightarrow> string_replacement result" where
  "StringReplacement_insert offset text =
     bind_result (OffsetRange_emptyAt offset) (\<lambda>rg. Inr (StringReplacement rg text))"

definition StringReplacement_replace :: "offset_range \<Rightarrow> js_string \<Rightarrow> string_replacement" where
  "StringReplacement_replace rg text = StringReplacement rg text"

definition StringReplacement_delete :: "offset_range \<Rightarrow> string_replacement" where
  "StringReplacement_delete rg = StringReplacement rg []"

definition StringReplacement_getNewLength :: "string_replacement \<Rightarrow> int" where
  "StringReplacement_getNewLength r = int (length (newText r))"

definition StringReplacement_equals :: "string_replacement \<Rightarrow> string_replacement \<Rightarrow> bool" where
  "StringReplacement_equals r other \<longleftrightarrow>
     OffsetRange_equals (sr_range r) (sr_range other) \<and> newText r = newText other"

definition StringReplacement_tryJoinTouching ::
    "string_replacement \<Rightarrow> string_replacement \<Rightarrow> string_replacement option result" where
  "StringReplacement_tryJoinTouching r other =
     bind_result (OffsetRange_joinRightTouching (sr_range r) (sr_range other))
       (\<lambda>rg. Inr (Some (StringReplacement rg (newText r @ newText other))))"

definition StringReplacement_slice ::
    "string_replacement \<Rightarrow> offset_range \<Rightarrow> offset_range \<Rightarrow> string_replacement" where
  "StringReplacement_slice r rg rangeInReplacement =
     StringReplacement rg (OffsetRange_substring rangeInReplacement (newText r))"

definition string_ops :: "string_replacement replacement_ops" where
  "string_ops = \<lparr>replaceRange = sr_range, getNewLength = StringReplacement_getNewLength,
     tryJoinTouching = StringReplacement_tryJoinTouching, slice_repl = StringReplacement_slice,
     equals_repl = StringReplacement_equals\<rparr>"

definition StringReplacement_apply :: "string_replacement \<Rightarrow> js_string \<Rightarrow> js_string" where
  "StringReplacement_apply r str =
     js_substring str 0 (start (sr_range r)) @ newText r
       @ js_substring_from str (endExclusive (sr_range r))"

definition StringReplacement_isNeutralOn :: "string_replacement \<Rightarrow> js_string \<Rightarrow> bool" where
  "StringReplacement_isNeutralOn r text \<longleftrightarrow>
     newText r = js_substring text (start (sr_range r)) (endExclusive (sr_range r))"

definition StringReplacement_removeCommonSuffixPrefix ::
    "string_replacement \<Rightarrow> js_string \<Rightarrow> string_replacement result" where
  "StringReplacement_removeCommonSuffixPrefix r originalText =
     (let oldText = js_substring originalText (start (sr_range r)) (endExclusive (sr_range r));
          prefixLen = int (commonPrefixLength oldText (newText r));
          suffixLen = min (min (int (length oldText) - prefixLen)
                               (int (length (newText r)) - prefixLen))
                          (int (commonSuffixLength oldText (newText r)))
      in bind_result
           (mk_OffsetRange (start (sr_range r) + prefixLen) (endExclusive (sr_range r) - suffixLen))
           (\<lambda>rg. Inr (StringReplacement rg
              (js_substring (newText r) prefixLen (int (length (newText r)) - suffixLen)))))"

text \<open>\<open>newText.replace(/\r\n|\n/g, eol)\<close>: 13 is the carriage return, 10 the line feed.\<close>

fun replaceEOL :: "js_string \<Rightarrow> js_string \<Rightarrow> js_string" where
  "replaceEOL eol [] = []"
| "replaceEOL eol [c] = (if c = 10 then eol else [c])"
| "replaceEOL eol (c # c' # cs) =
     (if c = 13 \<and> c' = 10 then eol @ replaceEOL eol cs
      else if c = 10 then eol @ replaceEOL eol (c' # cs)
      else c # replaceEOL eol (c' # cs))"

definition StringReplacement_normalizeEOL ::
    "string_replacement \<Rightarrow> js_string \<Rightarrow> string_replacement" where
  "StringReplacement_normalizeEOL r eol = StringReplacement (sr_range r) (replaceEOL eol (newText r))"

definition StringReplacement_removeCommonPrefix ::
    "string_replacement \<Rightarrow> js_string \<Rightarrow> string_replacement result" where
  "StringReplacement_removeCommonPrefix r source =
     (let oldText = OffsetRange_substring (sr_range r) source;
          prefixLen = int (commonPrefixLength oldText (newText r))
      in if prefixLen = 0 then Inr r
         else bind_result (OffsetRange_deltaStart (sr_range r) prefixLen)
                (\<lambda>rg. bind_result (mk_OffsetRange prefixLen (int (length (newText r))))
                   (\<lambda>sub. Inr (StringReplacement_slice r rg sub))))"

definition StringReplacement_removeCommonSuffix ::
    "string_replacement \<Rightarrow> js_string \<Rightarrow> string_replacement result" where
  "StringReplacement_removeCommonSuffix r source =
     (let oldText = OffsetRange_substring (sr_range r) source;
          suffixLen = int (commonSuffixLength oldText (newText r))
      in if suffixLen = 0 then Inr r
         else bind_result (OffsetRange_deltaEnd (sr_range r) (- suffixLen))
                (\<lambda>rg. bind_result (mk_OffsetRange 0 (int (length (newText r)) - suffixLen))
                   (\<lambda>sub. Inr (StringReplacement_slice r rg sub))))"

definition StringReplacement_removeCommonSuffixAndPrefix ::
    "string_replacement \<Rightarrow> js_string \<Rightarrow> string_replacement result" where
  "StringReplacement_removeCommonSuffixAndPrefix r source =
     bind_result (StringReplacement_removeCommonSuffix r source)
       (\<lambda>r'. StringReplacement_removeCommonPrefix r' source)"

definition StringReplacement_toEdit :: "string_replacement \<Rightarrow> string_edit result" where
  "StringReplacement_toEdit r = mk_Edit string_ops [r]"

record serialized_replacement =
  ser_txt :: js_string
  ser_pos :: int
  ser_len :: int

definition StringReplacement_toJson :: "string_replacement \<Rightarrow> serialized_replacement" where
  "StringReplacement_toJson r =
     \<lparr>ser_txt = newText r, ser_pos = start (sr_range r), ser_len = OffsetRange_length (sr_range r)\<rparr>"

definition StringReplacement_fromJson :: "serialized_replacement \<Rightarrow> string_replacement result" where
  "StringReplacement_fromJson data =
     bind_result (OffsetRange_ofStartAndLength (ser_pos data) (ser_len data))
       (\<lambda>rg. Inr (StringReplacement rg (ser_txt data)))"

subsection \<open>Edits\<close>

definition StringEdit_create :: "string_replacement list \<Rightarrow> string_edit result" where
  "StringEdit_create rs = mk_Edit string_ops rs"

definition StringEdit_single :: "string_replacement \<Rightarrow> string_edit result" where
  "StringEdit_single r = mk_Edit string_ops [r]"

definition StringEdit_replace :: "offset_range \<Rightarrow> js_string \<Rightarrow> string_edit result" where
  "StringEdit_replace rg text = mk_Edit string_ops [StringReplacement rg text]"

definition StringEdit_insert :: "int \<Rightarrow> js_string \<Rightarrow> string_edit result" where
  "StringEdit_insert offset text =
     bind_result (OffsetRange_emptyAt offset) (\<lambda>rg. mk_Edit string_ops [StringReplacement rg text])"

definition StringEdit_delete :: "offset_range \<Rightarrow> string_edit result" where
  "StringEdit_delete rg = mk_Edit string_ops [StringReplacement rg []]"

definition StringEdit_composeOrUndefined :: "string_edit list \<Rightarrow> string_edit option result" where
  "StringEdit_composeOrUndefined edits =
     (case edits of
        [] \<Rightarrow> Inr None
      | e # es \<Rightarrow>
          bind_result (foldl (\<lambda>acc x. bind_result acc (\<lambda>r. BaseEdit_compose string_ops r x)) (Inr e) es)
            (\<lambda>r. Inr (Some r)))"

definition StringEdit_compose :: "string_edit list \<Rightarrow> string_edit result" where
  "StringEdit_compose edits =
     (case edits of
        [] \<Rightarrow> Inr []
      | e # es \<Rightarrow>
          foldl (\<lambda>acc x. bind_result acc (\<lambda>r. BaseEdit_compose string_ops r x)) (Inr e) es)"

text \<open>\<open>apply\<close>: the joined pieces; the state of the loop is \<open>pos\<close>.\<close>

fun StringEdit_apply_loop :: "string_edit \<Rightarrow> int \<Rightarrow> js_string \<Rightarrow> js_string" where
  "StringEdit_apply_loop [] pos base = js_substring_from base pos"
| "StringEdit_apply_loop (edit # rs) pos base =
     js_substring base pos (start (sr_range edit)) @ newText edit
       @ StringEdit_apply_loop rs (endExclusive (sr_range edit)) base"

definition StringEdit_apply :: "string_edit \<Rightarrow> js_string \<Rightarrow> js_string" where
  "StringEdit_apply this base = StringEdit_apply_loop this 0 base"

fun inverseOnSlice_loop ::
    "string_edit \<Rightarrow> (int \<Rightarrow> int \<Rightarrow> js_string) \<Rightarrow> int \<Rightarrow> string_edit result" where
  "inverseOnSlice_loop [] getOriginalSlice offset = Inr []"
| "inverseOnSlice_loop (e # es) getOriginalSlice offset =
     bind_result
       (OffsetRange_ofStartAndLength (start (sr_range e) + offset) (int (length (newText e))))
       (\<lambda>rg. bind_result
          (inverseOnSlice_loop es getOriginalSlice
             (offset + (int (length (newText e)) - OffsetRange_length (sr_range e))))
          (\<lambda>rest. Inr (StringReplacement_replace rg
             (getOriginalSlice (start (sr_range e)) (endExclusive (sr_range e))) # rest)))"

definition StringEdit_inverseOnSlice ::
    "string_edit \<Rightarrow> (int \<Rightarrow> int \<Rightarrow> js_string) \<Rightarrow> string_edit result" where
  "StringEdit_inverseOnSlice this getOriginalSlice =
     bind_result (inverseOnSlice_loop this getOriginalSlice 0) (mk_Edit string_ops)"

definition StringEdit_inverse :: "string_edit \<Rightarrow> js_string \<Rightarrow> string_edit result" where
  "StringEdit_inverse this original =
     StringEdit_inverseOnSlice this (\<lambda>s e. js_substring original s e)"

definition areConcurrentInserts :: "offset_range \<Rightarrow> offset_range \<Rightarrow> bool" where
  "areConcurrentInserts r1 r2 \<longleftrightarrow>
     OffsetRange_isEmpty r1 \<and> OffsetRange_isEmpty r2 \<and> start r1 = start r2"

definition isInsertStrictlyInsideRange :: "offset_range \<Rightarrow> offset_range \<Rightarrow> bool" where
  "isInsertStrictlyInsideRange ins rg \<longleftrightarrow>
     OffsetRange_isEmpty ins \<and> start rg < start ins \<and> start ins < endExclusive rg"

text \<open>The condition under which \<open>_tryRebase\<close> treats two replacements as conflicting.\<close>

definition rebase_conflict :: "offset_range \<Rightarrow> offset_range \<Rightarrow> bool" where
  "rebase_conflict ours base \<longleftrightarrow>
     OffsetRange_intersects ours base \<or> areConcurrentInserts ours base \<or>
     isInsertStrictlyInsideRange ours base \<or> isInsertStrictlyInsideRange base ours"

text \<open>
  The loop of \<open>_tryRebase\<close>; the two lists are the replacements from \<open>ourIdx\<close> and from
  \<open>baseIdx\<close> on, \<open>acc\<close> is \<open>newEdits\<close>. \<open>Inr None\<close> is the early \<open>return undefined\<close>.
\<close>

fun tryRebase_loop ::
    "bool \<Rightarrow> string_edit \<Rightarrow> string_edit \<Rightarrow> int \<Rightarrow> string_edit \<Rightarrow> string_edit option result" where
  "tryRebase_loop noOverlap [] base offset acc = Inr (Some acc)"
| "tryRebase_loop noOverlap (ourEdit # ours) [] offset acc =
     bind_result (OffsetRange_delta (sr_range ourEdit) offset)
       (\<lambda>rg. tryRebase_loop noOverlap ours [] offset (acc @ [StringReplacement rg (newText ourEdit)]))"
| "tryRebase_loop noOverlap (ourEdit # ours) (baseEdit # base) offset acc =
     (if rebase_conflict (sr_range ourEdit) (sr_range baseEdit)
      then (if noOverlap then Inr None
            else tryRebase_loop noOverlap ours (baseEdit # base) offset acc)
      else if start (sr_range ourEdit) < start (sr_range baseEdit) \<or>
              (OffsetRange_isEmpty (sr_range ourEdit) \<and>
               start (sr_range ourEdit) = start (sr_range baseEdit))
      then bind_result (OffsetRange_delta (sr_range ourEdit) offset)
             (\<lambda>rg. tryRebase_loop noOverlap ours (baseEdit # base) offset
                (acc @ [StringReplacement rg (newText ourEdit)]))
      else tryRebase_loop noOverlap (ourEdit # ours) base
             (offset + (int (length (newText baseEdit)) - OffsetRange_length (sr_range baseEdit))) acc)"

definition tryRebase_impl ::
    "string_edit \<Rightarrow> string_edit \<Rightarrow> bool \<Rightarrow> string_edit option result" where
  "tryRebase_impl this base noOverlap =
     bind_result (tryRebase_loop noOverlap this base 0 [])
       (\<lambda>newEdits. case newEdits of
          None \<Rightarrow> Inr None
        | Some es \<Rightarrow> bind_result (mk_Edit string_ops es) (\<lambda>e. Inr (Some e)))"

definition StringEdit_tryRebase :: "string_edit \<Rightarrow> string_edit \<Rightarrow> string_edit option result" where
  "StringEdit_tryRebase this base = tryRebase_impl this base True"

definition StringEdit_rebaseSkipConflicting ::
    "string_edit \<Rightarrow> string_edit \<Rightarrow> string_edit option result" where
  "StringEdit_rebaseSkipConflicting this base = tryRebase_impl this base False"

text \<open>\<open>' '.repeat(n)\<close> throws a \<open>RangeError\<close> on a negative count; the count is a range's length.\<close>

definition StringEdit_trySwap ::
    "string_edit \<Rightarrow> string_edit \<Rightarrow> (string_edit \<times> string_edit) option result" where
  "StringEdit_trySwap e1 e2 =
     bind_result (StringEdit_inverseOnSlice e1 (\<lambda>s e. replicate (nat (e - s)) 32))
       (\<lambda>e1Inv. bind_result (StringEdit_tryRebase e2 e1Inv)
          (\<lambda>e1'. case e1' of
             None \<Rightarrow> Inr None
           | Some f1 \<Rightarrow> bind_result (StringEdit_tryRebase e1 f1)
               (\<lambda>e2'. case e2' of None \<Rightarrow> Inr None | Some f2 \<Rightarrow> Inr (Some (f1, f2)))))"

definition StringEdit_toJson :: "string_edit \<Rightarrow> serialized_replacement list" where
  "StringEdit_toJson this = map StringReplacement_toJson this"

definition StringEdit_fromJson :: "serialized_replacement list \<Rightarrow> string_edit result" where
  "StringEdit_fromJson data =
     bind_result (map_result StringReplacement_fromJson data) (mk_Edit string_ops)"

definition StringEdit_isNeutralOn :: "string_edit \<Rightarrow> js_string \<Rightarrow> bool" where
  "StringEdit_isNeutralOn this text \<longleftrightarrow>
     list_all (\<lambda>e. StringReplacement_isNeutralOn e text) this"

definition StringEdit_removeCommonSuffixPrefix :: "string_edit \<Rightarrow> js_string \<Rightarrow> string_edit result" where
  "StringEdit_removeCommonSuffixPrefix this originalText =
     bind_result
       (map_result (\<lambda>e. StringReplacement_removeCommonSuffixPrefix e originalText) this)
       (\<lambda>es. mk_Edit string_ops (filter (\<lambda>e. \<not> BaseReplacement_isEmpty string_ops e) es))"

definition StringEdit_normalizeEOL :: "string_edit \<Rightarrow> js_string \<Rightarrow> string_edit result" where
  "StringEdit_normalizeEOL this eol =
     mk_Edit string_ops (map (\<lambda>e. StringReplacement_normalizeEOL e eol) this)"

definition StringEdit_normalizeOnSource :: "string_edit \<Rightarrow> js_string \<Rightarrow> string_edit result" where
  "StringEdit_normalizeOnSource this source =
     bind_result (OffsetRange_ofLength (int (length source)))
       (\<lambda>rg. bind_result
          (StringReplacement_removeCommonSuffixAndPrefix
             (StringReplacement_replace rg (StringEdit_apply this source)) source)
          (\<lambda>e. if BaseReplacement_isEmpty string_ops e then Inr [] else StringReplacement_toEdit e))"

definition StringEdit_removeCommonSuffixAndPrefix :: "string_edit \<Rightarrow> js_string \<Rightarrow> string_edit result" where
  "StringEdit_removeCommonSuffixAndPrefix this source =
     bind_result (map_result (\<lambda>e. StringReplacement_removeCommonSuffixAndPrefix e source) this)
       (\<lambda>es. bind_result (mk_Edit string_ops es) (BaseEdit_normalize string_ops))"

text \<open>
  \<open>composeSequentialReplacements\<close>: the state of the loop is \<open>edit\<close> and
  \<open>curEditReplacements\<close>.
\<close>

fun composeSequential_loop ::
    "string_replacement list \<Rightarrow> string_edit \<Rightarrow> string_replacement list \<Rightarrow> string_edit result" where
  "composeSequential_loop [] edit cur =
     bind_result (mk_Edit string_ops (rev cur)) (BaseEdit_compose string_ops edit)"
| "composeSequential_loop (r # rs) edit cur =
     (if cur = [] \<or> OffsetRange_isBefore (sr_range r) (sr_range (last cur))
      then composeSequential_loop rs edit (cur @ [r])
      else bind_result (mk_Edit string_ops (rev cur))
             (\<lambda>c. bind_result (BaseEdit_compose string_ops edit c)
                (\<lambda>edit'. composeSequential_loop rs edit' [r])))"

definition composeSequentialReplacements :: "string_replacement list \<Rightarrow> string_edit result" where
  "composeSequentialReplacements replacements = composeSequential_loop replacements [] []"

subsection \<open>The contract of replacements\<close>

lemma string_ops_simps [simp]:
  "replaceRange string_ops = sr_range"
  "getNewLength string_ops r = int (length (newText r))"
  "slice_repl string_ops = StringReplacement_slice"
  "tryJoinTouching string_ops = StringReplacement_tryJoinTouching"
  by (simp_all add: string_ops_def StringReplacement_getNewLength_def)

lemma OffsetRange_substring_seg:
  "start r \<le> endExclusive r \<Longrightarrow> endExclusive r \<le> int (length s) \<Longrightarrow>
     OffsetRange_substring r s = seg s (start r) (endExclusive r)"
  by (simp add: OffsetRange_substring_def js_substring_in_range seg_def)

lemma OffsetRange_joinRightTouching_eq:
  assumes "start l \<le> endExclusive l" and "start r \<le> endExclusive r"
  shows "OffsetRange_joinRightTouching l r =
    (if endExclusive l \<noteq> start r then Inl BugIndicatingError
     else Inr (OffsetRange (start l) (endExclusive r)))"
  using assms by (simp add: OffsetRange_joinRightTouching_def)

lemma OffsetRange_joinRightTouching_Inr:
  "OffsetRange_joinRightTouching l r = Inr j \<Longrightarrow> j = OffsetRange (start l) (endExclusive r)"
  by (auto simp: OffsetRange_joinRightTouching_def mk_OffsetRange_def split: if_splits)

interpretation string: replacement string_ops newText "\<lambda>_. True"
proof
  fix r :: string_replacement and rg sub :: offset_range
  assume "0 \<le> start sub" "start sub \<le> endExclusive sub" "endExclusive sub \<le> getNewLength string_ops r"
  then show "newText (slice_repl string_ops r rg sub) =
      seg (newText r) (start sub) (endExclusive sub) \<and> True"
    by (simp add: StringReplacement_slice_def OffsetRange_substring_seg)
next
  fix l r :: string_replacement
  assume "valid_offset_range (replaceRange string_ops l)" "valid_offset_range (replaceRange string_ops r)"
    "endExclusive (replaceRange string_ops l) = start (replaceRange string_ops r)"
  then show "\<exists>j. tryJoinTouching string_ops l r = Inr j"
    by (simp add: StringReplacement_tryJoinTouching_def valid_offset_range_def
        OffsetRange_joinRightTouching_eq)
next
  fix l r j :: string_replacement
  assume "tryJoinTouching string_ops l r = Inr (Some j)"
  then show "replaceRange string_ops j =
      OffsetRange (start (replaceRange string_ops l)) (endExclusive (replaceRange string_ops r)) \<and>
      newText j = newText l @ newText r \<and> True"
    by (auto simp: StringReplacement_tryJoinTouching_def bind_result_Inr_iff
        dest: OffsetRange_joinRightTouching_Inr)
qed (simp_all add: StringReplacement_slice_def)

text \<open>The edits that the constructor accepts and that lie within a text of the given length.\<close>

definition string_edit_fits :: "string_edit \<Rightarrow> int \<Rightarrow> bool" where
  "string_edit_fits es n \<longleftrightarrow> chain sr_range 0 es n"

lemma string_fits [simp]: "string.fits es n \<longleftrightarrow> string_edit_fits es n"
  by (simp add: string.fits_def string_edit_fits_def)

lemma StringEdit_apply_loop_eq:
  "chain sr_range pos es (int (length base)) \<Longrightarrow>
     StringEdit_apply_loop es pos base = apply_edits sr_range newText pos es base"
proof (induction es arbitrary: pos)
  case Nil
  then show ?case by (simp add: apply_edits_def js_substring_from_in_range)
next
  case (Cons e es)
  then have "start (sr_range e) \<le> int (length base)"
    using chain_end_pos [of sr_range "endExclusive (sr_range e)" es "int (length base)"] by simp
  with Cons show ?case by (simp add: apply_edits_Cons js_substring_in_range seg_def)
qed

lemma StringEdit_apply_Nil [simp]: "StringEdit_apply [] s = s"
  by (simp add: StringEdit_apply_def js_substring_from_def clamp_index_def)

lemma StringEdit_apply_eq:
  "string_edit_fits es (int (length base)) \<Longrightarrow>
     StringEdit_apply es base = apply_edits sr_range newText 0 es base"
  by (simp add: StringEdit_apply_def StringEdit_apply_loop_eq string_edit_fits_def)

subsection \<open>Composition and inverse\<close>

lemma string_edit_fits_apply [simp]:
  "string_edit_fits es (int (length s)) \<Longrightarrow>
     apply_edits sr_range newText 0 es s = StringEdit_apply es s"
  by (simp add: StringEdit_apply_eq)

lemma StringEdit_compose_pair:
  assumes "string_edit_fits e1 (int (length s))"
    and "string_edit_fits e2 (int (length (StringEdit_apply e1 s)))"
  shows "\<exists>e. BaseEdit_compose string_ops e1 e2 = Inr e \<and> string_edit_fits e (int (length s)) \<and>
    StringEdit_apply e s = StringEdit_apply e2 (StringEdit_apply e1 s)"
  using string.compose_correct [of e1 s e2] assms
  by (metis string_edit_fits_apply string_fits string_ops_simps(1))

lemma StringEdit_normalize_fits:
  assumes "string_edit_fits es (int (length s))"
  shows "\<exists>e. BaseEdit_normalize string_ops es = Inr e \<and> string_edit_fits e (int (length s)) \<and>
    StringEdit_apply e s = StringEdit_apply es s"
  using string.normalize_correct [of es "int (length s)"] assms
  by (metis string_edit_fits_apply string_fits string_ops_simps(1))

text \<open>Edits that are applied one behind the other.\<close>

fun edits_fit :: "string_edit list \<Rightarrow> js_string \<Rightarrow> bool" where
  "edits_fit [] s \<longleftrightarrow> True"
| "edits_fit (e # es) s \<longleftrightarrow>
     string_edit_fits e (int (length s)) \<and> edits_fit es (StringEdit_apply e s)"

lemma foldl_compose_correct:
  assumes "string_edit_fits e (int (length s))" and "edits_fit es (StringEdit_apply e s)"
  shows "\<exists>r. foldl (\<lambda>acc x. bind_result acc (\<lambda>r. BaseEdit_compose string_ops r x)) (Inr e) es = Inr r \<and>
    string_edit_fits r (int (length s)) \<and>
    StringEdit_apply r s = foldl (\<lambda>t e. StringEdit_apply e t) (StringEdit_apply e s) es"
  using assms
proof (induction es arbitrary: e)
  case (Cons e2 es)
  then obtain r where "BaseEdit_compose string_ops e e2 = Inr r" "string_edit_fits r (int (length s))"
    "StringEdit_apply r s = StringEdit_apply e2 (StringEdit_apply e s)"
    using StringEdit_compose_pair by force
  with Cons.IH [of r] Cons.prems show ?case by simp
qed simp

lemma inverseOnSlice_loop_inverse_of:
  assumes "chain sr_range a es (int (length s))" and "0 \<le> a"
  shows "\<exists>es'. inverseOnSlice_loop es (\<lambda>x y. js_substring s x y) d = Inr es' \<and>
    inverse_of string_ops newText s d es es'"
  using assms
proof (induction es arbitrary: a d)
  case (Cons e es)
  have "endExclusive (sr_range e) \<le> int (length s)"
    using Cons.prems chain_end_pos [of sr_range "endExclusive (sr_range e)" es "int (length s)"] by simp
  moreover obtain es' where
    "inverseOnSlice_loop es (\<lambda>x y. js_substring s x y)
       (d + (int (length (newText e)) - OffsetRange_length (sr_range e))) = Inr es'"
    "inverse_of string_ops newText s
       (d + (int (length (newText e)) - OffsetRange_length (sr_range e))) es es'"
    using Cons by force
  ultimately show ?case
    using Cons.prems
    by (simp add: OffsetRange_ofStartAndLength_def StringReplacement_replace_def
        js_substring_in_range seg_def)
qed simp

lemma StringEdit_inverse_ok:
  assumes "string_edit_fits es (int (length s))"
  shows "\<exists>inv. StringEdit_inverse es s = Inr inv \<and>
    string_edit_fits inv (int (length (StringEdit_apply es s))) \<and>
    StringEdit_apply inv (StringEdit_apply es s) = s"
proof -
  obtain inv where inv: "inverseOnSlice_loop es (\<lambda>x y. js_substring s x y) 0 = Inr inv"
    "inverse_of string_ops newText s 0 es inv"
    using inverseOnSlice_loop_inverse_of [of 0 es s 0] assms by (auto simp: string_edit_fits_def)
  note ok = string.inverse_apply [of es s inv, simplified, OF assms inv(2)]
  with assms have fits: "string_edit_fits inv (int (length (StringEdit_apply es s)))" by simp
  with ok assms string.mk_Edit_fits [of inv] inv(1) show ?thesis
    by (simp add: StringEdit_inverse_def StringEdit_inverseOnSlice_def)
qed

subsection \<open>Rebase\<close>

text \<open>
  The order in which \<open>_tryRebase\<close> visits the replacements of the two edits, without those of
  ours that are in conflict; the flag marks the ones of the base. \<open>rebase_free\<close>: no conflict is
  met on the way.
\<close>

definition ours_first :: "offset_range \<Rightarrow> offset_range \<Rightarrow> bool" where
  "ours_first ours base \<longleftrightarrow>
     start ours < start base \<or> (OffsetRange_isEmpty ours \<and> start ours = start base)"

fun rebase_merge :: "string_edit \<Rightarrow> string_edit \<Rightarrow> (string_replacement \<times> bool) list" where
  "rebase_merge [] base = map (\<lambda>b. (b, True)) base"
| "rebase_merge (r # ours) [] = (r, False) # rebase_merge ours []"
| "rebase_merge (r # ours) (b # base) =
     (if rebase_conflict (sr_range r) (sr_range b) then rebase_merge ours (b # base)
      else if ours_first (sr_range r) (sr_range b) then (r, False) # rebase_merge ours (b # base)
      else (b, True) # rebase_merge (r # ours) base)"

fun rebase_free :: "string_edit \<Rightarrow> string_edit \<Rightarrow> bool" where
  "rebase_free [] base \<longleftrightarrow> True"
| "rebase_free (r # ours) [] \<longleftrightarrow> True"
| "rebase_free (r # ours) (b # base) \<longleftrightarrow>
     \<not> rebase_conflict (sr_range r) (sr_range b) \<and>
     (if ours_first (sr_range r) (sr_range b) then rebase_free ours (b # base)
      else rebase_free (r # ours) base)"

lemmas conflict_defs = rebase_conflict_def ours_first_def areConcurrentInserts_def
  isInsertStrictlyInsideRange_def OffsetRange_intersects_def OffsetRange_isEmpty_def Let_def

lemma rebase_conflict_sym: "rebase_conflict a b \<longleftrightarrow> rebase_conflict b a"
  by (auto simp: conflict_defs max.commute min.commute)

lemma rebase_conflict_iff:
  assumes "start a \<le> endExclusive a" "start b \<le> endExclusive b"
  shows "rebase_conflict a b \<longleftrightarrow>
    \<not> (endExclusive a \<le> start b \<or> endExclusive b \<le> start a) \<or>
    (start a = endExclusive a \<and> start b = endExclusive b \<and> start a = start b)"
proof -
  have "max x y < min u v \<longleftrightarrow> x < u \<and> x < v \<and> y < u \<and> y < v" for x y u v :: int by auto
  then show ?thesis using assms unfolding conflict_defs by presburger
qed

lemma ours_first_before:
  assumes "\<not> rebase_conflict a b" "start a \<le> endExclusive a" "start b \<le> endExclusive b"
  shows "ours_first a b \<Longrightarrow> endExclusive a \<le> start b"
    and "\<not> ours_first a b \<Longrightarrow> endExclusive b \<le> start a"
    and "ours_first b a \<longleftrightarrow> \<not> ours_first a b"
  using assms(1) unfolding rebase_conflict_iff [OF assms(2,3)] ours_first_def OffsetRange_isEmpty_def
  using assms(2,3) by presburger+

lemma shift_string: "shift_repl string_ops d r =
    StringReplacement (OffsetRange (start (sr_range r) + d) (endExclusive (sr_range r) + d)) (newText r)"
  by (simp add: shift_repl_def StringReplacement_slice_def OffsetRange_substring_seg seg_def)

lemma unflagged_base: "unflagged string_ops d (map (\<lambda>b. (b, True)) base) = []"
  by (induction base arbitrary: d) simp_all

lemma rebase_free_Nil [simp]: "rebase_free es []"
  by (cases es) simp_all

lemma tryRebase_loop_eq:
  assumes "\<forall>r\<in>set ours. valid_offset_range (sr_range r)"
  shows "tryRebase_loop noOverlap ours base d acc =
    (if noOverlap \<and> \<not> rebase_free ours base then Inr None
     else Inr (Some (acc @ unflagged string_ops d (rebase_merge ours base))))"
  using assms
  by (induction noOverlap ours base d acc rule: tryRebase_loop.induct)
    (auto simp: unflagged_base shift_string ours_first_def [symmetric])

lemma flagged_merge: "flagged (rebase_merge ours base) = base"
proof -
  have "flagged (map (\<lambda>b. (b, True)) bs) = bs" for bs :: string_edit
    by (induction bs) (simp_all add: flagged_def)
  then show ?thesis
    by (induction ours base rule: rebase_merge.induct) (simp_all add: flagged_def)
qed

lemma chain_merge:
  assumes "chain sr_range a ours n" and "chain sr_range a base n"
  shows "chain (\<lambda>e. sr_range (fst e)) a (rebase_merge ours base) n"
  using assms
proof (induction ours base arbitrary: a rule: rebase_merge.induct)
  case (1 base)
  then show ?case by (simp add: chain_map)
next
  case (2 r ours)
  have "chain sr_range (endExclusive (sr_range r)) [] n"
    using 2 chain_end_pos [of sr_range "endExclusive (sr_range r)" ours n] by auto
  with 2 show ?case by simp
next
  case (3 r ours b base)
  have valid: "start (sr_range r) \<le> endExclusive (sr_range r)" "start (sr_range b) \<le> endExclusive (sr_range b)"
    using 3 by simp_all
  consider "rebase_conflict (sr_range r) (sr_range b)"
    | "\<not> rebase_conflict (sr_range r) (sr_range b)" "ours_first (sr_range r) (sr_range b)"
    | "\<not> rebase_conflict (sr_range r) (sr_range b)" "\<not> ours_first (sr_range r) (sr_range b)" by blast
  then show ?case
  proof cases
    case 1
    have "chain sr_range a ours n"
      using "3.prems"(1) by (auto intro: chain_weaken [of sr_range "endExclusive (sr_range r)"])
    with 1 "3.IH"(1) "3.prems"(2) show ?thesis by simp
  next
    case 2
    with ours_first_before(1) [OF 2(1) valid] "3.IH"(2) "3.prems" show ?thesis by simp
  next
    case 3
    with ours_first_before(2) [OF 3(1) valid] "3.IH"(3) "3.prems" show ?thesis by simp
  qed
qed

text \<open>The two rebases of a conflict-free pair visit the replacements in the same order.\<close>

lemma rebase_swap:
  assumes "\<forall>r\<in>set ours \<union> set base. valid_offset_range (sr_range r)"
  shows "rebase_free base ours \<longleftrightarrow> rebase_free ours base"
    and "rebase_free ours base \<Longrightarrow> map fst (rebase_merge base ours) = map fst (rebase_merge ours base)"
proof -
  have nil: "rebase_free es []" "map fst (rebase_merge es []) = es" for es
    by (induction es) simp_all
  have "(rebase_free base ours \<longleftrightarrow> rebase_free ours base) \<and>
    (rebase_free ours base \<longrightarrow> map fst (rebase_merge base ours) = map fst (rebase_merge ours base))"
    using assms
  proof (induction ours base rule: rebase_merge.induct)
    case (1 base)
    then show ?case by (simp add: nil comp_def)
  next
    case (2 r ours)
    then show ?case by (simp add: nil comp_def)
  next
    case (3 r ours b base)
    then show ?case
      using ours_first_before(3) [of "sr_range r" "sr_range b"]
        rebase_conflict_sym [of "sr_range r" "sr_range b"]
      by (auto simp: valid_offset_range_def)
  qed
  then show "rebase_free base ours \<longleftrightarrow> rebase_free ours base"
    and "rebase_free ours base \<Longrightarrow> map fst (rebase_merge base ours) = map fst (rebase_merge ours base)"
    by simp_all
qed

lemma string_edit_fits_valid: "string_edit_fits es n \<Longrightarrow> \<forall>e\<in>set es. valid_offset_range (sr_range e)"
  using chain_valid [of sr_range 0 es n] by (auto simp: string_edit_fits_def)

lemma merge_effect:
  assumes "string_edit_fits ours (int (length s))" and "string_edit_fits base (int (length s))"
  defines "out \<equiv> unflagged string_ops 0 (rebase_merge ours base)"
  shows "string_edit_fits out (int (length (StringEdit_apply base s)))"
    and "string_edit_fits (map fst (rebase_merge ours base)) (int (length s))"
    and "StringEdit_apply out (StringEdit_apply base s) =
      StringEdit_apply (map fst (rebase_merge ours base)) s"
proof -
  let ?m = "rebase_merge ours base"
  have m: "chain (\<lambda>e. replaceRange string_ops (fst e)) 0 ?m (int (length s))"
    using assms(1,2) by (simp add: string_edit_fits_def chain_merge)
  then show merged: "string_edit_fits (map fst ?m) (int (length s))"
    by (simp add: string_edit_fits_def chain_map)
  note ok = string.split_apply [OF m, simplified flagged_merge]
  with assms show fits: "string_edit_fits out (int (length (StringEdit_apply base s)))" by simp
  have "StringEdit_apply out (StringEdit_apply base s) =
      apply_edits (\<lambda>e. sr_range (fst e)) (\<lambda>e. newText (fst e)) 0 ?m s"
    using ok(2) assms(2) fits by (simp add: out_def)
  also have "\<dots> = StringEdit_apply (map fst ?m) s"
    using merged by (simp add: StringEdit_apply_eq apply_edits_map)
  finally show "StringEdit_apply out (StringEdit_apply base s) = StringEdit_apply (map fst ?m) s" .
qed

lemma tryRebase_impl_eq:
  fixes s :: js_string
  assumes "string_edit_fits ours (int (length s))" and "string_edit_fits base (int (length s))"
  shows "tryRebase_impl ours base noOverlap =
    (if noOverlap \<and> \<not> rebase_free ours base then Inr None
     else Inr (Some (unflagged string_ops 0 (rebase_merge ours base))))"
  using tryRebase_loop_eq [OF string_edit_fits_valid [OF assms(1)], of noOverlap base 0 "[]"]
    merge_effect(1) [OF assms] string.mk_Edit_fits [of "unflagged string_ops 0 (rebase_merge ours base)"]
  by (simp add: tryRebase_impl_def)

subsection \<open>Removing the common prefix and suffix\<close>

lemma commonPrefixLength_loop_correct:
  assumes "len \<le> length a" and "len \<le> length b" and "i \<le> len" and "take i a = take i b"
  defines "n \<equiv> commonPrefixLength_loop a b len i"
  shows "i \<le> n \<and> n \<le> len \<and> take n a = take n b \<and> (n < len \<longrightarrow> a ! n \<noteq> b ! n)"
  using assms(1-4) unfolding n_def
proof (induction a b len i rule: commonPrefixLength_loop.induct)
  case (1 a b len i)
  show ?case
  proof (cases "i < len \<and> a ! i = b ! i")
    case True
    then have "take (Suc i) a = take (Suc i) b"
      using 1 by (simp add: take_Suc_conv_app_nth)
    with True 1 show ?thesis by (subst (1 2 3 4 5 6 7) commonPrefixLength_loop.simps) simp
  next
    case False
    with 1 show ?thesis by (auto simp: commonPrefixLength_loop.simps [of a b len i])
  qed
qed

lemma commonPrefixLength_correct:
  fixes a b :: "'a list"
  defines "n \<equiv> commonPrefixLength a b"
  shows "n \<le> length a \<and> n \<le> length b \<and> take n a = take n b"
  using commonPrefixLength_loop_correct [of "min (length a) (length b)" a b 0]
  unfolding n_def by (auto simp: commonPrefixLength_def Let_def)

lemma commonSuffixLength_loop_correct:
  assumes "len \<le> length a" and "len \<le> length b" and "i \<le> len"
    and "drop (length a - i) a = drop (length b - i) b"
  defines "n \<equiv> commonSuffixLength_loop a b len i"
  shows "i \<le> n \<and> n \<le> len \<and> drop (length a - n) a = drop (length b - n) b"
  using assms(1-4) unfolding n_def
proof (induction a b len i rule: commonSuffixLength_loop.induct)
  case (1 a b len i)
  show ?case
  proof (cases "i < len \<and> a ! (length a - 1 - i) = b ! (length b - 1 - i)")
    case True
    have step: "drop (length xs - Suc i) xs = xs ! (length xs - 1 - i) # drop (length xs - i) xs"
      if "i < length xs" for xs :: "'a list"
      using that Cons_nth_drop_Suc [of "length xs - Suc i" xs] by (simp add: Suc_diff_Suc)
    have "drop (length a - Suc i) a = drop (length b - Suc i) b"
      using 1 True step [of a] step [of b] by simp
    with True 1 show ?thesis by (subst (1 2 3 4) commonSuffixLength_loop.simps) simp
  next
    case False
    with 1 show ?thesis by (auto simp: commonSuffixLength_loop.simps [of a b len i])
  qed
qed

lemma commonSuffixLength_correct:
  fixes a b :: "'a list"
  defines "n \<equiv> commonSuffixLength a b"
  shows "n \<le> length a \<and> n \<le> length b \<and> drop (length a - n) a = drop (length b - n) b"
  using commonSuffixLength_loop_correct [of "min (length a) (length b)" a b 0]
  unfolding n_def by (auto simp: commonSuffixLength_def Let_def)

text \<open>\<open>trims s r r'\<close>: \<open>r'\<close> is \<open>r\<close> without some data of \<open>s\<close> that it keeps at its two ends.\<close>

definition trims :: "js_string \<Rightarrow> string_replacement \<Rightarrow> string_replacement \<Rightarrow> bool" where
  "trims s r r' \<longleftrightarrow>
     start (sr_range r) \<le> start (sr_range r') \<and>
     start (sr_range r') \<le> endExclusive (sr_range r') \<and>
     endExclusive (sr_range r') \<le> endExclusive (sr_range r) \<and>
     newText r = seg s (start (sr_range r)) (start (sr_range r')) @ newText r' @
       seg s (endExclusive (sr_range r')) (endExclusive (sr_range r))"

lemma trims_refl: "start (sr_range r) \<le> endExclusive (sr_range r) \<Longrightarrow> trims s r r"
  by (simp add: trims_def)

lemma trims_trans:
  assumes "trims s r r'" and "trims s r' r''" and "0 \<le> start (sr_range r)"
  shows "trims s r r''"
  using assms seg_append [of "start (sr_range r)" "start (sr_range r')" "start (sr_range r'')" s]
    seg_append [of "endExclusive (sr_range r'')" "endExclusive (sr_range r')" "endExclusive (sr_range r)" s]
  by (auto simp: trims_def)

lemma trims_apply:
  assumes "list_all2 (trims s) es es'" and "chain sr_range a es n" and "0 \<le> a"
  shows "chain sr_range a es' n \<and>
    apply_edits sr_range newText a es' s = apply_edits sr_range newText a es s"
  using assms
proof (induction es es' arbitrary: a rule: list_all2_induct)
  case (Cons e es e' es')
  let ?x = "start (sr_range e)" and ?x' = "start (sr_range e')"
  let ?y = "endExclusive (sr_range e)" and ?y' = "endExclusive (sr_range e')"
  have le: "a \<le> ?x" "?x \<le> ?x'" "?x' \<le> ?y'" "?y' \<le> ?y" "0 \<le> ?x" "0 \<le> ?y'" "0 \<le> ?y"
    using Cons.prems Cons.hyps(1) by (auto simp: trims_def)
  have IH: "chain sr_range ?y es' n" "apply_edits sr_range newText ?y es' s = apply_edits sr_range newText ?y es s"
    using Cons.IH [of ?y] Cons.prems le by simp_all
  have "chain sr_range ?y' es' n" using IH(1) le chain_weaken by blast
  moreover have "seg s a ?x' = seg s a ?x @ seg s ?x ?x'"
    using seg_append [of a ?x ?x' s] le Cons.prems(2) by simp
  ultimately show ?case
    using Cons.hyps(1) IH le Cons.prems apply_edits_advance [OF le(6,4) IH(1), of newText s]
    by (simp add: apply_edits_Cons trims_def)
qed simp

lemma take_seg: "0 \<le> a \<Longrightarrow> a + int n \<le> b \<Longrightarrow> take n (seg s a b) = seg s a (a + int n)"
proof -
  assume "0 \<le> a" "a + int n \<le> b"
  then have "nat (a + int n) = nat a + n" "n \<le> nat b - nat a" by linarith+
  then show ?thesis by (simp add: seg_def min_absorb1)
qed

lemma removeCommonPrefix_trims:
  assumes "0 \<le> start (sr_range r)" "start (sr_range r) \<le> endExclusive (sr_range r)"
    "endExclusive (sr_range r) \<le> int (length s)"
  shows "\<exists>r'. StringReplacement_removeCommonPrefix r s = Inr r' \<and> trims s r r'"
proof -
  let ?old = "seg s (start (sr_range r)) (endExclusive (sr_range r))"
  let ?n = "commonPrefixLength ?old (newText r)"
  let ?x = "start (sr_range r) + int ?n"
  have old: "OffsetRange_substring (sr_range r) s = ?old"
    using assms by (simp add: OffsetRange_substring_seg)
  have n: "?n \<le> length ?old" "?n \<le> length (newText r)" "take ?n ?old = take ?n (newText r)"
    using commonPrefixLength_correct [of ?old "newText r"] by simp_all
  have x: "?x \<le> endExclusive (sr_range r)"
    using n(1) length_seg [OF assms] by linarith
  have "seg s (start (sr_range r)) ?x = take ?n ?old"
    using assms x by (simp add: take_seg)
  then have "newText r = seg s (start (sr_range r)) ?x @ drop ?n (newText r)"
    using n(3) by (metis append_take_drop_id)
  then have "trims s r (StringReplacement (OffsetRange ?x (endExclusive (sr_range r))) (drop ?n (newText r)))"
    using x by (simp add: trims_def)
  moreover have "StringReplacement_removeCommonPrefix r s = Inr
      (if ?n = 0 then r else StringReplacement (OffsetRange ?x (endExclusive (sr_range r))) (drop ?n (newText r)))"
    using x n(2) by (simp add: StringReplacement_removeCommonPrefix_def old Let_def
        OffsetRange_deltaStart_def StringReplacement_slice_def OffsetRange_substring_seg)
      (simp add: seg_def)
  ultimately show ?thesis using trims_refl [OF assms(2)] by auto
qed

lemma removeCommonSuffix_trims:
  assumes "0 \<le> start (sr_range r)" "start (sr_range r) \<le> endExclusive (sr_range r)"
    "endExclusive (sr_range r) \<le> int (length s)"
  shows "\<exists>r'. StringReplacement_removeCommonSuffix r s = Inr r' \<and> trims s r r'"
proof -
  let ?old = "seg s (start (sr_range r)) (endExclusive (sr_range r))"
  let ?n = "commonSuffixLength ?old (newText r)"
  let ?y = "endExclusive (sr_range r) - int ?n"
  let ?text = "take (length (newText r) - ?n) (newText r)"
  have old: "OffsetRange_substring (sr_range r) s = ?old"
    using assms by (simp add: OffsetRange_substring_seg)
  have n: "?n \<le> length ?old" "?n \<le> length (newText r)"
    "drop (length ?old - ?n) ?old = drop (length (newText r) - ?n) (newText r)"
    using commonSuffixLength_correct [of ?old "newText r"] by simp_all
  have y: "start (sr_range r) \<le> ?y" using n(1) length_seg [OF assms] by linarith
  have "?old = seg s (start (sr_range r)) ?y @ seg s ?y (endExclusive (sr_range r))"
    using seg_append [of "start (sr_range r)" ?y "endExclusive (sr_range r)" s] y assms by simp
  moreover have "length (seg s (start (sr_range r)) ?y) = length ?old - ?n"
    using length_seg [of "start (sr_range r)" ?y s] length_seg [OF assms] y assms n(1) by linarith
  ultimately have "seg s ?y (endExclusive (sr_range r)) = drop (length ?old - ?n) ?old"
    by (metis append_eq_conv_conj)
  then have "newText r = ?text @ seg s ?y (endExclusive (sr_range r))"
    using n(3) by (metis append_take_drop_id)
  then have "trims s r (StringReplacement (OffsetRange (start (sr_range r)) ?y) ?text)"
    using y by (simp add: trims_def)
  moreover have "StringReplacement_removeCommonSuffix r s = Inr
      (if ?n = 0 then r else StringReplacement (OffsetRange (start (sr_range r)) ?y) ?text)"
    using y n(2) by (simp add: StringReplacement_removeCommonSuffix_def old Let_def
        OffsetRange_deltaEnd_def StringReplacement_slice_def OffsetRange_substring_seg)
      (simp add: seg_def of_nat_diff nat_diff_distrib)
  ultimately show ?thesis using trims_refl [OF assms(2)] by auto
qed

lemma removeCommonSuffixAndPrefix_trims:
  assumes "0 \<le> start (sr_range r)" "start (sr_range r) \<le> endExclusive (sr_range r)"
    "endExclusive (sr_range r) \<le> int (length s)"
  shows "\<exists>r'. StringReplacement_removeCommonSuffixAndPrefix r s = Inr r' \<and> trims s r r'"
proof -
  obtain r1 where r1: "StringReplacement_removeCommonSuffix r s = Inr r1" "trims s r r1"
    using removeCommonSuffix_trims [OF assms] by blast
  moreover obtain r2 where "StringReplacement_removeCommonPrefix r1 s = Inr r2" "trims s r1 r2"
    using removeCommonPrefix_trims [of r1 s] r1(2) assms by (auto simp: trims_def)
  ultimately show ?thesis
    using trims_trans assms(1) by (auto simp: StringReplacement_removeCommonSuffixAndPrefix_def)
qed

lemma drop_suffix_le:
  assumes "n \<le> m" and "m \<le> length a \<and> m \<le> length b \<and> drop (length a - m) a = drop (length b - m) b"
  shows "drop (length a - n) a = drop (length b - n) b"
proof -
  have "drop (length x - n) x = drop (m - n) (drop (length x - m) x)" if "m \<le> length x" for x :: "'a list"
    using assms(1) that by simp
  with assms show ?thesis by metis
qed

lemma removeCommonSuffixPrefix_trims:
  assumes "0 \<le> start (sr_range r)" "start (sr_range r) \<le> endExclusive (sr_range r)"
    "endExclusive (sr_range r) \<le> int (length s)"
  shows "\<exists>r'. StringReplacement_removeCommonSuffixPrefix r s = Inr r' \<and> trims s r r'"
proof -
  let ?x = "start (sr_range r)" and ?y = "endExclusive (sr_range r)" and ?new = "newText r"
  define old where "old = seg s ?x ?y"
  define p where "p = commonPrefixLength old ?new"
  define q where "q = min (min (length old - p) (length ?new - p)) (commonSuffixLength old ?new)"
  have len: "int (length old) = ?y - ?x" using length_seg [OF assms] by (simp add: old_def)
  have p: "p \<le> length old" "p \<le> length ?new" "take p old = take p ?new"
    using commonPrefixLength_correct [of old ?new] by (simp_all add: p_def)
  have suf: "drop (length old - n) old = drop (length ?new - n) ?new"
    if "n \<le> commonSuffixLength old ?new" for n
    using that commonSuffixLength_correct [of old ?new] by (blast intro: drop_suffix_le)
  have q: "q \<le> length old - p" "q \<le> length ?new - p" "q \<le> commonSuffixLength old ?new"
    by (simp_all add: q_def)
  have ends: "?x + int p \<le> ?y - int q" using p(1) q(1) len by linarith
  have "seg s (?y - int q) ?y = drop (length old - q) old"
  proof -
    have "old = seg s ?x (?y - int q) @ seg s (?y - int q) ?y"
      using seg_append [of ?x "?y - int q" ?y s] ends assms by (simp add: old_def)
    moreover have "length (seg s ?x (?y - int q)) = length old - q"
      using length_seg [of ?x "?y - int q" s] len ends assms p(1) q(1) by linarith
    ultimately show ?thesis by (metis append_eq_conv_conj)
  qed
  moreover have "seg s ?x (?x + int p) = take p old"
    using take_seg [of ?x p ?y s] assms ends q by (simp add: old_def)
  moreover have "?new = take p ?new @ seg ?new (int p) (int (length ?new) - int q) @ drop (length ?new - q) ?new"
    using seg_drop [of "int p" "int (length ?new) - int q" ?new] p(2) q(2)
    by (simp add: of_nat_diff nat_diff_distrib)
  ultimately have "trims s r (StringReplacement (OffsetRange (?x + int p) (?y - int q))
      (seg ?new (int p) (int (length ?new) - int q)))"
    using ends p(3) suf [OF q(3)] by (simp add: trims_def)
  moreover have "js_substring s ?x ?y = old"
    using assms by (simp add: js_substring_in_range old_def seg_def)
  moreover have "int q = min (min (int (length old) - int p) (int (length ?new) - int p))
      (int (commonSuffixLength old ?new))"
    using p by (simp add: q_def of_nat_min of_nat_diff)
  moreover have "js_substring ?new (int p) (int (length ?new) - int q) =
      seg ?new (int p) (int (length ?new) - int q)"
    using p(2) q(2) by (simp add: js_substring_in_range seg_def)
  ultimately show ?thesis
    using ends by (simp add: StringReplacement_removeCommonSuffixPrefix_def p_def [symmetric] Let_def)
qed

lemma trims_map_result:
  assumes "chain sr_range a es (int (length s))" and "0 \<le> a"
    and "\<And>r. 0 \<le> start (sr_range r) \<Longrightarrow> start (sr_range r) \<le> endExclusive (sr_range r) \<Longrightarrow>
      endExclusive (sr_range r) \<le> int (length s) \<Longrightarrow> \<exists>r'. f r = Inr r' \<and> trims s r r'"
  shows "\<exists>es'. map_result f es = Inr es' \<and> list_all2 (trims s) es es'"
  using assms(1,2)
proof (induction es arbitrary: a)
  case (Cons e es)
  have "endExclusive (sr_range e) \<le> int (length s)"
    using Cons.prems chain_end_pos [of sr_range "endExclusive (sr_range e)" es "int (length s)"] by simp
  with assms(3) [of e] Cons.prems obtain e' where "f e = Inr e'" "trims s e e'" by auto
  with Cons show ?case by fastforce
qed simp

lemma filter_empty_apply:
  assumes "chain sr_range a es n" and "0 \<le> a"
  defines "fs \<equiv> filter (\<lambda>e. \<not> BaseReplacement_isEmpty string_ops e) es"
  shows "chain sr_range a fs n \<and> apply_edits sr_range newText a fs s = apply_edits sr_range newText a es s"
  using assms(1,2) unfolding fs_def
proof (induction es arbitrary: a)
  case (Cons e es)
  let ?fs = "filter (\<lambda>e. \<not> BaseReplacement_isEmpty string_ops e) es"
  let ?y = "endExclusive (sr_range e)"
  have IH: "chain sr_range ?y ?fs n" "apply_edits sr_range newText ?y ?fs s = apply_edits sr_range newText ?y es s"
    using Cons by simp_all
  show ?case
  proof (cases "BaseReplacement_isEmpty string_ops e")
    case True
    then have "newText e = []" "?y = start (sr_range e)"
      by (simp_all add: BaseReplacement_isEmpty_def OffsetRange_length_def)
    moreover have "a \<le> ?y" using Cons.prems by simp
    ultimately show ?thesis
      using True IH apply_edits_advance [of a ?y sr_range ?fs n newText s] Cons.prems
        chain_weaken [OF IH(1), of a n]
      by (simp add: apply_edits_Cons)
  qed (use IH Cons.prems in \<open>simp add: apply_edits_Cons\<close>)
qed simp

lemma StringEdit_removeCommonSuffixPrefix_ok:
  assumes "string_edit_fits es (int (length s))"
  shows "\<exists>e. StringEdit_removeCommonSuffixPrefix es s = Inr e \<and>
    string_edit_fits e (int (length s)) \<and> StringEdit_apply e s = StringEdit_apply es s"
proof -
  obtain es' where es': "map_result (\<lambda>e. StringReplacement_removeCommonSuffixPrefix e s) es = Inr es'"
    "list_all2 (trims s) es es'"
    using trims_map_result [OF assms [unfolded string_edit_fits_def] order_refl removeCommonSuffixPrefix_trims] by blast
  note t = trims_apply [OF es'(2) assms [unfolded string_edit_fits_def] order_refl]
  note f = filter_empty_apply [OF t [THEN conjunct1] order_refl, of s]
  let ?fs = "filter (\<lambda>e. \<not> BaseReplacement_isEmpty string_ops e) es'"
  have fits: "string_edit_fits ?fs (int (length s))" using f by (simp add: string_edit_fits_def)
  with es' f t assms string.mk_Edit_fits [of ?fs] show ?thesis
    by (simp add: StringEdit_removeCommonSuffixPrefix_def)
qed

lemma StringEdit_removeCommonSuffixAndPrefix_ok:
  assumes "string_edit_fits es (int (length s))"
  shows "\<exists>e. StringEdit_removeCommonSuffixAndPrefix es s = Inr e \<and>
    string_edit_fits e (int (length s)) \<and> StringEdit_apply e s = StringEdit_apply es s"
proof -
  obtain es' where es': "map_result (\<lambda>e. StringReplacement_removeCommonSuffixAndPrefix e s) es = Inr es'"
    "list_all2 (trims s) es es'"
    using trims_map_result [OF assms [unfolded string_edit_fits_def] order_refl removeCommonSuffixAndPrefix_trims] by blast
  note t = trims_apply [OF es'(2) assms [unfolded string_edit_fits_def] order_refl]
  have fits: "string_edit_fits es' (int (length s))" using t by (simp add: string_edit_fits_def)
  with StringEdit_normalize_fits [OF fits] es' t assms string.mk_Edit_fits [of es'] show ?thesis
    by (simp add: StringEdit_removeCommonSuffixAndPrefix_def)
qed

lemma StringEdit_normalizeOnSource_ok:
  assumes "string_edit_fits es (int (length s))"
  shows "\<exists>e. StringEdit_normalizeOnSource es s = Inr e \<and> length e \<le> 1 \<and>
    string_edit_fits e (int (length s)) \<and> StringEdit_apply e s = StringEdit_apply es s"
proof -
  let ?r = "StringReplacement (OffsetRange 0 (int (length s))) (StringEdit_apply es s)"
  obtain r where r: "StringReplacement_removeCommonSuffixAndPrefix ?r s = Inr r" "trims s ?r r"
    using removeCommonSuffixAndPrefix_trims [of ?r s] by auto
  have "chain sr_range 0 [?r] (int (length s))" by simp
  from trims_apply [of s "[?r]" "[r]", OF _ this order_refl] r(2)
  have chain: "chain sr_range 0 [r] (int (length s))"
    and eff: "apply_edits sr_range newText 0 [r] s = StringEdit_apply es s"
    by (simp_all add: apply_edits_def seg_def)
  define e where "e = filter (\<lambda>e. \<not> BaseReplacement_isEmpty string_ops e) [r]"
  note f = filter_empty_apply [OF chain order_refl, of s, folded e_def]
  have fits: "string_edit_fits e (int (length s))" using f by (simp add: string_edit_fits_def)
  moreover have "StringEdit_normalizeOnSource es s = Inr e"
    using r(1) string.mk_Edit_fits [of e] fits
    by (auto simp: StringEdit_normalizeOnSource_def OffsetRange_ofLength_def
        StringReplacement_replace_def StringReplacement_toEdit_def e_def)
  moreover have "length e \<le> 1" by (simp add: e_def)
  ultimately show ?thesis using f eff by simp
qed

subsection \<open>Sequential replacements\<close>

lemma apply_before:
  assumes "0 \<le> start (sr_range r)" and "start (sr_range r) \<le> endExclusive (sr_range r)"
    and "chain sr_range (endExclusive (sr_range r)) q (int (length s))"
  defines "t \<equiv> apply_edits sr_range newText 0 q s"
  shows "endExclusive (sr_range r) \<le> int (length t)"
    and "apply_edits sr_range newText 0 [r] t = apply_edits sr_range newText 0 (r # q) s"
proof -
  let ?x = "start (sr_range r)" and ?y = "endExclusive (sr_range r)"
  have y: "?y \<le> int (length s)" "0 \<le> ?y" using chain_end_pos [OF assms(3)] assms(1,2) by linarith+
  have t: "t = seg s 0 ?y @ apply_edits sr_range newText ?y q s"
    using apply_edits_advance [OF order_refl y(2) assms(3), of newText s] by (simp add: t_def)
  have n: "length (seg s 0 ?y) = nat ?y" using length_seg [of 0 ?y s] y by linarith
  then show "?y \<le> int (length t)" using t by simp
  have "seg t 0 ?x = seg s 0 ?x"
    using t n assms(1,2) y by (simp add: seg_def min_absorb1 nat_mono)
  moreover have "drop (nat ?y) t = apply_edits sr_range newText ?y q s" using t n by simp
  ultimately show "apply_edits sr_range newText 0 [r] t = apply_edits sr_range newText 0 (r # q) s"
    by (simp add: apply_edits_def)
qed

text \<open>Replacements applied one behind the other, each to the result of the ones before it.\<close>

abbreviation apply_sequentially :: "string_replacement list \<Rightarrow> js_string \<Rightarrow> js_string" where
  "apply_sequentially rs s \<equiv> foldl (\<lambda>t e. StringEdit_apply e t) s (map (\<lambda>r. [r]) rs)"

lemma composeSequential_loop_correct:
  assumes "string_edit_fits edit (int (length s))"
    and "string_edit_fits (rev cur) (int (length (StringEdit_apply edit s)))"
    and "edits_fit (map (\<lambda>r. [r]) rs) (StringEdit_apply (rev cur) (StringEdit_apply edit s))"
  shows "\<exists>e. composeSequential_loop rs edit cur = Inr e \<and> string_edit_fits e (int (length s)) \<and>
    StringEdit_apply e s =
      apply_sequentially rs (StringEdit_apply (rev cur) (StringEdit_apply edit s))"
  using assms
proof (induction rs arbitrary: edit cur)
  case Nil
  then show ?case
    using StringEdit_compose_pair [OF Nil(1,2)] string.mk_Edit_fits [of "rev cur"] by simp
next
  case (Cons r rs)
  let ?s1 = "StringEdit_apply edit s"
  let ?s2 = "StringEdit_apply (rev cur) ?s1"
  have r: "string_edit_fits [r] (int (length ?s2))" using Cons.prems(3) by simp
  show ?case
  proof (cases "cur = [] \<or> OffsetRange_isBefore (sr_range r) (sr_range (last cur))")
    case True
    have rch: "0 \<le> start (sr_range r)" "start (sr_range r) \<le> endExclusive (sr_range r)"
      using r by (simp_all add: string_edit_fits_def)
    have ch: "chain sr_range (endExclusive (sr_range r)) (rev cur) (int (length ?s1))"
      using True Cons.prems(2) r
      by (cases cur rule: rev_cases)
        (auto simp: string_edit_fits_def OffsetRange_isBefore_def apply_edits_def)
    have fits: "string_edit_fits (r # rev cur) (int (length ?s1))"
      using rch ch by (simp add: string_edit_fits_def)
    have "StringEdit_apply [r] ?s2 = StringEdit_apply (r # rev cur) ?s1"
      using apply_before(2) [OF rch ch] Cons.prems(2) r fits by simp
    with Cons.IH [OF Cons.prems(1), of "cur @ [r]"] fits Cons.prems(3) True show ?thesis by simp
  next
    case False
    obtain e where e: "BaseEdit_compose string_ops edit (rev cur) = Inr e"
      "string_edit_fits e (int (length s))" "StringEdit_apply e s = ?s2"
      using StringEdit_compose_pair [OF Cons.prems(1,2)] by blast
    with Cons.IH [OF e(2), of "[r]"] r Cons.prems False string.mk_Edit_fits [of "rev cur"]
    show ?thesis by simp
  qed
qed

subsection \<open>Serialization and neutral edits\<close>

lemma StringReplacement_json: "valid_offset_range (sr_range r) \<Longrightarrow>
    StringReplacement_fromJson (StringReplacement_toJson r) = Inr r"
  by (simp add: StringReplacement_fromJson_def StringReplacement_toJson_def valid_offset_range_def
      OffsetRange_ofStartAndLength_def OffsetRange_length_def)

lemma neutral_apply:
  assumes "chain sr_range a es (int (length s))" and "0 \<le> a" and "StringEdit_isNeutralOn es s"
  shows "apply_edits sr_range newText a es s = drop (nat a) s"
  using assms
proof (induction es arbitrary: a)
  case (Cons e es)
  have "endExclusive (sr_range e) \<le> int (length s)"
    using Cons.prems chain_end_pos [of sr_range "endExclusive (sr_range e)" es "int (length s)"] by simp
  then have "newText e = seg s (start (sr_range e)) (endExclusive (sr_range e))"
    using Cons.prems by (simp add: StringEdit_isNeutralOn_def StringReplacement_isNeutralOn_def
        js_substring_in_range seg_def)
  with Cons show ?case
    by (simp add: apply_edits_Cons StringEdit_isNeutralOn_def seg_drop)
qed (simp add: apply_edits_def)

subsection \<open>What skipping the conflicts keeps\<close>

abbreviation conflicts_with :: "string_edit \<Rightarrow> string_replacement \<Rightarrow> bool" where
  "conflicts_with base r \<equiv> \<exists>b\<in>set base. rebase_conflict (sr_range r) (sr_range b)"

lemma chain_above: "chain rg a es n \<Longrightarrow> e \<in> set es \<Longrightarrow> a \<le> start (rg e) \<and> start (rg e) \<le> endExclusive (rg e)"
  by (induction es arbitrary: a) fastforce+

lemma chain_filter: "chain rg a es n \<Longrightarrow> chain rg a (filter p es) n"
proof (induction es arbitrary: a)
  case (Cons e es)
  then show ?case
    using chain_weaken [of rg "endExclusive (rg e)" "filter p es" n a n] by auto
qed simp

lemma rebase_behind:
  assumes "\<forall>r\<in>set ours. \<not> rebase_conflict (sr_range r) (sr_range b) \<and> \<not> ours_first (sr_range r) (sr_range b)"
  shows "rebase_merge ours (b # base) = (b, True) # rebase_merge ours base"
    and "rebase_free ours (b # base) = rebase_free ours base"
  using assms by (cases ours; simp)+

lemma rebase_kept:
  assumes "chain sr_range a ours n" and "chain sr_range c base n"
  shows "rebase_free (filter (\<lambda>r. \<not> conflicts_with base r) ours) base \<and>
    rebase_merge (filter (\<lambda>r. \<not> conflicts_with base r) ours) base = rebase_merge ours base"
  using assms
proof (induction ours base arbitrary: a c rule: rebase_merge.induct)
  case (2 r ours)
  then show ?case by auto
next
  case (3 r ours b base)
  have valid: "start (sr_range r) \<le> endExclusive (sr_range r)" "start (sr_range b) \<le> endExclusive (sr_range b)"
    using "3.prems" by simp_all
  consider "rebase_conflict (sr_range r) (sr_range b)"
    | "\<not> rebase_conflict (sr_range r) (sr_range b)" "ours_first (sr_range r) (sr_range b)"
    | "\<not> rebase_conflict (sr_range r) (sr_range b)" "\<not> ours_first (sr_range r) (sr_range b)" by blast
  then show ?case
  proof cases
    case 1
    with "3.IH"(1) "3.prems" show ?thesis by auto
  next
    case 2
    have "\<not> rebase_conflict (sr_range r) (sr_range b')" if "b' \<in> set base" for b'
    proof -
      have "endExclusive (sr_range b) \<le> start (sr_range b')" "start (sr_range b') \<le> endExclusive (sr_range b')"
        using chain_above [of sr_range "endExclusive (sr_range b)" base n b'] that "3.prems"(2) by simp_all
      then show ?thesis
        using ours_first_before(1) [OF 2(1) valid 2(2)] 2 valid
        unfolding rebase_conflict_iff [OF valid(1) \<open>start (sr_range b') \<le> endExclusive (sr_range b')\<close>]
          rebase_conflict_iff [OF valid] by presburger
    qed
    with 2 "3.IH"(2) "3.prems" show ?thesis by auto
  next
    case 3
    have behind: "\<not> rebase_conflict (sr_range r') (sr_range b) \<and> \<not> ours_first (sr_range r') (sr_range b)"
      if "r' \<in> set (r # ours)" for r'
    proof (cases "r' = r")
      case False
      then have r': "endExclusive (sr_range r) \<le> start (sr_range r')" "start (sr_range r') \<le> endExclusive (sr_range r')"
        using chain_above [of sr_range "endExclusive (sr_range r)" ours n r'] that "3.prems"(1) by simp_all
      then show ?thesis
        using ours_first_before(2) [OF 3(1) valid 3(2)] 3(2) valid
        unfolding rebase_conflict_iff [OF r'(2) valid(2)] ours_first_def OffsetRange_isEmpty_def by presburger
    qed (use 3 in simp)
    define kept where "kept = filter (\<lambda>r. \<not> conflicts_with base r) (r # ours)"
    have eq: "filter (\<lambda>r. \<not> conflicts_with (b # base) r) (r # ours) = kept"
      unfolding kept_def using behind by (intro filter_cong) auto
    have "chain sr_range (endExclusive (sr_range b)) base n" using "3.prems"(2) by simp
    from "3.IH"(3) [OF 3 "3.prems"(1) this]
    have "rebase_free kept base \<and> rebase_merge kept base = rebase_merge (r # ours) base"
      unfolding kept_def .
    moreover have "\<forall>r\<in>set kept. \<not> rebase_conflict (sr_range r) (sr_range b) \<and> \<not> ours_first (sr_range r) (sr_range b)"
      using behind unfolding kept_def by auto
    ultimately show ?thesis unfolding eq using 3 by (simp add: rebase_behind)
  qed
qed simp

subsection \<open>Normal forms\<close>

text \<open>The edits \<open>normalize\<close> produces: no replacement is empty, and no two of them touch.\<close>

definition canonical_edit :: "string_edit \<Rightarrow> bool" where
  "canonical_edit es \<longleftrightarrow>
     successively (\<lambda>a b. endExclusive (sr_range a) < start (sr_range b)) es \<and>
     (\<forall>r\<in>set es. \<not> (newText r = [] \<and> start (sr_range r) = endExclusive (sr_range r)))"

lemma canonical_snoc:
  "canonical_edit (es @ [r]) \<longleftrightarrow> canonical_edit es \<and>
     (es \<noteq> [] \<longrightarrow> endExclusive (sr_range (last es)) < start (sr_range r)) \<and>
     \<not> (newText r = [] \<and> start (sr_range r) = endExclusive (sr_range r))"
  by (auto simp: canonical_edit_def successively_append_iff)

lemma normalize_loop_canonical:
  assumes "chain sr_range a (acc @ (case lst of None \<Rightarrow> [] | Some l \<Rightarrow> [l]) @ rs) n"
    and "canonical_edit (acc @ (case lst of None \<Rightarrow> [] | Some l \<Rightarrow> [l]))" and "lst = None \<Longrightarrow> acc = []"
    and "normalize_loop string_ops rs lst acc = Inr out"
  shows "canonical_edit out"
  using assms
proof (induction rs arbitrary: lst acc)
  case Nil
  then show ?case by (cases lst) auto
next
  case (Cons r rs)
  have valid: "start (sr_range r) \<le> endExclusive (sr_range r)"
    using Cons.prems(1) by (auto simp: chain_append)
  show ?case
  proof (cases "newText r = [] \<and> start (sr_range r) = endExclusive (sr_range r)")
    case True
    have "chain sr_range a (acc @ (case lst of None \<Rightarrow> [] | Some l \<Rightarrow> [l]) @ rs) n"
      using chain_filter [OF Cons.prems(1), of "\<lambda>x. x \<noteq> r"] Cons.prems(1) True
      by (auto simp: chain_append intro: chain_weaken)
    with Cons.IH [OF this] Cons.prems True show ?thesis by (simp add: OffsetRange_length_def)
  next
    case False
    then have step: "\<not> (getNewLength string_ops r = 0 \<and> OffsetRange_length (replaceRange string_ops r) = 0)"
      by (auto simp: OffsetRange_length_def)
    show ?thesis
    proof (cases lst)
      case None
      have "canonical_edit [r]" using False by (simp add: canonical_edit_def)
      with None Cons.IH [of "[]" "Some r"] Cons.prems step show ?thesis by (auto split: if_splits)
    next
      case (Some l)
      have le: "endExclusive (sr_range l) \<le> start (sr_range r)" "start (sr_range l) \<le> endExclusive (sr_range l)"
        using Cons.prems(1) Some by (auto simp: chain_append)
      show ?thesis
      proof (cases "endExclusive (sr_range l) = start (sr_range r)")
        case True
        let ?j = "StringReplacement (OffsetRange (start (sr_range l)) (endExclusive (sr_range r))) (newText l @ newText r)"
        have "tryJoinTouching string_ops l r = Inr (Some ?j)"
          using True valid le(2)
          by (simp add: StringReplacement_tryJoinTouching_def OffsetRange_joinRightTouching_eq)
        moreover have "chain sr_range a (acc @ [?j] @ rs) n"
          using Cons.prems(1) Some le valid by (auto simp: chain_append)
        moreover have "canonical_edit (acc @ [?j])"
          using Cons.prems(2) Some False True valid le(2) by (auto simp: canonical_snoc)
        ultimately show ?thesis
          using Cons.IH [of acc "Some ?j"] Cons.prems(4) step Some True by (auto split: if_splits)
      next
        case apart: False
        have "canonical_edit ((acc @ [l]) @ [r])"
          unfolding canonical_snoc [of "acc @ [l]" r] using Cons.prems(2) Some False apart le(1) by simp
        with Cons.IH [of "acc @ [l]" "Some r"] Cons.prems(1,4) step Some apart show ?thesis
          by (auto split: if_splits)
      qed
    qed
  qed
qed

lemma normalize_loop_id:
  assumes "canonical_edit (acc @ (case lst of None \<Rightarrow> [] | Some l \<Rightarrow> [l]) @ rs)" and "lst = None \<Longrightarrow> acc = []"
  shows "normalize_loop string_ops rs lst acc = Inr (acc @ (case lst of None \<Rightarrow> [] | Some l \<Rightarrow> [l]) @ rs)"
  using assms
proof (induction rs arbitrary: lst acc)
  case (Cons r rs)
  have "\<not> (newText r = [] \<and> OffsetRange_length (sr_range r) = 0)"
    using Cons.prems(1) by (auto simp: canonical_edit_def OffsetRange_length_def)
  moreover have "endExclusive (sr_range l) < start (sr_range r)" if "lst = Some l" for l
    using Cons.prems(1) that by (auto simp: canonical_edit_def successively_append_iff)
  ultimately show ?case
    using Cons.IH [of "[]" "Some r"] Cons.IH [of "acc @ [the lst]" "Some r"] Cons.prems
    by (cases lst) auto
qed (simp split: option.split)

lemma StringEdit_normalize_canonical:
  fixes s :: js_string
  assumes "string_edit_fits es (int (length s))"
  shows "\<exists>e. BaseEdit_normalize string_ops es = Inr e \<and> canonical_edit e \<and> BaseEdit_normalize string_ops e = Inr e"
proof -
  obtain e where e: "BaseEdit_normalize string_ops es = Inr e" using StringEdit_normalize_fits [OF assms] by blast
  then have "normalize_loop string_ops es None [] = Inr e" "mk_Edit string_ops e = Inr e"
    by (auto simp: BaseEdit_normalize_def bind_result_Inr_iff mk_Edit_def split: if_splits)
  moreover from this have "canonical_edit e"
    using normalize_loop_canonical [of 0 "[]" None es "int (length s)" e] assms
    by (simp add: string_edit_fits_def canonical_edit_def)
  ultimately show ?thesis
    using e normalize_loop_id [of "[]" None e] by (simp add: BaseEdit_normalize_def)
qed

lemma holds_substring:
  assumes "string.holds_content s r e"
  shows "OffsetRange_substring r s = newText e \<and> OffsetRange_length r = int (length (newText e))"
proof (cases "newText e = []")
  case True
  with assms show ?thesis
    by (simp add: string.holds_content_def OffsetRange_substring_def OffsetRange_length_def js_substring_def)
next
  case False
  have "length (newText e) \<le> length (drop (nat (start r)) s)"
    using assms unfolding string.holds_content_def seg_def by (metis length_take min.cobounded1)
  moreover have "0 < length (newText e)" using False by simp
  ultimately have "endExclusive r \<le> int (length s)"
    using assms unfolding string.holds_content_def length_drop by linarith
  with assms show ?thesis
    by (auto simp: string.holds_content_def OffsetRange_substring_seg OffsetRange_length_def)
qed

subsection \<open>Properties\<close>

text \<open>C10: \<open>compose\<close> on string edits. For an edit of a document and an edit of its result, composing
  succeeds and gives one edit of the document with the effect of applying the two in turn; no
  replacement of the result overlaps another one.\<close>

theorem StringEdit_compose_two:
  assumes "string_edit_fits e1 (int (length s))"
    and "string_edit_fits e2 (int (length (StringEdit_apply e1 s)))"
  shows "\<exists>e. BaseEdit_compose string_ops e1 e2 = Inr e \<and> string_edit_fits e (int (length s)) \<and>
    StringEdit_apply e s = StringEdit_apply e2 (StringEdit_apply e1 s)"
  by (rule StringEdit_compose_pair [OF assms])

theorem StringEdit_compose_two_witness:
  "\<exists>e. BaseEdit_compose string_ops [StringReplacement (OffsetRange 1 3) [120, 121, 122]]
       [StringReplacement (OffsetRange 0 2) [], StringReplacement (OffsetRange 3 5) [113]] = Inr e \<and>
    string_edit_fits e (int (length [97, 98, 99, 100, 101::code_unit])) \<and>
    StringEdit_apply e [97, 98, 99, 100, 101] =
      StringEdit_apply [StringReplacement (OffsetRange 0 2) [], StringReplacement (OffsetRange 3 5) [113]]
        (StringEdit_apply [StringReplacement (OffsetRange 1 3) [120, 121, 122]] [97, 98, 99, 100, 101])"
  by (rule StringEdit_compose_two; code_simp)

text \<open>C11: \<open>tryRebase\<close> converges. For two edits of the same document, the two rebases either both
  report a conflict, or both succeed, each with an edit of the document the other side produced,
  and both orders of applying them end in the same document.\<close>

theorem tryRebase_converges:
  assumes "string_edit_fits ours (int (length s))" and "string_edit_fits base (int (length s))"
  shows "StringEdit_tryRebase ours base = Inr None \<and> StringEdit_tryRebase base ours = Inr None \<or>
    (\<exists>ours' base'. StringEdit_tryRebase ours base = Inr (Some ours') \<and>
       StringEdit_tryRebase base ours = Inr (Some base') \<and>
       string_edit_fits ours' (int (length (StringEdit_apply base s))) \<and>
       string_edit_fits base' (int (length (StringEdit_apply ours s))) \<and>
       StringEdit_apply ours' (StringEdit_apply base s) = StringEdit_apply base' (StringEdit_apply ours s))"
proof -
  have "\<forall>r\<in>set ours \<union> set base. valid_offset_range (sr_range r)"
    using assms [THEN string_edit_fits_valid] by blast
  note swap = rebase_swap [OF this]
  note eq = tryRebase_impl_eq [OF assms, of True] tryRebase_impl_eq [OF assms(2,1), of True]
  show ?thesis
    using merge_effect [OF assms] merge_effect [OF assms(2,1)] swap
    by (simp add: StringEdit_tryRebase_def eq)
qed

theorem tryRebase_converges_witness:
  "StringEdit_tryRebase [StringReplacement (OffsetRange 1 3) [120]] [StringReplacement (OffsetRange 4 5) []]
       = Inr None \<and>
     StringEdit_tryRebase [StringReplacement (OffsetRange 4 5) []] [StringReplacement (OffsetRange 1 3) [120]]
       = Inr None \<or>
    (\<exists>ours' base'.
       StringEdit_tryRebase [StringReplacement (OffsetRange 1 3) [120]] [StringReplacement (OffsetRange 4 5) []]
         = Inr (Some ours') \<and>
       StringEdit_tryRebase [StringReplacement (OffsetRange 4 5) []] [StringReplacement (OffsetRange 1 3) [120]]
         = Inr (Some base') \<and>
       string_edit_fits ours' (int (length (StringEdit_apply [StringReplacement (OffsetRange 4 5) []]
         [97, 98, 99, 100, 101]))) \<and>
       string_edit_fits base' (int (length (StringEdit_apply [StringReplacement (OffsetRange 1 3) [120]]
         [97, 98, 99, 100, 101]))) \<and>
       StringEdit_apply ours' (StringEdit_apply [StringReplacement (OffsetRange 4 5) []]
         [97, 98, 99, 100, 101]) =
       StringEdit_apply base' (StringEdit_apply [StringReplacement (OffsetRange 1 3) [120]]
         [97, 98, 99, 100, 101]))"
  by (rule tryRebase_converges; code_simp)

text \<open>\<open>rebaseSkipConflicting\<close> drops exactly the replacements of ours that are in conflict with
  a replacement of the base, and rebases the rest: it always succeeds, with the edit that
  \<open>tryRebase\<close> gives for the kept ones.\<close>

lemma rebaseSkipConflicting_keeps:
  assumes "string_edit_fits ours (int (length s))" and "string_edit_fits base (int (length s))"
  shows "\<exists>ours'. StringEdit_rebaseSkipConflicting ours base = Inr (Some ours') \<and>
    StringEdit_tryRebase
      (filter (\<lambda>r. \<not> (\<exists>b\<in>set base. rebase_conflict (sr_range r) (sr_range b))) ours) base =
      Inr (Some ours') \<and>
    string_edit_fits ours' (int (length (StringEdit_apply base s)))"
proof -
  let ?kept = "filter (\<lambda>r. \<not> conflicts_with base r) ours"
  have kept: "rebase_free ?kept base" "rebase_merge ?kept base = rebase_merge ours base"
    using rebase_kept [of 0 ours "int (length s)" 0 base] assms by (simp_all add: string_edit_fits_def)
  have "string_edit_fits ?kept (int (length s))"
    using assms(1) by (simp add: string_edit_fits_def chain_filter)
  from tryRebase_impl_eq [OF this assms(2), of True] kept tryRebase_impl_eq [OF assms, of False]
    merge_effect(1) [OF assms]
  show ?thesis by (simp add: StringEdit_tryRebase_def StringEdit_rebaseSkipConflicting_def)
qed

text \<open>The static \<open>StringEdit.compose\<close> of a list of edits, each of them an edit of the document
  the ones before it produce, is one edit of the first document with the effect of applying them all
  in turn.\<close>

lemma StringEdit_compose_all:
  assumes "edits_fit es s"
  shows "\<exists>e. StringEdit_compose es = Inr e \<and> string_edit_fits e (int (length s)) \<and>
    StringEdit_apply e s = foldl (\<lambda>t x. StringEdit_apply x t) s es"
proof (cases es)
  case Nil
  then show ?thesis by (simp add: StringEdit_compose_def string_edit_fits_def)
next
  case (Cons x xs)
  with foldl_compose_correct [of x s xs] assms show ?thesis by (simp add: StringEdit_compose_def)
qed

text \<open>C16: \<open>inverse\<close> undoes an edit: the inverse that is computed from the document is an edit of the
  document the edit produces, and applying it there gives the document back.\<close>

theorem StringEdit_inverse_undoes:
  assumes "string_edit_fits es (int (length s))"
  shows "\<exists>inv. StringEdit_inverse es s = Inr inv \<and>
    string_edit_fits inv (int (length (StringEdit_apply es s))) \<and>
    StringEdit_apply inv (StringEdit_apply es s) = s"
  by (rule StringEdit_inverse_ok [OF assms])

theorem StringEdit_inverse_undoes_witness:
  "\<exists>inv. StringEdit_inverse
        [StringReplacement (OffsetRange 0 2) [120], StringReplacement (OffsetRange 3 3) [121, 122]]
        [97, 98, 99, 100] = Inr inv \<and>
    string_edit_fits inv (int (length (StringEdit_apply
        [StringReplacement (OffsetRange 0 2) [120], StringReplacement (OffsetRange 3 3) [121, 122]]
        [97, 98, 99, 100]))) \<and>
    StringEdit_apply inv (StringEdit_apply
        [StringReplacement (OffsetRange 0 2) [120], StringReplacement (OffsetRange 3 3) [121, 122]]
        [97, 98, 99, 100]) = [97, 98, 99, 100]"
  by (rule StringEdit_inverse_undoes; code_simp)

text \<open>\<open>normalize\<close> on string edits gives an edit with the same effect that is in normal form: no
  replacement of it is empty, and there is a gap between any two of them. Normalizing again changes
  nothing.\<close>

lemma StringEdit_normalize_normal:
  assumes "string_edit_fits es (int (length s))"
  shows "\<exists>e. BaseEdit_normalize string_ops es = Inr e \<and> string_edit_fits e (int (length s)) \<and>
    StringEdit_apply e s = StringEdit_apply es s \<and> canonical_edit e \<and>
    BaseEdit_normalize string_ops e = Inr e"
  using StringEdit_normalize_fits [OF assms] StringEdit_normalize_canonical [OF assms] by auto

text \<open>\<open>normalizeOnSource\<close> gives an edit with the same effect on the document that has at most one
  replacement.\<close>

lemma normalizeOnSource_single:
  assumes "string_edit_fits es (int (length s))"
  shows "\<exists>e. StringEdit_normalizeOnSource es s = Inr e \<and> length e \<le> 1 \<and>
    string_edit_fits e (int (length s)) \<and> StringEdit_apply e s = StringEdit_apply es s"
  by (rule StringEdit_normalizeOnSource_ok [OF assms])

text \<open>Both ways of trimming the replacements of an edit, \<open>removeCommonSuffixPrefix\<close> and
  \<open>removeCommonSuffixAndPrefix\<close>, keep the effect of the edit on the document.\<close>

lemma removeCommon_same_effect:
  assumes "string_edit_fits es (int (length s))"
  shows "\<exists>e e'. StringEdit_removeCommonSuffixPrefix es s = Inr e \<and>
    StringEdit_removeCommonSuffixAndPrefix es s = Inr e' \<and>
    string_edit_fits e (int (length s)) \<and> StringEdit_apply e s = StringEdit_apply es s \<and>
    string_edit_fits e' (int (length s)) \<and> StringEdit_apply e' s = StringEdit_apply es s"
  using StringEdit_removeCommonSuffixPrefix_ok [OF assms] StringEdit_removeCommonSuffixAndPrefix_ok [OF assms]
  by blast

text \<open>C36: \<open>composeSequentialReplacements\<close> turns replacements that are made one after the other, each
  on the document the ones before it produce, into one edit of the first document.\<close>

theorem composeSequentialReplacements_sequential:
  assumes "edits_fit (map (\<lambda>r. [r]) rs) s"
  shows "\<exists>e. composeSequentialReplacements rs = Inr e \<and> string_edit_fits e (int (length s)) \<and>
    StringEdit_apply e s = foldl (\<lambda>t r. StringEdit_apply [r] t) s rs"
  using composeSequential_loop_correct [of "[]" s "[]" rs] assms
  by (simp add: composeSequentialReplacements_def string_edit_fits_def foldl_map)

theorem composeSequentialReplacements_sequential_witness:
  "\<exists>e. composeSequentialReplacements [StringReplacement (OffsetRange 2 3) [120, 121],
         StringReplacement (OffsetRange 0 1) [], StringReplacement (OffsetRange 1 2) [122]] = Inr e \<and>
    string_edit_fits e (int (length [97, 98, 99, 100::code_unit])) \<and>
    StringEdit_apply e [97, 98, 99, 100] = foldl (\<lambda>t r. StringEdit_apply [r] t) [97, 98, 99, 100]
      [StringReplacement (OffsetRange 2 3) [120, 121],
         StringReplacement (OffsetRange 0 1) [], StringReplacement (OffsetRange 1 2) [122]]"
  by (rule composeSequentialReplacements_sequential; code_simp)

text \<open>\<open>decomposeSplit\<close> splits an edit by a predicate into the edit that keeps the replacements
  the predicate accepts and an edit of its result with the others; applying the two in turn has the
  effect of the edit.\<close>

lemma decomposeSplit_splits:
  assumes "string_edit_fits es (int (length s))"
  shows "\<exists>e2. BaseEdit_decomposeSplit string_ops es p = Inr (filter p es, e2) \<and>
    string_edit_fits (filter p es) (int (length s)) \<and>
    string_edit_fits e2 (int (length (StringEdit_apply (filter p es) s))) \<and>
    StringEdit_apply e2 (StringEdit_apply (filter p es) s) = StringEdit_apply es s"
  using string.decomposeSplit_correct [of es s p] assms
  by (metis string_edit_fits_apply string_fits string_ops_simps(1))

text \<open>C37: where \<open>applyToOffsetOrUndefined\<close> maps the offset of a code unit to an offset of the
  edited document, the same code unit stands there, and \<open>applyInverseToOffset\<close> maps that offset
  back.\<close>

theorem applyToOffset_keeps_unit:
  assumes "string_edit_fits es (int (length s))" and "0 \<le> x" and "x < int (length s)"
    and "BaseEdit_applyToOffsetOrUndefined string_ops es x = Some y"
  shows "0 \<le> y \<and> y < int (length (StringEdit_apply es s)) \<and>
    StringEdit_apply es s ! nat y = s ! nat x \<and> BaseEdit_applyInverseToOffset string_ops es y = x"
  using string.applyToOffsetOrUndefined_char [of es s x y] assms
    string.applyInverseToOffset_roundtrip [of es "int (length s)" x y]
  by auto

theorem applyToOffset_keeps_unit_witness:
  "0 \<le> (4::int) \<and> 4 < int (length (StringEdit_apply [StringReplacement (OffsetRange 1 2) [120, 121, 122]]
       [97, 98, 99])) \<and>
    StringEdit_apply [StringReplacement (OffsetRange 1 2) [120, 121, 122]] [97, 98, 99] ! nat 4 =
      [97, 98, 99] ! nat 2 \<and>
    BaseEdit_applyInverseToOffset string_ops [StringReplacement (OffsetRange 1 2) [120, 121, 122]] 4 = 2"
  by (rule applyToOffset_keeps_unit; code_simp)

text \<open>\<open>applyToOffset\<close> keeps the order of offsets.\<close>

lemma applyToOffset_monotone:
  assumes "string_edit_fits es n" and "x \<le> y"
  shows "BaseEdit_applyToOffset string_ops es x \<le> BaseEdit_applyToOffset string_ops es y"
  using string.applyToOffset_mono [of es n x y] assms by simp

text \<open>\<open>getNewRanges\<close> gives, for each replacement, the range of the edited document that holds its
  new text, and \<open>getNewDataLength\<close> the length of the edited document.\<close>

lemma getNewRanges_hold_texts:
  assumes "string_edit_fits es (int (length s))"
  shows "\<exists>rgs. BaseEdit_getNewRanges string_ops es = Inr rgs \<and>
    list_all2 (\<lambda>r e. OffsetRange_substring r (StringEdit_apply es s) = newText e \<and>
       OffsetRange_length r = int (length (newText e))) rgs es \<and>
    BaseEdit_getNewDataLength string_ops es (int (length s)) = int (length (StringEdit_apply es s))"
proof -
  obtain rgs where "BaseEdit_getNewRanges string_ops es = Inr rgs"
    "list_all2 (string.holds_content (StringEdit_apply es s)) rgs es"
    using string.getNewRanges_content [of es s] assms by auto
  moreover from this(2) have "list_all2 (\<lambda>r e. OffsetRange_substring r (StringEdit_apply es s) = newText e \<and>
       OffsetRange_length r = int (length (newText e))) rgs es"
    by (rule list_all2_mono) (simp add: holds_substring)
  ultimately show ?thesis
    using string.getNewDataLength_correct [of es s] assms by simp
qed

text \<open>An edit survives serialization: reading back what \<open>toJson\<close> writes gives the edit.\<close>

lemma StringEdit_json_roundtrip:
  assumes "string_edit_fits es n"
  shows "StringEdit_fromJson (StringEdit_toJson es) = Inr es"
proof -
  have "map_result StringReplacement_fromJson (map StringReplacement_toJson es) = Inr es"
    using string_edit_fits_valid [OF assms] by (induction es) (simp_all add: StringReplacement_json)
  then show ?thesis
    using string.mk_Edit_fits [of es n] assms by (simp add: StringEdit_fromJson_def StringEdit_toJson_def)
qed

text \<open>An edit that \<open>isNeutralOn\<close> accepts for a document leaves the document as it is.\<close>

lemma isNeutralOn_neutral:
  assumes "string_edit_fits es (int (length s))" and "StringEdit_isNeutralOn es s"
  shows "StringEdit_apply es s = s"
proof -
  have "StringEdit_apply es s = drop (nat 0) s"
    unfolding StringEdit_apply_eq [OF assms(1)]
    using assms by (intro neutral_apply) (simp_all add: string_edit_fits_def)
  then show ?thesis by simp
qed

end
