(* ===== verification/DataEdits.thy ===== *)
theory DataEdits
  imports StringEdit
begin

section \<open>Array, length and annotated edits\<close>

text \<open>
  The other replacement classes: \<open>ArrayReplacement\<close> of \<open>arrayEdit.ts\<close>, \<open>LengthReplacement\<close>
  of \<open>lengthEdit.ts\<close>, \<open>AnnotationReplacement\<close> of \<open>edit.ts\<close> and \<open>AnnotatedStringReplacement\<close>
  of \<open>stringEdit.ts\<close>, each with its interpretation of the contract \<open>replacement\<close>. The content
  of a length replacement is a list of as many units; that of an annotation replacement repeats
  its annotation.
\<close>

subsection \<open>\<open>arrayEdit.ts\<close>\<close>

record 'a array_replacement =
  ar_range :: offset_range
  newValue :: "'a list"

abbreviation ArrayReplacement :: "offset_range \<Rightarrow> 'a list \<Rightarrow> 'a array_replacement" where
  "ArrayReplacement rg v \<equiv> \<lparr>ar_range = rg, newValue = v\<rparr>"

type_synonym 'a array_edit = "'a array_replacement list"

definition ArrayReplacement_equals :: "'a array_replacement \<Rightarrow> 'a array_replacement \<Rightarrow> bool" where
  "ArrayReplacement_equals r other \<longleftrightarrow>
     OffsetRange_equals (ar_range r) (ar_range other) \<and>
     length (newValue r) = length (newValue other) \<and>
     list_all (\<lambda>i. newValue r ! i = newValue other ! i) [0..<length (newValue r)]"

definition ArrayReplacement_getNewLength :: "'a array_replacement \<Rightarrow> int" where
  "ArrayReplacement_getNewLength r = int (length (newValue r))"

definition ArrayReplacement_tryJoinTouching ::
    "'a array_replacement \<Rightarrow> 'a array_replacement \<Rightarrow> 'a array_replacement option result" where
  "ArrayReplacement_tryJoinTouching r other =
     bind_result (OffsetRange_joinRightTouching (ar_range r) (ar_range other))
       (\<lambda>rg. Inr (Some (ArrayReplacement rg (newValue r @ newValue other))))"

definition ArrayReplacement_slice ::
    "'a array_replacement \<Rightarrow> offset_range \<Rightarrow> offset_range \<Rightarrow> 'a array_replacement" where
  "ArrayReplacement_slice r rg rangeInReplacement =
     ArrayReplacement rg (OffsetRange_slice rangeInReplacement (newValue r))"

definition array_ops :: "'a array_replacement replacement_ops" where
  "array_ops = \<lparr>replaceRange = ar_range, getNewLength = ArrayReplacement_getNewLength,
     tryJoinTouching = ArrayReplacement_tryJoinTouching, slice_repl = ArrayReplacement_slice,
     equals_repl = ArrayReplacement_equals\<rparr>"

definition ArrayEdit_create :: "'a array_replacement list \<Rightarrow> 'a array_edit result" where
  "ArrayEdit_create rs = mk_Edit array_ops rs"

definition ArrayEdit_single :: "'a array_replacement \<Rightarrow> 'a array_edit result" where
  "ArrayEdit_single r = mk_Edit array_ops [r]"

definition ArrayEdit_replace :: "offset_range \<Rightarrow> 'a list \<Rightarrow> 'a array_edit result" where
  "ArrayEdit_replace rg v = mk_Edit array_ops [ArrayReplacement rg v]"

definition ArrayEdit_insert :: "int \<Rightarrow> 'a list \<Rightarrow> 'a array_edit result" where
  "ArrayEdit_insert offset v =
     bind_result (OffsetRange_emptyAt offset) (\<lambda>rg. mk_Edit array_ops [ArrayReplacement rg v])"

definition ArrayEdit_delete :: "offset_range \<Rightarrow> 'a array_edit result" where
  "ArrayEdit_delete rg = mk_Edit array_ops [ArrayReplacement rg []]"

fun ArrayEdit_apply_loop :: "'a array_edit \<Rightarrow> int \<Rightarrow> 'a list \<Rightarrow> 'a list" where
  "ArrayEdit_apply_loop [] pos data = js_slice_from data pos"
| "ArrayEdit_apply_loop (edit # rs) pos data =
     js_slice data pos (start (ar_range edit)) @ newValue edit
       @ ArrayEdit_apply_loop rs (endExclusive (ar_range edit)) data"

definition ArrayEdit_apply :: "'a array_edit \<Rightarrow> 'a list \<Rightarrow> 'a list" where
  "ArrayEdit_apply this data = ArrayEdit_apply_loop this 0 data"

fun ArrayEdit_inverse_loop :: "'a array_edit \<Rightarrow> 'a list \<Rightarrow> int \<Rightarrow> 'a array_edit result" where
  "ArrayEdit_inverse_loop [] baseVal offset = Inr []"
| "ArrayEdit_inverse_loop (e # es) baseVal offset =
     bind_result
       (OffsetRange_ofStartAndLength (start (ar_range e) + offset) (int (length (newValue e))))
       (\<lambda>rg. bind_result
          (ArrayEdit_inverse_loop es baseVal
             (offset + (int (length (newValue e)) - OffsetRange_length (ar_range e))))
          (\<lambda>rest. Inr (ArrayReplacement rg
             (js_slice baseVal (start (ar_range e)) (endExclusive (ar_range e))) # rest)))"

definition ArrayEdit_inverse :: "'a array_edit \<Rightarrow> 'a list \<Rightarrow> 'a array_edit result" where
  "ArrayEdit_inverse this baseVal =
     bind_result (ArrayEdit_inverse_loop this baseVal 0) (mk_Edit array_ops)"

subsection \<open>\<open>lengthEdit.ts\<close>\<close>

record length_replacement =
  le_range :: offset_range
  newLength :: int

abbreviation LengthReplacement :: "offset_range \<Rightarrow> int \<Rightarrow> length_replacement" where
  "LengthReplacement rg n \<equiv> \<lparr>le_range = rg, newLength = n\<rparr>"

type_synonym length_edit = "length_replacement list"

definition LengthReplacement_create :: "int \<Rightarrow> int \<Rightarrow> int \<Rightarrow> length_replacement result" where
  "LengthReplacement_create startOffset endOffsetExclusive n =
     bind_result (mk_OffsetRange startOffset endOffsetExclusive) (\<lambda>rg. Inr (LengthReplacement rg n))"

definition LengthReplacement_equals :: "length_replacement \<Rightarrow> length_replacement \<Rightarrow> bool" where
  "LengthReplacement_equals r other \<longleftrightarrow>
     OffsetRange_equals (le_range r) (le_range other) \<and> newLength r = newLength other"

definition LengthReplacement_tryJoinTouching ::
    "length_replacement \<Rightarrow> length_replacement \<Rightarrow> length_replacement option result" where
  "LengthReplacement_tryJoinTouching r other =
     bind_result (OffsetRange_joinRightTouching (le_range r) (le_range other))
       (\<lambda>rg. Inr (Some (LengthReplacement rg (newLength r + newLength other))))"

definition LengthReplacement_slice ::
    "length_replacement \<Rightarrow> offset_range \<Rightarrow> offset_range \<Rightarrow> length_replacement" where
  "LengthReplacement_slice r rg rangeInReplacement =
     LengthReplacement rg (OffsetRange_length rangeInReplacement)"

definition length_ops :: "length_replacement replacement_ops" where
  "length_ops = \<lparr>replaceRange = le_range, getNewLength = newLength,
     tryJoinTouching = LengthReplacement_tryJoinTouching, slice_repl = LengthReplacement_slice,
     equals_repl = LengthReplacement_equals\<rparr>"

definition LengthEdit_fromEdit :: "'t replacement_ops \<Rightarrow> 't list \<Rightarrow> length_edit result" where
  "LengthEdit_fromEdit R edit =
     mk_Edit length_ops (map (\<lambda>r. LengthReplacement (replaceRange R r) (getNewLength R r)) edit)"

definition LengthEdit_create :: "length_replacement list \<Rightarrow> length_edit result" where
  "LengthEdit_create rs = mk_Edit length_ops rs"

definition LengthEdit_replace :: "offset_range \<Rightarrow> int \<Rightarrow> length_edit result" where
  "LengthEdit_replace rg n = mk_Edit length_ops [LengthReplacement rg n]"

definition LengthEdit_insert :: "int \<Rightarrow> int \<Rightarrow> length_edit result" where
  "LengthEdit_insert offset n =
     bind_result (OffsetRange_emptyAt offset) (\<lambda>rg. mk_Edit length_ops [LengthReplacement rg n])"

definition LengthEdit_delete :: "offset_range \<Rightarrow> length_edit result" where
  "LengthEdit_delete rg = mk_Edit length_ops [LengthReplacement rg 0]"

definition LengthEdit_compose :: "length_edit list \<Rightarrow> length_edit result" where
  "LengthEdit_compose edits =
     foldl (\<lambda>acc x. bind_result acc (\<lambda>e. BaseEdit_compose length_ops e x)) (Inr []) edits"

fun LengthEdit_inverse_loop :: "length_edit \<Rightarrow> int \<Rightarrow> length_edit result" where
  "LengthEdit_inverse_loop [] offset = Inr []"
| "LengthEdit_inverse_loop (e # es) offset =
     bind_result (OffsetRange_ofStartAndLength (start (le_range e) + offset) (newLength e))
       (\<lambda>rg. bind_result
          (LengthEdit_inverse_loop es (offset + (newLength e - OffsetRange_length (le_range e))))
          (\<lambda>rest. Inr (LengthReplacement rg (OffsetRange_length (le_range e)) # rest)))"

definition LengthEdit_inverse :: "length_edit \<Rightarrow> length_edit result" where
  "LengthEdit_inverse this = bind_result (LengthEdit_inverse_loop this 0) (mk_Edit length_ops)"

text \<open>
  \<open>applyArray\<close>. The writes \<open>newArr[dstPos++] = ...\<close> fill the new array from the left, so the
  array is the list of the values written, followed by the holes that are left of
  \<open>new Array(n)\<close>; \<open>undefined\<close> and a hole are \<open>None\<close>. \<open>new Array(n)\<close> throws on a negative length.
\<close>

fun applyArray_loop :: "length_edit \<Rightarrow> int \<Rightarrow> 'a list \<Rightarrow> 'a \<Rightarrow> 'a option list" where
  "applyArray_loop [] srcPos arr fillItem =
     OffsetRange_map_loop (js_at arr) srcPos (int (length arr))"
| "applyArray_loop (r # rs) srcPos arr fillItem =
     OffsetRange_map_loop (js_at arr) srcPos (start (le_range r))
       @ OffsetRange_map_loop (\<lambda>_. Some fillItem) 0 (newLength r)
       @ applyArray_loop rs (endExclusive (le_range r)) arr fillItem"

definition LengthEdit_applyArray :: "length_edit \<Rightarrow> 'a list \<Rightarrow> 'a \<Rightarrow> 'a option list result" where
  "LengthEdit_applyArray this arr fillItem =
     (let n = BaseEdit_getNewDataLength length_ops this (int (length arr));
          written = applyArray_loop this 0 arr fillItem
      in if n < 0 then Inl RangeError
         else Inr (written @ replicate (nat n - length written) None))"

subsection \<open>\<open>AnnotationReplacement\<close> of \<open>edit.ts\<close>\<close>

record 'a annotation_replacement =
  an_range :: offset_range
  an_newLength :: int
  annotation :: 'a

abbreviation AnnotationReplacement :: "offset_range \<Rightarrow> int \<Rightarrow> 'a \<Rightarrow> 'a annotation_replacement" where
  "AnnotationReplacement rg n a \<equiv> \<lparr>an_range = rg, an_newLength = n, annotation = a\<rparr>"

definition AnnotationReplacement_equals ::
    "'a annotation_replacement \<Rightarrow> 'a annotation_replacement \<Rightarrow> bool" where
  "AnnotationReplacement_equals r other \<longleftrightarrow>
     OffsetRange_equals (an_range r) (an_range other) \<and>
     an_newLength r = an_newLength other \<and> annotation r = annotation other"

definition AnnotationReplacement_tryJoinTouching ::
    "'a annotation_replacement \<Rightarrow> 'a annotation_replacement \<Rightarrow> 'a annotation_replacement option result" where
  "AnnotationReplacement_tryJoinTouching r other =
     (if annotation r \<noteq> annotation other then Inr None
      else bind_result (OffsetRange_joinRightTouching (an_range r) (an_range other))
             (\<lambda>rg. Inr (Some (AnnotationReplacement rg (an_newLength r + an_newLength other)
                (annotation r)))))"

definition AnnotationReplacement_slice ::
    "'a annotation_replacement \<Rightarrow> offset_range \<Rightarrow> offset_range \<Rightarrow> 'a annotation_replacement" where
  "AnnotationReplacement_slice r rg rangeInReplacement =
     AnnotationReplacement rg (OffsetRange_length rangeInReplacement) (annotation r)"

definition annotation_ops :: "'a annotation_replacement replacement_ops" where
  "annotation_ops = \<lparr>replaceRange = an_range, getNewLength = an_newLength,
     tryJoinTouching = AnnotationReplacement_tryJoinTouching, slice_repl = AnnotationReplacement_slice,
     equals_repl = AnnotationReplacement_equals\<rparr>"

subsection \<open>\<open>AnnotatedStringReplacement\<close> of \<open>stringEdit.ts\<close>\<close>

text \<open>\<open>join\<close> is the method of the interface \<open>IEditData\<close>, an argument of the operations that call it.\<close>

record 'd annotated_replacement =
  as_range :: offset_range
  as_newText :: js_string
  as_data :: 'd

abbreviation AnnotatedStringReplacement :: "offset_range \<Rightarrow> js_string \<Rightarrow> 'd \<Rightarrow> 'd annotated_replacement" where
  "AnnotatedStringReplacement rg t d \<equiv> \<lparr>as_range = rg, as_newText = t, as_data = d\<rparr>"

definition VoidEditData_join :: "unit \<Rightarrow> unit \<Rightarrow> unit option" where
  "VoidEditData_join this other = Some this"

definition AnnotatedStringReplacement_equals ::
    "'d annotated_replacement \<Rightarrow> 'd annotated_replacement \<Rightarrow> bool" where
  "AnnotatedStringReplacement_equals r other \<longleftrightarrow>
     OffsetRange_equals (as_range r) (as_range other) \<and>
     as_newText r = as_newText other \<and> as_data r = as_data other"

definition AnnotatedStringReplacement_tryJoinTouching ::
    "('d \<Rightarrow> 'd \<Rightarrow> 'd option) \<Rightarrow> 'd annotated_replacement \<Rightarrow> 'd annotated_replacement \<Rightarrow>
     'd annotated_replacement option result" where
  "AnnotatedStringReplacement_tryJoinTouching join r other =
     (case join (as_data r) (as_data other) of
        None \<Rightarrow> Inr None
      | Some joined \<Rightarrow>
          bind_result (OffsetRange_joinRightTouching (as_range r) (as_range other))
            (\<lambda>rg. Inr (Some (AnnotatedStringReplacement rg (as_newText r @ as_newText other) joined))))"

definition AnnotatedStringReplacement_slice ::
    "'d annotated_replacement \<Rightarrow> offset_range \<Rightarrow> offset_range \<Rightarrow> 'd annotated_replacement" where
  "AnnotatedStringReplacement_slice r rg rangeInReplacement =
     AnnotatedStringReplacement rg (OffsetRange_substring rangeInReplacement (as_newText r)) (as_data r)"

definition annotated_ops :: "('d \<Rightarrow> 'd \<Rightarrow> 'd option) \<Rightarrow> 'd annotated_replacement replacement_ops" where
  "annotated_ops join = \<lparr>replaceRange = as_range, getNewLength = (\<lambda>r. int (length (as_newText r))),
     tryJoinTouching = AnnotatedStringReplacement_tryJoinTouching join,
     slice_repl = AnnotatedStringReplacement_slice,
     equals_repl = AnnotatedStringReplacement_equals\<rparr>"

definition AnnotatedStringEdit_compose ::
    "('d \<Rightarrow> 'd \<Rightarrow> 'd option) \<Rightarrow> 'd annotated_replacement list list \<Rightarrow> 'd annotated_replacement list result" where
  "AnnotatedStringEdit_compose join edits =
     (case edits of
        [] \<Rightarrow> Inr []
      | e # es \<Rightarrow>
          foldl (\<lambda>acc x. bind_result acc (\<lambda>r. BaseEdit_compose (annotated_ops join) r x)) (Inr e) es)"

definition AnnotatedStringEdit_toStringEdit ::
    "'d annotated_replacement list \<Rightarrow> ('d annotated_replacement \<Rightarrow> bool) option \<Rightarrow> string_edit result" where
  "AnnotatedStringEdit_toStringEdit this flt =
     mk_Edit string_ops
       (map (\<lambda>r. StringReplacement (as_range r) (as_newText r))
         (filter (\<lambda>r. case flt of None \<Rightarrow> True | Some f \<Rightarrow> f r) this))"

definition StringEdit_mapData ::
    "string_edit \<Rightarrow> (string_replacement \<Rightarrow> 'd) \<Rightarrow> ('d \<Rightarrow> 'd \<Rightarrow> 'd option) \<Rightarrow> 'd annotated_replacement list result" where
  "StringEdit_mapData this f join =
     mk_Edit (annotated_ops join)
       (map (\<lambda>e. AnnotatedStringReplacement (sr_range e) (newText e) (f e)) this)"

subsection \<open>The contract of replacements\<close>

lemma OffsetRange_slice_seg:
  "0 \<le> start r \<Longrightarrow> start r \<le> endExclusive r \<Longrightarrow> endExclusive r \<le> int (length s) \<Longrightarrow>
     OffsetRange_slice r s = seg s (start r) (endExclusive r)"
  by (simp add: OffsetRange_slice_def js_slice_in_range seg_def)

lemma seg_replicate:
  "0 \<le> a \<Longrightarrow> a \<le> b \<Longrightarrow> b \<le> int n \<Longrightarrow> seg (replicate n x) a b = replicate (nat (b - a)) x"
  by (simp add: seg_def nat_diff_distrib min_absorb1 nat_le_iff diff_le_mono)

lemma ops_simps [simp]:
  "replaceRange array_ops = ar_range" "getNewLength array_ops ar = int (length (newValue ar))"
  "slice_repl array_ops = ArrayReplacement_slice"
  "tryJoinTouching array_ops = ArrayReplacement_tryJoinTouching"
  "replaceRange length_ops = le_range" "getNewLength length_ops = newLength"
  "slice_repl length_ops = LengthReplacement_slice"
  "tryJoinTouching length_ops = LengthReplacement_tryJoinTouching"
  "replaceRange annotation_ops = an_range" "getNewLength annotation_ops = an_newLength"
  "slice_repl annotation_ops = AnnotationReplacement_slice"
  "tryJoinTouching annotation_ops = AnnotationReplacement_tryJoinTouching"
  "replaceRange (annotated_ops join) = as_range"
  "getNewLength (annotated_ops join) as = int (length (as_newText as))"
  "slice_repl (annotated_ops join) = AnnotatedStringReplacement_slice"
  "tryJoinTouching (annotated_ops join) = AnnotatedStringReplacement_tryJoinTouching join"
  by (simp_all add: array_ops_def length_ops_def annotation_ops_def annotated_ops_def
      ArrayReplacement_getNewLength_def)

lemmas join_defs = ArrayReplacement_tryJoinTouching_def LengthReplacement_tryJoinTouching_def
  AnnotationReplacement_tryJoinTouching_def AnnotatedStringReplacement_tryJoinTouching_def
  OffsetRange_joinRightTouching_eq valid_offset_range_def

interpretation array: replacement "array_ops :: 'a array_replacement replacement_ops" newValue "\<lambda>_. True"
  by unfold_locales
    (auto simp: ArrayReplacement_slice_def OffsetRange_slice_seg join_defs bind_result_Inr_iff
      dest: OffsetRange_joinRightTouching_Inr)

text \<open>A length is a list of units: only the number of the items counts.\<close>

definition length_content :: "'a \<Rightarrow> length_replacement \<Rightarrow> 'a list" where
  "length_content x r = replicate (nat (newLength r)) x"

interpretation len: replacement length_ops "length_content x" "\<lambda>r. 0 \<le> newLength r"
  by unfold_locales
    (auto simp: length_content_def LengthReplacement_slice_def OffsetRange_length_def seg_replicate
      join_defs bind_result_Inr_iff nat_add_distrib replicate_add
      dest: OffsetRange_joinRightTouching_Inr)

definition annotation_content :: "'a annotation_replacement \<Rightarrow> 'a list" where
  "annotation_content r = replicate (nat (an_newLength r)) (annotation r)"

interpretation annot: replacement "annotation_ops :: 'a annotation_replacement replacement_ops"
  annotation_content "\<lambda>r. 0 \<le> an_newLength r"
  by unfold_locales
    (auto simp: annotation_content_def AnnotationReplacement_slice_def OffsetRange_length_def
      seg_replicate join_defs bind_result_Inr_iff nat_add_distrib replicate_add
      split: if_splits dest: OffsetRange_joinRightTouching_Inr)

interpretation annotated: replacement "annotated_ops join" as_newText "\<lambda>_. True"
  by unfold_locales
    (auto simp: AnnotatedStringReplacement_slice_def OffsetRange_substring_seg join_defs
      bind_result_Inr_iff split: option.splits dest: OffsetRange_joinRightTouching_Inr)

subsection \<open>Effects\<close>

lemma ArrayEdit_apply_loop_eq:
  "chain ar_range pos es (int (length s)) \<Longrightarrow> 0 \<le> pos \<Longrightarrow>
     ArrayEdit_apply_loop es pos s = apply_edits ar_range newValue pos es s"
proof (induction es arbitrary: pos)
  case Nil
  then show ?case by (simp add: apply_edits_def js_slice_from_in_range)
next
  case (Cons e es)
  then have "start (ar_range e) \<le> int (length s)"
    using chain_end_pos [of ar_range "endExclusive (ar_range e)" es "int (length s)"] by simp
  with Cons show ?case by (simp add: apply_edits_Cons js_slice_in_range seg_def)
qed

lemma ArrayEdit_apply_eq:
  "chain ar_range 0 es (int (length s)) \<Longrightarrow>
     ArrayEdit_apply es s = apply_edits ar_range newValue 0 es s"
  by (simp add: ArrayEdit_apply_def ArrayEdit_apply_loop_eq)

lemma ArrayEdit_inverse_loop_inverse_of:
  assumes "chain ar_range a es (int (length s))" and "0 \<le> a"
  shows "\<exists>es'. ArrayEdit_inverse_loop es s d = Inr es' \<and> inverse_of array_ops newValue s d es es'"
  using assms
proof (induction es arbitrary: a d)
  case (Cons e es)
  have "endExclusive (ar_range e) \<le> int (length s)"
    using Cons.prems chain_end_pos [of ar_range "endExclusive (ar_range e)" es "int (length s)"] by simp
  moreover obtain es' where
    "ArrayEdit_inverse_loop es s (d + (int (length (newValue e)) - OffsetRange_length (ar_range e))) = Inr es'"
    "inverse_of array_ops newValue s (d + (int (length (newValue e)) - OffsetRange_length (ar_range e))) es es'"
    using Cons by force
  ultimately show ?case
    using Cons.prems by (simp add: OffsetRange_ofStartAndLength_def js_slice_in_range seg_def)
qed simp

lemma ArrayEdit_inverse_ok:
  assumes "chain ar_range 0 es (int (length s))"
  shows "\<exists>inv. ArrayEdit_inverse es s = Inr inv \<and>
    chain ar_range 0 inv (int (length (ArrayEdit_apply es s))) \<and>
    ArrayEdit_apply inv (ArrayEdit_apply es s) = s"
proof -
  obtain inv where inv: "ArrayEdit_inverse_loop es s 0 = Inr inv"
    "inverse_of array_ops newValue s 0 es inv"
    using ArrayEdit_inverse_loop_inverse_of [OF assms, of 0] by auto
  note ok = array.inverse_apply [of es s inv]
  have fits: "chain ar_range 0 inv (int (length (ArrayEdit_apply es s)))"
    using ok(1) inv(2) assms by (simp add: array.fits_def ArrayEdit_apply_eq)
  then have "ArrayEdit_apply inv (ArrayEdit_apply es s) = s"
    using ok(2) inv(2) assms by (simp add: array.fits_def ArrayEdit_apply_eq)
  with fits inv(1) array.mk_Edit_fits [of inv] show ?thesis
    by (simp add: ArrayEdit_inverse_def array.fits_def)
qed

text \<open>Length edits that lie within data of the given length.\<close>

definition length_edit_fits :: "length_edit \<Rightarrow> int \<Rightarrow> bool" where
  "length_edit_fits es n \<longleftrightarrow> chain le_range 0 es n \<and> (\<forall>e\<in>set es. 0 \<le> newLength e)"

lemma len_fits [simp]: "len.fits es n \<longleftrightarrow> length_edit_fits es n"
  by (simp add: len.fits_def length_edit_fits_def)

lemma map_loop_js_at:
  assumes "0 \<le> a" "b \<le> int (length arr)"
  shows "OffsetRange_map_loop (js_at arr) a b = map Some (seg arr a b)"
proof (cases "a \<le> b")
  case True
  show ?thesis
  proof (rule nth_equalityI)
    show "length (OffsetRange_map_loop (js_at arr) a b) = length (map Some (seg arr a b))"
      using length_seg [OF assms(1) True assms(2)] by (simp add: OffsetRange_map_loop_eq)
  qed (use assms True in \<open>simp add: OffsetRange_map_loop_eq js_at_def seg_def nat_add_distrib\<close>)
next
  case False
  then show ?thesis using assms by (simp add: OffsetRange_map_loop.simps seg_def)
qed

lemma applyArray_loop_eq:
  assumes "chain le_range a es (int (length arr))" and "0 \<le> a"
  shows "applyArray_loop es a arr x = map Some (apply_edits le_range (length_content x) a es arr)"
  using assms
proof (induction es arbitrary: a)
  case Nil
  then show ?case by (simp add: map_loop_js_at apply_edits_def seg_def)
next
  case (Cons e es)
  have "start (le_range e) \<le> int (length arr)"
    using Cons.prems chain_end_pos [of le_range "endExclusive (le_range e)" es "int (length arr)"] by simp
  moreover have "OffsetRange_map_loop (\<lambda>_. Some x) 0 n = map Some (replicate (nat n) x)" for n
    by (simp add: OffsetRange_map_loop_eq map_replicate_const)
  ultimately show ?case
    using Cons by (simp add: map_loop_js_at apply_edits_Cons length_content_def)
qed

lemma LengthEdit_applyArray_eq:
  assumes "length_edit_fits es (int (length arr))"
  shows "LengthEdit_applyArray es arr x =
    Inr (map Some (apply_edits le_range (length_content x) 0 es arr))"
  using assms len.getNewDataLength_correct [of es arr x] applyArray_loop_eq [of 0 es arr x]
  by (simp add: LengthEdit_applyArray_def Let_def length_edit_fits_def)

subsection \<open>Properties\<close>

text \<open>Array edits compose and invert like string edits: composing an edit of an array with an edit
  of its result gives one edit with the effect of both, and the inverse gives the array back.\<close>

lemma ArrayEdit_compose_inverse:
  assumes "chain ar_range 0 e1 (int (length xs))" and "chain ar_range 0 e2 (int (length (ArrayEdit_apply e1 xs)))"
  shows "(\<exists>e. BaseEdit_compose array_ops e1 e2 = Inr e \<and>
      ArrayEdit_apply e xs = ArrayEdit_apply e2 (ArrayEdit_apply e1 xs)) \<and>
    (\<exists>inv. ArrayEdit_inverse e1 xs = Inr inv \<and> ArrayEdit_apply inv (ArrayEdit_apply e1 xs) = xs)"
proof -
  obtain e where "BaseEdit_compose array_ops e1 e2 = Inr e" "array.fits e (int (length xs))"
    "apply_edits ar_range newValue 0 e xs = apply_edits ar_range newValue 0 e2 (apply_edits ar_range newValue 0 e1 xs)"
    using array.compose_correct [of e1 xs e2] assms by (auto simp: array.fits_def ArrayEdit_apply_eq)
  moreover from this(2) have "chain ar_range 0 e (int (length xs))" by (simp add: array.fits_def)
  ultimately show ?thesis
    using ArrayEdit_inverse_ok [OF assms(1)] assms by (auto simp: ArrayEdit_apply_eq)
qed

text \<open>A length edit keeps an array in step with the data it annotates: \<open>applyArray\<close> succeeds and,
  for the composition of two length edits, gives what the two applied in turn give.\<close>

lemma LengthEdit_compose_applyArray:
  assumes "length_edit_fits e1 (int (length arr))"
    and "length_edit_fits e2 (BaseEdit_getNewDataLength length_ops e1 (int (length arr)))"
  shows "\<exists>e arr1. BaseEdit_compose length_ops e1 e2 = Inr e \<and>
    LengthEdit_applyArray e1 arr x = Inr (map Some arr1) \<and>
    int (length arr1) = BaseEdit_getNewDataLength length_ops e1 (int (length arr)) \<and>
    LengthEdit_applyArray e arr x = LengthEdit_applyArray e2 arr1 x"
proof -
  let ?arr1 = "apply_edits le_range (length_content x) 0 e1 arr"
  have len: "int (length ?arr1) = BaseEdit_getNewDataLength length_ops e1 (int (length arr))"
    using len.getNewDataLength_correct [of e1 arr x] assms(1) by simp
  obtain e where "BaseEdit_compose length_ops e1 e2 = Inr e" "length_edit_fits e (int (length arr))"
    "apply_edits le_range (length_content x) 0 e arr = apply_edits le_range (length_content x) 0 e2 ?arr1"
    using len.compose_correct [of e1 arr e2 x] assms len by auto
  with LengthEdit_applyArray_eq [of e1 arr x] LengthEdit_applyArray_eq [of e arr x]
    LengthEdit_applyArray_eq [of e2 ?arr1 x] assms len show ?thesis by auto
qed

end
