(* ===== verification/TextLength.thy ===== *)
theory TextLength
  imports LineRange
begin

section \<open>Text lengths: \<open>src/vs/editor/common/core/text/textLength.ts\<close>\<close>

text \<open>
  A text length counts line breaks and the columns behind the last one. Lengths form a monoid that
  acts on positions; the length of a text is compatible with concatenation.
\<close>

record text_length =
  lineCount :: int
  columnCount :: int

abbreviation TextLength :: "int \<Rightarrow> int \<Rightarrow> text_length" where
  "TextLength l c \<equiv> \<lparr>lineCount = l, columnCount = c\<rparr>"

definition TextLength_zero :: text_length where
  "TextLength_zero = TextLength 0 0"

definition TextLength_isZero :: "text_length \<Rightarrow> bool" where
  "TextLength_isZero this \<longleftrightarrow> lineCount this = 0 \<and> columnCount this = 0"

definition TextLength_isLessThan :: "text_length \<Rightarrow> text_length \<Rightarrow> bool" where
  "TextLength_isLessThan this other =
     (if lineCount this \<noteq> lineCount other then lineCount this < lineCount other
      else columnCount this < columnCount other)"

definition TextLength_isGreaterThan :: "text_length \<Rightarrow> text_length \<Rightarrow> bool" where
  "TextLength_isGreaterThan this other =
     (if lineCount this \<noteq> lineCount other then lineCount this > lineCount other
      else columnCount this > columnCount other)"

definition TextLength_isGreaterThanOrEqualTo :: "text_length \<Rightarrow> text_length \<Rightarrow> bool" where
  "TextLength_isGreaterThanOrEqualTo this other =
     (if lineCount this \<noteq> lineCount other then lineCount this > lineCount other
      else columnCount this \<ge> columnCount other)"

definition TextLength_equals :: "text_length \<Rightarrow> text_length \<Rightarrow> bool" where
  "TextLength_equals this other \<longleftrightarrow>
     lineCount this = lineCount other \<and> columnCount this = columnCount other"

definition TextLength_compare :: "text_length \<Rightarrow> text_length \<Rightarrow> int" where
  "TextLength_compare this other =
     (if lineCount this \<noteq> lineCount other then lineCount this - lineCount other
      else columnCount this - columnCount other)"

definition TextLength_add :: "text_length \<Rightarrow> text_length \<Rightarrow> text_length" where
  "TextLength_add this other =
     (if lineCount other = 0 then TextLength (lineCount this) (columnCount this + columnCount other)
      else TextLength (lineCount this + lineCount other) (columnCount other))"

definition TextLength_lengthDiffNonNegative :: "text_length \<Rightarrow> text_length \<Rightarrow> text_length" where
  "TextLength_lengthDiffNonNegative s e =
     (if TextLength_isLessThan e s then TextLength_zero
      else if lineCount s = lineCount e then TextLength 0 (columnCount e - columnCount s)
      else TextLength (lineCount e - lineCount s) (columnCount e))"

definition TextLength_betweenPositions :: "position \<Rightarrow> position \<Rightarrow> text_length" where
  "TextLength_betweenPositions position1 position2 =
     (if lineNumber position1 = lineNumber position2
      then TextLength 0 (column position2 - column position1)
      else TextLength (lineNumber position2 - lineNumber position1) (column position2 - 1))"

definition TextLength_fromPosition :: "position \<Rightarrow> text_length" where
  "TextLength_fromPosition p = TextLength (lineNumber p - 1) (column p - 1)"

definition TextLength_ofRange :: "range \<Rightarrow> text_length" where
  "TextLength_ofRange r =
     TextLength_betweenPositions (Range_getStartPosition r) (Range_getEndPosition r)"

text \<open>
  \<open>for (const c of text)\<close> visits code points: a high surrogate and the low surrogate behind it
  are one step. 10 is the line feed.
\<close>

definition is_high_surrogate :: "code_unit \<Rightarrow> bool" where
  "is_high_surrogate c \<longleftrightarrow> 0xD800 \<le> c \<and> c \<le> 0xDBFF"

definition is_low_surrogate :: "code_unit \<Rightarrow> bool" where
  "is_low_surrogate c \<longleftrightarrow> 0xDC00 \<le> c \<and> c \<le> 0xDFFF"

fun code_points :: "js_string \<Rightarrow> js_string list" where
  "code_points [] = []"
| "code_points [c] = [[c]]"
| "code_points (c # c' # cs) =
     (if is_high_surrogate c \<and> is_low_surrogate c' then [c, c'] # code_points cs
      else [c] # code_points (c' # cs))"

fun ofText_loop :: "js_string list \<Rightarrow> int \<Rightarrow> int \<Rightarrow> text_length" where
  "ofText_loop [] line col = TextLength line col"
| "ofText_loop (c # cs) line col =
     (if c = [10] then ofText_loop cs (line + 1) 0 else ofText_loop cs line (col + 1))"

definition TextLength_ofText :: "js_string \<Rightarrow> text_length" where
  "TextLength_ofText text = ofText_loop (code_points text) 0 0"

definition TextLength_ofSubstr :: "js_string \<Rightarrow> offset_range \<Rightarrow> text_length" where
  "TextLength_ofSubstr str r = TextLength_ofText (OffsetRange_substring r str)"

definition TextLength_sum :: "'a list \<Rightarrow> ('a \<Rightarrow> text_length) \<Rightarrow> text_length" where
  "TextLength_sum fragments getLength =
     foldl (\<lambda>acc f. TextLength_add acc (getLength f)) TextLength_zero fragments"

definition TextLength_createRange :: "text_length \<Rightarrow> position \<Rightarrow> range" where
  "TextLength_createRange this startPosition =
     (if lineCount this = 0
      then mk_Range (lineNumber startPosition) (column startPosition) (lineNumber startPosition)
             (column startPosition + columnCount this)
      else mk_Range (lineNumber startPosition) (column startPosition)
             (lineNumber startPosition + lineCount this) (columnCount this + 1))"

definition TextLength_toRange :: "text_length \<Rightarrow> range" where
  "TextLength_toRange this = mk_Range 1 1 (lineCount this + 1) (columnCount this + 1)"

definition TextLength_toLineRange :: "text_length \<Rightarrow> line_range result" where
  "TextLength_toLineRange this = LineRange_ofLength 1 (lineCount this + 1)"

definition TextLength_addToPosition :: "text_length \<Rightarrow> position \<Rightarrow> position" where
  "TextLength_addToPosition this p =
     (if lineCount this = 0 then mk_Position (lineNumber p) (column p + columnCount this)
      else mk_Position (lineNumber p + lineCount this) (columnCount this + 1))"

definition TextLength_addToRange :: "text_length \<Rightarrow> range \<Rightarrow> range" where
  "TextLength_addToRange this r =
     Range_fromPositions (TextLength_addToPosition this (Range_getStartPosition r))
       (Some (TextLength_addToPosition this (Range_getEndPosition r)))"

subsection \<open>The monoid of lengths and its action on positions\<close>

definition valid_length :: "text_length \<Rightarrow> bool" where
  "valid_length l \<longleftrightarrow> 0 \<le> lineCount l \<and> 0 \<le> columnCount l"

lemma TextLength_add_zero [simp]:
  "TextLength_add l TextLength_zero = l" "TextLength_add TextLength_zero l = l"
  by (simp_all add: TextLength_add_def TextLength_zero_def)

lemma TextLength_add_assoc:
  assumes "valid_length b" and "valid_length c"
  shows "TextLength_add (TextLength_add a b) c = TextLength_add a (TextLength_add b c)"
  using assms by (auto simp: TextLength_add_def valid_length_def)

lemma TextLength_add_valid: "valid_length a \<Longrightarrow> valid_length b \<Longrightarrow> valid_length (TextLength_add a b)"
  by (simp add: TextLength_add_def valid_length_def)

lemma addToPosition_add:
  assumes "valid_length a" and "valid_length b"
  shows "TextLength_addToPosition (TextLength_add a b) p =
    TextLength_addToPosition b (TextLength_addToPosition a p)"
  using assms by (auto simp: TextLength_add_def TextLength_addToPosition_def valid_length_def)

lemma addToPosition_between:
  "TextLength_addToPosition (TextLength_betweenPositions p q) p = q"
  by (auto simp: TextLength_addToPosition_def TextLength_betweenPositions_def position_eq_iff)

lemma between_addToPosition:
  assumes "valid_length l"
  shows "TextLength_betweenPositions p (TextLength_addToPosition l p) = l"
  using assms by (auto simp: TextLength_addToPosition_def TextLength_betweenPositions_def valid_length_def)

lemma addToPosition_ge: "valid_length l \<Longrightarrow> p \<le> TextLength_addToPosition l p"
  by (auto simp: TextLength_addToPosition_def position_order valid_length_def)

lemma TextLength_diff_add:
  assumes "\<not> TextLength_isLessThan e s"
  shows "TextLength_add s (TextLength_lengthDiffNonNegative s e) = e"
  using assms by (auto simp: TextLength_add_def TextLength_lengthDiffNonNegative_def TextLength_isLessThan_def)

lemma ofText_loop_add:
  "ofText_loop cs l c = TextLength_add (TextLength l c) (ofText_loop cs 0 0) \<and>
   valid_length (ofText_loop cs 0 0)"
proof (induction cs arbitrary: l c)
  case (Cons x cs)
  note ih = Cons.IH [of 1 0] Cons.IH [of 0 1] Cons.IH [of "l + 1" 0] Cons.IH [of l "c + 1"]
  then show ?case by (auto simp: TextLength_add_def valid_length_def split: if_splits)
qed (simp add: TextLength_add_def valid_length_def)

lemma ofText_loop_append:
  "ofText_loop (xs @ ys) l c = ofText_loop ys (lineCount (ofText_loop xs l c)) (columnCount (ofText_loop xs l c))"
  by (induction xs arbitrary: l c) simp_all

text \<open>A split that does not separate the two halves of a surrogate pair.\<close>

definition splits_pair :: "js_string \<Rightarrow> js_string \<Rightarrow> bool" where
  "splits_pair a b \<longleftrightarrow> a \<noteq> [] \<and> b \<noteq> [] \<and> is_high_surrogate (last a) \<and> is_low_surrogate (hd b)"

lemma surrogates_disjoint: "is_high_surrogate c \<Longrightarrow> \<not> is_low_surrogate c"
  unfolding is_high_surrogate_def is_low_surrogate_def
  by (auto simp: word_le_nat_alt)

lemma code_points_append: "\<not> splits_pair a b \<Longrightarrow> code_points (a @ b) = code_points a @ code_points b"
proof (induction a rule: code_points.induct)
  case (2 c)
  then show ?case by (cases b) (simp_all add: splits_pair_def)
next
  case (3 c c' cs)
  have "\<not> splits_pair (c' # cs) b" using 3(3) by (simp add: splits_pair_def)
  moreover have "\<not> splits_pair cs b" if "is_low_surrogate c'"
    using 3(3) that by (auto simp: splits_pair_def)
  ultimately show ?case using 3 by simp
qed simp

lemma ofText_append:
  assumes "\<not> splits_pair a b"
  shows "TextLength_ofText (a @ b) = TextLength_add (TextLength_ofText a) (TextLength_ofText b)"
  using ofText_loop_add [of "code_points b" "lineCount (TextLength_ofText a)" "columnCount (TextLength_ofText a)"]
  by (simp add: TextLength_ofText_def code_points_append [OF assms] ofText_loop_append TextLength_add_def)

lemma ofText_valid: "valid_length (TextLength_ofText t)"
  using ofText_loop_add [of "code_points t" 0 0] by (simp only: TextLength_ofText_def)

subsection \<open>Properties\<close>

text \<open>The length of a concatenation acts on positions as the lengths of its parts in turn, unless
  the cut separates the two halves of a surrogate pair.\<close>

lemma ofText_concat_action:
  assumes "\<not> splits_pair a b"
  shows "TextLength_ofText (a @ b) = TextLength_add (TextLength_ofText a) (TextLength_ofText b) \<and>
    TextLength_addToPosition (TextLength_ofText (a @ b)) p =
      TextLength_addToPosition (TextLength_ofText b) (TextLength_addToPosition (TextLength_ofText a) p)"
  by (simp add: ofText_append [OF assms] addToPosition_add ofText_valid)

text \<open>\<open>betweenPositions\<close> and \<open>addToPosition\<close> are inverse to each other: adding the length between
  two positions to the first gives the second, and a length is what lies between a position and the
  one it leads to.\<close>

lemma betweenPositions_addToPosition:
  assumes "0 \<le> lineCount l" and "0 \<le> columnCount l"
  shows "TextLength_addToPosition (TextLength_betweenPositions p q) p = q \<and>
    TextLength_betweenPositions p (TextLength_addToPosition l p) = l"
  using between_addToPosition [of l p] assms by (simp add: addToPosition_between valid_length_def)

end
