(* ===== verification/PositionOffset.thy ===== *)
theory PositionOffset
  imports TextLength StringEdit
begin

section \<open>Positions and offsets: \<open>src/vs/editor/common/core/text/positionToOffsetImpl.ts\<close>\<close>

text \<open>
  \<open>PositionOffsetTransformer\<close> computes the offsets at which the lines of its text start and end
  once and keeps them; the model computes them where the code reads them. Reading behind the end of
  these arrays gives \<open>undefined\<close>, which the arithmetic turns into \<open>NaN\<close>: such an offset or
  position is \<open>None\<close>. \<open>StringText\<close> of \<open>abstractText.ts\<close> is a text with its transformer.
\<close>

text \<open>\<open>_computeLineOffsets\<close>; 10 is the line feed, 13 the carriage return.\<close>

function computeLineOffsets_loop :: "js_string \<Rightarrow> nat \<Rightarrow> int list \<Rightarrow> int list \<Rightarrow> int list \<times> int list" where
  "computeLineOffsets_loop text i starts ends =
     (if i < length text
      then (if text ! i = 10
            then computeLineOffsets_loop text (Suc i) (starts @ [int i + 1])
                   (ends @ [if i > 0 \<and> text ! (i - 1) = 13 then int i - 1 else int i])
            else computeLineOffsets_loop text (Suc i) starts ends)
      else (starts, ends @ [int (length text)]))"
  by pat_completeness auto
termination
  by (relation "measure (\<lambda>(text, i, starts, ends). length text - i)") auto

declare computeLineOffsets_loop.simps [simp del]

definition computeLineOffsets :: "js_string \<Rightarrow> int list \<times> int list" where
  "computeLineOffsets text = computeLineOffsets_loop text 0 [0] []"

definition lineStartOffsetByLineIdx :: "js_string \<Rightarrow> int list" where
  "lineStartOffsetByLineIdx text = fst (computeLineOffsets text)"

definition lineEndOffsetByLineIdx :: "js_string \<Rightarrow> int list" where
  "lineEndOffsetByLineIdx text = snd (computeLineOffsets text)"

definition getLineLength :: "js_string \<Rightarrow> int \<Rightarrow> int option" where
  "getLineLength text n =
     (case (js_at (lineEndOffsetByLineIdx text) (n - 1), js_at (lineStartOffsetByLineIdx text) (n - 1)) of
        (Some e, Some s) \<Rightarrow> Some (e - s)
      | _ \<Rightarrow> None)"

definition transformer_textLength :: "js_string \<Rightarrow> text_length" where
  "transformer_textLength text =
     TextLength (int (length (lineStartOffsetByLineIdx text)) - 1)
       (int (length text) - last (lineStartOffsetByLineIdx text))"

text \<open>A column compared with \<open>NaN\<close> is not greater, so the position stays as it is.\<close>

definition validatePosition :: "js_string \<Rightarrow> position \<Rightarrow> position option" where
  "validatePosition text p =
     (if lineNumber p < 1 then Some (mk_Position 1 1)
      else let n = lineCount (transformer_textLength text) + 1
           in if lineNumber p > n
              then map_option (\<lambda>l. mk_Position n (l + 1)) (getLineLength text n)
              else if column p < 1 then Some (mk_Position (lineNumber p) 1)
              else (case getLineLength text (lineNumber p) of
                      None \<Rightarrow> Some p
                    | Some l \<Rightarrow> if column p - 1 > l then Some (mk_Position (lineNumber p) (l + 1)) else Some p))"

definition getOffset :: "js_string \<Rightarrow> position \<Rightarrow> int option" where
  "getOffset text p =
     (case validatePosition text p of
        None \<Rightarrow> None
      | Some v \<Rightarrow> map_option (\<lambda>s. s + column v - 1)
          (js_at (lineStartOffsetByLineIdx text) (lineNumber v - 1)))"

definition getPosition :: "js_string \<Rightarrow> int \<Rightarrow> position option" where
  "getPosition text offset =
     (let idx = findLastIdxMonotonous (lineStartOffsetByLineIdx text) (\<lambda>i. i \<le> offset) 0
                  (length (lineStartOffsetByLineIdx text))
      in map_option (\<lambda>s. mk_Position (idx + 1) (offset - s + 1))
           (js_at (lineStartOffsetByLineIdx text) idx))"

definition getOffsetRange :: "js_string \<Rightarrow> range \<Rightarrow> offset_range option result" where
  "getOffsetRange text r =
     (case (getOffset text (Range_getStartPosition r), getOffset text (Range_getEndPosition r)) of
        (Some s, Some e) \<Rightarrow> bind_result (mk_OffsetRange s e) (\<lambda>rg. Inr (Some rg))
      | _ \<Rightarrow> Inr None)"

definition getRange :: "js_string \<Rightarrow> offset_range \<Rightarrow> range option" where
  "getRange text r =
     (case (getPosition text (start r), getPosition text (endExclusive r)) of
        (Some s, Some e) \<Rightarrow> Some (Range_fromPositions s (Some e))
      | _ \<Rightarrow> None)"

definition getTextLength :: "js_string \<Rightarrow> offset_range \<Rightarrow> text_length option" where
  "getTextLength text r = map_option TextLength_ofRange (getRange text r)"

text \<open>\<open>StringText\<close>: a range that is not a number makes \<open>substring\<close> read nothing.\<close>

definition StringText_getValueOfRange :: "js_string \<Rightarrow> range \<Rightarrow> js_string result" where
  "StringText_getValueOfRange text r =
     bind_result (getOffsetRange text r)
       (\<lambda>rg. Inr (case rg of None \<Rightarrow> [] | Some rg \<Rightarrow> OffsetRange_substring rg text))"

definition StringText_endPositionExclusive :: "js_string \<Rightarrow> position" where
  "StringText_endPositionExclusive text =
     TextLength_addToPosition (transformer_textLength text) (mk_Position 1 1)"

subsection \<open>The line offsets\<close>

definition breaks :: "js_string \<Rightarrow> nat list" where
  "breaks str = filter (\<lambda>i. str ! i = 10) [0..<length str]"

definition break_end :: "js_string \<Rightarrow> nat \<Rightarrow> int" where
  "break_end str i = (if i > 0 \<and> str ! (i - 1) = 13 then int i - 1 else int i)"

lemma computeLineOffsets_loop_eq:
  "i \<le> length str \<Longrightarrow> computeLineOffsets_loop str i starts ends =
     (starts @ map (\<lambda>i. int i + 1) (filter (\<lambda>i. str ! i = 10) [i..<length str]),
      ends @ map (break_end str) (filter (\<lambda>i. str ! i = 10) [i..<length str]) @ [int (length str)])"
proof (induction str i starts ends rule: computeLineOffsets_loop.induct)
  case (1 str i starts ends)
  show ?case
  proof (cases "i < length str")
    case True
    then have "[i..<length str] = i # [Suc i..<length str]" by (simp add: upt_conv_Cons)
    with True 1 show ?thesis
      by (subst computeLineOffsets_loop.simps) (auto simp: break_end_def)
  next
    case False
    with 1 show ?thesis by (simp add: computeLineOffsets_loop.simps)
  qed
qed

lemma line_starts_eq: "lineStartOffsetByLineIdx str = 0 # map (\<lambda>i. int i + 1) (breaks str)"
  by (simp add: lineStartOffsetByLineIdx_def computeLineOffsets_def computeLineOffsets_loop_eq breaks_def)

lemma line_ends_eq:
  "lineEndOffsetByLineIdx str = map (break_end str) (breaks str) @ [int (length str)]"
  by (simp add: lineEndOffsetByLineIdx_def computeLineOffsets_def computeLineOffsets_loop_eq breaks_def)

abbreviation starts :: "js_string \<Rightarrow> nat \<Rightarrow> int" where
  "starts str k \<equiv> lineStartOffsetByLineIdx str ! k"

abbreviation ends :: "js_string \<Rightarrow> nat \<Rightarrow> int" where
  "ends str k \<equiv> lineEndOffsetByLineIdx str ! k"

definition line_total :: "js_string \<Rightarrow> nat" where
  "line_total str = Suc (length (breaks str))"

lemma length_line_arrays [simp]:
  "length (lineStartOffsetByLineIdx str) = line_total str"
  "length (lineEndOffsetByLineIdx str) = line_total str"
  by (simp_all add: line_starts_eq line_ends_eq line_total_def)

lemma breaks_sorted: "i < j \<Longrightarrow> j < length (breaks str) \<Longrightarrow> breaks str ! i < breaks str ! j"
  using sorted_wrt_nth_less [of "(<)" "breaks str" i j]
  by (simp add: breaks_def sorted_wrt_filter)

lemma breaks_nth: "i < length (breaks str) \<Longrightarrow> breaks str ! i < length str \<and> str ! (breaks str ! i) = 10"
  using nth_mem [of i "breaks str"] by (auto simp: breaks_def)

lemma break_complete: "i < length str \<Longrightarrow> str ! i = 10 \<Longrightarrow> \<exists>k<length (breaks str). breaks str ! k = i"
  using in_set_conv_nth [of i "breaks str"] by (simp add: breaks_def)

lemma starts_0 [simp]: "starts str 0 = 0"
  by (simp add: line_starts_eq)

lemma starts_Suc: "Suc k < line_total str \<Longrightarrow> starts str (Suc k) = int (breaks str ! k) + 1"
  by (simp add: line_starts_eq line_total_def)

lemma ends_break: "Suc k < line_total str \<Longrightarrow> ends str k = break_end str (breaks str ! k)"
  by (simp add: line_ends_eq line_total_def nth_append)

lemma ends_last: "Suc k = line_total str \<Longrightarrow> ends str k = int (length str)"
  by (simp add: line_ends_eq line_total_def nth_append)

lemma starts_mono: "i < j \<Longrightarrow> j < line_total str \<Longrightarrow> starts str i < starts str j"
proof (cases i)
  case 0
  assume "i < j" "j < line_total str"
  with 0 show ?thesis by (cases j) (simp_all add: starts_Suc)
next
  case (Suc i')
  assume "i < j" "j < line_total str"
  moreover from this obtain j' where "j = Suc j'" by (cases j) auto
  ultimately show ?thesis using Suc breaks_sorted [of i' j' str] by (simp add: starts_Suc line_total_def)
qed

text \<open>Every line lies between its start and the start of the next one.\<close>

lemma line_bounds:
  assumes "k < line_total str"
  shows "0 \<le> starts str k" and "starts str k \<le> ends str k" and "ends str k \<le> int (length str)"
    and "Suc k < line_total str \<Longrightarrow> ends str k < starts str (Suc k)"
proof -
  show nonneg: "0 \<le> starts str k" using assms by (cases k) (simp_all add: starts_Suc)
  show "ends str k < starts str (Suc k)" if "Suc k < line_total str"
    using that by (simp add: starts_Suc ends_break break_end_def)
  show "ends str k \<le> int (length str)"
  proof (cases "Suc k < line_total str")
    case True
    then show ?thesis using breaks_nth [of k str] by (simp add: ends_break break_end_def line_total_def)
  qed (use assms in \<open>simp add: ends_last\<close>)
  show "starts str k \<le> ends str k"
  proof (cases "Suc k < line_total str")
    case True
    let ?b = "breaks str ! k"
    have le: "starts str k \<le> int ?b"
      using starts_mono [of k "Suc k" str] True by (simp add: starts_Suc)
    have "starts str k \<noteq> int ?b" if "0 < ?b" "str ! (?b - 1) = 13"
    proof (cases k)
      case 0
      then show ?thesis using that by simp
    next
      case (Suc k')
      then have "str ! (breaks str ! k') = 10" using breaks_nth [of k' str] True by (simp add: line_total_def)
      moreover have "?b - 1 = breaks str ! k'" if "starts str k = int ?b"
        using that Suc True by (simp add: starts_Suc)
      ultimately show ?thesis using that(2) by auto
    qed
    with le True show ?thesis by (auto simp: ends_break break_end_def)
  next
    case False
    then have "Suc k = line_total str" using assms by simp
    moreover have "starts str k \<le> int (length str)"
      using assms by (cases k) (use breaks_nth [of "k - 1" str] in \<open>simp_all add: starts_Suc line_total_def\<close>)
    ultimately show ?thesis by (simp add: ends_last)
  qed
qed

text \<open>The line that holds an offset.\<close>

definition line_of :: "js_string \<Rightarrow> int \<Rightarrow> nat" where
  "line_of str x = length (takeWhile (\<lambda>s. s \<le> x) (lineStartOffsetByLineIdx str)) - 1"

lemma line_of_eqI:
  assumes "k < line_total str" and "starts str k \<le> x" and "Suc k < line_total str \<Longrightarrow> x < starts str (Suc k)"
  shows "line_of str x = k"
    and "findLastIdxMonotonous (lineStartOffsetByLineIdx str) (\<lambda>i. i \<le> x) 0 (line_total str) = int k"
proof -
  let ?p = "\<lambda>s. s \<le> x"
  have before: "?p (starts str i)" if "i \<le> k" for i
    using that assms(1,2) starts_mono [of i k str] by (cases "i = k") auto
  have "length (takeWhile ?p (lineStartOffsetByLineIdx str)) = Suc k"
  proof (rule antisym)
    show "Suc k \<le> length (takeWhile ?p (lineStartOffsetByLineIdx str))"
      using before assms(1) by (intro length_takeWhile_less_P_nth) (auto simp: less_Suc_eq_le)
    show "length (takeWhile ?p (lineStartOffsetByLineIdx str)) \<le> Suc k"
    proof (rule ccontr)
      assume "\<not> ?thesis"
      then have lt: "Suc k < length (takeWhile ?p (lineStartOffsetByLineIdx str))" by simp
      then have "Suc k < line_total str"
        using length_takeWhile_le [of ?p "lineStartOffsetByLineIdx str"] by simp
      moreover have "starts str (Suc k) \<le> x"
        using nth_mem [OF lt] takeWhile_nth [OF lt] set_takeWhileD by fastforce
      ultimately show False using assms(3) by simp
    qed
  qed
  note len = this
  then show "line_of str x = k" by (simp add: line_of_def)
  have "monotone_prefix ?p (lineStartOffsetByLineIdx str)"
    unfolding monotone_prefix_def
  proof (intro allI impI)
    fix i j assume "i \<le> j" "j < length (lineStartOffsetByLineIdx str)" "starts str j \<le> x"
    then show "starts str i \<le> x" using starts_mono [of i j str] by (cases "i = j") auto
  qed
  from findLast_bisect_from [OF this, of 0] len
  show "findLastIdxMonotonous (lineStartOffsetByLineIdx str) ?p 0 (line_total str) = int k"
    by (simp add: findLastIdxMonotonous_def)
qed

lemma line_of_exists:
  assumes "0 \<le> x" and "x \<le> int (length str)"
  obtains k where "k < line_total str" "starts str k \<le> x" "Suc k < line_total str \<Longrightarrow> x < starts str (Suc k)"
proof -
  define k where "k = (GREATEST k. k < line_total str \<and> starts str k \<le> x)"
  have ex: "0 < line_total str \<and> starts str 0 \<le> x" using assms(1) by (simp add: line_total_def)
  have k: "k < line_total str \<and> starts str k \<le> x"
    unfolding k_def
    by (rule GreatestI_nat [of "\<lambda>k. k < line_total str \<and> starts str k \<le> x" 0 "line_total str", OF ex]) auto
  have "x < starts str (Suc k)" if "Suc k < line_total str"
  proof (rule ccontr)
    assume "\<not> ?thesis"
    with that have "Suc k \<le> k"
      unfolding k_def
      by (intro Greatest_le_nat [of "\<lambda>k. k < line_total str \<and> starts str k \<le> x" _ "line_total str"]) auto
    then show False by simp
  qed
  with k that show thesis by blast
qed

lemma getPosition_eq:
  assumes "k < line_total str" and "starts str k \<le> x" and "Suc k < line_total str \<Longrightarrow> x < starts str (Suc k)"
  shows "getPosition str x = Some (mk_Position (int k + 1) (x - starts str k + 1))"
  using line_of_eqI(2) [OF assms] assms(1) by (simp add: getPosition_def)

text \<open>The positions of a text: the columns of a line up to its end, before the line break.\<close>

definition text_position :: "js_string \<Rightarrow> position \<Rightarrow> bool" where
  "text_position str p \<longleftrightarrow>
     1 \<le> lineNumber p \<and> lineNumber p \<le> int (line_total str) \<and> 1 \<le> column p \<and>
     column p \<le> ends str (nat (lineNumber p - 1)) - starts str (nat (lineNumber p - 1)) + 1"

lemma text_position_index:
  assumes "text_position str p"
  obtains k where "lineNumber p = int k + 1" "k < line_total str" "1 \<le> column p"
    "column p \<le> ends str k - starts str k + 1"
proof
  show "lineNumber p = int (nat (lineNumber p - 1)) + 1" "nat (lineNumber p - 1) < line_total str"
    "1 \<le> column p"
    "column p \<le> ends str (nat (lineNumber p - 1)) - starts str (nat (lineNumber p - 1)) + 1"
    using assms by (auto simp: text_position_def)
qed

lemma getLineLength_eq: "k < line_total str \<Longrightarrow> getLineLength str (int k + 1) = Some (ends str k - starts str k)"
  by (simp add: getLineLength_def)

lemma transformer_textLength_eq:
  "transformer_textLength str =
     TextLength (int (line_total str) - 1) (int (length str) - starts str (line_total str - 1))"
proof -
  have "lineStartOffsetByLineIdx str \<noteq> []" by (simp add: line_starts_eq)
  then show ?thesis by (simp add: transformer_textLength_def last_conv_nth)
qed

lemma getOffset_eq:
  assumes "lineNumber p = int k + 1" "k < line_total str" "1 \<le> column p"
    "column p \<le> ends str k - starts str k + 1"
  shows "getOffset str p = Some (starts str k + column p - 1)"
proof -
  have "validatePosition str p = Some p"
    using assms getLineLength_eq [OF assms(2)]
    by (simp add: validatePosition_def transformer_textLength_eq Let_def)
  with assms show ?thesis by (simp add: getOffset_def)
qed

lemma validatePosition_valid:
  "\<exists>q. validatePosition str p = Some q \<and> text_position str q \<and> (text_position str p \<longrightarrow> q = p)"
proof -
  have n: "0 < line_total str" by (simp add: line_total_def)
  have last: "getLineLength str (int (line_total str)) =
      Some (ends str (line_total str - 1) - starts str (line_total str - 1))"
    using getLineLength_eq [of "line_total str - 1" str] n by (simp add: of_nat_diff)
  consider "lineNumber p < 1" | "lineNumber p > int (line_total str)"
    | "1 \<le> lineNumber p" "lineNumber p \<le> int (line_total str)" by linarith
  then show ?thesis
  proof cases
    case 1
    then show ?thesis
      using n line_bounds(2) [of 0 str] by (auto simp: validatePosition_def text_position_def)
  next
    case 2
    then show ?thesis
      using n last line_bounds(2) [of "line_total str - 1" str]
      by (auto simp: validatePosition_def text_position_def transformer_textLength_eq Let_def nat_diff_distrib)
  next
    case 3
    define k where "k = nat (lineNumber p - 1)"
    have k: "k < line_total str" "lineNumber p = int k + 1" using 3 by (auto simp: k_def)
    show ?thesis
      using 3 k getLineLength_eq [OF k(1)] line_bounds(2) [OF k(1)]
      by (auto simp: validatePosition_def text_position_def transformer_textLength_eq Let_def)
  qed
qed

lemma getPosition_getOffset:
  assumes "text_position str p"
  shows "\<exists>x. getOffset str p = Some x \<and> 0 \<le> x \<and> x \<le> int (length str) \<and> getPosition str x = Some p"
proof -
  obtain k where k: "lineNumber p = int k + 1" "k < line_total str" "1 \<le> column p"
    "column p \<le> ends str k - starts str k + 1" using text_position_index [OF assms] .
  let ?x = "starts str k + column p - 1"
  note b = line_bounds [OF k(2)]
  have "getPosition str ?x = Some (mk_Position (int k + 1) (?x - starts str k + 1))"
    using k b by (intro getPosition_eq) auto
  moreover have "mk_Position (int k + 1) (?x - starts str k + 1) = p"
    using k by (simp add: position_eq_iff)
  ultimately show ?thesis using getOffset_eq [OF k] b k(3,4) by auto
qed

text \<open>An offset between the two characters of a line break.\<close>

definition inside_crlf :: "js_string \<Rightarrow> int \<Rightarrow> bool" where
  "inside_crlf str x \<longleftrightarrow>
     0 < x \<and> x < int (length str) \<and> str ! nat x = 10 \<and> str ! (nat x - 1) = 13"

lemma getOffset_getPosition:
  assumes "0 \<le> x" and "x \<le> int (length str)" and "\<not> inside_crlf str x"
  shows "\<exists>p. getPosition str x = Some p \<and> text_position str p \<and> getOffset str p = Some x"
proof -
  obtain k where k: "k < line_total str" "starts str k \<le> x"
    "Suc k < line_total str \<Longrightarrow> x < starts str (Suc k)"
    using line_of_exists [OF assms(1,2)] by metis
  let ?p = "mk_Position (int k + 1) (x - starts str k + 1)"
  have "x \<le> ends str k"
  proof (cases "Suc k < line_total str")
    case True
    let ?b = "breaks str ! k"
    have b: "?b < length str" "str ! ?b = 10" using breaks_nth [of k str] True by (simp_all add: line_total_def)
    have "x \<le> int ?b" using k(3) True by (simp add: starts_Suc)
    moreover have "x \<noteq> int ?b" if "0 < ?b" "str ! (?b - 1) = 13"
      using assms(3) b that by (auto simp: inside_crlf_def)
    ultimately show ?thesis using True by (auto simp: ends_break break_end_def)
  next
    case False
    then have "Suc k = line_total str" using k(1) by simp
    with assms(2) show ?thesis by (simp add: ends_last)
  qed
  then have "text_position str ?p" "getOffset str ?p = Some x"
    using k getOffset_eq [of ?p k str] by (simp_all add: text_position_def)
  with getPosition_eq [OF k] show ?thesis by blast
qed

lemma getOffset_mono:
  assumes "text_position str p" and "text_position str q" and "p \<le> q"
    and "getOffset str p = Some x" and "getOffset str q = Some y"
  shows "x \<le> y"
proof -
  obtain k where k: "lineNumber p = int k + 1" "k < line_total str" "1 \<le> column p"
    "column p \<le> ends str k - starts str k + 1" using text_position_index [OF assms(1)] .
  obtain l where l: "lineNumber q = int l + 1" "l < line_total str" "1 \<le> column q"
    "column q \<le> ends str l - starts str l + 1" using text_position_index [OF assms(2)] .
  have xy: "x = starts str k + column p - 1" "y = starts str l + column q - 1"
    using getOffset_eq [OF k] getOffset_eq [OF l] assms(4,5) by simp_all
  consider "k = l" "column p \<le> column q" | "k < l" using assms(3) k(1) l(1) by (auto simp: position_order)
  then show ?thesis
  proof cases
    case 2
    then have "ends str k < starts str (Suc k)" using line_bounds(4) [OF k(2)] l(2) by simp
    moreover have "starts str (Suc k) \<le> starts str l"
      using 2 l(2) starts_mono [of "Suc k" l str] by (cases "Suc k = l") auto
    ultimately show ?thesis using xy k(4) l(3) by linarith
  qed (use xy in simp)
qed

subsection \<open>Properties\<close>

text \<open>C38: for a position of the text, \<open>getOffset\<close> gives an offset of the text that \<open>getPosition\<close> maps
  back to it, and for an offset that is not between a carriage return and its line feed,
  \<open>getPosition\<close> gives a position of the text that \<open>getOffset\<close> maps back to it.\<close>

theorem position_offset_roundtrip:
  assumes "text_position str p" and "0 \<le> x" and "x \<le> int (length str)" and "\<not> inside_crlf str x"
  shows "(\<exists>y. getOffset str p = Some y \<and> 0 \<le> y \<and> y \<le> int (length str) \<and> getPosition str y = Some p) \<and>
    (\<exists>q. getPosition str x = Some q \<and> text_position str q \<and> getOffset str q = Some x)"
  using getPosition_getOffset [OF assms(1)] getOffset_getPosition [OF assms(2-4)] by blast

theorem position_offset_roundtrip_witness:
  "(\<exists>y. getOffset [97, 13, 10, 98] (mk_Position 2 2) = Some y \<and> 0 \<le> y \<and>
      y \<le> int (length [97, 13, 10, 98::code_unit]) \<and> getPosition [97, 13, 10, 98] y = Some (mk_Position 2 2)) \<and>
    (\<exists>q. getPosition [97, 13, 10, 98] 3 = Some q \<and> text_position [97, 13, 10, 98] q \<and>
      getOffset [97, 13, 10, 98] q = Some 3)"
  by (rule position_offset_roundtrip; code_simp)

text \<open>Any position is clamped to a position of the text: \<open>_validatePosition\<close> always gives one, and
  \<open>getOffset\<close> gives for any position the offset of the position it is clamped to, within the text.\<close>

lemma getOffset_clamps:
  "\<exists>q y. validatePosition str p = Some q \<and> text_position str q \<and> getOffset str p = Some y \<and>
    getPosition str y = Some q \<and> 0 \<le> y \<and> y \<le> int (length str)"
proof -
  obtain q where q: "validatePosition str p = Some q" "text_position str q"
    using validatePosition_valid [of str p] by blast
  then have "validatePosition str q = Some q" using validatePosition_valid [of str q] by auto
  with q(1) have "getOffset str p = getOffset str q" by (simp add: getOffset_def)
  with getPosition_getOffset [OF q(2)] q show ?thesis by metis
qed

end
