(* ===== verification/TextEdit.thy ===== *)
theory TextEdit
  imports PositionOffset
begin

section \<open>Text edits: \<open>src/vs/editor/common/core/edits/textEdit.ts\<close>\<close>

text \<open>
  A text replacement is a range of positions and a text; a text edit is the list of its
  replacements. The constructor of \<open>TextEdit\<close> only reports an edit that is not sorted, it does not
  reject it. The operations that read a document are modelled on \<open>StringText\<close>, the document they
  are used with here is its text. The method \<open>compose\<close> is not modelled.
\<close>

record text_replacement =
  tr_range :: "range"
  tr_text :: js_string

abbreviation TextReplacement :: "range \<Rightarrow> js_string \<Rightarrow> text_replacement" where
  "TextReplacement r t \<equiv> \<lparr>tr_range = r, tr_text = t\<rparr>"

type_synonym text_edit = "text_replacement list"

subsection \<open>\<open>TextReplacement\<close>\<close>

definition TextReplacement_isEmpty :: "text_replacement \<Rightarrow> bool" where
  "TextReplacement_isEmpty r \<longleftrightarrow> Range_isEmpty (tr_range r) \<and> length (tr_text r) = 0"

definition TextReplacement_delete :: "range \<Rightarrow> text_replacement" where
  "TextReplacement_delete r = TextReplacement r []"

definition TextReplacement_equals :: "text_replacement \<Rightarrow> text_replacement \<Rightarrow> bool" where
  "TextReplacement_equals first second \<longleftrightarrow>
     Range_equalsRange (Some (tr_range first)) (Some (tr_range second)) \<and> tr_text first = tr_text second"

definition TextReplacement_toEdit :: "text_replacement \<Rightarrow> text_edit" where
  "TextReplacement_toEdit r = [r]"

definition TextReplacement_fromStringReplacement ::
    "string_replacement \<Rightarrow> js_string \<Rightarrow> text_replacement option" where
  "TextReplacement_fromStringReplacement e initialState =
     map_option (\<lambda>r. TextReplacement r (newText e)) (getRange initialState (sr_range e))"

text \<open>The loop of \<open>joinReplacements\<close>, which \<open>TextEdit.toReplacement\<close> repeats.\<close>

fun joinReplacements_loop :: "text_replacement list \<Rightarrow> js_string \<Rightarrow> js_string result" where
  "joinReplacements_loop [] doc = Inr []"
| "joinReplacements_loop [cur] doc = Inr (tr_text cur)"
| "joinReplacements_loop (cur # next # rs) doc =
     bind_result
       (StringText_getValueOfRange doc
          (Range_fromPositions (Range_getEndPosition (tr_range cur))
             (Some (Range_getStartPosition (tr_range next)))))
       (\<lambda>gapText. bind_result (joinReplacements_loop (next # rs) doc)
          (\<lambda>rest. Inr (tr_text cur @ gapText @ rest)))"

definition joinReplacements :: "text_replacement list \<Rightarrow> js_string \<Rightarrow> text_replacement result" where
  "joinReplacements rs doc =
     (case rs of
        [] \<Rightarrow> Inl BugIndicatingError
      | [r] \<Rightarrow> Inr r
      | _ \<Rightarrow> bind_result (joinReplacements_loop rs doc)
          (\<lambda>text. Inr (TextReplacement
             (Range_fromPositions (Range_getStartPosition (tr_range (hd rs)))
                (Some (Range_getEndPosition (tr_range (last rs))))) text)))"

definition extendToCoverRange :: "text_replacement \<Rightarrow> range \<Rightarrow> js_string \<Rightarrow> text_replacement result" where
  "extendToCoverRange this r doc =
     (if Range_containsRange (tr_range this) r then Inr this
      else let newRange = Range_plusRange (tr_range this) r
           in bind_result
                (StringText_getValueOfRange doc
                   (Range_fromPositions (Range_getStartPosition newRange)
                      (Some (Range_getStartPosition (tr_range this)))))
                (\<lambda>textBefore. bind_result
                   (StringText_getValueOfRange doc
                      (Range_fromPositions (Range_getEndPosition (tr_range this))
                         (Some (Range_getEndPosition newRange))))
                   (\<lambda>textAfter. Inr (TextReplacement newRange (textBefore @ tr_text this @ textAfter)))))"

text \<open>\<open>str.replaceAll('\r\n', '\n')\<close>.\<close>

fun replaceCRLF :: "js_string \<Rightarrow> js_string" where
  "replaceCRLF [] = []"
| "replaceCRLF [c] = [c]"
| "replaceCRLF (c # c' # cs) =
     (if c = 13 \<and> c' = 10 then 10 # replaceCRLF cs else c # replaceCRLF (c' # cs))"

definition TextReplacement_removeCommonPrefix :: "text_replacement \<Rightarrow> js_string \<Rightarrow> text_replacement result" where
  "TextReplacement_removeCommonPrefix this doc =
     bind_result (StringText_getValueOfRange doc (tr_range this))
       (\<lambda>v. let original = replaceCRLF v;
                modified = replaceCRLF (tr_text this);
                n = int (commonPrefixLength original modified);
                s = TextLength_addToPosition (TextLength_ofText (js_substring original 0 n))
                      (Range_getStartPosition (tr_range this))
            in Inr (TextReplacement (Range_fromPositions s (Some (Range_getEndPosition (tr_range this))))
                 (js_substring_from modified n)))"

definition TextReplacement_removeCommonSuffix :: "text_replacement \<Rightarrow> js_string \<Rightarrow> text_replacement result" where
  "TextReplacement_removeCommonSuffix this doc =
     bind_result (StringText_getValueOfRange doc (tr_range this))
       (\<lambda>v. let original = replaceCRLF v;
                modified = replaceCRLF (tr_text this);
                n = int (commonSuffixLength original modified);
                e = TextLength_addToPosition
                      (TextLength_ofText (js_substring original 0 (int (length original) - n)))
                      (Range_getStartPosition (tr_range this))
            in Inr (TextReplacement (Range_fromPositions (Range_getStartPosition (tr_range this)) (Some e))
                 (js_substring modified 0 (int (length modified) - n))))"

definition TextReplacement_removeCommonPrefixAndSuffix ::
    "text_replacement \<Rightarrow> js_string \<Rightarrow> text_replacement result" where
  "TextReplacement_removeCommonPrefixAndSuffix this doc =
     bind_result (TextReplacement_removeCommonPrefix this doc)
       (\<lambda>pre. TextReplacement_removeCommonSuffix pre doc)"

definition TextReplacement_isEffectiveDeletion :: "text_replacement \<Rightarrow> js_string \<Rightarrow> bool result" where
  "TextReplacement_isEffectiveDeletion this doc =
     bind_result (StringText_getValueOfRange doc (tr_range this))
       (\<lambda>v. let newText0 = replaceCRLF (tr_text this);
                existing0 = replaceCRLF v;
                l = int (commonPrefixLength newText0 existing0);
                newText1 = js_substring_from newText0 l;
                existing1 = js_substring_from existing0 l;
                r = int (commonSuffixLength newText1 existing1);
                newText2 = js_substring newText1 0 (int (length newText1) - r)
            in Inr (newText2 = []))"

subsection \<open>\<open>TextEdit\<close>\<close>

definition rangeFromPositions :: "position \<Rightarrow> position \<Rightarrow> range result" where
  "rangeFromPositions s e =
     (if lineNumber s = lineNumber e \<and> column s = 9007199254740991
      then Inr (Range_fromPositions e (Some e))
      else if \<not> Position_isBeforeOrEqual s e then Inl BugIndicatingError
      else Inr (mk_Range (lineNumber s) (column s) (lineNumber e) (column e)))"

text \<open>What the constructor asserts of its argument.\<close>

fun checkAdjacentItems :: "'a list \<Rightarrow> ('a \<Rightarrow> 'a \<Rightarrow> bool) \<Rightarrow> bool" where
  "checkAdjacentItems (a # b # rs) p = (if \<not> p a b then False else checkAdjacentItems (b # rs) p)"
| "checkAdjacentItems _ p = True"

definition text_edit_ok :: "text_edit \<Rightarrow> bool" where
  "text_edit_ok rs \<longleftrightarrow>
     checkAdjacentItems rs
       (\<lambda>a b. Position_isBeforeOrEqual (Range_getEndPosition (tr_range a)) (Range_getStartPosition (tr_range b)))"

definition TextEdit_fromStringEdit :: "string_edit \<Rightarrow> js_string \<Rightarrow> text_edit option" where
  "TextEdit_fromStringEdit edit initialState =
     those (map (\<lambda>e. TextReplacement_fromStringReplacement e initialState) edit)"

definition TextEdit_replace :: "range \<Rightarrow> js_string \<Rightarrow> text_edit" where
  "TextEdit_replace originalRange text = [TextReplacement originalRange text]"

definition TextEdit_delete :: "range \<Rightarrow> text_edit" where
  "TextEdit_delete r = [TextReplacement r []]"

definition TextEdit_insert :: "position \<Rightarrow> js_string \<Rightarrow> text_edit" where
  "TextEdit_insert p text = [TextReplacement (Range_fromPositions p (Some p)) text]"

text \<open>\<open>normalize\<close>; \<open>acc\<close> is \<open>replacements\<close>.\<close>

fun TextEdit_normalize_loop :: "text_edit \<Rightarrow> text_edit \<Rightarrow> text_edit" where
  "TextEdit_normalize_loop [] acc = acc"
| "TextEdit_normalize_loop (r # rs) acc =
     TextEdit_normalize_loop rs
       (if acc \<noteq> [] \<and> Position_equals (Some (Range_getEndPosition (tr_range (last acc))))
             (Some (Range_getStartPosition (tr_range r)))
        then butlast acc @ [TextReplacement (Range_plusRange (tr_range (last acc)) (tr_range r))
               (tr_text (last acc) @ tr_text r)]
        else if \<not> TextReplacement_isEmpty r then acc @ [r] else acc)"

definition TextEdit_normalize :: "text_edit \<Rightarrow> text_edit" where
  "TextEdit_normalize this = TextEdit_normalize_loop this []"

datatype position_or_range = AtPosition position | InRange "range"

text \<open>\<open>mapPosition\<close>; the state of the loop is \<open>lineDelta\<close>, \<open>curLine\<close> and \<open>columnDeltaInCurLine\<close>.\<close>

fun mapPosition_loop :: "text_edit \<Rightarrow> position \<Rightarrow> int \<Rightarrow> int \<Rightarrow> int \<Rightarrow> position_or_range result" where
  "mapPosition_loop [] p lineDelta curLine columnDelta =
     Inr (AtPosition (mk_Position (lineNumber p + lineDelta)
       (column p + (if lineNumber p + lineDelta = curLine then columnDelta else 0))))"
| "mapPosition_loop (r # rs) p lineDelta curLine columnDelta =
     (let s = Range_getStartPosition (tr_range r); e = Range_getEndPosition (tr_range r);
          len = TextLength_ofText (tr_text r)
      in if Position_isBeforeOrEqual p s
         then Inr (AtPosition (mk_Position (lineNumber p + lineDelta)
                (column p + (if lineNumber p + lineDelta = curLine then columnDelta else 0))))
         else if Position_isBefore p e
         then let startPos = mk_Position (lineNumber s + lineDelta)
                    (column s + (if lineNumber s + lineDelta = curLine then columnDelta else 0))
              in bind_result (rangeFromPositions startPos (TextLength_addToPosition len startPos))
                   (\<lambda>rg. Inr (InRange rg))
         else let columnDelta1 = (if lineNumber s + lineDelta \<noteq> curLine then 0 else columnDelta);
                  lineDelta' = lineDelta + (lineCount len - (endLineNumber (tr_range r) - startLineNumber (tr_range r)));
                  columnDelta' = (if lineCount len = 0
                    then (if lineNumber e \<noteq> lineNumber s
                          then columnDelta1 + (columnCount len - (column e - 1))
                          else columnDelta1 + (columnCount len - (column e - column s)))
                    else columnCount len)
              in mapPosition_loop rs p lineDelta' (lineNumber e + lineDelta') columnDelta')"

definition mapPosition :: "text_edit \<Rightarrow> position \<Rightarrow> position_or_range result" where
  "mapPosition this p = mapPosition_loop this p 0 0 0"

fun por_start :: "position_or_range \<Rightarrow> position" where
  "por_start (AtPosition p) = p"
| "por_start (InRange r) = Range_getStartPosition r"

fun por_end :: "position_or_range \<Rightarrow> position" where
  "por_end (AtPosition p) = p"
| "por_end (InRange r) = Range_getEndPosition r"

definition mapRange :: "text_edit \<Rightarrow> range \<Rightarrow> range result" where
  "mapRange this r =
     bind_result (mapPosition this (Range_getStartPosition r))
       (\<lambda>s. bind_result (mapPosition this (Range_getEndPosition r))
          (\<lambda>e. rangeFromPositions (por_start s) (por_end e)))"

text \<open>\<open>apply\<close>; the text between two positions is read only where the range is not empty.\<close>

definition read_between :: "js_string \<Rightarrow> position \<Rightarrow> position \<Rightarrow> js_string result" where
  "read_between doc s e =
     bind_result (rangeFromPositions s e)
       (\<lambda>r. if \<not> Range_isEmpty r then StringText_getValueOfRange doc r else Inr [])"

fun TextEdit_apply_loop :: "text_edit \<Rightarrow> position \<Rightarrow> js_string \<Rightarrow> js_string result" where
  "TextEdit_apply_loop [] lastEditEnd doc =
     read_between doc lastEditEnd (StringText_endPositionExclusive doc)"
| "TextEdit_apply_loop (r # rs) lastEditEnd doc =
     bind_result (read_between doc lastEditEnd (Range_getStartPosition (tr_range r)))
       (\<lambda>before. bind_result (TextEdit_apply_loop rs (Range_getEndPosition (tr_range r)) doc)
          (\<lambda>rest. Inr (before @ tr_text r @ rest)))"

definition TextEdit_apply :: "text_edit \<Rightarrow> js_string \<Rightarrow> js_string result" where
  "TextEdit_apply this doc = TextEdit_apply_loop this (mk_Position 1 1) doc"

definition TextEdit_applyToString :: "text_edit \<Rightarrow> js_string \<Rightarrow> js_string result" where
  "TextEdit_applyToString this str = TextEdit_apply this str"

fun TextEdit_getNewRanges_loop :: "text_edit \<Rightarrow> int \<Rightarrow> int \<Rightarrow> int \<Rightarrow> range list" where
  "TextEdit_getNewRanges_loop [] previousEditEndLineNumber lineOffset columnOffset = []"
| "TextEdit_getNewRanges_loop (r # rs) previousEditEndLineNumber lineOffset columnOffset =
     (let newRangeStart = mk_Position (startLineNumber (tr_range r) + lineOffset)
            (startColumn (tr_range r)
             + (if startLineNumber (tr_range r) = previousEditEndLineNumber then columnOffset else 0));
          newRange = TextLength_createRange (TextLength_ofText (tr_text r)) newRangeStart
      in newRange # TextEdit_getNewRanges_loop rs (endLineNumber (tr_range r))
           (endLineNumber newRange - endLineNumber (tr_range r))
           (endColumn newRange - endColumn (tr_range r)))"

definition TextEdit_getNewRanges :: "text_edit \<Rightarrow> range list" where
  "TextEdit_getNewRanges this = TextEdit_getNewRanges_loop this 0 0 0"

definition TextEdit_inverse :: "text_edit \<Rightarrow> js_string \<Rightarrow> text_edit result" where
  "TextEdit_inverse this doc =
     map_result (\<lambda>(e, r). bind_result (StringText_getValueOfRange doc (tr_range e))
       (\<lambda>t. Inr (TextReplacement r t))) (zip this (TextEdit_getNewRanges this))"

definition inverseMapPosition :: "text_edit \<Rightarrow> position \<Rightarrow> js_string \<Rightarrow> position_or_range result" where
  "inverseMapPosition this positionAfterEdit doc =
     bind_result (TextEdit_inverse this doc) (\<lambda>reversed. mapPosition reversed positionAfterEdit)"

definition inverseMapRange :: "text_edit \<Rightarrow> range \<Rightarrow> js_string \<Rightarrow> range result" where
  "inverseMapRange this r doc =
     bind_result (TextEdit_inverse this doc) (\<lambda>reversed. mapRange reversed r)"

definition TextEdit_toReplacement :: "text_edit \<Rightarrow> js_string \<Rightarrow> text_replacement result" where
  "TextEdit_toReplacement this doc = joinReplacements this doc"

definition TextEdit_equals :: "text_edit \<Rightarrow> text_edit \<Rightarrow> bool" where
  "TextEdit_equals this other \<longleftrightarrow> list_all2 TextReplacement_equals this other"

subsection \<open>The conversions of \<open>PositionOffsetTransformerBase\<close>\<close>

definition getStringReplacement :: "js_string \<Rightarrow> text_replacement \<Rightarrow> string_replacement option result" where
  "getStringReplacement doc edit =
     bind_result (getOffsetRange doc (tr_range edit))
       (\<lambda>rg. Inr (map_option (\<lambda>x. StringReplacement x (tr_text edit)) rg))"

definition getStringEdit :: "js_string \<Rightarrow> text_edit \<Rightarrow> string_edit option result" where
  "getStringEdit doc edit =
     bind_result (map_result (getStringReplacement doc) edit)
       (\<lambda>es. case those es of
          None \<Rightarrow> Inr None
        | Some rs \<Rightarrow> bind_result (mk_Edit string_ops rs) (\<lambda>e. Inr (Some e)))"

definition getTextReplacement :: "js_string \<Rightarrow> string_replacement \<Rightarrow> text_replacement option" where
  "getTextReplacement doc edit =
     map_option (\<lambda>r. TextReplacement r (newText edit)) (getRange doc (sr_range edit))"

definition getTextEdit :: "js_string \<Rightarrow> string_edit \<Rightarrow> text_edit option" where
  "getTextEdit doc edit = those (map (getTextReplacement doc) edit)"

subsection \<open>A text edit is the string edit on the offsets\<close>

text \<open>
  The edits that fit a document: their ranges are made of positions of the document, sorted and
  disjoint. \<open>offset_of\<close> is the offset of a position of the document.
\<close>

definition text_edit_fits :: "js_string \<Rightarrow> text_edit \<Rightarrow> bool" where
  "text_edit_fits doc rs \<longleftrightarrow>
     text_edit_ok rs \<and> int (length doc) < 9007199254740990 \<and>
     list_all (\<lambda>r. text_position doc (Range_getStartPosition (tr_range r)) \<and>
       text_position doc (Range_getEndPosition (tr_range r)) \<and> valid_range (tr_range r)) rs"

definition offset_of :: "js_string \<Rightarrow> position \<Rightarrow> int" where
  "offset_of doc p = the (getOffset doc p)"

lemma offset_of:
  assumes "text_position doc p"
  shows "getOffset doc p = Some (offset_of doc p)" and "0 \<le> offset_of doc p"
    and "offset_of doc p \<le> int (length doc)"
  using getPosition_getOffset [OF assms] by (auto simp: offset_of_def)

lemma getPosition_offset_of: "text_position doc p \<Longrightarrow> getPosition doc (offset_of doc p) = Some p"
  using getPosition_getOffset [of doc p] by (auto simp: offset_of_def)

lemma offset_of_mono:
  "text_position doc p \<Longrightarrow> text_position doc q \<Longrightarrow> p \<le> q \<Longrightarrow> offset_of doc p \<le> offset_of doc q"
  using getOffset_mono offset_of(1) by blast

lemma text_position_first: "text_position doc (mk_Position 1 1)" "offset_of doc (mk_Position 1 1) = 0"
proof -
  have 0: "0 < line_total doc" by (simp add: line_total_def)
  then show "text_position doc (mk_Position 1 1)"
    using line_bounds(2) [of 0 doc] by (simp add: text_position_def)
  show "offset_of doc (mk_Position 1 1) = 0"
    using getOffset_eq [of "mk_Position 1 1" 0 doc] 0 line_bounds(2) [of 0 doc] by (simp add: offset_of_def)
qed

lemma text_position_end:
  "text_position doc (StringText_endPositionExclusive doc)"
  "offset_of doc (StringText_endPositionExclusive doc) = int (length doc)"
proof -
  define k where "k = line_total doc - 1"
  have k: "k < line_total doc" "Suc k = line_total doc" by (simp_all add: k_def line_total_def)
  have p: "StringText_endPositionExclusive doc = mk_Position (int k + 1) (int (length doc) - starts doc k + 1)"
  proof -
    have "int (line_total doc) - 1 = int k" "line_total doc - 1 = k" using k(2) by simp_all
    then show ?thesis
      by (cases k) (simp_all add: StringText_endPositionExclusive_def transformer_textLength_eq
          TextLength_addToPosition_def)
  qed
  have e: "ends doc k = int (length doc)" using k by (simp add: ends_last)
  show "text_position doc (StringText_endPositionExclusive doc)"
    using k e line_bounds(2) [OF k(1)] by (simp add: p text_position_def)
  show "offset_of doc (StringText_endPositionExclusive doc) = int (length doc)"
    using getOffset_eq [of "StringText_endPositionExclusive doc" k doc] k e line_bounds(2) [OF k(1)]
    by (simp add: p offset_of_def)
qed

lemma text_position_le_end:
  assumes "text_position doc p"
  shows "p \<le> StringText_endPositionExclusive doc"
proof -
  let ?e = "StringText_endPositionExclusive doc"
  have "\<not> ?e < p"
  proof
    assume lt: "?e < p"
    then have "offset_of doc p = offset_of doc ?e"
      using offset_of_mono [OF text_position_end(1) assms] text_position_end(2) offset_of(3) [OF assms] by simp
    moreover have "getPosition doc (offset_of doc p) = Some p" "getPosition doc (offset_of doc ?e) = Some ?e"
      using assms text_position_end(1) by (simp_all add: getPosition_offset_of)
    ultimately have "p = ?e" by (metis option.inject)
    with lt show False by simp
  qed
  then show ?thesis by simp
qed

lemma getOffsetRange_eq:
  assumes "text_position doc p" and "text_position doc q" and "p \<le> q"
  shows "getOffsetRange doc (Range_fromPositions p (Some q)) =
    Inr (Some (OffsetRange (offset_of doc p) (offset_of doc q)))"
proof -
  have "Range_getStartPosition (Range_fromPositions p (Some q)) = p"
    "Range_getEndPosition (Range_fromPositions p (Some q)) = q"
    using assms(3) by (auto simp: Range_fromPositions_def mk_Range_def range_ends position_order Let_def)
  then show ?thesis
    using offset_of(1) [OF assms(1)] offset_of(1) [OF assms(2)] offset_of_mono [OF assms]
    by (simp add: getOffsetRange_def)
qed

lemma read_between_eq:
  assumes "text_position doc p" and "text_position doc q" and "p \<le> q" and "int (length doc) < 9007199254740990"
  shows "read_between doc p q = Inr (seg doc (offset_of doc p) (offset_of doc q))"
proof -
  obtain k where k: "lineNumber p = int k + 1" "k < line_total doc" "1 \<le> column p"
    "column p \<le> ends doc k - starts doc k + 1" using text_position_index [OF assms(1)] .
  have "column p \<noteq> 9007199254740991"
    using k(4) line_bounds [OF k(2)] assms(4) by linarith
  then have r: "rangeFromPositions p q = Inr (Range_fromPositions p (Some q))"
    using assms(3) by (auto simp: rangeFromPositions_def Position_isBeforeOrEqual_iff Range_fromPositions_def)
  have v: "StringText_getValueOfRange doc (Range_fromPositions p (Some q)) =
      Inr (seg doc (offset_of doc p) (offset_of doc q))"
    using offset_of(3) [OF assms(2)] offset_of_mono [OF assms(1-3)]
    by (simp add: StringText_getValueOfRange_def getOffsetRange_eq [OF assms(1-3)] OffsetRange_substring_seg)
  show ?thesis
  proof (cases "Range_isEmpty (Range_fromPositions p (Some q))")
    case True
    then have "p = q" using assms(3)
      by (auto simp: Range_isEmpty_def Range_fromPositions_def mk_Range_def position_order Let_def split: if_splits)
    with True r show ?thesis by (simp add: read_between_def)
  next
    case False
    with r v show ?thesis by (simp add: read_between_def)
  qed
qed

definition offset_replacement :: "js_string \<Rightarrow> text_replacement \<Rightarrow> string_replacement" where
  "offset_replacement doc r =
     StringReplacement (OffsetRange (offset_of doc (Range_getStartPosition (tr_range r)))
       (offset_of doc (Range_getEndPosition (tr_range r)))) (tr_text r)"

lemma getStringReplacement_eq:
  assumes "text_position doc (Range_getStartPosition (tr_range r))"
    "text_position doc (Range_getEndPosition (tr_range r))" "valid_range (tr_range r)"
  shows "getStringReplacement doc r = Inr (Some (offset_replacement doc r))"
  using offset_of(1) [OF assms(1)] offset_of(1) [OF assms(2)] offset_of_mono [OF assms(1,2)] assms(3)
  by (simp add: getStringReplacement_def getOffsetRange_def offset_replacement_def valid_range_def)

lemma TextEdit_apply_loop_eq:
  assumes "text_position doc p" and "int (length doc) < 9007199254740990" and "text_edit_ok rs"
    and "list_all (\<lambda>r. text_position doc (Range_getStartPosition (tr_range r)) \<and>
       text_position doc (Range_getEndPosition (tr_range r)) \<and> valid_range (tr_range r)) rs"
    and "rs \<noteq> [] \<longrightarrow> p \<le> Range_getStartPosition (tr_range (hd rs))"
  shows "chain sr_range (offset_of doc p) (map (offset_replacement doc) rs) (int (length doc)) \<and>
    TextEdit_apply_loop rs p doc =
      Inr (apply_edits sr_range newText (offset_of doc p) (map (offset_replacement doc) rs) doc)"
  using assms
proof (induction rs arbitrary: p)
  case Nil
  have "read_between doc p (StringText_endPositionExclusive doc) =
      Inr (seg doc (offset_of doc p) (int (length doc)))"
    using read_between_eq [OF Nil(1) text_position_end(1) text_position_le_end [OF Nil(1)] Nil(2)]
    by (simp add: text_position_end(2))
  then show ?case using offset_of [OF Nil(1)] by (simp add: apply_edits_def seg_def)
next
  case (Cons r rs)
  let ?s = "Range_getStartPosition (tr_range r)" and ?e = "Range_getEndPosition (tr_range r)"
  have r: "text_position doc ?s" "text_position doc ?e" "?s \<le> ?e" "p \<le> ?s"
    using Cons.prems(4,5) by (simp_all add: valid_range_def)
  have ok: "text_edit_ok rs" "rs \<noteq> [] \<longrightarrow> ?e \<le> Range_getStartPosition (tr_range (hd rs))"
    using Cons.prems(3) by (cases rs; simp add: text_edit_ok_def Position_isBeforeOrEqual_iff split: if_splits)+
  have IH: "chain sr_range (offset_of doc ?e) (map (offset_replacement doc) rs) (int (length doc)) \<and>
      TextEdit_apply_loop rs ?e doc =
        Inr (apply_edits sr_range newText (offset_of doc ?e) (map (offset_replacement doc) rs) doc)"
    using Cons.IH [OF r(2) Cons.prems(2) ok(1) _ ok(2)] Cons.prems(4) by simp
  show ?case
    using IH read_between_eq [OF Cons.prems(1) r(1,4) Cons.prems(2)]
      offset_of_mono [OF Cons.prems(1) r(1,4)] offset_of_mono [OF r(1-3)]
    by (simp add: apply_edits_Cons) (simp add: offset_replacement_def)
qed

lemma TextEdit_offsets:
  assumes "text_edit_fits doc rs"
  shows "getStringEdit doc rs = Inr (Some (map (offset_replacement doc) rs))"
    and "string_edit_fits (map (offset_replacement doc) rs) (int (length doc))"
    and "TextEdit_apply rs doc = Inr (StringEdit_apply (map (offset_replacement doc) rs) doc)"
proof -
  let ?e = "map (offset_replacement doc) rs"
  have fits: "text_edit_ok rs" "int (length doc) < 9007199254740990"
    "list_all (\<lambda>r. text_position doc (Range_getStartPosition (tr_range r)) \<and>
       text_position doc (Range_getEndPosition (tr_range r)) \<and> valid_range (tr_range r)) rs"
    using assms by (simp_all add: text_edit_fits_def)
  have first: "rs \<noteq> [] \<longrightarrow> mk_Position 1 1 \<le> Range_getStartPosition (tr_range (hd rs))"
    using fits(3) by (cases rs) (auto simp: text_position_def position_order)
  note loop = TextEdit_apply_loop_eq [OF text_position_first(1) fits(2,1,3) first]
  show e: "string_edit_fits ?e (int (length doc))"
    using loop by (simp add: string_edit_fits_def text_position_first(2))
  have "map_result (getStringReplacement doc) rs = Inr (map (\<lambda>r. Some (offset_replacement doc r)) rs)"
    using fits(3) by (intro map_result_cong_Inr getStringReplacement_eq) (auto simp: list_all_iff)
  moreover have "those (map (\<lambda>r. Some (offset_replacement doc r)) rs) = Some ?e"
    by (induction rs) simp_all
  ultimately show "getStringEdit doc rs = Inr (Some ?e)"
    using string.mk_Edit_fits [of ?e] e by (simp add: getStringEdit_def)
  show "TextEdit_apply rs doc = Inr (StringEdit_apply ?e doc)"
    using loop e by (simp add: TextEdit_apply_def text_position_first(2))
qed

end
