(* ===== verification/TextEditLaws.thy ===== *)
theory TextEditLaws
  imports TextEdit
begin

section \<open>Text edits between documents\<close>

text \<open>
  Positions of a document as the lengths of its prefixes, the ranges that \<open>getNewRanges\<close> computes
  as ranges of the edited document, and the inverse of a text edit. \<open>TextLength.ofText\<close> counts code
  points, and the columns of a document are code units, so the laws are for texts without surrogate
  pairs; carriage returns are excluded since a line feed behind one hides an offset.
\<close>

definition plain :: "js_string \<Rightarrow> bool" where
  "plain t \<longleftrightarrow> list_all (\<lambda>c. c \<noteq> 13 \<and> \<not> is_high_surrogate c) t"

definition pos_at :: "js_string \<Rightarrow> int \<Rightarrow> position" where
  "pos_at s x = TextLength_addToPosition (TextLength_ofText (take (nat x) s)) (mk_Position 1 1)"

lemma plain_append [simp]: "plain (a @ b) \<longleftrightarrow> plain a \<and> plain b"
  by (simp add: plain_def)

lemma plain_parts: "plain s \<Longrightarrow> plain (take n s)" "plain s \<Longrightarrow> plain (drop n s)" "plain s \<Longrightarrow> plain (seg s a b)"
  by (auto simp: plain_def seg_def list_all_iff dest: in_set_takeD in_set_dropD)

lemma ofText_plain_append:
  "plain a \<Longrightarrow> TextLength_ofText (a @ b) = TextLength_add (TextLength_ofText a) (TextLength_ofText b)"
  by (rule ofText_append) (auto simp: splits_pair_def plain_def list_all_iff)

lemma ofText_unit: "TextLength_ofText [c] = (if c = 10 then TextLength 1 0 else TextLength 0 1)"
  by (simp add: TextLength_ofText_def)

subsection \<open>Positions are lengths of prefixes\<close>

lemma prefix_length:
  assumes "plain str" and "n \<le> length str"
  shows "\<exists>k<line_total str. starts str k \<le> int n \<and> (Suc k < line_total str \<longrightarrow> int n < starts str (Suc k)) \<and>
    TextLength_ofText (take n str) = TextLength (int k) (int n - starts str k)"
  using assms(2)
proof (induction n)
  case 0
  have "0 < starts str (Suc 0)" if "Suc 0 < line_total str" using starts_mono [OF _ that, of 0] by simp
  then show ?case by (intro exI [of _ 0]) (auto simp: line_total_def TextLength_ofText_def)
next
  case (Suc n)
  then obtain k where k: "k < line_total str" "starts str k \<le> int n"
    "Suc k < line_total str \<Longrightarrow> int n < starts str (Suc k)"
    "TextLength_ofText (take n str) = TextLength (int k) (int n - starts str k)" by auto
  have len: "TextLength_ofText (take (Suc n) str) =
      TextLength_add (TextLength (int k) (int n - starts str k)) (TextLength_ofText [str ! n])"
    using Suc.prems k(4) ofText_plain_append [OF plain_parts(1) [OF assms(1)], of n "[str ! n]"]
    by (simp add: take_Suc_conv_app_nth)
  show ?case
  proof (cases "str ! n = 10")
    case True
    then obtain j where j: "Suc j < line_total str" "starts str (Suc j) = int n + 1"
      using break_complete [of n str] Suc.prems starts_Suc [of _ str] by (auto simp: line_total_def)
    have "k \<le> j"
    proof (rule ccontr)
      assume "\<not> k \<le> j"
      then consider "k = Suc j" | "Suc j < k" by linarith
      then show False using starts_mono [of "Suc j" k str] k(1,2) j by cases auto
    qed
    moreover have "\<not> k < j"
      using starts_mono [of "Suc k" j str] starts_mono [of j "Suc j" str] k(3) j by (cases "Suc k = j") auto
    ultimately have "j = k" by simp
    with j len True show ?thesis
      using starts_mono [of "Suc k" "Suc (Suc k)" str]
      by (intro exI [of _ "Suc k"]) (auto simp: ofText_unit TextLength_add_def)
  next
    case False
    have "int (Suc n) < starts str (Suc k)" if "Suc k < line_total str"
    proof -
      have "int n \<noteq> int (breaks str ! k)"
        using breaks_nth [of k str] that False by (auto simp: line_total_def)
      with k(3) [OF that] starts_Suc [OF that] show ?thesis by simp
    qed
    with k(1,2) len False show ?thesis
      by (intro exI [of _ k]) (auto simp: ofText_unit TextLength_add_def)
  qed
qed

lemma getPosition_pos_at:
  assumes "plain str" and "0 \<le> x" and "x \<le> int (length str)"
  shows "getPosition str x = Some (pos_at str x)"
proof -
  have "nat x \<le> length str" using assms(3) by simp
  from prefix_length [OF assms(1) this] assms(2)
  obtain k where k: "k < line_total str" "starts str k \<le> x" "Suc k < line_total str \<longrightarrow> x < starts str (Suc k)"
    "TextLength_ofText (take (nat x) str) = TextLength (int k) (x - starts str k)" by auto
  moreover have "pos_at str x = mk_Position (int k + 1) (x - starts str k + 1)"
    using k(4) by (cases "k = 0") (simp_all add: pos_at_def TextLength_addToPosition_def)
  ultimately show ?thesis using getPosition_eq [of k str x] by simp
qed

lemma pos_at_ok:
  assumes "plain str" and "0 \<le> x" and "x \<le> int (length str)"
  shows "text_position str (pos_at str x)" and "offset_of str (pos_at str x) = x"
proof -
  have "str ! i \<noteq> 13" if "i < length str" for i
    using assms(1) that by (simp add: plain_def list_all_length)
  then have "\<not> inside_crlf str x" by (auto simp: inside_crlf_def)
  from getOffset_getPosition [OF assms(2,3) this] getPosition_pos_at [OF assms]
  show "text_position str (pos_at str x)" and "offset_of str (pos_at str x) = x"
    by (auto simp: offset_of_def)
qed

lemma pos_at_offset_of:
  assumes "plain str" and "text_position str p"
  shows "pos_at str (offset_of str p) = p"
  using getPosition_pos_at [OF assms(1)] getPosition_offset_of [OF assms(2)] offset_of [OF assms(2)] by simp

lemma pos_at_add:
  assumes "plain s" and "0 \<le> x" and "x \<le> y"
  shows "pos_at s y = TextLength_addToPosition (TextLength_ofText (seg s x y)) (pos_at s x)"
proof -
  have "take (nat y) s = take (nat x) s @ seg s x y"
    using assms(2,3) by (simp add: seg_def flip: take_add)
  then show ?thesis
    by (simp add: pos_at_def ofText_plain_append plain_parts assms(1) addToPosition_add ofText_valid)
qed

lemma pos_at_mono:
  assumes "plain s" and "0 \<le> x" and "x \<le> y"
  shows "pos_at s x \<le> pos_at s y"
  using addToPosition_ge [OF ofText_valid] pos_at_add [OF assms] by simp

subsection \<open>The ranges of the edited document\<close>

definition range_at :: "js_string \<Rightarrow> int \<Rightarrow> int \<Rightarrow> range" where
  "range_at s x y = Range_fromPositions (pos_at s x) (Some (pos_at s y))"

fun new_ranges :: "js_string \<Rightarrow> int \<Rightarrow> string_edit \<Rightarrow> range list" where
  "new_ranges s1 d [] = []"
| "new_ranges s1 d (e # es) =
     range_at s1 (start (sr_range e) + d) (start (sr_range e) + d + int (length (newText e))) #
     new_ranges s1 (d + (int (length (newText e)) - OffsetRange_length (sr_range e))) es"

lemma range_at_ends:
  assumes "plain s" and "0 \<le> x" and "x \<le> y"
  shows "Range_getStartPosition (range_at s x y) = pos_at s x" "Range_getEndPosition (range_at s x y) = pos_at s y"
    "valid_range (range_at s x y)"
  using pos_at_mono [OF assms] by (simp_all add: range_at_def valid_range_def Range_fromPositions_ends)

text \<open>The loop of \<open>getNewRanges\<close> moves the start of a range by the length between it and the end of the
  replacement before it.\<close>

lemma new_start_eq:
  "mk_Position (startLineNumber r + (lineNumber n - lineNumber e))
     (startColumn r + (if startLineNumber r = lineNumber e then column n - column e else 0)) =
   TextLength_addToPosition (TextLength_betweenPositions e (Range_getStartPosition r)) n"
  by (simp add: TextLength_addToPosition_def TextLength_betweenPositions_def range_ends)

lemma createRange_eq:
  "valid_length l \<Longrightarrow> TextLength_createRange l p = Range_fromPositions p (Some (TextLength_addToPosition l p))"
  by (auto simp: TextLength_createRange_def TextLength_addToPosition_def Range_fromPositions_def mk_Range_def
      valid_length_def Let_def)

abbreviation replacement_in :: "js_string \<Rightarrow> text_replacement \<Rightarrow> bool" where
  "replacement_in doc r \<equiv> text_position doc (Range_getStartPosition (tr_range r)) \<and>
     text_position doc (Range_getEndPosition (tr_range r)) \<and> valid_range (tr_range r)"

lemma getNewRanges_loop_eq:
  assumes "string.sync doc s1 d a (map (offset_replacement doc) rs)" and "plain doc" and "plain s1"
    and "list_all (replacement_in doc) rs"
  shows "TextEdit_getNewRanges_loop rs (lineNumber (pos_at doc a))
      (lineNumber (pos_at s1 (a + d)) - lineNumber (pos_at doc a))
      (column (pos_at s1 (a + d)) - column (pos_at doc a)) =
    new_ranges s1 d (map (offset_replacement doc) rs)"
  using assms(1,4)
proof (induction rs arbitrary: a d)
  case (Cons r rs)
  define e where "e = offset_replacement doc r"
  let ?es = "map (offset_replacement doc) rs" and ?S = "start (sr_range e)" and ?E = "endExclusive (sr_range e)"
  let ?n = "int (length (newText e))"
  have sync: "string.sync doc s1 d a (e # ?es)" using Cons.prems(1) by (simp add: e_def)
  then have a: "0 \<le> a" "a \<le> ?S" "0 \<le> a + d" "chain sr_range ?S (e # ?es) (int (length doc))"
    by (simp_all add: string.sync_def)
  have at_S: "string.sync doc s1 d ?S (e # ?es)" "seg s1 (a + d) (?S + d) = seg doc a ?S"
    using string.sync_base [OF sync a(2)] a(4) by simp_all
  have text_S: "seg s1 (?S + d) (?S + d + ?n) = newText e"
    using string.sync_into(1) [of doc s1 d e ?es ?n] at_S(1) by (simp add: seg_def)
  have pos: "pos_at doc ?S = Range_getStartPosition (tr_range r)" "pos_at doc ?E = Range_getEndPosition (tr_range r)"
    using Cons.prems(2) pos_at_offset_of [OF assms(2)] by (simp_all add: e_def offset_replacement_def)
  have "TextLength_betweenPositions (pos_at doc a) (Range_getStartPosition (tr_range r)) =
      TextLength_ofText (seg doc a ?S)"
    using pos_at_add [OF assms(2) a(1,2)] pos(1) between_addToPosition [OF ofText_valid] by metis
  then have newStart: "TextLength_addToPosition
      (TextLength_betweenPositions (pos_at doc a) (Range_getStartPosition (tr_range r))) (pos_at s1 (a + d)) =
      pos_at s1 (?S + d)"
    using pos_at_add [OF assms(3) a(3), of "?S + d"] a(2) at_S(2) by simp
  have S: "0 \<le> ?S + d" using at_S(1) by (simp add: string.sync_def)
  have newRange: "TextLength_createRange (TextLength_ofText (tr_text r)) (pos_at s1 (?S + d)) =
      range_at s1 (?S + d) (?S + d + ?n)"
    using pos_at_add [OF assms(3) S, of "?S + d + ?n"] text_S
    by (simp add: createRange_eq ofText_valid range_at_def e_def offset_replacement_def)
  have "string.sync doc s1 (d + (?n - OffsetRange_length (sr_range e))) ?E ?es"
    using string.sync_copy(1) [of doc s1 d a "[e]" ?es] sync by simp
  moreover have shift: "?E + (d + (?n - OffsetRange_length (sr_range e))) = ?S + d + ?n"
    by (simp add: OffsetRange_length_def)
  ultimately have IH: "TextEdit_getNewRanges_loop rs (lineNumber (pos_at doc ?E))
      (lineNumber (pos_at s1 (?S + d + ?n)) - lineNumber (pos_at doc ?E))
      (column (pos_at s1 (?S + d + ?n)) - column (pos_at doc ?E)) =
    new_ranges s1 (d + (?n - OffsetRange_length (sr_range e))) ?es"
    using Cons.IH Cons.prems(2) unfolding shift [symmetric] by simp
  have "endLineNumber (tr_range r) = lineNumber (pos_at doc ?E)" "endColumn (tr_range r) = column (pos_at doc ?E)"
    unfolding pos(2) by (simp_all add: range_ends)
  moreover have "endLineNumber (range_at s1 (?S + d) (?S + d + ?n)) = lineNumber (pos_at s1 (?S + d + ?n))"
    "endColumn (range_at s1 (?S + d) (?S + d + ?n)) = column (pos_at s1 (?S + d + ?n))"
    using range_at_ends(2) [OF assms(3) S, of "?S + d + ?n"] by (simp_all add: range_ends position_eq_iff)
  ultimately show ?case
    using IH Cons.prems(2) newRange
    unfolding list.map e_def [symmetric] TextEdit_getNewRanges_loop.simps new_ranges.simps new_start_eq newStart Let_def
    by simp
qed simp

lemma getNewRanges_eq:
  assumes "text_edit_fits doc rs" and "plain doc"
    and "plain (StringEdit_apply (map (offset_replacement doc) rs) doc)"
  shows "TextEdit_getNewRanges rs =
    new_ranges (StringEdit_apply (map (offset_replacement doc) rs) doc) 0 (map (offset_replacement doc) rs)"
proof -
  let ?es = "map (offset_replacement doc) rs"
  have "string.sync doc (StringEdit_apply ?es doc) 0 0 ?es"
    using string.sync_start [of ?es doc] TextEdit_offsets(2) [OF assms(1)] by simp
  from getNewRanges_loop_eq [OF this assms(2,3)] assms(1)
  have "TextEdit_getNewRanges_loop rs 1 0 0 = new_ranges (StringEdit_apply ?es doc) 0 ?es"
    by (simp add: text_edit_fits_def pos_at_def TextLength_ofText_def TextLength_addToPosition_def)
  moreover have "TextEdit_getNewRanges_loop rs 0 0 0 = TextEdit_getNewRanges_loop rs 1 0 0"
    by (cases rs) simp_all
  ultimately show ?thesis by (simp add: TextEdit_getNewRanges_def)
qed

subsection \<open>From offsets back to positions\<close>

definition position_replacement :: "js_string \<Rightarrow> string_replacement \<Rightarrow> text_replacement" where
  "position_replacement s e =
     TextReplacement (range_at s (start (sr_range e)) (endExclusive (sr_range e))) (newText e)"

lemma chain_bounds:
  assumes "chain sr_range a es n" and "e \<in> set es"
  shows "a \<le> start (sr_range e)" "start (sr_range e) \<le> endExclusive (sr_range e)" "endExclusive (sr_range e) \<le> n"
  using assms
proof (induction es arbitrary: a)
  case (Cons x es)
  {
    case 1 then show ?case using Cons.IH(1) [of "endExclusive (sr_range x)"] by fastforce
  next
    case 2 then show ?case using Cons.IH(2) [of "endExclusive (sr_range x)"] by fastforce
  next
    case 3
    then show ?case
      using Cons.IH(3) [of "endExclusive (sr_range x)"] chain_end_pos [of sr_range "endExclusive (sr_range x)" es n]
      by fastforce
  }
qed simp_all

lemma position_replacement_in:
  assumes "plain s" and "0 \<le> start (sr_range e)" and "start (sr_range e) \<le> endExclusive (sr_range e)"
    and "endExclusive (sr_range e) \<le> int (length s)"
  shows "replacement_in s (position_replacement s e)" "offset_replacement s (position_replacement s e) = e"
  using range_at_ends [OF assms(1-3)] pos_at_ok [OF assms(1)] assms(2-4)
  by (simp_all add: position_replacement_def offset_replacement_def)

lemma position_edit_ok:
  assumes "plain s" and "chain sr_range a es n" and "0 \<le> a"
  shows "text_edit_ok (map (position_replacement s) es)"
  using assms(2,3)
proof (induction es arbitrary: a)
  case (Cons e es)
  have e: "0 \<le> start (sr_range e)" "start (sr_range e) \<le> endExclusive (sr_range e)"
    "chain sr_range (endExclusive (sr_range e)) es n" "0 \<le> endExclusive (sr_range e)" using Cons.prems by simp_all
  show ?case
  proof (cases es)
    case (Cons e' es')
    then have e': "endExclusive (sr_range e) \<le> start (sr_range e')" "start (sr_range e') \<le> endExclusive (sr_range e')"
      using e(3) by simp_all
    then have "pos_at s (endExclusive (sr_range e)) \<le> pos_at s (start (sr_range e'))"
      using pos_at_mono [OF assms(1)] e by simp
    with Cons.IH [OF e(3,4)] Cons e e' show ?thesis
      by (simp add: text_edit_ok_def position_replacement_def range_at_ends assms(1) Position_isBeforeOrEqual_iff)
  qed (simp add: text_edit_ok_def)
qed (simp add: text_edit_ok_def)

lemma position_edit:
  assumes "plain s" and "string_edit_fits es (int (length s))" and "int (length s) < 9007199254740990"
  shows "text_edit_fits s (map (position_replacement s) es)"
    and "map (offset_replacement s) (map (position_replacement s) es) = es"
    and "TextEdit_apply (map (position_replacement s) es) s = Inr (StringEdit_apply es s)"
proof -
  have ch: "chain sr_range 0 es (int (length s))" using assms(2) by (simp add: string_edit_fits_def)
  note each = position_replacement_in [OF assms(1) chain_bounds [OF ch]]
  show fits: "text_edit_fits s (map (position_replacement s) es)"
    using position_edit_ok [OF assms(1) ch] each(1) assms(3) by (simp add: text_edit_fits_def list_all_iff)
  show eq: "map (offset_replacement s) (map (position_replacement s) es) = es"
    using each(2) by (simp add: map_idI)
  show "TextEdit_apply (map (position_replacement s) es) s = Inr (StringEdit_apply es s)"
    using TextEdit_offsets(3) [OF fits] unfolding eq .
qed

subsection \<open>The inverse\<close>

fun offset_inverse :: "js_string \<Rightarrow> int \<Rightarrow> string_edit \<Rightarrow> string_edit" where
  "offset_inverse s d [] = []"
| "offset_inverse s d (e # es) =
     StringReplacement (OffsetRange (start (sr_range e) + d) (start (sr_range e) + d + int (length (newText e))))
       (seg s (start (sr_range e)) (endExclusive (sr_range e))) #
     offset_inverse s (d + (int (length (newText e)) - OffsetRange_length (sr_range e))) es"

lemma offset_inverse_of: "inverse_of string_ops newText s d es (offset_inverse s d es)"
  by (induction es arbitrary: d) simp_all

lemma getValueOfRange_eq:
  assumes "replacement_in doc r"
  shows "StringText_getValueOfRange doc (tr_range r) =
    Inr (seg doc (start (sr_range (offset_replacement doc r))) (endExclusive (sr_range (offset_replacement doc r))))"
proof -
  let ?s = "Range_getStartPosition (tr_range r)" and ?e = "Range_getEndPosition (tr_range r)"
  have "?s \<le> ?e" using assms by (simp add: valid_range_def)
  with getOffsetRange_eq [of doc ?s ?e] offset_of_mono [of doc ?s ?e] offset_of(3) [of doc ?e] assms
  show ?thesis
    by (simp add: StringText_getValueOfRange_def Range_fromPositions_roundtrip OffsetRange_substring_seg
        offset_replacement_def)
qed

lemma TextEdit_inverse_list:
  assumes "list_all (replacement_in doc) rs"
  shows "map_result (\<lambda>(e, r). bind_result (StringText_getValueOfRange doc (tr_range e))
      (\<lambda>t. Inr (TextReplacement r t))) (zip rs (new_ranges s1 d (map (offset_replacement doc) rs))) =
    Inr (map (position_replacement s1) (offset_inverse doc d (map (offset_replacement doc) rs)))"
  using assms
proof (induction rs arbitrary: d)
  case (Cons r rs)
  then show ?case by (simp add: getValueOfRange_eq position_replacement_def)
qed simp

lemma plain_apply:
  "plain doc \<Longrightarrow> \<forall>e\<in>set es. plain (newText e) \<Longrightarrow> plain (apply_edits sr_range newText a es doc)"
proof (induction es arbitrary: a)
  case Nil
  then show ?case by (simp add: apply_edits_def plain_parts)
qed (simp add: apply_edits_Cons plain_parts)

lemma TextEdit_inverse_ok:
  assumes "text_edit_fits doc rs" and "plain doc" and "list_all (\<lambda>r. plain (tr_text r)) rs"
  defines "s1 \<equiv> StringEdit_apply (map (offset_replacement doc) rs) doc"
  assumes "int (length s1) < 9007199254740990"
  shows "\<exists>inv. TextEdit_apply rs doc = Inr s1 \<and> TextEdit_inverse rs doc = Inr inv \<and>
    text_edit_fits s1 inv \<and> TextEdit_apply inv s1 = Inr doc"
proof -
  let ?es = "map (offset_replacement doc) rs"
  let ?inv = "offset_inverse doc 0 ?es"
  have es: "string_edit_fits ?es (int (length doc))" by (rule TextEdit_offsets(2) [OF assms(1)])
  have "\<forall>e\<in>set ?es. plain (newText e)" using assms(3) by (auto simp: list_all_iff offset_replacement_def)
  then have plain: "plain s1" using plain_apply [OF assms(2), of ?es 0] es by (simp add: s1_def)
  have inv: "string_edit_fits ?inv (int (length s1))" "apply_edits sr_range newText 0 ?inv s1 = doc"
    using string.inverse_apply [OF _ offset_inverse_of, of ?es doc] es by (simp_all add: s1_def)
  have "TextEdit_inverse rs doc = Inr (map (position_replacement s1) ?inv)"
    using TextEdit_inverse_list [of doc rs s1 0] getNewRanges_eq [OF assms(1,2)] plain assms(1)
    by (simp add: TextEdit_inverse_def s1_def text_edit_fits_def)
  with position_edit [OF plain inv(1) assms(5)] inv TextEdit_offsets(3) [OF assms(1)] show ?thesis
    by (simp add: s1_def)
qed

subsection \<open>Joining the replacements of an edit\<close>

lemma getTextReplacement_eq:
  assumes "replacement_in doc r"
  shows "getTextReplacement doc (offset_replacement doc r) = Some r"
  using assms by (simp add: getTextReplacement_def getRange_def offset_replacement_def getPosition_offset_of
      Range_fromPositions_roundtrip)

lemma joinReplacements_loop_eq:
  assumes "list_all (replacement_in doc) rs" and "text_edit_ok rs" and "rs \<noteq> []"
  shows "joinReplacements_loop rs doc =
    Inr (emit sr_range newText (start (sr_range (offset_replacement doc (hd rs)))) (map (offset_replacement doc) rs) doc)"
  using assms
proof (induction rs doc rule: joinReplacements_loop.induct)
  case (2 cur doc)
  then show ?case by (simp add: seg_def offset_replacement_def)
next
  case (3 cur nxt rs doc)
  let ?e = "Range_getEndPosition (tr_range cur)" and ?s = "Range_getStartPosition (tr_range nxt)"
  have pos: "text_position doc ?e" "text_position doc ?s" "?e \<le> ?s"
    using "3.prems"(1,2) by (simp_all add: text_edit_ok_def Position_isBeforeOrEqual_iff split: if_splits)
  have "StringText_getValueOfRange doc (Range_fromPositions ?e (Some ?s)) =
      Inr (seg doc (offset_of doc ?e) (offset_of doc ?s))"
    using offset_of(3) [OF pos(2)] offset_of_mono [OF pos]
    by (simp add: StringText_getValueOfRange_def getOffsetRange_eq [OF pos] OffsetRange_substring_seg)
  moreover have "text_edit_ok (nxt # rs)" using "3.prems"(2) by (simp add: text_edit_ok_def split: if_splits)
  ultimately show ?case using 3 by (simp add: offset_replacement_def seg_def)
qed simp

lemma emit_from_start:
  assumes "chain sr_range a es n" and "es \<noteq> []" and "0 \<le> a" and "n \<le> int (length s)"
  shows "apply_edits sr_range newText a es s =
    seg s a (start (sr_range (hd es))) @ emit sr_range newText (start (sr_range (hd es))) es s @
      drop (nat (endExclusive (sr_range (last es)))) s"
proof -
  have "end_pos sr_range a es = endExclusive (sr_range (last es))"
    using assms(2) by (induction es arbitrary: a) auto
  with assms(2) show ?thesis by (cases es) (simp_all add: apply_edits_def seg_def)
qed

lemma text_edit_hd_last:
  assumes "list_all (replacement_in doc) rs" and "text_edit_ok rs" and "rs \<noteq> []"
  shows "Range_getStartPosition (tr_range (hd rs)) \<le> Range_getEndPosition (tr_range (last rs))"
  using assms
proof (induction rs rule: induct_list012)
  case (3 a b rs)
  have "Range_getStartPosition (tr_range a) \<le> Range_getEndPosition (tr_range a)"
    "Range_getEndPosition (tr_range a) \<le> Range_getStartPosition (tr_range b)" "text_edit_ok (b # rs)"
    using "3.prems"(1,2) by (simp_all add: text_edit_ok_def valid_range_def Position_isBeforeOrEqual_iff split: if_splits)
  moreover from this(3) have "Range_getStartPosition (tr_range b) \<le> Range_getEndPosition (tr_range (last (b # rs)))"
    using "3.IH"(2) "3.prems"(1) by simp
  ultimately show ?case using order_trans by fastforce
qed (simp_all add: valid_range_def)

lemma toReplacement_ok:
  assumes "text_edit_fits doc rs" and "rs \<noteq> []"
  shows "\<exists>r. TextEdit_toReplacement rs doc = Inr r \<and> text_edit_fits doc [r] \<and>
    TextEdit_apply [r] doc = TextEdit_apply rs doc"
proof (cases "\<exists>r. rs = [r]")
  case True
  then obtain r where "rs = [r]" by blast
  with assms show ?thesis by (simp add: TextEdit_toReplacement_def joinReplacements_def)
next
  case False
  let ?es = "map (offset_replacement doc) rs"
  let ?s = "Range_getStartPosition (tr_range (hd rs))" and ?e = "Range_getEndPosition (tr_range (last rs))"
  have in_doc: "list_all (replacement_in doc) rs" "text_edit_ok rs" using assms(1) by (simp_all add: text_edit_fits_def)
  define t where "t = emit sr_range newText (start (sr_range (offset_replacement doc (hd rs)))) ?es doc"
  define r where "r = TextReplacement (Range_fromPositions ?s (Some ?e)) t"
  have "TextEdit_toReplacement rs doc = Inr r"
    using joinReplacements_loop_eq [OF in_doc assms(2)] False assms(2)
    by (auto simp: TextEdit_toReplacement_def joinReplacements_def r_def t_def split: list.splits)
  moreover have "?s \<le> ?e" by (rule text_edit_hd_last [OF in_doc assms(2)])
  then have ends: "Range_getStartPosition (tr_range r) = ?s" "Range_getEndPosition (tr_range r) = ?e"
    by (simp_all add: r_def Range_fromPositions_ends)
  moreover have "text_position doc ?s" "text_position doc ?e"
    using in_doc(1) assms(2) by (simp_all add: list_all_iff)
  ultimately have fits: "TextEdit_toReplacement rs doc = Inr r" "text_edit_fits doc [r]"
    using assms(1) \<open>?s \<le> ?e\<close> by (simp_all add: text_edit_fits_def text_edit_ok_def valid_range_def)
  have ch: "chain sr_range 0 ?es (int (length doc))"
    using TextEdit_offsets(2) [OF assms(1)] by (simp add: string_edit_fits_def)
  have "offset_replacement doc r = StringReplacement (OffsetRange (offset_of doc ?s) (offset_of doc ?e)) t"
    unfolding offset_replacement_def ends by (simp add: r_def)
  then have "apply_edits sr_range newText 0 ?es doc = apply_edits sr_range newText 0 [offset_replacement doc r] doc"
    using emit_from_start [OF ch, of doc] assms(2)
    by (simp add: apply_edits_Cons t_def hd_map last_map) (simp add: apply_edits_def offset_replacement_def)
  with TextEdit_offsets(2,3) [OF assms(1)] TextEdit_offsets(2,3) [OF fits(2)] fits show ?thesis by simp
qed

subsection \<open>Properties\<close>

text \<open>C30: applying a text edit that fits a document is applying, to its text, the string edit that
  \<open>getStringEdit\<close> computes from it, and \<open>getTextEdit\<close> maps that string edit back to the text edit.\<close>

theorem TextEdit_refines_StringEdit:
  assumes "text_edit_fits doc rs"
  shows "\<exists>e. getStringEdit doc rs = Inr (Some e) \<and> string_edit_fits e (int (length doc)) \<and>
    TextEdit_apply rs doc = Inr (StringEdit_apply e doc) \<and> getTextEdit doc e = Some rs"
proof -
  have "list_all (replacement_in doc) rs" using assms by (simp add: text_edit_fits_def)
  then have "those (map (getTextReplacement doc) (map (offset_replacement doc) rs)) = Some rs"
    by (induction rs) (auto simp: getTextReplacement_eq)
  with TextEdit_offsets [OF assms] show ?thesis by (simp add: getTextEdit_def)
qed

theorem TextEdit_refines_StringEdit_witness:
  "\<exists>e. getStringEdit [97, 98, 13, 10, 99] [TextReplacement (mk_Range 1 2 2 1) [120], TextReplacement (mk_Range 2 2 2 2) [121]] =
      Inr (Some e) \<and> string_edit_fits e (int (length [97, 98, 13, 10, 99::code_unit])) \<and>
    TextEdit_apply [TextReplacement (mk_Range 1 2 2 1) [120], TextReplacement (mk_Range 2 2 2 2) [121]]
      [97, 98, 13, 10, 99] = Inr (StringEdit_apply e [97, 98, 13, 10, 99]) \<and>
    getTextEdit [97, 98, 13, 10, 99] e =
      Some [TextReplacement (mk_Range 1 2 2 1) [120], TextReplacement (mk_Range 2 2 2 2) [121]]"
  by (rule TextEdit_refines_StringEdit; code_simp)

text \<open>C31: the inverse of a text edit undoes it: on documents and texts without carriage returns and
  surrogate pairs, \<open>inverse\<close> gives a text edit of the edited document, and applying it gives the
  document back.\<close>

theorem TextEdit_inverse_undoes:
  assumes "text_edit_fits doc rs" and "plain doc" and "list_all (\<lambda>r. plain (tr_text r)) rs"
    and "TextEdit_apply rs doc = Inr s1" and "int (length s1) < 9007199254740990"
  shows "\<exists>inv. TextEdit_inverse rs doc = Inr inv \<and> text_edit_fits s1 inv \<and> TextEdit_apply inv s1 = Inr doc"
  using TextEdit_inverse_ok [OF assms(1-3)] TextEdit_offsets(3) [OF assms(1)] assms(4,5) by auto

theorem TextEdit_inverse_undoes_witness:
  "\<exists>inv. TextEdit_inverse [TextReplacement (mk_Range 1 2 2 1) [120, 10], TextReplacement (mk_Range 2 2 2 2) [121]]
      [97, 98, 10, 99] = Inr inv \<and> text_edit_fits [97, 120, 10, 99, 121] inv \<and>
    TextEdit_apply inv [97, 120, 10, 99, 121] = Inr [97, 98, 10, 99]"
  by (rule TextEdit_inverse_undoes; code_simp)

text \<open>\<open>toReplacement\<close> turns a text edit with at least one replacement into a single replacement
  with the same effect on the document.\<close>

lemma toReplacement_same_effect:
  assumes "text_edit_fits doc rs" and "rs \<noteq> []"
  shows "\<exists>r. TextEdit_toReplacement rs doc = Inr r \<and> text_edit_fits doc [r] \<and>
    TextEdit_apply [r] doc = TextEdit_apply rs doc"
  by (rule toReplacement_ok [OF assms])

text \<open>\<open>fromStringEdit\<close> gives, for a string edit of a document without carriage returns and
  surrogate pairs, a text edit with the same effect.\<close>

lemma fromStringEdit_same_effect:
  assumes "plain doc" and "string_edit_fits es (int (length doc))" and "int (length doc) < 9007199254740990"
  shows "\<exists>rs. TextEdit_fromStringEdit es doc = Some rs \<and> text_edit_fits doc rs \<and>
    TextEdit_apply rs doc = Inr (StringEdit_apply es doc)"
proof -
  have "TextReplacement_fromStringReplacement e doc = Some (position_replacement doc e)" if "e \<in> set es" for e
    using chain_bounds [of 0 es "int (length doc)" e] that assms(2) getPosition_pos_at [OF assms(1)]
    by (simp add: TextReplacement_fromStringReplacement_def getRange_def position_replacement_def range_at_def
        string_edit_fits_def)
  then have "TextEdit_fromStringEdit es doc = Some (map (position_replacement doc) es)"
    unfolding TextEdit_fromStringEdit_def by (induction es) auto
  with position_edit [OF assms] show ?thesis by blast
qed

text \<open>The inverse of an edit that inserts a character outside the basic plane does not undo it:
  \<open>getNewRanges\<close> counts the character as one column, the document counts it as two, and the inverse
  leaves the second half of the surrogate pair behind.\<close>

lemma TextEdit_inverse_surrogates:
  "text_edit_fits [97] [TextReplacement (mk_Range 1 1 1 1) [0xD83D, 0xDE00]] \<and>
   TextEdit_apply [TextReplacement (mk_Range 1 1 1 1) [0xD83D, 0xDE00]] [97] = Inr [0xD83D, 0xDE00, 97] \<and>
   TextEdit_inverse [TextReplacement (mk_Range 1 1 1 1) [0xD83D, 0xDE00]] [97] =
     Inr [TextReplacement (mk_Range 1 1 1 2) []] \<and>
   TextEdit_apply [TextReplacement (mk_Range 1 1 1 2) []] [0xD83D, 0xDE00, 97] = Inr [0xDE00, 97]"
  by code_simp

text \<open>\<open>mapPosition\<close> moves a position behind a replacement on the same line to a wrong column when
  the inserted text has a line break: the code unit at column 7 is at column 5 of the second line of
  the edited document, and it is mapped to column 9.\<close>

lemma mapPosition_line_break:
  "TextEdit_apply [TextReplacement (mk_Range 1 3 1 5) [10, 120, 121]] [97, 98, 99, 100, 101, 102, 103] =
     Inr [97, 98, 10, 120, 121, 101, 102, 103] \<and>
   getPosition [97, 98, 99, 100, 101, 102, 103] 6 = Some (mk_Position 1 7) \<and>
   getPosition [97, 98, 10, 120, 121, 101, 102, 103] 7 = Some (mk_Position 2 5) \<and>
   mapPosition [TextReplacement (mk_Range 1 3 1 5) [10, 120, 121]] (mk_Position 1 7) =
     Inr (AtPosition (mk_Position 2 9))"
  by code_simp

end
