(* ===== verification/PrefixSum.thy ===== *)
theory PrefixSum
  imports Prelude
begin

section \<open>Prefix sums: \<open>src/vs/editor/common/model/prefixSumComputer.ts\<close>\<close>

text \<open>
  \<open>PrefixSumComputer\<close> keeps \<open>Uint32Array\<close>s, lists of 32-bit words whose sums wrap around, and
  \<open>ConstantTimePrefixSumComputer\<close> keeps arrays of numbers. Both compute their sums lazily; every
  operation returns its result together with the new state. The contract both fulfil is the locale
  \<open>prefix_sums\<close>.
\<close>

subsection \<open>Typed arrays\<close>

text \<open>\<open>toUint32\<close> of \<open>src/vs/base/common/uint.ts\<close>: \<open>v | 0\<close> is signed.\<close>

definition toUint32 :: "int \<Rightarrow> int" where
  "toUint32 v = (if v < 0 then 0 else if v > 4294967295 then 4294967295 else toInt32 v)"

text \<open>
  A read out of range is \<open>undefined\<close>, a write out of range is ignored; \<open>undefined\<close> in a sum
  makes it \<open>NaN\<close>, which is stored as 0. \<open>set\<close> throws when the source does not fit.
\<close>

definition u32_store :: "32 word list \<Rightarrow> int \<Rightarrow> 32 word \<Rightarrow> 32 word list" where
  "u32_store xs i v = (if 0 \<le> i \<and> i < int (length xs) then xs[nat i := v] else xs)"

definition u32_add :: "32 word option \<Rightarrow> 32 word option \<Rightarrow> 32 word" where
  "u32_add a b = (case (a, b) of (Some x, Some y) \<Rightarrow> x + y | _ \<Rightarrow> 0)"

definition u32_get :: "32 word list \<Rightarrow> int \<Rightarrow> 32 word" where
  "u32_get xs i = (case js_at xs i of Some v \<Rightarrow> v | None \<Rightarrow> 0)"

definition u32_set :: "32 word list \<Rightarrow> 32 word list \<Rightarrow> int \<Rightarrow> 32 word list result" where
  "u32_set target src offset =
     (if offset < 0 \<or> offset + int (length src) > int (length target) then Inl RangeError
      else Inr (take (nat offset) target @ src @ drop (nat offset + length src) target))"

text \<open>A number that may also be \<open>undefined\<close> or \<open>NaN\<close>, the value \<open>None\<close>.\<close>

type_synonym js_number = "int option"

text \<open>\<open>PrefixSumIndexOfResult\<close>, the result of both classes.\<close>

record index_of_result =
  ior_index :: int
  ior_remainder :: js_number

subsection \<open>\<open>PrefixSumComputer\<close>\<close>

record psc =
  psc_values :: "32 word list"
  psc_prefixSum :: "32 word list"
  prefixSumValidIndex :: int

definition mk_PrefixSumComputer :: "32 word list \<Rightarrow> psc" where
  "mk_PrefixSumComputer values =
     \<lparr>psc_values = values, psc_prefixSum = replicate (length values) 0, prefixSumValidIndex = -1\<rparr>"

definition psc_getCount :: "psc \<Rightarrow> nat" where
  "psc_getCount this = length (psc_values this)"

text \<open>\<open>if (index - 1 < this.prefixSumValidIndex[0]) this.prefixSumValidIndex[0] = index - 1\<close>, an \<open>Int32Array\<close>.\<close>

definition psc_lower_valid :: "int \<Rightarrow> int \<Rightarrow> int" where
  "psc_lower_valid index valid = (if index - 1 < valid then toInt32 (index - 1) else valid)"

text \<open>The new \<open>prefixSum\<close> array with the trusted part of the old one copied.\<close>

definition psc_copy_sums :: "nat \<Rightarrow> 32 word list \<Rightarrow> int \<Rightarrow> 32 word list result" where
  "psc_copy_sums n oldPrefixSum valid =
     (let fresh = replicate n 0
      in if valid \<ge> 0 then u32_set fresh (js_slice oldPrefixSum 0 (valid + 1)) 0 else Inr fresh)"

definition psc_insertValues :: "int \<Rightarrow> 32 word list \<Rightarrow> psc \<Rightarrow> (bool \<times> psc) result" where
  "psc_insertValues insertIndex0 insertValues this =
     (let insertIndex = toUint32 insertIndex0;
          oldValues = psc_values this;
          insertValuesLen = length insertValues
      in if insertValuesLen = 0 then Inr (False, this)
         else bind_result
                (u32_set (replicate (length oldValues + insertValuesLen) 0)
                   (js_slice oldValues 0 insertIndex) 0)
                (\<lambda>v1. bind_result
                   (u32_set v1 (js_slice_from oldValues insertIndex) (insertIndex + int insertValuesLen))
                   (\<lambda>v2. bind_result (u32_set v2 insertValues insertIndex)
                      (\<lambda>v3. let valid = psc_lower_valid insertIndex (prefixSumValidIndex this)
                            in bind_result (psc_copy_sums (length v3) (psc_prefixSum this) valid)
                                 (\<lambda>sums. Inr (True, \<lparr>psc_values = v3, psc_prefixSum = sums,
                                    prefixSumValidIndex = valid\<rparr>))))))"

definition psc_setValue :: "int \<Rightarrow> int \<Rightarrow> psc \<Rightarrow> bool \<times> psc" where
  "psc_setValue index0 value0 this =
     (let index = toUint32 index0; value = toUint32 value0
      in if map_option uint (js_at (psc_values this) index) = Some value then (False, this)
         else (True, this\<lparr>psc_values := u32_store (psc_values this) index (word_of_int value),
                prefixSumValidIndex := psc_lower_valid index (prefixSumValidIndex this)\<rparr>))"

definition psc_removeValues :: "int \<Rightarrow> int \<Rightarrow> psc \<Rightarrow> (bool \<times> psc) result" where
  "psc_removeValues startIndex0 count0 this =
     (let startIndex = toUint32 startIndex0;
          oldValues = psc_values this
      in if startIndex \<ge> int (length oldValues) then Inr (False, this)
         else let maxCount = int (length oldValues) - startIndex;
                  count = (if toUint32 count0 \<ge> maxCount then maxCount else toUint32 count0)
              in if count = 0 then Inr (False, this)
                 else if int (length oldValues) - count < 0 then Inl RangeError
                 else bind_result
                        (u32_set (replicate (nat (int (length oldValues) - count)) 0)
                           (js_slice oldValues 0 startIndex) 0)
                        (\<lambda>v1. bind_result
                           (u32_set v1 (js_slice_from oldValues (startIndex + count)) startIndex)
                           (\<lambda>v2. let valid = psc_lower_valid startIndex (prefixSumValidIndex this)
                                 in bind_result (psc_copy_sums (length v2) (psc_prefixSum this) valid)
                                      (\<lambda>sums. Inr (True, \<lparr>psc_values = v2, psc_prefixSum = sums,
                                         prefixSumValidIndex = valid\<rparr>)))))"

text \<open>\<open>for (let i = startIndex; i <= index; i++)\<close> of \<open>_getPrefixSum\<close>.\<close>

function psc_sum_loop :: "32 word list \<Rightarrow> int \<Rightarrow> int \<Rightarrow> 32 word list \<Rightarrow> 32 word list" where
  "psc_sum_loop values i index sums =
     (if i \<le> index
      then psc_sum_loop values (i + 1) index
             (u32_store sums i (u32_add (js_at sums (i - 1)) (js_at values i)))
      else sums)"
  by pat_completeness auto
termination
  by (relation "measure (\<lambda>(values, i, index, sums). nat (index + 1 - i))") auto

declare psc_sum_loop.simps [simp del]

text \<open>The result \<open>None\<close> is \<open>undefined\<close>.\<close>

definition psc_getPrefixSum_impl :: "int \<Rightarrow> psc \<Rightarrow> 32 word option \<times> psc" where
  "psc_getPrefixSum_impl index0 this =
     (if index0 \<le> prefixSumValidIndex this then (js_at (psc_prefixSum this) index0, this)
      else let start0 = prefixSumValidIndex this + 1;
               sums0 = (if start0 = 0
                        then u32_store (psc_prefixSum this) 0 (u32_get (psc_values this) 0)
                        else psc_prefixSum this);
               startIndex = (if start0 = 0 then start0 + 1 else start0);
               index = (if index0 \<ge> int (length (psc_values this))
                        then int (length (psc_values this)) - 1 else index0);
               sums = psc_sum_loop (psc_values this) startIndex index sums0
           in (js_at sums index,
               this\<lparr>psc_prefixSum := sums,
                 prefixSumValidIndex := toInt32 (max (prefixSumValidIndex this) index)\<rparr>))"

definition psc_getTotalSum :: "psc \<Rightarrow> 32 word option \<times> psc" where
  "psc_getTotalSum this =
     (if length (psc_values this) = 0 then (Some 0, this)
      else psc_getPrefixSum_impl (int (length (psc_values this)) - 1) this)"

definition psc_getPrefixSum :: "int \<Rightarrow> psc \<Rightarrow> 32 word option \<times> psc" where
  "psc_getPrefixSum index this =
     (if index < 0 then (Some 0, this) else psc_getPrefixSum_impl (toUint32 index) this)"

text \<open>
  The binary search of \<open>getIndexOf\<close>. The number of iterations is bounded by the fuel, the length
  of the array plus one, which is enough because every iteration drops an index. The state of the
  loop is \<open>low\<close>, \<open>high\<close>, \<open>mid\<close> and \<open>midStart\<close>; reads of the two arrays are numbers.
\<close>

fun psc_search :: "nat \<Rightarrow> psc \<Rightarrow> int \<Rightarrow> int \<Rightarrow> int \<Rightarrow> int \<Rightarrow> int \<Rightarrow> (int \<times> int) option" where
  "psc_search 0 this sm low high mid midStart = None"
| "psc_search (Suc fuel) this sm low high mid midStart =
     (if low \<le> high
      then let mid' = toInt32 ((low + high) div 2);
               midStop' = uint (u32_get (psc_prefixSum this) mid');
               midStart' = midStop' - uint (u32_get (psc_values this) mid')
           in if sm < midStart' then psc_search fuel this sm low (mid' - 1) mid' midStart'
              else if sm \<ge> midStop' then psc_search fuel this sm (mid' + 1) high mid' midStart'
              else Some (mid', midStart')
      else Some (mid, midStart))"

definition psc_getIndexOf :: "int \<Rightarrow> psc \<Rightarrow> index_of_result option \<times> psc" where
  "psc_getIndexOf sm this =
     (let this' = snd (psc_getTotalSum this)
      in (map_option (\<lambda>(mid, midStart). \<lparr>ior_index = mid, ior_remainder = Some (sm - midStart)\<rparr>)
            (psc_search (length (psc_values this') + 1) this' sm 0
               (int (length (psc_values this')) - 1) 0 0),
          this'))"

subsection \<open>\<open>ConstantTimePrefixSumComputer\<close>\<close>

text \<open>
  Arrays of numbers. An entry \<open>None\<close> is a hole or \<open>undefined\<close>, and \<open>None\<close> as a number is
  what arithmetic makes of it, \<open>NaN\<close>. A write behind the end extends the array with holes, a
  write at \<open>NaN\<close> or at a negative index does not touch the elements, a length that is \<open>NaN\<close> or
  negative throws.
\<close>

definition arr_get :: "js_number list \<Rightarrow> int \<Rightarrow> js_number" where
  "arr_get xs i = (case js_at xs i of Some v \<Rightarrow> v | None \<Rightarrow> None)"

definition arr_store :: "js_number list \<Rightarrow> js_number \<Rightarrow> js_number \<Rightarrow> js_number list" where
  "arr_store xs i v =
     (case i of
        None \<Rightarrow> xs
      | Some k \<Rightarrow>
          if k < 0 then xs
          else if k < int (length xs) then xs[nat k := v]
          else xs @ replicate (nat k - length xs) None @ [v])"

definition arr_set_length :: "js_number list \<Rightarrow> js_number \<Rightarrow> js_number list result" where
  "arr_set_length xs n =
     (case n of
        None \<Rightarrow> Inl RangeError
      | Some k \<Rightarrow>
          if k < 0 then Inl RangeError
          else Inr (take (nat k) xs @ replicate (nat k - length xs) None))"

definition num_add :: "js_number \<Rightarrow> js_number \<Rightarrow> js_number" where
  "num_add a b = (case (a, b) of (Some x, Some y) \<Rightarrow> Some (x + y) | _ \<Rightarrow> None)"

text \<open>\<open>arr.splice(start, deleteCount)\<close> and \<open>arrayInsert\<close> of \<open>src/vs/base/common/arrays.ts\<close>.\<close>

definition arr_remove :: "'a list \<Rightarrow> int \<Rightarrow> int \<Rightarrow> 'a list" where
  "arr_remove xs s deleteCount =
     (let i = js_relative_index (length xs) s
      in take i xs @ drop (i + min (nat deleteCount) (length xs - i)) xs)"

definition arrayInsert :: "'a list \<Rightarrow> int \<Rightarrow> 'a list \<Rightarrow> 'a list" where
  "arrayInsert target insertIndex insertArr =
     (let before = js_slice target 0 insertIndex; after = js_slice_from target insertIndex
      in before @ insertArr @ after)"

record ctpsc =
  ct_values :: "js_number list"
  isValid :: bool
  validEndIndex :: int
  ct_prefixSum :: "js_number list"
  indexBySum :: "js_number list"

definition mk_ConstantTimePrefixSumComputer :: "js_number list \<Rightarrow> ctpsc" where
  "mk_ConstantTimePrefixSumComputer values =
     \<lparr>ct_values = values, isValid = False, validEndIndex = -1, ct_prefixSum = [], indexBySum = []\<rparr>"

text \<open>\<open>for (let j = 0; j < value; j++) this._indexBySum[sumAbove + j] = i\<close>.\<close>

function ct_index_loop :: "js_number \<Rightarrow> int \<Rightarrow> int \<Rightarrow> int \<Rightarrow> js_number list \<Rightarrow> js_number list" where
  "ct_index_loop sumAbove value i j ibs =
     (if j < value
      then ct_index_loop sumAbove value i (j + 1) (arr_store ibs (num_add sumAbove (Some j)) (Some i))
      else ibs)"
  by pat_completeness auto
termination
  by (relation "measure (\<lambda>(sumAbove, value, i, j, ibs). nat (value - j))") auto

declare ct_index_loop.simps [simp del]

text \<open>The outer loop of \<open>_ensureValid\<close>; the inner loop does not run when the value is not a number.\<close>

function ct_sum_loop ::
    "js_number list \<Rightarrow> int \<Rightarrow> js_number list \<Rightarrow> js_number list \<Rightarrow> js_number list \<times> js_number list" where
  "ct_sum_loop values i sums ibs =
     (if i < int (length values)
      then let value = arr_get values i;
               sumAbove = (if i > 0 then arr_get sums (i - 1) else Some 0);
               sums' = arr_store sums (Some i) (num_add sumAbove value);
               ibs' = (case value of None \<Rightarrow> ibs | Some v \<Rightarrow> ct_index_loop sumAbove v i 0 ibs)
           in ct_sum_loop values (i + 1) sums' ibs'
      else (sums, ibs))"
  by pat_completeness auto
termination
  by (relation "measure (\<lambda>(values, i, sums, ibs). nat (int (length values) - i))") auto

declare ct_sum_loop.simps [simp del]

definition ct_ensureValid :: "ctpsc \<Rightarrow> ctpsc result" where
  "ct_ensureValid this =
     (if isValid this then Inr this
      else let (sums, ibs) = ct_sum_loop (ct_values this) (validEndIndex this + 1)
                               (ct_prefixSum this) (indexBySum this);
               n = int (length (ct_values this))
           in bind_result (arr_set_length sums (Some n))
                (\<lambda>sums'. bind_result
                   (arr_set_length ibs (if n > 0 then arr_get sums' (n - 1) else Some 0))
                   (\<lambda>ibs'. Inr (this\<lparr>ct_prefixSum := sums', indexBySum := ibs', isValid := True,
                      validEndIndex := n - 1\<rparr>))))"

definition ct_invalidate :: "int \<Rightarrow> ctpsc \<Rightarrow> ctpsc" where
  "ct_invalidate index this =
     this\<lparr>isValid := False, validEndIndex := min (validEndIndex this) (index - 1)\<rparr>"

definition ct_getTotalSum :: "ctpsc \<Rightarrow> (int \<times> ctpsc) result" where
  "ct_getTotalSum this =
     bind_result (ct_ensureValid this) (\<lambda>this'. Inr (int (length (indexBySum this')), this'))"

definition ct_getPrefixSum :: "int \<Rightarrow> ctpsc \<Rightarrow> (js_number \<times> ctpsc) result" where
  "ct_getPrefixSum count this =
     bind_result (ct_ensureValid this)
       (\<lambda>this'. if count = 0 then Inr (Some 0, this')
                else Inr (arr_get (ct_prefixSum this') (count - 1), this'))"

definition ct_getIndexOf :: "int \<Rightarrow> ctpsc \<Rightarrow> (index_of_result \<times> ctpsc) result" where
  "ct_getIndexOf sm this =
     bind_result (ct_ensureValid this)
       (\<lambda>this'. case arr_get (indexBySum this') sm of
          None \<Rightarrow>
            let lastIdx = max 0 (int (length (ct_values this')) - 1);
                lastPrefixSum = (if lastIdx > 0 then arr_get (ct_prefixSum this') (lastIdx - 1) else Some 0)
            in Inr (\<lparr>ior_index = lastIdx, ior_remainder = map_option (\<lambda>p. sm - p) lastPrefixSum\<rparr>, this')
        | Some idx \<Rightarrow>
            let viewLinesAbove = (if idx > 0 then arr_get (ct_prefixSum this') (idx - 1) else Some 0)
            in Inr (\<lparr>ior_index = idx, ior_remainder = map_option (\<lambda>p. sm - p) viewLinesAbove\<rparr>, this'))"

definition ct_removeValues :: "int \<Rightarrow> int \<Rightarrow> ctpsc \<Rightarrow> ctpsc" where
  "ct_removeValues s deleteCount this =
     ct_invalidate s (this\<lparr>ct_values := arr_remove (ct_values this) s deleteCount\<rparr>)"

definition ct_insertValues :: "int \<Rightarrow> js_number list \<Rightarrow> ctpsc \<Rightarrow> ctpsc" where
  "ct_insertValues insertIndex insertArr this =
     ct_invalidate insertIndex (this\<lparr>ct_values := arrayInsert (ct_values this) insertIndex insertArr\<rparr>)"

definition ct_setValue :: "int \<Rightarrow> int \<Rightarrow> ctpsc \<Rightarrow> ctpsc" where
  "ct_setValue index value this =
     (if arr_get (ct_values this) index = Some value then this
      else ct_invalidate index
             (this\<lparr>ct_values := arr_store (ct_values this) (Some index) (Some value)\<rparr>))"

subsection \<open>The contract\<close>

text \<open>The sum of the first \<open>k\<close> values.\<close>

definition prefix :: "int list \<Rightarrow> nat \<Rightarrow> int" where
  "prefix vs k = sum_list (take k vs)"

lemma prefix_0 [simp]: "prefix vs 0 = 0"
  by (simp add: prefix_def)

lemma prefix_Suc: "k < length vs \<Longrightarrow> prefix vs (Suc k) = prefix vs k + vs ! k"
  by (simp add: prefix_def take_Suc_conv_app_nth)

lemma prefix_mono:
  assumes "\<forall>v\<in>set vs. 0 \<le> v" and "i \<le> j"
  shows "prefix vs i \<le> prefix vs j"
proof -
  have "prefix vs j = prefix vs i + sum_list (take (j - i) (drop i vs))"
    using assms(2) take_add [of i "j - i" vs] by (simp add: prefix_def)
  moreover have "0 \<le> sum_list (take (j - i) (drop i vs))"
    using assms(1) by (intro sum_list_nonneg) (auto dest!: in_set_takeD in_set_dropD)
  ultimately show ?thesis by simp
qed

text \<open>
  What a prefix sum computer promises of \<open>getIndexOf\<close>: for a sum below the total, the index of the
  item that holds it and the remainder. The item is unique, so two computers that keep the same
  values agree.
\<close>

definition holds_sum :: "int list \<Rightarrow> int \<Rightarrow> nat \<Rightarrow> bool" where
  "holds_sum vs sm i \<longleftrightarrow> i < length vs \<and> prefix vs i \<le> sm \<and> sm < prefix vs (Suc i)"

locale prefix_sums =
  fixes inv :: "'s \<Rightarrow> bool" and vals :: "'s \<Rightarrow> int list"
    and getIndexOf :: "int \<Rightarrow> 's \<Rightarrow> (index_of_result \<times> 's) option"
  assumes nonneg: "inv s \<Longrightarrow> \<forall>v\<in>set (vals s). 0 \<le> v"
    and index_of: "inv s \<Longrightarrow> 0 \<le> sm \<Longrightarrow> sm < prefix (vals s) (length (vals s)) \<Longrightarrow>
      \<exists>i s'. getIndexOf sm s =
          Some (\<lparr>ior_index = int i, ior_remainder = Some (sm - prefix (vals s) i)\<rparr>, s') \<and>
        holds_sum (vals s) sm i \<and> inv s' \<and> vals s' = vals s"

lemma holds_sum_unique:
  assumes "\<forall>v\<in>set vs. 0 \<le> v" and "holds_sum vs sm i" and "holds_sum vs sm j"
  shows "i = j"
proof (rule ccontr)
  assume "i \<noteq> j"
  then consider "Suc i \<le> j" | "Suc j \<le> i" by linarith
  then show False
    using prefix_mono [OF assms(1), of "Suc i" j] prefix_mono [OF assms(1), of "Suc j" i] assms(2,3)
    by cases (auto simp: holds_sum_def)
qed

text \<open>Two computers with the same values give the same answer.\<close>

locale prefix_sums_pair = a: prefix_sums inv1 vals1 get1 + b: prefix_sums inv2 vals2 get2
  for inv1 :: "'s \<Rightarrow> bool" and vals1 get1 and inv2 :: "'t \<Rightarrow> bool" and vals2 get2
begin

lemma same_answer:
  assumes "inv1 s" and "inv2 t" and "vals1 s = vals2 t"
    and "0 \<le> sm" and "sm < prefix (vals1 s) (length (vals1 s))"
  shows "map_option fst (get1 sm s) = map_option fst (get2 sm t)"
proof -
  obtain i s' where s: "get1 sm s =
      Some (\<lparr>ior_index = int i, ior_remainder = Some (sm - prefix (vals1 s) i)\<rparr>, s')"
    "holds_sum (vals1 s) sm i" using a.index_of [OF assms(1,4,5)] by blast
  obtain j t' where t: "get2 sm t =
      Some (\<lparr>ior_index = int j, ior_remainder = Some (sm - prefix (vals2 t) j)\<rparr>, t')"
    "holds_sum (vals2 t) sm j" using b.index_of [of t sm] assms by auto
  have "i = j" using holds_sum_unique [OF a.nonneg [OF assms(1)] s(2)] t(2) assms(3) by simp
  with s t assms(3) show ?thesis by simp
qed

end

subsection \<open>\<open>PrefixSumComputer\<close> keeps its sums\<close>

definition psc_inv :: "psc \<Rightarrow> bool" where
  "psc_inv this \<longleftrightarrow>
     length (psc_prefixSum this) = length (psc_values this) \<and>
     int (length (psc_values this)) < 2147483648 \<and>
     -1 \<le> prefixSumValidIndex this \<and> prefixSumValidIndex this < int (length (psc_values this)) \<and>
     (\<forall>i. int i \<le> prefixSumValidIndex this \<longrightarrow>
        psc_prefixSum this ! i = sum_list (take (Suc i) (psc_values this)))"

lemma toUint32_id [simp]: "0 \<le> v \<Longrightarrow> v < 2147483648 \<Longrightarrow> toUint32 v = v"
  by (simp add: toUint32_def is_int32_def)

lemma psc_inv_init: "int (length vs) < 2147483648 \<Longrightarrow> psc_inv (mk_PrefixSumComputer vs)"
  by (simp add: psc_inv_def mk_PrefixSumComputer_def)

lemma psc_sum_loop_correct:
  assumes "length sums = length vs" and "1 \<le> i" and "index < int (length vs)"
    and "\<forall>k. int k < i \<longrightarrow> k < length vs \<longrightarrow> sums ! k = sum_list (take (Suc k) vs)"
  shows "length (psc_sum_loop vs i index sums) = length vs \<and>
    (\<forall>k. int k < i \<or> int k \<le> index \<longrightarrow> k < length vs \<longrightarrow>
       psc_sum_loop vs i index sums ! k = sum_list (take (Suc k) vs))"
  using assms
proof (induction vs i index sums rule: psc_sum_loop.induct)
  case (1 vs i index sums)
  show ?case
  proof (cases "i \<le> index")
    case False
    with 1 show ?thesis by (auto simp: psc_sum_loop.simps [of vs i index sums])
  next
    case True
    let ?sums = "u32_store sums i (u32_add (js_at sums (i - 1)) (js_at vs i))"
    have n: "nat i < length vs" "Suc (nat (i - 1)) = nat i" "nat (i - 1) < length vs"
      using True 1(4,3) by linarith+
    have "sums ! nat (i - 1) = sum_list (take (nat i) vs)"
      using 1(5) 1(3) n by (metis diff_ge_0_iff_ge int_nat_eq zless_add1_eq diff_add_cancel)
    then have st: "?sums = sums[nat i := sum_list (take (Suc (nat i)) vs)]"
      using n 1(2,3) True by (simp add: u32_store_def u32_add_def js_at_def take_Suc_conv_app_nth nat_less_iff)
    have "sums[nat i := sum_list (take (Suc (nat i)) vs)] ! k = sum_list (take (Suc k) vs)"
      if "int k < i + 1" "k < length vs" for k
      using that 1(2,5) n by (cases "k = nat i") (auto simp: nth_list_update)
    with 1(1) [OF True] 1(2-4) st True show ?thesis
      by (auto simp: psc_sum_loop.simps [of vs i index sums])
  qed
qed

lemma psc_getPrefixSum_impl_ok:
  assumes "psc_inv this" and "0 \<le> index" and "index < int (length (psc_values this))"
  shows "\<exists>this'. psc_getPrefixSum_impl index this =
      (Some (sum_list (take (Suc (nat index)) (psc_values this))), this') \<and>
    psc_inv this' \<and> psc_values this' = psc_values this \<and> index \<le> prefixSumValidIndex this'"
proof (cases "index \<le> prefixSumValidIndex this")
  case True
  with assms show ?thesis by (auto simp: psc_getPrefixSum_impl_def js_at_def psc_inv_def)
next
  case False
  let ?vs = "psc_values this"
  define sums0 where "sums0 = (if prefixSumValidIndex this + 1 = 0
      then u32_store (psc_prefixSum this) 0 (u32_get ?vs 0) else psc_prefixSum this)"
  define i where "i = (if prefixSumValidIndex this + 1 = 0 then 1 else prefixSumValidIndex this + 1)"
  have inv: "length (psc_prefixSum this) = length ?vs" "-1 \<le> prefixSumValidIndex this"
    "int (length ?vs) < 2147483648"
    "\<And>k. int k \<le> prefixSumValidIndex this \<Longrightarrow> psc_prefixSum this ! k = sum_list (take (Suc k) ?vs)"
    using assms(1) by (simp_all add: psc_inv_def)
  have vs: "?vs \<noteq> []" using assms(2,3) by auto
  have sums0: "length sums0 = length ?vs" using inv(1) by (simp add: sums0_def u32_store_def)
  have base: "sums0 ! k = sum_list (take (Suc k) ?vs)" if "int k < i" "k < length ?vs" for k
    using that inv vs
    by (auto simp: sums0_def i_def u32_store_def u32_get_def js_at_def take_Suc hd_conv_nth split: if_splits)
  define sums where "sums = psc_sum_loop ?vs i index sums0"
  have sums: "length sums = length ?vs" "\<And>k. int k \<le> index \<Longrightarrow> sums ! k = sum_list (take (Suc k) ?vs)"
    using psc_sum_loop_correct [OF sums0, of i index] base assms(3) inv(2)
    by (auto simp: sums_def i_def)
  have "psc_getPrefixSum_impl index this = (js_at sums index,
      this\<lparr>psc_prefixSum := sums, prefixSumValidIndex := index\<rparr>)"
    using False assms inv(3)
    by (simp add: psc_getPrefixSum_impl_def Let_def sums_def sums0_def i_def is_int32_def)
  with sums assms inv show ?thesis by (simp add: js_at_def psc_inv_def)
qed

lemma psc_lower_valid_eq:
  "0 \<le> i \<Longrightarrow> i < 2147483648 \<Longrightarrow> psc_lower_valid i v = min v (i - 1)"
  by (simp add: psc_lower_valid_def is_int32_def)

lemma psc_copy_sums_ok:
  assumes "-1 \<le> valid" and "valid < int n" and "valid < int (length sums)"
  shows "\<exists>r. psc_copy_sums n sums valid = Inr r \<and> length r = n \<and> (\<forall>i. int i \<le> valid \<longrightarrow> r ! i = sums ! i)"
proof (cases "0 \<le> valid")
  case True
  let ?k = "Suc (nat valid)"
  have k: "nat (valid + 1) = ?k" "?k \<le> n" "?k \<le> length sums" using True assms by linarith+
  have "psc_copy_sums n sums valid = Inr (take ?k sums @ replicate (n - ?k) 0)"
    using True k assms by (simp add: psc_copy_sums_def js_slice_in_range u32_set_def)
  moreover have "(take ?k sums @ replicate (n - ?k) 0) ! i = sums ! i" if "int i \<le> valid" for i
  proof -
    have "i < ?k" using that by linarith
    then show ?thesis using k by (simp add: nth_append)
  qed
  ultimately show ?thesis using k by simp
qed (use assms in \<open>simp add: psc_copy_sums_def\<close>)

text \<open>The trusted sums stay right when the values before them do not change.\<close>

lemma psc_inv_update:
  assumes "psc_inv this" and "take (nat (valid + 1)) vs' = take (nat (valid + 1)) (psc_values this)"
    and "length sums = length vs'" and "int (length vs') < 2147483648"
    and "-1 \<le> valid" and "valid < int (length vs')" and "valid \<le> prefixSumValidIndex this"
    and "\<forall>i. int i \<le> valid \<longrightarrow> sums ! i = psc_prefixSum this ! i"
  shows "psc_inv \<lparr>psc_values = vs', psc_prefixSum = sums, prefixSumValidIndex = valid\<rparr>"
proof -
  have "sums ! i = sum_list (take (Suc i) vs')" if "int i \<le> valid" for i
  proof -
    have "Suc i \<le> nat (valid + 1)" using that by linarith
    then have "take (Suc i) vs' = take (Suc i) (psc_values this)"
      using arg_cong [OF assms(2), of "take (Suc i)"] by (simp add: min_absorb1)
    with that assms(1,7,8) show ?thesis by (simp add: psc_inv_def)
  qed
  with assms show ?thesis by (simp add: psc_inv_def)
qed

lemma psc_insertValues_ok:
  assumes "psc_inv this" and "i \<le> length (psc_values this)" and "xs \<noteq> []"
    and "int (length (psc_values this) + length xs) < 2147483648"
  shows "\<exists>this'. psc_insertValues (int i) xs this = Inr (True, this') \<and> psc_inv this' \<and>
    psc_values this' = take i (psc_values this) @ xs @ drop i (psc_values this)"
proof -
  let ?vs = "psc_values this" and ?new = "take i (psc_values this) @ xs @ drop i (psc_values this)"
  define valid where "valid = psc_lower_valid (int i) (prefixSumValidIndex this)"
  have valid: "valid = min (prefixSumValidIndex this) (int i - 1)"
    using assms(2,4) by (simp add: valid_def psc_lower_valid_eq)
  have b: "-1 \<le> valid" "valid < int (length ?new)" "valid < int (length (psc_prefixSum this))"
    "valid \<le> prefixSumValidIndex this" "nat (valid + 1) \<le> i"
    using assms(1,2) valid by (auto simp: psc_inv_def)
  obtain sums where sums: "psc_copy_sums (length ?new) (psc_prefixSum this) valid = Inr sums"
    "length sums = length ?new" "\<forall>k. int k \<le> valid \<longrightarrow> sums ! k = psc_prefixSum this ! k"
    using psc_copy_sums_ok [OF b(1,2,3)] by blast
  have "psc_inv \<lparr>psc_values = ?new, psc_prefixSum = sums, prefixSumValidIndex = valid\<rparr>"
    using assms b sums by (intro psc_inv_update [OF assms(1)]) (simp_all add: min_absorb1)
  moreover have "psc_insertValues (int i) xs this =
      Inr (True, \<lparr>psc_values = ?new, psc_prefixSum = sums, prefixSumValidIndex = valid\<rparr>)"
  proof -
    have "u32_set (replicate (length ?vs + length xs) 0) (take i ?vs) 0 =
        Inr (take i ?vs @ replicate (length ?vs + length xs - i) 0)"
      using assms(2) by (simp add: u32_set_def min_absorb2)
    moreover have "u32_set (take i ?vs @ replicate (length ?vs + length xs - i) 0) (drop i ?vs) (int i + int (length xs)) =
        Inr (take i ?vs @ replicate (length xs) 0 @ drop i ?vs)"
      using assms(2) by (simp add: u32_set_def min_absorb2 nat_int_add)
    moreover have "u32_set (take i ?vs @ replicate (length xs) 0 @ drop i ?vs) xs (int i) = Inr ?new"
      using assms(2) by (simp add: u32_set_def min_absorb2)
    ultimately show ?thesis
      using assms(2-4) sums(1)
      by (simp add: psc_insertValues_def Let_def js_slice_in_range js_slice_from_in_range
          valid_def [symmetric])
  qed
  ultimately show ?thesis by simp
qed

lemma psc_removeValues_ok:
  assumes "psc_inv this" and "i < length (psc_values this)" and "0 < n"
    and "i + n \<le> length (psc_values this)"
  shows "\<exists>this'. psc_removeValues (int i) (int n) this = Inr (True, this') \<and> psc_inv this' \<and>
    psc_values this' = take i (psc_values this) @ drop (i + n) (psc_values this)"
proof -
  let ?vs = "psc_values this" and ?new = "take i (psc_values this) @ drop (i + n) (psc_values this)"
  have len: "int (length ?vs) < 2147483648" using assms(1) by (simp add: psc_inv_def)
  define valid where "valid = psc_lower_valid (int i) (prefixSumValidIndex this)"
  have valid: "valid = min (prefixSumValidIndex this) (int i - 1)"
    using assms(2) len by (simp add: valid_def psc_lower_valid_eq)
  have b: "-1 \<le> valid" "valid < int (length ?new)" "valid < int (length (psc_prefixSum this))"
    "valid \<le> prefixSumValidIndex this" "nat (valid + 1) \<le> i"
    using assms(1,2,4) valid by (auto simp: psc_inv_def)
  obtain sums where sums: "psc_copy_sums (length ?new) (psc_prefixSum this) valid = Inr sums"
    "length sums = length ?new" "\<forall>k. int k \<le> valid \<longrightarrow> sums ! k = psc_prefixSum this ! k"
    using psc_copy_sums_ok [OF b(1,2,3)] by blast
  have "psc_inv \<lparr>psc_values = ?new, psc_prefixSum = sums, prefixSumValidIndex = valid\<rparr>"
    using assms b sums len by (intro psc_inv_update [OF assms(1)]) (simp_all add: min_absorb1)
  moreover have "psc_removeValues (int i) (int n) this =
      Inr (True, \<lparr>psc_values = ?new, psc_prefixSum = sums, prefixSumValidIndex = valid\<rparr>)"
  proof -
    have n: "nat (int (length ?vs) - int n) = length ?vs - n"
      "(if int n \<ge> int (length ?vs) - int i then int (length ?vs) - int i else int n) = int n"
      using assms(4) by auto
    have "u32_set (replicate (length ?vs - n) 0) (take i ?vs) 0 =
        Inr (take i ?vs @ replicate (length ?vs - n - i) 0)"
      using assms(4) by (simp add: u32_set_def min_absorb2)
    moreover have "u32_set (take i ?vs @ replicate (length ?vs - n - i) 0) (drop (i + n) ?vs) (int i) = Inr ?new"
      using assms(4) by (simp add: u32_set_def min_absorb2)
    moreover have u: "toUint32 (int i) = int i" "toUint32 (int n) = int n" using assms(2,4) len by simp_all
    ultimately show ?thesis
      unfolding psc_removeValues_def Let_def u n(2)
      using assms(2-4) sums(1) n(1)
      by (simp add: js_slice_in_range js_slice_from_in_range valid_def [symmetric] nat_int_add)
  qed
  ultimately show ?thesis by simp
qed

lemma psc_setValue_ok:
  assumes "psc_inv this" and "i < length (psc_values this)" and "0 \<le> v" and "v < 2147483648"
  shows "\<exists>b this'. psc_setValue (int i) v this = (b, this') \<and> psc_inv this' \<and>
    psc_values this' = (psc_values this)[i := word_of_int v] \<and>
    (b \<longleftrightarrow> psc_values this ! i \<noteq> word_of_int v)"
proof -
  let ?vs = "psc_values this"
  have len: "int (length ?vs) < 2147483648" using assms(1) by (simp add: psc_inv_def)
  have v: "uint (word_of_int v :: 32 word) = v" using assms(3,4) by (simp add: uint_word_of_int)
  then have eq: "uint (?vs ! i) = v \<longleftrightarrow> ?vs ! i = word_of_int v" by auto
  show ?thesis
  proof (cases "?vs ! i = word_of_int v")
    case True
    then have "?vs[i := word_of_int v] = ?vs" by (metis list_update_id)
    with True assms len eq show ?thesis by (auto simp: psc_setValue_def Let_def)
  next
    case False
    define valid where "valid = psc_lower_valid (int i) (prefixSumValidIndex this)"
    have valid: "valid = min (prefixSumValidIndex this) (int i - 1)"
      using assms(2) len by (simp add: valid_def psc_lower_valid_eq)
    have "psc_inv \<lparr>psc_values = ?vs[i := word_of_int v], psc_prefixSum = psc_prefixSum this,
        prefixSumValidIndex = valid\<rparr>"
      using assms valid len by (intro psc_inv_update [OF assms(1)])
        (auto simp: psc_inv_def take_update_cancel)
    with False assms len eq show ?thesis
      by (auto simp: psc_setValue_def Let_def u32_store_def valid_def [symmetric] psc_inv_def)
  qed
qed

text \<open>Sums below \<open>2 ^ 32\<close> do not wrap around.\<close>

definition psc_vals :: "psc \<Rightarrow> int list" where
  "psc_vals this = map uint (psc_values this)"

definition psc_bounded :: "psc \<Rightarrow> bool" where
  "psc_bounded this \<longleftrightarrow> psc_inv this \<and> prefix (psc_vals this) (length (psc_vals this)) < 4294967296"

lemma uint_sum_list:
  fixes ws :: "32 word list"
  assumes "sum_list (map uint ws) < 4294967296"
  shows "uint (sum_list ws) = sum_list (map uint ws)"
proof -
  have nonneg: "0 \<le> sum_list (map uint ws)" for ws :: "32 word list"
    by (intro sum_list_nonneg) auto
  show ?thesis using assms
  proof (induction ws)
    case (Cons w ws)
    then have "uint (sum_list ws) = sum_list (map uint ws)"
      using uint_ge_0 [of w] Cons.prems unfolding list.map sum_list.Cons by (intro Cons.IH) linarith
    with Cons.prems nonneg [of ws] show ?case by (simp add: uint_word_ariths mod_pos_pos_trivial)
  qed simp
qed

lemma psc_vals_nonneg: "\<forall>v\<in>set (psc_vals this). 0 \<le> v"
  by (auto simp: psc_vals_def)

lemma uint_prefix:
  assumes "psc_bounded this"
  shows "uint (sum_list (take k (psc_values this))) = prefix (psc_vals this) k"
proof -
  have "prefix (psc_vals this) k \<le> prefix (psc_vals this) (length (psc_vals this))"
  proof (cases "k \<le> length (psc_vals this)")
    case True
    then show ?thesis by (rule prefix_mono [OF psc_vals_nonneg])
  next
    case False
    then show ?thesis by (simp add: prefix_def)
  qed
  with assms have "sum_list (map uint (take k (psc_values this))) < 4294967296"
    by (simp add: psc_bounded_def prefix_def psc_vals_def take_map)
  from uint_sum_list [OF this] show ?thesis by (simp add: prefix_def psc_vals_def take_map)
qed

lemma psc_search_ok:
  assumes "psc_bounded this" and "prefixSumValidIndex this = int (length (psc_values this)) - 1"
    and "0 \<le> low" and "high < int (length (psc_values this))"
    and "prefix (psc_vals this) (nat low) \<le> sm" and "sm < prefix (psc_vals this) (nat (high + 1))"
    and "high - low + 1 < int fuel"
  shows "\<exists>i. psc_search fuel this sm low high mid midStart = Some (int i, prefix (psc_vals this) i) \<and>
    holds_sum (psc_vals this) sm i"
  using assms(3-)
proof (induction fuel arbitrary: low high mid midStart)
  case 0
  then have "nat (high + 1) \<le> nat low" by linarith
  with 0 prefix_mono [OF psc_vals_nonneg, of "nat (high + 1)" "nat low" this] show ?case by simp
next
  case (Suc fuel)
  let ?P = "prefix (psc_vals this)"
  have lh: "low \<le> high"
    using Suc.prems prefix_mono [OF psc_vals_nonneg, of "nat (high + 1)" "nat low" this] by fastforce
  have len: "int (length (psc_values this)) < 2147483648" "length (psc_prefixSum this) = length (psc_values this)"
    using assms(1) by (simp_all add: psc_bounded_def psc_inv_def)
  have "0 \<le> (low + high) div 2" using lh Suc.prems(1) by simp
  then obtain m where div: "(low + high) div 2 = int m" using nonneg_int_cases by blast
  have m: "low \<le> int m" "int m \<le> high" "m < length (psc_values this)"
    using lh Suc.prems(1,2) div by linarith+
  have mid: "toInt32 ((low + high) div 2) = int m"
    using m(3) len(1) by (simp add: is_int32_def div)
  have stop: "uint (u32_get (psc_prefixSum this) (int m)) = ?P (Suc m)"
    using uint_prefix [OF assms(1), of "Suc m"] assms(1,2) m(3) len(2)
    by (simp add: u32_get_def psc_bounded_def psc_inv_def)
  have strt: "?P (Suc m) - uint (u32_get (psc_values this) (int m)) = ?P m"
    using prefix_Suc [of m "psc_vals this"] m(3) by (simp add: u32_get_def psc_vals_def)
  note step = psc_search.simps(2) [of fuel this sm low high mid midStart, unfolded mid Let_def stop strt]
  consider "sm < ?P m" | "?P m \<le> sm" "?P (Suc m) \<le> sm" | "holds_sum (psc_vals this) sm m"
    using m(3) by (force simp: holds_sum_def psc_vals_def)
  then show ?case
  proof cases
    case 1
    then have "\<exists>i. psc_search fuel this sm low (int m - 1) (int m) (?P m) = Some (int i, ?P i) \<and>
        holds_sum (psc_vals this) sm i"
      using Suc.prems m by (intro Suc.IH) simp_all
    with 1 lh step show ?thesis by simp
  next
    case 2
    have "nat (int m + 1) = Suc m" by simp
    with 2 have "\<exists>i. psc_search fuel this sm (int m + 1) high (int m) (?P m) = Some (int i, ?P i) \<and>
        holds_sum (psc_vals this) sm i"
      using Suc.prems m by (intro Suc.IH) simp_all
    with 2 lh step show ?thesis by simp
  next
    case 3
    with lh step show ?thesis by (simp add: holds_sum_def)
  qed
qed

definition psc_index_of :: "int \<Rightarrow> psc \<Rightarrow> (index_of_result \<times> psc) option" where
  "psc_index_of sm this = (case psc_getIndexOf sm this of (r, this') \<Rightarrow> map_option (\<lambda>x. (x, this')) r)"

lemma psc_getIndexOf_ok:
  assumes "psc_bounded this" and "0 \<le> sm" and "sm < prefix (psc_vals this) (length (psc_vals this))"
  shows "\<exists>i this'. psc_getIndexOf sm this =
      (Some \<lparr>ior_index = int i, ior_remainder = Some (sm - prefix (psc_vals this) i)\<rparr>, this') \<and>
    holds_sum (psc_vals this) sm i \<and> psc_bounded this' \<and> psc_values this' = psc_values this"
proof -
  have ne: "psc_values this \<noteq> []" using assms(2,3) by (auto simp: psc_vals_def)
  obtain this' where t: "snd (psc_getTotalSum this) = this'" "psc_inv this'"
    "psc_values this' = psc_values this" "int (length (psc_values this)) - 1 \<le> prefixSumValidIndex this'"
    using psc_getPrefixSum_impl_ok [of this "int (length (psc_values this)) - 1"] assms(1) ne
    by (auto simp: psc_getTotalSum_def psc_bounded_def)
  have vals: "psc_vals this' = psc_vals this" using t(3) by (simp add: psc_vals_def)
  have b: "psc_bounded this'" using assms(1) t(2) vals by (simp add: psc_bounded_def)
  have full: "prefixSumValidIndex this' = int (length (psc_values this')) - 1"
    using t(2,3,4) by (simp add: psc_inv_def)
  have "\<exists>i. psc_search (length (psc_values this') + 1) this' sm 0 (int (length (psc_values this')) - 1) 0 0 =
      Some (int i, prefix (psc_vals this') i) \<and> holds_sum (psc_vals this') sm i"
    using assms(2,3) vals t(3) by (intro psc_search_ok [OF b full]) (simp_all add: psc_vals_def)
  with t(1,3) b vals show ?thesis by (auto simp: psc_getIndexOf_def Let_def)
qed

interpretation psc: prefix_sums psc_bounded psc_vals psc_index_of
proof
  fix this sm
  assume "psc_bounded this" "0 \<le> sm" "sm < prefix (psc_vals this) (length (psc_vals this))"
  from psc_getIndexOf_ok [OF this]
  show "\<exists>i this'. psc_index_of sm this =
      Some (\<lparr>ior_index = int i, ior_remainder = Some (sm - prefix (psc_vals this) i)\<rparr>, this') \<and>
    holds_sum (psc_vals this) sm i \<and> psc_bounded this' \<and> psc_vals this' = psc_vals this"
    by (auto simp: psc_index_of_def psc_vals_def)
qed (rule psc_vals_nonneg)

subsection \<open>\<open>ConstantTimePrefixSumComputer\<close> keeps its sums\<close>

text \<open>
  The first \<open>k\<close> entries of \<open>_prefixSum\<close> and the entries of \<open>_indexBySum\<close> below their sum
  are right.
\<close>

definition ct_upto :: "int list \<Rightarrow> nat \<Rightarrow> js_number list \<Rightarrow> js_number list \<Rightarrow> bool" where
  "ct_upto vs k sums ibs \<longleftrightarrow>
     k \<le> length vs \<and> k \<le> length sums \<and> nat (prefix vs k) \<le> length ibs \<and>
     (\<forall>i<k. sums ! i = Some (prefix vs (Suc i))) \<and>
     (\<forall>i<k. \<forall>x. prefix vs i \<le> int x \<longrightarrow> int x < prefix vs (Suc i) \<longrightarrow> ibs ! x = Some (int i))"

definition ct_inv :: "ctpsc \<Rightarrow> bool" where
  "ct_inv this \<longleftrightarrow>
     (\<exists>vs. ct_values this = map Some vs \<and> (\<forall>v\<in>set vs. 0 \<le> v) \<and> -1 \<le> validEndIndex this \<and>
        ct_upto vs (nat (validEndIndex this + 1)) (ct_prefixSum this) (indexBySum this) \<and>
        (isValid this \<longrightarrow> validEndIndex this = int (length vs) - 1 \<and>
           length (ct_prefixSum this) = length vs \<and>
           int (length (indexBySum this)) = prefix vs (length vs)))"

definition ct_vals :: "ctpsc \<Rightarrow> int list" where
  "ct_vals this = map the (ct_values this)"

lemma ct_inv_init:
  "\<forall>v\<in>set vs. 0 \<le> v \<Longrightarrow> ct_inv (mk_ConstantTimePrefixSumComputer (map Some vs))"
  by (auto simp: ct_inv_def mk_ConstantTimePrefixSumComputer_def ct_upto_def)

lemma prefix_nonneg: "\<forall>v\<in>set vs. 0 \<le> v \<Longrightarrow> 0 \<le> prefix vs k"
  using prefix_mono [of vs 0 k] by simp

lemma ct_index_loop_ok:
  assumes "0 \<le> base" and "0 \<le> j" and "j \<le> v" and "nat (base + j) \<le> length ibs"
    and "\<forall>x. base \<le> int x \<longrightarrow> int x < base + j \<longrightarrow> ibs ! x = Some i"
  shows "nat (base + v) \<le> length (ct_index_loop (Some base) v i j ibs) \<and>
    (\<forall>x. base \<le> int x \<longrightarrow> int x < base + v \<longrightarrow> ct_index_loop (Some base) v i j ibs ! x = Some i) \<and>
    (\<forall>x. int x < base \<longrightarrow> ct_index_loop (Some base) v i j ibs ! x = ibs ! x)"
  using assms
proof (induction "Some base" v i j ibs rule: ct_index_loop.induct)
  case (1 v i j ibs)
  show ?case
  proof (cases "j < v")
    case True
    let ?ibs = "arr_store ibs (num_add (Some base) (Some j)) (Some i)"
    have st: "?ibs = (if base + j < int (length ibs) then ibs[nat (base + j) := Some i] else ibs @ [Some i])"
      using 1(2,3,5) by (auto simp: arr_store_def num_add_def)
    have len: "nat (base + (j + 1)) \<le> length ?ibs" using 1(2,3,5) st by (auto simp: nat_add_distrib)
    have new: "?ibs ! x = Some i" if "base \<le> int x" "int x < base + (j + 1)" for x
    proof (cases "int x = base + j")
      case True
      then have x: "x = nat (base + j)" by simp
      show ?thesis
      proof (cases "base + j < int (length ibs)")
        case True
        then have "nat (base + j) < length ibs" using x \<open>int x = base + j\<close> by linarith
        with True st x show ?thesis by simp
      next
        case False
        with 1(5) have "nat (base + j) = length ibs" by linarith
        with False st x show ?thesis by simp
      qed
    next
      case False
      with that have "int x < base + j" by simp
      moreover from this 1(5) have "x < length ibs" "x \<noteq> nat (base + j)" by linarith+
      ultimately show ?thesis using st 1(6) that(1) by (auto simp: nth_append)
    qed
    have old: "?ibs ! x = ibs ! x" if "int x < base" for x
    proof -
      have "x < length ibs" "x \<noteq> nat (base + j)" using that 1(3,5) by linarith+
      then show ?thesis using st by (auto simp: nth_append)
    qed
    have loop: "ct_index_loop (Some base) v i j ibs = ct_index_loop (Some base) v i (j + 1) ?ibs"
      using True by (simp add: ct_index_loop.simps [of "Some base" v i j ibs])
    show ?thesis unfolding loop
      using 1(1) [OF True _ _ _ len] 1(2,3) True new old by auto
  next
    case False
    then have loop: "ct_index_loop (Some base) v i j ibs = ibs"
      by (simp add: ct_index_loop.simps [of "Some base" v i j ibs])
    have "j = v" using False 1(4) by simp
    with 1(5,6) loop show ?thesis by simp
  qed
qed

lemma ct_upto_step:
  assumes "ct_upto vs k sums ibs" and "\<forall>v\<in>set vs. 0 \<le> v" and "k < length vs"
  shows "ct_upto vs (Suc k) (arr_store sums (Some (int k)) (Some (prefix vs (Suc k))))
    (ct_index_loop (Some (prefix vs k)) (vs ! k) (int k) 0 ibs)"
proof -
  let ?ibs = "ct_index_loop (Some (prefix vs k)) (vs ! k) (int k) 0 ibs"
  let ?sums = "arr_store sums (Some (int k)) (Some (prefix vs (Suc k)))"
  have v: "0 \<le> vs ! k" using assms(2,3) by simp
  have up: "k \<le> length sums" "nat (prefix vs k) \<le> length ibs"
    "\<And>i. i < k \<Longrightarrow> sums ! i = Some (prefix vs (Suc i))"
    "\<And>i x. i < k \<Longrightarrow> prefix vs i \<le> int x \<Longrightarrow> int x < prefix vs (Suc i) \<Longrightarrow> ibs ! x = Some (int i)"
    using assms(1) by (simp_all add: ct_upto_def)
  have st: "?sums = (if k < length sums then sums[k := Some (prefix vs (Suc k))]
      else sums @ [Some (prefix vs (Suc k))])"
    using up(1) by (auto simp: arr_store_def)
  have len: "Suc k \<le> length ?sums" using st up(1) by auto
  have sums: "?sums ! i = Some (prefix vs (Suc i))" if "i < Suc k" for i
    using that st up(1,3) by (auto simp: nth_append less_Suc_eq)
  have loop: "nat (prefix vs (Suc k)) \<le> length ?ibs"
    "\<And>x. prefix vs k \<le> int x \<Longrightarrow> int x < prefix vs (Suc k) \<Longrightarrow> ?ibs ! x = Some (int k)"
    "\<And>x. int x < prefix vs k \<Longrightarrow> ?ibs ! x = ibs ! x"
    using ct_index_loop_ok [of "prefix vs k" 0 "vs ! k" ibs "int k"] v up(2) prefix_nonneg [OF assms(2)]
    by (auto simp: prefix_Suc [OF assms(3)])
  have "?ibs ! x = Some (int i)" if "i < Suc k" "prefix vs i \<le> int x" "int x < prefix vs (Suc i)" for i x
  proof (cases "i = k")
    case False
    then have "i < k" "int x < prefix vs k"
      using that prefix_mono [OF assms(2), of "Suc i" k] by auto
    with loop(3) up(4) that show ?thesis by simp
  qed (use loop(2) that in simp)
  with len sums loop(1) assms(3) show ?thesis by (simp add: ct_upto_def)
qed

lemma ct_sum_loop_ok:
  assumes "ct_upto vs k sums ibs" and "\<forall>v\<in>set vs. 0 \<le> v"
  shows "\<exists>sums' ibs'. ct_sum_loop (map Some vs) (int k) sums ibs = (sums', ibs') \<and>
    ct_upto vs (length vs) sums' ibs'"
  using assms
proof (induction "length vs - k" arbitrary: k sums ibs)
  case 0
  then have "k = length vs" by (simp add: ct_upto_def)
  with 0 show ?case by (simp add: ct_sum_loop.simps)
next
  case (Suc n)
  then have k: "k < length vs" by simp
  have above: "(if int k > 0 then arr_get sums (int k - 1) else Some 0) = Some (prefix vs k)"
    using Suc.prems(1) k by (cases k) (auto simp: arr_get_def js_at_def ct_upto_def)
  have "ct_sum_loop (map Some vs) (int k) sums ibs =
      ct_sum_loop (map Some vs) (int (Suc k))
        (arr_store sums (Some (int k)) (Some (prefix vs (Suc k))))
        (ct_index_loop (Some (prefix vs k)) (vs ! k) (int k) 0 ibs)"
    using k by (subst ct_sum_loop.simps)
      (simp only: above, simp add: arr_get_def num_add_def prefix_Suc Let_def algebra_simps)
  with Suc.hyps(1) [OF _ ct_upto_step [OF Suc.prems k] Suc.prems(2)] Suc.hyps(2) show ?case by simp
qed

lemma ct_ensureValid_ok:
  assumes "ct_inv this"
  shows "\<exists>this'. ct_ensureValid this = Inr this' \<and> ct_inv this' \<and> isValid this' \<and>
    ct_values this' = ct_values this"
proof (cases "isValid this")
  case True
  with assms show ?thesis by (simp add: ct_ensureValid_def)
next
  case False
  obtain vs where vs: "ct_values this = map Some vs" "\<forall>v\<in>set vs. 0 \<le> v" "-1 \<le> validEndIndex this"
    "ct_upto vs (nat (validEndIndex this + 1)) (ct_prefixSum this) (indexBySum this)"
    using assms by (auto simp: ct_inv_def)
  obtain sums ibs where loop: "ct_sum_loop (map Some vs) (validEndIndex this + 1)
      (ct_prefixSum this) (indexBySum this) = (sums, ibs)" and up: "ct_upto vs (length vs) sums ibs"
    using ct_sum_loop_ok [OF vs(4,2)] vs(3) by auto
  let ?sums = "take (length vs) sums" and ?ibs = "take (nat (prefix vs (length vs))) ibs"
  have s: "arr_set_length sums (Some (int (length vs))) = Inr ?sums"
    using up by (simp add: arr_set_length_def ct_upto_def)
  have total: "(if int (length vs) > 0 then arr_get ?sums (int (length vs) - 1) else Some 0) =
      Some (prefix vs (length vs))"
  proof (cases vs rule: rev_cases)
    case (snoc ys y)
    then have "nat (int (length vs) - 1) = length ys" "length ys < length vs" by simp_all
    with up show ?thesis by (auto simp: arr_get_def js_at_def ct_upto_def snoc)
  qed (simp add: prefix_def)
  have i: "arr_set_length ibs (Some (prefix vs (length vs))) = Inr ?ibs"
    using up prefix_nonneg [OF vs(2)] by (simp add: arr_set_length_def ct_upto_def not_less)
  let ?new = "this\<lparr>ct_prefixSum := ?sums, indexBySum := ?ibs, isValid := True,
    validEndIndex := int (length vs) - 1\<rparr>"
  have "ct_ensureValid this = Inr ?new"
    using False vs(1) loop s i total by (simp add: ct_ensureValid_def)
  moreover have "ct_upto vs (length vs) ?sums ?ibs"
  proof -
    have "x < nat (prefix vs (length vs))" if "i < length vs" "int x < prefix vs (Suc i)" for i x
      using that prefix_mono [OF vs(2), of "Suc i" "length vs"] by simp
    with up show ?thesis by (auto simp: ct_upto_def min_absorb2)
  qed
  then have "ct_inv ?new"
    using vs(1,2) up prefix_nonneg [OF vs(2)] by (auto simp: ct_inv_def ct_upto_def min_absorb2)
  ultimately show ?thesis using vs(1) by simp
qed

text \<open>Changing the values from an index on keeps what is trusted before it.\<close>

lemma ct_inv_invalidate:
  assumes "ct_inv this" and "ct_values this = map Some vs" and "\<forall>v\<in>set vs'. 0 \<le> v"
    and "take i vs' = take i vs" and "i \<le> length vs" and "i \<le> length vs'"
  shows "ct_inv (ct_invalidate (int i) (this\<lparr>ct_values := map Some vs'\<rparr>))"
proof -
  define k where "k = nat (min (validEndIndex this) (int i - 1) + 1)"
  have valid: "-1 \<le> validEndIndex this"
    and up: "ct_upto vs (nat (validEndIndex this + 1)) (ct_prefixSum this) (indexBySum this)"
    and nonneg: "\<forall>v\<in>set vs. 0 \<le> v"
    using assms(1,2) inj_map_eq_map [of Some] by (auto simp: ct_inv_def)
  have k: "k \<le> i" "k \<le> nat (validEndIndex this + 1)" by (simp_all add: k_def)
  have eq: "prefix vs' j = prefix vs j" if "j \<le> i" for j
    using arg_cong [OF assms(4), of "take j"] that by (simp add: prefix_def min_absorb1)
  have "ct_upto vs' k (ct_prefixSum this) (indexBySum this)"
    using up k eq assms(6) prefix_mono [OF nonneg k(2)] by (auto simp: ct_upto_def)
  with assms(3) valid show ?thesis by (auto simp: ct_inv_def ct_invalidate_def k_def)
qed

lemma ct_inv_values:
  assumes "ct_inv this"
  obtains vs where "ct_values this = map Some vs" "ct_vals this = vs" "\<forall>v\<in>set vs. 0 \<le> v"
  using assms by (auto simp: ct_inv_def ct_vals_def comp_def)

lemma ct_insertValues_ok:
  assumes "ct_inv this" and "i \<le> length (ct_values this)" and "\<forall>v\<in>set xs. 0 \<le> v"
  shows "ct_inv (ct_insertValues (int i) (map Some xs) this) \<and>
    ct_vals (ct_insertValues (int i) (map Some xs) this) =
      take i (ct_vals this) @ xs @ drop i (ct_vals this)"
proof -
  obtain vs where vs: "ct_values this = map Some vs" "ct_vals this = vs" "\<forall>v\<in>set vs. 0 \<le> v"
    using ct_inv_values [OF assms(1)] .
  have new: "arrayInsert (map Some vs) (int i) (map Some xs) = map Some (take i vs @ xs @ drop i vs)"
    using assms(2) vs(1) by (simp add: arrayInsert_def js_slice_in_range js_slice_from_in_range take_map drop_map)
  have "ct_inv (ct_invalidate (int i) (this\<lparr>ct_values := map Some (take i vs @ xs @ drop i vs)\<rparr>))"
    using assms vs by (intro ct_inv_invalidate [OF assms(1) vs(1)]) (auto dest: in_set_takeD in_set_dropD)
  then show ?thesis
    using vs by (simp add: ct_insertValues_def new) (simp add: ct_invalidate_def ct_vals_def comp_def)
qed

lemma ct_removeValues_ok:
  assumes "ct_inv this" and "i + n \<le> length (ct_values this)"
  shows "ct_inv (ct_removeValues (int i) (int n) this) \<and>
    ct_vals (ct_removeValues (int i) (int n) this) = take i (ct_vals this) @ drop (i + n) (ct_vals this)"
proof -
  obtain vs where vs: "ct_values this = map Some vs" "ct_vals this = vs" "\<forall>v\<in>set vs. 0 \<le> v"
    using ct_inv_values [OF assms(1)] .
  have new: "arr_remove (map Some vs) (int i) (int n) = map Some (take i vs @ drop (i + n) vs)"
    using assms(2) vs(1) by (simp add: arr_remove_def take_map drop_map min_absorb1)
  have "ct_inv (ct_invalidate (int i) (this\<lparr>ct_values := map Some (take i vs @ drop (i + n) vs)\<rparr>))"
    using assms vs by (intro ct_inv_invalidate [OF assms(1) vs(1)]) (auto dest: in_set_takeD in_set_dropD)
  then show ?thesis
    using vs by (simp add: ct_removeValues_def new) (simp add: ct_invalidate_def ct_vals_def comp_def)
qed

lemma ct_setValue_ok:
  assumes "ct_inv this" and "i < length (ct_values this)" and "0 \<le> v"
  shows "ct_inv (ct_setValue (int i) v this) \<and> ct_vals (ct_setValue (int i) v this) = (ct_vals this)[i := v]"
proof -
  obtain vs where vs: "ct_values this = map Some vs" "ct_vals this = vs" "\<forall>v\<in>set vs. 0 \<le> v"
    using ct_inv_values [OF assms(1)] .
  show ?thesis
  proof (cases "vs ! i = v")
    case True
    then have "vs[i := v] = vs" by (metis list_update_id)
    with True assms vs show ?thesis by (simp add: ct_setValue_def arr_get_def)
  next
    case False
    have new: "arr_store (map Some vs) (Some (int i)) (Some v) = map Some (vs[i := v])"
      using assms(2) vs(1) by (simp add: arr_store_def map_update)
    have "ct_inv (ct_invalidate (int i) (this\<lparr>ct_values := map Some (vs[i := v])\<rparr>))"
      using assms vs by (intro ct_inv_invalidate [OF assms(1) vs(1)])
        (auto dest: subsetD [OF set_update_subset_insert])
    with False assms(2) vs show ?thesis
      by (simp add: ct_setValue_def arr_get_def new) (simp add: ct_invalidate_def ct_vals_def comp_def map_update)
  qed
qed

lemma holds_sum_exists:
  assumes "0 \<le> sm" and "sm < prefix vs (length vs)"
  shows "\<exists>i. holds_sum vs sm i"
proof -
  have "\<exists>i<k. prefix vs i \<le> sm \<and> sm < prefix vs (Suc i)" if "sm < prefix vs k" for k
    using that
  proof (induction k)
    case (Suc k)
    then show ?case by (cases "sm < prefix vs k") (auto simp: less_Suc_eq)
  qed (use assms(1) in simp)
  from this [OF assms(2)] show ?thesis by (auto simp: holds_sum_def)
qed

lemma ct_valid_entries:
  assumes "ct_inv this" and "isValid this"
  shows "\<forall>i<length (ct_vals this). arr_get (ct_prefixSum this) (int i) = Some (prefix (ct_vals this) (Suc i))"
    and "0 \<le> sm \<Longrightarrow> holds_sum (ct_vals this) sm i \<Longrightarrow> arr_get (indexBySum this) sm = Some (int i)"
    and "int (length (indexBySum this)) = prefix (ct_vals this) (length (ct_vals this))"
proof -
  obtain vs where vs: "ct_vals this = vs" "\<forall>v\<in>set vs. 0 \<le> v"
    "ct_upto vs (length vs) (ct_prefixSum this) (indexBySum this)"
    "length (ct_prefixSum this) = length vs" "int (length (indexBySum this)) = prefix vs (length vs)"
    using assms by (auto simp: ct_inv_def ct_vals_def comp_def)
  show "\<forall>i<length (ct_vals this). arr_get (ct_prefixSum this) (int i) = Some (prefix (ct_vals this) (Suc i))"
    using vs by (simp add: ct_upto_def arr_get_def)
  show "int (length (indexBySum this)) = prefix (ct_vals this) (length (ct_vals this))"
    using vs by simp
  assume "0 \<le> sm" "holds_sum (ct_vals this) sm i"
  then have i: "i < length vs" "prefix vs i \<le> sm" "sm < prefix vs (Suc i)" "sm = int (nat sm)"
    using vs(1) by (auto simp: holds_sum_def)
  have "sm < prefix vs (length vs)" using prefix_mono [OF vs(2), of "Suc i" "length vs"] i by simp
  then have "js_at (indexBySum this) sm = Some (indexBySum this ! nat sm)"
    using \<open>0 \<le> sm\<close> vs(5) by (simp add: js_at_def)
  with i vs(3) show "arr_get (indexBySum this) sm = Some (int i)"
    unfolding ct_upto_def arr_get_def by (metis option.simps(5))
qed

lemma ct_getIndexOf_ok:
  assumes "ct_inv this" and "0 \<le> sm" and "sm < prefix (ct_vals this) (length (ct_vals this))"
  shows "\<exists>i this'. ct_getIndexOf sm this =
      Inr (\<lparr>ior_index = int i, ior_remainder = Some (sm - prefix (ct_vals this) i)\<rparr>, this') \<and>
    holds_sum (ct_vals this) sm i \<and> ct_inv this' \<and> ct_values this' = ct_values this"
proof -
  obtain this' where t: "ct_ensureValid this = Inr this'" "ct_inv this'" "isValid this'"
    "ct_values this' = ct_values this" using ct_ensureValid_ok [OF assms(1)] by blast
  have vals: "ct_vals this' = ct_vals this" using t(4) by (simp add: ct_vals_def)
  obtain i where i: "holds_sum (ct_vals this) sm i" using holds_sum_exists [OF assms(2,3)] by blast
  have idx: "arr_get (indexBySum this') sm = Some (int i)"
    using ct_valid_entries(2) [OF t(2,3) assms(2)] i vals by simp
  have "(if int i > 0 then arr_get (ct_prefixSum this') (int i - 1) else Some 0) = Some (prefix (ct_vals this) i)"
    using ct_valid_entries(1) [OF t(2,3)] i vals by (cases i) (auto simp: holds_sum_def)
  with t idx i show ?thesis by (simp add: ct_getIndexOf_def Let_def)
qed

definition ct_index_of :: "int \<Rightarrow> ctpsc \<Rightarrow> (index_of_result \<times> ctpsc) option" where
  "ct_index_of sm this = (case ct_getIndexOf sm this of Inl _ \<Rightarrow> None | Inr r \<Rightarrow> Some r)"

interpretation ct: prefix_sums ct_inv ct_vals ct_index_of
proof
  show "\<forall>v\<in>set (ct_vals this). 0 \<le> v" if "ct_inv this" for this
    using ct_inv_values [OF that] by metis
next
  fix this sm
  assume "ct_inv this" "0 \<le> sm" "sm < prefix (ct_vals this) (length (ct_vals this))"
  from ct_getIndexOf_ok [OF this]
  show "\<exists>i this'. ct_index_of sm this =
      Some (\<lparr>ior_index = int i, ior_remainder = Some (sm - prefix (ct_vals this) i)\<rparr>, this') \<and>
    holds_sum (ct_vals this) sm i \<and> ct_inv this' \<and> ct_vals this' = ct_vals this"
    by (auto simp: ct_index_of_def ct_vals_def)
qed

interpretation both: prefix_sums_pair psc_bounded psc_vals psc_index_of ct_inv ct_vals ct_index_of ..

subsection \<open>Runs of a prefix sum computer\<close>

text \<open>
  The states a \<open>PrefixSumComputer\<close> goes through under updates and queries, with the list of values
  it stands for. A value that is set is below \<open>2\<^sup>31\<close>, what \<open>toUint32\<close> maps to itself.
\<close>

inductive psc_run :: "psc \<Rightarrow> 32 word list \<Rightarrow> bool" where
  created: "int (length vs) < 2147483648 \<Longrightarrow> psc_run (mk_PrefixSumComputer vs) vs"
| inserted: "psc_run c vs \<Longrightarrow> i \<le> length vs \<Longrightarrow> xs \<noteq> [] \<Longrightarrow> int (length vs + length xs) < 2147483648 \<Longrightarrow>
    psc_insertValues (int i) xs c = Inr (b, c') \<Longrightarrow> psc_run c' (take i vs @ xs @ drop i vs)"
| removed: "psc_run c vs \<Longrightarrow> 0 < n \<Longrightarrow> i + n \<le> length vs \<Longrightarrow>
    psc_removeValues (int i) (int n) c = Inr (b, c') \<Longrightarrow> psc_run c' (take i vs @ drop (i + n) vs)"
| set_value: "psc_run c vs \<Longrightarrow> i < length vs \<Longrightarrow> 0 \<le> v \<Longrightarrow> v < 2147483648 \<Longrightarrow>
    psc_setValue (int i) v c = (b, c') \<Longrightarrow> psc_run c' (vs[i := word_of_int v])"
| summed: "psc_run c vs \<Longrightarrow> i < length vs \<Longrightarrow> psc_getPrefixSum (int i) c = (x, c') \<Longrightarrow> psc_run c' vs"

lemma psc_run_inv: "psc_run c vs \<Longrightarrow> psc_inv c \<and> psc_values c = vs"
proof (induction rule: psc_run.induct)
  case (created vs)
  then show ?case using psc_inv_init by (simp add: mk_PrefixSumComputer_def)
next
  case (inserted c vs i xs b c')
  then show ?case using psc_insertValues_ok [of c i xs] by auto
next
  case (removed c vs n i b c')
  then show ?case using psc_removeValues_ok [of c i n] by auto
next
  case (set_value c vs i v b c')
  then show ?case using psc_setValue_ok [of c i v] by auto
next
  case (summed c vs i x c')
  then have "int (length vs) < 2147483648" by (auto simp: psc_inv_def)
  with summed psc_getPrefixSum_impl_ok [of c "int i"] show ?case
    by (auto simp: psc_getPrefixSum_def)
qed

subsection \<open>Properties\<close>

text \<open>C32: after any sequence of updates and queries, \<open>getPrefixSum\<close> of a \<open>PrefixSumComputer\<close> gives the
  sum of the values up to the index, in the arithmetic of 32 bits, although only a part of the cached
  sums is computed, and the query is again a state of such a sequence.\<close>

theorem PrefixSumComputer_getPrefixSum:
  assumes "psc_run c vs" and "i < length vs"
  shows "\<exists>c'. psc_getPrefixSum (int i) c = (Some (sum_list (take (Suc i) vs)), c') \<and> psc_run c' vs"
proof -
  have inv: "psc_inv c" "psc_values c = vs" using psc_run_inv [OF assms(1)] by simp_all
  then have "int (length vs) < 2147483648" by (auto simp: psc_inv_def)
  with psc_getPrefixSum_impl_ok [OF inv(1), of "int i"] inv(2) assms(2)
  obtain c' where "psc_getPrefixSum (int i) c = (Some (sum_list (take (Suc i) vs)), c')"
    by (auto simp: psc_getPrefixSum_def)
  then show ?thesis using psc_run.summed [OF assms] by blast
qed

theorem PrefixSumComputer_getPrefixSum_witness:
  "\<exists>c'. psc_getPrefixSum (int 1) (mk_PrefixSumComputer [4294967295, 3, 5]) =
      (Some (sum_list (take (Suc 1) [4294967295, 3, 5])), c') \<and> psc_run c' [4294967295, 3, 5]"
  by (rule PrefixSumComputer_getPrefixSum, rule psc_run.created) code_simp+



text \<open>\<open>getIndexOf\<close> of a \<open>PrefixSumComputer\<close> ends and finds, for a sum below the total, the one
  value whose part of the total contains it, and what is left of the sum in front of it, if the
  total of the values fits 32 bits.\<close>

lemma PrefixSumComputer_getIndexOf:
  assumes "psc_run c vs" and "sum_list (map uint vs) < 4294967296"
    and "0 \<le> sm" and "sm < sum_list (map uint vs)"
  shows "\<exists>i c'. psc_getIndexOf sm c =
      (Some \<lparr>ior_index = int i, ior_remainder = Some (sm - sum_list (map uint (take i vs)))\<rparr>, c') \<and>
    i < length vs \<and> sum_list (map uint (take i vs)) \<le> sm \<and> sm < sum_list (map uint (take (Suc i) vs))"
proof -
  have inv: "psc_inv c" "psc_vals c = map uint vs"
    using psc_run_inv [OF assms(1)] by (simp_all add: psc_vals_def)
  have pre: "prefix (map uint vs) k = sum_list (map uint (take k vs))" for k
    by (simp add: prefix_def take_map)
  have "psc_bounded c" using inv assms(2) by (simp add: psc_bounded_def pre)
  from psc_getIndexOf_ok [OF this assms(3)] inv(2) assms(4) show ?thesis
    by (auto simp: pre holds_sum_def)
qed



end
