(* ===== verification/MirrorModel.thy ===== *)
theory MirrorModel
  imports Range PrefixSum
begin

section \<open>The mirror of a text model\<close>

text \<open>
  \<open>MirrorTextModel\<close> of \<open>src/vs/editor/common/model/mirrorTextModel.ts\<close> follows a document by its
  change events, in the worker and in the extension host; \<open>MirrorModel\<close> of
  \<open>src/vs/editor/common/services/textModelSync/textModelSync.impl.ts\<close> adds the conversion between
  positions and offsets. The model keeps the lines, a prefix sum computer over the line lengths
  that is made on demand, and the cached text. An exception leaves the model half changed; the
  operations return only the error then.
\<close>

subsection \<open>Lines and text\<close>

text \<open>\<open>splitLines\<close> of \<open>src/vs/base/common/strings.ts\<close>: \<open>str.split(/\r\n|\r|\n/)\<close>.\<close>

definition prepend_unit :: "code_unit \<Rightarrow> js_string list \<Rightarrow> js_string list" where
  "prepend_unit c ls = (case ls of [] \<Rightarrow> [[c]] | l # ls' \<Rightarrow> (c # l) # ls')"

fun splitLines :: "js_string \<Rightarrow> js_string list" where
  "splitLines [] = [[]]"
| "splitLines [c] = (if c = 13 \<or> c = 10 then [[], []] else [[c]])"
| "splitLines (c # c' # cs) =
     (if c = 13 \<and> c' = 10 then [] # splitLines cs
      else if c = 13 \<or> c = 10 then [] # splitLines (c' # cs)
      else prepend_unit c (splitLines (c' # cs)))"

subsection \<open>\<open>MirrorTextModel\<close>\<close>

record mirror_model =
  mm_uri :: js_string
  mm_lines :: "js_string list"
  mm_eol :: js_string
  mm_versionId :: int
  mm_lineStarts :: "psc option"
  mm_cachedTextValue :: "js_string option"

record content_change =
  ch_range :: "range"
  ch_rangeOffset :: int
  ch_rangeLength :: int
  ch_text :: js_string

record changed_event =
  ev_changes :: "content_change list"
  ev_eol :: js_string
  ev_versionId :: int
  ev_isUndoing :: bool
  ev_isRedoing :: bool

definition mk_MirrorTextModel :: "js_string \<Rightarrow> js_string list \<Rightarrow> js_string \<Rightarrow> int \<Rightarrow> mirror_model" where
  "mk_MirrorTextModel uri lines eol versionId =
     \<lparr>mm_uri = uri, mm_lines = lines, mm_eol = eol, mm_versionId = versionId,
      mm_lineStarts = None, mm_cachedTextValue = None\<rparr>"

definition mm_dispose :: "mirror_model \<Rightarrow> mirror_model" where
  "mm_dispose this = this\<lparr>mm_lines := []\<rparr>"

definition mm_version :: "mirror_model \<Rightarrow> int" where
  "mm_version this = mm_versionId this"

definition mm_getText :: "mirror_model \<Rightarrow> js_string \<times> mirror_model" where
  "mm_getText this =
     (case mm_cachedTextValue this of
        Some t \<Rightarrow> (t, this)
      | None \<Rightarrow> (let t = js_join (mm_eol this) (mm_lines this)
                 in (t, this\<lparr>mm_cachedTextValue := Some t\<rparr>)))"

definition mm_line_value :: "js_string \<Rightarrow> js_string \<Rightarrow> 32 word" where
  "mm_line_value eol l = word_of_int (int (length l) + int (length eol))"

definition mm_ensureLineStarts :: "mirror_model \<Rightarrow> mirror_model" where
  "mm_ensureLineStarts this =
     (case mm_lineStarts this of
        Some _ \<Rightarrow> this
      | None \<Rightarrow> this\<lparr>mm_lineStarts :=
          Some (mk_PrefixSumComputer (map (mm_line_value (mm_eol this)) (mm_lines this)))\<rparr>)"

text \<open>Every caller of \<open>_setLineText\<close> has read a line at the index, so the index is in range.\<close>

definition mm_setLineText :: "int \<Rightarrow> js_string \<Rightarrow> mirror_model \<Rightarrow> mirror_model" where
  "mm_setLineText lineIndex newValue this =
     this\<lparr>mm_lines := (mm_lines this)[nat lineIndex := newValue],
       mm_lineStarts := map_option
         (\<lambda>ps. snd (psc_setValue lineIndex (int (length newValue) + int (length (mm_eol this))) ps))
         (mm_lineStarts this)\<rparr>"

text \<open>\<open>this._lines[i]\<close> as the receiver of a method call: \<open>undefined\<close> throws a \<open>TypeError\<close>.\<close>

definition mm_line :: "mirror_model \<Rightarrow> int \<Rightarrow> js_string result" where
  "mm_line this i = (case js_at (mm_lines this) i of Some l \<Rightarrow> Inr l | None \<Rightarrow> Inl TypeError)"

definition mm_acceptDeleteRange :: "range \<Rightarrow> mirror_model \<Rightarrow> mirror_model result" where
  "mm_acceptDeleteRange r this =
     (if startLineNumber r = endLineNumber r
      then (if startColumn r = endColumn r then Inr this
            else bind_result (mm_line this (startLineNumber r - 1))
                   (\<lambda>l. Inr (mm_setLineText (startLineNumber r - 1)
                      (js_substring l 0 (startColumn r - 1) @ js_substring_from l (endColumn r - 1)) this)))
      else bind_result (mm_line this (startLineNumber r - 1))
             (\<lambda>l. bind_result (mm_line this (endLineNumber r - 1))
                (\<lambda>l'. let st = mm_setLineText (startLineNumber r - 1)
                        (js_substring l 0 (startColumn r - 1) @ js_substring_from l' (endColumn r - 1)) this;
                      n = endLineNumber r - startLineNumber r;
                      st' = st\<lparr>mm_lines := arr_remove (mm_lines st) (startLineNumber r) n\<rparr>
                  in case mm_lineStarts st' of
                       None \<Rightarrow> Inr st'
                     | Some ps \<Rightarrow> bind_result (psc_removeValues (startLineNumber r) n ps)
                         (\<lambda>(_, ps'). Inr (st'\<lparr>mm_lineStarts := Some ps'\<rparr>)))))"

text \<open>
  The loop that inserts the lines behind the first one: \<open>splice(position.lineNumber + i - 1, 0, line)\<close>
  for \<open>i\<close> from 1 on.
\<close>

definition arr_insert1 :: "'a list \<Rightarrow> int \<Rightarrow> 'a \<Rightarrow> 'a list" where
  "arr_insert1 xs s x = (let i = js_relative_index (length xs) s in take i xs @ [x] @ drop i xs)"

fun insert_lines_loop :: "int \<Rightarrow> js_string list \<Rightarrow> js_string list \<Rightarrow> js_string list" where
  "insert_lines_loop s [] lines = lines"
| "insert_lines_loop s (l # ls) lines = insert_lines_loop (s + 1) ls (arr_insert1 lines s l)"

definition mm_acceptInsertText :: "position \<Rightarrow> js_string \<Rightarrow> mirror_model \<Rightarrow> mirror_model result" where
  "mm_acceptInsertText p insertText this =
     (if insertText = [] then Inr this
      else let insertLines = splitLines insertText
           in bind_result (mm_line this (lineNumber p - 1))
                (\<lambda>l. if length insertLines = 1
                     then Inr (mm_setLineText (lineNumber p - 1)
                       (js_substring l 0 (column p - 1) @ hd insertLines @ js_substring_from l (column p - 1)) this)
                     else let newLines = tl (butlast insertLines @
                                [last insertLines @ js_substring_from l (column p - 1)]);
                              st = mm_setLineText (lineNumber p - 1)
                                (js_substring l 0 (column p - 1) @ hd insertLines) this;
                              newLengths = map (mm_line_value (mm_eol this)) newLines;
                              st' = st\<lparr>mm_lines := insert_lines_loop (lineNumber p) newLines (mm_lines st)\<rparr>
                          in case mm_lineStarts st' of
                               None \<Rightarrow> Inr st'
                             | Some ps \<Rightarrow> bind_result (psc_insertValues (lineNumber p) newLengths ps)
                                 (\<lambda>(_, ps'). Inr (st'\<lparr>mm_lineStarts := Some ps'\<rparr>))))"

fun mm_acceptChanges :: "content_change list \<Rightarrow> mirror_model \<Rightarrow> mirror_model result" where
  "mm_acceptChanges [] this = Inr this"
| "mm_acceptChanges (ch # chs) this =
     bind_result (mm_acceptDeleteRange (ch_range ch) this)
       (\<lambda>st. bind_result
          (mm_acceptInsertText
             (mk_Position (startLineNumber (ch_range ch)) (startColumn (ch_range ch))) (ch_text ch) st)
          (mm_acceptChanges chs))"

definition mm_onEvents :: "changed_event \<Rightarrow> mirror_model \<Rightarrow> mirror_model result" where
  "mm_onEvents e this =
     (let st = (if ev_eol e \<noteq> [] \<and> ev_eol e \<noteq> mm_eol this
                then this\<lparr>mm_eol := ev_eol e, mm_lineStarts := None\<rparr> else this)
      in bind_result (mm_acceptChanges (ev_changes e) st)
           (\<lambda>st'. Inr (st'\<lparr>mm_versionId := ev_versionId e, mm_cachedTextValue := None\<rparr>)))"

subsection \<open>\<open>MirrorModel\<close>\<close>

definition mm_getLinesContent :: "mirror_model \<Rightarrow> js_string list" where
  "mm_getLinesContent this = js_slice_from (mm_lines this) 0"

definition mm_getLineCount :: "mirror_model \<Rightarrow> nat" where
  "mm_getLineCount this = length (mm_lines this)"

definition mm_getLineContent :: "mirror_model \<Rightarrow> int \<Rightarrow> js_string option" where
  "mm_getLineContent this n = js_at (mm_lines this) (n - 1)"

definition mm_validatePosition :: "mirror_model \<Rightarrow> position \<Rightarrow> position result" where
  "mm_validatePosition this p =
     (if lineNumber p < 1 then Inr (mk_Position 1 1)
      else if lineNumber p > int (length (mm_lines this))
      then bind_result (mm_line this (int (length (mm_lines this)) - 1))
             (\<lambda>l. Inr (mk_Position (int (length (mm_lines this))) (int (length l) + 1)))
      else bind_result (mm_line this (lineNumber p - 1))
             (\<lambda>l. let maxCharacter = int (length l) + 1
                  in if column p < 1 then Inr (mk_Position (lineNumber p) 1)
                     else if column p > maxCharacter then Inr (mk_Position (lineNumber p) maxCharacter)
                     else Inr p))"

definition mm_validateRange :: "mirror_model \<Rightarrow> range \<Rightarrow> range result" where
  "mm_validateRange this r =
     bind_result (mm_validatePosition this (mk_Position (startLineNumber r) (startColumn r)))
       (\<lambda>s. bind_result (mm_validatePosition this (mk_Position (endLineNumber r) (endColumn r)))
          (\<lambda>e. Inr (if lineNumber s \<noteq> startLineNumber r \<or> column s \<noteq> startColumn r \<or>
                       lineNumber e \<noteq> endLineNumber r \<or> column e \<noteq> endColumn r
                    then \<lparr>startLineNumber = lineNumber s, startColumn = column s,
                          endLineNumber = lineNumber e, endColumn = column e\<rparr>
                    else r)))"

definition mm_getValueInRange :: "mirror_model \<Rightarrow> range \<Rightarrow> js_string result" where
  "mm_getValueInRange this r0 =
     bind_result (mm_validateRange this r0)
       (\<lambda>r. bind_result (mm_line this (startLineNumber r - 1))
          (\<lambda>l. if startLineNumber r = endLineNumber r
               then Inr (js_substring l (startColumn r - 1) (endColumn r - 1))
               else bind_result (mm_line this (endLineNumber r - 1))
                 (\<lambda>l'. Inr (js_join (mm_eol this)
                    ([js_substring_from l (startColumn r - 1)]
                     @ js_slice (mm_lines this) (startLineNumber r) (endLineNumber r - 1)
                     @ [js_substring l' 0 (endColumn r - 1)])))))"

text \<open>
  The receiver \<open>this._lineStarts!\<close> is there after \<open>_ensureLineStarts\<close>. An offset \<open>None\<close> would
  be \<open>NaN\<close>. In \<open>positionAt\<close> the outer \<open>None\<close> is a search that does not end within its fuel.
\<close>

definition mm_offsetAt :: "position \<Rightarrow> mirror_model \<Rightarrow> (js_number \<times> mirror_model) result" where
  "mm_offsetAt p0 this =
     bind_result (mm_validatePosition this p0)
       (\<lambda>p. let st = mm_ensureLineStarts this
            in case mm_lineStarts st of
                 None \<Rightarrow> Inl TypeError
               | Some ps \<Rightarrow> (case psc_getPrefixSum (lineNumber p - 2) ps of (sm, ps') \<Rightarrow>
                   Inr (map_option (\<lambda>w. uint w + (column p - 1)) sm, st\<lparr>mm_lineStarts := Some ps'\<rparr>)))"

definition mm_positionAt :: "int \<Rightarrow> mirror_model \<Rightarrow> (position \<times> mirror_model) result option" where
  "mm_positionAt offset0 this =
     (let offset = max 0 offset0; st = mm_ensureLineStarts this
      in case mm_lineStarts st of
           None \<Rightarrow> Some (Inl TypeError)
         | Some ps \<Rightarrow> (case psc_getIndexOf offset ps of (r, ps') \<Rightarrow>
             map_option (\<lambda>out. bind_result (mm_line st (ior_index out))
               (\<lambda>l. Inr (mk_Position (1 + ior_index out)
                  (1 + (case ior_remainder out of
                          Some rest \<Rightarrow> min rest (int (length l)) | None \<Rightarrow> int (length l))),
                  st\<lparr>mm_lineStarts := Some ps'\<rparr>))) r))"

subsection \<open>Offsets in the joined text\<close>

text \<open>\<open>glue\<close> joins the last line of one list with the first one of the other.\<close>

definition glue :: "'a list list \<Rightarrow> 'a list list \<Rightarrow> 'a list list" where
  "glue as bs = butlast as @ [last as @ hd bs] @ tl bs"

lemma js_join_Cons: "ls \<noteq> [] \<Longrightarrow> js_join eol (l # ls) = l @ eol @ js_join eol ls"
  by (cases ls) simp_all

lemma js_join_append:
  "as \<noteq> [] \<Longrightarrow> bs \<noteq> [] \<Longrightarrow> js_join eol (as @ bs) = js_join eol as @ eol @ js_join eol bs"
proof (induction as)
  case (Cons a as)
  then show ?case by (cases as) (simp_all add: js_join_Cons)
qed simp

lemma js_join_glue:
  assumes "as \<noteq> []" and "bs \<noteq> []"
  shows "js_join eol (glue as bs) = js_join eol as @ js_join eol bs"
proof -
  have hd: "js_join eol ((x @ y) # ys) = x @ js_join eol (y # ys)" for x y :: "'a list" and ys
    by (cases ys) simp_all
  have mid: "js_join eol (xs @ [x @ y] @ ys) = js_join eol (xs @ [x]) @ js_join eol (y # ys)" for xs x y ys
    by (induction xs) (simp_all add: js_join_Cons hd)
  show ?thesis
    using mid [of "butlast as" "last as" "hd bs" "tl bs"] assms by (simp add: glue_def)
qed

lemma glue_not_Nil [simp]: "glue as bs \<noteq> []"
  by (simp add: glue_def)

lemma splitLines_not_Nil [simp]: "splitLines s \<noteq> []"
  by (induction s rule: splitLines.induct) (auto simp: prepend_unit_def split: list.splits)

text \<open>The lines before and behind the column \<open>c\<close> of the line \<open>i\<close>, counted from 0.\<close>

definition lines_before :: "'a list list \<Rightarrow> nat \<Rightarrow> nat \<Rightarrow> 'a list list" where
  "lines_before ls i c = take i ls @ [take c (ls ! i)]"

definition lines_behind :: "'a list list \<Rightarrow> nat \<Rightarrow> nat \<Rightarrow> 'a list list" where
  "lines_behind ls i c = drop c (ls ! i) # drop (Suc i) ls"

definition line_offset :: "'a list \<Rightarrow> 'a list list \<Rightarrow> nat \<Rightarrow> nat" where
  "line_offset eol ls i = sum_list (map (\<lambda>l. length l + length eol) (take i ls))"

lemma lines_not_Nil [simp]: "lines_before ls i c \<noteq> []" "lines_behind ls i c \<noteq> []"
  by (simp_all add: lines_before_def lines_behind_def)

lemma glue_split: "i < length ls \<Longrightarrow> glue (lines_before ls i c) (lines_behind ls i c) = ls"
  by (simp add: glue_def lines_before_def lines_behind_def id_take_nth_drop [symmetric])

lemma length_js_join_before:
  "i < length ls \<Longrightarrow> c \<le> length (ls ! i) \<Longrightarrow>
     length (js_join eol (lines_before ls i c)) = line_offset eol ls i + c"
proof (induction ls arbitrary: i)
  case (Cons l ls)
  then show ?case
    by (cases i) (simp_all add: lines_before_def line_offset_def js_join_Cons)
qed simp

lemma js_join_at:
  assumes "i < length ls" and "c \<le> length (ls ! i)"
  shows "take (line_offset eol ls i + c) (js_join eol ls) = js_join eol (lines_before ls i c)"
    and "drop (line_offset eol ls i + c) (js_join eol ls) = js_join eol (lines_behind ls i c)"
proof -
  have "js_join eol ls = js_join eol (lines_before ls i c) @ js_join eol (lines_behind ls i c)"
    using js_join_glue [of "lines_before ls i c" "lines_behind ls i c" eol] glue_split [OF assms(1)] by simp
  with length_js_join_before [OF assms, of eol]
  show "take (line_offset eol ls i + c) (js_join eol ls) = js_join eol (lines_before ls i c)"
    and "drop (line_offset eol ls i + c) (js_join eol ls) = js_join eol (lines_behind ls i c)"
    by (simp_all add: append_eq_conv_conj)
qed

subsection \<open>The model follows the changes\<close>

text \<open>The size of a document: every line with its line break and one more.\<close>

definition doc_size :: "js_string \<Rightarrow> js_string list \<Rightarrow> int" where
  "doc_size eol ls = (\<Sum>l\<leftarrow>ls. int (length l) + int (length eol) + 1)"

definition mm_sync :: "mirror_model \<Rightarrow> bool" where
  "mm_sync this \<longleftrightarrow>
     mm_lines this \<noteq> [] \<and> doc_size (mm_eol this) (mm_lines this) < 2147483648 \<and>
     (\<forall>ps. mm_lineStarts this = Some ps \<longrightarrow>
        psc_inv ps \<and> psc_values ps = map (mm_line_value (mm_eol this)) (mm_lines this))"

definition mm_inv :: "mirror_model \<Rightarrow> bool" where
  "mm_inv this \<longleftrightarrow> mm_sync this \<and>
     (\<forall>t. mm_cachedTextValue this = Some t \<longrightarrow> t = js_join (mm_eol this) (mm_lines this))"

definition mm_text :: "mirror_model \<Rightarrow> js_string" where
  "mm_text this = js_join (mm_eol this) (mm_lines this)"

text \<open>A position and a range of the document; \<open>mm_offset\<close> is the offset of a position.\<close>

definition mm_position :: "mirror_model \<Rightarrow> position \<Rightarrow> bool" where
  "mm_position this p \<longleftrightarrow>
     1 \<le> lineNumber p \<and> lineNumber p \<le> int (length (mm_lines this)) \<and> 1 \<le> column p \<and>
     column p \<le> int (length (mm_lines this ! nat (lineNumber p - 1))) + 1"

definition mm_range :: "mirror_model \<Rightarrow> range \<Rightarrow> bool" where
  "mm_range this r \<longleftrightarrow>
     mm_position this (Range_getStartPosition r) \<and> mm_position this (Range_getEndPosition r) \<and>
     valid_range r"

definition mm_offset :: "mirror_model \<Rightarrow> position \<Rightarrow> nat" where
  "mm_offset this p =
     line_offset (mm_eol this) (mm_lines this) (nat (lineNumber p - 1)) + nat (column p - 1)"

lemma doc_size_append [simp]: "doc_size eol (as @ bs) = doc_size eol as + doc_size eol bs"
  by (simp add: doc_size_def)

lemma doc_size_simps [simp]:
  "doc_size eol [] = 0"
  "doc_size eol (l # ls) = int (length l) + int (length eol) + 1 + doc_size eol ls"
  by (simp_all add: doc_size_def)

lemma doc_size_nonneg: "0 \<le> doc_size eol ls"
  by (induction ls) simp_all

lemma doc_size_length: "int (length ls) \<le> doc_size eol ls"
  by (induction ls) simp_all

lemma doc_size_line: "l \<in> set ls \<Longrightarrow> int (length l) + int (length eol) + 1 \<le> doc_size eol ls"
proof (induction ls)
  case (Cons x ls)
  then show ?case using doc_size_nonneg [of eol ls] by auto
qed simp

lemma doc_size_take_drop: "doc_size eol (take n ls) + doc_size eol (drop n ls) = doc_size eol ls"
  by (metis append_take_drop_id doc_size_append)

lemma doc_size_glue:
  "as \<noteq> [] \<Longrightarrow> bs \<noteq> [] \<Longrightarrow>
     doc_size eol (glue as bs) = doc_size eol as + doc_size eol bs - (int (length eol) + 1)"
  by (cases as rule: rev_cases; cases bs) (simp_all add: glue_def)

lemma mm_setLineText_sync:
  assumes "mm_sync this" and "i < length (mm_lines this)"
    and "int (length v) + int (length (mm_eol this)) < 2147483648"
  shows "\<forall>ps. mm_lineStarts (mm_setLineText (int i) v this) = Some ps \<longrightarrow>
    psc_inv ps \<and> psc_values ps = map (mm_line_value (mm_eol this)) ((mm_lines this)[i := v])"
proof (cases "mm_lineStarts this")
  case (Some ps)
  with assms(1) have ps: "psc_inv ps" "psc_values ps = map (mm_line_value (mm_eol this)) (mm_lines this)"
    by (simp_all add: mm_sync_def)
  obtain b ps' where "psc_setValue (int i) (int (length v) + int (length (mm_eol this))) ps = (b, ps')"
    "psc_inv ps'" "psc_values ps' =
      (psc_values ps)[i := word_of_int (int (length v) + int (length (mm_eol this)))]"
    using psc_setValue_ok [OF ps(1), of i "int (length v) + int (length (mm_eol this))"] assms(2,3) ps(2)
    by auto
  with Some ps(2) show ?thesis by (simp add: mm_setLineText_def map_update mm_line_value_def)
qed (simp add: mm_setLineText_def)

lemma doc_size_delete:
  assumes "i \<le> j" and "j < length ls" and "i = j \<Longrightarrow> c \<le> d"
  shows "doc_size eol (glue (lines_before ls i c) (lines_behind ls j d)) \<le> doc_size eol ls"
proof -
  have i: "doc_size eol ls = doc_size eol (take i ls) + (int (length (ls ! i)) + int (length eol) + 1) +
      doc_size eol (drop (Suc i) ls)"
    using doc_size_take_drop [of eol i ls] Cons_nth_drop_Suc [of i ls] assms(1,2)
    by (metis add.assoc doc_size_simps(2) order.strict_trans1)
  show ?thesis
  proof (cases "i = j")
    case True
    have "length (take c (ls ! i)) + length (drop d (ls ! i)) \<le> length (ls ! i)"
      using assms(3) [OF True] by simp
    with True i show ?thesis by (simp add: glue_def lines_before_def lines_behind_def)
  next
    case False
    then have "Suc i + (j - Suc i) = j" using assms(1) by simp
    then have "doc_size eol (drop (Suc i) ls) =
        doc_size eol (take (j - Suc i) (drop (Suc i) ls)) + doc_size eol (drop j ls)"
      using doc_size_take_drop [of eol "j - Suc i" "drop (Suc i) ls"] by (simp add: add.commute)
    moreover have "doc_size eol (drop j ls) =
        int (length (ls ! j)) + int (length eol) + 1 + doc_size eol (drop (Suc j) ls)"
      using Cons_nth_drop_Suc [OF assms(2)] by (metis doc_size_simps(2))
    ultimately show ?thesis
      using i doc_size_nonneg [of eol "take (j - Suc i) (drop (Suc i) ls)"]
      by (simp add: glue_def lines_before_def lines_behind_def)
  qed
qed

lemma update_take_drop:
  "i < length ls \<Longrightarrow> i \<le> j \<Longrightarrow> take (Suc i) (ls[i := x]) @ drop (Suc j) (ls[i := x]) =
     take i ls @ [x] @ drop (Suc j) ls"
  by (simp add: take_Suc_conv_app_nth)

lemma mm_line_nth: "i < length (mm_lines this) \<Longrightarrow> mm_line this (int i) = Inr (mm_lines this ! i)"
  by (simp add: mm_line_def)

text \<open>The two halves of a change, on the lines; \<open>r\<close> and \<open>p\<close> in lines and columns from 0.\<close>

definition mm_same :: "mirror_model \<Rightarrow> mirror_model \<Rightarrow> bool" where
  "mm_same this st \<longleftrightarrow> mm_eol st = mm_eol this \<and> mm_uri st = mm_uri this \<and>
     mm_versionId st = mm_versionId this \<and> mm_cachedTextValue st = mm_cachedTextValue this"

lemma mm_sync_intro:
  assumes "mm_lines st \<noteq> []" and "doc_size (mm_eol st) (mm_lines st) < 2147483648"
    and "mm_lineStarts st = None \<or> mm_lineStarts st = Some ps"
    and "mm_lineStarts st = Some ps \<Longrightarrow> psc_inv ps \<and> psc_values ps = map (mm_line_value (mm_eol st)) (mm_lines st)"
  shows "mm_sync st"
  using assms by (auto simp: mm_sync_def)

lemma mm_acceptDeleteRange_ok:
  assumes sync: "mm_sync this" and ij: "i \<le> j" "j < length (mm_lines this)" "i = j \<Longrightarrow> c \<le> d"
    and c: "c \<le> length (mm_lines this ! i)" and d: "d \<le> length (mm_lines this ! j)"
    and r: "startLineNumber r = int i + 1" "startColumn r = int c + 1"
      "endLineNumber r = int j + 1" "endColumn r = int d + 1"
  shows "\<exists>st. mm_acceptDeleteRange r this = Inr st \<and> mm_sync st \<and> mm_same this st \<and>
    mm_lines st = glue (lines_before (mm_lines this) i c) (lines_behind (mm_lines this) j d)"
proof -
  let ?ls = "mm_lines this" and ?eol = "mm_eol this"
  let ?v = "take c (?ls ! i) @ drop d (?ls ! j)"
  let ?new = "glue (lines_before ?ls i c) (lines_behind ?ls j d)"
  have i: "i < length ?ls" using ij by simp
  have new: "?new = take i ?ls @ [?v] @ drop (Suc j) ?ls"
    by (simp add: glue_def lines_before_def lines_behind_def)
  have size: "doc_size ?eol ?new < 2147483648"
    using doc_size_delete [OF ij, of ?eol] sync by (simp add: mm_sync_def)
  have v: "int (length ?v) + int (length ?eol) < 2147483648"
    using doc_size_line [of ?v ?new ?eol] size new by simp
  have read: "mm_line this (int i) = Inr (?ls ! i)" "mm_line this (int j) = Inr (?ls ! j)"
    using i ij(2) by (simp_all add: mm_line_nth)
  have sub: "js_substring (?ls ! i) 0 (int c) = take c (?ls ! i)"
    "js_substring_from (?ls ! j) (int d) = drop d (?ls ! j)"
    using c d by (simp_all add: js_substring_in_range js_substring_from_in_range)
  let ?st = "mm_setLineText (int i) ?v this"
  have st: "mm_lines ?st = ?ls[i := ?v]" "mm_same this ?st"
    by (simp_all add: mm_setLineText_def mm_same_def)
  note starts = mm_setLineText_sync [OF sync i v]
  consider "i = j" "c = d" | "i = j" "c \<noteq> d" | "i < j" using ij(1) by linarith
  then show ?thesis
  proof cases
    case 1
    with glue_split [OF i, of c] sync r show ?thesis
      by (simp add: mm_acceptDeleteRange_def mm_same_def)
  next
    case 2
    then have "mm_acceptDeleteRange r this = Inr ?st"
      using r read sub by (simp add: mm_acceptDeleteRange_def)
    moreover have upd: "?ls[i := ?v] = ?new" using 2(1) new i by (simp add: upd_conv_take_nth_drop)
    moreover have "mm_sync ?st"
      using st size starts sync unfolding upd by (simp add: mm_sync_def mm_same_def)
    ultimately show ?thesis using st by simp
  next
    case 3
    let ?n = "int j - int i"
    have n: "?n = int (j - i)" using 3 by simp
    have rem: "arr_remove (?ls[i := ?v]) (int i + 1) ?n = ?new"
    proof -
      have "nat (int i + 1) = Suc i" by simp
      moreover have "min (nat ?n) (length ?ls - Suc i) = j - i" using 3 ij(2) by simp
      ultimately show ?thesis
        using 3 i update_take_drop [OF i, of j ?v] new by (simp add: arr_remove_def Let_def)
    qed
    let ?st' = "?st\<lparr>mm_lines := ?new\<rparr>"
    show ?thesis
    proof (cases "mm_lineStarts ?st")
      case None
      then have "mm_acceptDeleteRange r this = Inr ?st'"
        using 3 r read sub st(1) rem by (simp add: mm_acceptDeleteRange_def Let_def)
      moreover have "mm_sync ?st'"
        using None size st(2) by (intro mm_sync_intro) (simp_all add: mm_same_def)
      ultimately show ?thesis using st(2) by (simp add: mm_same_def)
    next
      case (Some ps)
      with starts have ps: "psc_inv ps" "psc_values ps = map (mm_line_value ?eol) (?ls[i := ?v])" by simp_all
      obtain ps' where ps': "psc_removeValues (int (Suc i)) (int (j - i)) ps = Inr (True, ps')" "psc_inv ps'"
        "psc_values ps' = take (Suc i) (psc_values ps) @ drop (Suc i + (j - i)) (psc_values ps)"
        using psc_removeValues_ok [OF ps(1), of "Suc i" "j - i"] 3 ij(2) ps(2) by auto
      have "psc_values ps' = map (mm_line_value ?eol) ?new"
        using ps'(3) ps(2) 3 update_take_drop [OF i, of j ?v] new
        by (simp add: take_map drop_map flip: map_append)
      moreover have "mm_acceptDeleteRange r this = Inr (?st'\<lparr>mm_lineStarts := Some ps'\<rparr>)"
      proof -
        have "psc_removeValues (int i + 1) ?n ps = Inr (True, ps')" using ps'(1) n by (simp only: of_nat_Suc add.commute)
        then show ?thesis using 3 r read sub st(1) rem Some by (simp add: mm_acceptDeleteRange_def Let_def)
      qed
      moreover have "mm_sync (?st'\<lparr>mm_lineStarts := Some ps'\<rparr>)"
        using calculation(1) ps'(2) size st(2) by (intro mm_sync_intro [of _ ps']) (simp_all add: mm_same_def)
      ultimately show ?thesis using st(2) by (simp add: mm_same_def)
    qed
  qed
qed

lemma insert_lines_loop_eq:
  "k \<le> length lines \<Longrightarrow> insert_lines_loop (int k) xs lines = take k lines @ xs @ drop k lines"
proof (induction xs arbitrary: k lines)
  case (Cons x xs)
  have "arr_insert1 lines (int k) x = take k lines @ [x] @ drop k lines"
    using Cons.prems by (simp add: arr_insert1_def)
  moreover have "insert_lines_loop (int (Suc k)) xs (take k lines @ [x] @ drop k lines) =
      take k lines @ [x] @ xs @ drop k lines"
    using Cons.IH [of "Suc k" "take k lines @ [x] @ drop k lines"] Cons.prems by (simp add: min_absorb2)
  ultimately show ?case by (simp add: add.commute)
qed simp

lemma doc_size_insert:
  assumes "i < length ls" and "ins \<noteq> []"
  shows "doc_size eol (glue (glue (lines_before ls i c) ins) (lines_behind ls i c)) \<le>
    doc_size eol ls + doc_size eol ins"
proof -
  have "doc_size eol (glue (lines_before ls i c) (lines_behind ls i c)) = doc_size eol ls"
    using glue_split [OF assms(1), of c] by simp
  then show ?thesis using assms(2) by (simp add: doc_size_glue)
qed

lemma mm_acceptInsertText_ok:
  assumes sync: "mm_sync this" and i: "i < length (mm_lines this)"
    and c: "c \<le> length (mm_lines this ! i)"
    and p: "lineNumber p = int i + 1" "column p = int c + 1"
    and small: "doc_size (mm_eol this) (mm_lines this) + doc_size (mm_eol this) (splitLines new_text) < 2147483648"
  shows "\<exists>st. mm_acceptInsertText p new_text this = Inr st \<and> mm_sync st \<and> mm_same this st \<and>
    mm_lines st = glue (glue (lines_before (mm_lines this) i c) (splitLines new_text))
      (lines_behind (mm_lines this) i c)"
proof -
  let ?ls = "mm_lines this" and ?eol = "mm_eol this" and ?ins = "splitLines new_text"
  let ?new = "glue (glue (lines_before ?ls i c) ?ins) (lines_behind ?ls i c)"
  have size: "doc_size ?eol ?new < 2147483648"
    using doc_size_insert [OF i splitLines_not_Nil, of ?eol c new_text] small by simp
  have read: "mm_line this (int i) = Inr (?ls ! i)" using i by (simp add: mm_line_nth)
  have sub: "js_substring (?ls ! i) 0 (int c) = take c (?ls ! i)"
    "js_substring_from (?ls ! i) (int c) = drop c (?ls ! i)"
    using c by (simp_all add: js_substring_in_range js_substring_from_in_range)
  consider "new_text = []" | t where "new_text \<noteq> []" "?ins = [t]"
    | t m l where "new_text \<noteq> []" "?ins = t # m @ [l]"
    by (metis splitLines_not_Nil neq_Nil_conv rev_exhaust)
  then show ?thesis
  proof cases
    case 1
    have "glue (lines_before ?ls i c) [[]] = lines_before ?ls i c" by (simp add: glue_def)
    with 1 sync glue_split [OF i, of c] show ?thesis by (simp add: mm_acceptInsertText_def mm_same_def)
  next
    case 2
    let ?v = "take c (?ls ! i) @ t @ drop c (?ls ! i)"
    have new: "?new = ?ls[i := ?v]"
      using i 2(2) by (simp add: glue_def lines_before_def lines_behind_def upd_conv_take_nth_drop)
    then have "?v \<in> set ?new" using i by (simp add: set_update_memI)
    then have v: "int (length ?v) + int (length ?eol) < 2147483648"
      using doc_size_line [of ?v ?new ?eol] size by simp
    have "mm_acceptInsertText p new_text this = Inr (mm_setLineText (int i) ?v this)"
      using 2 p read sub by (simp add: mm_acceptInsertText_def)
    moreover have st: "mm_lines (mm_setLineText (int i) ?v this) = ?ls[i := ?v]"
      "mm_same this (mm_setLineText (int i) ?v this)"
      by (simp_all add: mm_setLineText_def mm_same_def)
    moreover have "mm_sync (mm_setLineText (int i) ?v this)"
      using mm_setLineText_sync [OF sync i v] size sync st unfolding new
      by (simp add: mm_sync_def mm_same_def)
    ultimately show ?thesis using new by auto
  next
    case 3
    let ?v = "take c (?ls ! i) @ t" and ?nl = "m @ [l @ drop c (?ls ! i)]"
    have new: "?new = take i ?ls @ [?v] @ ?nl @ drop (Suc i) ?ls"
      using 3(2) by (simp add: glue_def lines_before_def lines_behind_def butlast_append)
    have v: "int (length ?v) + int (length ?eol) < 2147483648"
      using doc_size_line [of ?v ?new ?eol] size new by simp
    let ?st = "mm_setLineText (int i) ?v this"
    note starts = mm_setLineText_sync [OF sync i v]
    have lines: "insert_lines_loop (int i + 1) ?nl (?ls[i := ?v]) = ?new"
      using insert_lines_loop_eq [of "Suc i" "?ls[i := ?v]" ?nl] i new
      by (simp add: add.commute take_Suc_conv_app_nth)
    let ?st' = "?st\<lparr>mm_lines := ?new\<rparr>"
    have nl: "tl (butlast ?ins @ [last ?ins @ drop c (?ls ! i)]) = ?nl" "hd ?ins = t" "length ?ins \<noteq> Suc 0"
      using 3(2) by (simp_all add: butlast_append)
    show ?thesis
    proof (cases "mm_lineStarts ?st")
      case None
      then have "mm_acceptInsertText p new_text this = Inr ?st'"
      proof -
        have "mm_lines ?st = ?ls[i := ?v]" by (simp add: mm_setLineText_def)
        then show ?thesis
          using 3(1) p read sub lines None unfolding mm_acceptInsertText_def Let_def by (simp add: nl)
      qed
      moreover have "mm_sync ?st'"
        using None size by (intro mm_sync_intro) (simp_all add: mm_setLineText_def)
      ultimately show ?thesis by (simp add: mm_same_def mm_setLineText_def)
    next
      case (Some ps)
      with starts have ps: "psc_inv ps" "psc_values ps = map (mm_line_value ?eol) (?ls[i := ?v])" by simp_all
      have bound: "int (length (psc_values ps) + length (map (mm_line_value ?eol) ?nl)) < 2147483648"
        using doc_size_length [of ?new ?eol] size new i ps(2) by simp
      obtain ps' where ps': "psc_insertValues (int (Suc i)) (map (mm_line_value ?eol) ?nl) ps = Inr (True, ps')"
        "psc_inv ps'" "psc_values ps' = take (Suc i) (psc_values ps) @ map (mm_line_value ?eol) ?nl @
          drop (Suc i) (psc_values ps)"
        using psc_insertValues_ok [OF ps(1) _ _ bound, of "Suc i"] i ps(2) by auto
      have "psc_values ps' = map (mm_line_value ?eol) ?new"
        using ps'(3) ps(2) i new by (simp add: take_map drop_map take_Suc_conv_app_nth)
      moreover have "mm_acceptInsertText p new_text this = Inr (?st'\<lparr>mm_lineStarts := Some ps'\<rparr>)"
      proof -
        have "psc_insertValues (int i + 1) (map (mm_line_value ?eol) ?nl) ps = Inr (True, ps')"
          using ps'(1) by (simp only: of_nat_Suc add.commute)
        moreover have "mm_lines ?st = ?ls[i := ?v]" "mm_eol ?st = ?eol" by (simp_all add: mm_setLineText_def)
        ultimately show ?thesis
          using 3(1) p read sub lines Some unfolding mm_acceptInsertText_def Let_def nl
          by (simp add: nl)
      qed
      moreover have "mm_sync (?st'\<lparr>mm_lineStarts := Some ps'\<rparr>)"
        using calculation(1) ps'(2) size by (intro mm_sync_intro [of _ ps']) (simp_all add: mm_setLineText_def)
      ultimately show ?thesis by (simp add: mm_same_def mm_setLineText_def)
    qed
  qed
qed

subsection \<open>Change events\<close>

text \<open>
  What a change does to the text: the range given by its offset and length is replaced by the new
  text, whose line breaks are turned into those of the document.
\<close>

definition text_change :: "js_string \<Rightarrow> content_change \<Rightarrow> js_string \<Rightarrow> js_string" where
  "text_change eol ch t =
     take (nat (ch_rangeOffset ch)) t @ js_join eol (splitLines (ch_text ch)) @
     drop (nat (ch_rangeOffset ch + ch_rangeLength ch)) t"

text \<open>
  A change that fits a document: its range is one of the document, its offset and length are those
  of the range, and the document stays below the bound of 32-bit arithmetic.
\<close>

definition change_fits :: "content_change \<Rightarrow> mirror_model \<Rightarrow> bool" where
  "change_fits ch this \<longleftrightarrow>
     mm_range this (ch_range ch) \<and>
     ch_rangeOffset ch = int (mm_offset this (Range_getStartPosition (ch_range ch))) \<and>
     ch_rangeOffset ch + ch_rangeLength ch = int (mm_offset this (Range_getEndPosition (ch_range ch))) \<and>
     doc_size (mm_eol this) (mm_lines this) + doc_size (mm_eol this) (splitLines (ch_text ch)) < 2147483648"

fun changes_fit :: "content_change list \<Rightarrow> mirror_model \<Rightarrow> bool" where
  "changes_fit [] this = True"
| "changes_fit (ch # chs) this =
     (change_fits ch this \<and>
      (case mm_acceptChanges [ch] this of Inl _ \<Rightarrow> False | Inr st \<Rightarrow> changes_fit chs st))"

lemma mm_position_index:
  assumes "mm_position this p"
  obtains i c where "lineNumber p = int i + 1" "column p = int c + 1" "i < length (mm_lines this)"
    "c \<le> length (mm_lines this ! i)" "mm_offset this p = line_offset (mm_eol this) (mm_lines this) i + c"
proof
  show "lineNumber p = int (nat (lineNumber p - 1)) + 1" "column p = int (nat (column p - 1)) + 1"
    "nat (lineNumber p - 1) < length (mm_lines this)"
    "nat (column p - 1) \<le> length (mm_lines this ! nat (lineNumber p - 1))"
    using assms by (auto simp: mm_position_def)
qed (simp add: mm_offset_def)

lemma mm_change_ok:
  assumes "mm_sync this" and "change_fits ch this"
  shows "\<exists>st. mm_acceptChanges [ch] this = Inr st \<and> mm_sync st \<and> mm_same this st \<and>
    mm_text st = text_change (mm_eol this) ch (mm_text this)"
proof -
  let ?r = "ch_range ch" and ?ls = "mm_lines this" and ?eol = "mm_eol this"
  let ?s = "Range_getStartPosition ?r" and ?e = "Range_getEndPosition ?r"
  have fits: "mm_position this ?s" "mm_position this ?e" "?s \<le> ?e"
    "ch_rangeOffset ch = int (mm_offset this ?s)" "ch_rangeOffset ch + ch_rangeLength ch = int (mm_offset this ?e)"
    "doc_size ?eol ?ls + doc_size ?eol (splitLines (ch_text ch)) < 2147483648"
    using assms(2) by (simp_all add: change_fits_def mm_range_def valid_range_def)
  obtain i c where s: "lineNumber ?s = int i + 1" "column ?s = int c + 1" "i < length ?ls"
    "c \<le> length (?ls ! i)" "mm_offset this ?s = line_offset ?eol ?ls i + c"
    using mm_position_index [OF fits(1)] .
  obtain j d where e: "lineNumber ?e = int j + 1" "column ?e = int d + 1" "j < length ?ls"
    "d \<le> length (?ls ! j)" "mm_offset this ?e = line_offset ?eol ?ls j + d"
    using mm_position_index [OF fits(2)] .
  have ij: "i \<le> j" "i = j \<Longrightarrow> c \<le> d" using fits(3) s e by (auto simp: position_order)
  obtain st where st: "mm_acceptDeleteRange ?r this = Inr st" "mm_sync st" "mm_same this st"
    "mm_lines st = glue (lines_before ?ls i c) (lines_behind ?ls j d)"
    using mm_acceptDeleteRange_ok [OF assms(1) ij(1) e(3) ij(2) s(4) e(4)] s e by (auto simp: range_ends)
  have lines1: "mm_lines st = take i ?ls @ [take c (?ls ! i) @ drop d (?ls ! j)] @ drop (Suc j) ?ls"
    using st(4) by (simp add: glue_def lines_before_def lines_behind_def)
  have at: "i < length (mm_lines st)" "c \<le> length (mm_lines st ! i)"
    "lines_before (mm_lines st) i c = lines_before ?ls i c" "lines_behind (mm_lines st) i c = lines_behind ?ls j d"
    using lines1 s(3,4) by (simp_all add: lines_before_def lines_behind_def nth_append)
  have "doc_size ?eol (mm_lines st) \<le> doc_size ?eol ?ls"
    using doc_size_delete [OF ij(1) e(3) ij(2), of ?eol] st(4) by simp
  then obtain st' where st': "mm_acceptInsertText (mk_Position (startLineNumber ?r) (startColumn ?r)) (ch_text ch) st = Inr st'"
    "mm_sync st'" "mm_same st st'"
    "mm_lines st' = glue (glue (lines_before ?ls i c) (splitLines (ch_text ch))) (lines_behind ?ls j d)"
    using mm_acceptInsertText_ok [OF st(2) at(1,2), of "mk_Position (startLineNumber ?r) (startColumn ?r)" "ch_text ch"]
      s(1,2) fits(6) st(3) at(3,4) by (auto simp: range_ends mm_same_def)
  have "mm_text st' = js_join ?eol (lines_before ?ls i c) @ js_join ?eol (splitLines (ch_text ch)) @
      js_join ?eol (lines_behind ?ls j d)"
    using st'(3,4) st(3) by (simp add: mm_text_def mm_same_def js_join_glue)
  also have "\<dots> = text_change ?eol ch (mm_text this)"
  proof -
    have "nat (ch_rangeOffset ch + ch_rangeLength ch) = line_offset ?eol ?ls j + d"
      using fits(5) e(5) by simp
    moreover have "nat (ch_rangeOffset ch) = line_offset ?eol ?ls i + c" using fits(4) s(5) by simp
    ultimately show ?thesis
      using js_join_at(1) [OF s(3,4), of ?eol] js_join_at(2) [OF e(3,4), of ?eol]
      by (simp only: text_change_def mm_text_def)
  qed
  finally show ?thesis using st st' by (auto simp: mm_same_def)
qed

lemma mm_acceptChanges_Cons:
  "mm_acceptChanges (ch # chs) this = bind_result (mm_acceptChanges [ch] this) (mm_acceptChanges chs)"
  by (cases "mm_acceptDeleteRange (ch_range ch) this") (auto simp: bind_result_def split: sum.splits)

lemma mm_acceptChanges_ok:
  assumes "mm_sync this" and "changes_fit chs this"
  shows "\<exists>st. mm_acceptChanges chs this = Inr st \<and> mm_sync st \<and> mm_same this st \<and>
    mm_text st = foldl (\<lambda>t ch. text_change (mm_eol this) ch t) (mm_text this) chs"
  using assms
proof (induction chs arbitrary: this)
  case Nil
  then show ?case by (simp add: mm_same_def)
next
  case (Cons ch chs)
  obtain st where st: "mm_acceptChanges [ch] this = Inr st" "mm_sync st" "mm_same this st"
    "mm_text st = text_change (mm_eol this) ch (mm_text this)"
    using mm_change_ok [OF Cons.prems(1)] Cons.prems(2) by auto
  obtain st' where "mm_acceptChanges chs st = Inr st'" "mm_sync st'" "mm_same st st'"
    "mm_text st' = foldl (\<lambda>t ch. text_change (mm_eol st) ch t) (mm_text st) chs"
    using Cons.IH [OF st(2)] Cons.prems(2) st(1) by (auto simp del: mm_acceptChanges.simps)
  with st show ?case
    by (subst mm_acceptChanges_Cons) (auto simp: mm_same_def simp del: mm_acceptChanges.simps)
qed

text \<open>The document after the change of the line breaks that an event may carry.\<close>

definition mm_with_eol :: "changed_event \<Rightarrow> mirror_model \<Rightarrow> mirror_model" where
  "mm_with_eol e this =
     (if ev_eol e \<noteq> [] \<and> ev_eol e \<noteq> mm_eol this
      then this\<lparr>mm_eol := ev_eol e, mm_lineStarts := None\<rparr> else this)"

lemma mm_onEvents_ok:
  assumes "mm_inv this" and "changes_fit (ev_changes e) (mm_with_eol e this)"
    and "doc_size (mm_eol (mm_with_eol e this)) (mm_lines this) < 2147483648"
  shows "\<exists>st. mm_onEvents e this = Inr st \<and> mm_inv st \<and> mm_versionId st = ev_versionId e \<and>
    mm_eol st = mm_eol (mm_with_eol e this) \<and>
    mm_text st = foldl (\<lambda>t ch. text_change (mm_eol st) ch t) (mm_text (mm_with_eol e this)) (ev_changes e)"
proof -
  have "mm_sync (mm_with_eol e this)"
    using assms(1,3) by (auto simp: mm_inv_def mm_sync_def mm_with_eol_def)
  then obtain st where st: "mm_acceptChanges (ev_changes e) (mm_with_eol e this) = Inr st" "mm_sync st"
    "mm_same (mm_with_eol e this) st"
    "mm_text st = foldl (\<lambda>t ch. text_change (mm_eol (mm_with_eol e this)) ch t)
       (mm_text (mm_with_eol e this)) (ev_changes e)"
    using mm_acceptChanges_ok [OF _ assms(2)] by blast
  let ?st = "st\<lparr>mm_versionId := ev_versionId e, mm_cachedTextValue := None\<rparr>"
  have "mm_onEvents e this = Inr ?st"
    using st(1) by (simp add: mm_onEvents_def Let_def mm_with_eol_def)
  moreover have "mm_inv ?st" using st(2) by (simp add: mm_inv_def mm_sync_def)
  moreover have "mm_text ?st = mm_text st" by (simp add: mm_text_def)
  ultimately show ?thesis using st(3,4) by (simp add: mm_same_def)
qed

subsection \<open>Positions and offsets\<close>

lemma mm_validatePosition_ok:
  assumes "mm_lines this \<noteq> []"
  shows "\<exists>p'. mm_validatePosition this p = Inr p' \<and> mm_position this p' \<and>
    (mm_position this p \<longrightarrow> p' = p)"
proof -
  let ?n = "int (length (mm_lines this))"
  have n: "0 < ?n" using assms by simp
  have read: "mm_line this (l - 1) = Inr (mm_lines this ! nat (l - 1))" if "1 \<le> l" "l \<le> ?n" for l
    using that by (simp add: mm_line_def js_at_def)
  consider "lineNumber p < 1" | "lineNumber p > ?n" | "1 \<le> lineNumber p" "lineNumber p \<le> ?n" by linarith
  then show ?thesis
  proof cases
    case 1
    then show ?thesis using n by (auto simp: mm_validatePosition_def mm_position_def Suc_le_eq)
  next
    case 2
    have "mm_line this (?n - 1) = Inr (mm_lines this ! nat (?n - 1))" using n by (intro read) linarith+
    with 2 n show ?thesis by (auto simp: mm_validatePosition_def mm_position_def Suc_le_eq)
  next
    case 3
    then show ?thesis using read [of "lineNumber p"]
      by (auto simp: mm_validatePosition_def mm_position_def Let_def)
  qed
qed

lemma mm_ensureLineStarts_ok:
  assumes "mm_inv this"
  shows "\<exists>ps. mm_ensureLineStarts this = this\<lparr>mm_lineStarts := Some ps\<rparr> \<and> psc_inv ps \<and>
    psc_values ps = map (mm_line_value (mm_eol this)) (mm_lines this)"
proof (cases "mm_lineStarts this")
  case None
  have "int (length (mm_lines this)) < 2147483648"
    using assms doc_size_length [of "mm_lines this" "mm_eol this"] by (simp add: mm_inv_def mm_sync_def)
  then have "psc_inv (mk_PrefixSumComputer (map (mm_line_value (mm_eol this)) (mm_lines this)))"
    by (simp add: psc_inv_init)
  with None show ?thesis
    by (intro exI [of _ "mk_PrefixSumComputer (map (mm_line_value (mm_eol this)) (mm_lines this))"])
      (simp add: mm_ensureLineStarts_def mk_PrefixSumComputer_def)
next
  case (Some ps)
  then have "this\<lparr>mm_lineStarts := Some ps\<rparr> = this" by (cases this) simp
  with Some assms show ?thesis
    by (intro exI [of _ ps]) (simp add: mm_ensureLineStarts_def mm_inv_def mm_sync_def)
qed

lemma mm_inv_starts:
  assumes "mm_inv this" and "psc_inv ps" and "psc_values ps = map (mm_line_value (mm_eol this)) (mm_lines this)"
  shows "mm_inv (this\<lparr>mm_lineStarts := Some ps\<rparr>)"
  using assms by (auto simp: mm_inv_def mm_sync_def)

text \<open>The prefix sums of the line values are the offsets of the lines.\<close>

lemma line_values_prefix:
  assumes "doc_size eol ls < 2147483648" and "psc_inv ps" and "psc_values ps = map (mm_line_value eol) ls"
  shows "psc_vals ps = map (\<lambda>l. int (length l + length eol)) ls"
    and "prefix (psc_vals ps) k = int (line_offset eol ls k)" and "psc_bounded ps"
proof -
  have "uint (mm_line_value eol l) = int (length l + length eol)" if "l \<in> set ls" for l
  proof -
    have "0 \<le> int (length l) + int (length eol)" "int (length l) + int (length eol) < 4294967296"
      using doc_size_line [OF that, of eol] assms(1) by linarith+
    then show ?thesis unfolding mm_line_value_def by (subst uint_word_of_int) simp
  qed
  then show vals: "psc_vals ps = map (\<lambda>l. int (length l + length eol)) ls"
    using assms(3) by (simp add: psc_vals_def)
  have "int (sum_list xs) = sum_list (map int xs)" for xs by (induction xs) simp_all
  with vals show eq: "prefix (psc_vals ps) k = int (line_offset eol ls k)" for k
    by (simp add: prefix_def line_offset_def take_map comp_def)
  have "int (line_offset eol ls (length ls)) \<le> doc_size eol ls"
    by (induction ls) (simp_all add: line_offset_def)
  with assms(1,2) eq vals show "psc_bounded ps" by (simp add: psc_bounded_def)
qed

lemma mm_offsetAt_ok:
  assumes "mm_inv this" and "mm_position this p"
  shows "\<exists>st. mm_offsetAt p this = Inr (Some (int (mm_offset this p)), st) \<and> mm_inv st \<and>
    mm_lines st = mm_lines this \<and> mm_eol st = mm_eol this"
proof -
  let ?ls = "mm_lines this" and ?eol = "mm_eol this"
  have sync: "?ls \<noteq> []" "doc_size ?eol ?ls < 2147483648"
    using assms(1) by (simp_all add: mm_inv_def mm_sync_def)
  obtain i c where p: "lineNumber p = int i + 1" "column p = int c + 1" "i < length ?ls"
    "mm_offset this p = line_offset ?eol ?ls i + c"
    using mm_position_index [OF assms(2)] by metis
  obtain ps where ps: "mm_ensureLineStarts this = this\<lparr>mm_lineStarts := Some ps\<rparr>" "psc_inv ps"
    "psc_values ps = map (mm_line_value ?eol) ?ls"
    using mm_ensureLineStarts_ok [OF assms(1)] by blast
  note pre = line_values_prefix [OF sync(2) ps(2,3)]
  have "\<exists>w ps'. psc_getPrefixSum (int i - 1) ps = (Some w, ps') \<and> uint w = int (line_offset ?eol ?ls i) \<and>
      psc_inv ps' \<and> psc_values ps' = psc_values ps"
  proof (cases i)
    case 0
    then show ?thesis using ps(2) by (simp add: psc_getPrefixSum_def line_offset_def)
  next
    case (Suc k)
    have "int k < int (length (psc_values ps))" "int (length (psc_values ps)) < 2147483648"
      using Suc p(3) ps(2,3) by (simp_all add: psc_inv_def)
    with psc_getPrefixSum_impl_ok [OF ps(2), of "int k"] Suc
    show ?thesis
      using uint_prefix [OF pre(3), of i] pre(2) [of i] by (auto simp: psc_getPrefixSum_def)
  qed
  then obtain w ps' where w: "psc_getPrefixSum (int i - 1) ps = (Some w, ps')"
    "uint w = int (line_offset ?eol ?ls i)" "psc_inv ps'" "psc_values ps' = psc_values ps" by blast
  have "mm_validatePosition this p = Inr p"
    using mm_validatePosition_ok [OF sync(1), of p] assms(2) by auto
  moreover have "lineNumber p - 2 = int i - 1" "column p - 1 = int c" using p by simp_all
  ultimately have "mm_offsetAt p this =
      Inr (Some (int (mm_offset this p)), this\<lparr>mm_lineStarts := Some ps'\<rparr>)"
    using ps(1) w p(4) by (simp add: mm_offsetAt_def Let_def)
  with mm_inv_starts [OF assms(1) w(3)] w(4) ps(3) show ?thesis by simp
qed

lemma mm_positionAt_ok:
  assumes "mm_inv this" and "mm_eol this \<noteq> []" and "mm_position this p"
  shows "\<exists>st. mm_positionAt (int (mm_offset this p)) this = Some (Inr (p, st)) \<and> mm_inv st \<and>
    mm_lines st = mm_lines this \<and> mm_eol st = mm_eol this"
proof -
  let ?ls = "mm_lines this" and ?eol = "mm_eol this" and ?o = "int (mm_offset this p)"
  have sync: "doc_size ?eol ?ls < 2147483648"
    using assms(1) by (simp add: mm_inv_def mm_sync_def)
  obtain i c where p: "lineNumber p = int i + 1" "column p = int c + 1" "i < length ?ls"
    "c \<le> length (?ls ! i)" "mm_offset this p = line_offset ?eol ?ls i + c"
    using mm_position_index [OF assms(3)] .
  obtain ps where ps: "mm_ensureLineStarts this = this\<lparr>mm_lineStarts := Some ps\<rparr>" "psc_inv ps"
    "psc_values ps = map (mm_line_value ?eol) ?ls"
    using mm_ensureLineStarts_ok [OF assms(1)] by blast
  note pre = line_values_prefix [OF sync ps(2,3)]
  have len: "length (psc_vals ps) = length ?ls" using pre(1) by simp
  have "int c < int (length (?ls ! i)) + int (length ?eol)" using assms(2) p(4) by (cases ?eol) simp_all
  then have holds: "holds_sum (psc_vals ps) ?o i"
    using p(3-5) pre(2) prefix_Suc [of i "psc_vals ps"] pre(1) len
    by (simp add: holds_sum_def)
  have "prefix (psc_vals ps) (Suc i) \<le> prefix (psc_vals ps) (length (psc_vals ps))"
    using p(3) len by (intro prefix_mono psc_vals_nonneg) simp
  with holds have "?o < prefix (psc_vals ps) (length (psc_vals ps))" by (simp add: holds_sum_def)
  from psc_getIndexOf_ok [OF pre(3) _ this] obtain j ps' where
    out: "psc_getIndexOf ?o ps =
      (Some \<lparr>ior_index = int j, ior_remainder = Some (?o - prefix (psc_vals ps) j)\<rparr>, ps')"
      "holds_sum (psc_vals ps) ?o j" "psc_bounded ps'" "psc_values ps' = psc_values ps" by auto
  have "j = i" using holds_sum_unique [OF psc_vals_nonneg out(2) holds] .
  moreover have "?o - prefix (psc_vals ps) i = int c" using p(5) pre(2) by simp
  moreover have "mk_Position (1 + int i) (1 + int c) = p" using p(1,2) by (simp add: position_eq_iff)
  ultimately have "mm_positionAt ?o this = Some (Inr (p, this\<lparr>mm_lineStarts := Some ps'\<rparr>))"
    using out(1) ps(1) p(3,4) by (simp add: mm_positionAt_def Let_def mm_line_def)
  with mm_inv_starts [OF assms(1), of ps'] out(3,4) ps(3) show ?thesis by (simp add: psc_bounded_def)
qed

lemma mm_getText_ok:
  assumes "mm_inv this"
  shows "fst (mm_getText this) = mm_text this \<and> mm_inv (snd (mm_getText this)) \<and>
    mm_text (snd (mm_getText this)) = mm_text this"
  using assms by (cases "mm_cachedTextValue this")
    (auto simp: mm_getText_def mm_inv_def mm_sync_def mm_text_def Let_def)

text \<open>The text between two positions of different lines.\<close>

lemma js_join_between:
  assumes "i < j" and "j < length ls" and "c \<le> length (ls ! i)" and "d \<le> length (ls ! j)"
  shows "js_join eol (drop c (ls ! i) # take (j - Suc i) (drop (Suc i) ls) @ [take d (ls ! j)]) =
    take (line_offset eol ls j + d - (line_offset eol ls i + c)) (drop (line_offset eol ls i + c) (js_join eol ls))"
proof -
  let ?mid = "drop c (ls ! i) # take (j - Suc i) (drop (Suc i) ls) @ [take d (ls ! j)]"
  have "take j ls = take i ls @ (ls ! i) # take (j - Suc i) (drop (Suc i) ls)"
    using assms(1,2) id_take_nth_drop [of i "take j ls"] by (simp add: drop_take)
  then have "lines_before ls j d = glue (lines_before ls i c) ?mid"
    by (simp add: glue_def lines_before_def)
  then have "js_join eol (lines_before ls j d) = js_join eol (lines_before ls i c) @ js_join eol ?mid"
    by (simp add: js_join_glue)
  then have "take (line_offset eol ls j + d) (js_join eol ls) =
      js_join eol (lines_before ls i c) @ js_join eol ?mid"
    using js_join_at(1) [OF assms(2,4), of eol] by simp
  from arg_cong [OF this, of "drop (line_offset eol ls i + c)"]
  show ?thesis
    using length_js_join_before [of i ls c eol] assms by (simp add: drop_take)
qed

lemma mm_getValueInRange_ok:
  assumes "mm_lines this \<noteq> []" and "mm_range this r"
  shows "mm_getValueInRange this r =
    Inr (take (mm_offset this (Range_getEndPosition r) - mm_offset this (Range_getStartPosition r))
      (drop (mm_offset this (Range_getStartPosition r)) (mm_text this)))"
proof -
  let ?ls = "mm_lines this" and ?eol = "mm_eol this"
  let ?s = "Range_getStartPosition r" and ?e = "Range_getEndPosition r"
  have pos: "mm_position this ?s" "mm_position this ?e" "?s \<le> ?e"
    using assms(2) by (simp_all add: mm_range_def valid_range_def)
  obtain i c where s: "lineNumber ?s = int i + 1" "column ?s = int c + 1" "i < length ?ls"
    "c \<le> length (?ls ! i)" "mm_offset this ?s = line_offset ?eol ?ls i + c"
    using mm_position_index [OF pos(1)] .
  obtain j d where e: "lineNumber ?e = int j + 1" "column ?e = int d + 1" "j < length ?ls"
    "d \<le> length (?ls ! j)" "mm_offset this ?e = line_offset ?eol ?ls j + d"
    using mm_position_index [OF pos(2)] .
  have r: "startLineNumber r = int i + 1" "startColumn r = int c + 1"
    "endLineNumber r = int j + 1" "endColumn r = int d + 1" using s(1,2) e(1,2) by (simp_all add: range_ends)
  have "mm_validateRange this r = Inr r"
    using mm_validatePosition_ok [OF assms(1), of ?s] mm_validatePosition_ok [OF assms(1), of ?e] pos(1,2)
    by (auto simp: mm_validateRange_def range_ends)
  moreover have read: "mm_line this (int i) = Inr (?ls ! i)" "mm_line this (int j) = Inr (?ls ! j)"
    using s(3) e(3) by (simp_all add: mm_line_nth)
  ultimately have val: "mm_getValueInRange this r =
      (if i = j then Inr (js_substring (?ls ! i) (int c) (int d))
       else Inr (js_join ?eol ([js_substring_from (?ls ! i) (int c)] @
         js_slice ?ls (int i + 1) (int j) @ [js_substring (?ls ! j) 0 (int d)])))"
    using r by (simp add: mm_getValueInRange_def)
  show ?thesis
  proof (cases "i = j")
    case True
    then have "c \<le> d" using pos(3) s(1,2) e(1,2) by (auto simp: position_order)
    have "drop (line_offset ?eol ?ls i + c) (mm_text this) = js_join ?eol (lines_behind ?ls i c)"
      using js_join_at(2) [OF s(3,4), of ?eol] by (simp add: mm_text_def)
    moreover have "take (d - c) (js_join ?eol (x # xs)) = take (d - c) x" if "d - c \<le> length x" for x xs
      using that by (cases xs) simp_all
    ultimately show ?thesis
      using True val s(5) e(4,5) \<open>c \<le> d\<close> by (simp add: js_substring_in_range lines_behind_def)
  next
    case False
    then have ij: "i < j" using pos(3) s(1,2) e(1,2) by (auto simp: position_order)
    then have "js_slice ?ls (int i + 1) (int j) = take (j - Suc i) (drop (Suc i) ?ls)"
      using e(3) by (simp add: js_slice_in_range nat_add_distrib)
    with False val js_join_between [OF ij e(3) s(4) e(4), of ?eol] s(4,5) e(4,5) show ?thesis
      by (simp add: mm_text_def js_substring_in_range js_substring_from_in_range)
  qed
qed

subsection \<open>The life of a mirror\<close>

text \<open>
  The states a mirror can be in: it is opened on a document, it takes the events of the model it
  mirrors, and between them it is asked for its text, for offsets and for positions, which fill its
  caches. Documents stay below \<open>2\<^sup>31\<close> code units, the range of the line start values.
\<close>

inductive mm_reachable :: "mirror_model \<Rightarrow> bool" where
  opened: "ls \<noteq> [] \<Longrightarrow> doc_size eol ls < 2147483648 \<Longrightarrow> mm_reachable (mk_MirrorTextModel uri ls eol v)"
| event: "mm_reachable m \<Longrightarrow> changes_fit (ev_changes e) (mm_with_eol e m) \<Longrightarrow>
    doc_size (mm_eol (mm_with_eol e m)) (mm_lines m) < 2147483648 \<Longrightarrow>
    mm_onEvents e m = Inr m' \<Longrightarrow> mm_reachable m'"
| get_text: "mm_reachable m \<Longrightarrow> mm_getText m = (t, m') \<Longrightarrow> mm_reachable m'"
| offset_at: "mm_reachable m \<Longrightarrow> mm_offsetAt p m = Inr (x, m') \<Longrightarrow> mm_reachable m'"
| position_at: "mm_reachable m \<Longrightarrow> mm_positionAt x m = Some (Inr (p, m')) \<Longrightarrow> mm_reachable m'"

lemma mm_offsetAt_inv:
  assumes "mm_inv m" and "mm_offsetAt p m = Inr (x, m')"
  shows "mm_inv m'"
proof -
  obtain p' where p': "mm_validatePosition m p = Inr p'" "mm_position m p'"
    using mm_validatePosition_ok [of m p] assms(1) by (auto simp: mm_inv_def mm_sync_def)
  then have "mm_validatePosition m p' = Inr p'"
    using mm_validatePosition_ok [of m p'] assms(1) by (auto simp: mm_inv_def mm_sync_def)
  with p'(1) have "mm_offsetAt p m = mm_offsetAt p' m" by (simp add: mm_offsetAt_def)
  with mm_offsetAt_ok [OF assms(1) p'(2)] assms(2) show ?thesis by auto
qed

lemma psc_getIndexOf_inv:
  assumes "psc_inv ps"
  shows "psc_inv (snd (psc_getIndexOf x ps)) \<and> psc_values (snd (psc_getIndexOf x ps)) = psc_values ps"
proof (cases "psc_values ps = []")
  case False
  with psc_getPrefixSum_impl_ok [OF assms, of "int (length (psc_values ps)) - 1"]
  show ?thesis by (auto simp: psc_getIndexOf_def psc_getTotalSum_def Let_def Suc_le_eq)
qed (use assms in \<open>simp add: psc_getIndexOf_def psc_getTotalSum_def Let_def\<close>)

lemma mm_positionAt_inv:
  assumes "mm_inv m" and "mm_positionAt x m = Some (Inr (p, m'))"
  shows "mm_inv m'"
proof -
  obtain ps where ps: "mm_ensureLineStarts m = m\<lparr>mm_lineStarts := Some ps\<rparr>" "psc_inv ps"
    "psc_values ps = map (mm_line_value (mm_eol m)) (mm_lines m)"
    using mm_ensureLineStarts_ok [OF assms(1)] by blast
  then have "m' = m\<lparr>mm_lineStarts := Some (snd (psc_getIndexOf (max 0 x) ps))\<rparr>"
    using assms(2) by (auto simp: mm_positionAt_def Let_def bind_result_Inr_iff split: prod.splits)
  with mm_inv_starts [OF assms(1)] psc_getIndexOf_inv [OF ps(2)] ps(3) show ?thesis by simp
qed

lemma mm_reachable_inv: "mm_reachable m \<Longrightarrow> mm_inv m"
proof (induction rule: mm_reachable.induct)
  case (opened ls eol uri v)
  then show ?case by (simp add: mm_inv_def mm_sync_def mk_MirrorTextModel_def)
next
  case (event m e m')
  with mm_onEvents_ok [of m e] show ?case by auto
next
  case (get_text m t m')
  with mm_getText_ok [of m] show ?case by simp
next
  case (offset_at m p x m')
  show ?case by (rule mm_offsetAt_inv [OF offset_at.IH offset_at.hyps(2)])
next
  case (position_at m x p m')
  show ?case by (rule mm_positionAt_inv [OF position_at.IH position_at.hyps(2)])
qed

subsection \<open>Properties\<close>

text \<open>C17: an event whose changes fit the mirrored document is applied without an error. The mirror
  then holds the text that results from making the changes one after the other at their offsets, it
  has the version of the event, and its caches agree with its lines.\<close>

theorem mirror_onEvents:
  assumes "mm_inv m" and "changes_fit (ev_changes e) (mm_with_eol e m)"
    and "doc_size (mm_eol (mm_with_eol e m)) (mm_lines m) < 2147483648"
  shows "\<exists>m'. mm_onEvents e m = Inr m' \<and> mm_inv m' \<and> mm_versionId m' = ev_versionId e \<and>
    fst (mm_getText m') = foldl (\<lambda>t ch. take (nat (ch_rangeOffset ch)) t @
        js_join (mm_eol m') (splitLines (ch_text ch)) @
        drop (nat (ch_rangeOffset ch + ch_rangeLength ch)) t)
      (js_join (mm_eol m') (mm_lines m)) (ev_changes e)"
proof -
  obtain m' where m': "mm_onEvents e m = Inr m'" "mm_inv m'" "mm_versionId m' = ev_versionId e"
    "mm_eol m' = mm_eol (mm_with_eol e m)"
    "mm_text m' = foldl (\<lambda>t ch. text_change (mm_eol m') ch t) (mm_text (mm_with_eol e m)) (ev_changes e)"
    using mm_onEvents_ok [OF assms] by blast
  have "mm_text (mm_with_eol e m) = js_join (mm_eol m') (mm_lines m)"
    using m'(4) by (simp add: mm_text_def mm_with_eol_def)
  with m' mm_getText_ok [OF m'(2)] show ?thesis by (simp add: text_change_def)
qed

theorem mirror_onEvents_witness:
  "\<exists>m'. mm_onEvents \<lparr>ev_changes = [\<lparr>ch_range = mk_Range 1 2 2 1, ch_rangeOffset = 1, ch_rangeLength = 2,
           ch_text = [120, 10, 121]\<rparr>], ev_eol = [10], ev_versionId = 2, ev_isUndoing = False, ev_isRedoing = False\<rparr>
        (mk_MirrorTextModel [] [[97, 98], [99]] [10] 1) = Inr m' \<and> mm_inv m' \<and> mm_versionId m' = 2 \<and>
    fst (mm_getText m') = [97, 120, 10, 121, 99]"
proof -
  let ?e = "\<lparr>ev_changes = [\<lparr>ch_range = mk_Range 1 2 2 1, ch_rangeOffset = 1, ch_rangeLength = 2,
     ch_text = [120, 10, 121]\<rparr>], ev_eol = [10], ev_versionId = 2, ev_isUndoing = False, ev_isRedoing = False\<rparr>"
  let ?m = "mk_MirrorTextModel [] [[97, 98], [99]] [10] 1"
  have "mm_inv ?m" by (simp add: mm_inv_def mm_sync_def mk_MirrorTextModel_def)
  moreover have "changes_fit (ev_changes ?e) (mm_with_eol ?e ?m)" by code_simp
  moreover have "doc_size (mm_eol (mm_with_eol ?e ?m)) (mm_lines ?m) < 2147483648" by code_simp
  ultimately show ?thesis
    using mirror_onEvents [of ?m ?e] mm_onEvents_ok [of ?m ?e]
    by (auto simp: mm_with_eol_def mk_MirrorTextModel_def prepend_unit_def)
qed

text \<open>C18: in every state a mirror can reach, the cached line starts, if there are any, are the prefix
  sums of the lengths of its lines, and the cached text is the text of its lines.\<close>

theorem mirror_reachable_caches:
  assumes "mm_reachable m"
  shows "mm_lines m \<noteq> [] \<and>
    (\<forall>ps. mm_lineStarts m = Some ps \<longrightarrow>
       psc_values ps = map (\<lambda>l. word_of_int (int (length l) + int (length (mm_eol m)))) (mm_lines m) \<and>
       (\<forall>i. int i \<le> prefixSumValidIndex ps \<longrightarrow>
          psc_prefixSum ps ! i = sum_list (take (Suc i) (psc_values ps)))) \<and>
    (\<forall>t. mm_cachedTextValue m = Some t \<longrightarrow> t = js_join (mm_eol m) (mm_lines m))"
  using mm_reachable_inv [OF assms]
  by (auto simp: mm_inv_def mm_sync_def psc_inv_def mm_line_value_def [abs_def])

theorem mirror_reachable_caches_witness:
  "mm_lineStarts (snd (projr (mm_offsetAt (mk_Position 2 1) (mk_MirrorTextModel [] [[97, 98], [99]] [13, 10] 1)))) =
      Some \<lparr>psc_values = [4, 3], psc_prefixSum = [4, 0], prefixSumValidIndex = 0\<rparr> \<and>
    psc_values \<lparr>psc_values = [4, 3], psc_prefixSum = [4, 0], prefixSumValidIndex = 0\<rparr> =
      map (\<lambda>l. word_of_int (int (length l) + 2)) [[97, 98], [99::code_unit]]"
proof -
  let ?m = "mk_MirrorTextModel [] [[97, 98], [99]] [13, 10] 1"
  let ?r = "mm_offsetAt (mk_Position 2 1) ?m"
  let ?ps = "\<lparr>psc_values = [4, 3], psc_prefixSum = [4, 0], prefixSumValidIndex = 0\<rparr> :: psc"
  have "mm_reachable ?m" by (rule mm_reachable.opened) code_simp+
  moreover have "?r = Inr (fst (projr ?r), snd (projr ?r))" by code_simp
  ultimately have reach: "mm_reachable (snd (projr ?r))" by (rule mm_reachable.offset_at)
  have starts: "mm_lineStarts (snd (projr ?r)) = Some ?ps" by code_simp
  moreover have "mm_lines (snd (projr ?r)) = [[97, 98], [99]]" "mm_eol (snd (projr ?r)) = [13, 10]" by code_simp+
  ultimately show ?thesis
    using mirror_reachable_caches [OF reach] by simp
qed

text \<open>In a mirror with caches that agree, \<open>offsetAt\<close> gives for a position of the document the
  number of code units in front of it, \<open>positionAt\<close> maps that offset back to the position, and
  both leave the document as it is.\<close>

lemma mirror_offset_roundtrip:
  assumes "mm_inv m" and "mm_eol m \<noteq> []" and "mm_position m p"
  shows "\<exists>x m' m''. mm_offsetAt p m = Inr (Some x, m') \<and> mm_positionAt x m' = Some (Inr (p, m'')) \<and>
    x = int (length (js_join (mm_eol m) (lines_before (mm_lines m) (nat (lineNumber p - 1)) (nat (column p - 1))))) \<and>
    mm_inv m'' \<and> mm_lines m'' = mm_lines m \<and> mm_eol m'' = mm_eol m"
proof -
  obtain m' where m': "mm_offsetAt p m = Inr (Some (int (mm_offset m p)), m')" "mm_inv m'"
    "mm_lines m' = mm_lines m" "mm_eol m' = mm_eol m" using mm_offsetAt_ok [OF assms(1,3)] by blast
  then have same: "mm_position m' p" "mm_eol m' \<noteq> []" "mm_offset m' p = mm_offset m p"
    using assms(2,3) by (simp_all add: mm_position_def mm_offset_def)
  obtain m'' where "mm_positionAt (int (mm_offset m p)) m' = Some (Inr (p, m''))" "mm_inv m''"
    "mm_lines m'' = mm_lines m" "mm_eol m'' = mm_eol m"
    using mm_positionAt_ok [OF m'(2) same(2,1)] m'(3,4) same(3) by auto
  moreover obtain i c where "lineNumber p = int i + 1" "column p = int c + 1" "i < length (mm_lines m)"
    "c \<le> length (mm_lines m ! i)" "mm_offset m p = line_offset (mm_eol m) (mm_lines m) i + c"
    using mm_position_index [OF assms(3)] .
  ultimately show ?thesis
    using m'(1) by (auto simp: length_js_join_before)
qed

text \<open>\<open>getValueInRange\<close> gives, for a range of positions of the document, the part of the text
  between their offsets.\<close>

lemma mirror_getValueInRange:
  assumes "mm_lines m \<noteq> []" and "mm_range m r"
  shows "mm_getValueInRange m r =
    Inr (take (mm_offset m (Range_getEndPosition r) - mm_offset m (Range_getStartPosition r))
      (drop (mm_offset m (Range_getStartPosition r)) (js_join (mm_eol m) (mm_lines m))))"
  using mm_getValueInRange_ok [OF assms] by (simp add: mm_text_def)

end
