(* ===== verification/BracketLength.thy ===== *)
theory BracketLength
  imports TextLength MirrorModel
begin

section \<open>Packed lengths: \<open>.../bracketPairsTree/length.ts\<close>\<close>

text \<open>
  The bracket pair tree keeps a length in one number: the line count times \<open>2^26\<close> plus the column
  count, so that lengths need no allocation and compare as numbers. A packed length is an \<open>int\<close> here;
  the code stays below \<open>2^52\<close>, where the numbers of the language are exact. The operations are
  those of the text lengths as long as no column count reaches \<open>2^26\<close>.
\<close>

type_synonym bracket_length = int

definition factor :: int where
  "factor = 67108864"

text \<open>\<open>a % b\<close> of the language truncates: the result has the sign of the dividend.\<close>

definition js_rem :: "int \<Rightarrow> int \<Rightarrow> int" where
  "js_rem a b = sgn a * (\<bar>a\<bar> mod \<bar>b\<bar>)"

definition toLength :: "int \<Rightarrow> int \<Rightarrow> bracket_length" where
  "toLength ls cs = ls * factor + cs"

definition lengthDiff :: "int \<Rightarrow> int \<Rightarrow> int \<Rightarrow> int \<Rightarrow> bracket_length" where
  "lengthDiff startLineCount startColumnCount endLineCount endColumnCount =
     (if startLineCount \<noteq> endLineCount then toLength (endLineCount - startLineCount) endColumnCount
      else toLength 0 (endColumnCount - startColumnCount))"

definition lengthZero :: bracket_length where
  "lengthZero = 0"

definition lengthIsZero :: "bracket_length \<Rightarrow> bool" where
  "lengthIsZero l \<longleftrightarrow> l = 0"

definition lengthToObj :: "bracket_length \<Rightarrow> text_length" where
  "lengthToObj l = (let ls = l div factor; cs = l - ls * factor in TextLength ls cs)"

definition lengthGetLineCount :: "bracket_length \<Rightarrow> int" where
  "lengthGetLineCount l = l div factor"

definition lengthGetColumnCountIfZeroLineCount :: "bracket_length \<Rightarrow> int" where
  "lengthGetColumnCountIfZeroLineCount l = l"

definition lengthAdd :: "bracket_length \<Rightarrow> bracket_length \<Rightarrow> bracket_length" where
  "lengthAdd l1 l2 = (let r = l1 + l2 in if l2 \<ge> factor then r - js_rem l1 factor else r)"

definition sumLengths :: "'a list \<Rightarrow> ('a \<Rightarrow> bracket_length) \<Rightarrow> bracket_length" where
  "sumLengths items lengthFn = foldl (\<lambda>a b. lengthAdd a (lengthFn b)) lengthZero items"

definition lengthEquals :: "bracket_length \<Rightarrow> bracket_length \<Rightarrow> bool" where
  "lengthEquals l1 l2 \<longleftrightarrow> l1 = l2"

definition lengthDiffNonNegative :: "bracket_length \<Rightarrow> bracket_length \<Rightarrow> bracket_length" where
  "lengthDiffNonNegative l1 l2 =
     (if l2 - l1 \<le> 0 then lengthZero
      else let lineCount1 = l1 div factor; lineCount2 = l2 div factor;
               colCount2 = l2 - lineCount2 * factor
           in if lineCount1 = lineCount2
              then (let colCount1 = l1 - lineCount1 * factor in toLength 0 (colCount2 - colCount1))
              else toLength (lineCount2 - lineCount1) colCount2)"

definition lengthLessThan :: "bracket_length \<Rightarrow> bracket_length \<Rightarrow> bool" where
  "lengthLessThan l1 l2 \<longleftrightarrow> l1 < l2"

definition lengthLessThanEqual :: "bracket_length \<Rightarrow> bracket_length \<Rightarrow> bool" where
  "lengthLessThanEqual l1 l2 \<longleftrightarrow> l1 \<le> l2"

definition lengthGreaterThanEqual :: "bracket_length \<Rightarrow> bracket_length \<Rightarrow> bool" where
  "lengthGreaterThanEqual l1 l2 \<longleftrightarrow> l1 \<ge> l2"

definition lengthToPosition :: "bracket_length \<Rightarrow> position" where
  "lengthToPosition l =
     (let ls = l div factor; colCount = l - ls * factor in mk_Position (ls + 1) (colCount + 1))"

definition positionToLength :: "position \<Rightarrow> bracket_length" where
  "positionToLength p = toLength (lineNumber p - 1) (column p - 1)"

definition lengthsToRange :: "bracket_length \<Rightarrow> bracket_length \<Rightarrow> range" where
  "lengthsToRange lengthStart lengthEnd =
     (let ls = lengthStart div factor; colCount = lengthStart - ls * factor;
          ls2 = lengthEnd div factor; colCount2 = lengthEnd - ls2 * factor
      in mk_Range (ls + 1) (colCount + 1) (ls2 + 1) (colCount2 + 1))"

definition lengthOfRange :: "range \<Rightarrow> text_length" where
  "lengthOfRange r =
     (if startLineNumber r = endLineNumber r then TextLength 0 (endColumn r - startColumn r)
      else TextLength (endLineNumber r - startLineNumber r) (endColumn r - 1))"

definition lengthCompare :: "bracket_length \<Rightarrow> bracket_length \<Rightarrow> int" where
  "lengthCompare l1 l2 = l1 - l2"

definition lengthOfString :: "js_string \<Rightarrow> bracket_length" where
  "lengthOfString str =
     (let lines = splitLines str
      in toLength (int (length lines) - 1) (int (length (lines ! (length lines - 1)))))"

definition lengthOfStringObj :: "js_string \<Rightarrow> text_length" where
  "lengthOfStringObj str =
     (let lines = splitLines str
      in TextLength (int (length lines) - 1) (int (length (lines ! (length lines - 1)))))"

definition lengthHash :: "bracket_length \<Rightarrow> int" where
  "lengthHash l = l"

definition lengthMax :: "bracket_length \<Rightarrow> bracket_length \<Rightarrow> bracket_length" where
  "lengthMax l1 l2 = (if l1 > l2 then l1 else l2)"

lemmas length_defs = factor_def toLength_def lengthZero_def lengthToObj_def Let_def

subsection \<open>The packed numbers represent the text lengths\<close>

text \<open>A text length that fits: its column count stays below the factor.\<close>

definition packable :: "text_length \<Rightarrow> bool" where
  "packable l \<longleftrightarrow> 0 \<le> lineCount l \<and> 0 \<le> columnCount l \<and> columnCount l < factor"

text \<open>Adding the two lengths does not carry from the columns into the lines.\<close>

definition no_carry :: "bracket_length \<Rightarrow> bracket_length \<Rightarrow> bool" where
  "no_carry l1 l2 \<longleftrightarrow> factor \<le> l2 \<or> l1 mod factor + l2 < factor"

lemma lengthToObj_eq: "lengthToObj l = TextLength (l div factor) (l mod factor)"
  by (simp add: lengthToObj_def Let_def minus_div_mult_eq_mod)

lemma factor_pos [simp]: "0 < factor" "factor \<noteq> 0" "\<bar>factor\<bar> = factor"
  by (simp_all add: factor_def)

lemma packable_lengthToObj [simp]: "0 \<le> l \<Longrightarrow> packable (lengthToObj l)"
  by (simp add: packable_def lengthToObj_eq pos_imp_zdiv_nonneg_iff)

lemma lengthToObj_toLength:
  "packable (TextLength ls cs) \<Longrightarrow> lengthToObj (toLength ls cs) = TextLength ls cs"
  by (simp add: packable_def lengthToObj_eq toLength_def)

lemma toLength_lengthToObj:
  "toLength (lineCount (lengthToObj l)) (columnCount (lengthToObj l)) = l"
  by (simp add: lengthToObj_eq toLength_def)

lemma lengthToObj_inj: "lengthToObj l = lengthToObj l' \<longleftrightarrow> l = l'"
  by (metis toLength_lengthToObj)

lemma toLength_nonneg: "packable (TextLength ls cs) \<Longrightarrow> 0 \<le> toLength ls cs"
  by (simp add: packable_def toLength_def)

text \<open>Every packed length is a line count and a column count below the factor.\<close>

lemma packed_cases:
  assumes "0 \<le> l"
  obtains ls cs where "l = ls * factor + cs" and "0 \<le> ls" and "0 \<le> cs" and "cs < factor"
    and "lengthToObj l = TextLength ls cs"
  using assms that [of "l div factor" "l mod factor"]
  by (simp add: lengthToObj_eq pos_imp_zdiv_nonneg_iff)

lemma unpack_simps:
  assumes "0 \<le> cs" and "cs < factor"
  shows "(ls * factor + cs) div factor = ls" "(ls * factor + cs) mod factor = cs"
    "lengthToObj (ls * factor + cs) = TextLength ls cs"
  using assms by (simp_all add: lengthToObj_eq)

lemma lengthToObj_small: "0 \<le> cs \<Longrightarrow> cs < factor \<Longrightarrow> lengthToObj cs = TextLength 0 cs"
  using unpack_simps(3) [of cs 0] by simp

lemma packed_less_iff:
  assumes "0 \<le> cs" "cs < factor" and "0 \<le> cs'" "cs' < factor"
  shows "ls * factor + cs < ls' * factor + cs' \<longleftrightarrow> ls < ls' \<or> ls = ls' \<and> cs < cs'"
    "ls * factor + cs \<le> ls' * factor + cs' \<longleftrightarrow> ls < ls' \<or> ls = ls' \<and> cs \<le> cs'"
  using assms by (auto simp: factor_def)

lemma factor_le_packed: "0 \<le> cs \<Longrightarrow> cs < factor \<Longrightarrow> factor \<le> ls * factor + cs \<longleftrightarrow> 1 \<le> ls"
  by (auto simp: factor_def)

lemma lengthAdd_eq:
  assumes "0 \<le> l1"
  shows "lengthAdd l1 l2 = (if factor \<le> l2 then l1 div factor * factor + l2 else l1 + l2)"
  using assms by (auto simp: lengthAdd_def js_rem_def Let_def sgn_if minus_mod_eq_div_mult [symmetric])

lemma lengthAdd_nonneg [simp]: "0 \<le> l1 \<Longrightarrow> 0 \<le> l2 \<Longrightarrow> 0 \<le> lengthAdd l1 l2"
  by (auto simp: lengthAdd_eq pos_imp_zdiv_nonneg_iff intro!: add_nonneg_nonneg mult_nonneg_nonneg
      less_imp_le [OF factor_pos(1)])

lemma lengthAdd_zero [simp]: "lengthAdd l 0 = l" "lengthAdd 0 l = l"
  by (simp_all add: lengthAdd_def js_rem_def factor_def)

lemma lengthAdd_packed:
  assumes "0 \<le> ls" "0 \<le> cs" "cs < factor" and "0 \<le> ls'" "0 \<le> cs'" "cs' < factor"
  shows "lengthAdd (ls * factor + cs) (ls' * factor + cs') =
    (if 1 \<le> ls' then (ls + ls') * factor + cs' else ls * factor + (cs + cs'))"
  using assms by (simp add: lengthAdd_eq unpack_simps factor_le_packed) (simp add: algebra_simps)

lemma lengthAdd_refines:
  assumes "0 \<le> l1" and "0 \<le> l2" and "no_carry l1 l2"
  shows "lengthToObj (lengthAdd l1 l2) = TextLength_add (lengthToObj l1) (lengthToObj l2)"
proof -
  obtain ls cs where 1: "l1 = ls * factor + cs" "0 \<le> ls" "0 \<le> cs" "cs < factor"
    using packed_cases [OF assms(1)] by metis
  obtain ls' cs' where 2: "l2 = ls' * factor + cs'" "0 \<le> ls'" "0 \<le> cs'" "cs' < factor"
    using packed_cases [OF assms(2)] by metis
  show ?thesis
  proof (cases "1 \<le> ls'")
    case True
    with 1 2 show ?thesis
      by (simp add: lengthAdd_packed unpack_simps TextLength_add_def)
  next
    case False
    with 2 have "ls' = 0" by simp
    with 1 2 assms(3) have "cs + cs' < factor"
      by (simp add: no_carry_def unpack_simps)
    note this and \<open>ls' = 0\<close>
    with 1 2 show ?thesis
      by (simp add: lengthAdd_eq unpack_simps(3) lengthToObj_small TextLength_add_def add.assoc)
  qed
qed

text \<open>
  Without the hypothesis the packed sum is wrong: the columns carry into the lines.
\<close>

lemma lengthAdd_carries:
  "lengthToObj (lengthAdd (toLength 0 67108863) (toLength 0 1)) = TextLength 1 0"
  by code_simp

lemma lengthAdd_mono:
  assumes "0 \<le> a" and "0 \<le> l"
  shows "a \<le> lengthAdd a l"
proof (cases "factor \<le> l")
  case True
  have "a mod factor < factor" by simp
  with True have "a \<le> a div factor * factor + l"
    by (metis add_left_mono div_mult_mod_eq less_le_not_le order.trans nle_le)
  with True assms show ?thesis by (simp add: lengthAdd_eq)
qed (use assms in \<open>simp add: lengthAdd_eq\<close>)

lemma lengthAdd_assoc:
  assumes "0 \<le> a" "0 \<le> b" "0 \<le> c" and "no_carry a b" and "no_carry b c"
  shows "lengthAdd (lengthAdd a b) c = lengthAdd a (lengthAdd b c)"
proof (cases "factor \<le> b")
  case True
  have "0 \<le> a div factor * factor" "0 \<le> b div factor * factor"
    using assms by (auto simp: pos_imp_zdiv_nonneg_iff
        intro!: mult_nonneg_nonneg less_imp_le [OF factor_pos(1)])
  with True assms show ?thesis
    by (simp add: lengthAdd_eq) (simp add: algebra_simps)
next
  case False
  with assms have "a mod factor + b < factor" "(a + b) div factor = a div factor"
    using unpack_simps(1) [of "a mod factor + b" "a div factor"]
    by (auto simp: no_carry_def add.assoc [symmetric])
  moreover have "b div factor = 0"
    using False assms by simp
  ultimately show ?thesis
    using False assms by (auto simp: lengthAdd_eq no_carry_def)
qed

text \<open>The columns of a list of lengths together stay below the factor: no sum of them carries.\<close>

definition columns_fit :: "bracket_length list \<Rightarrow> bool" where
  "columns_fit ls \<longleftrightarrow> (\<forall>l \<in> set ls. 0 \<le> l) \<and> (\<Sum>l \<leftarrow> ls. l mod factor) < factor"

lemma columns_fit_Nil [simp]: "columns_fit []"
  by (simp add: columns_fit_def)

lemma sum_columns_nonneg: "0 \<le> (\<Sum>l \<leftarrow> ls. l mod factor)"
  by (rule sum_list_nonneg) auto

lemma columns_fit_append: "columns_fit (ls @ ls') \<Longrightarrow> columns_fit ls \<and> columns_fit ls'"
  using sum_columns_nonneg [of ls] sum_columns_nonneg [of ls'] by (auto simp: columns_fit_def)

lemma columns_fit_Cons: "columns_fit (l # ls) \<Longrightarrow> 0 \<le> l \<and> columns_fit ls"
  using columns_fit_append [of "[l]" ls] by (auto simp: columns_fit_def)

lemma columns_fit_no_carry:
  assumes "columns_fit (a # b # ls)"
  shows "no_carry a b"
proof -
  have "b mod factor = b" if "\<not> factor \<le> b" using that assms by (simp add: columns_fit_def)
  with assms sum_columns_nonneg [of ls] show ?thesis
    by (cases "factor \<le> b") (auto simp: columns_fit_def no_carry_def)
qed

lemma lengthAdd_columns:
  assumes "0 \<le> a" "0 \<le> b" and "no_carry a b"
  shows "lengthAdd a b mod factor \<le> a mod factor + b mod factor"
proof -
  have "columnCount (lengthToObj (lengthAdd a b)) \<le>
      columnCount (lengthToObj a) + columnCount (lengthToObj b)"
    unfolding lengthAdd_refines [OF assms] by (simp add: TextLength_add_def lengthToObj_eq)
  then show ?thesis by (simp add: lengthToObj_eq)
qed

lemma columns_fit_lengthAdd:
  assumes "columns_fit (a # b # ls)"
  shows "columns_fit (lengthAdd a b # ls)"
  using assms lengthAdd_columns [of a b] columns_fit_no_carry [OF assms]
  by (auto simp: columns_fit_def)

text \<open>Under that bound the packed sums form a monoid, and \<open>sumLengths\<close> may be regrouped.\<close>

lemma foldl_lengthAdd_columns:
  assumes "columns_fit (a # ls @ ls')"
  shows "columns_fit (foldl lengthAdd a ls # ls')"
  using assms by (induction ls arbitrary: a) (auto dest: columns_fit_lengthAdd)

lemma foldl_lengthAdd:
  assumes "columns_fit (a # ls)"
  shows "foldl lengthAdd a ls = lengthAdd a (foldl lengthAdd 0 ls)"
  using assms
proof (induction ls arbitrary: a)
  case (Cons b ls)
  let ?s = "foldl lengthAdd 0 ls"
  have ab: "columns_fit (lengthAdd a b # ls)" "columns_fit (b # ls)"
    using columns_fit_lengthAdd [OF Cons.prems] columns_fit_Cons [OF Cons.prems] by auto
  have "columns_fit (0 # ls @ [b])"
    using ab(2) by (auto simp: columns_fit_def)
  then have s: "columns_fit [?s, b]"
    by (rule foldl_lengthAdd_columns)
  then have "columns_fit [b, ?s]"
    by (simp add: columns_fit_def add.commute)
  then have "no_carry b ?s" "0 \<le> ?s"
    by (rule columns_fit_no_carry) (use s in \<open>simp add: columns_fit_def\<close>)
  moreover have "0 \<le> a" "0 \<le> b" "no_carry a b"
    using Cons.prems columns_fit_no_carry [OF Cons.prems] by (simp_all add: columns_fit_def)
  ultimately have "lengthAdd (lengthAdd a b) ?s = lengthAdd a (lengthAdd b ?s)"
    by (simp add: lengthAdd_assoc)
  with Cons.IH [OF ab(1)] Cons.IH [OF ab(2)] show ?case by simp
qed simp

lemma foldl_lengthAdd_append:
  assumes "columns_fit (ls @ ls')"
  shows "foldl lengthAdd 0 (ls @ ls') = lengthAdd (foldl lengthAdd 0 ls) (foldl lengthAdd 0 ls')"
proof -
  have "columns_fit (0 # ls @ ls')"
    using assms by (simp add: columns_fit_def)
  then have "columns_fit (foldl lengthAdd 0 ls # ls')"
    by (rule foldl_lengthAdd_columns)
  then show ?thesis by (simp add: foldl_lengthAdd [of _ ls'])
qed

lemma sumLengths_eq: "sumLengths items lengthFn = foldl lengthAdd 0 (map lengthFn items)"
  by (simp add: sumLengths_def lengthZero_def foldl_map)

lemma sumLengths_refines:
  assumes "columns_fit (map lengthFn items)"
  shows "lengthToObj (sumLengths items lengthFn) = TextLength_sum items (\<lambda>x. lengthToObj (lengthFn x))"
proof -
  have "lengthToObj (foldl lengthAdd a (map lengthFn items)) =
      foldl (\<lambda>acc x. TextLength_add acc (lengthToObj (lengthFn x))) (lengthToObj a) items"
    if "columns_fit (a # map lengthFn items)" for a
    using that
  proof (induction items arbitrary: a)
    case (Cons x items)
    have fit: "columns_fit (a # lengthFn x # map lengthFn items)"
      using Cons.prems by simp
    have "0 \<le> a" "0 \<le> lengthFn x"
      using fit by (simp_all add: columns_fit_def)
    with Cons.IH [OF columns_fit_lengthAdd [OF fit]] columns_fit_no_carry [OF fit] show ?case
      by (simp add: lengthAdd_refines)
  qed simp
  from this [of 0] assms show ?thesis
    by (simp add: sumLengths_eq TextLength_sum_def TextLength_zero_def columns_fit_def
        lengthToObj_small)
qed

subsection \<open>Order and difference\<close>

lemma lengthLessThan_refines:
  assumes "0 \<le> l1" and "0 \<le> l2"
  shows "lengthLessThan l1 l2 \<longleftrightarrow> TextLength_isLessThan (lengthToObj l1) (lengthToObj l2)"
proof -
  obtain ls cs where 1: "l1 = ls * factor + cs" "0 \<le> cs" "cs < factor" "lengthToObj l1 = TextLength ls cs"
    using packed_cases [OF assms(1)] by metis
  obtain ls' cs' where 2: "l2 = ls' * factor + cs'" "0 \<le> cs'" "cs' < factor"
    "lengthToObj l2 = TextLength ls' cs'"
    using packed_cases [OF assms(2)] by metis
  show ?thesis
    using 1 2
    by (auto simp: packed_less_iff lengthLessThan_def TextLength_isLessThan_def)
qed

lemma lengthGreaterThanEqual_refines:
  assumes "0 \<le> l1" and "0 \<le> l2"
  shows "lengthGreaterThanEqual l1 l2 \<longleftrightarrow>
    TextLength_isGreaterThanOrEqualTo (lengthToObj l1) (lengthToObj l2)"
  using lengthLessThan_refines [OF assms]
  by (auto simp: lengthGreaterThanEqual_def lengthLessThan_def TextLength_isGreaterThanOrEqualTo_def
      TextLength_isLessThan_def split: if_splits)

lemma lengthDiffNonNegative_refines:
  assumes "0 \<le> l1" and "0 \<le> l2"
  shows "lengthToObj (lengthDiffNonNegative l1 l2) =
    TextLength_lengthDiffNonNegative (lengthToObj l1) (lengthToObj l2)"
proof -
  obtain ls cs where 1: "l1 = ls * factor + cs" "0 \<le> cs" "cs < factor" "lengthToObj l1 = TextLength ls cs"
    using packed_cases [OF assms(1)] by metis
  obtain ls' cs' where 2: "l2 = ls' * factor + cs'" "0 \<le> cs'" "cs' < factor"
    "lengthToObj l2 = TextLength ls' cs'"
    using packed_cases [OF assms(2)] by metis
  show ?thesis
    using 1 2
    by (auto simp: packed_less_iff lengthDiffNonNegative_def TextLength_lengthDiffNonNegative_def lengthZero_def
        toLength_def unpack_simps lengthToObj_small TextLength_isLessThan_def TextLength_zero_def Let_def)
qed

lemma lengthAdd_lengthDiffNonNegative:
  assumes "0 \<le> l1" and "l1 \<le> l2"
  shows "lengthAdd l1 (lengthDiffNonNegative l1 l2) = l2"
proof -
  obtain ls cs where 1: "l1 = ls * factor + cs" "0 \<le> ls" "0 \<le> cs" "cs < factor"
    using packed_cases [OF assms(1)] by metis
  obtain ls' cs' where 2: "l2 = ls' * factor + cs'" "0 \<le> ls'" "0 \<le> cs'" "cs' < factor"
    using packed_cases assms by (metis order.trans)
  have "ls < ls' \<or> ls = ls' \<and> cs \<le> cs'"
    using assms(2) 1 2 by (simp add: packed_less_iff)
  then show ?thesis
  proof
    assume "ls < ls'"
    with 1 2 have "lengthDiffNonNegative l1 l2 = (ls' - ls) * factor + cs'"
      by (simp add: lengthDiffNonNegative_def toLength_def unpack_simps packed_less_iff Let_def)
    with 1 2 \<open>ls < ls'\<close> show ?thesis by (simp add: lengthAdd_packed)
  next
    assume "ls = ls' \<and> cs \<le> cs'"
    with 1 2 show ?thesis
      by (simp add: lengthDiffNonNegative_def toLength_def unpack_simps lengthZero_def lengthAdd_eq Let_def)
  qed
qed

lemma lengthDiff_positions:
  "lengthDiff (lineNumber p - 1) (column p - 1) (lineNumber q - 1) (column q - 1) =
   (let l = TextLength_betweenPositions p q in toLength (lineCount l) (columnCount l))"
  by (simp add: lengthDiff_def TextLength_betweenPositions_def toLength_def)

subsection \<open>Positions, ranges and strings\<close>

lemma positionToLength_lengthToPosition:
  "positionToLength (lengthToPosition l) = l"
  by (simp add: positionToLength_def lengthToPosition_def toLength_def Let_def)

lemma lengthToPosition_positionToLength:
  assumes "packable (TextLength_fromPosition p)"
  shows "lengthToPosition (positionToLength p) = p"
  using assms by (simp add: positionToLength_def lengthToPosition_def toLength_def Let_def
      packable_def TextLength_fromPosition_def unpack_simps)

lemma lengthsToRange_positions:
  "lengthsToRange l1 l2 = Range_fromPositions (lengthToPosition l1) (Some (lengthToPosition l2))"
  by (simp add: lengthsToRange_def lengthToPosition_def Range_fromPositions_def Let_def)

lemma lengthOfRange_eq: "lengthOfRange r = TextLength_ofRange r"
  by (simp add: lengthOfRange_def TextLength_ofRange_def TextLength_betweenPositions_def
      Range_getStartPosition_def Range_getEndPosition_def)

lemma splitLines_line_length: "l \<in> set (splitLines str) \<Longrightarrow> length l \<le> length str"
proof (induction str arbitrary: l rule: splitLines.induct)
  case (3 c c' cs)
  show ?case
  proof (cases "c = 13 \<or> c = 10")
    case True
    with 3 show ?thesis by (auto split: if_splits dest: le_SucI)
  next
    case False
    with 3 show ?thesis
      by (cases "splitLines (c' # cs)") (auto simp: prepend_unit_def dest: le_SucI)
  qed
qed (auto split: if_splits)

lemma lengthOfString_refines:
  assumes "int (length str) < factor"
  shows "lengthToObj (lengthOfString str) = lengthOfStringObj str"
proof -
  let ?lines = "splitLines str"
  have "?lines ! (length ?lines - 1) \<in> set ?lines" "0 < length ?lines"
    by simp_all
  from splitLines_line_length [OF this(1)] this(2) assms show ?thesis
    by (simp add: lengthOfString_def lengthOfStringObj_def Let_def lengthToObj_toLength packable_def
        Suc_le_eq)
qed

text \<open>Concatenation adds the lengths, unless it joins a carriage return and a line feed.\<close>

lemma splitLines_append:
  assumes "\<not> (a \<noteq> [] \<and> last a = 13 \<and> b \<noteq> [] \<and> hd b = 10)"
  shows "splitLines (a @ b) = glue (splitLines a) (splitLines b)"
  using assms unfolding glue_def
proof (induction a rule: splitLines.induct)
  case 1
  then show ?case by simp
next
  case (2 c)
  then show ?case
    by (cases b; cases "splitLines b") (auto simp: prepend_unit_def)
next
  case (3 c c' cs)
  then show ?case
    by (auto simp: prepend_unit_def split: list.splits if_splits)
qed

lemma lengthOfStringObj_append:
  assumes "\<not> (a \<noteq> [] \<and> last a = 13 \<and> b \<noteq> [] \<and> hd b = 10)"
  shows "lengthOfStringObj (a @ b) = TextLength_add (lengthOfStringObj a) (lengthOfStringObj b)"
proof -
  have "length (splitLines a) \<ge> 1" "length (splitLines b) \<ge> 1" by (simp_all add: Suc_le_eq)
  then show ?thesis
    by (cases "splitLines b" rule: rev_cases; cases "splitLines b")
      (auto simp: lengthOfStringObj_def splitLines_append [OF assms] glue_def TextLength_add_def Let_def
        last_conv_nth nth_append)
qed

subsection \<open>Properties\<close>

text \<open>The packed sum of lengths stands for their sum as text lengths, as long as the columns of all
  of them together stay below \<open>2^26\<close>.\<close>

lemma packed_sum_refines:
  assumes "columns_fit (map lengthFn items)"
  shows "lengthToObj (sumLengths items lengthFn) = TextLength_sum items (\<lambda>x. lengthToObj (lengthFn x))"
  using assms by (rule sumLengths_refines)

text \<open>\<open>lengthDiffNonNegative\<close> gives the length that leads from one offset to a later one, for every
  pair of offsets in order, without any bound on their columns.\<close>

lemma lengthDiffNonNegative_leads:
  assumes "0 \<le> l1" and "lengthLessThanEqual l1 l2"
  shows "lengthAdd l1 (lengthDiffNonNegative l1 l2) = l2"
  using assms by (simp add: lengthLessThanEqual_def lengthAdd_lengthDiffNonNegative)

end
