(* ===== verification/SmallImmutableSet.thy ===== *)
theory SmallImmutableSet
  imports Prelude
begin

unbundle bit_operations_syntax

section \<open>Sets of small keys: \<open>.../bracketPairsTree/smallImmutableSet.ts\<close>\<close>

text \<open>
  A set of dense keys is a bit mask: one 32-bit number for the keys below 32 and an array of further
  ones. The bit operators of the language work on 32-bit words, and so does the model; the keys are
  sizes of a \<open>Map\<close> and small natural numbers. The object cache in \<open>create\<close> shares objects of equal
  value and is not visible in the values.
\<close>

record small_set =
  set_items :: "32 word"
  additionalItems :: "32 word list"

definition SmallImmutableSet_create :: "32 word \<Rightarrow> 32 word list \<Rightarrow> small_set" where
  "SmallImmutableSet_create i a = \<lparr>set_items = i, additionalItems = a\<rparr>"

definition SmallImmutableSet_getEmpty :: small_set where
  "SmallImmutableSet_getEmpty = SmallImmutableSet_create 0 []"

text \<open>\<open>1 << key\<close> takes the key modulo 32.\<close>

definition bit_of :: "nat \<Rightarrow> 32 word" where
  "bit_of key = push_bit (key mod 32) 1"

text \<open>\<open>while (newItems.length < idx) newItems.push(0)\<close>\<close>

definition pad_zeros :: "nat \<Rightarrow> 32 word list \<Rightarrow> 32 word list" where
  "pad_zeros idx newItems = newItems @ replicate (idx - length newItems) 0"

text \<open>\<open>newItems[idx] |= w\<close>: an index one behind the end extends the array.\<close>

definition or_at :: "32 word list \<Rightarrow> nat \<Rightarrow> 32 word \<Rightarrow> 32 word list" where
  "or_at ws idx w = (if idx < length ws then ws[idx := ws ! idx OR w] else ws @ [w])"

text \<open>\<open>additionalItems[i] || 0\<close>\<close>

definition item_or_zero :: "32 word list \<Rightarrow> nat \<Rightarrow> 32 word" where
  "item_or_zero ws i = (if i < length ws then ws ! i else 0)"

definition add_key :: "nat \<Rightarrow> small_set \<Rightarrow> small_set" where
  "add_key key this =
     (let idx = key div 32
      in if idx = 0
         then (let newItem = bit_of key OR set_items this
               in if newItem = set_items this then this
                  else SmallImmutableSet_create newItem (additionalItems this))
         else let idx = idx - 1;
                  newItems = or_at (pad_zeros idx (additionalItems this)) idx (bit_of (key mod 32))
              in SmallImmutableSet_create (set_items this) newItems)"

definition has_key :: "nat \<Rightarrow> small_set \<Rightarrow> bool" where
  "has_key key this =
     (let idx = key div 32
      in if idx = 0 then set_items this AND bit_of key \<noteq> 0
         else item_or_zero (additionalItems this) (idx - 1) AND bit_of (key mod 32) \<noteq> 0)"

text \<open>
  \<open>getKey\<close> of a key provider returns the key and the provider afterwards: a dense provider allocates
  keys on demand.
\<close>

type_synonym ('v, 's) key_provider = "'v \<Rightarrow> 's \<Rightarrow> nat \<times> 's"

definition SmallImmutableSet_add ::
  "small_set \<Rightarrow> 'v \<Rightarrow> ('v, 's) key_provider \<Rightarrow> 's \<Rightarrow> small_set \<times> 's" where
  "SmallImmutableSet_add this v getKey s = (let (key, s') = getKey v s in (add_key key this, s'))"

definition SmallImmutableSet_has ::
  "small_set \<Rightarrow> 'v \<Rightarrow> ('v, 's) key_provider \<Rightarrow> 's \<Rightarrow> bool \<times> 's" where
  "SmallImmutableSet_has this v getKey s = (let (key, s') = getKey v s in (has_key key this, s'))"

definition SmallImmutableSet_merge :: "small_set \<Rightarrow> small_set \<Rightarrow> small_set" where
  "SmallImmutableSet_merge this other =
     (let merged = set_items this OR set_items other
      in if additionalItems this = [] \<and> additionalItems other = []
         then (if merged = set_items this then this
               else if merged = set_items other then other
               else SmallImmutableSet_create merged [])
         else SmallImmutableSet_create merged
                (map (\<lambda>i. item_or_zero (additionalItems this) i OR item_or_zero (additionalItems other) i)
                  [0 ..< max (length (additionalItems this)) (length (additionalItems other))]))"

fun intersects_loop :: "32 word list \<Rightarrow> 32 word list \<Rightarrow> bool" where
  "intersects_loop (a # as) (b # bs) = (if a AND b \<noteq> 0 then True else intersects_loop as bs)"
| "intersects_loop _ _ = False"

definition SmallImmutableSet_intersects :: "small_set \<Rightarrow> small_set \<Rightarrow> bool" where
  "SmallImmutableSet_intersects this other =
     (if set_items this AND set_items other \<noteq> 0 then True
      else intersects_loop (additionalItems this) (additionalItems other))"

fun equals_loop :: "32 word list \<Rightarrow> 32 word list \<Rightarrow> bool" where
  "equals_loop (a # as) (b # bs) = (if a \<noteq> b then False else equals_loop as bs)"
| "equals_loop _ _ = True"

definition SmallImmutableSet_equals :: "small_set \<Rightarrow> small_set \<Rightarrow> bool" where
  "SmallImmutableSet_equals this other =
     (if set_items this \<noteq> set_items other then False
      else if length (additionalItems this) \<noteq> length (additionalItems other) then False
      else equals_loop (additionalItems this) (additionalItems other))"

definition identityKeyProvider_getKey :: "(nat, 's) key_provider" where
  "identityKeyProvider_getKey v s = (v, s)"

text \<open>A dense key provider: the entries of its \<open>Map\<close> in insertion order.\<close>

type_synonym 'v dense_provider = "('v \<times> nat) list"

definition DenseKeyProvider_getKey :: "('v, 'v dense_provider) key_provider" where
  "DenseKeyProvider_getKey v p =
     (case map_of p v of
        None \<Rightarrow> (length p, p @ [(v, length p)])
      | Some existing \<Rightarrow> (existing, p))"

definition DenseKeyProvider_reverseLookup :: "'v dense_provider \<Rightarrow> nat \<Rightarrow> 'v option" where
  "DenseKeyProvider_reverseLookup p n = map_option fst (find (\<lambda>(_, v). v = n) p)"

text \<open>The loop visits the entries of the map; \<open>set.has(key, this)\<close> asks the provider itself.\<close>

fun reverseLookupSet_loop ::
  "small_set \<Rightarrow> 'v list \<Rightarrow> 'v dense_provider \<Rightarrow> 'v list \<Rightarrow> 'v list \<times> 'v dense_provider" where
  "reverseLookupSet_loop s [] p res = (res, p)"
| "reverseLookupSet_loop s (v # vs) p res =
     (let (b, p') = SmallImmutableSet_has s v DenseKeyProvider_getKey p
      in reverseLookupSet_loop s vs p' (if b then res @ [v] else res))"

definition DenseKeyProvider_reverseLookupSet ::
  "'v dense_provider \<Rightarrow> small_set \<Rightarrow> 'v list \<times> 'v dense_provider" where
  "DenseKeyProvider_reverseLookupSet p s = reverseLookupSet_loop s (map fst p) p []"

definition DenseKeyProvider_keys :: "'v dense_provider \<Rightarrow> 'v list" where
  "DenseKeyProvider_keys p = map fst p"

subsection \<open>Bits and membership\<close>

lemma and_bit_of_iff: "w AND bit_of key \<noteq> 0 \<longleftrightarrow> bit w (key mod 32)"
  for w :: "32 word"
  by (simp add: bit_of_def push_bit_eq_mult and_exp_eq_0_iff_not_bit)

lemma bit_bit_of: "n < 32 \<Longrightarrow> bit (bit_of key) n \<longleftrightarrow> n = key mod 32"
  by (auto simp: bit_of_def push_bit_eq_mult bit_exp_iff)

text \<open>The word that holds the keys from \<open>32 i\<close> to \<open>32 i + 31\<close>.\<close>

definition word_at :: "small_set \<Rightarrow> nat \<Rightarrow> 32 word" where
  "word_at s i = (if i = 0 then set_items s else item_or_zero (additionalItems s) (i - 1))"

lemma has_key_iff: "has_key key s \<longleftrightarrow> bit (word_at s (key div 32)) (key mod 32)"
  using and_bit_of_iff [of _ "key mod 32"]
  by (auto simp: has_key_def word_at_def and_bit_of_iff Let_def)

lemma word_at_create [simp]:
  "word_at (SmallImmutableSet_create i a) n = (if n = 0 then i else item_or_zero a (n - 1))"
  by (simp add: word_at_def SmallImmutableSet_create_def)

lemma set_create_sel [simp]:
  "set_items (SmallImmutableSet_create i a) = i" "additionalItems (SmallImmutableSet_create i a) = a"
  by (simp_all add: SmallImmutableSet_create_def)

lemma length_pad_zeros [simp]: "length (pad_zeros idx ws) = max idx (length ws)"
  by (simp add: pad_zeros_def)

lemma item_or_zero_pad [simp]: "item_or_zero (pad_zeros idx ws) i = item_or_zero ws i"
  by (auto simp: item_or_zero_def pad_zeros_def nth_append)

lemma item_or_zero_or_at:
  "idx \<le> length ws \<Longrightarrow>
     item_or_zero (or_at ws idx w) i = (if i = idx then item_or_zero ws i OR w else item_or_zero ws i)"
  by (auto simp: item_or_zero_def or_at_def nth_append nth_list_update)

lemma word_at_add_key:
  "word_at (add_key key s) i =
     (if i = key div 32 then word_at s i OR bit_of key else word_at s i)"
proof (cases "key div 32 = 0")
  case True
  then show ?thesis
    by (auto simp: add_key_def word_at_def Let_def or.commute)
next
  case False
  then show ?thesis
    by (auto simp: add_key_def word_at_def Let_def item_or_zero_or_at bit_of_def)
qed

lemma word_at_merge:
  "word_at (SmallImmutableSet_merge s t) i = word_at s i OR word_at t i"
  by (auto simp: SmallImmutableSet_merge_def word_at_def item_or_zero_def Let_def or.commute)

lemma has_key_getEmpty [simp]: "\<not> has_key k SmallImmutableSet_getEmpty"
  by (simp add: has_key_iff SmallImmutableSet_getEmpty_def item_or_zero_def)

lemma has_key_add_key: "has_key k (add_key k' s) \<longleftrightarrow> k = k' \<or> has_key k s"
proof -
  have "k = k'" if "k div 32 = k' div 32" "k mod 32 = k' mod 32"
    using that by (metis div_mult_mod_eq)
  then show ?thesis
    by (auto simp: has_key_iff word_at_add_key bit_or_iff bit_bit_of)
qed

lemma has_key_merge: "has_key k (SmallImmutableSet_merge s t) \<longleftrightarrow> has_key k s \<or> has_key k t"
  by (simp add: has_key_iff word_at_merge bit_or_iff)

lemma word_and_nonzero_iff: "a AND b \<noteq> 0 \<longleftrightarrow> (\<exists>n<32. bit a n \<and> bit b n)"
  for a b :: "32 word"
  by (auto simp: bit_eq_iff bit_and_iff)

lemma intersects_loop_iff:
  "intersects_loop as bs \<longleftrightarrow> (\<exists>i. item_or_zero as i AND item_or_zero bs i \<noteq> 0)"
proof (induction as bs rule: intersects_loop.induct)
  case (1 a as b bs)
  have "(\<exists>i. P i) \<longleftrightarrow> P 0 \<or> (\<exists>i. P (Suc i))" for P :: "nat \<Rightarrow> bool"
    by (metis not0_implies_Suc)
  from this [of "\<lambda>i. item_or_zero (a # as) i AND item_or_zero (b # bs) i \<noteq> 0"] 1 show ?case
    by (auto simp: item_or_zero_def)
qed (auto simp: item_or_zero_def)

lemma intersects_word_at:
  "SmallImmutableSet_intersects s t \<longleftrightarrow> (\<exists>i. word_at s i AND word_at t i \<noteq> 0)"
proof -
  have "(\<exists>i. P i) \<longleftrightarrow> P 0 \<or> (\<exists>i. P (Suc i))" for P :: "nat \<Rightarrow> bool"
    by (metis not0_implies_Suc)
  from this [of "\<lambda>i. word_at s i AND word_at t i \<noteq> 0"] show ?thesis
    by (auto simp: SmallImmutableSet_intersects_def intersects_loop_iff word_at_def)
qed

lemma intersects_iff:
  "SmallImmutableSet_intersects s t \<longleftrightarrow> (\<exists>k. has_key k s \<and> has_key k t)"
proof
  assume "SmallImmutableSet_intersects s t"
  then obtain i n where "n < 32" "bit (word_at s i) n" "bit (word_at t i) n"
    by (auto simp: intersects_word_at word_and_nonzero_iff)
  then have "has_key (32 * i + n) s \<and> has_key (32 * i + n) t"
    by (simp add: has_key_iff)
  then show "\<exists>k. has_key k s \<and> has_key k t" ..
next
  assume "\<exists>k. has_key k s \<and> has_key k t"
  then obtain k where "bit (word_at s (k div 32)) (k mod 32)" "bit (word_at t (k div 32)) (k mod 32)"
    by (auto simp: has_key_iff)
  then show "SmallImmutableSet_intersects s t"
    unfolding intersects_word_at word_and_nonzero_iff
    by (intro exI [of _ "k div 32"] exI [of _ "k mod 32"]) simp
qed

subsection \<open>Equality of sets\<close>

text \<open>
  The arrays of two equal sets could differ in trailing zeros. None are ever written: the last
  additional item is not zero.
\<close>

definition canonical_set :: "small_set \<Rightarrow> bool" where
  "canonical_set s \<longleftrightarrow> additionalItems s = [] \<or> last (additionalItems s) \<noteq> 0"

lemma equals_loop_eq: "length as = length bs \<Longrightarrow> equals_loop as bs \<longleftrightarrow> as = bs"
  by (induction as bs rule: list_induct2) auto

lemma equals_eq: "SmallImmutableSet_equals s t \<longleftrightarrow> s = t"
  by (auto simp: SmallImmutableSet_equals_def equals_loop_eq)

lemma canonical_iff:
  "canonical_set s \<longleftrightarrow> additionalItems s = [] \<or> word_at s (length (additionalItems s)) \<noteq> 0"
  by (auto simp: canonical_set_def word_at_def item_or_zero_def last_conv_nth)

lemma word_at_beyond: "length (additionalItems s) < i \<Longrightarrow> word_at s i = 0"
  by (auto simp: word_at_def item_or_zero_def)

lemma canonical_getEmpty [simp]: "canonical_set SmallImmutableSet_getEmpty"
  by (simp add: canonical_set_def SmallImmutableSet_getEmpty_def)

lemma bit_of_neq_0 [simp]: "bit_of k \<noteq> 0"
  using bit_bit_of [of "k mod 32" k] by auto

lemma or_eq_0_iff: "a OR b = 0 \<longleftrightarrow> a = 0 \<and> b = 0" for a b :: "32 word"
  by (auto simp: bit_eq_iff bit_or_iff)

lemma length_add_key:
  "length (additionalItems (add_key k s)) = max (length (additionalItems s)) (k div 32)"
  by (auto simp: add_key_def or_at_def Let_def)

lemma length_merge:
  "length (additionalItems (SmallImmutableSet_merge s t)) =
     max (length (additionalItems s)) (length (additionalItems t))"
  by (auto simp: SmallImmutableSet_merge_def Let_def)

lemma canonical_add_key: "canonical_set s \<Longrightarrow> canonical_set (add_key k s)"
  unfolding canonical_iff length_0_conv [symmetric] length_add_key word_at_add_key
  by (auto simp: or_eq_0_iff max_def)

lemma canonical_merge:
  "canonical_set s \<Longrightarrow> canonical_set t \<Longrightarrow> canonical_set (SmallImmutableSet_merge s t)"
  unfolding canonical_iff length_0_conv [symmetric] length_merge word_at_merge
  by (auto simp: or_eq_0_iff max_def)

lemma word_at_ext:
  assumes "\<And>k. has_key k s \<longleftrightarrow> has_key k t"
  shows "word_at s i = word_at t i"
proof (rule bit_eqI)
  fix n
  assume "possible_bit TYPE(32 word) n"
  then have "n < 32" by simp
  with assms [of "32 * i + n"] show "bit (word_at s i) n \<longleftrightarrow> bit (word_at t i) n"
    by (simp add: has_key_iff)
qed

lemma canonical_length_le:
  assumes "canonical_set s" and "\<And>i. word_at s i = word_at t i"
  shows "length (additionalItems s) \<le> length (additionalItems t)"
  using assms word_at_beyond [of t "length (additionalItems s)"]
  by (cases "length (additionalItems s) \<le> length (additionalItems t)") (auto simp: canonical_iff)

lemma canonical_set_ext:
  assumes "canonical_set s" "canonical_set t" and has: "\<And>k. has_key k s \<longleftrightarrow> has_key k t"
  shows "s = t"
proof -
  have w: "word_at s i = word_at t i" for i
    using has by (rule word_at_ext)
  have len: "length (additionalItems s) = length (additionalItems t)"
    using canonical_length_le [OF assms(1) w] canonical_length_le [OF assms(2) w [symmetric]] by simp
  have "additionalItems s ! i = additionalItems t ! i" if "i < length (additionalItems s)" for i
    using w [of "Suc i"] that len by (simp add: word_at_def item_or_zero_def)
  with len have "additionalItems s = additionalItems t"
    by (simp add: list_eq_iff_nth_eq)
  moreover have "set_items s = set_items t"
    using w [of 0] by (simp add: word_at_def)
  ultimately show ?thesis by simp
qed

subsection \<open>The contract of a set of keys\<close>

text \<open>
  What the nodes of the bracket tree rely on. The laws give the union over a list of sets and that
  intersection is emptiness of the common part.
\<close>

locale key_set =
  fixes ok :: "'s \<Rightarrow> bool"
    and member :: "nat \<Rightarrow> 's \<Rightarrow> bool"
    and empty_set :: 's
    and insert_key :: "nat \<Rightarrow> 's \<Rightarrow> 's"
    and merge :: "'s \<Rightarrow> 's \<Rightarrow> 's"
    and meets :: "'s \<Rightarrow> 's \<Rightarrow> bool"
  assumes ok_empty: "ok empty_set"
    and ok_insert: "ok s \<Longrightarrow> ok (insert_key k s)"
    and ok_merge: "ok s \<Longrightarrow> ok t \<Longrightarrow> ok (merge s t)"
    and member_empty: "\<not> member k empty_set"
    and member_insert: "member k (insert_key k' s) \<longleftrightarrow> k = k' \<or> member k s"
    and member_merge: "member k (merge s t) \<longleftrightarrow> member k s \<or> member k t"
    and meets_iff: "meets s t \<longleftrightarrow> (\<exists>k. member k s \<and> member k t)"
    and extensional: "ok s \<Longrightarrow> ok t \<Longrightarrow> (\<And>k. member k s \<longleftrightarrow> member k t) \<Longrightarrow> s = t"
begin

lemma ok_fold_merge: "ok s \<Longrightarrow> \<forall>t \<in> set ts. ok t \<Longrightarrow> ok (foldl merge s ts)"
  by (induction ts arbitrary: s) (auto simp: ok_merge)

lemma member_fold_merge:
  "member k (foldl merge s ts) \<longleftrightarrow> member k s \<or> (\<exists>t \<in> set ts. member k t)"
  by (induction ts arbitrary: s) (auto simp: member_merge)

lemma member_fold_insert:
  "member k (foldl (\<lambda>s k. insert_key k s) s ks) \<longleftrightarrow> member k s \<or> k \<in> set ks"
  by (induction ks arbitrary: s) (auto simp: member_insert)

lemma ok_fold_insert: "ok s \<Longrightarrow> ok (foldl (\<lambda>s k. insert_key k s) s ks)"
  by (induction ks arbitrary: s) (auto simp: ok_insert)

lemma merge_assoc: "ok s \<Longrightarrow> ok t \<Longrightarrow> ok u \<Longrightarrow> merge (merge s t) u = merge s (merge t u)"
  by (rule extensional) (auto simp: ok_merge member_merge)

lemma merge_commute: "ok s \<Longrightarrow> ok t \<Longrightarrow> merge s t = merge t s"
  by (rule extensional) (auto simp: ok_merge member_merge)

lemma merge_idem: "ok s \<Longrightarrow> merge s s = s"
  by (rule extensional) (auto simp: ok_merge member_merge)

lemma merge_empty: "ok s \<Longrightarrow> merge s empty_set = s"
  by (rule extensional) (auto simp: ok_merge ok_empty member_merge member_empty)

lemma empty_merge: "ok s \<Longrightarrow> merge empty_set s = s"
  by (rule extensional) (auto simp: ok_merge ok_empty member_merge member_empty)

lemma fold_merge_append:
  assumes "\<forall>t \<in> set (ss @ ts). ok t"
  shows "foldl merge empty_set (ss @ ts) = merge (foldl merge empty_set ss) (foldl merge empty_set ts)"
  using assms
  by (intro extensional) (auto simp: ok_merge ok_empty ok_fold_merge member_merge member_fold_merge member_empty)

end

interpretation ids: key_set canonical_set has_key SmallImmutableSet_getEmpty add_key
  SmallImmutableSet_merge SmallImmutableSet_intersects
  by unfold_locales
    (auto simp: canonical_add_key canonical_merge has_key_add_key has_key_merge intersects_iff
      intro: canonical_set_ext)

subsection \<open>Dense keys\<close>

text \<open>The provider numbers its values by their position.\<close>

definition dense_inv :: "'v dense_provider \<Rightarrow> bool" where
  "dense_inv p \<longleftrightarrow> distinct (map fst p) \<and> map snd p = [0 ..< length p]"

lemma dense_nth: "dense_inv p \<Longrightarrow> i < length p \<Longrightarrow> snd (p ! i) = i"
  by (metis dense_inv_def length_map nth_map nth_upt add_0 )

lemma dense_inv_empty [simp]: "dense_inv []"
  by (simp add: dense_inv_def)

lemma dense_map_of:
  assumes "dense_inv p"
  shows "map_of p v = Some k \<longleftrightarrow> k < length p \<and> fst (p ! k) = v"
proof
  assume "map_of p v = Some k"
  then have "(v, k) \<in> set p" by (rule map_of_SomeD)
  then obtain i where "i < length p" "p ! i = (v, k)" by (auto simp: in_set_conv_nth)
  with dense_nth [OF assms \<open>i < length p\<close>] show "k < length p \<and> fst (p ! k) = v" by simp
next
  assume *: "k < length p \<and> fst (p ! k) = v"
  then have "p ! k = (v, k)" using dense_nth [OF assms] by (metis prod.collapse)
  then have "(v, k) \<in> set p" using * by (metis nth_mem)
  then show "map_of p v = Some k" using assms by (simp add: dense_inv_def)
qed

lemma dense_inv_getKey: "dense_inv p \<Longrightarrow> dense_inv (snd (DenseKeyProvider_getKey v p))"
  by (auto simp: DenseKeyProvider_getKey_def dense_inv_def map_of_eq_None_iff split: option.split)

text \<open>A key once given stays, and the next request returns it without changing the provider.\<close>

lemma getKey_stable:
  assumes "DenseKeyProvider_getKey v p = (k, p')"
  shows "DenseKeyProvider_getKey v p' = (k, p')"
  using assms by (auto simp: DenseKeyProvider_getKey_def map_add_def split: option.splits)

lemma getKey_keeps:
  assumes "map_of p v = Some k"
  shows "map_of (snd (DenseKeyProvider_getKey w p)) v = Some k"
  using assms by (auto simp: DenseKeyProvider_getKey_def map_add_def split: option.splits)

lemma getKey_present: "map_of p v = Some k \<Longrightarrow> DenseKeyProvider_getKey v p = (k, p)"
  by (simp add: DenseKeyProvider_getKey_def)

lemma reverseLookup_dense:
  assumes "dense_inv p"
  shows "DenseKeyProvider_reverseLookup p k = (if k < length p then Some (fst (p ! k)) else None)"
proof (cases "k < length p")
  case True
  have "find (\<lambda>(_, n). n = k) p = Some (p ! k)"
    using True unfolding find_Some_iff
    by (intro exI [of _ k]) (auto simp: case_prod_beta dense_nth [OF assms])
  with True show ?thesis by (simp add: DenseKeyProvider_reverseLookup_def)
next
  case False
  have "snd x \<noteq> k" if "x \<in> set p" for x
    using that False dense_nth [OF assms] by (auto simp: in_set_conv_nth)
  then have "find (\<lambda>(_, n). n = k) p = None"
    by (fastforce simp: find_None_iff)
  with False show ?thesis by (simp add: DenseKeyProvider_reverseLookup_def)
qed

lemma reverseLookup_getKey:
  assumes "dense_inv p" and "DenseKeyProvider_getKey v p = (k, p')"
  shows "DenseKeyProvider_reverseLookup p' k = Some v"
proof -
  have inv: "dense_inv p'"
    using dense_inv_getKey [OF assms(1), of v] assms(2) by simp
  have "map_of p' v = Some k"
    using assms(2) by (auto simp: DenseKeyProvider_getKey_def map_add_def split: option.splits)
  with inv show ?thesis
    by (simp add: reverseLookup_dense dense_map_of)
qed

lemma getKey_injective:
  assumes "dense_inv p" and "DenseKeyProvider_getKey v p = (k, p')"
    and "DenseKeyProvider_getKey w p' = (k, p'')"
  shows "v = w"
proof -
  have "dense_inv p'" using dense_inv_getKey [OF assms(1), of v] assms(2) by simp
  moreover have "map_of p'' v = Some k"
    using getKey_keeps [of p' v k w] assms(2,3)
    by (auto simp: DenseKeyProvider_getKey_def map_add_def split: option.splits)
  ultimately show ?thesis
    using reverseLookup_getKey [of p' w k p''] assms(3) dense_inv_getKey [of p' w]
    by (auto simp: reverseLookup_dense dense_map_of)
qed

lemma reverseLookupSet_loop_eq:
  assumes "\<forall>v \<in> set vs. \<exists>k. map_of p v = Some k"
  shows "reverseLookupSet_loop s vs p res =
    (res @ filter (\<lambda>v. has_key (the (map_of p v)) s) vs, p)"
  using assms
proof (induction vs arbitrary: res)
  case (Cons v vs)
  then obtain k where "map_of p v = Some k" by auto
  with Cons show ?case
    by (simp add: SmallImmutableSet_has_def getKey_present)
qed simp

lemma reverseLookupSet_eq:
  assumes "dense_inv p"
  shows "DenseKeyProvider_reverseLookupSet p s =
    (map fst (filter (\<lambda>(v, k). has_key k s) p), p)"
proof -
  have "map_of p v = Some k" if "(v, k) \<in> set p" for v k
    using that assms by (simp add: dense_inv_def)
  then have "reverseLookupSet_loop s (map fst p) p [] =
      (filter (\<lambda>v. has_key (the (map_of p v)) s) (map fst p), p)"
    by (subst reverseLookupSet_loop_eq) force+
  moreover have "filter (\<lambda>v. has_key (the (map_of p v)) s) (map fst p) =
      map fst (filter (\<lambda>(v, k). has_key k s) p)"
    unfolding filter_map comp_def
    using \<open>\<And>v k. (v, k) \<in> set p \<Longrightarrow> map_of p v = Some k\<close>
    by (intro arg_cong [where f = "map fst"] filter_cong) force+
  ultimately show ?thesis
    by (simp add: DenseKeyProvider_reverseLookupSet_def)
qed

subsection \<open>Properties\<close>

text \<open>C35: The sets compute what sets of keys should: after any sequence of insertions into two empty
  sets, a key is in the merged set if and only if it was inserted into one of them, and
  \<open>intersects\<close> answers whether a key was inserted into both.\<close>

theorem small_set_implements_sets:
  "(\<forall>k. has_key k (SmallImmutableSet_merge
        (foldl (\<lambda>s k. add_key k s) SmallImmutableSet_getEmpty ks)
        (foldl (\<lambda>s k. add_key k s) SmallImmutableSet_getEmpty js)) \<longleftrightarrow> k \<in> set ks \<union> set js) \<and>
   (SmallImmutableSet_intersects
        (foldl (\<lambda>s k. add_key k s) SmallImmutableSet_getEmpty ks)
        (foldl (\<lambda>s k. add_key k s) SmallImmutableSet_getEmpty js) \<longleftrightarrow> set ks \<inter> set js \<noteq> {})"
  by (auto simp: has_key_merge ids.member_fold_insert ids.meets_iff)

text \<open>\<open>equals\<close> is extensional although it compares the words and the lengths of the arrays:
  two sets built by insertions are equal exactly when the same keys were inserted, in whatever
  order and however often.\<close>

lemma small_set_equals_extensional:
  "SmallImmutableSet_equals
     (foldl (\<lambda>s k. add_key k s) SmallImmutableSet_getEmpty ks)
     (foldl (\<lambda>s k. add_key k s) SmallImmutableSet_getEmpty js) \<longleftrightarrow> set ks = set js"
proof
  let ?s = "foldl (\<lambda>s k. add_key k s) SmallImmutableSet_getEmpty ks"
    and ?t = "foldl (\<lambda>s k. add_key k s) SmallImmutableSet_getEmpty js"
  have mem: "has_key k ?s \<longleftrightarrow> k \<in> set ks" "has_key k ?t \<longleftrightarrow> k \<in> set js" for k
    by (simp_all add: ids.member_fold_insert)
  show "set ks = set js" if "SmallImmutableSet_equals ?s ?t"
    using that mem by (auto simp: equals_eq)
  show "SmallImmutableSet_equals ?s ?t" if "set ks = set js"
    unfolding equals_eq using that mem
    by (intro canonical_set_ext) (auto simp: ids.ok_fold_insert)
qed

end
