(* ===== verification/BracketAst.thy ===== *)
theory BracketAst
  imports BracketLength SmallImmutableSet
begin

section \<open>The nodes of the bracket tree: \<open>.../bracketPairsTree/ast.ts\<close>\<close>

text \<open>
  A node is a text, a bracket, a bracket pair, an unexpected closing bracket or a list. The classes
  of lists are the \<open>TwoThree\<close> lists with two or three children and the \<open>Array\<close> lists; each of them
  has an immutable subclass, which is a flag here. An operation that mutates its receiver returns
  the node as it is afterwards. \<open>computeMinIndentation\<close>, which asks the text model, and its cache are
  left out.
\<close>

text \<open>\<open>BracketKind\<close> of \<open>languageBracketsConfiguration.ts\<close>: what the nodes read of it.\<close>

record bracket_kind =
  bk_languageId :: js_string
  bracketText :: js_string
  isOpeningBracket :: bool

record bracket_node =
  bn_length :: bracket_length
  bracketInfo :: bracket_kind
  bn_bracketIds :: small_set

datatype ast =
    TextAstNode bracket_length
  | BracketAstNode bracket_node
  | PairAstNode bracket_length bracket_node "ast option" "bracket_node option" small_set
  | InvalidBracketAstNode bracket_length small_set
  | TwoThreeListAstNode bool bracket_length nat ast ast "ast option" small_set
  | ArrayListAstNode bool bracket_length nat "ast list" small_set

datatype ast_node_kind = Text_kind | Bracket_kind | Pair_kind | UnexpectedClosingBracket_kind | List_kind

fun ast_kind :: "ast \<Rightarrow> ast_node_kind" where
  "ast_kind (TextAstNode _) = Text_kind"
| "ast_kind (BracketAstNode _) = Bracket_kind"
| "ast_kind (PairAstNode _ _ _ _ _) = Pair_kind"
| "ast_kind (InvalidBracketAstNode _ _) = UnexpectedClosingBracket_kind"
| "ast_kind (TwoThreeListAstNode _ _ _ _ _ _ _) = List_kind"
| "ast_kind (ArrayListAstNode _ _ _ _ _) = List_kind"

fun ast_length :: "ast \<Rightarrow> bracket_length" where
  "ast_length (TextAstNode l) = l"
| "ast_length (BracketAstNode b) = bn_length b"
| "ast_length (PairAstNode l _ _ _ _) = l"
| "ast_length (InvalidBracketAstNode l _) = l"
| "ast_length (TwoThreeListAstNode _ l _ _ _ _ _) = l"
| "ast_length (ArrayListAstNode _ l _ _ _) = l"

fun missingOpeningBracketIds :: "ast \<Rightarrow> small_set" where
  "missingOpeningBracketIds (TextAstNode _) = SmallImmutableSet_getEmpty"
| "missingOpeningBracketIds (BracketAstNode _) = SmallImmutableSet_getEmpty"
| "missingOpeningBracketIds (PairAstNode _ _ _ _ ids) = ids"
| "missingOpeningBracketIds (InvalidBracketAstNode _ ids) = ids"
| "missingOpeningBracketIds (TwoThreeListAstNode _ _ _ _ _ _ ids) = ids"
| "missingOpeningBracketIds (ArrayListAstNode _ _ _ _ ids) = ids"

fun listHeight :: "ast \<Rightarrow> nat" where
  "listHeight (TwoThreeListAstNode _ _ h _ _ _ _) = h"
| "listHeight (ArrayListAstNode _ _ h _ _) = h"
| "listHeight _ = 0"

text \<open>\<open>children\<close> and \<open>childrenLength\<close>; a pair counts three children, of which two may be null.\<close>

fun ast_children :: "ast \<Rightarrow> ast list" where
  "ast_children (PairAstNode _ b child cb _) =
     BracketAstNode b # (case child of None \<Rightarrow> [] | Some c \<Rightarrow> [c]) @
       (case cb of None \<Rightarrow> [] | Some c \<Rightarrow> [BracketAstNode c])"
| "ast_children (TwoThreeListAstNode _ _ _ i1 i2 i3 _) =
     (case i3 of None \<Rightarrow> [i1, i2] | Some c \<Rightarrow> [i1, i2, c])"
| "ast_children (ArrayListAstNode _ _ _ cs _) = cs"
| "ast_children _ = []"

fun childrenLength :: "ast \<Rightarrow> int" where
  "childrenLength (PairAstNode _ _ _ _ _) = 3"
| "childrenLength (TwoThreeListAstNode _ _ _ _ _ i3 _) = (if i3 \<noteq> None then 3 else 2)"
| "childrenLength (ArrayListAstNode _ _ _ cs _) = int (length cs)"
| "childrenLength _ = 0"

text \<open>\<open>getChild\<close>: null and undefined are \<open>None\<close>.\<close>

fun getChild :: "ast \<Rightarrow> int \<Rightarrow> ast option result" where
  "getChild (PairAstNode _ b child cb _) idx =
     (if idx = 0 then Inr (Some (BracketAstNode b))
      else if idx = 1 then Inr child
      else if idx = 2 then Inr (map_option BracketAstNode cb)
      else Inl PlainError)"
| "getChild (TwoThreeListAstNode _ _ _ i1 i2 i3 _) idx =
     (if idx = 0 then Inr (Some i1)
      else if idx = 1 then Inr (Some i2)
      else if idx = 2 then Inr i3
      else Inl PlainError)"
| "getChild (ArrayListAstNode _ _ _ cs _) idx = Inr (js_at cs idx)"
| "getChild _ idx = Inr None"

fun setChild :: "ast \<Rightarrow> int \<Rightarrow> ast \<Rightarrow> ast result" where
  "setChild (TwoThreeListAstNode im l h i1 i2 i3 ids) idx c =
     (if idx = 0 then Inr (TwoThreeListAstNode im l h c i2 i3 ids)
      else if idx = 1 then Inr (TwoThreeListAstNode im l h i1 c i3 ids)
      else if idx = 2 then Inr (TwoThreeListAstNode im l h i1 i2 (Some c) ids)
      else Inl PlainError)"
| "setChild (ArrayListAstNode im l h cs ids) idx c =
     Inr (ArrayListAstNode im l h (cs[nat idx := c]) ids)"
| "setChild n _ _ = Inl TypeError"

subsection \<open>Construction\<close>

definition PairAstNode_create :: "bracket_node \<Rightarrow> ast option \<Rightarrow> bracket_node option \<Rightarrow> ast" where
  "PairAstNode_create openingBracket child closingBracket =
     (let l = bn_length openingBracket;
          l = (case child of None \<Rightarrow> l | Some c \<Rightarrow> lengthAdd l (ast_length c));
          l = (case closingBracket of None \<Rightarrow> l | Some c \<Rightarrow> lengthAdd l (bn_length c))
      in PairAstNode l openingBracket child closingBracket
           (case child of None \<Rightarrow> SmallImmutableSet_getEmpty | Some c \<Rightarrow> missingOpeningBracketIds c))"

definition ListAstNode_create23 :: "ast \<Rightarrow> ast \<Rightarrow> ast option \<Rightarrow> bool \<Rightarrow> ast result" where
  "ListAstNode_create23 item1 item2 item3 im =
     (if listHeight item1 \<noteq> listHeight item2 then Inl PlainError
      else let l = lengthAdd (ast_length item1) (ast_length item2);
               ids = SmallImmutableSet_merge (missingOpeningBracketIds item1) (missingOpeningBracketIds item2)
           in case item3 of
                None \<Rightarrow> Inr (TwoThreeListAstNode im l (listHeight item1 + 1) item1 item2 None ids)
              | Some i3 \<Rightarrow>
                  if listHeight item1 \<noteq> listHeight i3 then Inl PlainError
                  else Inr (TwoThreeListAstNode im (lengthAdd l (ast_length i3)) (listHeight item1 + 1)
                         item1 item2 item3 (SmallImmutableSet_merge ids (missingOpeningBracketIds i3))))"

definition ListAstNode_getEmpty :: ast where
  "ListAstNode_getEmpty = ArrayListAstNode True lengthZero 0 [] SmallImmutableSet_getEmpty"

text \<open>The loop over the items behind the first one, shared with \<open>handleChildrenChanged\<close>.\<close>

fun sum_children :: "bracket_length \<Rightarrow> small_set \<Rightarrow> ast list \<Rightarrow> bracket_length \<times> small_set" where
  "sum_children l ids [] = (l, ids)"
| "sum_children l ids (c # cs) =
     sum_children (lengthAdd l (ast_length c)) (SmallImmutableSet_merge ids (missingOpeningBracketIds c)) cs"

definition ListAstNode_create :: "ast list \<Rightarrow> bool \<Rightarrow> ast" where
  "ListAstNode_create items im =
     (case items of
        [] \<Rightarrow> ListAstNode_getEmpty
      | c # cs \<Rightarrow>
          let (l, ids) = sum_children (ast_length c) (missingOpeningBracketIds c) cs
          in ArrayListAstNode im l (listHeight c + 1) items ids)"

subsection \<open>Mutation of lists\<close>

fun throwIfImmutable :: "ast \<Rightarrow> unit result" where
  "throwIfImmutable (TwoThreeListAstNode im _ _ _ _ _ _) = (if im then Inl PlainError else Inr ())"
| "throwIfImmutable (ArrayListAstNode im _ _ _ _) = (if im then Inl PlainError else Inr ())"
| "throwIfImmutable _ = Inl TypeError"

fun toMutable :: "ast \<Rightarrow> ast" where
  "toMutable (TwoThreeListAstNode im l h i1 i2 i3 ids) = TwoThreeListAstNode False l h i1 i2 i3 ids"
| "toMutable (ArrayListAstNode im l h cs ids) = ArrayListAstNode False l h cs ids"
| "toMutable n = n"

fun set_cached :: "ast \<Rightarrow> bracket_length \<Rightarrow> small_set \<Rightarrow> ast" where
  "set_cached (TwoThreeListAstNode im _ h i1 i2 i3 _) l ids = TwoThreeListAstNode im l h i1 i2 i3 ids"
| "set_cached (ArrayListAstNode im _ h cs _) l ids = ArrayListAstNode im l h cs ids"
| "set_cached n l ids = n"

definition handleChildrenChanged :: "ast \<Rightarrow> ast result" where
  "handleChildrenChanged this =
     bind_result (throwIfImmutable this) (\<lambda>_.
       case ast_children this of
         [] \<Rightarrow> Inl TypeError
       | c # cs \<Rightarrow>
           let (l, ids) = sum_children (ast_length c) (missingOpeningBracketIds c) cs
           in Inr (set_cached this l ids))"

definition makeElementMutable :: "ast \<Rightarrow> int \<Rightarrow> (ast \<times> ast option) result" where
  "makeElementMutable this idx =
     bind_result (throwIfImmutable this) (\<lambda>_.
       if childrenLength this = 0 then Inr (this, None)
       else bind_result (getChild this idx) (\<lambda>child.
         case child of
           None \<Rightarrow> Inl TypeError
         | Some c \<Rightarrow>
             let mutable = (if ast_kind c = List_kind then toMutable c else c)
             in bind_result (if c \<noteq> mutable then setChild this idx mutable else Inr this) (\<lambda>this'.
                  Inr (this', Some mutable))))"

definition makeLastElementMutable :: "ast \<Rightarrow> (ast \<times> ast option) result" where
  "makeLastElementMutable this = makeElementMutable this (childrenLength this - 1)"

definition makeFirstElementMutable :: "ast \<Rightarrow> (ast \<times> ast option) result" where
  "makeFirstElementMutable this = makeElementMutable this 0"

fun appendChildOfSameHeight :: "ast \<Rightarrow> ast \<Rightarrow> ast result" where
  "appendChildOfSameHeight (TwoThreeListAstNode im l h i1 i2 i3 ids) n =
     (if i3 \<noteq> None then Inl PlainError
      else bind_result (throwIfImmutable (TwoThreeListAstNode im l h i1 i2 i3 ids)) (\<lambda>_.
        handleChildrenChanged (TwoThreeListAstNode im l h i1 i2 (Some n) ids)))"
| "appendChildOfSameHeight (ArrayListAstNode im l h cs ids) n =
     bind_result (throwIfImmutable (ArrayListAstNode im l h cs ids)) (\<lambda>_.
       handleChildrenChanged (ArrayListAstNode im l h (cs @ [n]) ids))"
| "appendChildOfSameHeight _ n = Inl TypeError"

fun unappendChild :: "ast \<Rightarrow> (ast \<times> ast option) result" where
  "unappendChild (TwoThreeListAstNode im l h i1 i2 i3 ids) =
     (if i3 = None then Inl PlainError
      else bind_result (throwIfImmutable (TwoThreeListAstNode im l h i1 i2 i3 ids)) (\<lambda>_.
        bind_result (handleChildrenChanged (TwoThreeListAstNode im l h i1 i2 None ids)) (\<lambda>this'.
          Inr (this', i3))))"
| "unappendChild (ArrayListAstNode im l h cs ids) =
     bind_result (throwIfImmutable (ArrayListAstNode im l h cs ids)) (\<lambda>_.
       bind_result (handleChildrenChanged (ArrayListAstNode im l h (butlast cs) ids)) (\<lambda>this'.
         Inr (this', if cs = [] then None else Some (last cs))))"
| "unappendChild _ = Inl TypeError"

fun prependChildOfSameHeight :: "ast \<Rightarrow> ast \<Rightarrow> ast result" where
  "prependChildOfSameHeight (TwoThreeListAstNode im l h i1 i2 i3 ids) n =
     (if i3 \<noteq> None then Inl PlainError
      else bind_result (throwIfImmutable (TwoThreeListAstNode im l h i1 i2 i3 ids)) (\<lambda>_.
        handleChildrenChanged (TwoThreeListAstNode im l h n i1 (Some i2) ids)))"
| "prependChildOfSameHeight (ArrayListAstNode im l h cs ids) n =
     bind_result (throwIfImmutable (ArrayListAstNode im l h cs ids)) (\<lambda>_.
       handleChildrenChanged (ArrayListAstNode im l h (n # cs) ids))"
| "prependChildOfSameHeight _ n = Inl TypeError"

fun unprependChild :: "ast \<Rightarrow> (ast \<times> ast option) result" where
  "unprependChild (TwoThreeListAstNode im l h i1 i2 i3 ids) =
     (case i3 of
        None \<Rightarrow> Inl PlainError
      | Some c \<Rightarrow> bind_result (throwIfImmutable (TwoThreeListAstNode im l h i1 i2 i3 ids)) (\<lambda>_.
          bind_result (handleChildrenChanged (TwoThreeListAstNode im l h i2 c None ids)) (\<lambda>this'.
            Inr (this', Some i1))))"
| "unprependChild (ArrayListAstNode im l h cs ids) =
     bind_result (throwIfImmutable (ArrayListAstNode im l h cs ids)) (\<lambda>_.
       bind_result (handleChildrenChanged (ArrayListAstNode im l h (tl cs) ids)) (\<lambda>this'.
         Inr (this', if cs = [] then None else Some (hd cs))))"
| "unprependChild _ = Inl TypeError"

subsection \<open>Reuse, flattening and cloning\<close>

fun leaf_canBeReused :: "ast \<Rightarrow> small_set \<Rightarrow> bool" where
  "leaf_canBeReused (TextAstNode _) openBracketIds = True"
| "leaf_canBeReused (PairAstNode _ _ _ closingBracket ids) openBracketIds =
     (if closingBracket = None then False
      else if SmallImmutableSet_intersects openBracketIds ids then False
      else True)"
| "leaf_canBeReused (InvalidBracketAstNode _ ids) openBracketIds =
     (\<not> SmallImmutableSet_intersects openBracketIds ids)"
| "leaf_canBeReused _ openBracketIds = False"

lemma size_last_less [termination_simp]: "cs \<noteq> [] \<Longrightarrow> size (last cs) < Suc (size_list size cs)"
  by (rule le_imp_less_Suc, rule size_list_estimation') auto

text \<open>The loop of \<open>ListAstNode.canBeReused\<close> down the last children.\<close>

fun canBeReused_loop :: "ast \<Rightarrow> small_set \<Rightarrow> bool result" where
  "canBeReused_loop (TwoThreeListAstNode _ _ _ _ i2 i3 _) openBracketIds =
     (case i3 of
        None \<Rightarrow> canBeReused_loop i2 openBracketIds
      | Some c \<Rightarrow> canBeReused_loop c openBracketIds)"
| "canBeReused_loop (ArrayListAstNode _ _ _ cs _) openBracketIds =
     (if cs = [] then Inl BugIndicatingError else canBeReused_loop (last cs) openBracketIds)"
| "canBeReused_loop n openBracketIds = Inr (leaf_canBeReused n openBracketIds)"

definition canBeReused :: "ast \<Rightarrow> small_set \<Rightarrow> bool result" where
  "canBeReused this openBracketIds =
     (if ast_kind this = List_kind
      then (if SmallImmutableSet_intersects openBracketIds (missingOpeningBracketIds this) then Inr False
            else if childrenLength this = 0 then Inr False
            else canBeReused_loop this openBracketIds)
      else Inr (leaf_canBeReused this openBracketIds))"

text \<open>One step of the loop in \<open>flattenLists\<close>: a flattened list gives its children.\<close>

definition flatten_item :: "ast \<Rightarrow> ast list" where
  "flatten_item n = (if ast_kind n = List_kind then ast_children n else [n])"

fun flattenLists :: "ast \<Rightarrow> ast" where
  "flattenLists (PairAstNode _ b child cb _) = PairAstNode_create b (map_option flattenLists child) cb"
| "flattenLists (TwoThreeListAstNode _ _ _ i1 i2 i3 _) =
     ListAstNode_create
       (flatten_item (flattenLists i1) @ flatten_item (flattenLists i2) @
        (case i3 of None \<Rightarrow> [] | Some c \<Rightarrow> flatten_item (flattenLists c))) False"
| "flattenLists (ArrayListAstNode _ _ _ cs _) =
     ListAstNode_create (concat (map (\<lambda>c. flatten_item (flattenLists c)) cs)) False"
| "flattenLists n = n"

fun deepClone :: "ast \<Rightarrow> ast" where
  "deepClone (PairAstNode l b child cb ids) = PairAstNode l b (map_option deepClone child) cb ids"
| "deepClone (TwoThreeListAstNode _ l h i1 i2 i3 ids) =
     TwoThreeListAstNode False l h (deepClone i1) (deepClone i2) (map_option deepClone i3) ids"
| "deepClone (ArrayListAstNode _ l h cs ids) = ArrayListAstNode False l h (map deepClone cs) ids"
| "deepClone n = n"

subsection \<open>Well-formed nodes\<close>

text \<open>
  The length and the bracket ids that a node caches are those of its children. Brackets and
  unexpected brackets carry a proper set of ids.
\<close>

fun bracket_ok :: "bracket_node \<Rightarrow> bool" where
  "bracket_ok b \<longleftrightarrow> 0 \<le> bn_length b \<and> canonical_set (bn_bracketIds b)"

definition cached_ok :: "ast \<Rightarrow> bool" where
  "cached_ok n \<longleftrightarrow>
     ast_length n = foldl lengthAdd 0 (map ast_length (ast_children n)) \<and>
     missingOpeningBracketIds n =
       foldl SmallImmutableSet_merge SmallImmutableSet_getEmpty
         (map missingOpeningBracketIds (ast_children n))"

text \<open>
  A well-formed node: every list in it is a node of a (2,3) tree, with two or three children that are
  one level lower, and what it caches is right.
\<close>

fun ast_ok :: "ast \<Rightarrow> bool" where
  "ast_ok (TextAstNode l) \<longleftrightarrow> 0 \<le> l"
| "ast_ok (BracketAstNode b) \<longleftrightarrow> bracket_ok b"
| "ast_ok (InvalidBracketAstNode l ids) \<longleftrightarrow> 0 \<le> l \<and> canonical_set ids"
| "ast_ok (PairAstNode l b child cb ids) \<longleftrightarrow>
     bracket_ok b \<and> (case child of None \<Rightarrow> True | Some c \<Rightarrow> ast_ok c) \<and>
     (case cb of None \<Rightarrow> True | Some b' \<Rightarrow> bracket_ok b') \<and>
     cached_ok (PairAstNode l b child cb ids)"
| "ast_ok (TwoThreeListAstNode im l h i1 i2 i3 ids) \<longleftrightarrow>
     ast_ok i1 \<and> ast_ok i2 \<and> (case i3 of None \<Rightarrow> True | Some c \<Rightarrow> ast_ok c) \<and>
     h = listHeight i1 + 1 \<and> h = listHeight i2 + 1 \<and>
     (case i3 of None \<Rightarrow> True | Some c \<Rightarrow> h = listHeight c + 1) \<and>
     cached_ok (TwoThreeListAstNode im l h i1 i2 i3 ids)"
| "ast_ok (ArrayListAstNode im l h cs ids) \<longleftrightarrow>
     2 \<le> length cs \<and> length cs \<le> 3 \<and> (\<forall>c \<in> set cs. ast_ok c \<and> h = listHeight c + 1) \<and>
     cached_ok (ArrayListAstNode im l h cs ids)"

text \<open>The items of a list tree: its leaves from left to right. A pair is one item.\<close>

fun ast_items :: "ast \<Rightarrow> ast list" where
  "ast_items (TwoThreeListAstNode _ _ _ i1 i2 i3 _) =
     ast_items i1 @ ast_items i2 @ (case i3 of None \<Rightarrow> [] | Some c \<Rightarrow> ast_items c)"
| "ast_items (ArrayListAstNode _ _ _ cs _) = concat (map ast_items cs)"
| "ast_items n = [n]"

abbreviation is_list_node :: "ast \<Rightarrow> bool" where
  "is_list_node n \<equiv> ast_kind n = List_kind"

abbreviation children_ok :: "nat \<Rightarrow> ast list \<Rightarrow> bool" where
  "children_ok h cs \<equiv> (\<forall>c \<in> set cs. ast_ok c \<and> h = listHeight c + 1)"

lemma list_ast_ok_iff:
  assumes "is_list_node n"
  shows "ast_ok n \<longleftrightarrow> 2 \<le> length (ast_children n) \<and> length (ast_children n) \<le> 3 \<and>
    children_ok (listHeight n) (ast_children n) \<and> cached_ok n"
  using assms by (cases n) (auto split: option.splits)

lemma list_ast_items: "is_list_node n \<Longrightarrow> ast_items n = concat (map ast_items (ast_children n))"
  by (cases n) (auto split: option.splits)

lemma leaf_ast_items: "\<not> is_list_node n \<Longrightarrow> ast_items n = [n]"
  by (cases n) auto

lemma leaf_listHeight: "\<not> is_list_node n \<Longrightarrow> listHeight n = 0"
  by (cases n) auto

lemma list_childrenLength: "is_list_node n \<Longrightarrow> childrenLength n = int (length (ast_children n))"
  by (cases n) (auto split: option.splits)

lemma ast_ok_list_height:
  assumes "ast_ok n"
  shows "is_list_node n \<longleftrightarrow> 0 < listHeight n"
proof (cases n)
  case (ArrayListAstNode im l h cs ids)
  with assms obtain c where "c \<in> set cs" "h = listHeight c + 1" by (cases cs) auto
  with ArrayListAstNode show ?thesis by simp
qed (use assms in auto)

lemma foldl_first:
  assumes "cs \<noteq> []" and "\<And>x. f z x = x"
  shows "foldl f z cs = foldl f (hd cs) (tl cs)"
  using assms by (cases cs) simp_all

lemma sum_children_eq:
  "sum_children l ids cs =
     (foldl lengthAdd l (map ast_length cs),
      foldl SmallImmutableSet_merge ids (map missingOpeningBracketIds cs))"
  by (induction cs arbitrary: l ids) simp_all

lemma size_child: "c \<in> set (ast_children n) \<Longrightarrow> size c < size n"
  by (cases n) (auto split: option.splits simp: less_Suc_eq_le size_list_estimation')

lemma ast_children_induct [case_names node]:
  assumes "\<And>n. (\<And>c. c \<in> set (ast_children n) \<Longrightarrow> P c) \<Longrightarrow> P n"
  shows "P n"
  by (induction n rule: measure_induct_rule [of size]) (blast intro: assms size_child)

lemma ast_ok_child: "ast_ok n \<Longrightarrow> c \<in> set (ast_children n) \<Longrightarrow> ast_ok c"
  by (cases n) (auto split: option.splits)

lemma ast_ok_cached: "ast_ok n \<Longrightarrow> ast_children n \<noteq> [] \<Longrightarrow> cached_ok n"
  by (cases n) auto

lemma foldl_lengthAdd_nonneg: "0 \<le> a \<Longrightarrow> \<forall>l \<in> set ls. 0 \<le> l \<Longrightarrow> 0 \<le> foldl lengthAdd a ls"
  by (induction ls arbitrary: a) auto

lemma ast_ok_length_nonneg: "ast_ok n \<Longrightarrow> 0 \<le> ast_length n"
proof (induction n rule: ast_children_induct)
  case (node n)
  show ?case
  proof (cases "ast_children n = []")
    case True
    with node.prems show ?thesis by (cases n) (auto split: option.splits)
  next
    case False
    with node ast_ok_cached [of n] show ?thesis
      by (auto simp: cached_ok_def ast_ok_child intro!: foldl_lengthAdd_nonneg)
  qed
qed

lemma ast_ok_canonical: "ast_ok n \<Longrightarrow> canonical_set (missingOpeningBracketIds n)"
proof (induction n rule: ast_children_induct)
  case (node n)
  show ?case
  proof (cases "ast_children n = []")
    case True
    with node.prems show ?thesis by (cases n) (auto split: option.splits)
  next
    case False
    with node ast_ok_cached [of n] show ?thesis
      by (auto simp: cached_ok_def ast_ok_child intro!: ids.ok_fold_merge)
  qed
qed

text \<open>What \<open>create23\<close>, \<open>create\<close> and \<open>handleChildrenChanged\<close> compute from the first child on.\<close>

lemma cached_from_first:
  assumes "cs \<noteq> []" and "ast_ok (hd cs)"
  shows "foldl lengthAdd 0 (map ast_length cs) =
      foldl lengthAdd (ast_length (hd cs)) (map ast_length (tl cs))"
    "foldl SmallImmutableSet_merge SmallImmutableSet_getEmpty (map missingOpeningBracketIds cs) =
      foldl SmallImmutableSet_merge (missingOpeningBracketIds (hd cs))
        (map missingOpeningBracketIds (tl cs))"
  using assms ast_ok_canonical by (cases cs; simp add: ids.empty_merge)+

lemma handleChildrenChanged_ok:
  assumes "is_list_node n" and "throwIfImmutable n = Inr ()"
    and "2 \<le> length (ast_children n)" "length (ast_children n) \<le> 3"
    and "children_ok (listHeight n) (ast_children n)"
  obtains n' where "handleChildrenChanged n = Inr n'" "is_list_node n'" "throwIfImmutable n' = Inr ()"
    "ast_children n' = ast_children n" "listHeight n' = listHeight n" "ast_ok n'"
proof -
  obtain c cs where cs: "ast_children n = c # cs"
    using assms(3) by (cases "ast_children n") auto
  define n' where "n' = set_cached n (fst (sum_children (ast_length c) (missingOpeningBracketIds c) cs))
    (snd (sum_children (ast_length c) (missingOpeningBracketIds c) cs))"
  have same: "is_list_node n'" "throwIfImmutable n' = Inr ()" "ast_children n' = ast_children n"
    "listHeight n' = listHeight n"
    using assms(1,2) by (cases n; simp add: n'_def)+
  have "handleChildrenChanged n = Inr n'"
    using assms(2) cs by (simp add: handleChildrenChanged_def n'_def case_prod_beta)
  moreover have "cached_ok n'"
    using assms(1,5) cached_from_first [of "ast_children n"] cs
    by (cases n) (simp_all add: cached_ok_def same(3), simp_all add: n'_def sum_children_eq)
  then have "ast_ok n'"
    using assms same by (simp add: list_ast_ok_iff)
  ultimately show thesis
    using that same by blast
qed

text \<open>A list that may be mutated, whose children are in order but whose cached values may be stale.\<close>

definition mutable_list :: "nat \<Rightarrow> ast list \<Rightarrow> ast \<Rightarrow> bool" where
  "mutable_list h cs n \<longleftrightarrow>
     is_list_node n \<and> throwIfImmutable n = Inr () \<and> ast_children n = cs \<and> listHeight n = h \<and>
     2 \<le> length cs \<and> length cs \<le> 3"

lemma mutable_listD:
  assumes "mutable_list h cs n"
  shows "is_list_node n" "throwIfImmutable n = Inr ()" "ast_children n = cs" "listHeight n = h"
    "2 \<le> length cs" "length cs \<le> 3"
  using assms by (auto simp: mutable_list_def)

text \<open>An updated list: mutable, well-formed, with the given children.\<close>

definition updated_list :: "nat \<Rightarrow> ast list \<Rightarrow> ast \<Rightarrow> bool" where
  "updated_list h cs n \<longleftrightarrow> mutable_list h cs n \<and> ast_ok n"

lemma handleChildrenChanged_updates:
  assumes "mutable_list h cs n" and "children_ok h cs"
  shows "\<exists>n'. handleChildrenChanged n = Inr n' \<and> updated_list h cs n'"
proof -
  note m = mutable_listD [OF assms(1)]
  obtain n' where "handleChildrenChanged n = Inr n'" "is_list_node n'" "throwIfImmutable n' = Inr ()"
    "ast_children n' = cs" "listHeight n' = h" "ast_ok n'"
    by (rule handleChildrenChanged_ok [of n]) (use m assms(2) in simp_all)
  then show ?thesis
    using m by (auto simp: updated_list_def mutable_list_def)
qed

lemma appendChild_updates:
  assumes "mutable_list h cs n" and "length cs = 2" and "children_ok h (cs @ [m])"
  shows "\<exists>n'. appendChildOfSameHeight n m = Inr n' \<and> updated_list h (cs @ [m]) n'"
proof (cases n)
  case (TwoThreeListAstNode im l h' i1 i2 i3 ids)
  with assms(1,2) have *: "\<not> im" "i3 = None" "cs = [i1, i2]"
    by (auto simp: mutable_list_def split: option.splits if_splits)
  with assms(1,2) TwoThreeListAstNode have "mutable_list h (cs @ [m]) (TwoThreeListAstNode im l h' i1 i2 (Some m) ids)"
    by (auto simp: mutable_list_def)
  from handleChildrenChanged_updates [OF this assms(3)] show ?thesis
    by (auto simp: TwoThreeListAstNode *)
next
  case (ArrayListAstNode im l h' cs' ids)
  with assms(1) have *: "\<not> im" "cs' = cs"
    by (auto simp: mutable_list_def split: if_splits)
  with assms(1,2) ArrayListAstNode have "mutable_list h (cs @ [m]) (ArrayListAstNode im l h' (cs @ [m]) ids)"
    by (auto simp: mutable_list_def)
  from handleChildrenChanged_updates [OF this assms(3)] show ?thesis
    by (auto simp: ArrayListAstNode *)
qed (use assms in \<open>auto simp: mutable_list_def\<close>)

lemma prependChild_updates:
  assumes "mutable_list h cs n" and "length cs = 2" and "children_ok h (m # cs)"
  shows "\<exists>n'. prependChildOfSameHeight n m = Inr n' \<and> updated_list h (m # cs) n'"
proof (cases n)
  case (TwoThreeListAstNode im l h' i1 i2 i3 ids)
  with assms(1,2) have *: "\<not> im" "i3 = None" "cs = [i1, i2]"
    by (auto simp: mutable_list_def split: option.splits if_splits)
  with assms(1,2) TwoThreeListAstNode have "mutable_list h (m # cs) (TwoThreeListAstNode im l h' m i1 (Some i2) ids)"
    by (auto simp: mutable_list_def)
  from handleChildrenChanged_updates [OF this assms(3)] show ?thesis
    by (auto simp: TwoThreeListAstNode *)
next
  case (ArrayListAstNode im l h' cs' ids)
  with assms(1) have *: "\<not> im" "cs' = cs"
    by (auto simp: mutable_list_def split: if_splits)
  with assms(1,2) ArrayListAstNode have "mutable_list h (m # cs) (ArrayListAstNode im l h' (m # cs) ids)"
    by (auto simp: mutable_list_def)
  from handleChildrenChanged_updates [OF this assms(3)] show ?thesis
    by (auto simp: ArrayListAstNode *)
qed (use assms in \<open>auto simp: mutable_list_def\<close>)

lemma unappendChild_updates:
  assumes "mutable_list h (cs @ [c]) n" and "length cs = 2" and "children_ok h cs"
  shows "\<exists>n'. unappendChild n = Inr (n', Some c) \<and> updated_list h cs n'"
proof (cases n)
  case (TwoThreeListAstNode im l h' i1 i2 i3 ids)
  with assms(1,2) have *: "\<not> im" "i3 = Some c" "cs = [i1, i2]"
    by (auto simp: mutable_list_def split: option.splits if_splits)
  with assms(1,2) TwoThreeListAstNode have "mutable_list h cs (TwoThreeListAstNode im l h' i1 i2 None ids)"
    by (auto simp: mutable_list_def)
  from handleChildrenChanged_updates [OF this assms(3)] show ?thesis
    by (auto simp: TwoThreeListAstNode *)
next
  case (ArrayListAstNode im l h' cs' ids)
  with assms(1) have *: "\<not> im" "cs' = (cs @ [c])"
    by (auto simp: mutable_list_def split: if_splits)
  with assms(1,2) ArrayListAstNode have "mutable_list h cs (ArrayListAstNode im l h' cs ids)"
    by (auto simp: mutable_list_def)
  from handleChildrenChanged_updates [OF this assms(3)] show ?thesis
    by (auto simp: ArrayListAstNode *)
qed (use assms in \<open>auto simp: mutable_list_def\<close>)

lemma unprependChild_updates:
  assumes "mutable_list h (c # cs) n" and "length cs = 2" and "children_ok h cs"
  shows "\<exists>n'. unprependChild n = Inr (n', Some c) \<and> updated_list h cs n'"
proof (cases n)
  case (TwoThreeListAstNode im l h' i1 i2 i3 ids)
  with assms(1,2) obtain c3 where *: "\<not> im" "i3 = Some c3" "i1 = c" "cs = [i2, c3]"
    by (auto simp: mutable_list_def split: option.splits if_splits)
  with assms(1,2) TwoThreeListAstNode have "mutable_list h cs (TwoThreeListAstNode im l h' i2 c3 None ids)"
    by (auto simp: mutable_list_def)
  from handleChildrenChanged_updates [OF this assms(3)] show ?thesis
    by (auto simp: TwoThreeListAstNode *)
next
  case (ArrayListAstNode im l h' cs' ids)
  with assms(1) have *: "\<not> im" "cs' = (c # cs)"
    by (auto simp: mutable_list_def split: if_splits)
  with assms(1,2) ArrayListAstNode have "mutable_list h cs (ArrayListAstNode im l h' cs ids)"
    by (auto simp: mutable_list_def)
  from handleChildrenChanged_updates [OF this assms(3)] show ?thesis
    by (auto simp: ArrayListAstNode *)
qed (use assms in \<open>auto simp: mutable_list_def\<close>)

lemma create23_ok:
  assumes "children_ok h (item1 # item2 # (case item3 of None \<Rightarrow> [] | Some c \<Rightarrow> [c]))"
  obtains n where "ListAstNode_create23 item1 item2 item3 im = Inr n" "is_list_node n" "ast_ok n"
    "listHeight n = h"
    "ast_children n = item1 # item2 # (case item3 of None \<Rightarrow> [] | Some c \<Rightarrow> [c])"
proof -
  have can: "canonical_set (missingOpeningBracketIds item1)"
    using assms by (simp add: ast_ok_canonical)
  show thesis
  proof (cases item3)
    case None
    with assms can show thesis
      by (intro that) (auto simp: ListAstNode_create23_def cached_ok_def ids.empty_merge)
  next
    case (Some c)
    with assms can show thesis
      by (intro that) (auto simp: ListAstNode_create23_def cached_ok_def ids.empty_merge)
  qed
qed

lemma toMutable_simps [simp]:
  "ast_kind (toMutable n) = ast_kind n" "ast_children (toMutable n) = ast_children n"
  "listHeight (toMutable n) = listHeight n" "ast_items (toMutable n) = ast_items n"
  "ast_length (toMutable n) = ast_length n"
  "missingOpeningBracketIds (toMutable n) = missingOpeningBracketIds n"
  "ast_ok (toMutable n) = ast_ok n" "size (toMutable n) = size n"
  by (cases n; simp add: cached_ok_def)+

lemma toMutable_leaf: "\<not> is_list_node n \<Longrightarrow> toMutable n = n"
  by (cases n) simp_all

lemma toMutable_mutable_list:
  assumes "ast_ok n" and "is_list_node n"
  shows "mutable_list (listHeight n) (ast_children n) (toMutable n)"
  using assms by (cases n) (auto simp: mutable_list_def split: option.splits)

text \<open>The recursions over nodes below run through results.\<close>

declare bind_result_cong [fundef_cong]

end
