(* ===== verification/BracketTokenizer.thy ===== *)
theory BracketTokenizer
  imports BracketAst
begin

section \<open>Tokens and tokenizers: \<open>.../bracketPairsTree/tokenizer.ts\<close>, \<open>brackets.ts\<close>\<close>

text \<open>
  A tokenizer turns the text into bracket tokens and the text between them. The parser sees it
  through the interface \<open>Tokenizer\<close>, which is a record of operations here. The fast tokenizer
  finds the brackets with a regular expression; its matches, with their offsets, are an argument of
  the model. The tokenizer of a text buffer reads from a second reader, whose operations are an
  argument as well.
\<close>

datatype token_kind = TextToken | OpeningBracketToken | ClosingBracketToken

record token =
  token_length :: bracket_length
  token_kind :: token_kind
  token_bracketId :: int
  token_bracketIds :: small_set
  token_astNode :: ast

definition text_token :: "bracket_length \<Rightarrow> token" where
  "text_token l = \<lparr>token_length = l, token_kind = TextToken, token_bracketId = -1,
     token_bracketIds = SmallImmutableSet_getEmpty, token_astNode = TextAstNode l\<rparr>"

subsection \<open>The tokens of the brackets of a language\<close>

text \<open>
  \<open>BracketTokens\<close> maps a bracket text to its token, in insertion order. An opening bracket has its
  own id, a closing bracket the ids of all brackets it closes. \<open>denseKeyProvider.getKey\<close> is asked
  with the language and the text of a bracket.
\<close>

record closing_bracket =
  cb_kind :: bracket_kind
  getOpeningBrackets :: "bracket_kind list"

type_synonym id_provider = "js_string dense_provider"

text \<open>The template \<open>`${languageId}:::${bracketText}`\<close>.\<close>

definition bracket_key :: "bracket_kind \<Rightarrow> js_string" where
  "bracket_key b = bk_languageId b @ [58, 58, 58] @ bracketText b"

definition getId :: "bracket_kind \<Rightarrow> id_provider \<Rightarrow> nat \<times> id_provider" where
  "getId b p = DenseKeyProvider_getKey (bracket_key b) p"

type_synonym bracket_tokens = "(js_string \<times> token) list"

text \<open>\<open>map.set(k, v)\<close>: an existing key keeps its place.\<close>

fun map_set :: "'k \<Rightarrow> 'v \<Rightarrow> ('k \<times> 'v) list \<Rightarrow> ('k \<times> 'v) list" where
  "map_set k v [] = [(k, v)]"
| "map_set k v ((k', v') # m) = (if k = k' then (k, v) # m else (k', v') # map_set k v m)"

definition bracket_token :: "token_kind \<Rightarrow> bracket_kind \<Rightarrow> nat \<Rightarrow> small_set \<Rightarrow> token" where
  "bracket_token kind b key keys =
     (let l = toLength 0 (int (length (bracketText b)))
      in \<lparr>token_length = l, token_kind = kind, token_bracketId = int key, token_bracketIds = keys,
          token_astNode = BracketAstNode \<lparr>bn_length = l, bracketInfo = b, bn_bracketIds = keys\<rparr>\<rparr>)"

fun add_opening :: "bracket_kind list \<Rightarrow> bracket_tokens \<Rightarrow> id_provider \<Rightarrow> bracket_tokens \<times> id_provider" where
  "add_opening [] m p = (m, p)"
| "add_opening (b # bs) m p =
     (let (key, p) = getId b p;
          keys = fst (SmallImmutableSet_add SmallImmutableSet_getEmpty key identityKeyProvider_getKey ())
      in add_opening bs (map_set (bracketText b) (bracket_token OpeningBracketToken b key keys) m) p)"

fun closing_ids :: "bracket_kind list \<Rightarrow> small_set \<Rightarrow> id_provider \<Rightarrow> small_set \<times> id_provider" where
  "closing_ids [] keys p = (keys, p)"
| "closing_ids (b # bs) keys p =
     (let (key, p) = getId b p
      in closing_ids bs (fst (SmallImmutableSet_add keys key identityKeyProvider_getKey ())) p)"

fun add_closing :: "closing_bracket list \<Rightarrow> bracket_tokens \<Rightarrow> id_provider \<Rightarrow>
    (bracket_tokens \<times> id_provider) result" where
  "add_closing [] m p = Inr (m, p)"
| "add_closing (c # cs) m p =
     (let (keys, p) = closing_ids (getOpeningBrackets c) SmallImmutableSet_getEmpty p
      in case getOpeningBrackets c of
           [] \<Rightarrow> Inl TypeError
         | b # _ \<Rightarrow>
             let (key, p) = getId b p
             in add_closing cs
                  (map_set (bracketText (cb_kind c)) (bracket_token ClosingBracketToken (cb_kind c) key keys) m) p)"

definition BracketTokens_createFromLanguage ::
  "bracket_kind list \<Rightarrow> closing_bracket list \<Rightarrow> id_provider \<Rightarrow> (bracket_tokens \<times> id_provider) result" where
  "BracketTokens_createFromLanguage openingBrackets closingBrackets p =
     (let (m, p) = add_opening openingBrackets [] p in add_closing closingBrackets m p)"

text \<open>\<open>toLowerCase\<close> is an argument.\<close>

definition BracketTokens_getToken ::
  "(js_string \<Rightarrow> js_string) \<Rightarrow> bracket_tokens \<Rightarrow> js_string \<Rightarrow> token option" where
  "BracketTokens_getToken toLowerCase m v = map_of m (toLowerCase v)"

definition BracketTokens_findClosingTokenText ::
  "bracket_tokens \<Rightarrow> small_set \<Rightarrow> js_string option" where
  "BracketTokens_findClosingTokenText m openingBracketIds =
     map_option fst (find (\<lambda>(_, info). token_kind info = ClosingBracketToken \<and>
       SmallImmutableSet_intersects (token_bracketIds info) openingBracketIds) m)"

definition BracketTokens_isEmpty :: "bracket_tokens \<Rightarrow> bool" where
  "BracketTokens_isEmpty m \<longleftrightarrow> length m = 0"

subsection \<open>The interface\<close>

record 't tokenizer_ops =
  tokenizer_offset :: "'t \<Rightarrow> bracket_length"
  tokenizer_read :: "'t \<Rightarrow> (token option \<times> 't) result"
  tokenizer_peek :: "'t \<Rightarrow> (token option \<times> 't) result"
  tokenizer_skip :: "bracket_length \<Rightarrow> 't \<Rightarrow> 't result"

subsection \<open>The fast tokenizer\<close>

record fast_tokenizer =
  ft_offset :: bracket_length
  ft_tokens :: "token option list"
  ft_idx :: nat
  ft_length :: bracket_length

text \<open>The variables of the loop over the matches.\<close>

record fast_state =
  curLineCount :: int
  lastLineBreakOffset :: int
  lastTokenEndOffset :: int
  lastTokenEndLine :: int
  tokens_so_far :: "token option list"

text \<open>
  The text between the last token and \<open>curOffset\<close>. The arrays of prepared small tokens share objects
  of equal value, so that both branches of the source give this token.
\<close>

definition text_between :: "fast_state \<Rightarrow> int \<Rightarrow> token" where
  "text_between st curOffset =
     (if lastTokenEndLine st = curLineCount st
      then text_token (toLength 0 (curOffset - lastTokenEndOffset st))
      else text_token (toLength (curLineCount st - lastTokenEndLine st) (curOffset - lastLineBreakOffset st)))"

definition fast_step :: "(js_string \<Rightarrow> token option) \<Rightarrow> fast_state \<Rightarrow> int \<times> js_string \<Rightarrow> fast_state" where
  "fast_step get_token st m =
     (let (curOffset, v) = m
      in if v = [10]
         then st\<lparr>curLineCount := curLineCount st + 1, lastLineBreakOffset := curOffset + 1\<rparr>
         else let toks = (if lastTokenEndOffset st \<noteq> curOffset
                          then tokens_so_far st @ [Some (text_between st curOffset)]
                          else tokens_so_far st)
              in st\<lparr>tokens_so_far := toks @ [get_token v],
                    lastTokenEndOffset := curOffset + int (length v),
                    lastTokenEndLine := curLineCount st\<rparr>)"

definition fast_init :: fast_state where
  "fast_init = \<lparr>curLineCount = 0, lastLineBreakOffset = 0, lastTokenEndOffset = 0,
     lastTokenEndLine = 0, tokens_so_far = []\<rparr>"

definition FastTokenizer :: "js_string \<Rightarrow> (int \<times> js_string) list \<Rightarrow> (js_string \<Rightarrow> token option) \<Rightarrow> fast_tokenizer" where
  "FastTokenizer str matches get_token =
     (let st = foldl (fast_step get_token) fast_init matches;
          offset = int (length str);
          toks = (if lastTokenEndOffset st \<noteq> offset
                  then tokens_so_far st @ [Some (text_between st offset)]
                  else tokens_so_far st)
      in \<lparr>ft_offset = lengthZero, ft_tokens = toks, ft_idx = 0,
          ft_length = toLength (curLineCount st) (offset - lastLineBreakOffset st)\<rparr>)"

text \<open>\<open>tokens[i] || null\<close>\<close>

definition token_at :: "token option list \<Rightarrow> nat \<Rightarrow> token option" where
  "token_at ts i = (if i < length ts then ts ! i else None)"

definition FastTokenizer_read :: "fast_tokenizer \<Rightarrow> (token option \<times> fast_tokenizer) result" where
  "FastTokenizer_read this =
     Inr (token_at (ft_tokens this) (ft_idx this), this\<lparr>ft_idx := ft_idx this + 1\<rparr>)"

definition FastTokenizer_peek :: "fast_tokenizer \<Rightarrow> (token option \<times> fast_tokenizer) result" where
  "FastTokenizer_peek this = Inr (token_at (ft_tokens this) (ft_idx this), this)"

definition FastTokenizer_skip :: "bracket_length \<Rightarrow> fast_tokenizer \<Rightarrow> fast_tokenizer result" where
  "FastTokenizer_skip l this = Inl NotSupportedError"

definition fast_ops :: "fast_tokenizer tokenizer_ops" where
  "fast_ops = \<lparr>tokenizer_offset = ft_offset, tokenizer_read = FastTokenizer_read,
     tokenizer_peek = FastTokenizer_peek, tokenizer_skip = FastTokenizer_skip\<rparr>"

subsection \<open>The tokenizer of a text buffer\<close>

text \<open>The operations of the reader: \<open>read\<close> and \<open>setPosition\<close>.\<close>

record 'r reader_ops =
  reader_read :: "'r \<Rightarrow> token option \<times> 'r"
  reader_setPosition :: "int \<Rightarrow> int \<Rightarrow> 'r \<Rightarrow> 'r"

record 'r buffer_tokenizer =
  bt_reader :: 'r
  bt_offset :: bracket_length
  didPeek :: bool
  peeked :: "token option"

definition TextBufferTokenizer :: "'r \<Rightarrow> 'r buffer_tokenizer" where
  "TextBufferTokenizer r = \<lparr>bt_reader = r, bt_offset = lengthZero, didPeek = False, peeked = None\<rparr>"

definition TextBufferTokenizer_skip ::
  "'r reader_ops \<Rightarrow> bracket_length \<Rightarrow> 'r buffer_tokenizer \<Rightarrow> 'r buffer_tokenizer" where
  "TextBufferTokenizer_skip ops l this =
     (let offset = lengthAdd (bt_offset this) l; obj = lengthToObj offset
      in this\<lparr>didPeek := False, bt_offset := offset,
              bt_reader := reader_setPosition ops (lineCount obj) (columnCount obj) (bt_reader this)\<rparr>)"

definition TextBufferTokenizer_read ::
  "'r reader_ops \<Rightarrow> 'r buffer_tokenizer \<Rightarrow> token option \<times> 'r buffer_tokenizer" where
  "TextBufferTokenizer_read ops this =
     (let (tok, this) =
        (if peeked this \<noteq> None then (peeked this, this\<lparr>didPeek := False\<rparr>)
         else let (tok, r) = reader_read ops (bt_reader this) in (tok, this\<lparr>bt_reader := r\<rparr>))
      in case tok of
           None \<Rightarrow> (tok, this)
         | Some t \<Rightarrow> (tok, this\<lparr>bt_offset := lengthAdd (bt_offset this) (token_length t)\<rparr>))"

definition TextBufferTokenizer_peek ::
  "'r reader_ops \<Rightarrow> 'r buffer_tokenizer \<Rightarrow> token option \<times> 'r buffer_tokenizer" where
  "TextBufferTokenizer_peek ops this =
     (let this = (if \<not> didPeek this
                  then (let (tok, r) = reader_read ops (bt_reader this)
                        in this\<lparr>peeked := tok, bt_reader := r, didPeek := True\<rparr>)
                  else this)
      in (peeked this, this))"

definition buffer_ops :: "'r reader_ops \<Rightarrow> 'r buffer_tokenizer tokenizer_ops" where
  "buffer_ops ops = \<lparr>tokenizer_offset = bt_offset,
     tokenizer_read = (\<lambda>t. Inr (TextBufferTokenizer_read ops t)),
     tokenizer_peek = (\<lambda>t. Inr (TextBufferTokenizer_peek ops t)),
     tokenizer_skip = (\<lambda>l t. Inr (TextBufferTokenizer_skip ops l t))\<rparr>"

subsection \<open>The fast tokenizer covers the text\<close>

text \<open>Line breaks before an offset, and the offset behind the last one.\<close>

definition breaks_before :: "js_string \<Rightarrow> nat \<Rightarrow> int" where
  "breaks_before str i = int (count_list (take i str) 10)"

fun last_break :: "js_string \<Rightarrow> nat \<Rightarrow> nat" where
  "last_break str 0 = 0"
| "last_break str (Suc i) = (if str ! i = 10 then Suc i else last_break str i)"

definition packed_at :: "js_string \<Rightarrow> nat \<Rightarrow> bracket_length" where
  "packed_at str i = toLength (breaks_before str i) (int i - int (last_break str i))"

text \<open>
  What the regular expression of the brackets or a line feed finds from an offset on: matches from
  left to right that do not overlap and leave out no line feed, each of them a line feed or a
  bracket with its token.
\<close>

fun matches_ok :: "(js_string \<Rightarrow> token option) \<Rightarrow> js_string \<Rightarrow> nat \<Rightarrow> (int \<times> js_string) list \<Rightarrow> bool" where
  "matches_ok get_token str i [] \<longleftrightarrow> i \<le> length str \<and> 10 \<notin> set (drop i str)"
| "matches_ok get_token str i ((j, v) # ms) \<longleftrightarrow>
     int i \<le> j \<and> v \<noteq> [] \<and> nat j + length v \<le> length str \<and> take (length v) (drop (nat j) str) = v \<and>
     10 \<notin> set (drop i (take (nat j) str)) \<and>
     (v = [10] \<or> 10 \<notin> set v \<and>
       (case get_token v of None \<Rightarrow> False | Some t \<Rightarrow> token_length t = toLength 0 (int (length v)))) \<and>
     matches_ok get_token str (nat j + length v) ms"

lemma last_break_le: "last_break str i \<le> i"
  by (induction i) auto

lemma no_break_between:
  assumes "i \<le> j" and "j \<le> length str" and "10 \<notin> set (drop i (take j str))"
  shows "breaks_before str j = breaks_before str i" "last_break str j = last_break str i"
proof -
  have "take j str = take i str @ drop i (take j str)"
    using assms(1) by (metis append_take_drop_id min.absorb1 take_take)
  then have "count_list (take j str) 10 = count_list (take i str) 10"
    using assms(3) by (metis add_0_right count_list_append count_notin)
  then show "breaks_before str j = breaks_before str i"
    by (simp add: breaks_before_def)
  show "last_break str j = last_break str i"
    using assms
  proof (induction rule: dec_induct)
    case (step n)
    then have "take (Suc n) str = take n str @ [str ! n]"
      by (simp add: take_Suc_conv_app_nth)
    with step show ?case by (simp add: drop_append)
  qed simp
qed

lemma break_at:
  assumes "i < length str" and "str ! i = 10"
  shows "breaks_before str (Suc i) = breaks_before str i + 1" "last_break str (Suc i) = Suc i"
  using assms by (simp_all add: breaks_before_def take_Suc_conv_app_nth)

lemma breaks_before_mono: "i \<le> j \<Longrightarrow> breaks_before str i \<le> breaks_before str j"
  unfolding breaks_before_def
  by (metis (no_types, lifting) append_take_drop_id count_list_append le_add1 min.absorb1 of_nat_mono take_take)

lemma lengthAdd_to_offset:
  assumes "e \<le> i" and "int i < factor" and "breaks_before str e = breaks_before str i \<Longrightarrow>
    last_break str e = last_break str i"
  shows "lengthAdd (packed_at str e)
    (if breaks_before str e = breaks_before str i then toLength 0 (int i - int e)
     else toLength (breaks_before str i - breaks_before str e) (int i - int (last_break str i))) =
    packed_at str i"
proof -
  let ?c = "int e - int (last_break str e)" and ?d = "int i - int (last_break str i)"
  have bounds: "0 \<le> ?c" "?c < factor" "0 \<le> ?d" "?d < factor" "0 \<le> breaks_before str e"
    "0 \<le> packed_at str e"
    using assms last_break_le [of str e] last_break_le [of str i]
    by (auto simp: breaks_before_def packed_at_def toLength_def)
  show ?thesis
  proof (cases "breaks_before str e = breaks_before str i")
    case True
    with assms bounds show ?thesis
      by (simp add: lengthAdd_eq packed_at_def toLength_def)
  next
    case False
    then have "1 \<le> breaks_before str i - breaks_before str e"
      using breaks_before_mono [OF assms(1), of str] by simp
    with False bounds show ?thesis
      by (simp add: packed_at_def toLength_def lengthAdd_packed)
  qed
qed

text \<open>Without carriage returns this is the length that \<open>lengthOfString\<close> computes.\<close>

lemma last_break_append: "i \<le> length a \<Longrightarrow> last_break (a @ b) i = last_break a i"
  by (induction i) (auto simp: nth_append)

lemma lines_of_string:
  assumes "13 \<notin> set str"
  shows "breaks_before str (length str) = int (length (splitLines str)) - 1 \<and>
    last_break str (length str) + length (last (splitLines str)) = length str"
  using assms
proof (induction str rule: rev_induct)
  case (snoc c str)
  then have "splitLines (str @ [c]) = glue (splitLines str) (splitLines [c])"
    by (intro splitLines_append) (auto dest: last_in_set)
  moreover have "length (splitLines str) \<ge> 1" by (simp add: Suc_le_eq)
  ultimately show ?case
    using snoc by (auto simp: glue_def breaks_before_def last_break_append)
qed (simp add: breaks_before_def)

lemma packed_at_lengthOfString:
  assumes "13 \<notin> set str"
  shows "packed_at str (length str) = lengthOfString str"
proof -
  have "int (length str) - int (last_break str (length str)) = int (length (last (splitLines str)))"
    using lines_of_string [OF assms] by linarith
  then show ?thesis
    using lines_of_string [OF assms] by (simp add: packed_at_def lengthOfString_def Let_def last_conv_nth)
qed

definition fast_inv :: "js_string \<Rightarrow> nat \<Rightarrow> fast_state \<Rightarrow> bool" where
  "fast_inv str i st \<longleftrightarrow>
     (\<exists>e ts. lastTokenEndOffset st = int e \<and> e \<le> i \<and> i \<le> length str \<and>
       curLineCount st = breaks_before str i \<and> lastLineBreakOffset st = int (last_break str i) \<and>
       lastTokenEndLine st = breaks_before str e \<and>
       (breaks_before str e = breaks_before str i \<longrightarrow> last_break str e = last_break str i) \<and>
       tokens_so_far st = map Some ts \<and> sumLengths ts token_length = packed_at str e)"

lemma sumLengths_snoc: "sumLengths (ts @ [t]) f = lengthAdd (sumLengths ts f) (f t)"
  by (simp add: sumLengths_def)

lemma fast_inv_text:
  assumes inv: "fast_inv str i st" and j: "i \<le> j" "j \<le> length str" "10 \<notin> set (drop i (take j str))"
    and small: "int (length str) < factor"
  shows "\<exists>ts. (if lastTokenEndOffset st \<noteq> int j then tokens_so_far st @ [Some (text_between st (int j))]
      else tokens_so_far st) = map Some ts \<and> sumLengths ts token_length = packed_at str j"
proof -
  from inv obtain e ts where e: "lastTokenEndOffset st = int e" "e \<le> i"
    "curLineCount st = breaks_before str i" "lastLineBreakOffset st = int (last_break str i)"
    "lastTokenEndLine st = breaks_before str e"
    "breaks_before str e = breaks_before str i \<longrightarrow> last_break str e = last_break str i"
    "tokens_so_far st = map Some ts" "sumLengths ts token_length = packed_at str e"
    unfolding fast_inv_def by blast
  note same = no_break_between [OF j]
  show ?thesis
  proof (cases "e = j")
    case True
    with e show ?thesis by auto
  next
    case False
    have "lengthAdd (packed_at str e) (token_length (text_between st (int j))) = packed_at str j"
      using lengthAdd_to_offset [of e j str] e j small same
      by (auto simp: text_between_def text_token_def)
    with e False show ?thesis
      by (intro exI [of _ "ts @ [text_between st (int j)]"]) (simp add: sumLengths_snoc)
  qed
qed

lemma fast_inv_step:
  assumes inv: "fast_inv str i st" and m: "matches_ok get_token str i ((j, v) # ms)"
    and small: "int (length str) < factor"
  shows "fast_inv str (nat j + length v) (fast_step get_token st (j, v))"
proof -
  let ?j = "nat j"
  have j: "i \<le> ?j" "?j < length str" "?j + length v \<le> length str" "int ?j = j"
    "10 \<notin> set (drop i (take ?j str))" "v \<noteq> []"
    using m by (cases v; auto)+
  note same = no_break_between [OF j(1) less_imp_le [OF j(2)] j(5)]
  show ?thesis
  proof (cases "v = [10]")
    case True
    have "str ! ?j = 10"
      using m True j by (simp add: take_Suc_conv_app_nth nth_via_drop hd_drop_conv_nth [symmetric])
    with inv j True same break_at [OF j(2)] breaks_before_mono [of _ i str] show ?thesis
      unfolding fast_inv_def fast_step_def by fastforce
  next
    case False
    with m obtain t where t: "get_token v = Some t" "token_length t = toLength 0 (int (length v))"
      "10 \<notin> set v"
      by (auto split: option.splits)
    obtain ts where ts: "(if lastTokenEndOffset st \<noteq> j then tokens_so_far st @ [Some (text_between st j)]
        else tokens_so_far st) = map Some ts" "sumLengths ts token_length = packed_at str ?j"
      using fast_inv_text [OF inv j(1) less_imp_le [OF j(2)] j(5) small] unfolding j(4) by blast
    have "drop ?j (take (?j + length v) str) = v"
      using m by (simp add: drop_take)
    with no_break_between [of ?j "?j + length v" str] j t(3)
    have same': "breaks_before str (?j + length v) = breaks_before str ?j"
      "last_break str (?j + length v) = last_break str ?j"
      by simp_all
    have "lengthAdd (packed_at str ?j) (token_length t) = packed_at str (?j + length v)"
      using lengthAdd_to_offset [of ?j "?j + length v" str] same' j small t(2) by auto
    with ts t j same same' inv False show ?thesis
      unfolding fast_inv_def fast_step_def
      by (intro exI [of _ "?j + length v"] exI [of _ "ts @ [t]"]) (auto simp: sumLengths_snoc Let_def)
  qed
qed

lemma fast_loop_inv:
  assumes "fast_inv str i st" and "matches_ok get_token str i ms" and "int (length str) < factor"
  shows "\<exists>j. fast_inv str j (foldl (fast_step get_token) st ms) \<and> j \<le> length str \<and> 10 \<notin> set (drop j str)"
  using assms
proof (induction ms arbitrary: i st)
  case Nil
  then show ?case by auto
next
  case (Cons m ms)
  obtain j v where m: "m = (j, v)" by (cases m)
  with Cons fast_inv_step [of str i st get_token j v ms] show ?case
    by (auto simp del: fast_step_def)
qed

lemma FastTokenizer_covers_lemma:
  assumes "matches_ok get_token str 0 matches" and small: "int (length str) < factor"
  shows "\<exists>ts. ft_tokens (FastTokenizer str matches get_token) = map Some ts \<and>
    sumLengths ts token_length = ft_length (FastTokenizer str matches get_token) \<and>
    ft_length (FastTokenizer str matches get_token) = packed_at str (length str)"
proof -
  have "fast_inv str 0 fast_init"
    by (auto simp: fast_inv_def fast_init_def breaks_before_def packed_at_def sumLengths_def
        lengthZero_def toLength_def)
  from fast_loop_inv [OF this assms] obtain j where
    j: "fast_inv str j (foldl (fast_step get_token) fast_init matches)" "j \<le> length str"
      "10 \<notin> set (drop j (take (length str) str))"
    by auto
  let ?st = "foldl (fast_step get_token) fast_init matches"
  have "curLineCount ?st = breaks_before str (length str)"
    "lastLineBreakOffset ?st = int (last_break str (length str))"
    using j(1) no_break_between [OF j(2) order.refl j(3)] by (auto simp: fast_inv_def)
  with fast_inv_text [OF j(1,2) order.refl j(3) small] show ?thesis
    by (auto simp: FastTokenizer_def Let_def packed_at_def)
qed

subsection \<open>Peeking and reading\<close>

text \<open>The tokens that the reader still gives, up to the end or a number of them.\<close>

fun reader_tokens :: "'r reader_ops \<Rightarrow> nat \<Rightarrow> 'r \<Rightarrow> token list" where
  "reader_tokens ops 0 r = []"
| "reader_tokens ops (Suc n) r =
     (case reader_read ops r of (None, _) \<Rightarrow> [] | (Some t, r') \<Rightarrow> t # reader_tokens ops n r')"

text \<open>The parser looks at every token before it reads it.\<close>

fun peek_and_read :: "'r reader_ops \<Rightarrow> nat \<Rightarrow> 'r buffer_tokenizer \<Rightarrow> (bracket_length \<times> token) list" where
  "peek_and_read ops 0 t = []"
| "peek_and_read ops (Suc n) t =
     (case TextBufferTokenizer_peek ops t of
        (None, _) \<Rightarrow> []
      | (Some _, t1) \<Rightarrow>
          case TextBufferTokenizer_read ops t1 of
            (None, _) \<Rightarrow> []
          | (Some tok, t2) \<Rightarrow> (bt_offset t1, tok) # peek_and_read ops n t2)"

fun with_offsets :: "bracket_length \<Rightarrow> token list \<Rightarrow> (bracket_length \<times> token) list" where
  "with_offsets l [] = []"
| "with_offsets l (t # ts) = (l, t) # with_offsets (lengthAdd l (token_length t)) ts"

lemma peek_and_read_streams:
  "\<not> didPeek t \<Longrightarrow> peek_and_read ops n t = with_offsets (bt_offset t) (reader_tokens ops n (bt_reader t))"
proof (induction n arbitrary: t)
  case (Suc n)
  obtain tok r where r: "reader_read ops (bt_reader t) = (tok, r)" by (cases "reader_read ops (bt_reader t)")
  show ?case
  proof (cases tok)
    case None
    with r Suc.prems show ?thesis by (simp add: TextBufferTokenizer_peek_def)
  next
    case (Some tk)
    with r Suc.prems show ?thesis
      by (simp add: TextBufferTokenizer_peek_def TextBufferTokenizer_read_def Suc.IH)
  qed
qed simp

text \<open>
  \<open>read\<close> does not clear the token that was peeked at: a second \<open>read\<close> without a \<open>peek\<close> gives the same
  token again and moves the offset again.
\<close>

lemma read_twice_repeats:
  assumes "peeked t = Some tok"
  shows "fst (TextBufferTokenizer_read ops (snd (TextBufferTokenizer_read ops t))) = Some tok"
  using assms by (simp add: TextBufferTokenizer_read_def)

subsection \<open>Properties\<close>

text \<open>The tokens of the fast tokenizer cover the text: when the matches of its regular expression
  are the brackets and line feeds of the text, every token exists, and the lengths of the tokens add
  up to the length the tokenizer reports, which is the number of line feeds of the text and of the
  code units behind the last one.\<close>

lemma FastTokenizer_covers_text:
  assumes "matches_ok get_token str 0 matches" and "int (length str) < factor"
  shows "\<exists>ts. ft_tokens (FastTokenizer str matches get_token) = map Some ts \<and>
    sumLengths ts token_length = ft_length (FastTokenizer str matches get_token) \<and>
    ft_length (FastTokenizer str matches get_token) = packed_at str (length str)"
  using assms by (rule FastTokenizer_covers_lemma)

text \<open>The text \<open>a\<close>, line feed, \<open>b{\<close>, line feed, \<open>}\<close>, with tokens for the two braces.\<close>

text \<open>When every read follows a peek, a new tokenizer of a text buffer gives the tokens of its
  reader in order, each at the sum of the lengths of the tokens before it.\<close>

lemma TextBufferTokenizer_streams:
  "peek_and_read ops n (TextBufferTokenizer r) = with_offsets lengthZero (reader_tokens ops n r)"
  by (simp add: peek_and_read_streams TextBufferTokenizer_def)

end
