(* ===== verification/Concat23.thy ===== *)
theory Concat23
  imports BracketAst
begin

section \<open>Concatenation of (2,3) trees: \<open>.../bracketPairsTree/concat23Trees.ts\<close>\<close>

text \<open>
  The parser collects nodes of different heights, old ones among them, and joins them to one (2,3)
  tree. The code goes down the last (or first) children of the higher tree, keeps the parents in an
  array, and repairs them from the lowest to the highest. A parent holds a reference to the child
  that was changed below it; here the changed child is stored back explicitly.
\<close>

subsection \<open>Trees of the same height\<close>

text \<open>The inner loop overwrites the front of the array, from which it has already read.\<close>

function sameHeight_pass :: "bool \<Rightarrow> nat \<Rightarrow> nat \<Rightarrow> nat \<Rightarrow> ast list \<Rightarrow> ast list result" where
  "sameHeight_pass im len newLength i items =
     (if i < newLength
      then let j = 2 * i
           in bind_result
                (ListAstNode_create23 (items ! j) (items ! (j + 1))
                   (if j + 3 = len then Some (items ! (j + 2)) else None) im)
                (\<lambda>n. sameHeight_pass im len newLength (i + 1) (items[i := n]))
      else Inr items)"
  by pat_completeness auto
termination by (relation "measure (\<lambda>(_, _, newLength, i, _). newLength - i)") auto

declare sameHeight_pass.simps [simp del]

function sameHeight_loop :: "bool \<Rightarrow> nat \<Rightarrow> ast list \<Rightarrow> (nat \<times> ast list) result" where
  "sameHeight_loop im len items =
     (if len > 3
      then let newLength = len div 2
           in bind_result (sameHeight_pass im len newLength 0 items) (\<lambda>items'.
                sameHeight_loop im newLength items')
      else Inr (len, items))"
  by pat_completeness auto
termination by (relation "measure (\<lambda>(_, len, _). len)") auto

declare sameHeight_loop.simps [simp del]

definition concat23TreesOfSameHeight :: "ast list \<Rightarrow> bool \<Rightarrow> ast option result" where
  "concat23TreesOfSameHeight items createImmutableLists =
     (if length items = 0 then Inr None
      else if length items = 1 then Inr (Some (items ! 0))
      else bind_result (sameHeight_loop createImmutableLists (length items) items) (\<lambda>(len, items').
        bind_result
          (ListAstNode_create23 (items' ! 0) (items' ! 1)
            (if len \<ge> 3 then Some (items' ! 2) else None) createImmutableLists)
          (\<lambda>n. Inr (Some n))))"

subsection \<open>Trees of different heights\<close>

definition heightDiff :: "ast \<Rightarrow> ast \<Rightarrow> int" where
  "heightDiff node1 node2 = \<bar>int (listHeight node1) - int (listHeight node2)\<bar>"

lemma makeElementMutable_child:
  assumes "makeElementMutable n idx = Inr (n', Some c)"
  shows "\<exists>c'. getChild n idx = Inr (Some c') \<and> c = toMutable c'"
proof (cases "getChild n idx")
  case (Inr child)
  with assms show ?thesis
    by (cases child; cases "throwIfImmutable n")
      (auto simp: makeElementMutable_def Let_def bind_result_Inr_iff toMutable_leaf split: if_splits)
qed (use assms in \<open>auto simp: makeElementMutable_def bind_result_Inr_iff split: if_splits\<close>)

lemma getChild_in_children: "getChild n idx = Inr (Some c) \<Longrightarrow> c \<in> set (ast_children n)"
  by (cases n) (auto simp: js_at_def split: if_splits option.splits)

lemma makeElementMutable_size: "makeElementMutable n idx = Inr (n', Some c) \<Longrightarrow> size c < size n"
  using makeElementMutable_child [of n idx n' c] getChild_in_children size_child by fastforce

text \<open>
  \<open>append\<close> below the node \<open>curNode\<close>: the node afterwards, and the node that its parent still has to
  take (\<open>nodeToAppendOfCorrectHeight\<close>).
\<close>

function append_rec :: "ast \<Rightarrow> ast \<Rightarrow> (ast \<times> ast option) result" where
  "append_rec curNode nodeToAppend =
     (if listHeight nodeToAppend = listHeight curNode then Inr (curNode, Some nodeToAppend)
      else if ast_kind curNode \<noteq> List_kind then Inl PlainError
      else bind_result (makeLastElementMutable curNode) (\<lambda>(parent, child).
        case child of
          None \<Rightarrow> Inl TypeError
        | Some c \<Rightarrow> bind_result (append_rec c nodeToAppend) (\<lambda>(c', n).
            bind_result (setChild parent (childrenLength parent - 1) c') (\<lambda>parent.
              case n of
                Some n \<Rightarrow>
                  if childrenLength parent \<ge> 3
                  then bind_result (unappendChild parent) (\<lambda>(parent, third).
                    case third of
                      None \<Rightarrow> Inl TypeError
                    | Some third \<Rightarrow> bind_result (ListAstNode_create23 third n None False) (\<lambda>n'.
                        Inr (parent, Some n')))
                  else bind_result (appendChildOfSameHeight parent n) (\<lambda>parent. Inr (parent, None))
              | None \<Rightarrow> bind_result (handleChildrenChanged parent) (\<lambda>parent. Inr (parent, None))))))"
  by pat_completeness auto
termination by (relation "measure (\<lambda>(n, _). size n)") (auto simp: makeLastElementMutable_def dest: makeElementMutable_size)

declare append_rec.simps [simp del]

definition concat_append :: "ast \<Rightarrow> ast \<Rightarrow> ast result" where
  "concat_append lst nodeToAppend =
     bind_result (append_rec (toMutable lst) nodeToAppend) (\<lambda>(lst, n).
       case n of
         Some n \<Rightarrow> ListAstNode_create23 lst n None False
       | None \<Rightarrow> Inr lst)"

function prepend_rec :: "ast \<Rightarrow> ast \<Rightarrow> (ast \<times> ast option) result" where
  "prepend_rec curNode nodeToAppend =
     (if listHeight nodeToAppend = listHeight curNode then Inr (curNode, Some nodeToAppend)
      else if ast_kind curNode \<noteq> List_kind then Inl PlainError
      else bind_result (makeFirstElementMutable curNode) (\<lambda>(parent, child).
        case child of
          None \<Rightarrow> Inl TypeError
        | Some c \<Rightarrow> bind_result (prepend_rec c nodeToAppend) (\<lambda>(c', n).
            bind_result (setChild parent 0 c') (\<lambda>parent.
              case n of
                Some n \<Rightarrow>
                  if childrenLength parent \<ge> 3
                  then bind_result (unprependChild parent) (\<lambda>(parent, first).
                    case first of
                      None \<Rightarrow> Inl TypeError
                    | Some first \<Rightarrow> bind_result (ListAstNode_create23 n first None False) (\<lambda>n'.
                        Inr (parent, Some n')))
                  else bind_result (prependChildOfSameHeight parent n) (\<lambda>parent. Inr (parent, None))
              | None \<Rightarrow> bind_result (handleChildrenChanged parent) (\<lambda>parent. Inr (parent, None))))))"
  by pat_completeness auto
termination by (relation "measure (\<lambda>(n, _). size n)") (auto simp: makeFirstElementMutable_def dest: makeElementMutable_size)

declare prepend_rec.simps [simp del]

definition concat_prepend :: "ast \<Rightarrow> ast \<Rightarrow> ast result" where
  "concat_prepend lst nodeToAppend =
     bind_result (prepend_rec (toMutable lst) nodeToAppend) (\<lambda>(lst, n).
       case n of
         Some n \<Rightarrow> ListAstNode_create23 n lst None False
       | None \<Rightarrow> Inr lst)"

definition concat_nodes :: "ast \<Rightarrow> ast \<Rightarrow> ast result" where
  "concat_nodes node1 node2 =
     (if listHeight node1 = listHeight node2 then ListAstNode_create23 node1 node2 None False
      else if listHeight node1 > listHeight node2 then concat_append node1 node2
      else concat_prepend node2 node1)"

subsection \<open>Lists of trees\<close>

function same_height_end :: "ast list \<Rightarrow> nat \<Rightarrow> nat \<Rightarrow> nat" where
  "same_height_end items height i =
     (if i < length items \<and> listHeight (items ! i) = height then same_height_end items height (i + 1)
      else i)"
  by pat_completeness auto
termination by (relation "measure (\<lambda>(items, _, i). length items - i)") auto

declare same_height_end.simps [simp del]

definition readNode :: "ast list \<Rightarrow> nat \<Rightarrow> (ast option \<times> nat) result" where
  "readNode items i =
     (if i \<ge> length items then Inr (None, i)
      else let start = i; height = listHeight (items ! start);
               i = same_height_end items height (i + 1)
           in if i - start \<ge> 2
              then bind_result
                     (concat23TreesOfSameHeight
                       (if start = 0 \<and> i = length items then items
                        else js_slice items (int start) (int i)) False)
                     (\<lambda>n. Inr (n, i))
              else Inr (Some (items ! start), i))"

lemma same_height_end_ge: "i \<le> same_height_end items h i"
  by (induction items h i rule: same_height_end.induct) (subst same_height_end.simps, auto)

lemma readNode_advances: "readNode items i = Inr (Some n, i') \<Longrightarrow> i < i' \<and> i < length items"
  using same_height_end_ge [of "i + 1" items "listHeight (items ! i)"]
  by (auto simp: readNode_def Let_def bind_result_Inr_iff split: if_splits)

function concat_loop :: "ast list \<Rightarrow> nat \<Rightarrow> ast \<Rightarrow> ast \<Rightarrow> ast result" where
  "concat_loop items i first second =
     bind_result (readNode items i) (\<lambda>(item, i').
       case item of
         None \<Rightarrow> concat_nodes first second
       | Some item \<Rightarrow>
           if heightDiff first second \<le> heightDiff second item
           then bind_result (concat_nodes first second) (\<lambda>first'. concat_loop items i' first' item)
           else bind_result (concat_nodes second item) (\<lambda>second'. concat_loop items i' first second'))"
  by pat_completeness auto
termination
  by (relation "measure (\<lambda>(items, i, _). length items - i)")
    (auto dest!: readNode_advances intro: diff_less_mono2)

declare concat_loop.simps [simp del]

definition concat23Trees :: "ast list \<Rightarrow> ast option result" where
  "concat23Trees items =
     (if length items = 0 then Inr None
      else if length items = 1 then Inr (Some (items ! 0))
      else bind_result (readNode items 0) (\<lambda>(first, i).
        case first of
          None \<Rightarrow> Inl TypeError
        | Some first \<Rightarrow> bind_result (readNode items i) (\<lambda>(second, i).
            case second of
              None \<Rightarrow> Inr (Some first)
            | Some second \<Rightarrow> bind_result (concat_loop items i first second) (\<lambda>n. Inr (Some n)))))"

subsection \<open>Trees of the same height: proof\<close>

abbreviation all_items :: "ast list \<Rightarrow> ast list" where
  "all_items ns \<equiv> concat (map ast_items ns)"

definition ok_at :: "nat \<Rightarrow> ast \<Rightarrow> bool" where
  "ok_at h n \<longleftrightarrow> ast_ok n \<and> listHeight n = h"

lemma create23_at:
  assumes "ok_at h item1" "ok_at h item2" and "\<And>c. item3 = Some c \<Longrightarrow> ok_at h c"
  shows "\<exists>n. ListAstNode_create23 item1 item2 item3 im = Inr n \<and> ok_at (Suc h) n \<and>
    ast_items n = ast_items item1 @ ast_items item2 @ (case item3 of None \<Rightarrow> [] | Some c \<Rightarrow> ast_items c)"
proof -
  have "children_ok (Suc h) (item1 # item2 # (case item3 of None \<Rightarrow> [] | Some c \<Rightarrow> [c]))"
    using assms by (auto simp: ok_at_def split: option.splits)
  then obtain n where "ListAstNode_create23 item1 item2 item3 im = Inr n" "is_list_node n" "ast_ok n"
    "listHeight n = Suc h"
    "ast_children n = item1 # item2 # (case item3 of None \<Rightarrow> [] | Some c \<Rightarrow> [c])"
    by (rule create23_ok)
  then show ?thesis
    by (auto simp: ok_at_def list_ast_items split: option.splits)
qed

lemma sameHeight_pass_ok:
  assumes "newLength = len div 2" and "len \<le> length items" and "i \<le> newLength"
    and "\<And>k. k < i \<Longrightarrow> ok_at (Suc h) (items ! k)"
    and "\<And>k. 2 * i \<le> k \<Longrightarrow> k < len \<Longrightarrow> ok_at h (items ! k)"
  shows "\<exists>items'. sameHeight_pass im len newLength i items = Inr items' \<and>
    length items' = length items \<and> (\<forall>k < newLength. ok_at (Suc h) (items' ! k)) \<and>
    all_items (take newLength items') = all_items (take i items) @
      (if i = newLength then [] else all_items (drop (2 * i) (take len items)))"
  using assms
proof (induction "newLength - i" arbitrary: i items)
  case 0
  then show ?case by (auto simp: sameHeight_pass.simps)
next
  case (Suc d)
  let ?j = "2 * i"
  let ?third = "if ?j + 3 = len then Some (items ! (?j + 2)) else None"
  have i: "i < newLength" and j: "?j + 2 \<le> len"
    using Suc.hyps Suc.prems(1) by auto
  have ok: "ok_at h (items ! ?j)" "ok_at h (items ! (?j + 1))"
    using Suc.prems(5) j by simp_all
  have third: "ok_at h c" if "?third = Some c" for c
    using that Suc.prems(5) [of "?j + 2"] by (auto split: if_splits)
  obtain n where n: "ListAstNode_create23 (items ! ?j) (items ! (?j + 1)) ?third im = Inr n"
      "ok_at (Suc h) n"
      "ast_items n = ast_items (items ! ?j) @ ast_items (items ! (?j + 1)) @
        (case ?third of None \<Rightarrow> [] | Some c \<Rightarrow> ast_items c)"
    using create23_at [where im = im, OF ok third] by blast
  have "\<exists>items'. sameHeight_pass im len newLength (i + 1) (items[i := n]) = Inr items' \<and>
    length items' = length (items[i := n]) \<and> (\<forall>k < newLength. ok_at (Suc h) (items' ! k)) \<and>
    all_items (take newLength items') = all_items (take (i + 1) (items[i := n])) @
      (if i + 1 = newLength then [] else all_items (drop (2 * (i + 1)) (take len (items[i := n]))))"
    using Suc.hyps(2) Suc.prems i n(2)
    by (intro Suc.hyps(1)) (auto simp: nth_list_update less_Suc_eq)
  moreover have "take (i + 1) (items[i := n]) = take i items @ [n]"
    using i j Suc.prems(2) by (simp add: take_Suc_conv_app_nth)
  moreover have "drop (2 * (i + 1)) (take len (items[i := n])) = drop (?j + 2) (take len items)"
    using i by (simp add: take_update_swap)
  moreover have split: "drop ?j (take len items) = items ! ?j # items ! (?j + 1) # drop (?j + 2) (take len items)"
    using j Suc.prems(2) by (simp add: Cons_nth_drop_Suc [symmetric])
  moreover have "all_items (drop (?j + 2) (take len items)) =
      (case ?third of None \<Rightarrow> [] | Some c \<Rightarrow> ast_items c)" if "i + 1 = newLength"
    using that j Suc.prems(1,2) Cons_nth_drop_Suc [of "?j + 2" "take len items", symmetric]
    by (cases "?j + 3 = len") auto
  moreover have "?third = None" if "i + 1 \<noteq> newLength"
    using that i Suc.prems(1) by auto
  ultimately show ?case
    using i n by (subst sameHeight_pass.simps) (auto simp: Let_def)
qed

lemma sameHeight_loop_ok:
  assumes "2 \<le> len" and "len \<le> length items" and "\<And>k. k < len \<Longrightarrow> ok_at h (items ! k)"
  shows "\<exists>len' items' h'. sameHeight_loop im len items = Inr (len', items') \<and> 2 \<le> len' \<and> len' \<le> 3 \<and>
    len' \<le> length items' \<and> (\<forall>k < len'. ok_at h' (items' ! k)) \<and>
    all_items (take len' items') = all_items (take len items)"
  using assms
proof (induction len arbitrary: items h rule: less_induct)
  case (less len)
  show ?case
  proof (cases "len > 3")
    case False
    with less.prems show ?thesis
      by (subst sameHeight_loop.simps) auto
  next
    case True
    then have "len div 2 \<noteq> 0" by simp
    with sameHeight_pass_ok [of "len div 2" len items 0 h im] less.prems
    obtain items' where items': "sameHeight_pass im len (len div 2) 0 items = Inr items'"
      "length items' = length items" "\<forall>k < len div 2. ok_at (Suc h) (items' ! k)"
      "all_items (take (len div 2) items') = all_items (take len items)"
      by auto
    with less.IH [of "len div 2" items' "Suc h"] True less.prems show ?thesis
      by (subst sameHeight_loop.simps) auto
  qed
qed

lemma concat23TreesOfSameHeight_ok:
  assumes "items \<noteq> []" and "\<And>n. n \<in> set items \<Longrightarrow> ok_at h n"
  shows "\<exists>n. concat23TreesOfSameHeight items im = Inr (Some n) \<and> ast_ok n \<and>
    ast_items n = all_items items"
proof (cases "length items = 1")
  case True
  with assms show ?thesis
    by (cases items) (auto simp: concat23TreesOfSameHeight_def ok_at_def)
next
  case False
  with assms(1) have "2 \<le> length items" by (cases items) (auto simp: Suc_le_eq)
  with sameHeight_loop_ok [of "length items" items h im] assms(2)
  obtain len items' h' where loop: "sameHeight_loop im (length items) items = Inr (len, items')"
    "2 \<le> len" "len \<le> 3" "len \<le> length items'" "\<forall>k < len. ok_at h' (items' ! k)"
    "all_items (take len items') = all_items items"
    by auto
  let ?third = "if len \<ge> 3 then Some (items' ! 2) else None"
  have ok: "ok_at h' (items' ! 0)" "ok_at h' (items' ! 1)"
    using loop(2,5) by simp_all
  have third: "ok_at h' c" if "?third = Some c" for c
    using that loop(5) by (auto split: if_splits)
  obtain n where n: "ListAstNode_create23 (items' ! 0) (items' ! 1) ?third im = Inr n" "ok_at (Suc h') n"
      "ast_items n = ast_items (items' ! 0) @ ast_items (items' ! 1) @
        (case ?third of None \<Rightarrow> [] | Some c \<Rightarrow> ast_items c)"
    using create23_at [where im = im, OF ok third] by blast
  have "take len items' = items' ! 0 # items' ! 1 # (if len = 3 then [items' ! 2] else [])"
  proof -
    have "len = 2 \<or> len = 3" using loop(2,3) by auto
    then show ?thesis
      using loop(4) by (cases items'; cases "tl items'"; cases "tl (tl items')")
        (auto simp: numeral_eq_Suc)
  qed
  with n loop False \<open>2 \<le> length items\<close> show ?thesis
    by (auto simp: concat23TreesOfSameHeight_def ok_at_def)
qed

subsection \<open>Trees of different heights: proof\<close>

lemma mutable_list_getChild:
  assumes "mutable_list h cs n" and "idx < length cs"
  shows "getChild n (int idx) = Inr (Some (cs ! idx))"
proof (cases n)
  case (TwoThreeListAstNode im l h' i1 i2 i3 ids)
  with assms show ?thesis
    by (cases i3) (auto simp: mutable_list_def less_Suc_eq numeral_eq_Suc)
qed (use assms in \<open>auto simp: mutable_list_def\<close>)

lemma mutable_list_setChild:
  assumes "mutable_list h cs n" and "idx < length cs"
  shows "\<exists>n'. setChild n (int idx) c = Inr n' \<and> mutable_list h (cs[idx := c]) n'"
proof (cases n)
  case (TwoThreeListAstNode im l h' i1 i2 i3 ids)
  with assms show ?thesis
    by (cases i3) (auto simp: mutable_list_def less_Suc_eq numeral_eq_Suc)
qed (use assms in \<open>auto simp: mutable_list_def split: if_splits\<close>)

lemma makeElementMutable_updates:
  assumes "mutable_list h cs n" and "idx < length cs"
  shows "\<exists>n'. makeElementMutable n (int idx) = Inr (n', Some (toMutable (cs ! idx))) \<and>
    mutable_list h (cs[idx := toMutable (cs ! idx)]) n'"
proof -
  note m = mutable_listD [OF assms(1)]
  have len: "childrenLength n \<noteq> 0"
    using m by (auto simp: list_childrenLength)
  have mut: "(if is_list_node (cs ! idx) then toMutable (cs ! idx) else cs ! idx) = toMutable (cs ! idx)"
    by (simp add: toMutable_leaf)
  show ?thesis
  proof (cases "toMutable (cs ! idx) = cs ! idx")
    case True
    with assms len mut show ?thesis
      by (auto simp: makeElementMutable_def m(2) mutable_list_getChild Let_def)
  next
    case False
    with mutable_list_setChild [OF assms, of "toMutable (cs ! idx)"] len mut assms show ?thesis
      by (auto simp: makeElementMutable_def m(2) mutable_list_getChild Let_def)
  qed
qed

text \<open>What is left to do above a node: nothing, or one more node of its height.\<close>

definition appended :: "nat \<Rightarrow> ast list \<Rightarrow> ast \<times> ast option \<Rightarrow> bool" where
  "appended h its r \<longleftrightarrow>
     ok_at h (fst r) \<and>
     (case snd r of None \<Rightarrow> ast_items (fst r) = its
      | Some n \<Rightarrow> ok_at h n \<and> ast_items (fst r) @ ast_items n = its)"

definition prepended :: "nat \<Rightarrow> ast list \<Rightarrow> ast \<times> ast option \<Rightarrow> bool" where
  "prepended h its r \<longleftrightarrow>
     ok_at h (fst r) \<and>
     (case snd r of None \<Rightarrow> ast_items (fst r) = its
      | Some n \<Rightarrow> ok_at h n \<and> ast_items n @ ast_items (fst r) = its)"

lemma updated_list_ok_at: "updated_list h cs n \<Longrightarrow> ok_at h n"
  by (simp add: updated_list_def mutable_list_def ok_at_def)

lemma updated_list_items: "updated_list h cs n \<Longrightarrow> ast_items n = all_items cs"
  by (auto simp: updated_list_def mutable_list_def list_ast_items)

text \<open>The step upwards at a parent whose last child became \<open>c\<close>.\<close>

lemma append_step:
  assumes "mutable_list (Suc h) (bs @ [c]) parent" and "\<forall>b \<in> set bs. ok_at h b"
    and "appended h its (c, n)"
  shows "\<exists>r. (case n of
      Some n \<Rightarrow>
        if childrenLength parent \<ge> 3
        then bind_result (unappendChild parent) (\<lambda>(parent, third).
          case third of
            None \<Rightarrow> Inl TypeError
          | Some third \<Rightarrow> bind_result (ListAstNode_create23 third n None False) (\<lambda>n'.
              Inr (parent, Some n')))
        else bind_result (appendChildOfSameHeight parent n) (\<lambda>parent. Inr (parent, None))
    | None \<Rightarrow> bind_result (handleChildrenChanged parent) (\<lambda>parent. Inr (parent, None))) = Inr r \<and>
    appended (Suc h) (all_items bs @ its) r"
proof (cases n)
  case None
  with assms have "children_ok (Suc h) (bs @ [c])"
    by (auto simp: ok_at_def appended_def)
  from handleChildrenChanged_updates [OF assms(1) this] None assms(3) show ?thesis
    by (auto simp: appended_def updated_list_ok_at updated_list_items)
next
  case (Some m)
  then have m: "ok_at h c" "ok_at h m" "ast_items c @ ast_items m = its"
    using assms(3) by (auto simp: appended_def)
  note p = mutable_listD [OF assms(1)]
  show ?thesis
  proof (cases "length bs = 2")
    case True
    have "children_ok (Suc h) bs"
      using assms(2) by (simp add: ok_at_def)
    from unappendChild_updates [OF assms(1) True this]
    obtain p' where p': "unappendChild parent = Inr (p', Some c)" "updated_list (Suc h) bs p'"
      by blast
    moreover obtain n' where "ListAstNode_create23 c m None False = Inr n'" "ok_at (Suc h) n'"
      "ast_items n' = ast_items c @ ast_items m"
      using create23_at [OF m(1,2), of None False] by auto
    ultimately show ?thesis
      using True Some m(3) p
      by (auto simp: appended_def list_childrenLength updated_list_ok_at updated_list_items)
  next
    case False
    then have len: "length (bs @ [c]) = 2"
      using p(5,6) by auto
    moreover have "children_ok (Suc h) ((bs @ [c]) @ [m])"
      using assms(2) m by (simp add: ok_at_def)
    ultimately obtain p' where "appendChildOfSameHeight parent m = Inr p'"
      "updated_list (Suc h) ((bs @ [c]) @ [m]) p'"
      using appendChild_updates [OF assms(1)] by blast
    with Some len m(3) p show ?thesis
      by (auto simp: appended_def list_childrenLength updated_list_ok_at updated_list_items)
  qed
qed

lemma append_rec_ok:
  assumes "ast_ok cur" and "is_list_node cur \<longrightarrow> throwIfImmutable cur = Inr ()"
    and "ast_ok m" and "listHeight m \<le> listHeight cur"
  shows "\<exists>r. append_rec cur m = Inr r \<and> appended (listHeight cur) (ast_items cur @ ast_items m) r"
  using assms
proof (induction cur rule: measure_induct_rule [of size])
  case (less cur)
  show ?case
  proof (cases "listHeight m = listHeight cur")
    case True
    with less.prems show ?thesis
      by (subst append_rec.simps) (auto simp: appended_def ok_at_def)
  next
    case False
    with less.prems obtain h where h: "listHeight cur = Suc h" "listHeight m \<le> h"
      by (cases "listHeight cur") auto
    have lst: "is_list_node cur"
      using ast_ok_list_height [OF less.prems(1)] h by simp
    define bs c where "bs = butlast (ast_children cur)" and "c = last (ast_children cur)"
    have ch: "2 \<le> length (ast_children cur)" "length (ast_children cur) \<le> 3"
      "children_ok (Suc h) (ast_children cur)"
      using less.prems(1) lst h by (simp_all add: list_ast_ok_iff)
    then have cs: "ast_children cur = bs @ [c]"
      by (cases "ast_children cur" rule: rev_cases) (auto simp: bs_def c_def)
    have ml: "mutable_list (Suc h) (bs @ [c]) cur"
      using lst less.prems(2) ch h cs by (simp add: mutable_list_def)
    have c: "ast_ok c" "listHeight c = h" and bs: "\<forall>b \<in> set bs. ok_at h b"
      using ch cs by (auto simp: ok_at_def)
    have last: "childrenLength p - 1 = int (length bs)" if "mutable_list (Suc h) (bs @ [d]) p" for p d
      using that by (auto simp: mutable_list_def list_childrenLength)
    obtain p where p: "makeLastElementMutable cur = Inr (p, Some (toMutable c))"
      "mutable_list (Suc h) (bs @ [toMutable c]) p"
      using makeElementMutable_updates [OF ml, of "length bs"] last [OF ml]
      by (auto simp: makeLastElementMutable_def)
    have "is_list_node (toMutable c) \<longrightarrow> throwIfImmutable (toMutable c) = Inr ()"
      using toMutable_mutable_list [OF c(1)] by (auto simp: mutable_list_def)
    moreover have "size (toMutable c) < size cur"
      using size_child [of c cur] cs by simp
    ultimately obtain r where r: "append_rec (toMutable c) m = Inr r"
      "appended h (ast_items c @ ast_items m) r"
      using less.IH [of "toMutable c"] less.prems(3) c h by auto
    obtain p' where p': "setChild p (childrenLength p - 1) (fst r) = Inr p'"
      "mutable_list (Suc h) (bs @ [fst r]) p'"
      using mutable_list_setChild [OF p(2), of "length bs" "fst r"] last [OF p(2)] by auto
    have "ast_items cur @ ast_items m = all_items bs @ ast_items c @ ast_items m"
      using lst cs by (simp add: list_ast_items)
    with append_step [OF p'(2) bs, of "ast_items c @ ast_items m" "snd r"] r p p' False lst h
    show ?thesis
      by (subst append_rec.simps) (simp add: case_prod_beta)
  qed
qed

lemma concat_append_ok:
  assumes "ast_ok lst" and "ast_ok m" and "listHeight m \<le> listHeight lst"
  shows "\<exists>n. concat_append lst m = Inr n \<and> ast_ok n \<and> ast_items n = ast_items lst @ ast_items m"
proof -
  have "is_list_node (toMutable lst) \<longrightarrow> throwIfImmutable (toMutable lst) = Inr ()"
    using toMutable_mutable_list [OF assms(1)] by (auto simp: mutable_list_def)
  then obtain r where r: "append_rec (toMutable lst) m = Inr r"
    "appended (listHeight lst) (ast_items lst @ ast_items m) r"
    using append_rec_ok [of "toMutable lst" m] assms by auto
  show ?thesis
  proof (cases "snd r")
    case None
    with r show ?thesis by (simp add: concat_append_def case_prod_beta appended_def ok_at_def)
  next
    case (Some n)
    with r create23_at [of "listHeight lst" "fst r" n None False] show ?thesis
      by (auto simp: concat_append_def case_prod_beta appended_def ok_at_def)
  qed
qed

text \<open>The same at the front.\<close>

lemma prepend_step:
  assumes "mutable_list (Suc h) (c # bs) parent" and "\<forall>b \<in> set bs. ok_at h b"
    and "prepended h its (c, n)"
  shows "\<exists>r. (case n of
      Some n \<Rightarrow>
        if childrenLength parent \<ge> 3
        then bind_result (unprependChild parent) (\<lambda>(parent, first).
          case first of
            None \<Rightarrow> Inl TypeError
          | Some first \<Rightarrow> bind_result (ListAstNode_create23 n first None False) (\<lambda>n'.
              Inr (parent, Some n')))
        else bind_result (prependChildOfSameHeight parent n) (\<lambda>parent. Inr (parent, None))
    | None \<Rightarrow> bind_result (handleChildrenChanged parent) (\<lambda>parent. Inr (parent, None))) = Inr r \<and>
    prepended (Suc h) (its @ all_items bs) r"
proof (cases n)
  case None
  with assms have "children_ok (Suc h) (c # bs)"
    by (auto simp: ok_at_def prepended_def)
  from handleChildrenChanged_updates [OF assms(1) this] None assms(3) show ?thesis
    by (auto simp: prepended_def updated_list_ok_at updated_list_items)
next
  case (Some m)
  then have m: "ok_at h c" "ok_at h m" "ast_items m @ ast_items c = its"
    using assms(3) by (auto simp: prepended_def)
  note p = mutable_listD [OF assms(1)]
  show ?thesis
  proof (cases "length bs = 2")
    case True
    have "children_ok (Suc h) bs"
      using assms(2) by (simp add: ok_at_def)
    from unprependChild_updates [OF assms(1) True this]
    obtain p' where p': "unprependChild parent = Inr (p', Some c)" "updated_list (Suc h) bs p'"
      by blast
    moreover obtain n' where "ListAstNode_create23 m c None False = Inr n'" "ok_at (Suc h) n'"
      "ast_items n' = ast_items m @ ast_items c"
      using create23_at [OF m(2,1), of None False] by auto
    ultimately show ?thesis
      using True Some m(3) p
      by (auto simp: prepended_def list_childrenLength updated_list_ok_at updated_list_items)
  next
    case False
    then have len: "length (c # bs) = 2"
      using p(5,6) by auto
    moreover have "children_ok (Suc h) (m # c # bs)"
      using assms(2) m by (simp add: ok_at_def)
    ultimately obtain p' where "prependChildOfSameHeight parent m = Inr p'"
      "updated_list (Suc h) (m # c # bs) p'"
      using prependChild_updates [OF assms(1)] by blast
    with Some len m(3) p show ?thesis
      by (auto simp: prepended_def list_childrenLength updated_list_ok_at updated_list_items)
  qed
qed

lemma prepend_rec_ok:
  assumes "ast_ok cur" and "is_list_node cur \<longrightarrow> throwIfImmutable cur = Inr ()"
    and "ast_ok m" and "listHeight m \<le> listHeight cur"
  shows "\<exists>r. prepend_rec cur m = Inr r \<and> prepended (listHeight cur) (ast_items m @ ast_items cur) r"
  using assms
proof (induction cur rule: measure_induct_rule [of size])
  case (less cur)
  show ?case
  proof (cases "listHeight m = listHeight cur")
    case True
    with less.prems show ?thesis
      by (subst prepend_rec.simps) (auto simp: prepended_def ok_at_def)
  next
    case False
    with less.prems obtain h where h: "listHeight cur = Suc h" "listHeight m \<le> h"
      by (cases "listHeight cur") auto
    have lst: "is_list_node cur"
      using ast_ok_list_height [OF less.prems(1)] h by simp
    have ch: "2 \<le> length (ast_children cur)" "length (ast_children cur) \<le> 3"
      "children_ok (Suc h) (ast_children cur)"
      using less.prems(1) lst h by (simp_all add: list_ast_ok_iff)
    then obtain c bs where cs: "ast_children cur = c # bs"
      by (cases "ast_children cur") auto
    have ml: "mutable_list (Suc h) (c # bs) cur"
      using lst less.prems(2) ch h cs by (simp add: mutable_list_def)
    have c: "ast_ok c" "listHeight c = h" and bs: "\<forall>b \<in> set bs. ok_at h b"
      using ch cs by (auto simp: ok_at_def)
    obtain p where p: "makeFirstElementMutable cur = Inr (p, Some (toMutable c))"
      "mutable_list (Suc h) (toMutable c # bs) p"
      using makeElementMutable_updates [OF ml, of 0] by (auto simp: makeFirstElementMutable_def)
    have "is_list_node (toMutable c) \<longrightarrow> throwIfImmutable (toMutable c) = Inr ()"
      using toMutable_mutable_list [OF c(1)] by (auto simp: mutable_list_def)
    moreover have "size (toMutable c) < size cur"
      using size_child [of c cur] cs by simp
    ultimately obtain r where r: "prepend_rec (toMutable c) m = Inr r"
      "prepended h (ast_items m @ ast_items c) r"
      using less.IH [of "toMutable c"] less.prems(3) c h by auto
    obtain p' where p': "setChild p 0 (fst r) = Inr p'" "mutable_list (Suc h) (fst r # bs) p'"
      using mutable_list_setChild [OF p(2), of 0 "fst r"] by auto
    have "ast_items m @ ast_items cur = (ast_items m @ ast_items c) @ all_items bs"
      using lst cs by (simp add: list_ast_items)
    with prepend_step [OF p'(2) bs, of "ast_items m @ ast_items c" "snd r"] r p p' False lst h
    show ?thesis
      by (subst prepend_rec.simps) (simp add: case_prod_beta)
  qed
qed

lemma concat_prepend_ok:
  assumes "ast_ok lst" and "ast_ok m" and "listHeight m \<le> listHeight lst"
  shows "\<exists>n. concat_prepend lst m = Inr n \<and> ast_ok n \<and> ast_items n = ast_items m @ ast_items lst"
proof -
  have "is_list_node (toMutable lst) \<longrightarrow> throwIfImmutable (toMutable lst) = Inr ()"
    using toMutable_mutable_list [OF assms(1)] by (auto simp: mutable_list_def)
  then obtain r where r: "prepend_rec (toMutable lst) m = Inr r"
    "prepended (listHeight lst) (ast_items m @ ast_items lst) r"
    using prepend_rec_ok [of "toMutable lst" m] assms by auto
  show ?thesis
  proof (cases "snd r")
    case None
    with r show ?thesis by (simp add: concat_prepend_def case_prod_beta prepended_def ok_at_def)
  next
    case (Some n)
    with r create23_at [of "listHeight lst" n "fst r" None False] show ?thesis
      by (auto simp: concat_prepend_def case_prod_beta prepended_def ok_at_def)
  qed
qed

lemma concat_nodes_ok:
  assumes "ast_ok n1" and "ast_ok n2"
  shows "\<exists>n. concat_nodes n1 n2 = Inr n \<and> ast_ok n \<and> ast_items n = ast_items n1 @ ast_items n2"
  using assms create23_at [of "listHeight n1" n1 n2 None False]
    concat_append_ok [of n1 n2] concat_prepend_ok [of n2 n1]
  by (auto simp: concat_nodes_def ok_at_def)

subsection \<open>Lists of trees: proof\<close>

lemma same_height_end_spec:
  assumes "i \<le> length items"
  shows "same_height_end items h i \<le> length items \<and>
    (\<forall>k. i \<le> k \<and> k < same_height_end items h i \<longrightarrow> listHeight (items ! k) = h)"
  using assms
proof (induction items h i rule: same_height_end.induct)
  case (1 items h i)
  show ?case
  proof (cases "i < length items \<and> listHeight (items ! i) = h")
    case True
    then have "same_height_end items h i = same_height_end items h (i + 1)"
      by (simp add: same_height_end.simps [of items h i])
    moreover have "same_height_end items h (i + 1) \<le> length items"
      "\<And>k. i + 1 \<le> k \<Longrightarrow> k < same_height_end items h (i + 1) \<Longrightarrow> listHeight (items ! k) = h"
      using "1.IH" [OF True] True by simp_all
    ultimately show ?thesis
      using True by (metis Suc_eq_plus1 Suc_leI le_eq_less_or_eq)
  next
    case False
    then have "same_height_end items h i = i"
      by (auto simp: same_height_end.simps [of items h i])
    with "1.prems" show ?thesis by simp
  qed
qed

lemma readNode_ok:
  assumes "\<forall>n \<in> set items. ast_ok n" and "i \<le> length items"
  shows "\<exists>r i'. readNode items i = Inr (r, i') \<and> i' \<le> length items \<and>
    (case r of None \<Rightarrow> i = length items \<and> i' = i
     | Some n \<Rightarrow> i < i' \<and> ast_ok n \<and> ast_items n = all_items (drop i (take i' items)))"
proof (cases "i = length items")
  case True
  then show ?thesis by (simp add: readNode_def)
next
  case False
  let ?h = "listHeight (items ! i)"
  define e where "e = same_height_end items ?h (i + 1)"
  have i: "i < length items" using False assms(2) by simp
  have e: "i < e" "e \<le> length items"
    unfolding e_def using same_height_end_ge [of "i + 1" items ?h] same_height_end_spec [of "i + 1" items ?h] i by simp_all
  have h: "listHeight (items ! k) = ?h" if "i \<le> k" "k < e" for k
    using same_height_end_spec [of "i + 1" items ?h] that i unfolding e_def by (cases "k = i") auto
  let ?part = "drop i (take e items)"
  have slice: "(if i = 0 \<and> e = length items then items else js_slice items (int i) (int e)) = ?part"
    using e by (auto simp: js_slice_in_range drop_take)
  have "ok_at ?h n" if "n \<in> set ?part" for n
  proof -
    from that obtain k where "k < length ?part" "?part ! k = n"
      unfolding in_set_conv_nth by blast
    then have "n = items ! (i + k)" "i + k < e"
      using e by auto
    with h [of "i + k"] assms(1) e show ?thesis
      by (simp add: ok_at_def)
  qed
  moreover have "?part \<noteq> []" using e i by simp
  ultimately obtain n where n: "concat23TreesOfSameHeight ?part False = Inr (Some n)" "ast_ok n"
    "ast_items n = all_items ?part"
    using concat23TreesOfSameHeight_ok [of ?part ?h False] by blast
  show ?thesis
  proof (cases "e - i \<ge> 2")
    case True
    with n(1) i have "readNode items i = Inr (Some n, e)"
      unfolding readNode_def Let_def e_def [symmetric] slice by simp
    with n e show ?thesis by simp
  next
    case single: False
    then have "e = Suc i" using e by simp
    then have "?part = [items ! i]"
      using i by (simp add: take_Suc_conv_app_nth)
    moreover have "readNode items i = Inr (Some (items ! i), e)"
      using single i unfolding readNode_def Let_def e_def [symmetric] by simp
    ultimately show ?thesis
      using e i assms(1) by simp
  qed
qed

lemma concat_loop_ok:
  assumes "\<forall>n \<in> set items. ast_ok n" and "i \<le> length items" and "ast_ok first" "ast_ok second"
  shows "\<exists>n. concat_loop items i first second = Inr n \<and> ast_ok n \<and>
    ast_items n = ast_items first @ ast_items second @ all_items (drop i items)"
  using assms(2-)
proof (induction "length items - i" arbitrary: i first second rule: less_induct)
  case less
  from readNode_ok [OF assms(1) less.prems(1)] obtain r i' where r: "readNode items i = Inr (r, i')"
    "i' \<le> length items" "case r of None \<Rightarrow> i = length items \<and> i' = i
     | Some n \<Rightarrow> i < i' \<and> ast_ok n \<and> ast_items n = all_items (drop i (take i' items))"
    by blast
  show ?case
  proof (cases r)
    case None
    with r less.prems concat_nodes_ok [of first second] show ?thesis
      by (subst concat_loop.simps) auto
  next
    case (Some item)
    then have item: "i < i'" "ast_ok item" "ast_items item = all_items (drop i (take i' items))"
      using r(3) by auto
    then have rest: "ast_items item @ all_items (drop i' items) = all_items (drop i items)"
      by (metis append_take_drop_id concat_append drop_append length_take less_imp_le map_append
          min.absorb2 r(2) diff_is_0_eq drop0)
    have smaller: "length items - i' < length items - i"
      using item(1) r(2) by simp
    obtain f where f: "concat_nodes first second = Inr f" "ast_ok f"
      "ast_items f = ast_items first @ ast_items second"
      using concat_nodes_ok less.prems by blast
    obtain s where s: "concat_nodes second item = Inr s" "ast_ok s"
      "ast_items s = ast_items second @ ast_items item"
      using concat_nodes_ok less.prems item(2) by blast
    show ?thesis
      using less.hyps [OF smaller r(2), of f item] less.hyps [OF smaller r(2), of first s]
        less.prems item(2) f s r(1) Some rest
      by (subst concat_loop.simps) auto
  qed
qed

lemma concat23Trees_ok:
  assumes "items \<noteq> []" and "\<forall>n \<in> set items. ast_ok n"
  shows "\<exists>n. concat23Trees items = Inr (Some n) \<and> ast_ok n \<and> ast_items n = all_items items"
proof (cases "length items = 1")
  case True
  with assms show ?thesis
    by (cases items) (auto simp: concat23Trees_def)
next
  case False
  from readNode_ok [OF assms(2), of 0] assms(1) obtain first i where
    first: "readNode items 0 = Inr (Some first, i)" "i \<le> length items" "ast_ok first"
      "ast_items first = all_items (take i items)"
    by (auto split: option.splits)
  from readNode_ok [OF assms(2) first(2)] obtain r i' where r: "readNode items i = Inr (r, i')"
    "i' \<le> length items" "case r of None \<Rightarrow> i = length items \<and> i' = i
     | Some n \<Rightarrow> i < i' \<and> ast_ok n \<and> ast_items n = all_items (drop i (take i' items))"
    by blast
  show ?thesis
  proof (cases r)
    case None
    with first r False assms(1) show ?thesis
      by (simp add: concat23Trees_def)
  next
    case (Some second)
    have "all_items (take i items) @ all_items (drop i (take i' items)) @ all_items (drop i' items) =
        all_items items"
      using Some r(2,3) by (metis (no_types, lifting) append_assoc append_take_drop_id concat_append drop_take
          map_append min.absorb1 option.simps(5) order.strict_implies_order take_take)
    with Some first r False assms concat_loop_ok [OF assms(2) r(2), of first second] show ?thesis
      by (auto simp: concat23Trees_def)
  qed
qed

subsection \<open>Length and height of a tree\<close>

lemma ast_length_sum_items:
  assumes "ast_ok n" and "columns_fit (map ast_length (ast_items n))"
  shows "ast_length n = foldl lengthAdd 0 (map ast_length (ast_items n))"
  using assms
proof (induction n rule: ast_children_induct)
  case (node n)
  show ?case
  proof (cases "is_list_node n")
    case False
    then show ?thesis by (simp add: leaf_ast_items)
  next
    case True
    have fold: "foldl lengthAdd 0 (map ast_length cs) = foldl lengthAdd 0 (map ast_length (all_items cs))"
      if "set cs \<subseteq> set (ast_children n)" "columns_fit (map ast_length (all_items cs))" for cs
      using that
    proof (induction cs rule: rev_induct)
      case (snoc c cs)
      then have fit: "columns_fit (map ast_length (all_items cs) @ map ast_length (ast_items c))"
        by simp
      have "ast_length c = foldl lengthAdd 0 (map ast_length (ast_items c))"
        using node.IH [of c] snoc.prems(1) ast_ok_child [OF node.prems(1), of c]
          columns_fit_append [OF fit] by simp
      with snoc.IH snoc.prems(1) columns_fit_append [OF fit] foldl_lengthAdd_append [OF fit] show ?case
        by simp
    qed simp
    from True node.prems have "cached_ok n" by (simp add: list_ast_ok_iff)
    with fold [of "ast_children n"] node.prems(2) True show ?thesis
      by (simp add: cached_ok_def list_ast_items)
  qed
qed

lemma length_concat_bounds:
  assumes "\<forall>x \<in> set xs. lo \<le> length (f x) \<and> length (f x) \<le> hi"
  shows "length xs * lo \<le> length (concat (map f xs)) \<and> length (concat (map f xs)) \<le> length xs * hi"
  using assms by (induction xs) auto

lemma ast_items_height:
  assumes "ast_ok n"
  shows "2 ^ listHeight n \<le> length (ast_items n) \<and> length (ast_items n) \<le> 3 ^ listHeight n"
  using assms
proof (induction n rule: ast_children_induct)
  case (node n)
  show ?case
  proof (cases "is_list_node n")
    case False
    then show ?thesis by (simp add: leaf_ast_items leaf_listHeight)
  next
    case True
    note ok = node.prems [unfolded list_ast_ok_iff [OF True]]
    then obtain h where h: "listHeight n = Suc h"
      by (cases "ast_children n") auto
    have each: "2 ^ h \<le> length (ast_items c) \<and> length (ast_items c) \<le> 3 ^ h"
      if "c \<in> set (ast_children n)" for c
      using node.IH [OF that] ok that h by auto
    have "length (ast_children n) * 2 ^ h \<le> length (all_items (ast_children n)) \<and>
        length (all_items (ast_children n)) \<le> length (ast_children n) * 3 ^ h"
      using each by (intro length_concat_bounds) auto
    moreover have "2 * 2 ^ h \<le> length (ast_children n) * (2 ^ h :: nat)"
      "length (ast_children n) * (3 ^ h :: nat) \<le> 3 * 3 ^ h"
      using ok by (simp_all only: mult_le_mono1)
    ultimately show ?thesis
      unfolding h list_ast_items [OF True] power_Suc by (meson order.trans)
  qed
qed

lemma ast_ids_items:
  assumes "ast_ok n"
  shows "has_key k (missingOpeningBracketIds n) \<longleftrightarrow>
    (\<exists>i \<in> set (ast_items n). has_key k (missingOpeningBracketIds i))"
  using assms
proof (induction n rule: ast_children_induct)
  case (node n)
  show ?case
  proof (cases "is_list_node n")
    case False
    then show ?thesis by (simp add: leaf_ast_items)
  next
    case True
    with node.prems have "cached_ok n" by (simp add: list_ast_ok_iff)
    with True node ast_ok_child [OF node.prems] show ?thesis
      by (auto simp: cached_ok_def list_ast_items ids.member_fold_merge)
  qed
qed

subsection \<open>Properties\<close>

text \<open>C21: Concatenating well-formed (2,3) trees of any heights returns a well-formed (2,3) tree: no
  node that must not be mutated is mutated and no list overflows, every list has two or three
  children of the same height with the right cached length and bracket ids, and its leaves are the
  leaves of the trees in order.\<close>

theorem concat23Trees_correct:
  assumes "items \<noteq> []" and "\<forall>n \<in> set items. ast_ok n"
  shows "\<exists>n. concat23Trees items = Inr (Some n) \<and> ast_ok n \<and>
    ast_items n = concat (map ast_items items)"
  using assms by (rule concat23Trees_ok)

theorem concat23Trees_correct_witness:
  "\<exists>n. concat23Trees
      [TextAstNode 3,
       TwoThreeListAstNode True 7 1 (TextAstNode 1) (TextAstNode 2) (Some (TextAstNode 4)) SmallImmutableSet_getEmpty,
       TextAstNode 5] = Inr (Some n) \<and> ast_ok n \<and>
    ast_items n = concat (map ast_items
      [TextAstNode 3,
       TwoThreeListAstNode True 7 1 (TextAstNode 1) (TextAstNode 2) (Some (TextAstNode 4)) SmallImmutableSet_getEmpty,
       TextAstNode 5])"
  by (rule concat23Trees_correct; code_simp)

text \<open>The height of a concatenation is logarithmic in the number of its leaves, and its length is
  the sum of the lengths of the leaves when their columns together stay below \<open>2^26\<close>.\<close>

lemma concat23Trees_balanced:
  assumes "concat23Trees items = Inr (Some n)" and "\<forall>n \<in> set items. ast_ok n"
    and "columns_fit (map ast_length (concat (map ast_items items)))"
  shows "2 ^ listHeight n \<le> length (concat (map ast_items items)) \<and>
    length (concat (map ast_items items)) \<le> 3 ^ listHeight n \<and>
    ast_length n = sumLengths (concat (map ast_items items)) ast_length"
proof -
  have "items \<noteq> []" using assms(1) by (auto simp: concat23Trees_def)
  with concat23Trees_ok [OF _ assms(2)] assms(1) have "ast_ok n" "ast_items n = all_items items"
    by auto
  with ast_items_height [of n] ast_length_sum_items [of n] assms(3) show ?thesis
    by (simp add: sumLengths_eq)
qed

end
