(* ===== verification/EditMapper.thy ===== *)
theory EditMapper
  imports BracketLength
begin

section \<open>Positions before the edits: \<open>.../bracketPairsTree/beforeEditPositionMapper.ts\<close>\<close>

text \<open>
  While the parser walks over the new text it asks, for offsets that only grow, where the text was
  before the edits. The mapper keeps the number of the next edit and the shift of lines, and of the
  columns of one line, that the edits before it cause.
\<close>

record text_edit_info =
  startOffset :: bracket_length
  endOffset :: bracket_length
  newLength_ei :: bracket_length

definition TextEditInfo_fromModelContentChanges :: "content_change list \<Rightarrow> text_edit_info list" where
  "TextEditInfo_fromModelContentChanges changes =
     rev (map (\<lambda>c. let r = the (Range_lift (Some (ch_range c)))
                   in \<lparr>startOffset = positionToLength (Range_getStartPosition r),
                       endOffset = positionToLength (Range_getEndPosition r),
                       newLength_ei = lengthOfString (ch_text c)\<rparr>) changes)"

record text_edit_info_cache =
  endOffsetBeforeObj :: text_length
  endOffsetAfterObj :: text_length
  offsetObj :: text_length

definition TextEditInfoCache_from :: "text_edit_info \<Rightarrow> text_edit_info_cache" where
  "TextEditInfoCache_from edit =
     \<lparr>endOffsetBeforeObj = lengthToObj (endOffset edit),
      endOffsetAfterObj = lengthToObj (lengthAdd (startOffset edit) (newLength_ei edit)),
      offsetObj = lengthToObj (startOffset edit)\<rparr>"

record edit_mapper =
  nextEditIdx :: nat
  deltaOldToNewLineCount :: int
  deltaOldToNewColumnCount :: int
  deltaLineIdxInOld :: int
  em_edits :: "text_edit_info_cache list"

definition BeforeEditPositionMapper :: "text_edit_info list \<Rightarrow> edit_mapper" where
  "BeforeEditPositionMapper edits =
     \<lparr>nextEditIdx = 0, deltaOldToNewLineCount = 0, deltaOldToNewColumnCount = 0,
      deltaLineIdxInOld = -1, em_edits = map TextEditInfoCache_from edits\<rparr>"

definition translateOldToCur :: "edit_mapper \<Rightarrow> text_length \<Rightarrow> bracket_length" where
  "translateOldToCur this oldOffsetObj =
     (if lineCount oldOffsetObj = deltaLineIdxInOld this
      then toLength (lineCount oldOffsetObj + deltaOldToNewLineCount this)
             (columnCount oldOffsetObj + deltaOldToNewColumnCount this)
      else toLength (lineCount oldOffsetObj + deltaOldToNewLineCount this) (columnCount oldOffsetObj))"

definition translateCurToOld :: "edit_mapper \<Rightarrow> bracket_length \<Rightarrow> bracket_length" where
  "translateCurToOld this newOffset =
     (let offsetObj = lengthToObj newOffset
      in if lineCount offsetObj - deltaOldToNewLineCount this = deltaLineIdxInOld this
         then toLength (lineCount offsetObj - deltaOldToNewLineCount this)
                (columnCount offsetObj - deltaOldToNewColumnCount this)
         else toLength (lineCount offsetObj - deltaOldToNewLineCount this) (columnCount offsetObj))"

text \<open>The body of the loop in \<open>adjustNextEdit\<close> for an edit that lies behind.\<close>

definition skipEdit :: "edit_mapper \<Rightarrow> text_edit_info_cache \<Rightarrow> edit_mapper" where
  "skipEdit this nextEdit =
     (let nextEditEndOffsetInCurObj = lengthToObj (translateOldToCur this (endOffsetAfterObj nextEdit));
          nextEditEndOffsetBeforeInCurObj =
            lengthToObj (translateOldToCur this (endOffsetBeforeObj nextEdit));
          lineDelta = lineCount nextEditEndOffsetInCurObj - lineCount nextEditEndOffsetBeforeInCurObj;
          previousColumnDelta =
            (if deltaLineIdxInOld this = lineCount (endOffsetBeforeObj nextEdit)
             then deltaOldToNewColumnCount this else 0);
          columnDelta = columnCount nextEditEndOffsetInCurObj - columnCount nextEditEndOffsetBeforeInCurObj
      in this\<lparr>nextEditIdx := nextEditIdx this + 1,
              deltaOldToNewLineCount := deltaOldToNewLineCount this + lineDelta,
              deltaOldToNewColumnCount := previousColumnDelta + columnDelta,
              deltaLineIdxInOld := lineCount (endOffsetBeforeObj nextEdit)\<rparr>)"

lemma skipEdit_simps [simp]:
  "nextEditIdx (skipEdit this e) = nextEditIdx this + 1" "em_edits (skipEdit this e) = em_edits this"
  by (simp_all add: skipEdit_def Let_def)

function adjustNextEdit :: "edit_mapper \<Rightarrow> bracket_length \<Rightarrow> edit_mapper" where
  "adjustNextEdit this offset =
     (if nextEditIdx this < length (em_edits this)
      then let nextEdit = em_edits this ! nextEditIdx this
           in if lengthLessThanEqual (translateOldToCur this (endOffsetAfterObj nextEdit)) offset
              then adjustNextEdit (skipEdit this nextEdit) offset
              else this
      else this)"
  by pat_completeness auto
termination by (relation "measure (\<lambda>(this, _). length (em_edits this) - nextEditIdx this)") auto

declare adjustNextEdit.simps [simp del]

definition getOffsetBeforeChange :: "edit_mapper \<Rightarrow> bracket_length \<Rightarrow> bracket_length \<times> edit_mapper" where
  "getOffsetBeforeChange this offset =
     (let this = adjustNextEdit this offset in (translateCurToOld this offset, this))"

definition getDistanceToNextChange ::
  "edit_mapper \<Rightarrow> bracket_length \<Rightarrow> bracket_length option \<times> edit_mapper" where
  "getDistanceToNextChange this offset =
     (let this = adjustNextEdit this offset
      in if nextEditIdx this < length (em_edits this)
         then (Some (lengthDiffNonNegative offset
                 (translateOldToCur this (offsetObj (em_edits this ! nextEditIdx this)))), this)
         else (None, this))"

subsection \<open>The position an edit list gives to unchanged text\<close>

text \<open>
  The reference, on text lengths: behind an edit that ended at \<open>e\<close> in the old text and ends at
  \<open>c\<close> in the new one, the position \<open>p\<close> moves by what separates it from \<open>e\<close>.
\<close>

definition shift :: "text_length \<Rightarrow> text_length \<Rightarrow> text_length \<Rightarrow> text_length" where
  "shift e c p = TextLength_add c (TextLength_lengthDiffNonNegative e p)"

fun new_pos :: "text_length \<Rightarrow> text_length \<Rightarrow> text_edit_info list \<Rightarrow> text_length \<Rightarrow> text_length" where
  "new_pos e c [] p = shift e c p"
| "new_pos e c (x # xs) p =
     (if TextLength_isLessThan p (lengthToObj (startOffset x)) then shift e c p
      else new_pos (lengthToObj (endOffset x))
             (TextLength_add (shift e c (lengthToObj (startOffset x))) (lengthToObj (newLength_ei x))) xs p)"

definition tl_le :: "text_length \<Rightarrow> text_length \<Rightarrow> bool" where
  "tl_le a b \<longleftrightarrow> \<not> TextLength_isLessThan b a"

text \<open>The edits are sorted and do not overlap; a position is outside of them.\<close>

fun edits_sorted :: "text_length \<Rightarrow> text_edit_info list \<Rightarrow> bool" where
  "edits_sorted e [] \<longleftrightarrow> True"
| "edits_sorted e (x # xs) \<longleftrightarrow>
     0 \<le> startOffset x \<and> 0 \<le> endOffset x \<and> 0 \<le> newLength_ei x \<and>
     tl_le e (lengthToObj (startOffset x)) \<and> startOffset x \<le> endOffset x \<and>
     edits_sorted (lengthToObj (endOffset x)) xs"

definition outside :: "text_edit_info list \<Rightarrow> text_length \<Rightarrow> bool" where
  "outside es p \<longleftrightarrow>
     (\<forall>x \<in> set es. TextLength_isLessThan p (lengthToObj (startOffset x)) \<or> tl_le (lengthToObj (endOffset x)) p)"

text \<open>No column of the new text reaches the factor: all columns together stay below it.\<close>

definition edit_columns :: "text_edit_info \<Rightarrow> int" where
  "edit_columns x = startOffset x mod factor + endOffset x mod factor + newLength_ei x mod factor"

definition room :: "text_length \<Rightarrow> text_edit_info list \<Rightarrow> text_length \<Rightarrow> bool" where
  "room c es p \<longleftrightarrow> columnCount c + (\<Sum>x \<leftarrow> es. edit_columns x) + columnCount p < factor"

abbreviation pack :: "text_length \<Rightarrow> bracket_length" where
  "pack l \<equiv> toLength (lineCount l) (columnCount l)"

lemmas tl_defs = tl_le_def TextLength_isLessThan_def

lemma tl_le_trans: "tl_le a b \<Longrightarrow> tl_le b c \<Longrightarrow> tl_le a c"
  by (auto simp: tl_defs split: if_splits)

lemma tl_le_refl [simp]: "tl_le a a"
  by (simp add: tl_defs)

lemma shift_eq:
  "tl_le e p \<Longrightarrow> shift e c p =
     (if lineCount p = lineCount e then TextLength (lineCount c) (columnCount c + columnCount p - columnCount e)
      else TextLength (lineCount c + lineCount p - lineCount e) (columnCount p))"
  by (auto simp: shift_def TextLength_add_def TextLength_lengthDiffNonNegative_def tl_defs split: if_splits)

lemma pack_less_iff:
  assumes "packable a" and "packable b"
  shows "pack a < pack b \<longleftrightarrow> TextLength_isLessThan a b" "pack a \<le> pack b \<longleftrightarrow> tl_le a b"
  using assms by (auto simp: packable_def toLength_def packed_less_iff tl_defs)

lemma packable_pack: "packable a \<Longrightarrow> lengthToObj (pack a) = a"
  by (cases a) (auto intro: lengthToObj_toLength)

lemma packed_le_tl_le: "0 \<le> l1 \<Longrightarrow> 0 \<le> l2 \<Longrightarrow> l1 \<le> l2 \<longleftrightarrow> tl_le (lengthToObj l1) (lengthToObj l2)"
  using lengthLessThan_refines [of l2 l1] by (auto simp: tl_le_def lengthLessThan_def)

text \<open>The mapper stands behind an edit that ended at \<open>e\<close> and now ends at \<open>c\<close>, or at the start.\<close>

definition mapper_at :: "text_length \<Rightarrow> text_length \<Rightarrow> edit_mapper \<Rightarrow> bool" where
  "mapper_at e c m \<longleftrightarrow>
     deltaOldToNewLineCount m = lineCount c - lineCount e \<and>
     (deltaLineIdxInOld m = lineCount e \<and> deltaOldToNewColumnCount m = columnCount c - columnCount e \<or>
      deltaLineIdxInOld m < lineCount e \<and> columnCount c = columnCount e)"

lemma translateOldToCur_eq:
  assumes "mapper_at e c m" and "tl_le e p"
  shows "translateOldToCur m p = pack (shift e c p)"
  using assms
  by (auto simp: mapper_at_def translateOldToCur_def shift_eq tl_defs toLength_def split: if_splits)

lemma translateCurToOld_eq:
  assumes "mapper_at e c m" and "tl_le c q" and "packable q"
  shows "translateCurToOld m (pack q) = pack (shift c e q)"
proof -
  let ?l = "lineCount q - deltaOldToNewLineCount m"
  have l: "?l = lineCount e + lineCount q - lineCount c"
    using assms(1) by (simp add: mapper_at_def)
  have le: "lineCount c \<le> lineCount q"
    using assms(2) by (auto simp: tl_defs split: if_splits)
  have "translateCurToOld m (pack q) =
      (if ?l = deltaLineIdxInOld m then toLength ?l (columnCount q - deltaOldToNewColumnCount m)
       else toLength ?l (columnCount q))"
    by (simp add: translateCurToOld_def packable_pack [OF assms(3)] Let_def)
  also have "\<dots> = pack (shift c e q)"
  proof (cases "deltaLineIdxInOld m = lineCount e \<and>
      deltaOldToNewColumnCount m = columnCount c - columnCount e")
    case True
    then show ?thesis
      unfolding l shift_eq [OF assms(2)] by (simp add: add_diff_eq diff_diff_eq2 add.commute)
  next
    case False
    with assms(1) have "deltaLineIdxInOld m < lineCount e" "columnCount c = columnCount e"
      by (auto simp: mapper_at_def)
    then show ?thesis
      using le unfolding l shift_eq [OF assms(2)] by simp
  qed
  finally show ?thesis .
qed

lemma shift_inverse: "tl_le e p \<Longrightarrow> shift c e (shift e c p) = p"
  by (cases p) (auto simp: shift_eq tl_defs split: if_splits)

lemma shift_ge: "tl_le e p \<Longrightarrow> tl_le c (shift e c p)"
  by (auto simp: shift_eq tl_defs split: if_splits)

lemma shift_mono: "tl_le e p \<Longrightarrow> TextLength_isLessThan p q \<Longrightarrow>
    TextLength_isLessThan (shift e c p) (shift e c q)"
  by (auto simp: shift_eq tl_defs split: if_splits)

lemma add_ge: "valid_length b \<Longrightarrow> tl_le a (TextLength_add a b)"
  by (auto simp: TextLength_add_def tl_defs valid_length_def split: if_splits)

lemma tl_le_lines: "tl_le a b \<Longrightarrow> lineCount a \<le> lineCount b"
  by (auto simp: tl_defs split: if_splits)

lemma shift_add_length:
  assumes "tl_le e s" and "valid_length n"
  shows "shift e c (TextLength_add s n) = TextLength_add (shift e c s) n"
proof -
  have le: "tl_le e (TextLength_add s n)"
    using assms add_ge tl_le_trans by blast
  show ?thesis
  proof (cases "lineCount n = 0")
    case True
    then show ?thesis
      using assms(1) le by (simp add: shift_eq) (simp add: TextLength_add_def)
  next
    case False
    with assms have "lineCount e < lineCount (TextLength_add s n)"
      using tl_le_lines [OF assms(1)] by (simp add: TextLength_add_def valid_length_def)
    with False assms(1) le show ?thesis
      by (simp add: shift_eq) (simp add: TextLength_add_def)
  qed
qed

lemma edit_columns_nonneg [simp]: "0 \<le> edit_columns x"
  by (simp add: edit_columns_def)

lemma sum_edit_columns_nonneg: "0 \<le> (\<Sum>x \<leftarrow> es. edit_columns x)"
  by (rule sum_list_nonneg) auto

lemma packable_valid: "packable l \<Longrightarrow> valid_length l"
  by (simp add: packable_def valid_length_def)

text \<open>The end of an edit in the new text, and the mapper behind it.\<close>

lemma skipEdit_at:
  assumes m: "mapper_at e c m" and x: "edits_sorted e (x # xs)" and room: "room c (x # xs) p"
    and c: "packable c" and e: "packable e" and p: "0 \<le> columnCount p"
  defines "c' \<equiv> TextLength_add (shift e c (lengthToObj (startOffset x))) (lengthToObj (newLength_ei x))"
  shows "translateOldToCur m (endOffsetAfterObj (TextEditInfoCache_from x)) = pack c'"
    "mapper_at (lengthToObj (endOffset x)) c' (skipEdit m (TextEditInfoCache_from x))"
    "packable c'" "room c' xs p" "tl_le c c'"
proof -
  let ?s = "lengthToObj (startOffset x)" and ?e = "lengthToObj (endOffset x)"
    and ?n = "lengthToObj (newLength_ei x)"
  have pk: "packable ?s" "packable ?e" "packable ?n" and le: "tl_le e ?s" "tl_le ?s ?e"
    using x by (auto simp: packed_le_tl_le [symmetric])
  have cols: "columnCount ?s = startOffset x mod factor" "columnCount ?e = endOffset x mod factor"
    "columnCount ?n = newLength_ei x mod factor"
    by (simp_all add: lengthToObj_eq)
  have sum: "columnCount c + columnCount ?s + columnCount ?e + columnCount ?n +
      (\<Sum>x \<leftarrow> xs. edit_columns x) + columnCount p < factor"
    using room by (simp add: room_def edit_columns_def cols)
  note bounds = sum_edit_columns_nonneg [of xs] pk c e p
  have "columnCount ?s + columnCount ?n < factor"
    using sum bounds by (simp add: packable_def)
  then have "no_carry (startOffset x) (newLength_ei x)"
    using x unfolding no_carry_def cols by (cases "factor \<le> newLength_ei x") auto
  then have after: "endOffsetAfterObj (TextEditInfoCache_from x) = TextLength_add ?s ?n"
    using x by (simp add: TextEditInfoCache_from_def lengthAdd_refines)
  have before: "endOffsetBeforeObj (TextEditInfoCache_from x) = ?e"
    by (simp add: TextEditInfoCache_from_def)
  have shift_add: "shift e c (TextLength_add ?s ?n) = c'"
    unfolding c'_def using le(1) packable_valid [OF pk(3)] by (rule shift_add_length)
  have trans: "translateOldToCur m (endOffsetAfterObj (TextEditInfoCache_from x)) = pack c'"
    using translateOldToCur_eq [OF m, of "TextLength_add ?s ?n"] after shift_add
      tl_le_trans [OF le(1) add_ge [OF packable_valid [OF pk(3)]]] by simp
  then show "translateOldToCur m (endOffsetAfterObj (TextEditInfoCache_from x)) = pack c'" .
  have ss: "shift e c ?s = (if lineCount ?s = lineCount e
      then TextLength (lineCount c) (columnCount c + columnCount ?s - columnCount e)
      else TextLength (lineCount c + lineCount ?s - lineCount e) (columnCount ?s))"
    using le(1) by (rule shift_eq)
  have c'_cols: "columnCount c' \<le> columnCount c + columnCount ?s + columnCount ?n" "0 \<le> columnCount c'"
    "0 \<le> lineCount c'"
    using bounds le(1) by (auto simp: c'_def ss TextLength_add_def tl_defs packable_def split: if_splits)
  then show pk': "packable c'"
    using sum bounds by (simp add: packable_def)
  show "room c' xs p"
    using c'_cols sum bounds by (simp add: room_def packable_def)
  show "tl_le c c'"
    using tl_le_trans [OF shift_ge [OF le(1)] add_ge [OF packable_valid [OF pk(3)]]] by (simp add: c'_def)
  have le': "tl_le e ?e" using le tl_le_trans by blast
  have se: "shift e c ?e = (if lineCount ?e = lineCount e
      then TextLength (lineCount c) (columnCount c + columnCount ?e - columnCount e)
      else TextLength (lineCount c + lineCount ?e - lineCount e) (columnCount ?e))"
    using le' by (rule shift_eq)
  have "packable (shift e c ?e)"
    using sum bounds le' by (auto simp: se packable_def tl_defs split: if_splits)
  then have unp: "lengthToObj (translateOldToCur m ?e) = shift e c ?e" "lengthToObj (pack c') = c'"
    using translateOldToCur_eq [OF m le'] packable_pack pk' by simp_all
  show "mapper_at ?e c' (skipEdit m (TextEditInfoCache_from x))"
    using m unp trans before se tl_le_lines [OF le'] unfolding mapper_at_def skipEdit_def Let_def
    by (auto split: if_splits)
qed

text \<open>Where the mapper stands: the edits that are left, and what it has passed.\<close>

definition mapper_state :: "text_length \<Rightarrow> text_length \<Rightarrow> text_edit_info list \<Rightarrow> edit_mapper \<Rightarrow> bool" where
  "mapper_state e c es m \<longleftrightarrow>
     mapper_at e c m \<and> packable e \<and> packable c \<and> edits_sorted e es \<and>
     nextEditIdx m \<le> length (em_edits m) \<and>
     drop (nextEditIdx m) (em_edits m) = map TextEditInfoCache_from es"

lemma drop_eq_Cons: "drop n xs = y # ys \<Longrightarrow> n < length xs \<and> xs ! n = y \<and> drop (Suc n) xs = ys"
  by (metis Cons_nth_drop_Suc drop_all leI list.discI list.inject)

lemma new_pos_ge:
  assumes "edits_sorted e es" and "tl_le e p" and "outside es p"
  shows "tl_le c (new_pos e c es p)"
  using assms
proof (induction es arbitrary: e c)
  case Nil
  then show ?case by (simp add: shift_ge)
next
  case (Cons x xs)
  have n: "valid_length (lengthToObj (newLength_ei x))"
    using Cons.prems(1) by (simp add: packable_valid)
  have "tl_le c (TextLength_add (shift e c (lengthToObj (startOffset x))) (lengthToObj (newLength_ei x)))"
    using Cons.prems(1) tl_le_trans [OF shift_ge add_ge [OF n]] by simp
  moreover have "outside xs p" using Cons.prems(3) by (simp add: outside_def)
  ultimately show ?case
    using Cons.prems Cons.IH [of "lengthToObj (endOffset x)"] tl_le_trans
    by (auto simp: shift_ge outside_def)
qed

lemma packable_shift:
  assumes "packable c" and "packable e" and "packable p" and "tl_le e p"
    and "columnCount c + columnCount p < factor"
  shows "packable (shift e c p)"
  using assms tl_le_lines [OF assms(4)]
  by (auto simp: shift_eq packable_def tl_defs split: if_splits)

text \<open>
  The loop passes exactly the edits that end before the position, and leaves the mapper where the
  rest of the edits gives the same positions.
\<close>

lemma adjustNextEdit_stops:
  assumes "mapper_state e c es m" and "tl_le e p" and "outside es p" and "packable p" and "room c es p"
  shows "\<exists>e' c' es'. mapper_state e' c' es' (adjustNextEdit m (pack (new_pos e c es p))) \<and>
    tl_le e' p \<and> new_pos e c es p = shift e' c' p \<and> packable (shift e' c' p) \<and>
    (\<exists>passed. es = passed @ es') \<and>
    (\<forall>q. tl_le p q \<longrightarrow> new_pos e c es q = new_pos e' c' es' q) \<and> (\<forall>q. room c es q \<longrightarrow> 0 \<le> columnCount q \<longrightarrow> room c' es' q)"
  using assms
proof (induction es arbitrary: e c m)
  case Nil
  then have "\<not> nextEditIdx m < length (em_edits m)" by (simp add: mapper_state_def)
  then have "adjustNextEdit m (pack (new_pos e c [] p)) = m" by (subst adjustNextEdit.simps) simp
  moreover have "packable (shift e c p)"
    using Nil by (auto simp: mapper_state_def room_def intro: packable_shift)
  ultimately show ?case using Nil by (intro exI [of _ e] exI [of _ c] exI [of _ "[]"]) auto
next
  case (Cons x xs)
  let ?s = "lengthToObj (startOffset x)" and ?e = "lengthToObj (endOffset x)"
  let ?c = "TextLength_add (shift e c ?s) (lengthToObj (newLength_ei x))"
  note st = Cons.prems(1) [unfolded mapper_state_def]
  have pcol: "0 \<le> columnCount p" using Cons.prems(4) by (simp add: packable_def)
  have nx: "nextEditIdx m < length (em_edits m)" "em_edits m ! nextEditIdx m = TextEditInfoCache_from x"
    "drop (Suc (nextEditIdx m)) (em_edits m) = map TextEditInfoCache_from xs"
    using st drop_eq_Cons [of "nextEditIdx m" "em_edits m" "TextEditInfoCache_from x"] by auto
  have es: "edits_sorted e (x # xs)" "tl_le e ?s" "packable ?s" "packable ?e" "tl_le ?s ?e"
    using st by (auto simp: packed_le_tl_le [symmetric])
  have skip: "translateOldToCur m (endOffsetAfterObj (TextEditInfoCache_from x)) = pack ?c"
    "mapper_at ?e ?c (skipEdit m (TextEditInfoCache_from x))" "packable ?c" "tl_le c ?c"
    and room: "\<And>q. room c (x # xs) q \<Longrightarrow> 0 \<le> columnCount q \<Longrightarrow> room ?c xs q"
    using skipEdit_at [of e c m x xs] st Cons.prems(5) pcol by auto
  show ?case
  proof (cases "TextLength_isLessThan p ?s")
    case True
    have pk: "packable (shift e c p)"
      using Cons.prems st sum_edit_columns_nonneg [of "x # xs"]
      by (intro packable_shift) (auto simp: room_def)
    have "TextLength_isLessThan (shift e c p) ?c"
    proof -
      have "tl_le (shift e c ?s) ?c"
        using es(1) by (simp add: add_ge packable_valid)
      with shift_mono [OF Cons.prems(2) True, of c] show ?thesis
        by (auto simp: tl_defs split: if_splits)
    qed
    then have "\<not> pack ?c \<le> pack (shift e c p)"
      using pack_less_iff(1) [OF pk skip(3)] by simp
    then have "adjustNextEdit m (pack (new_pos e c (x # xs) p)) = m"
      using True nx skip(1) by (subst adjustNextEdit.simps) (simp add: lengthLessThanEqual_def Let_def)
    with True Cons.prems pk show ?thesis
      by (intro exI [of _ e] exI [of _ c] exI [of _ "x # xs"]) auto
  next
    case False
    then have pe: "tl_le ?e p" using Cons.prems(3) by (auto simp: outside_def)
    let ?m = "skipEdit m (TextEditInfoCache_from x)"
    have out: "outside xs p" using Cons.prems(3) by (simp add: outside_def)
    have st': "mapper_state ?e ?c xs ?m"
      using nx skip es st by (auto simp: mapper_state_def)
    obtain e' c' es' where ih: "mapper_state e' c' es' (adjustNextEdit ?m (pack (new_pos ?e ?c xs p)))"
      "tl_le e' p" "new_pos ?e ?c xs p = shift e' c' p" "packable (shift e' c' p)"
      "\<exists>passed. xs = passed @ es'"
      "\<forall>q. tl_le p q \<longrightarrow> new_pos ?e ?c xs q = new_pos e' c' es' q" "\<forall>q. room ?c xs q \<longrightarrow> 0 \<le> columnCount q \<longrightarrow> room c' es' q"
      using Cons.IH [OF st' pe out Cons.prems(4) room [OF Cons.prems(5) pcol]] by blast
    have np: "new_pos e c (x # xs) p = new_pos ?e ?c xs p" using False by simp
    have "pack ?c \<le> pack (new_pos ?e ?c xs p)"
      using pack_less_iff(2) [OF skip(3), of "new_pos ?e ?c xs p"] ih(3,4)
        new_pos_ge [of ?e xs p ?c] es(1) pe out by simp
    then have "adjustNextEdit m (pack (new_pos e c (x # xs) p)) =
        adjustNextEdit ?m (pack (new_pos ?e ?c xs p))"
      using nx skip(1) unfolding np
      by (subst adjustNextEdit.simps) (simp add: lengthLessThanEqual_def Let_def)
    moreover have "\<not> TextLength_isLessThan q ?s" if "tl_le p q" for q
      using that False by (auto simp: tl_defs split: if_splits)
    ultimately show ?thesis
      using ih np room
      by (intro exI [of _ e'] exI [of _ c'] exI [of _ es']) (auto intro: exI [of _ "x # _"])
  qed
qed

text \<open>A sequence of queries, as the parser makes them.\<close>

fun run_queries :: "edit_mapper \<Rightarrow> bracket_length list \<Rightarrow> bracket_length list" where
  "run_queries m [] = []"
| "run_queries m (q # qs) = (let (old, m') = getOffsetBeforeChange m q in old # run_queries m' qs)"

lemma getOffsetBeforeChange_ok:
  assumes "mapper_state e c es m" and "tl_le e p" and "outside es p" and "packable p" and "room c es p"
  shows "\<exists>e' c' es' m'. getOffsetBeforeChange m (pack (new_pos e c es p)) = (pack p, m') \<and>
    mapper_state e' c' es' m' \<and> tl_le e' p \<and> (\<exists>passed. es = passed @ es') \<and>
    (\<forall>q. tl_le p q \<longrightarrow> new_pos e c es q = new_pos e' c' es' q) \<and>
    (\<forall>q. room c es q \<longrightarrow> 0 \<le> columnCount q \<longrightarrow> room c' es' q)"
proof -
  obtain e' c' es' where stop: "mapper_state e' c' es' (adjustNextEdit m (pack (new_pos e c es p)))"
    "tl_le e' p" "new_pos e c es p = shift e' c' p" "packable (shift e' c' p)"
    "\<exists>passed. es = passed @ es'" "\<forall>q. tl_le p q \<longrightarrow> new_pos e c es q = new_pos e' c' es' q"
    "\<forall>q. room c es q \<longrightarrow> 0 \<le> columnCount q \<longrightarrow> room c' es' q"
    using adjustNextEdit_stops [OF assms] by blast
  have "translateCurToOld (adjustNextEdit m (pack (new_pos e c es p))) (pack (new_pos e c es p)) = pack p"
    unfolding stop(3) using stop(1)
    by (subst translateCurToOld_eq [OF _ shift_ge [OF stop(2)] stop(4), of e'])
      (simp_all add: mapper_state_def stop(3) shift_inverse [OF stop(2)])
  with stop show ?thesis
    by (auto simp: getOffsetBeforeChange_def Let_def)
qed

lemma run_queries_ok:
  assumes "mapper_state e c es m" and "sorted_wrt tl_le ps"
    and "\<And>p. p \<in> set ps \<Longrightarrow> tl_le e p \<and> outside es p \<and> packable p \<and> room c es p"
  shows "run_queries m (map (\<lambda>p. pack (new_pos e c es p)) ps) = map pack ps"
  using assms
proof (induction ps arbitrary: e c es m)
  case (Cons p ps)
  obtain e' c' es' m' where step:
    "getOffsetBeforeChange m (pack (new_pos e c es p)) = (pack p, m')" "mapper_state e' c' es' m'"
    "tl_le e' p" "\<exists>passed. es = passed @ es'" "\<forall>q. tl_le p q \<longrightarrow> new_pos e c es q = new_pos e' c' es' q"
    "\<forall>q. room c es q \<longrightarrow> 0 \<le> columnCount q \<longrightarrow> room c' es' q"
    using getOffsetBeforeChange_ok [OF Cons.prems(1)] Cons.prems(3) [of p] by fastforce
  have later: "tl_le p q" if "q \<in> set ps" for q
    using that Cons.prems(2) by simp
  have "run_queries m' (map (\<lambda>p. pack (new_pos e' c' es' p)) ps) = map pack ps"
  proof (rule Cons.IH [OF step(2)])
    show "sorted_wrt tl_le ps" using Cons.prems(2) by simp
    show "tl_le e' q \<and> outside es' q \<and> packable q \<and> room c' es' q" if "q \<in> set ps" for q
      using that later [OF that] Cons.prems(3) [of q] step(3-6) tl_le_trans [of e' p q]
      by (auto simp: outside_def packable_def)
  qed
  moreover have "map (\<lambda>p. pack (new_pos e' c' es' p)) ps = map (\<lambda>p. pack (new_pos e c es p)) ps"
    using later step(5) by simp
  ultimately show ?case
    using step(1) by simp
qed simp

lemma mapper_state_start:
  assumes "edits_sorted TextLength_zero es"
  shows "mapper_state TextLength_zero TextLength_zero es (BeforeEditPositionMapper es)"
  using assms by (simp add: mapper_state_def mapper_at_def BeforeEditPositionMapper_def
      TextLength_zero_def packable_def)

subsection \<open>Properties\<close>

text \<open>C28: Positions before the edits. For edits that are sorted and do not overlap, the mapper takes
  the new position of every unchanged place back to its old position, for any sequence of queries
  from left to right, with the state that it keeps between them.\<close>

theorem mapper_recovers_old_offsets:
  assumes "edits_sorted TextLength_zero es" and "sorted_wrt tl_le ps"
    and "\<forall>p \<in> set ps. outside es p \<and> packable p \<and> room TextLength_zero es p"
  shows "run_queries (BeforeEditPositionMapper es)
      (map (\<lambda>p. toLength (lineCount (new_pos TextLength_zero TextLength_zero es p))
        (columnCount (new_pos TextLength_zero TextLength_zero es p))) ps) =
    map (\<lambda>p. toLength (lineCount p) (columnCount p)) ps"
proof -
  have "tl_le TextLength_zero p" if "packable p" for p
    using that by (auto simp: tl_defs packable_def TextLength_zero_def)
  with run_queries_ok [OF mapper_state_start [OF assms(1)] assms(2)] assms(3) show ?thesis
    by simp
qed

text \<open>Two edits, of which the second joins two lines; places before, between and behind them.\<close>

theorem mapper_recovers_old_offsets_witness:
  "run_queries
     (BeforeEditPositionMapper
       [\<lparr>startOffset = 67108866, endOffset = 67108868, newLength_ei = 134217729\<rparr>,
        \<lparr>startOffset = 67108873, endOffset = 134217729, newLength_ei = 3\<rparr>])
     (map (\<lambda>p. toLength
         (lineCount (new_pos TextLength_zero TextLength_zero
           [\<lparr>startOffset = 67108866, endOffset = 67108868, newLength_ei = 134217729\<rparr>,
            \<lparr>startOffset = 67108873, endOffset = 134217729, newLength_ei = 3\<rparr>] p))
         (columnCount (new_pos TextLength_zero TextLength_zero
           [\<lparr>startOffset = 67108866, endOffset = 67108868, newLength_ei = 134217729\<rparr>,
            \<lparr>startOffset = 67108873, endOffset = 134217729, newLength_ei = 3\<rparr>] p)))
       [TextLength 1 1, TextLength 1 5, TextLength 2 2]) =
   map (\<lambda>p. toLength (lineCount p) (columnCount p)) [TextLength 1 1, TextLength 1 5, TextLength 2 2]"
  by (rule mapper_recovers_old_offsets; code_simp)

end
