(* ===== verification/NodeReader.thy ===== *)
theory NodeReader
  imports BracketAst
begin

section \<open>Reading old nodes: \<open>.../bracketPairsTree/nodeReader.ts\<close>\<close>

text \<open>
  The reader walks over the old tree from left to right and returns the longest node at an offset
  that may be reused. It keeps the path from the root to the next node: the nodes, their offsets and
  the index of each node in its parent. The three arrays grow at their ends; the lists here have the
  last element first.
\<close>

record node_reader =
  nextNodes :: "ast list"
  offsets :: "bracket_length list"
  idxs :: "int list"
  lastOffset :: bracket_length

definition mk_NodeReader :: "ast \<Rightarrow> node_reader" where
  "mk_NodeReader node = \<lparr>nextNodes = [node], offsets = [lengthZero], idxs = [], lastOffset = lengthZero\<rparr>"

text \<open>\<open>getNextChildIdx\<close>: the index of the next child that is not null, or -1.\<close>

function getNextChildIdx :: "ast \<Rightarrow> int \<Rightarrow> int result" where
  "getNextChildIdx node curIdx =
     (let curIdx = curIdx + 1
      in if curIdx \<ge> childrenLength node then Inr (-1)
         else bind_result (getChild node curIdx) (\<lambda>c.
           if c \<noteq> None then Inr curIdx else getNextChildIdx node curIdx))"
  by pat_completeness auto
termination by (relation "measure (\<lambda>(node, i). nat (childrenLength node - i))") auto

declare getNextChildIdx.simps [simp del]

text \<open>\<open>node.getChild(idx)!\<close>: the code relies on a child being there.\<close>

definition getChild_present :: "ast \<Rightarrow> int \<Rightarrow> ast result" where
  "getChild_present node idx =
     bind_result (getChild node idx) (\<lambda>c. case c of None \<Rightarrow> Inl TypeError | Some c \<Rightarrow> Inr c)"

text \<open>The loop of \<open>nextNodeAfterCurrent\<close> on the three arrays.\<close>

fun nextNodeAfter_loop :: "ast list \<Rightarrow> bracket_length list \<Rightarrow> int list \<Rightarrow>
    (ast list \<times> bracket_length list \<times> int list) result" where
  "nextNodeAfter_loop nodes offs [] = Inr (tl nodes, tl offs, [])"
| "nextNodeAfter_loop (currentNode # parent # nodes) (currentOffset # offs) (i # is) =
     bind_result (getNextChildIdx parent i) (\<lambda>nextChildIdx.
       if nextChildIdx \<noteq> -1
       then bind_result (getChild_present parent nextChildIdx) (\<lambda>c.
         Inr (c # parent # nodes, lengthAdd currentOffset (ast_length currentNode) # offs,
              nextChildIdx # is))
       else nextNodeAfter_loop (parent # nodes) offs is)"
| "nextNodeAfter_loop _ _ _ = Inl TypeError"

definition nextNodeAfterCurrent :: "node_reader \<Rightarrow> node_reader result" where
  "nextNodeAfterCurrent this =
     bind_result (nextNodeAfter_loop (nextNodes this) (offsets this) (idxs this))
       (\<lambda>(ns, os, is). Inr (this\<lparr>nextNodes := ns, offsets := os, idxs := is\<rparr>))"

text \<open>Going down to the child \<open>nextChildIdx\<close> of the current node.\<close>

definition descend :: "node_reader \<Rightarrow> ast \<Rightarrow> bracket_length \<Rightarrow> int \<Rightarrow> node_reader result" where
  "descend this curNode curNodeOffset nextChildIdx =
     bind_result (getChild_present curNode nextChildIdx) (\<lambda>c.
       Inr (this\<lparr>nextNodes := c # nextNodes this, offsets := curNodeOffset # offsets this,
                 idxs := nextChildIdx # idxs this\<rparr>))"

subsection \<open>The reader comes to an end\<close>

text \<open>
  What is left to visit: the nodes below the current one and behind the path to it.
\<close>

definition child_slots :: "ast \<Rightarrow> ast option list" where
  "child_slots n =
     (case n of
        PairAstNode _ b child cb _ \<Rightarrow> [Some (BracketAstNode b), child, map_option BracketAstNode cb]
      | _ \<Rightarrow> map Some (ast_children n))"

fun node_count :: "ast \<Rightarrow> nat" where
  "node_count (PairAstNode _ _ child cb _) =
     2 + (case child of None \<Rightarrow> 0 | Some c \<Rightarrow> node_count c) + (case cb of None \<Rightarrow> 0 | Some _ \<Rightarrow> 1)"
| "node_count (TwoThreeListAstNode _ _ _ i1 i2 i3 _) =
     1 + node_count i1 + node_count i2 + (case i3 of None \<Rightarrow> 0 | Some c \<Rightarrow> node_count c)"
| "node_count (ArrayListAstNode _ _ _ cs _) = 1 + sum_list (map node_count cs)"
| "node_count _ = 1"

definition slots_size :: "ast option list \<Rightarrow> nat" where
  "slots_size os = (\<Sum>s \<leftarrow> os. case s of None \<Rightarrow> 0 | Some c \<Rightarrow> node_count c)"

fun behind_path :: "ast list \<Rightarrow> int list \<Rightarrow> nat" where
  "behind_path ns [] = (\<Sum>n \<leftarrow> ns. node_count n)"
| "behind_path (p # ns) (i # is) = slots_size (drop (nat (i + 1)) (child_slots p)) + behind_path ns is"
| "behind_path [] _ = 0"

fun left_to_visit :: "ast list \<Rightarrow> int list \<Rightarrow> nat" where
  "left_to_visit [] is = 0"
| "left_to_visit (n # ns) is = node_count n + behind_path ns is"

lemma childrenLength_slots: "childrenLength n = int (length (child_slots n))"
  by (cases n) (auto simp: child_slots_def split: option.splits)

lemma getChild_slots: "0 \<le> i \<Longrightarrow> i < childrenLength n \<Longrightarrow> getChild n i = Inr (child_slots n ! nat i)"
  unfolding childrenLength_slots
  by (cases n) (auto simp: child_slots_def js_at_def numeral_eq_Suc nth_Cons' split: option.splits)

lemma slots_size_less: "slots_size (child_slots n) < node_count n"
  by (cases n) (auto simp: child_slots_def slots_size_def comp_def split: option.splits)

lemma node_count_pos [simp]: "0 < node_count n"
  by (cases n) auto

lemma slots_size_drop_nth:
  "i < length os \<Longrightarrow> os ! i = Some c \<Longrightarrow> slots_size (drop i os) = node_count c + slots_size (drop (Suc i) os)"
  by (simp add: slots_size_def Cons_nth_drop_Suc [symmetric])

lemma slots_size_drop_mono: "i \<le> j \<Longrightarrow> slots_size (drop j os) \<le> slots_size (drop i os)"
proof (induction j rule: dec_induct)
  case (step j)
  have "slots_size (drop (Suc j) os) \<le> slots_size (drop j os)"
    by (cases "j < length os") (simp_all add: slots_size_def Cons_nth_drop_Suc [symmetric])
  with step show ?case by simp
qed simp

lemma getNextChildIdx_spec:
  "-1 \<le> i \<Longrightarrow> \<exists>k. getNextChildIdx n i = Inr k \<and>
     (k = -1 \<and> (\<forall>j. i < j \<and> j < childrenLength n \<longrightarrow> child_slots n ! nat j = None) \<or>
      i < k \<and> k < childrenLength n \<and> (\<exists>c. child_slots n ! nat k = Some c) \<and>
      (\<forall>j. i < j \<and> j < k \<longrightarrow> child_slots n ! nat j = None))"
proof (induction n i rule: getNextChildIdx.induct)
  case (1 n i)
  show ?case
  proof (cases "i + 1 \<ge> childrenLength n")
    case True
    then show ?thesis by (subst getNextChildIdx.simps) auto
  next
    case False
    then have get: "getChild n (i + 1) = Inr (child_slots n ! nat (i + 1))"
      using "1.prems" by (simp add: getChild_slots)
    show ?thesis
    proof (cases "child_slots n ! nat (i + 1)")
      case (Some c)
      with get False show ?thesis
        by (subst getNextChildIdx.simps) (auto simp: Let_def intro!: exI [of _ c])
    next
      case None
      have step: "getNextChildIdx n i = getNextChildIdx n (i + 1)"
        using get False None by (subst getNextChildIdx.simps) simp
      have ext: "child_slots n ! nat j = None"
        if "i + 1 < j \<longrightarrow> child_slots n ! nat j = None" "i < j" for j
      proof (cases "j = i + 1")
        case False
        with that show ?thesis by simp
      qed (use None in simp)
      from "1.IH" [OF refl _ get] False None "1.prems" obtain k where k: "getNextChildIdx n (i + 1) = Inr k"
        "k = -1 \<and> (\<forall>j. i + 1 < j \<and> j < childrenLength n \<longrightarrow> child_slots n ! nat j = None) \<or>
         i + 1 < k \<and> k < childrenLength n \<and> (\<exists>c. child_slots n ! nat k = Some c) \<and>
         (\<forall>j. i + 1 < j \<and> j < k \<longrightarrow> child_slots n ! nat j = None)"
        by auto
      from k(2) have "k = -1 \<and> (\<forall>j. i < j \<and> j < childrenLength n \<longrightarrow> child_slots n ! nat j = None) \<or>
         i < k \<and> k < childrenLength n \<and> (\<exists>c. child_slots n ! nat k = Some c) \<and>
         (\<forall>j. i < j \<and> j < k \<longrightarrow> child_slots n ! nat j = None)"
        by (elim disjE) (simp_all add: ext)
      with k(1) step show ?thesis by simp
    qed
  qed
qed

lemma getChild_Some_range: "getChild n k = Inr (Some c) \<Longrightarrow> 0 \<le> k \<and> k < childrenLength n"
  by (cases n) (auto simp: js_at_def split: if_splits)

lemma getNextChildIdx_found:
  "getNextChildIdx n i = Inr k \<Longrightarrow> k \<noteq> -1 \<Longrightarrow> i < k \<and> (\<exists>c. getChild n k = Inr (Some c))"
proof (induction n i rule: getNextChildIdx.induct)
  case (1 n i)
  from "1.prems" obtain c where c: "getChild n (i + 1) = Inr c"
    "if c \<noteq> None then k = i + 1 else getNextChildIdx n (i + 1) = Inr k" "\<not> i + 1 \<ge> childrenLength n"
    by (subst (asm) getNextChildIdx.simps) (auto simp: Let_def bind_result_Inr_iff split: if_splits)
  then show ?case
    using "1.IH" [OF refl c(3) c(1)] "1.prems"(2) by (cases c) auto
qed

lemma nextNodeAfter_loop_less:
  "nextNodeAfter_loop ns os is = Inr (ns', os', is') \<Longrightarrow> left_to_visit ns' is' \<le> behind_path (tl ns) is"
proof (induction ns os "is" rule: nextNodeAfter_loop.induct)
  case (1 nodes offs)
  have "left_to_visit ms [] \<le> (\<Sum>n \<leftarrow> ms. node_count n)" for ms
    by (cases ms) auto
  with 1 show ?case by simp
next
  case (2 currentNode parent nodes currentOffset offs i js)
  from "2.prems" obtain k where k: "getNextChildIdx parent i = Inr k"
    by (auto simp: bind_result_Inr_iff)
  show ?case
  proof (cases "k = -1")
    case True
    with 2 k show ?thesis by auto
  next
    case False
    with getNextChildIdx_found [OF k] obtain c where c: "i < k" "getChild parent k = Inr (Some c)"
      by blast
    then have kr: "0 \<le> k" "k < childrenLength parent" "child_slots parent ! nat k = Some c"
      using getChild_Some_range [OF c(2)] getChild_slots [of k parent] by auto
    with c "2.prems" k False have res: "ns' = c # parent # nodes" "is' = k # js"
      by (auto simp: getChild_present_def)
    have "slots_size (drop (nat k) (child_slots parent)) =
        node_count c + slots_size (drop (Suc (nat k)) (child_slots parent))"
      using kr by (intro slots_size_drop_nth) (auto simp: childrenLength_slots)
    moreover have "slots_size (drop (nat k) (child_slots parent)) \<le>
        slots_size (drop (nat (i + 1)) (child_slots parent))"
      using c(1) by (intro slots_size_drop_mono) simp
    ultimately show ?thesis
      using res kr(1) by (simp add: nat_add_distrib)
  qed
qed auto

lemma nextNodeAfterCurrent_less:
  assumes "nextNodeAfterCurrent r = Inr r'" and "nextNodes r \<noteq> []"
  shows "left_to_visit (nextNodes r') (idxs r') < left_to_visit (nextNodes r) (idxs r)"
proof -
  from assms(1) have "nextNodeAfter_loop (nextNodes r) (offsets r) (idxs r) =
      Inr (nextNodes r', offsets r', idxs r')"
    by (auto simp: nextNodeAfterCurrent_def bind_result_Inr_iff)
  from nextNodeAfter_loop_less [OF this] assms(2) show ?thesis
    by (cases "nextNodes r") (auto simp: le_imp_less_Suc add_strict_increasing)
qed

lemma descend_less:
  assumes "getNextChildIdx n (-1) = Inr k" "k \<noteq> -1" and "descend r n off k = Inr r'" and "nextNodes r = n # ns"
  shows "left_to_visit (nextNodes r') (idxs r') < left_to_visit (nextNodes r) (idxs r)"
proof -
  obtain c where c: "getChild n k = Inr (Some c)"
    using getNextChildIdx_found [OF assms(1,2)] by blast
  have kr: "0 \<le> k" "k < childrenLength n" "child_slots n ! nat k = Some c"
    using getChild_Some_range [OF c] getChild_slots [of k n] c by auto
  have "slots_size (drop (nat k) (child_slots n)) =
      node_count c + slots_size (drop (Suc (nat k)) (child_slots n))"
    using kr by (intro slots_size_drop_nth) (auto simp: childrenLength_slots)
  moreover have "slots_size (drop (nat k) (child_slots n)) \<le> slots_size (child_slots n)"
    using slots_size_drop_mono [of 0 "nat k" "child_slots n"] by simp
  ultimately have "node_count c + slots_size (drop (nat (k + 1)) (child_slots n)) < node_count n"
    using slots_size_less [of n] kr(1) by (simp add: nat_add_distrib)
  with assms(3,4) c show ?thesis
    by (auto simp: descend_def getChild_present_def)
qed

text \<open>The loop of \<open>readLongestNodeAt\<close>. The predicate may fail.\<close>

function readLongest_loop ::
  "bracket_length \<Rightarrow> (ast \<Rightarrow> bool result) \<Rightarrow> node_reader \<Rightarrow> (ast option \<times> node_reader) result" where
  "readLongest_loop offset pred this =
     (case nextNodes this of
        [] \<Rightarrow> Inr (None, this)
      | curNode # _ \<Rightarrow>
        (case offsets this of
           [] \<Rightarrow> Inl TypeError
         | curNodeOffset # _ \<Rightarrow>
             if lengthLessThan offset curNodeOffset then Inr (None, this)
             else if lengthLessThan curNodeOffset offset
             then (if lengthAdd curNodeOffset (ast_length curNode) \<le> offset
                   then bind_result (nextNodeAfterCurrent this) (readLongest_loop offset pred)
                   else bind_result (getNextChildIdx curNode (-1)) (\<lambda>nextChildIdx.
                     if nextChildIdx \<noteq> -1
                     then bind_result (descend this curNode curNodeOffset nextChildIdx)
                            (readLongest_loop offset pred)
                     else bind_result (nextNodeAfterCurrent this) (readLongest_loop offset pred)))
             else bind_result (pred curNode) (\<lambda>reusable.
               if reusable
               then bind_result (nextNodeAfterCurrent this) (\<lambda>this. Inr (Some curNode, this))
               else bind_result (getNextChildIdx curNode (-1)) (\<lambda>nextChildIdx.
                 if nextChildIdx = -1
                 then bind_result (nextNodeAfterCurrent this) (\<lambda>this. Inr (None, this))
                 else bind_result (descend this curNode curNodeOffset nextChildIdx)
                        (readLongest_loop offset pred)))))"
  by pat_completeness auto
termination
  by (relation "measure (\<lambda>(_, _, r). left_to_visit (nextNodes r) (idxs r))")
    (auto dest: nextNodeAfterCurrent_less descend_less)

declare readLongest_loop.simps [simp del]

definition readLongestNodeAt ::
  "bracket_length \<Rightarrow> (ast \<Rightarrow> bool result) \<Rightarrow> node_reader \<Rightarrow> (ast option \<times> node_reader) result" where
  "readLongestNodeAt offset pred this =
     (if lengthLessThan offset (lastOffset this) then Inl PlainError
      else readLongest_loop offset pred (this\<lparr>lastOffset := offset\<rparr>))"

subsection \<open>Where the returned nodes are\<close>

text \<open>A node of the tree and the length of the text before it.\<close>

inductive located :: "ast \<Rightarrow> ast \<Rightarrow> bracket_length \<Rightarrow> bool" for root :: ast where
  located_root: "located root root lengthZero"
| located_child: "located root p off \<Longrightarrow> ast_children p = pre @ c # post \<Longrightarrow>
    located root c (foldl lengthAdd off (map ast_length pre))"

definition present :: "ast option list \<Rightarrow> ast list" where
  "present os = map the (filter (\<lambda>s. s \<noteq> None) os)"

lemma present_slots: "present (child_slots n) = ast_children n"
  by (cases n) (auto simp: child_slots_def present_def comp_def split: option.splits)

lemma present_append [simp]: "present (as @ bs) = present as @ present bs"
  by (simp add: present_def)

lemma present_Cons [simp]: "present (Some c # os) = c # present os" "present (None # os) = present os"
  by (simp_all add: present_def)

lemma present_Nil [simp]: "present [] = []"
  by (simp add: present_def)

text \<open>The path of the reader: every node is a child of the one before it, at its offset.\<close>

fun path_ok :: "ast \<Rightarrow> ast list \<Rightarrow> bracket_length list \<Rightarrow> int list \<Rightarrow> bool" where
  "path_ok root [] [] [] \<longleftrightarrow> True"
| "path_ok root [n] [off] [] \<longleftrightarrow> n = root \<and> off = lengthZero"
| "path_ok root (n # p # ns) (off # poff # offs) (i # is) \<longleftrightarrow>
     0 \<le> i \<and> i < childrenLength p \<and> child_slots p ! nat i = Some n \<and>
     off = foldl lengthAdd poff (map ast_length (present (take (nat i) (child_slots p)))) \<and>
     path_ok root (p # ns) (poff # offs) is"
| "path_ok root _ _ _ \<longleftrightarrow> False"

lemma path_ok_cases:
  assumes "path_ok root (n # ns) (off # offs) js"
  obtains "ns = []" "offs = []" "js = []" "n = root" "off = lengthZero"
  | p ns' poff offs' i js' where "ns = p # ns'" "offs = poff # offs'" "js = i # js'"
    "0 \<le> i" "i < childrenLength p" "child_slots p ! nat i = Some n"
    "off = foldl lengthAdd poff (map ast_length (present (take (nat i) (child_slots p))))"
    "path_ok root (p # ns') (poff # offs') js'"
  using assms by (cases "(root, n # ns, off # offs, js)" rule: path_ok.cases) auto

lemma slot_split:
  assumes "0 \<le> i" "i < childrenLength p" "child_slots p ! nat i = Some n"
  shows "ast_children p = present (take (nat i) (child_slots p)) @ n # present (drop (Suc (nat i)) (child_slots p))"
proof -
  have "child_slots p = take (nat i) (child_slots p) @ Some n # drop (Suc (nat i)) (child_slots p)"
    using assms id_take_nth_drop [of "nat i" "child_slots p"] by (simp add: childrenLength_slots)
  then have "present (child_slots p) =
      present (take (nat i) (child_slots p)) @ n # present (drop (Suc (nat i)) (child_slots p))"
    by (metis present_Cons(1) present_append)
  then show ?thesis by (simp add: present_slots)
qed

lemma path_ok_located: "path_ok root (n # ns) (off # offs) js \<Longrightarrow> located root n off"
proof (induction ns arbitrary: n off offs js)
  case Nil
  then show ?case by (auto elim!: path_ok_cases simp: located_root)
next
  case (Cons p ns)
  from Cons.prems show ?case
  proof (cases rule: path_ok_cases)
    case (2 p' ns' poff offs' i js')
    then have "located root p poff" using Cons.IH by simp
    from located_child [OF this slot_split [of i p n]] 2 show ?thesis by simp
  qed simp
qed

lemma next_slot:
  assumes "0 \<le> i" "i < k" "k < childrenLength p" "child_slots p ! nat i = Some n"
    and "\<forall>j. i < j \<and> j < k \<longrightarrow> child_slots p ! nat j = None"
  shows "present (take (nat k) (child_slots p)) = present (take (nat i) (child_slots p)) @ [n]"
proof -
  let ?s = "child_slots p"
  have len: "nat i < nat k" "nat k \<le> length ?s"
    using assms(1-3) by (auto simp: childrenLength_slots)
  have "take (nat k) ?s = take (nat i) ?s @ ?s ! nat i # drop (Suc (nat i)) (take (nat k) ?s)"
    using id_take_nth_drop [of "nat i" "take (nat k) ?s"] len by simp
  moreover have "present (drop (Suc (nat i)) (take (nat k) ?s)) = []"
  proof -
    have "s = None" if "s \<in> set (drop (Suc (nat i)) (take (nat k) ?s))" for s
    proof -
      from that obtain j where "j < length (drop (Suc (nat i)) (take (nat k) ?s))"
        "drop (Suc (nat i)) (take (nat k) ?s) ! j = s"
        unfolding in_set_conv_nth by blast
      moreover define m where "m = Suc (nat i) + j"
      ultimately have "s = ?s ! m" "int m < k" "i < int m"
        using len assms(1) by auto
      with assms(5) [rule_format, of "int m"] show ?thesis by simp
    qed
    then show ?thesis by (auto simp: present_def filter_empty_conv)
  qed
  ultimately show ?thesis
    using assms(4) by (metis present_Cons(1) present_append)
qed

lemma nextNodeAfter_loop_ok:
  assumes "path_ok root (n # ns) (off # offs) js"
  shows "\<exists>ns' offs' js'. nextNodeAfter_loop (n # ns) (off # offs) js = Inr (ns', offs', js') \<and>
    path_ok root ns' offs' js'"
  using assms
proof (induction ns arbitrary: n off offs js)
  case Nil
  then show ?case by (auto elim!: path_ok_cases)
next
  case (Cons p ns)
  from Cons.prems show ?case
  proof (cases rule: path_ok_cases)
    case (2 p' ns' poff offs' i js')
    then have p: "p' = p" "ns' = ns" by simp_all
    from getNextChildIdx_spec [of i p] 2(4) obtain k where k: "getNextChildIdx p i = Inr k"
      "k = -1 \<or> i < k \<and> k < childrenLength p \<and> (\<exists>c. child_slots p ! nat k = Some c) \<and>
        (\<forall>j. i < j \<and> j < k \<longrightarrow> child_slots p ! nat j = None)"
      by auto
    show ?thesis
    proof (cases "k = -1")
      case True
      have "path_ok root (p # ns) (poff # offs') js'"
        using 2 p by simp
      from Cons.IH [OF this] True k(1) show ?thesis
        unfolding 2(2,3) by simp
    next
      case False
      with k obtain c where c: "i < k" "k < childrenLength p" "child_slots p ! nat k = Some c"
        "\<forall>j. i < j \<and> j < k \<longrightarrow> child_slots p ! nat j = None"
        by blast
      have "getChild p k = Inr (Some c)"
        using getChild_slots [of k p] c 2(4) by simp
      moreover have "present (take (nat k) (child_slots p)) = present (take (nat i) (child_slots p)) @ [n]"
        using next_slot [of i k p n] c 2 p by simp
      ultimately show ?thesis
        using 2 p k(1) False c by (auto simp: getChild_present_def)
    qed
  qed simp
qed

definition reader_ok :: "ast \<Rightarrow> node_reader \<Rightarrow> bool" where
  "reader_ok root r \<longleftrightarrow> path_ok root (nextNodes r) (offsets r) (idxs r)"

lemma reader_ok_start: "reader_ok root (mk_NodeReader root)"
  by (simp add: reader_ok_def mk_NodeReader_def)

lemma reader_ok_top:
  assumes "reader_ok root r" and "nextNodes r = n # ns"
  obtains off offs where "offsets r = off # offs" "path_ok root (n # ns) (off # offs) (idxs r)"
  using assms by (cases "(root, nextNodes r, offsets r, idxs r)" rule: path_ok.cases)
    (auto simp: reader_ok_def)

lemma nextNodeAfterCurrent_ok:
  assumes "reader_ok root r" and "nextNodes r \<noteq> []"
  shows "\<exists>r'. nextNodeAfterCurrent r = Inr r' \<and> reader_ok root r' \<and> lastOffset r' = lastOffset r"
proof -
  obtain n ns where n: "nextNodes r = n # ns" using assms(2) by (cases "nextNodes r") auto
  obtain off offs where "offsets r = off # offs" "path_ok root (n # ns) (off # offs) (idxs r)"
    using reader_ok_top [OF assms(1) n] by blast
  with nextNodeAfter_loop_ok [of root n ns off offs "idxs r"] n show ?thesis
    by (auto simp: nextNodeAfterCurrent_def reader_ok_def)
qed

lemma descend_ok:
  assumes "reader_ok root r" and "nextNodes r = n # ns" "offsets r = off # offs"
    and "getNextChildIdx n (-1) = Inr k" and "k \<noteq> -1"
  shows "\<exists>r'. descend r n off k = Inr r' \<and> reader_ok root r' \<and> lastOffset r' = lastOffset r"
proof -
  from getNextChildIdx_spec [of "-1" n] assms(4,5) obtain c where
    c: "-1 < k" "k < childrenLength n" "child_slots n ! nat k = Some c"
      "\<forall>j. -1 < j \<and> j < k \<longrightarrow> child_slots n ! nat j = None"
    by auto
  then have get: "getChild n k = Inr (Some c)"
    using getChild_slots [of k n] by simp
  have "filter (\<lambda>s. s \<noteq> None) (take (nat k) (child_slots n)) = []"
    unfolding filter_empty_conv
  proof
    fix s
    assume "s \<in> set (take (nat k) (child_slots n))"
    then obtain j where "j < nat k" "s = child_slots n ! j"
      by (auto simp: in_set_conv_nth)
    with c(4) [rule_format, of "int j"] show "\<not> s \<noteq> None" by simp
  qed
  then have "present (take (nat k) (child_slots n)) = []"
    by (simp add: present_def)
  with assms get c show ?thesis
    by (auto simp: descend_def getChild_present_def reader_ok_def)
qed

lemma readLongest_loop_ok:
  assumes "reader_ok root r" and "\<And>n off. located root n off \<Longrightarrow> \<exists>b. pred n = Inr b"
  shows "\<exists>res r'. readLongest_loop offset pred r = Inr (res, r') \<and> reader_ok root r' \<and>
    lastOffset r' = lastOffset r \<and>
    (\<forall>n. res = Some n \<longrightarrow> located root n offset \<and> pred n = Inr True)"
  using assms
proof (induction offset pred r rule: readLongest_loop.induct)
  case (1 offset pred r)
  show ?case
  proof (cases "nextNodes r")
    case Nil
    with "1.prems" show ?thesis by (subst readLongest_loop.simps) simp
  next
    case (Cons n ns)
    obtain off offs where off: "offsets r = off # offs" and path: "path_ok root (n # ns) (off # offs) (idxs r)"
      using reader_ok_top [OF "1.prems"(1) Cons] by blast
    have loc: "located root n off" using path by (rule path_ok_located)
    obtain b where b: "pred n = Inr b" using "1.prems"(2) [OF loc] by blast
    obtain r1 where r1: "nextNodeAfterCurrent r = Inr r1" "reader_ok root r1" "lastOffset r1 = lastOffset r"
      using nextNodeAfterCurrent_ok "1.prems"(1) Cons by (metis list.discI)
    obtain k where k: "getNextChildIdx n (-1) = Inr k"
      using getNextChildIdx_spec [of "-1" n] by auto
    have down: "\<exists>r2. descend r n off k = Inr r2 \<and> reader_ok root r2 \<and> lastOffset r2 = lastOffset r" if "k \<noteq> -1"
      using descend_ok [OF "1.prems"(1) Cons off k that] .
    note IH = "1.IH" [OF Cons off]
    consider "offset < off" | "off < offset" | "off = offset" by linarith
    then show ?thesis
    proof cases
      case 1
      with Cons off "1.prems" show ?thesis
        by (subst readLongest_loop.simps) (simp add: lengthLessThan_def)
    next
      case ahead: 2
      then have less: "\<not> lengthLessThan offset off" "lengthLessThan off offset"
        by (simp_all add: lengthLessThan_def)
      show ?thesis
      proof (cases "lengthAdd off (ast_length n) \<le> offset \<or> k = -1")
        case True
        then have "readLongest_loop offset pred r = readLongest_loop offset pred r1"
          using Cons off less r1 k by (subst readLongest_loop.simps) auto
        moreover have "\<exists>res r'. readLongest_loop offset pred r1 = Inr (res, r') \<and> reader_ok root r' \<and>
            lastOffset r' = lastOffset r1 \<and>
            (\<forall>n. res = Some n \<longrightarrow> located root n offset \<and> pred n = Inr True)"
          using IH(1) [OF less _ r1(1) r1(2)] IH(3) [OF less _ k _ r1(1) r1(2)] True "1.prems"(2) by blast
        ultimately show ?thesis using r1(3) by simp
      next
        case False
        then obtain r2 where r2: "descend r n off k = Inr r2" "reader_ok root r2" "lastOffset r2 = lastOffset r"
          using down by blast
        have "readLongest_loop offset pred r = readLongest_loop offset pred r2"
          using Cons off less r2 k False by (subst readLongest_loop.simps) auto
        with IH(2) [OF less _ k _ r2(1,2)] r2(3) False "1.prems"(2) show ?thesis by simp
      qed
    next
      case 3
      then have eq: "\<not> lengthLessThan offset off" "\<not> lengthLessThan off offset"
        by (simp_all add: lengthLessThan_def)
      show ?thesis
      proof (cases "b \<or> k = -1")
        case True
        with Cons off eq r1 k b loc 3 show ?thesis
          by (subst readLongest_loop.simps) auto
      next
        case False
        then obtain r2 where r2: "descend r n off k = Inr r2" "reader_ok root r2" "lastOffset r2 = lastOffset r"
          using down by blast
        have "readLongest_loop offset pred r = readLongest_loop offset pred r2"
          using Cons off eq r2 k b False by (subst readLongest_loop.simps) auto
        with IH(4) [OF eq b _ k _ r2(1,2)] r2(3) False "1.prems"(2) show ?thesis by simp
      qed
    qed
  qed
qed

lemma readLongestNodeAt_ok:
  assumes "reader_ok root r" and "lastOffset r \<le> offset"
    and "\<And>n off. located root n off \<Longrightarrow> \<exists>b. pred n = Inr b"
  shows "\<exists>res r'. readLongestNodeAt offset pred r = Inr (res, r') \<and> reader_ok root r' \<and>
    lastOffset r' = offset \<and>
    (\<forall>n. res = Some n \<longrightarrow> located root n offset \<and> pred n = Inr True)"
  using readLongest_loop_ok [of root "r\<lparr>lastOffset := offset\<rparr>" pred offset] assms
  by (simp add: readLongestNodeAt_def lengthLessThan_def reader_ok_def)

text \<open>Nodes of a well-formed tree are well-formed, and asking for their reuse never fails.\<close>

lemma located_ast_ok: "located root n off \<Longrightarrow> ast_ok root \<Longrightarrow> ast_ok n"
  by (induction rule: located.induct) (auto intro: ast_ok_child)

lemma canBeReused_loop_total: "ast_ok n \<Longrightarrow> \<exists>b. canBeReused_loop n openIds = Inr b"
proof (induction n openIds rule: canBeReused_loop.induct)
  case (1 uu uv uw ux i2 i3 uy openIds)
  then show ?case by (cases i3) auto
next
  case (2 uz va vb cs vc openIds)
  then have "cs \<noteq> []" by auto
  with 2 show ?case by auto
qed auto

lemma canBeReused_total: "ast_ok n \<Longrightarrow> \<exists>b. canBeReused n openIds = Inr b"
  using canBeReused_loop_total by (auto simp: canBeReused_def)

subsection \<open>Properties\<close>

text \<open>A sequence of reads, as the parser makes them.\<close>

fun run_reads :: "node_reader \<Rightarrow> (bracket_length \<times> (ast \<Rightarrow> bool result)) list \<Rightarrow> ast option list result" where
  "run_reads r [] = Inr []"
| "run_reads r ((offset, pred) # qs) =
     bind_result (readLongestNodeAt offset pred r) (\<lambda>(res, r').
       bind_result (run_reads r' qs) (\<lambda>rs. Inr (res # rs)))"

lemma run_reads_ok:
  assumes "reader_ok root r" and "sorted_wrt (\<le>) (lastOffset r # map fst qs)"
    and "\<forall>(offset, pred) \<in> set qs. \<forall>n off. located root n off \<longrightarrow> (\<exists>b. pred n = Inr b)"
  shows "\<exists>rs. run_reads r qs = Inr rs \<and> list_all2 (\<lambda>(offset, pred) res.
    \<forall>n. res = Some n \<longrightarrow> located root n offset \<and> pred n = Inr True) qs rs"
  using assms
proof (induction qs arbitrary: r)
  case (Cons q qs)
  obtain offset pred where q: "q = (offset, pred)" by (cases q)
  obtain res r' where step: "readLongestNodeAt offset pred r = Inr (res, r')" "reader_ok root r'"
    "lastOffset r' = offset" "\<forall>n. res = Some n \<longrightarrow> located root n offset \<and> pred n = Inr True"
  proof -
    have "lastOffset r \<le> offset" using Cons.prems(2) q by simp
    moreover have "\<exists>b. pred n = Inr b" if "located root n off" for n off
      using Cons.prems(3) q that by auto
    ultimately show thesis
      using readLongestNodeAt_ok [OF Cons.prems(1)] that by blast
  qed
  obtain rs where "run_reads r' qs = Inr rs" "list_all2 (\<lambda>(offset, pred) res.
    \<forall>n. res = Some n \<longrightarrow> located root n offset \<and> pred n = Inr True) qs rs"
    using Cons.IH [OF step(2)] Cons.prems(2,3) q step(3) by auto
  with step q show ?case by auto
qed simp

text \<open>C29: Reading nodes of an old tree at offsets from left to right never fails when the tree is
  well-formed; every node it returns is a node of the tree that begins exactly at the offset asked
  for and may be reused there.\<close>

theorem readLongestNodeAt_located:
  assumes "ast_ok root" and "sorted_wrt (\<le>) (0 # map fst qs)"
  shows "\<exists>rs. run_reads (mk_NodeReader root) (map (\<lambda>(offset, openIds). (offset, \<lambda>n. canBeReused n openIds)) qs) = Inr rs \<and>
    list_all2 (\<lambda>(offset, openIds) res.
      \<forall>n. res = Some n \<longrightarrow> located root n offset \<and> canBeReused n openIds = Inr True) qs rs"
proof -
  let ?qs = "map (\<lambda>(offset, openIds). (offset, \<lambda>n. canBeReused n openIds)) qs"
  have fst: "map fst ?qs = map fst qs" by (simp add: case_prod_beta comp_def)
  have "sorted_wrt (\<le>) (lastOffset (mk_NodeReader root) # map fst ?qs)"
    unfolding fst using assms(2) by (simp add: mk_NodeReader_def lengthZero_def)
  moreover have "\<exists>b. canBeReused n openIds = Inr b" if "located root n off" for n off openIds
    using canBeReused_total located_ast_ok that assms(1) by blast
  then have "\<forall>(offset, pred) \<in> set ?qs. \<forall>n off. located root n off \<longrightarrow> (\<exists>b. pred n = Inr b)"
    by auto
  ultimately obtain rs where rs: "run_reads (mk_NodeReader root) ?qs = Inr rs"
    "list_all2 (\<lambda>(offset, pred) res. \<forall>n. res = Some n \<longrightarrow> located root n offset \<and> pred n = Inr True) ?qs rs"
    using run_reads_ok [OF reader_ok_start] by blast
  have "list_all2 (\<lambda>(offset, openIds) res.
      \<forall>n. res = Some n \<longrightarrow> located root n offset \<and> canBeReused n openIds = Inr True) qs rs"
    using rs(2) unfolding list.rel_map(1) by (rule list.rel_mono_strong) auto
  with rs(1) show ?thesis by blast
qed

theorem readLongestNodeAt_located_witness:
  "\<exists>rs. run_reads (mk_NodeReader
        (TwoThreeListAstNode True 5 1 (TextAstNode 2) (TextAstNode 3) None SmallImmutableSet_getEmpty))
      (map (\<lambda>(offset, openIds). (offset, \<lambda>n. canBeReused n openIds))
        [(1, SmallImmutableSet_getEmpty), (2, SmallImmutableSet_getEmpty)]) = Inr rs \<and>
    list_all2 (\<lambda>(offset, openIds) res.
      \<forall>n. res = Some n \<longrightarrow>
        located (TwoThreeListAstNode True 5 1 (TextAstNode 2) (TextAstNode 3) None SmallImmutableSet_getEmpty) n offset \<and>
        canBeReused n openIds = Inr True)
      [(1, SmallImmutableSet_getEmpty), (2, SmallImmutableSet_getEmpty)] rs"
  by (rule readLongestNodeAt_located; code_simp)

end
