(* ===== verification/BracketParser.thy ===== *)
theory BracketParser
  imports BracketTokenizer Concat23 EditMapper NodeReader
begin

section \<open>The parser: \<open>.../bracketPairsTree/parser.ts\<close>\<close>

text \<open>
  The parser builds the tree from the tokens, reusing nodes of the old tree where no edit touches
  them. It recurses through lists and pairs; the model runs on fuel, one unit for every turn of the
  loop in \<open>parseList\<close> and for every child, and \<open>None\<close> is a run that needs more.
\<close>

type_synonym 'a run = "'a result option"

definition bind_run :: "'a run \<Rightarrow> ('a \<Rightarrow> 'b run) \<Rightarrow> 'b run" where
  "bind_run m f = (case m of None \<Rightarrow> None | Some (Inl e) \<Rightarrow> Some (Inl e) | Some (Inr x) \<Rightarrow> f x)"

lemma bind_run_simps [simp]:
  "bind_run None f = None" "bind_run (Some (Inl e)) f = Some (Inl e)" "bind_run (Some (Inr x)) f = f x"
  by (simp_all add: bind_run_def)

record 't parser =
  tokenizer :: 't
  oldNodeReader :: "node_reader option"
  positionMapper :: edit_mapper
  createImmutableLists :: bool
  itemsConstructed :: nat
  itemsFromCache :: nat

definition mk_Parser :: "'t \<Rightarrow> text_edit_info list \<Rightarrow> ast option \<Rightarrow> bool \<Rightarrow> 't parser result" where
  "mk_Parser t edits oldNode im =
     (if oldNode \<noteq> None \<and> im then Inl PlainError
      else Inr \<lparr>tokenizer = t, oldNodeReader = map_option mk_NodeReader oldNode,
                positionMapper = BeforeEditPositionMapper edits, createImmutableLists = im,
                itemsConstructed = 0, itemsFromCache = 0\<rparr>)"

text \<open>May the old node be used here? It must end before the next edit.\<close>

definition reuse_pred :: "bracket_length option \<Rightarrow> small_set \<Rightarrow> ast \<Rightarrow> bool result" where
  "reuse_pred maxCacheableLength openedBracketIds curNode =
     (if (case maxCacheableLength of None \<Rightarrow> False | Some m \<Rightarrow> \<not> lengthLessThan (ast_length curNode) m)
      then Inr False
      else canBeReused curNode openedBracketIds)"

definition tryReadChildFromCache ::
  "'t tokenizer_ops \<Rightarrow> small_set \<Rightarrow> 't parser \<Rightarrow> (ast option \<times> 't parser) result" where
  "tryReadChildFromCache ops openedBracketIds this =
     (case oldNodeReader this of
        None \<Rightarrow> Inr (None, this)
      | Some reader \<Rightarrow>
          let offset = tokenizer_offset ops (tokenizer this);
              (maxCacheableLength, mapper) = getDistanceToNextChange (positionMapper this) offset;
              this = this\<lparr>positionMapper := mapper\<rparr>
          in if (case maxCacheableLength of None \<Rightarrow> True | Some m \<Rightarrow> \<not> lengthIsZero m)
             then let (oldOffset, mapper) = getOffsetBeforeChange mapper offset
                  in bind_result (readLongestNodeAt oldOffset (reuse_pred maxCacheableLength openedBracketIds) reader)
                       (\<lambda>(cachedNode, reader).
                         let this = this\<lparr>positionMapper := mapper, oldNodeReader := Some reader\<rparr>
                         in case cachedNode of
                              None \<Rightarrow> Inr (None, this)
                            | Some n \<Rightarrow>
                                bind_result (tokenizer_skip ops (ast_length n) (tokenizer this)) (\<lambda>t.
                                  Inr (Some n, this\<lparr>itemsFromCache := itemsFromCache this + 1,
                                                    tokenizer := t\<rparr>)))
             else Inr (None, this))"

text \<open>The cast \<open>token.astNode as BracketAstNode\<close>.\<close>

fun as_bracket :: "ast \<Rightarrow> bracket_node result" where
  "as_bracket (BracketAstNode b) = Inr b"
| "as_bracket _ = Inl TypeError"

definition is_empty_list :: "ast \<Rightarrow> bool" where
  "is_empty_list c \<longleftrightarrow> ast_kind c = List_kind \<and> childrenLength c = 0"

text \<open>The end of \<open>parseList\<close>.\<close>

definition concat_parsed :: "ast list \<Rightarrow> 't parser \<Rightarrow> (ast option \<times> 't parser) result" where
  "concat_parsed items this =
     bind_result
       (if oldNodeReader this \<noteq> None then concat23Trees items
        else concat23TreesOfSameHeight items (createImmutableLists this))
       (\<lambda>n. Inr (n, this))"

fun parseList :: "nat \<Rightarrow> 't tokenizer_ops \<Rightarrow> small_set \<Rightarrow> nat \<Rightarrow> ast list \<Rightarrow> 't parser \<Rightarrow>
      (ast option \<times> 't parser) run"
  and parseChild :: "nat \<Rightarrow> 't tokenizer_ops \<Rightarrow> small_set \<Rightarrow> nat \<Rightarrow> 't parser \<Rightarrow> (ast \<times> 't parser) run" where
  "parseList 0 ops openedBracketIds level items this = None"
| "parseList (Suc fuel) ops openedBracketIds level items this =
     bind_run (Some (tryReadChildFromCache ops openedBracketIds this)) (\<lambda>(child, this).
       case child of
         Some c \<Rightarrow> parseList fuel ops openedBracketIds level (if is_empty_list c then items else items @ [c]) this
       | None \<Rightarrow> bind_run (Some (tokenizer_peek ops (tokenizer this))) (\<lambda>(tok, t).
           let this = this\<lparr>tokenizer := t\<rparr>
           in if (case tok of None \<Rightarrow> True
                  | Some tk \<Rightarrow> token_kind tk = ClosingBracketToken \<and>
                      SmallImmutableSet_intersects (token_bracketIds tk) openedBracketIds)
              then Some (concat_parsed items this)
              else bind_run (parseChild fuel ops openedBracketIds (level + 1) this) (\<lambda>(c, this).
                parseList fuel ops openedBracketIds level (if is_empty_list c then items else items @ [c]) this)))"
| "parseChild 0 ops openedBracketIds level this = None"
| "parseChild (Suc fuel) ops openedBracketIds level this =
     bind_run (Some (tokenizer_read ops (tokenizer this))) (\<lambda>(tok, t).
       let this = this\<lparr>itemsConstructed := itemsConstructed this + 1, tokenizer := t\<rparr>
       in case tok of
            None \<Rightarrow> Some (Inl TypeError)
          | Some tk \<Rightarrow>
            (case token_kind tk of
               ClosingBracketToken \<Rightarrow> Some (Inr (InvalidBracketAstNode (token_length tk) (token_bracketIds tk), this))
             | TextToken \<Rightarrow> Some (Inr (token_astNode tk, this))
             | OpeningBracketToken \<Rightarrow>
                 if level > 300 then Some (Inr (TextAstNode (token_length tk), this))
                 else bind_run
                   (parseList fuel ops (SmallImmutableSet_merge openedBracketIds (token_bracketIds tk)) (level + 1) [] this)
                   (\<lambda>(child, this).
                     bind_run (Some (tokenizer_peek ops (tokenizer this))) (\<lambda>(nextToken, t).
                       let this = this\<lparr>tokenizer := t\<rparr>
                       in bind_run (Some (as_bracket (token_astNode tk))) (\<lambda>openingBracket.
                            case nextToken of
                              None \<Rightarrow> Some (Inr (PairAstNode_create openingBracket child None, this))
                            | Some nt \<Rightarrow>
                                if token_kind nt = ClosingBracketToken \<and>
                                   (token_bracketId nt = token_bracketId tk \<or>
                                    SmallImmutableSet_intersects (token_bracketIds nt) (token_bracketIds tk))
                                then bind_run (Some (tokenizer_read ops (tokenizer this))) (\<lambda>(_, t).
                                  bind_run (Some (as_bracket (token_astNode nt))) (\<lambda>closingBracket.
                                    Some (Inr (PairAstNode_create openingBracket child (Some closingBracket),
                                      this\<lparr>tokenizer := t\<rparr>))))
                                else Some (Inr (PairAstNode_create openingBracket child None, this)))))))"

definition Parser_parseDocument :: "nat \<Rightarrow> 't tokenizer_ops \<Rightarrow> 't parser \<Rightarrow> (ast \<times> 't parser) run" where
  "Parser_parseDocument fuel ops this =
     bind_run
       (parseList fuel ops SmallImmutableSet_getEmpty 0 [] (this\<lparr>itemsConstructed := 0, itemsFromCache := 0\<rparr>))
       (\<lambda>(n, this). Some (Inr (case n of None \<Rightarrow> ListAstNode_getEmpty | Some n \<Rightarrow> n, this)))"

definition parseDocument ::
  "nat \<Rightarrow> 't tokenizer_ops \<Rightarrow> 't \<Rightarrow> text_edit_info list \<Rightarrow> ast option \<Rightarrow> bool \<Rightarrow> ast run" where
  "parseDocument fuel ops t edits oldNode im =
     bind_run (Some (mk_Parser t edits oldNode im)) (\<lambda>this.
       bind_run (Parser_parseDocument fuel ops this) (\<lambda>(n, _). Some (Inr n)))"

subsection \<open>What a tree says about the text\<close>

text \<open>The lengths of the tokens in the tree, from left to right.\<close>

fun leaf_lengths :: "ast \<Rightarrow> bracket_length list" where
  "leaf_lengths (PairAstNode _ b child cb _) =
     bn_length b # (case child of None \<Rightarrow> [] | Some c \<Rightarrow> leaf_lengths c) @
       (case cb of None \<Rightarrow> [] | Some b' \<Rightarrow> [bn_length b'])"
| "leaf_lengths (TwoThreeListAstNode _ _ _ i1 i2 i3 _) =
     leaf_lengths i1 @ leaf_lengths i2 @ (case i3 of None \<Rightarrow> [] | Some c \<Rightarrow> leaf_lengths c)"
| "leaf_lengths (ArrayListAstNode _ _ _ cs _) = concat (map leaf_lengths cs)"
| "leaf_lengths n = [ast_length n]"

text \<open>
  Brackets are nested: the closing bracket of a pair closes its opening bracket, and between them no
  closing bracket was left over that could have closed it.
\<close>

fun nested :: "ast \<Rightarrow> bool" where
  "nested (PairAstNode _ b child cb _) \<longleftrightarrow>
     (case child of None \<Rightarrow> True
      | Some c \<Rightarrow> nested c \<and> \<not> SmallImmutableSet_intersects (missingOpeningBracketIds c) (bn_bracketIds b)) \<and>
     (case cb of None \<Rightarrow> True | Some b' \<Rightarrow> SmallImmutableSet_intersects (bn_bracketIds b') (bn_bracketIds b))"
| "nested (TwoThreeListAstNode _ _ _ i1 i2 i3 _) \<longleftrightarrow>
     nested i1 \<and> nested i2 \<and> (case i3 of None \<Rightarrow> True | Some c \<Rightarrow> nested c)"
| "nested (ArrayListAstNode _ _ _ cs _) \<longleftrightarrow> (\<forall>c \<in> set cs. nested c)"
| "nested n \<longleftrightarrow> True"

lemma leaf_lengths_items: "leaf_lengths n = concat (map leaf_lengths (ast_items n))"
proof (induction n rule: ast_children_induct)
  case (node n)
  then show ?case
  proof (cases n)
    case (ArrayListAstNode im l h cs ids)
    have "concat (map leaf_lengths ds) = concat (map leaf_lengths (concat (map ast_items ds)))"
      if "\<forall>c \<in> set ds. leaf_lengths c = concat (map leaf_lengths (ast_items c))" for ds
      using that by (induction ds) auto
    with ArrayListAstNode node.IH show ?thesis by simp
  qed (auto split: option.splits)
qed

lemma nested_items: "nested n \<longleftrightarrow> (\<forall>i \<in> set (ast_items n). nested i)"
proof (induction n rule: ast_children_induct)
  case (node n)
  then show ?case
    by (cases n) (auto split: option.splits)
qed

lemma leaf_lengths_children:
  "ast_children n \<noteq> [] \<Longrightarrow> leaf_lengths n = concat (map leaf_lengths (ast_children n))"
  by (cases n) (auto split: option.splits)

lemma ast_length_sum_leaves:
  assumes "ast_ok n" and "columns_fit (leaf_lengths n)"
  shows "ast_length n = foldl lengthAdd 0 (leaf_lengths n)"
  using assms
proof (induction n rule: ast_children_induct)
  case (node n)
  show ?case
  proof (cases "ast_children n = []")
    case True
    with node.prems show ?thesis
      by (cases n) (auto split: option.splits)
  next
    case False
    have fold: "foldl lengthAdd 0 (map ast_length cs) = foldl lengthAdd 0 (concat (map leaf_lengths cs))"
      if "set cs \<subseteq> set (ast_children n)" "columns_fit (concat (map leaf_lengths cs))" for cs
      using that
    proof (induction cs rule: rev_induct)
      case (snoc c cs)
      then have fit: "columns_fit (concat (map leaf_lengths cs) @ leaf_lengths c)"
        by simp
      have "ast_length c = foldl lengthAdd 0 (leaf_lengths c)"
        using node.IH [of c] snoc.prems(1) ast_ok_child [OF node.prems(1), of c]
          columns_fit_append [OF fit] by simp
      with snoc.IH snoc.prems(1) columns_fit_append [OF fit] foldl_lengthAdd_append [OF fit] show ?case
        by simp
    qed simp
    from ast_ok_cached [OF node.prems(1) False] fold [of "ast_children n"] node.prems(2) False show ?thesis
      by (simp add: cached_ok_def leaf_lengths_children)
  qed
qed

subsection \<open>Tokens\<close>

text \<open>What the tokenizers produce: brackets have an id among their ids, and a node that fits.\<close>

definition token_ok :: "token \<Rightarrow> bool" where
  "token_ok tk \<longleftrightarrow>
     0 \<le> token_length tk \<and> canonical_set (token_bracketIds tk) \<and>
     (case token_kind tk of
        TextToken \<Rightarrow> token_astNode tk = TextAstNode (token_length tk)
      | _ \<Rightarrow> 0 \<le> token_bracketId tk \<and> has_key (nat (token_bracketId tk)) (token_bracketIds tk) \<and>
          (case token_astNode tk of
             BracketAstNode b \<Rightarrow> bn_length b = token_length tk \<and> bn_bracketIds b = token_bracketIds tk
           | _ \<Rightarrow> False))"

lemma token_ok_bracket:
  assumes "token_ok tk" and "token_kind tk \<noteq> TextToken"
  obtains b where "token_astNode tk = BracketAstNode b" "bn_length b = token_length tk"
    "bn_bracketIds b = token_bracketIds tk" "bracket_ok b" "0 \<le> token_bracketId tk"
    "has_key (nat (token_bracketId tk)) (token_bracketIds tk)"
  using assms by (cases "token_kind tk"; cases "token_astNode tk") (auto simp: token_ok_def)

text \<open>The fast tokenizer at a token, without an old tree.\<close>

definition at_token :: "token list \<Rightarrow> nat \<Rightarrow> fast_tokenizer parser \<Rightarrow> bool" where
  "at_token ts i p \<longleftrightarrow> oldNodeReader p = None \<and> ft_tokens (tokenizer p) = map Some ts \<and>
     ft_idx (tokenizer p) = i \<and> i \<le> length ts"

lemma token_at_map_Some: "token_at (map Some ts) i = (if i < length ts then Some (ts ! i) else None)"
  by (simp add: token_at_def)

lemma at_token_peek:
  "at_token ts i p \<Longrightarrow> tokenizer_peek fast_ops (tokenizer p) =
     Inr (if i < length ts then Some (ts ! i) else None, tokenizer p)"
  by (simp add: at_token_def fast_ops_def FastTokenizer_peek_def token_at_map_Some)

lemma at_token_read:
  "at_token ts i p \<Longrightarrow> i < length ts \<Longrightarrow> tokenizer_read fast_ops (tokenizer p) =
     Inr (Some (ts ! i), (tokenizer p)\<lparr>ft_idx := Suc i\<rparr>)"
  by (simp add: at_token_def fast_ops_def FastTokenizer_read_def token_at_map_Some)

lemma at_token_cache: "at_token ts i p \<Longrightarrow> tryReadChildFromCache fast_ops opened p = Inr (None, p)"
  by (simp add: at_token_def tryReadChildFromCache_def)

lemma at_token_next:
  "at_token ts i p \<Longrightarrow> i < length ts \<Longrightarrow> tokenizer q = (tokenizer p)\<lparr>ft_idx := Suc i\<rparr> \<Longrightarrow>
     oldNodeReader q = None \<Longrightarrow> at_token ts (Suc i) q"
  by (simp add: at_token_def)

text \<open>A parsed piece of the tokens from \<open>i\<close> to \<open>j\<close> inside of open brackets.\<close>

definition piece :: "token list \<Rightarrow> nat \<Rightarrow> nat \<Rightarrow> bracket_length list" where
  "piece ts i j = map token_length (drop i (take j ts))"

definition parsed :: "small_set \<Rightarrow> ast \<Rightarrow> bool" where
  "parsed opened c \<longleftrightarrow> ok_at 0 c \<and> nested c \<and> \<not> SmallImmutableSet_intersects (missingOpeningBracketIds c) opened"

lemma piece_append: "i \<le> j \<Longrightarrow> j \<le> k \<Longrightarrow> piece ts i j @ piece ts j k = piece ts i k"
proof -
  assume "i \<le> j" "j \<le> k"
  then have "drop i (take k ts) = drop i (take j ts) @ drop j (take k ts)"
    using take_add [of j "k - j" ts] by (cases "j \<le> length ts") (simp_all add: drop_take)
  then show ?thesis by (simp add: piece_def)
qed

lemma piece_same [simp]: "piece ts i i = []"
  by (simp add: piece_def)

lemma piece_one: "i < length ts \<Longrightarrow> piece ts i (Suc i) = [token_length (ts ! i)]"
  by (simp add: piece_def take_Suc_conv_app_nth)

subsection \<open>Parsing from scratch\<close>

lemma intersects_merge:
  "SmallImmutableSet_intersects s (SmallImmutableSet_merge t u) \<longleftrightarrow>
     SmallImmutableSet_intersects s t \<or> SmallImmutableSet_intersects s u"
  by (auto simp: intersects_iff has_key_merge)

lemma parsed_not_empty_list: "parsed opened c \<Longrightarrow> \<not> is_empty_list c"
  using ast_ok_list_height by (auto simp: parsed_def ok_at_def is_empty_list_def)

text \<open>A parsed list: a well-formed tree that is nested and leaves the open brackets open.\<close>

definition parsed_tree :: "small_set \<Rightarrow> bracket_length list \<Rightarrow> ast \<Rightarrow> bool" where
  "parsed_tree opened ls n \<longleftrightarrow>
     ast_ok n \<and> nested n \<and> \<not> SmallImmutableSet_intersects (missingOpeningBracketIds n) opened \<and>
     leaf_lengths n = ls"

lemma parsed_items: "parsed opened c \<Longrightarrow> ast_items c = [c]"
  using ast_ok_list_height [of c] by (auto simp: parsed_def ok_at_def leaf_ast_items)

lemma concat_parsed_ok:
  assumes "oldNodeReader p = None" and "\<forall>c \<in> set items. parsed opened c"
  shows "\<exists>res. concat_parsed items p = Inr (res, p) \<and>
    (case res of None \<Rightarrow> items = []
     | Some n \<Rightarrow> parsed_tree opened (concat (map leaf_lengths items)) n)"
proof (cases "items = []")
  case True
  with assms show ?thesis by (simp add: concat_parsed_def concat23TreesOfSameHeight_def)
next
  case False
  have "all_items items = items"
    using assms(2) by (induction items) (auto simp: parsed_items)
  with concat23TreesOfSameHeight_ok [OF False, of 0 "createImmutableLists p"] assms(2)
  obtain n where n: "concat23TreesOfSameHeight items (createImmutableLists p) = Inr (Some n)" "ast_ok n"
    "ast_items n = items"
    by (auto simp: parsed_def)
  have "nested n"
    using nested_items [of n] n(3) assms(2) by (simp add: parsed_def)
  moreover have "\<not> SmallImmutableSet_intersects (missingOpeningBracketIds n) opened"
    using ast_ids_items [OF n(2)] n(3) assms(2) by (auto simp: intersects_iff parsed_def)
  moreover have "leaf_lengths n = concat (map leaf_lengths items)"
    using leaf_lengths_items [of n] n(3) by simp
  ultimately show ?thesis
    using n assms(1) by (auto simp: concat_parsed_def parsed_tree_def)
qed

definition list_goal :: "token list \<Rightarrow> nat \<Rightarrow> bool" where
  "list_goal ts fuel \<longleftrightarrow>
     (\<forall>opened level items p i. at_token ts i p \<and> 2 * (length ts - i) + 1 \<le> fuel \<and>
       (\<forall>c \<in> set items. parsed opened c) \<longrightarrow>
       (\<exists>res p' j. parseList fuel fast_ops opened level items p = Some (Inr (res, p')) \<and>
         at_token ts j p' \<and> i \<le> j \<and>
         (j = length ts \<or> token_kind (ts ! j) = ClosingBracketToken \<and>
            SmallImmutableSet_intersects (token_bracketIds (ts ! j)) opened) \<and>
         (case res of None \<Rightarrow> items = [] \<and> i = j
          | Some n \<Rightarrow> parsed_tree opened (concat (map leaf_lengths items) @ piece ts i j) n)))"

definition child_goal :: "token list \<Rightarrow> nat \<Rightarrow> bool" where
  "child_goal ts fuel \<longleftrightarrow>
     (\<forall>opened level p i. at_token ts i p \<and> i < length ts \<and> 2 * (length ts - i) \<le> fuel \<and>
       \<not> (token_kind (ts ! i) = ClosingBracketToken \<and>
          SmallImmutableSet_intersects (token_bracketIds (ts ! i)) opened) \<longrightarrow>
       (\<exists>c p' j. parseChild fuel fast_ops opened level p = Some (Inr (c, p')) \<and>
         at_token ts j p' \<and> i < j \<and> parsed opened c \<and> leaf_lengths c = piece ts i j))"

lemma list_goal_step:
  assumes "child_goal ts fuel" and "list_goal ts fuel"
  shows "list_goal ts (Suc fuel)"
  unfolding list_goal_def
proof (intro allI impI, elim conjE)
  fix opened level items p i
  assume at: "at_token ts i p" and fuel: "2 * (length ts - i) + 1 \<le> Suc fuel"
    and items: "\<forall>c \<in> set items. parsed opened c"
  let ?stop = "i = length ts \<or> token_kind (ts ! i) = ClosingBracketToken \<and>
    SmallImmutableSet_intersects (token_bracketIds (ts ! i)) opened"
  have i: "i \<le> length ts" using at by (simp add: at_token_def)
  show "\<exists>res p' j. parseList (Suc fuel) fast_ops opened level items p = Some (Inr (res, p')) \<and>
         at_token ts j p' \<and> i \<le> j \<and>
         (j = length ts \<or> token_kind (ts ! j) = ClosingBracketToken \<and>
            SmallImmutableSet_intersects (token_bracketIds (ts ! j)) opened) \<and>
         (case res of None \<Rightarrow> items = [] \<and> i = j
          | Some n \<Rightarrow> parsed_tree opened (concat (map leaf_lengths items) @ piece ts i j) n)"
  proof (cases ?stop)
    case True
    have "oldNodeReader p = None" using at by (simp add: at_token_def)
    then obtain res where "concat_parsed items p = Inr (res, p)"
      "case res of None \<Rightarrow> items = [] | Some n \<Rightarrow> parsed_tree opened (concat (map leaf_lengths items)) n"
      using concat_parsed_ok [OF _ items] by blast
    with True at i show ?thesis
      by (intro exI [of _ res] exI [of _ p] exI [of _ i])
        (auto simp: at_token_cache at_token_peek split: option.splits)
  next
    case False
    then have lt: "i < length ts" using i by simp
    obtain c p1 j where c: "parseChild fuel fast_ops opened (level + 1) p = Some (Inr (c, p1))"
      "at_token ts j p1" "i < j" "parsed opened c" "leaf_lengths c = piece ts i j"
      using assms(1) at lt fuel False unfolding child_goal_def by fastforce
    have j: "j \<le> length ts" using c(2) by (simp add: at_token_def)
    have "2 * (length ts - j) + 1 \<le> fuel" using fuel c(3) j lt by simp
    moreover have "\<forall>d \<in> set (items @ [c]). parsed opened d" using items c(4) by simp
    ultimately obtain res p' k where r:
      "parseList fuel fast_ops opened level (items @ [c]) p1 = Some (Inr (res, p'))" "at_token ts k p'"
      "j \<le> k" "k = length ts \<or> token_kind (ts ! k) = ClosingBracketToken \<and>
            SmallImmutableSet_intersects (token_bracketIds (ts ! k)) opened"
      "case res of None \<Rightarrow> items @ [c] = [] \<and> j = k
          | Some n \<Rightarrow> parsed_tree opened (concat (map leaf_lengths (items @ [c])) @ piece ts j k) n"
      using assms(2) c(2) unfolding list_goal_def by blast
    have "piece ts i j @ piece ts j k = piece ts i k"
      using c(3) r(3) by (simp add: piece_append)
    moreover have "parseList (Suc fuel) fast_ops opened level items p =
        parseList fuel fast_ops opened level (items @ [c]) p1"
      using at lt c(1) False parsed_not_empty_list [OF c(4)]
      by (auto simp: at_token_cache at_token_peek)
    ultimately show ?thesis
      using r c(3,5) by (intro exI [of _ res] exI [of _ p'] exI [of _ k]) (auto split: option.splits)
  qed
qed

lemma PairAstNode_create_parsed:
  assumes "bracket_ok b" and "\<And>b'. cb = Some b' \<Longrightarrow>
      bracket_ok b' \<and> SmallImmutableSet_intersects (bn_bracketIds b') (bn_bracketIds b)"
    and "\<And>c. child = Some c \<Longrightarrow>
      parsed_tree (SmallImmutableSet_merge opened (bn_bracketIds b)) ls c" and "child = None \<Longrightarrow> ls = []"
  shows "parsed opened (PairAstNode_create b child cb) \<and>
    leaf_lengths (PairAstNode_create b child cb) =
      bn_length b # ls @ (case cb of None \<Rightarrow> [] | Some b' \<Rightarrow> [bn_length b'])"
proof (cases child)
  case None
  with assms show ?thesis
    by (cases cb) (auto simp: PairAstNode_create_def parsed_def ok_at_def cached_ok_def ids.merge_empty
        intersects_iff)
next
  case (Some c)
  then have c: "ast_ok c" "nested c" "\<not> SmallImmutableSet_intersects (missingOpeningBracketIds c) opened"
    "\<not> SmallImmutableSet_intersects (missingOpeningBracketIds c) (bn_bracketIds b)" "leaf_lengths c = ls"
    using assms(3) by (auto simp: parsed_tree_def intersects_merge)
  have "canonical_set (missingOpeningBracketIds c)" using c(1) by (rule ast_ok_canonical)
  with Some c assms(1,2) show ?thesis
    by (cases cb) (auto simp: PairAstNode_create_def parsed_def ok_at_def cached_ok_def
        ids.merge_empty ids.empty_merge)
qed

lemma child_goal_step:
  assumes "list_goal ts fuel" and ok: "\<forall>tk \<in> set ts. token_ok tk"
  shows "child_goal ts (Suc fuel)"
  unfolding child_goal_def
proof (intro allI impI, elim conjE)
  fix opened level p i
  assume at: "at_token ts i p" and i: "i < length ts" and fuel: "2 * (length ts - i) \<le> Suc fuel"
    and go: "\<not> (token_kind (ts ! i) = ClosingBracketToken \<and>
      SmallImmutableSet_intersects (token_bracketIds (ts ! i)) opened)"
  let ?tk = "ts ! i"
  define q where "q = p\<lparr>itemsConstructed := itemsConstructed p + 1, tokenizer := (tokenizer p)\<lparr>ft_idx := Suc i\<rparr>\<rparr>"
  have tk: "token_ok ?tk" using ok i by simp
  have atq: "at_token ts (Suc i) q"
    using at i by (intro at_token_next [OF at i]) (simp_all add: q_def at_token_def)
  note read = at_token_read [OF at i]
  show "\<exists>c p' j. parseChild (Suc fuel) fast_ops opened level p = Some (Inr (c, p')) \<and>
         at_token ts j p' \<and> i < j \<and> parsed opened c \<and> leaf_lengths c = piece ts i j"
  proof (cases "token_kind ?tk = OpeningBracketToken \<and> \<not> level > 300")
    case False
    define c where "c = (case token_kind ?tk of
        ClosingBracketToken \<Rightarrow> InvalidBracketAstNode (token_length ?tk) (token_bracketIds ?tk)
      | _ \<Rightarrow> TextAstNode (token_length ?tk))"
    have "parseChild (Suc fuel) fast_ops opened level p = Some (Inr (c, q))"
      using read False tk by (cases "token_kind ?tk") (auto simp: c_def q_def token_ok_def)
    moreover have "parsed opened c" "leaf_lengths c = piece ts i (Suc i)"
      using tk go i by (auto simp: c_def parsed_def ok_at_def token_ok_def piece_one intersects_iff
          split: token_kind.splits)
    ultimately show ?thesis using atq by blast
  next
    case True
    obtain b where b: "token_astNode ?tk = BracketAstNode b" "bn_length b = token_length ?tk"
      "bn_bracketIds b = token_bracketIds ?tk" "bracket_ok b" "0 \<le> token_bracketId ?tk"
      "has_key (nat (token_bracketId ?tk)) (token_bracketIds ?tk)"
      using token_ok_bracket [OF tk] True by auto
    let ?set = "SmallImmutableSet_merge opened (token_bracketIds ?tk)"
    have "2 * (length ts - Suc i) + 1 \<le> fuel" using fuel i by simp
    then obtain child p1 j where r:
      "parseList fuel fast_ops ?set (level + 1) [] q = Some (Inr (child, p1))" "at_token ts j p1"
      "Suc i \<le> j"
      "case child of None \<Rightarrow> Suc i = j | Some n \<Rightarrow> parsed_tree ?set (piece ts (Suc i) j) n"
      using assms(1) [unfolded list_goal_def, rule_format, of "Suc i" q "[]" ?set "level + 1"] atq
      by (auto split: option.splits)
    have child: "child = Some c \<Longrightarrow> parsed_tree (SmallImmutableSet_merge opened (bn_bracketIds b)) (piece ts (Suc i) j) c"
      "child = None \<Longrightarrow> piece ts (Suc i) j = []" for c
      using r(4) b(3) by auto
    have before: "token_length ?tk # piece ts (Suc i) j = piece ts i j"
      using piece_append [of i "Suc i" j ts] r(3) piece_one [OF i] by simp
    let ?closes = "j < length ts \<and> token_kind (ts ! j) = ClosingBracketToken \<and>
      (token_bracketId (ts ! j) = token_bracketId ?tk \<or>
       SmallImmutableSet_intersects (token_bracketIds (ts ! j)) (token_bracketIds ?tk))"
    show ?thesis
    proof (cases ?closes)
      case closes: True
      then have "token_ok (ts ! j)" "token_kind (ts ! j) \<noteq> TextToken" using ok by auto
      then obtain b' where b': "token_astNode (ts ! j) = BracketAstNode b'" "bn_length b' = token_length (ts ! j)"
        "bn_bracketIds b' = token_bracketIds (ts ! j)" "bracket_ok b'"
        "has_key (nat (token_bracketId (ts ! j))) (token_bracketIds (ts ! j))"
        using token_ok_bracket by blast
      define p2 where "p2 = p1\<lparr>tokenizer := (tokenizer p1)\<lparr>ft_idx := Suc j\<rparr>\<rparr>"
      have at2: "at_token ts (Suc j) p2"
        using r(2) closes by (intro at_token_next [OF r(2)]) (simp_all add: p2_def at_token_def)
      have "SmallImmutableSet_intersects (bn_bracketIds b') (bn_bracketIds b)"
        using closes b b' by (auto simp: intersects_iff)
      moreover have "piece ts i (Suc j) = token_length ?tk # piece ts (Suc i) j @ [token_length (ts ! j)]"
        using piece_append [of i j "Suc j" ts] piece_one [of j ts] closes r(3)
        unfolding before [symmetric] by simp
      ultimately have "parsed opened (PairAstNode_create b child (Some b')) \<and>
          leaf_lengths (PairAstNode_create b child (Some b')) = piece ts i (Suc j)"
        using PairAstNode_create_parsed [OF b(4) _ child, of "Some b'"] b b' by simp
      moreover have "parseChild (Suc fuel) fast_ops opened level p =
          Some (Inr (PairAstNode_create b child (Some b'), p2))"
        using read True r(1) [unfolded q_def] at_token_peek [OF r(2)] at_token_read [OF r(2)] closes b(1) b'(1)
        by (auto simp: p2_def)
      ultimately show ?thesis using at2 r(3) by (meson Suc_le_lessD less_SucI)
    next
      case unclosed: False
      have "parsed opened (PairAstNode_create b child None) \<and>
          leaf_lengths (PairAstNode_create b child None) = piece ts i j"
        using PairAstNode_create_parsed [OF b(4) _ child, of None] b before by simp
      moreover have "parseChild (Suc fuel) fast_ops opened level p =
          Some (Inr (PairAstNode_create b child None, p1))"
        using read True r(1) [unfolded q_def] at_token_peek [OF r(2)] unclosed b(1)
        by auto
      ultimately show ?thesis using r(2,3) by (meson Suc_le_lessD)
    qed
  qed
qed

lemma parse_goals:
  assumes "\<forall>tk \<in> set ts. token_ok tk"
  shows "list_goal ts fuel \<and> child_goal ts fuel"
proof (induction fuel)
  case 0
  show ?case by (auto simp: list_goal_def child_goal_def)
next
  case (Suc fuel)
  then show ?case using list_goal_step child_goal_step assms by blast
qed

lemma parseDocument_scratch:
  assumes ts: "ft_tokens t = map Some ts" "ft_idx t = 0" and ok: "\<forall>tk \<in> set ts. token_ok tk"
    and fuel: "2 * length ts + 1 \<le> fuel"
  shows "\<exists>root. parseDocument fuel fast_ops t edits None im = Some (Inr root) \<and>
    leaf_lengths root = map token_length ts \<and> nested root \<and>
    (if ts = [] then root = ListAstNode_getEmpty else ast_ok root)"
proof -
  define p where "p = \<lparr>tokenizer = t, oldNodeReader = None, positionMapper = BeforeEditPositionMapper edits,
    createImmutableLists = im, itemsConstructed = 0, itemsFromCache = 0\<rparr>"
  have at: "at_token ts 0 p"
    using ts by (simp add: at_token_def p_def)
  have "list_goal ts fuel" using parse_goals [OF ok] by simp
  then obtain res p' j where r:
    "parseList fuel fast_ops SmallImmutableSet_getEmpty 0 [] p = Some (Inr (res, p'))" "at_token ts j p'"
    "j = length ts \<or> token_kind (ts ! j) = ClosingBracketToken \<and>
       SmallImmutableSet_intersects (token_bracketIds (ts ! j)) SmallImmutableSet_getEmpty"
    "case res of None \<Rightarrow> 0 = j | Some n \<Rightarrow> parsed_tree SmallImmutableSet_getEmpty (piece ts 0 j) n"
    using at fuel
    unfolding list_goal_def
    by (elim allE [of _ SmallImmutableSet_getEmpty] allE [of _ 0] allE [of _ "[]"] allE [of _ p])
      (auto split: option.splits)
  have j: "j = length ts" using r(3) by (auto simp: intersects_iff)
  have doc: "parseDocument fuel fast_ops t edits None im =
      Some (Inr (case res of None \<Rightarrow> ListAstNode_getEmpty | Some n \<Rightarrow> n))"
    using r(1) by (simp add: parseDocument_def mk_Parser_def Parser_parseDocument_def p_def)
  show ?thesis
  proof (cases res)
    case None
    with r(4) j doc show ?thesis by (simp add: ListAstNode_getEmpty_def)
  next
    case (Some n)
    with r(4) j have n: "ast_ok n" "nested n" "leaf_lengths n = map token_length ts"
      by (simp_all add: parsed_tree_def piece_def)
    moreover have "leaf_lengths n \<noteq> []" if "ast_ok n" for n
      using that
    proof (induction n rule: ast_children_induct)
      case (node n)
      show ?case
      proof (cases "ast_children n")
        case Nil
        with node.prems show ?thesis by (cases n) (auto split: option.splits)
      next
        case (Cons c cs)
        with node ast_ok_child [OF node.prems, of c] show ?thesis by (simp add: leaf_lengths_children)
      qed
    qed
    ultimately show ?thesis using doc Some by auto
  qed
qed

subsection \<open>Parsing with an old tree\<close>

text \<open>What every tokenizer gives: tokens that are in order.\<close>

definition gives_tokens :: "'t tokenizer_ops \<Rightarrow> bool" where
  "gives_tokens ops \<longleftrightarrow>
     (\<forall>t tok t'. tokenizer_peek ops t = Inr (Some tok, t') \<or> tokenizer_read ops t = Inr (Some tok, t') \<longrightarrow> token_ok tok)"

text \<open>The old tree is well-formed or the tree of an empty document.\<close>

definition old_ok :: "ast \<Rightarrow> bool" where
  "old_ok root \<longleftrightarrow> ast_ok root \<or> root = ListAstNode_getEmpty"

definition reader_fine :: "ast \<Rightarrow> 't parser \<Rightarrow> bool" where
  "reader_fine root p \<longleftrightarrow> (case oldNodeReader p of None \<Rightarrow> True | Some r \<Rightarrow> old_ok root \<and> reader_ok root r)"

definition item_ok :: "'t parser \<Rightarrow> ast \<Rightarrow> bool" where
  "item_ok p c \<longleftrightarrow> ast_ok c \<and> (oldNodeReader p = None \<longrightarrow> listHeight c = 0)"

definition same_mode :: "'t parser \<Rightarrow> 't parser \<Rightarrow> bool" where
  "same_mode p q \<longleftrightarrow> (oldNodeReader p = None \<longleftrightarrow> oldNodeReader q = None)"

lemma located_old:
  assumes "old_ok root" and "located root n off"
  shows "old_ok n"
proof (cases "ast_ok root")
  case True
  with assms(2) show ?thesis by (simp add: located_ast_ok old_ok_def)
next
  case False
  with assms(1) have root: "root = ListAstNode_getEmpty" by (simp add: old_ok_def)
  from assms(2) have "n = root"
    by (induction rule: located.induct) (auto simp: root ListAstNode_getEmpty_def)
  with assms(1) show ?thesis by simp
qed

lemma canBeReused_old: "old_ok n \<Longrightarrow> \<exists>b. canBeReused n openIds = Inr b \<and> (b \<longrightarrow> ast_ok n)"
proof (cases "ast_ok n")
  case True
  then show ?thesis using canBeReused_total by blast
next
  case False
  assume "old_ok n"
  with False have "n = ListAstNode_getEmpty" by (simp add: old_ok_def)
  then show ?thesis by (intro exI [of _ False]) (simp add: canBeReused_def ListAstNode_getEmpty_def)
qed

lemma reuse_pred_old: "old_ok n \<Longrightarrow> \<exists>b. reuse_pred m openIds n = Inr b \<and> (b \<longrightarrow> ast_ok n)"
  using canBeReused_old [of n openIds] by (auto simp: reuse_pred_def)

lemma readLongestNodeAt_reuse:
  assumes "old_ok root" and "reader_ok root r"
    and "readLongestNodeAt off (reuse_pred m openIds) r = Inr (res, r')"
  shows "reader_ok root r' \<and> (\<forall>n. res = Some n \<longrightarrow> ast_ok n)"
proof -
  have "lastOffset r \<le> off"
    using assms(3) by (auto simp: readLongestNodeAt_def lengthLessThan_def split: if_splits)
  moreover have "\<exists>b. reuse_pred m openIds n = Inr b" if "located root n x" for n x
    using reuse_pred_old located_old [OF assms(1) that] by blast
  ultimately obtain res1 r1 where r1: "readLongestNodeAt off (reuse_pred m openIds) r = Inr (res1, r1)"
    "reader_ok root r1"
    "\<forall>n. res1 = Some n \<longrightarrow> located root n off \<and> reuse_pred m openIds n = Inr True"
    using readLongestNodeAt_ok [OF assms(2)] by blast
  have "ast_ok n" if "res1 = Some n" for n
    using r1(3) that reuse_pred_old [of n m openIds] located_old [OF assms(1), of n off] by auto
  with r1 assms(3) show ?thesis by simp
qed

lemma tryReadChild_fine:
  assumes "tryReadChildFromCache ops opened p = Inr (child, q)" and "reader_fine root p"
  shows "reader_fine root q \<and> same_mode p q \<and> (\<forall>c. child = Some c \<longrightarrow> item_ok q c)"
proof (cases "oldNodeReader p")
  case None
  with assms show ?thesis
    by (auto simp: tryReadChildFromCache_def same_mode_def)
next
  case (Some r)
  have "old_ok root" "reader_ok root r"
    using assms(2) Some by (simp_all add: reader_fine_def)
  note reuse = readLongestNodeAt_reuse [OF this]
  show ?thesis
    using assms(1) Some reuse \<open>old_ok root\<close> \<open>reader_ok root r\<close>
    by (auto simp: tryReadChildFromCache_def Let_def case_prod_beta bind_result_Inr_iff reader_fine_def
        same_mode_def item_ok_def split: if_splits option.splits)
qed

lemma concat_parsed_fine:
  assumes "concat_parsed items p = Inr (res, q)" and "\<forall>c \<in> set items. item_ok p c"
  shows "q = p \<and> (\<forall>n. res = Some n \<longrightarrow> ast_ok n)"
proof (cases "items = []")
  case True
  with assms(1) show ?thesis
    by (auto simp: concat_parsed_def concat23TreesOfSameHeight_def concat23Trees_def split: if_splits)
next
  case False
  show ?thesis
  proof (cases "oldNodeReader p")
    case None
    with assms(2) have items: "\<And>n. n \<in> set items \<Longrightarrow> ok_at 0 n" by (simp add: item_ok_def ok_at_def)
    obtain n where "concat23TreesOfSameHeight items (createImmutableLists p) = Inr (Some n)" "ast_ok n"
      using concat23TreesOfSameHeight_ok [OF False items] by blast
    with assms(1) None show ?thesis
      by (auto simp: concat_parsed_def bind_result_Inr_iff)
  next
    case (Some r)
    with assms concat23Trees_ok [OF False] show ?thesis
      by (auto simp: concat_parsed_def bind_result_Inr_iff item_ok_def)
  qed
qed

lemma bind_run_Inr_iff:
  "bind_run m f = Some (Inr y) \<longleftrightarrow> (\<exists>x. m = Some (Inr x) \<and> f x = Some (Inr y))"
  by (auto simp: bind_run_def split: option.splits sum.splits)

lemma same_mode_trans: "same_mode p q \<Longrightarrow> same_mode q r \<Longrightarrow> same_mode p r"
  by (simp add: same_mode_def)

lemma item_ok_same_mode: "same_mode p q \<Longrightarrow> item_ok p c \<longleftrightarrow> item_ok q c"
  by (simp add: same_mode_def item_ok_def)

lemma reader_fine_update [simp]:
  "reader_fine root (p\<lparr>tokenizer := t\<rparr>) = reader_fine root p"
  "reader_fine root (p\<lparr>itemsConstructed := n\<rparr>) = reader_fine root p"
  "reader_fine root (p\<lparr>itemsConstructed := n, tokenizer := t\<rparr>) = reader_fine root p"
  "same_mode p (q\<lparr>tokenizer := t\<rparr>) = same_mode p q"
  "same_mode (p\<lparr>tokenizer := t\<rparr>) q = same_mode p q"
  "same_mode (p\<lparr>itemsConstructed := n, tokenizer := t\<rparr>) q = same_mode p q"
  "same_mode p p"
  by (simp_all add: reader_fine_def same_mode_def)

definition list_fine :: "'t tokenizer_ops \<Rightarrow> ast \<Rightarrow> nat \<Rightarrow> bool" where
  "list_fine ops root fuel \<longleftrightarrow>
     (\<forall>opened level items p res q. parseList fuel ops opened level items p = Some (Inr (res, q)) \<longrightarrow>
       reader_fine root p \<longrightarrow> (\<forall>c \<in> set items. item_ok p c) \<longrightarrow>
       reader_fine root q \<and> same_mode p q \<and> (\<forall>n. res = Some n \<longrightarrow> ast_ok n))"

definition child_fine :: "'t tokenizer_ops \<Rightarrow> ast \<Rightarrow> nat \<Rightarrow> bool" where
  "child_fine ops root fuel \<longleftrightarrow>
     (\<forall>opened level p c q. parseChild fuel ops opened level p = Some (Inr (c, q)) \<longrightarrow>
       reader_fine root p \<longrightarrow>
       reader_fine root q \<and> same_mode p q \<and> ast_ok c \<and> listHeight c = 0)"

lemma list_fine_step:
  assumes child: "child_fine ops root fuel" and list: "list_fine ops root fuel"
  shows "list_fine ops root (Suc fuel)"
  unfolding list_fine_def
proof (intro allI impI)
  fix opened level items p res q
  assume run: "parseList (Suc fuel) ops opened level items p = Some (Inr (res, q))"
    and fine: "reader_fine root p" and items: "\<forall>c \<in> set items. item_ok p c"
  from run obtain cached p1 where cached: "tryReadChildFromCache ops opened p = Inr (cached, p1)"
    by (auto simp: bind_run_Inr_iff)
  note p1 = tryReadChild_fine [OF cached fine]
  have goal: "reader_fine root q \<and> same_mode p q \<and> (\<forall>n. res = Some n \<longrightarrow> ast_ok n)"
    if "parseList fuel ops opened level (if is_empty_list c then items else items @ [c]) p2 = Some (Inr (res, q))"
      and "reader_fine root p2" "same_mode p p2" "item_ok p2 c" for c p2
  proof -
    have "\<forall>c' \<in> set (if is_empty_list c then items else items @ [c]). item_ok p2 c'"
      using items that(4) item_ok_same_mode [OF that(3)] by simp
    with list that(1,2) have "reader_fine root q \<and> same_mode p2 q \<and> (\<forall>n. res = Some n \<longrightarrow> ast_ok n)"
      unfolding list_fine_def by blast
    with that(3) same_mode_trans show ?thesis by blast
  qed
  show "reader_fine root q \<and> same_mode p q \<and> (\<forall>n. res = Some n \<longrightarrow> ast_ok n)"
  proof (cases cached)
    case (Some c)
    with run cached p1 show ?thesis
      by (intro goal [of c p1]) auto
  next
    case None
    with run cached obtain tok t where peek: "tokenizer_peek ops (tokenizer p1) = Inr (tok, t)"
      by (auto simp: bind_run_Inr_iff)
    let ?stop = "case tok of None \<Rightarrow> True | Some tk \<Rightarrow> token_kind tk = ClosingBracketToken \<and>
      SmallImmutableSet_intersects (token_bracketIds tk) opened"
    show ?thesis
    proof (cases ?stop)
      case True
      with run cached None peek have "concat_parsed items (p1\<lparr>tokenizer := t\<rparr>) = Inr (res, q)"
        by simp
      moreover have "\<forall>c \<in> set items. item_ok (p1\<lparr>tokenizer := t\<rparr>) c"
        using items p1 item_ok_same_mode [of p "p1\<lparr>tokenizer := t\<rparr>"] by simp
      ultimately show ?thesis
        using concat_parsed_fine p1 by fastforce
    next
      case False
      with run cached None peek obtain c p2 where
        c: "parseChild fuel ops opened (level + 1) (p1\<lparr>tokenizer := t\<rparr>) = Some (Inr (c, p2))" and
        rest: "parseList fuel ops opened level (if is_empty_list c then items else items @ [c]) p2 = Some (Inr (res, q))"
        by (auto simp: bind_run_Inr_iff)
      from child c p1 have "reader_fine root p2 \<and> same_mode p1 p2 \<and> ast_ok c \<and> listHeight c = 0"
        unfolding child_fine_def by fastforce
      with rest p1 show ?thesis
        using same_mode_trans [of p p1 p2] by (intro goal [of c p2]) (auto simp: item_ok_def)
    qed
  qed
qed

lemma PairAstNode_create_ok:
  assumes "bracket_ok b" and "\<And>b'. cb = Some b' \<Longrightarrow> bracket_ok b'" and "\<And>c. child = Some c \<Longrightarrow> ast_ok c"
  shows "ast_ok (PairAstNode_create b child cb)" "listHeight (PairAstNode_create b child cb) = 0"
proof -
  show "ast_ok (PairAstNode_create b child cb)"
  proof (cases child)
    case None
    with assms show ?thesis
      by (cases cb) (auto simp: PairAstNode_create_def cached_ok_def ids.merge_empty)
  next
    case (Some c)
    then have "ast_ok c" "canonical_set (missingOpeningBracketIds c)"
      using assms(3) ast_ok_canonical by auto
    with Some assms(1,2) show ?thesis
      by (cases cb) (auto simp: PairAstNode_create_def cached_ok_def ids.merge_empty ids.empty_merge)
  qed
qed (simp add: PairAstNode_create_def Let_def)

lemma as_bracket_ok: "token_ok tk \<Longrightarrow> token_kind tk \<noteq> TextToken \<Longrightarrow> as_bracket (token_astNode tk) = Inr b \<Longrightarrow> bracket_ok b"
  by (erule token_ok_bracket) auto

lemma child_fine_step:
  assumes tokens: "gives_tokens ops" and list: "list_fine ops root fuel"
  shows "child_fine ops root (Suc fuel)"
  unfolding child_fine_def
proof (intro allI impI)
  fix opened level p c q
  assume run: "parseChild (Suc fuel) ops opened level p = Some (Inr (c, q))" and fine: "reader_fine root p"
  from run obtain tok t where tok: "tokenizer_read ops (tokenizer p) = Inr (tok, t)"
    by (auto simp: bind_run_Inr_iff)
  with run obtain tk where "tok = Some tk"
    by (cases tok) (simp_all add: Let_def)
  with tok have read: "tokenizer_read ops (tokenizer p) = Inr (Some tk, t)" by simp
  define p1 where "p1 = p\<lparr>itemsConstructed := itemsConstructed p + 1, tokenizer := t\<rparr>"
  have tk: "token_ok tk" using tokens read unfolding gives_tokens_def by blast
  have p1: "reader_fine root p1" "same_mode p p1" using fine by (simp_all add: p1_def same_mode_def reader_fine_def)
  show "reader_fine root q \<and> same_mode p q \<and> ast_ok c \<and> listHeight c = 0"
  proof (cases "token_kind tk = OpeningBracketToken \<and> \<not> level > 300")
    case False
    with run read tk fine show ?thesis
      by (cases "token_kind tk") (auto simp: token_ok_def same_mode_def)
  next
    case True
    with run read obtain child p2 where
      sub: "parseList fuel ops (SmallImmutableSet_merge opened (token_bracketIds tk)) (level + 1) [] p1 = Some (Inr (child, p2))"
      by (auto simp: bind_run_Inr_iff p1_def)
    with list p1(1) have p2: "reader_fine root p2" "same_mode p1 p2" "\<And>n. child = Some n \<Longrightarrow> ast_ok n"
      unfolding list_fine_def by (metis empty_iff list.set(1))+
    from run read True sub obtain nt t2 b where
      nxt: "tokenizer_peek ops (tokenizer p2) = Inr (nt, t2)" "as_bracket (token_astNode tk) = Inr b"
      by (auto simp: bind_run_Inr_iff p1_def Let_def)
    with run read True sub have "\<exists>cb t3. c = PairAstNode_create b child cb \<and> q = p2\<lparr>tokenizer := t3\<rparr> \<and>
      (\<forall>b'. cb = Some b' \<longrightarrow> (\<exists>n. nt = Some n \<and> token_kind n \<noteq> TextToken \<and> as_bracket (token_astNode n) = Inr b'))"
      by (cases nt) (auto simp: bind_run_Inr_iff p1_def Let_def split: if_splits)
    then obtain cb t3 where res: "c = PairAstNode_create b child cb" "q = p2\<lparr>tokenizer := t3\<rparr>"
      "\<And>b'. cb = Some b' \<Longrightarrow> \<exists>n. nt = Some n \<and> token_kind n \<noteq> TextToken \<and> as_bracket (token_astNode n) = Inr b'"
      by blast
    have "bracket_ok b" using as_bracket_ok [OF tk _ nxt(2)] True by simp
    moreover have "bracket_ok b'" if "cb = Some b'" for b'
      using res(3) [OF that] tokens nxt(1) as_bracket_ok unfolding gives_tokens_def by blast
    ultimately have "ast_ok c" "listHeight c = 0"
      unfolding res(1) using p2(3) by (blast intro: PairAstNode_create_ok)+
    moreover have "same_mode p q"
      unfolding res(2) using same_mode_trans [OF p1(2) p2(2)] by simp
    ultimately show ?thesis
      unfolding res(2) using p2(1) by simp
  qed
qed

lemma parse_fine:
  assumes "gives_tokens ops"
  shows "list_fine ops root fuel \<and> child_fine ops root fuel"
proof (induction fuel)
  case 0
  show ?case by (simp add: list_fine_def child_fine_def)
next
  case (Suc fuel)
  then show ?case using list_fine_step child_fine_step assms by blast
qed

lemma parseDocument_fine:
  assumes "gives_tokens ops" and "\<And>old. oldNode = Some old \<Longrightarrow> old_ok old"
    and "parseDocument fuel ops t edits oldNode im = Some (Inr root)"
  shows "old_ok root"
proof -
  define old where "old = (case oldNode of None \<Rightarrow> ListAstNode_getEmpty | Some old \<Rightarrow> old)"
  from assms(3) obtain p res q where p: "mk_Parser t edits oldNode im = Inr p"
    "parseList fuel ops SmallImmutableSet_getEmpty 0 [] (p\<lparr>itemsConstructed := 0, itemsFromCache := 0\<rparr>) =
       Some (Inr (res, q))"
    "root = (case res of None \<Rightarrow> ListAstNode_getEmpty | Some n \<Rightarrow> n)"
    by (auto simp: parseDocument_def Parser_parseDocument_def bind_run_Inr_iff)
  have "reader_fine old (p\<lparr>itemsConstructed := 0, itemsFromCache := 0\<rparr>)"
    using p(1) assms(2) by (auto simp: mk_Parser_def reader_fine_def old_def reader_ok_start
        split: if_splits option.splits)
  moreover have "list_fine ops old fuel"
    using parse_fine [OF assms(1)] by simp
  ultimately have "\<And>n. res = Some n \<Longrightarrow> ast_ok n"
    using p(2) unfolding list_fine_def by (metis empty_iff list.set(1))
  with p(3) show ?thesis by (auto simp: old_ok_def split: option.splits)
qed

subsection \<open>Properties\<close>


text \<open>An opening bracket, a text, a closing bracket of another kind and one of the same kind.\<close>

definition sample_tokens :: "token list" where
  "sample_tokens =
     (let k = (\<lambda>op. \<lparr>bk_languageId = [], bracketText = [123], isOpeningBracket = op\<rparr>)
      in [bracket_token OpeningBracketToken (k True) 0 (add_key 0 SmallImmutableSet_getEmpty),
          text_token 5,
          bracket_token ClosingBracketToken (k False) 1 (add_key 1 SmallImmutableSet_getEmpty),
          bracket_token ClosingBracketToken (k False) 0 (add_key 0 SmallImmutableSet_getEmpty)])"



text \<open>
  A tokenizer over the sample tokens that stands at a token number. The old tree has the text of the
  sample without its last bracket; the edit adds the bracket.
\<close>

definition sample_ops :: "nat tokenizer_ops" where
  "sample_ops =
     (let tok = (\<lambda>i. if i < length sample_tokens then Some (sample_tokens ! i) else None);
          off = (\<lambda>i. sum_list (map token_length (take i sample_tokens)))
      in \<lparr>tokenizer_offset = off, tokenizer_read = (\<lambda>i. Inr (tok i, Suc i)),
          tokenizer_peek = (\<lambda>i. Inr (tok i, i)),
          tokenizer_skip = (\<lambda>l i. Inr (length (takeWhile (\<lambda>j. off j < off i + l) [0..<5])))\<rparr>)"

definition sample_old :: ast where
  "sample_old =
     PairAstNode_create
       \<lparr>bn_length = 1, bracketInfo = \<lparr>bk_languageId = [], bracketText = [123], isOpeningBracket = True\<rparr>,
        bn_bracketIds = add_key 0 SmallImmutableSet_getEmpty\<rparr>
       (Some (TextAstNode 5)) None"

lemma sample_ops_gives_tokens: "gives_tokens sample_ops"
proof -
  have "token_ok (sample_tokens ! i)" if "i < length sample_tokens" for i
  proof -
    have "\<forall>tk \<in> set sample_tokens. token_ok tk" by code_simp
    with that show ?thesis by simp
  qed
  then show ?thesis by (auto simp: gives_tokens_def sample_ops_def Let_def split: if_splits)
qed


end
