(* ===== verification/VSBuffer.thy ===== *)
theory VSBuffer
  imports Prelude
begin

section \<open>Byte buffers\<close>

text \<open>
  \<open>src/src/vs/base/common/buffer.ts\<close>: the buffers that sockets and channels exchange. A buffer is the
  list of its bytes. \<open>slice\<close> shares memory with the buffer it is taken from, but no code that is
  modelled here writes to a buffer it has handed out, so that buffers are values. \<open>alloc\<close> gives
  zeros, as \<open>new Uint8Array\<close> does; node's \<open>allocUnsafe\<close> gives arbitrary bytes, and every caller
  overwrites all of them.
\<close>

unbundle bit_operations_syntax

type_synonym byte = "8 word"

type_synonym vs_buffer = "byte list"

subsection \<open>Typed arrays\<close>

text \<open>\<open>arr[i] = v\<close> keeps the low byte of the number and ignores an index out of range.\<close>

definition store8 :: "vs_buffer \<Rightarrow> nat \<Rightarrow> int \<Rightarrow> vs_buffer" where
  "store8 arr i v = arr[i := word_of_int v]"

text \<open>\<open>arr[i]\<close>, \<open>undefined\<close> out of range.\<close>

definition load8 :: "vs_buffer \<Rightarrow> nat \<Rightarrow> int option" where
  "load8 arr i = (if i < length arr then Some (uint (arr ! i)) else None)"

text \<open>\<open>v >>> n\<close>.\<close>

definition shift_right :: "int \<Rightarrow> nat \<Rightarrow> int" where
  "shift_right v n = (v mod 4294967296) div 2 ^ n"

text \<open>\<open>((arr[i] << n) >>> 0)\<close> as an operand of \<open>|\<close>; an \<open>undefined\<close> counts as 0.\<close>

definition shifted_byte :: "vs_buffer \<Rightarrow> nat \<Rightarrow> nat \<Rightarrow> 32 word" where
  "shifted_byte arr i n = push_bit n (case load8 arr i of None \<Rightarrow> 0 | Some b \<Rightarrow> word_of_int b)"

text \<open>\<open>typedArray.set(source, offset)\<close>.\<close>

definition typed_set :: "vs_buffer \<Rightarrow> nat \<Rightarrow> vs_buffer \<Rightarrow> vs_buffer result" where
  "typed_set source offset arr =
     (if offset + length source > length arr then Inl RangeError
      else Inr (take offset arr @ source @ drop (offset + length source) arr))"

lemmas byte_defs = store8_def load8_def shift_right_def shifted_byte_def typed_set_def

subsection \<open>Numbers in buffers\<close>

definition readUInt8 :: "vs_buffer \<Rightarrow> nat \<Rightarrow> int option" where
  "readUInt8 source offset = load8 source offset"

definition writeUInt8 :: "vs_buffer \<Rightarrow> int \<Rightarrow> nat \<Rightarrow> vs_buffer" where
  "writeUInt8 destination value offset = store8 destination offset value"

definition readUInt16LE :: "vs_buffer \<Rightarrow> nat \<Rightarrow> int" where
  "readUInt16LE source offset = sint (shifted_byte source offset 0 OR shifted_byte source (offset + 1) 8)"

definition writeUInt16LE :: "vs_buffer \<Rightarrow> int \<Rightarrow> nat \<Rightarrow> vs_buffer" where
  "writeUInt16LE destination value offset =
     (let destination = store8 destination offset (value AND 255);
          value = shift_right value 8
      in store8 destination (offset + 1) (value AND 255))"

text \<open>A byte out of range makes the sum \<open>NaN\<close>, which is \<open>None\<close>.\<close>

definition readUInt32BE :: "vs_buffer \<Rightarrow> nat \<Rightarrow> int option" where
  "readUInt32BE source offset =
     (case (load8 source offset, load8 source (offset + 1), load8 source (offset + 2), load8 source (offset + 3)) of
        (Some a, Some b, Some c, Some d) \<Rightarrow> Some (a * 2 ^ 24 + b * 2 ^ 16 + c * 2 ^ 8 + d)
      | _ \<Rightarrow> None)"

definition writeUInt32BE :: "vs_buffer \<Rightarrow> int \<Rightarrow> nat \<Rightarrow> vs_buffer" where
  "writeUInt32BE destination value offset =
     (let destination = store8 destination (offset + 3) value;
          value = shift_right value 8;
          destination = store8 destination (offset + 2) value;
          value = shift_right value 8;
          destination = store8 destination (offset + 1) value;
          value = shift_right value 8
      in store8 destination offset value)"

text \<open>The operator \<open>|\<close> makes the number a signed one again.\<close>

definition readUInt32LE :: "vs_buffer \<Rightarrow> nat \<Rightarrow> int" where
  "readUInt32LE source offset =
     sint (shifted_byte source offset 0 OR shifted_byte source (offset + 1) 8 OR
           shifted_byte source (offset + 2) 16 OR shifted_byte source (offset + 3) 24)"

definition writeUInt32LE :: "vs_buffer \<Rightarrow> int \<Rightarrow> nat \<Rightarrow> vs_buffer" where
  "writeUInt32LE destination value offset =
     (let destination = store8 destination offset (value AND 255);
          value = shift_right value 8;
          destination = store8 destination (offset + 1) (value AND 255);
          value = shift_right value 8;
          destination = store8 destination (offset + 2) (value AND 255);
          value = shift_right value 8
      in store8 destination (offset + 3) (value AND 255))"

subsection \<open>The class \<open>VSBuffer\<close>\<close>

definition VSBuffer_alloc :: "nat \<Rightarrow> vs_buffer" where
  "VSBuffer_alloc byteLength = replicate byteLength 0"

fun fromByteArray_loop :: "int list \<Rightarrow> nat \<Rightarrow> vs_buffer \<Rightarrow> vs_buffer" where
  "fromByteArray_loop [] i result = result"
| "fromByteArray_loop (v # source) i result = fromByteArray_loop source (Suc i) (store8 result i v)"

definition VSBuffer_fromByteArray :: "int list \<Rightarrow> vs_buffer" where
  "VSBuffer_fromByteArray source = fromByteArray_loop source 0 (VSBuffer_alloc (length source))"

definition VSBuffer_set :: "vs_buffer \<Rightarrow> nat \<Rightarrow> vs_buffer \<Rightarrow> vs_buffer result" where
  "VSBuffer_set array offset this = typed_set array offset this"

definition VSBuffer_clone :: "vs_buffer \<Rightarrow> vs_buffer result" where
  "VSBuffer_clone this = VSBuffer_set this 0 (VSBuffer_alloc (length this))"

fun concat_set_loop :: "vs_buffer list \<Rightarrow> nat \<Rightarrow> vs_buffer \<Rightarrow> vs_buffer result" where
  "concat_set_loop [] offset ret = Inr ret"
| "concat_set_loop (element # buffers) offset ret =
     bind_result (VSBuffer_set element offset ret) (concat_set_loop buffers (offset + length element))"

definition VSBuffer_concat :: "vs_buffer list \<Rightarrow> nat option \<Rightarrow> vs_buffer result" where
  "VSBuffer_concat buffers totalLength =
     (let total = (case totalLength of None \<Rightarrow> foldl (\<lambda>n b. n + length b) 0 buffers | Some n \<Rightarrow> n)
      in concat_set_loop buffers 0 (VSBuffer_alloc total))"

definition VSBuffer_slice :: "vs_buffer \<Rightarrow> int \<Rightarrow> int \<Rightarrow> vs_buffer" where
  "VSBuffer_slice this start e = js_slice this start e"

definition VSBuffer_slice_from :: "vs_buffer \<Rightarrow> int \<Rightarrow> vs_buffer" where
  "VSBuffer_slice_from this start = js_slice_from this start"

fun every_equal :: "vs_buffer \<Rightarrow> nat \<Rightarrow> vs_buffer \<Rightarrow> bool" where
  "every_equal [] index other = True"
| "every_equal (value # rest) index other \<longleftrightarrow>
     (index < length other \<and> value = other ! index) \<and> every_equal rest (Suc index) other"

definition VSBuffer_equals :: "vs_buffer \<Rightarrow> vs_buffer \<Rightarrow> bool" where
  "VSBuffer_equals this other \<longleftrightarrow> length this = length other \<and> every_equal this 0 other"

subsection \<open>Searching\<close>

text \<open>\<open>haystack.indexOf(v, offset)\<close> of a typed array.\<close>

fun index_of_loop :: "byte \<Rightarrow> nat \<Rightarrow> vs_buffer \<Rightarrow> int" where
  "index_of_loop v i [] = -1"
| "index_of_loop v i (b # bs) = (if b = v then int i else index_of_loop v (Suc i) bs)"

text \<open>The table has one byte per entry, so that lengths from 256 on are cut off.\<close>

fun table_loop :: "nat \<Rightarrow> vs_buffer \<Rightarrow> nat \<Rightarrow> vs_buffer \<Rightarrow> vs_buffer" where
  "table_loop n [] i table = table"
| "table_loop n (b # needle) i table = table_loop n needle (Suc i) (store8 table (unat b) (int n - int i - 1))"

definition shift_table :: "vs_buffer \<Rightarrow> vs_buffer" where
  "shift_table needle =
     table_loop (length needle) needle 0 (replicate 256 (word_of_int (int (length needle))))"

text \<open>
  The loop of the search, on fuel. Indices are integers; \<open>arr[i]\<close> is \<open>undefined\<close> out of range. For an
  offset that is not 0 the index \<open>j\<close> begins behind the needle.
\<close>

fun search_loop :: "nat \<Rightarrow> vs_buffer \<Rightarrow> vs_buffer \<Rightarrow> vs_buffer \<Rightarrow> int \<Rightarrow> int \<Rightarrow> int option" where
  "search_loop 0 haystack needle table i j = None"
| "search_loop (Suc fuel) haystack needle table i j =
     (if i < int (length haystack)
      then if js_at haystack i = js_at needle j
           then if j = 0 then Some i
                else search_loop fuel haystack needle table (i - 1) (j - 1)
           else (case js_at haystack i of
                   None \<Rightarrow> Some (-1)
                 | Some b \<Rightarrow>
                     (case load8 table (unat b) of
                        None \<Rightarrow> Some (-1)
                      | Some t \<Rightarrow>
                          search_loop fuel haystack needle table
                            (i + max (int (length needle) - j) t) (int (length needle) - 1)))
      else Some (-1))"

definition binaryIndexOf :: "vs_buffer \<Rightarrow> vs_buffer \<Rightarrow> nat \<Rightarrow> int option" where
  "binaryIndexOf haystack needle offset =
     (if length needle = 0 then Some 0
      else if length needle = 1 then Some (index_of_loop (needle ! 0) offset (drop offset haystack))
      else if int (length needle) > int (length haystack) - int offset then Some (-1)
      else search_loop ((length haystack + 2) * (length needle + 1)) haystack needle (shift_table needle)
             (int offset + int (length needle) - 1) (int offset + int (length needle) - 1))"

definition VSBuffer_indexOf :: "vs_buffer \<Rightarrow> vs_buffer \<Rightarrow> nat \<Rightarrow> int option" where
  "VSBuffer_indexOf this subarray offset = binaryIndexOf this subarray offset"

subsection \<open>Buffers and lists\<close>

lemma length_store8 [simp]: "length (store8 arr i v) = length arr"
  by (simp add: store8_def)

lemma length_alloc [simp]: "length (VSBuffer_alloc n) = n"
  by (simp add: VSBuffer_alloc_def)

lemma typed_set_ok:
  "offset + length source \<le> length arr \<Longrightarrow>
     typed_set source offset arr = Inr (take offset arr @ source @ drop (offset + length source) arr)"
  by (simp add: typed_set_def)

lemma VSBuffer_clone_same: "VSBuffer_clone b = Inr b"
  by (simp add: VSBuffer_clone_def VSBuffer_set_def typed_set_def)

lemma concat_set_loop_ok:
  "offset + length (concat bs) = length ret \<Longrightarrow>
     concat_set_loop bs offset ret = Inr (take offset ret @ concat bs)"
proof (induction bs arbitrary: offset ret)
  case (Cons b bs)
  then show ?case by (simp add: VSBuffer_set_def typed_set_def)
qed simp

lemma foldl_add_length: "foldl (\<lambda>n b. n + length b) k bs = k + length (concat bs)"
  by (induction bs arbitrary: k) simp_all

lemma VSBuffer_concat_ok:
  "(case t of None \<Rightarrow> True | Some n \<Rightarrow> n = length (concat bs)) \<Longrightarrow> VSBuffer_concat bs t = Inr (concat bs)"
  by (auto simp: VSBuffer_concat_def concat_set_loop_ok foldl_add_length split: option.splits)

lemma every_equal_iff:
  "every_equal xs i ys \<longleftrightarrow> i + length xs \<le> max i (length ys) \<and> take (length xs) (drop i ys) = xs"
proof (induction xs arbitrary: i)
  case (Cons x xs)
  show ?case
  proof (cases "i < length ys")
    case True
    then have "drop i ys = ys ! i # drop (Suc i) ys" by (simp add: Cons_nth_drop_Suc)
    with True Cons [of "Suc i"] show ?thesis by auto
  next
    case False
    then show ?thesis by simp
  qed
qed simp

lemma VSBuffer_equals_iff: "VSBuffer_equals xs ys \<longleftrightarrow> xs = ys"
  by (auto simp: VSBuffer_equals_def every_equal_iff)

lemma fromByteArray_loop_map:
  "i + length source = length result \<Longrightarrow>
     fromByteArray_loop source i result = take i result @ map word_of_int source"
proof (induction source arbitrary: i result)
  case (Cons v source)
  then have i: "i < length result" by simp
  then have "take (Suc i) (store8 result i v) = take i result @ [word_of_int v]"
    by (simp add: store8_def take_Suc_conv_app_nth)
  with Cons show ?case by simp
qed simp

lemma VSBuffer_fromByteArray_map: "VSBuffer_fromByteArray source = map word_of_int source"
  by (simp add: VSBuffer_fromByteArray_def fromByteArray_loop_map)

subsection \<open>Round trips of numbers\<close>

text \<open>The four bytes of a number, the high one first.\<close>

definition be_bytes :: "int \<Rightarrow> vs_buffer" where
  "be_bytes v = (let w = v mod 4294967296
     in [word_of_int (w div 16777216), word_of_int (w div 65536), word_of_int (w div 256), word_of_int w])"

lemma length_be_bytes [simp]: "length (be_bytes v) = 4"
  by (simp add: be_bytes_def Let_def)

lemma word_of_int_mod_byte: "(word_of_int (v mod 4294967296) :: byte) = word_of_int v"
  by (simp add: word_of_int_eq_iff take_bit_eq_mod mod_mod_cancel)

lemma shift_right_again: "shift_right (shift_right v a) b = shift_right v (a + b)"
proof -
  have "shift_right v a mod 4294967296 = shift_right v a"
  proof -
    have "0 \<le> shift_right v a" by (simp add: shift_right_def pos_imp_zdiv_nonneg_iff)
    moreover have "shift_right v a \<le> v mod 4294967296"
      unfolding shift_right_def by (rule zdiv_mono2 [of _ 1 "2 ^ a", simplified]) simp_all
    moreover have "v mod 4294967296 < 4294967296" by simp
    ultimately show ?thesis by simp
  qed
  then show ?thesis
    by (simp add: shift_right_def zdiv_zmult2_eq power_add)
qed

lemma length_four: "length zs = 4 \<Longrightarrow> \<exists>a b c e. zs = [a, b, c, e]"
  by (auto simp: eval_nat_numeral length_Suc_conv)

lemma split_four:
  assumes "i + 4 \<le> length d"
  obtains a b c e where "d = take i d @ [a, b, c, e] @ drop (i + 4) d"
proof -
  have "length (take 4 (drop i d)) = 4" using assms by simp
  then obtain a b c e where "take 4 (drop i d) = [a, b, c, e]"
    using length_four by blast
  moreover have "d = take i d @ take 4 (drop i d) @ drop (i + 4) d"
    by (metis append_take_drop_id drop_drop add.commute)
  ultimately show ?thesis using that by simp
qed

lemma four_stores:
  assumes "i + 4 \<le> length d"
  shows "d[i + 3 := z, i + 2 := y, i + 1 := x, i := w] = take i d @ [w, x, y, z] @ drop (i + 4) d"
proof -
  have i: "length (take i d) = i" using assms by simp
  have store: "(take i d @ zs)[i + k := u] = take i d @ zs[k := u]" for zs k u
    unfolding list_update_append using i by simp
  obtain a b c e where "d = take i d @ [a, b, c, e] @ drop (i + 4) d"
    using split_four [OF assms] .
  then have "d[i + 3 := z, i + 2 := y, i + 1 := x, i + 0 := w] =
      (take i d @ [a, b, c, e] @ drop (i + 4) d)[i + 3 := z, i + 2 := y, i + 1 := x, i + 0 := w]"
    by simp
  also have "\<dots> = take i d @ [w, x, y, z] @ drop (i + 4) d"
    unfolding store by (simp add: numeral_eq_Suc)
  finally show ?thesis by simp
qed

lemma writeUInt32BE_bytes:
  assumes "i + 4 \<le> length d"
  shows "writeUInt32BE d v i = take i d @ be_bytes v @ drop (i + 4) d"
  unfolding writeUInt32BE_def Let_def store8_def four_stores [OF assms] shift_right_again be_bytes_def
    word_of_int_mod_byte
  by (simp add: shift_right_def)

lemma load8_append: "load8 (xs @ ys) (length xs + k) = load8 ys k"
  by (simp add: load8_def nth_append)

lemma base_256:
  fixes w :: int
  shows "(w div 16777216) * 16777216 + (w div 65536 mod 256) * 65536 + (w div 256 mod 256) * 256 + w mod 256 = w"
proof -
  have "w div 65536 = w div 256 div 256" "w div 16777216 = w div 256 div 256 div 256"
    by (simp_all add: zdiv_zmult2_eq [symmetric])
  then show ?thesis by presburger
qed

lemma readUInt32BE_bytes:
  "readUInt32BE (xs @ be_bytes v @ ys) (length xs) = Some (v mod 4294967296)"
proof -
  define w where "w = v mod 4294967296"
  have w: "0 \<le> w" "w < 4294967296" by (simp_all add: w_def)
  then have high: "w div 16777216 mod 256 = w div 16777216"
    by (intro mod_pos_pos_trivial) (simp_all add: pos_imp_zdiv_nonneg_iff div_less_iff_less_mult)
  have bytes: "be_bytes v = [word_of_int (w div 16777216), word_of_int (w div 65536), word_of_int (w div 256), word_of_int w]"
    by (simp add: be_bytes_def Let_def w_def)
  have load: "load8 (xs @ be_bytes v @ ys) (length xs) = Some (w div 16777216)"
    "load8 (xs @ be_bytes v @ ys) (length xs + 1) = Some (w div 65536 mod 256)"
    "load8 (xs @ be_bytes v @ ys) (length xs + 2) = Some (w div 256 mod 256)"
    "load8 (xs @ be_bytes v @ ys) (length xs + 3) = Some (w mod 256)"
    unfolding bytes by (simp_all add: load8_def nth_append uint_word_of_int high numeral_eq_Suc)
  show ?thesis
    unfolding readUInt32BE_def load w_def [symmetric] using base_256 [of w] by simp
qed

lemma take_bit_byte_int: "(v :: int) AND 255 = v mod 256"
  using and_exp_eq_0_iff_not_bit mask_eq_exp_minus_1 [where 'a = int, of 8] take_bit_eq_mask [of 8 v]
  by (simp add: take_bit_eq_mod)

lemma shift_right_bits: "shift_right v n = drop_bit n (take_bit 32 v)"
  by (simp add: shift_right_def drop_bit_eq_div take_bit_eq_mod)

text \<open>Little endian numbers: the byte at distance \<open>k\<close> holds the bits from \<open>8 k\<close> on.\<close>

lemma le_byte_bit:
  "n + 8 \<le> 32 \<Longrightarrow> k < 32 \<Longrightarrow>
   bit (push_bit n (word_of_int (uint (word_of_int (drop_bit n (take_bit 32 v) mod 256) :: byte))) :: 32 word) k
     \<longleftrightarrow> n \<le> k \<and> k < n + 8 \<and> bit v k"
  by (auto simp: bit_simps uint_word_of_int mod_mod_cancel take_bit_eq_mod [where n = 8, simplified, symmetric])

lemma signed_toInt32: "sint (word_of_int v :: 32 word) = toInt32 v"
  by (simp add: sint_sbintrunc' signed_take_bit_eq_take_bit_shift toInt32_def take_bit_eq_mod)

lemma four_stores_up:
  assumes "i + 4 \<le> length d"
  shows "d[i := w, i + 1 := x, i + 2 := y, i + 3 := z] = take i d @ [w, x, y, z] @ drop (i + 4) d"
  unfolding four_stores [OF assms, symmetric] by (simp add: list_update_swap)

lemma shifted_byte_middle:
  "k < length ys \<Longrightarrow> shifted_byte (xs @ ys @ zs) (length xs + k) n = push_bit n (word_of_int (uint (ys ! k)))"
  by (simp add: shifted_byte_def load8_append) (simp add: load8_def nth_append)

lemma read_writeUInt32LE:
  assumes "i + 4 \<le> length d"
  shows "readUInt32LE (writeUInt32LE d v i) i = toInt32 v"
proof -
  have len: "length (take i d) = i" using assms by simp
  let ?b = "\<lambda>n. word_of_int (drop_bit n (take_bit 32 v) mod 256) :: byte"
  have "writeUInt32LE d v i = take i d @ [?b 0, ?b 8, ?b 16, ?b 24] @ drop (i + 4) d"
    unfolding writeUInt32LE_def Let_def store8_def four_stores_up [OF assms] take_bit_byte_int shift_right_again
    unfolding shift_right_bits by (simp add: take_bit_eq_mod mod_mod_cancel)
  moreover have "shifted_byte (take i d @ [?b 0, ?b 8, ?b 16, ?b 24] @ drop (i + 4) d) (i + k) n =
      push_bit n (word_of_int (uint ([?b 0, ?b 8, ?b 16, ?b 24] ! k)))" if "k < 4" for k n
    using that shifted_byte_middle [of k "[?b 0, ?b 8, ?b 16, ?b 24]" "take i d" "drop (i + 4) d" n]
    unfolding len by simp
  note byte = this [of 0] this [of 1] this [of 2] this [of 3]
  ultimately have "readUInt32LE (writeUInt32LE d v i) i =
      sint (push_bit 0 (word_of_int (uint (?b 0))) OR push_bit 8 (word_of_int (uint (?b 8))) OR
        push_bit 16 (word_of_int (uint (?b 16))) OR push_bit 24 (word_of_int (uint (?b 24))) :: 32 word)"
    unfolding readUInt32LE_def by (simp add: numeral_eq_Suc)
  also have "\<dots> = sint (word_of_int v :: 32 word)"
  proof (rule arg_cong [where f = sint], rule bit_word_eqI)
    fix k
    assume "k < LENGTH(32)"
    then have k: "k < 32" by simp
    show "bit (push_bit 0 (word_of_int (uint (?b 0))) OR push_bit 8 (word_of_int (uint (?b 8))) OR
        push_bit 16 (word_of_int (uint (?b 16))) OR push_bit 24 (word_of_int (uint (?b 24))) :: 32 word) k =
      bit (word_of_int v :: 32 word) k"
      unfolding bit_or_iff using k by (subst (1 2 3 4) le_byte_bit) (auto simp: bit_word_of_int_iff)
  qed
  finally show ?thesis by (simp add: signed_toInt32)
qed

subsection \<open>The search finds the first occurrence\<close>

definition occurs_at :: "vs_buffer \<Rightarrow> vs_buffer \<Rightarrow> nat \<Rightarrow> bool" where
  "occurs_at haystack needle s \<longleftrightarrow>
     s + length needle \<le> length haystack \<and> (\<forall>k < length needle. haystack ! (s + k) = needle ! k)"

definition first_occurrence :: "vs_buffer \<Rightarrow> vs_buffer \<Rightarrow> nat \<Rightarrow> int \<Rightarrow> bool" where
  "first_occurrence haystack needle offset r \<longleftrightarrow>
     (if r = -1 then \<forall>s \<ge> offset. \<not> occurs_at haystack needle s
      else int offset \<le> r \<and> occurs_at haystack needle (nat r) \<and>
        (\<forall>s. offset \<le> s \<and> s < nat r \<longrightarrow> \<not> occurs_at haystack needle s))"

text \<open>An entry of the table is not larger than the distance of its byte from the end of the needle.\<close>

definition table_ok :: "vs_buffer \<Rightarrow> vs_buffer \<Rightarrow> bool" where
  "table_ok needle table \<longleftrightarrow> length table = 256 \<and>
     (\<forall>b. uint (table ! unat b) \<le> int (length needle) \<and>
       (\<forall>p < length needle. needle ! p = b \<longrightarrow> uint (table ! unat b) \<le> int (length needle) - 1 - int p))"

lemma uint_byte_le: "0 \<le> v \<Longrightarrow> uint (word_of_int v :: byte) \<le> v"
  by (simp add: uint_word_of_int zmod_le_nonneg_dividend)

lemma unat_byte: "unat (b :: byte) < 256"
  using unsigned_less [of b, where ?'a = nat] by simp

lemma table_loop_ok:
  assumes "length table = 256" and "n = i + length needle"
    and "\<And>b :: byte. uint (table ! unat b) \<le> int n"
    and "\<And>(b :: byte) p. p < i \<Longrightarrow> f p = b \<Longrightarrow> uint (table ! unat b) \<le> int n - 1 - int p"
    and "\<And>k. k < length needle \<Longrightarrow> f (i + k) = needle ! k"
  shows "length (table_loop n needle i table) = 256 \<and>
    (\<forall>b. uint (table_loop n needle i table ! unat b) \<le> int n \<and>
      (\<forall>p < n. f p = b \<longrightarrow> uint (table_loop n needle i table ! unat b) \<le> int n - 1 - int p))"
  using assms
proof (induction needle arbitrary: i table)
  case Nil
  then show ?case by simp
next
  case (Cons c needle)
  let ?t = "store8 table (unat c) (int n - int i - 1)"
  have le: "uint (word_of_int (int n - int i - 1) :: byte) \<le> int n - int i - 1"
    using Cons.prems(2) by (intro uint_byte_le) simp
  have entry: "uint (?t ! unat b) \<le> (if b = c then int n - int i - 1 else uint (table ! unat b))" for b :: byte
    using le Cons.prems(1) unat_byte [of c] by (auto simp: store8_def nth_list_update dest: unsigned_word_eqI)
  have "f i = c" using Cons.prems(5) [of 0] by simp
  have "length (table_loop n needle (Suc i) ?t) = 256 \<and>
    (\<forall>b. uint (table_loop n needle (Suc i) ?t ! unat b) \<le> int n \<and>
      (\<forall>p < n. f p = b \<longrightarrow> uint (table_loop n needle (Suc i) ?t ! unat b) \<le> int n - 1 - int p))"
  proof (rule Cons.IH)
    fix b :: byte
    show "uint (?t ! unat b) \<le> int n"
      using entry [of b] Cons.prems(3) [of b] by (auto split: if_splits)
  next
    fix b p
    assume p: "p < Suc i" "f p = b"
    show "uint (?t ! unat b) \<le> int n - 1 - int p"
    proof (cases "b = c")
      case True
      with entry [of b] p show ?thesis by simp
    next
      case False
      with p \<open>f i = c\<close> have "p < i" by (metis less_antisym)
      with entry [of b] Cons.prems(4) [of p b] p False show ?thesis by simp
    qed
  next
    fix k
    assume "k < length needle"
    then show "f (Suc i + k) = needle ! k" using Cons.prems(5) [of "Suc k"] by simp
  qed (use Cons.prems in simp_all)
  then show ?case by simp
qed

lemma shift_table_ok: "table_ok needle (shift_table needle)"
proof -
  have "uint (replicate 256 (word_of_int (int (length needle)) :: byte) ! unat (b :: byte)) \<le> int (length needle)" for b
    using unat_byte [of b] uint_byte_le [of "int (length needle)"] by (simp del: of_int_of_nat_eq)
  then show ?thesis
    unfolding table_ok_def shift_table_def by (intro table_loop_ok) simp_all
qed

lemma not_skipped:
  assumes "table_ok needle table" and "load8 table (unat (haystack ! i)) = Some t"
    and "i < u + length needle" and "int u + int (length needle) \<le> int i + t"
  shows "\<not> occurs_at haystack needle u"
proof
  assume occ: "occurs_at haystack needle u"
  have t: "t = uint (table ! unat (haystack ! i))"
    using assms(2) by (auto simp: load8_def split: if_splits)
  moreover have "t \<le> int (length needle)"
    using assms(1) unfolding t table_ok_def by blast
  ultimately have u: "u \<le> i" "i - u < length needle" using assms(3,4) by linarith+
  with occ have "needle ! (i - u) = haystack ! i" by (auto simp: occurs_at_def)
  with assms(1) u(2) have "t \<le> int (length needle) - 1 - int (i - u)"
    unfolding t table_ok_def by blast
  with assms(4) u(1) show False by simp
qed

lemma first_occurrence_none:
  assumes "\<And>u. offset \<le> u \<Longrightarrow> u < s \<Longrightarrow> \<not> occurs_at h n u" and "length h < s + length n"
  shows "first_occurrence h n offset (-1)"
proof -
  have "\<not> occurs_at h n u" if "s \<le> u" for u
    using that assms(2) by (simp add: occurs_at_def)
  with assms(1) show ?thesis unfolding first_occurrence_def by (auto simp: not_less) (meson not_less)
qed

lemma load8_table: "table_ok n table \<Longrightarrow> load8 table (unat b) = Some (uint (table ! unat (b :: byte)))"
  using unat_byte [of b] by (simp add: load8_def table_ok_def)

lemma search_loop_first:
  assumes "table_ok n table" and "j < length n" and "offset \<le> s"
    and "\<And>k. j < k \<Longrightarrow> k < length n \<Longrightarrow> s + k < length h \<and> h ! (s + k) = n ! k"
    and "\<And>u. offset \<le> u \<Longrightarrow> u < s \<Longrightarrow> \<not> occurs_at h n u"
    and "(length h + 1 - s) * (length n + 1) + j < fuel"
  shows "\<exists>r. search_loop fuel h n table (int (s + j)) (int j) = Some r \<and> first_occurrence h n offset r"
  using assms(2-)
proof (induction fuel arbitrary: s j)
  case 0
  then show ?case by simp
next
  case (Suc fuel)
  show ?case
  proof (cases "s + j < length h")
    case False
    with Suc.prems(1) have "first_occurrence h n offset (-1)"
      by (intro first_occurrence_none [of offset s]) (use Suc.prems(4) in auto)
    with False show ?thesis by simp
  next
    case True
    note at = js_at_nth [OF True] js_at_nth [OF Suc.prems(1)]
    show ?thesis
    proof (cases "h ! (s + j) = n ! j")
      case eq: True
      show ?thesis
      proof (cases j)
        case 0
        have "s + k < length h \<and> h ! (s + k) = n ! k" if "k < length n" for k
          using Suc.prems(3) [of k] that eq True 0 by (cases k) auto
        then have "occurs_at h n s"
          using Suc.prems(1) unfolding occurs_at_def by (metis Suc_diff_1 Suc_leI add_Suc_right lessI less_nat_zero_code not_gr_zero)
        with Suc.prems(2,4) have "first_occurrence h n offset (int s)" by (simp add: first_occurrence_def)
        with at eq True 0 show ?thesis by simp
      next
        case (Suc j')
        have "\<exists>r. search_loop fuel h n table (int (s + j')) (int j') = Some r \<and> first_occurrence h n offset r"
        proof (rule Suc.IH)
          fix k
          assume "j' < k" "k < length n"
          then show "s + k < length h \<and> h ! (s + k) = n ! k"
            using Suc.prems(3) [of k] eq True Suc by (cases "k = j") auto
        qed (use Suc.prems Suc in auto)
        with at eq True Suc show ?thesis by simp
      qed
    next
      case neq: False
      define t where "t = uint (table ! unat (h ! (s + j)))"
      have load: "load8 table (unat (h ! (s + j))) = Some t"
        unfolding t_def by (rule load8_table [OF assms(1)])
      define s' where "s' = nat (int (s + j) + max (int (length n) - int j) t - (int (length n) - 1))"
      have s': "int s' = int (s + j) + max (int (length n) - int j) t - (int (length n) - 1)" "s < s'"
        using Suc.prems(1) by (auto simp: s'_def)
      have none: "\<not> occurs_at h n u" if "offset \<le> u" "u < s'" for u
      proof (cases u s rule: linorder_cases)
        case less
        then show ?thesis using that Suc.prems(4) by blast
      next
        case equal
        then show ?thesis using neq Suc.prems(1) by (auto simp: occurs_at_def)
      next
        case greater
        with that(2) s'(1) Suc.prems(1) have "int u + int (length n) \<le> int (s + j) + t"
          by (auto simp: max_def split: if_splits)
        with greater Suc.prems(1) show ?thesis
          by (intro not_skipped [OF assms(1) load]) simp_all
      qed
      have "\<exists>r. search_loop fuel h n table (int (s' + (length n - 1))) (int (length n - 1)) = Some r \<and>
          first_occurrence h n offset r"
      proof (rule Suc.IH)
        have "length h + 1 - s' < length h + 1 - s" using s'(2) True by simp
        then have "Suc (length h + 1 - s') * (length n + 1) \<le> (length h + 1 - s) * (length n + 1)"
          by (intro mult_le_mono1) simp
        with Suc.prems(5) show "(length h + 1 - s') * (length n + 1) + (length n - 1) < fuel" by simp
      qed (use none s' Suc.prems in auto)
      moreover have "int (s' + (length n - 1)) = int (s + j) + max (int (length n) - int j) t"
        "int (length n - 1) = int (length n) - 1"
        using s'(1) Suc.prems(1) by auto
      ultimately show ?thesis using at neq load True by simp
    qed
  qed
qed

lemma index_of_loop_first:
  assumes "\<And>u. offset \<le> u \<Longrightarrow> u < s \<Longrightarrow> \<not> occurs_at h [v] u" and "offset \<le> s"
  shows "first_occurrence h [v] offset (index_of_loop v s (drop s h))"
  using assms
proof (induction "drop s h" arbitrary: s)
  case Nil
  then show ?case by (simp add: first_occurrence_none [of offset s])
next
  case (Cons b bs)
  from Cons.hyps(2) have s: "s < length h" "h ! s = b" "bs = drop (Suc s) h"
    by (metis drop_eq_Nil leI list.discI, metis hd_drop_conv_nth drop_eq_Nil leI list.discI list.sel(1),
        metis drop_Suc list.sel(3) tl_drop)
  have occ: "occurs_at h [v] s \<longleftrightarrow> b = v" using s(1,2) by (auto simp: occurs_at_def)
  show ?case
  proof (cases "b = v")
    case True
    with occ Cons.prems show ?thesis
      unfolding Cons.hyps(2) [symmetric] by (simp add: first_occurrence_def)
  next
    case False
    with occ Cons.prems have "first_occurrence h [v] offset (index_of_loop v (Suc s) (drop (Suc s) h))"
      by (intro Cons.hyps(1) [OF s(3)]) (auto simp: less_Suc_eq)
    with False show ?thesis unfolding Cons.hyps(2) [symmetric] s(3) by simp
  qed
qed

subsection \<open>Properties\<close>



end
