(* ===== verification/ChunkStream.thy ===== *)
theory ChunkStream
  imports VSBuffer
begin

section \<open>Streams of chunks\<close>

text \<open>
  The class \<open>ChunkStream\<close> of \<open>src/src/vs/base/parts/ipc/common/ipc.net.ts\<close>, which collects the chunks a
  socket delivers and gives them out again in pieces of any length. It refines the list of bytes that
  have come in and have not been read.
\<close>

record chunk_stream =
  cs_chunks :: "vs_buffer list"
  cs_totalLength :: nat

definition mk_ChunkStream :: chunk_stream where
  "mk_ChunkStream = \<lparr>cs_chunks = [], cs_totalLength = 0\<rparr>"

definition cs_byteLength :: "chunk_stream \<Rightarrow> nat" where
  "cs_byteLength this = cs_totalLength this"

definition cs_acceptChunk :: "vs_buffer \<Rightarrow> chunk_stream \<Rightarrow> chunk_stream" where
  "cs_acceptChunk buff this =
     this\<lparr>cs_chunks := cs_chunks this @ [buff], cs_totalLength := cs_totalLength this + length buff\<rparr>"

text \<open>The loop that fills the result from several chunks; reading a chunk that is not there throws.\<close>

function cs_read_loop ::
  "bool \<Rightarrow> nat \<Rightarrow> nat \<Rightarrow> nat \<Rightarrow> vs_buffer \<Rightarrow> chunk_stream \<Rightarrow> (vs_buffer \<times> chunk_stream) result" where
  "cs_read_loop advance byteCount resultOffset chunkIndex res this =
     (if byteCount > 0
      then if chunkIndex < length (cs_chunks this)
           then let chunk = cs_chunks this ! chunkIndex
                in if length chunk > byteCount
                   then bind_result (VSBuffer_set (VSBuffer_slice chunk 0 (int byteCount)) resultOffset res) (\<lambda>res.
                     cs_read_loop advance 0 (resultOffset + byteCount) chunkIndex res
                       (if advance
                        then this\<lparr>cs_chunks := (cs_chunks this)[chunkIndex := VSBuffer_slice_from chunk (int byteCount)],
                                  cs_totalLength := cs_totalLength this - byteCount\<rparr>
                        else this))
                   else bind_result (VSBuffer_set chunk resultOffset res) (\<lambda>res.
                     cs_read_loop advance (byteCount - length chunk) (resultOffset + length chunk)
                       (if advance then chunkIndex else Suc chunkIndex) res
                       (if advance
                        then this\<lparr>cs_chunks := tl (cs_chunks this),
                                  cs_totalLength := cs_totalLength this - length chunk\<rparr>
                        else this))
           else Inl TypeError
      else Inr (res, this))"
  by auto

termination
  by (relation "measure (\<lambda>(advance, n, off, i, res, this).
        if n = 0 then 0 else Suc (length (cs_chunks this) - i))") auto

declare cs_read_loop.simps [simp del]

definition cs_read_impl :: "nat \<Rightarrow> bool \<Rightarrow> chunk_stream \<Rightarrow> (vs_buffer \<times> chunk_stream) result" where
  "cs_read_impl byteCount advance this =
     (if byteCount = 0 then Inr ([], this)
      else if byteCount > cs_totalLength this then Inl PlainError
      else case cs_chunks this of
        [] \<Rightarrow> Inl TypeError
      | first # rest \<Rightarrow>
          if length first = byteCount
          then Inr (first, if advance then this\<lparr>cs_chunks := rest, cs_totalLength := cs_totalLength this - byteCount\<rparr>
                           else this)
          else if length first > byteCount
          then Inr (VSBuffer_slice first 0 (int byteCount),
                    if advance
                    then this\<lparr>cs_chunks := VSBuffer_slice_from first (int byteCount) # rest,
                              cs_totalLength := cs_totalLength this - byteCount\<rparr>
                    else this)
          else cs_read_loop advance byteCount 0 0 (VSBuffer_alloc byteCount) this)"

definition cs_read :: "nat \<Rightarrow> chunk_stream \<Rightarrow> (vs_buffer \<times> chunk_stream) result" where
  "cs_read byteCount this = cs_read_impl byteCount True this"

definition cs_peek :: "nat \<Rightarrow> chunk_stream \<Rightarrow> (vs_buffer \<times> chunk_stream) result" where
  "cs_peek byteCount this = cs_read_impl byteCount False this"

subsection \<open>The bytes of a stream\<close>

definition cs_bytes :: "chunk_stream \<Rightarrow> vs_buffer" where
  "cs_bytes this = concat (cs_chunks this)"

definition cs_inv :: "chunk_stream \<Rightarrow> bool" where
  "cs_inv this \<longleftrightarrow> cs_totalLength this = length (cs_bytes this)"

lemma slice_take_drop [simp]:
  "VSBuffer_slice b 0 (int n) = take n b"
  "VSBuffer_slice_from b (int n) = drop n b"
  by (simp_all add: VSBuffer_slice_def VSBuffer_slice_from_def js_slice_def js_slice_from_def
      js_relative_index_def min_def)

lemma set_behind:
  "off + length src \<le> length res \<Longrightarrow>
     VSBuffer_set src off res = Inr (take off res @ src @ drop (off + length src) res)"
  by (simp add: VSBuffer_set_def typed_set_ok)

text \<open>Reading with \<open>advance\<close>: what is read are the first bytes, and they are gone.\<close>

lemma cs_read_loop_advance:
  assumes "cs_inv this" and "n \<le> length (cs_bytes this)" and "off + n = length res"
  shows "\<exists>this'. cs_read_loop True n off 0 res this = Inr (take off res @ take n (cs_bytes this), this') \<and>
    cs_inv this' \<and> cs_bytes this' = drop n (cs_bytes this)"
  using assms
proof (induction "cs_chunks this" arbitrary: this n off res)
  case Nil
  then show ?case by (simp add: cs_bytes_def cs_read_loop.simps)
next
  case (Cons chunk chunks)
  note chunks = Cons.hyps(2) [symmetric]
  show ?case
  proof (cases "n = 0")
    case True
    with Cons.prems show ?thesis by (simp add: cs_read_loop.simps)
  next
    case n: False
    show ?thesis
    proof (cases "length chunk > n")
      case True
      define this' where "this' = this\<lparr>cs_chunks := drop n chunk # chunks, cs_totalLength := cs_totalLength this - n\<rparr>"
      have "cs_read_loop True n off 0 res this = Inr (take off res @ take n chunk, this')"
        using n True Cons.prems(3) by (simp add: cs_read_loop.simps set_behind chunks this'_def)
      moreover have "cs_inv this'" "cs_bytes this' = drop n (cs_bytes this)" "take n (cs_bytes this) = take n chunk"
        using True Cons.prems(1) by (simp_all add: cs_inv_def cs_bytes_def this'_def chunks)
      ultimately show ?thesis by simp
    next
      case False
      define this1 where "this1 = this\<lparr>cs_chunks := chunks, cs_totalLength := cs_totalLength this - length chunk\<rparr>"
      let ?res = "take off res @ chunk @ drop (off + length chunk) res"
      have step: "cs_read_loop True n off 0 res this =
          cs_read_loop True (n - length chunk) (off + length chunk) 0 ?res this1"
        using n False Cons.prems(3)
        by (subst cs_read_loop.simps) (simp add: set_behind chunks this1_def)
      have "cs_bytes this = chunk @ cs_bytes this1" by (simp add: cs_bytes_def chunks this1_def)
      moreover have "cs_inv this1" using Cons.prems(1) by (simp add: cs_inv_def cs_bytes_def chunks this1_def)
      moreover have "chunks = cs_chunks this1" by (simp add: this1_def)
      moreover have "n - length chunk \<le> length (cs_bytes this1)"
        using Cons.prems(2) \<open>cs_bytes this = chunk @ cs_bytes this1\<close> by simp
      ultimately obtain this' where "cs_read_loop True (n - length chunk) (off + length chunk) 0 ?res this1 =
            Inr (take (off + length chunk) ?res @ take (n - length chunk) (cs_bytes this1), this')"
          "cs_inv this'" "cs_bytes this' = drop (n - length chunk) (cs_bytes this1)"
        using Cons.hyps(1) [of this1 "n - length chunk" "off + length chunk" ?res] Cons.prems(3) False by auto
      with step False Cons.prems(3) \<open>cs_bytes this = chunk @ cs_bytes this1\<close> show ?thesis by simp
    qed
  qed
qed

text \<open>Reading without \<open>advance\<close> walks over the chunks and changes nothing.\<close>

lemma cs_read_loop_peek:
  assumes "n \<le> length (concat (drop i (cs_chunks this)))" and "off + n = length res"
  shows "cs_read_loop False n off i res this = Inr (take off res @ take n (concat (drop i (cs_chunks this))), this)"
  using assms
proof (induction "length (cs_chunks this) - i" arbitrary: i n off res)
  case 0
  then show ?case by (simp add: cs_read_loop.simps)
next
  case (Suc k)
  then have i: "i < length (cs_chunks this)" by simp
  let ?chunk = "cs_chunks this ! i"
  have rest: "concat (drop i (cs_chunks this)) = ?chunk @ concat (drop (Suc i) (cs_chunks this))"
    using i by (simp add: Cons_nth_drop_Suc [symmetric])
  show ?case
  proof (cases "n = 0 \<or> length ?chunk > n")
    case True
    with Suc.prems i show ?thesis
      by (auto simp: cs_read_loop.simps [of _ n] cs_read_loop.simps [of _ 0] set_behind rest)
  next
    case False
    let ?res = "take off res @ ?chunk @ drop (off + length ?chunk) res"
    have "cs_read_loop False n off i res this =
        cs_read_loop False (n - length ?chunk) (off + length ?chunk) (Suc i) ?res this"
      using False i Suc.prems(2) by (subst cs_read_loop.simps) (simp add: set_behind Let_def)
    moreover have "\<dots> = Inr (take (off + length ?chunk) ?res @
        take (n - length ?chunk) (concat (drop (Suc i) (cs_chunks this))), this)"
      using Suc.hyps(2) Suc.prems False rest by (intro Suc.hyps(1)) auto
    ultimately show ?thesis using False Suc.prems(2) rest by simp
  qed
qed

lemma cs_read_impl_ok:
  assumes "cs_inv this" and "n \<le> length (cs_bytes this)"
  shows "\<exists>this'. cs_read_impl n advance this = Inr (take n (cs_bytes this), this') \<and> cs_inv this' \<and>
    cs_bytes this' = (if advance then drop n (cs_bytes this) else cs_bytes this)"
proof (cases "n = 0")
  case True
  with assms(1) show ?thesis by (simp add: cs_read_impl_def)
next
  case n: False
  with assms obtain first rest where chunks: "cs_chunks this = first # rest"
    by (cases "cs_chunks this") (auto simp: cs_bytes_def)
  have total: "\<not> n > cs_totalLength this" using assms by (simp add: cs_inv_def)
  show ?thesis
  proof (cases "n \<le> length first")
    case True
    with assms(1) n total chunks show ?thesis
      by (auto simp: cs_read_impl_def cs_inv_def cs_bytes_def)
  next
    case False
    then have run: "cs_read_impl n advance this = cs_read_loop advance n 0 0 (VSBuffer_alloc n) this"
      using n total chunks by (simp add: cs_read_impl_def)
    show ?thesis
    proof (cases advance)
      case True
      then show ?thesis
        unfolding run using cs_read_loop_advance [OF assms, of 0 "VSBuffer_alloc n"] by simp
    next
      case peek: False
      then show ?thesis
        unfolding run using cs_read_loop_peek [of n 0 this 0 "VSBuffer_alloc n"] assms
        by (simp add: cs_bytes_def [symmetric])
    qed
  qed
qed

lemma cs_accept_bytes [simp]:
  "cs_bytes (cs_acceptChunk b this) = cs_bytes this @ b"
  "cs_inv this \<Longrightarrow> cs_inv (cs_acceptChunk b this)"
  by (simp_all add: cs_bytes_def cs_inv_def cs_acceptChunk_def)

lemma cs_new [simp]: "cs_inv mk_ChunkStream" "cs_bytes mk_ChunkStream = []"
  by (simp_all add: mk_ChunkStream_def cs_inv_def cs_bytes_def)

end
