(* ===== verification/ProtocolStream.thy ===== *)
theory ProtocolStream
  imports ChunkStream
begin

section \<open>Messages on a socket\<close>

text \<open>
  \<open>ProtocolMessage\<close>, \<open>ProtocolReader\<close>, \<open>ProtocolWriter\<close> and \<open>Protocol\<close> of
  \<open>src/src/vs/base/parts/ipc/common/ipc.net.ts\<close>. A message is framed by a header of 13 bytes. The
  time \<open>Date.now()\<close> is an argument \<open>now\<close> of the operations that ask for it, one reading for each call
  of an operation. The listeners of a reader are an argument \<open>fire\<close>, which also says whether a listener
  disposed the reader. What a writer hands to \<open>socket.write\<close> is collected in \<open>pw_sent\<close>. The diagnostics
  (\<open>traceSocketEvent\<close>) are switched off in the source and have no effect.
\<close>

datatype message_type = NoneType | Regular | Control | AckType | Disconnect | ReplayRequest | Pause | Resume |
  KeepAlive | OtherType int

fun type_code :: "message_type \<Rightarrow> int" where
  "type_code NoneType = 0"
| "type_code Regular = 1"
| "type_code Control = 2"
| "type_code AckType = 3"
| "type_code Disconnect = 5"
| "type_code ReplayRequest = 6"
| "type_code Pause = 7"
| "type_code Resume = 8"
| "type_code KeepAlive = 9"
| "type_code (OtherType n) = n"

definition type_of_code :: "int \<Rightarrow> message_type" where
  "type_of_code n =
     (if n = 0 then NoneType else if n = 1 then Regular else if n = 2 then Control else if n = 3 then AckType
      else if n = 5 then Disconnect else if n = 6 then ReplayRequest else if n = 7 then Pause
      else if n = 8 then Resume else if n = 9 then KeepAlive else OtherType n)"

text \<open>
  The field \<open>writtenTime\<close>, the only one that changes, is kept apart from the message: it is read for
  regular messages only, whose ids are unique (\<open>PersistentProtocol\<close>).
\<close>

record protocol_message =
  pm_type :: message_type
  pm_id :: nat
  pm_ack :: nat
  pm_data :: vs_buffer

definition ProtocolMessage :: "message_type \<Rightarrow> nat \<Rightarrow> nat \<Rightarrow> vs_buffer \<Rightarrow> protocol_message" where
  "ProtocolMessage type i ack data = \<lparr>pm_type = type, pm_id = i, pm_ack = ack, pm_data = data\<rparr>"

definition pm_size :: "protocol_message \<Rightarrow> nat" where
  "pm_size this = length (pm_data this)"

definition HeaderLength :: nat where
  "HeaderLength = 13"

subsection \<open>Writing\<close>

record protocol_writer =
  pw_isDisposed :: bool
  pw_isPaused :: bool
  pw_data :: "vs_buffer list"
  pw_totalLength :: nat
  pw_lastWriteTime :: int
  pw_writeNowTimeout :: bool
  pw_sent :: vs_buffer

definition mk_ProtocolWriter :: protocol_writer where
  "mk_ProtocolWriter = \<lparr>pw_isDisposed = False, pw_isPaused = False, pw_data = [], pw_totalLength = 0,
     pw_lastWriteTime = 0, pw_writeNowTimeout = False, pw_sent = []\<rparr>"

definition pw_bufferAdd :: "vs_buffer \<Rightarrow> vs_buffer \<Rightarrow> protocol_writer \<Rightarrow> bool \<times> protocol_writer" where
  "pw_bufferAdd head body this =
     (let wasEmpty = (pw_totalLength this = 0)
      in (wasEmpty, this\<lparr>pw_data := pw_data this @ [head, body],
            pw_totalLength := pw_totalLength this + (length head + length body)\<rparr>))"

definition pw_bufferTake :: "protocol_writer \<Rightarrow> (vs_buffer \<times> protocol_writer) result" where
  "pw_bufferTake this =
     bind_result (VSBuffer_concat (pw_data this) (Some (pw_totalLength this)))
       (\<lambda>ret. Inr (ret, this\<lparr>pw_data := [], pw_totalLength := 0\<rparr>))"

definition pw_writeNow :: "protocol_writer \<Rightarrow> protocol_writer result" where
  "pw_writeNow this =
     (if pw_totalLength this = 0 then Inr this
      else if pw_isPaused this then Inr this
      else bind_result (pw_bufferTake this) (\<lambda>(data, this). Inr (this\<lparr>pw_sent := pw_sent this @ data\<rparr>)))"

definition pw_flush :: "protocol_writer \<Rightarrow> protocol_writer result" where
  "pw_flush this = pw_writeNow this"

definition pw_dispose :: "protocol_writer \<Rightarrow> protocol_writer" where
  "pw_dispose this = (case pw_flush this of Inl _ \<Rightarrow> this | Inr this \<Rightarrow> this)\<lparr>pw_isDisposed := True\<rparr>"

definition pw_scheduleWriting :: "protocol_writer \<Rightarrow> protocol_writer" where
  "pw_scheduleWriting this =
     (if pw_writeNowTimeout this then this else this\<lparr>pw_writeNowTimeout := True\<rparr>)"

text \<open>The callback of the timer.\<close>

definition pw_onWriteTimeout :: "protocol_writer \<Rightarrow> protocol_writer result" where
  "pw_onWriteTimeout this = pw_writeNow (this\<lparr>pw_writeNowTimeout := False\<rparr>)"

definition pw_pause :: "protocol_writer \<Rightarrow> protocol_writer" where
  "pw_pause this = this\<lparr>pw_isPaused := True\<rparr>"

definition pw_resume :: "protocol_writer \<Rightarrow> protocol_writer" where
  "pw_resume this = pw_scheduleWriting (this\<lparr>pw_isPaused := False\<rparr>)"

definition pw_writeSoon :: "vs_buffer \<Rightarrow> vs_buffer \<Rightarrow> protocol_writer \<Rightarrow> protocol_writer" where
  "pw_writeSoon header data this =
     (let (wasEmpty, this) = pw_bufferAdd header data this
      in if wasEmpty then pw_scheduleWriting this else this)"

definition pw_header :: "protocol_message \<Rightarrow> vs_buffer" where
  "pw_header msg =
     (let header = VSBuffer_alloc HeaderLength;
          header = writeUInt8 header (type_code (pm_type msg)) 0;
          header = writeUInt32BE header (int (pm_id msg)) 1;
          header = writeUInt32BE header (int (pm_ack msg)) 5
      in writeUInt32BE header (int (length (pm_data msg))) 9)"

definition pw_write :: "int \<Rightarrow> protocol_message \<Rightarrow> protocol_writer \<Rightarrow> protocol_writer" where
  "pw_write now msg this =
     (if pw_isDisposed this then this
      else pw_writeSoon (pw_header msg) (pm_data msg) (this\<lparr>pw_lastWriteTime := now\<rparr>))"

subsection \<open>Reading\<close>

text \<open>The field \<open>readLen\<close> is \<open>None\<close> when it is \<open>NaN\<close>.\<close>

record protocol_reader =
  pr_isDisposed :: bool
  pr_incomingData :: chunk_stream
  pr_lastReadTime :: int
  pr_readHead :: bool
  pr_readLen :: "nat option"
  pr_messageType :: message_type
  pr_id :: nat
  pr_ack :: nat

definition mk_ProtocolReader :: "int \<Rightarrow> protocol_reader" where
  "mk_ProtocolReader now = \<lparr>pr_isDisposed = False, pr_incomingData = mk_ChunkStream, pr_lastReadTime = now,
     pr_readHead = True, pr_readLen = Some HeaderLength, pr_messageType = NoneType, pr_id = 0, pr_ack = 0\<rparr>"

text \<open>A header; its length is always 13 (lemma \<open>pr_iterate_ok\<close>), so that all four numbers are there.\<close>

definition read_header :: "vs_buffer \<Rightarrow> protocol_reader \<Rightarrow> protocol_reader" where
  "read_header buff this =
     (case (readUInt32BE buff 9, readUInt8 buff 0, readUInt32BE buff 1, readUInt32BE buff 5) of
        (Some l, Some t, Some i, Some a) \<Rightarrow>
          this\<lparr>pr_readHead := False, pr_readLen := Some (nat l), pr_messageType := type_of_code t,
               pr_id := nat i, pr_ack := nat a\<rparr>
      | _ \<Rightarrow> this\<lparr>pr_readHead := False, pr_readLen := None\<rparr>)"

text \<open>The condition of the loop of \<open>acceptChunk\<close>.\<close>

definition pr_ready :: "protocol_reader \<Rightarrow> bool" where
  "pr_ready this \<longleftrightarrow> (case pr_readLen this of None \<Rightarrow> False | Some n \<Rightarrow> n \<le> cs_byteLength (pr_incomingData this))"

text \<open>One turn of the loop: the message that is to be fired, if any.\<close>

definition pr_iterate :: "protocol_reader \<Rightarrow> (protocol_message option \<times> protocol_reader) result" where
  "pr_iterate this =
     bind_result (cs_read (case pr_readLen this of None \<Rightarrow> 0 | Some n \<Rightarrow> n) (pr_incomingData this)) (\<lambda>(buff, data).
       let this = this\<lparr>pr_incomingData := data\<rparr>
       in if pr_readHead this then Inr (None, read_header buff this)
          else Inr (Some (ProtocolMessage (pr_messageType this) (pr_id this) (pr_ack this) buff),
                    this\<lparr>pr_readHead := True, pr_readLen := Some HeaderLength, pr_messageType := NoneType,
                         pr_id := 0, pr_ack := 0\<rparr>))"

lemma cs_read_loop_total:
  "cs_read_loop True n off i res this = Inr (b, this') \<Longrightarrow> cs_totalLength this' = cs_totalLength this - n"
proof (induction True n off i res this arbitrary: b this' rule: cs_read_loop.induct)
  case (1 n off i res this)
  show ?case
  proof (cases "n > 0 \<and> i < length (cs_chunks this)")
    case False
    with 1(3) show ?thesis by (simp add: cs_read_loop.simps split: if_splits)
  next
    case True
    show ?thesis
    proof (cases "length (cs_chunks this ! i) > n")
      case long: True
      with 1(3) True show ?thesis
        by (auto simp: cs_read_loop.simps [of _ n] cs_read_loop.simps [of _ 0] bind_result_Inr_iff Let_def)
    next
      case short: False
      with 1(3) True obtain res' where
        "cs_read_loop True (n - length (cs_chunks this ! i)) (off + length (cs_chunks this ! i)) i res'
          (this\<lparr>cs_chunks := tl (cs_chunks this), cs_totalLength := cs_totalLength this - length (cs_chunks this ! i)\<rparr>) =
          Inr (b, this')"
        by (subst (asm) cs_read_loop.simps) (auto simp: bind_result_Inr_iff Let_def)
      with 1(2) [OF _ _ refl, of res' b this'] True short show ?thesis by simp
    qed
  qed
qed

lemma cs_read_total: "cs_read n cs = Inr (b, cs') \<Longrightarrow> cs_totalLength cs' = cs_totalLength cs - n"
  by (auto simp: cs_read_def cs_read_impl_def cs_read_loop_total split: if_splits list.splits)

declare bind_result_cong [fundef_cong]

text \<open>Every turn takes a header away, or what is left behind a header.\<close>

definition pr_left :: "protocol_reader \<Rightarrow> nat" where
  "pr_left this =
     (if pr_ready this
      then Suc (2 * cs_totalLength (pr_incomingData this) + (if pr_readHead this then 0 else 1)) else 0)"

lemma pr_iterate_left:
  assumes "pr_ready this" and "pr_iterate this = Inr (msg, this')"
  shows "pr_left this' < pr_left this"
proof -
  obtain n where n: "pr_readLen this = Some n" "n \<le> cs_totalLength (pr_incomingData this)"
    using assms(1) by (auto simp: pr_ready_def cs_byteLength_def split: option.splits)
  with assms(2) obtain buff data where read: "cs_read n (pr_incomingData this) = Inr (buff, data)"
    by (auto simp: pr_iterate_def bind_result_Inr_iff)
  note data = cs_read_total [OF read]
  show ?thesis
  proof (cases "pr_readHead this")
    case False
    with assms read n data show ?thesis by (auto simp: pr_iterate_def pr_left_def)
  next
    case True
    with assms(2) read n have this': "this' = read_header buff (this\<lparr>pr_incomingData := data\<rparr>)"
      by (auto simp: pr_iterate_def Let_def)
    show ?thesis
    proof (cases "n = 0")
      case False
      with this' data n(2) assms(1) True show ?thesis
        by (auto simp: pr_left_def read_header_def split: option.splits)
    next
      case empty: True
      with read have "buff = []" by (simp add: cs_read_def cs_read_impl_def)
      with this' have "\<not> pr_ready this'" by (simp add: read_header_def readUInt32BE_def load8_def pr_ready_def)
      with assms(1) show ?thesis by (simp add: pr_left_def)
    qed
  qed
qed

function reader_loop ::
  "(protocol_message \<Rightarrow> 's \<Rightarrow> ('s \<times> bool) result) \<Rightarrow> protocol_reader \<Rightarrow> 's \<Rightarrow> (protocol_reader \<times> 's) result" where
  "reader_loop fire this s =
     (if pr_ready this
      then bind_result (pr_iterate this) (\<lambda>(msg, this).
        case msg of
          None \<Rightarrow> reader_loop fire this s
        | Some m \<Rightarrow> bind_result (fire m s) (\<lambda>(s, disposed).
            if pr_isDisposed this \<or> disposed then Inr (this\<lparr>pr_isDisposed := True\<rparr>, s)
            else reader_loop fire this s))
      else Inr (this, s))"
  by auto

termination
  by (relation "measure (\<lambda>(fire, this, s). pr_left this)") (auto simp: pr_iterate_left)

declare reader_loop.simps [simp del]

definition pr_acceptChunk ::
  "(protocol_message \<Rightarrow> 's \<Rightarrow> ('s \<times> bool) result) \<Rightarrow> int \<Rightarrow> vs_buffer \<Rightarrow> protocol_reader \<Rightarrow> 's \<Rightarrow>
     (protocol_reader \<times> 's) result" where
  "pr_acceptChunk fire now data this s =
     (if data = [] then Inr (this, s)
      else reader_loop fire
        (this\<lparr>pr_lastReadTime := now, pr_incomingData := cs_acceptChunk data (pr_incomingData this)\<rparr>) s)"

definition pr_readEntireBuffer :: "protocol_reader \<Rightarrow> (vs_buffer \<times> protocol_reader) result" where
  "pr_readEntireBuffer this =
     bind_result (cs_read (cs_byteLength (pr_incomingData this)) (pr_incomingData this))
       (\<lambda>(b, data). Inr (b, this\<lparr>pr_incomingData := data\<rparr>))"

definition pr_dispose :: "protocol_reader \<Rightarrow> protocol_reader" where
  "pr_dispose this = this\<lparr>pr_isDisposed := True\<rparr>"

subsection \<open>The class \<open>Protocol\<close>\<close>

definition Protocol_send :: "int \<Rightarrow> vs_buffer \<Rightarrow> protocol_writer \<Rightarrow> protocol_writer" where
  "Protocol_send now buffer writer = pw_write now (ProtocolMessage Regular 0 0 buffer) writer"

text \<open>The listener on the reader; the buffers that were fired so far are the state.\<close>

definition Protocol_receive :: "protocol_message \<Rightarrow> vs_buffer list \<Rightarrow> (vs_buffer list \<times> bool) result" where
  "Protocol_receive msg fired = Inr (if pm_type msg = Regular then fired @ [pm_data msg] else fired, False)"

subsection \<open>The bytes of a message\<close>

definition encode :: "protocol_message \<Rightarrow> vs_buffer" where
  "encode m = pw_header m @ pm_data m"

text \<open>Ids, acknowledgements and lengths have 32 bits in the header, types have 8.\<close>

definition sendable :: "protocol_message \<Rightarrow> bool" where
  "sendable m \<longleftrightarrow> pm_id m < 4294967296 \<and> pm_ack m < 4294967296 \<and> length (pm_data m) < 4294967296 \<and>
     0 \<le> type_code (pm_type m) \<and> type_code (pm_type m) < 256 \<and> type_of_code (type_code (pm_type m)) = pm_type m"

lemma type_round_trip: "(\<forall>n. t \<noteq> OtherType n) \<Longrightarrow> type_of_code (type_code t) = t"
  by (cases t) (simp_all add: type_of_code_def)

lemma pw_header_bytes:
  "pw_header m = word_of_int (type_code (pm_type m)) #
     be_bytes (int (pm_id m)) @ be_bytes (int (pm_ack m)) @ be_bytes (int (length (pm_data m)))"
proof -
  have "length (be_bytes v) = 4" for v by simp
  note four = length_four [OF this]
  obtain a b c d where i: "be_bytes (int (pm_id m)) = [a, b, c, d]" using four by blast
  obtain e f g h where k: "be_bytes (int (pm_ack m)) = [e, f, g, h]" using four by blast
  obtain p q r t where l: "be_bytes (int (length (pm_data m))) = [p, q, r, t]" using four by blast
  show ?thesis
    by (simp add: pw_header_def Let_def writeUInt8_def store8_def writeUInt32BE_bytes VSBuffer_alloc_def HeaderLength_def
        i k l eval_nat_numeral)
qed

lemma length_pw_header [simp]: "length (pw_header m) = 13"
  by (simp add: pw_header_bytes)

text \<open>What a reader makes of a header: numbers are cut off to the bits the header has for them.\<close>

lemma read_pw_header_wraps:
  "read_header (pw_header m) r = r\<lparr>pr_readHead := False, pr_readLen := Some (length (pm_data m) mod 4294967296),
    pr_messageType := type_of_code (type_code (pm_type m) mod 256), pr_id := pm_id m mod 4294967296,
    pr_ack := pm_ack m mod 4294967296\<rparr>"
proof -
  let ?t = "[word_of_int (type_code (pm_type m))] :: vs_buffer"
  let ?i = "be_bytes (int (pm_id m))" and ?a = "be_bytes (int (pm_ack m))" and ?l = "be_bytes (int (length (pm_data m)))"
  have h: "pw_header m = ?t @ ?i @ (?a @ ?l)" "pw_header m = (?t @ ?i) @ ?a @ ?l" "pw_header m = (?t @ ?i @ ?a) @ ?l @ []"
    by (simp_all add: pw_header_bytes)
  have "readUInt32BE (pw_header m) 1 = Some (int (pm_id m) mod 4294967296)"
    using readUInt32BE_bytes [of ?t "int (pm_id m)" "?a @ ?l"] unfolding h(1) by simp
  moreover have "readUInt32BE (pw_header m) 5 = Some (int (pm_ack m) mod 4294967296)"
    using readUInt32BE_bytes [of "?t @ ?i" "int (pm_ack m)" ?l] unfolding h(2) by simp
  moreover have "readUInt32BE (pw_header m) 9 = Some (int (length (pm_data m)) mod 4294967296)"
    using readUInt32BE_bytes [of "?t @ ?i @ ?a" "int (length (pm_data m))" "[]"] unfolding h(3) by simp
  moreover have "readUInt8 (pw_header m) 0 = Some (type_code (pm_type m) mod 256)"
    by (simp add: readUInt8_def load8_def pw_header_bytes uint_word_of_int)
  ultimately show ?thesis
    by (simp add: read_header_def nat_mod_distrib)
qed

lemma read_pw_header:
  assumes "sendable m"
  shows "read_header (pw_header m) r = r\<lparr>pr_readHead := False, pr_readLen := Some (length (pm_data m)),
    pr_messageType := pm_type m, pr_id := pm_id m, pr_ack := pm_ack m\<rparr>"
  using assms by (simp add: read_pw_header_wraps sendable_def)

lemma length_encode: "length (encode m) = 13 + length (pm_data m)"
  by (simp add: encode_def)

subsection \<open>What a reader will fire\<close>

text \<open>
  The messages \<open>ms\<close> are what a reader fires when the bytes \<open>bs\<close> still arrive: it stands in front of a
  header, or between the header and the data of the first of them.
\<close>

definition expects :: "protocol_reader \<Rightarrow> vs_buffer \<Rightarrow> protocol_message list \<Rightarrow> bool" where
  "expects r bs ms \<longleftrightarrow> cs_inv (pr_incomingData r) \<and> \<not> pr_isDisposed r \<and>
     (if pr_readHead r
      then pr_readLen r = Some 13 \<and> cs_bytes (pr_incomingData r) @ bs = concat (map encode ms)
      else (case ms of
              [] \<Rightarrow> False
            | m # ms \<Rightarrow> pr_readLen r = Some (length (pm_data m)) \<and> pr_messageType r = pm_type m \<and>
                pr_id r = pm_id m \<and> pr_ack r = pm_ack m \<and>
                cs_bytes (pr_incomingData r) @ bs = pm_data m @ concat (map encode ms)))"

lemma expects_new: "expects (mk_ProtocolReader now) (concat (map encode ms)) ms"
  by (simp add: expects_def mk_ProtocolReader_def HeaderLength_def)

lemma expects_more: "expects r bs ms \<Longrightarrow> expects r (bs @ encode m) (ms @ [m])"
  by (cases ms) (auto simp: expects_def split: if_splits simp flip: append_assoc)

lemma expects_arrive:
  "expects r (b @ bs) ms \<Longrightarrow>
     expects (r\<lparr>pr_lastReadTime := now, pr_incomingData := cs_acceptChunk b (pr_incomingData r)\<rparr>) bs ms"
  by (cases ms) (auto simp: expects_def split: if_splits)

lemma pr_ready_iff: "cs_inv (pr_incomingData r) \<Longrightarrow>
    pr_ready r \<longleftrightarrow> (\<exists>n. pr_readLen r = Some n \<and> n \<le> length (cs_bytes (pr_incomingData r)))"
  by (auto simp: pr_ready_def cs_byteLength_def cs_inv_def split: option.splits)

lemma expects_done: "expects r [] ms \<Longrightarrow> \<not> pr_ready r \<Longrightarrow> ms = []"
proof (cases "pr_readHead r")
  case True
  assume "expects r [] ms" "\<not> pr_ready r"
  with True have "length (concat (map encode ms)) < 13"
    by (auto simp: expects_def pr_ready_iff)
  then show ?thesis by (cases ms) (simp_all add: length_encode)
next
  case False
  assume "expects r [] ms" "\<not> pr_ready r"
  with False show ?thesis by (auto simp: expects_def pr_ready_iff split: list.splits)
qed

lemma pr_iterate_ok:
  assumes exp: "expects r bs ms" and ok: "\<forall>m \<in> set ms. sendable m" and ready: "pr_ready r"
  shows "\<exists>msg r'. pr_iterate r = Inr (msg, r') \<and> pr_lastReadTime r' = pr_lastReadTime r \<and>
    (case msg of None \<Rightarrow> expects r' bs ms | Some m \<Rightarrow> \<exists>ms'. ms = m # ms' \<and> expects r' bs ms')"
proof -
  have inv: "cs_inv (pr_incomingData r)" and live: "\<not> pr_isDisposed r" using exp by (simp_all add: expects_def)
  obtain n where n: "pr_readLen r = Some n" "n \<le> length (cs_bytes (pr_incomingData r))"
    using ready inv by (auto simp: pr_ready_iff)
  from cs_read_impl_ok [OF inv n(2), of True] obtain data where
    data: "cs_read n (pr_incomingData r) = Inr (take n (cs_bytes (pr_incomingData r)), data)" "cs_inv data"
      "cs_bytes data = drop n (cs_bytes (pr_incomingData r))"
    by (auto simp: cs_read_def)
  show ?thesis
  proof (cases "pr_readHead r")
    case True
    with exp n have n13: "n = 13" and bytes: "cs_bytes (pr_incomingData r) @ bs = concat (map encode ms)"
      by (simp_all add: expects_def)
    then obtain m ms' where ms: "ms = m # ms'" using n(2) by (cases ms) auto
    have "take 13 (cs_bytes (pr_incomingData r) @ bs) = pw_header m"
      "drop 13 (cs_bytes (pr_incomingData r) @ bs) = pm_data m @ concat (map encode ms')"
      unfolding bytes ms by (simp_all add: encode_def)
    with n(2) n13 have head: "take n (cs_bytes (pr_incomingData r)) = pw_header m"
      "drop n (cs_bytes (pr_incomingData r)) @ bs = pm_data m @ concat (map encode ms')"
      by simp_all
    have "pr_iterate r = Inr (None, r\<lparr>pr_incomingData := data, pr_readHead := False,
        pr_readLen := Some (length (pm_data m)), pr_messageType := pm_type m, pr_id := pm_id m, pr_ack := pm_ack m\<rparr>)"
      using True data(1) n(1) ok ms by (simp add: pr_iterate_def head read_pw_header)
    with data(2,3) head(2) live ms show ?thesis by (simp add: expects_def)
  next
    case False
    with exp n obtain m ms' where ms: "ms = m # ms'" and m: "n = length (pm_data m)" "pr_messageType r = pm_type m"
      "pr_id r = pm_id m" "pr_ack r = pm_ack m" and bytes: "cs_bytes (pr_incomingData r) @ bs = pm_data m @ concat (map encode ms')"
      by (auto simp: expects_def split: list.splits)
    have "take n (cs_bytes (pr_incomingData r) @ bs) = pm_data m"
      "drop n (cs_bytes (pr_incomingData r) @ bs) = concat (map encode ms')"
      unfolding bytes m(1) by simp_all
    with n(2) have body: "take n (cs_bytes (pr_incomingData r)) = pm_data m"
      "drop n (cs_bytes (pr_incomingData r)) @ bs = concat (map encode ms')"
      by simp_all
    with False data n m show ?thesis
      by (simp add: pr_iterate_def ProtocolMessage_def expects_def ms live HeaderLength_def)
  qed
qed

subsection \<open>From writer to reader\<close>

definition pw_inv :: "protocol_writer \<Rightarrow> bool" where
  "pw_inv w \<longleftrightarrow> pw_totalLength w = length (concat (pw_data w))"

lemma pw_schedule [simp]:
  "pw_data (pw_scheduleWriting w) = pw_data w" "pw_totalLength (pw_scheduleWriting w) = pw_totalLength w"
  "pw_sent (pw_scheduleWriting w) = pw_sent w" "pw_isDisposed (pw_scheduleWriting w) = pw_isDisposed w"
  "pw_isPaused (pw_scheduleWriting w) = pw_isPaused w" "pw_inv (pw_scheduleWriting w) = pw_inv w"
  by (simp_all add: pw_scheduleWriting_def pw_inv_def)

lemma pw_write_ok:
  assumes "pw_inv w"
  shows "pw_inv (pw_write now m w)" "pw_sent (pw_write now m w) = pw_sent w"
    "pw_isDisposed (pw_write now m w) = pw_isDisposed w" "pw_isPaused (pw_write now m w) = pw_isPaused w"
    "concat (pw_data (pw_write now m w)) = concat (pw_data w) @ (if pw_isDisposed w then [] else encode m)"
  using assms by (auto simp: pw_write_def pw_writeSoon_def pw_bufferAdd_def encode_def pw_inv_def Let_def)

lemma pw_writeNow_ok:
  assumes "pw_inv w"
  shows "\<exists>w'. pw_writeNow w = Inr w' \<and> pw_inv w' \<and> pw_isDisposed w' = pw_isDisposed w \<and> pw_isPaused w' = pw_isPaused w \<and>
    pw_sent w' = pw_sent w @ (if pw_isPaused w then [] else concat (pw_data w)) \<and>
    concat (pw_data w') = (if pw_isPaused w then concat (pw_data w) else [])"
proof (cases "pw_totalLength w = 0 \<or> pw_isPaused w")
  case True
  with assms show ?thesis by (auto simp: pw_writeNow_def pw_inv_def)
next
  case False
  with assms VSBuffer_concat_ok [of "pw_data w" "Some (pw_totalLength w)"] show ?thesis
    by (simp add: pw_writeNow_def pw_bufferTake_def pw_inv_def)
qed

lemma pw_new [simp]: "pw_inv mk_ProtocolWriter" "pw_data mk_ProtocolWriter = []" "pw_sent mk_ProtocolWriter = []"
  "\<not> pw_isDisposed mk_ProtocolWriter" "\<not> pw_isPaused mk_ProtocolWriter"
  by (simp_all add: mk_ProtocolWriter_def pw_inv_def)

lemma pw_write_all:
  assumes "pw_inv w" and "\<not> pw_isDisposed w"
  shows "concat (pw_data (fold (pw_write now) ms w)) = concat (pw_data w) @ concat (map encode ms) \<and>
    pw_inv (fold (pw_write now) ms w) \<and> pw_sent (fold (pw_write now) ms w) = pw_sent w \<and>
    \<not> pw_isDisposed (fold (pw_write now) ms w) \<and> pw_isPaused (fold (pw_write now) ms w) = pw_isPaused w"
  using assms
proof (induction ms arbitrary: w)
  case (Cons m ms)
  from Cons.IH [of "pw_write now m w"] pw_write_ok [OF Cons.prems(1), of now m] Cons.prems(2)
  show ?case by simp
qed simp

text \<open>A run of the reader over the chunks of a socket.\<close>

fun accept_all ::
  "(protocol_message \<Rightarrow> 's \<Rightarrow> ('s \<times> bool) result) \<Rightarrow> int \<Rightarrow> vs_buffer list \<Rightarrow> protocol_reader \<Rightarrow> 's \<Rightarrow>
     (protocol_reader \<times> 's) result" where
  "accept_all fire now [] r s = Inr (r, s)"
| "accept_all fire now (b # bs) r s =
     bind_result (pr_acceptChunk fire now b r s) (\<lambda>(r, s). accept_all fire now bs r s)"

lemma reader_loop_fires:
  assumes "expects r bs ms" and "\<forall>m \<in> set ms. sendable m" and "\<And>m s. fire m s = Inr (f m s, False)"
  shows "\<exists>r' ms1 ms2. reader_loop fire r s = Inr (r', fold f ms1 s) \<and> ms = ms1 @ ms2 \<and> expects r' bs ms2 \<and>
    \<not> pr_ready r'"
  using assms(1,2)
proof (induction "pr_left r" arbitrary: r s ms rule: less_induct)
  case less
  show ?case
  proof (cases "pr_ready r")
    case False
    with less.prems show ?thesis
      by (intro exI [of _ r] exI [of _ "[]"] exI [of _ ms]) (simp add: reader_loop.simps)
  next
    case True
    obtain msg r1 where r1: "pr_iterate r = Inr (msg, r1)"
      "case msg of None \<Rightarrow> expects r1 bs ms | Some m \<Rightarrow> \<exists>ms'. ms = m # ms' \<and> expects r1 bs ms'"
      using pr_iterate_ok [OF less.prems True] by blast
    note smaller = pr_iterate_left [OF True r1(1)]
    show ?thesis
    proof (cases msg)
      case None
      then have "reader_loop fire r s = reader_loop fire r1 s"
        using True r1(1) by (simp add: reader_loop.simps [of _ r])
      with less.hyps [OF smaller] r1(2) None less.prems(2) show ?thesis by simp
    next
      case (Some m)
      with r1(2) obtain ms' where ms': "ms = m # ms'" "expects r1 bs ms'" by auto
      have "reader_loop fire r s = reader_loop fire r1 (f m s)"
        using True r1(1) Some assms(3) ms'(2) by (simp add: reader_loop.simps [of _ r] expects_def)
      moreover obtain r' ms1 ms2 where "reader_loop fire r1 (f m s) = Inr (r', fold f ms1 (f m s))"
        "ms' = ms1 @ ms2" "expects r' bs ms2" "\<not> pr_ready r'"
        using less.hyps [OF smaller ms'(2), of "f m s"] less.prems(2) ms'(1) by auto
      ultimately show ?thesis
        using ms'(1) by (intro exI [of _ r'] exI [of _ "m # ms1"] exI [of _ ms2]) simp
    qed
  qed
qed

lemma accept_all_fires:
  assumes "expects r (concat chunks) ms" and "\<forall>m \<in> set ms. sendable m" and "\<And>m s. fire m s = Inr (f m s, False)"
    and "\<not> pr_ready r"
  shows "\<exists>r'. accept_all fire now chunks r s = Inr (r', fold f ms s)"
  using assms(1,2,4)
proof (induction chunks arbitrary: r s ms)
  case Nil
  then show ?case using expects_done [of r ms] by simp
next
  case (Cons b chunks)
  show ?case
  proof (cases "b = []")
    case True
    with Cons show ?thesis by (simp add: pr_acceptChunk_def)
  next
    case False
    let ?r = "r\<lparr>pr_lastReadTime := now, pr_incomingData := cs_acceptChunk b (pr_incomingData r)\<rparr>"
    have "expects ?r (concat chunks) ms" using Cons.prems(1) by (intro expects_arrive) simp
    from reader_loop_fires [where fire = fire and f = f and s = s, OF this Cons.prems(2) assms(3)] obtain r' ms1 ms2 where
      r': "reader_loop fire ?r s = Inr (r', fold f ms1 s)" "ms = ms1 @ ms2" "expects r' (concat chunks) ms2"
        "\<not> pr_ready r'"
      by blast
    from Cons.IH [OF r'(3) _ r'(4)] Cons.prems(2) r'(2) obtain r'' where
      "accept_all fire now chunks r' (fold f ms1 s) = Inr (r'', fold f ms2 (fold f ms1 s))" by auto
    with False r'(1,2) show ?thesis by (simp add: pr_acceptChunk_def)
  qed
qed

subsection \<open>Properties\<close>

text \<open>C13: Whatever messages are written, their bytes come out of the writer with a flush, and a reader at
  the other end fires exactly these messages, in order, into whatever chunks the bytes are cut on the
  way: chunks that split headers, that hold several messages, or that are empty.\<close>

theorem messages_survive_chunking:
  assumes "\<forall>m \<in> set ms. sendable m"
  shows "\<exists>w. pw_flush (fold (pw_write now) ms mk_ProtocolWriter) = Inr w \<and>
    (\<forall>chunks. concat chunks = pw_sent w \<longrightarrow>
      (\<exists>r. accept_all (\<lambda>m fired. Inr (fired @ [m], False)) now chunks (mk_ProtocolReader now) [] = Inr (r, ms)))"
proof -
  let ?w = "fold (pw_write now) ms mk_ProtocolWriter"
  have w: "pw_inv ?w" "concat (pw_data ?w) = concat (map encode ms)" "pw_sent ?w = []" "\<not> pw_isPaused ?w"
    using pw_write_all [of mk_ProtocolWriter now ms] by simp_all
  obtain w where flush: "pw_writeNow ?w = Inr w" "pw_sent w = concat (map encode ms)"
    using pw_writeNow_ok [OF w(1)] w by auto
  have "fold (\<lambda>m fired. fired @ [m]) ms [] = ms"
    by (induction ms rule: rev_induct) simp_all
  moreover have "\<not> pr_ready (mk_ProtocolReader now)"
    by (simp add: pr_ready_def mk_ProtocolReader_def HeaderLength_def mk_ChunkStream_def cs_byteLength_def)
  ultimately have "\<exists>r. accept_all (\<lambda>m fired. Inr (fired @ [m], False)) now chunks (mk_ProtocolReader now) [] = Inr (r, ms)"
    if "concat chunks = pw_sent w" for chunks
    using accept_all_fires [of "mk_ProtocolReader now" chunks ms "\<lambda>m fired. Inr (fired @ [m], False)"
        "\<lambda>m fired. fired @ [m]" now "[]"] expects_new [of now ms] assms that flush(2) by simp
  with flush(1) show ?thesis by (auto simp: pw_flush_def)
qed

definition sample_messages :: "protocol_message list" where
  "sample_messages = [ProtocolMessage Regular 1 0 [1, 2, 3], ProtocolMessage AckType 0 258 []]"

theorem messages_survive_chunking_witness:
  "\<exists>w. pw_flush (fold (pw_write 7) sample_messages mk_ProtocolWriter) = Inr w \<and>
    (\<forall>chunks. concat chunks = pw_sent w \<longrightarrow>
      (\<exists>r. accept_all (\<lambda>m fired. Inr (fired @ [m], False)) 7 chunks (mk_ProtocolReader 7) [] = Inr (r, sample_messages)))"
  by (rule messages_survive_chunking)
    (simp add: sample_messages_def sendable_def ProtocolMessage_def type_of_code_def)

end
