(* ===== verification/MessageQueue.thy ===== *)
theory MessageQueue
  imports Prelude
begin

section \<open>A queue of linked elements\<close>

text \<open>
  The classes \<open>QueueElement\<close> and \<open>Queue\<close> of \<open>src/src/vs/base/parts/ipc/common/ipc.net.ts\<close>. The elements
  are objects that are linked by their field \<open>next\<close>; \<open>_first\<close> and \<open>_last\<close> point into the same chain, and
  \<open>push\<close> writes through \<open>_last\<close>. The objects live in a store, in which they are numbered in the order
  of their creation. The locale \<open>fifo_queue\<close> is what the protocol relies on.
\<close>

record 'a queue_element =
  qe_data :: 'a
  qe_next :: "nat option"

record 'a msg_queue =
  q_store :: "nat \<Rightarrow> 'a queue_element option"
  q_created :: nat
  q_first :: "nat option"
  q_last :: "nat option"

definition Queue_new :: "'a msg_queue" where
  "Queue_new = \<lparr>q_store = (\<lambda>_. None), q_created = 0, q_first = None, q_last = None\<rparr>"

text \<open>The loops follow the chain; one unit of fuel for every object that was ever created is enough.\<close>

fun length_loop :: "nat \<Rightarrow> (nat \<Rightarrow> 'a queue_element option) \<Rightarrow> nat option \<Rightarrow> nat \<Rightarrow> nat result" where
  "length_loop fuel store None res = Inr res"
| "length_loop 0 store (Some a) res = Inl OutOfFuel"
| "length_loop (Suc fuel) store (Some a) res =
     (case store a of None \<Rightarrow> Inl TypeError | Some e \<Rightarrow> length_loop fuel store (qe_next e) (Suc res))"

definition Queue_length :: "'a msg_queue \<Rightarrow> nat result" where
  "Queue_length this = length_loop (q_created this) (q_store this) (q_first this) 0"

definition Queue_peek :: "'a msg_queue \<Rightarrow> 'a option" where
  "Queue_peek this = (case q_first this of None \<Rightarrow> None | Some a \<Rightarrow> map_option qe_data (q_store this a))"

fun toArray_loop :: "nat \<Rightarrow> (nat \<Rightarrow> 'a queue_element option) \<Rightarrow> nat option \<Rightarrow> 'a list \<Rightarrow> 'a list result" where
  "toArray_loop fuel store None res = Inr res"
| "toArray_loop 0 store (Some a) res = Inl OutOfFuel"
| "toArray_loop (Suc fuel) store (Some a) res =
     (case store a of None \<Rightarrow> Inl TypeError | Some e \<Rightarrow> toArray_loop fuel store (qe_next e) (res @ [qe_data e]))"

definition Queue_toArray :: "'a msg_queue \<Rightarrow> 'a list result" where
  "Queue_toArray this = toArray_loop (q_created this) (q_store this) (q_first this) []"

definition Queue_pop :: "'a msg_queue \<Rightarrow> 'a msg_queue" where
  "Queue_pop this =
     (case q_first this of
        None \<Rightarrow> this
      | Some a \<Rightarrow>
          if q_first this = q_last this then this\<lparr>q_first := None, q_last := None\<rparr>
          else this\<lparr>q_first := (case q_store this a of None \<Rightarrow> None | Some e \<Rightarrow> qe_next e)\<rparr>)"

definition Queue_push :: "'a \<Rightarrow> 'a msg_queue \<Rightarrow> 'a msg_queue" where
  "Queue_push item this =
     (let element = q_created this;
          this = this\<lparr>q_store := (q_store this)(element \<mapsto> \<lparr>qe_data = item, qe_next = None\<rparr>), q_created := Suc element\<rparr>
      in if q_first this = None then this\<lparr>q_first := Some element, q_last := Some element\<rparr>
         else case q_last this of
           None \<Rightarrow> this
         | Some l \<Rightarrow>
             this\<lparr>q_store := (q_store this)(l := map_option (qe_next_update (\<lambda>_. Some element)) (q_store this l)),
                  q_last := Some element\<rparr>)"

subsection \<open>The chain of a queue\<close>

fun chain :: "(nat \<Rightarrow> 'a queue_element option) \<Rightarrow> nat option \<Rightarrow> nat list \<Rightarrow> 'a list \<Rightarrow> bool" where
  "chain store p [] xs \<longleftrightarrow> p = None \<and> xs = []"
| "chain store p (a # as) xs \<longleftrightarrow> p = Some a \<and>
     (\<exists>e ys. store a = Some e \<and> xs = qe_data e # ys \<and> chain store (qe_next e) as ys)"

definition queue_rep :: "'a msg_queue \<Rightarrow> 'a list \<Rightarrow> bool" where
  "queue_rep q xs \<longleftrightarrow>
     (\<exists>as. chain (q_store q) (q_first q) as xs \<and> distinct as \<and> (\<forall>a \<in> set as. a < q_created q) \<and>
        q_last q = (if as = [] then None else Some (last as)))"

lemma chain_length: "chain store p as xs \<Longrightarrow> length as = length xs"
  by (induction as arbitrary: p xs) auto

lemma chain_frame: "chain store p as xs \<Longrightarrow> b \<notin> set as \<Longrightarrow> chain (store(b := e)) p as xs"
  by (induction as arbitrary: p xs) auto

lemma chain_snoc:
  assumes "chain store p as xs" and "as \<noteq> []" and "distinct as" and "b \<notin> set as"
  shows "chain ((store(b \<mapsto> \<lparr>qe_data = x, qe_next = None\<rparr>))
      (last as := map_option (qe_next_update (\<lambda>_. Some b)) (store (last as)))) p (as @ [b]) (xs @ [x])"
  using assms
proof (induction as arbitrary: p xs)
  case (Cons a as)
  from Cons.prems(1) obtain e ys where e: "p = Some a" "store a = Some e" "xs = qe_data e # ys" "chain store (qe_next e) as ys"
    by auto
  show ?case
  proof (cases "as = []")
    case True
    with e Cons.prems show ?thesis by auto
  next
    case False
    have "chain ((store(b \<mapsto> \<lparr>qe_data = x, qe_next = None\<rparr>))
      (last as := map_option (qe_next_update (\<lambda>_. Some b)) (store (last as)))) (qe_next e) (as @ [b]) (ys @ [x])"
      using Cons.prems(3,4) by (intro Cons.IH [OF e(4) False]) simp_all
    moreover have "a \<noteq> last as" "a \<noteq> b" using False Cons.prems by auto
    ultimately show ?thesis using e False by (simp add: fun_upd_def)
  qed
qed simp

lemma distinct_bounded_length: "distinct as \<Longrightarrow> \<forall>a \<in> set as. a < n \<Longrightarrow> length as \<le> n"
  using card_mono [of "{..<n}" "set as"] distinct_card [of as] by (simp add: subset_iff)

lemma length_loop_chain: "chain store p as xs \<Longrightarrow> length as \<le> fuel \<Longrightarrow> length_loop fuel store p n = Inr (n + length xs)"
proof (induction as arbitrary: p xs fuel n)
  case (Cons a as)
  then show ?case by (cases fuel) auto
qed simp

lemma toArray_loop_chain: "chain store p as xs \<Longrightarrow> length as \<le> fuel \<Longrightarrow> toArray_loop fuel store p ys = Inr (ys @ xs)"
proof (induction as arbitrary: p xs fuel ys)
  case (Cons a as)
  then show ?case by (cases fuel) auto
qed simp

subsection \<open>The interface\<close>

locale fifo_queue =
  fixes rep :: "'q \<Rightarrow> 'a list \<Rightarrow> bool" and new_queue :: 'q and push :: "'a \<Rightarrow> 'q \<Rightarrow> 'q" and pop :: "'q \<Rightarrow> 'q"
    and peek :: "'q \<Rightarrow> 'a option" and toArray :: "'q \<Rightarrow> 'a list result" and count :: "'q \<Rightarrow> nat result"
  assumes rep_new: "rep new_queue []"
    and rep_push: "rep q xs \<Longrightarrow> rep (push x q) (xs @ [x])"
    and rep_pop: "rep q xs \<Longrightarrow> rep (pop q) (tl xs)"
    and peek_hd: "rep q xs \<Longrightarrow> peek q = (case xs of [] \<Rightarrow> None | x # _ \<Rightarrow> Some x)"
    and toArray_rep: "rep q xs \<Longrightarrow> toArray q = Inr xs"
    and count_rep: "rep q xs \<Longrightarrow> count q = Inr (length xs)"
begin

lemma rep_push_all: "rep q xs \<Longrightarrow> rep (fold push ys q) (xs @ ys)"
proof (induction ys arbitrary: q xs)
  case (Cons y ys)
  from Cons.IH [OF rep_push [OF Cons.prems, of y]] show ?case by simp
qed simp

lemma rep_pop_all: "rep q xs \<Longrightarrow> rep ((pop ^^ n) q) (drop n xs)"
proof (induction n)
  case (Suc n)
  then show ?case using rep_pop [of "(pop ^^ n) q" "drop n xs"] by (simp add: drop_Suc tl_drop)
qed simp

lemma rep_unique: "rep q xs \<Longrightarrow> rep q ys \<Longrightarrow> xs = ys"
  using toArray_rep [of q xs] toArray_rep [of q ys] by simp

end

lemma queue_rep_push: "queue_rep q xs \<Longrightarrow> queue_rep (Queue_push x q) (xs @ [x])"
proof -
  assume "queue_rep q xs"
  then obtain as where as: "chain (q_store q) (q_first q) as xs" "distinct as" "\<forall>a \<in> set as. a < q_created q"
    "q_last q = (if as = [] then None else Some (last as))"
    by (auto simp: queue_rep_def)
  then have fresh: "q_created q \<notin> set as" by blast
  show ?thesis
  proof (cases as)
    case Nil
    with as show ?thesis by (auto simp: Queue_push_def queue_rep_def Let_def intro!: exI [of _ "[q_created q]"])
  next
    case (Cons a as')
    then have last: "last as \<noteq> q_created q" "q_first q \<noteq> None" "q_last q = Some (last as)"
      using fresh as(1,4) by (auto dest: last_in_set split: if_splits)
    define store where "store = (q_store q)(q_created q \<mapsto> \<lparr>qe_data = x, qe_next = None\<rparr>,
      last as := map_option (qe_next_update (\<lambda>_. Some (q_created q))) (q_store q (last as)))"
    have "Queue_push x q = q\<lparr>q_store := store, q_created := Suc (q_created q), q_last := Some (q_created q)\<rparr>"
      using last by (auto simp: Queue_push_def Let_def store_def)
    moreover have "chain store (q_first q) (as @ [q_created q]) (xs @ [x])"
      unfolding store_def using Cons by (intro chain_snoc [OF as(1) _ as(2) fresh]) simp
    moreover have "distinct (as @ [q_created q])" "\<forall>a \<in> set (as @ [q_created q]). a < Suc (q_created q)"
      using as(2,3) fresh by (auto simp: less_SucI)
    ultimately show ?thesis
      unfolding queue_rep_def by (intro exI [of _ "as @ [q_created q]"]) simp
  qed
qed

lemma queue_rep_pop: "queue_rep q xs \<Longrightarrow> queue_rep (Queue_pop q) (tl xs)"
proof -
  assume "queue_rep q xs"
  then obtain as where as: "chain (q_store q) (q_first q) as xs" "distinct as" "\<forall>a \<in> set as. a < q_created q"
    "q_last q = (if as = [] then None else Some (last as))"
    by (auto simp: queue_rep_def)
  show ?thesis
  proof (cases as)
    case Nil
    with as show ?thesis by (auto simp: Queue_pop_def queue_rep_def)
  next
    case (Cons a as')
    show ?thesis
    proof (cases "as' = []")
      case True
      with as Cons show ?thesis by (auto simp: Queue_pop_def queue_rep_def)
    next
      case False
      then have "a \<noteq> last as'" using as(2) Cons by auto
      with as Cons False show ?thesis
        by (auto simp: Queue_pop_def queue_rep_def intro!: exI [of _ as'])
    qed
  qed
qed

interpretation mq: fifo_queue queue_rep Queue_new Queue_push Queue_pop Queue_peek Queue_toArray Queue_length
proof unfold_locales
  fix q :: "'a msg_queue" and xs
  assume "queue_rep q xs"
  then obtain as where as: "chain (q_store q) (q_first q) as xs" "length as \<le> q_created q"
    by (auto simp: queue_rep_def intro: distinct_bounded_length)
  show "Queue_peek q = (case xs of [] \<Rightarrow> None | x # _ \<Rightarrow> Some x)"
    using as(1) by (cases as) (auto simp: Queue_peek_def)
  show "Queue_toArray q = Inr xs" "Queue_length q = Inr (length xs)"
    using as toArray_loop_chain [OF as] length_loop_chain [OF as] by (simp_all add: Queue_toArray_def Queue_length_def)
qed (simp_all add: queue_rep_push queue_rep_pop, simp add: queue_rep_def Queue_new_def)

subsection \<open>Properties\<close>


end
