(* ===== verification/BufferedEmitter.thy ===== *)
theory BufferedEmitter
  imports Prelude
begin

section \<open>Emitters that keep events for later listeners\<close>

text \<open>
  The class \<open>BufferedEmitter\<close> of \<open>src/src/vs/base/parts/ipc/common/ipc.net.ts\<close>: events that are fired
  while nobody listens are kept, and delivered in a microtask once somebody does. The events that
  reached the listeners are collected in \<open>be_delivered\<close>; \<open>be_microtasks\<close> counts the microtasks that are
  queued. An argument \<open>stays\<close> tells after which events there still is a listener.
\<close>

record 'a buffered_emitter =
  be_hasListeners :: bool
  be_isDeliveringMessages :: bool
  be_bufferedMessages :: "'a list"
  be_delivered :: "'a list"
  be_microtasks :: nat

definition mk_BufferedEmitter :: "'a buffered_emitter" where
  "mk_BufferedEmitter = \<lparr>be_hasListeners = False, be_isDeliveringMessages = False, be_bufferedMessages = [],
     be_delivered = [], be_microtasks = 0\<rparr>"

definition be_onWillAddFirstListener :: "'a buffered_emitter \<Rightarrow> 'a buffered_emitter" where
  "be_onWillAddFirstListener this = this\<lparr>be_hasListeners := True, be_microtasks := be_microtasks this + 1\<rparr>"

definition be_onDidRemoveLastListener :: "'a buffered_emitter \<Rightarrow> 'a buffered_emitter" where
  "be_onDidRemoveLastListener this = this\<lparr>be_hasListeners := False\<rparr>"

fun deliver_loop :: "('a \<Rightarrow> bool) \<Rightarrow> 'a list \<Rightarrow> 'a buffered_emitter \<Rightarrow> 'a buffered_emitter" where
  "deliver_loop stays [] this = this\<lparr>be_bufferedMessages := []\<rparr>"
| "deliver_loop stays (e # es) this =
     (if be_hasListeners this
      then deliver_loop stays es (this\<lparr>be_bufferedMessages := es, be_delivered := be_delivered this @ [e],
             be_hasListeners := stays e\<rparr>)
      else this\<lparr>be_bufferedMessages := e # es\<rparr>)"

definition be_deliverMessages :: "('a \<Rightarrow> bool) \<Rightarrow> 'a buffered_emitter \<Rightarrow> 'a buffered_emitter" where
  "be_deliverMessages stays this =
     (if be_isDeliveringMessages this then this
      else (deliver_loop stays (be_bufferedMessages this) (this\<lparr>be_isDeliveringMessages := True\<rparr>))
             \<lparr>be_isDeliveringMessages := False\<rparr>)"

text \<open>A microtask runs.\<close>

definition be_runMicrotask :: "('a \<Rightarrow> bool) \<Rightarrow> 'a buffered_emitter \<Rightarrow> 'a buffered_emitter" where
  "be_runMicrotask stays this = be_deliverMessages stays (this\<lparr>be_microtasks := be_microtasks this - 1\<rparr>)"

definition be_fire :: "'a \<Rightarrow> 'a buffered_emitter \<Rightarrow> 'a buffered_emitter" where
  "be_fire event this =
     (if be_hasListeners this
      then if be_bufferedMessages this \<noteq> []
           then this\<lparr>be_bufferedMessages := be_bufferedMessages this @ [event]\<rparr>
           else this\<lparr>be_delivered := be_delivered this @ [event]\<rparr>
      else this\<lparr>be_bufferedMessages := be_bufferedMessages this @ [event]\<rparr>)"

definition be_flushBuffer :: "'a buffered_emitter \<Rightarrow> 'a buffered_emitter" where
  "be_flushBuffer this = this\<lparr>be_bufferedMessages := []\<rparr>"

subsection \<open>Nothing is lost and nothing overtakes\<close>

text \<open>The events of an emitter: what was delivered and what is kept.\<close>

definition be_events :: "'a buffered_emitter \<Rightarrow> 'a list" where
  "be_events this = be_delivered this @ be_bufferedMessages this"

text \<open>Kept events are waited for: either nobody listens, or a microtask is on its way.\<close>

definition be_inv :: "'a buffered_emitter \<Rightarrow> bool" where
  "be_inv this \<longleftrightarrow> \<not> be_isDeliveringMessages this \<and>
     (be_hasListeners this \<and> be_bufferedMessages this \<noteq> [] \<longrightarrow> be_microtasks this > 0)"

lemma deliver_loop_events:
  "be_events (deliver_loop stays es this) = be_delivered this @ es \<and>
   be_isDeliveringMessages (deliver_loop stays es this) = be_isDeliveringMessages this \<and>
   (be_hasListeners (deliver_loop stays es this) \<longrightarrow> be_bufferedMessages (deliver_loop stays es this) = [])"
  by (induction es arbitrary: this) (simp_all add: be_events_def)

lemma be_simps [simp]:
  "be_events (be_fire e this) = be_events this @ [e]"
  "be_events (be_onWillAddFirstListener this) = be_events this"
  "be_events (be_onDidRemoveLastListener this) = be_events this"
  "be_events mk_BufferedEmitter = []"
  "be_events (be_runMicrotask stays this) = be_events this"
  using deliver_loop_events [of stays "be_bufferedMessages this"
      "this\<lparr>be_microtasks := be_microtasks this - 1, be_isDeliveringMessages := True\<rparr>"]
  by (auto simp: be_events_def be_fire_def be_onWillAddFirstListener_def be_onDidRemoveLastListener_def
      mk_BufferedEmitter_def be_runMicrotask_def be_deliverMessages_def)

lemma be_inv_preserved [simp]:
  "be_inv mk_BufferedEmitter"
  "be_inv this \<Longrightarrow> be_inv (be_fire e this)"
  "be_inv this \<Longrightarrow> be_inv (be_onWillAddFirstListener this)"
  "be_inv this \<Longrightarrow> be_inv (be_onDidRemoveLastListener this)"
  "be_inv this \<Longrightarrow> be_inv (be_flushBuffer this)"
  "be_inv this \<Longrightarrow> be_inv (be_runMicrotask stays this)"
  using deliver_loop_events [of stays "be_bufferedMessages this"
      "this\<lparr>be_microtasks := be_microtasks this - 1, be_isDeliveringMessages := True\<rparr>"]
  by (auto simp: be_inv_def be_fire_def be_onWillAddFirstListener_def be_onDidRemoveLastListener_def
      be_flushBuffer_def mk_BufferedEmitter_def be_runMicrotask_def be_deliverMessages_def)

text \<open>The states an emitter can reach, with the events that were fired and not thrown away by \<open>flushBuffer\<close>.\<close>

inductive be_reachable :: "'a buffered_emitter \<Rightarrow> 'a list \<Rightarrow> bool" where
  new: "be_reachable mk_BufferedEmitter []"
| fire: "be_reachable b es \<Longrightarrow> be_reachable (be_fire e b) (es @ [e])"
| add: "be_reachable b es \<Longrightarrow> \<not> be_hasListeners b \<Longrightarrow> be_reachable (be_onWillAddFirstListener b) es"
| remove: "be_reachable b es \<Longrightarrow> be_hasListeners b \<Longrightarrow> be_reachable (be_onDidRemoveLastListener b) es"
| microtask: "be_reachable b es \<Longrightarrow> be_microtasks b > 0 \<Longrightarrow> be_reachable (be_runMicrotask stays b) es"
| flush: "be_reachable b es \<Longrightarrow> be_reachable (be_flushBuffer b) (be_delivered b)"

lemma be_reachable_inv: "be_reachable b es \<Longrightarrow> be_inv b \<and> be_events b = es"
proof (induction rule: be_reachable.induct)
  case (flush b es)
  then show ?case by (simp add: be_events_def) (simp add: be_flushBuffer_def)
qed simp_all

subsection \<open>Properties\<close>

text \<open>C26: However listeners come and go, the events reach them in the order in which they were fired and
  none is lost: the delivered ones and the kept ones together are all that were fired. Kept events do
  not get stuck: while somebody listens a microtask is queued, and once it has run nothing is kept, or
  the last listener has left.\<close>

theorem BufferedEmitter_delivers_in_order:
  assumes "be_reachable b es"
  shows "be_delivered b @ be_bufferedMessages b = es \<and>
    (be_hasListeners b \<and> be_bufferedMessages b \<noteq> [] \<longrightarrow> be_microtasks b > 0) \<and>
    (be_hasListeners (be_runMicrotask stays b) \<longrightarrow> be_delivered (be_runMicrotask stays b) = es)"
proof -
  have inv: "be_inv b" "be_events b = es" using be_reachable_inv [OF assms] by simp_all
  have "be_bufferedMessages (be_runMicrotask stays b) = []" if "be_hasListeners (be_runMicrotask stays b)"
    using that inv(1) deliver_loop_events [of stays "be_bufferedMessages b"
        "b\<lparr>be_microtasks := be_microtasks b - 1, be_isDeliveringMessages := True\<rparr>"]
    by (simp add: be_runMicrotask_def be_deliverMessages_def be_inv_def)
  moreover have "be_events (be_runMicrotask stays b) = es" using inv(2) by simp
  ultimately show ?thesis using inv by (auto simp: be_inv_def be_events_def)
qed

theorem BufferedEmitter_delivers_in_order_witness:
  "be_delivered (be_onWillAddFirstListener (be_fire (2 :: nat) mk_BufferedEmitter)) @
     be_bufferedMessages (be_onWillAddFirstListener (be_fire 2 mk_BufferedEmitter)) = [2] \<and>
   be_microtasks (be_onWillAddFirstListener (be_fire (2 :: nat) mk_BufferedEmitter)) > 0 \<and>
   be_delivered (be_runMicrotask (\<lambda>_. True) (be_onWillAddFirstListener (be_fire 2 mk_BufferedEmitter))) = [2]"
proof -
  have "be_reachable (be_fire (2 :: nat) mk_BufferedEmitter) ([] @ [2])"
    by (intro be_reachable.intros)
  then have "be_reachable (be_onWillAddFirstListener (be_fire (2 :: nat) mk_BufferedEmitter)) [2]"
    by (intro be_reachable.add) (simp_all add: be_fire_def mk_BufferedEmitter_def)
  from BufferedEmitter_delivers_in_order [OF this, of "\<lambda>_. True"] show ?thesis
    by (simp add: be_fire_def mk_BufferedEmitter_def be_onWillAddFirstListener_def be_runMicrotask_def
        be_deliverMessages_def)
qed

end
