(* ===== verification/PersistentProtocol.thy ===== *)
theory PersistentProtocol
  imports ProtocolStream MessageQueue BufferedEmitter
begin

section \<open>The persistent protocol\<close>

text \<open>
  The class \<open>PersistentProtocol\<close> of \<open>src/src/vs/base/parts/ipc/common/ipc.net.ts\<close>, one end of a
  connection that survives the loss of its socket, and the class \<open>LoadEstimator\<close>. Every handler is one
  definition. Timers are the times at which they are due; the callback of a timer is a handler of its
  own. \<open>now\<close> is \<open>Date.now()\<close>, \<open>highLoad\<close> the answer of the load estimator. A message keeps its
  \<open>writtenTime\<close> in a table of the endpoint: only the one of a queued message is read, and queued
  messages have different ids. Sockets are numbers; \<open>pp_closedSockets\<close> records what was written to the
  sockets of earlier connections.
\<close>

subsection \<open>Estimating the load\<close>

definition HISTORY_LENGTH :: nat where
  "HISTORY_LENGTH = 10"

definition mk_LoadEstimator :: "int \<Rightarrow> int list" where
  "mk_LoadEstimator now = map (\<lambda>i. now - 1000 * int i) [0..<HISTORY_LENGTH]"

text \<open>The callback of the interval: entries 0 to 9 move to 1 to 10, one after the other from the end.\<close>

fun shift_runs :: "nat \<Rightarrow> int list \<Rightarrow> int list" where
  "shift_runs 0 lastRuns = lastRuns"
| "shift_runs (Suc i) lastRuns =
     shift_runs i (if Suc i < length lastRuns then lastRuns[Suc i := lastRuns ! i] else lastRuns @ [lastRuns ! i])"

definition LoadEstimator_tick :: "int \<Rightarrow> int list \<Rightarrow> int list" where
  "LoadEstimator_tick now lastRuns = (shift_runs HISTORY_LENGTH lastRuns)[0 := now]"

definition LoadEstimator_score :: "int \<Rightarrow> int list \<Rightarrow> nat" where
  "LoadEstimator_score now lastRuns =
     length (filter (\<lambda>t. now - t \<le> (1 + int HISTORY_LENGTH) * 1000) (take HISTORY_LENGTH lastRuns))"

text \<open>The load \<open>1 - score / 10\<close> in tenths.\<close>

definition LoadEstimator_load :: "int \<Rightarrow> int list \<Rightarrow> int" where
  "LoadEstimator_load now lastRuns = int HISTORY_LENGTH - int (LoadEstimator_score now lastRuns)"

definition LoadEstimator_hasHighLoad :: "int \<Rightarrow> int list \<Rightarrow> bool" where
  "LoadEstimator_hasHighLoad now lastRuns \<longleftrightarrow> LoadEstimator_load now lastRuns \<ge> 5"

subsection \<open>State\<close>

definition AcknowledgeTime :: int where
  "AcknowledgeTime = 2000"

definition TimeoutTime :: int where
  "TimeoutTime = 20000"

datatype socket_close_event = NodeSocketCloseEvent bool | WebSocketCloseEvent int js_string bool | UnknownCloseEvent

datatype timeout_reason = UNACKNOWLEDGED_MESSAGE | KEEP_ALIVE

record socket_timeout_event =
  te_reason :: timeout_reason
  te_unacknowledgedMsgCount :: nat
  te_timeSinceOldestUnacknowledgedMsg :: "int option"
  te_timeSinceLastReceivedSomeData :: int

record persistent_protocol =
  pp_isReconnecting :: bool
  pp_didSendDisconnect :: bool
  pp_outgoingUnackMsg :: "protocol_message msg_queue"
  pp_outgoingMsgId :: nat
  pp_outgoingAckId :: nat
  pp_outgoingAckTimeout :: "int option"
  pp_incomingMsgId :: nat
  pp_incomingAckId :: nat
  pp_incomingMsgLastTime :: int
  pp_incomingAckTimeout :: "int option"
  pp_keepAliveInterval :: bool
  pp_lastReplayRequestTime :: int
  pp_lastSocketTimeoutTime :: int
  pp_socket :: nat
  pp_socketWriter :: protocol_writer
  pp_socketReader :: protocol_reader
  pp_onControlMessage :: "vs_buffer buffered_emitter"
  pp_onMessage :: "vs_buffer buffered_emitter"
  pp_onDidDispose :: "unit buffered_emitter"
  pp_onSocketClose :: "socket_close_event buffered_emitter"
  pp_onSocketTimeout :: "socket_timeout_event buffered_emitter"
  pp_writtenTime :: "nat \<Rightarrow> int"
  pp_closedSockets :: "nat \<Rightarrow> vs_buffer option"

definition pp_unacknowledgedCount :: "persistent_protocol \<Rightarrow> int" where
  "pp_unacknowledgedCount this = int (pp_outgoingMsgId this) - int (pp_outgoingAckId this)"

definition mk_PersistentProtocol :: "int \<Rightarrow> nat \<Rightarrow> bool \<Rightarrow> persistent_protocol" where
  "mk_PersistentProtocol now socket sendKeepAlive =
     \<lparr>pp_isReconnecting = False, pp_didSendDisconnect = False, pp_outgoingUnackMsg = Queue_new,
      pp_outgoingMsgId = 0, pp_outgoingAckId = 0, pp_outgoingAckTimeout = None, pp_incomingMsgId = 0,
      pp_incomingAckId = 0, pp_incomingMsgLastTime = 0, pp_incomingAckTimeout = None,
      pp_keepAliveInterval = sendKeepAlive, pp_lastReplayRequestTime = 0, pp_lastSocketTimeoutTime = now,
      pp_socket = socket, pp_socketWriter = mk_ProtocolWriter, pp_socketReader = mk_ProtocolReader now,
      pp_onControlMessage = mk_BufferedEmitter, pp_onMessage = mk_BufferedEmitter,
      pp_onDidDispose = mk_BufferedEmitter, pp_onSocketClose = mk_BufferedEmitter,
      pp_onSocketTimeout = mk_BufferedEmitter, pp_writtenTime = (\<lambda>_. 0), pp_closedSockets = (\<lambda>_. None)\<rparr>"

subsection \<open>Writing messages\<close>

definition pp_write :: "int \<Rightarrow> protocol_message \<Rightarrow> persistent_protocol \<Rightarrow> persistent_protocol" where
  "pp_write now msg this =
     this\<lparr>pp_socketWriter := pw_write now msg (pp_socketWriter this),
          pp_writtenTime := (if pw_isDisposed (pp_socketWriter this) then pp_writtenTime this
                             else (pp_writtenTime this)(pm_id msg := now))\<rparr>"

definition pp_flush :: "persistent_protocol \<Rightarrow> persistent_protocol result" where
  "pp_flush this = bind_result (pw_flush (pp_socketWriter this)) (\<lambda>w. Inr (this\<lparr>pp_socketWriter := w\<rparr>))"

definition pp_onWriteTimeout :: "persistent_protocol \<Rightarrow> persistent_protocol result" where
  "pp_onWriteTimeout this = bind_result (pw_onWriteTimeout (pp_socketWriter this)) (\<lambda>w. Inr (this\<lparr>pp_socketWriter := w\<rparr>))"

definition pp_sendDisconnect :: "int \<Rightarrow> persistent_protocol \<Rightarrow> persistent_protocol result" where
  "pp_sendDisconnect now this =
     (if pp_didSendDisconnect this then Inr this
      else pp_flush (pp_write now (ProtocolMessage Disconnect 0 0 []) (this\<lparr>pp_didSendDisconnect := True\<rparr>)))"

definition pp_sendPause :: "int \<Rightarrow> persistent_protocol \<Rightarrow> persistent_protocol" where
  "pp_sendPause now this = pp_write now (ProtocolMessage Pause 0 0 []) this"

definition pp_sendResume :: "int \<Rightarrow> persistent_protocol \<Rightarrow> persistent_protocol" where
  "pp_sendResume now this = pp_write now (ProtocolMessage Resume 0 0 []) this"

definition pp_pauseSocketWriting :: "persistent_protocol \<Rightarrow> persistent_protocol" where
  "pp_pauseSocketWriting this = this\<lparr>pp_socketWriter := pw_pause (pp_socketWriter this)\<rparr>"

definition pp_sendControl :: "int \<Rightarrow> vs_buffer \<Rightarrow> persistent_protocol \<Rightarrow> persistent_protocol" where
  "pp_sendControl now buffer this = pp_write now (ProtocolMessage Control 0 0 buffer) this"

subsection \<open>Acknowledgements\<close>

definition pp_sendAck :: "int \<Rightarrow> persistent_protocol \<Rightarrow> persistent_protocol" where
  "pp_sendAck now this =
     (if pp_incomingMsgId this \<le> pp_incomingAckId this then this
      else let this = this\<lparr>pp_incomingAckId := pp_incomingMsgId this\<rparr>
           in pp_write now (ProtocolMessage AckType 0 (pp_incomingAckId this) []) this)"

definition pp_sendAckCheck :: "int \<Rightarrow> persistent_protocol \<Rightarrow> persistent_protocol" where
  "pp_sendAckCheck now this =
     (if pp_incomingMsgId this \<le> pp_incomingAckId this then this
      else if pp_incomingAckTimeout this \<noteq> None then this
      else let timeSinceLastIncomingMsg = now - pp_incomingMsgLastTime this
           in if timeSinceLastIncomingMsg \<ge> AcknowledgeTime then pp_sendAck now this
              else this\<lparr>pp_incomingAckTimeout := Some (now + (AcknowledgeTime - timeSinceLastIncomingMsg + 5))\<rparr>)"

definition pp_onIncomingAckTimeout :: "int \<Rightarrow> persistent_protocol \<Rightarrow> persistent_protocol" where
  "pp_onIncomingAckTimeout now this = pp_sendAckCheck now (this\<lparr>pp_incomingAckTimeout := None\<rparr>)"

text \<open>Reading the time of the oldest message of an empty queue would throw.\<close>

definition pp_recvAckCheck :: "int \<Rightarrow> bool \<Rightarrow> persistent_protocol \<Rightarrow> persistent_protocol result" where
  "pp_recvAckCheck now highLoad this =
     (if pp_outgoingMsgId this \<le> pp_outgoingAckId this then Inr this
      else if pp_outgoingAckTimeout this \<noteq> None then Inr this
      else if pp_isReconnecting this then Inr this
      else case Queue_peek (pp_outgoingUnackMsg this) of
        None \<Rightarrow> Inl TypeError
      | Some oldestUnacknowledgedMsg \<Rightarrow>
          let timeSinceOldestUnacknowledgedMsg = now - pp_writtenTime this (pm_id oldestUnacknowledgedMsg);
              timeSinceLastReceivedSomeData = now - pr_lastReadTime (pp_socketReader this);
              timeSinceLastTimeout = now - pp_lastSocketTimeoutTime this
          in if timeSinceOldestUnacknowledgedMsg \<ge> TimeoutTime \<and> timeSinceLastReceivedSomeData \<ge> TimeoutTime \<and>
                timeSinceLastTimeout \<ge> TimeoutTime \<and> \<not> highLoad
             then bind_result (Queue_length (pp_outgoingUnackMsg this)) (\<lambda>count.
               Inr (this\<lparr>pp_lastSocketTimeoutTime := now,
                 pp_onSocketTimeout := be_fire
                   \<lparr>te_reason = UNACKNOWLEDGED_MESSAGE, te_unacknowledgedMsgCount = count,
                    te_timeSinceOldestUnacknowledgedMsg = Some timeSinceOldestUnacknowledgedMsg,
                    te_timeSinceLastReceivedSomeData = timeSinceLastReceivedSomeData\<rparr> (pp_onSocketTimeout this)\<rparr>))
             else Inr (this\<lparr>pp_outgoingAckTimeout := Some (now +
               max (max (TimeoutTime - timeSinceOldestUnacknowledgedMsg) (TimeoutTime - timeSinceLastReceivedSomeData))
                   (max (TimeoutTime - timeSinceLastTimeout) 500))\<rparr>))"

definition pp_onOutgoingAckTimeout :: "int \<Rightarrow> bool \<Rightarrow> persistent_protocol \<Rightarrow> persistent_protocol result" where
  "pp_onOutgoingAckTimeout now highLoad this = pp_recvAckCheck now highLoad (this\<lparr>pp_outgoingAckTimeout := None\<rparr>)"

definition pp_keepAliveTimeoutCheck :: "int \<Rightarrow> bool \<Rightarrow> persistent_protocol \<Rightarrow> persistent_protocol result" where
  "pp_keepAliveTimeoutCheck now highLoad this =
     (if pp_isReconnecting this then Inr this
      else let timeSinceLastReceivedSomeData = now - pr_lastReadTime (pp_socketReader this);
               timeSinceLastTimeout = now - pp_lastSocketTimeoutTime this
           in if timeSinceLastReceivedSomeData \<ge> TimeoutTime \<and> timeSinceLastTimeout \<ge> TimeoutTime \<and> \<not> highLoad
              then bind_result (Queue_length (pp_outgoingUnackMsg this)) (\<lambda>count.
                Inr (this\<lparr>pp_lastSocketTimeoutTime := now,
                  pp_onSocketTimeout := be_fire
                    \<lparr>te_reason = KEEP_ALIVE, te_unacknowledgedMsgCount = count,
                     te_timeSinceOldestUnacknowledgedMsg =
                       map_option (\<lambda>m. now - pp_writtenTime this (pm_id m)) (Queue_peek (pp_outgoingUnackMsg this)),
                     te_timeSinceLastReceivedSomeData = timeSinceLastReceivedSomeData\<rparr> (pp_onSocketTimeout this)\<rparr>))
              else Inr this)"

definition pp_sendKeepAlive :: "int \<Rightarrow> bool \<Rightarrow> persistent_protocol \<Rightarrow> persistent_protocol result" where
  "pp_sendKeepAlive now highLoad this =
     (let this = this\<lparr>pp_incomingAckId := pp_incomingMsgId this\<rparr>;
          this = pp_write now (ProtocolMessage KeepAlive 0 (pp_incomingAckId this) []) this
      in pp_keepAliveTimeoutCheck now highLoad this)"

subsection \<open>Sending and receiving\<close>

definition pp_send :: "int \<Rightarrow> bool \<Rightarrow> vs_buffer \<Rightarrow> persistent_protocol \<Rightarrow> persistent_protocol result" where
  "pp_send now highLoad buffer this =
     (let this = this\<lparr>pp_outgoingMsgId := pp_outgoingMsgId this + 1\<rparr>;
          myId = pp_outgoingMsgId this;
          this = this\<lparr>pp_incomingAckId := pp_incomingMsgId this\<rparr>;
          msg = ProtocolMessage Regular myId (pp_incomingAckId this) buffer;
          this = this\<lparr>pp_outgoingUnackMsg := Queue_push msg (pp_outgoingUnackMsg this),
                      pp_writtenTime := (pp_writtenTime this)(myId := 0)\<rparr>
      in if pp_isReconnecting this then Inr this
         else pp_recvAckCheck now highLoad (pp_write now msg this))"

text \<open>Write all messages that are not acknowledged, then check.\<close>

definition pp_replay :: "int \<Rightarrow> bool \<Rightarrow> persistent_protocol \<Rightarrow> persistent_protocol result" where
  "pp_replay now highLoad this =
     bind_result (Queue_toArray (pp_outgoingUnackMsg this)) (\<lambda>toSend.
       pp_recvAckCheck now highLoad (fold (pp_write now) toSend this))"

fun pop_acked :: "nat \<Rightarrow> nat \<Rightarrow> protocol_message msg_queue \<Rightarrow> protocol_message msg_queue result" where
  "pop_acked 0 ack q = Inl OutOfFuel"
| "pop_acked (Suc fuel) ack q =
     (case Queue_peek q of
        None \<Rightarrow> Inr q
      | Some first \<Rightarrow> if pm_id first \<le> ack then pop_acked fuel ack (Queue_pop q) else Inr q)"

definition pp_acceptAck :: "nat \<Rightarrow> persistent_protocol \<Rightarrow> persistent_protocol result" where
  "pp_acceptAck ack this =
     (if ack > pp_outgoingAckId this
      then bind_result (pop_acked (Suc (q_created (pp_outgoingUnackMsg this))) ack (pp_outgoingUnackMsg this)) (\<lambda>q.
        Inr (this\<lparr>pp_outgoingAckId := ack, pp_outgoingUnackMsg := q\<rparr>))
      else Inr this)"

definition pp_receiveRegular :: "int \<Rightarrow> protocol_message \<Rightarrow> persistent_protocol \<Rightarrow> persistent_protocol" where
  "pp_receiveRegular now msg this =
     (if pm_id msg > pp_incomingMsgId this
      then if pm_id msg \<noteq> pp_incomingMsgId this + 1
           then if now - pp_lastReplayRequestTime this > 10000
                then pp_write now (ProtocolMessage ReplayRequest 0 0 []) (this\<lparr>pp_lastReplayRequestTime := now\<rparr>)
                else this
           else let this = this\<lparr>pp_incomingMsgId := pm_id msg, pp_incomingMsgLastTime := now\<rparr>;
                    this = pp_sendAckCheck now this
                in this\<lparr>pp_onMessage := be_fire (pm_data msg) (pp_onMessage this)\<rparr>
      else this)"

definition pp_receiveMessage ::
  "int \<Rightarrow> bool \<Rightarrow> protocol_message \<Rightarrow> persistent_protocol \<Rightarrow> persistent_protocol result" where
  "pp_receiveMessage now highLoad msg this =
     bind_result (pp_acceptAck (pm_ack msg) this) (\<lambda>this.
       case pm_type msg of
         Regular \<Rightarrow> Inr (pp_receiveRegular now msg this)
       | Control \<Rightarrow> Inr (this\<lparr>pp_onControlMessage := be_fire (pm_data msg) (pp_onControlMessage this)\<rparr>)
       | Disconnect \<Rightarrow> Inr (this\<lparr>pp_onDidDispose := be_fire () (pp_onDidDispose this)\<rparr>)
       | ReplayRequest \<Rightarrow> pp_replay now highLoad this
       | Pause \<Rightarrow> Inr (this\<lparr>pp_socketWriter := pw_pause (pp_socketWriter this)\<rparr>)
       | Resume \<Rightarrow> Inr (this\<lparr>pp_socketWriter := pw_resume (pp_socketWriter this)\<rparr>)
       | _ \<Rightarrow> Inr this)"

subsection \<open>Reading from the socket\<close>

text \<open>
  \<open>acceptChunk\<close> of the reader, with the listener of the protocol: the chunk comes in, then the loop
  runs. No listener of the protocol disposes the reader.
\<close>

definition pp_arrive :: "int \<Rightarrow> vs_buffer \<Rightarrow> persistent_protocol \<Rightarrow> persistent_protocol" where
  "pp_arrive now data this =
     this\<lparr>pp_socketReader := (pp_socketReader this)\<lparr>pr_lastReadTime := now,
       pr_incomingData := cs_acceptChunk data (pr_incomingData (pp_socketReader this))\<rparr>\<rparr>"

definition pp_iterate :: "int \<Rightarrow> bool \<Rightarrow> persistent_protocol \<Rightarrow> persistent_protocol result" where
  "pp_iterate now highLoad this =
     bind_result (pr_iterate (pp_socketReader this)) (\<lambda>(msg, reader).
       let this = this\<lparr>pp_socketReader := reader\<rparr>
       in case msg of None \<Rightarrow> Inr this | Some m \<Rightarrow> pp_receiveMessage now highLoad m this)"

lemma pp_write_reader [simp]: "pp_socketReader (pp_write now m this) = pp_socketReader this"
  by (simp add: pp_write_def)

lemma pp_write_all_reader [simp]: "pp_socketReader (fold (pp_write now) ms this) = pp_socketReader this"
  by (induction ms arbitrary: this) simp_all

lemma pp_sendAck_reader [simp]: "pp_socketReader (pp_sendAck now this) = pp_socketReader this"
  by (simp add: pp_sendAck_def)

lemma pp_sendAckCheck_reader [simp]: "pp_socketReader (pp_sendAckCheck now this) = pp_socketReader this"
  by (simp add: pp_sendAckCheck_def Let_def)

lemma pp_recvAckCheck_reader:
  "pp_recvAckCheck now hl this = Inr this' \<Longrightarrow> pp_socketReader this' = pp_socketReader this"
  by (auto simp: pp_recvAckCheck_def Let_def bind_result_Inr_iff split: if_splits option.splits)

lemma pp_receiveMessage_reader:
  assumes "pp_receiveMessage now hl m this = Inr this'"
  shows "pp_socketReader this' = pp_socketReader this"
proof -
  obtain this1 where this1: "pp_acceptAck (pm_ack m) this = Inr this1"
    using assms by (auto simp: pp_receiveMessage_def bind_result_Inr_iff)
  have "pp_socketReader this1 = pp_socketReader this"
    using this1 by (auto simp: pp_acceptAck_def bind_result_Inr_iff split: if_splits)
  moreover have "pp_socketReader this' = pp_socketReader this1"
    using assms this1 pp_recvAckCheck_reader
    by (auto simp: pp_receiveMessage_def pp_receiveRegular_def pp_replay_def bind_result_Inr_iff Let_def
        split: message_type.splits if_splits)
  ultimately show ?thesis by simp
qed

function pp_read_loop :: "int \<Rightarrow> bool \<Rightarrow> persistent_protocol \<Rightarrow> persistent_protocol result" where
  "pp_read_loop now highLoad this =
     (if pr_ready (pp_socketReader this) then bind_result (pp_iterate now highLoad this) (pp_read_loop now highLoad)
      else Inr this)"
  by auto

termination
proof (relation "measure (\<lambda>(now, hl, this). pr_left (pp_socketReader this))")
  fix now hl this this'
  assume ready: "pr_ready (pp_socketReader this)" and step: "pp_iterate now hl this = Inr this'"
  obtain msg r where r: "pr_iterate (pp_socketReader this) = Inr (msg, r)" "pp_socketReader this' = r"
    using step pp_receiveMessage_reader
    by (fastforce simp: pp_iterate_def bind_result_Inr_iff Let_def split: option.splits)
  with pr_iterate_left [OF ready r(1)]
  show "((now, hl, this'), now, hl, this) \<in> measure (\<lambda>(now, hl, this). pr_left (pp_socketReader this))"
    by simp
qed simp

declare pp_read_loop.simps [simp del]

definition pp_acceptChunk :: "int \<Rightarrow> bool \<Rightarrow> vs_buffer \<Rightarrow> persistent_protocol \<Rightarrow> persistent_protocol result" where
  "pp_acceptChunk now highLoad data this =
     (if data = [] then Inr this else pp_read_loop now highLoad (pp_arrive now data this))"

text \<open>The constructor, with the chunk that was read from the socket before.\<close>

definition PersistentProtocol_new :: "int \<Rightarrow> bool \<Rightarrow> nat \<Rightarrow> vs_buffer \<Rightarrow> bool \<Rightarrow> persistent_protocol result" where
  "PersistentProtocol_new now highLoad socket initialChunk sendKeepAlive =
     pp_acceptChunk now highLoad initialChunk (mk_PersistentProtocol now socket sendKeepAlive)"

definition pp_readEntireBuffer :: "persistent_protocol \<Rightarrow> (vs_buffer \<times> persistent_protocol) result" where
  "pp_readEntireBuffer this =
     bind_result (pr_readEntireBuffer (pp_socketReader this)) (\<lambda>(b, r). Inr (b, this\<lparr>pp_socketReader := r\<rparr>))"

subsection \<open>Reconnecting\<close>

text \<open>Disposing the store of the socket disposes the writer, which flushes, and the reader.\<close>

definition pp_disposeSocket :: "persistent_protocol \<Rightarrow> persistent_protocol" where
  "pp_disposeSocket this =
     this\<lparr>pp_socketWriter := pw_dispose (pp_socketWriter this), pp_socketReader := pr_dispose (pp_socketReader this)\<rparr>"

definition pp_switchSocket :: "int \<Rightarrow> nat \<Rightarrow> persistent_protocol \<Rightarrow> persistent_protocol" where
  "pp_switchSocket now socket this =
     (let this = pp_disposeSocket (this\<lparr>pp_isReconnecting := True\<rparr>)
      in this\<lparr>pp_closedSockets := (pp_closedSockets this)(pp_socket this \<mapsto> pw_sent (pp_socketWriter this)),
              pp_onControlMessage := be_flushBuffer (pp_onControlMessage this),
              pp_onSocketClose := be_flushBuffer (pp_onSocketClose this),
              pp_onSocketTimeout := be_flushBuffer (pp_onSocketTimeout this),
              pp_lastReplayRequestTime := 0, pp_lastSocketTimeoutTime := now, pp_socket := socket,
              pp_socketWriter := mk_ProtocolWriter, pp_socketReader := mk_ProtocolReader now\<rparr>)"

definition pp_beginAcceptReconnection ::
  "int \<Rightarrow> bool \<Rightarrow> nat \<Rightarrow> vs_buffer \<Rightarrow> persistent_protocol \<Rightarrow> persistent_protocol result" where
  "pp_beginAcceptReconnection now highLoad socket initialDataChunk this =
     pp_acceptChunk now highLoad initialDataChunk (pp_switchSocket now socket this)"

definition pp_endAcceptReconnection :: "int \<Rightarrow> bool \<Rightarrow> persistent_protocol \<Rightarrow> persistent_protocol result" where
  "pp_endAcceptReconnection now highLoad this =
     (let this = this\<lparr>pp_isReconnecting := False\<rparr>;
          this = this\<lparr>pp_incomingAckId := pp_incomingMsgId this\<rparr>;
          this = pp_write now (ProtocolMessage AckType 0 (pp_incomingAckId this) []) this
      in pp_replay now highLoad this)"

definition pp_acceptDisconnect :: "persistent_protocol \<Rightarrow> persistent_protocol" where
  "pp_acceptDisconnect this = this\<lparr>pp_onDidDispose := be_fire () (pp_onDidDispose this)\<rparr>"

text \<open>The listener on the socket.\<close>

definition pp_onClose :: "socket_close_event \<Rightarrow> persistent_protocol \<Rightarrow> persistent_protocol" where
  "pp_onClose e this = this\<lparr>pp_onSocketClose := be_fire e (pp_onSocketClose this)\<rparr>"

definition pp_dispose :: "persistent_protocol \<Rightarrow> persistent_protocol" where
  "pp_dispose this =
     pp_disposeSocket (this\<lparr>pp_outgoingAckTimeout := None, pp_incomingAckTimeout := None, pp_keepAliveInterval := False\<rparr>)"

subsection \<open>The invariant of an endpoint\<close>

text \<open>
  Let \<open>S\<close> be the buffers that were handed to \<open>send\<close> so far. A message is good when it fits into its header,
  acknowledges only what was received, and, if it is a regular one, has the buffer of its id.
\<close>

definition good :: "vs_buffer list \<Rightarrow> nat \<Rightarrow> protocol_message \<Rightarrow> bool" where
  "good S received m \<longleftrightarrow> sendable m \<and> pm_ack m \<le> received \<and>
     (pm_type m = Regular \<longrightarrow> 0 < pm_id m \<and> pm_id m \<le> length S \<and> pm_data m = S ! (pm_id m - 1))"

definition bounded_sends :: "vs_buffer list \<Rightarrow> bool" where
  "bounded_sends S \<longleftrightarrow> length S < 4294967296 \<and> (\<forall>b \<in> set S. length b < 4294967296)"

text \<open>The queue holds exactly the messages that are not acknowledged.\<close>

definition queue_ok :: "vs_buffer list \<Rightarrow> persistent_protocol \<Rightarrow> bool" where
  "queue_ok S p \<longleftrightarrow> pp_outgoingMsgId p = length S \<and>
     (\<exists>ms. queue_rep (pp_outgoingUnackMsg p) ms \<and>
        map pm_id ms = [Suc (pp_outgoingAckId p)..<Suc (length S)] \<and>
        (\<forall>m \<in> set ms. pm_type m = Regular \<and> good S (pp_incomingMsgId p) m))"

definition writer_ok :: "vs_buffer list \<Rightarrow> persistent_protocol \<Rightarrow> bool" where
  "writer_ok S p \<longleftrightarrow> pw_inv (pp_socketWriter p) \<and> \<not> pw_isDisposed (pp_socketWriter p) \<and>
     (\<exists>ms. concat (pw_data (pp_socketWriter p)) = concat (map encode ms) \<and> (\<forall>m \<in> set ms. good S (pp_incomingMsgId p) m))"

text \<open>What was received and not acknowledged will be: a timer is set.\<close>

definition ack_ok :: "persistent_protocol \<Rightarrow> bool" where
  "ack_ok p \<longleftrightarrow> pp_incomingAckId p \<le> pp_incomingMsgId p \<and>
     (pp_incomingAckId p < pp_incomingMsgId p \<longrightarrow> pp_incomingAckTimeout p \<noteq> None)"

definition endpoint_ok :: "vs_buffer list \<Rightarrow> persistent_protocol \<Rightarrow> bool" where
  "endpoint_ok S p \<longleftrightarrow> bounded_sends S \<and> pp_incomingMsgId p < 4294967296 \<and> queue_ok S p \<and> writer_ok S p \<and>
     ack_ok p \<and> be_inv (pp_onMessage p)"

lemma good_mono: "good S k m \<Longrightarrow> k \<le> k' \<Longrightarrow> good (S @ T) k' m"
  by (auto simp: good_def nth_append)

lemma good_mono_received: "good S k m \<Longrightarrow> k \<le> k' \<Longrightarrow> good S k' m"
  using good_mono [of S k m k' "[]"] by simp

lemma good_control:
  "t \<noteq> Regular \<Longrightarrow> (\<And>n. t \<noteq> OtherType n) \<Longrightarrow> a \<le> k \<Longrightarrow> k < 4294967296 \<Longrightarrow> length b < 4294967296 \<Longrightarrow>
     good S k (ProtocolMessage t 0 a b)"
  by (cases t) (auto simp: good_def sendable_def ProtocolMessage_def type_of_code_def)

lemma pw_sent_write [simp]: "pw_sent (pw_write now m w) = pw_sent w"
  by (simp add: pw_write_def pw_writeSoon_def pw_bufferAdd_def Let_def)

text \<open>What a handler leaves alone that only writes.\<close>

definition same_books :: "persistent_protocol \<Rightarrow> persistent_protocol \<Rightarrow> bool" where
  "same_books p p' \<longleftrightarrow> pp_socket p' = pp_socket p \<and> pp_closedSockets p' = pp_closedSockets p \<and>
     pp_socketReader p' = pp_socketReader p \<and> pp_incomingMsgId p' = pp_incomingMsgId p \<and>
     pp_outgoingAckId p' = pp_outgoingAckId p \<and> be_events (pp_onMessage p') = be_events (pp_onMessage p)"

text \<open>A handler that keeps the invariant, may send good messages and receives nothing.\<close>

definition quiet :: "vs_buffer list \<Rightarrow> persistent_protocol \<Rightarrow> persistent_protocol \<Rightarrow> bool" where
  "quiet S p p' \<longleftrightarrow> endpoint_ok S p' \<and> same_books p p' \<and>
     (\<exists>ms. pw_sent (pp_socketWriter p') = pw_sent (pp_socketWriter p) @ concat (map encode ms) \<and>
        (\<forall>m \<in> set ms. good S (pp_incomingMsgId p') m))"

lemma same_books_trans: "same_books p q \<Longrightarrow> same_books q r \<Longrightarrow> same_books p r"
  by (simp add: same_books_def)

lemma quiet_refl: "endpoint_ok S p \<Longrightarrow> quiet S p p"
  by (auto simp: quiet_def same_books_def intro: exI [of _ "[]"])

lemma quiet_trans:
  assumes "quiet S p q" and "quiet S q r"
  shows "quiet S p r"
proof -
  obtain ms where ms: "pw_sent (pp_socketWriter q) = pw_sent (pp_socketWriter p) @ concat (map encode ms)"
    "\<forall>m \<in> set ms. good S (pp_incomingMsgId q) m"
    using assms(1) unfolding quiet_def by blast
  obtain ns where ns: "pw_sent (pp_socketWriter r) = pw_sent (pp_socketWriter q) @ concat (map encode ns)"
    "\<forall>m \<in> set ns. good S (pp_incomingMsgId r) m"
    using assms(2) unfolding quiet_def by blast
  have "pp_incomingMsgId q = pp_incomingMsgId r" using assms(2) by (simp add: quiet_def same_books_def)
  with ms ns have "pw_sent (pp_socketWriter r) = pw_sent (pp_socketWriter p) @ concat (map encode (ms @ ns))"
    "\<forall>m \<in> set (ms @ ns). good S (pp_incomingMsgId r) m"
    by auto
  moreover have "endpoint_ok S r" "same_books p r"
    using assms same_books_trans by (auto simp: quiet_def)
  ultimately show ?thesis unfolding quiet_def by blast
qed

lemma quiet_from:
  "quiet S p0 q \<Longrightarrow> same_books p p0 \<Longrightarrow> pw_sent (pp_socketWriter p0) = pw_sent (pp_socketWriter p) \<Longrightarrow> quiet S p q"
  unfolding quiet_def using same_books_trans by auto

lemma quiet_endpoint: "quiet S p q \<Longrightarrow> endpoint_ok S q"
  by (simp add: quiet_def)

text \<open>Fields that are not part of the invariant may change.\<close>

lemma quiet_fields:
  assumes "endpoint_ok S p"
    and "pp_outgoingMsgId p' = pp_outgoingMsgId p" "pp_outgoingUnackMsg p' = pp_outgoingUnackMsg p"
      "pp_socketWriter p' = pp_socketWriter p" "pp_incomingAckId p' = pp_incomingAckId p"
      "pp_incomingAckTimeout p' = pp_incomingAckTimeout p" "be_inv (pp_onMessage p')" "same_books p p'"
  shows "quiet S p p'"
  using assms
  by (auto simp: quiet_def endpoint_ok_def queue_ok_def writer_ok_def ack_ok_def same_books_def intro: exI [of _ "[]"])

lemma endpoint_incoming: "endpoint_ok S p \<Longrightarrow> pp_incomingMsgId p < 4294967296"
  by (simp add: endpoint_ok_def)

lemma pp_write_quiet:
  assumes "endpoint_ok S p" and "good S (pp_incomingMsgId p) m"
  shows "quiet S p (pp_write now m p)"
proof -
  obtain ms where ms: "pw_inv (pp_socketWriter p)" "\<not> pw_isDisposed (pp_socketWriter p)"
    "concat (pw_data (pp_socketWriter p)) = concat (map encode ms)" "\<forall>m \<in> set ms. good S (pp_incomingMsgId p) m"
    using assms(1) by (auto simp: endpoint_ok_def writer_ok_def)
  have "writer_ok S (pp_write now m p)"
    unfolding writer_ok_def
    using pw_write_ok [OF ms(1), of now m] ms assms(2)
    by (auto simp: pp_write_def intro!: exI [of _ "ms @ [m]"])
  with assms(1) show ?thesis
    by (auto simp: quiet_def endpoint_ok_def queue_ok_def ack_ok_def same_books_def pp_write_def intro: exI [of _ "[]"])
qed

lemma pp_write_all_quiet:
  assumes "endpoint_ok S p" and "\<forall>m \<in> set ms. good S (pp_incomingMsgId p) m"
  shows "quiet S p (fold (pp_write now) ms p)"
  using assms
proof (induction ms arbitrary: p)
  case Nil
  then show ?case by (simp add: quiet_refl)
next
  case (Cons m ms)
  then have q: "quiet S p (pp_write now m p)" by (simp add: pp_write_quiet)
  moreover have "pp_incomingMsgId (pp_write now m p) = pp_incomingMsgId p" by (simp add: pp_write_def)
  ultimately show ?case
    using Cons.IH [of "pp_write now m p"] Cons.prems(2) quiet_trans quiet_endpoint by (auto intro: quiet_trans)
qed

text \<open>A flush moves what is pending to the socket.\<close>

lemma writer_now_quiet:
  assumes ok: "endpoint_ok S p" and w: "pw_data w = pw_data (pp_socketWriter p)"
    "pw_totalLength w = pw_totalLength (pp_socketWriter p)" "pw_sent w = pw_sent (pp_socketWriter p)"
    "\<not> pw_isDisposed w"
  shows "\<exists>w'. pw_writeNow w = Inr w' \<and> quiet S p (p\<lparr>pp_socketWriter := w'\<rparr>)"
proof -
  obtain ms where ms: "concat (pw_data (pp_socketWriter p)) = concat (map encode ms)" "\<forall>m \<in> set ms. good S (pp_incomingMsgId p) m"
    "pw_inv (pp_socketWriter p)"
    using ok by (auto simp: endpoint_ok_def writer_ok_def)
  have "pw_inv w" using ms(3) w by (simp add: pw_inv_def)
  from pw_writeNow_ok [OF this] obtain w' where w': "pw_writeNow w = Inr w'" "pw_inv w'" "\<not> pw_isDisposed w'"
    "pw_sent w' = pw_sent w @ (if pw_isPaused w then [] else concat (pw_data w))"
    "concat (pw_data w') = (if pw_isPaused w then concat (pw_data w) else [])"
    using w(4) by auto
  define sent where "sent = (if pw_isPaused w then [] else ms)"
  have sent: "pw_sent w' = pw_sent (pp_socketWriter p) @ concat (map encode sent)" "\<forall>m \<in> set sent. good S (pp_incomingMsgId p) m"
    using w'(4) w ms by (simp_all add: sent_def)
  have "writer_ok S (p\<lparr>pp_socketWriter := w'\<rparr>)"
    unfolding writer_ok_def
    using w' w ms by (auto intro!: exI [of _ "if pw_isPaused w then ms else []"])
  with ok sent show ?thesis
    using w'(1) unfolding quiet_def by (auto simp: endpoint_ok_def queue_ok_def ack_ok_def same_books_def)
qed

lemma pp_flush_quiet: "endpoint_ok S p \<Longrightarrow> \<exists>p'. pp_flush p = Inr p' \<and> quiet S p p'"
  using writer_now_quiet [of S p "pp_socketWriter p"]
  by (auto simp: pp_flush_def pw_flush_def endpoint_ok_def writer_ok_def)

lemma pp_onWriteTimeout_quiet: "endpoint_ok S p \<Longrightarrow> \<exists>p'. pp_onWriteTimeout p = Inr p' \<and> quiet S p p'"
  using writer_now_quiet [of S p "(pp_socketWriter p)\<lparr>pw_writeNowTimeout := False\<rparr>"]
  by (auto simp: pp_onWriteTimeout_def pw_onWriteTimeout_def endpoint_ok_def writer_ok_def)

text \<open>The number of the last acknowledgement may be brought up to date at any time.\<close>

lemma set_ackId_quiet: "endpoint_ok S p \<Longrightarrow> quiet S p (p\<lparr>pp_incomingAckId := pp_incomingMsgId p\<rparr>)"
  by (auto simp: quiet_def endpoint_ok_def queue_ok_def writer_ok_def ack_ok_def same_books_def intro: exI [of _ "[]"])

lemma good_ack: "endpoint_ok S p \<Longrightarrow> t \<noteq> Regular \<Longrightarrow> (\<And>n. t \<noteq> OtherType n) \<Longrightarrow>
    a \<le> pp_incomingMsgId p \<Longrightarrow> good S (pp_incomingMsgId p) (ProtocolMessage t 0 a [])"
  by (rule good_control) (simp_all add: endpoint_ok_def)

lemma write_ack_quiet:
  assumes "endpoint_ok S p" and "t \<noteq> Regular" "\<And>n. t \<noteq> OtherType n" and "p1 = p\<lparr>pp_incomingAckId := pp_incomingMsgId p\<rparr>"
  shows "quiet S p (pp_write now (ProtocolMessage t 0 (pp_incomingAckId p1) []) p1)"
proof -
  have q: "quiet S p p1" unfolding assms(4) by (rule set_ackId_quiet [OF assms(1)])
  moreover have "good S (pp_incomingMsgId p1) (ProtocolMessage t 0 (pp_incomingAckId p1) [])"
    using good_ack [OF quiet_endpoint [OF q] assms(2,3), of "pp_incomingAckId p1"] assms(4) by simp
  ultimately show ?thesis
    using pp_write_quiet quiet_endpoint quiet_trans by blast
qed

lemma pp_sendAck_quiet:
  assumes "endpoint_ok S p"
  shows "quiet S p (pp_sendAck now p)"
  using write_ack_quiet [OF assms, of AckType] quiet_refl [OF assms]
  by (simp add: pp_sendAck_def Let_def)

text \<open>\<open>_sendAckCheck\<close> sets the timer again where it is missing.\<close>

definition timer_missing :: "vs_buffer list \<Rightarrow> persistent_protocol \<Rightarrow> bool" where
  "timer_missing S p \<longleftrightarrow> bounded_sends S \<and> pp_incomingMsgId p < 4294967296 \<and> queue_ok S p \<and> writer_ok S p \<and>
     pp_incomingAckId p \<le> pp_incomingMsgId p \<and> be_inv (pp_onMessage p)"

lemma pp_sendAckCheck_ok:
  assumes "timer_missing S p"
  shows "quiet S p (pp_sendAckCheck now p)"
proof -
  let ?late = "now - pp_incomingMsgLastTime p \<ge> AcknowledgeTime"
  consider (idle) "pp_incomingMsgId p \<le> pp_incomingAckId p \<or> pp_incomingAckTimeout p \<noteq> None"
    | (send) "\<not> pp_incomingMsgId p \<le> pp_incomingAckId p" "pp_incomingAckTimeout p = None" ?late
    | (wait) "\<not> pp_incomingMsgId p \<le> pp_incomingAckId p" "pp_incomingAckTimeout p = None" "\<not> ?late"
    by blast
  then show ?thesis
  proof cases
    case idle
    with assms have "endpoint_ok S p" by (auto simp: endpoint_ok_def timer_missing_def ack_ok_def)
    moreover have "pp_sendAckCheck now p = p" using idle by (auto simp: pp_sendAckCheck_def)
    ultimately show ?thesis by (simp add: quiet_refl)
  next
    case send
    let ?p = "p\<lparr>pp_incomingAckId := pp_incomingMsgId p\<rparr>"
    have ok: "endpoint_ok S ?p"
      using assms by (auto simp: endpoint_ok_def timer_missing_def ack_ok_def queue_ok_def writer_ok_def)
    have "pp_sendAckCheck now p = pp_write now (ProtocolMessage AckType 0 (pp_incomingMsgId p) []) ?p"
      using send by (simp add: pp_sendAckCheck_def pp_sendAck_def Let_def)
    moreover have "quiet S ?p (pp_write now (ProtocolMessage AckType 0 (pp_incomingMsgId p) []) ?p)"
      by (intro pp_write_quiet [OF ok] good_ack [OF ok]) simp_all
    ultimately show ?thesis
      using quiet_from [of S ?p _ p] by (simp add: same_books_def)
  next
    case wait
    then obtain t where "pp_sendAckCheck now p = p\<lparr>pp_incomingAckTimeout := Some t\<rparr>"
      by (simp add: pp_sendAckCheck_def Let_def)
    with assms show ?thesis
      by (auto simp: quiet_def endpoint_ok_def timer_missing_def ack_ok_def queue_ok_def writer_ok_def same_books_def
          intro: exI [of _ "[]"])
  qed
qed

lemma pp_onIncomingAckTimeout_quiet:
  assumes "endpoint_ok S p"
  shows "quiet S p (pp_onIncomingAckTimeout now p)"
proof -
  have "timer_missing S (p\<lparr>pp_incomingAckTimeout := None\<rparr>)"
    using assms by (auto simp: timer_missing_def endpoint_ok_def ack_ok_def queue_ok_def writer_ok_def)
  from pp_sendAckCheck_ok [OF this, of now] show ?thesis
    unfolding pp_onIncomingAckTimeout_def by (rule quiet_from) (simp_all add: same_books_def)
qed

lemma queue_ok_peek:
  assumes "queue_ok S p" and "pp_outgoingAckId p < pp_outgoingMsgId p"
  shows "\<exists>m. Queue_peek (pp_outgoingUnackMsg p) = Some m"
proof -
  obtain ms where ms: "queue_rep (pp_outgoingUnackMsg p) ms" "map pm_id ms = [Suc (pp_outgoingAckId p)..<Suc (length S)]"
    "pp_outgoingMsgId p = length S"
    using assms(1) unfolding queue_ok_def by blast
  with assms(2) have "ms \<noteq> []" by auto
  with mq.peek_hd [OF ms(1)] show ?thesis by (cases ms) auto
qed

lemma queue_ok_length: "queue_ok S p \<Longrightarrow> \<exists>n. Queue_length (pp_outgoingUnackMsg p) = Inr n"
  unfolding queue_ok_def using mq.count_rep by blast

lemma pp_recvAckCheck_quiet:
  assumes ok: "endpoint_ok S p"
  shows "\<exists>p'. pp_recvAckCheck now hl p = Inr p' \<and> quiet S p p'"
proof -
  have q: "queue_ok S p" using ok by (simp add: endpoint_ok_def)
  show ?thesis
  proof (cases "pp_outgoingMsgId p \<le> pp_outgoingAckId p \<or> pp_outgoingAckTimeout p \<noteq> None \<or> pp_isReconnecting p")
    case True
    with quiet_refl [OF ok] show ?thesis by (auto simp: pp_recvAckCheck_def)
  next
    case False
    then obtain m n where m: "Queue_peek (pp_outgoingUnackMsg p) = Some m" and n: "Queue_length (pp_outgoingUnackMsg p) = Inr n"
      using queue_ok_peek [OF q] queue_ok_length [OF q] by auto
    have "quiet S p (p\<lparr>pp_lastSocketTimeoutTime := a, pp_onSocketTimeout := e\<rparr>)" "quiet S p (p\<lparr>pp_outgoingAckTimeout := t\<rparr>)" for a e t
      using ok by (auto intro!: quiet_fields [OF ok] simp: same_books_def endpoint_ok_def)
    with False m n show ?thesis by (auto simp: pp_recvAckCheck_def Let_def)
  qed
qed

lemma pp_onOutgoingAckTimeout_quiet:
  assumes "endpoint_ok S p"
  shows "\<exists>p'. pp_onOutgoingAckTimeout now hl p = Inr p' \<and> quiet S p p'"
proof -
  have q: "quiet S p (p\<lparr>pp_outgoingAckTimeout := None\<rparr>)"
    using assms by (auto intro!: quiet_fields [OF assms] simp: same_books_def endpoint_ok_def)
  from pp_recvAckCheck_quiet [OF quiet_endpoint [OF q], of now hl] q show ?thesis
    unfolding pp_onOutgoingAckTimeout_def using quiet_trans by blast
qed

lemma pp_keepAliveTimeoutCheck_quiet:
  assumes ok: "endpoint_ok S p"
  shows "\<exists>p'. pp_keepAliveTimeoutCheck now hl p = Inr p' \<and> quiet S p p'"
proof -
  obtain n where n: "Queue_length (pp_outgoingUnackMsg p) = Inr n"
    using ok queue_ok_length by (auto simp: endpoint_ok_def)
  have "quiet S p (p\<lparr>pp_lastSocketTimeoutTime := a, pp_onSocketTimeout := e\<rparr>)" for a e
    using ok by (auto intro!: quiet_fields [OF ok] simp: same_books_def endpoint_ok_def)
  with n quiet_refl [OF ok] show ?thesis by (auto simp: pp_keepAliveTimeoutCheck_def Let_def)
qed

lemma pp_sendKeepAlive_quiet:
  assumes ok: "endpoint_ok S p"
  shows "\<exists>p'. pp_sendKeepAlive now hl p = Inr p' \<and> quiet S p p'"
proof -
  let ?p = "p\<lparr>pp_incomingAckId := pp_incomingMsgId p\<rparr>"
  have q: "quiet S p (pp_write now (ProtocolMessage KeepAlive 0 (pp_incomingAckId ?p) []) ?p)"
    by (rule write_ack_quiet [OF ok]) simp_all
  from pp_keepAliveTimeoutCheck_quiet [OF quiet_endpoint [OF q], of now hl] q show ?thesis
    unfolding pp_sendKeepAlive_def Let_def using quiet_trans by blast
qed

lemma pp_replay_quiet:
  assumes ok: "endpoint_ok S p"
  shows "\<exists>p'. pp_replay now hl p = Inr p' \<and> quiet S p p'"
proof -
  obtain ms where ms: "queue_rep (pp_outgoingUnackMsg p) ms" "\<forall>m \<in> set ms. good S (pp_incomingMsgId p) m"
    using ok unfolding endpoint_ok_def queue_ok_def by blast
  have q: "quiet S p (fold (pp_write now) ms p)" by (rule pp_write_all_quiet [OF ok ms(2)])
  from pp_recvAckCheck_quiet [OF quiet_endpoint [OF q], of now hl] q mq.toArray_rep [OF ms(1)] show ?thesis
    unfolding pp_replay_def using quiet_trans by auto
qed

lemma pp_endAcceptReconnection_quiet:
  assumes ok: "endpoint_ok S p"
  shows "\<exists>p'. pp_endAcceptReconnection now hl p = Inr p' \<and> quiet S p p'"
proof -
  let ?start = "p\<lparr>pp_isReconnecting := False\<rparr>"
  have q0: "quiet S p ?start"
    using ok by (auto intro!: quiet_fields [OF ok] simp: same_books_def endpoint_ok_def)
  let ?p = "?start\<lparr>pp_incomingAckId := pp_incomingMsgId ?start\<rparr>"
  have q: "quiet S ?start (pp_write now (ProtocolMessage AckType 0 (pp_incomingAckId ?p) []) ?p)"
    by (rule write_ack_quiet [where p = ?start, OF quiet_endpoint [OF q0]]) simp_all
  from pp_replay_quiet [OF quiet_endpoint [OF q], of now hl] q q0 show ?thesis
    unfolding pp_endAcceptReconnection_def Let_def using quiet_trans by blast
qed

lemma queue_ok_push:
  assumes "queue_ok S p" and "good (S @ [b]) (pp_incomingMsgId p) (ProtocolMessage Regular (Suc (length S)) a b)"
    and "pp_outgoingAckId p \<le> length S"
    and "pp_outgoingMsgId p' = Suc (pp_outgoingMsgId p)" "pp_outgoingAckId p' = pp_outgoingAckId p"
      "pp_incomingMsgId p' = pp_incomingMsgId p"
      "pp_outgoingUnackMsg p' = Queue_push (ProtocolMessage Regular (Suc (length S)) a b) (pp_outgoingUnackMsg p)"
  shows "queue_ok (S @ [b]) p'"
proof -
  obtain ms where ms: "queue_rep (pp_outgoingUnackMsg p) ms" "pp_outgoingMsgId p = length S"
    "map pm_id ms = [Suc (pp_outgoingAckId p)..<Suc (length S)]"
    "\<forall>m \<in> set ms. pm_type m = Regular \<and> good S (pp_incomingMsgId p) m"
    using assms(1) unfolding queue_ok_def by blast
  let ?ms = "ms @ [ProtocolMessage Regular (Suc (length S)) a b]"
  have "queue_rep (pp_outgoingUnackMsg p') ?ms" unfolding assms(7) by (rule mq.rep_push [OF ms(1)])
  moreover have "map pm_id ?ms = [Suc (pp_outgoingAckId p')..<Suc (length (S @ [b]))]"
    using ms(3) assms(3,5) by (simp add: ProtocolMessage_def)
  moreover have "\<forall>m \<in> set ?ms. pm_type m = Regular \<and> good (S @ [b]) (pp_incomingMsgId p') m"
    using ms(4) assms(2,6) good_mono by (auto simp: ProtocolMessage_def)
  moreover have "pp_outgoingMsgId p' = length (S @ [b])" using ms(2) assms(4) by simp
  ultimately show ?thesis unfolding queue_ok_def by blast
qed

lemma writer_ok_mono:
  "writer_ok S p \<Longrightarrow> pp_socketWriter p' = pp_socketWriter p \<Longrightarrow> pp_incomingMsgId p \<le> pp_incomingMsgId p' \<Longrightarrow>
     writer_ok (S @ T) p'"
  unfolding writer_ok_def using good_mono by fastforce

lemma pp_send_quiet:
  assumes ok: "endpoint_ok S p" and acked: "pp_outgoingAckId p \<le> length S" and bound: "bounded_sends (S @ [b])"
  shows "\<exists>p'. pp_send now hl b p = Inr p' \<and> quiet (S @ [b]) p p'"
proof -
  let ?m = "ProtocolMessage Regular (Suc (length S)) (pp_incomingMsgId p) b"
  define p1 where "p1 = p\<lparr>pp_outgoingMsgId := Suc (length S), pp_incomingAckId := pp_incomingMsgId p,
    pp_outgoingUnackMsg := Queue_push ?m (pp_outgoingUnackMsg p), pp_writtenTime := (pp_writtenTime p)(Suc (length S) := 0)\<rparr>"
  have n: "pp_outgoingMsgId p = length S" using ok by (simp add: endpoint_ok_def queue_ok_def)
  have good: "good (S @ [b]) (pp_incomingMsgId p) ?m"
    using bound ok by (simp add: good_def sendable_def ProtocolMessage_def bounded_sends_def type_of_code_def endpoint_ok_def)
  have "queue_ok (S @ [b]) p1"
    using ok good acked n by (intro queue_ok_push [of S p b "pp_incomingMsgId p"]) (simp_all add: p1_def endpoint_ok_def)
  moreover have "writer_ok (S @ [b]) p1"
    using ok by (intro writer_ok_mono [of S p]) (simp_all add: p1_def endpoint_ok_def)
  ultimately have "endpoint_ok (S @ [b]) p1"
    using ok bound by (simp add: endpoint_ok_def ack_ok_def p1_def)
  then have q1: "quiet (S @ [b]) p p1"
    unfolding quiet_def by (auto simp: same_books_def p1_def intro: exI [of _ "[]"])
  have run: "pp_send now hl b p = (if pp_isReconnecting p then Inr p1 else pp_recvAckCheck now hl (pp_write now ?m p1))"
    by (simp add: pp_send_def Let_def p1_def n)
  have q2: "quiet (S @ [b]) p1 (pp_write now ?m p1)"
    using good by (intro pp_write_quiet [OF quiet_endpoint [OF q1]]) (simp add: p1_def)
  show ?thesis
    using run q1 quiet_trans [OF quiet_trans [OF q1 q2]] pp_recvAckCheck_quiet [OF quiet_endpoint [OF q2], of now hl]
    by (cases "pp_isReconnecting p") auto
qed

subsection \<open>Receiving keeps the invariant\<close>

lemma pop_acked_ok:
  "queue_rep q ms \<Longrightarrow> length ms < fuel \<Longrightarrow>
     \<exists>q'. pop_acked fuel ack q = Inr q' \<and> queue_rep q' (dropWhile (\<lambda>m. pm_id m \<le> ack) ms)"
proof (induction fuel arbitrary: q ms)
  case (Suc fuel)
  show ?case
  proof (cases ms)
    case Nil
    with mq.peek_hd [OF Suc.prems(1)] Suc.prems(1) show ?thesis by auto
  next
    case (Cons m ms')
    have "queue_rep (Queue_pop q) ms'" using mq.rep_pop [OF Suc.prems(1)] Cons by simp
    with Suc.IH [of "Queue_pop q" ms'] mq.peek_hd [OF Suc.prems(1)] Suc.prems Cons show ?thesis by auto
  qed
qed simp

lemma dropWhile_le_upt: "a \<le> c \<Longrightarrow> dropWhile (\<lambda>i. i \<le> c) [Suc a..<n] = [Suc c..<n]"
proof (induction "c - a" arbitrary: a)
  case 0
  then show ?case by (cases "Suc a < n") (simp_all add: upt_conv_Cons)
next
  case (Suc k)
  then show ?case by (cases "Suc a < n") (simp_all add: upt_conv_Cons)
qed

lemma queue_rep_bound: "queue_rep q ms \<Longrightarrow> length ms \<le> q_created q"
  unfolding queue_rep_def using chain_length distinct_bounded_length by metis

lemma pp_acceptAck_ok:
  assumes ok: "endpoint_ok S p"
  shows "\<exists>q. pp_acceptAck ack p =
      Inr (p\<lparr>pp_outgoingAckId := max (pp_outgoingAckId p) ack, pp_outgoingUnackMsg := q\<rparr>) \<and>
    endpoint_ok S (p\<lparr>pp_outgoingAckId := max (pp_outgoingAckId p) ack, pp_outgoingUnackMsg := q\<rparr>)"
proof (cases "ack > pp_outgoingAckId p")
  case False
  then have "max (pp_outgoingAckId p) ack = pp_outgoingAckId p" by simp
  with False ok show ?thesis by (intro exI [of _ "pp_outgoingUnackMsg p"]) (simp add: pp_acceptAck_def)
next
  case True
  obtain ms where ms: "queue_rep (pp_outgoingUnackMsg p) ms" "pp_outgoingMsgId p = length S"
    "map pm_id ms = [Suc (pp_outgoingAckId p)..<Suc (length S)]"
    "\<forall>m \<in> set ms. pm_type m = Regular \<and> good S (pp_incomingMsgId p) m"
    using ok unfolding endpoint_ok_def queue_ok_def by blast
  obtain q where q: "pop_acked (Suc (q_created (pp_outgoingUnackMsg p))) ack (pp_outgoingUnackMsg p) = Inr q"
    "queue_rep q (dropWhile (\<lambda>m. pm_id m \<le> ack) ms)"
    using pop_acked_ok [OF ms(1)] queue_rep_bound [OF ms(1)] by (metis le_imp_less_Suc)
  let ?p = "p\<lparr>pp_outgoingAckId := max (pp_outgoingAckId p) ack, pp_outgoingUnackMsg := q\<rparr>"
  have "map pm_id (dropWhile (\<lambda>m. pm_id m \<le> ack) ms) = dropWhile (\<lambda>i. i \<le> ack) (map pm_id ms)"
    by (simp add: dropWhile_map comp_def)
  then have ids: "map pm_id (dropWhile (\<lambda>m. pm_id m \<le> ack) ms) = [Suc (pp_outgoingAckId ?p)..<Suc (length S)]"
    unfolding ms(3) using True dropWhile_le_upt [of "pp_outgoingAckId p" ack "Suc (length S)"] by simp
  have "queue_ok S ?p"
    unfolding queue_ok_def
  proof (intro conjI exI [of _ "dropWhile (\<lambda>m. pm_id m \<le> ack) ms"])
    show "\<forall>m \<in> set (dropWhile (\<lambda>m. pm_id m \<le> ack) ms). pm_type m = Regular \<and> good S (pp_incomingMsgId ?p) m"
      using ms(4) by (auto dest: set_dropWhileD)
  qed (use q(2) ms(2) ids in simp_all)
  then have "endpoint_ok S ?p"
    using ok by (simp add: endpoint_ok_def writer_ok_def ack_ok_def)
  with q(1) True show ?thesis by (auto simp: pp_acceptAck_def)
qed

text \<open>What receiving a message does to the books of an endpoint.\<close>

definition accepted :: "protocol_message \<Rightarrow> persistent_protocol \<Rightarrow> bool" where
  "accepted m p \<longleftrightarrow> pm_type m = Regular \<and> pm_id m = Suc (pp_incomingMsgId p)"

definition received :: "protocol_message \<Rightarrow> persistent_protocol \<Rightarrow> persistent_protocol \<Rightarrow> bool" where
  "received m p p' \<longleftrightarrow> pp_socket p' = pp_socket p \<and> pp_closedSockets p' = pp_closedSockets p \<and>
     pp_socketReader p' = pp_socketReader p \<and> pw_sent (pp_socketWriter p') = pw_sent (pp_socketWriter p) \<and>
     pp_outgoingAckId p' = max (pp_outgoingAckId p) (pm_ack m) \<and>
     pp_incomingMsgId p' = (if accepted m p then pm_id m else pp_incomingMsgId p) \<and>
     be_events (pp_onMessage p') = be_events (pp_onMessage p) @ (if accepted m p then [pm_data m] else [])"

lemma pp_sendAck_sent [simp]: "pw_sent (pp_socketWriter (pp_sendAckCheck now p)) = pw_sent (pp_socketWriter p)"
  by (simp add: pp_sendAckCheck_def pp_sendAck_def pp_write_def Let_def)

lemma pp_receiveRegular_ok:
  assumes ok: "endpoint_ok S p" and m: "sendable m" "pm_type m = Regular" and ack: "pm_ack m \<le> pp_outgoingAckId p"
  shows "endpoint_ok S (pp_receiveRegular now m p) \<and> received m p (pp_receiveRegular now m p)"
proof -
  consider (old) "pm_id m \<le> pp_incomingMsgId p" | (gap) "pm_id m > Suc (pp_incomingMsgId p)"
    | (following) "pm_id m = Suc (pp_incomingMsgId p)"
    by linarith
  then show ?thesis
  proof cases
    case old
    with ok ack show ?thesis by (simp add: pp_receiveRegular_def received_def accepted_def max_absorb1)
  next
    case gap
    let ?p = "p\<lparr>pp_lastReplayRequestTime := now\<rparr>" and ?r = "ProtocolMessage ReplayRequest 0 0 []"
    have "quiet S p ?p"
      using ok by (auto intro!: quiet_fields [OF ok] simp: same_books_def endpoint_ok_def)
    then have ok': "endpoint_ok S ?p" by (rule quiet_endpoint)
    then have "endpoint_ok S (pp_write now ?r ?p)"
      by (intro quiet_endpoint [OF pp_write_quiet] good_ack) simp_all
    moreover have "received m p (pp_write now ?r ?p)" "received m p p"
      using gap ack by (simp_all add: received_def accepted_def max_absorb1 pp_write_def)
    moreover have "pp_receiveRegular now m p = (if now - pp_lastReplayRequestTime p > 10000 then pp_write now ?r ?p else p)"
      using gap by (simp add: pp_receiveRegular_def)
    ultimately show ?thesis using ok by simp
  next
    case following
    define p1 where "p1 = p\<lparr>pp_incomingMsgId := pm_id m, pp_incomingMsgLastTime := now\<rparr>"
    have le: "pp_incomingMsgId p \<le> pp_incomingMsgId p1" using following by (simp add: p1_def)
    have "queue_ok S p1"
      using ok good_mono_received [OF _ le] unfolding endpoint_ok_def queue_ok_def by (fastforce simp: p1_def)
    moreover have "writer_ok S p1"
      using ok writer_ok_mono [of S p p1 "[]"] le by (simp add: endpoint_ok_def p1_def)
    ultimately have "timer_missing S p1"
      using ok m(1) following by (simp add: timer_missing_def endpoint_ok_def ack_ok_def sendable_def p1_def)
    then have q: "quiet S p1 (pp_sendAckCheck now p1)" by (rule pp_sendAckCheck_ok)
    let ?p = "pp_sendAckCheck now p1"
    have run: "pp_receiveRegular now m p = ?p\<lparr>pp_onMessage := be_fire (pm_data m) (pp_onMessage ?p)\<rparr>"
      using following by (simp add: pp_receiveRegular_def Let_def p1_def)
    have "endpoint_ok S (?p\<lparr>pp_onMessage := be_fire (pm_data m) (pp_onMessage ?p)\<rparr>)"
      using quiet_endpoint [OF q] by (simp add: endpoint_ok_def queue_ok_def writer_ok_def ack_ok_def)
    moreover have "received m p (?p\<lparr>pp_onMessage := be_fire (pm_data m) (pp_onMessage ?p)\<rparr>)"
      using q following m(2) ack by (simp add: received_def accepted_def quiet_def same_books_def p1_def max_absorb1)
    ultimately show ?thesis unfolding run by blast
  qed
qed

lemma pp_recvAckCheck_sent:
  "pp_recvAckCheck now hl p = Inr p' \<Longrightarrow> pw_sent (pp_socketWriter p') = pw_sent (pp_socketWriter p)"
  by (auto simp: pp_recvAckCheck_def Let_def bind_result_Inr_iff split: if_splits option.splits)

lemma pp_write_all_sent [simp]: "pw_sent (pp_socketWriter (fold (pp_write now) ms p)) = pw_sent (pp_socketWriter p)"
  by (induction ms arbitrary: p) (simp_all add: pp_write_def)

lemma pp_receiveMessage_ok:
  assumes ok: "endpoint_ok S p" and m: "sendable m"
  shows "\<exists>p'. pp_receiveMessage now hl m p = Inr p' \<and> endpoint_ok S p' \<and> received m p p'"
proof -
  obtain q where ack: "pp_acceptAck (pm_ack m) p =
      Inr (p\<lparr>pp_outgoingAckId := max (pp_outgoingAckId p) (pm_ack m), pp_outgoingUnackMsg := q\<rparr>)"
    "endpoint_ok S (p\<lparr>pp_outgoingAckId := max (pp_outgoingAckId p) (pm_ack m), pp_outgoingUnackMsg := q\<rparr>)"
    using pp_acceptAck_ok [OF ok] by blast
  define p1 where "p1 = p\<lparr>pp_outgoingAckId := max (pp_outgoingAckId p) (pm_ack m), pp_outgoingUnackMsg := q\<rparr>"
  have ok1: "endpoint_ok S p1" using ack(2) by (simp add: p1_def)
  have books: "received m p p'" if "received m p1 p'" for p'
    using that by (simp add: received_def p1_def accepted_def)
  have other: "received m p1 p'" if "pm_type m \<noteq> Regular" "same_books p1 p'"
    "pw_sent (pp_socketWriter p') = pw_sent (pp_socketWriter p1)" for p'
    using that by (simp add: received_def same_books_def accepted_def p1_def)
  have unchanged: "endpoint_ok S p'" if "pp_outgoingMsgId p' = pp_outgoingMsgId p1" "pp_outgoingUnackMsg p' = pp_outgoingUnackMsg p1"
      "pp_socketWriter p' = pp_socketWriter p1" "pp_incomingAckId p' = pp_incomingAckId p1"
      "pp_incomingAckTimeout p' = pp_incomingAckTimeout p1" "pp_onMessage p' = pp_onMessage p1" "same_books p1 p'" for p'
    using quiet_endpoint [OF quiet_fields [OF ok1 that(1-5) _ that(7)]] ok1 that(6) by (simp add: endpoint_ok_def)
  have writer: "endpoint_ok S (p1\<lparr>pp_socketWriter := w\<rparr>)" if "pw_data w = pw_data (pp_socketWriter p1)"
      "pw_totalLength w = pw_totalLength (pp_socketWriter p1)" "pw_isDisposed w = pw_isDisposed (pp_socketWriter p1)" for w
    using ok1 that by (simp add: endpoint_ok_def queue_ok_def writer_ok_def ack_ok_def pw_inv_def)
  show ?thesis
  proof (cases "pm_type m")
    case Regular
    have "pm_ack m \<le> pp_outgoingAckId p1" by (simp add: p1_def)
    from pp_receiveRegular_ok [OF ok1 m Regular this, of now] books show ?thesis
      using Regular ack(1) by (auto simp: pp_receiveMessage_def p1_def)
  next
    case ReplayRequest
    obtain p' where p': "pp_replay now hl p1 = Inr p'" "quiet S p1 p'" using pp_replay_quiet [OF ok1] by blast
    have "pw_sent (pp_socketWriter p') = pw_sent (pp_socketWriter p1)"
      using p'(1) pp_recvAckCheck_sent by (fastforce simp: pp_replay_def bind_result_Inr_iff)
    with p'(2) ReplayRequest have "received m p p'" by (intro books other) (simp_all add: quiet_def)
    with p' quiet_endpoint ReplayRequest ack(1) show ?thesis
      by (auto simp: pp_receiveMessage_def p1_def)
  next
    case Pause
    have "received m p (p1\<lparr>pp_socketWriter := pw_pause (pp_socketWriter p1)\<rparr>)"
      using Pause by (intro books other) (simp_all add: same_books_def pw_pause_def)
    with writer [of "pw_pause (pp_socketWriter p1)"] Pause ack(1) show ?thesis
      by (auto simp: pp_receiveMessage_def p1_def pw_pause_def)
  next
    case Resume
    have "received m p (p1\<lparr>pp_socketWriter := pw_resume (pp_socketWriter p1)\<rparr>)"
      using Resume by (intro books other) (simp_all add: same_books_def pw_resume_def)
    with writer [of "pw_resume (pp_socketWriter p1)"] Resume ack(1) show ?thesis
      by (auto simp: pp_receiveMessage_def p1_def pw_resume_def)
  next
    case Control
    let ?p = "p1\<lparr>pp_onControlMessage := be_fire (pm_data m) (pp_onControlMessage p1)\<rparr>"
    have "endpoint_ok S ?p" by (rule unchanged) (simp_all add: same_books_def)
    moreover have "received m p ?p" using Control by (intro books other) (simp_all add: same_books_def)
    ultimately show ?thesis using Control ack(1) by (auto simp: pp_receiveMessage_def p1_def)
  next
    case Disconnect
    let ?p = "p1\<lparr>pp_onDidDispose := be_fire () (pp_onDidDispose p1)\<rparr>"
    have "endpoint_ok S ?p" by (rule unchanged) (simp_all add: same_books_def)
    moreover have "received m p ?p" using Disconnect by (intro books other) (simp_all add: same_books_def)
    ultimately show ?thesis using Disconnect ack(1) by (auto simp: pp_receiveMessage_def p1_def)
  qed (use ok1 ack(1) books other [of p1] in \<open>auto simp: pp_receiveMessage_def p1_def [symmetric] same_books_def\<close>)
qed

end
