(* ===== verification/ProtocolNetwork.thy ===== *)
theory ProtocolNetwork
  imports PersistentProtocol
begin

section \<open>Two ends of a persistent connection\<close>

text \<open>
  Two endpoints of \<open>PersistentProtocol\<close> and the sockets between them. A socket carries the bytes that one
  end writes to the other end, in order, in chunks of any size; it may be given up at any time by either
  end, which then goes on with a new socket. Each end may run any of its handlers at any time, and the
  turns of the loop that reads messages may be interleaved with other handlers, as they are when a
  listener answers a message at once. The ends are told apart by a \<open>bool\<close>.
\<close>

record network =
  ends :: "bool \<Rightarrow> persistent_protocol"
  taken :: "bool \<Rightarrow> nat"
  sends :: "bool \<Rightarrow> vs_buffer list"

text \<open>What an endpoint has written to a socket.\<close>

definition out_bytes :: "persistent_protocol \<Rightarrow> nat \<Rightarrow> vs_buffer" where
  "out_bytes p n = (if n = pp_socket p then pw_sent (pp_socketWriter p)
     else case pp_closedSockets p n of None \<Rightarrow> [] | Some b \<Rightarrow> b)"

text \<open>The handlers of an endpoint that neither send a regular message nor receive anything.\<close>

inductive local_step :: "persistent_protocol \<Rightarrow> persistent_protocol \<Rightarrow> bool" where
  flush: "pp_flush p = Inr p' \<Longrightarrow> local_step p p'"
| writeTimeout: "pp_onWriteTimeout p = Inr p' \<Longrightarrow> local_step p p'"
| sendDisconnect: "pp_sendDisconnect now p = Inr p' \<Longrightarrow> local_step p p'"
| sendPause: "local_step p (pp_sendPause now p)"
| sendResume: "local_step p (pp_sendResume now p)"
| pauseSocketWriting: "local_step p (pp_pauseSocketWriting p)"
| sendControl: "length b < 4294967296 \<Longrightarrow> local_step p (pp_sendControl now b p)"
| incomingAckTimeout: "local_step p (pp_onIncomingAckTimeout now p)"
| outgoingAckTimeout: "pp_onOutgoingAckTimeout now hl p = Inr p' \<Longrightarrow> local_step p p'"
| sendKeepAlive: "pp_sendKeepAlive now hl p = Inr p' \<Longrightarrow> local_step p p'"
| endAcceptReconnection: "pp_endAcceptReconnection now hl p = Inr p' \<Longrightarrow> local_step p p'"
| acceptDisconnect: "local_step p (pp_acceptDisconnect p)"
| onClose: "local_step p (pp_onClose ev p)"
| addListener: "local_step p (p\<lparr>pp_onMessage := be_onWillAddFirstListener (pp_onMessage p)\<rparr>)"
| removeListener: "local_step p (p\<lparr>pp_onMessage := be_onDidRemoveLastListener (pp_onMessage p)\<rparr>)"
| microtask: "local_step p (p\<lparr>pp_onMessage := be_runMicrotask stays (pp_onMessage p)\<rparr>)"

definition with_end :: "bool \<Rightarrow> persistent_protocol \<Rightarrow> network \<Rightarrow> network" where
  "with_end e p s = s\<lparr>ends := (ends s)(e := p)\<rparr>"

inductive net_step :: "network \<Rightarrow> network \<Rightarrow> bool" where
  local: "local_step (ends s e) p \<Longrightarrow> net_step s (with_end e p s)"
| send: "pp_send now hl b (ends s e) = Inr p \<Longrightarrow> bounded_sends (sends s e @ [b]) \<Longrightarrow>
    net_step s ((with_end e p s)\<lparr>sends := (sends s)(e := sends s e @ [b])\<rparr>)"
| arrive: "chunk \<noteq> [] \<Longrightarrow> drop (taken s e) (out_bytes (ends s (\<not> e)) (pp_socket (ends s e))) = chunk @ rest \<Longrightarrow>
    net_step s ((with_end e (pp_arrive now chunk (ends s e)) s)\<lparr>taken := (taken s)(e := taken s e + length chunk)\<rparr>)"
| iterate: "pr_ready (pp_socketReader (ends s e)) \<Longrightarrow> pp_iterate now hl (ends s e) = Inr p \<Longrightarrow>
    net_step s (with_end e p s)"
| switch: "n \<noteq> pp_socket (ends s e) \<Longrightarrow> pp_closedSockets (ends s e) n = None \<Longrightarrow>
    net_step s ((with_end e (pp_switchSocket now n (ends s e)) s)\<lparr>taken := (taken s)(e := 0)\<rparr>)"

inductive net_reachable :: "network \<Rightarrow> bool" where
  start: "net_reachable \<lparr>ends = (\<lambda>e. mk_PersistentProtocol (t e) 0 (k e)), taken = (\<lambda>_. 0), sends = (\<lambda>_. [])\<rparr>"
| step: "net_reachable s \<Longrightarrow> net_step s s' \<Longrightarrow> net_reachable s'"

subsection \<open>The invariant\<close>

text \<open>
  One direction of the connection, from \<open>p\<close>, which was given the buffers \<open>S\<close>, to \<open>q\<close>, which has taken \<open>t\<close>
  bytes from its socket: everything that is under way is good, the acknowledged messages were received,
  and the received ones are the first ones of \<open>S\<close>.
\<close>

definition stream_ok :: "vs_buffer list \<Rightarrow> persistent_protocol \<Rightarrow> bool" where
  "stream_ok S p \<longleftrightarrow>
     (\<forall>n. \<exists>ms. out_bytes p n = concat (map encode ms) \<and> (\<forall>m \<in> set ms. good S (pp_incomingMsgId p) m))"

definition link :: "vs_buffer list \<Rightarrow> persistent_protocol \<Rightarrow> persistent_protocol \<Rightarrow> nat \<Rightarrow> bool" where
  "link S p q t \<longleftrightarrow> pp_outgoingAckId p \<le> pp_incomingMsgId q \<and> pp_incomingMsgId q \<le> length S \<and>
     be_events (pp_onMessage q) = take (pp_incomingMsgId q) S \<and> stream_ok S p \<and>
     t \<le> length (out_bytes p (pp_socket q)) \<and>
     (\<exists>ms. expects (pp_socketReader q) (drop t (out_bytes p (pp_socket q))) ms \<and>
        (\<forall>m \<in> set ms. good S (pp_incomingMsgId p) m))"

definition net_inv :: "network \<Rightarrow> bool" where
  "net_inv s \<longleftrightarrow> (\<forall>e. endpoint_ok (sends s e) (ends s e) \<and> link (sends s e) (ends s e) (ends s (\<not> e)) (taken s (\<not> e)))"

lemma expects_more_list: "expects r bs ms \<Longrightarrow> expects r (bs @ concat (map encode ns)) (ms @ ns)"
proof (induction ns arbitrary: bs ms)
  case (Cons n ns)
  from Cons.IH [OF expects_more [OF Cons.prems, of n]] show ?case by simp
qed simp

text \<open>The sender moves.\<close>

definition extends :: "vs_buffer list \<Rightarrow> persistent_protocol \<Rightarrow> persistent_protocol \<Rightarrow> bool" where
  "extends S p p' \<longleftrightarrow>
     (\<forall>n. \<exists>ms. out_bytes p' n = out_bytes p n @ concat (map encode ms) \<and> (\<forall>m \<in> set ms. good S (pp_incomingMsgId p') m))"

lemma link_sender:
  assumes "link S p q t" and ext: "extends (S @ T) p p'" and le: "pp_incomingMsgId p \<le> pp_incomingMsgId p'"
    and ack: "pp_outgoingAckId p' \<le> pp_incomingMsgId q"
  shows "link (S @ T) p' q t"
proof -
  note l = assms(1) [unfolded link_def]
  have mono: "good (S @ T) (pp_incomingMsgId p') m" if "good S (pp_incomingMsgId p) m" for m
    using that le by (rule good_mono)
  have "stream_ok (S @ T) p'"
    unfolding stream_ok_def
  proof
    fix n
    obtain ms where ms: "out_bytes p n = concat (map encode ms)" "\<forall>m \<in> set ms. good S (pp_incomingMsgId p) m"
      using l unfolding stream_ok_def by blast
    obtain ns where ns: "out_bytes p' n = out_bytes p n @ concat (map encode ns)" "\<forall>m \<in> set ns. good (S @ T) (pp_incomingMsgId p') m"
      using ext unfolding extends_def by blast
    from ms ns mono show "\<exists>ms. out_bytes p' n = concat (map encode ms) \<and> (\<forall>m \<in> set ms. good (S @ T) (pp_incomingMsgId p') m)"
      by (intro exI [of _ "ms @ ns"]) auto
  qed
  moreover obtain ms where ms: "expects (pp_socketReader q) (drop t (out_bytes p (pp_socket q))) ms"
    "\<forall>m \<in> set ms. good S (pp_incomingMsgId p) m"
    using l by blast
  obtain ns where ns: "out_bytes p' (pp_socket q) = out_bytes p (pp_socket q) @ concat (map encode ns)"
    "\<forall>m \<in> set ns. good (S @ T) (pp_incomingMsgId p') m"
    using ext unfolding extends_def by blast
  have t: "t \<le> length (out_bytes p (pp_socket q))" using l by blast
  then have "drop t (out_bytes p' (pp_socket q)) = drop t (out_bytes p (pp_socket q)) @ concat (map encode ns)"
    using ns(1) by simp
  with expects_more_list [OF ms(1), of ns] have "expects (pp_socketReader q) (drop t (out_bytes p' (pp_socket q))) (ms @ ns)"
    by simp
  moreover have "\<forall>m \<in> set (ms @ ns). good (S @ T) (pp_incomingMsgId p') m" using ms(2) ns(2) mono by auto
  moreover have "t \<le> length (out_bytes p' (pp_socket q))" using t ns(1) by simp
  ultimately show ?thesis
    unfolding link_def using l ack by auto
qed

text \<open>The receiver moves, but receives nothing.\<close>

lemma link_receiver:
  "link S p q t \<Longrightarrow> pp_socket q' = pp_socket q \<Longrightarrow> pp_socketReader q' = pp_socketReader q \<Longrightarrow>
     pp_incomingMsgId q' = pp_incomingMsgId q \<Longrightarrow> be_events (pp_onMessage q') = be_events (pp_onMessage q) \<Longrightarrow> link S p q' t"
  by (simp add: link_def)

lemma quiet_extends: "quiet S p p' \<Longrightarrow> extends S p p'"
proof -
  assume q: "quiet S p p'"
  then have books: "pp_socket p' = pp_socket p" "pp_closedSockets p' = pp_closedSockets p"
    by (simp_all add: quiet_def same_books_def)
  obtain ms where ms: "pw_sent (pp_socketWriter p') = pw_sent (pp_socketWriter p) @ concat (map encode ms)"
    "\<forall>m \<in> set ms. good S (pp_incomingMsgId p') m"
    using q unfolding quiet_def by blast
  show ?thesis
    unfolding extends_def
  proof
    fix n
    show "\<exists>ms. out_bytes p' n = out_bytes p n @ concat (map encode ms) \<and> (\<forall>m \<in> set ms. good S (pp_incomingMsgId p') m)"
      using books ms by (cases "n = pp_socket p") (auto simp: out_bytes_def intro: exI [of _ "[]"])
  qed
qed

lemma extends_refl: "(\<And>n. out_bytes p' n = out_bytes p n) \<Longrightarrow> extends S p p'"
  by (auto simp: extends_def intro: exI [of _ "[]"])

subsection \<open>Every step keeps the invariant\<close>

lemma local_step_quiet:
  assumes "local_step p p'" and ok: "endpoint_ok S p"
  shows "quiet S p p'"
  using assms(1)
proof cases
  case flush
  then show ?thesis using pp_flush_quiet [OF ok] by auto
next
  case writeTimeout
  then show ?thesis using pp_onWriteTimeout_quiet [OF ok] by auto
next
  case (sendDisconnect now)
  let ?p = "p\<lparr>pp_didSendDisconnect := True\<rparr>"
  have q: "quiet S p ?p"
    using ok by (auto intro!: quiet_fields [OF ok] simp: same_books_def endpoint_ok_def)
  then have "quiet S ?p (pp_write now (ProtocolMessage Disconnect 0 0 []) ?p)"
    by (intro pp_write_quiet good_ack) (simp_all add: quiet_endpoint)
  with q have w: "quiet S p (pp_write now (ProtocolMessage Disconnect 0 0 []) ?p)" by (rule quiet_trans)
  from pp_flush_quiet [OF quiet_endpoint [OF w]] w quiet_refl [OF ok] sendDisconnect show ?thesis
    by (auto simp: pp_sendDisconnect_def intro: quiet_trans split: if_splits)
next
  case (sendPause now)
  then show ?thesis
    unfolding pp_sendPause_def by (auto intro: pp_write_quiet [OF ok] good_ack [OF ok])
next
  case (sendResume now)
  then show ?thesis
    unfolding pp_sendResume_def by (auto intro: pp_write_quiet [OF ok] good_ack [OF ok])
next
  case pauseSocketWriting
  with ok show ?thesis
    by (auto simp: pp_pauseSocketWriting_def pw_pause_def quiet_def endpoint_ok_def queue_ok_def writer_ok_def ack_ok_def
        pw_inv_def same_books_def intro: exI [of _ "[]"])
next
  case (sendControl b now)
  then show ?thesis
    unfolding pp_sendControl_def using ok
    by (auto intro!: pp_write_quiet [OF ok] good_control simp: endpoint_ok_def)
next
  case (incomingAckTimeout now)
  then show ?thesis using pp_onIncomingAckTimeout_quiet [OF ok] by simp
next
  case (outgoingAckTimeout now hl)
  then show ?thesis using pp_onOutgoingAckTimeout_quiet [OF ok] by (metis sum.inject(2))
next
  case (sendKeepAlive now hl)
  then show ?thesis using pp_sendKeepAlive_quiet [OF ok] by (metis sum.inject(2))
next
  case (endAcceptReconnection now hl)
  then show ?thesis using pp_endAcceptReconnection_quiet [OF ok] by (metis sum.inject(2))
qed (use ok in \<open>auto intro!: quiet_fields [OF ok] simp: same_books_def endpoint_ok_def pp_acceptDisconnect_def pp_onClose_def\<close>)

lemma net_inv_end:
  assumes "net_inv s"
  shows "endpoint_ok (sends s e) (ends s e)" "link (sends s e) (ends s e) (ends s (\<not> e)) (taken s (\<not> e))"
    "link (sends s (\<not> e)) (ends s (\<not> e)) (ends s e) (taken s e)"
  using assms [unfolded net_inv_def, rule_format, of e] assms [unfolded net_inv_def, rule_format, of "\<not> e"]
  by simp_all

text \<open>An end moves: what has to be shown of its two directions.\<close>

lemma net_inv_moved:
  assumes inv: "net_inv s" and s': "ends s' = (ends s)(e := p)" "sends s' = (sends s)(e := S)" "taken s' (\<not> e) = taken s (\<not> e)"
    and "endpoint_ok S p" and "link S p (ends s (\<not> e)) (taken s (\<not> e))"
    and "link (sends s (\<not> e)) (ends s (\<not> e)) p (taken s' e)"
  shows "net_inv s'"
  unfolding net_inv_def
proof
  fix d
  show "endpoint_ok (sends s' d) (ends s' d) \<and> link (sends s' d) (ends s' d) (ends s' (\<not> d)) (taken s' (\<not> d))"
    using assms net_inv_end(1) [OF inv, of d] by (cases "d = e") auto
qed

lemma net_inv_quiet:
  assumes inv: "net_inv s" and q: "quiet (sends s e @ T) (ends s e) p"
    and s': "ends s' = (ends s)(e := p)" "sends s' = (sends s)(e := sends s e @ T)" "taken s' = taken s"
  shows "net_inv s'"
proof (rule net_inv_moved [OF inv s'(1,2)])
  have books: "same_books (ends s e) p" using q by (simp add: quiet_def)
  have l: "link (sends s e) (ends s e) (ends s (\<not> e)) (taken s (\<not> e))" by (rule net_inv_end(2) [OF inv])
  show "link (sends s e @ T) p (ends s (\<not> e)) (taken s (\<not> e))"
    using books l by (intro link_sender [OF l quiet_extends [OF q]]) (simp_all add: same_books_def link_def)
  show "link (sends s (\<not> e)) (ends s (\<not> e)) p (taken s' e)"
    using books net_inv_end(3) [OF inv, of e] s'(3) by (auto simp: same_books_def intro: link_receiver)
qed (use quiet_endpoint [OF q] s'(3) in simp_all)

lemma net_inv_arrive:
  assumes inv: "net_inv s"
    and chunk: "drop (taken s e) (out_bytes (ends s (\<not> e)) (pp_socket (ends s e))) = chunk @ rest"
    and s': "ends s' = (ends s)(e := pp_arrive now chunk (ends s e))" "sends s' = sends s"
      "taken s' = (taken s)(e := taken s e + length chunk)"
  shows "net_inv s'"
proof (rule net_inv_moved [OF inv s'(1)])
  let ?p = "pp_arrive now chunk (ends s e)" and ?out = "out_bytes (ends s (\<not> e)) (pp_socket (ends s e))"
  show "endpoint_ok (sends s e) ?p"
    using net_inv_end(1) [OF inv, of e]
    by (simp add: pp_arrive_def endpoint_ok_def queue_ok_def writer_ok_def ack_ok_def)
  have l: "link (sends s e) (ends s e) (ends s (\<not> e)) (taken s (\<not> e))" by (rule net_inv_end(2) [OF inv])
  have "out_bytes ?p n = out_bytes (ends s e) n" for n by (simp add: out_bytes_def pp_arrive_def)
  then show "link (sends s e) ?p (ends s (\<not> e)) (taken s (\<not> e))"
    using link_sender [OF l, of "[]" ?p] l extends_refl [of ?p] by (simp add: pp_arrive_def link_def)
  have r: "link (sends s (\<not> e)) (ends s (\<not> e)) (ends s e) (taken s e)" by (rule net_inv_end(3) [OF inv])
  then obtain ms where ms: "expects (pp_socketReader (ends s e)) (chunk @ rest) ms"
    "\<forall>m \<in> set ms. good (sends s (\<not> e)) (pp_incomingMsgId (ends s (\<not> e))) m"
    unfolding link_def chunk by blast
  have "length chunk \<le> length ?out - taken s e" using arg_cong [OF chunk, of length] by simp
  moreover have "taken s e \<le> length ?out" using r by (simp add: link_def)
  ultimately have "taken s e + length chunk \<le> length ?out" by simp
  moreover have "drop (taken s e + length chunk) ?out = rest"
    using arg_cong [OF chunk, of "drop (length chunk)"] by (simp add: add.commute)
  ultimately show "link (sends s (\<not> e)) (ends s (\<not> e)) ?p (taken s' e)"
    using r expects_arrive [OF ms(1), of now] ms(2) unfolding link_def s'(3)
    by (auto simp: pp_arrive_def)
qed (use s' in \<open>simp_all add: fun_upd_idem\<close>)

lemma pp_iterate_ok:
  assumes ok: "endpoint_ok S q" and exp: "expects (pp_socketReader q) bs ms" and send: "\<forall>m \<in> set ms. sendable m"
    and ready: "pr_ready (pp_socketReader q)"
  shows "\<exists>q'. pp_iterate now hl q = Inr q' \<and> endpoint_ok S q' \<and> pp_socket q' = pp_socket q \<and>
    ((\<exists>r. q' = q\<lparr>pp_socketReader := r\<rparr> \<and> expects r bs ms) \<or>
     (\<exists>m ms' r. ms = m # ms' \<and> received m (q\<lparr>pp_socketReader := r\<rparr>) q' \<and> expects r bs ms'))"
proof -
  obtain msg r where it: "pr_iterate (pp_socketReader q) = Inr (msg, r)"
    "case msg of None \<Rightarrow> expects r bs ms | Some m \<Rightarrow> \<exists>ms'. ms = m # ms' \<and> expects r bs ms'"
    using pr_iterate_ok [OF exp send ready] by blast
  have ok': "endpoint_ok S (q\<lparr>pp_socketReader := r\<rparr>)"
    using ok by (simp add: endpoint_ok_def queue_ok_def writer_ok_def ack_ok_def)
  show ?thesis
  proof (cases msg)
    case None
    with it ok' show ?thesis by (auto simp: pp_iterate_def)
  next
    case (Some m)
    with it(2) obtain ms' where ms': "ms = m # ms'" "expects r bs ms'" by auto
    with send have "sendable m" by simp
    from pp_receiveMessage_ok [OF ok' this, of now hl] obtain q' where
      q': "pp_receiveMessage now hl m (q\<lparr>pp_socketReader := r\<rparr>) = Inr q'" "endpoint_ok S q'"
      "received m (q\<lparr>pp_socketReader := r\<rparr>) q'"
      by blast
    then have "pp_iterate now hl q = Inr q'" "pp_socket q' = pp_socket q"
      using it(1) Some by (simp_all add: pp_iterate_def received_def)
    with q' ms' show ?thesis by blast
  qed
qed

text \<open>The direction in which a message is received.\<close>

lemma link_received:
  assumes l: "link S p q t" and rec: "received m (q\<lparr>pp_socketReader := r\<rparr>) q'"
    and exp: "expects r (drop t (out_bytes p (pp_socket q))) ms'" and good: "\<forall>m' \<in> set (m # ms'). good S (pp_incomingMsgId p) m'"
  shows "link S p q' t"
proof (cases "accepted m q")
  case False
  then have "pp_incomingMsgId q' = pp_incomingMsgId q" "be_events (pp_onMessage q') = be_events (pp_onMessage q)"
    "pp_socket q' = pp_socket q" "pp_socketReader q' = r"
    using rec by (simp_all add: received_def accepted_def)
  with l exp good show ?thesis unfolding link_def by auto
next
  case True
  then have m: "pm_type m = Regular" "pm_id m = Suc (pp_incomingMsgId q)" by (simp_all add: accepted_def)
  have q': "pp_incomingMsgId q' = Suc (pp_incomingMsgId q)" "be_events (pp_onMessage q') = be_events (pp_onMessage q) @ [pm_data m]"
    "pp_socket q' = pp_socket q" "pp_socketReader q' = r"
    using rec True m by (simp_all add: received_def accepted_def)
  have "Suc (pp_incomingMsgId q) \<le> length S" "pm_data m = S ! pp_incomingMsgId q"
    using good m by (auto simp: good_def)
  moreover from this have "take (Suc (pp_incomingMsgId q)) S = take (pp_incomingMsgId q) S @ [pm_data m]"
    by (simp add: take_Suc_conv_app_nth)
  ultimately show ?thesis
    using l q' exp good unfolding link_def by auto
qed

lemma net_inv_iterate:
  assumes inv: "net_inv s" and ready: "pr_ready (pp_socketReader (ends s e))"
    and run: "pp_iterate now hl (ends s e) = Inr p"
    and s': "ends s' = (ends s)(e := p)" "sends s' = sends s" "taken s' = taken s"
  shows "net_inv s'"
proof -
  let ?q = "ends s e" and ?o = "ends s (\<not> e)"
  note l = net_inv_end(2) [OF inv, of e] and r = net_inv_end(3) [OF inv, of e] and ok = net_inv_end(1) [OF inv, of e]
  obtain ms where ms: "expects (pp_socketReader ?q) (drop (taken s e) (out_bytes ?o (pp_socket ?q))) ms"
    "\<forall>m \<in> set ms. good (sends s (\<not> e)) (pp_incomingMsgId ?o) m"
    using r unfolding link_def by blast
  have "\<forall>m \<in> set ms. sendable m" using ms(2) by (auto simp: good_def)
  from pp_iterate_ok [OF ok ms(1) this ready, of now hl] run have ok': "endpoint_ok (sends s e) p" and
    cases: "(\<exists>r. p = ?q\<lparr>pp_socketReader := r\<rparr> \<and> expects r (drop (taken s e) (out_bytes ?o (pp_socket ?q))) ms) \<or>
     (\<exists>m ms' r. ms = m # ms' \<and> received m (?q\<lparr>pp_socketReader := r\<rparr>) p \<and>
        expects r (drop (taken s e) (out_bytes ?o (pp_socket ?q))) ms')"
    by auto
  have "link (sends s e) p ?o (taken s (\<not> e)) \<and> link (sends s (\<not> e)) ?o p (taken s e)"
    using cases
  proof (elim disjE exE conjE)
    fix rd
    assume p: "p = ?q\<lparr>pp_socketReader := rd\<rparr>" and exp: "expects rd (drop (taken s e) (out_bytes ?o (pp_socket ?q))) ms"
    have "out_bytes p n = out_bytes ?q n" for n by (simp add: out_bytes_def p)
    then have "link (sends s e @ []) p ?o (taken s (\<not> e))"
      using l by (intro link_sender [OF l extends_refl]) (simp_all add: p link_def)
    moreover have "link (sends s (\<not> e)) ?o p (taken s e)"
      using r exp ms(2) unfolding link_def p by auto
    ultimately show ?thesis by simp
  next
    fix m ms' rd
    assume m: "ms = m # ms'" and rec: "received m (?q\<lparr>pp_socketReader := rd\<rparr>) p"
      and exp: "expects rd (drop (taken s e) (out_bytes ?o (pp_socket ?q))) ms'"
    have "out_bytes p n = out_bytes ?q n" for n using rec by (simp add: out_bytes_def received_def)
    moreover have "pm_ack m \<le> pp_incomingMsgId ?o" using ms(2) m by (simp add: good_def)
    moreover have "pp_incomingMsgId ?q \<le> pp_incomingMsgId p" using rec by (auto simp: received_def accepted_def)
    ultimately have "link (sends s e @ []) p ?o (taken s (\<not> e))"
      using l rec by (intro link_sender [OF l extends_refl]) (simp_all add: received_def link_def)
    moreover have "link (sends s (\<not> e)) ?o p (taken s e)"
      using ms(2) m by (intro link_received [OF r rec exp]) simp
    ultimately show ?thesis by simp
  qed
  then show ?thesis
    by (intro net_inv_moved [OF inv s'(1), of "sends s e"]) (simp_all add: s' ok' fun_upd_idem)
qed

text \<open>Switching to a new socket flushes the old one.\<close>

lemma switch_writer:
  assumes ok: "endpoint_ok S p"
  shows "\<exists>ms. pw_sent (pw_dispose (pp_socketWriter p)) = pw_sent (pp_socketWriter p) @ concat (map encode ms) \<and>
    (\<forall>m \<in> set ms. good S (pp_incomingMsgId p) m)"
proof -
  have "\<not> pw_isDisposed (pp_socketWriter p)" using ok by (simp add: endpoint_ok_def writer_ok_def)
  from writer_now_quiet [OF ok refl refl refl this] obtain w where
    "pw_writeNow (pp_socketWriter p) = Inr w" "quiet S p (p\<lparr>pp_socketWriter := w\<rparr>)" by blast
  then show ?thesis by (auto simp: pw_dispose_def pw_flush_def quiet_def)
qed

lemma net_inv_switch:
  assumes inv: "net_inv s" and fresh: "n \<noteq> pp_socket (ends s e)" "pp_closedSockets (ends s e) n = None"
    and s': "ends s' = (ends s)(e := pp_switchSocket now n (ends s e))" "sends s' = sends s" "taken s' = (taken s)(e := 0)"
  shows "net_inv s'"
proof -
  let ?q = "ends s e" and ?o = "ends s (\<not> e)"
  define p where "p = pp_switchSocket now n ?q"
  note l = net_inv_end(2) [OF inv, of e] and r = net_inv_end(3) [OF inv, of e] and ok = net_inv_end(1) [OF inv, of e]
  have p: "pp_socket p = n" "pp_socketReader p = mk_ProtocolReader now" "pp_socketWriter p = mk_ProtocolWriter"
    "pp_incomingMsgId p = pp_incomingMsgId ?q" "pp_onMessage p = pp_onMessage ?q" "pp_outgoingAckId p = pp_outgoingAckId ?q"
    "pp_closedSockets p = (pp_closedSockets ?q)(pp_socket ?q \<mapsto> pw_sent (pw_dispose (pp_socketWriter ?q)))"
    by (simp_all add: p_def pp_switchSocket_def pp_disposeSocket_def Let_def)
  have ok': "endpoint_ok (sends s e) p"
    using ok p by (auto simp: endpoint_ok_def queue_ok_def writer_ok_def ack_ok_def p_def pp_switchSocket_def
        pp_disposeSocket_def Let_def intro: exI [of _ "[]"])
  obtain ms where ms: "pw_sent (pw_dispose (pp_socketWriter ?q)) = pw_sent (pp_socketWriter ?q) @ concat (map encode ms)"
    "\<forall>m \<in> set ms. good (sends s e) (pp_incomingMsgId ?q) m"
    using switch_writer [OF ok] by blast
  have "extends (sends s e) ?q p"
    unfolding extends_def
  proof
    fix k
    show "\<exists>ms. out_bytes p k = out_bytes ?q k @ concat (map encode ms) \<and> (\<forall>m \<in> set ms. good (sends s e) (pp_incomingMsgId p) m)"
    proof (cases "k = pp_socket ?q")
      case True
      with ms fresh p show ?thesis by (auto simp: out_bytes_def)
    next
      case False
      with fresh p show ?thesis by (intro exI [of _ "[]"]) (auto simp: out_bytes_def split: option.splits)
    qed
  qed
  then have "link (sends s e @ []) p ?o (taken s (\<not> e))"
    using l by (intro link_sender [OF l]) (simp_all add: p link_def)
  moreover obtain ns where ns: "out_bytes ?o n = concat (map encode ns)"
    "\<forall>m \<in> set ns. good (sends s (\<not> e)) (pp_incomingMsgId ?o) m"
    using r unfolding link_def stream_ok_def by blast
  have "link (sends s (\<not> e)) ?o p 0"
    using r expects_new [of now ns] ns unfolding link_def p by auto
  ultimately show ?thesis
    using ok' by (intro net_inv_moved [OF inv s'(1), of "sends s e"]) (simp_all add: s' fun_upd_idem p_def)
qed

lemma net_step_inv:
  assumes "net_step s s'" and inv: "net_inv s"
  shows "net_inv s'"
  using assms(1)
proof cases
  case (local e p)
  have "quiet (sends s e @ []) (ends s e) p"
    using local_step_quiet [OF local(2) net_inv_end(1) [OF inv]] by simp
  from net_inv_quiet [OF inv this, of s'] local(1) show ?thesis by (simp add: with_end_def fun_upd_idem)
next
  case (send now hl b e p)
  have "pp_outgoingAckId (ends s e) \<le> length (sends s e)"
    using net_inv_end(2) [OF inv, of e] by (simp add: link_def)
  from pp_send_quiet [OF net_inv_end(1) [OF inv] this send(3), of now hl] send(2)
  have "quiet (sends s e @ [b]) (ends s e) p" by simp
  from net_inv_quiet [OF inv this, of s'] send(1) show ?thesis by (simp add: with_end_def)
next
  case (arrive chunk e rest now)
  from net_inv_arrive [OF inv arrive(3), of s' now] arrive(1) show ?thesis by (simp add: with_end_def)
next
  case (iterate e now hl p)
  from net_inv_iterate [OF inv iterate(2,3), of s'] iterate(1) show ?thesis by (simp add: with_end_def)
next
  case (switch n e now)
  from net_inv_switch [OF inv switch(2,3), of s' now] switch(1) show ?thesis by (simp add: with_end_def)
qed

lemma net_inv_start:
  "net_inv \<lparr>ends = (\<lambda>e. mk_PersistentProtocol (t e) 0 (k e)), taken = (\<lambda>_. 0), sends = (\<lambda>_. [])\<rparr>"
proof -
  have "endpoint_ok [] (mk_PersistentProtocol now 0 ka)" for now ka
    using mq.rep_new
    by (auto simp: endpoint_ok_def bounded_sends_def queue_ok_def writer_ok_def ack_ok_def mk_PersistentProtocol_def
        intro!: exI [of _ "[]"])
  moreover have "out_bytes (mk_PersistentProtocol now 0 ka) n = []" for now ka n
    by (simp add: out_bytes_def mk_PersistentProtocol_def)
  moreover have "expects (mk_ProtocolReader now) [] []" for now using expects_new [of now "[]"] by simp
  ultimately show ?thesis
    by (auto simp: net_inv_def link_def stream_ok_def mk_PersistentProtocol_def intro!: exI [of _ "[]"])
qed

lemma net_reachable_inv: "net_reachable s \<Longrightarrow> net_inv s"
proof (induction rule: net_reachable.induct)
  case (start t k)
  show ?case by (rule net_inv_start)
next
  case (step s s')
  then show ?case using net_step_inv by blast
qed

subsection \<open>Reading a chunk\<close>

text \<open>The books of a receiver: how many messages it has received and what it has given to its listeners.\<close>

definition books :: "persistent_protocol \<Rightarrow> nat \<times> vs_buffer list" where
  "books q = (pp_incomingMsgId q, be_events (pp_onMessage q))"

fun enter :: "protocol_message \<Rightarrow> nat \<times> vs_buffer list \<Rightarrow> nat \<times> vs_buffer list" where
  "enter m (k, bs) = (if pm_type m = Regular \<and> pm_id m = Suc k then (pm_id m, bs @ [pm_data m]) else (k, bs))"

lemma received_books: "received m (q\<lparr>pp_socketReader := r\<rparr>) q' \<Longrightarrow> books q' = enter m (books q)"
  by (simp add: received_def accepted_def books_def)

lemma pp_iterate_left:
  assumes "pr_ready (pp_socketReader q)" and "pp_iterate now hl q = Inr q'"
  shows "pr_left (pp_socketReader q') < pr_left (pp_socketReader q)"
proof -
  obtain msg r where r: "pr_iterate (pp_socketReader q) = Inr (msg, r)" "pp_socketReader q' = r"
    using assms(2) pp_receiveMessage_reader
    by (fastforce simp: pp_iterate_def bind_result_Inr_iff Let_def split: option.splits)
  with pr_iterate_left [OF assms(1) r(1)] show ?thesis by simp
qed

lemma pp_read_loop_ok:
  assumes "endpoint_ok S q" and "expects (pp_socketReader q) bs ms" and "\<forall>m \<in> set ms. sendable m"
  shows "\<exists>q' ms1 ms2. pp_read_loop now hl q = Inr q' \<and> ms = ms1 @ ms2 \<and> endpoint_ok S q' \<and>
    expects (pp_socketReader q') bs ms2 \<and> \<not> pr_ready (pp_socketReader q') \<and> books q' = fold enter ms1 (books q)"
  using assms
proof (induction "pr_left (pp_socketReader q)" arbitrary: q ms rule: less_induct)
  case less
  show ?case
  proof (cases "pr_ready (pp_socketReader q)")
    case False
    with less.prems show ?thesis
      by (intro exI [of _ q] exI [of _ "[]"] exI [of _ ms]) (simp add: pp_read_loop.simps)
  next
    case True
    obtain q1 where q1: "pp_iterate now hl q = Inr q1" "endpoint_ok S q1"
      "(\<exists>r. q1 = q\<lparr>pp_socketReader := r\<rparr> \<and> expects r bs ms) \<or>
       (\<exists>m ms' r. ms = m # ms' \<and> received m (q\<lparr>pp_socketReader := r\<rparr>) q1 \<and> expects r bs ms')"
      using pp_iterate_ok [OF less.prems True, of now hl] by (elim exE conjE) (rule that)
    have run: "pp_read_loop now hl q = pp_read_loop now hl q1"
      using True q1(1) by (simp add: pp_read_loop.simps [of _ _ q])
    note smaller = pp_iterate_left [OF True q1(1)]
    from q1(3) show ?thesis
    proof (elim disjE exE conjE)
      fix r
      assume r: "q1 = q\<lparr>pp_socketReader := r\<rparr>" "expects r bs ms"
      then have "expects (pp_socketReader q1) bs ms" "books q1 = books q" by (simp_all add: books_def)
      with less.hyps [OF smaller q1(2) _ less.prems(3)] show ?thesis unfolding run by simp
    next
      fix m ms' r
      assume m: "ms = m # ms'" "received m (q\<lparr>pp_socketReader := r\<rparr>) q1" "expects r bs ms'"
      then have "expects (pp_socketReader q1) bs ms'" by (simp add: received_def)
      with less.hyps [OF smaller q1(2), of ms'] less.prems(3) m(1) obtain q' ms1 ms2 where
        "pp_read_loop now hl q1 = Inr q'" "ms' = ms1 @ ms2" "endpoint_ok S q'" "expects (pp_socketReader q') bs ms2"
        "\<not> pr_ready (pp_socketReader q')" "books q' = fold enter ms1 (books q1)"
        by auto
      with m(1) received_books [OF m(2)] show ?thesis
        unfolding run by (intro exI [of _ q'] exI [of _ "m # ms1"] exI [of _ ms2]) simp
    qed
  qed
qed

lemma pp_acceptChunk_ok:
  assumes "endpoint_ok S q" and "expects (pp_socketReader q) (chunk @ bs) ms" and "\<forall>m \<in> set ms. sendable m"
    and "\<not> pr_ready (pp_socketReader q)"
  shows "\<exists>q' ms1 ms2. pp_acceptChunk now hl chunk q = Inr q' \<and> ms = ms1 @ ms2 \<and> endpoint_ok S q' \<and>
    expects (pp_socketReader q') bs ms2 \<and> \<not> pr_ready (pp_socketReader q') \<and> books q' = fold enter ms1 (books q)"
proof (cases "chunk = []")
  case True
  with assms show ?thesis
    by (intro exI [of _ q] exI [of _ "[]"] exI [of _ ms]) (simp add: pp_acceptChunk_def)
next
  case False
  let ?q = "pp_arrive now chunk q"
  have "endpoint_ok S ?q"
    using assms(1) by (simp add: pp_arrive_def endpoint_ok_def queue_ok_def writer_ok_def ack_ok_def)
  moreover have "expects (pp_socketReader ?q) bs ms"
    using expects_arrive [OF assms(2), of now] by (simp add: pp_arrive_def)
  moreover have "books ?q = books q" by (simp add: books_def pp_arrive_def)
  ultimately show ?thesis
    using pp_read_loop_ok [of S ?q bs ms now hl] assms(3) False by (simp add: pp_acceptChunk_def)
qed

text \<open>The chunks of a socket, one after the other.\<close>

fun feed :: "int \<Rightarrow> bool \<Rightarrow> vs_buffer list \<Rightarrow> persistent_protocol \<Rightarrow> persistent_protocol result" where
  "feed now hl [] q = Inr q"
| "feed now hl (c # cs) q = bind_result (pp_acceptChunk now hl c q) (feed now hl cs)"

lemma feed_ok:
  assumes "endpoint_ok S q" and "expects (pp_socketReader q) (concat chunks) ms" and "\<forall>m \<in> set ms. sendable m"
    and "\<not> pr_ready (pp_socketReader q)"
  shows "\<exists>q'. feed now hl chunks q = Inr q' \<and> books q' = fold enter ms (books q)"
  using assms
proof (induction chunks arbitrary: q ms)
  case Nil
  then show ?case using expects_done [of "pp_socketReader q" ms] by simp
next
  case (Cons c cs)
  from pp_acceptChunk_ok [of S q c "concat cs" ms now hl] Cons.prems obtain q1 ms1 ms2 where
    q1: "pp_acceptChunk now hl c q = Inr q1" "ms = ms1 @ ms2" "endpoint_ok S q1" "expects (pp_socketReader q1) (concat cs) ms2"
      "\<not> pr_ready (pp_socketReader q1)" "books q1 = fold enter ms1 (books q)"
    by auto
  from Cons.IH [OF q1(3,4) _ q1(5)] Cons.prems(3) q1(2) obtain q' where
    "feed now hl cs q1 = Inr q'" "books q' = fold enter ms2 (books q1)" by auto
  with q1 show ?case by simp
qed

text \<open>The whole handler is a sequence of steps of the network.\<close>

lemma read_loop_steps:
  assumes "pp_read_loop now hl (ends s e) = Inr p"
  shows "net_step\<^sup>*\<^sup>* s (with_end e p s)"
  using assms
proof (induction "pr_left (pp_socketReader (ends s e))" arbitrary: s rule: less_induct)
  case less
  show ?case
  proof (cases "pr_ready (pp_socketReader (ends s e))")
    case False
    with less.prems have "p = ends s e" by (simp add: pp_read_loop.simps)
    then have "with_end e p s = s" by (simp add: with_end_def fun_upd_idem)
    then show ?thesis by simp
  next
    case True
    with less.prems obtain p1 where p1: "pp_iterate now hl (ends s e) = Inr p1" "pp_read_loop now hl p1 = Inr p"
      by (auto simp: pp_read_loop.simps [of _ _ "ends s e"] bind_result_Inr_iff)
    let ?s = "with_end e p1 s"
    have "net_step s ?s" using True p1(1) by (rule net_step.iterate)
    moreover have "net_step\<^sup>*\<^sup>* ?s (with_end e p ?s)"
      using pp_iterate_left [OF True p1(1)] p1(2) by (intro less.hyps) (simp_all add: with_end_def)
    ultimately show ?thesis by (simp add: with_end_def)
  qed
qed

lemma acceptChunk_steps:
  assumes "drop (taken s e) (out_bytes (ends s (\<not> e)) (pp_socket (ends s e))) = chunk @ rest" and "chunk \<noteq> []"
    and "pp_acceptChunk now hl chunk (ends s e) = Inr p"
  shows "net_step\<^sup>*\<^sup>* s ((with_end e p s)\<lparr>taken := (taken s)(e := taken s e + length chunk)\<rparr>)"
proof -
  let ?s = "(with_end e (pp_arrive now chunk (ends s e)) s)\<lparr>taken := (taken s)(e := taken s e + length chunk)\<rparr>"
  have "net_step s ?s" by (rule net_step.arrive [OF assms(2,1)])
  moreover have "net_step\<^sup>*\<^sup>* ?s (with_end e p ?s)"
    using assms(2,3) by (intro read_loop_steps [of now hl]) (simp add: with_end_def pp_acceptChunk_def)
  moreover have "with_end e p ?s = (with_end e p s)\<lparr>taken := (taken s)(e := taken s e + length chunk)\<rparr>"
    by (cases s) (simp add: with_end_def)
  ultimately show ?thesis by (metis converse_rtranclp_into_rtranclp)
qed

subsection \<open>After a reconnection\<close>

lemma queue_data:
  assumes "map pm_id ms = [Suc a..<Suc (length S)]" and "\<forall>m \<in> set ms. pm_type m = Regular \<and> good S k m"
  shows "map pm_data ms = drop a S"
proof -
  have "map pm_data ms = map (\<lambda>i. S ! (i - 1)) (map pm_id ms)"
    using assms(2) by (auto simp: good_def)
  also have "\<dots> = map (\<lambda>i. S ! i) [a..<length S]"
    unfolding assms(1) map_Suc_upt [symmetric] by simp
  also have "\<dots> = drop a S" by (metis drop_map map_nth drop_upt add.left_neutral)
  finally show ?thesis .
qed

text \<open>A receiver that is shown the messages from \<open>a + 1\<close> on skips what it knows and takes the rest.\<close>

lemma enter_all:
  assumes "map pm_id ms = [Suc a..<Suc (length S)]" and "\<forall>m \<in> set ms. pm_type m = Regular \<and> good S r m"
    and "a \<le> k" "k \<le> length S"
  shows "fold enter ms (k, take k S) = (length S, S)"
  using assms
proof (induction ms arbitrary: a k)
  case Nil
  then have "length S \<le> a" by (simp split: if_splits)
  with Nil.prems show ?case by simp
next
  case (Cons m ms)
  have "Suc a < Suc (length S)" using Cons.prems(1) by (rule contrapos_pp) simp
  with Cons.prems(1) have a: "a < length S" "pm_id m = Suc a" "map pm_id ms = [Suc (Suc a)..<Suc (length S)]"
    using upt_conv_Cons [of "Suc a" "Suc (length S)"] by (simp_all del: upt_Suc split: if_splits)
  have m: "pm_type m = Regular" "pm_data m = S ! a" using Cons.prems(2) a(2) by (auto simp: good_def)
  show ?case
  proof (cases "a = k")
    case True
    have "take k S @ [S ! k] = take (Suc k) S" using a(1) True by (simp add: take_Suc_conv_app_nth)
    then have "enter m (k, take k S) = (Suc k, take (Suc k) S)" using a(2) m True by simp
    moreover have "fold enter ms (Suc k, take (Suc k) S) = (length S, S)"
      using Cons.prems(2) a True by (intro Cons.IH [of "Suc a"]) auto
    ultimately show ?thesis by simp
  next
    case False
    then have "enter m (k, take k S) = (k, take k S)" using a(2) by simp
    moreover have "fold enter ms (k, take k S) = (length S, S)"
      using Cons.prems(2-) a False by (intro Cons.IH [of "Suc a"]) auto
    ultimately show ?thesis by simp
  qed
qed

lemma pp_write_all_writer: "pp_socketWriter (fold (pp_write now) ms p) = fold (pw_write now) ms (pp_socketWriter p)"
  by (induction ms arbitrary: p) (simp_all add: pp_write_def)

lemma pp_recvAckCheck_writer:
  "pp_recvAckCheck now hl p = Inr p' \<Longrightarrow> pp_socketWriter p' = pp_socketWriter p"
  by (auto simp: pp_recvAckCheck_def Let_def bind_result_Inr_iff split: if_splits option.splits)

text \<open>What goes out on the new socket: an acknowledgement and all messages of the queue.\<close>

lemma reconnect_sends:
  assumes ok: "endpoint_ok S p" and ms: "queue_rep (pp_outgoingUnackMsg p) ms"
  shows "\<exists>p1 p2. pp_endAcceptReconnection now hl (pp_switchSocket now n p) = Inr p1 \<and> pp_flush p1 = Inr p2 \<and>
    pw_sent (pp_socketWriter p2) =
      concat (map encode (ProtocolMessage AckType 0 (pp_incomingMsgId p) [] # ms))"
proof -
  let ?ack = "ProtocolMessage AckType 0 (pp_incomingMsgId p) []"
  define p0 where "p0 = pp_switchSocket now n p"
  have p0: "pp_socketWriter p0 = mk_ProtocolWriter" "pp_incomingMsgId p0 = pp_incomingMsgId p"
    "pp_outgoingUnackMsg p0 = pp_outgoingUnackMsg p"
    by (simp_all add: p0_def pp_switchSocket_def pp_disposeSocket_def Let_def)
  have ok0: "endpoint_ok S p0"
    using ok by (auto simp: endpoint_ok_def queue_ok_def writer_ok_def ack_ok_def p0_def pp_switchSocket_def
        pp_disposeSocket_def Let_def intro: exI [of _ "[]"])
  obtain p1 where p1: "pp_endAcceptReconnection now hl p0 = Inr p1" "quiet S p0 p1"
    using pp_endAcceptReconnection_quiet [OF ok0] by blast
  have "pp_socketWriter p1 = fold (pw_write now) (?ack # ms) mk_ProtocolWriter"
    using p1(1) mq.toArray_rep [OF ms] pp_recvAckCheck_writer
    by (fastforce simp: pp_endAcceptReconnection_def pp_replay_def Let_def pp_write_all_writer pp_write_def p0)
  moreover note pw_write_all [of mk_ProtocolWriter now "?ack # ms"]
  ultimately have w: "pw_inv (pp_socketWriter p1)" "concat (pw_data (pp_socketWriter p1)) = concat (map encode (?ack # ms))"
    "pw_sent (pp_socketWriter p1) = []" "\<not> pw_isPaused (pp_socketWriter p1)"
    by simp_all
  obtain w where "pw_writeNow (pp_socketWriter p1) = Inr w" "pw_sent w = concat (map encode (?ack # ms))"
    using pw_writeNow_ok [OF w(1)] w(2-) by auto
  with p1(1) show ?thesis by (auto simp: pp_flush_def pw_flush_def p0_def)
qed

subsection \<open>Properties\<close>

text \<open>C1: Nothing is lost, nothing comes twice, nothing overtakes. In every state two ends can reach,
  whatever handlers run, however the bytes are cut into chunks and however often sockets are given up
  with data under way, what an end has given to its listeners, or keeps for them, are the first buffers
  that the other end was told to send, in this order.\<close>

theorem protocol_delivers_prefix:
  assumes "net_reachable s"
  shows "be_delivered (pp_onMessage (ends s (\<not> e))) @ be_bufferedMessages (pp_onMessage (ends s (\<not> e))) =
      take (pp_incomingMsgId (ends s (\<not> e))) (sends s e) \<and>
    pp_incomingMsgId (ends s (\<not> e)) \<le> length (sends s e)"
  using net_inv_end(2) [OF net_reachable_inv [OF assms], of e] by (simp add: link_def be_events_def)

definition sample_network :: network where
  "sample_network = \<lparr>ends = (\<lambda>e. mk_PersistentProtocol 0 0 True), taken = (\<lambda>_. 0), sends = (\<lambda>_. [])\<rparr>"

lemma sample_network_reachable: "net_reachable sample_network"
  unfolding sample_network_def by (rule net_reachable.start)

text \<open>A step of the sample: one end is told to send a byte.\<close>

theorem protocol_delivers_prefix_witness:
  "\<exists>s. net_reachable s \<and> sends s True = [[7]] \<and>
    be_delivered (pp_onMessage (ends s False)) @ be_bufferedMessages (pp_onMessage (ends s False)) =
      take (pp_incomingMsgId (ends s False)) [[7]]"
proof -
  have "\<exists>p. pp_send 5 False [7] (ends sample_network True) = Inr p"
    by (auto simp: pp_send_def sample_network_def mk_PersistentProtocol_def Let_def pp_recvAckCheck_def Queue_peek_def
        Queue_push_def Queue_new_def pp_write_def TimeoutTime_def)
  then obtain p where "pp_send 5 False [7] (ends sample_network True) = Inr p" by blast
  then have "net_step sample_network ((with_end True p sample_network)\<lparr>sends := (sends sample_network)(True := sends sample_network True @ [[7]])\<rparr>)"
    by (rule net_step.send) (simp add: sample_network_def bounded_sends_def)
  with sample_network_reachable have r: "net_reachable ((with_end True p sample_network)
      \<lparr>sends := (sends sample_network)(True := sends sample_network True @ [[7]])\<rparr>)" (is "net_reachable ?s")
    by (rule net_reachable.step)
  moreover have "sends ?s True = [[7]]" by (simp add: sample_network_def)
  ultimately show ?thesis
    using protocol_delivers_prefix [OF r, of True] by auto
qed

text \<open>C12: A message that was not received is not forgotten. In every reachable state the queue of an end
  holds exactly the buffers it was told to send behind those the other end has acknowledged, and the
  other end has received all that it acknowledged.\<close>

theorem protocol_keeps_unacknowledged:
  assumes "net_reachable s"
  shows "\<exists>ms. Queue_toArray (pp_outgoingUnackMsg (ends s e)) = Inr ms \<and>
    map pm_data ms = drop (pp_outgoingAckId (ends s e)) (sends s e) \<and>
    pp_outgoingAckId (ends s e) \<le> pp_incomingMsgId (ends s (\<not> e))"
proof -
  note inv = net_reachable_inv [OF assms]
  obtain ms where ms: "queue_rep (pp_outgoingUnackMsg (ends s e)) ms"
    "map pm_id ms = [Suc (pp_outgoingAckId (ends s e))..<Suc (length (sends s e))]"
    "\<forall>m \<in> set ms. pm_type m = Regular \<and> good (sends s e) (pp_incomingMsgId (ends s e)) m"
    using net_inv_end(1) [OF inv, of e] unfolding endpoint_ok_def queue_ok_def by blast
  from mq.toArray_rep [OF ms(1)] queue_data [OF ms(2,3)] net_inv_end(2) [OF inv, of e] show ?thesis
    by (simp add: link_def)
qed

theorem protocol_keeps_unacknowledged_witness:
  "\<exists>ms. Queue_toArray (pp_outgoingUnackMsg (ends sample_network True)) = Inr ms \<and>
    map pm_data ms = drop (pp_outgoingAckId (ends sample_network True)) (sends sample_network True) \<and>
    pp_outgoingAckId (ends sample_network True) \<le> pp_incomingMsgId (ends sample_network (\<not> True))"
  by (rule protocol_keeps_unacknowledged [OF sample_network_reachable])

text \<open>C2: The connection recovers. From every reachable state, when both ends switch to a new socket, one end
  finishes the reconnection and flushes, and the other end reads what was written, in whatever chunks,
  then no handler fails and the other end has received everything the first one was ever told to send.\<close>

theorem reconnection_recovers:
  assumes "net_reachable s"
  shows "\<exists>p1 p2. pp_endAcceptReconnection now hl (pp_switchSocket now n (ends s e)) = Inr p1 \<and> pp_flush p1 = Inr p2 \<and>
    (\<forall>chunks. concat chunks = pw_sent (pp_socketWriter p2) \<longrightarrow>
      (\<exists>q. feed now hl chunks (pp_switchSocket now n (ends s (\<not> e))) = Inr q \<and>
        be_delivered (pp_onMessage q) @ be_bufferedMessages (pp_onMessage q) = sends s e))"
proof -
  let ?p = "ends s e" and ?q = "ends s (\<not> e)" and ?S = "sends s e"
  note inv = net_reachable_inv [OF assms]
  note ok = net_inv_end(1) [OF inv, of e] and ok' = net_inv_end(1) [OF inv, of "\<not> e"] and l = net_inv_end(2) [OF inv, of e]
  obtain ms where ms: "queue_rep (pp_outgoingUnackMsg ?p) ms"
    "map pm_id ms = [Suc (pp_outgoingAckId ?p)..<Suc (length ?S)]"
    "\<forall>m \<in> set ms. pm_type m = Regular \<and> good ?S (pp_incomingMsgId ?p) m"
    using ok unfolding endpoint_ok_def queue_ok_def by blast
  let ?ack = "ProtocolMessage AckType 0 (pp_incomingMsgId ?p) []"
  obtain p1 p2 where p: "pp_endAcceptReconnection now hl (pp_switchSocket now n ?p) = Inr p1" "pp_flush p1 = Inr p2"
    "pw_sent (pp_socketWriter p2) = concat (map encode (?ack # ms))"
    using reconnect_sends [OF ok ms(1)] by blast
  define q where "q = pp_switchSocket now n ?q"
  have q: "pp_socketReader q = mk_ProtocolReader now" "books q = (pp_incomingMsgId ?q, take (pp_incomingMsgId ?q) ?S)"
    using l by (simp_all add: q_def pp_switchSocket_def pp_disposeSocket_def Let_def books_def link_def)
  have okq: "endpoint_ok (sends s (\<not> e)) q"
    using ok' by (auto simp: endpoint_ok_def queue_ok_def writer_ok_def ack_ok_def q_def pp_switchSocket_def
        pp_disposeSocket_def Let_def intro: exI [of _ "[]"])
  have send: "\<forall>m \<in> set (?ack # ms). sendable m"
    using ms(3) good_ack [OF ok, of AckType "pp_incomingMsgId ?p"] by (auto simp: good_def)
  have "fold enter (?ack # ms) (books q) = (length ?S, ?S)"
    using enter_all [OF ms(2,3), of "pp_incomingMsgId ?q"] l q(2) by (simp add: link_def ProtocolMessage_def)
  moreover have "\<not> pr_ready (mk_ProtocolReader now)"
    by (simp add: pr_ready_def mk_ProtocolReader_def HeaderLength_def mk_ChunkStream_def cs_byteLength_def)
  ultimately have "\<exists>q'. feed now hl chunks q = Inr q' \<and> books q' = (length ?S, ?S)"
    if "concat chunks = pw_sent (pp_socketWriter p2)" for chunks
    using feed_ok [OF okq _ send, of chunks now hl] expects_new [of now "?ack # ms"] that p(3) q(1) by simp
  with p(1,2) show ?thesis by (fastforce simp: books_def be_events_def q_def)
qed

theorem reconnection_recovers_witness:
  "\<exists>p1 p2. pp_endAcceptReconnection 9 False (pp_switchSocket 9 1 (ends sample_network True)) = Inr p1 \<and> pp_flush p1 = Inr p2 \<and>
    (\<forall>chunks. concat chunks = pw_sent (pp_socketWriter p2) \<longrightarrow>
      (\<exists>q. feed 9 False chunks (pp_switchSocket 9 1 (ends sample_network (\<not> True))) = Inr q \<and>
        be_delivered (pp_onMessage q) @ be_bufferedMessages (pp_onMessage q) = sends sample_network True))"
  by (rule reconnection_recovers [OF sample_network_reachable])



end
