(* ===== verification/Utf8.thy ===== *)
theory Utf8
  imports TextLength VSBuffer
begin

section \<open>Strings in buffers\<close>

text \<open>
  \<open>VSBuffer.fromString\<close> and \<open>VSBuffer.toString\<close> of \<open>src/src/vs/base/common/buffer.ts\<close>, which encode a
  string in UTF-8 and decode it, with the encoder and the decoder of the run time written out: a
  surrogate without its partner is encoded as U+FFFD, and bytes that are not UTF-8 are decoded to
  U+FFFD, one for every maximal part of a sequence, as the standard prescribes.
\<close>

definition is_surrogate :: "code_unit \<Rightarrow> bool" where
  "is_surrogate c \<longleftrightarrow> is_high_surrogate c \<or> is_low_surrogate c"

fun scalar_value :: "js_string \<Rightarrow> nat" where
  "scalar_value [c] = (if is_surrogate c then 0xFFFD else unat c)"
| "scalar_value [h, l] = 0x10000 + (unat h - 0xD800) * 1024 + (unat l - 0xDC00)"
| "scalar_value _ = 0xFFFD"

definition utf8_bytes :: "nat \<Rightarrow> nat list" where
  "utf8_bytes u =
     (if u < 0x80 then [u]
      else if u < 0x800 then [192 + u div 64, 128 + u mod 64]
      else if u < 0x10000 then [224 + u div 4096, 128 + u div 64 mod 64, 128 + u mod 64]
      else [240 + u div 262144, 128 + u div 4096 mod 64, 128 + u div 64 mod 64, 128 + u mod 64])"

definition VSBuffer_fromString :: "js_string \<Rightarrow> vs_buffer" where
  "VSBuffer_fromString source = concat (map (\<lambda>p. map word_of_nat (utf8_bytes (scalar_value p))) (code_points source))"

definition utf16_units :: "nat \<Rightarrow> js_string" where
  "utf16_units u =
     (if u < 0x10000 then [word_of_nat u]
      else [word_of_nat (0xD800 + (u - 0x10000) div 1024), word_of_nat (0xDC00 + (u - 0x10000) mod 1024)])"

text \<open>The state of the decoder: bytes that are still needed, the number so far, bounds of the next byte.\<close>

record utf8_state =
  u_needed :: nat
  u_value :: nat
  u_lower :: nat
  u_upper :: nat

definition utf8_start :: utf8_state where
  "utf8_start = \<lparr>u_needed = 0, u_value = 0, u_lower = 128, u_upper = 191\<rparr>"

text \<open>The first byte of a sequence; \<open>None\<close> for a byte that cannot be first.\<close>

definition utf8_first :: "nat \<Rightarrow> utf8_state option" where
  "utf8_first b =
     (if 194 \<le> b \<and> b \<le> 223 then Some \<lparr>u_needed = 1, u_value = b - 192, u_lower = 128, u_upper = 191\<rparr>
      else if 224 \<le> b \<and> b \<le> 239
      then Some \<lparr>u_needed = 2, u_value = b - 224, u_lower = (if b = 224 then 160 else 128),
                 u_upper = (if b = 237 then 159 else 191)\<rparr>
      else if 240 \<le> b \<and> b \<le> 244
      then Some \<lparr>u_needed = 3, u_value = b - 240, u_lower = (if b = 240 then 144 else 128),
                 u_upper = (if b = 244 then 143 else 191)\<rparr>
      else None)"

function utf8_decode :: "utf8_state \<Rightarrow> nat list \<Rightarrow> js_string" where
  "utf8_decode st [] = (if u_needed st = 0 then [] else [0xFFFD])"
| "utf8_decode st (b # bs) =
     (if u_needed st = 0
      then if b < 128 then word_of_nat b # utf8_decode utf8_start bs
           else case utf8_first b of
             None \<Rightarrow> 0xFFFD # utf8_decode utf8_start bs
           | Some st' \<Rightarrow> utf8_decode st' bs
      else if b < u_lower st \<or> b > u_upper st then 0xFFFD # utf8_decode utf8_start (b # bs)
      else let v = u_value st * 64 + (b - 128)
           in if u_needed st = 1 then utf16_units v @ utf8_decode utf8_start bs
              else utf8_decode \<lparr>u_needed = u_needed st - 1, u_value = v, u_lower = 128, u_upper = 191\<rparr> bs)"
  by pat_completeness auto

termination
  by (relation "measure (\<lambda>(st, bs). 2 * length bs + (if u_needed st = 0 then 0 else 1))")
    (auto simp: utf8_start_def)

definition VSBuffer_toString :: "vs_buffer \<Rightarrow> js_string" where
  "VSBuffer_toString this = utf8_decode utf8_start (map unat this)"

subsection \<open>Round trip\<close>

definition is_scalar :: "nat \<Rightarrow> bool" where
  "is_scalar u \<longleftrightarrow> u < 0xD800 \<or> (0xE000 \<le> u \<and> u < 0x110000)"

lemma decode_two: "a < 32 \<Longrightarrow> 2 \<le> a \<Longrightarrow> b < 64 \<Longrightarrow>
    utf8_decode utf8_start ((192 + a) # (128 + b) # bs) = utf16_units (a * 64 + b) @ utf8_decode utf8_start bs"
  by (simp add: utf8_start_def utf8_first_def)

lemma decode_three: "a < 16 \<Longrightarrow> b < 64 \<Longrightarrow> c < 64 \<Longrightarrow> (a = 0 \<longrightarrow> 32 \<le> b) \<Longrightarrow> (a = 13 \<longrightarrow> b < 32) \<Longrightarrow>
    utf8_decode utf8_start ((224 + a) # (128 + b) # (128 + c) # bs) =
      utf16_units ((a * 64 + b) * 64 + c) @ utf8_decode utf8_start bs"
  by (auto simp: utf8_start_def utf8_first_def)

lemma decode_four: "a < 5 \<Longrightarrow> b < 64 \<Longrightarrow> c < 64 \<Longrightarrow> d < 64 \<Longrightarrow> (a = 0 \<longrightarrow> 16 \<le> b) \<Longrightarrow> (a = 4 \<longrightarrow> b < 16) \<Longrightarrow>
    utf8_decode utf8_start ((240 + a) # (128 + b) # (128 + c) # (128 + d) # bs) =
      utf16_units (((a * 64 + b) * 64 + c) * 64 + d) @ utf8_decode utf8_start bs"
  by (auto simp: utf8_start_def utf8_first_def)

lemma digits_64: "(u div 4096 * 64 + u div 64 mod 64) * 64 + u mod 64 = (u :: nat)"
proof -
  have "u div 4096 = u div 64 div 64" by (simp add: div_mult2_eq [symmetric])
  then show ?thesis by simp
qed

lemma digits_64_four: "((u div 262144 * 64 + u div 4096 mod 64) * 64 + u div 64 mod 64) * 64 + u mod 64 = (u :: nat)"
proof -
  have "u div 262144 = u div 4096 div 64" by (simp add: div_mult2_eq [symmetric])
  then have "u div 262144 * 64 + u div 4096 mod 64 = u div 4096" by simp
  then show ?thesis using digits_64 [of u] by simp
qed

lemma mod_block: "64 * a \<le> x \<Longrightarrow> x < 64 * a + m \<Longrightarrow> m \<le> 64 \<Longrightarrow> x mod 64 < (m :: nat)"
  by (auto simp: le_iff_add)

lemma decode_scalar:
  assumes "is_scalar u"
  shows "utf8_decode utf8_start (utf8_bytes u @ bs) = utf16_units u @ utf8_decode utf8_start bs"
proof -
  consider "u < 0x80" | "0x80 \<le> u" "u < 0x800" | "0x800 \<le> u" "u < 0x10000" | "0x10000 \<le> u" by linarith
  then show ?thesis
  proof cases
    case 1
    then show ?thesis by (simp add: utf8_bytes_def utf16_units_def utf8_start_def)
  next
    case 2
    then have "u div 64 < 32" "2 \<le> u div 64" by (auto simp: div_less_iff_less_mult less_eq_div_iff_mult_less_eq)
    with 2 decode_two [of "u div 64" "u mod 64" bs] show ?thesis by (simp add: utf8_bytes_def)
  next
    case 3
    have a: "u div 4096 < 16" using 3 by (simp add: div_less_iff_less_mult)
    have low: "32 \<le> u div 64 mod 64" if "u div 4096 = 0"
    proof -
      from that have "u < 4096" by simp
      then have "u div 64 < 64" by (simp add: div_less_iff_less_mult)
      with 3 show ?thesis by (simp add: less_eq_div_iff_mult_less_eq)
    qed
    have high: "u div 64 mod 64 < 32" if "u div 4096 = 13"
    proof -
      have "u = u div 4096 * 4096 + u mod 4096" "u mod 4096 < 4096" by simp_all
      then have "13 * 4096 \<le> u" "u < 14 * 4096" using that by linarith+
      with assms have "u < 0xD800" by (auto simp: is_scalar_def)
      then have "u div 64 < 864" by (simp add: div_less_iff_less_mult)
      moreover have "832 \<le> u div 64" using \<open>13 * 4096 \<le> u\<close> by (simp add: less_eq_div_iff_mult_less_eq)
      ultimately show ?thesis using mod_block [of 13 "u div 64" 32] by simp
    qed
    have "utf8_decode utf8_start ((224 + u div 4096) # (128 + u div 64 mod 64) # (128 + u mod 64) # bs) =
        utf16_units ((u div 4096 * 64 + u div 64 mod 64) * 64 + u mod 64) @ utf8_decode utf8_start bs"
      by (rule decode_three [OF a]) (use low high in simp_all)
    with 3 show ?thesis unfolding digits_64 by (simp add: utf8_bytes_def del: utf8_decode.simps)
  next
    case 4
    with assms have u: "u < 0x110000" by (simp add: is_scalar_def)
    then have a: "u div 262144 < 5" by (simp add: div_less_iff_less_mult)
    have low: "16 \<le> u div 4096 mod 64" if "u div 262144 = 0"
    proof -
      from that have "u < 262144" by simp
      then have "u div 4096 < 64" by (simp add: div_less_iff_less_mult)
      with 4 show ?thesis by (simp add: less_eq_div_iff_mult_less_eq)
    qed
    have high: "u div 4096 mod 64 < 16" if "u div 262144 = 4"
    proof -
      have "u div 4096 < 272" using u by (simp add: div_less_iff_less_mult)
      moreover have "256 \<le> u div 4096"
      proof -
        have "4 * 262144 \<le> u" using that div_times_less_eq_dividend [of u 262144] by simp
        then show ?thesis by (simp add: less_eq_div_iff_mult_less_eq)
      qed
      ultimately show ?thesis using mod_block [of 4 "u div 4096" 16] by simp
    qed
    have "utf8_decode utf8_start ((240 + u div 262144) # (128 + u div 4096 mod 64) # (128 + u div 64 mod 64) # (128 + u mod 64) # bs) =
        utf16_units (((u div 262144 * 64 + u div 4096 mod 64) * 64 + u div 64 mod 64) * 64 + u mod 64) @
          utf8_decode utf8_start bs"
      by (rule decode_four [OF a]) (use low high in simp_all)
    with 4 show ?thesis unfolding digits_64_four by (simp add: utf8_bytes_def del: utf8_decode.simps)
  qed
qed

lemma utf8_bytes_bound: "u < 0x110000 \<Longrightarrow> b \<in> set (utf8_bytes u) \<Longrightarrow> b < 256"
proof -
  assume u: "u < 0x110000" and b: "b \<in> set (utf8_bytes u)"
  have *: "128 + v mod 64 < 256" for v :: nat
    using mod_less_divisor [of 64 v] by linarith
  show ?thesis
    using b u * [of u] * [of "u div 64"] * [of "u div 4096"]
    by (auto simp: utf8_bytes_def div_less_iff_less_mult split: if_splits)
qed

lemma unat_code_unit: "unat (c :: code_unit) < 65536"
  using unsigned_less [of c, where ?'a = nat] by simp

lemma surrogate_range:
  "is_high_surrogate c \<longleftrightarrow> 0xD800 \<le> unat c \<and> unat c \<le> 0xDBFF"
  "is_low_surrogate c \<longleftrightarrow> 0xDC00 \<le> unat c \<and> unat c \<le> 0xDFFF"
  by (simp_all add: is_high_surrogate_def is_low_surrogate_def word_le_nat_alt)

text \<open>A string without a surrogate on its own.\<close>

definition well_formed_string :: "js_string \<Rightarrow> bool" where
  "well_formed_string s \<longleftrightarrow> (\<forall>p \<in> set (code_points s). case p of [c] \<Rightarrow> \<not> is_surrogate c | _ \<Rightarrow> True)"

lemma code_points_shape:
  "p \<in> set (code_points s) \<Longrightarrow> (\<exists>c. p = [c]) \<or> (\<exists>h l. p = [h, l] \<and> is_high_surrogate h \<and> is_low_surrogate l)"
  by (induction s rule: code_points.induct) (auto split: if_splits)

lemma concat_code_points: "concat (code_points s) = s"
  by (induction s rule: code_points.induct) auto

lemma scalar_value_ok:
  assumes "(\<exists>c. p = [c]) \<or> (\<exists>h l. p = [h, l] \<and> is_high_surrogate h \<and> is_low_surrogate l)"
  shows "is_scalar (scalar_value p)"
    and "(case p of [c] \<Rightarrow> \<not> is_surrogate c | _ \<Rightarrow> True) \<Longrightarrow> utf16_units (scalar_value p) = p"
proof -
  from assms consider (single) c where "p = [c]" | (pair) h l where "p = [h, l]" "is_high_surrogate h" "is_low_surrogate l"
    by blast
  then have "is_scalar (scalar_value p) \<and>
      ((case p of [c] \<Rightarrow> \<not> is_surrogate c | _ \<Rightarrow> True) \<longrightarrow> utf16_units (scalar_value p) = p)"
  proof cases
    case single
    with unat_code_unit [of c] show ?thesis
      by (auto simp: is_scalar_def is_surrogate_def surrogate_range utf16_units_def)
  next
    case pair
    define a where "a = unat h - 0xD800"
    define b where "b = unat l - 0xDC00"
    have a: "unat h = 0xD800 + a" "a < 1024" and b: "unat l = 0xDC00 + b" "b < 1024"
      using pair(2,3) by (auto simp: a_def b_def surrogate_range)
    have v: "scalar_value p = 0x10000 + a * 1024 + b" using pair(1) by (simp add: a_def b_def)
    have "word_of_nat (0xD800 + a) = h" "word_of_nat (0xDC00 + b) = l"
      by (metis a(1) of_nat_unat ucast_id, metis b(1) of_nat_unat ucast_id)
    with a(2) b(2) v show ?thesis
      by (simp add: is_scalar_def utf16_units_def pair(1))
  qed
  then show "is_scalar (scalar_value p)"
    "(case p of [c] \<Rightarrow> \<not> is_surrogate c | _ \<Rightarrow> True) \<Longrightarrow> utf16_units (scalar_value p) = p"
    by simp_all
qed

lemma unat_utf8_bytes:
  assumes "is_scalar u"
  shows "map unat (map (word_of_nat :: nat \<Rightarrow> byte) (utf8_bytes u)) = utf8_bytes u"
proof -
  have "u < 0x110000" using assms by (auto simp: is_scalar_def)
  then have "unat (word_of_nat b :: byte) = b" if "b \<in> set (utf8_bytes u)" for b
    using utf8_bytes_bound [OF _ that] by (simp add: unat_of_nat)
  then show ?thesis by (simp add: map_idI)
qed

lemma decode_points:
  assumes "\<forall>p \<in> set ps. (\<exists>c. p = [c]) \<or> (\<exists>h l. p = [h, l] \<and> is_high_surrogate h \<and> is_low_surrogate l)"
  shows "utf8_decode utf8_start (map unat (concat (map (\<lambda>p. map (word_of_nat :: nat \<Rightarrow> byte) (utf8_bytes (scalar_value p))) ps))) =
    concat (map (\<lambda>p. utf16_units (scalar_value p)) ps)"
  using assms
proof (induction ps)
  case Nil
  show ?case by (simp add: utf8_start_def)
next
  case (Cons p ps)
  then have s: "is_scalar (scalar_value p)" by (intro scalar_value_ok) simp
  with Cons show ?case
    by (simp only: list.map concat.simps map_append unat_utf8_bytes decode_scalar list.set ball_simps insert_iff)
       (simp add: decode_scalar)
qed

text \<open>Decoding undoes encoding; a lone surrogate has become U+FFFD.\<close>

lemma toString_fromString:
  assumes "well_formed_string s"
  shows "VSBuffer_toString (VSBuffer_fromString s) = s"
proof -
  have "utf16_units (scalar_value p) = p" if "p \<in> set (code_points s)" for p
    using assms that scalar_value_ok(2) [OF code_points_shape [OF that]] by (simp add: well_formed_string_def)
  then have "map (\<lambda>p. utf16_units (scalar_value p)) (code_points s) = code_points s"
    by (simp add: map_idI)
  then show ?thesis
    unfolding VSBuffer_toString_def VSBuffer_fromString_def
    by (subst decode_points) (auto simp: concat_code_points dest: code_points_shape)
qed

end
