(* ===== verification/IpcSerialize.thy ===== *)
theory IpcSerialize
  imports Utf8
begin

section \<open>Values on the wire\<close>

text \<open>
  \<open>serialize\<close> and \<open>deserialize\<close> of \<open>src/src/vs/base/parts/ipc/common/ipc.ts\<close>, with numbers of variable
  length, \<open>BufferReader\<close> and \<open>BufferWriter\<close>. What is neither \<open>undefined\<close>, a string, a buffer, an array
  nor an integer of 32 bits goes through \<open>JSON.stringify\<close> and \<open>JSON.parse\<close>, which are arguments of the
  model; integers that do not fit into 32 bits go there as well.
\<close>

subsection \<open>Readers and writers\<close>

record buffer_reader =
  br_pos :: nat
  br_buffer :: vs_buffer

definition mk_BufferReader :: "vs_buffer \<Rightarrow> buffer_reader" where
  "mk_BufferReader buffer = \<lparr>br_pos = 0, br_buffer = buffer\<rparr>"

definition br_read :: "int \<Rightarrow> buffer_reader \<Rightarrow> vs_buffer \<times> buffer_reader" where
  "br_read bytes this =
     (let res = VSBuffer_slice (br_buffer this) (int (br_pos this)) (int (br_pos this) + bytes)
      in (res, this\<lparr>br_pos := br_pos this + length res\<rparr>))"

text \<open>A writer is the list of the buffers that were written.\<close>

definition bw_write :: "vs_buffer \<Rightarrow> vs_buffer list \<Rightarrow> vs_buffer list" where
  "bw_write buffer this = this @ [buffer]"

definition bw_buffer :: "vs_buffer list \<Rightarrow> vs_buffer result" where
  "bw_buffer this = VSBuffer_concat this None"

definition bw_dispose :: "vs_buffer list \<Rightarrow> vs_buffer list" where
  "bw_dispose this = []"

subsection \<open>Numbers of variable length\<close>

definition createOneByteBuffer :: "int \<Rightarrow> vs_buffer" where
  "createOneByteBuffer value = writeUInt8 (VSBuffer_alloc 1) value 0"

lemma shift_right_7:
  "0 < v \<Longrightarrow> v < 4294967296 \<Longrightarrow> 0 \<le> shift_right v 7 \<and> shift_right v 7 < v"
  by (simp add: shift_right_def pos_imp_zdiv_nonneg_iff int_div_less_self)

lemma shift_right_bounds: "0 \<le> shift_right v 7 \<and> shift_right v 7 < 4294967296"
proof -
  have "v mod 4294967296 div 128 \<le> v mod 4294967296" by (rule zdiv_mono2 [of _ 1 128, simplified]) simp
  moreover have "v mod 4294967296 < 4294967296" by simp
  ultimately show ?thesis by (simp add: shift_right_def pos_imp_zdiv_nonneg_iff)
qed

text \<open>The measure of both loops: after one turn a number has 32 bits, and then it gets smaller.\<close>

definition vql_size :: "int \<Rightarrow> nat" where
  "vql_size v = (if 0 \<le> v \<and> v < 4294967296 then nat v else 4294967296)"

lemma vql_size_less: "v \<noteq> 0 \<Longrightarrow> vql_size (shift_right v 7) < vql_size v"
  using shift_right_7 [of v] shift_right_bounds [of v] by (auto simp: vql_size_def nat_less_iff)

function vql_len :: "int \<Rightarrow> nat \<Rightarrow> nat" where
  "vql_len v2 len = (if v2 \<noteq> 0 then vql_len (shift_right v2 7) (len + 1) else len)"
  by auto

termination
  by (relation "measure (\<lambda>(v, len). vql_size v)") (simp_all add: vql_size_less)

function vql_fill :: "nat \<Rightarrow> int \<Rightarrow> vs_buffer \<Rightarrow> vs_buffer" where
  "vql_fill i value scratch =
     (if value \<noteq> 0
      then let scratch = store8 scratch i (value AND 127);
               value = shift_right value 7;
               scratch = (if value > 0
                          then store8 scratch i ((case load8 scratch i of None \<Rightarrow> 0 | Some b \<Rightarrow> b) OR 128)
                          else scratch)
           in vql_fill (Suc i) value scratch
      else scratch)"
  by auto

termination
  by (relation "measure (\<lambda>(i, v, scratch). vql_size v)") (simp_all add: vql_size_less)

declare vql_len.simps [simp del] vql_fill.simps [simp del]

definition writeInt32VQL :: "int \<Rightarrow> vs_buffer list \<Rightarrow> vs_buffer list" where
  "writeInt32VQL value writer =
     (if value = 0 then bw_write (createOneByteBuffer 0) writer
      else bw_write (vql_fill 0 value (VSBuffer_alloc (vql_len value 0))) writer)"

lemma br_read_one:
  "br_read 1 r = (take 1 (drop (br_pos r) (br_buffer r)),
     r\<lparr>br_pos := br_pos r + length (take 1 (drop (br_pos r) (br_buffer r)))\<rparr>)"
  by (simp add: br_read_def Let_def VSBuffer_slice_def js_slice_def js_relative_index_def min_def nat_add_distrib)

text \<open>
  Reading: \<open>(next.buffer[0] & 0b01111111) << n\<close> shifts by \<open>n\<close> modulo 32, and \<open>|=\<close> keeps a signed number of
  32 bits. At the end of the buffer \<open>next.buffer[0]\<close> is \<open>undefined\<close>, which has no bit set.
\<close>

function readIntVQL_loop :: "nat \<Rightarrow> 32 word \<Rightarrow> buffer_reader \<Rightarrow> int \<times> buffer_reader" where
  "readIntVQL_loop n value reader =
     (let (nxt, reader') = br_read 1 reader;
          b = (case load8 nxt 0 of None \<Rightarrow> 0 | Some b \<Rightarrow> b);
          value = value OR push_bit (n mod 32) (word_of_int (b AND 127))
      in if b AND 128 = 0 then (sint value, reader')
         else readIntVQL_loop (n + 7) value reader')"
  by auto

termination
proof (relation "measure (\<lambda>(n, value, r). length (br_buffer r) - br_pos r)")
  fix n w reader x nxt reader' b v
  assume x: "x = br_read 1 reader" "(nxt, reader') = x" "b = (case load8 nxt 0 of None \<Rightarrow> 0 | Some b \<Rightarrow> b)"
    and more: "b AND 128 \<noteq> 0"
  have "nxt \<noteq> []" using x(3) more by (auto simp: load8_def)
  with x(1,2) show "((n + 7, v, reader'), n, w, reader) \<in> measure (\<lambda>(n, value, r). length (br_buffer r) - br_pos r)"
    by (auto simp: br_read_one)
qed simp

declare readIntVQL_loop.simps [simp del]

definition readIntVQL :: "buffer_reader \<Rightarrow> int \<times> buffer_reader" where
  "readIntVQL reader = readIntVQL_loop 0 0 reader"

subsection \<open>Numbers of variable length: what is written is read\<close>

text \<open>The groups of seven bits of a number, the low one first; all but the last one have the high bit set.\<close>

function vql_bytes :: "nat \<Rightarrow> vs_buffer" where
  "vql_bytes u = (if u < 128 then [word_of_nat u] else word_of_nat (128 + u mod 128) # vql_bytes (u div 128))"
  by auto

termination by (relation "measure id") auto

declare vql_bytes.simps [simp del]

lemma and_127: "(v :: int) AND 127 = v mod 128"
  using take_bit_eq_mask [of 7 v] by (simp add: take_bit_eq_mod mask_eq_exp_minus_1)

lemma or_128: "0 \<le> x \<Longrightarrow> x < 128 \<Longrightarrow> (x :: int) OR 128 = x + 128"
  using set_bit_eq_or [of 7 x] set_bit_eq [of 7 x] by (simp add: bit_iff_odd)

lemma and_128: "0 \<le> b \<Longrightarrow> b < 256 \<Longrightarrow> (b :: int) AND 128 = 0 \<longleftrightarrow> b < 128"
proof -
  assume b: "0 \<le> b" "b < 256"
  have "b AND 128 = 0 \<longleftrightarrow> \<not> bit b 7" using bit_iff_and_push_bit_not_eq_0 [of b 7] by simp
  also have "\<dots> \<longleftrightarrow> even (b div 128)" by (simp add: bit_iff_odd)
  also have "\<dots> \<longleftrightarrow> b < 128"
  proof (cases "b < 128")
    case False
    with b have "b div 128 = 1" by (intro int_div_pos_eq [of _ _ _ "b - 128"]) auto
    with False show ?thesis by simp
  qed (use b in simp)
  finally show ?thesis .
qed

text \<open>The 32 bits of a number.\<close>

definition bits32 :: "int \<Rightarrow> nat" where
  "bits32 v = nat (v mod 4294967296)"

lemma bits32_shift: "bits32 (shift_right v 7) = bits32 v div 128"
proof -
  have "shift_right v 7 mod 4294967296 = shift_right v 7" using shift_right_bounds [of v] by simp
  then show ?thesis by (simp add: bits32_def shift_right_def nat_div_distrib)
qed

lemma bits32_pos: "0 \<le> v \<Longrightarrow> v < 4294967296 \<Longrightarrow> v \<noteq> 0 \<longleftrightarrow> bits32 v \<noteq> 0"
  by (simp add: bits32_def)

lemma shift_right_zero: "shift_right v 7 = 0 \<longleftrightarrow> bits32 v < 128"
proof -
  have "shift_right v 7 = 0 \<longleftrightarrow> bits32 (shift_right v 7) = 0"
    using bits32_pos [of "shift_right v 7"] shift_right_bounds [of v] by auto
  then show ?thesis by (simp add: bits32_shift div_eq_0_iff)
qed

lemma vql_len_eq: "v \<noteq> 0 \<Longrightarrow> vql_len v n = n + length (vql_bytes (bits32 v))"
proof (induction v n rule: vql_len.induct)
  case (1 v n)
  show ?case
  proof (cases "bits32 v < 128")
    case True
    with 1(2) show ?thesis
      by (simp add: vql_len.simps [of v] vql_len.simps [of 0] shift_right_zero [symmetric] vql_bytes.simps)
  next
    case False
    with 1 show ?thesis
      by (simp add: vql_len.simps [of v] shift_right_zero bits32_shift vql_bytes.simps [of "bits32 v"])
  qed
qed

lemma mod_128_bits32: "v mod 128 = int (bits32 v mod 128)"
proof -
  have "v mod 128 = v mod 4294967296 mod 128" by (simp add: mod_mod_cancel)
  then show ?thesis by (simp add: bits32_def zmod_int)
qed

lemma load_stored: "i < length d \<Longrightarrow> load8 (store8 d i x) i = Some (x mod 256)"
  by (simp add: load8_def store8_def uint_word_of_int)

lemma vql_fill_eq:
  assumes "v \<noteq> 0" and "i + length (vql_bytes (bits32 v)) \<le> length d"
  shows "vql_fill i v d = take i d @ vql_bytes (bits32 v) @ drop (i + length (vql_bytes (bits32 v))) d"
  using assms
proof (induction i v d rule: vql_fill.induct)
  case (1 i v d)
  let ?u = "bits32 v" and ?x = "int (bits32 v mod 128)"
  have i: "i < length d" using 1(3) by (simp add: vql_bytes.simps [of ?u] split: if_splits)
  then have split: "take (Suc i) (d[i := y]) = take i d @ [y]" "drop (Suc i + k) (d[i := y]) = drop (Suc i + k) d" for y k
    by (simp_all add: take_Suc_conv_app_nth)
  show ?case
  proof (cases "?u < 128")
    case True
    with 1(2) have "vql_fill i v d = store8 d i ?x"
      by (simp add: vql_fill.simps [of i v] vql_fill.simps [of _ 0] shift_right_zero [THEN iffD2] and_127 mod_128_bits32)
    with True i show ?thesis
      by (simp add: vql_bytes.simps store8_def upd_conv_take_nth_drop)
  next
    case False
    have pos: "shift_right v 7 > 0"
      using False shift_right_zero [of v] shift_right_bounds [of v] by auto
    define d' where "d' = d[i := word_of_nat (128 + ?u mod 128)]"
    have "store8 (store8 d i ?x) i ((case load8 (store8 d i ?x) i of None \<Rightarrow> 0 | Some b \<Rightarrow> b) OR 128) = d'"
      using i by (simp add: load_stored or_128) (simp add: store8_def d'_def add.commute)
    then have run: "vql_fill i v d = vql_fill (Suc i) (shift_right v 7) d'"
      using 1(2) pos by (simp add: vql_fill.simps [of i v] and_127 mod_128_bits32 Let_def)
    have bytes: "vql_bytes ?u = word_of_nat (128 + ?u mod 128) # vql_bytes (bits32 (shift_right v 7))"
      using False by (simp add: vql_bytes.simps [of ?u] bits32_shift)
    have "vql_fill (Suc i) (shift_right v 7) d' = take (Suc i) d' @ vql_bytes (bits32 (shift_right v 7)) @
        drop (Suc i + length (vql_bytes (bits32 (shift_right v 7)))) d'"
    proof -
      have "store8 (store8 d i (v AND 127)) i ((case load8 (store8 d i (v AND 127)) i of None \<Rightarrow> 0 | Some b \<Rightarrow> b) OR 128) = d'"
        using \<open>store8 (store8 d i ?x) i _ = d'\<close> by (simp add: and_127 mod_128_bits32)
      moreover have "Suc i + length (vql_bytes (bits32 (shift_right v 7))) \<le> length d'"
        using 1(3) by (simp add: bytes d'_def)
      ultimately show ?thesis
        using 1(1) [OF 1(2) refl refl refl] pos by simp
    qed
    then show ?thesis
      unfolding run bytes by (simp add: d'_def split)
  qed
qed

lemma writeInt32VQL_bytes: "writeInt32VQL v w = w @ [vql_bytes (bits32 v)]"
proof (cases "v = 0")
  case True
  then show ?thesis
    by (simp add: writeInt32VQL_def bw_write_def createOneByteBuffer_def writeUInt8_def store8_def VSBuffer_alloc_def
        vql_bytes.simps bits32_def)
next
  case False
  then show ?thesis
    by (simp add: writeInt32VQL_def bw_write_def vql_len_eq vql_fill_eq)
qed

text \<open>What is left in a reader.\<close>

definition br_rest :: "buffer_reader \<Rightarrow> vs_buffer" where
  "br_rest r = drop (br_pos r) (br_buffer r)"

definition br_skip :: "nat \<Rightarrow> buffer_reader \<Rightarrow> buffer_reader" where
  "br_skip n r = r\<lparr>br_pos := br_pos r + n\<rparr>"

lemma br_read_nat: "br_read (int n) r = (take n (br_rest r), br_skip (min n (length (br_rest r))) r)"
  by (simp add: br_read_def Let_def VSBuffer_slice_def js_slice_def js_relative_index_def min_def br_rest_def br_skip_def
      nat_add_distrib)

lemma br_rest_skip [simp]: "br_rest (br_skip n r) = drop n (br_rest r)"
  by (simp add: br_rest_def br_skip_def add.commute)

lemma br_skip_skip [simp]: "br_skip a (br_skip b r) = br_skip (b + a) r"
  by (simp add: br_skip_def add.assoc)

lemma bit_word_of_nat: "bit (word_of_nat m :: 32 word) k \<longleftrightarrow> k < 32 \<and> bit m k"
  using bit_word_of_int_iff [of "int m" k, where ?'a = 32] by (simp add: bit_of_nat_iff_bit)

lemma word_groups:
  "(word_of_nat u :: 32 word) = word_of_nat (u mod 128) OR push_bit 7 (word_of_nat (u div 128))"
proof (rule bit_word_eqI)
  fix k
  assume "k < LENGTH(32)"
  then have k: "k < 32" by simp
  have "bit (u mod 128) k \<longleftrightarrow> k < 7 \<and> bit u k" using bit_take_bit_iff [of 7 u k] by (simp add: take_bit_eq_mod)
  moreover have "7 \<le> k \<Longrightarrow> bit (u div 128) (k - 7) \<longleftrightarrow> bit u k"
    using bit_drop_bit_eq [of 7 u] by (simp add: drop_bit_eq_div fun_eq_iff)
  ultimately show "bit (word_of_nat u :: 32 word) k =
      bit (word_of_nat (u mod 128) OR push_bit 7 (word_of_nat (u div 128)) :: 32 word) k"
    using k by (auto simp: bit_or_iff bit_push_bit_iff bit_word_of_nat)
qed

lemma load_byte: "m < 256 \<Longrightarrow> load8 [word_of_nat m] 0 = Some (int m)"
proof -
  assume "m < 256"
  then have "uint (word_of_int (int m) :: byte) = int m" by (simp only: uint_word_of_int) simp
  then show ?thesis by (simp add: load8_def)
qed

lemma readIntVQL_loop_bytes:
  assumes "br_rest r = vql_bytes u @ bs" and "u * 2 ^ n < 4294967296" and "u = 0 \<longrightarrow> n = 0"
  shows "readIntVQL_loop n w r = (sint (w OR push_bit n (word_of_nat u)), br_skip (length (vql_bytes u)) r)"
  using assms
proof (induction u arbitrary: n w r rule: vql_bytes.induct)
  case (1 u)
  have n: "n < 32"
  proof (rule ccontr)
    assume "\<not> n < 32"
    then have "(2 :: nat) ^ 32 \<le> 2 ^ n" by (intro power_increasing) simp_all
    moreover have "u \<noteq> 0" using 1(4) \<open>\<not> n < 32\<close> by auto
    ultimately have "2 ^ 32 \<le> u * 2 ^ n" by (metis Suc_leI le_trans mult.left_neutral mult_le_mono1 neq0_conv One_nat_def)
    with 1(3) show False by simp
  qed
  have read: "br_read 1 r = ([b], br_skip 1 r)" if "br_rest r = b # cs" for b cs
    using br_read_nat [of 1 r] that by simp
  show ?case
  proof (cases "u < 128")
    case True
    then have rest: "br_rest r = word_of_nat u # bs" using 1(2) by (simp add: vql_bytes.simps)
    have b: "int u AND 127 = int u" "int u AND 128 = 0" using True and_128 [of "int u"] by (simp_all add: and_127)
    have "readIntVQL_loop n w r = (sint (w OR push_bit (n mod 32) (word_of_int (int u))), br_skip 1 r)"
      by (subst readIntVQL_loop.simps)
        (simp only: read [OF rest] Let_def prod.case load_byte [of u] True less_trans [OF True] option.case b if_True,
          use True in \<open>simp add: load_byte b\<close>)
    with True n show ?thesis by (simp add: vql_bytes.simps)
  next
    case False
    let ?b = "128 + u mod 128"
    have rest: "br_rest r = word_of_nat ?b # vql_bytes (u div 128) @ bs"
      using 1(2) False by (simp add: vql_bytes.simps [of u])
    have "u mod 128 < 128" by simp
    then have b: "int ?b mod 256 = int ?b" "int ?b AND 127 = int (u mod 128)" "int ?b AND 128 \<noteq> 0"
      using and_128 [of "int ?b"] by (simp_all add: and_127 zmod_int)
    define w' where "w' = w OR push_bit n (word_of_nat (u mod 128))"
    have w': "w OR push_bit (n mod 32) (word_of_int (int ?b AND 127)) = w'"
      unfolding b(2) w'_def using n by simp
    have load: "load8 [word_of_nat ?b] 0 = Some (int ?b)"
      using \<open>u mod 128 < 128\<close> by (intro load_byte) linarith
    have "readIntVQL_loop n w r = readIntVQL_loop (n + 7) w' (br_skip 1 r)"
      by (subst readIntVQL_loop.simps) (simp only: read [OF rest] Let_def prod.case load option.case b(3) if_False w')
    also have "\<dots> = (sint (w' OR push_bit (n + 7) (word_of_nat (u div 128))),
        br_skip (length (vql_bytes (u div 128))) (br_skip 1 r))"
    proof (rule 1(1) [OF False])
      have "u div 128 * 2 ^ (n + 7) = u div 128 * 128 * 2 ^ n" by (simp add: power_add)
      also have "\<dots> \<le> u * 2 ^ n" by (intro mult_le_mono1) simp
      finally show "u div 128 * 2 ^ (n + 7) < 4294967296" using 1(3) by simp
    qed (use False rest in \<open>simp_all add: div_eq_0_iff\<close>)
    also have "w' OR push_bit (n + 7) (word_of_nat (u div 128)) = w OR push_bit n (word_of_nat u)"
      unfolding w'_def word_groups [of u] push_bit_or push_bit_push_bit by (simp add: or.assoc add.commute)
    finally show ?thesis using False by (simp add: vql_bytes.simps [of u])
  qed
qed

lemma readIntVQL_bytes:
  assumes "br_rest r = vql_bytes (bits32 v) @ bs"
  shows "readIntVQL r = (toInt32 v, br_skip (length (vql_bytes (bits32 v))) r)"
proof -
  have "bits32 v < 4294967296" by (simp add: bits32_def nat_less_iff)
  then have "readIntVQL r = (sint (word_of_nat (bits32 v) :: 32 word), br_skip (length (vql_bytes (bits32 v))) r)"
    using readIntVQL_loop_bytes [OF assms, of 0 0] by (simp add: readIntVQL_def)
  moreover have "(word_of_nat (bits32 v) :: 32 word) = word_of_int v"
  proof -
    have "(word_of_nat (bits32 v) :: 32 word) = word_of_int (int (bits32 v))" by simp
    also have "\<dots> = word_of_int v" by (simp add: bits32_def word_of_int_eq_iff take_bit_eq_mod)
    finally show ?thesis .
  qed
  ultimately show ?thesis by (simp add: signed_toInt32)
qed

subsection \<open>Values\<close>

text \<open>A \<open>Number\<close> is an integral one; \<open>Json\<close> stands for every other value.\<close>

datatype 'j ipc_value = Undefined | Text js_string | NativeBuffer vs_buffer | Buffer vs_buffer |
  Array "'j ipc_value list" | Number int | Json 'j

text \<open>The enumeration \<open>DataType\<close>.\<close>

definition DataType_Undefined :: int where "DataType_Undefined = 0"
definition DataType_String :: int where "DataType_String = 1"
definition DataType_Buffer :: int where "DataType_Buffer = 2"
definition DataType_VSBuffer :: int where "DataType_VSBuffer = 3"
definition DataType_Array :: int where "DataType_Array = 4"
definition DataType_Object :: int where "DataType_Object = 5"
definition DataType_Int :: int where "DataType_Int = 6"

lemmas data_type_defs = DataType_Undefined_def DataType_String_def DataType_Buffer_def DataType_VSBuffer_def
  DataType_Array_def DataType_Object_def DataType_Int_def

definition write_block :: "int \<Rightarrow> vs_buffer \<Rightarrow> vs_buffer list \<Rightarrow> vs_buffer list" where
  "write_block type buffer writer =
     bw_write buffer (writeInt32VQL (int (length buffer)) (bw_write (createOneByteBuffer type) writer))"

fun serialize :: "('j ipc_value \<Rightarrow> js_string) \<Rightarrow> vs_buffer list \<Rightarrow> 'j ipc_value \<Rightarrow> vs_buffer list"
  and serialize_all :: "('j ipc_value \<Rightarrow> js_string) \<Rightarrow> vs_buffer list \<Rightarrow> 'j ipc_value list \<Rightarrow> vs_buffer list" where
  "serialize stringify writer Undefined = bw_write (createOneByteBuffer DataType_Undefined) writer"
| "serialize stringify writer (Text data) = write_block DataType_String (VSBuffer_fromString data) writer"
| "serialize stringify writer (NativeBuffer data) = write_block DataType_Buffer data writer"
| "serialize stringify writer (Buffer data) = write_block DataType_VSBuffer data writer"
| "serialize stringify writer (Array data) =
     serialize_all stringify
       (writeInt32VQL (int (length data)) (bw_write (createOneByteBuffer DataType_Array) writer)) data"
| "serialize stringify writer (Number data) =
     (if toInt32 data = data then writeInt32VQL data (bw_write (createOneByteBuffer DataType_Int) writer)
      else write_block DataType_Object (VSBuffer_fromString (stringify (Number data))) writer)"
| "serialize stringify writer (Json data) =
     write_block DataType_Object (VSBuffer_fromString (stringify (Json data))) writer"
| "serialize_all stringify writer [] = writer"
| "serialize_all stringify writer (el # els) = serialize_all stringify (serialize stringify writer el) els"

text \<open>
  Reading, on fuel. A type that is missing or unknown gives \<open>undefined\<close>. The length of an array is not
  bounded by what is left in the buffer: behind its end every element is \<open>undefined\<close>.
\<close>

definition read_block :: "buffer_reader \<Rightarrow> vs_buffer \<times> buffer_reader" where
  "read_block reader = (let (n, reader) = readIntVQL reader in br_read n reader)"

fun deserialize :: "(js_string \<Rightarrow> 'j ipc_value result) \<Rightarrow> nat \<Rightarrow> buffer_reader \<Rightarrow> ('j ipc_value \<times> buffer_reader) result"
  and deserialize_all ::
    "(js_string \<Rightarrow> 'j ipc_value result) \<Rightarrow> nat \<Rightarrow> int \<Rightarrow> buffer_reader \<Rightarrow> ('j ipc_value list \<times> buffer_reader) result" where
  "deserialize parse 0 reader = Inl OutOfFuel"
| "deserialize parse (Suc fuel) reader =
     (let (t, reader) = br_read 1 reader
      in case readUInt8 t 0 of
           None \<Rightarrow> Inr (Undefined, reader)
         | Some type \<Rightarrow>
             if type = DataType_Undefined then Inr (Undefined, reader)
             else if type = DataType_String
             then let (b, reader) = read_block reader in Inr (Text (VSBuffer_toString b), reader)
             else if type = DataType_Buffer then let (b, reader) = read_block reader in Inr (NativeBuffer b, reader)
             else if type = DataType_VSBuffer then let (b, reader) = read_block reader in Inr (Buffer b, reader)
             else if type = DataType_Array
             then let (len, reader) = readIntVQL reader
                  in bind_result (deserialize_all parse fuel len reader) (\<lambda>(vs, reader). Inr (Array vs, reader))
             else if type = DataType_Object
             then let (b, reader) = read_block reader
                  in bind_result (parse (VSBuffer_toString b)) (\<lambda>v. Inr (v, reader))
             else if type = DataType_Int then let (n, reader) = readIntVQL reader in Inr (Number n, reader)
             else Inr (Undefined, reader))"
| "deserialize_all parse 0 n reader = Inl OutOfFuel"
| "deserialize_all parse (Suc fuel) n reader =
     (if n \<le> 0 then Inr ([], reader)
      else bind_result (deserialize parse fuel reader) (\<lambda>(v, reader).
             bind_result (deserialize_all parse fuel (n - 1) reader) (\<lambda>(vs, reader). Inr (v # vs, reader))))"

declare deserialize.simps [simp del] deserialize_all.simps [simp del]

subsection \<open>Round trip of values\<close>

text \<open>What \<open>JSON\<close> has to do for a value, and the values that survive.\<close>

definition json_faithful :: "('j ipc_value \<Rightarrow> js_string) \<Rightarrow> (js_string \<Rightarrow> 'j ipc_value result) \<Rightarrow> 'j ipc_value \<Rightarrow> bool" where
  "json_faithful stringify parse v \<longleftrightarrow> parse (stringify v) = Inr v \<and> well_formed_string (stringify v) \<and>
     length (VSBuffer_fromString (stringify v)) < 2147483648"

fun value_ok :: "('j ipc_value \<Rightarrow> bool) \<Rightarrow> 'j ipc_value \<Rightarrow> bool" where
  "value_ok json Undefined = True"
| "value_ok json (Text s) \<longleftrightarrow> well_formed_string s \<and> length (VSBuffer_fromString s) < 2147483648"
| "value_ok json (NativeBuffer b) \<longleftrightarrow> length b < 2147483648"
| "value_ok json (Buffer b) \<longleftrightarrow> length b < 2147483648"
| "value_ok json (Array vs) \<longleftrightarrow> length vs < 2147483648 \<and> (\<forall>v \<in> set vs. value_ok json v)"
| "value_ok json (Number n) \<longleftrightarrow> is_int32 n \<or> json (Number n)"
| "value_ok json (Json j) = json (Json j)"

text \<open>Fuel that is enough for a value.\<close>

fun value_fuel :: "'j ipc_value \<Rightarrow> nat" and list_fuel :: "'j ipc_value list \<Rightarrow> nat" where
  "value_fuel (Array vs) = Suc (list_fuel vs)"
| "value_fuel Undefined = 1"
| "value_fuel (Text s) = 1"
| "value_fuel (NativeBuffer b) = 1"
| "value_fuel (Buffer b) = 1"
| "value_fuel (Number n) = 1"
| "value_fuel (Json j) = 1"
| "list_fuel [] = 1"
| "list_fuel (v # vs) = Suc (max (value_fuel v) (list_fuel vs))"

lemma serialize_behind:
  "serialize stringify (u @ w) v = u @ serialize stringify w v"
  "serialize_all stringify (u @ w) vs = u @ serialize_all stringify w vs"
  by (induction stringify w v and stringify w vs rule: serialize_serialize_all.induct)
    (simp_all add: bw_write_def write_block_def writeInt32VQL_bytes)

lemma serialize_append:
  "serialize stringify w v = w @ serialize stringify [] v"
  "serialize_all stringify w vs = w @ serialize_all stringify [] vs"
  using serialize_behind [of stringify w "[]"] by simp_all

lemma one_byte: "createOneByteBuffer v = [word_of_int v]"
  by (simp add: createOneByteBuffer_def writeUInt8_def store8_def VSBuffer_alloc_def)

lemma concat_write_block: "concat (write_block t b []) = word_of_int t # vql_bytes (bits32 (int (length b))) @ b"
  by (simp add: write_block_def bw_write_def writeInt32VQL_bytes one_byte)

lemma is_int32_length: "n < 2147483648 \<Longrightarrow> is_int32 (int n)"
  by (simp add: is_int32_def)

lemma read_block_bytes:
  assumes "br_rest r = vql_bytes (bits32 (int (length b))) @ b @ bs" and "length b < 2147483648"
  shows "read_block r = (b, br_skip (length (vql_bytes (bits32 (int (length b)))) + length b) r)"
  using readIntVQL_bytes [OF assms(1)] assms(1) is_int32_length [OF assms(2)]
  by (simp add: read_block_def br_read_nat)

lemma read_type:
  assumes "br_rest r = word_of_int t # bs" and "0 \<le> t" "t < 256"
  shows "br_read 1 r = ([word_of_int t], br_skip 1 r)" "readUInt8 [word_of_int t] 0 = Some t"
  using br_read_nat [of 1 r] assms by (simp_all add: readUInt8_def load8_def uint_word_of_int)

text \<open>The three kinds of values that are written as a block.\<close>

lemma deserialize_block:
  assumes "br_rest r = word_of_int t # vql_bytes (bits32 (int (length b))) @ b @ bs" and "length b < 2147483648"
    and "t \<in> {1, 2, 3, 5}"
  shows "\<exists>n. br_rest (br_skip n r) = bs \<and> deserialize parse (Suc fuel) r =
    (if t = 1 then Inr (Text (VSBuffer_toString b), br_skip n r)
     else if t = 2 then Inr (NativeBuffer b, br_skip n r)
     else if t = 3 then Inr (Buffer b, br_skip n r)
     else bind_result (parse (VSBuffer_toString b)) (\<lambda>v. Inr (v, br_skip n r)))"
proof -
  let ?k = "length (vql_bytes (bits32 (int (length b)))) + length b"
  have "read_block (br_skip 1 r) = (b, br_skip ?k (br_skip 1 r))"
    using assms(1) by (intro read_block_bytes [OF _ assms(2)]) simp
  moreover have "br_rest (br_skip (1 + ?k) r) = bs" using assms(1) by simp
  ultimately show ?thesis
    using read_type [OF assms(1)] assms(3)
    by (intro exI [of _ "1 + ?k"]) (auto simp: deserialize.simps data_type_defs)
qed

lemma value_fuel_pos: "0 < value_fuel v"
  by (cases v) simp_all

lemma deserialize_serialized:
  "value_ok json v \<Longrightarrow> (\<And>d. json d \<Longrightarrow> json_faithful stringify parse d) \<Longrightarrow>
     br_rest r = concat (serialize stringify [] v) @ bs \<Longrightarrow> value_fuel v \<le> fuel \<Longrightarrow>
     \<exists>n. deserialize parse fuel r = Inr (v, br_skip n r) \<and> br_rest (br_skip n r) = bs"
  "\<forall>v \<in> set vs. value_ok json v \<Longrightarrow> (\<And>d. json d \<Longrightarrow> json_faithful stringify parse d) \<Longrightarrow>
     br_rest r = concat (serialize_all stringify [] vs) @ bs \<Longrightarrow> list_fuel vs \<le> fuel \<Longrightarrow>
     \<exists>n. deserialize_all parse fuel (int (length vs)) r = Inr (vs, br_skip n r) \<and> br_rest (br_skip n r) = bs"
proof (induction v and vs arbitrary: r bs fuel and r bs fuel rule: value_fuel_list_fuel.induct)
  case (1 vs)
  obtain f where f: "fuel = Suc f" "list_fuel vs \<le> f" using 1(5) by (cases fuel) auto
  have len: "length vs < 2147483648" using 1(2) by simp
  have rest: "br_rest r = word_of_int 4 # vql_bytes (bits32 (int (length vs))) @ concat (serialize_all stringify [] vs) @ bs"
    using 1(4) by (simp add: serialize_append(2) [of _ "_ @ _"] serialize_append(2) [of _ "[_, _]"] bw_write_def
        writeInt32VQL_bytes one_byte DataType_Array_def)
  let ?r1 = "br_skip 1 r" and ?k = "length (vql_bytes (bits32 (int (length vs))))"
  have vql: "readIntVQL ?r1 = (int (length vs), br_skip ?k ?r1)"
    using readIntVQL_bytes [of ?r1 "int (length vs)"] rest is_int32_length [OF len] by simp
  have "br_rest (br_skip ?k ?r1) = concat (serialize_all stringify [] vs) @ bs" using rest by simp
  with 1(1) [OF _ 1(3) this f(2)] 1(2) obtain n where
    n: "deserialize_all parse f (int (length vs)) (br_skip ?k ?r1) = Inr (vs, br_skip n (br_skip ?k ?r1))"
      "br_rest (br_skip n (br_skip ?k ?r1)) = bs"
    by auto
  have "deserialize parse fuel r = Inr (Array vs, br_skip (1 + ?k + n) r)"
    using read_type [OF rest] f vql n(1) by (simp add: deserialize.simps data_type_defs)
  with n(2) show ?case by auto
next
  case (2 r bs fuel)
  then have rest: "br_rest r = word_of_int 0 # bs" by (simp add: bw_write_def one_byte DataType_Undefined_def)
  obtain f where "fuel = Suc f" using 2(4) by (cases fuel) auto
  with read_type [OF rest] have "deserialize parse fuel r = Inr (Undefined, br_skip 1 r)"
    by (simp add: deserialize.simps data_type_defs)
  with rest show ?case by auto
next
  case (3 s r bs fuel)
  then obtain f where f: "fuel = Suc f" by (cases fuel) auto
  have rest: "br_rest r = word_of_int 1 # vql_bytes (bits32 (int (length (VSBuffer_fromString s)))) @ VSBuffer_fromString s @ bs"
    using 3(3) by (simp add: concat_write_block DataType_String_def)
  with 3(1) f deserialize_block [OF rest, of parse f] toString_fromString [of s] show ?case by auto
next
  case (4 b r bs fuel)
  then obtain f where f: "fuel = Suc f" by (cases fuel) auto
  have rest: "br_rest r = word_of_int 2 # vql_bytes (bits32 (int (length b))) @ b @ bs"
    using 4(3) by (simp add: concat_write_block DataType_Buffer_def)
  with 4(1) f deserialize_block [OF rest, of parse f] show ?case by auto
next
  case (5 b r bs fuel)
  then obtain f where f: "fuel = Suc f" by (cases fuel) auto
  have rest: "br_rest r = word_of_int 3 # vql_bytes (bits32 (int (length b))) @ b @ bs"
    using 5(3) by (simp add: concat_write_block DataType_VSBuffer_def)
  with 5(1) f deserialize_block [OF rest, of parse f] show ?case by auto
next
  case (6 n r bs fuel)
  then obtain f where f: "fuel = Suc f" by (cases fuel) auto
  show ?case
  proof (cases "toInt32 n = n")
    case True
    then have rest: "br_rest r = word_of_int 6 # vql_bytes (bits32 n) @ bs"
      using 6(3) by (simp add: writeInt32VQL_bytes bw_write_def one_byte DataType_Int_def)
    have "readIntVQL (br_skip 1 r) = (n, br_skip (length (vql_bytes (bits32 n))) (br_skip 1 r))"
      using readIntVQL_bytes [of "br_skip 1 r" n bs] rest True by simp
    then have "deserialize parse fuel r = Inr (Number n, br_skip (1 + length (vql_bytes (bits32 n))) r)"
      using read_type [OF rest] f by (simp add: deserialize.simps data_type_defs)
    with rest show ?thesis by auto
  next
    case False
    then have "json_faithful stringify parse (Number n)" using 6(1,2) by (auto dest: toInt32_id)
    moreover from False have rest: "br_rest r = word_of_int 5 #
        vql_bytes (bits32 (int (length (VSBuffer_fromString (stringify (Number n)))))) @ VSBuffer_fromString (stringify (Number n)) @ bs"
      using 6(3) by (simp add: concat_write_block DataType_Object_def)
    ultimately show ?thesis
      using f deserialize_block [OF rest, of parse f] toString_fromString by (auto simp: json_faithful_def)
  qed
next
  case (7 j r bs fuel)
  then obtain f where f: "fuel = Suc f" by (cases fuel) auto
  have "json_faithful stringify parse (Json j)" using 7(1,2) by simp
  moreover have rest: "br_rest r = word_of_int 5 #
      vql_bytes (bits32 (int (length (VSBuffer_fromString (stringify (Json j)))))) @ VSBuffer_fromString (stringify (Json j)) @ bs"
    using 7(3) by (simp add: concat_write_block DataType_Object_def)
  ultimately show ?case
    using f deserialize_block [OF rest, of parse f] toString_fromString by (auto simp: json_faithful_def)
next
  case (8 r bs fuel)
  then obtain f where "fuel = Suc f" by (cases fuel) auto
  with 8(3) show ?case by (intro exI [of _ 0]) (simp add: deserialize_all.simps br_skip_def)
next
  case (9 v vs)
  obtain f where f: "fuel = Suc f" "value_fuel v \<le> f" "list_fuel vs \<le> f" using 9(6) by (cases fuel) auto
  have rest: "br_rest r = concat (serialize stringify [] v) @ concat (serialize_all stringify [] vs) @ bs"
    using 9(5) by (simp add: serialize_append(2) [of _ "serialize stringify [] v"])
  from 9(1) [OF _ 9(4) rest f(2)] 9(3) obtain n where
    n: "deserialize parse f r = Inr (v, br_skip n r)" "br_rest (br_skip n r) = concat (serialize_all stringify [] vs) @ bs"
    by auto
  from 9(2) [OF _ 9(4) n(2) f(3)] 9(3) obtain k where
    "deserialize_all parse f (int (length vs)) (br_skip n r) = Inr (vs, br_skip k (br_skip n r))"
    "br_rest (br_skip k (br_skip n r)) = bs"
    by auto
  with n f show ?case by (intro exI [of _ "n + k"]) (simp add: deserialize_all.simps)
qed


subsection \<open>Messages\<close>

text \<open>
  \<open>send\<close> of both \<open>ChannelServer\<close> and \<open>ChannelClient\<close> writes a header and a body with one writer;
  \<open>onRawMessage\<close> and \<open>onBuffer\<close> read them with one reader.
\<close>

definition write_message :: "('j ipc_value \<Rightarrow> js_string) \<Rightarrow> 'j ipc_value \<Rightarrow> 'j ipc_value \<Rightarrow> vs_buffer result" where
  "write_message stringify header body = bw_buffer (serialize stringify (serialize stringify [] header) body)"

definition read_message :: "(js_string \<Rightarrow> 'j ipc_value result) \<Rightarrow> nat \<Rightarrow> vs_buffer \<Rightarrow> ('j ipc_value \<times> 'j ipc_value) result" where
  "read_message parse fuel message =
     bind_result (deserialize parse fuel (mk_BufferReader message)) (\<lambda>(header, reader).
       bind_result (deserialize parse fuel reader) (\<lambda>(body, reader). Inr (header, body)))"

lemma write_message_ok:
  "write_message stringify header body = Inr (concat (serialize stringify [] header) @ concat (serialize stringify [] body))"
  by (simp add: write_message_def bw_buffer_def VSBuffer_concat_ok serialize_append(1) [of _ "serialize stringify [] header"])

lemma message_round_trip_values:
  assumes "\<And>d. json d \<Longrightarrow> json_faithful stringify parse d"
    and "value_ok json header" "value_ok json body"
    and "value_fuel header \<le> fuel" "value_fuel body \<le> fuel"
  shows "\<exists>message. write_message stringify header body = Inr message \<and>
    read_message parse fuel message = Inr (header, body)"
proof -
  let ?h = "concat (serialize stringify [] header)" and ?b = "concat (serialize stringify [] body)"
  have "br_rest (mk_BufferReader (?h @ ?b)) = ?h @ ?b" by (simp add: br_rest_def mk_BufferReader_def)
  from deserialize_serialized(1) [OF assms(2) assms(1) this assms(4)] obtain n where
    n: "deserialize parse fuel (mk_BufferReader (?h @ ?b)) = Inr (header, br_skip n (mk_BufferReader (?h @ ?b)))"
      "br_rest (br_skip n (mk_BufferReader (?h @ ?b))) = ?b"
    by auto
  with deserialize_serialized(1) [OF assms(3) assms(1) _ assms(5), of "br_skip n (mk_BufferReader (?h @ ?b))" "[]"]
  have "read_message parse fuel (?h @ ?b) = Inr (header, body)"
    by (auto simp: read_message_def)
  then show ?thesis by (simp add: write_message_ok)
qed

text \<open>C14: What one side of a channel sends is what the other side reads: the header and the body of a message,
  written by \<open>serialize\<close> into one buffer, come back from \<open>deserialize\<close>. The values may be nested arrays of
  strings without a lone surrogate, buffers, \<open>undefined\<close>, integers of 32 bits and values that \<open>JSON\<close>
  restores, each shorter than 2^31.
\<close>

theorem message_round_trip:
  assumes "\<And>d. json d \<Longrightarrow> json_faithful stringify parse d"
    and "value_ok json header" "value_ok json body"
    and "value_fuel header \<le> fuel" "value_fuel body \<le> fuel"
  shows "\<exists>message. write_message stringify header body = Inr message \<and>
    read_message parse fuel message = Inr (header, body)"
  by (rule message_round_trip_values [OF assms])

text \<open>A JSON with the values 1.5 and \<open>{}\<close>, a request with its id and two names, and an array as its argument.\<close>

definition sample_stringify :: "bool ipc_value \<Rightarrow> js_string" where
  "sample_stringify v = (if v = Json True then [49, 46, 53] else [123, 125])"

definition sample_parse :: "js_string \<Rightarrow> bool ipc_value result" where
  "sample_parse s = (if s = [49, 46, 53] then Inr (Json True) else if s = [123, 125] then Inr (Json False) else Inl PlainError)"

definition sample_header :: "bool ipc_value" where
  "sample_header = Array [Number 100, Number 7, Text [99, 104], Text [0xD83D, 0xDE00]]"

definition sample_body :: "bool ipc_value" where
  "sample_body = Array [Undefined, Number (- 300), Buffer [1, 2], NativeBuffer [], Array [Json True, Json False]]"

lemma sample_strings:
  "s \<in> {[99, 104], [0xD83D, 0xDE00], [49, 46, 53], [123, 125]} \<Longrightarrow>
     well_formed_string s \<and> length (VSBuffer_fromString s) < 2147483648"
  by (elim insertE emptyE)
    (simp_all add: well_formed_string_def VSBuffer_fromString_def is_surrogate_def is_high_surrogate_def
      is_low_surrogate_def utf8_bytes_def)

lemma sample_json: "v \<in> {Json True, Json False} \<Longrightarrow> json_faithful sample_stringify sample_parse v"
  using sample_strings [of "[49, 46, 53]"] sample_strings [of "[123, 125]"]
  by (elim insertE emptyE) (simp_all add: json_faithful_def sample_stringify_def sample_parse_def)

lemma sample_values:
  "value_ok (\<lambda>v. v \<in> {Json True, Json False}) sample_header" "value_ok (\<lambda>v. v \<in> {Json True, Json False}) sample_body"
  "value_fuel sample_header \<le> 10" "value_fuel sample_body \<le> 10"
  using sample_strings [of "[99, 104]"] sample_strings [of "[0xD83D, 0xDE00]"]
  by (simp_all add: sample_header_def sample_body_def is_int32_def)

lemma message_round_trip_witness:
  "\<exists>message. write_message sample_stringify sample_header sample_body = Inr message \<and>
     read_message sample_parse 10 message = Inr (sample_header, sample_body)"
  by (rule message_round_trip [OF sample_json sample_values])

subsection \<open>Reading always ends\<close>

definition br_left :: "buffer_reader \<Rightarrow> nat" where
  "br_left r = length (br_buffer r) - br_pos r"

lemma br_read_left: "br_left (snd (br_read n r)) \<le> br_left r"
  by (simp add: br_read_def Let_def br_left_def)

lemma readIntVQL_loop_left: "br_left (snd (readIntVQL_loop n w r)) \<le> br_left r"
proof (induction n w r rule: readIntVQL_loop.induct)
  case (1 n w r)
  obtain nxt r' where read: "br_read 1 r = (nxt, r')" by fastforce
  with br_read_left [of 1 r] have less: "br_left r' \<le> br_left r" by simp
  show ?case
    using 1 [OF read [symmetric] refl refl refl] read less
    by (subst readIntVQL_loop.simps) (auto simp: Let_def intro: order_trans)
qed

lemma read_block_left: "br_left (snd (read_block r)) \<le> br_left r"
proof -
  obtain n r' where r': "readIntVQL r = (n, r')" by fastforce
  then have "br_left r' \<le> br_left r" using readIntVQL_loop_left [of 0 0 r] by (simp add: readIntVQL_def)
  with br_read_left [of n r'] r' show ?thesis by (simp add: read_block_def)
qed

lemma bind_more: "(a \<noteq> Inl e \<Longrightarrow> b = a) \<Longrightarrow> bind_result a f \<noteq> Inl e \<Longrightarrow> bind_result b f = bind_result a f"
  by (cases a) auto

lemma deserialize_more:
  "deserialize parse f r \<noteq> Inl OutOfFuel \<Longrightarrow> deserialize parse (Suc f) r = deserialize parse f r"
  "deserialize_all parse f n r \<noteq> Inl OutOfFuel \<Longrightarrow> deserialize_all parse (Suc f) n r = deserialize_all parse f n r"
proof (induction f arbitrary: r n)
  case (Suc f)
  {
    case 1
    then show ?case
      using Suc(2) unfolding deserialize.simps(2) [of parse "Suc f" r] deserialize.simps(2) [of parse f r]
      by (auto simp: split_beta Let_def data_type_defs split: option.splits intro!: bind_more)
  next
    case 2
    show ?case
    proof (cases "n \<le> 0")
      case False
      with 2 have one: "deserialize parse f r \<noteq> Inl OutOfFuel" by (auto simp: deserialize_all.simps)
      show ?thesis
      proof (cases "deserialize parse f r")
        case (Inr p)
        obtain v r' where p: "p = (v, r')" by fastforce
        have "deserialize_all parse f (n - 1) r' \<noteq> Inl OutOfFuel"
          using 2 False Inr p by (auto simp: deserialize_all.simps(2) [of parse f n r])
        with Suc(1) [OF one] Suc(2) False Inr p show ?thesis
          by (simp add: deserialize_all.simps(2) [of parse f n r] deserialize_all.simps(2) [of parse "Suc f" n r])
      qed (use Suc(1) [OF one] False in
          \<open>simp add: deserialize_all.simps(2) [of parse f n r] deserialize_all.simps(2) [of parse "Suc f" n r]\<close>)
    qed (simp add: deserialize_all.simps)
  }
qed (simp_all add: deserialize.simps deserialize_all.simps)

lemma deserialize_enough:
  assumes "f \<le> g"
  shows "deserialize parse f r \<noteq> Inl OutOfFuel \<Longrightarrow> deserialize parse g r = deserialize parse f r"
    and "deserialize_all parse f n r \<noteq> Inl OutOfFuel \<Longrightarrow> deserialize_all parse g n r = deserialize_all parse f n r"
  using assms by (induction rule: dec_induct) (simp_all add: deserialize_more)

text \<open>Reading never goes back, and reads at least the type of a value when there is one.\<close>

lemma deserialize_left:
  "deserialize parse f r = Inr (v, r') \<Longrightarrow> br_left r' \<le> br_left r"
  "deserialize_all parse f n r = Inr (vs, r') \<Longrightarrow> br_left r' \<le> br_left r"
proof (induction f arbitrary: r n v vs r')
  case (Suc f)
  {
    case 1
    have type: "br_left (snd (br_read 1 r)) \<le> br_left r" by (rule br_read_left)
    have block: "br_left (snd (read_block (snd (br_read 1 r)))) \<le> br_left r"
      using read_block_left type by (rule order_trans)
    have vql: "br_left (snd (readIntVQL (snd (br_read 1 r)))) \<le> br_left r"
      using readIntVQL_loop_left type unfolding readIntVQL_def by (rule order_trans)
    from 1 type block vql Suc(2) show ?case
      unfolding deserialize.simps(2) [of parse f r]
      by (auto simp: split_beta Let_def data_type_defs bind_result_Inr_iff split: option.splits if_splits
          intro: order_trans [OF _ vql])
  next
    case 2
    then show ?case
      using Suc(1) Suc(2) unfolding deserialize_all.simps(2) [of parse f n r]
      by (auto simp: bind_result_Inr_iff split: if_splits) (meson order_trans)
  }
qed (simp_all add: deserialize.simps deserialize_all.simps)

lemma deserialize_ends:
  assumes parse: "\<And>s. parse s \<noteq> Inl OutOfFuel"
  shows "\<exists>f. deserialize parse f r \<noteq> Inl OutOfFuel"
proof (induction "br_left r" arbitrary: r rule: less_induct)
  case less
  have elements: "\<exists>f. deserialize_all parse f (int n) r' \<noteq> Inl OutOfFuel" if "br_left r' < br_left r" for n r'
    using that
  proof (induction n arbitrary: r')
    case 0
    have "deserialize_all parse 1 (int 0) r' \<noteq> Inl OutOfFuel" by (simp add: deserialize_all.simps)
    then show ?case ..
  next
    case (Suc n)
    obtain f where f: "deserialize parse f r' \<noteq> Inl OutOfFuel" using less [OF Suc(2)] ..
    show ?case
    proof (cases "deserialize parse f r'")
      case (Inl e)
      then have "deserialize_all parse (Suc f) (int (Suc n)) r' \<noteq> Inl OutOfFuel"
        using f by (simp add: deserialize_all.simps)
      then show ?thesis ..
    next
      case (Inr p)
      obtain v r'' where p: "p = (v, r'')" by fastforce
      with Inr deserialize_left(1) have "br_left r'' \<le> br_left r'" by blast
      with Suc obtain g where g: "deserialize_all parse g (int n) r'' \<noteq> Inl OutOfFuel" by fastforce
      have "deserialize parse (max f g) r' = Inr (v, r'')"
        using deserialize_enough(1) [of f "max f g" parse r'] f Inr p by simp
      moreover have "deserialize_all parse (max f g) (int n) r'' \<noteq> Inl OutOfFuel"
        using deserialize_enough(2) [of g "max f g" parse "int n" r''] g by simp
      ultimately have "deserialize_all parse (Suc (max f g)) (int (Suc n)) r' \<noteq> Inl OutOfFuel"
        by (cases "deserialize_all parse (max f g) (int n) r''") (auto simp: deserialize_all.simps(2))
      then show ?thesis ..
    qed
  qed
  show ?case
  proof (cases "readUInt8 (fst (br_read 1 r)) 0 = Some DataType_Array")
    case False
    then have "deserialize parse 1 r \<noteq> Inl OutOfFuel"
      using parse
      by (auto simp: deserialize.simps(2) [of parse 0, simplified] split_beta Let_def bind_result_def
          split: option.splits sum.splits if_splits)
    then show ?thesis ..
  next
    case True
    let ?r = "snd (readIntVQL (snd (br_read 1 r)))" and ?n = "fst (readIntVQL (snd (br_read 1 r)))"
    have "fst (br_read 1 r) \<noteq> []" using True by (auto simp: readUInt8_def load8_def)
    then have "br_left (snd (br_read 1 r)) < br_left r" by (auto simp: br_read_one br_left_def)
    moreover have "br_left ?r \<le> br_left (snd (br_read 1 r))"
      unfolding readIntVQL_def by (rule readIntVQL_loop_left)
    ultimately obtain f where f: "deserialize_all parse f (int (nat ?n)) ?r \<noteq> Inl OutOfFuel"
      using elements by (meson le_less_trans)
    have "deserialize_all parse f ?n ?r \<noteq> Inl OutOfFuel"
      using f by (cases f; cases "0 \<le> ?n") (auto simp: deserialize_all.simps)
    with True have "deserialize parse (Suc f) r \<noteq> Inl OutOfFuel"
      by (cases "deserialize_all parse f ?n ?r")
        (auto simp: deserialize.simps(2) split_beta Let_def data_type_defs)
    then show ?thesis ..
  qed
qed

text \<open>C15: \<open>onRawMessage\<close> and \<open>onBuffer\<close> finish reading whatever bytes arrive: numbers of variable length
  that never stop, lengths behind the end of the buffer or below zero, arrays nested in each other and types
  that do not exist. With enough fuel the outcome is always the same: a header and a body, or an error
  of \<open>JSON.parse\<close>.
\<close>

theorem read_message_ends:
  assumes "\<And>s. parse s \<noteq> Inl OutOfFuel"
  shows "\<exists>f res. res \<noteq> Inl OutOfFuel \<and> (\<forall>fuel \<ge> f. read_message parse fuel message = res)"
proof -
  obtain f where f: "deserialize parse f (mk_BufferReader message) \<noteq> Inl OutOfFuel"
    using deserialize_ends [OF assms] ..
  show ?thesis
  proof (cases "deserialize parse f (mk_BufferReader message)")
    case (Inl e)
    have "read_message parse fuel message = Inl e" if "f \<le> fuel" for fuel
      unfolding read_message_def deserialize_enough(1) [OF that f] Inl by simp
    moreover have "(Inl e :: ('a ipc_value \<times> 'a ipc_value) result) \<noteq> Inl OutOfFuel" using Inl f by simp
    ultimately show ?thesis by (intro exI [of _ f] exI [of _ "Inl e"] conjI allI impI)
  next
    case (Inr p)
    obtain v r where p: "p = (v, r)" by fastforce
    obtain g where g: "deserialize parse g r \<noteq> Inl OutOfFuel" using deserialize_ends [OF assms] ..
    let ?res = "bind_result (deserialize parse g r) (\<lambda>(body, reader). Inr (v, body))"
    have "read_message parse fuel message = ?res" if "max f g \<le> fuel" for fuel
    proof -
      from that have "f \<le> fuel" "g \<le> fuel" by simp_all
      from deserialize_enough(1) [OF this(1) f] deserialize_enough(1) [OF this(2) g] show ?thesis
        unfolding read_message_def Inr p by (simp only: Inr p bind_result_simps prod.case)
    qed
    moreover have "?res \<noteq> Inl OutOfFuel" using g by (cases "deserialize parse g r") auto
    ultimately show ?thesis by (intro exI [of _ "max f g"] exI [of _ ?res] conjI allI impI)
  qed
qed

lemma read_message_ends_witness:
  "\<exists>f res. res \<noteq> Inl OutOfFuel \<and> (\<forall>fuel \<ge> f. read_message sample_parse fuel [4, 255, 255, 3, 4, 2, 5, 1] = res)"
  by (rule read_message_ends) (simp add: sample_parse_def)

end
