(* ===== verification/ChannelMessages.thy ===== *)
theory ChannelMessages
  imports IpcSerialize
begin

section \<open>Requests and responses of channels\<close>

text \<open>
  The messages between a \<open>ChannelClient\<close> and a \<open>ChannelServer\<close> of
  \<open>src/src/vs/base/parts/ipc/common/ipc.ts\<close>: their types, their headers and bodies, sending and reading
  them. What is sent is a value of \<open>IpcSerialize\<close>; among the values that go through \<open>JSON\<close> the model
  knows the object that stands for an error, with \<open>message\<close>, \<open>name\<close> and \<open>stack\<close>. A message is read as far
  as its fields have the types that \<open>IRawRequest\<close> and \<open>IRawResponse\<close> declare; any other is \<open>None\<close>.
\<close>

datatype 'j json = ErrorObject js_string js_string "js_string list option" | OtherJson 'j

type_synonym 'j val = "'j json ipc_value"

datatype 'j raw_request =
  PromiseRequest int js_string js_string "'j val"
| PromiseCancel int
| EventListen int js_string js_string "'j val"
| EventDispose int

datatype 'j raw_response =
  Initialize
| PromiseSuccess int "'j val"
| PromiseError int js_string js_string "js_string list option"
| PromiseErrorObj int "'j val"
| EventFire int "'j val"

fun request_type :: "'j raw_request \<Rightarrow> int" where
  "request_type (PromiseRequest i channelName name arg) = 100"
| "request_type (PromiseCancel i) = 101"
| "request_type (EventListen i channelName name arg) = 102"
| "request_type (EventDispose i) = 103"

fun request_id :: "'j raw_request \<Rightarrow> int" where
  "request_id (PromiseRequest i channelName name arg) = i"
| "request_id (PromiseCancel i) = i"
| "request_id (EventListen i channelName name arg) = i"
| "request_id (EventDispose i) = i"

fun request_channel :: "'j raw_request \<Rightarrow> js_string" where
  "request_channel (PromiseRequest i channelName name arg) = channelName"
| "request_channel (EventListen i channelName name arg) = channelName"
| "request_channel r = []"

fun response_type :: "'j raw_response \<Rightarrow> int" where
  "response_type Initialize = 200"
| "response_type (PromiseSuccess i data) = 201"
| "response_type (PromiseError i message name stack) = 202"
| "response_type (PromiseErrorObj i data) = 203"
| "response_type (EventFire i data) = 204"

text \<open>The two values a message is made of.\<close>

fun request_header :: "'j raw_request \<Rightarrow> 'j val" where
  "request_header (PromiseRequest i channelName name arg) = Array [Number 100, Number i, Text channelName, Text name]"
| "request_header (EventListen i channelName name arg) = Array [Number 102, Number i, Text channelName, Text name]"
| "request_header r = Array [Number (request_type r), Number (request_id r)]"

fun request_body :: "'j raw_request \<Rightarrow> 'j val" where
  "request_body (PromiseRequest i channelName name arg) = arg"
| "request_body (EventListen i channelName name arg) = arg"
| "request_body r = Undefined"

fun response_header :: "'j raw_response \<Rightarrow> 'j val" where
  "response_header Initialize = Array [Number 200]"
| "response_header (PromiseSuccess i data) = Array [Number 201, Number i]"
| "response_header (PromiseError i message name stack) = Array [Number 202, Number i]"
| "response_header (PromiseErrorObj i data) = Array [Number 203, Number i]"
| "response_header (EventFire i data) = Array [Number 204, Number i]"

fun response_body :: "'j raw_response \<Rightarrow> 'j val" where
  "response_body Initialize = Undefined"
| "response_body (PromiseSuccess i data) = data"
| "response_body (PromiseError i message name stack) = Json (ErrorObject message name stack)"
| "response_body (PromiseErrorObj i data) = data"
| "response_body (EventFire i data) = data"

subsection \<open>Reading\<close>

definition to_request :: "'j val \<Rightarrow> 'j val \<Rightarrow> 'j raw_request option" where
  "to_request header body =
     (case header of
        Array (Number t # Number i # rest) \<Rightarrow>
          if t = 101 then Some (PromiseCancel i)
          else if t = 103 then Some (EventDispose i)
          else (case rest of
                  Text channelName # Text name # _ \<Rightarrow>
                    if t = 100 then Some (PromiseRequest i channelName name body)
                    else if t = 102 then Some (EventListen i channelName name body)
                    else None
                | _ \<Rightarrow> None)
      | _ \<Rightarrow> None)"

definition to_response :: "'j val \<Rightarrow> 'j val \<Rightarrow> 'j raw_response option" where
  "to_response header body =
     (case header of
        Array (Number t # rest) \<Rightarrow>
          if t = 200 then Some Initialize
          else (case rest of
                  Number i # _ \<Rightarrow>
                    if t = 201 then Some (PromiseSuccess i body)
                    else if t = 202
                    then (case body of Json (ErrorObject message name stack) \<Rightarrow> Some (PromiseError i message name stack) | _ \<Rightarrow> None)
                    else if t = 203 then Some (PromiseErrorObj i body)
                    else if t = 204 then Some (EventFire i body)
                    else None
                | _ \<Rightarrow> None)
      | _ \<Rightarrow> None)"

lemma to_request_header [simp]: "to_request (request_header r) (request_body r) = Some r"
  by (cases r) (simp_all add: to_request_def)

lemma to_response_header [simp]: "to_response (response_header r) (response_body r) = Some r"
  by (cases r) (simp_all add: to_response_def)

text \<open>
  What surrounds both sides: \<open>JSON\<close>, the fuel for reading, whether the argument of a request cannot be
  serialized, and whether \<open>listen\<close> of a channel throws for an event.
\<close>

record ('c, 'j) ipc_env =
  env_stringify :: "'j val \<Rightarrow> js_string"
  env_parse :: "js_string \<Rightarrow> 'j val result"
  env_fuel :: nat
  env_throws :: "'j val \<Rightarrow> js_error option"
  env_listen :: "'c \<Rightarrow> js_string \<Rightarrow> 'j val \<Rightarrow> js_error option"

text \<open>\<open>send\<close> and \<open>sendBuffer\<close>: the buffers that \<open>protocol.send\<close> was given.\<close>

definition send_message :: "('c, 'j) ipc_env \<Rightarrow> 'j val \<Rightarrow> 'j val \<Rightarrow> vs_buffer list \<Rightarrow> vs_buffer list" where
  "send_message env header body sent =
     (case write_message (env_stringify env) header body of Inl e \<Rightarrow> sent | Inr message \<Rightarrow> sent @ [message])"

definition receive_request :: "('c, 'j) ipc_env \<Rightarrow> vs_buffer \<Rightarrow> 'j raw_request option result" where
  "receive_request env message =
     bind_result (read_message (env_parse env) (env_fuel env) message) (\<lambda>(header, body). Inr (to_request header body))"

definition receive_response :: "('c, 'j) ipc_env \<Rightarrow> vs_buffer \<Rightarrow> 'j raw_response option result" where
  "receive_response env message =
     bind_result (read_message (env_parse env) (env_fuel env) message) (\<lambda>(header, body). Inr (to_response header body))"

subsection \<open>What arrives is what was sent\<close>

definition message_bytes :: "('c, 'j) ipc_env \<Rightarrow> 'j val \<Rightarrow> 'j val \<Rightarrow> vs_buffer" where
  "message_bytes env header body =
     concat (serialize (env_stringify env) [] header) @ concat (serialize (env_stringify env) [] body)"

lemma send_message_bytes: "send_message env header body sent = sent @ [message_bytes env header body]"
  by (simp add: send_message_def write_message_ok message_bytes_def)

definition transmits :: "('c, 'j) ipc_env \<Rightarrow> 'j val \<Rightarrow> 'j val \<Rightarrow> bool" where
  "transmits env header body \<longleftrightarrow>
     read_message (env_parse env) (env_fuel env) (message_bytes env header body) = Inr (header, body)"

definition request_ok :: "('c, 'j) ipc_env \<Rightarrow> 'j raw_request \<Rightarrow> bool" where
  "request_ok env r \<longleftrightarrow> transmits env (request_header r) (request_body r)"

definition response_ok :: "('c, 'j) ipc_env \<Rightarrow> 'j raw_response \<Rightarrow> bool" where
  "response_ok env r \<longleftrightarrow> transmits env (response_header r) (response_body r)"

definition request_bytes :: "('c, 'j) ipc_env \<Rightarrow> 'j raw_request \<Rightarrow> vs_buffer" where
  "request_bytes env r = message_bytes env (request_header r) (request_body r)"

definition response_bytes :: "('c, 'j) ipc_env \<Rightarrow> 'j raw_response \<Rightarrow> vs_buffer" where
  "response_bytes env r = message_bytes env (response_header r) (response_body r)"

lemma receive_sent:
  "request_ok env q \<Longrightarrow> receive_request env (request_bytes env q) = Inr (Some q)"
  "response_ok env r \<Longrightarrow> receive_response env (response_bytes env r) = Inr (Some r)"
  by (simp_all add: request_ok_def response_ok_def transmits_def receive_request_def receive_response_def
      request_bytes_def response_bytes_def)

text \<open>The round trip of values makes messages arrive.\<close>

lemma transmits_values:
  assumes "\<And>d. json d \<Longrightarrow> json_faithful (env_stringify env) (env_parse env) d"
    and "value_ok json header" "value_ok json body"
    and "value_fuel header \<le> env_fuel env" "value_fuel body \<le> env_fuel env"
  shows "transmits env header body"
proof -
  note message_round_trip_values [OF assms]
  then show ?thesis by (simp add: transmits_def message_bytes_def write_message_ok)
qed

subsection \<open>Maps and errors\<close>

text \<open>\<open>stack.split('\n')\<close> and its inverse \<open>stack.join('\n')\<close>.\<close>

fun split_lines :: "js_string \<Rightarrow> js_string list" where
  "split_lines [] = [[]]"
| "split_lines (c # cs) =
     (if c = 10 then [] # split_lines cs
      else case split_lines cs of [] \<Rightarrow> [[c]] | l # ls \<Rightarrow> (c # l) # ls)"

fun join_lines :: "js_string list \<Rightarrow> js_string" where
  "join_lines [] = []"
| "join_lines [l] = l"
| "join_lines (l # l' # ls) = l @ 10 # join_lines (l' # ls)"

lemma split_lines_not_Nil [simp]: "split_lines s \<noteq> []"
  by (cases s) (simp_all split: list.split)

lemma join_split_lines: "join_lines (split_lines s) = s"
proof (induction s)
  case (Cons c s)
  obtain l ls where "split_lines s = l # ls" by (cases "split_lines s") simp_all
  with Cons show ?case by (cases ls) simp_all
qed simp

text \<open>Why a promise was rejected: an \<open>Error\<close> with its message, name and stack, or any other value.\<close>

datatype 'j reason = ErrorReason js_string js_string "js_string option" | OtherReason "'j val"

datatype 'j outcome = Resolved "'j val" | Rejected "'j reason"

text \<open>The response to a request whose call came to an end.\<close>

fun outcome_response :: "int \<Rightarrow> 'j outcome \<Rightarrow> 'j raw_response" where
  "outcome_response i (Resolved data) = PromiseSuccess i data"
| "outcome_response i (Rejected (ErrorReason message name stack)) =
     PromiseError i message name (case stack of None \<Rightarrow> None | Some s \<Rightarrow> if s = [] then None else Some (split_lines s))"
| "outcome_response i (Rejected (OtherReason err)) = PromiseErrorObj i err"

fun response_outcome :: "'j raw_response \<Rightarrow> 'j outcome option" where
  "response_outcome (PromiseSuccess i data) = Some (Resolved data)"
| "response_outcome (PromiseError i message name stack) = Some (Rejected (ErrorReason message name (map_option join_lines stack)))"
| "response_outcome (PromiseErrorObj i data) = Some (Rejected (OtherReason data))"
| "response_outcome r = None"

fun response_id :: "'j raw_response \<Rightarrow> int" where
  "response_id Initialize = 0"
| "response_id (PromiseSuccess i data) = i"
| "response_id (PromiseError i message name stack) = i"
| "response_id (PromiseErrorObj i data) = i"
| "response_id (EventFire i data) = i"

text \<open>What an outcome becomes on its way: an empty stack is lost.\<close>

fun carried :: "'j outcome \<Rightarrow> 'j outcome" where
  "carried (Rejected (ErrorReason message name stack)) =
     Rejected (ErrorReason message name (if stack = Some [] then None else stack))"
| "carried (Rejected (OtherReason err)) = Rejected (OtherReason err)"
| "carried (Resolved data) = Resolved data"

lemma response_outcome_response: "response_outcome (outcome_response i out) = Some (carried out)"
  by (cases "(i, out)" rule: outcome_response.cases)
    (auto simp: join_split_lines split: option.split)

lemma response_id_outcome [simp]: "response_id (outcome_response i out) = i"
  by (cases "(i, out)" rule: outcome_response.cases) simp_all

end
