(* ===== verification/ChannelServer.thy ===== *)
theory ChannelServer
  imports ChannelMessages "HOL-Library.AList"
begin

section \<open>The server side of channels\<close>

text \<open>
  The class \<open>ChannelServer\<close> of \<open>src/src/vs/base/parts/ipc/common/ipc.ts\<close>. A \<open>Map\<close> is an association list
  in the order of insertion. The channels are code of the user: the model records every call of
  \<open>channel.call\<close> and \<open>channel.listen\<close>; a call is a promise that is settled later, at any time or never,
  with any outcome (a synchronous error is a promise that is rejected at once), and the \<open>k\<close>-th call and
  its cancellation token are named by \<open>k\<close>. A handler of a timer or of a microtask is a definition of its own.
  The log of the messages is not modelled.
\<close>

datatype disposable = CancelSource nat | Subscription nat

record ('c, 'j) channel_server =
  sv_channels :: "(js_string \<times> 'c) list"
  sv_activeRequests :: "(int \<times> disposable) list"
  sv_protocolListener :: bool
  sv_pendingRequests :: "(js_string \<times> ('j raw_request \<times> nat) list) list"
  sv_timeoutDelay :: nat
  sv_timers :: "(nat \<times> 'j raw_request) list"
  sv_nextTimer :: nat
  sv_flushes :: "js_string list"
  sv_calls :: "('j raw_request \<times> 'c) list"
  sv_running :: "nat list"
  sv_finishing :: "nat list"
  sv_cancelled :: "nat list"
  sv_outcomes :: "(nat \<times> 'j outcome) list"
  sv_listens :: "('j raw_request \<times> 'c) list"
  sv_subscriptions :: "nat list"
  sv_sent :: "vs_buffer list"

subsection \<open>Responses\<close>

definition sv_sendResponse ::
  "('c, 'j) ipc_env \<Rightarrow> 'j raw_response \<Rightarrow> ('c, 'j) channel_server \<Rightarrow> ('c, 'j) channel_server" where
  "sv_sendResponse env response this =
     this\<lparr>sv_sent := send_message env (response_header response) (response_body response) (sv_sent this)\<rparr>"

definition mk_ChannelServer :: "('c, 'j) ipc_env \<Rightarrow> nat \<Rightarrow> ('c, 'j) channel_server" where
  "mk_ChannelServer env timeoutDelay = sv_sendResponse env Initialize
     \<lparr>sv_channels = [], sv_activeRequests = [], sv_protocolListener = True, sv_pendingRequests = [],
      sv_timeoutDelay = timeoutDelay, sv_timers = [], sv_nextTimer = 0, sv_flushes = [], sv_calls = [],
      sv_running = [], sv_finishing = [], sv_cancelled = [], sv_outcomes = [], sv_listens = [],
      sv_subscriptions = [], sv_sent = []\<rparr>"

definition js_ascii :: "string \<Rightarrow> js_string" where
  "js_ascii s = map of_char s"

fun js_decimal :: "nat \<Rightarrow> js_string" where
  "js_decimal n = (if n < 10 then [48 + word_of_nat n] else js_decimal (n div 10) @ [48 + word_of_nat (n mod 10)])"

declare js_decimal.simps [simp del]

definition unknown_channel :: "nat \<Rightarrow> 'j raw_request \<Rightarrow> 'j raw_response" where
  "unknown_channel timeoutDelay request =
     PromiseError (request_id request)
       (js_ascii ''Channel name '' @ [39] @ request_channel request @ [39] @ js_ascii '' timed out after '' @
        js_decimal timeoutDelay @ js_ascii ''ms'')
       (js_ascii ''Unknown channel'') None"

subsection \<open>Requests\<close>

definition sv_collectPendingRequest :: "'j raw_request \<Rightarrow> ('c, 'j) channel_server \<Rightarrow> ('c, 'j) channel_server" where
  "sv_collectPendingRequest request this =
     (let channelName = request_channel request;
          pending = (case map_of (sv_pendingRequests this) channelName of None \<Rightarrow> [] | Some ps \<Rightarrow> ps);
          timer = sv_nextTimer this
      in this\<lparr>sv_nextTimer := timer + 1, sv_timers := sv_timers this @ [(timer, request)],
              sv_pendingRequests := AList.update channelName (pending @ [(request, timer)]) (sv_pendingRequests this)\<rparr>)"

definition sv_onUnknownChannel ::
  "('c, 'j) ipc_env \<Rightarrow> nat \<Rightarrow> ('c, 'j) channel_server \<Rightarrow> ('c, 'j) channel_server" where
  "sv_onUnknownChannel env timer this =
     (case map_of (sv_timers this) timer of
        None \<Rightarrow> this
      | Some request \<Rightarrow>
          let this = this\<lparr>sv_timers := AList.delete timer (sv_timers this)\<rparr>
          in if request_type request = 100
             then sv_sendResponse env (unknown_channel (sv_timeoutDelay this) request) this
             else this)"

definition sv_onPromise :: "'j raw_request \<Rightarrow> ('c, 'j) channel_server \<Rightarrow> ('c, 'j) channel_server" where
  "sv_onPromise request this =
     (case map_of (sv_channels this) (request_channel request) of
        None \<Rightarrow> sv_collectPendingRequest request this
      | Some channel \<Rightarrow>
          let k = length (sv_calls this)
          in this\<lparr>sv_calls := sv_calls this @ [(request, channel)], sv_running := sv_running this @ [k],
                  sv_activeRequests := AList.update (request_id request) (CancelSource k) (sv_activeRequests this)\<rparr>)"

text \<open>The two reactions to a promise that is settled: the response, and then \<open>finally\<close>.\<close>

definition sv_onSettled ::
  "('c, 'j) ipc_env \<Rightarrow> nat \<Rightarrow> 'j outcome \<Rightarrow> ('c, 'j) channel_server \<Rightarrow> ('c, 'j) channel_server" where
  "sv_onSettled env k out this =
     (if k \<in> set (sv_running this)
      then sv_sendResponse env (outcome_response (request_id (fst (sv_calls this ! k))) out)
        (this\<lparr>sv_running := removeAll k (sv_running this), sv_finishing := sv_finishing this @ [k],
              sv_outcomes := sv_outcomes this @ [(k, out)]\<rparr>)
      else this)"

fun sv_disposeOne :: "disposable \<Rightarrow> ('c, 'j) channel_server \<Rightarrow> ('c, 'j) channel_server" where
  "sv_disposeOne (CancelSource k) this = this\<lparr>sv_cancelled := sv_cancelled this @ [k]\<rparr>"
| "sv_disposeOne (Subscription k) this = this\<lparr>sv_subscriptions := removeAll k (sv_subscriptions this)\<rparr>"

definition sv_onFinally :: "nat \<Rightarrow> ('c, 'j) channel_server \<Rightarrow> ('c, 'j) channel_server" where
  "sv_onFinally k this =
     (if k \<in> set (sv_finishing this)
      then (sv_disposeOne (CancelSource k) this)
        \<lparr>sv_finishing := removeAll k (sv_finishing this),
         sv_activeRequests := AList.delete (request_id (fst (sv_calls this ! k))) (sv_activeRequests this)\<rparr>
      else this)"

text \<open>An error that is thrown travels beside the state, which keeps the changes that were made.\<close>

definition sv_onEventListen ::
  "('c, 'j) ipc_env \<Rightarrow> 'j raw_request \<Rightarrow> ('c, 'j) channel_server \<Rightarrow> ('c, 'j) channel_server \<times> js_error option" where
  "sv_onEventListen env request this =
     (case map_of (sv_channels this) (request_channel request) of
        None \<Rightarrow> (sv_collectPendingRequest request this, None)
      | Some channel \<Rightarrow>
          let name = (case request of EventListen i channelName name arg \<Rightarrow> name | _ \<Rightarrow> []);
              k = length (sv_listens this)
          in case env_listen env channel name (request_body request) of
               Some e \<Rightarrow> (this, Some e)
             | None \<Rightarrow> (this\<lparr>sv_listens := sv_listens this @ [(request, channel)],
                             sv_subscriptions := sv_subscriptions this @ [k],
                             sv_activeRequests := AList.update (request_id request) (Subscription k) (sv_activeRequests this)\<rparr>,
                        None))"

definition sv_onEvent ::
  "('c, 'j) ipc_env \<Rightarrow> nat \<Rightarrow> 'j val \<Rightarrow> ('c, 'j) channel_server \<Rightarrow> ('c, 'j) channel_server" where
  "sv_onEvent env k data this =
     (if k \<in> set (sv_subscriptions this)
      then sv_sendResponse env (EventFire (request_id (fst (sv_listens this ! k))) data) this
      else this)"

definition sv_disposeActiveRequest :: "int \<Rightarrow> ('c, 'j) channel_server \<Rightarrow> ('c, 'j) channel_server" where
  "sv_disposeActiveRequest i this =
     (case map_of (sv_activeRequests this) i of
        None \<Rightarrow> this
      | Some d \<Rightarrow> (sv_disposeOne d this)\<lparr>sv_activeRequests := AList.delete i (sv_activeRequests this)\<rparr>)"

definition sv_onRequest ::
  "('c, 'j) ipc_env \<Rightarrow> 'j raw_request \<Rightarrow> ('c, 'j) channel_server \<Rightarrow> ('c, 'j) channel_server \<times> js_error option" where
  "sv_onRequest env request this =
     (case request of
        PromiseRequest i channelName name arg \<Rightarrow> (sv_onPromise request this, None)
      | EventListen i channelName name arg \<Rightarrow> sv_onEventListen env request this
      | PromiseCancel i \<Rightarrow> (sv_disposeActiveRequest i this, None)
      | EventDispose i \<Rightarrow> (sv_disposeActiveRequest i this, None))"

definition sv_onRawMessage ::
  "('c, 'j) ipc_env \<Rightarrow> vs_buffer \<Rightarrow> ('c, 'j) channel_server \<Rightarrow> ('c, 'j) channel_server \<times> js_error option" where
  "sv_onRawMessage env message this =
     (case receive_request env message of
        Inl e \<Rightarrow> (this, Some e)
      | Inr None \<Rightarrow> (this, None)
      | Inr (Some request) \<Rightarrow> sv_onRequest env request this)"

subsection \<open>Channels that come late\<close>

definition sv_registerChannel :: "js_string \<Rightarrow> 'c \<Rightarrow> ('c, 'j) channel_server \<Rightarrow> ('c, 'j) channel_server" where
  "sv_registerChannel channelName channel this =
     this\<lparr>sv_channels := AList.update channelName channel (sv_channels this),
          sv_flushes := sv_flushes this @ [channelName]\<rparr>"

text \<open>
  The loop of \<open>flushPendingRequests\<close> runs over the requests that are pending when it begins: it is only
  called for a channel that is registered, and then nothing is added to them. An error that \<open>listen\<close>
  throws leaves the loop, and all of them stay pending.
\<close>

fun flush_loop ::
  "('c, 'j) ipc_env \<Rightarrow> ('j raw_request \<times> nat) list \<Rightarrow> ('c, 'j) channel_server \<Rightarrow> ('c, 'j) channel_server \<times> js_error option" where
  "flush_loop env [] this = (this, None)"
| "flush_loop env ((request, timer) # requests) this =
     (let this = this\<lparr>sv_timers := AList.delete timer (sv_timers this)\<rparr>;
          (this, err) = (if request_type request = 100 then (sv_onPromise request this, None)
                         else sv_onEventListen env request this)
      in case err of Some e \<Rightarrow> (this, Some e) | None \<Rightarrow> flush_loop env requests this)"

definition sv_flushPendingRequests ::
  "('c, 'j) ipc_env \<Rightarrow> js_string \<Rightarrow> ('c, 'j) channel_server \<Rightarrow> ('c, 'j) channel_server \<times> js_error option" where
  "sv_flushPendingRequests env channelName this =
     (case map_of (sv_pendingRequests this) channelName of
        None \<Rightarrow> (this, None)
      | Some requests \<Rightarrow>
          (case flush_loop env requests this of
             (this, Some e) \<Rightarrow> (this, Some e)
           | (this, None) \<Rightarrow> (this\<lparr>sv_pendingRequests := AList.delete channelName (sv_pendingRequests this)\<rparr>, None)))"

text \<open>The timer that \<open>registerChannel\<close> has started.\<close>

definition sv_onFlushTimer ::
  "('c, 'j) ipc_env \<Rightarrow> js_string \<Rightarrow> ('c, 'j) channel_server \<Rightarrow> ('c, 'j) channel_server \<times> js_error option" where
  "sv_onFlushTimer env channelName this =
     (if channelName \<in> set (sv_flushes this)
      then sv_flushPendingRequests env channelName (this\<lparr>sv_flushes := remove1 channelName (sv_flushes this)\<rparr>)
      else (this, None))"

definition sv_dispose :: "('c, 'j) channel_server \<Rightarrow> ('c, 'j) channel_server" where
  "sv_dispose this =
     (fold (sv_disposeOne \<circ> snd) (sv_activeRequests this) (this\<lparr>sv_protocolListener := False\<rparr>))
       \<lparr>sv_activeRequests := []\<rparr>"

end
