(* ===== verification/ChannelServerLaws.thy ===== *)
theory ChannelServerLaws
  imports ChannelServer
begin

section \<open>What the server side of a channel keeps\<close>

text \<open>
  The invariant of a \<open>ChannelServer\<close>, relative to the set \<open>A\<close> of the requests that were asked, and what every
  operation keeps of it. \<open>pending_answer\<close> says where a request is that was not answered yet; no operation
  of the server loses it.
\<close>

definition pend_of :: "('c, 'j) channel_server \<Rightarrow> js_string \<Rightarrow> ('j raw_request \<times> nat) list" where
  "pend_of S ch = (case map_of (sv_pendingRequests S) ch of None \<Rightarrow> [] | Some ps \<Rightarrow> ps)"

definition pend_set :: "('c, 'j) channel_server \<Rightarrow> ('j raw_request \<times> nat) set" where
  "pend_set S = (\<Union>ch. set (pend_of S ch))"

definition books_ok :: "'j raw_request set \<Rightarrow> ('c, 'j) channel_server \<Rightarrow> bool" where
  "books_ok A S \<longleftrightarrow>
     (\<forall>t r. (t, r) \<in> set (sv_timers S) \<longrightarrow> (r, t) \<in> pend_set S) \<and>
     (\<forall>r t. (r, t) \<in> pend_set S \<longrightarrow> t < sv_nextTimer S \<and> (request_type r = 100 \<longrightarrow> r \<in> A)) \<and>
     (\<forall>r r' t. (r, t) \<in> pend_set S \<longrightarrow> (r', t) \<in> pend_set S \<longrightarrow> r' = r) \<and>
     (\<forall>ch r t. (r, t) \<in> set (pend_of S ch) \<longrightarrow> request_channel r = ch) \<and>
     (\<forall>ch \<in> set (sv_flushes S). map_of (sv_channels S) ch \<noteq> None)"

lemma books_okD:
  assumes "books_ok A S"
  shows "(t, r) \<in> set (sv_timers S) \<Longrightarrow> (r, t) \<in> pend_set S"
    and "(r, t) \<in> pend_set S \<Longrightarrow> t < sv_nextTimer S"
    and "(r, t) \<in> pend_set S \<Longrightarrow> request_type r = 100 \<Longrightarrow> r \<in> A"
    and "(r, t) \<in> pend_set S \<Longrightarrow> (r', t) \<in> pend_set S \<Longrightarrow> r' = r"
    and "(r, t) \<in> set (pend_of S ch) \<Longrightarrow> request_channel r = ch"
    and "ch \<in> set (sv_flushes S) \<Longrightarrow> map_of (sv_channels S) ch \<noteq> None"
  using assms unfolding books_ok_def by blast+

definition calls_ok :: "'j raw_request set \<Rightarrow> ('c, 'j) channel_server \<Rightarrow> bool" where
  "calls_ok A S \<longleftrightarrow> (\<forall>k \<in> set (sv_running S). k < length (sv_calls S)) \<and> fst ` set (sv_calls S) \<subseteq> A"

text \<open>An outcome that the server has found for a request: that of a call with it, or that of an unknown channel.\<close>

definition answered :: "'j raw_request set \<Rightarrow> ('c, 'j) channel_server \<Rightarrow> int \<Rightarrow> 'j outcome \<Rightarrow> bool" where
  "answered A S i out \<longleftrightarrow>
     (\<exists>r \<in> A. request_id r = i \<and>
        ((\<exists>k o'. k < length (sv_calls S) \<and> fst (sv_calls S ! k) = r \<and> (k, o') \<in> set (sv_outcomes S) \<and> out = carried o') \<or>
         response_outcome (unknown_channel (sv_timeoutDelay S) r) = Some out))"

definition sent_ok :: "('c, 'j) ipc_env \<Rightarrow> 'j raw_request set \<Rightarrow> ('c, 'j) channel_server \<Rightarrow> bool" where
  "sent_ok env A S \<longleftrightarrow>
     (\<forall>m \<in> set (sv_sent S). \<forall>q out. receive_response env m = Inr (Some q) \<longrightarrow> response_outcome q = Some out \<longrightarrow>
        answered A S (response_id q) out)"

definition sv_ok :: "('c, 'j) ipc_env \<Rightarrow> 'j raw_request set \<Rightarrow> ('c, 'j) channel_server \<Rightarrow> bool" where
  "sv_ok env A S \<longleftrightarrow> books_ok A S \<and> calls_ok A S \<and> sent_ok env A S"

definition pending_answer :: "('c, 'j) ipc_env \<Rightarrow> ('c, 'j) channel_server \<Rightarrow> nat \<Rightarrow> 'j raw_request \<Rightarrow> bool" where
  "pending_answer env S d r \<longleftrightarrow>
     (\<exists>t. (t, r) \<in> set (sv_timers S)) \<or>
     (\<exists>k \<in> set (sv_running S). fst (sv_calls S ! k) = r) \<or>
     (\<exists>m \<in> set (drop d (sv_sent S)). \<exists>q. receive_response env m = Inr (Some q) \<and> response_id q = request_id r \<and>
        response_outcome q \<noteq> None)"

lemma pending_answer_mono:
  assumes "pending_answer env S d r" and "\<And>t. (t, r) \<in> set (sv_timers S) \<Longrightarrow> (t, r) \<in> set (sv_timers S')"
    and "\<And>k. k \<in> set (sv_running S) \<Longrightarrow> fst (sv_calls S ! k) = r \<Longrightarrow> k \<in> set (sv_running S') \<and> fst (sv_calls S' ! k) = r"
    and "set (drop d (sv_sent S)) \<subseteq> set (drop d (sv_sent S'))"
  shows "pending_answer env S' d r"
  using assms unfolding pending_answer_def by (meson subsetD)

text \<open>The logs of the server grow, and no pending answer is lost.\<close>

definition sv_grows :: "('c, 'j) ipc_env \<Rightarrow> ('c, 'j) channel_server \<Rightarrow> ('c, 'j) channel_server \<Rightarrow> bool" where
  "sv_grows env S S' \<longleftrightarrow>
     (\<exists>cs os ms. sv_calls S' = sv_calls S @ cs \<and> sv_outcomes S' = sv_outcomes S @ os \<and> sv_sent S' = sv_sent S @ ms) \<and>
     sv_timeoutDelay S' = sv_timeoutDelay S \<and>
     (\<forall>r d. request_type r = 100 \<longrightarrow> d \<le> length (sv_sent S) \<longrightarrow> pending_answer env S d r \<longrightarrow> pending_answer env S' d r)"

lemma sv_grows_refl [simp]: "sv_grows env S S"
  by (simp add: sv_grows_def)

lemma sv_grows_trans:
  assumes "sv_grows env S S'" and "sv_grows env S' S''"
  shows "sv_grows env S S''"
proof -
  from assms obtain cs os ms cs' os' ms' where
    l: "sv_calls S' = sv_calls S @ cs" "sv_outcomes S' = sv_outcomes S @ os" "sv_sent S' = sv_sent S @ ms"
      "sv_calls S'' = sv_calls S' @ cs'" "sv_outcomes S'' = sv_outcomes S' @ os'" "sv_sent S'' = sv_sent S' @ ms'"
    by (auto simp: sv_grows_def)
  then have "\<exists>cs os ms. sv_calls S'' = sv_calls S @ cs \<and> sv_outcomes S'' = sv_outcomes S @ os \<and> sv_sent S'' = sv_sent S @ ms"
    by auto
  with assms l(3) show ?thesis by (simp add: sv_grows_def)
qed

lemma answered_grows:
  assumes "answered A S i out" and "sv_grows env S S'"
  shows "answered A S' i out"
proof -
  from assms(2) obtain cs os where
    "sv_calls S' = sv_calls S @ cs" "sv_outcomes S' = sv_outcomes S @ os" "sv_timeoutDelay S' = sv_timeoutDelay S"
    by (auto simp: sv_grows_def)
  then have "k < length (sv_calls S) \<Longrightarrow> k < length (sv_calls S') \<and> sv_calls S' ! k = sv_calls S ! k"
    "p \<in> set (sv_outcomes S) \<Longrightarrow> p \<in> set (sv_outcomes S')" "sv_timeoutDelay S' = sv_timeoutDelay S" for k p
    by (simp_all add: nth_append)
  with assms(1) show ?thesis unfolding answered_def by metis
qed

lemma answered_mono: "answered A S i out \<Longrightarrow> A \<subseteq> B \<Longrightarrow> answered B S i out"
  by (auto simp: answered_def)

lemma sent_ok_grows:
  assumes "sent_ok env A S" and "sv_grows env S S'" and "sv_sent S' = sv_sent S"
  shows "sent_ok env A S'"
  using assms by (auto simp: sent_ok_def intro: answered_grows)

lemma sv_ok_mono:
  assumes "sv_ok env A S" and "A \<subseteq> B"
  shows "sv_ok env B S"
proof -
  have "books_ok B S" using assms unfolding sv_ok_def books_ok_def by (meson subsetD)
  moreover have "calls_ok B S" using assms by (auto simp: sv_ok_def calls_ok_def)
  moreover have "sent_ok env B S"
    using assms answered_mono [OF _ assms(2), of S] by (simp add: sv_ok_def sent_ok_def)
  ultimately show ?thesis by (simp add: sv_ok_def)
qed

text \<open>A response that is sent.\<close>

lemma send_response_simps [simp]:
  "sv_sent (sv_sendResponse env q S) = sv_sent S @ [response_bytes env q]"
  "sv_calls (sv_sendResponse env q S) = sv_calls S" "sv_outcomes (sv_sendResponse env q S) = sv_outcomes S"
  "sv_timers (sv_sendResponse env q S) = sv_timers S" "sv_running (sv_sendResponse env q S) = sv_running S"
  "sv_channels (sv_sendResponse env q S) = sv_channels S" "sv_flushes (sv_sendResponse env q S) = sv_flushes S"
  "sv_pendingRequests (sv_sendResponse env q S) = sv_pendingRequests S" "sv_nextTimer (sv_sendResponse env q S) = sv_nextTimer S"
  "sv_timeoutDelay (sv_sendResponse env q S) = sv_timeoutDelay S"
  by (simp_all add: sv_sendResponse_def send_message_bytes response_bytes_def)

lemma sv_grows_send: "sv_grows env S (sv_sendResponse env q S)"
  by (auto simp: sv_grows_def pending_answer_def)

lemma sent_ok_send:
  assumes "sent_ok env A S" and "response_ok env q" and "\<And>out. response_outcome q = Some out \<Longrightarrow> answered A S (response_id q) out"
  shows "sent_ok env A (sv_sendResponse env q S)"
proof -
  have "answered A (sv_sendResponse env q S) i out" if "answered A S i out" for i out
    using answered_grows [OF that sv_grows_send] .
  then show ?thesis
    using assms(1,3) by (auto simp: sent_ok_def receive_sent(2) [OF assms(2)])
qed

lemma sv_ok_send:
  assumes "sv_ok env A S" and "response_ok env q" and "\<And>out. response_outcome q = Some out \<Longrightarrow> answered A S (response_id q) out"
  shows "sv_ok env A (sv_sendResponse env q S)"
  using assms sent_ok_send [OF _ assms(2,3)] by (auto simp: sv_ok_def books_ok_def calls_ok_def pend_set_def pend_of_def)

text \<open>A request for a channel that is not there is kept with a timer.\<close>

lemma pend_of_collect:
  "pend_of (sv_collectPendingRequest r S) ch =
     (if ch = request_channel r then pend_of S ch @ [(r, sv_nextTimer S)] else pend_of S ch)"
  by (simp add: pend_of_def sv_collectPendingRequest_def Let_def update_conv')

lemma pend_set_collect:
  "pend_set (sv_collectPendingRequest r S) = insert (r, sv_nextTimer S) (pend_set S)"
  by (auto simp: pend_set_def pend_of_collect split: if_splits)

lemma collect_ok:
  assumes ok: "sv_ok env A S" and r: "request_type r = 100 \<Longrightarrow> r \<in> A"
  shows "sv_ok env A (sv_collectPendingRequest r S)" "sv_grows env S (sv_collectPendingRequest r S)"
    "pending_answer env (sv_collectPendingRequest r S) d r"
proof -
  let ?S = "sv_collectPendingRequest r S"
  have fields: "sv_sent ?S = sv_sent S" "sv_calls ?S = sv_calls S" "sv_outcomes ?S = sv_outcomes S" "sv_running ?S = sv_running S"
    "sv_timers ?S = sv_timers S @ [(sv_nextTimer S, r)]" "sv_channels ?S = sv_channels S" "sv_flushes ?S = sv_flushes S"
    "sv_nextTimer ?S = sv_nextTimer S + 1" "sv_timeoutDelay ?S = sv_timeoutDelay S"
    by (simp_all add: sv_collectPendingRequest_def Let_def)
  show grows: "sv_grows env S ?S" by (auto simp: sv_grows_def fields pending_answer_def)
  show "pending_answer env ?S d r" by (auto simp: pending_answer_def fields)
  have books: "books_ok A S" using ok by (simp add: sv_ok_def)
  have chan: "request_channel r' = ch" if "(r', t) \<in> set (pend_of ?S ch)" for ch r' t
    using that books_okD(5) [OF books] by (auto simp: pend_of_collect split: if_splits)
  have "books_ok A ?S"
    using books chan r unfolding books_ok_def pend_set_collect fields by (auto simp: less_Suc_eq)
  moreover have "sent_ok env A ?S"
    using ok grows by (auto simp: sv_ok_def fields intro: sent_ok_grows)
  moreover have "calls_ok A ?S" using ok by (simp add: sv_ok_def calls_ok_def fields)
  ultimately show "sv_ok env A ?S" by (simp add: sv_ok_def)
qed

text \<open>A call begins.\<close>

lemma onPromise_ok:
  assumes ok: "sv_ok env A S" and r: "r \<in> A"
  shows "sv_ok env A (sv_onPromise r S)" "sv_grows env S (sv_onPromise r S)" "pending_answer env (sv_onPromise r S) d r"
proof -
  let ?S = "sv_onPromise r S"
  have "sv_ok env A ?S \<and> sv_grows env S ?S \<and> pending_answer env ?S d r"
  proof (cases "map_of (sv_channels S) (request_channel r)")
    case None
    then show ?thesis using collect_ok(1,2) [OF ok, of r] collect_ok(3) [OF ok, of r d] r by (simp add: sv_onPromise_def)
  next
    case (Some c)
    have fields: "sv_sent ?S = sv_sent S" "sv_calls ?S = sv_calls S @ [(r, c)]" "sv_outcomes ?S = sv_outcomes S"
      "sv_running ?S = sv_running S @ [length (sv_calls S)]" "sv_timers ?S = sv_timers S" "sv_timeoutDelay ?S = sv_timeoutDelay S"
      "sv_pendingRequests ?S = sv_pendingRequests S" "sv_channels ?S = sv_channels S" "sv_flushes ?S = sv_flushes S"
      "sv_nextTimer ?S = sv_nextTimer S"
      using Some by (simp_all add: sv_onPromise_def Let_def)
    have calls: "calls_ok A S" using ok by (simp add: sv_ok_def)
    have grows: "sv_grows env S ?S"
      using calls by (fastforce simp: sv_grows_def fields pending_answer_def calls_ok_def nth_append)
    moreover have "calls_ok A ?S" using calls r by (auto simp: calls_ok_def fields less_Suc_eq)
    moreover have "books_ok A ?S" using ok by (simp add: sv_ok_def books_ok_def pend_set_def pend_of_def fields)
    moreover have "sent_ok env A ?S" using ok grows by (auto simp: sv_ok_def fields intro: sent_ok_grows)
    ultimately show ?thesis by (auto simp: sv_ok_def pending_answer_def fields)
  qed
  then show "sv_ok env A ?S" "sv_grows env S ?S" "pending_answer env ?S d r" by simp_all
qed

text \<open>Operations that change nothing of this.\<close>

definition sv_same :: "('c, 'j) channel_server \<Rightarrow> ('c, 'j) channel_server \<Rightarrow> bool" where
  "sv_same S S' \<longleftrightarrow> sv_sent S' = sv_sent S \<and> sv_calls S' = sv_calls S \<and> sv_outcomes S' = sv_outcomes S \<and>
     sv_running S' = sv_running S \<and> sv_timers S' = sv_timers S \<and> sv_timeoutDelay S' = sv_timeoutDelay S \<and>
     sv_pendingRequests S' = sv_pendingRequests S \<and> sv_nextTimer S' = sv_nextTimer S \<and>
     sv_channels S' = sv_channels S \<and> sv_flushes S' = sv_flushes S"

lemma sv_same_ok:
  assumes "sv_same S S'" and "sv_ok env A S"
  shows "sv_ok env A S'" "sv_grows env S S'"
proof -
  have "\<And>r d. pending_answer env S d r \<Longrightarrow> pending_answer env S' d r"
    using assms(1) unfolding sv_same_def pending_answer_def by metis
  with assms(1) show g: "sv_grows env S S'"
    by (simp add: sv_same_def sv_grows_def)
  show "sv_ok env A S'"
    using assms sent_ok_grows [OF _ g, of A]
    by (simp add: sv_ok_def sv_same_def books_ok_def calls_ok_def pend_set_def pend_of_def)
qed

lemma disposeOne_same: "sv_same S (sv_disposeOne d S)"
  by (cases d) (simp_all add: sv_same_def)

lemma sv_same_onFinally: "sv_same S (sv_onFinally k S)"
  by (simp add: sv_same_def sv_onFinally_def)

lemma sv_same_disposeActive: "sv_same S (sv_disposeActiveRequest i S)"
  using disposeOne_same by (auto simp: sv_same_def sv_disposeActiveRequest_def split: option.split)

lemma onEventListen_ok:
  assumes ok: "sv_ok env A S" and r: "request_type r \<noteq> 100"
  shows "sv_ok env A (fst (sv_onEventListen env r S))" "sv_grows env S (fst (sv_onEventListen env r S))"
proof -
  have "sv_ok env A (fst (sv_onEventListen env r S)) \<and> sv_grows env S (fst (sv_onEventListen env r S))"
  proof (cases "map_of (sv_channels S) (request_channel r)")
    case None
    then show ?thesis using collect_ok(1,2) [OF ok, of r] r by (simp add: sv_onEventListen_def)
  next
    case (Some c)
    then have "sv_same S (fst (sv_onEventListen env r S))"
      by (simp add: sv_onEventListen_def sv_same_def Let_def split: option.split)
    from sv_same_ok [OF this ok] show ?thesis by simp
  qed
  then show "sv_ok env A (fst (sv_onEventListen env r S))" "sv_grows env S (fst (sv_onEventListen env r S))" by simp_all
qed

text \<open>A request arrives.\<close>

lemma onRequest_ok:
  assumes ok: "sv_ok env A S" and r: "request_type r = 100 \<Longrightarrow> r \<in> A"
  shows "sv_ok env A (fst (sv_onRequest env r S))" "sv_grows env S (fst (sv_onRequest env r S))"
    "request_type r = 100 \<Longrightarrow> pending_answer env (fst (sv_onRequest env r S)) d r"
proof -
  have "sv_ok env A (fst (sv_onRequest env r S)) \<and> sv_grows env S (fst (sv_onRequest env r S)) \<and>
      (request_type r = 100 \<longrightarrow> pending_answer env (fst (sv_onRequest env r S)) d r)"
    using onPromise_ok(1,2) [OF ok, of r] onPromise_ok(3) [OF ok, of r d] onEventListen_ok [OF ok, of r] sv_same_ok [OF sv_same_disposeActive ok] r
    by (cases r) (simp_all add: sv_onRequest_def)
  then show "sv_ok env A (fst (sv_onRequest env r S))" "sv_grows env S (fst (sv_onRequest env r S))"
    "request_type r = 100 \<Longrightarrow> pending_answer env (fst (sv_onRequest env r S)) d r" by simp_all
qed

text \<open>A call comes to an end, an event fires, a channel stays unknown.\<close>

lemma onSettled_ok:
  assumes ok: "sv_ok env A S" and q: "k \<in> set (sv_running S) \<Longrightarrow>
    response_ok env (outcome_response (request_id (fst (sv_calls S ! k))) out)"
  shows "sv_ok env A (sv_onSettled env k out S)" "sv_grows env S (sv_onSettled env k out S)"
proof -
  have "sv_ok env A (sv_onSettled env k out S) \<and> sv_grows env S (sv_onSettled env k out S)"
  proof (cases "k \<in> set (sv_running S)")
    case True
    let ?r = "fst (sv_calls S ! k)"
    let ?q = "outcome_response (request_id ?r) out"
    let ?S = "S\<lparr>sv_running := removeAll k (sv_running S), sv_finishing := sv_finishing S @ [k],
      sv_outcomes := sv_outcomes S @ [(k, out)]\<rparr>"
    have S': "sv_onSettled env k out S = sv_sendResponse env ?q ?S" using True by (simp add: sv_onSettled_def)
    have ok': "books_ok A S" "calls_ok A S" "sent_ok env A S" using ok by (simp_all add: sv_ok_def)
    have k: "k < length (sv_calls S)" using ok'(2) True by (simp add: calls_ok_def)
    have "?r \<in> A" using ok'(2) k by (auto simp: calls_ok_def)
    have more: "answered A ?S i o'" if "answered A S i o'" for i o'
      using that by (auto simp: answered_def)
    have "sv_ok env A ?S"
      using ok' more by (simp add: sv_ok_def books_ok_def calls_ok_def sent_ok_def pend_set_def pend_of_def)
    moreover have "answered A ?S (response_id ?q) o'" if "response_outcome ?q = Some o'" for o'
      using that k \<open>?r \<in> A\<close> by (force simp: answered_def response_outcome_response)
    ultimately have "sv_ok env A (sv_sendResponse env ?q ?S)"
      using q [OF True] by (intro sv_ok_send)
    moreover have "pending_answer env (sv_sendResponse env ?q ?S) d r" if "pending_answer env S d r" "d \<le> length (sv_sent S)" for d r
    proof (cases "?r = r")
      case eq: True
      have "receive_response env (response_bytes env ?q) = Inr (Some ?q)" using q [OF True] by (rule receive_sent(2))
      then show ?thesis
        using that(2) eq by (force simp: pending_answer_def response_outcome_response)
    next
      case False
      then show ?thesis by (intro pending_answer_mono [OF that(1)]) auto
    qed
    then have "sv_grows env S (sv_sendResponse env ?q ?S)" by (simp add: sv_grows_def)
    ultimately show ?thesis unfolding S' by simp
  qed (use ok in \<open>simp add: sv_onSettled_def\<close>)
  then show "sv_ok env A (sv_onSettled env k out S)" "sv_grows env S (sv_onSettled env k out S)" by simp_all
qed

lemma onEvent_ok:
  assumes ok: "sv_ok env A S" and q: "k \<in> set (sv_subscriptions S) \<Longrightarrow>
    response_ok env (EventFire (request_id (fst (sv_listens S ! k))) data)"
  shows "sv_ok env A (sv_onEvent env k data S)" "sv_grows env S (sv_onEvent env k data S)"
  using ok q by (auto simp: sv_onEvent_def sv_grows_send intro!: sv_ok_send)

lemma delete_in_set: "(t, r) \<in> set (AList.delete t' xs) \<longleftrightarrow> (t, r) \<in> set xs \<and> t \<noteq> t'"
  by (auto simp: AList.delete_eq)

lemma onUnknownChannel_ok:
  assumes ok: "sv_ok env A S"
    and q: "\<And>r. map_of (sv_timers S) t = Some r \<Longrightarrow> response_ok env (unknown_channel (sv_timeoutDelay S) r)"
  shows "sv_ok env A (sv_onUnknownChannel env t S)" "sv_grows env S (sv_onUnknownChannel env t S)"
proof -
  have "sv_ok env A (sv_onUnknownChannel env t S) \<and> sv_grows env S (sv_onUnknownChannel env t S)"
  proof (cases "map_of (sv_timers S) t")
    case (Some r)
    let ?S = "S\<lparr>sv_timers := AList.delete t (sv_timers S)\<rparr>" and ?q = "unknown_channel (sv_timeoutDelay S) r"
    have ok': "books_ok A S" "calls_ok A S" "sent_ok env A S" using ok by (simp_all add: sv_ok_def)
    have r: "(r, t) \<in> pend_set S" using books_okD(1) [OF ok'(1) map_of_SomeD [OF Some]] .
    have same: "r' = r" if "(t, r') \<in> set (sv_timers S)" for r'
      using books_okD(4) [OF ok'(1) r books_okD(1) [OF ok'(1) that]] .
    have "sv_ok env A ?S"
      using ok' by (auto simp: sv_ok_def books_ok_def calls_ok_def sent_ok_def pend_set_def pend_of_def answered_def delete_in_set)
    moreover have "answered A ?S (response_id ?q) out" if "response_outcome ?q = Some out" "request_type r = 100" for out
      using that books_okD(3) [OF ok'(1) r] by (auto simp: answered_def unknown_channel_def)
    ultimately have "sv_ok env A (sv_onUnknownChannel env t S)"
      using Some q [OF Some] by (auto simp: sv_onUnknownChannel_def Let_def intro: sv_ok_send)
    moreover have "pending_answer env (sv_onUnknownChannel env t S) d r'"
      if "pending_answer env S d r'" "d \<le> length (sv_sent S)" "request_type r' = 100" for d r'
    proof (cases "r' = r")
      case True
      have rcv: "receive_response env (response_bytes env ?q) = Inr (Some ?q)" using q [OF Some] by (rule receive_sent(2))
      have id: "response_id ?q = request_id r" "response_outcome ?q \<noteq> None" by (simp_all add: unknown_channel_def)
      have "response_bytes env ?q \<in> set (drop d (sv_sent (sv_onUnknownChannel env t S)))"
        using Some True that(2,3) by (simp add: sv_onUnknownChannel_def Let_def)
      with rcv id True show ?thesis unfolding pending_answer_def by blast
    next
      case False
      have "(t', r') \<in> set (sv_timers S) \<Longrightarrow> t' \<noteq> t" for t' using same False by auto
      with Some show ?thesis
        by (intro pending_answer_mono [OF that(1)]) (auto simp: sv_onUnknownChannel_def Let_def delete_in_set)
    qed
    then have "sv_grows env S (sv_onUnknownChannel env t S)"
      using Some by (simp add: sv_grows_def sv_onUnknownChannel_def Let_def)
    ultimately show ?thesis by simp
  qed (use ok in \<open>simp add: sv_onUnknownChannel_def\<close>)
  then show "sv_ok env A (sv_onUnknownChannel env t S)" "sv_grows env S (sv_onUnknownChannel env t S)" by simp_all
qed

text \<open>A channel is registered, and its pending requests are flushed.\<close>

lemma registerChannel_ok:
  assumes ok: "sv_ok env A S"
  shows "sv_ok env A (sv_registerChannel ch c S)" "sv_grows env S (sv_registerChannel ch c S)"
  using ok by (auto simp: sv_ok_def books_ok_def calls_ok_def sent_ok_def pend_set_def pend_of_def answered_def
      sv_registerChannel_def sv_grows_def pending_answer_def update_conv')

text \<open>One turn of the loop: the timer is cleared and the request begins.\<close>

lemma clear_timer_ok:
  assumes ok: "sv_ok env A S" and p: "(r, t) \<in> pend_set S"
  shows "sv_ok env A (S\<lparr>sv_timers := AList.delete t (sv_timers S)\<rparr>)"
    and "pending_answer env S d r' \<Longrightarrow> r' \<noteq> r \<Longrightarrow> pending_answer env (S\<lparr>sv_timers := AList.delete t (sv_timers S)\<rparr>) d r'"
proof -
  have books: "books_ok A S" using ok by (simp add: sv_ok_def)
  show "sv_ok env A (S\<lparr>sv_timers := AList.delete t (sv_timers S)\<rparr>)"
    using ok by (auto simp: sv_ok_def books_ok_def calls_ok_def sent_ok_def pend_set_def pend_of_def answered_def delete_in_set)
  show "pending_answer env (S\<lparr>sv_timers := AList.delete t (sv_timers S)\<rparr>) d r'" if "pending_answer env S d r'" "r' \<noteq> r"
    using that books_okD(4) [OF books p books_okD(1) [OF books]]
    by (fastforce simp: pending_answer_def delete_in_set)
qed

definition flush_turn ::
  "('c, 'j) ipc_env \<Rightarrow> 'j raw_request \<Rightarrow> nat \<Rightarrow> ('c, 'j) channel_server \<Rightarrow> ('c, 'j) channel_server \<times> js_error option" where
  "flush_turn env r t S =
     (let S = S\<lparr>sv_timers := AList.delete t (sv_timers S)\<rparr>
      in if request_type r = 100 then (sv_onPromise r S, None) else sv_onEventListen env r S)"

lemma flush_turn_ok:
  assumes ok: "sv_ok env A S" and p: "(r, t) \<in> pend_set S" and c: "map_of (sv_channels S) (request_channel r) \<noteq> None"
  shows "sv_ok env A (fst (flush_turn env r t S))" "sv_grows env S (fst (flush_turn env r t S))"
    "sv_pendingRequests (fst (flush_turn env r t S)) = sv_pendingRequests S"
    "sv_channels (fst (flush_turn env r t S)) = sv_channels S"
    "sv_timers (fst (flush_turn env r t S)) = AList.delete t (sv_timers S)"
proof -
  let ?S = "S\<lparr>sv_timers := AList.delete t (sv_timers S)\<rparr>"
  note clear = clear_timer_ok [OF ok p]
  have books: "books_ok A S" using ok by (simp add: sv_ok_def)
  have "sv_ok env A (fst (flush_turn env r t S)) \<and> sv_grows env S (fst (flush_turn env r t S)) \<and>
    sv_pendingRequests (fst (flush_turn env r t S)) = sv_pendingRequests S \<and>
    sv_channels (fst (flush_turn env r t S)) = sv_channels S \<and>
    sv_timers (fst (flush_turn env r t S)) = AList.delete t (sv_timers S)"
  proof (cases "request_type r = 100")
    case True
    then have r: "r \<in> A" using books_okD(3) [OF books p] by simp
    note promise = onPromise_ok [OF clear(1) r]
    have "pending_answer env (sv_onPromise r ?S) d r'" if "pending_answer env S d r'" "d \<le> length (sv_sent S)" "request_type r' = 100" for d r'
    proof (cases "r' = r")
      case True
      with promise(3) show ?thesis by simp
    next
      case False
      from clear(2) [OF that(1) this] promise(2) that(2,3) show ?thesis by (simp add: sv_grows_def)
    qed
    then have "sv_grows env S (sv_onPromise r ?S)" using promise(2) by (auto simp: sv_grows_def)
    with promise(1) c True show ?thesis by (auto simp: flush_turn_def sv_onPromise_def Let_def)
  next
    case False
    note listen = onEventListen_ok [OF clear(1) False]
    have "pending_answer env (fst (sv_onEventListen env r ?S)) d r'"
      if "pending_answer env S d r'" "d \<le> length (sv_sent S)" "request_type r' = 100" for d r'
      using clear(2) [OF that(1)] listen(2) that(2,3) False by (auto simp: sv_grows_def)
    then have "sv_grows env S (fst (sv_onEventListen env r ?S))" using listen(2) by (auto simp: sv_grows_def)
    with listen(1) c False show ?thesis by (auto simp: flush_turn_def sv_onEventListen_def Let_def split: option.splits)
  qed
  then show "sv_ok env A (fst (flush_turn env r t S))" "sv_grows env S (fst (flush_turn env r t S))"
    "sv_pendingRequests (fst (flush_turn env r t S)) = sv_pendingRequests S"
    "sv_channels (fst (flush_turn env r t S)) = sv_channels S"
    "sv_timers (fst (flush_turn env r t S)) = AList.delete t (sv_timers S)" by simp_all
qed

lemma flush_loop_turn:
  "flush_loop env ((r, t) # ps) S =
     (case flush_turn env r t S of (S', Some e) \<Rightarrow> (S', Some e) | (S', None) \<Rightarrow> flush_loop env ps S')"
  by (simp add: flush_turn_def Let_def split: prod.split option.split)

lemma flush_loop_ok:
  assumes "sv_ok env A S" and "\<forall>(r, t) \<in> set ps. (r, t) \<in> pend_set S \<and> map_of (sv_channels S) (request_channel r) \<noteq> None"
    and "flush_loop env ps S = (S', err)"
  shows "sv_ok env A S' \<and> sv_grows env S S' \<and> sv_pendingRequests S' = sv_pendingRequests S \<and>
    set (sv_timers S') \<subseteq> set (sv_timers S) \<and> (err = None \<longrightarrow> (\<forall>(r, t) \<in> set ps. t \<notin> fst ` set (sv_timers S')))"
  using assms
proof (induction ps arbitrary: S)
  case (Cons p ps)
  obtain r t where p: "p = (r, t)" by (cases p) simp
  obtain S1 e1 where turn: "flush_turn env r t S = (S1, e1)" by fastforce
  have "(r, t) \<in> pend_set S" "map_of (sv_channels S) (request_channel r) \<noteq> None" using Cons.prems(2) p by auto
  note t = flush_turn_ok [OF Cons.prems(1) this, unfolded turn fst_conv]
  have gone: "t \<notin> fst ` set (sv_timers S1)" "set (sv_timers S1) \<subseteq> set (sv_timers S)"
    using t(5) by (auto simp: AList.delete_eq)
  show ?case
  proof (cases e1)
    case (Some e)
    with Cons.prems(3) turn p have "S' = S1" "err = Some e" by (simp_all add: flush_loop_turn del: flush_loop.simps)
    with t gone show ?thesis by simp
  next
    case None
    with Cons.prems(3) turn p have loop: "flush_loop env ps S1 = (S', err)" by (simp add: flush_loop_turn del: flush_loop.simps)
    have "\<forall>(r, t) \<in> set ps. (r, t) \<in> pend_set S1 \<and> map_of (sv_channels S1) (request_channel r) \<noteq> None"
      using Cons.prems(2) t(3,4) by (auto simp: pend_set_def pend_of_def)
    from Cons.IH [OF t(1) this loop] t(2,3) gone p show ?thesis by (auto intro: sv_grows_trans)
  qed
qed auto

lemma onFlushTimer_ok:
  assumes ok: "sv_ok env A S"
  shows "sv_ok env A (fst (sv_onFlushTimer env ch S))" "sv_grows env S (fst (sv_onFlushTimer env ch S))"
proof -
  have "sv_ok env A (fst (sv_onFlushTimer env ch S)) \<and> sv_grows env S (fst (sv_onFlushTimer env ch S))"
  proof (cases "ch \<in> set (sv_flushes S)")
    case True
    let ?S = "S\<lparr>sv_flushes := remove1 ch (sv_flushes S)\<rparr>"
    have c: "map_of (sv_channels S) ch \<noteq> None" using ok True by (auto simp: sv_ok_def dest: books_okD(6))
    have ok': "sv_ok env A ?S"
      using ok set_remove1_subset [of ch "sv_flushes S"]
      by (auto simp: sv_ok_def books_ok_def calls_ok_def sent_ok_def pend_set_def pend_of_def answered_def)
    have g: "sv_grows env S ?S" by (simp add: sv_grows_def pending_answer_def)
    show ?thesis
    proof (cases "map_of (sv_pendingRequests S) ch")
      case None
      with True ok' g show ?thesis by (simp add: sv_onFlushTimer_def sv_flushPendingRequests_def)
    next
      case (Some ps)
      obtain S' err where loop: "flush_loop env ps ?S = (S', err)" by fastforce
      have ps: "set ps = set (pend_of ?S ch)" using Some by (simp add: pend_of_def)
      have "\<forall>(r, t) \<in> set ps. (r, t) \<in> pend_set ?S \<and> map_of (sv_channels ?S) (request_channel r) \<noteq> None"
        using c ok' unfolding ps by (auto simp: pend_set_def sv_ok_def dest: books_okD(5))
      note l = flush_loop_ok [OF ok' this loop]
      show ?thesis
      proof (cases err)
        case (Some e)
        with True loop l g \<open>map_of (sv_pendingRequests S) ch = Some ps\<close> show ?thesis
          by (auto simp: sv_onFlushTimer_def sv_flushPendingRequests_def intro: sv_grows_trans)
      next
        case None
        let ?S' = "S'\<lparr>sv_pendingRequests := AList.delete ch (sv_pendingRequests S')\<rparr>"
        have books: "books_ok A S'" using l by (simp add: sv_ok_def)
        have pend: "pend_of ?S' c = (if c = ch then [] else pend_of S' c)" for c
          by (simp add: pend_of_def delete_conv')
        have timers: "(r, t) \<in> pend_set ?S'" if "(t, r) \<in> set (sv_timers S')" for t r
        proof -
          have "(r, t) \<in> pend_set S'" using books_okD(1) [OF books that] .
          then obtain c where c: "(r, t) \<in> set (pend_of S' c)" by (auto simp: pend_set_def)
          have "pend_of S' ch = pend_of ?S ch" using l by (simp add: pend_of_def)
          with l None that c ps have "c \<noteq> ch" by force
          with c show ?thesis using pend by (auto simp: pend_set_def)
        qed
        have sub: "p \<in> pend_set S'" if "p \<in> pend_set ?S'" for p
          using that pend by (auto simp: pend_set_def split: if_splits)
        have "books_ok A ?S'"
          unfolding books_ok_def
        proof (intro conjI allI impI ballI)
          fix r t ch'
          assume "(r, t) \<in> set (pend_of ?S' ch')"
          with pend show "request_channel r = ch'" using books_okD(5) [OF books] by (auto split: if_splits)
        next
          fix r r' t
          assume "(r, t) \<in> pend_set ?S'" "(r', t) \<in> pend_set ?S'"
          then show "r' = r" using books_okD(4) [OF books sub sub] by simp
        qed (use timers books_okD(2,3) [OF books sub] books_okD(6) [OF books] in auto)
        then have "sv_ok env A ?S'" using l by (simp add: sv_ok_def calls_ok_def sent_ok_def answered_def)
        moreover have "sv_grows env S' ?S'" by (simp add: sv_grows_def pending_answer_def)
        ultimately show ?thesis
          using True loop l None g \<open>map_of (sv_pendingRequests S) ch = Some ps\<close>
          by (auto simp: sv_onFlushTimer_def sv_flushPendingRequests_def intro: sv_grows_trans)
      qed
    qed
  qed (use ok in \<open>simp add: sv_onFlushTimer_def\<close>)
  then show "sv_ok env A (fst (sv_onFlushTimer env ch S))" "sv_grows env S (fst (sv_onFlushTimer env ch S))" by simp_all
qed

end
