(* ===== verification/ChannelClient.thy ===== *)
theory ChannelClient
  imports ChannelMessages "HOL-Library.AList"
begin

section \<open>The client side of channels\<close>

text \<open>
  The class \<open>ChannelClient\<close> of \<open>src/src/vs/base/parts/ipc/common/ipc.ts\<close>. A promise that a call returns is
  named by the id of its request, and its outcome is recorded in \<open>cl_settled\<close>: the first one counts. A
  request that waits for the other side to be initialized is kept with its id, as the closure
  \<open>doRequest\<close> keeps it. An emitter that \<open>requestEvent\<close> makes is named by its id as well.
\<close>

datatype response_handler = PromiseHandler | EventHandler

datatype active_request = ActivePromise int | ActiveEmitter int

datatype 'j settlement = Answered "'j outcome" | CancellationError | SendFailed js_error

record 'j channel_client =
  cl_isDisposed :: bool
  cl_idle :: bool
  cl_activeRequests :: "active_request list"
  cl_handlers :: "(int \<times> response_handler) list"
  cl_lastRequestId :: int
  cl_protocolListener :: bool
  cl_waiting :: "(int \<times> 'j raw_request) list"
  cl_tokens :: "int list"
  cl_settled :: "(int \<times> 'j settlement) list"
  cl_emitters :: "(int \<times> 'j raw_request) list"
  cl_disposedEmitters :: "int list"
  cl_fired :: "(int \<times> 'j val) list"
  cl_sent :: "vs_buffer list"

definition mk_ChannelClient :: "'j channel_client" where
  "mk_ChannelClient =
     \<lparr>cl_isDisposed = False, cl_idle = False, cl_activeRequests = [], cl_handlers = [], cl_lastRequestId = 0,
      cl_protocolListener = True, cl_waiting = [], cl_tokens = [], cl_settled = [], cl_emitters = [],
      cl_disposedEmitters = [], cl_fired = [], cl_sent = []\<rparr>"

subsection \<open>Sending\<close>

definition cl_send :: "('c, 'j) ipc_env \<Rightarrow> 'j raw_request \<Rightarrow> 'j channel_client \<Rightarrow> 'j channel_client" where
  "cl_send env request this =
     this\<lparr>cl_sent := send_message env (request_header request) (request_body request) (cl_sent this)\<rparr>"

definition cl_sendRequest :: "('c, 'j) ipc_env \<Rightarrow> 'j raw_request \<Rightarrow> 'j channel_client \<Rightarrow> 'j channel_client result" where
  "cl_sendRequest env request this =
     (if request_type request = 100 \<or> request_type request = 102
      then case env_throws env (request_body request) of
             Some e \<Rightarrow> Inl e
           | None \<Rightarrow> Inr (cl_send env request this)
      else Inr (cl_send env request this))"

definition cl_settle :: "int \<Rightarrow> 'j settlement \<Rightarrow> 'j channel_client \<Rightarrow> 'j channel_client" where
  "cl_settle i s this =
     (if i \<in> fst ` set (cl_settled this) then this else this\<lparr>cl_settled := cl_settled this @ [(i, s)]\<rparr>)"

subsection \<open>Calls\<close>

definition cl_doRequest :: "('c, 'j) ipc_env \<Rightarrow> int \<Rightarrow> 'j raw_request \<Rightarrow> 'j channel_client \<Rightarrow> 'j channel_client" where
  "cl_doRequest env i request this =
     (let this = this\<lparr>cl_handlers := AList.update i PromiseHandler (cl_handlers this)\<rparr>
      in case cl_sendRequest env request this of
           Inl e \<Rightarrow> cl_settle i (SendFailed e) (this\<lparr>cl_handlers := AList.delete i (cl_handlers this)\<rparr>)
         | Inr this \<Rightarrow> this)"

definition cl_requestPromise ::
  "('c, 'j) ipc_env \<Rightarrow> js_string \<Rightarrow> js_string \<Rightarrow> 'j val \<Rightarrow> bool \<Rightarrow> 'j channel_client \<Rightarrow> int \<times> 'j channel_client" where
  "cl_requestPromise env channelName name arg isCancellationRequested this =
     (let i = cl_lastRequestId this;
          this = this\<lparr>cl_lastRequestId := i + 1\<rparr>;
          request = PromiseRequest i channelName name arg
      in if isCancellationRequested then (i, cl_settle i CancellationError this)
         else let this = (if cl_idle this then cl_doRequest env i request this
                          else this\<lparr>cl_waiting := cl_waiting this @ [(i, request)]\<rparr>)
              in (i, this\<lparr>cl_tokens := cl_tokens this @ [i],
                          cl_activeRequests := cl_activeRequests this @ [ActivePromise i]\<rparr>))"

text \<open>\<open>call\<close> of a channel; \<open>None\<close> is a promise that is rejected with a \<open>CancellationError\<close>.\<close>

definition cl_call ::
  "('c, 'j) ipc_env \<Rightarrow> js_string \<Rightarrow> js_string \<Rightarrow> 'j val \<Rightarrow> bool \<Rightarrow> 'j channel_client \<Rightarrow> int option \<times> 'j channel_client" where
  "cl_call env channelName command arg isCancellationRequested this =
     (if cl_isDisposed this then (None, this)
      else let (i, this) = cl_requestPromise env channelName command arg isCancellationRequested this in (Some i, this))"

definition cl_cancel :: "('c, 'j) ipc_env \<Rightarrow> int \<Rightarrow> 'j channel_client \<Rightarrow> 'j channel_client" where
  "cl_cancel env i this =
     (let this = (if i \<in> fst ` set (cl_waiting this) then this\<lparr>cl_waiting := AList.delete i (cl_waiting this)\<rparr>
                  else cl_send env (PromiseCancel i) this)
      in cl_settle i CancellationError this)"

text \<open>The token of the caller fires; and the promise of a call is settled, \<open>finally\<close>.\<close>

definition cl_onCancellationRequested :: "('c, 'j) ipc_env \<Rightarrow> int \<Rightarrow> 'j channel_client \<Rightarrow> 'j channel_client" where
  "cl_onCancellationRequested env i this =
     (if i \<in> set (cl_tokens this) then cl_cancel env i (this\<lparr>cl_tokens := removeAll i (cl_tokens this)\<rparr>) else this)"

definition cl_onFinally :: "int \<Rightarrow> 'j channel_client \<Rightarrow> 'j channel_client" where
  "cl_onFinally i this =
     (if i \<in> fst ` set (cl_settled this)
      then this\<lparr>cl_tokens := removeAll i (cl_tokens this),
                cl_activeRequests := removeAll (ActivePromise i) (cl_activeRequests this)\<rparr>
      else this)"

subsection \<open>Events\<close>

definition cl_requestEvent ::
  "js_string \<Rightarrow> js_string \<Rightarrow> 'j val \<Rightarrow> 'j channel_client \<Rightarrow> int \<times> 'j channel_client" where
  "cl_requestEvent channelName name arg this =
     (let i = cl_lastRequestId this
      in (i, this\<lparr>cl_lastRequestId := i + 1,
                  cl_emitters := cl_emitters this @ [(i, EventListen i channelName name arg)]\<rparr>))"

text \<open>\<open>listen\<close> of a channel; \<open>None\<close> is \<open>Event.None\<close>.\<close>

definition cl_listen ::
  "js_string \<Rightarrow> js_string \<Rightarrow> 'j val \<Rightarrow> 'j channel_client \<Rightarrow> int option \<times> 'j channel_client" where
  "cl_listen channelName event arg this =
     (if cl_isDisposed this then (None, this)
      else let (i, this) = cl_requestEvent channelName event arg this in (Some i, this))"

definition cl_doRequestEvent ::
  "('c, 'j) ipc_env \<Rightarrow> int \<Rightarrow> 'j raw_request \<Rightarrow> 'j channel_client \<Rightarrow> 'j channel_client \<times> js_error option" where
  "cl_doRequestEvent env i request this =
     (let this = (if ActiveEmitter i \<in> set (cl_activeRequests this) then this
                  else this\<lparr>cl_activeRequests := cl_activeRequests this @ [ActiveEmitter i]\<rparr>)
      in case cl_sendRequest env request this of
           Inl e \<Rightarrow> (this, Some e)
         | Inr this \<Rightarrow> (this, None))"

definition cl_onWillAddFirstListener ::
  "('c, 'j) ipc_env \<Rightarrow> int \<Rightarrow> 'j channel_client \<Rightarrow> 'j channel_client \<times> js_error option" where
  "cl_onWillAddFirstListener env i this =
     (case map_of (cl_emitters this) i of
        None \<Rightarrow> (this, None)
      | Some request \<Rightarrow>
          if i \<in> set (cl_disposedEmitters this) then (this, None)
          else let this = this\<lparr>cl_handlers := AList.update i EventHandler (cl_handlers this)\<rparr>
               in if cl_idle this then cl_doRequestEvent env i request this
                  else (this\<lparr>cl_waiting := cl_waiting this @ [(i, request)]\<rparr>, None))"

definition cl_onDidRemoveLastListener :: "('c, 'j) ipc_env \<Rightarrow> int \<Rightarrow> 'j channel_client \<Rightarrow> 'j channel_client" where
  "cl_onDidRemoveLastListener env i this =
     (let this = (if i \<in> fst ` set (cl_waiting this) then this\<lparr>cl_waiting := AList.delete i (cl_waiting this)\<rparr>
                  else cl_send env (EventDispose i)
                    (this\<lparr>cl_activeRequests := removeAll (ActiveEmitter i) (cl_activeRequests this)\<rparr>))
      in this\<lparr>cl_handlers := AList.delete i (cl_handlers this)\<rparr>)"

subsection \<open>Responses\<close>

text \<open>
  The reaction of a waiting request to the promise \<open>whenInitialized\<close>. What \<open>sendRequest\<close> throws for an event
  is lost in the rejected promise.
\<close>

definition cl_onInitialized :: "('c, 'j) ipc_env \<Rightarrow> int \<Rightarrow> 'j channel_client \<Rightarrow> 'j channel_client" where
  "cl_onInitialized env i this =
     (case map_of (cl_waiting this) i of
        None \<Rightarrow> this
      | Some request \<Rightarrow>
          if cl_idle this
          then let this = this\<lparr>cl_waiting := AList.delete i (cl_waiting this)\<rparr>
               in if request_type request = 100 then cl_doRequest env i request this
                  else fst (cl_doRequestEvent env i request this)
          else this)"

definition cl_promiseHandler :: "'j raw_response \<Rightarrow> 'j channel_client \<Rightarrow> 'j channel_client" where
  "cl_promiseHandler response this =
     (case response_outcome response of
        None \<Rightarrow> this
      | Some out \<Rightarrow>
          cl_settle (response_id response) (Answered out)
            (this\<lparr>cl_handlers := AList.delete (response_id response) (cl_handlers this)\<rparr>))"

definition cl_onResponse :: "'j raw_response \<Rightarrow> 'j channel_client \<Rightarrow> 'j channel_client" where
  "cl_onResponse response this =
     (if response_type response = 200 then this\<lparr>cl_idle := True\<rparr>
      else case map_of (cl_handlers this) (response_id response) of
             None \<Rightarrow> this
           | Some PromiseHandler \<Rightarrow> cl_promiseHandler response this
           | Some EventHandler \<Rightarrow> this\<lparr>cl_fired := cl_fired this @ [(response_id response, response_body response)]\<rparr>)"

definition cl_onBuffer ::
  "('c, 'j) ipc_env \<Rightarrow> vs_buffer \<Rightarrow> 'j channel_client \<Rightarrow> 'j channel_client \<times> js_error option" where
  "cl_onBuffer env message this =
     (case receive_response env message of
        Inl e \<Rightarrow> (this, Some e)
      | Inr None \<Rightarrow> (this, None)
      | Inr (Some response) \<Rightarrow> (cl_onResponse response this, None))"

subsection \<open>Disposing\<close>

fun cl_disposeOne :: "('c, 'j) ipc_env \<Rightarrow> active_request \<Rightarrow> 'j channel_client \<Rightarrow> 'j channel_client" where
  "cl_disposeOne env (ActivePromise i) this =
     (let this = cl_cancel env i this in this\<lparr>cl_tokens := removeAll i (cl_tokens this)\<rparr>)"
| "cl_disposeOne env (ActiveEmitter i) this =
     cl_onDidRemoveLastListener env i (this\<lparr>cl_disposedEmitters := cl_disposedEmitters this @ [i]\<rparr>)"

definition cl_dispose :: "('c, 'j) ipc_env \<Rightarrow> 'j channel_client \<Rightarrow> 'j channel_client" where
  "cl_dispose env this =
     (fold (cl_disposeOne env) (cl_activeRequests this) (this\<lparr>cl_isDisposed := True, cl_protocolListener := False\<rparr>))
       \<lparr>cl_activeRequests := []\<rparr>"

end
