(* ===== verification/ChannelClientLaws.thy ===== *)
theory ChannelClientLaws
  imports ChannelClient
begin

section \<open>What the client side of a channel keeps\<close>

text \<open>
  The invariant of a \<open>ChannelClient\<close>, relative to the set \<open>A\<close> of the requests for which a call has returned a
  promise, and what every operation keeps of it. \<open>cl_moves\<close> says what an operation does to them.
\<close>

definition cl_ids :: "('c, 'j) ipc_env \<Rightarrow> 'j raw_request set \<Rightarrow> 'j channel_client \<Rightarrow> bool" where
  "cl_ids env A C \<longleftrightarrow>
     (\<forall>r \<in> A. request_type r = 100 \<and> request_id r < cl_lastRequestId C \<and> request_ok env r \<and>
        request_ok env (PromiseCancel (request_id r))) \<and>
     (\<forall>r \<in> A. \<forall>r' \<in> A. request_id r = request_id r' \<longrightarrow> r = r') \<and>
     (\<forall>i q. (i, q) \<in> set (cl_emitters C) \<longrightarrow> i < cl_lastRequestId C \<and> request_type q = 102 \<and> request_ok env q \<and>
        request_ok env (EventDispose i) \<and> (\<forall>r \<in> A. request_id r \<noteq> i))"

definition cl_books :: "'j raw_request set \<Rightarrow> 'j channel_client \<Rightarrow> bool" where
  "cl_books A C \<longleftrightarrow>
     (\<forall>i q. (i, q) \<in> set (cl_waiting C) \<longrightarrow> q \<in> A \<and> request_id q = i \<or> (i, q) \<in> set (cl_emitters C)) \<and>
     (\<forall>i. map_of (cl_handlers C) i = Some EventHandler \<longrightarrow> i \<in> fst ` set (cl_emitters C)) \<and>
     set (cl_tokens C) \<subseteq> request_id ` A \<and>
     (\<forall>i. ActivePromise i \<in> set (cl_activeRequests C) \<longrightarrow> i \<in> request_id ` A) \<and>
     (\<forall>i. ActiveEmitter i \<in> set (cl_activeRequests C) \<longrightarrow> i \<in> fst ` set (cl_emitters C)) \<and>
     cl_protocolListener C = (\<not> cl_isDisposed C)"

definition cl_sends :: "('c, 'j) ipc_env \<Rightarrow> 'j raw_request set \<Rightarrow> 'j channel_client \<Rightarrow> bool" where
  "cl_sends env A C \<longleftrightarrow>
     (\<forall>m \<in> set (cl_sent C). \<forall>q. receive_request env m = Inr (Some q) \<longrightarrow> request_type q = 100 \<longrightarrow> q \<in> A)"

definition settled :: "'j channel_client \<Rightarrow> int set" where
  "settled C = fst ` set (cl_settled C)"

definition waits :: "'j channel_client \<Rightarrow> int set" where
  "waits C = fst ` set (cl_waiting C)"

definition cl_ok :: "('c, 'j) ipc_env \<Rightarrow> 'j raw_request set \<Rightarrow> 'j channel_client \<Rightarrow> bool" where
  "cl_ok env A C \<longleftrightarrow> cl_ids env A C \<and> cl_books A C \<and> cl_sends env A C"

text \<open>A request whose promise is still to be settled can be cancelled when the client is disposed.\<close>

definition cl_open :: "'j raw_request set \<Rightarrow> 'j channel_client \<Rightarrow> bool" where
  "cl_open A C \<longleftrightarrow>
     (\<forall>r \<in> A. request_id r \<in> settled C \<or> \<not> cl_isDisposed C \<and> ActivePromise (request_id r) \<in> set (cl_activeRequests C))"

text \<open>
  What an operation does to the requests that were asked: one that is neither settled nor waiting was so
  before, and keeps its handler, or it was sent just now.
\<close>

definition awaited :: "'j channel_client \<Rightarrow> int \<Rightarrow> bool" where
  "awaited C i \<longleftrightarrow> i \<notin> settled C \<and> i \<notin> waits C"

definition cl_moves ::
  "('c, 'j) ipc_env \<Rightarrow> 'j raw_request set \<Rightarrow> 'j channel_client \<Rightarrow> 'j channel_client \<Rightarrow> bool" where
  "cl_moves env A C C' \<longleftrightarrow>
     (\<exists>ms. cl_sent C' = cl_sent C @ ms \<and>
        (\<forall>r \<in> A. awaited C' (request_id r) \<longrightarrow>
           awaited C (request_id r) \<and> map_of (cl_handlers C') (request_id r) = map_of (cl_handlers C) (request_id r) \<or>
           map_of (cl_handlers C') (request_id r) = Some PromiseHandler \<and>
           (\<exists>m \<in> set ms. receive_request env m = Inr (Some r)))) \<and>
     (\<forall>i out. (i, Answered out) \<in> set (cl_settled C') \<longrightarrow> (i, Answered out) \<in> set (cl_settled C)) \<and>
     cl_idle C' = cl_idle C"

lemma cl_moves_refl [simp]: "cl_moves env A C C"
  by (simp add: cl_moves_def)

lemma cl_moves_trans:
  assumes "cl_moves env A C C'" and "cl_moves env A C' C''"
  shows "cl_moves env A C C''"
proof -
  obtain ms where ms: "cl_sent C' = cl_sent C @ ms" "\<forall>r \<in> A. awaited C' (request_id r) \<longrightarrow>
      awaited C (request_id r) \<and> map_of (cl_handlers C') (request_id r) = map_of (cl_handlers C) (request_id r) \<or>
      map_of (cl_handlers C') (request_id r) = Some PromiseHandler \<and> (\<exists>m \<in> set ms. receive_request env m = Inr (Some r))"
    using assms(1) by (auto simp: cl_moves_def)
  obtain ns where ns: "cl_sent C'' = cl_sent C' @ ns" "\<forall>r \<in> A. awaited C'' (request_id r) \<longrightarrow>
      awaited C' (request_id r) \<and> map_of (cl_handlers C'') (request_id r) = map_of (cl_handlers C') (request_id r) \<or>
      map_of (cl_handlers C'') (request_id r) = Some PromiseHandler \<and> (\<exists>m \<in> set ns. receive_request env m = Inr (Some r))"
    using assms(2) by (auto simp: cl_moves_def)
  have "\<exists>ks. cl_sent C'' = cl_sent C @ ks \<and> (\<forall>r \<in> A. awaited C'' (request_id r) \<longrightarrow>
      awaited C (request_id r) \<and> map_of (cl_handlers C'') (request_id r) = map_of (cl_handlers C) (request_id r) \<or>
      map_of (cl_handlers C'') (request_id r) = Some PromiseHandler \<and> (\<exists>m \<in> set ks. receive_request env m = Inr (Some r)))"
  proof (intro exI [of _ "ms @ ns"] conjI ballI impI)
    fix r
    assume "r \<in> A" "awaited C'' (request_id r)"
    with ns(2) ms(2) show "awaited C (request_id r) \<and> map_of (cl_handlers C'') (request_id r) = map_of (cl_handlers C) (request_id r) \<or>
      map_of (cl_handlers C'') (request_id r) = Some PromiseHandler \<and> (\<exists>m \<in> set (ms @ ns). receive_request env m = Inr (Some r))"
      by (metis UnI1 UnI2 set_append)
  qed (simp add: ms ns)
  with assms show ?thesis by (simp add: cl_moves_def)
qed

text \<open>The building blocks.\<close>

lemma cl_send_simps [simp]:
  "cl_sent (cl_send env q C) = cl_sent C @ [request_bytes env q]"
  "cl_handlers (cl_send env q C) = cl_handlers C" "cl_waiting (cl_send env q C) = cl_waiting C"
  "cl_settled (cl_send env q C) = cl_settled C" "cl_tokens (cl_send env q C) = cl_tokens C"
  "cl_activeRequests (cl_send env q C) = cl_activeRequests C" "cl_emitters (cl_send env q C) = cl_emitters C"
  "cl_lastRequestId (cl_send env q C) = cl_lastRequestId C" "cl_isDisposed (cl_send env q C) = cl_isDisposed C"
  "cl_protocolListener (cl_send env q C) = cl_protocolListener C" "cl_idle (cl_send env q C) = cl_idle C"
  "cl_disposedEmitters (cl_send env q C) = cl_disposedEmitters C"
  by (simp_all add: cl_send_def send_message_bytes request_bytes_def)

lemma cl_settle_simps [simp]:
  "cl_sent (cl_settle i s C) = cl_sent C" "cl_handlers (cl_settle i s C) = cl_handlers C"
  "cl_waiting (cl_settle i s C) = cl_waiting C" "cl_tokens (cl_settle i s C) = cl_tokens C"
  "cl_activeRequests (cl_settle i s C) = cl_activeRequests C" "cl_emitters (cl_settle i s C) = cl_emitters C"
  "cl_lastRequestId (cl_settle i s C) = cl_lastRequestId C" "cl_isDisposed (cl_settle i s C) = cl_isDisposed C"
  "cl_protocolListener (cl_settle i s C) = cl_protocolListener C" "cl_idle (cl_settle i s C) = cl_idle C"
  "settled (cl_settle i s C) = insert i (settled C)" "waits (cl_settle i s C) = waits C"
  by (auto simp: cl_settle_def settled_def waits_def)

lemma settled_cong: "cl_settled C' = cl_settled C \<Longrightarrow> settled C' = settled C"
  by (simp add: settled_def)

lemma waits_cong: "cl_waiting C' = cl_waiting C \<Longrightarrow> waits C' = waits C"
  by (simp add: waits_def)

lemma waits_delete [simp]: "waits (C\<lparr>cl_waiting := AList.delete i (cl_waiting C)\<rparr>) = waits C - {i}"
  by (auto simp: waits_def AList.delete_eq)

lemma settle_answered:
  "(j, Answered out) \<in> set (cl_settled (cl_settle i s C)) \<Longrightarrow>
     (j, Answered out) \<in> set (cl_settled C) \<or> j = i \<and> s = Answered out"
  by (auto simp: cl_settle_def split: if_splits)

lemma delete_in_pairs: "(j, q) \<in> set (AList.delete i xs) \<longleftrightarrow> (j, q) \<in> set xs \<and> j \<noteq> i"
  by (auto simp: AList.delete_eq)

lemma cl_ok_send: "cl_ok env A C \<Longrightarrow> request_ok env q \<Longrightarrow> (request_type q = 100 \<Longrightarrow> q \<in> A) \<Longrightarrow> cl_ok env A (cl_send env q C)"
  by (auto simp: cl_ok_def cl_ids_def cl_books_def cl_sends_def receive_sent(1))

lemma cl_ok_settle: "cl_ok env A C \<Longrightarrow> cl_ok env A (cl_settle i s C)"
  by (simp add: cl_ok_def cl_ids_def cl_books_def cl_sends_def)

lemma cl_okD:
  assumes "cl_ok env A C"
  shows "r \<in> A \<Longrightarrow> request_type r = 100" "r \<in> A \<Longrightarrow> request_id r < cl_lastRequestId C" "r \<in> A \<Longrightarrow> request_ok env r"
    "r \<in> A \<Longrightarrow> request_ok env (PromiseCancel (request_id r))"
    "r \<in> A \<Longrightarrow> r' \<in> A \<Longrightarrow> request_id r = request_id r' \<Longrightarrow> r = r'"
    "(i, q) \<in> set (cl_emitters C) \<Longrightarrow> request_type q = 102" "(i, q) \<in> set (cl_emitters C) \<Longrightarrow> request_ok env q"
    "(i, q) \<in> set (cl_emitters C) \<Longrightarrow> request_ok env (EventDispose i)"
    "(i, q) \<in> set (cl_emitters C) \<Longrightarrow> r \<in> A \<Longrightarrow> request_id r \<noteq> i"
    "(i, q) \<in> set (cl_waiting C) \<Longrightarrow> q \<in> A \<and> request_id q = i \<or> (i, q) \<in> set (cl_emitters C)"
    "map_of (cl_handlers C) i = Some EventHandler \<Longrightarrow> i \<in> fst ` set (cl_emitters C)"
    "i \<in> set (cl_tokens C) \<Longrightarrow> i \<in> request_id ` A"
    "ActivePromise i \<in> set (cl_activeRequests C) \<Longrightarrow> i \<in> request_id ` A"
    "ActiveEmitter i \<in> set (cl_activeRequests C) \<Longrightarrow> i \<in> fst ` set (cl_emitters C)"
    "cl_protocolListener C = (\<not> cl_isDisposed C)"
  using assms unfolding cl_ok_def cl_ids_def cl_books_def by blast+

text \<open>Handlers, waiting requests, tokens and active requests change.\<close>

lemma cl_ok_update:
  assumes ok: "cl_ok env A C"
    and same: "cl_emitters C' = cl_emitters C" "cl_lastRequestId C' = cl_lastRequestId C" "cl_sent C' = cl_sent C"
      "cl_isDisposed C' = cl_isDisposed C" "cl_protocolListener C' = cl_protocolListener C"
    and waiting: "\<And>i q. (i, q) \<in> set (cl_waiting C') \<Longrightarrow> (i, q) \<in> set (cl_waiting C) \<or> q \<in> A \<and> request_id q = i \<or> (i, q) \<in> set (cl_emitters C)"
    and handlers: "\<And>i. map_of (cl_handlers C') i = Some EventHandler \<Longrightarrow>
      map_of (cl_handlers C) i = Some EventHandler \<or> i \<in> fst ` set (cl_emitters C)"
    and tokens: "set (cl_tokens C') \<subseteq> set (cl_tokens C) \<union> request_id ` A"
    and active: "\<And>i. ActivePromise i \<in> set (cl_activeRequests C') \<Longrightarrow> ActivePromise i \<in> set (cl_activeRequests C) \<or> i \<in> request_id ` A"
      "\<And>i. ActiveEmitter i \<in> set (cl_activeRequests C') \<Longrightarrow> ActiveEmitter i \<in> set (cl_activeRequests C) \<or> i \<in> fst ` set (cl_emitters C)"
  shows "cl_ok env A C'"
proof -
  have "cl_ids env A C'" using ok same by (simp add: cl_ok_def cl_ids_def)
  moreover have "cl_sends env A C'" using ok same by (simp add: cl_ok_def cl_sends_def)
  moreover have "cl_books A C'"
    unfolding cl_books_def same
  proof (intro conjI allI impI)
    show "(i, q) \<in> set (cl_waiting C') \<Longrightarrow> q \<in> A \<and> request_id q = i \<or> (i, q) \<in> set (cl_emitters C)" for i q
      using waiting cl_okD(10) [OF ok] by blast
    show "map_of (cl_handlers C') i = Some EventHandler \<Longrightarrow> i \<in> fst ` set (cl_emitters C)" for i
      using handlers cl_okD(11) [OF ok] by blast
    show "set (cl_tokens C') \<subseteq> request_id ` A" using tokens cl_okD(12) [OF ok] by blast
    show "ActivePromise i \<in> set (cl_activeRequests C') \<Longrightarrow> i \<in> request_id ` A" for i
      using active(1) cl_okD(13) [OF ok] by blast
    show "ActiveEmitter i \<in> set (cl_activeRequests C') \<Longrightarrow> i \<in> fst ` set (cl_emitters C)" for i
      using active(2) cl_okD(14) [OF ok] by blast
    show "cl_protocolListener C = (\<not> cl_isDisposed C)" by (rule cl_okD(15) [OF ok])
  qed
  ultimately show ?thesis by (simp add: cl_ok_def)
qed

lemma cl_moves_same:
  assumes "cl_sent C' = cl_sent C" "cl_idle C' = cl_idle C" "settled C \<subseteq> settled C'"
    and "\<And>i out. (i, Answered out) \<in> set (cl_settled C') \<Longrightarrow> (i, Answered out) \<in> set (cl_settled C)"
    and "\<And>r. r \<in> A \<Longrightarrow> request_id r \<notin> settled C' \<Longrightarrow> request_id r \<in> waits C' \<or>
      request_id r \<notin> waits C \<and> map_of (cl_handlers C') (request_id r) = map_of (cl_handlers C) (request_id r)"
  shows "cl_moves env A C C'"
  using assms by (auto simp: cl_moves_def awaited_def)

text \<open>A promise request is sent.\<close>

lemma doRequest_ok:
  assumes ok: "cl_ok env A C" and r: "r \<in> A" "request_id r = i"
    and w: "\<And>j. j \<noteq> i \<Longrightarrow> j \<in> fst ` set w \<longleftrightarrow> j \<in> waits C" and sub: "set w \<subseteq> set (cl_waiting C)"
  shows "cl_ok env A (cl_doRequest env i r (C\<lparr>cl_waiting := w\<rparr>))"
    and "cl_moves env A C (cl_doRequest env i r (C\<lparr>cl_waiting := w\<rparr>))"
    and "settled C \<subseteq> settled (cl_doRequest env i r (C\<lparr>cl_waiting := w\<rparr>))"
    and "cl_activeRequests (cl_doRequest env i r (C\<lparr>cl_waiting := w\<rparr>)) = cl_activeRequests C"
    and "cl_isDisposed (cl_doRequest env i r (C\<lparr>cl_waiting := w\<rparr>)) = cl_isDisposed C"
    and "cl_tokens (cl_doRequest env i r (C\<lparr>cl_waiting := w\<rparr>)) = cl_tokens C"
proof -
  let ?D = "cl_doRequest env i r (C\<lparr>cl_waiting := w\<rparr>)"
  let ?H = "C\<lparr>cl_waiting := w, cl_handlers := AList.update i PromiseHandler (cl_handlers C)\<rparr>"
  note type = cl_okD(1) [OF ok r(1)] and rok = cl_okD(3) [OF ok r(1)]
  have all: "cl_ok env A ?D \<and> cl_moves env A C ?D \<and> settled C \<subseteq> settled ?D \<and> cl_activeRequests ?D = cl_activeRequests C \<and>
    cl_isDisposed ?D = cl_isDisposed C \<and> cl_tokens ?D = cl_tokens C"
  proof (cases "env_throws env (request_body r)")
    case None
    then have D: "?D = cl_send env r ?H" using type by (simp add: cl_doRequest_def cl_sendRequest_def)
    have "cl_ok env A ?H"
      using sub by (intro cl_ok_update [OF ok]) (auto simp: update_conv' split: if_splits)
    then have "cl_ok env A ?D" unfolding D using rok r by (intro cl_ok_send)
    moreover have "cl_moves env A C ?D"
    proof -
      have "receive_request env (request_bytes env r) = Inr (Some r)" using rok by (rule receive_sent(1))
      moreover have "r' = r" if "r' \<in> A" "request_id r' = i" for r' using cl_okD(5) [OF ok that(1) r(1)] that(2) r(2) by simp
      ultimately show ?thesis
        unfolding D using w
        by (auto simp: cl_moves_def awaited_def settled_def waits_def update_conv' fun_upd_def image_iff)
    qed
    moreover have "settled ?D = settled C" unfolding D by (simp add: settled_def)
    ultimately show ?thesis unfolding D by simp
  next
    case (Some e)
    let ?L = "C\<lparr>cl_waiting := w, cl_handlers := AList.delete i (AList.update i PromiseHandler (cl_handlers C))\<rparr>"
    have D: "?D = cl_settle i (SendFailed e) ?L" using type Some by (simp add: cl_doRequest_def cl_sendRequest_def)
    have "cl_ok env A ?L"
      using sub by (intro cl_ok_update [OF ok]) (auto simp: update_conv' delete_conv' split: if_splits)
    then have "cl_ok env A ?D" unfolding D by (rule cl_ok_settle)
    moreover have s: "settled ?D = insert i (settled C)" unfolding D cl_settle_simps by (simp add: settled_def)
    moreover have "cl_moves env A C ?D"
    proof (rule cl_moves_same)
      show "(j, Answered out) \<in> set (cl_settled C)" if "(j, Answered out) \<in> set (cl_settled ?D)" for j out
        using settle_answered [OF that [unfolded D]] by simp
      show "request_id r' \<in> waits ?D \<or>
          request_id r' \<notin> waits C \<and> map_of (cl_handlers ?D) (request_id r') = map_of (cl_handlers C) (request_id r')"
        if "request_id r' \<notin> settled ?D" for r'
        using that w unfolding s unfolding D by (auto simp: update_conv' delete_conv' waits_def image_iff)
    qed (use s D in auto)
    ultimately show ?thesis unfolding D by auto
  qed
  then show "cl_ok env A ?D" "cl_moves env A C ?D" "settled C \<subseteq> settled ?D" "cl_activeRequests ?D = cl_activeRequests C"
    "cl_isDisposed ?D = cl_isDisposed C" "cl_tokens ?D = cl_tokens C" by simp_all
qed

lemma doRequest_now:
  assumes "cl_ok env A C" and "r \<in> A" "request_id r = i"
  shows "cl_ok env A (cl_doRequest env i r C)" "cl_moves env A C (cl_doRequest env i r C)"
    "settled C \<subseteq> settled (cl_doRequest env i r C)"
    "cl_activeRequests (cl_doRequest env i r C) = cl_activeRequests C"
    "cl_isDisposed (cl_doRequest env i r C) = cl_isDisposed C" "cl_tokens (cl_doRequest env i r C) = cl_tokens C"
  using doRequest_ok [OF assms, of "cl_waiting C"] by (simp_all add: waits_def)

text \<open>A new call.\<close>

lemma requestPromise_ok:
  assumes ok: "cl_ok env A C" and new: "r = PromiseRequest (cl_lastRequestId C) ch name arg"
    and r: "request_ok env r" "request_ok env (PromiseCancel (cl_lastRequestId C))"
    and less: "\<forall>r \<in> A. request_id r < cl_lastRequestId C" and op: "cl_open A C" "\<not> cl_isDisposed C"
  shows "cl_ok env (insert r A) (snd (cl_requestPromise env ch name arg c C))"
    and "cl_moves env (insert r A) C (snd (cl_requestPromise env ch name arg c C))"
    and "cl_open (insert r A) (snd (cl_requestPromise env ch name arg c C))"
proof -
  let ?i = "cl_lastRequestId C"
  let ?C = "C\<lparr>cl_lastRequestId := ?i + 1\<rparr>" and ?A = "insert r A"
  have rid: "request_id r = ?i" "request_type r = 100" by (simp_all add: new)
  have fresh: "request_id r' \<noteq> ?i" if "r' \<in> A" for r' using less that by auto
  have emitters: "j < ?i" if "(j, q) \<in> set (cl_emitters C)" for j q
    using ok that by (auto simp: cl_ok_def cl_ids_def)
  have "cl_ids env ?A ?C"
    using ok rid r fresh emitters unfolding cl_ok_def cl_ids_def by (fastforce simp: less_imp_neq)
  then have ok': "cl_ok env ?A ?C"
    using ok by (auto simp: cl_ok_def cl_books_def cl_sends_def)
  define B where "B = (if cl_idle C then cl_doRequest env ?i r ?C else ?C\<lparr>cl_waiting := cl_waiting C @ [(?i, r)]\<rparr>)"
  have "cl_ok env ?A B \<and> cl_moves env ?A C B \<and> settled C \<subseteq> settled B \<and> cl_activeRequests B = cl_activeRequests C \<and>
    cl_isDisposed B = cl_isDisposed C"
  proof (cases "cl_idle C")
    case True
    note d = doRequest_now [OF ok' _ rid(1)]
    have "cl_moves env ?A C ?C" by (rule cl_moves_same) (simp_all add: settled_def waits_def)
    with d True show ?thesis by (auto simp: B_def settled_def intro: cl_moves_trans)
  next
    case False
    have "cl_ok env ?A B" using False rid by (intro cl_ok_update [OF ok']) (auto simp: B_def)
    moreover have "cl_moves env ?A C B" using False fresh
      by (intro cl_moves_same) (auto simp: B_def settled_def waits_def rid)
    ultimately show ?thesis using False by (simp add: B_def settled_def)
  qed
  then have B: "cl_ok env ?A B" "cl_moves env ?A C B" "settled C \<subseteq> settled B" "cl_activeRequests B = cl_activeRequests C"
    "cl_isDisposed B = cl_isDisposed C" by simp_all
  have "cl_ok env ?A (snd (cl_requestPromise env ch name arg c C)) \<and>
    cl_moves env ?A C (snd (cl_requestPromise env ch name arg c C)) \<and> cl_open ?A (snd (cl_requestPromise env ch name arg c C))"
  proof (cases c)
    case True
    let ?S = "cl_settle ?i CancellationError ?C"
    have S: "snd (cl_requestPromise env ch name arg c C) = ?S" using True by (simp add: cl_requestPromise_def Let_def)
    have st: "settled ?S = insert ?i (settled C)" unfolding cl_settle_simps by (simp add: settled_def)
    have "cl_moves env ?A C ?S"
    proof (rule cl_moves_same)
      show "(j, Answered out) \<in> set (cl_settled C)" if "(j, Answered out) \<in> set (cl_settled ?S)" for j out
        using settle_answered [OF that] by simp
      show "request_id r' \<in> waits ?S \<or>
          request_id r' \<notin> waits C \<and> map_of (cl_handlers ?S) (request_id r') = map_of (cl_handlers C) (request_id r')"
        for r' by (simp add: waits_def)
    qed (use st in auto)
    moreover have "cl_open ?A ?S" using op st rid by (auto simp: cl_open_def)
    ultimately show ?thesis unfolding S using cl_ok_settle [OF ok'] by simp
  next
    case False
    let ?S = "B\<lparr>cl_tokens := cl_tokens B @ [?i], cl_activeRequests := cl_activeRequests B @ [ActivePromise ?i]\<rparr>"
    have S: "snd (cl_requestPromise env ch name arg c C) = ?S" using False by (simp add: cl_requestPromise_def Let_def B_def new)
    have "cl_ok env ?A ?S" using rid by (intro cl_ok_update [OF B(1)]) auto
    moreover have "cl_moves env ?A B ?S" by (rule cl_moves_same) (simp_all add: settled_def waits_def)
    moreover have "settled ?S = settled B" by (simp add: settled_def)
    then have "cl_open ?A ?S" using op B(3-5) rid by (auto simp: cl_open_def)
    ultimately show ?thesis unfolding S using B(2) by (auto intro: cl_moves_trans)
  qed
  then show "cl_ok env ?A (snd (cl_requestPromise env ch name arg c C))"
    "cl_moves env ?A C (snd (cl_requestPromise env ch name arg c C))" "cl_open ?A (snd (cl_requestPromise env ch name arg c C))"
    by simp_all
qed

lemma awaited_simps:
  "\<not> awaited (cl_settle i s C) i"
  "awaited (C\<lparr>cl_tokens := ts, cl_activeRequests := as\<rparr>) i = awaited C i"
  "\<not> awaited (C\<lparr>cl_waiting := ws @ [(i, q)]\<rparr>) i"
  "\<not> awaited (C\<lparr>cl_waiting := ws @ [(i, q)], cl_tokens := ts, cl_activeRequests := as\<rparr>) i"
  "\<not> awaited (C\<lparr>cl_lastRequestId := n, cl_waiting := ws @ [(i, q)], cl_tokens := ts, cl_activeRequests := as\<rparr>) i"
  by (simp_all add: awaited_def settled_def waits_def, simp add: settled_def [symmetric])

lemma doRequest_sends:
  "request_type r = 100 \<Longrightarrow> awaited (cl_doRequest env i r C) i \<Longrightarrow>
     map_of (cl_handlers (cl_doRequest env i r C)) i = Some PromiseHandler \<and>
     cl_sent (cl_doRequest env i r C) = cl_sent C @ [request_bytes env r]"
  by (cases "env_throws env (request_body r)")
    (auto simp: cl_doRequest_def cl_sendRequest_def awaited_def update_conv' Let_def)

text \<open>A new request that is neither settled nor waiting was sent.\<close>

lemma requestPromise_sends:
  assumes "i = cl_lastRequestId C" and ok: "request_ok env (PromiseRequest i ch name arg)"
    and "awaited (snd (cl_requestPromise env ch name arg c C)) i"
  shows "map_of (cl_handlers (snd (cl_requestPromise env ch name arg c C))) i = Some PromiseHandler \<and>
    (\<exists>m \<in> set (drop (length (cl_sent C)) (cl_sent (snd (cl_requestPromise env ch name arg c C)))).
       receive_request env m = Inr (Some (PromiseRequest i ch name arg)))"
proof -
  let ?r = "PromiseRequest i ch name arg" and ?C = "C\<lparr>cl_lastRequestId := i + 1\<rparr>"
  have "\<not> c" and idle: "cl_idle C" and d: "awaited (cl_doRequest env i ?r ?C) i"
    using assms(1,3) by (simp_all add: cl_requestPromise_def Let_def awaited_simps split: if_splits)
  from doRequest_sends [OF _ d] have "map_of (cl_handlers (cl_doRequest env i ?r ?C)) i = Some PromiseHandler"
    "cl_sent (cl_doRequest env i ?r ?C) = cl_sent C @ [request_bytes env ?r]" by simp_all
  with \<open>\<not> c\<close> idle assms(1) show ?thesis
    using receive_sent(1) [OF ok] by (simp add: cl_requestPromise_def Let_def)
qed

text \<open>A call is cancelled.\<close>

lemma cancel_ok:
  assumes ok: "cl_ok env A C" and i: "i \<in> request_id ` A"
  shows "cl_ok env A (cl_cancel env i C)" "cl_moves env A C (cl_cancel env i C)"
    "settled (cl_cancel env i C) = insert i (settled C)" "cl_activeRequests (cl_cancel env i C) = cl_activeRequests C"
    "cl_isDisposed (cl_cancel env i C) = cl_isDisposed C" "cl_emitters (cl_cancel env i C) = cl_emitters C"
proof -
  obtain r where r: "r \<in> A" "request_id r = i" using i by auto
  define B where "B = (if i \<in> waits C then C\<lparr>cl_waiting := AList.delete i (cl_waiting C)\<rparr> else cl_send env (PromiseCancel i) C)"
  have C': "cl_cancel env i C = cl_settle i CancellationError B" by (simp add: cl_cancel_def B_def waits_def)
  have "cl_ok env A B"
  proof (cases "i \<in> waits C")
    case True
    then show ?thesis by (auto simp: B_def delete_in_pairs intro!: cl_ok_update [OF ok])
  next
    case False
    then show ?thesis using cl_okD(4) [OF ok r(1)] r(2) by (auto simp: B_def intro!: cl_ok_send [OF ok])
  qed
  then show "cl_ok env A (cl_cancel env i C)" unfolding C' by (rule cl_ok_settle)
  have B: "settled B = settled C" "cl_activeRequests B = cl_activeRequests C" "cl_isDisposed B = cl_isDisposed C"
    "cl_settled B = cl_settled C" "cl_handlers B = cl_handlers C" "cl_idle B = cl_idle C" "cl_emitters B = cl_emitters C"
    by (simp_all add: B_def settled_def)
  have waits: "j \<in> waits B \<longleftrightarrow> j \<in> waits C" if "j \<noteq> i" for j
    using that by (auto simp: B_def waits_def AList.delete_eq)
  show s: "settled (cl_cancel env i C) = insert i (settled C)" "cl_activeRequests (cl_cancel env i C) = cl_activeRequests C"
    "cl_isDisposed (cl_cancel env i C) = cl_isDisposed C" "cl_emitters (cl_cancel env i C) = cl_emitters C"
    unfolding C' by (simp_all add: B)
  have "(j, Answered out) \<in> set (cl_settled C)" if "(j, Answered out) \<in> set (cl_settled (cl_cancel env i C))" for j out
    using settle_answered [OF that [unfolded C']] B(4) by simp
  moreover have "\<exists>ms. cl_sent (cl_cancel env i C) = cl_sent C @ ms" unfolding C' by (simp add: B_def)
  moreover have "awaited C j \<and> map_of (cl_handlers (cl_cancel env i C)) j = map_of (cl_handlers C) j"
    if "awaited (cl_cancel env i C) j" for j
    using that s(1) waits [of j] B(5) by (auto simp: awaited_def C')
  ultimately show "cl_moves env A C (cl_cancel env i C)"
    unfolding cl_moves_def by (auto simp: C' B(6))
qed

lemma cl_open_more:
  "cl_open A C \<Longrightarrow> settled C \<subseteq> settled C' \<Longrightarrow> cl_activeRequests C' = cl_activeRequests C \<Longrightarrow>
     cl_isDisposed C' = cl_isDisposed C \<Longrightarrow> cl_open A C'"
  by (auto simp: cl_open_def)

lemma onCancellation_ok:
  assumes ok: "cl_ok env A C" and op: "cl_open A C"
  shows "cl_ok env A (cl_onCancellationRequested env i C)" "cl_moves env A C (cl_onCancellationRequested env i C)"
    "cl_open A (cl_onCancellationRequested env i C)"
proof -
  have "cl_ok env A (cl_onCancellationRequested env i C) \<and> cl_moves env A C (cl_onCancellationRequested env i C) \<and>
    cl_open A (cl_onCancellationRequested env i C)"
  proof (cases "i \<in> set (cl_tokens C)")
    case True
    let ?C = "C\<lparr>cl_tokens := removeAll i (cl_tokens C)\<rparr>"
    have C': "cl_onCancellationRequested env i C = cl_cancel env i ?C" using True by (simp add: cl_onCancellationRequested_def)
    have "cl_ok env A ?C" by (rule cl_ok_update [OF ok]) auto
    note c = cancel_ok [OF this cl_okD(12) [OF ok True]]
    have "cl_moves env A C ?C" by (rule cl_moves_same) (simp_all add: settled_def waits_def)
    moreover have "settled C = settled ?C" by (simp add: settled_def)
    ultimately show ?thesis
      unfolding C' using c cl_open_more [OF op, of "cl_cancel env i ?C"] by (auto intro: cl_moves_trans)
  qed (use assms in \<open>simp add: cl_onCancellationRequested_def\<close>)
  then show "cl_ok env A (cl_onCancellationRequested env i C)" "cl_moves env A C (cl_onCancellationRequested env i C)"
    "cl_open A (cl_onCancellationRequested env i C)" by simp_all
qed

lemma clFinally_ok:
  assumes ok: "cl_ok env A C" and op: "cl_open A C"
  shows "cl_ok env A (cl_onFinally i C)" "cl_moves env A C (cl_onFinally i C)" "cl_open A (cl_onFinally i C)"
proof -
  show "cl_ok env A (cl_onFinally i C)"
    by (rule cl_ok_update [OF ok]) (auto simp: cl_onFinally_def split: if_splits)
  show "cl_moves env A C (cl_onFinally i C)"
    by (rule cl_moves_same) (simp_all add: cl_onFinally_def settled_def waits_def split: if_splits)
  show "cl_open A (cl_onFinally i C)"
    using op by (auto simp: cl_open_def cl_onFinally_def settled_def)
qed

text \<open>Events.\<close>

lemma requestEvent_ok:
  assumes ok: "cl_ok env A C" and op: "cl_open A C"
    and q: "request_ok env (EventListen (cl_lastRequestId C) ch name arg)" "request_ok env (EventDispose (cl_lastRequestId C))"
  shows "cl_ok env A (snd (cl_requestEvent ch name arg C))" "cl_moves env A C (snd (cl_requestEvent ch name arg C))"
    "cl_open A (snd (cl_requestEvent ch name arg C))"
proof -
  let ?C = "snd (cl_requestEvent ch name arg C)"
  have C': "?C = C\<lparr>cl_lastRequestId := cl_lastRequestId C + 1,
      cl_emitters := cl_emitters C @ [(cl_lastRequestId C, EventListen (cl_lastRequestId C) ch name arg)]\<rparr>"
    by (simp add: cl_requestEvent_def Let_def)
  have "cl_ids env A ?C"
    using ok q unfolding C' cl_ok_def cl_ids_def by (fastforce simp: less_imp_neq)
  moreover have "cl_books A ?C" using ok unfolding C' cl_ok_def cl_books_def by (simp add: image_Un) blast
  ultimately show "cl_ok env A ?C" using ok by (simp add: cl_ok_def cl_sends_def C')
  show "cl_moves env A C ?C" unfolding C' by (rule cl_moves_same) (simp_all add: settled_def waits_def)
  show "cl_open A ?C" using op unfolding C' by (auto simp: cl_open_def settled_def)
qed

lemma doRequestEvent_ok:
  assumes ok: "cl_ok env A C" and op: "cl_open A C" and q: "(i, q) \<in> set (cl_emitters C)"
  shows "cl_ok env A (fst (cl_doRequestEvent env i q C))" "cl_moves env A C (fst (cl_doRequestEvent env i q C))"
    "cl_open A (fst (cl_doRequestEvent env i q C))"
proof -
  define B where "B = (if ActiveEmitter i \<in> set (cl_activeRequests C) then C
    else C\<lparr>cl_activeRequests := cl_activeRequests C @ [ActiveEmitter i]\<rparr>)"
  have i: "i \<in> fst ` set (cl_emitters C)" using q by force
  have "cl_ok env A B" using i by (intro cl_ok_update [OF ok]) (auto simp: B_def split: if_splits)
  moreover have "cl_moves env A C B" by (simp add: B_def cl_moves_def awaited_def settled_def waits_def)
  moreover have "cl_open A B" using op by (auto simp: cl_open_def B_def settled_def)
  moreover have "fst (cl_doRequestEvent env i q C) = B \<or> fst (cl_doRequestEvent env i q C) = cl_send env q B"
    by (auto simp: cl_doRequestEvent_def cl_sendRequest_def B_def Let_def split: option.split)
  moreover have "cl_moves env A B (cl_send env q B)" by (simp add: cl_moves_def awaited_def settled_def waits_def)
  moreover have "request_type q \<noteq> 100" "request_ok env q" using cl_okD(6,7) [OF ok q] by simp_all
  then have "cl_ok env A B \<Longrightarrow> cl_ok env A (cl_send env q B)" using cl_ok_send by blast
  moreover have "cl_open A B \<Longrightarrow> cl_open A (cl_send env q B)" by (simp add: cl_open_def settled_def)
  ultimately show "cl_ok env A (fst (cl_doRequestEvent env i q C))" "cl_moves env A C (fst (cl_doRequestEvent env i q C))"
    "cl_open A (fst (cl_doRequestEvent env i q C))"
    by (auto intro: cl_moves_trans)
qed

lemma onWillAddFirstListener_ok:
  assumes ok: "cl_ok env A C" and op: "cl_open A C"
  shows "cl_ok env A (fst (cl_onWillAddFirstListener env i C))" "cl_moves env A C (fst (cl_onWillAddFirstListener env i C))"
    "cl_open A (fst (cl_onWillAddFirstListener env i C))"
proof -
  have "cl_ok env A (fst (cl_onWillAddFirstListener env i C)) \<and> cl_moves env A C (fst (cl_onWillAddFirstListener env i C)) \<and>
    cl_open A (fst (cl_onWillAddFirstListener env i C))"
  proof (cases "\<exists>q. map_of (cl_emitters C) i = Some q \<and> i \<notin> set (cl_disposedEmitters C)")
    case True
    then obtain q where q: "map_of (cl_emitters C) i = Some q" "i \<notin> set (cl_disposedEmitters C)" by blast
    let ?H = "C\<lparr>cl_handlers := AList.update i EventHandler (cl_handlers C)\<rparr>"
      and ?W = "C\<lparr>cl_handlers := AList.update i EventHandler (cl_handlers C), cl_waiting := cl_waiting C @ [(i, q)]\<rparr>"
    have e: "(i, q) \<in> set (cl_emitters C)" using q(1) by (rule map_of_SomeD)
    then have i: "i \<in> fst ` set (cl_emitters C)" by force
    have other: "request_id r \<noteq> i" if "r \<in> A" for r using cl_okD(9) [OF ok e that] .
    have H: "cl_ok env A ?H" using i by (intro cl_ok_update [OF ok]) (auto simp: update_conv' split: if_splits)
    have W: "cl_ok env A ?W" using i e by (intro cl_ok_update [OF ok]) (auto simp: update_conv' split: if_splits)
    have mH: "cl_moves env A C ?H" using other by (intro cl_moves_same) (simp_all add: settled_def waits_def update_conv')
    have mW: "cl_moves env A C ?W" using other by (intro cl_moves_same) (auto simp: settled_def waits_def update_conv')
    have oH: "cl_open A ?H" and oW: "cl_open A ?W" using op by (simp_all add: cl_open_def settled_def)
    have eH: "(i, q) \<in> set (cl_emitters ?H)" using e by simp
    from doRequestEvent_ok [OF H oH eH] mH W mW oW q show ?thesis
      by (auto simp: cl_onWillAddFirstListener_def Let_def intro: cl_moves_trans)
  next
    case False
    then have "fst (cl_onWillAddFirstListener env i C) = C"
      by (auto simp: cl_onWillAddFirstListener_def split: option.splits)
    with assms show ?thesis by simp
  qed
  then show "cl_ok env A (fst (cl_onWillAddFirstListener env i C))" "cl_moves env A C (fst (cl_onWillAddFirstListener env i C))"
    "cl_open A (fst (cl_onWillAddFirstListener env i C))" by simp_all
qed

lemma onDidRemoveLastListener_ok:
  assumes ok: "cl_ok env A C" and i: "i \<in> fst ` set (cl_emitters C)"
  shows "cl_ok env A (cl_onDidRemoveLastListener env i C)" "cl_moves env A C (cl_onDidRemoveLastListener env i C)"
    "cl_settled (cl_onDidRemoveLastListener env i C) = cl_settled C"
    "cl_isDisposed (cl_onDidRemoveLastListener env i C) = cl_isDisposed C"
    "cl_emitters (cl_onDidRemoveLastListener env i C) = cl_emitters C"
    "ActivePromise j \<in> set (cl_activeRequests (cl_onDidRemoveLastListener env i C)) \<longleftrightarrow> ActivePromise j \<in> set (cl_activeRequests C)"
proof -
  define B where "B = (if i \<in> waits C then C\<lparr>cl_waiting := AList.delete i (cl_waiting C)\<rparr>
    else cl_send env (EventDispose i) (C\<lparr>cl_activeRequests := removeAll (ActiveEmitter i) (cl_activeRequests C)\<rparr>))"
  let ?C = "B\<lparr>cl_handlers := AList.delete i (cl_handlers B)\<rparr>"
  have C': "cl_onDidRemoveLastListener env i C = ?C"
    by (simp add: cl_onDidRemoveLastListener_def Let_def B_def waits_def)
  obtain q where e: "(i, q) \<in> set (cl_emitters C)" using i by auto
  have other: "request_id r \<noteq> i" if "r \<in> A" for r using cl_okD(9) [OF ok e that] .
  have "cl_ok env A (C\<lparr>cl_activeRequests := removeAll (ActiveEmitter i) (cl_activeRequests C)\<rparr>)"
    by (rule cl_ok_update [OF ok]) auto
  from cl_ok_send [OF this cl_okD(8) [OF ok e]]
  have B: "cl_ok env A B" by (auto simp: B_def delete_in_pairs intro!: cl_ok_update [OF ok])
  show "cl_ok env A (cl_onDidRemoveLastListener env i C)"
    unfolding C' by (rule cl_ok_update [OF B]) (auto simp: delete_conv' split: if_splits)
  have f: "cl_settled B = cl_settled C" "cl_isDisposed B = cl_isDisposed C" "cl_emitters B = cl_emitters C"
    "cl_handlers B = cl_handlers C" "cl_idle B = cl_idle C"
    by (simp_all add: B_def)
  show "cl_settled (cl_onDidRemoveLastListener env i C) = cl_settled C"
    "cl_isDisposed (cl_onDidRemoveLastListener env i C) = cl_isDisposed C"
    "cl_emitters (cl_onDidRemoveLastListener env i C) = cl_emitters C"
    unfolding C' by (simp_all add: f)
  show "ActivePromise j \<in> set (cl_activeRequests (cl_onDidRemoveLastListener env i C)) \<longleftrightarrow>
    ActivePromise j \<in> set (cl_activeRequests C)" unfolding C' by (auto simp: B_def)
  have "j \<in> waits ?C \<longleftrightarrow> j \<in> waits C" if "j \<noteq> i" for j
    using that by (auto simp: B_def waits_def AList.delete_eq)
  then show "cl_moves env A C (cl_onDidRemoveLastListener env i C)"
    unfolding C' cl_moves_def awaited_def
    using other f by (auto simp: B_def delete_conv' settled_def waits_def)
qed

text \<open>The other side is initialized, and the waiting requests are sent.\<close>

lemma waiting_request:
  assumes ok: "cl_ok env A C" and q: "(i, q) \<in> set (cl_waiting C)" and type: "request_type q = 100"
  shows "q \<in> A" "request_id q = i"
  using cl_okD(10) [OF ok q] cl_okD(6) [OF ok, of i q] type by auto

lemma onInitialized_ok:
  assumes ok: "cl_ok env A C" and op: "cl_open A C"
  shows "cl_ok env A (cl_onInitialized env i C)" "cl_moves env A C (cl_onInitialized env i C)"
    "cl_open A (cl_onInitialized env i C)"
proof -
  have "cl_ok env A (cl_onInitialized env i C) \<and> cl_moves env A C (cl_onInitialized env i C) \<and> cl_open A (cl_onInitialized env i C)"
  proof (cases "\<exists>q. map_of (cl_waiting C) i = Some q \<and> cl_idle C")
    case True
    then obtain q where q: "map_of (cl_waiting C) i = Some q" "cl_idle C" by blast
    have w: "(i, q) \<in> set (cl_waiting C)" using q(1) by (rule map_of_SomeD)
    let ?w = "AList.delete i (cl_waiting C)"
    have dw: "j \<in> fst ` set ?w \<longleftrightarrow> j \<in> waits C" if "j \<noteq> i" for j
      using that by (auto simp: waits_def AList.delete_eq)
    have sub: "set ?w \<subseteq> set (cl_waiting C)" by (auto simp: AList.delete_eq)
    show ?thesis
    proof (cases "request_type q = 100")
      case True
      note r = waiting_request [OF ok w True]
      note d = doRequest_ok [OF ok r dw sub]
      have "cl_open A (cl_doRequest env i q (C\<lparr>cl_waiting := ?w\<rparr>))"
        using d(3-5) by (intro cl_open_more [OF op]) simp_all
      with d q True show ?thesis by (simp add: cl_onInitialized_def)
    next
      case False
      have e: "(i, q) \<in> set (cl_emitters C)" using cl_okD(10) [OF ok w] cl_okD(1) [OF ok, of q] False by auto
      have other: "request_id r \<noteq> i" if "r \<in> A" for r using cl_okD(9) [OF ok e that] .
      let ?C = "C\<lparr>cl_waiting := ?w\<rparr>"
      have "cl_ok env A ?C" using sub by (intro cl_ok_update [OF ok]) auto
      moreover have "cl_open A ?C" using op by (simp add: cl_open_def settled_def)
      ultimately have d: "cl_ok env A (fst (cl_doRequestEvent env i q ?C))" "cl_moves env A ?C (fst (cl_doRequestEvent env i q ?C))"
        "cl_open A (fst (cl_doRequestEvent env i q ?C))"
        using e by (simp_all add: doRequestEvent_ok)
      have "cl_moves env A C ?C" using other by (intro cl_moves_same) (auto simp: settled_def)
      with d q False show ?thesis by (auto simp: cl_onInitialized_def intro: cl_moves_trans)
    qed
  next
    case False
    then have "cl_onInitialized env i C = C" by (auto simp: cl_onInitialized_def split: option.splits)
    with assms show ?thesis by simp
  qed
  then show "cl_ok env A (cl_onInitialized env i C)" "cl_moves env A C (cl_onInitialized env i C)"
    "cl_open A (cl_onInitialized env i C)" by simp_all
qed

text \<open>A response arrives.\<close>

lemma onResponse_ok:
  assumes ok: "cl_ok env A C" and op: "cl_open A C"
  shows "cl_ok env A (cl_onResponse q C)" "cl_open A (cl_onResponse q C)" "cl_sent (cl_onResponse q C) = cl_sent C"
    "(i, Answered out) \<in> set (cl_settled (cl_onResponse q C)) \<Longrightarrow>
       (i, Answered out) \<in> set (cl_settled C) \<or> response_id q = i \<and> response_outcome q = Some out"
    "awaited (cl_onResponse q C) i \<Longrightarrow> awaited C i \<and> map_of (cl_handlers (cl_onResponse q C)) i = map_of (cl_handlers C) i \<and>
       (map_of (cl_handlers C) i = Some PromiseHandler \<longrightarrow> response_id q = i \<longrightarrow> response_outcome q = None)"
    "cl_idle (cl_onResponse q C) \<longleftrightarrow> cl_idle C \<or> q = Initialize" "cl_isDisposed (cl_onResponse q C) = cl_isDisposed C"
proof -
  let ?C = "cl_onResponse q C" and ?j = "response_id q"
  consider (init) "q = Initialize" | (none) "q \<noteq> Initialize" "map_of (cl_handlers C) ?j \<noteq> Some PromiseHandler"
    | (ignored) "q \<noteq> Initialize" "map_of (cl_handlers C) ?j = Some PromiseHandler" "response_outcome q = None"
    | (settles) o' where "q \<noteq> Initialize" "map_of (cl_handlers C) ?j = Some PromiseHandler" "response_outcome q = Some o'"
    by (cases "response_outcome q") auto
  then have "cl_ok env A ?C \<and> cl_open A ?C \<and> cl_sent ?C = cl_sent C \<and>
    ((i, Answered out) \<in> set (cl_settled ?C) \<longrightarrow>
       (i, Answered out) \<in> set (cl_settled C) \<or> ?j = i \<and> response_outcome q = Some out) \<and>
    (awaited ?C i \<longrightarrow> awaited C i \<and> map_of (cl_handlers ?C) i = map_of (cl_handlers C) i \<and>
       (map_of (cl_handlers C) i = Some PromiseHandler \<longrightarrow> ?j = i \<longrightarrow> response_outcome q = None)) \<and>
    (cl_idle ?C \<longleftrightarrow> cl_idle C \<or> q = Initialize) \<and> cl_isDisposed ?C = cl_isDisposed C"
  proof cases
    case init
    then have C': "?C = C\<lparr>cl_idle := True\<rparr>" by (simp add: cl_onResponse_def)
    have "cl_ok env A ?C" unfolding C' by (rule cl_ok_update [OF ok]) auto
    with op init show ?thesis unfolding C' by (simp add: cl_open_def settled_def waits_def awaited_def)
  next
    case none
    have type: "response_type q \<noteq> 200" using none(1) by (cases q) simp_all
    show ?thesis
    proof (cases "map_of (cl_handlers C) ?j")
      case None
      with type ok op none show ?thesis by (auto simp: cl_onResponse_def)
    next
      case (Some h)
      with none(2) have "h = EventHandler" by (cases h) simp_all
      with Some type have C': "?C = C\<lparr>cl_fired := cl_fired C @ [(?j, response_body q)]\<rparr>" by (simp add: cl_onResponse_def)
      have "cl_ok env A ?C" unfolding C' by (rule cl_ok_update [OF ok]) auto
      with op none show ?thesis unfolding C' by (auto simp: cl_open_def settled_def waits_def awaited_def)
    qed
  next
    case ignored
    have "response_type q \<noteq> 200" using ignored(1) by (cases q) simp_all
    with ignored have "?C = C" by (simp add: cl_onResponse_def cl_promiseHandler_def)
    with ok op ignored show ?thesis by simp
  next
    case settles
    have "response_type q \<noteq> 200" using settles(1) by (cases q) simp_all
    with settles have C': "?C = cl_settle ?j (Answered o') (C\<lparr>cl_handlers := AList.delete ?j (cl_handlers C)\<rparr>)" (is "_ = cl_settle _ _ ?D")
      by (simp add: cl_onResponse_def cl_promiseHandler_def)
    have "cl_ok env A ?D" by (rule cl_ok_update [OF ok]) (auto simp: delete_conv' split: if_splits)
    then have "cl_ok env A ?C" unfolding C' by (rule cl_ok_settle)
    moreover have s: "settled ?C = insert ?j (settled C)" "waits ?C = waits C"
      unfolding C' cl_settle_simps by (simp_all add: settled_def waits_def)
    moreover have "cl_open A ?C"
      by (rule cl_open_more [OF op]) (use s in \<open>auto simp: C'\<close>)
    moreover have "(i, Answered out) \<in> set (cl_settled ?C) \<Longrightarrow> (i, Answered out) \<in> set (cl_settled C) \<or> i = ?j \<and> o' = out"
      using settle_answered [of i out ?j "Answered o'" ?D] unfolding C' by auto
    ultimately show ?thesis
      using settles by (auto simp: awaited_def C' delete_conv')
  qed
  then show "cl_ok env A ?C" "cl_open A ?C" "cl_sent ?C = cl_sent C"
    "(i, Answered out) \<in> set (cl_settled ?C) \<Longrightarrow> (i, Answered out) \<in> set (cl_settled C) \<or> ?j = i \<and> response_outcome q = Some out"
    "awaited ?C i \<Longrightarrow> awaited C i \<and> map_of (cl_handlers ?C) i = map_of (cl_handlers C) i \<and>
       (map_of (cl_handlers C) i = Some PromiseHandler \<longrightarrow> ?j = i \<longrightarrow> response_outcome q = None)"
    "cl_idle ?C \<longleftrightarrow> cl_idle C \<or> q = Initialize" "cl_isDisposed ?C = cl_isDisposed C"
    by blast+
qed

text \<open>The client is disposed: every promise that is still to be settled is cancelled.\<close>

lemma disposeOne_ok:
  assumes ok: "cl_ok env A C" and a: "case a of ActivePromise i \<Rightarrow> i \<in> request_id ` A | ActiveEmitter i \<Rightarrow> i \<in> fst ` set (cl_emitters C)"
  shows "cl_ok env A (cl_disposeOne env a C)" "cl_moves env A C (cl_disposeOne env a C)"
    "settled C \<subseteq> settled (cl_disposeOne env a C)" "a = ActivePromise i \<Longrightarrow> i \<in> settled (cl_disposeOne env a C)"
    "cl_emitters (cl_disposeOne env a C) = cl_emitters C" "cl_isDisposed (cl_disposeOne env a C) = cl_isDisposed C"
proof -
  have "cl_ok env A (cl_disposeOne env a C) \<and> cl_moves env A C (cl_disposeOne env a C) \<and>
    settled C \<subseteq> settled (cl_disposeOne env a C) \<and> (a = ActivePromise i \<longrightarrow> i \<in> settled (cl_disposeOne env a C)) \<and>
    cl_emitters (cl_disposeOne env a C) = cl_emitters C \<and> cl_isDisposed (cl_disposeOne env a C) = cl_isDisposed C"
  proof (cases a)
    case (ActivePromise j)
    let ?B = "cl_cancel env j C"
    let ?C = "?B\<lparr>cl_tokens := removeAll j (cl_tokens ?B)\<rparr>"
    have j: "j \<in> request_id ` A" using a ActivePromise by simp
    note c = cancel_ok [OF ok j]
    have "cl_ok env A ?C" by (rule cl_ok_update [OF c(1)]) auto
    moreover have "cl_moves env A ?B ?C" by (rule cl_moves_same) (simp_all add: settled_def waits_def)
    moreover have "settled ?C = settled ?B" by (simp add: settled_def)
    moreover have "cl_disposeOne env a C = ?C" using ActivePromise by (simp add: Let_def)
    ultimately show ?thesis using c ActivePromise by (auto simp del: cl_disposeOne.simps intro: cl_moves_trans)
  next
    case (ActiveEmitter j)
    let ?B = "C\<lparr>cl_disposedEmitters := cl_disposedEmitters C @ [j]\<rparr>"
    have B: "cl_ok env A ?B" by (rule cl_ok_update [OF ok]) auto
    have j: "j \<in> fst ` set (cl_emitters ?B)" using a ActiveEmitter by simp
    note r = onDidRemoveLastListener_ok [OF B j]
    have "cl_moves env A C ?B" by (rule cl_moves_same) (simp_all add: settled_def waits_def)
    with r ActiveEmitter show ?thesis by (auto simp: settled_def intro: cl_moves_trans)
  qed
  then show "cl_ok env A (cl_disposeOne env a C)" "cl_moves env A C (cl_disposeOne env a C)"
    "settled C \<subseteq> settled (cl_disposeOne env a C)" "a = ActivePromise i \<Longrightarrow> i \<in> settled (cl_disposeOne env a C)"
    "cl_emitters (cl_disposeOne env a C) = cl_emitters C" "cl_isDisposed (cl_disposeOne env a C) = cl_isDisposed C"
    by blast+
qed

lemma dispose_all_ok:
  assumes "cl_ok env A C" and "\<forall>a \<in> set as. case a of ActivePromise i \<Rightarrow> i \<in> request_id ` A | ActiveEmitter i \<Rightarrow> i \<in> fst ` set (cl_emitters C)"
  shows "cl_ok env A (fold (cl_disposeOne env) as C) \<and> cl_moves env A C (fold (cl_disposeOne env) as C) \<and>
    settled C \<subseteq> settled (fold (cl_disposeOne env) as C) \<and>
    (\<forall>i. ActivePromise i \<in> set as \<longrightarrow> i \<in> settled (fold (cl_disposeOne env) as C)) \<and>
    cl_isDisposed (fold (cl_disposeOne env) as C) = cl_isDisposed C"
  using assms
proof (induction as arbitrary: C)
  case (Cons a as)
  have a: "case a of ActivePromise i \<Rightarrow> i \<in> request_id ` A | ActiveEmitter i \<Rightarrow> i \<in> fst ` set (cl_emitters C)"
    using Cons.prems(2) by simp
  note d = disposeOne_ok [OF Cons.prems(1) a]
  have "\<forall>b \<in> set as. case b of ActivePromise i \<Rightarrow> i \<in> request_id ` A
      | ActiveEmitter i \<Rightarrow> i \<in> fst ` set (cl_emitters (cl_disposeOne env a C))"
    unfolding d(5) using Cons.prems(2) by simp
  from Cons.IH [OF d(1) this] d show ?case by (auto intro: cl_moves_trans)
qed simp

lemma dispose_ok:
  assumes ok: "cl_ok env A C" and op: "cl_open A C"
  shows "cl_ok env A (cl_dispose env C)" "cl_moves env A C (cl_dispose env C)" "cl_open A (cl_dispose env C)"
proof -
  let ?B = "C\<lparr>cl_isDisposed := True, cl_protocolListener := False\<rparr>"
  let ?F = "fold (cl_disposeOne env) (cl_activeRequests C) ?B"
  have B: "cl_ok env A ?B" using ok by (simp add: cl_ok_def cl_ids_def cl_books_def cl_sends_def)
  have "\<forall>a \<in> set (cl_activeRequests C). case a of ActivePromise i \<Rightarrow> i \<in> request_id ` A | ActiveEmitter i \<Rightarrow> i \<in> fst ` set (cl_emitters ?B)"
    using cl_okD(13,14) [OF ok] by (auto split: active_request.split)
  note f = dispose_all_ok [OF B this]
  have mB: "cl_moves env A C ?B" by (rule cl_moves_same) (simp_all add: settled_def waits_def)
  have C': "cl_dispose env C = ?F\<lparr>cl_activeRequests := []\<rparr>" by (simp add: cl_dispose_def)
  show "cl_ok env A (cl_dispose env C)" unfolding C' by (rule cl_ok_update [of env A ?F]) (use f in auto)
  have "cl_moves env A ?F (?F\<lparr>cl_activeRequests := []\<rparr>)" by (rule cl_moves_same) (simp_all add: settled_def waits_def)
  with f mB show "cl_moves env A C (cl_dispose env C)" unfolding C' by (blast intro: cl_moves_trans)
  have "settled C = settled ?B" "settled (?F\<lparr>cl_activeRequests := []\<rparr>) = settled ?F" by (simp_all add: settled_def)
  with op f show "cl_open A (cl_dispose env C)" unfolding C' cl_open_def by auto
qed

end
