(* ===== verification/ChannelNetwork.thy ===== *)
theory ChannelNetwork
  imports ChannelServerLaws ChannelClientLaws
begin

section \<open>A client and a server of channels\<close>

text \<open>
  A \<open>ChannelClient\<close> and a \<open>ChannelServer\<close> that are connected by a protocol which delivers the messages of each
  side in order and without loss, as \<open>ProtocolNetwork\<close> shows for the persistent protocol: \<open>rp_up\<close> and
  \<open>rp_down\<close> count the messages that were delivered. The list \<open>rp_asked\<close> is the log of the requests for
  which \<open>call\<close> has returned a promise. Whatever the code of the user does, calling, cancelling, listening,
  registering channels, settling promises and firing events, is a step at any time. The server stays.
\<close>

record ('c, 'j) rpc =
  rp_client :: "'j channel_client"
  rp_server :: "('c, 'j) channel_server"
  rp_up :: nat
  rp_down :: nat
  rp_asked :: "'j raw_request list"

inductive client_step :: "('c, 'j) ipc_env \<Rightarrow> 'j channel_client \<Rightarrow> 'j channel_client \<Rightarrow> bool" for env where
  cancel: "client_step env C (cl_onCancellationRequested env i C)"
| finish: "client_step env C (cl_onFinally i C)"
| listen: "request_ok env (EventListen (cl_lastRequestId C) ch name arg) \<Longrightarrow> request_ok env (EventDispose (cl_lastRequestId C)) \<Longrightarrow>
    client_step env C (snd (cl_listen ch name arg C))"
| add: "client_step env C (fst (cl_onWillAddFirstListener env i C))"
| remove: "i \<in> fst ` set (cl_emitters C) \<Longrightarrow> client_step env C (cl_onDidRemoveLastListener env i C)"
| initialized: "client_step env C (cl_onInitialized env i C)"
| dispose: "client_step env C (cl_dispose env C)"

inductive server_step :: "('c, 'j) ipc_env \<Rightarrow> ('c, 'j) channel_server \<Rightarrow> ('c, 'j) channel_server \<Rightarrow> bool" for env where
  register: "server_step env S (sv_registerChannel ch c S)"
| flush: "server_step env S (fst (sv_onFlushTimer env ch S))"
| unknown: "(\<And>r. map_of (sv_timers S) t = Some r \<Longrightarrow> response_ok env (unknown_channel (sv_timeoutDelay S) r)) \<Longrightarrow>
    server_step env S (sv_onUnknownChannel env t S)"
| settle: "(k \<in> set (sv_running S) \<Longrightarrow> response_ok env (outcome_response (request_id (fst (sv_calls S ! k))) out)) \<Longrightarrow>
    server_step env S (sv_onSettled env k out S)"
| finish: "server_step env S (sv_onFinally k S)"
| event: "(k \<in> set (sv_subscriptions S) \<Longrightarrow> response_ok env (EventFire (request_id (fst (sv_listens S ! k))) data)) \<Longrightarrow>
    server_step env S (sv_onEvent env k data S)"

inductive rpc_step :: "('c, 'j) ipc_env \<Rightarrow> ('c, 'j) rpc \<Rightarrow> ('c, 'j) rpc \<Rightarrow> bool" for env where
  call: "cl_call env ch name arg c (rp_client s) = (Some i, C) \<Longrightarrow> request_ok env (PromiseRequest i ch name arg) \<Longrightarrow>
    request_ok env (PromiseCancel i) \<Longrightarrow>
    rpc_step env s (s\<lparr>rp_client := C, rp_asked := rp_asked s @ [PromiseRequest i ch name arg]\<rparr>)"
| client: "client_step env (rp_client s) C \<Longrightarrow> rpc_step env s (s\<lparr>rp_client := C\<rparr>)"
| server: "server_step env (rp_server s) S \<Longrightarrow> rpc_step env s (s\<lparr>rp_server := S\<rparr>)"
| up: "rp_up s < length (cl_sent (rp_client s)) \<Longrightarrow>
    rpc_step env s (s\<lparr>rp_server := fst (sv_onRawMessage env (cl_sent (rp_client s) ! rp_up s) (rp_server s)), rp_up := rp_up s + 1\<rparr>)"
| down: "rp_down s < length (sv_sent (rp_server s)) \<Longrightarrow>
    rpc_step env s (s\<lparr>rp_client := (if cl_protocolListener (rp_client s)
                                  then fst (cl_onBuffer env (sv_sent (rp_server s) ! rp_down s) (rp_client s))
                                  else rp_client s),
                     rp_down := rp_down s + 1\<rparr>)"

inductive rpc_reachable :: "('c, 'j) ipc_env \<Rightarrow> ('c, 'j) rpc \<Rightarrow> bool" for env where
  start: "response_ok env Initialize \<Longrightarrow>
    rpc_reachable env \<lparr>rp_client = mk_ChannelClient, rp_server = mk_ChannelServer env delay, rp_up = 0, rp_down = 0, rp_asked = []\<rparr>"
| step: "rpc_reachable env s \<Longrightarrow> rpc_step env s s' \<Longrightarrow> rpc_reachable env s'"

subsection \<open>The invariant\<close>

text \<open>Where a request is that was sent and not answered: on its way to the server, at the server, or its answer on its way back.\<close>

definition located :: "('c, 'j) ipc_env \<Rightarrow> ('c, 'j) rpc \<Rightarrow> 'j raw_request \<Rightarrow> bool" where
  "located env s r \<longleftrightarrow>
     (\<exists>m \<in> set (drop (rp_up s) (cl_sent (rp_client s))). receive_request env m = Inr (Some r)) \<or>
     pending_answer env (rp_server s) (rp_down s) r"

definition rpc_inv :: "('c, 'j) ipc_env \<Rightarrow> ('c, 'j) rpc \<Rightarrow> bool" where
  "rpc_inv env s \<longleftrightarrow>
     cl_ok env (set (rp_asked s)) (rp_client s) \<and> cl_open (set (rp_asked s)) (rp_client s) \<and>
     sv_ok env (set (rp_asked s)) (rp_server s) \<and>
     rp_up s \<le> length (cl_sent (rp_client s)) \<and> rp_down s \<le> length (sv_sent (rp_server s)) \<and>
     (\<forall>i out. (i, Answered out) \<in> set (cl_settled (rp_client s)) \<longrightarrow> answered (set (rp_asked s)) (rp_server s) i out) \<and>
     (\<forall>r \<in> set (rp_asked s). awaited (rp_client s) (request_id r) \<longrightarrow>
        map_of (cl_handlers (rp_client s)) (request_id r) = Some PromiseHandler \<and> located env s r) \<and>
     (cl_idle (rp_client s) \<or> cl_isDisposed (rp_client s) \<or>
        (\<exists>m \<in> set (drop (rp_down s) (sv_sent (rp_server s))). receive_response env m = Inr (Some Initialize)))"

lemma rpc_invD:
  assumes "rpc_inv env s"
  shows "cl_ok env (set (rp_asked s)) (rp_client s)" "cl_open (set (rp_asked s)) (rp_client s)"
    "sv_ok env (set (rp_asked s)) (rp_server s)" "rp_up s \<le> length (cl_sent (rp_client s))"
    "rp_down s \<le> length (sv_sent (rp_server s))"
    "(i, Answered out) \<in> set (cl_settled (rp_client s)) \<Longrightarrow> answered (set (rp_asked s)) (rp_server s) i out"
    "r \<in> set (rp_asked s) \<Longrightarrow> awaited (rp_client s) (request_id r) \<Longrightarrow>
       map_of (cl_handlers (rp_client s)) (request_id r) = Some PromiseHandler \<and> located env s r"
    "cl_idle (rp_client s) \<or> cl_isDisposed (rp_client s) \<or>
       (\<exists>m \<in> set (drop (rp_down s) (sv_sent (rp_server s))). receive_response env m = Inr (Some Initialize))"
  using assms unfolding rpc_inv_def by blast+

text \<open>The client moves, perhaps with a new request.\<close>

lemma rpc_inv_client:
  assumes inv: "rpc_inv env s" and ok: "cl_ok env (set (rp_asked s @ rs)) C" "cl_open (set (rp_asked s @ rs)) C"
    and moves: "cl_moves env (set (rp_asked s @ rs)) (rp_client s) C" and disposed: "cl_isDisposed (rp_client s) \<Longrightarrow> cl_isDisposed C"
    and new: "\<And>r. r \<in> set rs \<Longrightarrow> awaited C (request_id r) \<Longrightarrow> map_of (cl_handlers C) (request_id r) = Some PromiseHandler \<and>
      (\<exists>m \<in> set (drop (length (cl_sent (rp_client s))) (cl_sent C)). receive_request env m = Inr (Some r))"
  shows "rpc_inv env (s\<lparr>rp_client := C, rp_asked := rp_asked s @ rs\<rparr>)"
proof -
  note i = rpc_invD [OF inv]
  obtain ms where ms: "cl_sent C = cl_sent (rp_client s) @ ms" "\<forall>r \<in> set (rp_asked s @ rs). awaited C (request_id r) \<longrightarrow>
      awaited (rp_client s) (request_id r) \<and> map_of (cl_handlers C) (request_id r) = map_of (cl_handlers (rp_client s)) (request_id r) \<or>
      map_of (cl_handlers C) (request_id r) = Some PromiseHandler \<and> (\<exists>m \<in> set ms. receive_request env m = Inr (Some r))"
    using moves by (auto simp: cl_moves_def)
  have answers: "answered (set (rp_asked s @ rs)) (rp_server s) j out" if "(j, Answered out) \<in> set (cl_settled C)" for j out
  proof -
    have "(j, Answered out) \<in> set (cl_settled (rp_client s))" using moves that by (auto simp: cl_moves_def)
    from answered_mono [OF i(6) [OF this]] show ?thesis by simp
  qed
  have "map_of (cl_handlers C) (request_id r) = Some PromiseHandler \<and>
      located env (s\<lparr>rp_client := C, rp_asked := rp_asked s @ rs\<rparr>) r"
    if r: "r \<in> set (rp_asked s @ rs)" "awaited C (request_id r)" for r
  proof (cases "r \<in> set rs")
    case True
    from new [OF True r(2)] i(4) show ?thesis by (auto simp: located_def ms(1))
  next
    case False
    then have old: "r \<in> set (rp_asked s)" using r(1) by simp
    from ms(2) [rule_format, OF r] show ?thesis
    proof (elim disjE conjE)
      assume a: "awaited (rp_client s) (request_id r)" "map_of (cl_handlers C) (request_id r) = map_of (cl_handlers (rp_client s)) (request_id r)"
      with i(7) [OF old a(1)] show ?thesis by (auto simp: located_def ms(1))
    next
      assume "map_of (cl_handlers C) (request_id r) = Some PromiseHandler" "\<exists>m \<in> set ms. receive_request env m = Inr (Some r)"
      with i(4) show ?thesis by (auto simp: located_def ms(1))
    qed
  qed
  moreover have "sv_ok env (set (rp_asked s @ rs)) (rp_server s)" by (rule sv_ok_mono [OF i(3)]) simp
  moreover have "cl_idle C = cl_idle (rp_client s)" using moves by (simp add: cl_moves_def)
  ultimately show ?thesis
    using ok answers disposed i(4,5,8) unfolding rpc_inv_def by (simp add: ms(1)) blast
qed

lemma disposeOne_disposed: "cl_isDisposed (cl_disposeOne env a D) = cl_isDisposed D"
  by (cases a) (simp_all add: Let_def cl_cancel_def cl_onDidRemoveLastListener_def)

lemma client_step_ok:
  assumes "client_step env C C'" and ok: "cl_ok env A C" and op: "cl_open A C"
  shows "cl_ok env A C'" "cl_moves env A C C'" "cl_open A C'" "cl_isDisposed C \<Longrightarrow> cl_isDisposed C'"
proof -
  have "cl_ok env A C' \<and> cl_moves env A C C' \<and> cl_open A C' \<and> (cl_isDisposed C \<longrightarrow> cl_isDisposed C')"
    using assms(1)
  proof cases
    case (cancel i)
    then show ?thesis using onCancellation_ok [OF ok op, of i]
      by (simp add: cl_onCancellationRequested_def cl_cancel_def Let_def)
  next
    case (finish i)
    then show ?thesis using clFinally_ok [OF ok op, of i] by (simp add: cl_onFinally_def)
  next
    case (listen ch name arg)
    then show ?thesis using requestEvent_ok [OF ok op listen(2,3)] ok op by (simp add: cl_listen_def split_beta)
  next
    case (add i)
    then show ?thesis using onWillAddFirstListener_ok [OF ok op, of i]
      by (auto simp: cl_onWillAddFirstListener_def cl_doRequestEvent_def cl_sendRequest_def Let_def split: option.splits)
  next
    case (remove i)
    note r = onDidRemoveLastListener_ok [OF ok remove(2)]
    have "cl_open A C'" unfolding remove(1) using op r(3,4,6) by (simp add: cl_open_def settled_def)
    with r remove show ?thesis by simp
  next
    case (initialized i)
    then show ?thesis using onInitialized_ok [OF ok op, of i]
      by (auto simp: cl_onInitialized_def cl_doRequest_def cl_doRequestEvent_def cl_sendRequest_def Let_def split: option.splits)
  next
    case dispose
    have "cl_isDisposed (fold (cl_disposeOne env) as D) = cl_isDisposed D" for as D
      by (induction as arbitrary: D) (simp_all add: disposeOne_disposed del: cl_disposeOne.simps)
    then show ?thesis using dispose_ok [OF ok op] dispose by (simp add: cl_dispose_def)
  qed
  then show "cl_ok env A C'" "cl_moves env A C C'" "cl_open A C'" "cl_isDisposed C \<Longrightarrow> cl_isDisposed C'" by simp_all
qed

text \<open>The server moves.\<close>

lemma server_step_ok:
  assumes "server_step env S S'" and ok: "sv_ok env A S"
  shows "sv_ok env A S'" "sv_grows env S S'"
proof -
  have "sv_ok env A S' \<and> sv_grows env S S'"
    using assms(1)
  proof cases
    case (register ch c)
    with registerChannel_ok [OF ok] show ?thesis by simp
  next
    case (flush ch)
    with onFlushTimer_ok [OF ok] show ?thesis by simp
  next
    case (unknown t)
    with onUnknownChannel_ok [OF ok] show ?thesis by simp
  next
    case (settle k out)
    with onSettled_ok [OF ok] show ?thesis by simp
  next
    case (finish k)
    with sv_same_ok [OF sv_same_onFinally ok] show ?thesis by simp
  next
    case (event k data)
    with onEvent_ok [OF ok] show ?thesis by simp
  qed
  then show "sv_ok env A S'" "sv_grows env S S'" by simp_all
qed

lemma rpc_inv_server:
  assumes inv: "rpc_inv env s" and ok: "sv_ok env (set (rp_asked s)) S" and grows: "sv_grows env (rp_server s) S"
    and up: "u \<le> length (cl_sent (rp_client s))"
    and loc: "\<And>r. r \<in> set (rp_asked s) \<Longrightarrow> \<exists>m \<in> set (drop (rp_up s) (cl_sent (rp_client s))). receive_request env m = Inr (Some r) \<Longrightarrow>
      (\<exists>m \<in> set (drop u (cl_sent (rp_client s))). receive_request env m = Inr (Some r)) \<or> pending_answer env S (rp_down s) r"
  shows "rpc_inv env (s\<lparr>rp_server := S, rp_up := u\<rparr>)"
proof -
  note i = rpc_invD [OF inv]
  let ?s = "s\<lparr>rp_server := S, rp_up := u\<rparr>"
  obtain ms where ms: "sv_sent S = sv_sent (rp_server s) @ ms" using grows by (auto simp: sv_grows_def)
  have pending: "pending_answer env S (rp_down s) r"
    if "pending_answer env (rp_server s) (rp_down s) r" "r \<in> set (rp_asked s)" for r
    using grows that i(5) cl_okD(1) [OF i(1) that(2)] by (simp add: sv_grows_def)
  have "located env ?s r" if "r \<in> set (rp_asked s)" "located env s r" for r
    using that pending loc [OF that(1)] by (auto simp: located_def)
  moreover have "answered (set (rp_asked s)) S j out" if "(j, Answered out) \<in> set (cl_settled (rp_client s))" for j out
    using answered_grows [OF i(6) [OF that] grows] .
  moreover have "cl_idle (rp_client s) \<or> cl_isDisposed (rp_client s) \<or>
      (\<exists>m \<in> set (drop (rp_down s) (sv_sent S)). receive_response env m = Inr (Some Initialize))"
    using i(8) by (auto simp: ms)
  ultimately show ?thesis
    using i(1,2,5,7) ok up unfolding rpc_inv_def by (simp add: ms)
qed

text \<open>A message is delivered.\<close>

lemma rpc_inv_up:
  assumes inv: "rpc_inv env s" and less: "rp_up s < length (cl_sent (rp_client s))"
  shows "rpc_inv env (s\<lparr>rp_server := fst (sv_onRawMessage env (cl_sent (rp_client s) ! rp_up s) (rp_server s)), rp_up := rp_up s + 1\<rparr>)"
proof -
  note i = rpc_invD [OF inv]
  let ?m = "cl_sent (rp_client s) ! rp_up s" and ?S = "fst (sv_onRawMessage env (cl_sent (rp_client s) ! rp_up s) (rp_server s))"
  have flying: "drop (rp_up s) (cl_sent (rp_client s)) = ?m # drop (rp_up s + 1) (cl_sent (rp_client s))"
    using less by (simp add: Cons_nth_drop_Suc)
  have "sv_ok env (set (rp_asked s)) ?S \<and> sv_grows env (rp_server s) ?S \<and>
    (\<forall>r. receive_request env ?m = Inr (Some r) \<longrightarrow> r \<in> set (rp_asked s) \<longrightarrow> pending_answer env ?S (rp_down s) r)"
  proof (cases "\<exists>q. receive_request env ?m = Inr (Some q)")
    case True
    then obtain q where q: "receive_request env ?m = Inr (Some q)" by blast
    have "request_type q = 100 \<Longrightarrow> q \<in> set (rp_asked s)"
      using i(1) q less by (auto simp: cl_ok_def cl_sends_def)
    from onRequest_ok(1,2) [OF i(3) this] onRequest_ok(3) [OF i(3) this] q cl_okD(1) [OF i(1), of q] show ?thesis
      by (simp add: sv_onRawMessage_def)
  next
    case False
    then have "?S = rp_server s" by (auto simp: sv_onRawMessage_def split: sum.splits option.splits)
    with False i(3) show ?thesis by simp
  qed
  then show ?thesis
    using less flying by (intro rpc_inv_server [OF inv]) auto
qed

lemma rpc_inv_down:
  assumes inv: "rpc_inv env s" and less: "rp_down s < length (sv_sent (rp_server s))"
  shows "rpc_inv env (s\<lparr>rp_client := (if cl_protocolListener (rp_client s)
      then fst (cl_onBuffer env (sv_sent (rp_server s) ! rp_down s) (rp_client s)) else rp_client s), rp_down := rp_down s + 1\<rparr>)"
proof -
  note i = rpc_invD [OF inv]
  let ?C = "rp_client s" and ?A = "set (rp_asked s)" and ?S = "rp_server s"
  let ?m = "sv_sent (rp_server s) ! rp_down s"
  have flying: "drop (rp_down s) (sv_sent ?S) = ?m # drop (rp_down s + 1) (sv_sent ?S)"
    using less by (simp add: Cons_nth_drop_Suc)
  have located: "located env (s\<lparr>rp_client := C', rp_down := rp_down s + 1\<rparr>) r"
    if "located env s r" "cl_sent C' = cl_sent ?C"
      "\<And>q. receive_response env ?m = Inr (Some q) \<Longrightarrow> response_id q = request_id r \<Longrightarrow> response_outcome q = None" for r C'
    using that unfolding located_def pending_answer_def flying by auto
  have other: "rpc_inv env (s\<lparr>rp_client := ?C, rp_down := rp_down s + 1\<rparr>)"
    if "cl_isDisposed ?C \<or> (\<forall>q. receive_response env ?m \<noteq> Inr (Some q))"
  proof -
    have "located env (s\<lparr>rp_client := ?C, rp_down := rp_down s + 1\<rparr>) r"
      if "r \<in> ?A" "awaited ?C (request_id r)" for r
    proof (rule located)
      show "located env s r" using i(7) that by blast
      show "response_outcome q = None" if "receive_response env ?m = Inr (Some q)" for q
        using i(2) \<open>r \<in> ?A\<close> \<open>awaited ?C (request_id r)\<close> that
          \<open>cl_isDisposed ?C \<or> (\<forall>q. receive_response env ?m \<noteq> Inr (Some q))\<close>
        by (auto simp: cl_open_def awaited_def)
    qed simp
    moreover have "cl_idle ?C \<or> cl_isDisposed ?C \<or>
        (\<exists>m \<in> set (drop (rp_down s + 1) (sv_sent ?S)). receive_response env m = Inr (Some Initialize))"
      using i(8) that unfolding flying by auto
    ultimately show ?thesis using i(1-7) less unfolding rpc_inv_def by simp
  qed
  show ?thesis
  proof (cases "\<exists>q. receive_response env ?m = Inr (Some q) \<and> cl_protocolListener ?C")
    case True
    then obtain q where q: "receive_response env ?m = Inr (Some q)" "cl_protocolListener ?C" by blast
    let ?D = "cl_onResponse q ?C"
    have C': "fst (cl_onBuffer env ?m ?C) = ?D" using q(1) by (simp add: cl_onBuffer_def)
    note d = onResponse_ok [where q = q, OF i(1,2)]
    have sent: "answered ?A ?S (response_id q) out" if "response_outcome q = Some out" for out
    proof -
      have "?m \<in> set (sv_sent ?S)" using less by simp
      with i(3) q(1) that show ?thesis unfolding sv_ok_def sent_ok_def by blast
    qed
    have "map_of (cl_handlers ?D) (request_id r) = Some PromiseHandler \<and>
        located env (s\<lparr>rp_client := ?D, rp_down := rp_down s + 1\<rparr>) r"
      if r: "r \<in> ?A" "awaited ?D (request_id r)" for r
    proof -
      note a = d(5) [OF r(2)]
      with i(7) [OF r(1)] have h: "map_of (cl_handlers ?C) (request_id r) = Some PromiseHandler" "located env s r" by auto
      from located [OF h(2) d(3)] q(1) a h(1) show ?thesis by auto
    qed
    moreover have "answered ?A ?S j out" if "(j, Answered out) \<in> set (cl_settled ?D)" for j out
      using d(4) [OF that] i(6) sent by blast
    moreover have "cl_idle ?D \<or> cl_isDisposed ?D \<or>
        (\<exists>m \<in> set (drop (rp_down s + 1) (sv_sent ?S)). receive_response env m = Inr (Some Initialize))"
      using i(8) q(1) d(6,7) unfolding flying by auto
    ultimately show ?thesis
      using d(1-3) i(3-5) less q(2) unfolding rpc_inv_def C' by simp
  next
    case False
    with cl_okD(15) [OF i(1)] have c: "cl_isDisposed ?C \<or> (\<forall>q. receive_response env ?m \<noteq> Inr (Some q))" by auto
    have "(if cl_protocolListener ?C then fst (cl_onBuffer env ?m ?C) else ?C) = ?C"
      using False by (auto simp: cl_onBuffer_def split: sum.splits option.splits)
    with other [OF c] show ?thesis by simp
  qed
qed

text \<open>A call.\<close>

lemma rpc_inv_call:
  assumes inv: "rpc_inv env s" and call: "cl_call env ch name arg c (rp_client s) = (Some i, C)"
    and ok: "request_ok env (PromiseRequest i ch name arg)" "request_ok env (PromiseCancel i)"
  shows "rpc_inv env (s\<lparr>rp_client := C, rp_asked := rp_asked s @ [PromiseRequest i ch name arg]\<rparr>)"
proof -
  note v = rpc_invD [OF inv]
  let ?C = "rp_client s" and ?r = "PromiseRequest i ch name arg"
  have nd: "\<not> cl_isDisposed ?C" and req: "cl_requestPromise env ch name arg c ?C = (i, C)"
    using call by (auto simp: cl_call_def split: if_splits prod.splits)
  then have i: "i = cl_lastRequestId ?C" by (auto simp: cl_requestPromise_def Let_def split: if_splits)
  have less: "\<forall>r \<in> set (rp_asked s). request_id r < cl_lastRequestId ?C" using cl_okD(2) [OF v(1)] by simp
  note p = requestPromise_ok [OF v(1) _ ok(1) _ less v(2) nd, of ch name arg c]
  show ?thesis
  proof (rule rpc_inv_client [OF inv])
    show "cl_ok env (set (rp_asked s @ [?r])) C" "cl_open (set (rp_asked s @ [?r])) C"
      "cl_moves env (set (rp_asked s @ [?r])) ?C C"
      using p ok(2) req i by simp_all
    show "map_of (cl_handlers C) (request_id r) = Some PromiseHandler \<and>
        (\<exists>m \<in> set (drop (length (cl_sent ?C)) (cl_sent C)). receive_request env m = Inr (Some r))"
      if "r \<in> set [?r]" "awaited C (request_id r)" for r
      using requestPromise_sends [OF i ok(1), of c] that req by simp
  qed (use nd in simp)
qed

text \<open>Every step keeps the invariant.\<close>

lemma rpc_step_inv:
  assumes "rpc_step env s s'" and inv: "rpc_inv env s"
  shows "rpc_inv env s'"
  using assms(1)
proof cases
  case (call ch name arg c i C)
  with rpc_inv_call [OF inv call(2-4)] show ?thesis by simp
next
  case (client C)
  note c = client_step_ok [OF client(2) rpc_invD(1,2) [OF inv]]
  have "rpc_inv env (s\<lparr>rp_client := C, rp_asked := rp_asked s @ []\<rparr>)"
    by (rule rpc_inv_client [OF inv]) (use c in simp_all)
  with client(1) show ?thesis by simp
next
  case (server S)
  note g = server_step_ok [OF server(2) rpc_invD(3) [OF inv]]
  have "rpc_inv env (s\<lparr>rp_server := S, rp_up := rp_up s\<rparr>)"
    by (rule rpc_inv_server [OF inv g rpc_invD(4) [OF inv]]) simp
  with server(1) show ?thesis by simp
next
  case up
  with rpc_inv_up [OF inv up(2)] show ?thesis by simp
next
  case down
  with rpc_inv_down [OF inv down(2)] show ?thesis by simp
qed

lemma rpc_inv_start:
  assumes "response_ok env Initialize"
  shows "rpc_inv env \<lparr>rp_client = mk_ChannelClient, rp_server = mk_ChannelServer env delay, rp_up = 0, rp_down = 0, rp_asked = []\<rparr>"
  using receive_sent(2) [OF assms]
  by (simp add: rpc_inv_def cl_ok_def cl_ids_def cl_books_def cl_sends_def cl_open_def sv_ok_def books_ok_def calls_ok_def
      sent_ok_def pend_set_def pend_of_def mk_ChannelClient_def mk_ChannelServer_def sv_sendResponse_def send_message_bytes
      response_bytes_def)

lemma rpc_reachable_inv: "rpc_reachable env s \<Longrightarrow> rpc_inv env s"
  by (induction rule: rpc_reachable.induct) (auto intro: rpc_inv_start rpc_step_inv)

subsection \<open>Properties\<close>

lemma asked_promise: "request_type r = 100 \<Longrightarrow> \<exists>i ch name arg. r = PromiseRequest i ch name arg"
  by (cases r) simp_all

text \<open>A run: the client is initialized, a channel is registered, called, and answers with 7.\<close>

definition sample_env :: "(unit, unit) ipc_env" where
  "sample_env = \<lparr>env_stringify = (\<lambda>v. []), env_parse = (\<lambda>s. Inl PlainError), env_fuel = 6, env_throws = (\<lambda>v. None),
     env_listen = (\<lambda>c name arg. None)\<rparr>"

lemma sample_transmits:
  "value_ok (\<lambda>v. False) header \<Longrightarrow> value_ok (\<lambda>v. False) body \<Longrightarrow> value_fuel header \<le> 6 \<Longrightarrow> value_fuel body \<le> 6 \<Longrightarrow>
     transmits sample_env header body"
  by (rule transmits_values [of "\<lambda>v. False"]) (simp_all add: sample_env_def)

lemma sample_text: "well_formed_string [c]" "length (VSBuffer_fromString [c]) < 2147483648" if "c \<in> {97, 98}"
  using that by (auto simp: well_formed_string_def VSBuffer_fromString_def is_surrogate_def is_high_surrogate_def
      is_low_surrogate_def utf8_bytes_def)

definition sample_call :: "unit raw_request" where
  "sample_call = PromiseRequest 0 [97] [98] Undefined"

lemma sample_ok:
  "response_ok sample_env Initialize" "request_ok sample_env (PromiseRequest 0 [97] [98] Undefined)"
  "request_ok sample_env (PromiseCancel 0)" "response_ok sample_env (PromiseSuccess 0 (Number 7))"
  unfolding response_ok_def request_ok_def
  by (rule sample_transmits; simp add: is_int32_def sample_text)+

definition sample_start :: "(unit, unit) rpc" where
  "sample_start = \<lparr>rp_client = mk_ChannelClient\<lparr>cl_idle := True\<rparr>,
     rp_server = sv_registerChannel [97] () (mk_ChannelServer sample_env 1000), rp_up = 0, rp_down = 1, rp_asked = []\<rparr>"

definition sample_client :: "unit channel_client" where
  "sample_client = snd (cl_requestPromise sample_env [97] [98] Undefined False (mk_ChannelClient\<lparr>cl_idle := True\<rparr>))"

definition sample_called :: "(unit, unit) rpc" where
  "sample_called = sample_start\<lparr>rp_client := sample_client, rp_asked := [sample_call]\<rparr>"

lemma sample_called_reachable: "rpc_reachable sample_env sample_called"
proof -
  let ?S = "mk_ChannelServer sample_env 1000 :: (unit, unit) channel_server"
  let ?s = "\<lparr>rp_client = mk_ChannelClient, rp_server = ?S, rp_up = 0, rp_down = 0, rp_asked = []\<rparr>"
  have "rpc_reachable sample_env ?s" by (rule rpc_reachable.start [OF sample_ok(1)])
  moreover have "rpc_step sample_env ?s (?s\<lparr>rp_client := mk_ChannelClient\<lparr>cl_idle := True\<rparr>, rp_down := 1\<rparr>)"
    using rpc_step.down [of ?s sample_env] receive_sent(2) [OF sample_ok(1)]
    by (simp add: mk_ChannelServer_def cl_onBuffer_def cl_onResponse_def mk_ChannelClient_def sv_sendResponse_def
        send_message_bytes response_bytes_def)
  ultimately have "rpc_reachable sample_env (?s\<lparr>rp_client := mk_ChannelClient\<lparr>cl_idle := True\<rparr>, rp_down := 1\<rparr>)"
    by (rule rpc_reachable.step)
  moreover have "rpc_step sample_env (?s\<lparr>rp_client := mk_ChannelClient\<lparr>cl_idle := True\<rparr>, rp_down := 1\<rparr>) sample_start"
    using rpc_step.server [OF server_step.register, of sample_env "?s\<lparr>rp_client := mk_ChannelClient\<lparr>cl_idle := True\<rparr>, rp_down := 1\<rparr>"]
    by (simp add: sample_start_def)
  ultimately have "rpc_reachable sample_env sample_start" by (rule rpc_reachable.step)
  moreover have "cl_call sample_env [97] [98] Undefined False (rp_client sample_start) = (Some 0, sample_client)"
    by (simp add: cl_call_def sample_start_def sample_client_def mk_ChannelClient_def cl_requestPromise_def Let_def)
  then have "rpc_step sample_env sample_start sample_called"
    using rpc_step.call [OF _ sample_ok(2,3), of False sample_start sample_client]
    by (simp add: sample_called_def sample_call_def sample_start_def)
  ultimately show ?thesis by (rule rpc_reachable.step)
qed

lemma sample_client_sent:
  "cl_sent sample_client = [request_bytes sample_env sample_call]" "cl_settled sample_client = []"
  "map_of (cl_handlers sample_client) 0 = Some PromiseHandler" "cl_protocolListener sample_client"
  by (simp_all add: sample_client_def cl_requestPromise_def cl_doRequest_def cl_sendRequest_def mk_ChannelClient_def Let_def
      sample_env_def sample_call_def)

definition sample_answered :: "(unit, unit) rpc" where
  "sample_answered = sample_called\<lparr>rp_up := 1,
     rp_server := sv_onSettled sample_env 0 (Resolved (Number 7)) (sv_onPromise sample_call (rp_server sample_called)),
     rp_client := cl_onResponse (PromiseSuccess 0 (Number 7)) sample_client, rp_down := 2\<rparr>"

lemma sample_answered_reachable: "rpc_reachable sample_env sample_answered"
proof -
  let ?P = "sv_onPromise sample_call (rp_server sample_called)"
  let ?s1 = "sample_called\<lparr>rp_server := ?P, rp_up := 1\<rparr>"
  let ?s2 = "?s1\<lparr>rp_server := sv_onSettled sample_env 0 (Resolved (Number 7)) ?P\<rparr>"
  have P: "sv_calls ?P = [(sample_call, ())]" "sv_running ?P = [0]" "sv_sent ?P = [response_bytes sample_env Initialize]"
    by (simp_all add: sample_called_def sample_start_def sv_onPromise_def sv_registerChannel_def mk_ChannelServer_def
        sample_call_def Let_def sv_sendResponse_def send_message_bytes response_bytes_def)
  let ?Q = "sv_onSettled sample_env 0 (Resolved (Number 7)) ?P"
  have q: "request_id (fst (sv_calls ?P ! 0)) = 0" by (simp add: P) (simp add: sample_call_def)
  have Q: "sv_sent ?Q = [response_bytes sample_env Initialize, response_bytes sample_env (PromiseSuccess 0 (Number 7))]"
    using q by (simp add: sv_onSettled_def P)
  have fields: "rp_client ?s2 = sample_client" "rp_server ?s2 = ?Q" "rp_down ?s2 = 1"
    by (simp_all add: sample_called_def sample_start_def)
  have "rpc_step sample_env sample_called ?s1"
    using rpc_step.up [of sample_called sample_env] receive_sent(1) [OF sample_ok(2)]
    by (simp add: sample_called_def sample_start_def sample_client_sent sv_onRawMessage_def sv_onRequest_def sample_call_def)
  with sample_called_reachable have "rpc_reachable sample_env ?s1" by (rule rpc_reachable.step)
  moreover have "rpc_step sample_env ?s1 ?s2"
  proof (rule rpc_step.server)
    have "server_step sample_env ?P ?Q" using q sample_ok(4) by (intro server_step.settle) simp
    then show "server_step sample_env (rp_server ?s1) ?Q" by simp
  qed
  ultimately have "rpc_reachable sample_env ?s2" by (rule rpc_reachable.step)
  moreover have "rpc_step sample_env ?s2 sample_answered"
  proof -
    have "fst (cl_onBuffer sample_env (response_bytes sample_env (PromiseSuccess 0 (Number 7))) sample_client) =
        cl_onResponse (PromiseSuccess 0 (Number 7)) sample_client"
      using receive_sent(2) [OF sample_ok(4)] by (simp add: cl_onBuffer_def)
    with rpc_step.down [of ?s2 sample_env] show ?thesis
      unfolding fields Q by (simp add: sample_client_sent sample_answered_def numeral_2_eq_2)
  qed
  ultimately show ?thesis by (rule rpc_reachable.step)
qed





text \<open>
  A call whose channel was unknown for too long was answered with an error, and runs all the same when the channel is
  registered later: its request stays among the pending ones.
\<close>

lemma timed_out_call_still_runs:
  assumes "map_of (sv_timers S) t = Some r" "map_of (sv_pendingRequests S) (request_channel r) = Some [(r, t)]"
    and "request_type r = 100" "sv_flushes S = []"
  shows "(r, c) \<in> set (sv_calls (fst (sv_onFlushTimer env (request_channel r)
    (sv_registerChannel (request_channel r) c (sv_onUnknownChannel env t S)))))"
  using assms
  by (simp add: sv_onFlushTimer_def sv_registerChannel_def sv_onUnknownChannel_def sv_flushPendingRequests_def Let_def
      sv_onPromise_def update_conv' split_beta)

text \<open>The cancellation of a call that is still pending is lost.\<close>

lemma pending_call_not_cancelled:
  "map_of (sv_activeRequests S) i = None \<Longrightarrow> fst (sv_onRequest env (PromiseCancel i) S) = S"
  by (simp add: sv_onRequest_def sv_disposeActiveRequest_def)

end
