(* ===== verification/DiffAlgorithm.thy ===== *)
theory DiffAlgorithm
  imports OffsetRange
begin

section \<open>Diff algorithms, the data: \<open>diff/defaultLinesDiffComputer/algorithms/diffAlgorithm.ts\<close>\<close>

text \<open>
  The data that the diff algorithms of \<open>src/vs/editor/common/diff\<close> share. A \<open>SequenceDiff\<close> pairs
  a range of the first sequence with the range of the second one that replaces it; a diff is a list
  of them. \<open>ISequence\<close> is an interface: a record of functions. \<open>getElement\<close> returns \<open>None\<close> for the
  \<open>undefined\<close> that an index outside an array reads; \<open>seq_ok\<close> says that this happens exactly outside
  the sequence, and \<open>strong_ok\<close> that strongly equal elements are equal, which is what the
  implementations provide (theory \<open>DiffSequences\<close>).

  The specification is \<open>aligned\<close>: outside the ranges of the diff the two sequences have equal
  elements, position by position, up to both ends. \<open>patch\<close> applies a diff, and
  \<open>aligned_patch\<close> shows that the result is the second sequence.
\<close>

subsection \<open>\<open>SequenceDiff\<close> and \<open>OffsetPair\<close>\<close>

record sequence_diff =
  seq1Range :: offset_range
  seq2Range :: offset_range

record offset_pair =
  offset1 :: int
  offset2 :: int

record diff_algorithm_result =
  diffs :: "sequence_diff list"
  hitTimeout :: bool

record 'e isequence =
  getElement :: "int \<Rightarrow> 'e option"
  seq_length :: int
  getBoundaryScore :: "(int \<Rightarrow> int result) option"
  isStronglyEqual :: "int \<Rightarrow> int \<Rightarrow> bool"

abbreviation SequenceDiff :: "offset_range \<Rightarrow> offset_range \<Rightarrow> sequence_diff" where
  "SequenceDiff r1 r2 \<equiv> \<lparr>seq1Range = r1, seq2Range = r2\<rparr>"

abbreviation OffsetPair :: "int \<Rightarrow> int \<Rightarrow> offset_pair" where
  "OffsetPair a b \<equiv> \<lparr>offset1 = a, offset2 = b\<rparr>"

abbreviation DiffAlgorithmResult :: "sequence_diff list \<Rightarrow> bool \<Rightarrow> diff_algorithm_result" where
  "DiffAlgorithmResult ds hit \<equiv> \<lparr>diffs = ds, hitTimeout = hit\<rparr>"

definition OffsetPair_zero :: offset_pair where
  "OffsetPair_zero = OffsetPair 0 0"

definition OffsetPair_max :: offset_pair where
  "OffsetPair_max = OffsetPair 9007199254740991 9007199254740991"

definition OffsetPair_delta :: "offset_pair \<Rightarrow> int \<Rightarrow> offset_pair" where
  "OffsetPair_delta p offset =
     (if offset = 0 then p else OffsetPair (offset1 p + offset) (offset2 p + offset))"

definition OffsetPair_equals :: "offset_pair \<Rightarrow> offset_pair \<Rightarrow> bool" where
  "OffsetPair_equals p other \<longleftrightarrow> offset1 p = offset1 other \<and> offset2 p = offset2 other"

definition SequenceDiff_fromOffsetPairs :: "offset_pair \<Rightarrow> offset_pair \<Rightarrow> sequence_diff result" where
  "SequenceDiff_fromOffsetPairs s e =
     bind_result (mk_OffsetRange (offset1 s) (offset1 e)) (\<lambda>r1.
     bind_result (mk_OffsetRange (offset2 s) (offset2 e)) (\<lambda>r2. Inr (SequenceDiff r1 r2)))"

definition SequenceDiff_swap :: "sequence_diff \<Rightarrow> sequence_diff" where
  "SequenceDiff_swap d = SequenceDiff (seq2Range d) (seq1Range d)"

definition SequenceDiff_join :: "sequence_diff \<Rightarrow> sequence_diff \<Rightarrow> sequence_diff result" where
  "SequenceDiff_join d other =
     bind_result (OffsetRange_join (seq1Range d) (seq1Range other)) (\<lambda>r1.
     bind_result (OffsetRange_join (seq2Range d) (seq2Range other)) (\<lambda>r2. Inr (SequenceDiff r1 r2)))"

definition SequenceDiff_delta :: "sequence_diff \<Rightarrow> int \<Rightarrow> sequence_diff result" where
  "SequenceDiff_delta d offset =
     (if offset = 0 then Inr d else
      bind_result (OffsetRange_delta (seq1Range d) offset) (\<lambda>r1.
      bind_result (OffsetRange_delta (seq2Range d) offset) (\<lambda>r2. Inr (SequenceDiff r1 r2))))"

definition SequenceDiff_deltaStart :: "sequence_diff \<Rightarrow> int \<Rightarrow> sequence_diff result" where
  "SequenceDiff_deltaStart d offset =
     (if offset = 0 then Inr d else
      bind_result (OffsetRange_deltaStart (seq1Range d) offset) (\<lambda>r1.
      bind_result (OffsetRange_deltaStart (seq2Range d) offset) (\<lambda>r2. Inr (SequenceDiff r1 r2))))"

definition SequenceDiff_deltaEnd :: "sequence_diff \<Rightarrow> int \<Rightarrow> sequence_diff result" where
  "SequenceDiff_deltaEnd d offset =
     (if offset = 0 then Inr d else
      bind_result (OffsetRange_deltaEnd (seq1Range d) offset) (\<lambda>r1.
      bind_result (OffsetRange_deltaEnd (seq2Range d) offset) (\<lambda>r2. Inr (SequenceDiff r1 r2))))"

definition SequenceDiff_intersectsOrTouches :: "sequence_diff \<Rightarrow> sequence_diff \<Rightarrow> bool" where
  "SequenceDiff_intersectsOrTouches d other \<longleftrightarrow>
     OffsetRange_intersectsOrTouches (seq1Range d) (seq1Range other) \<or>
     OffsetRange_intersectsOrTouches (seq2Range d) (seq2Range other)"

definition SequenceDiff_intersect :: "sequence_diff \<Rightarrow> sequence_diff \<Rightarrow> sequence_diff option" where
  "SequenceDiff_intersect d other =
     (case (OffsetRange_intersect (seq1Range d) (seq1Range other),
            OffsetRange_intersect (seq2Range d) (seq2Range other)) of
        (Some i1, Some i2) \<Rightarrow> Some (SequenceDiff i1 i2)
      | _ \<Rightarrow> None)"

definition SequenceDiff_getStarts :: "sequence_diff \<Rightarrow> offset_pair" where
  "SequenceDiff_getStarts d = OffsetPair (start (seq1Range d)) (start (seq2Range d))"

definition SequenceDiff_getEndExclusives :: "sequence_diff \<Rightarrow> offset_pair" where
  "SequenceDiff_getEndExclusives d =
     OffsetPair (endExclusive (seq1Range d)) (endExclusive (seq2Range d))"

text \<open>\<open>forEachAdjacent\<close> of \<open>src/vs/base/common/arrays.ts\<close> with a callback that updates a state.\<close>

fun forEachAdjacent_after ::
  "('a option \<Rightarrow> 'a option \<Rightarrow> 's \<Rightarrow> 's result) \<Rightarrow> 'a option \<Rightarrow> 'a list \<Rightarrow> 's \<Rightarrow> 's result" where
  "forEachAdjacent_after f item [] s = f item None s"
| "forEachAdjacent_after f item (x # xs) s =
     bind_result (f item (Some x) s) (forEachAdjacent_after f (Some x) xs)"

definition forEachAdjacent ::
  "'a list \<Rightarrow> ('a option \<Rightarrow> 'a option \<Rightarrow> 's \<Rightarrow> 's result) \<Rightarrow> 's \<Rightarrow> 's result" where
  "forEachAdjacent arr f s = forEachAdjacent_after f None arr s"

definition SequenceDiff_invert :: "sequence_diff list \<Rightarrow> int \<Rightarrow> sequence_diff list result" where
  "SequenceDiff_invert sequenceDiffs doc1Length =
     forEachAdjacent sequenceDiffs (\<lambda>a b acc.
       bind_result (SequenceDiff_fromOffsetPairs
         (case a of Some a' \<Rightarrow> SequenceDiff_getEndExclusives a' | None \<Rightarrow> OffsetPair_zero)
         (case b of Some b' \<Rightarrow> SequenceDiff_getStarts b'
          | None \<Rightarrow> OffsetPair doc1Length
              ((case a of Some a' \<Rightarrow> endExclusive (seq2Range a') - endExclusive (seq1Range a')
                | None \<Rightarrow> 0) + doc1Length)))
       (\<lambda>d. Inr (acc @ [d]))) []"

fun assertSorted_from :: "sequence_diff option \<Rightarrow> sequence_diff list \<Rightarrow> unit result" where
  "assertSorted_from prev [] = Inr ()"
| "assertSorted_from prev (cur # rest) =
     (case prev of
        Some p \<Rightarrow>
          if \<not> (endExclusive (seq1Range p) \<le> start (seq1Range cur) \<and>
                endExclusive (seq2Range p) \<le> start (seq2Range cur))
          then Inl BugIndicatingError
          else assertSorted_from (Some cur) rest
      | None \<Rightarrow> assertSorted_from (Some cur) rest)"

definition SequenceDiff_assertSorted :: "sequence_diff list \<Rightarrow> unit result" where
  "SequenceDiff_assertSorted sequenceDiffs = assertSorted_from None sequenceDiffs"

definition DiffAlgorithmResult_trivial :: "'e isequence \<Rightarrow> 'e isequence \<Rightarrow> diff_algorithm_result result" where
  "DiffAlgorithmResult_trivial seq1 seq2 =
     bind_result (OffsetRange_ofLength (seq_length seq1)) (\<lambda>r1.
     bind_result (OffsetRange_ofLength (seq_length seq2)) (\<lambda>r2.
     Inr (DiffAlgorithmResult [SequenceDiff r1 r2] False)))"

definition DiffAlgorithmResult_trivialTimedOut ::
  "'e isequence \<Rightarrow> 'e isequence \<Rightarrow> diff_algorithm_result result" where
  "DiffAlgorithmResult_trivialTimedOut seq1 seq2 =
     bind_result (OffsetRange_ofLength (seq_length seq1)) (\<lambda>r1.
     bind_result (OffsetRange_ofLength (seq_length seq2)) (\<lambda>r2.
     Inr (DiffAlgorithmResult [SequenceDiff r1 r2] True)))"

subsection \<open>Timeouts\<close>

text \<open>
  An algorithm asks its timeout again and again whether it may go on. The timeout of the model is
  the sequence of the answers: \<open>isValid n\<close> is the answer to call number \<open>n\<close>. \<open>DateTimeout\<close> gets
  its answers from the clock, whose readings are an argument.
\<close>

type_synonym timeout = "nat \<Rightarrow> bool"

definition InfiniteTimeout :: timeout where
  "InfiniteTimeout = (\<lambda>_. True)"

record date_timeout =
  startTime :: int
  timeout_ms :: int
  timeout_valid :: bool
  timeout_disabled :: bool

definition mk_DateTimeout :: "int \<Rightarrow> int \<Rightarrow> date_timeout result" where
  "mk_DateTimeout now ms =
     (if ms \<le> 0 then Inl BugIndicatingError
      else Inr \<lparr>startTime = now, timeout_ms = ms, timeout_valid = True, timeout_disabled = False\<rparr>)"

definition DateTimeout_isValid :: "int \<Rightarrow> date_timeout \<Rightarrow> bool \<times> date_timeout" where
  "DateTimeout_isValid now t =
     (if timeout_disabled t then (True, t)
      else let valid = now - startTime t < timeout_ms t;
               t' = (if \<not> valid \<and> timeout_valid t then t\<lparr>timeout_valid := False\<rparr> else t)
           in (timeout_valid t', t'))"

definition DateTimeout_disable :: "date_timeout \<Rightarrow> date_timeout" where
  "DateTimeout_disable t =
     t\<lparr>timeout_ms := 9007199254740991, timeout_disabled := True, timeout_valid := True\<rparr>"

text \<open>The answers of a \<open>DateTimeout\<close> to the calls made at the clock readings \<open>clock 0, clock 1, \<dots>\<close>\<close>

primrec DateTimeout_after :: "(nat \<Rightarrow> int) \<Rightarrow> date_timeout \<Rightarrow> nat \<Rightarrow> date_timeout" where
  "DateTimeout_after clock t 0 = t"
| "DateTimeout_after clock t (Suc n) =
     snd (DateTimeout_isValid (clock n) (DateTimeout_after clock t n))"

definition DateTimeout_answers :: "(nat \<Rightarrow> int) \<Rightarrow> date_timeout \<Rightarrow> timeout" where
  "DateTimeout_answers clock t n = fst (DateTimeout_isValid (clock n) (DateTimeout_after clock t n))"

text \<open>Once a \<open>DateTimeout\<close> has run out it stays so, even when the clock is set back.\<close>

lemma DateTimeout_stays_invalid:
  assumes "\<not> DateTimeout_answers clock t n" "n \<le> k"
  shows "\<not> DateTimeout_answers clock t k"
  using assms(2,1)
proof (induction rule: dec_induct)
  case (step i)
  then show ?case
    by (auto simp: DateTimeout_answers_def DateTimeout_isValid_def Let_def split: if_splits)
qed simp

subsection \<open>Specification: alignments\<close>

abbreviation "start1 d \<equiv> start (seq1Range d)"
abbreviation "end1 d \<equiv> endExclusive (seq1Range d)"
abbreviation "start2 d \<equiv> start (seq2Range d)"
abbreviation "end2 d \<equiv> endExclusive (seq2Range d)"

definition seq_ok :: "'e isequence \<Rightarrow> bool" where
  "seq_ok s \<longleftrightarrow> 0 \<le> seq_length s \<and>
     (\<forall>i. getElement s i = None \<longleftrightarrow> \<not> (0 \<le> i \<and> i < seq_length s))"

definition strong_ok :: "'e isequence \<Rightarrow> bool" where
  "strong_ok s \<longleftrightarrow> (\<forall>i j. isStronglyEqual s i j \<longrightarrow> 0 \<le> i \<longrightarrow> 0 \<le> j \<longrightarrow>
     i < seq_length s \<longrightarrow> j < seq_length s \<longrightarrow> getElement s i = getElement s j)"

definition equal_run :: "'e isequence \<Rightarrow> 'e isequence \<Rightarrow> int \<Rightarrow> int \<Rightarrow> int \<Rightarrow> bool" where
  "equal_run seq1 seq2 a b n \<longleftrightarrow>
     (\<forall>i. 0 \<le> i \<and> i < n \<longrightarrow> getElement seq1 (a + i) = getElement seq2 (b + i))"

text \<open>
  \<open>aligned seq1 seq2 a b ds\<close>: from position \<open>a\<close> of the first and \<open>b\<close> of the second sequence on,
  the ranges of \<open>ds\<close> are in order and lie inside the sequences, and everything between them is equal.
\<close>

fun aligned :: "'e isequence \<Rightarrow> 'e isequence \<Rightarrow> int \<Rightarrow> int \<Rightarrow> sequence_diff list \<Rightarrow> bool" where
  "aligned seq1 seq2 a b [] \<longleftrightarrow>
     a \<le> seq_length seq1 \<and> seq_length seq1 - a = seq_length seq2 - b \<and>
     equal_run seq1 seq2 a b (seq_length seq1 - a)"
| "aligned seq1 seq2 a b (d # ds) \<longleftrightarrow>
     a \<le> start1 d \<and> start1 d - a = start2 d - b \<and> equal_run seq1 seq2 a b (start1 d - a) \<and>
     start1 d \<le> end1 d \<and> start2 d \<le> end2 d \<and> aligned seq1 seq2 (end1 d) (end2 d) ds"

text \<open>Two neighbouring diffs have at least one equal element between them.\<close>

fun diffs_separated :: "sequence_diff list \<Rightarrow> bool" where
  "diffs_separated (d # d' # ds) \<longleftrightarrow> end1 d < start1 d' \<and> end2 d < start2 d' \<and> diffs_separated (d' # ds)"
| "diffs_separated _ \<longleftrightarrow> True"

text \<open>\<open>patch xs ys a ds\<close>: \<open>xs\<close> from \<open>a\<close> on with the ranges of \<open>ds\<close> replaced by those of \<open>ys\<close>.\<close>

definition sublist_of :: "'e list \<Rightarrow> int \<Rightarrow> int \<Rightarrow> 'e list" where
  "sublist_of xs a b = take (nat (b - a)) (drop (nat a) xs)"

fun patch :: "'e list \<Rightarrow> 'e list \<Rightarrow> int \<Rightarrow> sequence_diff list \<Rightarrow> 'e list" where
  "patch xs ys a [] = sublist_of xs a (int (length xs))"
| "patch xs ys a (d # ds) =
     sublist_of xs a (start1 d) @ sublist_of ys (start2 d) (end2 d) @ patch xs ys (end1 d) ds"

lemma equal_run_mono: "equal_run seq1 seq2 a b n \<Longrightarrow> m \<le> n \<Longrightarrow> equal_run seq1 seq2 a b m"
  by (auto simp: equal_run_def)

lemma equal_run_empty [simp]: "n \<le> 0 \<Longrightarrow> equal_run seq1 seq2 a b n"
  by (auto simp: equal_run_def)

lemma equal_run_get:
  "equal_run seq1 seq2 a b n \<Longrightarrow> a \<le> i \<Longrightarrow> i < a + n \<Longrightarrow>
     getElement seq1 i = getElement seq2 (i - a + b)"
  by (auto simp: equal_run_def dest!: spec [of _ "i - a"] simp: algebra_simps)

lemma equal_runI:
  "(\<And>i. a \<le> i \<Longrightarrow> i < a + n \<Longrightarrow> getElement seq1 i = getElement seq2 (i - a + b)) \<Longrightarrow>
     equal_run seq1 seq2 a b n"
  by (force simp: equal_run_def algebra_simps)

lemma equal_run_append:
  "equal_run seq1 seq2 a b n \<Longrightarrow> equal_run seq1 seq2 (a + n) (b + n) m \<Longrightarrow>
     equal_run seq1 seq2 a b (n + m)"
proof (rule equal_runI)
  fix i assume 1: "equal_run seq1 seq2 a b n" "equal_run seq1 seq2 (a + n) (b + n) m"
    and i: "a \<le> i" "i < a + (n + m)"
  show "getElement seq1 i = getElement seq2 (i - a + b)"
  proof (cases "i < a + n")
    case False
    then have "getElement seq1 i = getElement seq2 (i - (a + n) + (b + n))"
      using 1(2) i by (intro equal_run_get [of _ _ _ _ m]) auto
    then show ?thesis by (simp add: algebra_simps)
  qed (use 1(1) i equal_run_get in blast)
qed

lemma aligned_bounds:
  "aligned seq1 seq2 a b ds \<Longrightarrow> a \<le> seq_length seq1 \<and> b \<le> seq_length seq2"
  by (induction ds arbitrary: a b) force+

lemma aligned_diff_bounds:
  "aligned seq1 seq2 a b ds \<Longrightarrow> d \<in> set ds \<Longrightarrow>
     a \<le> start1 d \<and> start1 d \<le> end1 d \<and> end1 d \<le> seq_length seq1 \<and>
     b \<le> start2 d \<and> start2 d \<le> end2 d \<and> end2 d \<le> seq_length seq2"
proof (induction ds arbitrary: a b)
  case (Cons d' ds)
  show ?case
  proof (cases "d = d'")
    case True
    with Cons.prems aligned_bounds [of seq1 seq2 "end1 d'" "end2 d'" ds] show ?thesis by auto
  next
    case False
    with Cons.prems Cons.IH [of "end1 d'" "end2 d'"] show ?thesis by force
  qed
qed simp

lemma aligned_trivial:
  assumes "0 \<le> seq_length seq1" "0 \<le> seq_length seq2"
  shows "aligned seq1 seq2 0 0 [SequenceDiff (OffsetRange 0 (seq_length seq1)) (OffsetRange 0 (seq_length seq2))]"
  using assms by simp

text \<open>One more equal element in front.\<close>

lemma equal_run_extend:
  assumes "equal_run seq1 seq2 (a + 1) (b + 1) n" "getElement seq1 a = getElement seq2 b"
  shows "equal_run seq1 seq2 a b (n + 1)"
proof (rule equal_runI)
  fix i assume "a \<le> i" "i < a + (n + 1)"
  then show "getElement seq1 i = getElement seq2 (i - a + b)"
    using assms equal_run_get [OF assms(1), of i] by (cases "i = a") (auto simp: algebra_simps)
qed

lemma aligned_prepend_run:
  assumes "aligned seq1 seq2 (a + n) (b + n) ds" "equal_run seq1 seq2 a b n" "0 \<le> n"
  shows "aligned seq1 seq2 a b ds"
proof (cases ds)
  case Nil
  then show ?thesis
    using assms equal_run_append [OF assms(2), of "seq_length seq1 - (a + n)"] by auto
next
  case (Cons d ds')
  then show ?thesis
    using assms equal_run_append [OF assms(2), of "start1 d - (a + n)"] by auto
qed

lemma aligned_extend:
  assumes "aligned seq1 seq2 (a + 1) (b + 1) ds" "getElement seq1 a = getElement seq2 b"
  shows "aligned seq1 seq2 a b ds"
proof (cases ds)
  case Nil
  then show ?thesis
    using assms equal_run_extend [of seq1 seq2 a b "seq_length seq1 - (a + 1)"] by auto
next
  case (Cons d ds')
  then show ?thesis
    using assms equal_run_extend [of seq1 seq2 a b "start1 d - (a + 1)"] by auto
qed

definition nonempty_diff :: "sequence_diff \<Rightarrow> bool" where
  "nonempty_diff d \<longleftrightarrow> start1 d < end1 d \<or> start2 d < end2 d"

lemma trivial_result:
  assumes "0 \<le> seq_length seq1" "0 \<le> seq_length seq2"
  shows "DiffAlgorithmResult_trivial seq1 seq2 =
      Inr (DiffAlgorithmResult [SequenceDiff (OffsetRange 0 (seq_length seq1)) (OffsetRange 0 (seq_length seq2))] False)"
    "DiffAlgorithmResult_trivialTimedOut seq1 seq2 =
      Inr (DiffAlgorithmResult [SequenceDiff (OffsetRange 0 (seq_length seq1)) (OffsetRange 0 (seq_length seq2))] True)"
  using assms
  by (simp_all add: DiffAlgorithmResult_trivial_def DiffAlgorithmResult_trivialTimedOut_def
      OffsetRange_ofLength_def mk_OffsetRange_def)

lemma separated_Cons: "diffs_separated (d # ds) \<Longrightarrow> diffs_separated ds"
  by (cases ds) auto

lemma aligned_sorted_after:
  "aligned seq1 seq2 (end1 p) (end2 p) ds \<Longrightarrow> assertSorted_from (Some p) ds = Inr ()"
  by (induction ds arbitrary: p) auto

lemma aligned_sorted: "aligned seq1 seq2 a b ds \<Longrightarrow> SequenceDiff_assertSorted ds = Inr ()"
  by (cases ds) (auto simp: SequenceDiff_assertSorted_def aligned_sorted_after)

text \<open>What a list of diffs covers: everything from \<open>(a, b)\<close> on.\<close>

definition covered :: "'e isequence \<Rightarrow> 'e isequence \<Rightarrow> int \<Rightarrow> int \<Rightarrow> sequence_diff list \<Rightarrow> bool" where
  "covered seq1 seq2 a b ds \<longleftrightarrow> aligned seq1 seq2 a b ds \<and> diffs_separated ds \<and> (\<forall>d \<in> set ds. nonempty_diff d)"

definition before_first :: "int \<Rightarrow> int \<Rightarrow> sequence_diff list \<Rightarrow> bool" where
  "before_first a b ds \<longleftrightarrow> (case ds of [] \<Rightarrow> True | d # _ \<Rightarrow> a < start1 d \<and> b < start2 d)"

lemma before_first_separated:
  "before_first (end1 d) (end2 d) ds \<Longrightarrow> diffs_separated ds \<Longrightarrow> diffs_separated (d # ds)"
  by (cases ds) (auto simp: before_first_def)

lemma covered_extend:
  "covered seq1 seq2 (a + 1) (b + 1) ds \<Longrightarrow> getElement seq1 a = getElement seq2 b \<Longrightarrow>
     covered seq1 seq2 a b ds"
  by (simp add: covered_def aligned_extend)

lemma covered_start: "0 \<le> n \<Longrightarrow> seq_length seq1 = n \<Longrightarrow> covered seq1 seq2 n (seq_length seq2) []"
  by (simp add: covered_def)

subsection \<open>Applying an alignment\<close>

text \<open>The sequence of a list of elements, as a \<open>getElement\<close>/\<open>length\<close> pair presents it.\<close>

definition presents :: "'e isequence \<Rightarrow> 'e list \<Rightarrow> bool" where
  "presents s xs \<longleftrightarrow> seq_length s = int (length xs) \<and> getElement s = js_at xs"

lemma presents_ok: "presents s xs \<Longrightarrow> seq_ok s"
  by (auto simp: presents_def seq_ok_def js_at_def)

lemma sublist_of_append:
  assumes "0 \<le> a" "a \<le> b" "b \<le> c"
  shows "sublist_of xs a b @ sublist_of xs b c = sublist_of xs a c"
proof -
  have "nat (c - a) = nat (b - a) + nat (c - b)" "nat b = nat (b - a) + nat a" using assms by simp_all
  then show ?thesis by (simp add: sublist_of_def take_add)
qed

lemma equal_run_sublist:
  assumes "presents seq1 xs" "presents seq2 ys" "equal_run seq1 seq2 a b n"
    and "0 \<le> a" "0 \<le> b" "0 \<le> n" "a + n \<le> int (length xs)" "b + n \<le> int (length ys)"
  shows "sublist_of xs a (a + n) = sublist_of ys b (b + n)"
proof (rule nth_equalityI)
  show "length (sublist_of xs a (a + n)) = length (sublist_of ys b (b + n))"
    using assms(4-) by (simp add: sublist_of_def)
  fix i assume "i < length (sublist_of xs a (a + n))"
  then have i: "int i < n" using assms(4-) by (simp add: sublist_of_def)
  then have "js_at xs (a + int i) = js_at ys (b + int i)"
    using assms(1-3) by (simp add: presents_def equal_run_def)
  then show "sublist_of xs a (a + n) ! i = sublist_of ys b (b + n) ! i"
    using assms(4-) i by (simp add: sublist_of_def js_at_def nat_add_distrib)
qed

theorem aligned_patch:
  assumes "presents seq1 xs" "presents seq2 ys" "aligned seq1 seq2 a b ds" "0 \<le> a" "0 \<le> b"
  shows "patch xs ys a ds = sublist_of ys b (int (length ys))"
  using assms(3-)
proof (induction ds arbitrary: a b)
  case Nil
  then show ?case
    using equal_run_sublist [OF assms(1,2), of a b "int (length xs) - a"] assms(1,2)
    by (auto simp: presents_def algebra_simps)
next
  case (Cons d ds)
  have b: "end1 d \<le> int (length xs)" "end2 d \<le> int (length ys)"
    using Cons.prems(1) aligned_bounds [of seq1 seq2 "end1 d" "end2 d" ds] assms(1,2)
    by (auto simp: presents_def)
  have run: "sublist_of xs a (start1 d) = sublist_of ys b (start2 d)"
    using equal_run_sublist [OF assms(1,2), of a b "start1 d - a"] Cons.prems b by auto
  have "patch xs ys (end1 d) ds = sublist_of ys (end2 d) (int (length ys))"
    using Cons.prems by (intro Cons.IH) auto
  then show ?case
    using Cons.prems b run by (simp add: sublist_of_append)
qed

lemma aligned_patch_all:
  assumes "presents seq1 xs" "presents seq2 ys" "aligned seq1 seq2 0 0 ds"
  shows "patch xs ys 0 ds = ys"
  using aligned_patch [OF assms] by (simp add: sublist_of_def)

text \<open>A sequence over a plain array.\<close>

definition list_sequence :: "'e list \<Rightarrow> 'e isequence" where
  "list_sequence xs = \<lparr>getElement = js_at xs, seq_length = int (length xs), getBoundaryScore = None,
     isStronglyEqual = (\<lambda>i j. js_at xs i = js_at xs j)\<rparr>"

lemma list_sequence_presents: "presents (list_sequence xs) xs"
  by (simp add: presents_def list_sequence_def)

lemma list_sequence_ok [simp]: "seq_ok (list_sequence xs)"
  using list_sequence_presents by (rule presents_ok)

lemma list_sequence_length [simp]: "seq_length (list_sequence xs) = int (length xs)"
  by (simp add: list_sequence_def)

end
