(* ===== verification/MyersDiffAlgorithm.thy ===== *)
theory MyersDiffAlgorithm
  imports DiffAlgorithm
begin

section \<open>Diff by furthest reaching paths: \<open>algorithms/myersDiffAlgorithm.ts\<close>\<close>

text \<open>
  \<open>MyersDiffAlgorithm.compute\<close> as it is written, with its two growing arrays. Reading a
  \<open>FastInt32Array\<close> beyond its capacity gives \<open>undefined\<close>, which turns into \<open>NaN\<close> in the next
  calculation, and the code does run into this: it reads entry \<open>k + 1\<close> before it was ever written
  when the parity of the diagonals changes. So the numbers of the model are \<open>int option\<close>, \<open>None\<close>
  being \<open>NaN\<close> (or \<open>undefined\<close>), a comparison with which is false; a \<open>NaN\<close> that is stored in the
  typed array becomes \<open>0\<close>. A snake path may then hold \<open>NaN\<close> positions.

  The outer loop is a partial function: that it ends is a theorem of \<open>MyersCorrect\<close>, together with
  the correctness of the result.
\<close>

subsection \<open>Numbers that may be \<open>NaN\<close>\<close>

type_synonym num = "int option"

definition num_plus :: "num \<Rightarrow> num \<Rightarrow> num" where
  "num_plus a b = (case (a, b) of (Some x, Some y) \<Rightarrow> Some (x + y) | _ \<Rightarrow> None)"

definition num_minus :: "num \<Rightarrow> num \<Rightarrow> num" where
  "num_minus a b = (case (a, b) of (Some x, Some y) \<Rightarrow> Some (x - y) | _ \<Rightarrow> None)"

definition num_max :: "num \<Rightarrow> num \<Rightarrow> num" where
  "num_max a b = (case (a, b) of (Some x, Some y) \<Rightarrow> Some (max x y) | _ \<Rightarrow> None)"

definition num_min :: "num \<Rightarrow> num \<Rightarrow> num" where
  "num_min a b = (case (a, b) of (Some x, Some y) \<Rightarrow> Some (min x y) | _ \<Rightarrow> None)"

definition num_gt :: "num \<Rightarrow> num \<Rightarrow> bool" where
  "num_gt a b = (case (a, b) of (Some x, Some y) \<Rightarrow> x > y | _ \<Rightarrow> False)"

definition num_eq :: "num \<Rightarrow> num \<Rightarrow> bool" where
  "num_eq a b = (case (a, b) of (Some x, Some y) \<Rightarrow> x = y | _ \<Rightarrow> False)"

lemmas num_defs = num_plus_def num_minus_def num_max_def num_min_def num_gt_def num_eq_def

lemma num_simps [simp]:
  "num_plus (Some x) (Some y) = Some (x + y)" "num_plus None b = None" "num_plus a None = None"
  "num_minus (Some x) (Some y) = Some (x - y)" "num_minus None b = None" "num_minus a None = None"
  "num_max (Some x) (Some y) = Some (max x y)" "num_max None b = None" "num_max a None = None"
  "num_min (Some x) (Some y) = Some (min x y)" "num_min None b = None" "num_min a None = None"
  "num_gt (Some x) (Some y) \<longleftrightarrow> x > y" "\<not> num_gt None b" "\<not> num_gt a None"
  "num_eq (Some x) (Some y) \<longleftrightarrow> x = y" "\<not> num_eq None b" "\<not> num_eq a None"
  by (simp_all add: num_defs split: option.splits)

subsection \<open>\<open>FastInt32Array\<close> and \<open>FastArrayNegativeIndices\<close>\<close>

record fast_int32_array =
  positiveArr :: "int list"
  negativeArr :: "int list"

definition mk_FastInt32Array :: fast_int32_array where
  "mk_FastInt32Array = \<lparr>positiveArr = replicate 10 0, negativeArr = replicate 10 0\<rparr>"

definition FastInt32Array_get :: "fast_int32_array \<Rightarrow> int \<Rightarrow> num" where
  "FastInt32Array_get t idx =
     (if idx < 0 then js_at (negativeArr t) (- idx - 1) else js_at (positiveArr t) idx)"

text \<open>What a typed array of 32-bit integers makes of a number it stores.\<close>

definition int32_of :: "num \<Rightarrow> int" where
  "int32_of v = (case v of Some x \<Rightarrow> toInt32 x | None \<Rightarrow> 0)"

text \<open>
  The array is doubled at most once; a write beyond its end would have no effect, as \<open>list_update\<close>
  has none.
\<close>

definition int32_store :: "int list \<Rightarrow> int \<Rightarrow> num \<Rightarrow> int list" where
  "int32_store arr idx v =
     (let arr' = (if idx \<ge> int (length arr) then arr @ replicate (length arr) 0 else arr)
      in arr'[nat idx := int32_of v])"

definition FastInt32Array_set :: "fast_int32_array \<Rightarrow> int \<Rightarrow> num \<Rightarrow> fast_int32_array" where
  "FastInt32Array_set t idx v =
     (if idx < 0 then t\<lparr>negativeArr := int32_store (negativeArr t) (- idx - 1) v\<rparr>
      else t\<lparr>positiveArr := int32_store (positiveArr t) idx v\<rparr>)"

datatype snake_path = SnakePath (prev: "snake_path option") (snake_x: num) (snake_y: num) (snake_length: num)

text \<open>
  The paths: \<open>null\<close> and the \<open>undefined\<close> of a hole are both \<open>None\<close>, since the code only ever asks
  whether there is a path.
\<close>

record fast_path_array =
  positivePaths :: "snake_path option list"
  negativePaths :: "snake_path option list"

definition mk_FastArrayNegativeIndices :: fast_path_array where
  "mk_FastArrayNegativeIndices = \<lparr>positivePaths = [], negativePaths = []\<rparr>"

definition js_read :: "'a option list \<Rightarrow> int \<Rightarrow> 'a option" where
  "js_read arr i = (case js_at arr i of Some v \<Rightarrow> v | None \<Rightarrow> None)"

definition js_store :: "'a option list \<Rightarrow> int \<Rightarrow> 'a option \<Rightarrow> 'a option list" where
  "js_store arr i v =
     (if i < int (length arr) then arr[nat i := v]
      else arr @ replicate (nat i - length arr) None @ [v])"

definition FastArrayNegativeIndices_get :: "fast_path_array \<Rightarrow> int \<Rightarrow> snake_path option" where
  "FastArrayNegativeIndices_get t idx =
     (if idx < 0 then js_read (negativePaths t) (- idx - 1) else js_read (positivePaths t) idx)"

definition FastArrayNegativeIndices_set ::
  "fast_path_array \<Rightarrow> int \<Rightarrow> snake_path option \<Rightarrow> fast_path_array" where
  "FastArrayNegativeIndices_set t idx v =
     (if idx < 0 then t\<lparr>negativePaths := js_store (negativePaths t) (- idx - 1) v\<rparr>
      else t\<lparr>positivePaths := js_store (positivePaths t) idx v\<rparr>)"

subsection \<open>The search\<close>

function snake_loop :: "'e isequence \<Rightarrow> 'e isequence \<Rightarrow> int \<Rightarrow> int \<Rightarrow> int" where
  "snake_loop seqX seqY x y =
     (if x < seq_length seqX \<and> y < seq_length seqY \<and> getElement seqX x = getElement seqY y
      then snake_loop seqX seqY (x + 1) (y + 1) else x)"
  by pat_completeness auto
termination
  by (relation "measure (\<lambda>(seqX, seqY, x, y). nat (seq_length seqX - x))") auto

declare snake_loop.simps [simp del]

definition getXAfterSnake :: "'e isequence \<Rightarrow> 'e isequence \<Rightarrow> num \<Rightarrow> num \<Rightarrow> num" where
  "getXAfterSnake seqX seqY x y =
     (case (x, y) of (Some x', Some y') \<Rightarrow> Some (snake_loop seqX seqY x' y') | _ \<Rightarrow> x)"

record myers_state =
  mV :: fast_int32_array
  mpaths :: fast_path_array

text \<open>
  One diagonal: the new state, and whether the search is over. The \<open>continue\<close> leaves the state as
  it is.
\<close>

definition myers_diagonal ::
  "'e isequence \<Rightarrow> 'e isequence \<Rightarrow> int \<Rightarrow> int \<Rightarrow> int \<Rightarrow> myers_state \<Rightarrow> myers_state \<times> bool" where
  "myers_diagonal seqX seqY lowerBound upperBound k st =
     (let maxXofDLineTop = (if k = upperBound then Some (- 1) else FastInt32Array_get (mV st) (k + 1));
          maxXofDLineLeft = (if k = lowerBound then Some (- 1)
                             else num_plus (FastInt32Array_get (mV st) (k - 1)) (Some 1));
          x = num_min (num_max maxXofDLineTop maxXofDLineLeft) (Some (seq_length seqX));
          y = num_minus x (Some k)
      in if num_gt x (Some (seq_length seqX)) \<or> num_gt y (Some (seq_length seqY)) then (st, False)
         else
           let newMaxX = getXAfterSnake seqX seqY x y;
               V' = FastInt32Array_set (mV st) k newMaxX;
               lastPath = (if num_eq x maxXofDLineTop
                           then FastArrayNegativeIndices_get (mpaths st) (k + 1)
                           else FastArrayNegativeIndices_get (mpaths st) (k - 1));
               paths' = FastArrayNegativeIndices_set (mpaths st) k
                 (if \<not> num_eq newMaxX x
                  then Some (SnakePath lastPath x y (num_minus newMaxX x)) else lastPath)
           in (\<lparr>mV = V', mpaths = paths'\<rparr>,
               num_eq (FastInt32Array_get V' k) (Some (seq_length seqX)) \<and>
               num_eq (num_minus (FastInt32Array_get V' k) (Some k)) (Some (seq_length seqY))))"

text \<open>The loop over the diagonals, up to the one on which it breaks out of both loops.\<close>

function myers_diagonals ::
  "'e isequence \<Rightarrow> 'e isequence \<Rightarrow> int \<Rightarrow> int \<Rightarrow> int \<Rightarrow> myers_state \<Rightarrow> myers_state \<times> int option" where
  "myers_diagonals seqX seqY lowerBound upperBound k st =
     (if k \<le> upperBound then
        (case myers_diagonal seqX seqY lowerBound upperBound k st of (st', found) \<Rightarrow>
           if found then (st', Some k)
           else myers_diagonals seqX seqY lowerBound upperBound (k + 2) st')
      else (st, None))"
  by pat_completeness auto
termination
  by (relation "measure (\<lambda>(seqX, seqY, l, u, k, st). nat (u + 2 - k))") auto

declare myers_diagonals.simps [simp del]

definition myers_lowerBound :: "'e isequence \<Rightarrow> int \<Rightarrow> int" where
  "myers_lowerBound seqY d = - min d (seq_length seqY + d mod 2)"

definition myers_upperBound :: "'e isequence \<Rightarrow> int \<Rightarrow> int" where
  "myers_upperBound seqX d = min d (seq_length seqX + d mod 2)"

definition myers_round :: "'e isequence \<Rightarrow> 'e isequence \<Rightarrow> int \<Rightarrow> myers_state \<Rightarrow> myers_state \<times> int option" where
  "myers_round seqX seqY d st =
     myers_diagonals seqX seqY (myers_lowerBound seqY d) (myers_upperBound seqX d)
       (myers_lowerBound seqY d) st"

text \<open>The outer loop after \<open>d\<close> rounds; \<open>Some None\<close> is the return after a timeout.\<close>

partial_function (option) myers_loop ::
  "'e isequence \<Rightarrow> 'e isequence \<Rightarrow> timeout \<Rightarrow> nat \<Rightarrow> myers_state \<Rightarrow>
     (myers_state \<times> int) option option" where
  "myers_loop seqX seqY isValid d st =
     (if \<not> isValid d then Some None
      else case myers_round seqX seqY (int d + 1) st of
             (st', Some k) \<Rightarrow> Some (Some (st', k))
           | (st', None) \<Rightarrow> myers_loop seqX seqY isValid (Suc d) st')"

definition myers_init :: "'e isequence \<Rightarrow> 'e isequence \<Rightarrow> myers_state" where
  "myers_init seqX seqY =
     (let V = FastInt32Array_set mk_FastInt32Array 0 (getXAfterSnake seqX seqY (Some 0) (Some 0));
          v = FastInt32Array_get V 0
      in \<lparr>mV = V,
          mpaths = FastArrayNegativeIndices_set mk_FastArrayNegativeIndices 0
            (if num_eq v (Some 0) then None else Some (SnakePath None (Some 0) (Some 0) v))\<rparr>)"

subsection \<open>Collecting the diffs\<close>

text \<open>
  A range with a \<open>NaN\<close> bound is an error of the model; the code would build the range. It does not
  come up.
\<close>

definition mk_OffsetRange_num :: "num \<Rightarrow> num \<Rightarrow> offset_range result" where
  "mk_OffsetRange_num s e =
     (case (s, e) of (Some s', Some e') \<Rightarrow> mk_OffsetRange s' e' | _ \<Rightarrow> Inl TypeError)"

definition snake_push ::
  "num \<Rightarrow> num \<Rightarrow> num \<Rightarrow> num \<Rightarrow> sequence_diff list \<Rightarrow> sequence_diff list result" where
  "snake_push endX endY lastAligningPosS1 lastAligningPosS2 result =
     (if \<not> num_eq endX lastAligningPosS1 \<or> \<not> num_eq endY lastAligningPosS2 then
        bind_result (mk_OffsetRange_num endX lastAligningPosS1) (\<lambda>r1.
        bind_result (mk_OffsetRange_num endY lastAligningPosS2) (\<lambda>r2.
        Inr (result @ [SequenceDiff r1 r2])))
      else Inr result)"

fun snake_backtrack ::
  "snake_path option \<Rightarrow> num \<Rightarrow> num \<Rightarrow> sequence_diff list \<Rightarrow> sequence_diff list result" where
  "snake_backtrack None lastAligningPosS1 lastAligningPosS2 result =
     snake_push (Some 0) (Some 0) lastAligningPosS1 lastAligningPosS2 result"
| "snake_backtrack (Some (SnakePath p x y len)) lastAligningPosS1 lastAligningPosS2 result =
     bind_result (snake_push (num_plus x len) (num_plus y len) lastAligningPosS1 lastAligningPosS2 result)
       (snake_backtrack p x y)"

definition MyersDiffAlgorithm_compute ::
  "'e isequence \<Rightarrow> 'e isequence \<Rightarrow> timeout \<Rightarrow> diff_algorithm_result result option" where
  "MyersDiffAlgorithm_compute seq1 seq2 isValid =
     (if seq_length seq1 = 0 \<or> seq_length seq2 = 0 then Some (DiffAlgorithmResult_trivial seq1 seq2)
      else case myers_loop seq1 seq2 isValid 0 (myers_init seq1 seq2) of
             None \<Rightarrow> None
           | Some None \<Rightarrow> Some (DiffAlgorithmResult_trivialTimedOut seq1 seq2)
           | Some (Some (st, k)) \<Rightarrow> Some (
               bind_result (snake_backtrack (FastArrayNegativeIndices_get (mpaths st) k)
                 (Some (seq_length seq1)) (Some (seq_length seq2)) []) (\<lambda>result.
               Inr (DiffAlgorithmResult (rev result) False))))"

text \<open>The loop for a bounded number of rounds, to evaluate it.\<close>

fun myers_rounds ::
  "'e isequence \<Rightarrow> 'e isequence \<Rightarrow> timeout \<Rightarrow> nat \<Rightarrow> nat \<Rightarrow> myers_state \<Rightarrow>
     (myers_state \<times> int) option option" where
  "myers_rounds seqX seqY isValid 0 d st = None"
| "myers_rounds seqX seqY isValid (Suc n) d st =
     (if \<not> isValid d then Some None
      else case myers_round seqX seqY (int d + 1) st of
             (st', Some k) \<Rightarrow> Some (Some (st', k))
           | (st', None) \<Rightarrow> myers_rounds seqX seqY isValid n (Suc d) st')"

lemma myers_rounds_loop:
  "myers_rounds seqX seqY isValid n d st = Some r \<Longrightarrow> myers_loop seqX seqY isValid d st = Some r"
proof (induction n arbitrary: d st)
  case (Suc n)
  then show ?case
    by (subst myers_loop.simps) (auto split: prod.splits option.splits if_splits)
qed simp

lemma myers_compute_rounds:
  assumes "seq_length seq1 \<noteq> 0" "seq_length seq2 \<noteq> 0"
    and "case myers_rounds seq1 seq2 isValid n 0 (myers_init seq1 seq2) of
        Some (Some (st, k)) \<Rightarrow> snake_backtrack (FastArrayNegativeIndices_get (mpaths st) k)
          (Some (seq_length seq1)) (Some (seq_length seq2)) [] = Inr result
      | _ \<Rightarrow> False"
  shows "MyersDiffAlgorithm_compute seq1 seq2 isValid = Some (Inr (DiffAlgorithmResult (rev result) False))"
  using assms myers_rounds_loop [of seq1 seq2 isValid n 0 "myers_init seq1 seq2"]
  by (auto simp: MyersDiffAlgorithm_compute_def split: option.splits)

text \<open>
  The result is not always a shortest diff. The last element of the first sequence is the only
  element of the second one, but the search loses it: in round 10 it reads \<open>V\<close> one place beyond its
  ten entries, and the \<open>NaN\<close> overwrites what it knew about the diagonal in question.
\<close>

lemma Myers_not_minimal:
  "MyersDiffAlgorithm_compute (list_sequence [1 :: nat, 1, 2, 1, 1, 2, 2, 1, 1, 0]) (list_sequence [0]) InfiniteTimeout =
     Some (Inr (DiffAlgorithmResult [SequenceDiff (OffsetRange 0 10) (OffsetRange 0 1)] False)) \<and>
   aligned (list_sequence [1 :: nat, 1, 2, 1, 1, 2, 2, 1, 1, 0]) (list_sequence [0]) 0 0
     [SequenceDiff (OffsetRange 0 9) (OffsetRange 0 0)]"
proof
  have "case myers_rounds (list_sequence [1 :: nat, 1, 2, 1, 1, 2, 2, 1, 1, 0]) (list_sequence [0]) InfiniteTimeout 12 0
      (myers_init (list_sequence [1 :: nat, 1, 2, 1, 1, 2, 2, 1, 1, 0]) (list_sequence [0])) of
        Some (Some (st, k)) \<Rightarrow> snake_backtrack (FastArrayNegativeIndices_get (mpaths st) k)
          (Some (seq_length (list_sequence [1 :: nat, 1, 2, 1, 1, 2, 2, 1, 1, 0])))
          (Some (seq_length (list_sequence [0 :: nat]))) [] =
          Inr [SequenceDiff (OffsetRange 0 10) (OffsetRange 0 1)]
      | _ \<Rightarrow> False"
    by code_simp
  from myers_compute_rounds [OF _ _ this]
  show "MyersDiffAlgorithm_compute (list_sequence [1 :: nat, 1, 2, 1, 1, 2, 2, 1, 1, 0]) (list_sequence [0]) InfiniteTimeout =
     Some (Inr (DiffAlgorithmResult [SequenceDiff (OffsetRange 0 10) (OffsetRange 0 1)] False))"
    by (simp add: list_sequence_def)
next
  have "0 \<le> i \<and> i < 1 \<longleftrightarrow> i = 0" for i :: int by auto
  then show "aligned (list_sequence [1 :: nat, 1, 2, 1, 1, 2, 2, 1, 1, 0]) (list_sequence [0]) 0 0
     [SequenceDiff (OffsetRange 0 9) (OffsetRange 0 0)]"
    by (simp add: list_sequence_def js_at_def equal_run_def)
qed

end
