(* ===== verification/MyersLaws.thy ===== *)
theory MyersLaws
  imports MyersDiffAlgorithm
begin

section \<open>Correctness of \<open>MyersDiffAlgorithm\<close>\<close>

subsection \<open>The two arrays\<close>

abbreviation "mv st k \<equiv> FastInt32Array_get (mV st) k"
abbreviation "mp st k \<equiv> FastArrayNegativeIndices_get (mpaths st) k"

text \<open>The index into the half of the array that holds the diagonal \<open>k\<close>, and the length of that half.\<close>

definition half_index :: "int \<Rightarrow> int" where
  "half_index k = (if k < 0 then - k - 1 else k)"

definition half_length :: "myers_state \<Rightarrow> int \<Rightarrow> int" where
  "half_length st k = int (length (if k < 0 then negativeArr (mV st) else positiveArr (mV st)))"

lemma mv_None: "mv st k = None \<longleftrightarrow> half_length st k \<le> half_index k"
  by (auto simp: FastInt32Array_get_def js_at_def half_index_def half_length_def)

lemma int32_store_nth:
  "0 \<le> i \<Longrightarrow> i < 2 * int (length arr) \<Longrightarrow> 0 \<le> j \<Longrightarrow>
     js_at (int32_store arr i v) j =
       (if j = i then Some (int32_of v)
        else if j < int (length arr) then js_at arr j
        else if int (length arr) \<le> i \<and> j < 2 * int (length arr) then Some 0 else None)"
  by (auto simp: int32_store_def js_at_def Let_def nth_list_update nth_append nat_eq_iff2)

lemma int32_store_length:
  "length (int32_store arr i v) = (if int (length arr) \<le> i then 2 * length arr else length arr)"
  by (simp add: int32_store_def Let_def)

lemma js_read_store: "0 \<le> i \<Longrightarrow> 0 \<le> j \<Longrightarrow> js_read (js_store arr i v) j = (if j = i then v else js_read arr j)"
  by (auto simp: js_read_def js_store_def js_at_def nth_list_update nth_append nat_eq_iff2 nth_Cons'
      split: option.splits)

lemma mp_set:
  "FastArrayNegativeIndices_get (FastArrayNegativeIndices_set t k q) j =
     (if j = k then q else FastArrayNegativeIndices_get t j)"
  by (auto simp: FastArrayNegativeIndices_get_def FastArrayNegativeIndices_set_def js_read_store)

text \<open>
  What a write does. Another entry is kept: it has the value it had, or it has come into the
  doubled array with value \<open>0\<close>.
\<close>

definition entry_set :: "myers_state \<Rightarrow> int \<Rightarrow> num \<Rightarrow> snake_path option \<Rightarrow> myers_state" where
  "entry_set st k v q = \<lparr>mV = FastInt32Array_set (mV st) k v, mpaths = FastArrayNegativeIndices_set (mpaths st) k q\<rparr>"

definition kept :: "myers_state \<Rightarrow> myers_state \<Rightarrow> int \<Rightarrow> bool" where
  "kept st st' j \<longleftrightarrow> mp st' j = mp st j \<and> (mv st' j = mv st j \<or> mv st j = None \<and> mv st' j = Some 0)"

definition arrays_ok :: "myers_state \<Rightarrow> bool" where
  "arrays_ok st \<longleftrightarrow> (\<forall>k. 10 \<le> half_length st k) \<and> (\<forall>k. mv st k = None \<longrightarrow> mp st k = None)"

definition grown :: "myers_state \<Rightarrow> myers_state \<Rightarrow> bool" where
  "grown st st' \<longleftrightarrow> (\<forall>k. half_length st k \<le> half_length st' k)"

lemma mv_half: "mv st k = js_at (if k < 0 then negativeArr (mV st) else positiveArr (mV st)) (half_index k)"
  by (simp add: FastInt32Array_get_def half_index_def)

lemma half_index_nonneg [simp]: "0 \<le> half_index k"
  by (simp add: half_index_def)

lemma half_index_eq: "half_index j = half_index k \<Longrightarrow> (j < 0 \<longleftrightarrow> k < 0) \<Longrightarrow> j = k"
  by (auto simp: half_index_def split: if_splits)

lemma kept_refl [simp]: "kept st st j"
  by (simp add: kept_def)

lemma kept_trans: "kept st st' j \<Longrightarrow> kept st' st'' j \<Longrightarrow> kept st st'' j"
  by (auto simp: kept_def)

lemma kept_Some: "kept st st' j \<Longrightarrow> mv st j = Some x \<Longrightarrow> mv st' j = Some x"
  by (auto simp: kept_def)

lemma grown_refl [simp]: "grown st st"
  by (simp add: grown_def)

lemma grown_trans: "grown st st' \<Longrightarrow> grown st' st'' \<Longrightarrow> grown st st''"
  unfolding grown_def using order_trans by blast

lemma grownD: "grown st st' \<Longrightarrow> half_length st k \<le> half_length st' k"
  by (simp add: grown_def)

lemma half_entry_set:
  "half_length (entry_set st k v q) j =
     (if (j < 0 \<longleftrightarrow> k < 0) \<and> half_length st k \<le> half_index k then 2 * half_length st j else half_length st j)"
  by (auto simp: half_length_def entry_set_def FastInt32Array_set_def int32_store_length half_index_def)

lemma mv_entry_set:
  assumes "half_index k < 2 * half_length st k"
  shows "mv (entry_set st k v q) j =
    (if j = k then Some (int32_of v)
     else if half_index j < half_length st j then mv st j
     else if (j < 0 \<longleftrightarrow> k < 0) \<and> half_length st k \<le> half_index k \<and> half_index j < 2 * half_length st j
     then Some 0 else None)"
proof (cases "j < 0 \<longleftrightarrow> k < 0")
  case True
  then have eq: "half_index j = half_index k \<longleftrightarrow> j = k" using half_index_eq [of j k] by auto
  have "mv (entry_set st k v q) j =
      js_at (int32_store (if k < 0 then negativeArr (mV st) else positiveArr (mV st)) (half_index k) v) (half_index j)"
    using True by (simp add: FastInt32Array_get_def entry_set_def FastInt32Array_set_def half_index_def)
  also have "\<dots> = (if half_index j = half_index k then Some (int32_of v)
      else if half_index j < half_length st k then js_at (if k < 0 then negativeArr (mV st) else positiveArr (mV st)) (half_index j)
      else if half_length st k \<le> half_index k \<and> half_index j < 2 * half_length st k then Some 0 else None)"
    using assms by (subst int32_store_nth) (simp_all add: half_length_def)
  finally show ?thesis using True eq by (simp add: mv_half half_length_def)
next
  case False
  then have "mv (entry_set st k v q) j = mv st j" "j \<noteq> k"
    by (auto simp: FastInt32Array_get_def entry_set_def FastInt32Array_set_def)
  then show ?thesis using False mv_None [of st j] by (auto simp: not_less)
qed

lemma entry_set_facts:
  assumes "arrays_ok st" "half_index k < 2 * half_length st k"
  shows "mv (entry_set st k v q) k = Some (int32_of v)" "mp (entry_set st k v q) k = q"
    and "j \<noteq> k \<Longrightarrow> kept st (entry_set st k v q) j"
    and "arrays_ok (entry_set st k v q)" "grown st (entry_set st k v q)"
    and "half_index k < half_length (entry_set st k v q) k"
proof -
  note mv = mv_entry_set [OF assms(2)]
  have mp: "mp (entry_set st k v q) j = (if j = k then q else mp st j)" for j
    by (simp add: entry_set_def mp_set)
  have len: "10 \<le> half_length st j" for j using assms(1) by (simp add: arrays_ok_def)
  show "mv (entry_set st k v q) k = Some (int32_of v)" "mp (entry_set st k v q) k = q"
    by (simp_all add: mv mp)
  show kept: "kept st (entry_set st k v q) j" if "j \<noteq> k" for j
    using that mv_None [of st j] by (auto simp: kept_def mv mp)
  show "grown st (entry_set st k v q)"
    unfolding grown_def half_entry_set using len by (auto intro: order_trans [of 0 10])
  show "half_index k < half_length (entry_set st k v q) k"
    using assms(2) by (simp add: half_entry_set)
  have "mp (entry_set st k v q) j = None" if "mv (entry_set st k v q) j = None" for j
  proof (cases "j = k")
    case False
    then have "mv st j = None" using kept [of j] that by (auto simp: kept_def)
    then show ?thesis using assms(1) False by (simp add: mp arrays_ok_def)
  qed (use that in \<open>simp add: mv\<close>)
  moreover have "10 \<le> half_length (entry_set st k v q) j" for j
    using len [of j] by (simp add: half_entry_set)
  ultimately show "arrays_ok (entry_set st k v q)" by (simp add: arrays_ok_def)
qed

subsection \<open>Paths\<close>

fun path_end :: "snake_path option \<Rightarrow> int \<times> int" where
  "path_end (Some (SnakePath p (Some x) (Some y) (Some l))) = (x + l, y + l)"
| "path_end _ = (0, 0)"

text \<open>
  A chain of snakes: each is a run of equal elements inside the two sequences, and starts where
  the one before it ends or behind that. No \<open>NaN\<close> is left in it.
\<close>

fun chain_ok :: "'e isequence \<Rightarrow> 'e isequence \<Rightarrow> snake_path option \<Rightarrow> bool" where
  "chain_ok X Y None \<longleftrightarrow> True"
| "chain_ok X Y (Some (SnakePath p x y l)) \<longleftrightarrow>
     (case (x, y, l) of
        (Some x', Some y', Some l') \<Rightarrow>
          0 < l' \<and> x' + l' \<le> seq_length X \<and> y' + l' \<le> seq_length Y \<and> equal_run X Y x' y' l' \<and>
          chain_ok X Y p \<and> fst (path_end p) \<le> x' \<and> snd (path_end p) \<le> y'
      | _ \<Rightarrow> False)"

text \<open>
  \<open>good_at X Y k x p\<close>: the path \<open>p\<close> leads to the point \<open>(x, x - k)\<close> of diagonal \<open>k\<close>. At the right
  edge, where the code moves a point back into the grid, the path may reach further down.
\<close>

definition good_at :: "'e isequence \<Rightarrow> 'e isequence \<Rightarrow> int \<Rightarrow> int \<Rightarrow> snake_path option \<Rightarrow> bool" where
  "good_at X Y k x p \<longleftrightarrow> 0 \<le> x \<and> x \<le> seq_length X \<and> x - k \<le> seq_length Y \<and> chain_ok X Y p \<and>
     fst (path_end p) \<le> x \<and> (snd (path_end p) \<le> max 0 (x - k) \<or> x = seq_length X)"

lemma good_atD:
  assumes "good_at X Y k x p"
  shows "0 \<le> x" "x \<le> seq_length X" "x - k \<le> seq_length Y" "chain_ok X Y p"
  using assms by (simp_all add: good_at_def)

lemma good_at_None: "0 \<le> x \<Longrightarrow> x \<le> seq_length X \<Longrightarrow> x - k \<le> seq_length Y \<Longrightarrow> good_at X Y k x None"
  by (simp add: good_at_def)

lemma good_at_top: "good_at X Y (k + 1) a p \<Longrightarrow> a - k \<le> seq_length Y \<Longrightarrow> good_at X Y k a p"
  by (auto simp: good_at_def)

lemma good_at_left: "good_at X Y (k - 1) b p \<Longrightarrow> good_at X Y k (min (b + 1) (seq_length X)) p"
  by (auto simp: good_at_def min_def)

lemma chain_end_bounds:
  assumes "chain_ok X Y p" "0 \<le> seq_length X" "0 \<le> seq_length Y"
  shows "fst (path_end p) \<le> seq_length X \<and> snd (path_end p) \<le> seq_length Y"
proof (cases p)
  case (Some s)
  then show ?thesis using assms(1) by (cases s) (auto split: option.splits)
qed (use assms in simp)

lemma snake_loop_facts:
  assumes "x \<le> seq_length X" "y \<le> seq_length Y"
  shows "x \<le> snake_loop X Y x y \<and> snake_loop X Y x y \<le> seq_length X \<and>
    y + (snake_loop X Y x y - x) \<le> seq_length Y \<and> equal_run X Y x y (snake_loop X Y x y - x)"
  using assms
proof (induction X Y x y rule: snake_loop.induct)
  case (1 X Y x y)
  show ?case
  proof (cases "x < seq_length X \<and> y < seq_length Y \<and> getElement X x = getElement Y y")
    case True
    then show ?thesis
      using "1.IH" equal_run_extend [of X Y x y "snake_loop X Y (x + 1) (y + 1) - (x + 1)"]
      by (simp add: snake_loop.simps [of X Y x y])
  next
    case False
    then show ?thesis using "1.prems" by (auto simp: snake_loop.simps [of X Y x y])
  qed
qed

lemma snake_loop_above:
  assumes "seq_ok X" "seq_ok Y" "0 \<le> x" "y < 0"
  shows "snake_loop X Y x y = x"
proof -
  have "getElement Y y = None" "x < seq_length X \<Longrightarrow> getElement X x \<noteq> None"
    using assms by (simp_all add: seq_ok_def)
  then have "\<not> (x < seq_length X \<and> y < seq_length Y \<and> getElement X x = getElement Y y)" by auto
  then show ?thesis by (simp only: snake_loop.simps [of X Y x y] if_False)
qed

lemma good_at_snake:
  assumes "seq_ok X" "seq_ok Y" "good_at X Y k x q" "x' = snake_loop X Y x (x - k)"
  shows "good_at X Y k x' (if x' \<noteq> x then Some (SnakePath q (Some x) (Some (x - k)) (Some (x' - x))) else q)"
proof (cases "x' = x")
  case False
  have f: "x \<le> x'" "x' \<le> seq_length X" "x - k + (x' - x) \<le> seq_length Y" "equal_run X Y x (x - k) (x' - x)"
    using snake_loop_facts [of x X "x - k" Y] assms(3,4) by (simp_all add: good_at_def)
  moreover have "\<not> x - k < 0"
    using snake_loop_above [OF assms(1,2), of x "x - k"] good_atD(1) [OF assms(3)] assms(4) False by blast
  ultimately show ?thesis using False assms(3) by (auto simp: good_at_def)
qed (use assms in simp)

subsection \<open>From a path to the diff\<close>

lemma snake_push_ok:
  assumes "covered X Y a b (rev result)" "before_first a b (rev result)" "x \<le> a" "y \<le> b"
  shows "\<exists>result'. snake_push (Some x) (Some y) (Some a) (Some b) result = Inr result' \<and>
    covered X Y x y (rev result') \<and> (\<forall>x' y'. x' < x \<longrightarrow> y' < y \<longrightarrow> before_first x' y' (rev result'))"
proof (cases "x = a \<and> y = b")
  case True
  then show ?thesis
    using assms by (auto simp: snake_push_def before_first_def split: list.splits)
next
  case False
  define d where "d = SequenceDiff (OffsetRange x a) (OffsetRange y b)"
  have "snake_push (Some x) (Some y) (Some a) (Some b) result = Inr (result @ [d])"
    using False assms(3,4) by (simp add: snake_push_def mk_OffsetRange_num_def mk_OffsetRange_def d_def)
  moreover have "covered X Y x y (d # rev result)"
    using assms False before_first_separated [of d "rev result"]
    by (auto simp: covered_def d_def nonempty_diff_def)
  ultimately show ?thesis by (simp add: before_first_def d_def)
qed

lemma snake_backtrack_ok:
  assumes "chain_ok X Y p" "fst (path_end p) \<le> a" "snd (path_end p) \<le> b"
    and "covered X Y a b (rev result)" "before_first a b (rev result)"
  shows "\<exists>result'. snake_backtrack p (Some a) (Some b) result = Inr result' \<and> covered X Y 0 0 (rev result')"
  using assms
proof (induction p "Some a" "Some b" result arbitrary: a b rule: snake_backtrack.induct)
  case (1 result)
  then show ?case using snake_push_ok [of X Y a b result 0 0] by auto
next
  case (2 p x y len result)
  obtain x' y' l where xyl: "x = Some x'" "y = Some y'" "len = Some l" "0 < l" "equal_run X Y x' y' l"
      "chain_ok X Y p" "fst (path_end p) \<le> x'" "snd (path_end p) \<le> y'"
    using "2.prems"(1) by (auto split: option.splits)
  obtain r where r: "snake_push (Some (x' + l)) (Some (y' + l)) (Some a) (Some b) result = Inr r"
      "covered X Y (x' + l) (y' + l) (rev r)" "before_first x' y' (rev r)"
    using snake_push_ok [of X Y a b result "x' + l" "y' + l"] "2.prems" xyl by auto
  have "covered X Y x' y' (rev r)"
    using r(2) xyl(4,5) aligned_prepend_run [of X Y x' l y'] by (auto simp: covered_def)
  then show ?case
    using "2.hyps" [of x' y' r] xyl r by simp
qed

subsection \<open>One diagonal\<close>

definition search_ok :: "'e isequence \<Rightarrow> 'e isequence \<Rightarrow> bool" where
  "search_ok X Y \<longleftrightarrow> seq_ok X \<and> seq_ok Y \<and> 0 < seq_length X \<and> 0 < seq_length Y \<and> seq_length X < 2147483648"

definition top_of :: "myers_state \<Rightarrow> int \<Rightarrow> int \<Rightarrow> num" where
  "top_of st upperBound k = (if k = upperBound then Some (- 1) else mv st (k + 1))"

definition left_of :: "myers_state \<Rightarrow> int \<Rightarrow> int \<Rightarrow> num" where
  "left_of st lowerBound k = (if k = lowerBound then Some (- 1) else num_plus (mv st (k - 1)) (Some 1))"

lemma diagonal_nan:
  assumes "search_ok X Y" "arrays_ok st" "half_index k < 2 * half_length st k"
    and "top_of st up k = None \<or> left_of st lo k = None"
  shows "\<exists>q. myers_diagonal X Y lo up k st = (entry_set st k None q, False)"
proof -
  have "num_min (num_max (top_of st up k) (left_of st lo k)) (Some (seq_length X)) = None"
    using assms(4) by auto
  moreover have "mv (entry_set st k None q) k = Some 0" for q
    using entry_set_facts(1) [OF assms(2,3)] by (simp add: int32_of_def)
  moreover have "seq_length X \<noteq> 0" using assms(1) by (simp add: search_ok_def)
  ultimately show ?thesis
    unfolding myers_diagonal_def top_of_def [symmetric] left_of_def [symmetric] Let_def
    by (auto simp: getXAfterSnake_def entry_set_def)
qed

lemma diagonal_skip:
  assumes "top_of st up k = Some a" "left_of st lo k = Some b"
    and "seq_length Y < min (max a b) (seq_length X) - k"
  shows "myers_diagonal X Y lo up k st = (st, False)"
  using assms unfolding myers_diagonal_def top_of_def [symmetric] left_of_def [symmetric] Let_def
  by simp

lemma diagonal_write:
  assumes "search_ok X Y" "arrays_ok st" "half_index k < 2 * half_length st k"
    and "top_of st up k = Some a" "left_of st lo k = Some b"
    and x: "x = min (max a b) (seq_length X)" "x - k \<le> seq_length Y" "0 \<le> x"
    and x': "x' = snake_loop X Y x (x - k)"
    and q: "q = (if x = a then mp st (k + 1) else mp st (k - 1))"
  shows "myers_diagonal X Y lo up k st =
    (entry_set st k (Some x') (if x' \<noteq> x then Some (SnakePath q (Some x) (Some (x - k)) (Some (x' - x))) else q),
     x' = seq_length X \<and> x' - k = seq_length Y)"
proof -
  have "x \<le> x' \<and> x' \<le> seq_length X"
    using snake_loop_facts [of x X "x - k" Y] x x' by simp
  then have "is_int32 x'"
    using assms(1) x(3) by (simp add: is_int32_def search_ok_def)
  then have mv: "mv (entry_set st k (Some x') p) k = Some x'" for p
    using entry_set_facts(1) [OF assms(2,3)] by (simp add: int32_of_def)
  have xx: "num_min (num_max (Some a) (Some b)) (Some (seq_length X)) = Some x" by (simp add: x(1))
  have *: "\<not> seq_length X < x" by (simp add: x(1))
  show ?thesis
    unfolding myers_diagonal_def top_of_def [symmetric] left_of_def [symmetric] Let_def assms(4,5) xx
    using x(2) * mv by (auto simp: getXAfterSnake_def entry_set_def q simp flip: x')
qed

subsection \<open>One round\<close>

lemma diagonal_shape:
  "fst (myers_diagonal X Y lo up k st) = st \<or> (\<exists>v q. fst (myers_diagonal X Y lo up k st) = entry_set st k v q)"
  by (auto simp: myers_diagonal_def Let_def entry_set_def)

lemma diagonal_keeps:
  assumes "arrays_ok st" "half_index k < 2 * half_length st k"
  shows "arrays_ok (fst (myers_diagonal X Y lo up k st))" "grown st (fst (myers_diagonal X Y lo up k st))"
    and "j \<noteq> k \<Longrightarrow> kept st (fst (myers_diagonal X Y lo up k st)) j"
  using diagonal_shape [of X Y lo up k st] entry_set_facts [OF assms] assms(1) by auto

text \<open>
  The state in which the round reaches diagonal \<open>j\<close>: the diagonals it reads, and those it has not
  come to, are as they were before the round. Once a diagonal \<open>k < 0\<close> is done, the array is
  long enough to hold the entry above it.
\<close>

definition reaches :: "myers_state \<Rightarrow> int \<Rightarrow> int \<Rightarrow> myers_state \<Rightarrow> bool" where
  "reaches st k j s \<longleftrightarrow> arrays_ok s \<and> grown st s \<and> (\<forall>i. odd (i - k) \<or> j \<le> i \<longrightarrow> kept st s i) \<and>
     (k < 0 \<and> k < j \<longrightarrow> mv s (k + 1) \<noteq> None)"

lemma mv_grown: "grown st st' \<Longrightarrow> mv st k \<noteq> None \<Longrightarrow> mv st' k \<noteq> None"
  using grownD [of st st' k] by (simp add: mv_None)

lemma diagonal_makes_room:
  assumes "search_ok X Y" "arrays_ok st" "half_index k < 2 * half_length st k" "k < 0" "k < up"
  shows "mv (fst (myers_diagonal X Y lo up k st)) (k + 1) \<noteq> None"
proof (cases "mv st (k + 1)")
  case None
  then have top: "top_of st up k = None" using assms(5) by (simp add: top_of_def)
  have "10 \<le> half_length st (k + 1)" using assms(2) by (simp add: arrays_ok_def)
  then have "k + 1 < 0"
    using None assms(4) by (simp add: mv_None half_index_def split: if_splits)
  obtain q where "fst (myers_diagonal X Y lo up k st) = entry_set st k None q"
    using diagonal_nan [OF assms(1-3), of up lo] top by auto
  then show ?thesis
    using entry_set_facts(6) [OF assms(2,3), of None q] \<open>k + 1 < 0\<close> by (auto simp: mv_None half_index_def half_length_def)
next
  case (Some x)
  then show ?thesis using mv_grown diagonal_keeps(2) [OF assms(2,3)] by fastforce
qed

definition round_trace ::
  "'e isequence \<Rightarrow> 'e isequence \<Rightarrow> int \<Rightarrow> int \<Rightarrow> int \<Rightarrow> myers_state \<Rightarrow> myers_state \<Rightarrow> int option \<Rightarrow> bool" where
  "round_trace X Y lo up k st st' r \<longleftrightarrow>
     arrays_ok st' \<and> grown st st' \<and> (\<forall>j. odd (j - k) \<or> j < k \<or> up < j \<longrightarrow> kept st st' j) \<and>
     (k < 0 \<and> k < up \<longrightarrow> mv st' (k + 1) \<noteq> None) \<and>
     (case r of
        None \<Rightarrow> \<forall>j. even (j - k) \<and> k \<le> j \<and> j \<le> up \<longrightarrow>
          (\<exists>s. reaches st k j s \<and> kept (fst (myers_diagonal X Y lo up j s)) st' j \<and>
               \<not> snd (myers_diagonal X Y lo up j s))
      | Some f \<Rightarrow> even (f - k) \<and> k \<le> f \<and> f \<le> up \<and>
          (\<exists>s. reaches st k f s \<and> myers_diagonal X Y lo up f s = (st', True)))"

lemma reaches_later:
  assumes "\<And>i. i \<noteq> k \<Longrightarrow> kept st s i" "arrays_ok s" "grown st s" "reaches s (k + 2) i s'"
    and "k + 2 \<le> i" "k < 0 \<Longrightarrow> mv s (k + 1) \<noteq> None"
  shows "reaches st k i s'"
proof -
  have "kept st s' m" if "odd (m - k) \<or> i \<le> m" for m
  proof -
    have "m \<noteq> k" "odd (m - (k + 2)) \<or> i \<le> m" using that assms(5) by auto
    then show ?thesis using assms(1,4) kept_trans unfolding reaches_def by blast
  qed
  moreover have "mv s' (k + 1) \<noteq> None" if "k < 0"
    using mv_grown assms(4) assms(6) [OF that] by (auto simp: reaches_def)
  ultimately show ?thesis using assms(3,4) grown_trans unfolding reaches_def by blast
qed

lemma round_trace_step:
  assumes d: "myers_diagonal X Y lo up k st = (s, False)" "search_ok X Y"
    and ok: "arrays_ok st" "half_index k < 2 * half_length st k" "k \<le> up"
    and rest: "round_trace X Y lo up (k + 2) s st' r"
  shows "round_trace X Y lo up k st st' r"
proof -
  have s: "arrays_ok s" "grown st s" "\<And>i. i \<noteq> k \<Longrightarrow> kept st s i"
    using diagonal_keeps [OF ok(1,2), where X = X and Y = Y and lo = lo and up = up] d(1) by auto
  have room: "mv s (k + 1) \<noteq> None" if "k < 0" "k < up"
    using diagonal_makes_room [OF d(2) ok(1,2) that, of lo] d(1) by simp
  have later: "reaches st k i s'" if "reaches s (k + 2) i s'" "k + 2 \<le> i" "i \<le> up" for i s'
    using that(3) by (intro reaches_later [OF _ s(1,2) that(1,2)] s(3) room) (use that(2) in auto)
  have keep: "kept st st' j" if "odd (j - k) \<or> j < k \<or> up < j" for j
  proof -
    have "j \<noteq> k" "odd (j - (k + 2)) \<or> j < k + 2 \<or> up < j" using that ok(3) by auto
    then show ?thesis using rest s(3) kept_trans unfolding round_trace_def by blast
  qed
  have grown: "grown st st'" "arrays_ok st'"
    using rest s(2) grown_trans unfolding round_trace_def by blast+
  have "grown s st'" using rest by (simp add: round_trace_def)
  then have room': "k < 0 \<and> k < up \<longrightarrow> mv st' (k + 1) \<noteq> None" using room mv_grown by blast
  show ?thesis
  proof (cases r)
    case None
    have "\<exists>s'. reaches st k j s' \<and> kept (fst (myers_diagonal X Y lo up j s')) st' j \<and>
        \<not> snd (myers_diagonal X Y lo up j s')" if j: "even (j - k)" "k \<le> j" "j \<le> up" for j
    proof (cases "j = k")
      case True
      have "kept s st' k" using rest by (simp add: round_trace_def)
      moreover have "reaches st k k st" using ok(1) by (simp add: reaches_def)
      ultimately show ?thesis using d(1) True by auto
    next
      case False
      then have "even (j - (k + 2))" "k + 2 \<le> j" using j by presburger+
      then obtain s' where "reaches s (k + 2) j s'" "kept (fst (myers_diagonal X Y lo up j s')) st' j"
          "\<not> snd (myers_diagonal X Y lo up j s')"
        using rest None j(3) unfolding round_trace_def by auto
      then show ?thesis using later \<open>k + 2 \<le> j\<close> j(3) by blast
    qed
    then show ?thesis using keep grown room' None by (simp add: round_trace_def)
  next
    case (Some f)
    then obtain s' where f: "even (f - (k + 2))" "k + 2 \<le> f" "f \<le> up" "reaches s (k + 2) f s'"
        "myers_diagonal X Y lo up f s' = (st', True)"
      using rest unfolding round_trace_def by auto
    then have "reaches st k f s'" using later f(3) by blast
    moreover have "even (f - k)" "k \<le> f" using f(1,2) by auto
    ultimately show ?thesis using keep grown room' Some f(3,5) by (auto simp: round_trace_def)
  qed
qed

lemma myers_diagonals_trace:
  assumes "myers_diagonals X Y lo up k st = (st', r)" "arrays_ok st" "search_ok X Y"
    and "\<And>j. k \<le> j \<Longrightarrow> j \<le> up \<Longrightarrow> even (j - k) \<Longrightarrow> half_index j < 2 * half_length st j"
  shows "round_trace X Y lo up k st st' r"
  using assms
proof (induction X Y lo up k st arbitrary: st' r rule: myers_diagonals.induct)
  case (1 X Y lo up k st)
  note eq = myers_diagonals.simps [of X Y lo up k st]
  show ?case
  proof (cases "k \<le> up")
    case False
    then show ?thesis using "1.prems"(1,2) by (auto simp: eq round_trace_def)
  next
    case True
    obtain s found where d: "myers_diagonal X Y lo up k st = (s, found)" by fastforce
    have range: "half_index k < 2 * half_length st k" using "1.prems"(4) True by simp
    have s: "arrays_ok s" "grown st s" "\<And>i. i \<noteq> k \<Longrightarrow> kept st s i"
      using diagonal_keeps [OF "1.prems"(2) range, where X = X and Y = Y and lo = lo and up = up] d by auto
    show ?thesis
    proof (cases found)
      case True
      then have "st' = s" "r = Some k" using "1.prems"(1) \<open>k \<le> up\<close> d by (simp_all add: eq)
      moreover have "reaches st k k st" using "1.prems"(2) by (simp add: reaches_def)
      moreover have "kept st s j" if "odd (j - k) \<or> j < k \<or> up < j" for j
        using that \<open>k \<le> up\<close> by (intro s(3)) auto
      moreover have "k < 0 \<and> k < up \<longrightarrow> mv s (k + 1) \<noteq> None"
        using diagonal_makes_room [OF "1.prems"(3,2) range, of up lo] d by simp
      ultimately show ?thesis using s(1,2) d True \<open>k \<le> up\<close> by (auto simp: round_trace_def)
    next
      case False
      have "round_trace X Y lo up (k + 2) s st' r"
      proof (rule "1.IH" [OF \<open>k \<le> up\<close> d [symmetric] False _ s(1) "1.prems"(3)])
        show "myers_diagonals X Y lo up (k + 2) s = (st', r)"
          using "1.prems"(1) \<open>k \<le> up\<close> d False by (simp add: eq)
        fix j assume "k + 2 \<le> j" "j \<le> up" "even (j - (k + 2))"
        then have "half_index j < 2 * half_length st j" by (intro "1.prems"(4)) auto
        then show "half_index j < 2 * half_length s j" using grownD [OF s(2), of j] by linarith
      qed
      then show ?thesis using round_trace_step [OF _ "1.prems"(3,2) range \<open>k \<le> up\<close>] d False by simp
    qed
  qed
qed

end
