(* ===== verification/MyersRounds.thy ===== *)
theory MyersRounds
  imports MyersLaws
begin

section \<open>The rounds of \<open>MyersDiffAlgorithm\<close>\<close>

subsection \<open>Entries\<close>

definition good :: "'e isequence \<Rightarrow> 'e isequence \<Rightarrow> myers_state \<Rightarrow> int \<Rightarrow> bool" where
  "good X Y st k \<longleftrightarrow> (\<exists>x. mv st k = Some x \<and> good_at X Y k x (mp st k))"

text \<open>A good entry inside the grid: the point is not above the first row.\<close>

definition inside :: "'e isequence \<Rightarrow> 'e isequence \<Rightarrow> myers_state \<Rightarrow> int \<Rightarrow> bool" where
  "inside X Y st k \<longleftrightarrow> (\<exists>x. mv st k = Some x \<and> good_at X Y k x (mp st k) \<and> k \<le> x)"

text \<open>An entry that no round has come to, or that was moved back to the right edge.\<close>

definition beyond :: "'e isequence \<Rightarrow> 'e isequence \<Rightarrow> myers_state \<Rightarrow> int \<Rightarrow> bool" where
  "beyond X Y st k \<longleftrightarrow>
     mv st k = None \<or> (\<exists>x. mv st k = Some x \<and> good_at X Y k x (mp st k) \<and> x \<le> k \<and>
       (x = 0 \<or> x = seq_length X))"

text \<open>The last diagonal of a round may hold what is left of a \<open>NaN\<close>; it then is far above the grid.\<close>

definition last_ok :: "'e isequence \<Rightarrow> 'e isequence \<Rightarrow> bool \<Rightarrow> myers_state \<Rightarrow> int \<Rightarrow> bool" where
  "last_ok X Y bad st u \<longleftrightarrow> (\<exists>x. mv st u = Some x \<and> 0 \<le> x \<and> x \<le> seq_length X \<and>
     (good_at X Y u x (mp st u) \<and> (u \<le> x \<or> x = seq_length X) \<or> bad \<and> x \<le> u - 2))"

definition bottom :: "'e isequence \<Rightarrow> myers_state \<Rightarrow> int \<Rightarrow> bool" where
  "bottom Y st k \<longleftrightarrow> mv st k = Some (seq_length Y + k)"

lemma kept_inside: "kept st s k \<Longrightarrow> inside X Y st k \<Longrightarrow> inside X Y s k"
  by (auto simp: inside_def kept_def)

lemma kept_good: "kept st s k \<Longrightarrow> good X Y st k \<Longrightarrow> good X Y s k"
  by (auto simp: good_def kept_def)

lemma kept_last_ok: "kept st s k \<Longrightarrow> last_ok X Y bad st k \<Longrightarrow> last_ok X Y bad s k"
  by (auto simp: last_ok_def kept_def)

lemma kept_bottom: "kept st s k \<Longrightarrow> bottom Y st k \<Longrightarrow> bottom Y s k"
  by (auto simp: bottom_def kept_def)

lemma kept_beyond:
  assumes "search_ok X Y" "arrays_ok st" "kept st s k" "beyond X Y st k" "0 \<le> k"
  shows "beyond X Y s k"
proof (cases "mv st k")
  case None
  then have "mp s k = None" using assms(2,3) by (simp add: arrays_ok_def kept_def)
  moreover have "good_at X Y k 0 None" using assms(1,5) by (intro good_at_None) (auto simp: search_ok_def)
  ultimately show ?thesis using assms(3,5) None by (auto simp: beyond_def kept_def)
qed (use assms(3,4) in \<open>auto simp: beyond_def kept_def\<close>)

lemma inside_good: "inside X Y st k \<Longrightarrow> good X Y st k"
  by (auto simp: inside_def good_def)

lemma inside_last_ok: "inside X Y st k \<Longrightarrow> last_ok X Y bad st k"
  by (auto simp: inside_def last_ok_def dest: good_atD)

subsection \<open>What a diagonal becomes\<close>

text \<open>Diagonal \<open>k\<close> is written with a good entry at or behind \<open>x\<close>.\<close>

definition advanced :: "'e isequence \<Rightarrow> 'e isequence \<Rightarrow> int \<Rightarrow> int \<Rightarrow> int \<Rightarrow> myers_state \<Rightarrow> int \<Rightarrow> bool" where
  "advanced X Y lo up k s x \<longleftrightarrow> (\<exists>x'. x \<le> x' \<and> mv (fst (myers_diagonal X Y lo up k s)) k = Some x' \<and>
     good_at X Y k x' (mp (fst (myers_diagonal X Y lo up k s)) k) \<and>
     (snd (myers_diagonal X Y lo up k s) \<longleftrightarrow> x' = seq_length X \<and> x' - k = seq_length Y))"

lemma diagonal_advances:
  assumes ok: "search_ok X Y" "arrays_ok s" "half_index k < 2 * half_length s k"
    and ab: "top_of s up k = Some a" "left_of s lo k = Some b" "x = min (max a b) (seq_length X)"
    and A: "a = x \<Longrightarrow> good_at X Y (k + 1) a (mp s (k + 1))"
    and B: "a \<noteq> x \<Longrightarrow> good_at X Y (k - 1) (b - 1) (mp s (k - 1)) \<and> a \<le> b"
    and x: "x - k \<le> seq_length Y"
  shows "advanced X Y lo up k s x"
proof -
  define q where "q = (if x = a then mp s (k + 1) else mp s (k - 1))"
  have q: "good_at X Y k x q"
  proof (cases "a = x")
    case True
    then show ?thesis using good_at_top [OF A [OF True]] x by (simp add: q_def)
  next
    case False
    then have "x = min (b - 1 + 1) (seq_length X)" using B [OF False] ab(3) by (simp add: max_def)
    then show ?thesis using good_at_left [of X Y k "b - 1"] B [OF False] False by (auto simp: q_def)
  qed
  define x' where "x' = snake_loop X Y x (x - k)"
  have seqs: "seq_ok X" "seq_ok Y" using ok(1) by (simp_all add: search_ok_def)
  have "x \<le> x'" using snake_loop_facts [of x X "x - k" Y] ab(3) x by (simp add: x'_def)
  moreover have x'32: "int32_of (Some x') = x'"
    using good_atD [OF good_at_snake [OF seqs q x'_def]] ok(1)
    by (simp add: int32_of_def is_int32_def search_ok_def)
  moreover note diagonal_write [OF ok ab x good_atD(1) [OF q] x'_def q_def]
    good_at_snake [OF seqs q x'_def] entry_set_facts(1,2) [OF ok(2,3)]
  ultimately show ?thesis by (auto simp: advanced_def)
qed

lemma diagonal_nan_value:
  assumes "search_ok X Y" "arrays_ok s" "half_index k < 2 * half_length s k"
    and "top_of s up k = None \<or> left_of s lo k = None"
  shows "mv (fst (myers_diagonal X Y lo up k s)) k = Some 0 \<and> \<not> snd (myers_diagonal X Y lo up k s)"
  using diagonal_nan [OF assms] entry_set_facts(1) [OF assms(2,3)] by (auto simp: int32_of_def)

text \<open>The first diagonal of a round only has the entry above it to go on from.\<close>

lemma diagonal_first:
  assumes ok: "search_ok X Y" "arrays_ok s" "half_index lo < 2 * half_length s lo"
    and up: "lo \<noteq> up" and top: "mv s (lo + 1) = Some a" "good_at X Y (lo + 1) a (mp s (lo + 1))"
  shows "if bottom Y s (lo + 1) then myers_diagonal X Y lo up lo s = (s, False)
    else advanced X Y lo up lo s a"
proof (cases "bottom Y s (lo + 1)")
  case True
  then have "a = seq_length Y + lo + 1" using top by (simp add: bottom_def)
  then show ?thesis
    using True diagonal_skip [of s up lo a lo "- 1" Y X] up top good_atD [OF top(2)]
    by (simp add: top_of_def left_of_def)
next
  case False
  then have "a - lo \<le> seq_length Y" using top good_atD(3) [OF top(2)] by (auto simp: bottom_def)
  then show ?thesis
    using False diagonal_advances [OF ok, of up a lo "- 1" a] up top good_atD [OF top(2)]
    by (simp add: top_of_def left_of_def)
qed

text \<open>A diagonal below the last one of the round before. The entry to its left is inside the grid.\<close>

lemma diagonal_inner:
  assumes ok: "search_ok X Y" "arrays_ok s" "half_index k < 2 * half_length s k"
    and k: "k \<noteq> lo" "k \<le> seq_length X"
    and left: "mv s (k - 1) = Some l" "good_at X Y (k - 1) l (mp s (k - 1))" "k - 1 \<le> l"
    and top: "k \<noteq> up \<Longrightarrow> mv s (k + 1) = Some a \<and> 0 \<le> a \<and> a \<le> seq_length X \<and>
      (good_at X Y (k + 1) a (mp s (k + 1)) \<or> a \<le> k - 1)"
  shows "if k \<noteq> up \<and> bottom Y s (k + 1) then myers_diagonal X Y lo up k s = (s, False)
    else advanced X Y lo up k s (max k (min (max (if k = up then - 1 else a) (l + 1)) (seq_length X)))"
proof -
  define t where "t = (if k = up then - 1 else a)"
  define x where "x = min (max t (l + 1)) (seq_length X)"
  have tl: "top_of s up k = Some t" "left_of s lo k = Some (l + 1)"
    using top k left by (auto simp: top_of_def left_of_def t_def)
  have l: "0 \<le> l" "l \<le> seq_length X" "l - (k - 1) \<le> seq_length Y" using good_atD [OF left(2)] by auto
  have x: "max k x = x" "0 \<le> x" using k(2) left(3) l by (auto simp: x_def)
  have Y: "0 < seq_length Y" "0 < seq_length X" using ok(1) by (simp_all add: search_ok_def)
  have tX: "t \<le> seq_length X" using top Y(2) by (cases "k = up") (simp_all add: t_def)
  show ?thesis
  proof (cases "k \<noteq> up \<and> bottom Y s (k + 1)")
    case True
    then have "t = seq_length Y + k + 1" "t \<le> seq_length X"
      using top by (auto simp: bottom_def t_def)
    then show ?thesis using True diagonal_skip [OF tl, of Y X] l by simp
  next
    case False
    have "t - k \<le> seq_length Y"
    proof (cases "k = up")
      case True
      then show ?thesis using k l left(3) by (simp add: t_def)
    next
      case ku: False
      from top [OF ku] show ?thesis
      proof (elim conjE disjE)
        assume "good_at X Y (k + 1) a (mp s (k + 1))" "mv s (k + 1) = Some a"
        then show ?thesis
          using good_atD(3) [of X Y "k + 1" a "mp s (k + 1)"] False ku by (auto simp: t_def bottom_def)
      qed (use ku Y in \<open>simp add: t_def\<close>)
    qed
    then have "x - k \<le> seq_length Y" using l by (auto simp: x_def)
    moreover have "good_at X Y (k + 1) t (mp s (k + 1))" if "t = x"
    proof -
      have "k \<noteq> up" using that x(2) by (auto simp: t_def)
      moreover have "\<not> t \<le> k - 1" using that x(1) by auto
      ultimately show ?thesis using top by (auto simp: t_def)
    qed
    moreover have "t \<le> l + 1" if "t \<noteq> x"
      using that tX by (simp add: x_def max_def min_def split: if_splits)
    ultimately have "advanced X Y lo up k s x"
      using left(2) by (intro diagonal_advances [OF ok tl x_def]) simp_all
    then show ?thesis using False by (simp only: x(1) if_False simp_thms flip: t_def x_def)
  qed
qed

text \<open>
  The last diagonal, when it lies beyond the last one of the round before. The entry to its left
  may be what is left of a \<open>NaN\<close>, and the entry above may never have been written.
\<close>

lemma diagonal_last:
  assumes ok: "search_ok X Y" "arrays_ok s" "half_index k < 2 * half_length s k"
    and k: "k \<noteq> lo" "0 \<le> k" "k \<le> seq_length X + 1"
    and left: "mv s (k - 1) = Some l" "0 \<le> l" "l \<le> seq_length X"
      "good_at X Y (k - 1) l (mp s (k - 1)) \<and> (k - 1 \<le> l \<or> l = seq_length X) \<or> bad \<and> l \<le> k - 3"
    and top: "k = up \<or> beyond X Y s (k + 1)" "k \<noteq> up \<Longrightarrow> bad"
  shows "last_ok X Y bad (fst (myers_diagonal X Y lo up k s)) k \<and>
    (snd (myers_diagonal X Y lo up k s) \<longrightarrow> good X Y (fst (myers_diagonal X Y lo up k s)) k) \<and>
    (bottom Y (fst (myers_diagonal X Y lo up k s)) k \<and> \<not> snd (myers_diagonal X Y lo up k s) \<longrightarrow>
      inside X Y s (k - 1))"
proof (cases "top_of s up k")
  case None
  then have "k \<noteq> up" "mv s (k + 1) = None" by (auto simp: top_of_def split: if_splits)
  then have "half_length s (k + 1) \<le> k + 1" "bad"
    using top(2) k(2) by (simp_all add: mv_None half_index_def)
  then have "bad" "2 \<le> k" using ok(2) by (auto simp: arrays_ok_def dest: spec [of _ "k + 1"])
  then show ?thesis
    using diagonal_nan_value [OF ok, of up lo] None ok(1) by (simp add: last_ok_def search_ok_def bottom_def)
next
  case (Some t)
  define x where "x = min (max t (l + 1)) (seq_length X)"
  have lo: "left_of s lo k = Some (l + 1)" using k left by (simp add: left_of_def)
  have t: "t = - 1 \<or> good_at X Y (k + 1) t (mp s (k + 1)) \<and> t \<le> k + 1 \<and> (t = 0 \<or> t = seq_length X)"
    using Some top(1) by (auto simp: top_of_def beyond_def split: if_splits)
  then have tX: "t \<le> seq_length X" using left(2,3) good_atD(2) by fastforce
  have Y: "0 < seq_length Y" "0 < seq_length X" using ok(1) by (simp_all add: search_ok_def)
  have x0: "0 \<le> x" using left Y by (simp add: x_def)
  show ?thesis
  proof (cases "good_at X Y (k - 1) l (mp s (k - 1)) \<and> (k - 1 \<le> l \<or> l = seq_length X) \<or> x = t")
    case True
    have "l + 1 - k \<le> seq_length Y" using left(4) good_atD(3) [of X Y "k - 1" l "mp s (k - 1)"] Y by auto
    moreover have "t - k \<le> seq_length Y" using t k Y by auto
    ultimately have "x - k \<le> seq_length Y" by (simp add: x_def)
    moreover have "good_at X Y (k - 1) l (mp s (k - 1)) \<and> t \<le> l + 1" if "t \<noteq> x"
      using that tX True by (simp add: x_def max_def min_def split: if_splits)
    ultimately have adv: "advanced X Y lo up k s x"
      using t x0 by (intro diagonal_advances [OF ok Some lo x_def]) auto
    have cases: "k \<le> x \<and> inside X Y s (k - 1) \<or> x = seq_length X \<and> (inside X Y s (k - 1) \<or> x = t)"
      using True
    proof (elim disjE)
      assume good: "good_at X Y (k - 1) l (mp s (k - 1)) \<and> (k - 1 \<le> l \<or> l = seq_length X)"
      then have "inside X Y s (k - 1)" using left(1) k(3) by (auto simp: inside_def)
      moreover have "k \<le> x \<or> x = seq_length X" using good by (auto simp: x_def)
      ultimately show ?thesis by blast
    next
      assume "x = t"
      moreover have "1 \<le> x" using left(2) Y by (simp add: x_def)
      ultimately show ?thesis using t by auto
    qed
    from adv obtain x' where x': "x \<le> x'" "mv (fst (myers_diagonal X Y lo up k s)) k = Some x'"
        "good_at X Y k x' (mp (fst (myers_diagonal X Y lo up k s)) k)"
        "snd (myers_diagonal X Y lo up k s) \<longleftrightarrow> x' = seq_length X \<and> x' - k = seq_length Y"
      by (auto simp: advanced_def)
    then have "0 \<le> x'" "x' \<le> seq_length X" using good_atD by blast+
    moreover have "k \<le> x' \<or> x' = seq_length X" using cases x'(1) \<open>x' \<le> seq_length X\<close> by auto
    moreover have "inside X Y s (k - 1) \<or> x' = seq_length X"
      using cases x'(1) \<open>x' \<le> seq_length X\<close> by auto
    ultimately show ?thesis using x' by (auto simp: last_ok_def good_def bottom_def)
  next
    case False
    then have l: "bad" "l \<le> k - 3" using left(4) by auto
    have tl: "t \<noteq> x" "t \<le> l + 1" using False tX by (auto simp: x_def max_def min_def split: if_splits)
    then have x: "x \<le> k - 2" using l by (simp add: x_def)
    have snake: "snake_loop X Y x (x - k) = x"
      using snake_loop_above [of X Y x "x - k"] x x0 ok(1) by (simp add: search_ok_def)
    have xX: "x \<le> seq_length X" by (simp add: x_def)
    then have "int32_of (Some x) = x" using ok(1) x0 by (simp add: int32_of_def is_int32_def search_ok_def)
    then show ?thesis
      using diagonal_write [OF ok Some lo x_def _ x0 refl refl] entry_set_facts(1) [OF ok(2,3)] x x0 xX l Y
      by (simp add: snake last_ok_def bottom_def)
  qed
qed

subsection \<open>What a round reads and what it writes\<close>

text \<open>
  A round reads the diagonals of one parity and writes those of the other. \<open>row_ok X Y st r u bad\<close>
  describes the diagonals of the parity of \<open>u\<close> from \<open>r\<close> on: up to \<open>u\<close> they have been written, and
  only the last of them may be spoilt, and only when \<open>bad\<close> holds.
\<close>

definition row_ok :: "'e isequence \<Rightarrow> 'e isequence \<Rightarrow> myers_state \<Rightarrow> int \<Rightarrow> int \<Rightarrow> bool \<Rightarrow> bool" where
  "row_ok X Y st r u bad \<longleftrightarrow> - 1 \<le> u \<and> u \<le> seq_length X + 1 \<and> last_ok X Y bad st u \<and>
     (\<forall>k. even (u - k) \<and> r \<le> k \<and> k < u \<longrightarrow> inside X Y st k) \<and>
     (\<forall>k. even (u - k) \<and> u < k \<longrightarrow> beyond X Y st k)"

lemma row_okD:
  assumes "row_ok X Y st r u bad"
  shows "- 1 \<le> u" "u \<le> seq_length X + 1" "last_ok X Y bad st u"
    and "even (u - k) \<Longrightarrow> r \<le> k \<Longrightarrow> k < u \<Longrightarrow> inside X Y st k"
    and "even (u - k) \<Longrightarrow> u < k \<Longrightarrow> beyond X Y st k"
  using assms unfolding row_ok_def by blast+

lemma row_ok_kept:
  assumes "search_ok X Y" "arrays_ok st" "row_ok X Y st r u bad" "\<And>k. even (u - k) \<Longrightarrow> kept st s k"
  shows "row_ok X Y s r u bad"
  unfolding row_ok_def
proof (intro conjI allI impI)
  show "- 1 \<le> u" "u \<le> seq_length X + 1" using row_okD(1,2) [OF assms(3)] .
  show "last_ok X Y bad s u" using kept_last_ok [OF _ row_okD(3) [OF assms(3)]] assms(4) by simp
  show "inside X Y s k" if "even (u - k) \<and> r \<le> k \<and> k < u" for k
    using kept_inside [OF assms(4) row_okD(4) [OF assms(3)]] that by simp
  show "beyond X Y s k" if "even (u - k) \<and> u < k" for k
    using kept_beyond [OF assms(1,2) assms(4) row_okD(5) [OF assms(3)]] row_okD(1) [OF assms(3)] that by simp
qed

lemma last_ok_mono: "last_ok X Y bad st u \<Longrightarrow> (bad \<Longrightarrow> bad') \<Longrightarrow> last_ok X Y bad' st u"
  unfolding last_ok_def by blast

lemma row_ok_mono: "row_ok X Y st r u bad \<Longrightarrow> r \<le> r' \<Longrightarrow> (bad \<Longrightarrow> bad') \<Longrightarrow> row_ok X Y st r' u bad'"
  using last_ok_mono [of X Y bad st u bad'] unfolding row_ok_def by (meson order_trans)

text \<open>
  The entry a diagonal reads above itself, and the one to its left, when it lies in the range of
  the row that is read.
\<close>

lemma row_top:
  assumes "row_ok X Y s r u bad" "even (u - (k + 1))" "r \<le> k + 1" "k + 1 \<le> u" "0 < seq_length X"
  shows "\<exists>a. mv s (k + 1) = Some a \<and> 0 \<le> a \<and> a \<le> seq_length X \<and>
    (good_at X Y (k + 1) a (mp s (k + 1)) \<or> a \<le> k - 1)"
proof (cases "k + 1 = u")
  case True
  then show ?thesis using row_okD(3) [OF assms(1)] by (auto simp: last_ok_def)
next
  case False
  then have "inside X Y s (k + 1)" using assms(2-4) by (intro row_okD(4) [OF assms(1)]) auto
  then show ?thesis by (auto simp: inside_def dest: good_atD)
qed

lemma reaches_kept: "reaches st lo k s \<Longrightarrow> odd (u - lo) \<Longrightarrow> even (u - i) \<Longrightarrow> kept st s i"
  unfolding reaches_def by (metis even_diff odd_even_add even_add)

lemma reaches_inside:
  "reaches st lo k s \<Longrightarrow> odd (j - lo) \<Longrightarrow> inside X Y st j \<Longrightarrow> inside X Y s j"
  unfolding reaches_def using kept_inside by blast

definition in_reach :: "myers_state \<Rightarrow> int \<Rightarrow> int \<Rightarrow> bool" where
  "in_reach st lo up \<longleftrightarrow>
     (\<forall>j. lo \<le> j \<and> j \<le> up \<and> even (j - lo) \<longrightarrow> half_index j < 2 * half_length st j)"

lemma in_reachD:
  assumes "in_reach st lo up" "lo \<le> j" "j \<le> up" "even (j - lo)" "reaches st lo j s"
  shows "half_index j < 2 * half_length s j"
proof -
  have "half_index j < 2 * half_length st j" using assms(1-4) by (simp add: in_reach_def)
  moreover have "half_length st j \<le> half_length s j" using assms(5) grownD by (simp add: reaches_def)
  ultimately show ?thesis by simp
qed

text \<open>A diagonal inside the range of the row that is read.\<close>

lemma inner_step:
  assumes ok: "search_ok X Y" "arrays_ok st" "row_ok X Y st r u bad" "odd (u - lo)" "in_reach st lo up"
    and k: "even (k - lo)" "lo < k" "k \<le> up" "k < u" "r \<le> k + 1" "k \<le> seq_length X"
    and s: "reaches st lo k s" and left: "inside X Y s (k - 1)"
  obtains l a where "mv s (k - 1) = Some l" "mv st (k + 1) = Some a"
    and "if k \<noteq> up \<and> bottom Y st (k + 1) then myers_diagonal X Y lo up k s = (s, False)
      else advanced X Y lo up k s (max k (min (max (if k = up then - 1 else a) (l + 1)) (seq_length X)))"
proof -
  have u: "even (u - (k + 1))" using ok(4) k(1) by presburger
  note kept = reaches_kept [OF s ok(4)]
  have rs: "row_ok X Y s r u bad" by (rule row_ok_kept [OF ok(1-3)]) (rule kept)
  obtain l where l: "mv s (k - 1) = Some l" "good_at X Y (k - 1) l (mp s (k - 1))" "k - 1 \<le> l"
    using left by (auto simp: inside_def)
  obtain a where a: "mv st (k + 1) = Some a"
    using row_top [OF ok(3) u] k ok(1) by (auto simp: search_ok_def)
  then have as: "mv s (k + 1) = Some a" using kept [OF u] kept_Some by blast
  then have top: "mv s (k + 1) = Some a \<and> 0 \<le> a \<and> a \<le> seq_length X \<and>
      (good_at X Y (k + 1) a (mp s (k + 1)) \<or> a \<le> k - 1)"
    using row_top [OF rs u] k ok(1) by (auto simp: search_ok_def)
  have "arrays_ok s" using s by (simp add: reaches_def)
  moreover have "half_index k < 2 * half_length s k" using k s by (intro in_reachD [OF ok(5)]) auto
  moreover have "bottom Y s (k + 1) \<longleftrightarrow> bottom Y st (k + 1)" using a as by (simp add: bottom_def)
  moreover have "k \<noteq> lo" using k(2) by simp
  ultimately show ?thesis
    using that [OF l(1) a] diagonal_inner [OF ok(1) _ _ _ k(6) l(1-3) top] by simp
qed

lemma advanced_inside:
  assumes "advanced X Y lo up k s x" "kept (fst (myers_diagonal X Y lo up k s)) st' k" "k \<le> x"
  shows "\<exists>x'. mv st' k = Some x' \<and> x \<le> x' \<and> good_at X Y k x' (mp st' k)" "inside X Y st' k"
  using assms by (fastforce simp: advanced_def inside_def kept_def)+

lemma round_traceD:
  assumes "round_trace X Y lo up k st st' None"
  shows "arrays_ok st'" "grown st st'"
    and "odd (j - k) \<or> j < k \<or> up < j \<Longrightarrow> kept st st' j"
    and "even (j - k) \<Longrightarrow> k \<le> j \<Longrightarrow> j \<le> up \<Longrightarrow>
      \<exists>s. reaches st k j s \<and> kept (fst (myers_diagonal X Y lo up j s)) st' j \<and>
        \<not> snd (myers_diagonal X Y lo up j s)"
    and "k < 0 \<Longrightarrow> k < up \<Longrightarrow> mv st' (k + 1) \<noteq> None"
  using assms unfolding round_trace_def by auto

text \<open>
  The effect of a round on such a diagonal: it is written and gets at least as far as its two
  neighbours allow, or it is passed over because the entry above it is at the bottom.
\<close>

definition step_bound :: "'e isequence \<Rightarrow> myers_state \<Rightarrow> int \<Rightarrow> int \<Rightarrow> int" where
  "step_bound X st up k = max k (min (max (if k = up then - 1 else the (mv st (k + 1))) (the (mv st (k - 1)) + 1))
     (seq_length X))"

lemma round_inner:
  assumes ok: "search_ok X Y" "arrays_ok st" "row_ok X Y st r u bad" "odd (u - lo)" "in_reach st lo up"
    and tr: "round_trace X Y lo up lo st st' None"
    and k: "even (k - lo)" "lo < k" "k \<le> up" "k < u" "r \<le> k + 1" "k \<le> seq_length X"
    and left: "\<And>s. reaches st lo k s \<Longrightarrow> inside X Y s (k - 1)"
  shows "k \<noteq> up \<and> bottom Y st (k + 1) \<and> kept st st' k \<or>
    inside X Y st' k \<and> (mv st (k - 1) \<noteq> None \<longrightarrow>
       (\<exists>x'. mv st' k = Some x' \<and> step_bound X st up k \<le> x' \<and> good_at X Y k x' (mp st' k)))"
proof -
  obtain s where s: "reaches st lo k s" "kept (fst (myers_diagonal X Y lo up k s)) st' k"
    using round_traceD(4) [OF tr k(1)] k by auto
  obtain l a where la: "mv s (k - 1) = Some l" "mv st (k + 1) = Some a"
    and step: "if k \<noteq> up \<and> bottom Y st (k + 1) then myers_diagonal X Y lo up k s = (s, False)
      else advanced X Y lo up k s (max k (min (max (if k = up then - 1 else a) (l + 1)) (seq_length X)))"
    by (rule inner_step [OF ok k s(1) left [OF s(1)]])
  show ?thesis
  proof (cases "k \<noteq> up \<and> bottom Y st (k + 1)")
    case True
    then have "kept s st' k" using step s(2) by simp
    moreover have "kept st s k" using s(1) by (simp add: reaches_def)
    ultimately show ?thesis using True kept_trans by blast
  next
    case False
    note adv = step [unfolded if_not_P [OF False]]
    have "odd (k - 1 - lo)" using k(1) by presburger
    then have "kept st s (k - 1)" using s(1) by (simp add: reaches_def)
    then have l: "mv st (k - 1) = Some l" if "mv st (k - 1) \<noteq> None"
      using that la(1) kept_Some by fastforce
    have "\<exists>x'. mv st' k = Some x' \<and> step_bound X st up k \<le> x' \<and> good_at X Y k x' (mp st' k)"
      if "mv st (k - 1) \<noteq> None"
    proof -
      have "advanced X Y lo up k s (step_bound X st up k)"
        using adv by (simp only: step_bound_def la(2) l [OF that] option.sel)
      from advanced_inside(1) [OF this s(2)] show ?thesis by (simp add: step_bound_def)
    qed
    moreover have "inside X Y st' k" by (rule advanced_inside(2) [OF adv s(2)]) simp
    ultimately show ?thesis by blast
  qed
qed

text \<open>The first diagonal of a round, in case the entry it reads is inside the grid.\<close>

lemma round_first:
  assumes ok: "search_ok X Y" "in_reach st lo up" "lo < up" "inside X Y st (lo + 1)"
    and tr: "round_trace X Y lo up lo st st' None"
  shows "if bottom Y st (lo + 1) then kept st st' lo else inside X Y st' lo"
proof -
  obtain s where s: "reaches st lo lo s" "kept (fst (myers_diagonal X Y lo up lo s)) st' lo"
    using round_traceD(4) [OF tr, of lo] ok(3) by auto
  have kept: "kept st s lo" "kept st s (lo + 1)" using s(1) by (simp_all add: reaches_def)
  obtain a where a: "mv s (lo + 1) = Some a" "good_at X Y (lo + 1) a (mp s (lo + 1))" "lo + 1 \<le> a"
    "mv st (lo + 1) = Some a"
    using ok(4) kept(2) by (auto simp: inside_def kept_def)
  have "arrays_ok s" using s(1) by (simp add: reaches_def)
  moreover have "half_index lo < 2 * half_length s lo" using ok(3) s by (intro in_reachD [OF ok(2)]) auto
  ultimately have "if bottom Y s (lo + 1) then myers_diagonal X Y lo up lo s = (s, False)
      else advanced X Y lo up lo s a"
    using ok(3) by (intro diagonal_first [OF ok(1) _ _ _ a(1,2)]) auto
  moreover have "bottom Y s (lo + 1) \<longleftrightarrow> bottom Y st (lo + 1)" using a(1,4) by (simp add: bottom_def)
  ultimately show ?thesis
    using advanced_inside(2) [OF _ s(2), of a] a(3) s(2) kept_trans [OF kept(1)]
    by (auto split: if_splits)
qed

text \<open>The last diagonal of a round.\<close>

lemma last_step:
  assumes ok: "search_ok X Y" "arrays_ok st" "row_ok X Y st r u bad" "odd (u - lo)" "in_reach st lo up"
    and u': "even (u' - lo)" "lo < u'" "u' \<le> up" "0 \<le> u'" "u' \<le> seq_length X + 1" "r < u'"
      "u' = u + 1 \<or> u' = u - 1 \<and> seq_length X \<le> u"
    and bad: "bad \<Longrightarrow> bad'" "u' = u + 1 \<Longrightarrow> u' \<noteq> up \<Longrightarrow> bad'"
    and s: "reaches st lo u' s"
  shows "last_ok X Y bad' (fst (myers_diagonal X Y lo up u' s)) u' \<and>
    (snd (myers_diagonal X Y lo up u' s) \<longrightarrow> good X Y (fst (myers_diagonal X Y lo up u' s)) u') \<and>
    (u' = u + 1 \<and> bottom Y (fst (myers_diagonal X Y lo up u' s)) u' \<and> \<not> snd (myers_diagonal X Y lo up u' s) \<longrightarrow>
      inside X Y st u)"
  using u'(7)
proof (elim disjE conjE)
  assume next_u: "u' = u + 1"
  have kept: "kept st s i" if "even (u - i)" for i by (rule reaches_kept [OF s ok(4) that])
  have "row_ok X Y s r u bad" by (rule row_ok_kept [OF ok(1-3) kept])
  then have rs: "row_ok X Y s r u bad'" using bad(1) row_ok_mono by blast
  obtain l where l: "mv s (u' - 1) = Some l" "0 \<le> l" "l \<le> seq_length X"
      "good_at X Y (u' - 1) l (mp s (u' - 1)) \<and> (u' - 1 \<le> l \<or> l = seq_length X) \<or> bad' \<and> l \<le> u' - 3"
    using row_okD(3) [OF rs] next_u by (auto simp: last_ok_def)
  have "mv st u \<noteq> None" using row_okD(3) [OF ok(3)] by (auto simp: last_ok_def)
  then have "inside X Y s u \<Longrightarrow> inside X Y st u" using kept [of u] by (auto simp: inside_def kept_def)
  moreover have "beyond X Y s (u' + 1)" using next_u by (intro row_okD(5) [OF rs]) auto
  moreover have "arrays_ok s" using s by (simp add: reaches_def)
  moreover have "half_index u' < 2 * half_length s u'" using u' s by (intro in_reachD [OF ok(5)]) auto
  ultimately show ?thesis
    using u'(2) bad(2) next_u diagonal_last [OF ok(1) _ _ _ u'(4,5) l, of lo up] by auto
next
  assume prev_u: "u' = u - 1" "seq_length X \<le> u"
  have kept: "kept st s i" if "even (u - i)" for i by (rule reaches_kept [OF s ok(4) that])
  have "inside X Y st (u' - 1)" using prev_u u'(6) by (intro row_okD(4) [OF ok(3)]) auto
  then have left: "inside X Y s (u' - 1)" using prev_u by (intro kept_inside [OF kept]) auto
  have "u' \<le> seq_length X" using row_okD(2) [OF ok(3)] prev_u by simp
  then obtain l a where la: "mv s (u' - 1) = Some l" "mv st (u' + 1) = Some a"
    and step: "if u' \<noteq> up \<and> bottom Y st (u' + 1) then myers_diagonal X Y lo up u' s = (s, False)
      else advanced X Y lo up u' s (max u' (min (max (if u' = up then - 1 else a) (l + 1)) (seq_length X)))"
    using inner_step [OF ok u'(1-3) _ _ _ s left] prev_u u'(6) by auto
  have "a \<le> seq_length X" using row_okD(3) [OF ok(3)] la(2) prev_u by (auto simp: last_ok_def)
  then have "\<not> (u' \<noteq> up \<and> bottom Y st (u' + 1))"
    using la(2) prev_u ok(1) by (auto simp: bottom_def search_ok_def)
  from step [unfolded if_not_P [OF this]] show ?thesis
    using prev_u(1) by (auto simp: advanced_def last_ok_def good_def dest: good_atD)
qed

text \<open>A diagonal below one that is at the bottom is passed over.\<close>

lemma round_skip:
  assumes "bottom Y st (k + 1)" "seq_length Y + (k + 1) \<le> seq_length X" "k < up" "lo < k" "even (k - lo)"
    and tr: "round_trace X Y lo up lo st st' None"
    and left: "\<And>s. reaches st lo k s \<Longrightarrow> mv s (k - 1) \<noteq> None"
  shows "kept st st' k"
proof -
  obtain s where s: "reaches st lo k s" "kept (fst (myers_diagonal X Y lo up k s)) st' k"
    using round_traceD(4) [OF tr assms(5)] assms(3,4) by auto
  have "odd (k + 1 - lo)" using assms(5) by presburger
  then have "kept st s (k + 1)" "kept st s k" using s(1) by (simp_all add: reaches_def)
  then have "bottom Y s (k + 1)" using kept_bottom assms(1) by blast
  then have "top_of s up k = Some (seq_length Y + (k + 1))" using assms(3) by (simp add: top_of_def bottom_def)
  moreover obtain l where "left_of s lo k = Some l" using left [OF s(1)] assms(4) by (auto simp: left_of_def)
  ultimately have "myers_diagonal X Y lo up k s = (s, False)"
    using assms(2) by (intro diagonal_skip) auto
  then show ?thesis using s(2) \<open>kept st s k\<close> kept_trans by auto
qed

text \<open>The last diagonal of a round when it is the upper bound.\<close>

lemma round_edge:
  assumes ok: "search_ok X Y" "in_reach st lo up" "even (up - lo)" "lo < up" "up \<le> seq_length X"
    and left: "inside X Y st (up - 1)" "mv st (up - 1) = Some l"
    and tr: "round_trace X Y lo up lo st st' None"
  shows "inside X Y st' up" "\<exists>x'. mv st' up = Some x' \<and> min (l + 1) (seq_length X) \<le> x' \<and> good_at X Y up x' (mp st' up)"
proof -
  obtain s where s: "reaches st lo up s" "kept (fst (myers_diagonal X Y lo up up s)) st' up"
    using round_traceD(4) [OF tr ok(3)] ok(4) by auto
  have "odd (up - 1 - lo)" using ok(3) by presburger
  then have "kept st s (up - 1)" using s(1) by (simp add: reaches_def)
  then have l: "mv s (up - 1) = Some l" "good_at X Y (up - 1) l (mp s (up - 1))" "up - 1 \<le> l"
    using kept_inside [OF _ left(1)] left(2) kept_Some by (fastforce simp: inside_def)+
  have "arrays_ok s" using s(1) by (simp add: reaches_def)
  moreover have "half_index up < 2 * half_length s up" using ok(3,4) s by (intro in_reachD [OF ok(2)]) auto
  ultimately have adv: "advanced X Y lo up up s (max up (min (max (- 1) (l + 1)) (seq_length X)))"
    using diagonal_inner [OF ok(1), of s up lo l up 0] ok(4,5) l by simp
  show "inside X Y st' up" by (rule advanced_inside(2) [OF adv s(2)]) simp
  show "\<exists>x'. mv st' up = Some x' \<and> min (l + 1) (seq_length X) \<le> x' \<and> good_at X Y up x' (mp st' up)"
    using advanced_inside(1) [OF adv s(2)] good_atD(1) [OF l(2)] by auto
qed

end
