(* ===== verification/MyersInvariant.thy ===== *)
theory MyersInvariant
  imports MyersRounds
begin

section \<open>The invariant of \<open>MyersDiffAlgorithm\<close>\<close>

subsection \<open>Which diagonals a round visits\<close>

text \<open>
  The bounds of the loop over the diagonals are cut off at the two sequence lengths. When the
  second sequence has an odd length \<open>M\<close>, the lower bound changes its parity in round \<open>M + 1\<close>: that
  round visits the diagonals of round \<open>M\<close> again, and from then on the parity is the other one.
  \<open>last_diag\<close> is the last diagonal a round visits. It is the upper bound, or one less, and in the
  latter case the entry above it is read though no round may have written it.
\<close>

definition flipped :: "int \<Rightarrow> int \<Rightarrow> bool" where
  "flipped M d \<longleftrightarrow> odd M \<and> M < d"

definition last_diag :: "int \<Rightarrow> int \<Rightarrow> int \<Rightarrow> int" where
  "last_diag N M d =
     (if d \<le> N then (if flipped M d then d - 1 else d)
      else if flipped M d \<longleftrightarrow> odd N then N + d mod 2 else N - 1 + d mod 2)"

definition spoils :: "int \<Rightarrow> int \<Rightarrow> int \<Rightarrow> bool" where
  "spoils N M d \<longleftrightarrow> flipped M d \<or> odd N"

definition row_read :: "int \<Rightarrow> int \<Rightarrow> int \<Rightarrow> int" where
  "row_read N M d = (if d = 0 then - 1 else last_diag N M (if odd M \<and> d = M + 1 then M - 1 else d - 1))"

text \<open>
  After \<open>d\<close> rounds: the row that the next round reads, and the one it overwrites, by their last
  diagonals, and whether these may be spoilt.
\<close>

definition src_row :: "int \<Rightarrow> int \<Rightarrow> int \<Rightarrow> int" where
  "src_row N M d = (if odd M \<and> d = M then row_read N M d else last_diag N M d)"

definition old_row :: "int \<Rightarrow> int \<Rightarrow> int \<Rightarrow> int" where
  "old_row N M d = (if odd M \<and> d = M then last_diag N M d else row_read N M d)"

abbreviation "lo_diag Y d \<equiv> myers_lowerBound Y d"
abbreviation "up_diag X d \<equiv> myers_upperBound X d"

lemma lo_diag: "0 < seq_length Y \<Longrightarrow> 0 \<le> d \<Longrightarrow>
    lo_diag Y d = (if d \<le> seq_length Y then - d else - seq_length Y - d mod 2)"
  unfolding myers_lowerBound_def by presburger

lemma up_diag: "0 < seq_length X \<Longrightarrow> 0 \<le> d \<Longrightarrow>
    up_diag X d = (if d \<le> seq_length X then d else seq_length X + d mod 2)"
  unfolding myers_upperBound_def by presburger

text \<open>\<open>last_diag\<close> with the parities as arguments, so that the case distinctions stay linear.\<close>

definition last_diag_cases :: "int \<Rightarrow> bool \<Rightarrow> bool \<Rightarrow> int \<Rightarrow> bool \<Rightarrow> int" where
  "last_diag_cases N oddN fl d oddd =
     (if d \<le> N then (if fl then d - 1 else d)
      else if fl \<longleftrightarrow> oddN then N + (if oddd then 1 else 0) else N - 1 + (if oddd then 1 else 0))"

lemma last_diag_cases: "last_diag N M d = last_diag_cases N (odd N) (flipped M d) d (odd d)"
proof -
  have "d mod 2 = (if odd d then 1 else 0)" by presburger
  then show ?thesis unfolding last_diag_def last_diag_cases_def by simp
qed

lemma parity_mod: "d mod 2 = (if odd d then 1 else (0 :: int))"
  by presburger

lemma last_diag_parity:
  "even (last_diag N M d - (if d \<le> M then - d else - M - d mod 2))"
  by (cases "odd d"; cases "odd N"; cases "d \<le> M"; cases "odd M"; cases "d \<le> N")
    (simp_all add: last_diag_cases last_diag_cases_def parity_mod flipped_def)

lemma last_diag_up:
  "0 < N \<Longrightarrow> 0 < M \<Longrightarrow> 0 \<le> d \<Longrightarrow> last_diag N M d \<le> (if d \<le> N then d else N + d mod 2)"
  "0 < N \<Longrightarrow> 0 < M \<Longrightarrow> 0 \<le> d \<Longrightarrow> (if d \<le> N then d else N + d mod 2) \<le> last_diag N M d + 1"
  by (simp_all add: last_diag_def)

lemma last_diag_cases_next:
  "(d = N \<Longrightarrow> oddd = oddN) \<Longrightarrow>
   last_diag_cases N oddN fl (d + 1) (\<not> oddd) = last_diag_cases N oddN fl d oddd + 1 \<or>
   last_diag_cases N oddN fl (d + 1) (\<not> oddd) = last_diag_cases N oddN fl d oddd - 1 \<and>
     N \<le> last_diag_cases N oddN fl d oddd"
  by (cases d N rule: linorder_cases; cases oddd; cases oddN; cases fl) (simp_all add: last_diag_cases_def)

lemma last_diag_cases_turn:
  "(M = N \<Longrightarrow> oddN) \<Longrightarrow> (M = N + 1 \<Longrightarrow> \<not> oddN) \<Longrightarrow>
   last_diag_cases N oddN True (M + 1) False = last_diag_cases N oddN False (M - 1) False + 1 \<or>
   last_diag_cases N oddN True (M + 1) False = last_diag_cases N oddN False (M - 1) False - 1 \<and>
     N \<le> last_diag_cases N oddN False (M - 1) False"
  by (cases M N rule: linorder_cases; cases "M = N + 1"; cases oddN) (auto simp: last_diag_cases_def)

lemma last_diag_next:
  assumes "\<not> (odd M \<and> d = M)"
  shows "last_diag N M (d + 1) = last_diag N M d + 1 \<or>
    last_diag N M (d + 1) = last_diag N M d - 1 \<and> N \<le> last_diag N M d"
proof -
  have "flipped M (d + 1) \<longleftrightarrow> flipped M d" using assms by (auto simp: flipped_def)
  moreover have "odd (d + 1) \<longleftrightarrow> \<not> odd d" by simp
  ultimately show ?thesis
    using last_diag_cases_next [of d N "odd d" "odd N" "flipped M d"] by (simp add: last_diag_cases)
qed

lemma last_diag_turn:
  assumes "odd M"
  shows "last_diag N M (M + 1) = last_diag N M (M - 1) + 1 \<or>
    last_diag N M (M + 1) = last_diag N M (M - 1) - 1 \<and> N \<le> last_diag N M (M - 1)"
proof -
  have "M = N \<Longrightarrow> odd N" "M = N + 1 \<Longrightarrow> \<not> odd N" using assms by auto
  then show ?thesis
    using last_diag_cases_turn [of M N "odd N"] assms by (simp add: last_diag_cases flipped_def)
qed

lemma src_row_step:
  assumes "0 < N" "0 < M" "0 \<le> d"
  shows "last_diag N M (d + 1) = src_row N M d + 1 \<or>
    last_diag N M (d + 1) = src_row N M d - 1 \<and> N \<le> src_row N M d"
  using last_diag_next [of M d N] last_diag_turn [of M N] assms
  by (auto simp: src_row_def row_read_def)

lemma last_diag_range:
  assumes "0 < N" "0 < M" "0 \<le> d"
  shows "0 \<le> last_diag N M d" "last_diag N M d \<le> N + 1"
proof -
  have "d mod 2 = 0 \<or> d mod 2 = 1" by presburger
  then show "0 \<le> last_diag N M d" "last_diag N M d \<le> N + 1"
    using assms by (auto simp: last_diag_def flipped_def)
qed

lemma row_read_next: "0 \<le> d \<Longrightarrow> 0 < M \<Longrightarrow> row_read N M (d + 1) = src_row N M d"
  by (auto simp: row_read_def src_row_def)

lemma src_old_rows:
  assumes "0 < N" "0 < M" "0 \<le> d"
  shows "src_row N M d = old_row N M d + 1 \<or> src_row N M d = old_row N M d - 1"
proof (cases "d = 0")
  case True
  then show ?thesis using assms by (auto simp: src_row_def old_row_def row_read_def last_diag_def flipped_def)
next
  case False
  then have "last_diag N M d = src_row N M (d - 1) + 1 \<or> last_diag N M d = src_row N M (d - 1) - 1"
      "row_read N M d = src_row N M (d - 1)"
    using src_row_step [of N M "d - 1"] row_read_next [of "d - 1" M N] assms by auto
  then show ?thesis by (auto simp: src_row_def old_row_def)
qed

lemma last_diag_cases_mono:
  "(d - 1 = N \<Longrightarrow> oddd = oddN) \<Longrightarrow> last_diag_cases N oddN fl (d - 1) oddd \<le> last_diag_cases N oddN fl (d + 1) oddd"
  "last_diag_cases N oddN False (M - 1) False \<le> last_diag_cases N oddN True (M + 2) True"
  by (cases "d - 1" N rule: linorder_cases; simp add: last_diag_cases_def)
    (simp add: last_diag_cases_def)

lemma old_row_le:
  assumes "0 < N" "0 < M" "0 \<le> d"
  shows "old_row N M d \<le> last_diag N M (d + 1) \<or> odd M \<and> d = M \<and> even N \<and> old_row N M d = N + 1"
proof (cases "odd M \<and> d = M")
  case True
  have "d mod 2 = 1" "(d + 1) mod 2 = 0" "d \<le> N \<Longrightarrow> even N \<Longrightarrow> d + 1 \<le> N" using True by presburger+
  then show ?thesis
    using True by (auto simp: old_row_def last_diag_def flipped_def)
next
  case not_turn: False
  then have old: "old_row N M d = row_read N M d" by (auto simp: old_row_def)
  consider "d = 0" | "odd M" "d = M + 1" | "d \<noteq> 0" "\<not> (odd M \<and> d = M + 1)" by blast
  then show ?thesis
  proof cases
    case 1
    then show ?thesis using last_diag_range(1) [of N M 1] assms old by (simp add: row_read_def)
  next
    case 2
    then show ?thesis
      using last_diag_cases_mono(2) [of N "odd N" M] assms old
      by (simp add: row_read_def last_diag_cases flipped_def add.commute)
  next
    case 3
    then have "flipped M (d - 1) \<longleftrightarrow> flipped M (d + 1)" using not_turn by (auto simp: flipped_def)
    moreover have "d - 1 = N \<Longrightarrow> odd (d + 1) = odd N" by presburger
    ultimately show ?thesis
      using last_diag_cases_mono(1) [of d N "odd (d + 1)" "odd N" "flipped M (d + 1)"] 3 assms old
      by (auto simp: row_read_def last_diag_cases)
  qed
qed

lemma not_spoils_up:
  "0 < N \<Longrightarrow> 0 < M \<Longrightarrow> \<not> spoils N M d \<Longrightarrow> last_diag N M d = (if d \<le> N then d else N + d mod 2)"
  by (simp add: spoils_def last_diag_def)

lemma spoils_mono: "spoils N M d \<Longrightarrow> spoils N M (d + 1)"
  by (auto simp: spoils_def flipped_def)

subsection \<open>The rows\<close>

definition rows_ok :: "'e isequence \<Rightarrow> 'e isequence \<Rightarrow> myers_state \<Rightarrow> int \<Rightarrow> int \<Rightarrow> bool" where
  "rows_ok X Y st r d \<longleftrightarrow>
     row_ok X Y st r (src_row (seq_length X) (seq_length Y) d) (spoils (seq_length X) (seq_length Y) d) \<and>
     row_ok X Y st r (old_row (seq_length X) (seq_length Y) d) (spoils (seq_length X) (seq_length Y) d) \<and>
     (src_row (seq_length X) (seq_length Y) d = old_row (seq_length X) (seq_length Y) d + 1 \<longrightarrow>
        bottom Y st (src_row (seq_length X) (seq_length Y) d) \<longrightarrow>
        inside X Y st (old_row (seq_length X) (seq_length Y) d))"

definition one_round :: "'e isequence \<Rightarrow> 'e isequence \<Rightarrow> int \<Rightarrow> myers_state \<Rightarrow> myers_state \<Rightarrow> int option \<Rightarrow> bool" where
  "one_round X Y d st st' r \<longleftrightarrow> in_reach st (lo_diag Y (d + 1)) (up_diag X (d + 1)) \<and>
     round_trace X Y (lo_diag Y (d + 1)) (up_diag X (d + 1)) (lo_diag Y (d + 1)) st st' r"

text \<open>The numbers of a round, collected.\<close>

lemma round_numbers:
  assumes "search_ok X Y" "0 \<le> d"
    and u: "u = src_row (seq_length X) (seq_length Y) d"
    and u': "u' = last_diag (seq_length X) (seq_length Y) (d + 1)"
    and u1: "u1 = old_row (seq_length X) (seq_length Y) d"
    and lo: "lo = lo_diag Y (d + 1)" and up: "up = up_diag X (d + 1)"
  shows "odd (u - lo)" "even (u' - lo)" "even (u1 - lo)" "lo < 0" "0 \<le> u'" "u' \<le> up" "up \<le> u' + 1"
    "u' \<le> seq_length X + 1" "u' = u + 1 \<or> u' = u - 1 \<and> seq_length X \<le> u"
    "u1 = u + 1 \<or> u1 = u - 1"
    "u1 \<le> u' \<or> u1 = seq_length X + 1 \<and> \<not> spoils (seq_length X) (seq_length Y) d \<and> u1 = u' + 2"
    "u' \<noteq> up \<Longrightarrow> spoils (seq_length X) (seq_length Y) (d + 1)"
proof -
  have pos: "0 < seq_length X" "0 < seq_length Y" "0 \<le> d + 1" using assms(1,2) by (simp_all add: search_ok_def)
  have lo_eq: "lo = (if d + 1 \<le> seq_length Y then - (d + 1) else - seq_length Y - (d + 1) mod 2)"
    using lo_diag [OF pos(2,3)] lo by simp
  have up_eq: "up = (if d + 1 \<le> seq_length X then d + 1 else seq_length X + (d + 1) mod 2)"
    using up_diag [OF pos(1,3)] up by simp
  show e: "even (u' - lo)" using last_diag_parity by (simp only: lo_eq u')
  show step: "u' = u + 1 \<or> u' = u - 1 \<and> seq_length X \<le> u"
    using src_row_step [OF pos(1,2) assms(2)] by (simp add: u u')
  show so: "u1 = u + 1 \<or> u1 = u - 1"
    using src_old_rows [OF pos(1,2) assms(2)] by (auto simp: u u1)
  show "odd (u - lo)" using e step by presburger
  then show "even (u1 - lo)" using so by presburger
  define m where "m = (d + 1) mod 2"
  have "0 \<le> m" by (simp add: m_def)
  then show "lo < 0" using pos assms(2) lo_eq unfolding m_def [symmetric] by (simp split: if_splits)
  show "0 \<le> u'" "u' \<le> seq_length X + 1" using last_diag_range [OF pos] by (simp_all add: u')
  show "u' \<le> up" "up \<le> u' + 1" using last_diag_up [OF pos] by (simp_all add: u' up_eq)
  show "u' \<noteq> up \<Longrightarrow> spoils (seq_length X) (seq_length Y) (d + 1)"
    using not_spoils_up [OF pos(1,2), of "d + 1"] by (auto simp: u' up_eq)
  have "u1 \<le> u' \<or> odd (seq_length Y) \<and> d = seq_length Y \<and> even (seq_length X) \<and> u1 = seq_length X + 1"
    using old_row_le [OF pos(1,2) assms(2)] by (simp add: u1 u')
  then show "u1 \<le> u' \<or> u1 = seq_length X + 1 \<and> \<not> spoils (seq_length X) (seq_length Y) d \<and> u1 = u' + 2"
    using so step by (auto simp: spoils_def flipped_def)
qed

text \<open>A round preserves the row it reads, and the row it writes is in order one diagonal further up.\<close>

lemma rows_round:
  assumes ok: "search_ok X Y" "arrays_ok st" "0 \<le> d" "rows_ok X Y st r d" "one_round X Y d st st' None"
    and u: "u = src_row (seq_length X) (seq_length Y) d"
    and u': "u' = last_diag (seq_length X) (seq_length Y) (d + 1)"
    and lo: "lo_diag Y (d + 1) \<le> r" and r: "r < u'"
    and bad: "bad = spoils (seq_length X) (seq_length Y) (d + 1)"
  shows "row_ok X Y st' r u bad" "row_ok X Y st' (r + 1) u' bad"
    "u' = u + 1 \<Longrightarrow> bottom Y st' u' \<Longrightarrow> inside X Y st' u"
proof -
  define lo up u1 where "lo = lo_diag Y (d + 1)" and "up = up_diag X (d + 1)"
    and "u1 = old_row (seq_length X) (seq_length Y) d"
  note n = round_numbers [OF ok(1,3) u u' u1_def lo_def up_def]
  have tr: "round_trace X Y lo up lo st st' None" and reach: "in_reach st lo up"
    using ok(5) by (simp_all add: one_round_def lo_def up_def)
  define bad0 where "bad0 = spoils (seq_length X) (seq_length Y) d"
  have bad0: "bad0 \<Longrightarrow> bad" using spoils_mono by (simp add: bad bad0_def)
  have src: "row_ok X Y st r u bad0" and old: "row_ok X Y st r u1 bad0"
    and link: "u = u1 + 1 \<Longrightarrow> bottom Y st u \<Longrightarrow> inside X Y st u1"
    using ok(4) by (simp_all add: rows_ok_def u u1_def bad0_def)
  have read_kept: "kept st st' k" if "even (u - k)" for k
  proof -
    have "odd (k - lo)" using that n(1) by presburger
    then show ?thesis using round_traceD(3) [OF tr] by blast
  qed
  show "row_ok X Y st' r u bad"
    by (rule row_ok_mono [OF row_ok_kept [OF ok(1,2) src read_kept] order_refl bad0])
  obtain s where s: "reaches st lo u' s" "kept (fst (myers_diagonal X Y lo up u' s)) st' u'"
      "\<not> snd (myers_diagonal X Y lo up u' s)"
    using round_traceD(4) [OF tr n(2)] n(4,5,6) by auto
  have last: "last_ok X Y bad (fst (myers_diagonal X Y lo up u' s)) u' \<and>
    (u' = u + 1 \<and> bottom Y (fst (myers_diagonal X Y lo up u' s)) u' \<longrightarrow> inside X Y st u)"
    using last_step [OF ok(1,2) src n(1) reach n(2) _ n(6,5,8) r n(9) bad0 _ s(1)] n(4,5,12) s(3)
    by (auto simp: bad)
  then have last': "last_ok X Y bad st' u'" using kept_last_ok [OF s(2)] by blast
  show "inside X Y st' u" if "u' = u + 1" "bottom Y st' u'"
  proof -
    have "bottom Y (fst (myers_diagonal X Y lo up u' s)) u'"
      using that(2) s(2) last by (auto simp: bottom_def kept_def last_ok_def)
    then show ?thesis using last that(1) kept_inside [OF read_kept] by auto
  qed
  have inner: "inside X Y st' k" if k: "even (u' - k)" "r + 1 \<le> k" "k < u'" for k
  proof -
    have par: "even (k - lo)" "even (u - (k - 1))" "even (u1 - k)" using k(1) n(1,2,3) by presburger+
    have k_u: "k < u" "k \<le> u' - 2" using n(9) k(1,3) by presburger+
    have "inside X Y st (k - 1)" using row_okD(4) [OF src par(2)] k(2) k_u(1) by simp
    then have left: "inside X Y s (k - 1)" if "reaches st lo k s" for s
      using kept_inside reaches_kept [OF that n(1) par(2)] by blast
    have "k \<noteq> up \<and> bottom Y st (k + 1) \<and> kept st st' k \<or> inside X Y st' k"
      using round_inner [OF ok(1,2) src n(1) reach tr par(1) _ _ k_u(1) _ _ left] k(2) k_u n(6,8) lo
      by (auto simp: lo_def)
    moreover have "inside X Y st k" if "bottom Y st (k + 1)"
    proof (cases "k < u1")
      case True
      then show ?thesis using row_okD(4) [OF old par(3)] k(2) by simp
    next
      case False
      then have "k = u1" "u = u1 + 1" using k_u n(9,10) par(3) by presburger+
      then show ?thesis using link that by simp
    qed
    ultimately show ?thesis using kept_inside by blast
  qed
  have top: "beyond X Y st' k" if k: "even (u' - k)" "u' < k" for k
  proof -
    have par: "even (k - lo)" "even (u1 - k)" using k(1) n(2,3) by presburger+
    have "up < k" using k n(7) by presburger
    then have kept: "kept st st' k" using round_traceD(3) [OF tr] by blast
    have "beyond X Y st k"
    proof (cases "u1 < k")
      case True
      then show ?thesis using row_okD(5) [OF old par(2)] by simp
    next
      case False
      then have "u1 = u' + 2" "u1 = seq_length X + 1" "\<not> bad0" using k n(11) by (auto simp: bad0_def)
      moreover from this(1) False k have "k = u1" by presburger
      ultimately show ?thesis using row_okD(3) [OF old] by (auto simp: last_ok_def beyond_def)
    qed
    then show ?thesis using kept_beyond [OF ok(1,2) kept] k n(5) by simp
  qed
  show "row_ok X Y st' (r + 1) u' bad"
    using n(5,8) last' inner top by (simp add: row_ok_def)
qed

text \<open>So the invariant of the rows holds again, given the one diagonal that this leaves open.\<close>

lemma rows_next:
  assumes ok: "search_ok X Y" "0 \<le> d"
    and u: "u = src_row (seq_length X) (seq_length Y) d"
    and u': "u' = last_diag (seq_length X) (seq_length Y) (d + 1)"
    and bad: "bad = spoils (seq_length X) (seq_length Y) (d + 1)"
    and rows: "row_ok X Y st' r u bad" "row_ok X Y st' r u' bad"
      "u' = u + 1 \<Longrightarrow> bottom Y st' u' \<Longrightarrow> inside X Y st' u"
  shows "rows_ok X Y st' r (d + 1)"
proof -
  have Y: "0 < seq_length Y" using ok(1) by (simp add: search_ok_def)
  note read = row_read_next [OF ok(2) Y, of "seq_length X"]
  show ?thesis
  proof (cases "odd (seq_length Y) \<and> d + 1 = seq_length Y")
    case True
    then have src: "src_row (seq_length X) (seq_length Y) (d + 1) = u"
        "old_row (seq_length X) (seq_length Y) (d + 1) = u'"
      using read by (simp_all add: src_row_def old_row_def u u')
    have "\<not> bottom Y st' u" if "u = u' + 1"
    proof -
      have "seq_length X \<le> u" using src_row_step [of "seq_length X" "seq_length Y" d] ok that
        by (auto simp: u u' search_ok_def)
      then show ?thesis using row_okD(3) [OF rows(1)] Y by (auto simp: last_ok_def bottom_def)
    qed
    then show ?thesis using rows by (simp add: rows_ok_def src bad)
  next
    case False
    then have "src_row (seq_length X) (seq_length Y) (d + 1) = u'"
        "old_row (seq_length X) (seq_length Y) (d + 1) = u"
      using read by (auto simp: src_row_def old_row_def u u')
    then show ?thesis using rows by (simp add: rows_ok_def bad)
  qed
qed

lemma row_ok_lower: "row_ok X Y st (r + 1) u bad \<Longrightarrow> even (u - r) \<longrightarrow> inside X Y st r \<Longrightarrow> row_ok X Y st r u bad"
  unfolding row_ok_def by (metis add.commute le_less zless_imp_add1_zle)

end
