(* ===== verification/MyersPhases.thy ===== *)
theory MyersPhases
  imports MyersInvariant
begin

section \<open>The phases of \<open>MyersDiffAlgorithm\<close>\<close>

subsection \<open>Room in the arrays\<close>

definition low_room :: "int \<Rightarrow> int \<Rightarrow> int" where
  "low_room M d = (if d \<le> M then d - 1 else if odd M \<and> d = M + 1 then M - 1 else M)"

lemma half_length_neg: "k < 0 \<Longrightarrow> half_length st k = half_length st (- 1)"
  by (simp add: half_length_def)

lemma half_length_pos: "0 \<le> k \<Longrightarrow> half_length st k = half_length st 0"
  by (simp add: half_length_def)

lemma mv_below: "mv (st :: myers_state) u \<noteq> None \<Longrightarrow> 0 \<le> k \<Longrightarrow> k \<le> u \<Longrightarrow> mv st k \<noteq> None"
  using half_length_pos [of k st] half_length_pos [of u st] by (auto simp: mv_None half_index_def)

lemma mv_above: "mv (st :: myers_state) l \<noteq> None \<Longrightarrow> l \<le> k \<Longrightarrow> k < 0 \<Longrightarrow> mv st k \<noteq> None"
  using half_length_neg [of k st] half_length_neg [of l st] by (auto simp: mv_None half_index_def)

lemma row_defined: "row_ok X Y st r u bad \<Longrightarrow> mv st u \<noteq> None"
  by (auto simp: row_ok_def last_ok_def)

lemma in_reach_next:
  assumes "search_ok X Y" "arrays_ok st" "0 \<le> d" "rows_ok X Y st r d"
    and room: "low_room (seq_length Y) d \<le> half_length st (- 1)"
  shows "in_reach st (lo_diag Y (d + 1)) (up_diag X (d + 1))"
proof -
  define u u' where "u = src_row (seq_length X) (seq_length Y) d"
    and "u' = last_diag (seq_length X) (seq_length Y) (d + 1)"
  note n = round_numbers [OF assms(1,3) u_def u'_def refl refl refl]
  have len: "10 \<le> half_length st k" for k using assms(2) by (simp add: arrays_ok_def)
  have M: "0 < seq_length Y" "0 \<le> d + 1" using assms(1,3) by (simp_all add: search_ok_def)
  define m where "m = (d + 1) mod 2"
  have m: "m \<le> 1" by (simp add: m_def)
  have lo: "- lo_diag Y (d + 1) - 1 < 2 * half_length st (- 1)"
    using lo_diag [OF M] room len [of "- 1"] m assms(3) unfolding m_def [symmetric]
    by (auto simp: low_room_def split: if_splits)
  have up: "j < 2 * half_length st 0" if "0 \<le> j" "j \<le> u'" for j
  proof (cases "0 \<le> u")
    case True
    have "mv st u \<noteq> None" using assms(4) row_defined by (auto simp: rows_ok_def u_def)
    then have "u < half_length st 0" using True half_length_pos [of u st] by (simp add: mv_None half_index_def)
    then show ?thesis using that n(9) len [of 0] by auto
  next
    case False
    then show ?thesis using that n(9) len [of 0] by auto
  qed
  show ?thesis
    unfolding in_reach_def
  proof (intro allI impI)
    fix j assume j: "lo_diag Y (d + 1) \<le> j \<and> j \<le> up_diag X (d + 1) \<and> even (j - lo_diag Y (d + 1))"
    show "half_index j < 2 * half_length st j"
    proof (cases "j < 0")
      case True
      then show ?thesis using lo j half_length_neg [of j st] by (simp add: half_index_def)
    next
      case False
      moreover have "j \<le> u'" using j n(2,7) by presburger
      ultimately show ?thesis using up [of j] half_length_pos [of j st] by (simp add: half_index_def)
    qed
  qed
qed

lemma low_room_next:
  assumes "search_ok X Y" "0 \<le> d" "low_room (seq_length Y) d \<le> half_length st (- 1)"
    and rnd: "one_round X Y d st st' r"
  shows "low_room (seq_length Y) (d + 1) \<le> half_length st' (- 1)"
proof -
  have M: "0 < seq_length Y" "0 \<le> d + 1" and N: "0 < seq_length X"
    using assms(1,2) by (simp_all add: search_ok_def)
  have grown: "half_length st (- 1) \<le> half_length st' (- 1)"
    using rnd grownD by (auto simp: one_round_def round_trace_def)
  have neg: "lo_diag Y (d + 1) < 0" "lo_diag Y (d + 1) < up_diag X (d + 1)"
    using round_numbers(4-6) [OF assms(1,2) refl refl refl refl refl] by simp_all
  then have "mv st' (lo_diag Y (d + 1) + 1) \<noteq> None"
    using rnd by (auto simp: one_round_def round_trace_def)
  moreover have "0 \<le> half_length st' (- 1)" by (simp add: half_length_def)
  ultimately have room: "- lo_diag Y (d + 1) - 2 < half_length st' (- 1)"
    using neg(1) half_length_neg [of "lo_diag Y (d + 1) + 1" st']
    by (cases "lo_diag Y (d + 1) + 1 < 0") (auto simp: mv_None half_index_def)
  show ?thesis
  proof (cases "d + 1 \<le> seq_length Y")
    case True
    then show ?thesis using room lo_diag [OF M] by (simp add: low_room_def)
  next
    case False
    have "(d + 1) mod 2 = 1" if "even (seq_length Y) \<and> d = seq_length Y \<or> odd (seq_length Y) \<and> d = seq_length Y + 1"
      using that by presburger
    then show ?thesis
      using False room lo_diag [OF M] grown assms(3) by (auto simp: low_room_def split: if_splits)
  qed
qed

subsection \<open>What holds in every phase\<close>

definition base_ok :: "'e isequence \<Rightarrow> 'e isequence \<Rightarrow> myers_state \<Rightarrow> int \<Rightarrow> bool" where
  "base_ok X Y st d \<longleftrightarrow> search_ok X Y \<and> 0 \<le> d \<and> arrays_ok st \<and>
     low_room (seq_length Y) d \<le> half_length st (- 1) \<and>
     mv st (seq_length X - seq_length Y) \<noteq> Some (seq_length X)"

lemma diagonal_not_found:
  "\<not> snd (myers_diagonal X Y lo up k s) \<Longrightarrow> mv s k \<noteq> Some (seq_length X) \<Longrightarrow> seq_length X - k = seq_length Y \<Longrightarrow>
     mv (fst (myers_diagonal X Y lo up k s)) k \<noteq> Some (seq_length X)"
  by (auto simp: myers_diagonal_def Let_def)

lemma base_next:
  assumes "base_ok X Y st d" "one_round X Y d st st' None"
  shows "base_ok X Y st' (d + 1)"
proof -
  define F where "F = seq_length X - seq_length Y"
  have tr: "round_trace X Y (lo_diag Y (d + 1)) (up_diag X (d + 1)) (lo_diag Y (d + 1)) st st' None"
    using assms(2) by (simp add: one_round_def)
  have N: "0 < seq_length X" and notF: "mv st F \<noteq> Some (seq_length X)"
    using assms(1) by (simp_all add: base_ok_def search_ok_def F_def)
  have keep: "mv s F \<noteq> Some (seq_length X)" if "kept st s F" for s
    using that N notF by (auto simp: kept_def)
  have "mv st' F \<noteq> Some (seq_length X)"
  proof (cases "odd (F - lo_diag Y (d + 1)) \<or> F < lo_diag Y (d + 1) \<or> up_diag X (d + 1) < F")
    case True
    then show ?thesis using round_traceD(3) [OF tr True] keep by blast
  next
    case False
    then obtain s where s: "reaches st (lo_diag Y (d + 1)) F s"
        "kept (fst (myers_diagonal X Y (lo_diag Y (d + 1)) (up_diag X (d + 1)) F s)) st' F"
        "\<not> snd (myers_diagonal X Y (lo_diag Y (d + 1)) (up_diag X (d + 1)) F s)"
      using round_traceD(4) [OF tr, of F] by auto
    have "mv s F \<noteq> Some (seq_length X)" using s(1) by (intro keep) (simp add: reaches_def)
    then have "mv (fst (myers_diagonal X Y (lo_diag Y (d + 1)) (up_diag X (d + 1)) F s)) F \<noteq> Some (seq_length X)"
      using diagonal_not_found [OF s(3)] by (simp add: F_def)
    then show ?thesis using s(2) N by (auto simp: kept_def)
  qed
  moreover have "low_room (seq_length Y) (d + 1) \<le> half_length st' (- 1)"
    using assms(1) by (intro low_room_next [OF _ _ _ assms(2)]) (simp_all add: base_ok_def)
  ultimately show ?thesis
    using assms(1) round_traceD(1) [OF tr] by (simp add: base_ok_def F_def)
qed

lemma rows_ok_mono: "rows_ok X Y st r d \<Longrightarrow> r \<le> r' \<Longrightarrow> rows_ok X Y st r' d"
  unfolding rows_ok_def using row_ok_mono by blast

lemma row_inside_low:
  assumes "row_ok X Y st r u bad" "even (u - k)" "r \<le> k" "k \<le> u" "k \<le> 1" "0 < seq_length X"
  shows "inside X Y st k"
proof (cases "k = u")
  case True
  then show ?thesis using row_okD(3) [OF assms(1)] assms(5,6) by (auto simp: last_ok_def inside_def)
qed (use row_okD(4) [OF assms(1-3)] assms(4) in simp)

lemma src_row_nonneg: "0 < N \<Longrightarrow> 0 < M \<Longrightarrow> 0 \<le> d \<Longrightarrow> 0 \<le> src_row N M d"
  using last_diag_range(1) by (auto simp: src_row_def row_read_def)

lemma old_row_nonneg: "0 < N \<Longrightarrow> 0 < M \<Longrightarrow> 0 < d \<Longrightarrow> 0 \<le> old_row N M d"
  using last_diag_range(1) by (auto simp: old_row_def row_read_def)

text \<open>A bottom entry that is not the end of the search leaves room to its right.\<close>

lemma bottom_room:
  assumes "base_ok X Y st d" "bottom Y st t" "inside X Y st t"
  shows "seq_length Y + t < seq_length X"
proof -
  have "seq_length Y + t \<le> seq_length X" using assms(2,3) good_atD(2) by (fastforce simp: bottom_def inside_def)
  moreover have "seq_length Y + t \<noteq> seq_length X"
  proof
    assume "seq_length Y + t = seq_length X"
    then have "t = seq_length X - seq_length Y" by simp
    then show False using assms(1,2) by (simp add: base_ok_def bottom_def)
  qed
  ultimately show ?thesis by simp
qed

definition untouched :: "myers_state \<Rightarrow> int \<Rightarrow> bool" where
  "untouched st k \<longleftrightarrow> (mv st k = None \<or> mv st k = Some 0) \<and> mp st k = None"

lemma kept_untouched: "kept st s k \<Longrightarrow> untouched st k \<Longrightarrow> untouched s k"
  by (auto simp: untouched_def kept_def)

lemma untouched_inside:
  assumes "untouched st k" "mv st k \<noteq> None" "k \<le> 0" "- k \<le> seq_length Y" "0 \<le> seq_length X"
  shows "inside X Y st k"
  using assms good_at_None [of 0 X k Y] by (auto simp: untouched_def inside_def)

text \<open>
  A pair of neighbouring bottom entries. It stays what it is, and nothing passes it from below:
  whatever the diagonals below it hold does not matter any more.
\<close>

definition barrier :: "'e isequence \<Rightarrow> 'e isequence \<Rightarrow> myers_state \<Rightarrow> int \<Rightarrow> bool" where
  "barrier X Y st t \<longleftrightarrow> bottom Y st t \<and> inside X Y st t \<and> bottom Y st (t + 1) \<and> inside X Y st (t + 1)"

definition early :: "'e isequence \<Rightarrow> 'e isequence \<Rightarrow> myers_state \<Rightarrow> int \<Rightarrow> bool" where
  "early X Y st d \<longleftrightarrow> d \<le> seq_length Y \<and> rows_ok X Y st (- d) d \<and> (\<forall>k < - d. untouched st k)"

definition shielded :: "'e isequence \<Rightarrow> 'e isequence \<Rightarrow> int \<Rightarrow> myers_state \<Rightarrow> int \<Rightarrow> bool" where
  "shielded X Y t st d \<longleftrightarrow> barrier X Y st t \<and> rows_ok X Y st t d \<and> - d \<le> t \<and> - seq_length Y \<le> t \<and>
     t + 1 \<le> src_row (seq_length X) (seq_length Y) d"

definition turning :: "'e isequence \<Rightarrow> 'e isequence \<Rightarrow> myers_state \<Rightarrow> int \<Rightarrow> bool" where
  "turning X Y st d \<longleftrightarrow> odd (seq_length Y) \<and> (d = seq_length Y \<or> d = seq_length Y + 1) \<and>
     rows_ok X Y st (1 - seq_length Y) d \<and> mv st (- seq_length Y) = None"

definition settled :: "'e isequence \<Rightarrow> 'e isequence \<Rightarrow> myers_state \<Rightarrow> int \<Rightarrow> bool" where
  "settled X Y st d \<longleftrightarrow> seq_length Y \<le> d \<and> rows_ok X Y st (- seq_length Y) d"

subsection \<open>The shielded phase\<close>

lemma shielded_next:
  assumes base: "base_ok X Y st d" and rnd: "one_round X Y d st st' None" and "shielded X Y t st d"
  shows "shielded X Y t st' (d + 1)"
proof -
  define u u' lo up where "u = src_row (seq_length X) (seq_length Y) d"
    and "u' = last_diag (seq_length X) (seq_length Y) (d + 1)"
    and "lo = lo_diag Y (d + 1)" and "up = up_diag X (d + 1)"
  have t: "barrier X Y st t" "rows_ok X Y st t d" "- d \<le> t" "- seq_length Y \<le> t" "t + 1 \<le> u"
    using assms(3) by (auto simp: shielded_def u_def)
  have ok: "search_ok X Y" "arrays_ok st" "0 \<le> d" using base by (simp_all add: base_ok_def)
  have pos: "0 < seq_length X" "0 < seq_length Y" using ok(1) by (simp_all add: search_ok_def)
  note n = round_numbers [OF ok(1,3) u_def u'_def refl lo_def up_def]
  have tr: "round_trace X Y lo up lo st st' None" and reach: "in_reach st lo up"
    using rnd by (simp_all add: one_round_def lo_def up_def)
  define m where "m = (d + 1) mod 2"
  have "0 \<le> m" by (simp add: m_def)
  then have lo_t: "lo \<le> t"
    using lo_diag [OF pos(2), of "d + 1"] ok(3) t(3,4) unfolding lo_def m_def [symmetric] by (simp split: if_splits)
  have edge: "seq_length Y + (t + 1) < seq_length X"
    using bottom_room [OF base] t(1) by (simp add: barrier_def)
  have t_u': "t < u'" "t + 1 \<le> u'" using n(9) t(5) edge pos by auto
  have src: "row_ok X Y st t u (spoils (seq_length X) (seq_length Y) d)" using t(2) by (simp add: rows_ok_def u_def)
  note rows = rows_round [OF ok t(2) rnd u_def u'_def lo_t [unfolded lo_def] t_u'(1) refl]
  have keep: "kept st st' k" if "odd (k - lo)" for k using round_traceD(3) [OF tr] that by blast
  have stay: "bottom Y st' t \<and> inside X Y st' t"
  proof (cases "odd (t - lo)")
    case True
    then show ?thesis using keep t(1) kept_bottom kept_inside unfolding barrier_def by blast
  next
    case even: False
    have "kept st st' t"
    proof (cases "t = lo")
      case True
      have "lo < up" using n(4,5,6) by simp
      then show ?thesis using round_first [OF ok(1) reach _ _ tr] t(1) True by (simp add: barrier_def)
    next
      case False
      show ?thesis
      proof (rule round_skip [OF _ _ _ _ _ tr])
        show "bottom Y st (t + 1)" "seq_length Y + (t + 1) \<le> seq_length X" using t(1) edge by (simp_all add: barrier_def)
        show "t < up" "lo < t" "even (t - lo)" using t_u' n(6) lo_t False even by auto
        fix s assume s: "reaches st lo t s"
        show "mv s (t - 1) \<noteq> None"
        proof (cases "t - 1 < 0")
          case True
          have "mv s (lo + 1) \<noteq> None" using s n(4) False lo_t by (simp add: reaches_def)
          moreover have "lo + 1 \<le> t - 1" using even False lo_t by presburger
          ultimately show ?thesis using True by (rule mv_above)
        next
          case nonneg: False
          have "mv s u \<noteq> None" using row_defined [OF src] s mv_grown by (auto simp: reaches_def)
          then show ?thesis by (rule mv_below) (use nonneg t(5) in auto)
        qed
      qed
    qed
    then show ?thesis using t(1) kept_bottom kept_inside unfolding barrier_def by blast
  qed
  have stay': "bottom Y st' (t + 1) \<and> inside X Y st' (t + 1)"
  proof (cases "odd (t + 1 - lo)")
    case True
    then show ?thesis using keep t(1) kept_bottom kept_inside unfolding barrier_def by blast
  next
    case False
    then have par: "even (t + 1 - lo)" "odd (t - lo)" by presburger+
    have "t + 1 < u" using t(5) n(1) par(1) by presburger
    have left: "inside X Y s (t + 1 - 1)" if "reaches st lo (t + 1) s" for s
      using reaches_inside [OF that par(2), of X Y] t(1) by (simp add: barrier_def)
    have "t + 1 \<noteq> up \<and> bottom Y st (t + 1 + 1) \<and> kept st st' (t + 1) \<or>
      inside X Y st' (t + 1) \<and> (mv st (t + 1 - 1) \<noteq> None \<longrightarrow>
       (\<exists>x'. mv st' (t + 1) = Some x' \<and> step_bound X st up (t + 1) \<le> x' \<and> good_at X Y (t + 1) x' (mp st' (t + 1))))"
      using t_u' n(6) lo_t edge pos
      by (intro round_inner [OF ok(1,2) src n(1) reach tr par(1) _ _ \<open>t + 1 < u\<close> _ _ left]) auto
    then show ?thesis
    proof (elim disjE conjE)
      assume "kept st st' (t + 1)"
      then show ?thesis using t(1) kept_bottom kept_inside unfolding barrier_def by blast
    next
      assume ins: "inside X Y st' (t + 1)" and "mv st (t + 1 - 1) \<noteq> None \<longrightarrow>
       (\<exists>x'. mv st' (t + 1) = Some x' \<and> step_bound X st up (t + 1) \<le> x' \<and> good_at X Y (t + 1) x' (mp st' (t + 1)))"
      moreover have mvt: "mv st t = Some (seq_length Y + t)" using t(1) by (simp add: barrier_def bottom_def)
      ultimately obtain x' where x': "mv st' (t + 1) = Some x'" "step_bound X st up (t + 1) \<le> x'"
          "good_at X Y (t + 1) x' (mp st' (t + 1))" by auto
      have "seq_length Y + (t + 1) \<le> x'" using x'(2) edge mvt by (auto simp: step_bound_def)
      then show ?thesis using ins x' good_atD(3) [OF x'(3)] by (simp add: bottom_def)
    qed
  qed
  have "row_ok X Y st' t u' (spoils (seq_length X) (seq_length Y) (d + 1))"
    using row_ok_lower [OF rows(2)] stay by blast
  then have "rows_ok X Y st' t (d + 1)"
    using rows(1,3) by (intro rows_next [OF ok(1,3) u_def u'_def refl]) auto
  moreover have "t + 1 \<le> src_row (seq_length X) (seq_length Y) (d + 1)"
    using row_read_next [OF ok(3) pos(2), of "seq_length X"] t(5) t_u'(2)
    by (auto simp: src_row_def [of _ _ "d + 1"] u_def u'_def)
  ultimately show ?thesis
    using stay stay' t(3,4) by (auto simp: shielded_def barrier_def)
qed

subsection \<open>The settled phase\<close>

lemma lo_diag_late:
  "0 < seq_length Y \<Longrightarrow> seq_length Y \<le> d \<Longrightarrow>
     lo_diag Y (d + 1) = - seq_length Y \<and> even (d + 1) \<or> lo_diag Y (d + 1) = - seq_length Y - 1 \<and> odd (d + 1)"
  using lo_diag [of Y "d + 1"] parity_mod [of "d + 1"] by auto

lemma settled_next:
  assumes base: "base_ok X Y st d" and rnd: "one_round X Y d st st' None" and "settled X Y st d"
  shows "settled X Y st' (d + 1)"
proof -
  define u u' u1 lo up where "u = src_row (seq_length X) (seq_length Y) d"
    and "u' = last_diag (seq_length X) (seq_length Y) (d + 1)"
    and "u1 = old_row (seq_length X) (seq_length Y) d"
    and "lo = lo_diag Y (d + 1)" and "up = up_diag X (d + 1)"
  define M where "M = seq_length Y"
  have d: "M \<le> d" and rs: "rows_ok X Y st (- M) d" using assms(3) by (simp_all add: settled_def M_def)
  have ok: "search_ok X Y" "arrays_ok st" "0 \<le> d" using base by (simp_all add: base_ok_def)
  have pos: "0 < seq_length X" "0 < M" using ok(1) by (simp_all add: search_ok_def M_def)
  note n = round_numbers [OF ok(1,3) u_def u'_def u1_def lo_def up_def]
  have tr: "round_trace X Y lo up lo st st' None" and reach: "in_reach st lo up"
    using rnd by (simp_all add: one_round_def lo_def up_def)
  have lo: "lo = - M \<or> lo = - M - 1" using lo_diag_late [of Y d] pos d by (auto simp: lo_def M_def)
  have src: "row_ok X Y st (- M) u (spoils (seq_length X) (seq_length Y) d)"
    and old: "row_ok X Y st (- M) u1 (spoils (seq_length X) (seq_length Y) d)"
    using rs by (simp_all add: rows_ok_def u_def u1_def)
  have "0 \<le> u" "0 \<le> u1"
    using src_row_nonneg [OF pos ok(3)] old_row_nonneg [OF pos, of d] pos d by (auto simp: u_def u1_def M_def)
  have lower: "lo_diag Y (d + 1) \<le> - M" "- M < u'" using lo n(5) pos by (auto simp: lo_def)
  note rows = rows_round [OF ok rs rnd u_def u'_def lower refl]
  have first: "inside X Y st' (- M)" if "even (u' - - M)"
  proof -
    have "even (- M - lo)" using that n(2) by presburger
    then have lo_eq: "lo = - M" using lo by auto
    have par: "even (u - (lo + 1))" "even (u1 - lo)" using n(1,3) by presburger+
    have "inside X Y st (lo + 1)"
      using \<open>0 \<le> u\<close> pos by (intro row_inside_low [OF src par(1)]) (auto simp: lo_eq)
    moreover have "inside X Y st lo"
      using \<open>0 \<le> u1\<close> pos by (intro row_inside_low [OF old par(2)]) (auto simp: lo_eq)
    moreover have "lo < up" using n(4-6) by simp
    ultimately have "inside X Y st' lo"
      using round_first [OF ok(1) reach _ _ tr] kept_inside by (metis (full_types))
    then show ?thesis by (simp add: lo_eq)
  qed
  have "row_ok X Y st' (- M) u' (spoils (seq_length X) (seq_length Y) (d + 1))"
    using row_ok_lower [OF rows(2)] first by blast
  then have "rows_ok X Y st' (- M) (d + 1)"
    using rows(1,3) by (intro rows_next [OF ok(1,3) u_def u'_def refl]) auto
  then show ?thesis using d by (simp add: settled_def M_def)
qed

subsection \<open>The turn of the parity\<close>

lemma turning_next:
  assumes base: "base_ok X Y st d" and rnd: "one_round X Y d st st' None"
    and "turning X Y st d" "d = seq_length Y"
  shows "settled X Y st' (d + 1) \<or> turning X Y st' (d + 1)"
proof -
  define u u' lo up where "u = src_row (seq_length X) (seq_length Y) d"
    and "u' = last_diag (seq_length X) (seq_length Y) (d + 1)"
    and "lo = lo_diag Y (d + 1)" and "up = up_diag X (d + 1)"
  define M where "M = seq_length Y"
  have d: "d = M" "odd M" and rs: "rows_ok X Y st (1 - M) d" and none: "mv st (- M) = None"
    using assms(3,4) by (simp_all add: turning_def M_def)
  have ok: "search_ok X Y" "arrays_ok st" "0 \<le> d" using base by (simp_all add: base_ok_def)
  have pos: "0 < seq_length X" "0 < M" using ok(1) by (simp_all add: search_ok_def M_def)
  note n = round_numbers [OF ok(1,3) u_def u'_def refl lo_def up_def]
  have tr: "round_trace X Y lo up lo st st' None" and reach: "in_reach st lo up"
    using rnd by (simp_all add: one_round_def lo_def up_def)
  have lo: "lo = - M" using lo_diag_late [of Y d] pos d by (auto simp: lo_def M_def)
  have src: "row_ok X Y st (1 - M) u (spoils (seq_length X) (seq_length Y) d)"
    using rs by (simp add: rows_ok_def u_def)
  have u: "0 \<le> u" using src_row_nonneg [OF pos ok(3)] by (simp add: u_def M_def)
  have "odd u'" using n(2) d(2) by (simp add: lo)
  then have "1 \<le> u'" using n(5) by presburger
  then have lower: "lo_diag Y (d + 1) \<le> 1 - M" "1 - M < u'" using lo pos by (auto simp: lo_def)
  note rows = rows_round [OF ok rs rnd u_def u'_def lower refl]
  have "odd (u' - (1 - M))" using \<open>odd u'\<close> d(2) by presburger
  then have "row_ok X Y st' (1 - M) u' (spoils (seq_length X) (seq_length Y) (d + 1))"
    using row_ok_lower [OF rows(2)] by blast
  then have rows': "rows_ok X Y st' (1 - M) (d + 1)"
    using rows(1,3) by (intro rows_next [OF ok(1,3) u_def u'_def refl]) auto
  have par: "even (u - (lo + 1))" using n(1) by presburger
  have "inside X Y st (lo + 1)"
    using u pos by (intro row_inside_low [OF src par]) (auto simp: lo)
  moreover have "lo < up" using n(4-6) by simp
  ultimately have first: "kept st st' lo \<or> inside X Y st' lo"
    using round_first [OF ok(1) reach _ _ tr] by (metis (full_types))
  show ?thesis
  proof (cases "mv st' (- M)")
    case None
    then show ?thesis using rows' d by (auto simp: turning_def M_def)
  next
    case (Some x)
    have "inside X Y st' (- M)"
    proof (cases "inside X Y st' lo")
      case False
      then have "kept st st' lo" using first by blast
      then have "untouched st' (- M)"
        using none ok(2) Some by (auto simp: untouched_def kept_def arrays_ok_def lo)
      then show ?thesis using Some pos by (intro untouched_inside) (auto simp: M_def)
    qed (simp add: lo)
    then have "row_ok X Y st' (- M) (src_row (seq_length X) M (d + 1)) (spoils (seq_length X) M (d + 1))"
        "row_ok X Y st' (- M) (old_row (seq_length X) M (d + 1)) (spoils (seq_length X) M (d + 1))"
      using rows' row_ok_lower [of X Y st' "- M"] by (simp_all add: rows_ok_def M_def)
    then show ?thesis using rows' d by (simp add: settled_def rows_ok_def M_def)
  qed
qed

lemma turning_ends:
  assumes base: "base_ok X Y st d" and rnd: "one_round X Y d st st' None"
    and "turning X Y st d" "d = seq_length Y + 1"
  shows "settled X Y st' (d + 1)"
proof -
  define u u' u1 lo up where "u = src_row (seq_length X) (seq_length Y) d"
    and "u' = last_diag (seq_length X) (seq_length Y) (d + 1)"
    and "u1 = old_row (seq_length X) (seq_length Y) d"
    and "lo = lo_diag Y (d + 1)" and "up = up_diag X (d + 1)"
  define M where "M = seq_length Y"
  have d: "d = M + 1" "odd M" and rs: "rows_ok X Y st (1 - M) d" and none: "mv st (- M) = None"
    using assms(3,4) by (simp_all add: turning_def M_def)
  have ok: "search_ok X Y" "arrays_ok st" "0 \<le> d" using base by (simp_all add: base_ok_def)
  have pos: "0 < seq_length X" "0 < M" using ok(1) by (simp_all add: search_ok_def M_def)
  note n = round_numbers [OF ok(1,3) u_def u'_def u1_def lo_def up_def]
  have tr: "round_trace X Y lo up lo st st' None" and reach: "in_reach st lo up"
    using rnd by (simp_all add: one_round_def lo_def up_def)
  have lo: "lo = - M - 1" using lo_diag_late [of Y d] pos d by (auto simp: lo_def M_def)
  have src: "row_ok X Y st (1 - M) u (spoils (seq_length X) (seq_length Y) d)"
    and old: "row_ok X Y st (1 - M) u1 (spoils (seq_length X) (seq_length Y) d)"
    using rs by (simp_all add: rows_ok_def u_def u1_def)
  have "0 \<le> u" "0 \<le> u1"
    using src_row_nonneg [OF pos ok(3)] old_row_nonneg [OF pos, of d] pos d by (simp_all add: u_def u1_def M_def)
  moreover have "odd u" "even u'" using n(1,2) d(2) by (simp_all add: lo)
  ultimately have u: "1 \<le> u" "0 \<le> u1" by presburger+
  have "1 - M < u'"
  proof (cases "M = 1")
    case True
    have "u' \<noteq> 0" using True pos(1) d(1)
      by (auto simp: u'_def last_diag_def flipped_def M_def [symmetric])
    then show ?thesis using n(5) True by simp
  qed (use pos(2) n(5) in simp)
  then have lower: "lo_diag Y (d + 1) \<le> 1 - M" "1 - M < u'" using lo by (auto simp: lo_def)
  note rows = rows_round [OF ok rs rnd u_def u'_def lower refl]
  have par: "even (1 - M - lo)" "odd (- M - lo)" "even (u1 - (1 - M))" using d(2) n(3) by (auto simp: lo)
  have left: "inside X Y s (1 - M - 1)" if s: "reaches st lo (1 - M) s" for s
  proof -
    have "kept st s (- M)" "mv s (- M) \<noteq> None" using s par(2) pos(2) by (simp_all add: reaches_def lo)
    then have "untouched s (- M)" using none ok(2) by (auto simp: untouched_def kept_def arrays_ok_def)
    then show ?thesis using \<open>mv s (- M) \<noteq> None\<close> pos untouched_inside [of s "- M" Y X] by (simp add: M_def)
  qed
  have "1 - M \<noteq> up \<and> bottom Y st (1 - M + 1) \<and> kept st st' (1 - M) \<or> inside X Y st' (1 - M)"
    using u pos lower(2) n(6) round_inner [OF ok(1,2) src n(1) reach tr par(1) _ _ _ _ _ left]
    by (auto simp: lo)
  moreover have "inside X Y st (1 - M)"
    using u pos by (intro row_inside_low [OF old par(3)]) auto
  ultimately have "inside X Y st' (1 - M)" using kept_inside by blast
  then have "row_ok X Y st' (1 - M) u' (spoils (seq_length X) (seq_length Y) (d + 1))"
    using row_ok_lower [OF rows(2)] by blast
  then have rows': "rows_ok X Y st' (1 - M) (d + 1)"
    using rows(1,3) by (intro rows_next [OF ok(1,3) u_def u'_def refl]) auto
  have "lo < 0" "lo < up" using n(4-6) by simp_all
  then have "mv st' (- M) \<noteq> None" using round_traceD(5) [OF tr] by (simp add: lo)
  moreover have "kept st st' (- M)" using round_traceD(3) [OF tr] par(2) by blast
  then have "untouched st' (- M)"
    using none ok(2) \<open>mv st' (- M) \<noteq> None\<close> by (auto simp: untouched_def kept_def arrays_ok_def)
  ultimately have "inside X Y st' (- M)" using pos by (intro untouched_inside) (auto simp: M_def)
  then have "row_ok X Y st' (- M) (src_row (seq_length X) M (d + 1)) (spoils (seq_length X) M (d + 1))"
      "row_ok X Y st' (- M) (old_row (seq_length X) M (d + 1)) (spoils (seq_length X) M (d + 1))"
    using rows' row_ok_lower [of X Y st' "- M"] by (simp_all add: rows_ok_def M_def)
  then show ?thesis using rows' d by (simp add: settled_def rows_ok_def M_def)
qed

subsection \<open>The early phase\<close>

text \<open>
  The highest bottom entry of the row that is read makes the entry to its right a bottom entry,
  too, so the two of them form a barrier.
\<close>

lemma barrier_arises:
  assumes base: "base_ok X Y st d" and rnd: "one_round X Y d st st' None"
    and rows: "rows_ok X Y st (- d) d" and dY: "d < seq_length Y"
    and u: "u = src_row (seq_length X) (seq_length Y) d"
    and t: "- d \<le> t" "t \<le> u" "even (u - t)" "bottom Y st t"
    and max: "\<And>k. t < k \<Longrightarrow> k \<le> u \<Longrightarrow> even (u - k) \<Longrightarrow> \<not> bottom Y st k"
  shows "barrier X Y st' t" "t + 1 \<le> last_diag (seq_length X) (seq_length Y) (d + 1)"
proof -
  define u' lo up where "u' = last_diag (seq_length X) (seq_length Y) (d + 1)"
    and "lo = lo_diag Y (d + 1)" and "up = up_diag X (d + 1)"
  have ok: "search_ok X Y" "arrays_ok st" "0 \<le> d" using base by (simp_all add: base_ok_def)
  have pos: "0 < seq_length X" "0 < seq_length Y" using ok(1) by (simp_all add: search_ok_def)
  note n = round_numbers [OF ok(1,3) u u'_def refl lo_def up_def]
  have tr: "round_trace X Y lo up lo st st' None" and reach: "in_reach st lo up"
    using rnd by (simp_all add: one_round_def lo_def up_def)
  have lo: "lo = - (d + 1)" using lo_diag [OF pos(2), of "d + 1"] ok(3) dY by (simp add: lo_def)
  have src: "row_ok X Y st (- d) u (spoils (seq_length X) (seq_length Y) d)"
    using rows by (simp add: rows_ok_def u)
  have mvt: "mv st t = Some (seq_length Y + t)" using t(4) by (simp add: bottom_def)
  have ins: "inside X Y st t"
  proof (cases "t = u")
    case True
    then show ?thesis using row_okD(3) [OF src] mvt pos by (auto simp: last_ok_def inside_def)
  next
    case False
    then show ?thesis using row_okD(4) [OF src t(3)] t by simp
  qed
  have edge: "seq_length Y + t < seq_length X" using bottom_room [OF base t(4) ins] .
  have par: "odd (t - lo)" "even (t + 1 - lo)" using t(3) n(1) by presburger+
  have "kept st st' t" using round_traceD(3) [OF tr] par(1) by blast
  then have stay: "bottom Y st' t" "inside X Y st' t" using kept_bottom t(4) kept_inside ins by blast+
  have "bottom Y st' (t + 1) \<and> inside X Y st' (t + 1) \<and> t + 1 \<le> u'"
  proof (cases "t = u")
    case True
    then have next_u: "u' = t + 1" using n(9) edge pos by auto
    have up': "up = u'"
    proof (rule ccontr)
      assume "up \<noteq> u'"
      then have "spoils (seq_length X) (seq_length Y) (d + 1)" using n(12) by blast
      then have "odd (seq_length X)" using dY by (simp add: spoils_def flipped_def)
      moreover have "seq_length X < d + 1"
        using \<open>up \<noteq> u'\<close> up_diag [OF pos(1), of "d + 1"] ok(3) dY
        by (auto simp: up_def u'_def last_diag_def flipped_def split: if_splits)
      ultimately have "seq_length X - 1 \<le> u'" using dY by (auto simp: u'_def last_diag_def flipped_def)
      then show False using next_u edge dY \<open>seq_length X < d + 1\<close> pos by simp
    qed
    have "even (up - lo)" "lo < up" "up \<le> seq_length X" "inside X Y st (up - 1)" "mv st (up - 1) = Some (seq_length Y + t)"
      using n(2,4,5) edge pos ins mvt by (simp_all add: up' next_u)
    note e = round_edge [OF ok(1) reach this tr]
    from e(2) obtain x' where x': "mv st' up = Some x'" "min (seq_length Y + t + 1) (seq_length X) \<le> x'"
        "good_at X Y up x' (mp st' up)" by auto
    then have "x' = seq_length Y + up" using good_atD(3) [OF x'(3)] edge by (auto simp: up' next_u)
    then show ?thesis using e(1) x'(1) by (simp add: bottom_def up' next_u)
  next
    case False
    then have t1: "t + 1 < u" "t + 2 \<le> u" using t(2,3) by presburger+
    then have u'_t: "t + 1 \<le> u'" using n(9) by auto
    have left: "inside X Y s (t + 1 - 1)" if "reaches st lo (t + 1) s" for s
      using reaches_inside [OF that par(1), of X Y] ins by simp
    have not_skip: "\<not> bottom Y st (t + 1 + 1)" using max [of "t + 2"] t1 t(3) by (simp add: add.commute)
    have "inside X Y st' (t + 1) \<and> (mv st (t + 1 - 1) \<noteq> None \<longrightarrow>
       (\<exists>x'. mv st' (t + 1) = Some x' \<and> step_bound X st up (t + 1) \<le> x' \<and> good_at X Y (t + 1) x' (mp st' (t + 1))))"
      using round_inner [OF ok(1,2) src n(1) reach tr par(2) _ _ t1(1) _ _ left] not_skip t(1) u'_t n(6) edge pos
      by (auto simp: lo)
    then obtain x' where x': "inside X Y st' (t + 1)" "mv st' (t + 1) = Some x'"
        "step_bound X st up (t + 1) \<le> x'" "good_at X Y (t + 1) x' (mp st' (t + 1))"
      using mvt by auto
    have "seq_length Y + (t + 1) \<le> x'" using x'(3) edge mvt by (auto simp: step_bound_def)
    then show ?thesis using x' good_atD(3) [OF x'(4)] u'_t by (simp add: bottom_def)
  qed
  then show "barrier X Y st' t" "t + 1 \<le> last_diag (seq_length X) (seq_length Y) (d + 1)"
    using stay by (simp_all add: barrier_def u'_def)
qed

lemma rows_ok_lower:
  assumes "rows_ok X Y st (r + 1) d"
    and "even (src_row (seq_length X) (seq_length Y) d - r) \<Longrightarrow> inside X Y st r"
    and "even (old_row (seq_length X) (seq_length Y) d - r) \<Longrightarrow> inside X Y st r"
  shows "rows_ok X Y st r d"
  using assms row_ok_lower unfolding rows_ok_def by blast

lemma ex_highest:
  fixes u :: int
  assumes "P t" "t \<le> u"
  shows "\<exists>t'. t \<le> t' \<and> t' \<le> u \<and> P t' \<and> (\<forall>k. t' < k \<and> k \<le> u \<longrightarrow> \<not> P k)"
proof -
  define S where "S = {k. t \<le> k \<and> k \<le> u \<and> P k}"
  have "S \<subseteq> {t .. u}" by (auto simp: S_def)
  then have fin: "finite S" using finite_subset by blast
  have "t \<in> S" using assms by (simp add: S_def)
  then have "Max S \<in> S" "\<And>k. k \<in> S \<Longrightarrow> k \<le> Max S" using fin by (auto intro: Max_in)
  then show ?thesis unfolding S_def by (metis (mono_tags, lifting) leD less_imp_le mem_Collect_eq order_trans)
qed

lemma early_next:
  assumes base: "base_ok X Y st d" and rnd: "one_round X Y d st st' None"
    and "early X Y st d" "d < seq_length Y"
  shows "early X Y st' (d + 1) \<or>
    (if odd (seq_length Y) \<and> d + 1 = seq_length Y then turning X Y st' (d + 1) else \<exists>t. shielded X Y t st' (d + 1))"
proof -
  define u u' lo up where "u = src_row (seq_length X) (seq_length Y) d"
    and "u' = last_diag (seq_length X) (seq_length Y) (d + 1)"
    and "lo = lo_diag Y (d + 1)" and "up = up_diag X (d + 1)"
  have rs: "rows_ok X Y st (- d) d" and un: "\<And>k. k < - d \<Longrightarrow> untouched st k"
    using assms(3) by (simp_all add: early_def)
  have ok: "search_ok X Y" "arrays_ok st" "0 \<le> d" using base by (simp_all add: base_ok_def)
  have pos: "0 < seq_length X" "0 < seq_length Y" using ok(1) by (simp_all add: search_ok_def)
  note n = round_numbers [OF ok(1,3) u_def u'_def refl lo_def up_def]
  have tr: "round_trace X Y lo up lo st st' None" and reach: "in_reach st lo up"
    using rnd by (simp_all add: one_round_def lo_def up_def)
  have lo: "lo = - (d + 1)" using lo_diag [OF pos(2), of "d + 1"] ok(3) assms(4) by (simp add: lo_def)
  have src: "row_ok X Y st (- d) u (spoils (seq_length X) (seq_length Y) d)"
    using rs by (simp add: rows_ok_def u_def)
  have u: "0 \<le> u" using src_row_nonneg [OF pos ok(3)] by (simp add: u_def)
  have par: "even (u - - d)" "odd (u' - - d)" using n(1,2) by (simp_all add: lo)
  have "- d < u'" using n(5) par(2) ok(3) by presburger
  then have lower: "lo_diag Y (d + 1) \<le> - d" "- d < u'" using lo by (auto simp: lo_def)
  note rows = rows_round [OF ok rs rnd u_def u'_def lower refl]
  have "row_ok X Y st' (- d) u' (spoils (seq_length X) (seq_length Y) (d + 1))"
    using row_ok_lower [OF rows(2)] par(2) by blast
  then have rows': "rows_ok X Y st' (- d) (d + 1)"
    using rows(1,3) by (intro rows_next [OF ok(1,3) u_def u'_def refl]) auto
  have un': "untouched st' k" if "k < lo" for k
    using kept_untouched [OF round_traceD(3) [OF tr] un] that by (simp add: lo)
  have early': "early X Y st' (d + 1)" if "inside X Y st' lo"
  proof -
    have "rows_ok X Y st' lo (d + 1)"
      by (rule rows_ok_lower) (use rows' that in \<open>simp_all add: lo\<close>)
    then show ?thesis using assms(4) un' by (simp add: early_def lo)
  qed
  have low: "inside X Y st (lo + 1)"
    using u par(1) ok(3) pos by (intro row_inside_low [OF src]) (auto simp: lo)
  have "lo < up" using n(4-6) by simp
  note first = round_first [OF ok(1) reach this low tr]
  show ?thesis
  proof (cases "inside X Y st' lo")
    case False
    then have bot: "bottom Y st (- d)" and kept: "kept st st' lo" using first by (auto simp: lo split: if_splits)
    have "untouched st' lo" using kept_untouched [OF kept un] by (simp add: lo)
    then have none: "mv st' lo = None"
      using untouched_inside [of st' lo Y X] False assms(4) ok(3) pos lo by fastforce
    obtain t where t: "- d \<le> t" "t \<le> u" "even (u - t) \<and> bottom Y st t"
        "\<forall>k. t < k \<and> k \<le> u \<longrightarrow> \<not> (even (u - k) \<and> bottom Y st k)"
      using ex_highest [of "\<lambda>k. even (u - k) \<and> bottom Y st k" "- d" u] bot par(1) u ok(3) by auto
    have none_higher: "\<not> bottom Y st k" if "t < k" "k \<le> u" "even (u - k)" for k
      using t(4) that by blast
    have "barrier X Y st' t" "t + 1 \<le> last_diag (seq_length X) (seq_length Y) (d + 1)"
      by (rule barrier_arises [OF base rnd rs assms(4) u_def t(1,2) conjunct1 [OF t(3)] conjunct2 [OF t(3)]],
          rule none_higher, assumption+)+
    then have bar: "barrier X Y st' t" "t + 1 \<le> u'" by (simp_all add: u'_def)
    show ?thesis
    proof (cases "odd (seq_length Y) \<and> d + 1 = seq_length Y")
      case True
      then have "1 - seq_length Y = - d" "lo = - seq_length Y" by (simp_all add: lo)
      then have "turning X Y st' (d + 1)" using rows' none True unfolding turning_def by metis
      then show ?thesis using True by simp
    next
      case False
      then have "src_row (seq_length X) (seq_length Y) (d + 1) = u'" by (auto simp: src_row_def u'_def)
      moreover have "rows_ok X Y st' t (d + 1)" using rows' t(1) by (rule rows_ok_mono)
      ultimately have "shielded X Y t st' (d + 1)"
        unfolding shielded_def using bar t(1) assms(4) by simp
      then show ?thesis using False by auto
    qed
  qed (use early' in simp)
qed

end
