(* ===== verification/MyersCorrect.thy ===== *)
theory MyersCorrect
  imports MyersPhases
begin

section \<open>Correctness and termination of \<open>MyersDiffAlgorithm\<close>\<close>

subsection \<open>The invariant of the search\<close>

definition phase :: "'e isequence \<Rightarrow> 'e isequence \<Rightarrow> myers_state \<Rightarrow> int \<Rightarrow> bool" where
  "phase X Y st d \<longleftrightarrow> base_ok X Y st d \<and>
     (early X Y st d \<or> turning X Y st d \<or> settled X Y st d \<or> (\<exists>t. shielded X Y t st d))"

lemma early_settled: "early X Y st d \<Longrightarrow> d = seq_length Y \<Longrightarrow> settled X Y st d"
  by (simp add: early_def settled_def)

lemma phase_next:
  assumes "phase X Y st d" and rnd: "one_round X Y d st st' None"
  shows "phase X Y st' (d + 1)"
proof -
  have base: "base_ok X Y st d" using assms(1) by (simp add: phase_def)
  have settled: "settled X Y st' (d + 1)" if "settled X Y st d" using settled_next [OF base rnd that] .
  have "early X Y st' (d + 1) \<or> turning X Y st' (d + 1) \<or> settled X Y st' (d + 1) \<or> (\<exists>t. shielded X Y t st' (d + 1))"
    using assms(1) unfolding phase_def
  proof (elim conjE disjE exE)
    assume early: "early X Y st d"
    show ?thesis
    proof (cases "d < seq_length Y")
      case True
      then show ?thesis using early_next [OF base rnd early] by (auto split: if_splits)
    next
      case False
      then have "settled X Y st d" using early by (intro early_settled) (auto simp: early_def)
      then show ?thesis using settled by blast
    qed
  next
    assume turning: "turning X Y st d"
    then have "d = seq_length Y \<or> d = seq_length Y + 1" by (simp add: turning_def)
    then show ?thesis using turning_next [OF base rnd turning] turning_ends [OF base rnd turning] by blast
  qed (use settled shielded_next [OF base rnd] in blast)+
  then show ?thesis using base_next [OF base rnd] by (simp add: phase_def)
qed

lemma phase_rows: "phase X Y st d \<Longrightarrow> \<exists>r. rows_ok X Y st r d"
  unfolding phase_def early_def turning_def settled_def shielded_def by blast

lemma phase_round:
  assumes "phase X Y st d" "myers_round X Y (d + 1) st = (st', r)"
  shows "one_round X Y d st st' r"
proof -
  have base: "search_ok X Y" "arrays_ok st" "0 \<le> d" "low_room (seq_length Y) d \<le> half_length st (- 1)"
    using assms(1) by (simp_all add: phase_def base_ok_def)
  obtain l where "rows_ok X Y st l d" using phase_rows [OF assms(1)] by blast
  then have reach: "in_reach st (lo_diag Y (d + 1)) (up_diag X (d + 1))"
    using base by (intro in_reach_next)
  then have "round_trace X Y (lo_diag Y (d + 1)) (up_diag X (d + 1)) (lo_diag Y (d + 1)) st st' r"
    using assms(2) base(1,2) by (intro myers_diagonals_trace) (auto simp: myers_round_def in_reach_def)
  then show ?thesis using reach by (simp add: one_round_def)
qed

subsection \<open>The end of the search\<close>

lemma found_diagonal:
  assumes "myers_diagonal X Y lo up f s = (st', True)"
  shows "mv st' f = Some (seq_length X)" "seq_length X - f = seq_length Y"
  using assms by (auto simp: myers_diagonal_def Let_def num_eq_def num_minus_def split: if_splits option.splits)

lemma found_advanced: "advanced X Y lo up f s x \<Longrightarrow> myers_diagonal X Y lo up f s = (st', True) \<Longrightarrow> good X Y st' f"
  by (auto simp: advanced_def good_def)

lemma found_inner:
  assumes ok: "search_ok X Y" "arrays_ok st" "0 \<le> d" "rows_ok X Y st r d" "in_reach st lo up"
    and u: "u = src_row (seq_length X) (seq_length Y) d"
    and u': "u' = last_diag (seq_length X) (seq_length Y) (d + 1)"
    and lo: "lo = lo_diag Y (d + 1)" and up: "up = up_diag X (d + 1)"
    and f: "even (f - lo)" "lo < f" "f \<le> up" "reaches st lo f s" "myers_diagonal X Y lo up f s = (st', True)"
    and r: "r < u'" "r \<le> f + 1" and left: "f < u \<Longrightarrow> inside X Y s (f - 1)"
  shows "good X Y st' f"
proof -
  note n = round_numbers [OF ok(1,3) u u' refl lo up]
  define bad where "bad = spoils (seq_length X) (seq_length Y) d"
  have src: "row_ok X Y st r u bad" using ok(4) by (simp add: rows_ok_def u bad_def)
  have f_u': "f \<le> u'" using f(1,3) n(2,7) by presburger
  show ?thesis
  proof (cases "f = u'")
    case True
    have "snd (myers_diagonal X Y lo up f s) \<longrightarrow> good X Y (fst (myers_diagonal X Y lo up f s)) f"
      using last_step [OF ok(1,2) src n(1) ok(5) n(2) _ n(6,5,8) r(1) n(9), of True s] f True by simp
    then show ?thesis using f(5) by simp
  next
    case False
    then have "f \<le> u' - 2" using f_u' f(1) n(2) by presburger
    then have f_u: "f < u" using n(9) by auto
    have "f \<le> seq_length X" using found_diagonal(2) [OF f(5)] ok(1) by (auto simp: search_ok_def)
    then obtain l a where "if f \<noteq> up \<and> bottom Y st (f + 1) then myers_diagonal X Y lo up f s = (s, False)
        else advanced X Y lo up f s (max f (min (max (if f = up then - 1 else a) (l + 1)) (seq_length X)))"
      using inner_step [OF ok(1,2) src n(1) ok(5) f(1-3) f_u r(2) _ f(4) left [OF f_u]] by blast
    then show ?thesis using f(5) found_advanced by (auto split: if_splits)
  qed
qed

text \<open>The entry to the left of the diagonal lies in the row that is read.\<close>

lemma row_left:
  assumes "rows_ok X Y st r d" "u = src_row (seq_length X) (seq_length Y) d"
    and "odd (u - lo)" "even (f - lo)" "f < u" "r \<le> f - 1" "reaches st lo f s"
  shows "inside X Y s (f - 1)"
proof -
  have "odd (f - 1 - lo)" "even (u - (f - 1))" using assms(3,4) by presburger+
  moreover have "row_ok X Y st r u (spoils (seq_length X) (seq_length Y) d)"
    using assms(1,2) by (simp add: rows_ok_def)
  then have "inside X Y st (f - 1)"
    by (rule row_okD(4)) (use assms(5,6) \<open>even (u - (f - 1))\<close> in auto)
  ultimately show ?thesis using reaches_inside assms(7) by blast
qed

lemma found_first:
  assumes ok: "search_ok X Y" "in_reach st lo up" "lo < up" "inside X Y st (lo + 1)"
    and f: "reaches st lo f s" "myers_diagonal X Y lo up f s = (st', True)" "f = lo"
  shows "good X Y st' f"
proof -
  have "kept st s (lo + 1)" using f(1,3) by (simp add: reaches_def)
  then obtain a where a: "mv s (lo + 1) = Some a" "good_at X Y (lo + 1) a (mp s (lo + 1))"
    using kept_inside ok(4) by (fastforce simp: inside_def)
  have "arrays_ok s" using f(1) by (simp add: reaches_def)
  moreover have "half_index lo < 2 * half_length s lo" using ok(3) f by (intro in_reachD [OF ok(2)]) auto
  ultimately have "if bottom Y s (lo + 1) then myers_diagonal X Y lo up lo s = (s, False)
      else advanced X Y lo up lo s a"
    using ok(3) by (intro diagonal_first [OF ok(1) _ _ _ a]) auto
  then show ?thesis using f(2,3) found_advanced by (auto split: if_splits)
qed

lemma last_diag_turning:
  assumes "0 < N" "0 < M" "odd M" "d = M \<or> d = M + 1"
  shows "1 - M < last_diag N M (d + 1)"
proof (cases "M = 1")
  case True
  then show ?thesis using assms by (auto simp: last_diag_def flipped_def)
next
  case False
  then show ?thesis using last_diag_range(1) [of N M "d + 1"] assms by auto
qed

text \<open>
  The search ends on the diagonal \<open>seq_length X - seq_length Y\<close>, which lies behind the first
  diagonal of the row that is read, but for two corners.
\<close>

lemma found_good:
  assumes "phase X Y st d" and rnd: "one_round X Y d st st' (Some f)"
  shows "good X Y st' f"
proof -
  define u u' lo up where "u = src_row (seq_length X) (seq_length Y) d"
    and "u' = last_diag (seq_length X) (seq_length Y) (d + 1)"
    and "lo = lo_diag Y (d + 1)" and "up = up_diag X (d + 1)"
  define M where "M = seq_length Y"
  have base: "base_ok X Y st d" using assms(1) by (simp add: phase_def)
  then have ok: "search_ok X Y" "arrays_ok st" "0 \<le> d" by (simp_all add: base_ok_def)
  then have pos: "0 < seq_length X" "0 < M" by (simp_all add: search_ok_def M_def)
  note n = round_numbers [OF ok(1,3) u_def u'_def refl lo_def up_def]
  have reach: "in_reach st lo up" using rnd by (simp add: one_round_def lo_def up_def)
  obtain s where f: "even (f - lo)" "lo \<le> f" "f \<le> up" "reaches st lo f s" "myers_diagonal X Y lo up f s = (st', True)"
    using rnd by (auto simp: one_round_def round_trace_def lo_def up_def)
  have f_eq: "f = seq_length X - M" using found_diagonal(2) [OF f(5)] by (simp add: M_def)
  then have f_M: "1 - M \<le> f" using pos by simp
  have u0: "0 \<le> u" using src_row_nonneg [OF pos ok(3)] by (simp add: u_def M_def)
  have inner: "good X Y st' f" if "rows_ok X Y st r d" "lo < f" "r < u'" "r \<le> f - 1" for r
    using row_left [OF that(1) u_def n(1) f(1) _ that(4) f(4)] that(2-4)
    by (intro found_inner [OF ok that(1) reach u_def u'_def lo_def up_def f(1) that(2) f(3-5)]) auto
  have settled: ?thesis if "settled X Y st d"
  proof -
    have "rows_ok X Y st (- M) d" "M \<le> d" using that by (simp_all add: settled_def M_def)
    then show ?thesis
      using inner [of "- M"] f_M n(5) pos lo_diag_late [of Y d] by (auto simp: lo_def M_def)
  qed
  show ?thesis
    using assms(1) unfolding phase_def
  proof (elim conjE disjE exE)
    assume early: "early X Y st d"
    then have rs: "rows_ok X Y st (- d) d" and dM: "d \<le> M" by (simp_all add: early_def M_def)
    show ?thesis
    proof (cases "d = M")
      case True
      then show ?thesis using settled early_settled [OF early] by (simp add: M_def)
    next
      case False
      then have lo: "lo = - (d + 1)" using lo_diag [of Y "d + 1"] ok(3) pos dM by (simp add: lo_def M_def)
      have par: "even (u - - d)" "odd (u' - - d)" using n(1,2) by (simp_all add: lo)
      have "- d < u'" using n(5) par(2) ok(3) by presburger
      show ?thesis
      proof (cases "lo < f")
        case True
        then have "- d \<le> f - 1" using f(1) lo by presburger
        then show ?thesis using inner [OF rs True \<open>- d < u'\<close>] by simp
      next
        case False
        then have f_lo: "f = lo" using f(2) by simp
        have src: "row_ok X Y st (- d) u (spoils (seq_length X) (seq_length Y) d)"
          using rs by (simp add: rows_ok_def u_def)
        have "inside X Y st (lo + 1)"
          using u0 par(1) ok(3) pos by (intro row_inside_low [OF src]) (auto simp: lo)
        then show ?thesis
          using found_first [OF ok(1) reach _ _ f(4,5) f_lo] n(4-6) by simp
      qed
    qed
  next
    assume turning: "turning X Y st d"
    then have rs: "rows_ok X Y st (1 - M) d" and odd: "odd M" and d: "d = M \<or> d = M + 1"
      and none: "mv st (- M) = None" by (simp_all add: turning_def M_def)
    have lo: "lo = (if d = M then - M else - M - 1)"
      using lo_diag_late [of Y d] pos d odd by (auto simp: lo_def M_def)
    have r: "1 - M < u'"
      using last_diag_turning [OF pos odd d] by (simp add: u'_def M_def)
    show ?thesis
    proof (cases "1 - M \<le> f - 1")
      case True
      then show ?thesis using inner [OF rs _ r] lo by simp
    next
      case False
      then have f_eq: "f = 1 - M" using f_M by simp
      then have dM: "d = M + 1" "lo = - M - 1" using f(1) lo d by (auto split: if_splits)
      have "kept st s (- M)" "mv s (- M) \<noteq> None"
        using f(4) pos(2) odd by (simp_all add: reaches_def dM(2) f_eq)
      then have "untouched s (- M)" using none ok(2) by (auto simp: untouched_def kept_def arrays_ok_def)
      then have "inside X Y s (f - 1)"
        using \<open>mv s (- M) \<noteq> None\<close> pos untouched_inside [of s "- M" Y X] by (simp add: M_def f_eq)
      then show ?thesis
        using r f_eq dM(2)
        by (intro found_inner [OF ok rs reach u_def u'_def lo_def up_def f(1) _ f(3-5)]) auto
    qed
  next
    assume "settled X Y st d"
    then show ?thesis by (rule settled)
  next
    fix t assume t: "shielded X Y t st d"
    then have "M + (t + 1) < seq_length X"
      using bottom_room [OF base, of "t + 1"] by (simp add: shielded_def barrier_def M_def)
    moreover have "t < u'" using t n(9) calculation pos by (auto simp: shielded_def u_def)
    moreover have "lo \<le> t" using t lo_diag [of Y "d + 1"] ok(3) pos by (auto simp: shielded_def lo_def M_def)
    ultimately show ?thesis
      using inner [of t] t f_eq by (simp add: shielded_def)
  qed
qed

subsection \<open>Progress\<close>

text \<open>
  Once neither bound of the diagonals moves any more, the largest \<open>2 * x - k\<close> of the row that is
  read grows in every round. It cannot grow beyond the sum of the two lengths.
\<close>

definition late :: "'e isequence \<Rightarrow> 'e isequence \<Rightarrow> int \<Rightarrow> myers_state \<Rightarrow> int \<Rightarrow> bool" where
  "late X Y r st d \<longleftrightarrow> base_ok X Y st d \<and>
     (r = - seq_length Y \<and> settled X Y st d \<or> shielded X Y r st d)"

definition gained :: "'e isequence \<Rightarrow> 'e isequence \<Rightarrow> int \<Rightarrow> myers_state \<Rightarrow> int \<Rightarrow> int \<Rightarrow> bool" where
  "gained X Y r st d v \<longleftrightarrow> (\<exists>k x. even (src_row (seq_length X) (seq_length Y) d - k) \<and> r \<le> k \<and>
     k \<le> src_row (seq_length X) (seq_length Y) d \<and> mv st k = Some x \<and> inside X Y st k \<and> v \<le> 2 * x - k)"

lemma late_next: "late X Y r st d \<Longrightarrow> one_round X Y d st st' None \<Longrightarrow> late X Y r st' (d + 1)"
  unfolding late_def using base_next settled_next shielded_next by blast

lemma late_phase: "late X Y r st d \<Longrightarrow> phase X Y st d"
  by (auto simp: late_def phase_def)

lemma phase_late: "phase X Y st d \<Longrightarrow> seq_length Y + 2 \<le> d \<Longrightarrow> \<exists>r. late X Y r st d"
  by (auto simp: late_def phase_def early_def turning_def)

lemma late_rows:
  assumes "late X Y r st d"
  shows "rows_ok X Y st r d" "- seq_length Y \<le> r"
  using assms by (auto simp: late_def settled_def shielded_def)

lemma insideD:
  assumes "inside X Y st k" "mv st k = Some x"
  shows "0 \<le> x" "x \<le> seq_length X" "x - k \<le> seq_length Y" "k \<le> x"
  using assms good_atD by (fastforce simp: inside_def)+

lemma gained_mono: "gained X Y r st d v \<Longrightarrow> w \<le> v \<Longrightarrow> gained X Y r st d w"
  unfolding gained_def by (meson order_trans)

lemma gained_bound: "gained X Y r st d v \<Longrightarrow> v \<le> seq_length X + seq_length Y"
  unfolding gained_def using insideD(2,3) by fastforce

lemma gained_first:
  assumes "late X Y r st d"
  shows "gained X Y r st d 0"
proof -
  define u where "u = src_row (seq_length X) (seq_length Y) d"
  have base: "base_ok X Y st d" using assms by (simp add: late_def)
  then have pos: "0 < seq_length X" "0 < seq_length Y" "0 \<le> d" by (simp_all add: base_ok_def search_ok_def)
  have u: "0 \<le> u" using src_row_nonneg [OF pos] by (simp add: u_def)
  have "row_ok X Y st r u (spoils (seq_length X) (seq_length Y) d)"
    using late_rows [OF assms] by (simp add: rows_ok_def u_def)
  note low = row_inside_low [OF this _ _ _ _ pos(1)]
  obtain k where k: "even (u - k)" "r \<le> k" "k \<le> u" "inside X Y st k"
  proof (cases "r = - seq_length Y")
    case True
    define k where "k = (if even (u - r) then r else r + 1)"
    then have "even (u - k)" "r \<le> k" "k \<le> u" "k \<le> 1" using True pos u by auto
    then show ?thesis using that low by blast
  next
    case False
    then have r: "barrier X Y st r" "r + 1 \<le> u" using assms by (auto simp: late_def shielded_def u_def)
    show ?thesis
    proof (cases "even (u - r)")
      case True
      then show ?thesis using that [of r] r by (simp add: barrier_def)
    next
      case False
      then show ?thesis using that [of "r + 1"] r by (simp add: barrier_def)
    qed
  qed
  then obtain x where x: "mv st k = Some x" by (auto simp: inside_def)
  then have "0 \<le> 2 * x - k" using insideD [OF k(4) x] by simp
  then show ?thesis using k x unfolding gained_def u_def by blast
qed

lemma first_gets:
  assumes ok: "search_ok X Y" "in_reach st lo up" "lo < up" "inside X Y st (lo + 1)"
    and tr: "round_trace X Y lo up lo st st' None"
    and top: "mv st (lo + 1) = Some a" "\<not> bottom Y st (lo + 1)"
  shows "inside X Y st' lo" "\<exists>x'. mv st' lo = Some x' \<and> a \<le> x'"
proof -
  obtain s where s: "reaches st lo lo s" "kept (fst (myers_diagonal X Y lo up lo s)) st' lo"
    using round_traceD(4) [OF tr, of lo] ok(3) by auto
  have kept: "kept st s (lo + 1)" using s(1) by (simp_all add: reaches_def)
  have a: "mv s (lo + 1) = Some a" "good_at X Y (lo + 1) a (mp s (lo + 1))" "lo + 1 \<le> a"
    using ok(4) kept top(1) by (auto simp: inside_def kept_def)
  have "arrays_ok s" using s(1) by (simp add: reaches_def)
  moreover have "half_index lo < 2 * half_length s lo" using ok(3) s by (intro in_reachD [OF ok(2)]) auto
  moreover have "\<not> bottom Y s (lo + 1)" using a(1) top by (simp add: bottom_def)
  ultimately have adv: "advanced X Y lo up lo s a"
    using diagonal_first [OF ok(1) _ _ _ a(1,2), of up] ok(3) by simp
  show "inside X Y st' lo" using advanced_inside(2) [OF adv s(2)] a(3) by simp
  show "\<exists>x'. mv st' lo = Some x' \<and> a \<le> x'" using advanced_inside(1) [OF adv s(2)] a(3) by auto
qed

lemma last_diag_late: "0 < N \<Longrightarrow> N < d \<Longrightarrow> N - 1 \<le> last_diag N M d"
  by (auto simp: last_diag_def)

lemma gained_step:
  assumes late: "late X Y r st d" and rnd: "one_round X Y d st st' None"
    and d: "seq_length X + 2 \<le> d" "seq_length Y + 2 \<le> d"
    and max: "gained X Y r st d w" "\<not> gained X Y r st d (w + 1)"
  shows "gained X Y r st' (d + 1) (w + 1)"
proof -
  define u u' lo up N M where "u = src_row (seq_length X) (seq_length Y) d"
    and "u' = last_diag (seq_length X) (seq_length Y) (d + 1)"
    and "lo = lo_diag Y (d + 1)" and "up = up_diag X (d + 1)"
    and "N = seq_length X" and "M = seq_length Y"
  have base: "base_ok X Y st d" using late by (simp add: late_def)
  then have ok: "search_ok X Y" "arrays_ok st" "0 \<le> d" by (simp_all add: base_ok_def)
  then have pos: "0 < N" "0 < M" by (simp_all add: search_ok_def N_def M_def)
  note n = round_numbers [OF ok(1,3) u_def u'_def refl lo_def up_def]
  have tr: "round_trace X Y lo up lo st st' None" and reach: "in_reach st lo up"
    using rnd by (simp_all add: one_round_def lo_def up_def)
  have src: "row_ok X Y st r u (spoils N M d)" and r: "- M \<le> r"
    using late_rows [OF late] by (simp_all add: rows_ok_def u_def N_def M_def)
  have lo: "lo = - M \<or> lo = - M - 1" using lo_diag_late [of Y d] pos d by (auto simp: lo_def M_def)
  have up: "N \<le> up" using n(6) up_diag [of X "d + 1"] ok(3) pos d by (auto simp: up_def N_def)
  have u: "u = last_diag N M d" using d by (simp add: u_def src_row_def N_def M_def)
  then have u_N: "N - 1 \<le> u" using last_diag_late [of N d M] pos d by (simp add: N_def)
  have next_row: "src_row (seq_length X) (seq_length Y) (d + 1) = u'" using d by (simp add: src_row_def u'_def)
  obtain k x where k: "even (u - k)" "r \<le> k" "k \<le> u" "mv st k = Some x" "inside X Y st k" "w \<le> 2 * x - k"
    using max(1) by (auto simp: gained_def u_def)
  have x: "0 \<le> x" "x \<le> N" "x - k \<le> M" "k \<le> x" using insideD [OF k(5,4)] by (simp_all add: N_def M_def)
  have gain: ?thesis if "even (u - (j + 1))" "r \<le> j" "j \<le> u - 1" "inside X Y st' j" "mv st' j = Some x'"
    "w + 1 \<le> 2 * x' - j" for j x'
  proof -
    have "even (u' - j)" "j \<le> u'" using that(1,3) n(9) by presburger+
    then show ?thesis using that unfolding gained_def next_row by blast
  qed
  have inner: "\<exists>x'. mv st' j = Some x' \<and> step_bound X st up j \<le> x' \<and> inside X Y st' j"
    if j: "odd (u - j)" "lo < j" "j < u" "j \<le> N" "r \<le> j - 1" "j = up \<or> \<not> bottom Y st (j + 1)" for j
  proof -
    have par: "even (j - lo)" "even (u - (j - 1))" using j(1) n(1) by presburger+
    have ins: "inside X Y st (j - 1)" using row_okD(4) [OF src par(2)] j(3,5) by simp
    then have left: "inside X Y s (j - 1)" if "reaches st lo j s" for s
      using kept_inside reaches_kept [OF that n(1) par(2)] by blast
    have "mv st (j - 1) \<noteq> None" using ins by (auto simp: inside_def)
    moreover have "j \<noteq> up \<and> bottom Y st (j + 1) \<and> kept st st' j \<or>
      inside X Y st' j \<and> (mv st (j - 1) \<noteq> None \<longrightarrow>
         (\<exists>x'. mv st' j = Some x' \<and> step_bound X st up j \<le> x' \<and> good_at X Y j x' (mp st' j)))"
      using j(4,5) up
      by (intro round_inner [OF ok(1,2) src n(1) reach tr par(1) j(2) _ j(3) _ _ left]) (auto simp: N_def)
    ultimately show ?thesis using j(6) by blast
  qed
  show ?thesis
  proof (cases "x - k < M")
    case True
    have r_k: "r \<le> k - 1 \<and> (lo < k - 1 \<longrightarrow> r \<le> k - 2)"
    proof (cases "r = - M")
      case r_eq: True
      have "lo < k - 1 \<Longrightarrow> lo + 2 \<le> k - 1" using k(1) n(1) by presburger
      then show ?thesis using r_eq True x lo by auto
    next
      case False
      then have bar: "bottom Y st r" "bottom Y st (r + 1)"
        using late by (auto simp: late_def shielded_def barrier_def M_def)
      have "k \<noteq> r" "k \<noteq> r + 1" using bar True k(4) by (auto simp: bottom_def M_def)
      then show ?thesis using k(2) by simp
    qed
    have not_bottom: "\<not> bottom Y st k" using True k(4) by (simp add: bottom_def M_def)
    have "\<exists>x'. mv st' (k - 1) = Some x' \<and> x \<le> x' \<and> inside X Y st' (k - 1)"
    proof (cases "k - 1 = lo")
      case True
      then show ?thesis
        using first_gets [OF ok(1) reach _ _ tr, of x] n(4-6) k(4,5) not_bottom by auto
    next
      case False
      then have "lo < k - 1" using lo True x by auto
      then show ?thesis
        using inner [of "k - 1"] k(1,3,4) x r_k up not_bottom by (auto simp: step_bound_def N_def)
    qed
    then show ?thesis using gain [of "k - 1"] k(1,3,6) r_k by auto
  next
    case False
    then have xk: "x = M + k" using x(3) by simp
    have "k = N - M" if "x = N" using xk that by simp
    then have "x \<noteq> N" using base k(4) by (auto simp: base_ok_def N_def M_def)
    then have "x < N" using x(2) by simp
    then have "k \<noteq> u" using xk u_N pos by auto
    then have ku: "k + 2 \<le> u" using k(1,3) by presburger
    have "\<not> bottom Y st (k + 1 + 1)"
    proof
      assume bot: "bottom Y st (k + 1 + 1)"
      then have mv: "mv st (k + 2) = Some (M + (k + 2))" by (simp add: bottom_def M_def add.commute)
      have "inside X Y st (k + 2)"
      proof (cases "k + 2 = u")
        case True
        then show ?thesis using row_okD(3) [OF src] mv pos by (auto simp: last_ok_def inside_def)
      next
        case False
        then show ?thesis using row_okD(4) [OF src, of "k + 2"] k(1,2) ku by simp
      qed
      then have "gained X Y r st d (w + 1)"
        unfolding gained_def using mv k(1,2,6) ku xk by (intro exI [of _ "k + 2"] exI [of _ "M + (k + 2)"]) (simp add: u_def [symmetric])
      then show False using max(2) by simp
    qed
    then obtain x' where "mv st' (k + 1) = Some x'" "step_bound X st up (k + 1) \<le> x'" "inside X Y st' (k + 1)"
      using inner [of "k + 1"] k(1,2) ku x \<open>x < N\<close> lo r pos by fastforce
    moreover from this(2) have "x + 1 \<le> x'" using k(4) \<open>x < N\<close> by (auto simp: step_bound_def N_def)
    ultimately show ?thesis using gain [of "k + 1" x'] k(1,2,6) ku by simp
  qed
qed

lemma gained_next:
  assumes "late X Y r st d" "one_round X Y d st st' None"
    and "seq_length X + 2 \<le> d" "seq_length Y + 2 \<le> d" "gained X Y r st d v"
  shows "gained X Y r st' (d + 1) (v + 1)"
proof -
  obtain w where w: "v \<le> w" "gained X Y r st d w"
      "\<And>w'. w < w' \<Longrightarrow> w' \<le> seq_length X + seq_length Y \<Longrightarrow> \<not> gained X Y r st d w'"
    using ex_highest [of "gained X Y r st d" v "seq_length X + seq_length Y"] assms(5) gained_bound [OF assms(5)]
    by blast
  have "\<not> gained X Y r st d (w + 1)" using w(3) [of "w + 1"] gained_bound by force
  then have "gained X Y r st' (d + 1) (w + 1)" using gained_step [OF assms(1-4) w(2)] by blast
  then show ?thesis using gained_mono w(1) by fastforce
qed

subsection \<open>The whole search\<close>

definition outcome_ok :: "'e isequence \<Rightarrow> 'e isequence \<Rightarrow> timeout \<Rightarrow> (myers_state \<times> int) option \<Rightarrow> bool" where
  "outcome_ok X Y isValid res \<longleftrightarrow>
     (case res of None \<Rightarrow> \<exists>n. \<not> isValid n | Some (st, f) \<Rightarrow> chain_ok X Y (mp st f))"

lemma rounds_step:
  assumes "phase X Y st (int d)"
    and "\<And>st'. one_round X Y (int d) st st' None \<Longrightarrow>
      \<exists>res. myers_rounds X Y isValid n (Suc d) st' = Some res \<and> outcome_ok X Y isValid res"
  shows "\<exists>res. myers_rounds X Y isValid (Suc n) d st = Some res \<and> outcome_ok X Y isValid res"
proof (cases "isValid d")
  case False
  then show ?thesis by (auto simp: outcome_ok_def)
next
  case True
  obtain st' r where r: "myers_round X Y (int d + 1) st = (st', r)" by fastforce
  have rnd: "one_round X Y (int d) st st' r" using phase_round [OF assms(1) r] .
  show ?thesis
  proof (cases r)
    case None
    then show ?thesis using assms(2) rnd r True by simp
  next
    case (Some f)
    then have "good X Y st' f" using found_good [OF assms(1)] rnd by simp
    then have "chain_ok X Y (mp st' f)" by (auto simp: good_def dest: good_atD)
    then show ?thesis using r True Some by (simp add: outcome_ok_def)
  qed
qed

lemma late_search:
  assumes "late X Y r st (int d)" "seq_length X + 2 \<le> int d" "seq_length Y + 2 \<le> int d" "gained X Y r st (int d) v"
    and "seq_length X + seq_length Y - v < int n"
  shows "\<exists>res. myers_rounds X Y isValid n d st = Some res \<and> outcome_ok X Y isValid res"
  using assms
proof (induction n arbitrary: d st v)
  case 0
  then show ?case using gained_bound by fastforce
next
  case (Suc n)
  show ?case
  proof (rule rounds_step [OF late_phase [OF Suc.prems(1)]])
    fix st' assume rnd: "one_round X Y (int d) st st' None"
    have later: "late X Y r st' (int (Suc d))" using late_next [OF Suc.prems(1) rnd] by (simp add: add.commute)
    have gain: "gained X Y r st' (int (Suc d)) (v + 1)"
      using gained_next [OF Suc.prems(1) rnd Suc.prems(2-4)] by (simp add: add.commute)
    show "\<exists>res. myers_rounds X Y isValid n (Suc d) st' = Some res \<and> outcome_ok X Y isValid res"
      by (rule Suc.IH [OF later _ _ gain]) (use Suc.prems in simp_all)
  qed
qed

text \<open>The number of rounds after which the search has ended, whatever the two sequences are.\<close>

definition enough_rounds :: "'e isequence \<Rightarrow> 'e isequence \<Rightarrow> nat" where
  "enough_rounds X Y = nat (max (seq_length X) (seq_length Y) + 2) + nat (seq_length X + seq_length Y + 1)"

lemma phase_search:
  assumes "phase X Y st (int d)" "enough_rounds X Y \<le> d + n"
    and "d \<le> nat (max (seq_length X) (seq_length Y) + 2)"
  shows "\<exists>res. myers_rounds X Y isValid n d st = Some res \<and> outcome_ok X Y isValid res"
  using assms
proof (induction n arbitrary: d st)
  case 0
  then show ?case
    by (auto simp: enough_rounds_def phase_def base_ok_def search_ok_def)
next
  case (Suc n)
  show ?case
  proof (cases "d = nat (max (seq_length X) (seq_length Y) + 2)")
    case True
    have pos: "0 < seq_length X" "0 < seq_length Y"
      using Suc.prems(1) by (simp_all add: phase_def base_ok_def search_ok_def)
    then have d: "seq_length X + 2 \<le> int d" "seq_length Y + 2 \<le> int d" using True by simp_all
    obtain r where r: "late X Y r st (int d)" using phase_late [OF Suc.prems(1) d(2)] by blast
    show ?thesis
      by (rule late_search [OF r d gained_first [OF r]])
        (use Suc.prems(2) True pos in \<open>simp add: enough_rounds_def\<close>)
  next
    case False
    show ?thesis
    proof (rule rounds_step [OF Suc.prems(1)])
      fix st' assume rnd: "one_round X Y (int d) st st' None"
      have "phase X Y st' (int (Suc d))" using phase_next [OF Suc.prems(1) rnd] by (simp add: add.commute)
      then show "\<exists>res. myers_rounds X Y isValid n (Suc d) st' = Some res \<and> outcome_ok X Y isValid res"
        by (rule Suc.IH) (use Suc.prems False in simp_all)
    qed
  qed
qed

subsection \<open>The start\<close>

definition blank_state :: myers_state where
  "blank_state = \<lparr>mV = mk_FastInt32Array, mpaths = mk_FastArrayNegativeIndices\<rparr>"

lemma blank_entries:
  "mv blank_state k = (if half_index k < 10 then Some 0 else None)" "mp blank_state k = None"
  "half_length blank_state k = 10" "arrays_ok blank_state"
  by (auto simp: blank_state_def FastInt32Array_get_def js_at_def half_index_def half_length_def arrays_ok_def
      mk_FastInt32Array_def mk_FastArrayNegativeIndices_def FastArrayNegativeIndices_get_def js_read_def)

text \<open>
  The initial state: the run of equal elements at the beginning on diagonal \<open>0\<close>, and nothing
  elsewhere.
\<close>

lemma myers_init_entries:
  assumes "search_ok X Y" "x = snake_loop X Y 0 0" "st = myers_init X Y"
  shows "arrays_ok st" "mv st 0 = Some x" "good_at X Y 0 x (mp st 0)" "0 \<le> x"
    and "mp st 0 = (if x = 0 then None else Some (SnakePath None (Some 0) (Some 0) (Some x)))"
    and "k \<noteq> 0 \<Longrightarrow> mv st k = mv blank_state k \<and> mp st k = None"
    and "10 \<le> half_length st k"
proof -
  have seqs: "seq_ok X" "seq_ok Y" using assms(1) by (simp_all add: search_ok_def)
  have "good_at X Y 0 0 None" using assms(1) by (intro good_at_None) (auto simp: search_ok_def)
  then have good: "good_at X Y 0 x (if x \<noteq> 0 then Some (SnakePath None (Some 0) (Some 0) (Some x)) else None)"
    using good_at_snake [OF seqs, of 0 0 None x] assms(2) by (simp only: diff_0_right)
  have x: "0 \<le> x" "x \<le> seq_length X" using good_atD [OF good] by simp_all
  have x32: "int32_of (Some x) = x" using x assms(1) by (simp add: int32_of_def is_int32_def search_ok_def)
  define q where "q = (if x = 0 then None else Some (SnakePath None (Some 0) (Some 0) (Some x)))"
  have range: "half_index 0 < 2 * half_length blank_state 0" by (simp add: blank_entries half_index_def)
  note facts = entry_set_facts [OF blank_entries(4) range, where v = "Some x" and q = q]
  have "FastInt32Array_get (FastInt32Array_set mk_FastInt32Array 0 (Some x)) 0 = Some x"
    using facts(1) x32 by (simp add: entry_set_def blank_state_def)
  then have st: "st = entry_set blank_state 0 (Some x) q"
    by (simp add: assms(3) myers_init_def Let_def getXAfterSnake_def entry_set_def blank_state_def q_def
        flip: assms(2))
  show "arrays_ok st" "mv st 0 = Some x" "0 \<le> x" using facts(1,4) x32 x by (simp_all add: st)
  show mp: "mp st 0 = (if x = 0 then None else Some (SnakePath None (Some 0) (Some 0) (Some x)))"
    using facts(2) by (simp add: st q_def)
  show "good_at X Y 0 x (mp st 0)" using good unfolding mp by (auto split: if_splits)
  show "mv st k = mv blank_state k \<and> mp st k = None" if "k \<noteq> 0"
  proof -
    have "mv st k = mv blank_state k"
      using that mv_entry_set [OF range] by (auto simp: st blank_entries half_index_def)
    then show ?thesis using facts(3) [OF that] by (simp add: st kept_def blank_entries)
  qed
  show "10 \<le> half_length st k" using \<open>arrays_ok st\<close> by (simp add: arrays_ok_def)
qed

lemma phase_start:
  assumes "search_ok X Y" "mv (myers_init X Y) (seq_length X - seq_length Y) \<noteq> Some (seq_length X)"
  shows "phase X Y (myers_init X Y) 0"
proof -
  define st x where "st = myers_init X Y" and "x = snake_loop X Y 0 0"
  note init = myers_init_entries [OF assms(1) x_def st_def]
  have pos: "0 < seq_length X" "0 < seq_length Y" using assms(1) by (simp_all add: search_ok_def)
  have "10 \<le> half_length st (- 1)" using init(7) .
  then have base: "base_ok X Y st 0"
    using assms init(1) pos by (simp add: base_ok_def low_room_def st_def)
  have beyond: "beyond X Y st k" if "0 < k" for k
    using that init(6) [of k] good_at_None [of 0 X k Y] pos by (auto simp: beyond_def blank_entries)
  have left: "inside X Y st (- 1)"
    using init(6) [of "- 1"] good_at_None [of 0 X "- 1" Y] pos by (auto simp: inside_def blank_entries half_index_def)
  have mid: "inside X Y st 0" using init(2-4) by (auto simp: inside_def)
  have rows: "src_row (seq_length X) (seq_length Y) 0 = 0" "old_row (seq_length X) (seq_length Y) 0 = - 1"
    using pos by (auto simp: src_row_def old_row_def row_read_def last_diag_def flipped_def)
  have odd_pos: "odd k \<Longrightarrow> - 1 < k \<Longrightarrow> 0 < k" for k :: int by presburger
  have src: "row_ok X Y st 0 0 bad" and old: "row_ok X Y st 0 (- 1) bad" for bad
    using pos inside_last_ok [OF mid] inside_last_ok [OF left] beyond odd_pos by (auto simp: row_ok_def)
  have "rows_ok X Y st 0 0" using src old left unfolding rows_ok_def rows by blast
  moreover have "untouched st k" if "k < 0" for k
    using init(6) [of k] that by (auto simp: untouched_def blank_entries)
  ultimately have "early X Y st 0" using pos by (simp add: early_def)
  then show ?thesis using base by (simp add: phase_def st_def)
qed

text \<open>
  When the two sequences are equal, the first run of equal elements reaches the end, but the code
  does not look at it before it comes to diagonal \<open>0\<close> again, in round 2 or 3.
\<close>

lemma snake_at_end: "x = seq_length X \<Longrightarrow> y \<le> seq_length Y \<Longrightarrow> snake_loop X Y x y = x"
  using snake_loop_facts [of x X y Y] by simp

lemma equal_narrow:
  assumes ok: "search_ok X Y" "seq_length X = seq_length Y" "arrays_ok st"
    and st: "mv st 0 = Some (seq_length X)" "mv st (- 1) = Some 0"
  shows "\<exists>st'. myers_diagonals X Y (- 1) 1 (- 1) st = (st', None) \<and> arrays_ok st' \<and>
    mv st' 0 = Some (seq_length X) \<and> mv st' (- 1) = Some 0 \<and> mp st' 0 = mp st 0 \<and>
    mv st' 1 = Some (seq_length X) \<and> mp st' 1 = mp st 0"
proof -
  define N st' where "N = seq_length X" and "st' = entry_set st 1 (Some N) (mp st 0)"
  have N: "0 < N" "N < 2147483648" using ok(1) by (simp_all add: search_ok_def N_def)
  have len: "10 \<le> half_length st k" for k using ok(3) by (simp add: arrays_ok_def)
  have range: "half_index 1 < 2 * half_length st 1" using len [of 1] by (simp add: half_index_def)
  have skip: "myers_diagonal X Y (- 1) 1 (- 1) st = (st, False)"
    by (rule diagonal_skip [where a = N and b = "- 1"]) (use st ok(2) N in \<open>simp_all add: top_of_def left_of_def N_def\<close>)
  have "myers_diagonal X Y (- 1) 1 1 st =
    (entry_set st 1 (Some N) (if N \<noteq> N then Some (SnakePath (mp st 0) (Some N) (Some (N - 1)) (Some (N - N))) else mp st 0),
     N = seq_length X \<and> N - 1 = seq_length Y)"
    by (rule diagonal_write [OF ok(1,3) range, where a = "- 1" and b = "N + 1"])
      (use st ok(2) N in \<open>simp_all add: top_of_def left_of_def snake_at_end N_def\<close>)
  then have stored: "myers_diagonal X Y (- 1) 1 1 st = (st', False)"
    using ok(2) by (simp add: st'_def N_def)
  have "myers_diagonals X Y (- 1) 1 (- 1) st = (st', None)"
    by (simp add: myers_diagonals.simps skip stored)
  moreover note facts = entry_set_facts [OF ok(3) range, where v = "Some N" and q = "mp st 0", folded st'_def]
  have k: "kept st st' 0" "kept st st' (- 1)" using facts(3) by simp_all
  have "mv st' 0 = Some N" "mv st' (- 1) = Some 0" "mp st' 0 = mp st 0"
    using k(1) kept_Some [OF k(1) st(1)] kept_Some [OF k(2) st(2)] by (simp_all add: kept_def N_def)
  moreover have "mv st' 1 = Some N" using facts(1) N by (simp add: int32_of_def is_int32_def)
  ultimately show ?thesis using facts(2,4) by (auto simp: N_def)
qed

lemma equal_wide:
  assumes ok: "search_ok X Y" "seq_length X = seq_length Y" "arrays_ok st"
    and st: "mv st 0 = Some (seq_length X)" "mv st (- 1) = Some 0" "mv st 1 = Some (seq_length X)" "mp st 1 = q"
  shows "\<exists>st'. myers_diagonals X Y (- 2) 2 (- 2) st = (st', Some 0) \<and> mp st' 0 = q"
proof -
  define N where "N = seq_length X"
  have N: "0 < N" using ok(1) by (simp add: search_ok_def N_def)
  have len: "10 \<le> half_length st k" for k using ok(3) by (simp add: arrays_ok_def)
  have range: "half_index (- 2) < 2 * half_length st (- 2)" using len [of "- 2"] by (simp add: half_index_def)
  obtain s b where s: "myers_diagonal X Y (- 2) 2 (- 2) st = (s, b)" by fastforce
  have not_found: "\<not> b" using found_diagonal(2) s ok(2) by (cases b) fastforce+
  note keeps = diagonal_keeps [OF ok(3) range, where X = X and Y = Y and lo = "- 2" and up = 2]
  have sa: "arrays_ok s" and sk: "kept st s k" if "k \<noteq> - 2" for k using keeps s that by simp_all
  have ms: "mv s (- 1) = Some 0" "mv s 1 = Some N" "mp s 1 = q"
    using kept_Some [OF sk st(2)] kept_Some [OF sk st(3)] sk [of 1] st(4) by (simp_all add: N_def kept_def)
  have "arrays_ok s" using sa [of 0] by simp
  moreover have "10 \<le> half_length s 0" using calculation by (simp add: arrays_ok_def)
  ultimately have "myers_diagonal X Y (- 2) 2 0 s =
    (entry_set s 0 (Some N) (if N \<noteq> N then Some (SnakePath q (Some N) (Some (N - 0)) (Some (N - N))) else q),
     N = seq_length X \<and> N - 0 = seq_length Y)"
    by (intro diagonal_write [OF ok(1), where a = N and b = 1])
      (use ms ok(2) N in \<open>simp_all add: top_of_def left_of_def snake_at_end N_def half_index_def\<close>)
  then have "myers_diagonals X Y (- 2) 2 (- 2) st = (entry_set s 0 (Some N) q, Some 0)"
    using s not_found ok(2) by (simp add: myers_diagonals.simps N_def)
  then show ?thesis by (simp add: entry_set_def mp_set)
qed

lemma equal_search:
  assumes ok: "search_ok X Y" "seq_length X = seq_length Y" "arrays_ok st"
    and st: "mv st 0 = Some (seq_length X)" "mv st (- 1) = Some 0" "chain_ok X Y (mp st 0)"
  shows "\<exists>res. myers_rounds X Y isValid (Suc (Suc (Suc n))) 0 st = Some res \<and> outcome_ok X Y isValid res"
proof -
  have stop: "\<exists>res. myers_rounds X Y isValid (Suc m) d s = Some res \<and> outcome_ok X Y isValid res"
    if "\<not> isValid d" for m d s using that by (auto simp: outcome_ok_def)
  have wide: "\<exists>res. myers_rounds X Y isValid (Suc m) d s = Some res \<and> outcome_ok X Y isValid res"
    if "myers_round X Y (int d + 1) s = (s', Some 0)" "mp s' 0 = mp st 0" for m d s s'
    using that stop [of d m s] st(3) by (cases "isValid d") (simp_all add: outcome_ok_def)
  obtain s1 where s1: "myers_diagonals X Y (- 1) 1 (- 1) st = (s1, None)" "arrays_ok s1"
      "mv s1 0 = Some (seq_length X)" "mv s1 (- 1) = Some 0" "mp s1 0 = mp st 0"
      "mv s1 1 = Some (seq_length X)" "mp s1 1 = mp st 0"
    using equal_narrow [OF ok st(1,2)] by auto
  have r1: "myers_round X Y 1 st = (s1, None)"
    using s1(1) ok(1) by (simp add: myers_round_def myers_lowerBound_def myers_upperBound_def search_ok_def min_def)
  have "\<exists>res. myers_rounds X Y isValid (Suc (Suc n)) 1 s1 = Some res \<and> outcome_ok X Y isValid res"
  proof (cases "seq_length Y = 1")
    case False
    then have bounds: "myers_lowerBound Y 2 = - 2" "myers_upperBound X 2 = 2"
      using ok(1,2) by (simp_all add: myers_lowerBound_def myers_upperBound_def search_ok_def)
    obtain s2 where "myers_diagonals X Y (- 2) 2 (- 2) s1 = (s2, Some 0)" "mp s2 0 = mp st 0"
      using equal_wide [OF ok(1,2) s1(2,3,4,6,7)] by blast
    then show ?thesis
      using wide [of 1 s1 s2] by (simp add: myers_round_def bounds)
  next
    case True
    have bounds: "myers_lowerBound Y 2 = - 1" "myers_upperBound X 2 = 1" "myers_lowerBound Y 3 = - 2" "myers_upperBound X 3 = 2"
      using ok(2) True by (simp_all add: myers_lowerBound_def myers_upperBound_def)
    obtain s2 where s2: "myers_diagonals X Y (- 1) 1 (- 1) s1 = (s2, None)" "arrays_ok s2"
        "mv s2 0 = Some (seq_length X)" "mv s2 (- 1) = Some 0" "mv s2 1 = Some (seq_length X)" "mp s2 1 = mp st 0"
      using equal_narrow [OF ok(1,2) s1(2-4)] s1(5) by auto
    obtain s3 where "myers_diagonals X Y (- 2) 2 (- 2) s2 = (s3, Some 0)" "mp s3 0 = mp st 0"
      using equal_wide [OF ok(1,2) s2(2-6)] by blast
    then have "\<exists>res. myers_rounds X Y isValid (Suc n) 2 s2 = Some res \<and> outcome_ok X Y isValid res"
      using wide [of 2 s2 s3] by (simp add: myers_round_def bounds)
    moreover have "myers_round X Y 2 s1 = (s2, None)" using s2(1) by (simp add: myers_round_def bounds)
    ultimately show ?thesis using stop [of 1 "Suc n" s1] by (cases "isValid 1") (simp_all add: numeral_2_eq_2)
  qed
  then show ?thesis using r1 stop [of 0 "Suc (Suc n)" st] by (cases "isValid 0") simp_all
qed

subsection \<open>The algorithm\<close>

lemma search_ends:
  assumes "search_ok X Y"
  shows "\<exists>res. myers_rounds X Y isValid (enough_rounds X Y) 0 (myers_init X Y) = Some res \<and> outcome_ok X Y isValid res"
proof (cases "mv (myers_init X Y) (seq_length X - seq_length Y) = Some (seq_length X)")
  case False
  then have "phase X Y (myers_init X Y) (int 0)" using phase_start [OF assms] by simp
  then show ?thesis by (rule phase_search) simp_all
next
  case True
  note init = myers_init_entries [OF assms refl refl]
  have pos: "0 < seq_length X" "0 < seq_length Y" using assms by (simp_all add: search_ok_def)
  have eq: "seq_length X = seq_length Y"
  proof (rule ccontr)
    assume "seq_length X \<noteq> seq_length Y"
    then have "mv (myers_init X Y) (seq_length X - seq_length Y) = mv blank_state (seq_length X - seq_length Y)"
      using init(6) by simp
    then show False using True pos by (simp add: blank_entries split: if_splits)
  qed
  have "mv (myers_init X Y) (- 1) = Some 0" using init(6) [of "- 1"] by (simp add: blank_entries half_index_def)
  moreover have "chain_ok X Y (mp (myers_init X Y) 0)" using good_atD(4) [OF init(3)] .
  moreover have "mv (myers_init X Y) 0 = Some (seq_length X)" using True eq by simp
  moreover obtain n where "enough_rounds X Y = Suc (Suc (Suc n))"
    using pos by (intro that [of "enough_rounds X Y - 3"]) (simp add: enough_rounds_def)
  ultimately show ?thesis using equal_search [OF assms eq init(1)] by metis
qed

lemma myers_covered:
  assumes "search_ok X Y"
  shows "\<exists>ds timed_out. MyersDiffAlgorithm_compute X Y isValid = Some (Inr (DiffAlgorithmResult ds timed_out)) \<and>
    covered X Y 0 0 ds \<and> (timed_out \<longrightarrow> (\<exists>n. \<not> isValid n))"
proof -
  have pos: "0 < seq_length X" "0 < seq_length Y" using assms by (simp_all add: search_ok_def)
  obtain res where res: "myers_loop X Y isValid 0 (myers_init X Y) = Some res" "outcome_ok X Y isValid res"
    using search_ends [OF assms] myers_rounds_loop by blast
  show ?thesis
  proof (cases res)
    case None
    then show ?thesis
      using res pos by (auto simp: MyersDiffAlgorithm_compute_def trivial_result outcome_ok_def covered_def nonempty_diff_def)
  next
    case (Some sf)
    obtain st f where sf: "sf = (st, f)" by fastforce
    have chain: "chain_ok X Y (mp st f)" using res(2) by (simp add: outcome_ok_def Some sf)
    have "fst (path_end (mp st f)) \<le> seq_length X" "snd (path_end (mp st f)) \<le> seq_length Y"
      using chain_end_bounds [OF chain] pos by simp_all
    then obtain ds where "snake_backtrack (mp st f) (Some (seq_length X)) (Some (seq_length Y)) [] = Inr ds"
        "covered X Y 0 0 (rev ds)"
      using snake_backtrack_ok [OF chain, of "seq_length X" "seq_length Y" "[]"] pos
      by (auto simp: covered_start before_first_def)
    then show ?thesis
      using res(1) pos
      by (intro exI [of _ "rev ds"] exI [of _ False]) (simp add: MyersDiffAlgorithm_compute_def Some sf)
  qed
qed

text \<open>C5:
  The outer loop of \<open>MyersDiffAlgorithm.compute\<close>, written \<open>while (true)\<close>, ends: for two sequences
  that are not empty, with less than $2^{31}$ elements, it is over after at most
  \<open>max m n + m + n + 3\<close> rounds, whatever its timeout answers and although the code reads entries
  of its array that were never written.
\<close>

theorem MyersDiffAlgorithm_terminates:
  assumes "seq_ok seqX" "seq_ok seqY" "0 < seq_length seqX" "0 < seq_length seqY" "seq_length seqX < 2147483648"
  shows "\<exists>res. myers_loop seqX seqY isValid 0 (myers_init seqX seqY) = Some res \<and>
    myers_rounds seqX seqY isValid
      (nat (max (seq_length seqX) (seq_length seqY) + seq_length seqX + seq_length seqY + 3)) 0
      (myers_init seqX seqY) = Some res"
proof -
  have ok: "search_ok seqX seqY" using assms by (simp add: search_ok_def)
  have "enough_rounds seqX seqY = nat (max (seq_length seqX) (seq_length seqY) + seq_length seqX + seq_length seqY + 3)"
    using assms(3,4) by (simp add: enough_rounds_def nat_add_distrib [symmetric] add.assoc)
  then show ?thesis using search_ends [OF ok, of isValid] myers_rounds_loop by metis
qed

theorem MyersDiffAlgorithm_terminates_witness:
  "\<exists>res. myers_loop (list_sequence ''abc'') (list_sequence ''bd'') InfiniteTimeout 0
      (myers_init (list_sequence ''abc'') (list_sequence ''bd'')) = Some res"
proof -
  show ?thesis
    using MyersDiffAlgorithm_terminates [of "list_sequence ''abc''" "list_sequence ''bd''" InfiniteTimeout]
    by (simp del: myers_rounds.simps) blast
qed

text \<open>C6:
  \<open>MyersDiffAlgorithm.compute\<close> returns an alignment: the diffs are in order, everything between
  them is equal in the two sequences, and unless a sequence is empty no diff is empty and no two
  of them touch. \<open>hitTimeout\<close> is set only if the timeout did not answer \<open>true\<close> at some point. So
  the entries that the search loses to \<open>NaN\<close> may cost a longer diff, but never a wrong one.
\<close>

theorem MyersDiffAlgorithm_aligns:
  assumes "seq_ok seq1" "seq_ok seq2" "seq_length seq1 < 2147483648"
  shows "\<exists>ds timed_out. MyersDiffAlgorithm_compute seq1 seq2 isValid = Some (Inr (DiffAlgorithmResult ds timed_out)) \<and>
    aligned seq1 seq2 0 0 ds \<and> SequenceDiff_assertSorted ds = Inr () \<and>
    (seq_length seq1 \<noteq> 0 \<and> seq_length seq2 \<noteq> 0 \<longrightarrow> diffs_separated ds \<and> (\<forall>d \<in> set ds. nonempty_diff d)) \<and>
    (timed_out \<longrightarrow> (\<exists>n. \<not> isValid n))"
proof (cases "seq_length seq1 = 0 \<or> seq_length seq2 = 0")
  case True
  have len: "0 \<le> seq_length seq1" "0 \<le> seq_length seq2" using assms(1,2) by (simp_all add: seq_ok_def)
  define ds where "ds = [SequenceDiff (OffsetRange 0 (seq_length seq1)) (OffsetRange 0 (seq_length seq2))]"
  have "MyersDiffAlgorithm_compute seq1 seq2 isValid = Some (Inr (DiffAlgorithmResult ds False))"
    using True len by (simp add: MyersDiffAlgorithm_compute_def trivial_result ds_def)
  moreover have "aligned seq1 seq2 0 0 ds" using len by (simp add: ds_def)
  ultimately show ?thesis using True aligned_sorted by blast
next
  case False
  then have "search_ok seq1 seq2" using assms by (auto simp: search_ok_def seq_ok_def)
  then obtain ds to where
    "MyersDiffAlgorithm_compute seq1 seq2 isValid = Some (Inr (DiffAlgorithmResult ds to))"
    "covered seq1 seq2 0 0 ds" "to \<longrightarrow> (\<exists>n. \<not> isValid n)"
    using myers_covered [of seq1 seq2 isValid] by blast
  then show ?thesis unfolding covered_def using aligned_sorted by blast
qed

theorem MyersDiffAlgorithm_aligns_witness:
  "\<exists>ds. MyersDiffAlgorithm_compute (list_sequence ''abc'') (list_sequence ''adce'') InfiniteTimeout =
      Some (Inr (DiffAlgorithmResult ds False)) \<and> patch ''abc'' ''adce'' 0 ds = ''adce''"
proof -
  have "seq_length (list_sequence ''abc'') < 2147483648" by simp
  from MyersDiffAlgorithm_aligns [OF list_sequence_ok list_sequence_ok this, of "''adce''" InfiniteTimeout]
  obtain ds where "MyersDiffAlgorithm_compute (list_sequence ''abc'') (list_sequence ''adce'') InfiniteTimeout =
      Some (Inr (DiffAlgorithmResult ds False))" "aligned (list_sequence ''abc'') (list_sequence ''adce'') 0 0 ds"
    by (auto simp: InfiniteTimeout_def)
  then show ?thesis using aligned_patch_all [OF list_sequence_presents list_sequence_presents] by blast
qed

end
