(* ===== verification/DynamicProgrammingDiffing.thy ===== *)
theory DynamicProgrammingDiffing
  imports DiffAlgorithm
begin

section \<open>Diff by dynamic programming: \<open>algorithms/dynamicProgrammingDiffing.ts\<close>\<close>

text \<open>
  \<open>DynamicProgrammingDiffing.compute\<close> fills three tables, one cell per pair of positions, and walks
  back from the last cell along the recorded directions. The tables are \<open>Array2D\<close>s of
  \<open>diff/defaultLinesDiffComputer/utils.ts\<close>: one flat array that starts as \<open>width * height\<close> holes.
  The scores may be any ordered ring of numbers: the code only adds and compares them, and which
  scores win does not matter for the correctness of the result.

  Reading a hole gives \<open>undefined\<close>; where the code would calculate with it the model stops with a
  \<open>TypeError\<close>, and the lemmas show that this does not come up. The theorem
  \<open>DynamicProgrammingDiffing_aligns\<close> says that the result is an alignment, for every score function
  and every timeout.
\<close>

subsection \<open>\<open>Array2D\<close>\<close>

record 'a array2d =
  width :: int
  height :: int
  cells :: "'a option list"

definition mk_Array2D :: "int \<Rightarrow> int \<Rightarrow> 'a array2d" where
  "mk_Array2D w h = \<lparr>width = w, height = h, cells = replicate (nat (w * h)) None\<rparr>"

definition Array2D_get :: "'a array2d \<Rightarrow> int \<Rightarrow> int \<Rightarrow> 'a option" where
  "Array2D_get t x y = (case js_at (cells t) (x + y * width t) of Some c \<Rightarrow> c | None \<Rightarrow> None)"

text \<open>Only called with an index inside the array, see \<open>cell_index_bounds\<close>.\<close>

definition Array2D_set :: "'a array2d \<Rightarrow> int \<Rightarrow> int \<Rightarrow> 'a \<Rightarrow> 'a array2d" where
  "Array2D_set t x y v = t\<lparr>cells := (cells t)[nat (x + y * width t) := Some v]\<rparr>"

definition array2d_ok :: "int \<Rightarrow> int \<Rightarrow> 'a array2d \<Rightarrow> bool" where
  "array2d_ok w h t \<longleftrightarrow> width t = w \<and> height t = h \<and> int (length (cells t)) = w * h"

text \<open>The interface the algorithm uses: a table of optional values over a rectangle.\<close>

locale table =
  fixes get_cell :: "'t \<Rightarrow> int \<Rightarrow> int \<Rightarrow> 'a option"
    and set_cell :: "'t \<Rightarrow> int \<Rightarrow> int \<Rightarrow> 'a \<Rightarrow> 't"
    and table_ok :: "int \<Rightarrow> int \<Rightarrow> 't \<Rightarrow> bool"
  assumes ok_set: "table_ok w h t \<Longrightarrow> table_ok w h (set_cell t x y v)"
    and get_set: "table_ok w h t \<Longrightarrow> 0 \<le> x \<Longrightarrow> x < w \<Longrightarrow> 0 \<le> y \<Longrightarrow> y < h \<Longrightarrow>
      0 \<le> x' \<Longrightarrow> x' < w \<Longrightarrow> 0 \<le> y' \<Longrightarrow> y' < h \<Longrightarrow>
      get_cell (set_cell t x y v) x' y' = (if x = x' \<and> y = y' then Some v else get_cell t x' y')"
begin

lemma get_set_same:
  "table_ok w h t \<Longrightarrow> 0 \<le> x \<Longrightarrow> x < w \<Longrightarrow> 0 \<le> y \<Longrightarrow> y < h \<Longrightarrow> get_cell (set_cell t x y v) x y = Some v"
  by (simp add: get_set)

lemma get_set_defined:
  "table_ok w h t \<Longrightarrow> 0 \<le> x \<Longrightarrow> x < w \<Longrightarrow> 0 \<le> y \<Longrightarrow> y < h \<Longrightarrow>
      0 \<le> x' \<Longrightarrow> x' < w \<Longrightarrow> 0 \<le> y' \<Longrightarrow> y' < h \<Longrightarrow>
      get_cell (set_cell t x y v) x' y' = None \<longleftrightarrow> \<not> (x = x' \<and> y = y') \<and> get_cell t x' y' = None"
  by (auto simp: get_set)

end

lemma cell_index_bounds:
  fixes x y w h :: int
  assumes "0 \<le> x" "x < w" "0 \<le> y" "y < h"
  shows "0 \<le> x + y * w" "x + y * w < w * h"
proof -
  have "0 \<le> y * w" using assms by (intro mult_nonneg_nonneg) auto
  then show "0 \<le> x + y * w" using assms by simp
  have "y * w \<le> (h - 1) * w" using assms by (intro mult_right_mono) auto
  then show "x + y * w < w * h" using assms by (simp add: algebra_simps)
qed

lemma cell_index_eq:
  assumes "0 \<le> x" "x < w" "0 \<le> x'" "x' < w" "x + y * w = x' + y' * (w :: int)"
  shows "x = x' \<and> y = y'"
proof -
  have "(x + y * w) mod w = x" "(x' + y' * w) mod w = x'" using assms(1-4) by simp_all
  with assms(5) have "x = x'" by simp
  with assms show ?thesis by simp
qed

lemma Array2D_get_set:
  assumes "array2d_ok w h t" "0 \<le> x" "x < w" "0 \<le> y" "y < h" "0 \<le> x'" "x' < w" "0 \<le> y'" "y' < h"
  shows "Array2D_get (Array2D_set t x y v) x' y' =
    (if x = x' \<and> y = y' then Some v else Array2D_get t x' y')"
proof -
  have t: "width t = w" "int (length (cells t)) = w * h" using assms(1) by (simp_all add: array2d_ok_def)
  have i: "0 \<le> x + y * w" "x + y * w < w * h" and i': "0 \<le> x' + y' * w" "x' + y' * w < w * h"
    using cell_index_bounds assms by blast+
  have "nat (x + y * w) = nat (x' + y' * w) \<longleftrightarrow> x = x' \<and> y = y'"
    using eq_nat_nat_iff [OF i(1) i'(1)] cell_index_eq [of x w x' y y'] assms by auto
  moreover have "nat (x + y * w) < length (cells t)" "nat (x' + y' * w) < length (cells t)"
    using i i' t(2) by linarith+
  ultimately show ?thesis
    using i' t by (simp add: Array2D_get_def Array2D_set_def js_at_def nth_list_update)
qed

interpretation grid: table Array2D_get Array2D_set array2d_ok
  by unfold_locales (simp_all add: Array2D_get_set, simp add: array2d_ok_def Array2D_set_def)

lemma mk_Array2D_ok: "0 \<le> w \<Longrightarrow> 0 \<le> h \<Longrightarrow> array2d_ok w h (mk_Array2D w h)"
  by (simp add: array2d_ok_def mk_Array2D_def)

lemma mk_Array2D_get: "Array2D_get (mk_Array2D w h) x y = None"
  by (cases "0 \<le> w * h") (auto simp: Array2D_get_def mk_Array2D_def js_at_def)

subsection \<open>Filling the tables\<close>

record 'n dp_state =
  lcsLengths :: "'n array2d"
  directions :: "int array2d"
  lengths :: "'n array2d"
  calls :: nat

definition defined :: "'a option \<Rightarrow> 'a result" where
  "defined v = (case v of Some x \<Rightarrow> Inr x | None \<Rightarrow> Inl TypeError)"

lemma defined_simps [simp]: "defined (Some x) = Inr x" "defined None = Inl TypeError"
  by (simp_all add: defined_def)

definition dp_extendedSeqScore ::
  "'e isequence \<Rightarrow> 'e isequence \<Rightarrow> (int \<Rightarrow> int \<Rightarrow> 'n :: linordered_idom) option \<Rightarrow> int \<Rightarrow> int \<Rightarrow>
     'n dp_state \<Rightarrow> 'n result" where
  "dp_extendedSeqScore sequence1 sequence2 equalityScore s1 s2 st =
     (if getElement sequence1 s1 = getElement sequence2 s2 then
        bind_result (if s1 = 0 \<or> s2 = 0 then Inr 0
                     else defined (Array2D_get (lcsLengths st) (s1 - 1) (s2 - 1))) (\<lambda>score.
        bind_result (if 0 < s1 \<and> 0 < s2 \<and> Array2D_get (directions st) (s1 - 1) (s2 - 1) = Some 3
                     then bind_result (defined (Array2D_get (lengths st) (s1 - 1) (s2 - 1)))
                            (\<lambda>l. Inr (score + l))
                     else Inr score) (\<lambda>score'.
        Inr (score' + (case equalityScore of Some f \<Rightarrow> f s1 s2 | None \<Rightarrow> 1))))
      else Inr (- 1))"

definition dp_cell ::
  "'e isequence \<Rightarrow> 'e isequence \<Rightarrow> (int \<Rightarrow> int \<Rightarrow> 'n :: linordered_idom) option \<Rightarrow> int \<Rightarrow> int \<Rightarrow>
     'n dp_state \<Rightarrow> 'n dp_state result" where
  "dp_cell sequence1 sequence2 equalityScore s1 s2 st =
     bind_result (if s1 = 0 then Inr 0 else defined (Array2D_get (lcsLengths st) (s1 - 1) s2))
       (\<lambda>horizontalLen.
     bind_result (if s2 = 0 then Inr 0 else defined (Array2D_get (lcsLengths st) s1 (s2 - 1)))
       (\<lambda>verticalLen.
     bind_result (dp_extendedSeqScore sequence1 sequence2 equalityScore s1 s2 st)
       (\<lambda>extendedSeqScore.
     let newValue = max (max horizontalLen verticalLen) extendedSeqScore in
     bind_result
       (if newValue = extendedSeqScore then
          bind_result (if 0 < s1 \<and> 0 < s2 then defined (Array2D_get (lengths st) (s1 - 1) (s2 - 1))
                       else Inr 0) (\<lambda>prevLen.
          Inr (st\<lparr>lengths := Array2D_set (lengths st) s1 s2 (prevLen + 1),
                  directions := Array2D_set (directions st) s1 s2 3\<rparr>))
        else if newValue = horizontalLen then
          Inr (st\<lparr>lengths := Array2D_set (lengths st) s1 s2 0,
                  directions := Array2D_set (directions st) s1 s2 1\<rparr>)
        else if newValue = verticalLen then
          Inr (st\<lparr>lengths := Array2D_set (lengths st) s1 s2 0,
                  directions := Array2D_set (directions st) s1 s2 2\<rparr>)
        else Inr st) (\<lambda>st'.
     Inr (st'\<lparr>lcsLengths := Array2D_set (lcsLengths st') s1 s2 newValue\<rparr>)))))"

text \<open>
  The two loops, over the list of the indices they run through. \<open>None\<close> is the early return after
  a timeout.
\<close>

fun dp_columns ::
  "'e isequence \<Rightarrow> 'e isequence \<Rightarrow> timeout \<Rightarrow> (int \<Rightarrow> int \<Rightarrow> 'n :: linordered_idom) option \<Rightarrow> int \<Rightarrow>
     int list \<Rightarrow> 'n dp_state \<Rightarrow> 'n dp_state option result" where
  "dp_columns sequence1 sequence2 isValid equalityScore s1 [] st = Inr (Some st)"
| "dp_columns sequence1 sequence2 isValid equalityScore s1 (s2 # rest) st =
     (if \<not> isValid (calls st) then Inr None
      else bind_result (dp_cell sequence1 sequence2 equalityScore s1 s2 (st\<lparr>calls := Suc (calls st)\<rparr>))
             (dp_columns sequence1 sequence2 isValid equalityScore s1 rest))"

fun dp_rows ::
  "'e isequence \<Rightarrow> 'e isequence \<Rightarrow> timeout \<Rightarrow> (int \<Rightarrow> int \<Rightarrow> 'n :: linordered_idom) option \<Rightarrow>
     int list \<Rightarrow> 'n dp_state \<Rightarrow> 'n dp_state option result" where
  "dp_rows sequence1 sequence2 isValid equalityScore [] st = Inr (Some st)"
| "dp_rows sequence1 sequence2 isValid equalityScore (s1 # rest) st =
     bind_result (dp_columns sequence1 sequence2 isValid equalityScore s1
                    [0 .. seq_length sequence2 - 1] st) (\<lambda>r.
     case r of None \<Rightarrow> Inr None
     | Some st' \<Rightarrow> dp_rows sequence1 sequence2 isValid equalityScore rest st')"

definition dp_init :: "'e isequence \<Rightarrow> 'e isequence \<Rightarrow> 'n dp_state" where
  "dp_init sequence1 sequence2 =
     \<lparr>lcsLengths = mk_Array2D (seq_length sequence1) (seq_length sequence2),
      directions = mk_Array2D (seq_length sequence1) (seq_length sequence2),
      lengths = mk_Array2D (seq_length sequence1) (seq_length sequence2), calls = 0\<rparr>"

subsection \<open>Walking back\<close>

record backtrack_state =
  pushed :: "sequence_diff list"
  lastAligningPosS1 :: int
  lastAligningPosS2 :: int

definition reportDecreasingAligningPositions ::
  "int \<Rightarrow> int \<Rightarrow> backtrack_state \<Rightarrow> backtrack_state result" where
  "reportDecreasingAligningPositions s1 s2 b =
     bind_result
       (if s1 + 1 \<noteq> lastAligningPosS1 b \<or> s2 + 1 \<noteq> lastAligningPosS2 b then
          bind_result (mk_OffsetRange (s1 + 1) (lastAligningPosS1 b)) (\<lambda>r1.
          bind_result (mk_OffsetRange (s2 + 1) (lastAligningPosS2 b)) (\<lambda>r2.
          Inr (b\<lparr>pushed := pushed b @ [SequenceDiff r1 r2]\<rparr>)))
        else Inr b) (\<lambda>b'.
     Inr (b'\<lparr>lastAligningPosS1 := s1, lastAligningPosS2 := s2\<rparr>))"

function dp_backtrack :: "int array2d \<Rightarrow> int \<Rightarrow> int \<Rightarrow> backtrack_state \<Rightarrow> backtrack_state result" where
  "dp_backtrack dirs s1 s2 b =
     (if 0 \<le> s1 \<and> 0 \<le> s2 then
        if Array2D_get dirs s1 s2 = Some 3 then
          bind_result (reportDecreasingAligningPositions s1 s2 b) (dp_backtrack dirs (s1 - 1) (s2 - 1))
        else if Array2D_get dirs s1 s2 = Some 1 then dp_backtrack dirs (s1 - 1) s2 b
        else dp_backtrack dirs s1 (s2 - 1) b
      else Inr b)"
  by pat_completeness auto
termination
  by (relation "measure (\<lambda>(dirs, s1, s2, b). nat (s1 + 1) + nat (s2 + 1))") auto

declare dp_backtrack.simps [simp del]

definition DynamicProgrammingDiffing_compute ::
  "'e isequence \<Rightarrow> 'e isequence \<Rightarrow> timeout \<Rightarrow> (int \<Rightarrow> int \<Rightarrow> 'n :: linordered_idom) option \<Rightarrow>
     diff_algorithm_result result" where
  "DynamicProgrammingDiffing_compute sequence1 sequence2 isValid equalityScore =
     (if seq_length sequence1 = 0 \<or> seq_length sequence2 = 0
      then DiffAlgorithmResult_trivial sequence1 sequence2
      else
        bind_result (dp_rows sequence1 sequence2 isValid equalityScore [0 .. seq_length sequence1 - 1]
                       (dp_init sequence1 sequence2)) (\<lambda>r.
        case r of
          None \<Rightarrow> DiffAlgorithmResult_trivialTimedOut sequence1 sequence2
        | Some st \<Rightarrow>
            bind_result (dp_backtrack (directions st) (seq_length sequence1 - 1) (seq_length sequence2 - 1)
              \<lparr>pushed = [], lastAligningPosS1 = seq_length sequence1,
               lastAligningPosS2 = seq_length sequence2\<rparr>) (\<lambda>b.
            bind_result (reportDecreasingAligningPositions (- 1) (- 1) b) (\<lambda>b'.
            Inr (DiffAlgorithmResult (rev (pushed b')) False)))))"

subsection \<open>The tables\<close>

text \<open>
  Before cell \<open>(r, c)\<close> is computed, the cells before it hold a score that is not negative, and
  a direction \<open>3\<close> is only ever recorded for a pair of equal elements.
\<close>

definition dp_ok ::
  "'e isequence \<Rightarrow> 'e isequence \<Rightarrow> int \<Rightarrow> int \<Rightarrow> 'n :: linordered_idom dp_state \<Rightarrow> bool" where
  "dp_ok seq1 seq2 r c st \<longleftrightarrow>
     array2d_ok (seq_length seq1) (seq_length seq2) (lcsLengths st) \<and>
     array2d_ok (seq_length seq1) (seq_length seq2) (directions st) \<and>
     array2d_ok (seq_length seq1) (seq_length seq2) (lengths st) \<and>
     (\<forall>x y. 0 \<le> x \<and> x < seq_length seq1 \<and> 0 \<le> y \<and> y < seq_length seq2 \<longrightarrow>
        (x < r \<or> x = r \<and> y < c \<longrightarrow>
           (\<exists>v. Array2D_get (lcsLengths st) x y = Some v \<and> 0 \<le> v) \<and>
           (\<exists>l. Array2D_get (lengths st) x y = Some l)) \<and>
        (Array2D_get (directions st) x y = Some 3 \<longrightarrow> getElement seq1 x = getElement seq2 y))"

lemma dp_okD:
  assumes "dp_ok seq1 seq2 r c st" "0 \<le> x" "x < seq_length seq1" "0 \<le> y" "y < seq_length seq2"
  shows "x < r \<or> x = r \<and> y < c \<Longrightarrow> \<exists>v. Array2D_get (lcsLengths st) x y = Some v \<and> 0 \<le> v"
    and "x < r \<or> x = r \<and> y < c \<Longrightarrow> \<exists>l. Array2D_get (lengths st) x y = Some l"
    and "Array2D_get (directions st) x y = Some 3 \<Longrightarrow> getElement seq1 x = getElement seq2 y"
  using assms unfolding dp_ok_def by blast+

lemma dp_ok_calls: "dp_ok seq1 seq2 r c (st\<lparr>calls := n\<rparr>) = dp_ok seq1 seq2 r c st"
  by (cases st) (simp only: dp_ok_def dp_state.simps)

lemma dp_extendedSeqScore_total:
  assumes ok: "dp_ok seq1 seq2 r c st"
    and r: "0 \<le> r" "r < seq_length seq1" and c: "0 \<le> c" "c < seq_length seq2"
  shows "\<exists>v. dp_extendedSeqScore seq1 seq2 score r c st = Inr v \<and>
    (getElement seq1 r \<noteq> getElement seq2 c \<longrightarrow> v = - 1)"
proof (cases "r = 0 \<or> c = 0")
  case True
  then show ?thesis by (elim disjE) (simp_all add: dp_extendedSeqScore_def)
next
  case False
  then obtain v l where "Array2D_get (lcsLengths st) (r - 1) (c - 1) = Some v"
      "Array2D_get (lengths st) (r - 1) (c - 1) = Some l"
    using dp_okD(1,2) [OF ok, of "r - 1" "c - 1"] r c by auto
  with False show ?thesis by (simp add: dp_extendedSeqScore_def)
qed

text \<open>Writing the cell \<open>(r, c)\<close> of the three tables moves the invariant on.\<close>

lemma dp_ok_write:
  assumes ok: "dp_ok seq1 seq2 r c st"
    and r: "0 \<le> r" "r < seq_length seq1" and c: "0 \<le> c" "c < seq_length seq2"
    and "0 \<le> v" and dir: "d = 3 \<Longrightarrow> getElement seq1 r = getElement seq2 c"
  shows "dp_ok seq1 seq2 r (c + 1) (st\<lparr>lengths := Array2D_set (lengths st) r c l,
    directions := Array2D_set (directions st) r c d, lcsLengths := Array2D_set (lcsLengths st) r c v\<rparr>)"
proof -
  have t: "array2d_ok (seq_length seq1) (seq_length seq2) (lcsLengths st)"
     "array2d_ok (seq_length seq1) (seq_length seq2) (directions st)"
     "array2d_ok (seq_length seq1) (seq_length seq2) (lengths st)"
    using ok by (simp_all add: dp_ok_def)
  have split: "x < r \<or> x = r \<and> y < c + 1 \<longleftrightarrow> x = r \<and> y = c \<or> x < r \<or> x = r \<and> y < c" for x y
    by auto
  show ?thesis
    using dp_okD [OF ok] assms(6) dir
    by (auto simp: dp_ok_def grid.ok_set t grid.get_set [OF t(1) r c] grid.get_set [OF t(2) r c]
        grid.get_set [OF t(3) r c] split)
qed

lemma dp_cell_ok:
  assumes ok: "dp_ok seq1 seq2 r c st"
    and r: "0 \<le> r" "r < seq_length seq1" and c: "0 \<le> c" "c < seq_length seq2"
  shows "\<exists>st'. dp_cell seq1 seq2 score r c st = Inr st' \<and> dp_ok seq1 seq2 r (c + 1) st' \<and>
    calls st' = calls st"
proof -
  obtain h where h: "(if r = 0 then Inr 0 else defined (Array2D_get (lcsLengths st) (r - 1) c)) = Inr h" "0 \<le> h"
    using dp_okD(1) [OF ok, of "r - 1" c] r c by (cases "r = 0") auto
  obtain w where w: "(if c = 0 then Inr 0 else defined (Array2D_get (lcsLengths st) r (c - 1))) = Inr w" "0 \<le> w"
    using dp_okD(1) [OF ok, of r "c - 1"] r c by (cases "c = 0") auto
  obtain e where e: "dp_extendedSeqScore seq1 seq2 score r c st = Inr e"
      "getElement seq1 r \<noteq> getElement seq2 c \<Longrightarrow> e = - 1"
    using dp_extendedSeqScore_total [OF ok r c] by blast
  obtain p where p: "(if 0 < r \<and> 0 < c then defined (Array2D_get (lengths st) (r - 1) (c - 1)) else Inr 0) = Inr p"
    using dp_okD(2) [OF ok, of "r - 1" "c - 1"] r c by (cases "0 < r \<and> 0 < c") auto
  define v where "v = max (max h w) e"
  have v: "0 \<le> v" "v = e \<or> v = h \<or> v = w" "v = e \<Longrightarrow> getElement seq1 r = getElement seq2 c"
    using h(2) w(2) e(2) by (auto simp: v_def max_def split: if_splits)
  note wr = dp_ok_write [OF ok r c v(1)]
  have cell: "dp_cell seq1 seq2 score r c st =
      (if v = e then Inr (st\<lparr>lengths := Array2D_set (lengths st) r c (p + 1),
         directions := Array2D_set (directions st) r c 3, lcsLengths := Array2D_set (lcsLengths st) r c v\<rparr>)
       else if v = h then Inr (st\<lparr>lengths := Array2D_set (lengths st) r c 0,
         directions := Array2D_set (directions st) r c 1, lcsLengths := Array2D_set (lcsLengths st) r c v\<rparr>)
       else Inr (st\<lparr>lengths := Array2D_set (lengths st) r c 0,
         directions := Array2D_set (directions st) r c 2, lcsLengths := Array2D_set (lcsLengths st) r c v\<rparr>))"
  proof -
    consider "v = e" | "v \<noteq> e" "v = h" | "v \<noteq> e" "v \<noteq> h" "v = w" using v(2) by blast
    then show ?thesis
      by cases (simp_all add: dp_cell_def h(1) w(1) e(1) p Let_def flip: v_def)
  qed
  show ?thesis
    using wr [of 3 "p + 1"] wr [of 1 0] wr [of 2 0] v(3)
    by (cases "v = e"; cases "v = h") (simp_all add: cell)
qed

lemma dp_columns_ok:
  assumes "dp_ok seq1 seq2 r c st" "0 \<le> r" "r < seq_length seq1" "0 \<le> c" "c \<le> seq_length seq2"
  shows "\<exists>o'. dp_columns seq1 seq2 isValid score r [c .. seq_length seq2 - 1] st = Inr o' \<and>
    (\<forall>st'. o' = Some st' \<longrightarrow> dp_ok seq1 seq2 r (seq_length seq2) st')"
  using assms(1,4,5)
proof (induction "nat (seq_length seq2 - c)" arbitrary: c st)
  case 0
  then have "c = seq_length seq2" by simp
  with 0 show ?case by simp
next
  case (Suc n)
  then have c: "c < seq_length seq2" by simp
  then have list: "[c .. seq_length seq2 - 1] = c # [c + 1 .. seq_length seq2 - 1]"
    by (simp add: upto_rec1)
  show ?case
  proof (cases "isValid (calls st)")
    case True
    have "dp_ok seq1 seq2 r c (st\<lparr>calls := Suc (calls st)\<rparr>)" using Suc.prems(1) by (simp only: dp_ok_calls)
    then obtain st' where st': "dp_cell seq1 seq2 score r c (st\<lparr>calls := Suc (calls st)\<rparr>) = Inr st'"
        "dp_ok seq1 seq2 r (c + 1) st'"
      using dp_cell_ok [OF _ assms(2,3) Suc.prems(2) c] by blast
    then show ?thesis
      using Suc.hyps(1) [of "c + 1" st'] Suc.hyps(2) Suc.prems c True by (simp add: list)
  qed (simp add: list)
qed

lemma dp_ok_mono:
  assumes "dp_ok seq1 seq2 r c st"
    and "\<And>x y. 0 \<le> y \<Longrightarrow> y < seq_length seq2 \<Longrightarrow> x < r' \<or> x = r' \<and> y < c' \<Longrightarrow> x < r \<or> x = r \<and> y < c"
  shows "dp_ok seq1 seq2 r' c' st"
  unfolding dp_ok_def
proof (intro conjI allI impI)
  fix x y assume xy: "0 \<le> x \<and> x < seq_length seq1 \<and> 0 \<le> y \<and> y < seq_length seq2"
  show "\<exists>v. Array2D_get (lcsLengths st) x y = Some v \<and> 0 \<le> v" if "x < r' \<or> x = r' \<and> y < c'"
    using dp_okD(1) [OF assms(1)] assms(2) that xy by blast
  show "\<exists>l. Array2D_get (lengths st) x y = Some l" if "x < r' \<or> x = r' \<and> y < c'"
    using dp_okD(2) [OF assms(1)] assms(2) that xy by blast
  show "getElement seq1 x = getElement seq2 y" if "Array2D_get (directions st) x y = Some 3"
    using dp_okD(3) [OF assms(1)] that xy by blast
qed (use assms(1) in \<open>simp_all add: dp_ok_def\<close>)

lemma dp_ok_next_row: "dp_ok seq1 seq2 r (seq_length seq2) st \<Longrightarrow> dp_ok seq1 seq2 (r + 1) 0 st"
  by (erule dp_ok_mono) auto

lemma dp_rows_ok:
  assumes "dp_ok seq1 seq2 r 0 st" "0 \<le> r" "r \<le> seq_length seq1" "0 \<le> seq_length seq2"
  shows "\<exists>o'. dp_rows seq1 seq2 isValid score [r .. seq_length seq1 - 1] st = Inr o' \<and>
    (\<forall>st'. o' = Some st' \<longrightarrow> dp_ok seq1 seq2 (seq_length seq1) 0 st')"
  using assms(1-3)
proof (induction "nat (seq_length seq1 - r)" arbitrary: r st)
  case 0
  then have "r = seq_length seq1" by simp
  with 0 show ?case by simp
next
  case (Suc n)
  then have r: "r < seq_length seq1" by simp
  then have list: "[r .. seq_length seq1 - 1] = r # [r + 1 .. seq_length seq1 - 1]"
    by (simp add: upto_rec1)
  obtain o' where o': "dp_columns seq1 seq2 isValid score r [0 .. seq_length seq2 - 1] st = Inr o'"
      "\<And>st'. o' = Some st' \<Longrightarrow> dp_ok seq1 seq2 r (seq_length seq2) st'"
    using dp_columns_ok [OF Suc.prems(1,2) r, of isValid score] assms(4) by auto
  show ?case
  proof (cases o')
    case (Some st')
    then show ?thesis
      using Suc.hyps(1) [of "r + 1" st'] Suc.hyps(2) Suc.prems r o' by (simp add: list dp_ok_next_row)
  qed (simp add: list o')
qed

lemma dp_init_ok:
  "0 \<le> seq_length seq1 \<Longrightarrow> 0 \<le> seq_length seq2 \<Longrightarrow> dp_ok seq1 seq2 0 0 (dp_init seq1 seq2)"
  by (simp add: dp_ok_def dp_init_def mk_Array2D_ok mk_Array2D_get)

subsection \<open>The walk back\<close>

definition backtrack_ok :: "'e isequence \<Rightarrow> 'e isequence \<Rightarrow> int \<Rightarrow> int \<Rightarrow> backtrack_state \<Rightarrow> bool" where
  "backtrack_ok seq1 seq2 s1 s2 b \<longleftrightarrow>
     s1 < lastAligningPosS1 b \<and> s2 < lastAligningPosS2 b \<and>
     covered seq1 seq2 (lastAligningPosS1 b) (lastAligningPosS2 b) (rev (pushed b)) \<and>
     before_first (lastAligningPosS1 b) (lastAligningPosS2 b) (rev (pushed b))"

lemma report_ok:
  assumes "backtrack_ok seq1 seq2 s1 s2 b"
  shows "\<exists>b'. reportDecreasingAligningPositions s1 s2 b = Inr b' \<and>
    lastAligningPosS1 b' = s1 \<and> lastAligningPosS2 b' = s2 \<and>
    covered seq1 seq2 (s1 + 1) (s2 + 1) (rev (pushed b')) \<and> before_first s1 s2 (rev (pushed b'))"
proof (cases "s1 + 1 = lastAligningPosS1 b \<and> s2 + 1 = lastAligningPosS2 b")
  case True
  then show ?thesis
    using assms
    by (auto simp: reportDecreasingAligningPositions_def backtrack_ok_def before_first_def
        split: list.splits)
next
  case False
  define d where "d = SequenceDiff (OffsetRange (s1 + 1) (lastAligningPosS1 b))
    (OffsetRange (s2 + 1) (lastAligningPosS2 b))"
  have "reportDecreasingAligningPositions s1 s2 b =
      Inr (b\<lparr>pushed := pushed b @ [d], lastAligningPosS1 := s1, lastAligningPosS2 := s2\<rparr>)"
    using False assms
    by (auto simp: reportDecreasingAligningPositions_def backtrack_ok_def mk_OffsetRange_def d_def)
  moreover have "covered seq1 seq2 (s1 + 1) (s2 + 1) (d # rev (pushed b))"
    using assms False before_first_separated [of d "rev (pushed b)"]
    by (auto simp: backtrack_ok_def covered_def d_def nonempty_diff_def)
  ultimately show ?thesis by (simp add: before_first_def d_def)
qed

lemma dp_backtrack_ok:
  assumes "\<And>x y. 0 \<le> x \<Longrightarrow> x < seq_length seq1 \<Longrightarrow> 0 \<le> y \<Longrightarrow> y < seq_length seq2 \<Longrightarrow>
      Array2D_get dirs x y = Some 3 \<Longrightarrow> getElement seq1 x = getElement seq2 y"
    and "backtrack_ok seq1 seq2 s1 s2 b" "s1 < seq_length seq1" "s2 < seq_length seq2" "- 1 \<le> s1" "- 1 \<le> s2"
  shows "\<exists>b'. dp_backtrack dirs s1 s2 b = Inr b' \<and> backtrack_ok seq1 seq2 (- 1) (- 1) b'"
  using assms
proof (induction dirs s1 s2 b rule: dp_backtrack.induct)
  case (1 dirs s1 s2 b)
  note shrink = dp_backtrack.simps [of dirs s1 s2 b]
  show ?case
  proof (cases "0 \<le> s1 \<and> 0 \<le> s2")
    case False
    then show ?thesis using "1.prems" by (auto simp: shrink backtrack_ok_def)
  next
    case in_range: True
    show ?thesis
    proof (cases "Array2D_get dirs s1 s2 = Some 3")
      case diagonal: True
      then have eq: "getElement seq1 s1 = getElement seq2 s2"
        using "1.prems"(1) [of s1 s2] "1.prems"(3,4) in_range by simp
      obtain b' where b': "reportDecreasingAligningPositions s1 s2 b = Inr b'"
          "lastAligningPosS1 b' = s1" "lastAligningPosS2 b' = s2"
          "covered seq1 seq2 (s1 + 1) (s2 + 1) (rev (pushed b'))" "before_first s1 s2 (rev (pushed b'))"
        using report_ok [OF "1.prems"(2)] by blast
      then have "backtrack_ok seq1 seq2 (s1 - 1) (s2 - 1) b'"
        using covered_extend [OF _ eq] by (simp add: backtrack_ok_def)
      then show ?thesis
        using "1.IH"(1) [of b'] "1.prems" in_range diagonal b'(1) by (simp add: shrink)
    next
      case False
      have "backtrack_ok seq1 seq2 (s1 - 1) s2 b" "backtrack_ok seq1 seq2 s1 (s2 - 1) b"
        using "1.prems"(2) by (simp_all add: backtrack_ok_def)
      then show ?thesis
        using "1.IH"(2,3) "1.prems" in_range False by (simp add: shrink)
    qed
  qed
qed

lemma dp_columns_no_timeout:
  "(\<And>n. isValid n) \<Longrightarrow> dp_columns seq1 seq2 isValid score s1 cs st \<noteq> Inr None"
  by (induction cs arbitrary: st) (auto simp: bind_result_Inr_iff)

lemma dp_rows_no_timeout:
  "(\<And>n. isValid n) \<Longrightarrow> dp_rows seq1 seq2 isValid score rs st \<noteq> Inr None"
  using dp_columns_no_timeout [of isValid seq1 seq2 score]
  by (induction rs arbitrary: st) (auto simp: bind_result_Inr_iff split: option.splits)

lemma DynamicProgrammingDiffing_aligned:
  assumes "seq_ok seq1" "seq_ok seq2"
  shows "\<exists>ds hit. DynamicProgrammingDiffing_compute seq1 seq2 isValid score = Inr (DiffAlgorithmResult ds hit) \<and>
    aligned seq1 seq2 0 0 ds \<and> diffs_separated ds \<and>
    (0 < seq_length seq1 \<or> 0 < seq_length seq2 \<longrightarrow> (\<forall>d \<in> set ds. nonempty_diff d)) \<and>
    ((\<forall>n. isValid n) \<longrightarrow> \<not> hit)"
proof (cases "seq_length seq1 = 0 \<or> seq_length seq2 = 0")
  case True
  then show ?thesis
    using assms by (auto simp: DynamicProgrammingDiffing_compute_def trivial_result seq_ok_def nonempty_diff_def)
next
  case False
  have len: "0 \<le> seq_length seq1" "0 \<le> seq_length seq2" using assms by (simp_all add: seq_ok_def)
  obtain o' where o': "dp_rows seq1 seq2 isValid score [0 .. seq_length seq1 - 1] (dp_init seq1 seq2) = Inr o'"
      "\<And>st. o' = Some st \<Longrightarrow> dp_ok seq1 seq2 (seq_length seq1) 0 st"
    using dp_rows_ok [OF dp_init_ok [OF len], of isValid score] len by auto
  show ?thesis
  proof (cases o')
    case None
    then have "\<not> (\<forall>n. isValid n)" using o'(1) dp_rows_no_timeout by blast
    then show ?thesis
      using len o'(1) None False
      by (auto simp: DynamicProgrammingDiffing_compute_def trivial_result nonempty_diff_def)
  next
    case (Some st)
    define b0 where "b0 = \<lparr>pushed = [], lastAligningPosS1 = seq_length seq1, lastAligningPosS2 = seq_length seq2\<rparr>"
    have "backtrack_ok seq1 seq2 (seq_length seq1 - 1) (seq_length seq2 - 1) b0"
      using covered_start [of "seq_length seq1" seq1 seq2] len
      by (simp add: backtrack_ok_def b0_def before_first_def)
    then obtain b where b: "dp_backtrack (directions st) (seq_length seq1 - 1) (seq_length seq2 - 1) b0 = Inr b"
        "backtrack_ok seq1 seq2 (- 1) (- 1) b"
      using dp_backtrack_ok [of seq1 seq2 "directions st" "seq_length seq1 - 1" "seq_length seq2 - 1" b0]
        dp_okD(3) [OF o'(2) [OF Some]] len by auto
    then obtain b' where "reportDecreasingAligningPositions (- 1) (- 1) b = Inr b'"
        "covered seq1 seq2 0 0 (rev (pushed b'))"
      using report_ok [OF b(2)] by auto
    then show ?thesis
      using o'(1) Some b(1) False
      by (auto simp: DynamicProgrammingDiffing_compute_def covered_def simp flip: b0_def)
  qed
qed

text \<open>C7: \<open>DynamicProgrammingDiffing.compute\<close> returns for every two sequences, every score function and
  every timeout, and what it returns is an alignment: outside the reported ranges the two sequences
  agree. Unless the trivial diff was returned the ranges are not empty and are kept apart by equal
  elements; the trivial diff is marked when it is due to a timeout.\<close>

theorem DynamicProgrammingDiffing_aligns:
  assumes "seq_ok seq1" "seq_ok seq2"
  shows "\<exists>ds hit. DynamicProgrammingDiffing_compute seq1 seq2 isValid score = Inr (DiffAlgorithmResult ds hit) \<and>
    aligned seq1 seq2 0 0 ds \<and> diffs_separated ds \<and>
    (0 < seq_length seq1 \<or> 0 < seq_length seq2 \<longrightarrow> (\<forall>d \<in> set ds. nonempty_diff d)) \<and>
    ((\<forall>n. isValid n) \<longrightarrow> \<not> hit)"
  using DynamicProgrammingDiffing_aligned [OF assms] .

theorem DynamicProgrammingDiffing_aligns_witness:
  "\<exists>ds. DynamicProgrammingDiffing_compute (list_sequence ''abc'') (list_sequence ''adce'') InfiniteTimeout None =
      Inr (DiffAlgorithmResult ds False) \<and> patch ''abc'' ''adce'' 0 ds = ''adce''"
  using DynamicProgrammingDiffing_aligns [OF list_sequence_ok list_sequence_ok, of "''abc''" "''adce''" InfiniteTimeout None]
    aligned_patch_all [OF list_sequence_presents list_sequence_presents]
  by (force simp: InfiniteTimeout_def)

end
