(* ===== verification/DiffHeuristics.thy ===== *)
theory DiffHeuristics
  imports DiffAlgorithm
begin

section \<open>Making diffs readable: \<open>heuristicSequenceOptimizations.ts\<close>\<close>

text \<open>
  \<open>optimizeSequenceDiffs\<close> moves insertions and deletions along equal elements: first to the left,
  joining them with the diff before when nothing is left between them, then to the right, and at
  last to the place in between with the best boundary score. \<open>removeShortMatches\<close> joins diffs that
  at most two elements keep apart. The laws say that an alignment stays an alignment: \<open>tidy\<close> is
  the invariant of every loop, read from the front, with the least gap that has to be left in
  front of a diff.
\<close>

subsection \<open>Joining diffs by shifting them\<close>

function shift_left_loop ::
  "'e isequence \<Rightarrow> 'e isequence \<Rightarrow> sequence_diff \<Rightarrow> int \<Rightarrow> int \<Rightarrow> int" where
  "shift_left_loop sequence1 sequence2 cur len d =
     (if d \<le> len then
        if getElement sequence1 (start (seq1Range cur) - d) \<noteq> getElement sequence1 (endExclusive (seq1Range cur) - d) \<or>
           getElement sequence2 (start (seq2Range cur) - d) \<noteq> getElement sequence2 (endExclusive (seq2Range cur) - d)
        then d
        else shift_left_loop sequence1 sequence2 cur len (d + 1)
      else d)"
  by pat_completeness auto
termination
  by (relation "measure (\<lambda>(s1, s2, cur, len, d). nat (len + 1 - d))") auto

declare shift_left_loop.simps [simp del]

text \<open>
  One iteration of the first loop: the joined diff that replaces the previous one (\<open>True\<close>), or the
  moved diff that is pushed behind it (\<open>False\<close>).
\<close>

definition left_step ::
  "'e isequence \<Rightarrow> 'e isequence \<Rightarrow> sequence_diff \<Rightarrow> sequence_diff \<Rightarrow> (bool \<times> sequence_diff) result" where
  "left_step sequence1 sequence2 prevResult cur =
     (if OffsetRange_isEmpty (seq1Range cur) \<or> OffsetRange_isEmpty (seq2Range cur) then
        let len = start (seq1Range cur) - endExclusive (seq1Range prevResult);
            d = shift_left_loop sequence1 sequence2 cur len 1 - 1
        in if d = len then
             bind_result (mk_OffsetRange (start (seq1Range prevResult)) (endExclusive (seq1Range cur) - len)) (\<lambda>r1.
             bind_result (mk_OffsetRange (start (seq2Range prevResult)) (endExclusive (seq2Range cur) - len)) (\<lambda>r2.
             Inr (True, SequenceDiff r1 r2)))
           else bind_result (SequenceDiff_delta cur (- d)) (\<lambda>cur'. Inr (False, cur'))
      else Inr (False, cur))"

fun join_left ::
  "'e isequence \<Rightarrow> 'e isequence \<Rightarrow> sequence_diff list \<Rightarrow> sequence_diff list \<Rightarrow> sequence_diff list result" where
  "join_left sequence1 sequence2 result [] = Inr result"
| "join_left sequence1 sequence2 result (cur # rest) =
     bind_result (left_step sequence1 sequence2 (last result) cur) (\<lambda>(joined, d).
     join_left sequence1 sequence2 (if joined then butlast result @ [d] else result @ [d]) rest)"

function shift_right_loop ::
  "'e isequence \<Rightarrow> 'e isequence \<Rightarrow> sequence_diff \<Rightarrow> int \<Rightarrow> int \<Rightarrow> int" where
  "shift_right_loop sequence1 sequence2 cur len d =
     (if d < len then
        if \<not> isStronglyEqual sequence1 (start (seq1Range cur) + d) (endExclusive (seq1Range cur) + d) \<or>
           \<not> isStronglyEqual sequence2 (start (seq2Range cur) + d) (endExclusive (seq2Range cur) + d)
        then d
        else shift_right_loop sequence1 sequence2 cur len (d + 1)
      else d)"
  by pat_completeness auto
termination
  by (relation "measure (\<lambda>(s1, s2, cur, len, d). nat (len - d))") auto

declare shift_right_loop.simps [simp del]

text \<open>
  The second loop, over what is left of \<open>result\<close>: a joined diff is written to the next place of
  \<open>result\<close> (\<open>True\<close>), a moved one is pushed. The last diff is pushed behind the loop.
\<close>

definition right_step ::
  "'e isequence \<Rightarrow> 'e isequence \<Rightarrow> sequence_diff \<Rightarrow> sequence_diff \<Rightarrow> (bool \<times> sequence_diff) result" where
  "right_step sequence1 sequence2 cur nextResult =
     (if OffsetRange_isEmpty (seq1Range cur) \<or> OffsetRange_isEmpty (seq2Range cur) then
        let len = start (seq1Range nextResult) - endExclusive (seq1Range cur);
            d = shift_right_loop sequence1 sequence2 cur len 0
        in if d = len then
             bind_result (mk_OffsetRange (start (seq1Range cur) + len) (endExclusive (seq1Range nextResult))) (\<lambda>r1.
             bind_result (mk_OffsetRange (start (seq2Range cur) + len) (endExclusive (seq2Range nextResult))) (\<lambda>r2.
             Inr (True, SequenceDiff r1 r2)))
           else bind_result (if d > 0 then SequenceDiff_delta cur d else Inr cur) (\<lambda>cur'. Inr (False, cur'))
      else Inr (False, cur))"

fun join_right ::
  "'e isequence \<Rightarrow> 'e isequence \<Rightarrow> sequence_diff list \<Rightarrow> sequence_diff list \<Rightarrow> sequence_diff list result" where
  "join_right sequence1 sequence2 (cur # nextResult # rest) result2 =
     bind_result (right_step sequence1 sequence2 cur nextResult) (\<lambda>(joined, d).
     if joined then join_right sequence1 sequence2 (d # rest) result2
     else join_right sequence1 sequence2 (nextResult # rest) (result2 @ [d]))"
| "join_right sequence1 sequence2 [last_diff] result2 = Inr (result2 @ [last_diff])"
| "join_right sequence1 sequence2 [] result2 = Inr result2"

definition joinSequenceDiffsByShifting ::
  "'e isequence \<Rightarrow> 'e isequence \<Rightarrow> sequence_diff list \<Rightarrow> sequence_diff list result" where
  "joinSequenceDiffsByShifting sequence1 sequence2 sequenceDiffs =
     (case sequenceDiffs of
        [] \<Rightarrow> Inr []
      | first # rest \<Rightarrow>
          bind_result (join_left sequence1 sequence2 [first] rest) (\<lambda>result.
          join_right sequence1 sequence2 result []))"

subsection \<open>Shifting diffs to better positions\<close>

definition maxShiftLimit :: int where
  "maxShiftLimit = 100"

function delta_before_loop ::
  "sequence_diff \<Rightarrow> 'e isequence \<Rightarrow> offset_range \<Rightarrow> offset_range \<Rightarrow> int \<Rightarrow> int" where
  "delta_before_loop diff sequence2 seq1ValidRange seq2ValidRange deltaBefore =
     (if start (seq1Range diff) - deltaBefore \<ge> start seq1ValidRange \<and>
         start (seq2Range diff) - deltaBefore \<ge> start seq2ValidRange \<and>
         isStronglyEqual sequence2 (start (seq2Range diff) - deltaBefore) (endExclusive (seq2Range diff) - deltaBefore) \<and>
         deltaBefore < maxShiftLimit
      then delta_before_loop diff sequence2 seq1ValidRange seq2ValidRange (deltaBefore + 1)
      else deltaBefore)"
  by pat_completeness auto
termination
  by (relation "measure (\<lambda>(diff, s2, v1, v2, d). nat (maxShiftLimit - d))") auto

declare delta_before_loop.simps [simp del]

function delta_after_loop ::
  "sequence_diff \<Rightarrow> 'e isequence \<Rightarrow> offset_range \<Rightarrow> offset_range \<Rightarrow> int \<Rightarrow> int" where
  "delta_after_loop diff sequence2 seq1ValidRange seq2ValidRange deltaAfter =
     (if start (seq1Range diff) + deltaAfter < endExclusive seq1ValidRange \<and>
         endExclusive (seq2Range diff) + deltaAfter < endExclusive seq2ValidRange \<and>
         isStronglyEqual sequence2 (start (seq2Range diff) + deltaAfter) (endExclusive (seq2Range diff) + deltaAfter) \<and>
         deltaAfter < maxShiftLimit
      then delta_after_loop diff sequence2 seq1ValidRange seq2ValidRange (deltaAfter + 1)
      else deltaAfter)"
  by pat_completeness auto
termination
  by (relation "measure (\<lambda>(diff, s2, v1, v2, d). nat (maxShiftLimit - d))") auto

declare delta_after_loop.simps [simp del]

text \<open>\<open>getBoundaryScore!\<close>\<close>

definition boundary_score :: "'e isequence \<Rightarrow> int \<Rightarrow> int result" where
  "boundary_score s i = (case getBoundaryScore s of Some f \<Rightarrow> f i | None \<Rightarrow> Inl TypeError)"

fun best_delta ::
  "sequence_diff \<Rightarrow> 'e isequence \<Rightarrow> 'e isequence \<Rightarrow> int list \<Rightarrow> int \<Rightarrow> int \<Rightarrow> int result" where
  "best_delta diff sequence1 sequence2 [] bestDelta bestScore = Inr bestDelta"
| "best_delta diff sequence1 sequence2 (delta # rest) bestDelta bestScore =
     bind_result (boundary_score sequence1 (start (seq1Range diff) + delta)) (\<lambda>b1.
     bind_result (boundary_score sequence2 (start (seq2Range diff) + delta)) (\<lambda>b2.
     bind_result (boundary_score sequence2 (endExclusive (seq2Range diff) + delta)) (\<lambda>b3.
     let score = b1 + b2 + b3
     in if score > bestScore then best_delta diff sequence1 sequence2 rest delta score
        else best_delta diff sequence1 sequence2 rest bestDelta bestScore)))"

definition shiftDiffToBetterPosition ::
  "sequence_diff \<Rightarrow> 'e isequence \<Rightarrow> 'e isequence \<Rightarrow> offset_range \<Rightarrow> offset_range \<Rightarrow> sequence_diff result" where
  "shiftDiffToBetterPosition diff sequence1 sequence2 seq1ValidRange seq2ValidRange =
     (let deltaBefore = delta_before_loop diff sequence2 seq1ValidRange seq2ValidRange 1 - 1;
          deltaAfter = delta_after_loop diff sequence2 seq1ValidRange seq2ValidRange 0
      in if deltaBefore = 0 \<and> deltaAfter = 0 then Inr diff
         else bind_result (best_delta diff sequence1 sequence2 [- deltaBefore .. deltaAfter] 0 (- 1))
                (SequenceDiff_delta diff))"

text \<open>
  The array is updated in place: a diff sees the diff before it as it was moved, and the diff
  behind it as it was.
\<close>

fun shift_diffs ::
  "'e isequence \<Rightarrow> 'e isequence \<Rightarrow> sequence_diff option \<Rightarrow> sequence_diff list \<Rightarrow> sequence_diff list result" where
  "shift_diffs sequence1 sequence2 prevDiff [] = Inr []"
| "shift_diffs sequence1 sequence2 prevDiff (diff # rest) =
     (let nextDiff = (case rest of [] \<Rightarrow> None | n # _ \<Rightarrow> Some n) in
      bind_result (mk_OffsetRange
          (case prevDiff of Some p \<Rightarrow> endExclusive (seq1Range p) + 1 | None \<Rightarrow> 0)
          (case nextDiff of Some n \<Rightarrow> start (seq1Range n) - 1 | None \<Rightarrow> seq_length sequence1)) (\<lambda>seq1ValidRange.
      bind_result (mk_OffsetRange
          (case prevDiff of Some p \<Rightarrow> endExclusive (seq2Range p) + 1 | None \<Rightarrow> 0)
          (case nextDiff of Some n \<Rightarrow> start (seq2Range n) - 1 | None \<Rightarrow> seq_length sequence2)) (\<lambda>seq2ValidRange.
      bind_result
        (if OffsetRange_isEmpty (seq1Range diff) then
           shiftDiffToBetterPosition diff sequence1 sequence2 seq1ValidRange seq2ValidRange
         else if OffsetRange_isEmpty (seq2Range diff) then
           bind_result (shiftDiffToBetterPosition (SequenceDiff_swap diff) sequence2 sequence1 seq2ValidRange seq1ValidRange)
             (\<lambda>d. Inr (SequenceDiff_swap d))
         else Inr diff) (\<lambda>diff'.
      bind_result (shift_diffs sequence1 sequence2 (Some diff') rest) (\<lambda>ds. Inr (diff' # ds))))))"

definition shiftSequenceDiffs ::
  "'e isequence \<Rightarrow> 'e isequence \<Rightarrow> sequence_diff list \<Rightarrow> sequence_diff list result" where
  "shiftSequenceDiffs sequence1 sequence2 sequenceDiffs =
     (if getBoundaryScore sequence1 = None \<or> getBoundaryScore sequence2 = None then Inr sequenceDiffs
      else shift_diffs sequence1 sequence2 None sequenceDiffs)"

definition optimizeSequenceDiffs ::
  "'e isequence \<Rightarrow> 'e isequence \<Rightarrow> sequence_diff list \<Rightarrow> sequence_diff list result" where
  "optimizeSequenceDiffs sequence1 sequence2 sequenceDiffs =
     bind_result (joinSequenceDiffsByShifting sequence1 sequence2 sequenceDiffs) (\<lambda>result.
     bind_result (joinSequenceDiffsByShifting sequence1 sequence2 result) (\<lambda>result'.
     shiftSequenceDiffs sequence1 sequence2 result'))"

subsection \<open>Joining neighbouring diffs\<close>

text \<open>
  The loop that joins a diff with the last one of the result when a condition holds, and pushes it
  otherwise; also whether it joined anything.
\<close>

fun join_where ::
  "(sequence_diff \<Rightarrow> sequence_diff \<Rightarrow> bool result) \<Rightarrow> bool \<Rightarrow> sequence_diff list \<Rightarrow> sequence_diff list \<Rightarrow>
     (sequence_diff list \<times> bool) result" where
  "join_where shouldJoinDiffs shouldRepeat result [] = Inr (result, shouldRepeat)"
| "join_where shouldJoinDiffs shouldRepeat result (cur # rest) =
     bind_result (shouldJoinDiffs (last result) cur) (\<lambda>shouldJoin.
     if shouldJoin then
       bind_result (SequenceDiff_join (last result) cur) (\<lambda>joined.
       join_where shouldJoinDiffs True (butlast result @ [joined]) rest)
     else join_where shouldJoinDiffs shouldRepeat (result @ [cur]) rest)"

definition removeShortMatches :: "sequence_diff list \<Rightarrow> sequence_diff list result" where
  "removeShortMatches sequenceDiffs =
     (case sequenceDiffs of
        [] \<Rightarrow> Inr []
      | s # rest \<Rightarrow>
          bind_result (join_where (\<lambda>last_diff s. Inr (start (seq1Range s) - endExclusive (seq1Range last_diff) \<le> 2 \<or>
              start (seq2Range s) - endExclusive (seq2Range last_diff) \<le> 2)) False [s] rest)
            (\<lambda>(result, _). Inr result))"

text \<open>
  The \<open>do\<close> loop around it: \<open>n\<close> is how many more times \<open>counter++ < 10\<close> will hold.
\<close>

fun repeat_joins ::
  "(sequence_diff \<Rightarrow> sequence_diff \<Rightarrow> bool result) \<Rightarrow> nat \<Rightarrow> sequence_diff list \<Rightarrow> sequence_diff list result" where
  "repeat_joins shouldJoinDiffs n [] = Inr []"
| "repeat_joins shouldJoinDiffs 0 (first # rest) =
     bind_result (join_where shouldJoinDiffs False [first] rest) (\<lambda>(result, _). Inr result)"
| "repeat_joins shouldJoinDiffs (Suc n) (first # rest) =
     bind_result (join_where shouldJoinDiffs False [first] rest) (\<lambda>(result, shouldRepeat).
     if shouldRepeat then repeat_joins shouldJoinDiffs n result else Inr result)"

end
