(* ===== verification/DiffHeuristicsLaws.thy ===== *)
theory DiffHeuristicsLaws
  imports DiffHeuristics
begin

section \<open>The heuristics keep an alignment an alignment\<close>

subsection \<open>Tidy lists of diffs\<close>

definition linked :: "'e isequence \<Rightarrow> 'e isequence \<Rightarrow> int \<Rightarrow> int \<Rightarrow> sequence_diff \<Rightarrow> bool" where
  "linked seq1 seq2 a b d \<longleftrightarrow> a \<le> start1 d \<and> start1 d - a = start2 d - b \<and> equal_run seq1 seq2 a b (start1 d - a) \<and>
     start1 d \<le> end1 d \<and> start2 d \<le> end2 d \<and> nonempty_diff d"

fun tidy :: "'e isequence \<Rightarrow> 'e isequence \<Rightarrow> int \<Rightarrow> int \<Rightarrow> int \<Rightarrow> sequence_diff list \<Rightarrow> bool" where
  "tidy seq1 seq2 m a b [] \<longleftrightarrow> aligned seq1 seq2 a b []"
| "tidy seq1 seq2 m a b (d # ds) \<longleftrightarrow>
     linked seq1 seq2 a b d \<and> m \<le> start1 d - a \<and> tidy seq1 seq2 1 (end1 d) (end2 d) ds"

lemma tidy_covered_gap:
  "tidy seq1 seq2 m a b ds \<longleftrightarrow>
     covered seq1 seq2 a b ds \<and> (case ds of [] \<Rightarrow> True | d # _ \<Rightarrow> m \<le> start1 d - a)"
proof (induction seq1 seq2 m a b ds rule: tidy.induct)
  case (2 seq1 seq2 m a b d ds)
  then show ?case by (cases ds) (auto simp: linked_def covered_def)
qed (simp add: covered_def)

lemma tidy_covered: "tidy seq1 seq2 0 a b ds \<longleftrightarrow> covered seq1 seq2 a b ds"
  by (cases ds) (auto simp: tidy_covered_gap covered_def)

lemma tidy_mono: "tidy seq1 seq2 m a b ds \<Longrightarrow> m' \<le> m \<Longrightarrow> tidy seq1 seq2 m' a b ds"
  by (cases ds) auto

lemma tidy_aligned: "tidy seq1 seq2 m a b ds \<Longrightarrow> aligned seq1 seq2 a b ds"
  by (simp add: tidy_covered_gap covered_def)

lemma tidy_back:
  assumes "tidy seq1 seq2 m (a + n) (b + n) ds" "equal_run seq1 seq2 a b n" "0 \<le> n"
  shows "tidy seq1 seq2 (m + n) a b ds"
  using assms aligned_prepend_run [of seq1 seq2 a n b ds]
  by (cases ds) (auto simp: tidy_covered_gap covered_def)

lemma tidy_forward:
  assumes "tidy seq1 seq2 m a b (d # ds)" "0 \<le> n" "n \<le> start1 d - a"
  shows "tidy seq1 seq2 (m - n) (a + n) (b + n) (d # ds)"
proof -
  have "equal_run seq1 seq2 (a + n) (b + n) (start1 d - (a + n))"
  proof (rule equal_runI)
    fix i assume "a + n \<le> i" "i < a + n + (start1 d - (a + n))"
    then have "getElement seq1 i = getElement seq2 (i - a + b)"
      using assms by (intro equal_run_get [of _ _ _ _ "start1 d - a"]) (auto simp: linked_def)
    then show "getElement seq1 i = getElement seq2 (i - (a + n) + (b + n))" by (simp add: algebra_simps)
  qed
  then show ?thesis using assms by (auto simp: linked_def)
qed

text \<open>A loop changes a part of the list behind the diffs it has already dealt with.\<close>

lemma tidy_replace:
  assumes "tidy seq1 seq2 m a b (ys @ xs)" "0 \<le> a" "0 \<le> b"
    and "\<And>m a b. 0 \<le> a \<Longrightarrow> 0 \<le> b \<Longrightarrow> tidy seq1 seq2 m a b xs \<Longrightarrow> tidy seq1 seq2 m a b xs'"
  shows "tidy seq1 seq2 m a b (ys @ xs')"
  using assms(1-3)
proof (induction ys arbitrary: m a b)
  case Nil
  then show ?case using assms(4) by simp
next
  case (Cons y ys)
  have "0 \<le> end1 y" "0 \<le> end2 y" using Cons.prems by (auto simp: linked_def)
  then show ?case using Cons by simp
qed

lemma tidy_at:
  assumes "tidy seq1 seq2 m a b (ys @ xs)" "0 \<le> a" "0 \<le> b"
  shows "\<exists>m' a' b'. 0 \<le> a' \<and> 0 \<le> b' \<and> tidy seq1 seq2 m' a' b' xs"
  using assms
proof (induction ys arbitrary: m a b)
  case (Cons y ys)
  have "0 \<le> end1 y" "0 \<le> end2 y" using Cons.prems by (auto simp: linked_def)
  then show ?case using Cons by auto
qed auto

subsection \<open>Moving one diff\<close>

definition moved :: "sequence_diff \<Rightarrow> int \<Rightarrow> sequence_diff" where
  "moved d n = SequenceDiff (OffsetRange (start1 d + n) (end1 d + n)) (OffsetRange (start2 d + n) (end2 d + n))"

lemma delta_moved: "start1 d \<le> end1 d \<Longrightarrow> start2 d \<le> end2 d \<Longrightarrow> SequenceDiff_delta d n = Inr (moved d n)"
  by (simp add: SequenceDiff_delta_def moved_def OffsetRange_delta_def mk_OffsetRange_def)

lemma nonempty_moved [simp]: "nonempty_diff (moved d n) \<longleftrightarrow> nonempty_diff d"
  by (simp add: nonempty_diff_def moved_def)

lemma moved_ranges [simp]:
  "start1 (moved d n) = start1 d + n" "end1 (moved d n) = end1 d + n"
  "start2 (moved d n) = start2 d + n" "end2 (moved d n) = end2 d + n"
  by (simp_all add: moved_def)

text \<open>To the left: the elements that the diff passes are the last ones in front of its end.\<close>

definition slides_left :: "'e isequence \<Rightarrow> 'e isequence \<Rightarrow> sequence_diff \<Rightarrow> int \<Rightarrow> bool" where
  "slides_left seq1 seq2 d n \<longleftrightarrow> (\<forall>j. 1 \<le> j \<and> j \<le> n \<longrightarrow>
     getElement seq1 (start1 d - j) = getElement seq1 (end1 d - j) \<and>
     getElement seq2 (start2 d - j) = getElement seq2 (end2 d - j))"

definition slides_right :: "'e isequence \<Rightarrow> 'e isequence \<Rightarrow> sequence_diff \<Rightarrow> int \<Rightarrow> bool" where
  "slides_right seq1 seq2 d n \<longleftrightarrow> (\<forall>j. 0 \<le> j \<and> j < n \<longrightarrow>
     getElement seq1 (start1 d + j) = getElement seq1 (end1 d + j) \<and>
     getElement seq2 (start2 d + j) = getElement seq2 (end2 d + j))"

lemma slide_left_run:
  assumes "linked seq1 seq2 a b d" "slides_left seq1 seq2 d n" "n \<le> start1 d - a"
  shows "equal_run seq1 seq2 (end1 d - n) (end2 d - n) n"
proof (rule equal_runI)
  fix i assume i: "end1 d - n \<le> i" "i < end1 d - n + n"
  define j where "j = end1 d - i"
  have j: "1 \<le> j" "j \<le> n" using i by (simp_all add: j_def)
  have "getElement seq1 (start1 d - j) = getElement seq2 (start1 d - j - a + b)"
    using assms(1,3) j by (intro equal_run_get [of _ _ _ _ "start1 d - a"]) (auto simp: linked_def)
  moreover have "start1 d - j - a + b = start2 d - j" using assms(1) by (simp add: linked_def)
  ultimately have "getElement seq1 (end1 d - j) = getElement seq2 (end2 d - j)"
    using assms(2) j by (simp add: slides_left_def)
  then show "getElement seq1 i = getElement seq2 (i - (end1 d - n) + (end2 d - n))"
    by (simp add: j_def algebra_simps)
qed

lemma slide_left:
  assumes "tidy seq1 seq2 m a b (d # ds)" "slides_left seq1 seq2 d n" "0 \<le> n" "n \<le> start1 d - a - m" "0 \<le> m"
  shows "tidy seq1 seq2 m a b (moved d (- n) # ds)"
proof -
  have link: "linked seq1 seq2 a b d" using assms(1) by simp
  have "equal_run seq1 seq2 (end1 d - n) (end2 d - n) n"
    using slide_left_run [OF link assms(2)] assms(4,5) by simp
  then have "tidy seq1 seq2 (1 + n) (end1 d - n) (end2 d - n) ds"
    using assms(1,3) by (intro tidy_back) simp_all
  then have "tidy seq1 seq2 1 (end1 d - n) (end2 d - n) ds" using assms(3) tidy_mono by fastforce
  moreover have "equal_run seq1 seq2 a b (start1 d - n - a)"
    using link assms(3) by (auto simp: linked_def elim!: equal_run_mono)
  ultimately show ?thesis using link assms(4,5) by (auto simp: linked_def)
qed

lemma slide_right_run:
  assumes "linked seq1 seq2 a b d" "slides_right seq1 seq2 d n" "equal_run seq1 seq2 (end1 d) (end2 d) n" "0 \<le> n"
  shows "equal_run seq1 seq2 a b (start1 d + n - a)"
proof -
  have "equal_run seq1 seq2 (start1 d) (start2 d) n"
  proof (rule equal_runI)
    fix i assume i: "start1 d \<le> i" "i < start1 d + n"
    define j where "j = i - start1 d"
    have j: "0 \<le> j" "j < n" using i by (simp_all add: j_def)
    have "getElement seq1 (end1 d + j) = getElement seq2 (end1 d + j - end1 d + end2 d)"
      using assms(3) j by (intro equal_run_get) auto
    then have "getElement seq1 (start1 d + j) = getElement seq2 (start2 d + j)"
      using assms(2) j by (simp add: slides_right_def add.commute)
    then show "getElement seq1 i = getElement seq2 (i - start1 d + start2 d)" by (simp add: j_def algebra_simps)
  qed
  moreover have "start1 d = a + (start1 d - a)" "start2 d = b + (start1 d - a)"
    using assms(1) by (auto simp: linked_def)
  ultimately have "equal_run seq1 seq2 a b (start1 d - a + n)"
    using assms(1,4) by (intro equal_run_append) (auto simp: linked_def)
  then show ?thesis by (simp add: algebra_simps)
qed

lemma tail_forward:
  assumes "tidy seq1 seq2 1 a b ds" "0 \<le> n"
    and "n \<le> (case ds of [] \<Rightarrow> seq_length seq1 - a | nx # _ \<Rightarrow> start1 nx - a - 1)"
  shows "equal_run seq1 seq2 a b n" "tidy seq1 seq2 1 (a + n) (b + n) ds"
proof -
  show "equal_run seq1 seq2 a b n"
    using assms by (auto simp: linked_def elim!: equal_run_mono split: list.splits)
  show "tidy seq1 seq2 1 (a + n) (b + n) ds"
  proof (cases ds)
    case Nil
    have "equal_run seq1 seq2 (a + n) (b + n) (seq_length seq1 - (a + n))"
    proof (rule equal_runI)
      fix i assume "a + n \<le> i" "i < a + n + (seq_length seq1 - (a + n))"
      then have "getElement seq1 i = getElement seq2 (i - a + b)"
        using assms Nil by (intro equal_run_get [of _ _ _ _ "seq_length seq1 - a"]) auto
      then show "getElement seq1 i = getElement seq2 (i - (a + n) + (b + n))" by (simp add: algebra_simps)
    qed
    then show ?thesis using assms Nil by simp
  next
    case (Cons d ds')
    then show ?thesis using assms tidy_forward [of seq1 seq2 1 a b d ds' n] by auto
  qed
qed

lemma slide_right:
  assumes "tidy seq1 seq2 m a b (d # ds)" "slides_right seq1 seq2 d n" "0 \<le> n"
    and "n \<le> (case ds of [] \<Rightarrow> seq_length seq1 - end1 d | nx # _ \<Rightarrow> start1 nx - end1 d - 1)"
  shows "tidy seq1 seq2 m a b (moved d n # ds)"
proof -
  have link: "linked seq1 seq2 a b d" and tail: "tidy seq1 seq2 1 (end1 d) (end2 d) ds" using assms(1) by simp_all
  note forward = tail_forward [OF tail assms(3,4)]
  have "equal_run seq1 seq2 a b (start1 d + n - a)"
    using slide_right_run [OF link assms(2) forward(1) assms(3)] .
  then have "linked seq1 seq2 a b (moved d n)" using link assms(3) by (auto simp: linked_def)
  then show ?thesis using forward(2) assms(1,3) by simp
qed

subsection \<open>Joining by shifting\<close>

lemma shift_left_loop_facts:
  "d \<le> len + 1 \<Longrightarrow> d \<le> shift_left_loop seq1 seq2 cur len d \<and> shift_left_loop seq1 seq2 cur len d \<le> len + 1 \<and>
     (\<forall>j. d \<le> j \<and> j < shift_left_loop seq1 seq2 cur len d \<longrightarrow>
        getElement seq1 (start1 cur - j) = getElement seq1 (end1 cur - j) \<and>
        getElement seq2 (start2 cur - j) = getElement seq2 (end2 cur - j))"
proof (induction seq1 seq2 cur len d rule: shift_left_loop.induct)
  case (1 seq1 seq2 cur len d)
  show ?case
  proof (cases "d \<le> len \<and> getElement seq1 (start1 cur - d) = getElement seq1 (end1 cur - d) \<and>
      getElement seq2 (start2 cur - d) = getElement seq2 (end2 cur - d)")
    case True
    then have eq: "shift_left_loop seq1 seq2 cur len d = shift_left_loop seq1 seq2 cur len (d + 1)"
      by (simp add: shift_left_loop.simps [of seq1 seq2 cur len d])
    have split: "d \<le> j \<longleftrightarrow> j = d \<or> d + 1 \<le> j" for j by auto
    show ?thesis using "1.IH" True unfolding eq split by auto
  next
    case False
    then have "shift_left_loop seq1 seq2 cur len d = d"
      by (auto simp: shift_left_loop.simps [of seq1 seq2 cur len d])
    then show ?thesis using "1.prems" by auto
  qed
qed

lemma shift_right_loop_facts:
  "d \<le> len \<Longrightarrow> d \<le> shift_right_loop seq1 seq2 cur len d \<and> shift_right_loop seq1 seq2 cur len d \<le> len \<and>
     (\<forall>j. d \<le> j \<and> j < shift_right_loop seq1 seq2 cur len d \<longrightarrow>
        isStronglyEqual seq1 (start1 cur + j) (end1 cur + j) \<and> isStronglyEqual seq2 (start2 cur + j) (end2 cur + j))"
proof (induction seq1 seq2 cur len d rule: shift_right_loop.induct)
  case (1 seq1 seq2 cur len d)
  show ?case
  proof (cases "d < len \<and> isStronglyEqual seq1 (start1 cur + d) (end1 cur + d) \<and>
      isStronglyEqual seq2 (start2 cur + d) (end2 cur + d)")
    case True
    then have eq: "shift_right_loop seq1 seq2 cur len d = shift_right_loop seq1 seq2 cur len (d + 1)"
      by (simp add: shift_right_loop.simps [of seq1 seq2 cur len d])
    have split: "d \<le> j \<longleftrightarrow> j = d \<or> d + 1 \<le> j" for j by auto
    show ?thesis using "1.IH" True unfolding eq split by auto
  next
    case False
    then have "shift_right_loop seq1 seq2 cur len d = d"
      by (auto simp: shift_right_loop.simps [of seq1 seq2 cur len d])
    then show ?thesis using "1.prems" by auto
  qed
qed

lemma left_step_ok:
  assumes "linked seq1 seq2 a b p" "tidy seq1 seq2 1 (end1 p) (end2 p) (cur # rest)"
  shows "\<exists>j d. left_step seq1 seq2 p cur = Inr (j, d) \<and>
    (j \<longrightarrow> linked seq1 seq2 a b d \<and> start1 d = start1 p \<and> tidy seq1 seq2 1 (end1 d) (end2 d) rest) \<and>
    (\<not> j \<longrightarrow> tidy seq1 seq2 1 (end1 p) (end2 p) (d # rest))"
proof (cases "OffsetRange_isEmpty (seq1Range cur) \<or> OffsetRange_isEmpty (seq2Range cur)")
  case False
  then show ?thesis using assms(2) by (auto simp: left_step_def intro!: exI [of _ False])
next
  case True
  define len where "len = start1 cur - end1 p"
  define d where "d = shift_left_loop seq1 seq2 cur len 1 - 1"
  have cur: "linked seq1 seq2 (end1 p) (end2 p) cur" "1 \<le> len" using assms(2) by (simp_all add: len_def)
  have len2: "start2 cur - len = end2 p" using cur(1) by (simp add: linked_def len_def)
  have d: "0 \<le> d" "d \<le> len" "slides_left seq1 seq2 cur d"
    using shift_left_loop_facts [of 1 len seq1 seq2 cur] cur(2) by (auto simp: d_def slides_left_def)
  show ?thesis
  proof (cases "d = len")
    case True
    define e where "e = SequenceDiff (OffsetRange (start1 p) (end1 cur - len)) (OffsetRange (start2 p) (end2 cur - len))"
    have "equal_run seq1 seq2 (end1 cur - len) (end2 cur - len) len"
      using slide_left_run [OF cur(1) d(3)] True by (simp add: len_def)
    then have "tidy seq1 seq2 (1 + len) (end1 cur - len) (end2 cur - len) rest"
      using assms(2) cur(2) by (intro tidy_back) simp_all
    then have tail: "tidy seq1 seq2 1 (end1 e) (end2 e) rest" using cur(2) tidy_mono by (fastforce simp: e_def)
    have le: "start1 p \<le> end1 p" "end1 p \<le> end1 cur - len" "start2 p \<le> end2 p" "end2 p \<le> end2 cur - len"
      using assms(1) cur(1) len2 by (auto simp: linked_def len_def)
    have "left_step seq1 seq2 p cur = Inr (True, e)"
      using \<open>_ \<or> _\<close> True le by (simp add: left_step_def mk_OffsetRange_def e_def flip: len_def d_def)
    moreover have "linked seq1 seq2 a b e"
      using assms(1) le by (auto simp: linked_def e_def nonempty_diff_def)
    ultimately show ?thesis using tail by (intro exI [of _ True] exI [of _ e]) (simp add: e_def)
  next
    case False
    have "SequenceDiff_delta cur (- d) = Inr (moved cur (- d))"
      using cur(1) by (intro delta_moved) (simp_all add: linked_def)
    then have "left_step seq1 seq2 p cur = Inr (False, moved cur (- d))"
      using \<open>_ \<or> _\<close> False by (simp add: left_step_def flip: len_def d_def)
    moreover have "tidy seq1 seq2 1 (end1 p) (end2 p) (moved cur (- d) # rest)"
      using d False by (intro slide_left [OF assms(2)]) (simp_all add: len_def)
    ultimately show ?thesis by (intro exI [of _ False] exI [of _ "moved cur (- d)"]) simp
  qed
qed

lemma join_left_ok:
  assumes "tidy seq1 seq2 m a b (ys @ p # rest)" "0 \<le> a" "0 \<le> b"
  shows "\<exists>r. join_left seq1 seq2 (ys @ [p]) rest = Inr r \<and> tidy seq1 seq2 m a b r"
  using assms
proof (induction rest arbitrary: ys p)
  case Nil
  then show ?case by simp
next
  case (Cons cur rest)
  obtain m' a' b' where at: "tidy seq1 seq2 m' a' b' (p # cur # rest)" using tidy_at [OF Cons.prems] by blast
  then have at': "linked seq1 seq2 a' b' p" "tidy seq1 seq2 1 (end1 p) (end2 p) (cur # rest)" by simp_all
  obtain j d where step: "left_step seq1 seq2 p cur = Inr (j, d)" using left_step_ok [OF at'] by blast
  show ?case
  proof (cases j)
    case True
    have "tidy seq1 seq2 m a b (ys @ d # rest)"
    proof (rule tidy_replace [OF Cons.prems])
      fix m a b assume "tidy seq1 seq2 m a b (p # cur # rest)"
      then show "tidy seq1 seq2 m a b (d # rest)"
        using left_step_ok [of seq1 seq2 a b p cur rest] step True by auto
    qed
    then show ?thesis using Cons.IH [of ys d] Cons.prems(2,3) step True by simp
  next
    case False
    have "tidy seq1 seq2 m a b (ys @ p # d # rest)"
    proof (rule tidy_replace [OF Cons.prems])
      fix m a b assume "tidy seq1 seq2 m a b (p # cur # rest)"
      then show "tidy seq1 seq2 m a b (p # d # rest)"
        using left_step_ok [of seq1 seq2 a b p cur rest] step False by auto
    qed
    then show ?thesis using Cons.IH [of "ys @ [p]" d] Cons.prems(2,3) step False by simp
  qed
qed

lemma strong_slides_right:
  assumes "strong_ok seq1" "strong_ok seq2" "linked seq1 seq2 a b cur" "0 \<le> a" "0 \<le> b"
    and "end1 cur + n \<le> seq_length seq1" "end2 cur + n \<le> seq_length seq2"
    and "\<And>j. 0 \<le> j \<Longrightarrow> j < n \<Longrightarrow> isStronglyEqual seq1 (start1 cur + j) (end1 cur + j) \<and>
      isStronglyEqual seq2 (start2 cur + j) (end2 cur + j)"
  shows "slides_right seq1 seq2 cur n"
  unfolding slides_right_def
proof (intro allI impI)
  fix j assume j: "0 \<le> j \<and> j < n"
  have le: "0 \<le> start1 cur" "start1 cur \<le> end1 cur" "0 \<le> start2 cur" "start2 cur \<le> end2 cur"
    using assms(3-5) by (auto simp: linked_def)
  then show "getElement seq1 (start1 cur + j) = getElement seq1 (end1 cur + j) \<and>
      getElement seq2 (start2 cur + j) = getElement seq2 (end2 cur + j)"
    using assms(1,2,6,7) assms(8) [of j] j by (auto simp: strong_ok_def)
qed

lemma right_step_ok:
  assumes "strong_ok seq1" "strong_ok seq2" "tidy seq1 seq2 m a b (cur # nx # rest)" "0 \<le> a" "0 \<le> b"
  shows "\<exists>j d. right_step seq1 seq2 cur nx = Inr (j, d) \<and>
    (j \<longrightarrow> tidy seq1 seq2 m a b (d # rest)) \<and> (\<not> j \<longrightarrow> tidy seq1 seq2 m a b (d # nx # rest))"
proof (cases "OffsetRange_isEmpty (seq1Range cur) \<or> OffsetRange_isEmpty (seq2Range cur)")
  case False
  then show ?thesis using assms(3) by (auto simp: right_step_def intro!: exI [of _ False])
next
  case True
  define len where "len = start1 nx - end1 cur"
  define n where "n = shift_right_loop seq1 seq2 cur len 0"
  have cur: "linked seq1 seq2 a b cur" "m \<le> start1 cur - a" and nx: "linked seq1 seq2 (end1 cur) (end2 cur) nx" "1 \<le> len"
    and rest: "tidy seq1 seq2 1 (end1 nx) (end2 nx) rest" using assms(3) by (simp_all add: len_def)
  have len2: "end2 cur + len = start2 nx" using nx(1) by (simp add: linked_def len_def)
  have ends: "end1 cur + len \<le> seq_length seq1" "end2 cur + len \<le> seq_length seq2"
    using aligned_bounds [OF tidy_aligned [OF rest]] nx(1) by (auto simp: linked_def len_def)
  have n: "0 \<le> n" "n \<le> len"
    "0 \<le> j \<Longrightarrow> j < n \<Longrightarrow> isStronglyEqual seq1 (start1 cur + j) (end1 cur + j) \<and>
      isStronglyEqual seq2 (start2 cur + j) (end2 cur + j)" for j
    using shift_right_loop_facts [of 0 len seq1 seq2 cur] nx(2) by (auto simp: n_def)
  have slides: "slides_right seq1 seq2 cur n"
    using ends n by (intro strong_slides_right [OF assms(1,2) cur(1) assms(4,5)]) auto
  show ?thesis
  proof (cases "n = len")
    case True
    define e where "e = SequenceDiff (OffsetRange (start1 cur + len) (end1 nx)) (OffsetRange (start2 cur + len) (end2 nx))"
    have run: "equal_run seq1 seq2 (end1 cur) (end2 cur) len" using nx(1) unfolding linked_def len_def by blast
    have le: "start1 cur + len \<le> start1 nx" "start1 nx \<le> end1 nx" "start2 cur + len \<le> start2 nx" "start2 nx \<le> end2 nx"
      using cur(1) nx(1) len2 by (auto simp: linked_def len_def)
    have "right_step seq1 seq2 cur nx = Inr (True, e)"
      using \<open>_ \<or> _\<close> True le by (simp add: right_step_def mk_OffsetRange_def e_def flip: len_def n_def)
    moreover have "equal_run seq1 seq2 a b (start1 cur + len - a)"
      using slide_right_run [OF cur(1)] slides run True n(1) by simp
    then have "linked seq1 seq2 a b e"
      using cur(1) nx le by (auto simp: linked_def e_def nonempty_diff_def)
    ultimately show ?thesis
      using rest cur(2) nx(2) by (intro exI [of _ True] exI [of _ e]) (simp add: e_def)
  next
    case False
    have "SequenceDiff_delta cur n = Inr (moved cur n)"
      using cur(1) by (intro delta_moved) (simp_all add: linked_def)
    moreover have "n = 0 \<Longrightarrow> moved cur n = cur" by (simp add: moved_def)
    ultimately have "right_step seq1 seq2 cur nx = Inr (False, moved cur n)"
      using \<open>_ \<or> _\<close> False n(1) by (auto simp: right_step_def simp flip: len_def n_def)
    moreover have "tidy seq1 seq2 m a b (moved cur n # nx # rest)"
      using n False by (intro slide_right [OF assms(3) slides]) (simp_all add: len_def)
    ultimately show ?thesis by (intro exI [of _ False] exI [of _ "moved cur n"]) simp
  qed
qed

lemma join_right_ok:
  assumes "strong_ok seq1" "strong_ok seq2" "tidy seq1 seq2 m a b (ys @ result)" "0 \<le> a" "0 \<le> b"
  shows "\<exists>r. join_right seq1 seq2 result ys = Inr r \<and> tidy seq1 seq2 m a b r"
  using assms
proof (induction seq1 seq2 result ys rule: join_right.induct)
  case (1 seq1 seq2 cur nx rest ys)
  obtain m' a' b' where at: "0 \<le> a'" "0 \<le> b'" "tidy seq1 seq2 m' a' b' (cur # nx # rest)"
    using tidy_at [OF "1.prems"(3-5)] by blast
  obtain j d where step: "right_step seq1 seq2 cur nx = Inr (j, d)"
    using right_step_ok [OF "1.prems"(1,2) at(3,1,2)] by blast
  have part: "tidy seq1 seq2 m a b (if j then d # rest else d # nx # rest)"
    if "tidy seq1 seq2 m a b (cur # nx # rest)" "0 \<le> a" "0 \<le> b" for m a b
    using right_step_ok [OF "1.prems"(1,2) that] step by auto
  have "tidy seq1 seq2 m a b (ys @ (if j then d # rest else d # nx # rest))"
    by (rule tidy_replace [OF "1.prems"(3-5)]) (rule part)
  then show ?case
    using "1.IH" "1.prems"(1,2,4,5) step by (cases j) auto
qed auto

lemma joinSequenceDiffsByShifting_ok:
  assumes "strong_ok seq1" "strong_ok seq2" "covered seq1 seq2 0 0 ds"
  shows "\<exists>r. joinSequenceDiffsByShifting seq1 seq2 ds = Inr r \<and> covered seq1 seq2 0 0 r"
proof (cases ds)
  case Nil
  then show ?thesis using assms(3) by (simp add: joinSequenceDiffsByShifting_def)
next
  case (Cons d rest)
  then have "tidy seq1 seq2 0 0 0 ([] @ d # rest)" using assms(3) by (simp only: tidy_covered append.simps)
  from join_left_ok [OF this] obtain r where r: "join_left seq1 seq2 [d] rest = Inr r" "tidy seq1 seq2 0 0 0 ([] @ r)"
    by auto
  from join_right_ok [OF assms(1,2) r(2)] obtain r' where "join_right seq1 seq2 r [] = Inr r'" "tidy seq1 seq2 0 0 0 r'"
    by auto
  then show ?thesis using r(1) Cons by (auto simp: joinSequenceDiffsByShifting_def tidy_covered)
qed

subsection \<open>Shifting to better positions\<close>

definition scored :: "'e isequence \<Rightarrow> bool" where
  "scored s \<longleftrightarrow> (\<forall>i. 0 \<le> i \<and> i \<le> seq_length s \<longrightarrow> (\<exists>v. boundary_score s i = Inr v))"

definition upper1 :: "'e isequence \<Rightarrow> sequence_diff list \<Rightarrow> int" where
  "upper1 seq1 ds = (case ds of [] \<Rightarrow> seq_length seq1 | nx # _ \<Rightarrow> start1 nx - 1)"

definition upper2 :: "'e isequence \<Rightarrow> sequence_diff list \<Rightarrow> int" where
  "upper2 seq2 ds = (case ds of [] \<Rightarrow> seq_length seq2 | nx # _ \<Rightarrow> start2 nx - 1)"

lemma upper_bounds:
  assumes "tidy seq1 seq2 1 a b ds"
  shows "a \<le> upper1 seq1 ds \<and> b \<le> upper2 seq2 ds \<and> upper1 seq1 ds \<le> seq_length seq1 \<and>
    upper2 seq2 ds \<le> seq_length seq2 \<and> upper1 seq1 ds - a = upper2 seq2 ds - b"
proof (cases ds)
  case Nil
  then show ?thesis using assms by (auto simp: upper1_def upper2_def)
next
  case (Cons d ds')
  then have "end1 d \<le> seq_length seq1 \<and> end2 d \<le> seq_length seq2"
    using assms aligned_bounds [OF tidy_aligned, of seq1 seq2 1 "end1 d" "end2 d" ds'] by simp
  then show ?thesis using assms Cons by (auto simp: upper1_def upper2_def linked_def)
qed

lemma delta_before_loop_facts:
  "d \<le> delta_before_loop diff seq2 v1 v2 d \<and>
     (\<forall>j. d \<le> j \<and> j < delta_before_loop diff seq2 v1 v2 d \<longrightarrow>
        start v1 \<le> start1 diff - j \<and> start v2 \<le> start2 diff - j \<and>
        isStronglyEqual seq2 (start2 diff - j) (end2 diff - j))"
proof (induction diff seq2 v1 v2 d rule: delta_before_loop.induct)
  case (1 diff seq2 v1 v2 d)
  note eq = delta_before_loop.simps [of diff seq2 v1 v2 d]
  have split: "d \<le> j \<longleftrightarrow> j = d \<or> d + 1 \<le> j" for j by auto
  show ?case
  proof (cases "start v1 \<le> start1 diff - d \<and> start v2 \<le> start2 diff - d \<and>
      isStronglyEqual seq2 (start2 diff - d) (end2 diff - d) \<and> d < maxShiftLimit")
    case True
    then have "delta_before_loop diff seq2 v1 v2 d = delta_before_loop diff seq2 v1 v2 (d + 1)"
      by (subst eq) (simp only: if_True simp_thms)
    then show ?thesis using "1.IH" True unfolding split by auto
  next
    case False
    then have "delta_before_loop diff seq2 v1 v2 d = d" by (subst eq) (simp only: if_False simp_thms)
    then show ?thesis by auto
  qed
qed

lemma delta_after_loop_facts:
  "d \<le> delta_after_loop diff seq2 v1 v2 d \<and>
     (\<forall>j. d \<le> j \<and> j < delta_after_loop diff seq2 v1 v2 d \<longrightarrow>
        start1 diff + j < endExclusive v1 \<and> end2 diff + j < endExclusive v2 \<and>
        isStronglyEqual seq2 (start2 diff + j) (end2 diff + j))"
proof (induction diff seq2 v1 v2 d rule: delta_after_loop.induct)
  case (1 diff seq2 v1 v2 d)
  note eq = delta_after_loop.simps [of diff seq2 v1 v2 d]
  have split: "d \<le> j \<longleftrightarrow> j = d \<or> d + 1 \<le> j" for j by auto
  show ?case
  proof (cases "start1 diff + d < endExclusive v1 \<and> end2 diff + d < endExclusive v2 \<and>
      isStronglyEqual seq2 (start2 diff + d) (end2 diff + d) \<and> d < maxShiftLimit")
    case True
    then have "delta_after_loop diff seq2 v1 v2 d = delta_after_loop diff seq2 v1 v2 (d + 1)"
      by (subst eq) (simp only: if_True simp_thms)
    then show ?thesis using "1.IH" True unfolding split by auto
  next
    case False
    then have "delta_after_loop diff seq2 v1 v2 d = d" by (subst eq) (simp only: if_False simp_thms)
    then show ?thesis by auto
  qed
qed

lemma best_delta_ok:
  assumes "scored seq1" "scored seq2"
    and "\<And>n. n \<in> set ns \<Longrightarrow> 0 \<le> start1 d + n \<and> start1 d + n \<le> seq_length seq1 \<and>
      0 \<le> start2 d + n \<and> start2 d + n \<le> end2 d + n \<and> end2 d + n \<le> seq_length seq2"
  shows "\<exists>n. best_delta d seq1 seq2 ns n0 s0 = Inr n \<and> (n = n0 \<or> n \<in> set ns)"
  using assms(3)
proof (induction ns arbitrary: n0 s0)
  case (Cons n ns)
  have b: "0 \<le> start1 d + n \<and> start1 d + n \<le> seq_length seq1 \<and>
      0 \<le> start2 d + n \<and> start2 d + n \<le> end2 d + n \<and> end2 d + n \<le> seq_length seq2"
    using Cons.prems [of n] by simp
  obtain v1 v2 v3 where "boundary_score seq1 (start1 d + n) = Inr v1"
      "boundary_score seq2 (start2 d + n) = Inr v2" "boundary_score seq2 (end2 d + n) = Inr v3"
    using assms(1,2) b unfolding scored_def by (meson order_trans)
  moreover obtain r where "best_delta d seq1 seq2 ns n (v1 + v2 + v3) = Inr r" "r = n \<or> r \<in> set ns"
    using Cons.IH [of n "v1 + v2 + v3"] Cons.prems by auto
  moreover obtain r' where "best_delta d seq1 seq2 ns n0 s0 = Inr r'" "r' = n0 \<or> r' \<in> set ns"
    using Cons.IH [of n0 s0] Cons.prems by auto
  ultimately show ?case by (auto simp: Let_def)
qed simp

lemma shift_diff_ok:
  assumes "strong_ok seq2" "scored seq1" "scored seq2"
    and tidy: "tidy seq1 seq2 m a b (d # ds)" "0 \<le> a" "0 \<le> b" "0 \<le> m"
    and d: "start1 d = end1 d"
    and v: "v1 = OffsetRange (a + m) (upper1 seq1 ds)" "v2 = OffsetRange (b + m) (upper2 seq2 ds)"
  shows "\<exists>n. shiftDiffToBetterPosition d seq1 seq2 v1 v2 = Inr (moved d n) \<and> tidy seq1 seq2 m a b (moved d n # ds)"
proof -
  define before after where "before = delta_before_loop d seq2 v1 v2 1 - 1" and "after = delta_after_loop d seq2 v1 v2 0"
  have link: "linked seq1 seq2 a b d" "m \<le> start1 d - a" and tail: "tidy seq1 seq2 1 (end1 d) (end2 d) ds"
    using tidy(1) by simp_all
  note up = upper_bounds [OF tail]
  have le: "0 \<le> start2 d" "start2 d \<le> end2 d" using link tidy(2,3) by (auto simp: linked_def)
  have b: "0 \<le> before" "a + m \<le> start1 d - j \<and> b + m \<le> start2 d - j \<and> isStronglyEqual seq2 (start2 d - j) (end2 d - j)"
    if "1 \<le> j" "j \<le> before" for j
    using delta_before_loop_facts [of 1 d seq2 v1 v2] that by (simp_all add: before_def v)
  have a: "start1 d + j < upper1 seq1 ds \<and> end2 d + j < upper2 seq2 ds \<and> isStronglyEqual seq2 (start2 d + j) (end2 d + j)"
    if "0 \<le> j" "j < after" for j
    using delta_after_loop_facts [of 0 d seq2 v1 v2] that by (simp add: after_def v)
  have pos: "0 \<le> before" "0 \<le> after"
    using delta_before_loop_facts [of 1 d seq2 v1 v2] delta_after_loop_facts [of 0 d seq2 v1 v2]
    by (simp_all add: before_def after_def)
  have b_max: "a + m \<le> start1 d - before" "b + m \<le> start2 d - before"
    using b(2) [of before] link pos(1) by (cases "before = 0"; auto simp: linked_def)+
  have a_max: "start1 d + after \<le> upper1 seq1 ds" "end2 d + after \<le> upper2 seq2 ds"
    using a [of "after - 1"] up d pos(2) by (cases "after = 0"; auto)+
  have shifted: "tidy seq1 seq2 m a b (moved d n # ds)" if n: "- before \<le> n" "n \<le> after" for n
  proof (cases "0 \<le> n")
    case True
    have "slides_right seq1 seq2 d n"
      unfolding slides_right_def
    proof (intro allI impI)
      fix j assume j: "0 \<le> j \<and> j < n"
      then have "isStronglyEqual seq2 (start2 d + j) (end2 d + j)" "end2 d + j < seq_length seq2"
        using a [of j] n(2) up by auto
      then show "getElement seq1 (start1 d + j) = getElement seq1 (end1 d + j) \<and>
          getElement seq2 (start2 d + j) = getElement seq2 (end2 d + j)"
        using assms(1) le j d by (auto simp: strong_ok_def)
    qed
    then show ?thesis
      using True a_max(1) n(2) d by (intro slide_right [OF tidy(1)]) (auto simp: upper1_def split: list.splits)
  next
    case False
    have "slides_left seq1 seq2 d (- n)"
      unfolding slides_left_def
    proof (intro allI impI)
      fix j assume j: "1 \<le> j \<and> j \<le> - n"
      then have "isStronglyEqual seq2 (start2 d - j) (end2 d - j)" "0 \<le> start2 d - j"
        using b(2) [of j] n(1) tidy(3,4) by auto
      then show "getElement seq1 (start1 d - j) = getElement seq1 (end1 d - j) \<and>
          getElement seq2 (start2 d - j) = getElement seq2 (end2 d - j)"
        using assms(1) le j d up by (auto simp: strong_ok_def)
    qed
    then show ?thesis
      using slide_left [OF tidy(1), of "- n"] False b_max(1) n(1) tidy(4) by simp
  qed
  show ?thesis
  proof (cases "before = 0 \<and> after = 0")
    case True
    then have "shiftDiffToBetterPosition d seq1 seq2 v1 v2 = Inr d"
      by (simp add: shiftDiffToBetterPosition_def flip: before_def after_def)
    moreover have "moved d 0 = d" by (simp add: moved_def)
    ultimately show ?thesis using tidy(1) by metis
  next
    case False
    obtain n where n: "best_delta d seq1 seq2 [- before .. after] 0 (- 1) = Inr n" "n = 0 \<or> n \<in> set [- before .. after]"
      using best_delta_ok [OF assms(2,3), of "[- before .. after]" d 0 "- 1"] a_max b_max up le tidy(2-4) by auto
    have "SequenceDiff_delta d n = Inr (moved d n)" using d le by (intro delta_moved) simp_all
    then have "shiftDiffToBetterPosition d seq1 seq2 v1 v2 = Inr (moved d n)"
      using False n(1) by (auto simp: shiftDiffToBetterPosition_def simp flip: before_def after_def)
    moreover have "- before \<le> n" "n \<le> after" using n(2) pos by auto
    ultimately show ?thesis using shifted by blast
  qed
qed

text \<open>The same with the two sequences swapped.\<close>

lemma swap_simps [simp]:
  "start1 (SequenceDiff_swap d) = start2 d" "end1 (SequenceDiff_swap d) = end2 d"
  "start2 (SequenceDiff_swap d) = start1 d" "end2 (SequenceDiff_swap d) = end1 d"
  "nonempty_diff (SequenceDiff_swap d) \<longleftrightarrow> nonempty_diff d"
  "SequenceDiff_swap (SequenceDiff_swap d) = d"
  by (auto simp: SequenceDiff_swap_def nonempty_diff_def)

lemma swap_moved: "SequenceDiff_swap (moved d n) = moved (SequenceDiff_swap d) n"
  by (simp add: SequenceDiff_swap_def moved_def)

lemma equal_run_swap: "equal_run seq2 seq1 b a n \<longleftrightarrow> equal_run seq1 seq2 a b n"
  by (auto simp: equal_run_def)

lemma linked_swap: "linked seq2 seq1 b a (SequenceDiff_swap d) \<longleftrightarrow> linked seq1 seq2 a b d"
  by (auto simp: linked_def equal_run_swap simp del: equal_run_empty)

lemma tidy_swap: "tidy seq2 seq1 m b a (map SequenceDiff_swap ds) \<longleftrightarrow> tidy seq1 seq2 m a b ds"
proof (induction ds arbitrary: m a b)
  case Nil
  then show ?case by (auto simp: equal_run_swap simp del: equal_run_empty)
next
  case (Cons d ds)
  then show ?case by (auto simp: linked_swap) (auto simp: linked_def)
qed

lemma upper_swap: "upper1 seq (map SequenceDiff_swap ds) = upper2 seq ds" "upper2 seq (map SequenceDiff_swap ds) = upper1 seq ds"
  by (simp_all add: upper1_def upper2_def split: list.splits)

lemma shift_diffs_ok:
  assumes "strong_ok seq1" "strong_ok seq2" "scored seq1" "scored seq2"
    and "tidy seq1 seq2 m a b ds" "0 \<le> a" "0 \<le> b"
    and "case prev of None \<Rightarrow> m = 0 \<and> a = 0 \<and> b = 0 | Some p \<Rightarrow> m = 1 \<and> a = end1 p \<and> b = end2 p"
  shows "\<exists>r. shift_diffs seq1 seq2 prev ds = Inr r \<and> tidy seq1 seq2 m a b r"
  using assms(5-)
proof (induction ds arbitrary: prev m a b)
  case Nil
  then show ?case by (simp del: tidy.simps)
next
  case (Cons d ds)
  define v1 v2 where "v1 = OffsetRange (a + m) (upper1 seq1 ds)" and "v2 = OffsetRange (b + m) (upper2 seq2 ds)"
  have m: "0 \<le> m" using Cons.prems(4) by (simp split: option.splits)
  have link: "linked seq1 seq2 a b d" "m \<le> start1 d - a" and tail: "tidy seq1 seq2 1 (end1 d) (end2 d) ds"
    using Cons.prems(1) by simp_all
  note up = upper_bounds [OF tail]
  have lows: "(case prev of Some p \<Rightarrow> end1 p + 1 | None \<Rightarrow> 0) = a + m" "(case prev of Some p \<Rightarrow> end2 p + 1 | None \<Rightarrow> 0) = b + m"
    using Cons.prems(4) by (simp_all split: option.splits)
  have ups: "(case case ds of [] \<Rightarrow> None | n # x \<Rightarrow> Some n of Some n \<Rightarrow> start1 n - 1 | None \<Rightarrow> seq_length seq1) = upper1 seq1 ds"
      "(case case ds of [] \<Rightarrow> None | n # x \<Rightarrow> Some n of Some n \<Rightarrow> start2 n - 1 | None \<Rightarrow> seq_length seq2) = upper2 seq2 ds"
    by (simp_all add: upper1_def upper2_def split: list.splits)
  have ranges: "mk_OffsetRange (a + m) (upper1 seq1 ds) = Inr v1" "mk_OffsetRange (b + m) (upper2 seq2 ds) = Inr v2"
    using link up by (auto simp: mk_OffsetRange_def v1_def v2_def linked_def)
  define shifted where "shifted =
    (if OffsetRange_isEmpty (seq1Range d) then shiftDiffToBetterPosition d seq1 seq2 v1 v2
     else if OffsetRange_isEmpty (seq2Range d) then
       bind_result (shiftDiffToBetterPosition (SequenceDiff_swap d) seq2 seq1 v2 v1) (\<lambda>d. Inr (SequenceDiff_swap d))
     else Inr d)"
  have step: "shift_diffs seq1 seq2 prev (d # ds) =
      bind_result shifted (\<lambda>d'. bind_result (shift_diffs seq1 seq2 (Some d') ds) (\<lambda>r. Inr (d' # r)))"
    by (simp add: lows ups ranges shifted_def)
  have "\<exists>d'. shifted = Inr d' \<and> tidy seq1 seq2 m a b (d' # ds)"
  proof (cases "start1 d = end1 d")
    case True
    then show ?thesis
      using shift_diff_ok [OF assms(2-4) Cons.prems(1-3) m True v1_def v2_def]
      by (auto simp: shifted_def OffsetRange_isEmpty_def)
  next
    case one: False
    show ?thesis
    proof (cases "start2 d = end2 d")
      case True
      have "tidy seq2 seq1 m b a (SequenceDiff_swap d # map SequenceDiff_swap ds)"
        using tidy_swap [of seq2 seq1 m b a "d # ds"] Cons.prems(1) by simp
      from shift_diff_ok [OF assms(1,4,3) this Cons.prems(3,2) m, of v2 v1]
      obtain n where n: "shiftDiffToBetterPosition (SequenceDiff_swap d) seq2 seq1 v2 v1 = Inr (moved (SequenceDiff_swap d) n)"
          "tidy seq2 seq1 m b a (moved (SequenceDiff_swap d) n # map SequenceDiff_swap ds)"
        using True by (auto simp: v1_def v2_def upper_swap)
      have "moved (SequenceDiff_swap d) n # map SequenceDiff_swap ds = map SequenceDiff_swap (moved d n # ds)"
        by (simp add: swap_moved)
      then have "tidy seq1 seq2 m a b (moved d n # ds)" using n(2) tidy_swap by metis
      then show ?thesis
        using n(1) one True by (auto simp: shifted_def OffsetRange_isEmpty_def swap_moved)
    next
      case False
      then show ?thesis using one Cons.prems(1) by (simp add: shifted_def OffsetRange_isEmpty_def)
    qed
  qed
  then obtain d' where d': "shifted = Inr d'" "tidy seq1 seq2 m a b (d' # ds)" by blast
  have "0 \<le> end1 d'" "0 \<le> end2 d'" using d'(2) Cons.prems(2,3) by (auto simp: linked_def)
  then obtain r where "shift_diffs seq1 seq2 (Some d') ds = Inr r" "tidy seq1 seq2 1 (end1 d') (end2 d') r"
    using Cons.IH [of 1 "end1 d'" "end2 d'" "Some d'"] d'(2) by auto
  then show ?case using step d' by simp
qed

subsection \<open>The results\<close>

lemma optimize_covered:
  assumes "strong_ok seq1" "strong_ok seq2"
    and "getBoundaryScore seq1 \<noteq> None \<Longrightarrow> getBoundaryScore seq2 \<noteq> None \<Longrightarrow> scored seq1 \<and> scored seq2"
    and "covered seq1 seq2 0 0 ds"
  shows "\<exists>r. optimizeSequenceDiffs seq1 seq2 ds = Inr r \<and> covered seq1 seq2 0 0 r"
proof -
  obtain r1 where r1: "joinSequenceDiffsByShifting seq1 seq2 ds = Inr r1" "covered seq1 seq2 0 0 r1"
    using joinSequenceDiffsByShifting_ok [OF assms(1,2,4)] by blast
  then obtain r2 where r2: "joinSequenceDiffsByShifting seq1 seq2 r1 = Inr r2" "covered seq1 seq2 0 0 r2"
    using joinSequenceDiffsByShifting_ok [OF assms(1,2)] by blast
  have "\<exists>r. shiftSequenceDiffs seq1 seq2 r2 = Inr r \<and> covered seq1 seq2 0 0 r"
  proof (cases "getBoundaryScore seq1 = None \<or> getBoundaryScore seq2 = None")
    case True
    then show ?thesis using r2(2) by (simp add: shiftSequenceDiffs_def)
  next
    case False
    then have "scored seq1" "scored seq2" using assms(3) by auto
    then show ?thesis
      using False r2(2) shift_diffs_ok [OF assms(1,2), of 0 0 0 r2 None]
      by (auto simp: shiftSequenceDiffs_def tidy_covered)
  qed
  then show ?thesis using r1(1) r2(1) by (simp add: optimizeSequenceDiffs_def)
qed

text \<open>C9:
  \<open>optimizeSequenceDiffs\<close> never fails on an alignment, and gives an alignment of the same two
  sequences: whatever it moves or joins, the elements outside the diffs are equal one by one, the
  diffs stay in order, are not empty and do not touch. Strong equality has to imply equality, and
  the boundary scores have to be defined inside the sequences.
\<close>

theorem optimizeSequenceDiffs_aligned:
  assumes "strong_ok seq1" "strong_ok seq2" "scored seq1" "scored seq2"
    and "aligned seq1 seq2 0 0 ds" "diffs_separated ds" "\<forall>d \<in> set ds. nonempty_diff d"
  shows "\<exists>r. optimizeSequenceDiffs seq1 seq2 ds = Inr r \<and>
    aligned seq1 seq2 0 0 r \<and> diffs_separated r \<and> (\<forall>d \<in> set r. nonempty_diff d)"
  using optimize_covered [OF assms(1,2)] assms(3-) by (simp add: covered_def)

theorem optimizeSequenceDiffs_aligned_witness:
  "\<exists>r. optimizeSequenceDiffs (list_sequence [1, 2 :: int] \<lparr>getBoundaryScore := Some Inr\<rparr>)
      (list_sequence [1, 2, 2] \<lparr>getBoundaryScore := Some Inr\<rparr>)
      [SequenceDiff (OffsetRange 1 1) (OffsetRange 1 2)] = Inr r \<and>
    aligned (list_sequence [1, 2 :: int] \<lparr>getBoundaryScore := Some Inr\<rparr>)
      (list_sequence [1, 2, 2] \<lparr>getBoundaryScore := Some Inr\<rparr>) 0 0 r \<and>
    diffs_separated r \<and> (\<forall>d \<in> set r. nonempty_diff d)"
  by (rule optimizeSequenceDiffs_aligned)
    (auto simp: strong_ok_def scored_def boundary_score_def list_sequence_def equal_run_def js_at_def
      nonempty_diff_def)

lemma join_ok:
  assumes "linked seq1 seq2 a b p" "tidy seq1 seq2 1 (end1 p) (end2 p) (cur # rest)"
  shows "\<exists>j. SequenceDiff_join p cur = Inr j \<and> linked seq1 seq2 a b j \<and> start1 j = start1 p \<and>
    tidy seq1 seq2 1 (end1 j) (end2 j) rest"
proof -
  define j where "j = SequenceDiff (OffsetRange (start1 p) (end1 cur)) (OffsetRange (start2 p) (end2 cur))"
  have le: "start1 p \<le> end1 p" "end1 p \<le> start1 cur" "start1 cur \<le> end1 cur"
      "start2 p \<le> end2 p" "end2 p \<le> start2 cur" "start2 cur \<le> end2 cur"
    using assms by (auto simp: linked_def)
  then have "SequenceDiff_join p cur = Inr j"
    by (simp add: SequenceDiff_join_def OffsetRange_join_def mk_OffsetRange_def j_def)
  moreover have "linked seq1 seq2 a b j" using assms(1) le by (auto simp: linked_def j_def nonempty_diff_def)
  ultimately show ?thesis using assms(2) by (simp add: j_def)
qed

text \<open>
  Joining keeps an alignment, whatever the condition is, as long as it does not fail on diffs in
  order. Nothing that was in a diff gets out of it.
\<close>

definition decides :: "(sequence_diff \<Rightarrow> sequence_diff \<Rightarrow> bool result) \<Rightarrow> bool" where
  "decides f \<longleftrightarrow> (\<forall>d d'. 0 \<le> end1 d \<and> end1 d < start1 d' \<longrightarrow> (\<exists>x. f d d' = Inr x))"

lemma join_where_ok:
  assumes "tidy seq1 seq2 m a b (ys @ p # rest)" "0 \<le> a" "0 \<le> b" "decides f"
  shows "\<exists>r rep'. join_where f rep (ys @ [p]) rest = Inr (r, rep') \<and> tidy seq1 seq2 m a b r"
  using assms
proof (induction rest arbitrary: ys p rep)
  case Nil
  then show ?case by simp
next
  case (Cons cur rest)
  obtain m' a' b' where at: "0 \<le> a'" "tidy seq1 seq2 m' a' b' (p # cur # rest)"
    using tidy_at [OF Cons.prems(1-3)] by blast
  then have at': "linked seq1 seq2 a' b' p" "tidy seq1 seq2 1 (end1 p) (end2 p) (cur # rest)" by simp_all
  then have "0 \<le> end1 p" "end1 p < start1 cur" using at(1) by (auto simp: linked_def)
  then obtain x where x: "f p cur = Inr x" using Cons.prems(4) by (auto simp: decides_def)
  show ?case
  proof (cases x)
    case True
    obtain j where j: "SequenceDiff_join p cur = Inr j" using join_ok [OF at'] by blast
    have "tidy seq1 seq2 m a b (ys @ j # rest)"
    proof (rule tidy_replace [OF Cons.prems(1-3)])
      fix m a b assume "tidy seq1 seq2 m a b (p # cur # rest)"
      then show "tidy seq1 seq2 m a b (j # rest)"
        using join_ok [of seq1 seq2 a b p cur rest] j by auto
    qed
    then show ?thesis using Cons.IH [of ys j True] Cons.prems(2-4) x True j by simp
  next
    case False
    then show ?thesis using Cons.IH [of "ys @ [p]" cur rep] Cons.prems x by simp
  qed
qed

lemma join_where_covered:
  assumes "covered seq1 seq2 0 0 (first # rest)" "decides f"
  shows "\<exists>r rep. join_where f False [first] rest = Inr (r, rep) \<and> covered seq1 seq2 0 0 r"
  using join_where_ok [of seq1 seq2 0 0 0 "[]" first rest f False] assms by (simp only: tidy_covered append.simps)

lemma repeat_joins_ok:
  assumes "covered seq1 seq2 0 0 ds" "decides f"
  shows "\<exists>r. repeat_joins f n ds = Inr r \<and> covered seq1 seq2 0 0 r"
  using assms
proof (induction f n ds rule: repeat_joins.induct)
  case (2 f first rest)
  then show ?case using join_where_covered [of seq1 seq2 first rest f] by auto
next
  case (3 f n first rest)
  obtain r rep where r: "join_where f False [first] rest = Inr (r, rep)" "covered seq1 seq2 0 0 r"
    using join_where_covered [OF "3.prems"] by blast
  show ?case
  proof (cases rep)
    case True
    then show ?thesis using "3.IH" r "3.prems"(2) by simp
  qed (use r in simp)
qed simp

lemma removeShortMatches_covered:
  assumes "covered seq1 seq2 0 0 ds"
  shows "\<exists>r. removeShortMatches ds = Inr r \<and> covered seq1 seq2 0 0 r"
proof (cases ds)
  case Nil
  then show ?thesis using assms by (simp add: removeShortMatches_def del: aligned.simps)
next
  case (Cons d rest)
  then have "covered seq1 seq2 0 0 (d # rest)" using assms by simp
  from join_where_covered [OF this, of "\<lambda>last_diff s. Inr (start1 s - end1 last_diff \<le> 2 \<or> start2 s - end2 last_diff \<le> 2)"]
  show ?thesis using Cons by (auto simp: removeShortMatches_def decides_def)
qed

end
