(* ===== verification/LinesDiff.thy ===== *)
theory LinesDiff
  imports Complex_Main MyersCorrect DynamicProgrammingDiffing DiffHeuristicsLaws
begin

section \<open>The diff of two texts, line by line: \<open>defaultLinesDiffComputer.ts\<close>\<close>

text \<open>
  The first half of \<open>computeDiff\<close>: it gives equal numbers to lines that are equal up to white space
  at their ends, aligns the two sequences of numbers, makes the diffs readable and collects the
  ranges of lines that are refined into characters. \<open>LineSequence\<close> is a sequence over the numbers
  that also knows the lines. The refinement itself and the mappings built from it are not modelled;
  \<open>computeDiff_aligns_lines\<close> says that the ranges handed over to it account for every change.
\<close>

subsection \<open>White space\<close>

text \<open>The code units that \<open>trim\<close> strips and that \<open>\s\<close> matches.\<close>

definition is_js_space :: "code_unit \<Rightarrow> bool" where
  "is_js_space c \<longleftrightarrow> c \<in> {9, 10, 11, 12, 13, 32, 160, 5760, 8232, 8233, 8239, 8287, 12288, 65279} \<or>
     8192 \<le> c \<and> c \<le> 8202"

definition js_trim :: "js_string \<Rightarrow> js_string" where
  "js_trim s = rev (dropWhile is_js_space (rev (dropWhile is_js_space s)))"

text \<open>\<open>replace(/\s/g, '')\<close>\<close>

definition js_remove_space :: "js_string \<Rightarrow> js_string" where
  "js_remove_space s = filter (\<lambda>c. \<not> is_js_space c) s"

subsection \<open>\<open>LineSequence\<close>\<close>

text \<open>A space or a tab.\<close>

definition getIndentation :: "js_string \<Rightarrow> int" where
  "getIndentation str = int (length (takeWhile (\<lambda>c. c = 32 \<or> c = 9) str))"

definition line_indentation :: "js_string list \<Rightarrow> int \<Rightarrow> int result" where
  "line_indentation ls i = (case js_at ls i of Some l \<Rightarrow> Inr (getIndentation l) | None \<Rightarrow> Inl TypeError)"

definition LineSequence_getBoundaryScore :: "js_string list \<Rightarrow> int \<Rightarrow> int result" where
  "LineSequence_getBoundaryScore ls len =
     bind_result (if len = 0 then Inr 0 else line_indentation ls (len - 1)) (\<lambda>indentationBefore.
     bind_result (if len = int (length ls) then Inr 0 else line_indentation ls len) (\<lambda>indentationAfter.
     Inr (1000 - (indentationBefore + indentationAfter))))"

definition LineSequence_getText :: "js_string list \<Rightarrow> offset_range \<Rightarrow> js_string" where
  "LineSequence_getText ls r = js_join [10] (js_slice ls (start r) (endExclusive r))"

definition LineSequence :: "int list \<Rightarrow> js_string list \<Rightarrow> int isequence" where
  "LineSequence trimmedHash ls =
     \<lparr>getElement = js_at trimmedHash, seq_length = int (length trimmedHash),
      getBoundaryScore = Some (LineSequence_getBoundaryScore ls),
      isStronglyEqual = (\<lambda>offset1 offset2. js_at ls offset1 = js_at ls offset2)\<rparr>"

subsection \<open>\<open>removeVeryShortMatchingLinesBetweenDiffs\<close>\<close>

definition shouldJoinLineDiffs :: "js_string list \<Rightarrow> sequence_diff \<Rightarrow> sequence_diff \<Rightarrow> bool result" where
  "shouldJoinLineDiffs lines1 before after =
     bind_result (mk_OffsetRange (endExclusive (seq1Range before)) (start (seq1Range after))) (\<lambda>unchangedRange.
     let unchangedTextWithoutWs = js_remove_space (LineSequence_getText lines1 unchangedRange)
     in Inr (length unchangedTextWithoutWs \<le> 4 \<and>
          (OffsetRange_length (seq1Range before) + OffsetRange_length (seq2Range before) > 5 \<or>
           OffsetRange_length (seq1Range after) + OffsetRange_length (seq2Range after) > 5)))"

definition removeVeryShortMatchingLinesBetweenDiffs ::
  "js_string list \<Rightarrow> sequence_diff list \<Rightarrow> sequence_diff list result" where
  "removeVeryShortMatchingLinesBetweenDiffs lines1 sequenceDiffs =
     repeat_joins (shouldJoinLineDiffs lines1) 10 sequenceDiffs"

subsection \<open>Aligning the lines\<close>

text \<open>The map \<open>perfectHashes\<close> as a list of entries in the order of their insertion.\<close>

definition getOrCreateHash ::
  "js_string \<Rightarrow> (js_string \<times> int) list \<Rightarrow> int \<times> (js_string \<times> int) list" where
  "getOrCreateHash txt perfectHashes =
     (case map_of perfectHashes txt of
        Some hash \<Rightarrow> (hash, perfectHashes)
      | None \<Rightarrow> (let hash = int (length perfectHashes) in (hash, perfectHashes @ [(txt, hash)])))"

fun hash_lines ::
  "js_string list \<Rightarrow> (js_string \<times> int) list \<Rightarrow> int list \<times> (js_string \<times> int) list" where
  "hash_lines [] perfectHashes = ([], perfectHashes)"
| "hash_lines (l # ls) perfectHashes =
     (case getOrCreateHash (js_trim l) perfectHashes of (h, ph) \<Rightarrow>
      case hash_lines ls ph of (hs, ph') \<Rightarrow> (h # hs, ph'))"

text \<open>The score of two lines with equal numbers; \<open>Math.log\<close> is an argument.\<close>

definition line_score ::
  "('n \<Rightarrow> 'n :: linordered_field) \<Rightarrow> js_string list \<Rightarrow> js_string list \<Rightarrow> int \<Rightarrow> int \<Rightarrow> 'n" where
  "line_score mathLog originalLines modifiedLines o1 o2 =
     (if js_at originalLines o1 = js_at modifiedLines o2 then
        (let n = (case js_at modifiedLines o2 of Some l \<Rightarrow> length l | None \<Rightarrow> 0)
         in if n = 0 then 1 / 10 else 1 + mathLog (1 + of_nat n))
      else 99 / 100)"

definition computeLineAlignments ::
  "js_string list \<Rightarrow> js_string list \<Rightarrow> timeout \<Rightarrow> ('n \<Rightarrow> 'n :: linordered_field) \<Rightarrow>
     (sequence_diff list \<times> bool) result option" where
  "computeLineAlignments originalLines modifiedLines isValid mathLog =
     (case hash_lines originalLines [] of (originalLinesHashes, ph) \<Rightarrow>
      case hash_lines modifiedLines ph of (modifiedLinesHashes, _) \<Rightarrow>
      let sequence1 = LineSequence originalLinesHashes originalLines;
          sequence2 = LineSequence modifiedLinesHashes modifiedLines;
          lineAlignmentResult =
            (if seq_length sequence1 + seq_length sequence2 < 1700
             then Some (DynamicProgrammingDiffing_compute sequence1 sequence2 isValid
                          (Some (line_score mathLog originalLines modifiedLines)))
             else MyersDiffAlgorithm_compute sequence1 sequence2 isValid)
      in map_option (\<lambda>r.
           bind_result r (\<lambda>res.
           bind_result (optimizeSequenceDiffs sequence1 sequence2 (diffs res)) (\<lambda>lineAlignments.
           bind_result (removeVeryShortMatchingLinesBetweenDiffs originalLines lineAlignments) (\<lambda>lineAlignments'.
           Inr (lineAlignments', hitTimeout res))))) lineAlignmentResult)"

subsection \<open>The ranges that are refined\<close>

text \<open>
  \<open>refined\<close> holds the arguments of the calls of \<open>refineDiff\<close> in their order, \<open>failedAssertions\<close> counts
  the calls of \<open>assertFn\<close> that report an error.
\<close>

record scan_state =
  seq1LastStart :: int
  seq2LastStart :: int
  refined :: "sequence_diff list"
  failedAssertions :: nat

definition scanForWhitespaceChanges ::
  "js_string list \<Rightarrow> js_string list \<Rightarrow> bool \<Rightarrow> int \<Rightarrow> scan_state \<Rightarrow> scan_state" where
  "scanForWhitespaceChanges originalLines modifiedLines considerWhitespaceChanges equalLinesCount st =
     (if \<not> considerWhitespaceChanges then st
      else st\<lparr>refined := refined st @
        map (\<lambda>i. SequenceDiff (OffsetRange (seq1LastStart st + i) (seq1LastStart st + i + 1))
                              (OffsetRange (seq2LastStart st + i) (seq2LastStart st + i + 1)))
          (filter (\<lambda>i. js_at originalLines (seq1LastStart st + i) \<noteq> js_at modifiedLines (seq2LastStart st + i))
            [0 .. equalLinesCount - 1])\<rparr>)"

definition scan_diff ::
  "js_string list \<Rightarrow> js_string list \<Rightarrow> bool \<Rightarrow> scan_state \<Rightarrow> sequence_diff \<Rightarrow> scan_state" where
  "scan_diff originalLines modifiedLines considerWhitespaceChanges st diff =
     (let ok = start (seq1Range diff) - seq1LastStart st = start (seq2Range diff) - seq2LastStart st;
          st' = (if ok then st else st\<lparr>failedAssertions := Suc (failedAssertions st)\<rparr>);
          equalLinesCount = start (seq1Range diff) - seq1LastStart st;
          st'' = scanForWhitespaceChanges originalLines modifiedLines considerWhitespaceChanges equalLinesCount st'
      in st''\<lparr>seq1LastStart := endExclusive (seq1Range diff), seq2LastStart := endExclusive (seq2Range diff),
           refined := refined st'' @ [diff]\<rparr>)"

definition scanLineAlignments ::
  "js_string list \<Rightarrow> js_string list \<Rightarrow> bool \<Rightarrow> sequence_diff list \<Rightarrow> scan_state" where
  "scanLineAlignments originalLines modifiedLines considerWhitespaceChanges lineAlignments =
     (let st = foldl (scan_diff originalLines modifiedLines considerWhitespaceChanges)
            \<lparr>seq1LastStart = 0, seq2LastStart = 0, refined = [], failedAssertions = 0\<rparr> lineAlignments
      in scanForWhitespaceChanges originalLines modifiedLines considerWhitespaceChanges
           (int (length originalLines) - seq1LastStart st) st)"

subsection \<open>Equal numbers mean equal lines\<close>

definition hashes_ok :: "(js_string \<times> int) list \<Rightarrow> bool" where
  "hashes_ok ph \<longleftrightarrow> distinct (map fst ph) \<and> map snd ph = map int [0 ..< length ph]"

lemma hashes_inj:
  assumes "hashes_ok ph" "map_of ph t = Some h" "map_of ph t' = Some h"
  shows "t = t'"
proof -
  obtain i j where ij: "i < length ph" "ph ! i = (t, h)" "j < length ph" "ph ! j = (t', h)"
    using assms(2,3) map_of_SomeD by (metis in_set_conv_nth)
  have "snd (ph ! k) = int k" if "k < length ph" for k
  proof -
    have "snd (ph ! k) = map snd ph ! k" using that by simp
    also have "\<dots> = map int [0 ..< length ph] ! k" using assms(1) by (simp only: hashes_ok_def)
    finally show ?thesis using that by simp
  qed
  from this [OF ij(1)] this [OF ij(3)] show ?thesis using ij by auto
qed

lemma getOrCreateHash_ok:
  assumes "getOrCreateHash t ph = (h, ph')" "hashes_ok ph"
  shows "hashes_ok ph'" "map_of ph' t = Some h" "map_of ph u = Some v \<Longrightarrow> map_of ph' u = Some v"
proof -
  show "hashes_ok ph'"
    using assms by (auto simp: getOrCreateHash_def hashes_ok_def Let_def map_of_eq_None_iff split: option.splits)
  show "map_of ph' t = Some h" "map_of ph u = Some v \<Longrightarrow> map_of ph' u = Some v"
    using assms by (auto simp: getOrCreateHash_def Let_def map_add_Some_iff map_of_append split: option.splits)
qed

lemma hash_lines_ok:
  assumes "hash_lines ls ph = (hs, ph')" "hashes_ok ph"
  shows "hashes_ok ph' \<and> map Some hs = map (\<lambda>l. map_of ph' (js_trim l)) ls \<and>
    (\<forall>u v. map_of ph u = Some v \<longrightarrow> map_of ph' u = Some v)"
  using assms
proof (induction ls arbitrary: ph hs)
  case (Cons l ls)
  obtain h ph1 where h: "getOrCreateHash (js_trim l) ph = (h, ph1)" by fastforce
  obtain hs' ph2 where hs': "hash_lines ls ph1 = (hs', ph2)" by fastforce
  have eq: "hs = h # hs'" "ph2 = ph'" using Cons.prems(1) h hs' by simp_all
  note one = getOrCreateHash_ok [OF h Cons.prems(2)]
  show ?case using Cons.IH [OF hs' [unfolded eq] one(1)] one eq(1) by auto
qed simp

lemma js_at_map: "js_at (map f xs) i = map_option f (js_at xs i)"
  by (auto simp: js_at_def)

lemma line_hashes:
  assumes "hash_lines o1 [] = (hs1, ph)" "hash_lines m1 ph = (hs2, ph')"
  shows "length hs1 = length o1" "length hs2 = length m1"
    and "js_at o1 i = js_at o1 j \<Longrightarrow> js_at hs1 i = js_at hs1 j"
    and "js_at m1 i = js_at m1 j \<Longrightarrow> js_at hs2 i = js_at hs2 j"
    and "js_at hs1 i = js_at hs2 j \<Longrightarrow> js_at (map js_trim o1) i = js_at (map js_trim m1) j"
proof -
  have "hashes_ok []" by (simp add: hashes_ok_def)
  note one = hash_lines_ok [OF assms(1) this]
  note two = hash_lines_ok [OF assms(2)]
  have ok: "hashes_ok ph'" and hs2: "map Some hs2 = map (\<lambda>l. map_of ph' (js_trim l)) m1"
    using one two by simp_all
  have "map (\<lambda>l. map_of ph (js_trim l)) o1 = map (\<lambda>l. map_of ph' (js_trim l)) o1"
  proof (rule map_cong [OF refl])
    fix l assume "l \<in> set o1"
    then have "map_of ph (js_trim l) \<in> set (map Some hs1)" using one by auto
    then obtain v where v: "map_of ph (js_trim l) = Some v" by auto
    then show "map_of ph (js_trim l) = map_of ph' (js_trim l)" using one two by auto
  qed
  then have hs1: "map Some hs1 = map (\<lambda>l. map_of ph' (js_trim l)) o1" using one by simp
  show "length hs1 = length o1" "length hs2 = length m1"
    using arg_cong [OF hs1, of length] arg_cong [OF hs2, of length] by simp_all
  have at1: "map_option Some (js_at hs1 i) = map_option (\<lambda>l. map_of ph' (js_trim l)) (js_at o1 i)" for i
    using arg_cong [OF hs1, of "\<lambda>xs. js_at xs i"] by (simp add: js_at_map)
  have at2: "map_option Some (js_at hs2 i) = map_option (\<lambda>l. map_of ph' (js_trim l)) (js_at m1 i)" for i
    using arg_cong [OF hs2, of "\<lambda>xs. js_at xs i"] by (simp add: js_at_map)
  show "js_at o1 i = js_at o1 j \<Longrightarrow> js_at hs1 i = js_at hs1 j" using at1 [of i] at1 [of j] by (auto simp: map_option_case split: option.splits)
  show "js_at m1 i = js_at m1 j \<Longrightarrow> js_at hs2 i = js_at hs2 j" using at2 [of i] at2 [of j] by (auto simp: map_option_case split: option.splits)
  have cases: "(js_at hs1 k = None \<longrightarrow> js_at o1 k = None) \<and>
      (\<forall>h. js_at hs1 k = Some h \<longrightarrow> (\<exists>l. js_at o1 k = Some l \<and> map_of ph' (js_trim l) = Some h))"
      "(js_at hs2 k = None \<longrightarrow> js_at m1 k = None) \<and>
      (\<forall>h. js_at hs2 k = Some h \<longrightarrow> (\<exists>l. js_at m1 k = Some l \<and> map_of ph' (js_trim l) = Some h))" for k
    using at1 [of k] at2 [of k] by (auto simp: map_option_case dest: sym [of "Some _"] split: option.splits)
  show "js_at hs1 i = js_at hs2 j \<Longrightarrow> js_at (map js_trim o1) i = js_at (map js_trim m1) j"
    using cases(1) [of i] cases(2) [of j] hashes_inj [OF ok] by (cases "js_at hs2 j") (auto simp: js_at_map)
qed

lemma aligned_transfer:
  assumes "aligned s1 s2 a b ds" "seq_length t1 = seq_length s1" "seq_length t2 = seq_length s2"
    and "\<And>i j. getElement s1 i = getElement s2 j \<Longrightarrow> getElement t1 i = getElement t2 j"
  shows "aligned t1 t2 a b ds"
  using assms(1)
proof (induction ds arbitrary: a b)
  case Nil
  then show ?case using assms(2-) by (auto simp: equal_run_def simp del: equal_run_empty)
next
  case (Cons d ds)
  then show ?case using assms(4) by (auto simp: equal_run_def simp del: equal_run_empty)
qed

subsection \<open>The sequences satisfy what the algorithms need\<close>

lemma LineSequence_ok: "seq_ok (LineSequence hs ls)"
  by (auto simp: seq_ok_def LineSequence_def js_at_def)

lemma LineSequence_strong:
  assumes "\<And>i j. js_at ls i = js_at ls j \<Longrightarrow> js_at hs i = js_at hs j"
  shows "strong_ok (LineSequence hs ls)"
  unfolding strong_ok_def LineSequence_def by (simp only: isequence.simps) (blast intro: assms)

lemma LineSequence_scored:
  assumes "length hs = length ls"
  shows "scored (LineSequence hs ls)"
  using assms by (auto simp: scored_def boundary_score_def LineSequence_def LineSequence_getBoundaryScore_def
      line_indentation_def js_at_def)

lemma shouldJoinLineDiffs_decides: "decides (shouldJoinLineDiffs ls)"
  by (auto simp: decides_def shouldJoinLineDiffs_def mk_OffsetRange_def Let_def)

subsection \<open>Collecting the ranges\<close>

text \<open>The pairs of lines that differ only in white space, and all ranges from a pair of lines on.\<close>

definition changed_lines :: "js_string list \<Rightarrow> js_string list \<Rightarrow> int \<Rightarrow> int \<Rightarrow> int \<Rightarrow> sequence_diff list" where
  "changed_lines o1 m1 a b n =
     map (\<lambda>i. SequenceDiff (OffsetRange (a + i) (a + i + 1)) (OffsetRange (b + i) (b + i + 1)))
       (filter (\<lambda>i. js_at o1 (a + i) \<noteq> js_at m1 (b + i)) [0 .. n - 1])"

fun scan_from :: "js_string list \<Rightarrow> js_string list \<Rightarrow> bool \<Rightarrow> int \<Rightarrow> int \<Rightarrow> sequence_diff list \<Rightarrow> sequence_diff list" where
  "scan_from o1 m1 c a b [] = (if c then changed_lines o1 m1 a b (int (length o1) - a) else [])"
| "scan_from o1 m1 c a b (d # ds) =
     (if c then changed_lines o1 m1 a b (start1 d - a) else []) @ d # scan_from o1 m1 c (end1 d) (end2 d) ds"

lemma scan_white:
  "scanForWhitespaceChanges o1 m1 c n st =
     st\<lparr>refined := refined st @ (if c then changed_lines o1 m1 (seq1LastStart st) (seq2LastStart st) n else [])\<rparr>"
  by (simp add: scanForWhitespaceChanges_def changed_lines_def)

lemma scan_diff_refined:
  "refined (scan_diff o1 m1 c st d) = refined st @
     (if c then changed_lines o1 m1 (seq1LastStart st) (seq2LastStart st) (start1 d - seq1LastStart st) else []) @ [d]"
  "seq1LastStart (scan_diff o1 m1 c st d) = end1 d" "seq2LastStart (scan_diff o1 m1 c st d) = end2 d"
  "failedAssertions (scan_diff o1 m1 c st d) = failedAssertions st +
     (if start1 d - seq1LastStart st = start2 d - seq2LastStart st then 0 else 1)"
  by (simp_all add: scan_diff_def scan_white Let_def)

lemma scan_refined:
  "refined (scanForWhitespaceChanges o1 m1 c
       (int (length o1) - seq1LastStart (foldl (scan_diff o1 m1 c) st ds)) (foldl (scan_diff o1 m1 c) st ds)) =
     refined st @ scan_from o1 m1 c (seq1LastStart st) (seq2LastStart st) ds"
  by (induction ds arbitrary: st) (simp_all add: scan_white scan_diff_refined)

lemma scan_assertions:
  "aligned s1 s2 (seq1LastStart st) (seq2LastStart st) ds \<Longrightarrow>
     failedAssertions (foldl (scan_diff o1 m1 c) st ds) = failedAssertions st"
  by (induction ds arbitrary: st) (simp_all add: scan_diff_refined)

lemma changed_lines_next:
  assumes "0 < n"
  shows "changed_lines o1 m1 a b n =
    (if js_at o1 a \<noteq> js_at m1 b then [SequenceDiff (OffsetRange a (a + 1)) (OffsetRange b (b + 1))] else []) @
    changed_lines o1 m1 (a + 1) (b + 1) (n - 1)"
proof -
  have "[1 .. n - 1] = map ((+) 1) [0 .. n - 1 - 1]"
    by (rule nth_equalityI) auto
  then have "[0 .. n - 1] = 0 # map ((+) 1) [0 .. n - 1 - 1]" using assms upto_rec1 [of 0 "n - 1"] by simp
  then show ?thesis by (simp add: changed_lines_def filter_map o_def add.assoc)
qed

lemma changed_lines_aligned:
  assumes "aligned (list_sequence o1) (list_sequence m1) (a + int n) (b + int n) ds"
  shows "aligned (list_sequence o1) (list_sequence m1) a b (changed_lines o1 m1 a b (int n) @ ds)"
  using assms
proof (induction n arbitrary: a b)
  case 0
  then show ?case by (simp add: changed_lines_def)
next
  case (Suc n)
  have "aligned (list_sequence o1) (list_sequence m1) (a + 1) (b + 1) (changed_lines o1 m1 (a + 1) (b + 1) (int n) @ ds)"
    using Suc.prems by (intro Suc.IH) (simp add: algebra_simps)
  then show ?case
    using changed_lines_next [of "int (Suc n)" o1 m1 a b]
      aligned_extend [of "list_sequence o1" "list_sequence m1" a b "changed_lines o1 m1 (a + 1) (b + 1) (int n) @ ds"]
    by (simp add: list_sequence_def)
qed

lemma scan_from_aligned:
  assumes "aligned s1 s2 a b ds" "seq_length s1 = int (length o1)" "seq_length s2 = int (length m1)"
  shows "aligned (list_sequence o1) (list_sequence m1) a b (scan_from o1 m1 True a b ds)"
  using assms(1)
proof (induction ds arbitrary: a b)
  case Nil
  then show ?case
    using changed_lines_aligned [of o1 m1 a "nat (int (length o1) - a)" b "[]"] assms(2,3) by auto
next
  case (Cons d ds)
  have "aligned (list_sequence o1) (list_sequence m1) (start1 d) (start2 d) (d # scan_from o1 m1 True (end1 d) (end2 d) ds)"
    using Cons by simp
  moreover have "b + int (nat (start1 d - a)) = start2 d" "a + int (nat (start1 d - a)) = start1 d"
    using Cons.prems by auto
  ultimately show ?case
    using changed_lines_aligned [of o1 m1 a "nat (start1 d - a)" b "d # scan_from o1 m1 True (end1 d) (end2 d) ds"]
      Cons.prems by simp
qed

lemma scan_from_plain: "scan_from o1 m1 False a b ds = ds"
  by (induction ds arbitrary: a b) simp_all

lemma scanLineAlignments_refined: "refined (scanLineAlignments o1 m1 c ds) = scan_from o1 m1 c 0 0 ds"
  by (simp only: scanLineAlignments_def Let_def scan_refined) simp

lemma scanLineAlignments_assertions: "aligned s1 s2 0 0 ds \<Longrightarrow> failedAssertions (scanLineAlignments o1 m1 c ds) = 0"
  using scan_assertions [of s1 s2 "\<lparr>seq1LastStart = 0, seq2LastStart = 0, refined = [], failedAssertions = 0\<rparr>" ds o1 m1 c]
  by (simp add: scanLineAlignments_def Let_def scan_white)

subsection \<open>The whole stage\<close>

lemma lines_aligned:
  assumes "hash_lines o1 [] = (hs1, ph)" "hash_lines m1 ph = (hs2, ph')" "o1 \<noteq> [] \<or> m1 \<noteq> []"
    and "length o1 < 2147483648"
  shows "\<exists>ds hit. (if seq_length (LineSequence hs1 o1) + seq_length (LineSequence hs2 m1) < 1700
      then Some (DynamicProgrammingDiffing_compute (LineSequence hs1 o1) (LineSequence hs2 m1) isValid score)
      else MyersDiffAlgorithm_compute (LineSequence hs1 o1) (LineSequence hs2 m1) isValid) =
        Some (Inr (DiffAlgorithmResult ds hit)) \<and>
    covered (LineSequence hs1 o1) (LineSequence hs2 m1) 0 0 ds \<and> ((\<forall>n. isValid n) \<longrightarrow> \<not> hit)"
proof -
  note hash = line_hashes [OF assms(1,2)]
  have len: "seq_length (LineSequence hs1 o1) = int (length o1)" "seq_length (LineSequence hs2 m1) = int (length m1)"
    by (simp_all add: LineSequence_def hash)
  show ?thesis
  proof (cases "seq_length (LineSequence hs1 o1) + seq_length (LineSequence hs2 m1) < 1700")
    case True
    then show ?thesis
      using DynamicProgrammingDiffing_aligned [OF LineSequence_ok LineSequence_ok, of hs1 o1 hs2 m1 isValid score] assms(3)
      by (auto simp: covered_def len)
  next
    case False
    have "search_ok (LineSequence hs1 o1) (LineSequence hs2 m1) \<or> o1 = [] \<or> m1 = []"
      using assms(4) by (auto simp: search_ok_def LineSequence_ok len)
    then show ?thesis
    proof
      assume "search_ok (LineSequence hs1 o1) (LineSequence hs2 m1)"
      from myers_covered [OF this, of isValid] show ?thesis using False by auto
    next
      assume "o1 = [] \<or> m1 = []"
      then have "MyersDiffAlgorithm_compute (LineSequence hs1 o1) (LineSequence hs2 m1) isValid =
          Some (Inr (DiffAlgorithmResult [SequenceDiff (OffsetRange 0 (int (length o1))) (OffsetRange 0 (int (length m1)))] False))"
        by (auto simp: MyersDiffAlgorithm_compute_def len trivial_result)
      then show ?thesis using False assms(3) by (auto simp: covered_def nonempty_diff_def len)
    qed
  qed
qed

lemma computeLineAlignments_covered:
  assumes "o1 \<noteq> [] \<or> m1 \<noteq> []" "length o1 < 2147483648"
  shows "\<exists>ds hit. computeLineAlignments o1 m1 isValid mathLog = Some (Inr (ds, hit)) \<and>
    covered (list_sequence (map js_trim o1)) (list_sequence (map js_trim m1)) 0 0 ds \<and>
    ((\<forall>n. isValid n) \<longrightarrow> \<not> hit)"
proof -
  obtain hs1 ph where h1: "hash_lines o1 [] = (hs1, ph)" by fastforce
  obtain hs2 ph' where h2: "hash_lines m1 ph = (hs2, ph')" by fastforce
  note hash = line_hashes [OF h1 h2]
  define s1 s2 where "s1 = LineSequence hs1 o1" and "s2 = LineSequence hs2 m1"
  define res where "res = (if seq_length s1 + seq_length s2 < 1700
      then Some (DynamicProgrammingDiffing_compute s1 s2 isValid (Some (line_score mathLog o1 m1)))
      else MyersDiffAlgorithm_compute s1 s2 isValid)"
  have "\<exists>ds hit. res = Some (Inr (DiffAlgorithmResult ds hit)) \<and>
      covered s1 s2 0 0 ds \<and> ((\<forall>n. isValid n) \<longrightarrow> \<not> hit)"
    unfolding res_def s1_def s2_def by (rule lines_aligned [OF h1 h2 assms])
  then obtain ds hit where ds: "res = Some (Inr (DiffAlgorithmResult ds hit))"
      "covered s1 s2 0 0 ds" "(\<forall>n. isValid n) \<longrightarrow> \<not> hit"
    by blast
  have strong: "strong_ok s1" "strong_ok s2"
    unfolding s1_def s2_def by (intro LineSequence_strong; fact hash)+
  have "scored s1" "scored s2" using LineSequence_scored hash(1,2) by (simp_all add: s1_def s2_def)
  then obtain r where r: "optimizeSequenceDiffs s1 s2 ds = Inr r" "covered s1 s2 0 0 r"
    using optimize_covered [OF strong _ ds(2)] by blast
  obtain r' where r': "removeVeryShortMatchingLinesBetweenDiffs o1 r = Inr r'" "covered s1 s2 0 0 r'"
    using repeat_joins_ok [OF r(2) shouldJoinLineDiffs_decides] by (auto simp: removeVeryShortMatchingLinesBetweenDiffs_def)
  have "aligned (list_sequence (map js_trim o1)) (list_sequence (map js_trim m1)) 0 0 r'"
  proof (rule aligned_transfer)
    show "aligned s1 s2 0 0 r'" using r'(2) by (simp add: covered_def)
    show "getElement s1 i = getElement s2 j \<Longrightarrow>
        getElement (list_sequence (map js_trim o1)) i = getElement (list_sequence (map js_trim m1)) j" for i j
      using hash(5) [of i j] by (simp add: s1_def s2_def LineSequence_def list_sequence_def)
  qed (simp_all add: s1_def s2_def LineSequence_def hash)
  then have "covered (list_sequence (map js_trim o1)) (list_sequence (map js_trim m1)) 0 0 r'"
    using r'(2) by (simp add: covered_def)
  moreover have "computeLineAlignments o1 m1 isValid mathLog = Some (Inr (r', hit))"
    unfolding computeLineAlignments_def h1 h2 Let_def prod.case s1_def [symmetric] s2_def [symmetric] res_def [symmetric]
    by (simp only: ds(1)) (simp add: r(1) r'(1))
  ultimately show ?thesis using ds(3) by blast
qed

text \<open>C8:
  \<open>computeDiff\<close> aligns any two texts that are not both without lines: the line diffs it computes,
  for every timeout and with either algorithm, are in order, do not touch and are not empty, and
  the lines between them are equal up to white space at their ends. No assertion about them
  fails. The ranges handed over to the refinement account for every change: when white space
  counts, the lines outside of them are equal; when it does not, they are equal up to white space at
  their ends.
\<close>

theorem computeDiff_aligns_lines:
  assumes "originalLines \<noteq> [] \<or> modifiedLines \<noteq> []" "length originalLines < 2147483648"
  shows "\<exists>ds hit. computeLineAlignments originalLines modifiedLines isValid mathLog = Some (Inr (ds, hit)) \<and>
    diffs_separated ds \<and> (\<forall>d \<in> set ds. nonempty_diff d) \<and> ((\<forall>n. isValid n) \<longrightarrow> \<not> hit) \<and>
    failedAssertions (scanLineAlignments originalLines modifiedLines considerWhitespaceChanges ds) = 0 \<and>
    aligned (list_sequence originalLines) (list_sequence modifiedLines) 0 0
      (refined (scanLineAlignments originalLines modifiedLines True ds)) \<and>
    aligned (list_sequence (map js_trim originalLines)) (list_sequence (map js_trim modifiedLines)) 0 0
      (refined (scanLineAlignments originalLines modifiedLines False ds))"
proof -
  obtain ds hit where ds: "computeLineAlignments originalLines modifiedLines isValid mathLog = Some (Inr (ds, hit))"
      "covered (list_sequence (map js_trim originalLines)) (list_sequence (map js_trim modifiedLines)) 0 0 ds"
      "(\<forall>n. isValid n) \<longrightarrow> \<not> hit"
    using computeLineAlignments_covered [OF assms] by blast
  then have al: "aligned (list_sequence (map js_trim originalLines)) (list_sequence (map js_trim modifiedLines)) 0 0 ds"
    by (simp add: covered_def)
  show ?thesis
    using ds al scanLineAlignments_assertions [OF al]
      scan_from_aligned [OF al, of originalLines modifiedLines]
    by (intro exI [of _ ds] exI [of _ hit]) (simp add: covered_def scanLineAlignments_refined scan_from_plain)
qed

theorem computeDiff_aligns_lines_witness:
  "\<exists>ds. computeLineAlignments [[97], [98, 32], [99]] [[97], [98], [100]] InfiniteTimeout (ln :: real \<Rightarrow> real) = Some (Inr (ds, False)) \<and>
    patch ([[97], [98, 32], [99]] :: js_string list) [[97], [98], [100]] 0
      (refined (scanLineAlignments [[97], [98, 32], [99]] [[97], [98], [100]] True ds)) = [[97], [98], [100]]"
proof -
  define o1 m1 :: "js_string list" where "o1 = [[97], [98, 32], [99]]" and "m1 = [[97], [98], [100]]"
  have "o1 \<noteq> [] \<or> m1 \<noteq> []" "length o1 < 2147483648" by (simp_all add: o1_def)
  from computeDiff_aligns_lines [OF this, of InfiniteTimeout "ln :: real \<Rightarrow> real" True]
  obtain ds where "computeLineAlignments o1 m1 InfiniteTimeout (ln :: real \<Rightarrow> real) = Some (Inr (ds, False))"
      "aligned (list_sequence o1) (list_sequence m1) 0 0 (refined (scanLineAlignments o1 m1 True ds))"
    by (auto simp: InfiniteTimeout_def)
  then have "\<exists>ds. computeLineAlignments o1 m1 InfiniteTimeout (ln :: real \<Rightarrow> real) = Some (Inr (ds, False)) \<and>
      patch o1 m1 0 (refined (scanLineAlignments o1 m1 True ds)) = m1"
    using aligned_patch_all [OF list_sequence_presents list_sequence_presents] by blast
  then show ?thesis by (simp only: o1_def m1_def)
qed

end
