(* ===== verification/Spec2Isabelle.thy ===== *)
theory Spec2Isabelle
  imports Selection LineRange DataEdits TextEditLaws MirrorModel BracketParser ProtocolNetwork ChannelNetwork
    LinesDiff
begin

text \<open>
  A model of the text core of the editor (\<open>src/src/vs/editor/common\<close> and the parts of
  \<open>src/src/vs/base/common\<close> it uses) and of the protocol over which its processes talk
  (\<open>src/src/vs/base/parts/ipc/common\<close>), with the theorems that make them correct. Part of the text core is
  the computation of the diff of two texts.

  \<^bold>\<open>The program.\<close> The editor names places in a text in two ways, by line and column
  (\<open>Position\<close>, \<open>Range\<close>, \<open>Selection\<close>, \<open>LineRange\<close>, \<open>TextLength\<close>) and by the offset of a UTF-16
  code unit (\<open>OffsetRange\<close>). Changes of a text are values: a \<open>StringEdit\<close> is a sorted list of
  replacements at offsets, a \<open>TextEdit\<close> one at positions, and \<open>ArrayEdit\<close>, \<open>LengthEdit\<close> and the
  annotated edits carry over to data that is kept beside a text. Edits are composed, inverted,
  rebased on each other and mapped between the two coordinate systems
  (\<open>PositionOffsetTransformer\<close>). Workers and the extension host keep a \<open>MirrorTextModel\<close> of every
  open document, which follows the change events of the text model and answers questions about
  positions and offsets with a \<open>PrefixSumComputer\<close> over the lengths of its lines. The text model
  keeps the brackets of a document in a tree (\<open>bracketPairsTree\<close>): a tokenizer finds the brackets, a
  parser makes pairs and balanced lists of them, and after an edit it reuses the nodes of the old
  tree that the edit did not touch.

  The diff editor and quick diffs show how two versions of a text differ. \<open>computeDiff\<close> gives equal numbers
  to lines that are equal up to white space at their ends, aligns the two sequences of numbers with
  dynamic programming or, for long texts, with Myers' algorithm, makes the alignment readable, and refines
  the lines in its diffs into characters.

  Windows, the extension host and a remote machine exchange messages over sockets. A value is
  serialized into a \<open>VSBuffer\<close>; a \<open>ProtocolWriter\<close> puts a header in front of it and hands the bytes to
  the socket, and at the other end a \<open>ProtocolReader\<close> cuts the chunks that arrive in a \<open>ChunkStream\<close>
  into messages again. A \<open>PersistentProtocol\<close> numbers its messages, keeps them in a \<open>Queue\<close> until they
  are acknowledged and sends them again on a new socket when the old one is lost; a
  \<open>BufferedEmitter\<close> keeps received messages while nobody listens. On top of it a \<open>ChannelClient\<close> turns calls
  into requests and a \<open>ChannelServer\<close> dispatches them to the channels that are registered.

  \<^bold>\<open>How it is modelled.\<close> Numbers that are integers in the source are \<open>int\<close>, entries of typed arrays
  \<open>32 word\<close>, strings lists of \<open>16 word\<close>. A method that may throw returns an \<open>error + 'a\<close> (type
  \<open>result\<close>), with one constructor of \<open>js_error\<close> per class the source throws; \<open>undefined\<close> is
  \<open>None\<close>. A method that changes its object returns the changed record. A loop is a recursive function
  over the rest of its input with the variables of the loop as accumulators.
  \<^item> \<open>Prelude\<close>: the result type, \<open>substring\<close>, \<open>slice\<close>, \<open>splice\<close> and array access of JavaScript.
  \<^item> \<open>Position\<close>, \<open>Range\<close>, \<open>Selection\<close>: \<open>core/position.ts\<close>, \<open>core/range.ts\<close>, \<open>core/selection.ts\<close>.
    Positions are a linear order (\<open>instantiation\<close>), the operations on ranges are characterised by
    their ends; \<open>compareRangesUsingStarts\<close> truncates to 32 bits.
  \<^item> \<open>ArraysFind\<close>: \<open>base/common/arraysFind.ts\<close>. The binary searches are equal to linear ones on arrays
    with a monotone predicate, and \<open>MonotonousArray\<close> may resume them.
  \<^item> \<open>IntervalSets\<close>: the locale \<open>intervals\<close>, sorted lists of intervals that do not touch and the
    insertion of an interval. \<open>OffsetRange\<close> and \<open>LineRange\<close> (\<open>core/ranges\<close>) interpret it; their
    set classes compute unions, intersections and differences and keep the normal form.
  \<^item> \<open>Edit\<close>, \<open>EditLaws\<close>: \<open>core/edits/edit.ts\<close>. \<open>BaseEdit\<close> runs on a record of the methods of
    \<open>BaseReplacement\<close>; the locale \<open>replacement\<close> states what a subclass promises (the content of a
    slice, of a join, the new length). In it, \<open>apply_edits\<close> is the effect of an edit on data, and
    normalizing, composing, splitting, inverting and mapping offsets are proved once.
  \<^item> \<open>StringEdit\<close>, \<open>DataEdits\<close>: \<open>stringEdit.ts\<close>, \<open>arrayEdit.ts\<close>, \<open>lengthEdit.ts\<close> and the annotated
    replacements, each an interpretation of the locale. Rebasing (\<open>_tryRebase\<close>) is described by the
    merge \<open>rebase_merge\<close> of the two lists.
  \<^item> \<open>TextLength\<close>, \<open>PositionOffset\<close>: \<open>core/text\<close>. Lengths act on positions; positions and offsets
    of a text are in bijection outside of a CRLF.
  \<^item> \<open>TextEdit\<close>, \<open>TextEditLaws\<close>: \<open>textEdit.ts\<close>. A text edit refines the string edit on its offsets;
    the inverse undoes an edit on texts without carriage returns and surrogate pairs, and does not on
    others.
  \<^item> \<open>PrefixSum\<close>: \<open>model/prefixSumComputer.ts\<close>. The locale \<open>prefix_sums\<close> is the contract of
    \<open>getIndexOf\<close>, interpreted by both computers; \<open>psc_run\<close> describes the states a computer reaches.
  \<^item> \<open>MirrorModel\<close>: \<open>model/mirrorTextModel.ts\<close> and the class \<open>MirrorModel\<close> of
    \<open>services/textModelSync/textModelSync.impl.ts\<close>; \<open>mm_reachable\<close> describes the states a mirror
    reaches, and its text is refined to changes of a string at offsets.
  \<^item> \<open>BracketLength\<close>: \<open>bracketPairsTree/length.ts\<close>. Lengths packed into one number refine text
    lengths while no column count reaches \<open>2\<^sup>26\<close>.
  \<^item> \<open>SmallImmutableSet\<close>: \<open>smallImmutableSet.ts\<close>, bit masks of dense keys as \<open>32 word\<close>s. The locale
    \<open>key_set\<close> is the contract of such sets, interpreted by the bit masks and used by the nodes.
  \<^item> \<open>BracketAst\<close>, \<open>Concat23\<close>: \<open>ast.ts\<close> and \<open>concat23Trees.ts\<close>. \<open>ast_ok\<close> is the invariant of the (2,3)
    trees; every mutation keeps it, and concatenation keeps the leaves.
  \<^item> \<open>BracketTokenizer\<close>: \<open>tokenizer.ts\<close> and \<open>brackets.ts\<close>. Tokens cover the text. The matches of the
    regular expression, \<open>toLowerCase\<close> and the reader of a text buffer are arguments.
  \<^item> \<open>EditMapper\<close>, \<open>NodeReader\<close>: \<open>beforeEditPositionMapper.ts\<close>, \<open>nodeReader.ts\<close>. The mapper inverts the
    shift of positions that the edits cause; the reader returns nodes that begin where it was asked.
  \<^item> \<open>BracketParser\<close>: \<open>parser.ts\<close>, over the interface \<open>Tokenizer\<close> as a record of operations.
  \<^item> \<open>VSBuffer\<close>, \<open>Utf8\<close>: \<open>base/common/buffer.ts\<close>, buffers as lists of bytes (a view is the bytes it shows),
    numbers in them, the search \<open>binaryIndexOf\<close>, strings in UTF-8.
  \<^item> \<open>ChunkStream\<close>, \<open>ProtocolStream\<close>: the stream of chunks, the messages and their writer and reader of
    \<open>base/parts/ipc/common/ipc.net.ts\<close>. The reader calls its listener for every message; the listener is
    an argument that may stop it. What is written is read, for every cut into chunks.
  \<^item> \<open>MessageQueue\<close>: the linked queue, as a heap of elements with \<open>next\<close> pointers. The locale
    \<open>fifo_queue\<close> is its contract; the protocol uses it through the interpretation \<open>mq\<close>.
  \<^item> \<open>BufferedEmitter\<close>: events, listeners and microtasks; \<open>be_reachable\<close> describes its states.
  \<^item> \<open>PersistentProtocol\<close>: one definition per handler, with the clock \<open>now\<close> and the answer \<open>hl\<close> of the load
    estimator as arguments; timers are fields of the record, and a handler that runs when a timer
    fires is a definition of its own. \<open>endpoint_ok\<close> is the invariant of an end.
  \<^item> \<open>ProtocolNetwork\<close>: two ends and the bytes between them; \<open>net_step\<close> runs one handler of one end,
    lets a chunk of the bytes arrive that the other end wrote to the socket that both use, or moves an end to a
    new socket, which loses what was under way. \<open>net_inv\<close> relates the numbers of the two ends and the
    bytes between them, and is an invariant by rule induction.
  \<^item> \<open>IpcSerialize\<close>: \<open>serialize\<close> and \<open>deserialize\<close> of \<open>base/parts/ipc/common/ipc.ts\<close>, the round trip of messages
    and the end of reading on arbitrary bytes. \<open>JSON\<close> is an argument.
  \<^item> \<open>ChannelMessages\<close>, \<open>ChannelServer\<close>, \<open>ChannelClient\<close>: the requests and responses of channels and both of their
    sides, from the same file. Calls of user code are recorded and settled by later steps.
    \<open>ChannelServerLaws\<close> and \<open>ChannelClientLaws\<close> hold the invariant of each side; \<open>ChannelNetwork\<close> composes
    them over two ordered streams of messages, which is what \<open>ProtocolNetwork\<close> provides: every answer
    belongs to its request, and no request is lost.
  \<^item> \<open>DiffAlgorithm\<close>: \<open>diff/defaultLinesDiffComputer/algorithms/diffAlgorithm.ts\<close>, sequences, their diffs and
    timeouts. \<open>aligned\<close> is the specification of all that follows: outside of the diffs the sequences are
    equal, element by element, so that applying the diffs (\<open>patch\<close>) gives the second sequence.
  \<^item> \<open>DynamicProgrammingDiffing\<close>: \<open>dynamicProgrammingDiffing.ts\<close>. The direction table always leads back to
    the origin along equal elements, for every score function and timeout.
  \<^item> \<open>MyersDiffAlgorithm\<close>: \<open>myersDiffAlgorithm.ts\<close>, one round of the search as \<open>myers_round\<close>, with the arrays
    that grow and the \<open>NaN\<close> that is read behind their ends (numbers are \<open>int option\<close>). \<open>MyersLaws\<close>: snakes and
    paths; \<open>MyersRounds\<close>: what a round does; \<open>MyersInvariant\<close>, \<open>MyersPhases\<close>: what holds between rounds and
    how the search advances; \<open>MyersCorrect\<close>: it ends, and the path it found is an alignment.
  \<^item> \<open>DiffHeuristics\<close>, \<open>DiffHeuristicsLaws\<close>: \<open>heuristicSequenceOptimizations.ts\<close>. Diffs are shifted and joined;
    \<open>tidy\<close> is the invariant of every loop, and an alignment stays an alignment.
  \<^item> \<open>LinesDiff\<close>: \<open>lineSequence.ts\<close> and the first half of \<open>computeDiff\<close> in \<open>defaultLinesDiffComputer.ts\<close>, up to
    the calls of \<open>refineDiff\<close>. \<open>Math.log\<close> is an argument.
  \<^item> this theory: the bracket tree spans its document, and the text of a mirror follows the string edit made of the changes of an event.

  \<^bold>\<open>Bounds and fuel.\<close> Line starts are 32-bit numbers, so documents of a mirror are below
  \<open>2\<^sup>31\<close> code units. \<open>TextEdit.apply\<close> treats the column \<open>2\<^sup>53 - 1\<close> as the end of a line, so
  documents are shorter than that. The search of \<open>getIndexOf\<close> has fuel one more than the number of
  values: every iteration drops at least one index, and the theorems show that it is enough.
  The parser takes one unit of fuel for every turn of a loop and every child: two per token and one
  more are enough. Packed lengths are exact below \<open>2\<^sup>52\<close>. Ids and lengths in the header of a protocol
  message are 32-bit numbers: the theorems are about connections with fewer than \<open>2\<^sup>32\<close> messages, each
  shorter than \<open>2\<^sup>32\<close> bytes (\<open>bounded_sends\<close>), and ids wrap around behind them. \<open>deserialize\<close> has fuel,
  one unit for every value and every element of an array; \<open>read_message_ends\<close> shows that there is always
  enough and that more does not change the outcome. A handler reads the clock once.
  A timeout of the diff algorithms is a function from the number of times it was asked to its answer.
  The search of \<open>MyersDiffAlgorithm\<close> is a \<open>partial_function\<close>, whose result is \<open>None\<close> when it does not end;
  \<open>MyersDiffAlgorithm_terminates\<close> bounds its rounds. Its array holds 32-bit numbers, so the first sequence is
  shorter than \<open>2\<^sup>31\<close>.

  \<^bold>\<open>Not modelled.\<close> String forms and type tests of untyped values; \<open>applyEditsToRanges\<close>,
  \<open>TextEdit.compose\<close>, the word queries of \<open>MirrorModel\<close>, which run a regular expression of the caller;
  \<open>computeMinIndentation\<close> and the regular expressions and line tokens of the bracket tokenizers; the
  sockets, their diagnostics and waiting until they are drained; the routing of calls between several clients
  of channels; the bracket pair queries, the piece tree, the decoration tree, the
  refinement of diffs into characters, the mappings of ranges made of them and moved lines, the context keys, cursors, the view,
  the platform services, the workbench, the extension host and the build, which are other parts of the
  repository, partly planned, partly input and output.
\<close>

section \<open>Properties that span components\<close>

text \<open>A change of a model event as a string replacement.\<close>

definition change_replacement :: "content_change \<Rightarrow> string_replacement" where
  "change_replacement ch =
     StringReplacement (OffsetRange (ch_rangeOffset ch) (ch_rangeOffset ch + ch_rangeLength ch)) (ch_text ch)"

lemma line_offset_mono: "i \<le> j \<Longrightarrow> line_offset eol ls i \<le> line_offset eol ls j"
proof -
  assume "i \<le> j"
  then have "take j ls = take i ls @ take (j - i) (drop i ls)" by (metis le_add_diff_inverse take_add)
  then show ?thesis by (simp add: line_offset_def)
qed

lemma mm_offset_mono:
  assumes "mm_position m p" and "mm_position m q" and "p \<le> q"
  shows "mm_offset m p \<le> mm_offset m q"
proof -
  obtain i c where p: "lineNumber p = int i + 1" "column p = int c + 1" "i < length (mm_lines m)"
    "c \<le> length (mm_lines m ! i)" "mm_offset m p = line_offset (mm_eol m) (mm_lines m) i + c"
    using mm_position_index [OF assms(1)] .
  obtain j d where q: "lineNumber q = int j + 1" "column q = int d + 1" "j < length (mm_lines m)"
    "mm_offset m q = line_offset (mm_eol m) (mm_lines m) j + d"
    using mm_position_index [OF assms(2)] by metis
  consider "i = j" "c \<le> d" | "Suc i \<le> j" using assms(3) p(1,2) q(1,2) by (auto simp: position_order)
  then show ?thesis
  proof cases
    case 2
    have "line_offset (mm_eol m) (mm_lines m) (Suc i) =
        line_offset (mm_eol m) (mm_lines m) i + length (mm_lines m ! i) + length (mm_eol m)"
      using p(3) by (simp add: line_offset_def take_Suc_conv_app_nth)
    with line_offset_mono [OF 2, of "mm_eol m" "mm_lines m"] p(4,5) q(4) show ?thesis by simp
  qed (use p(5) q(4) in simp)
qed

lemma mm_offset_le: "mm_position m p \<Longrightarrow> mm_offset m p \<le> length (mm_text m)"
proof -
  assume "mm_position m p"
  then obtain i c where "i < length (mm_lines m)" "c \<le> length (mm_lines m ! i)"
    "mm_offset m p = line_offset (mm_eol m) (mm_lines m) i + c" using mm_position_index by metis
  then have "length (take (mm_offset m p) (mm_text m)) = mm_offset m p"
    using js_join_at(1) [of i "mm_lines m" c "mm_eol m"] by (simp add: mm_text_def length_js_join_before)
  then show ?thesis by simp
qed

lemma change_replacement_fits:
  assumes "change_fits ch m"
  shows "string_edit_fits [change_replacement ch] (int (length (mm_text m)))"
proof -
  let ?s = "Range_getStartPosition (ch_range ch)" and ?e = "Range_getEndPosition (ch_range ch)"
  have fits: "mm_position m ?s" "mm_position m ?e" "?s \<le> ?e" "ch_rangeOffset ch = int (mm_offset m ?s)"
    "ch_rangeOffset ch + ch_rangeLength ch = int (mm_offset m ?e)"
    using assms by (simp_all add: change_fits_def mm_range_def valid_range_def)
  then show ?thesis
    using mm_offset_le [OF fits(2)] mm_offset_mono [OF fits(1-3)]
    by (simp add: string_edit_fits_def change_replacement_def del: add.commute)
qed

lemma change_replacement_apply:
  assumes "change_fits ch m" and "js_join (mm_eol m) (splitLines (ch_text ch)) = ch_text ch"
  shows "StringEdit_apply [change_replacement ch] (mm_text m) = text_change (mm_eol m) ch (mm_text m)"
  using StringEdit_apply_eq [OF change_replacement_fits [OF assms(1)]] assms(2)
  by (simp add: apply_edits_Cons) (simp add: change_replacement_def text_change_def apply_edits_def seg_def)

lemma changes_sequential:
  assumes "mm_sync m" and "changes_fit chs m"
    and "\<forall>ch\<in>set chs. js_join (mm_eol m) (splitLines (ch_text ch)) = ch_text ch"
  shows "edits_fit (map (\<lambda>ch. [change_replacement ch]) chs) (mm_text m) \<and>
    foldl (\<lambda>t ch. text_change (mm_eol m) ch t) (mm_text m) chs =
      foldl (\<lambda>t ch. StringEdit_apply [change_replacement ch] t) (mm_text m) chs"
  using assms
proof (induction chs arbitrary: m)
  case (Cons ch chs)
  have ch: "change_fits ch m" using Cons.prems(2) by simp
  obtain st where st: "mm_acceptChanges [ch] m = Inr st" "mm_sync st" "mm_same m st"
    "mm_text st = text_change (mm_eol m) ch (mm_text m)"
    using mm_change_ok [OF Cons.prems(1) ch] by blast
  have "changes_fit chs st" using Cons.prems(2) st(1) by (simp del: mm_acceptChanges.simps)
  with Cons.IH [OF st(2)] Cons.prems(3) st(3,4) change_replacement_fits [OF ch]
    change_replacement_apply [OF ch] show ?case by (simp add: mm_same_def)
qed simp

text \<open>C19: the mirror follows the edit algebra. If the texts of the changes of an event have the line
  breaks of the document, then \<open>composeSequentialReplacements\<close> makes one string edit of them, and
  the text of the mirror behind the event is the result of applying it to the text in front of it.\<close>

theorem mirror_follows_string_edit:
  assumes "mm_inv m" and "changes_fit (ev_changes e) m" and "ev_eol e = mm_eol m"
    and "\<forall>ch\<in>set (ev_changes e). js_join (mm_eol m) (splitLines (ch_text ch)) = ch_text ch"
  shows "\<exists>m' ed. mm_onEvents e m = Inr m' \<and>
    composeSequentialReplacements (map change_replacement (ev_changes e)) = Inr ed \<and>
    fst (mm_getText m') = StringEdit_apply ed (fst (mm_getText m))"
proof -
  have eol: "mm_with_eol e m = m" using assms(3) by (simp add: mm_with_eol_def)
  have sync: "mm_sync m" "doc_size (mm_eol m) (mm_lines m) < 2147483648"
    using assms(1) by (simp_all add: mm_inv_def mm_sync_def)
  obtain m' where m': "mm_onEvents e m = Inr m'" "mm_inv m'" "mm_eol m' = mm_eol m"
    "mm_text m' = foldl (\<lambda>t ch. text_change (mm_eol m') ch t) (mm_text m) (ev_changes e)"
    using mm_onEvents_ok [OF assms(1), of e] assms(2) sync(2) eol by auto
  note seq = changes_sequential [OF sync(1) assms(2,4)]
  have "edits_fit (map (\<lambda>r. [r]) (map change_replacement (ev_changes e))) (mm_text m)"
    using seq by (simp add: comp_def)
  then obtain ed where "composeSequentialReplacements (map change_replacement (ev_changes e)) = Inr ed"
    "StringEdit_apply ed (mm_text m) = foldl (\<lambda>t r. StringEdit_apply [r] t) (mm_text m) (map change_replacement (ev_changes e))"
    using composeSequential_loop_correct [of "[]" "mm_text m" "[]" "map change_replacement (ev_changes e)"]
    by (auto simp: composeSequentialReplacements_def string_edit_fits_def foldl_map)
  with m' seq mm_getText_ok [OF assms(1)] mm_getText_ok [OF m'(2)] show ?thesis by (simp add: foldl_map)
qed

theorem mirror_follows_string_edit_witness:
  "\<exists>m' ed. mm_onEvents \<lparr>ev_changes = [\<lparr>ch_range = mk_Range 1 2 2 1, ch_rangeOffset = 1, ch_rangeLength = 2,
           ch_text = [120, 10, 121]\<rparr>], ev_eol = [10], ev_versionId = 2, ev_isUndoing = False, ev_isRedoing = False\<rparr>
        (mk_MirrorTextModel [] [[97, 98], [99]] [10] 1) = Inr m' \<and>
    composeSequentialReplacements (map change_replacement
      [\<lparr>ch_range = mk_Range 1 2 2 1, ch_rangeOffset = 1, ch_rangeLength = 2, ch_text = [120, 10, 121]\<rparr>]) = Inr ed \<and>
    fst (mm_getText m') =
      StringEdit_apply ed (fst (mm_getText (mk_MirrorTextModel [] [[97, 98], [99]] [10] 1)))"
proof -
  let ?m = "mk_MirrorTextModel [] [[97, 98], [99]] [10] 1"
  let ?chs = "[\<lparr>ch_range = mk_Range 1 2 2 1, ch_rangeOffset = 1, ch_rangeLength = 2, ch_text = [120, 10, 121]\<rparr>]"
  have "mm_inv ?m" by (simp add: mm_inv_def mm_sync_def mk_MirrorTextModel_def)
  moreover have "changes_fit ?chs ?m" by code_simp
  moreover have "mm_eol ?m = [10]" by code_simp
  moreover have "\<forall>ch\<in>set ?chs. js_join [10] (splitLines (ch_text ch)) = ch_text ch" by code_simp
  ultimately show ?thesis
    using mirror_follows_string_edit [of ?m "\<lparr>ev_changes = ?chs, ev_eol = [10], ev_versionId = 2,
      ev_isUndoing = False, ev_isRedoing = False\<rparr>"] by simp
qed



end
